(* ===== verification/Prelude.thy ===== *)
theory Prelude
  imports Main "HOL-Library.Word"
begin

text \<open>
  Shared vocabulary of the development: the allocator and exception monad of the engine's
  fallible C functions with its rules, bounded copies between arrays, and the facts on machine
  words that the components use.
\<close>

unbundle bit_operations_syntax

named_theorems js_spec_intros \<open>rules that decompose a \<open>js_spec\<close> goal\<close>
named_theorems unat_limb \<open>reading the result of a word operation as a natural number\<close>

section \<open>Machine words\<close>

type_synonym u8 = "8 word"
type_synonym u16 = "16 word"
type_synonym u32 = "32 word"
type_synonym u64 = "64 word"

text \<open>\<open>js_limb_t\<close> and \<open>js_dlimb_t\<close> in the 64-bit configuration (\<open>JS_LIMB_BITS\<close> = 64).\<close>

type_synonym limb = "64 word"
type_synonym dlimb = "128 word"

definition LB :: nat where
  "LB = 2 ^ 64"

lemma LB_pos [simp]: "0 < LB" "LB \<noteq> 0"
  by (simp_all add: LB_def)

lemma LB_gt_1 [simp]: "1 < LB" "Suc 0 < LB"
  by (simp_all add: LB_def)

lemma LB_ge_1 [simp]: "1 \<le> LB" "Suc 0 \<le> LB"
  by (simp_all add: LB_def)

lemma unat_less_LB [simp]: "unat (x::limb) < LB"
  using unsigned_less [of x] by (simp add: LB_def)

lemma unat_le_LB: "unat (x::limb) \<le> LB - 1"
  using unat_less_LB [of x] by linarith

lemma unat_dlimb_less [simp]: "unat (t::dlimb) < LB * LB"
  using unsigned_less [of t] by (simp add: LB_def)

lemma unat_add_limb_mod: "unat (x + y :: limb) = (unat x + unat y) mod LB"
  by (simp add: unat_word_ariths LB_def)

lemma unat_add_limb [unat_limb]:
  "unat (x + y :: limb) = (if unat x + unat y < LB then unat x + unat y else unat x + unat y - LB)"
  using unat_less_LB [of x] unat_less_LB [of y]
  by (simp add: unat_add_limb_mod le_mod_geq del: unat_less_LB)

lemma unat_mult_limb [unat_limb]: "unat (x * y :: limb) = (unat x * unat y) mod LB"
  by (simp add: unat_word_ariths LB_def)

lemma unat_sub_limb [unat_limb]:
  "unat (x - y :: limb) = (if unat y \<le> unat x then unat x - unat y else unat x + LB - unat y)"
  by (simp add: unat_sub_if' LB_def)

lemma unat_not_limb [unat_limb]: "unat (NOT x :: limb) = LB - 1 - unat x"
proof -
  have "NOT x = - 1 - x" by (simp add: not_eq_complement)
  moreover have "unat (- 1 :: limb) = LB - 1" by (simp add: LB_def unsigned_minus_1_eq_mask mask_eq_exp_minus_1)
  moreover have "unat x \<le> LB - 1" by (rule unat_le_LB)
  ultimately show ?thesis by (simp add: unat_sub_limb)
qed

lemma unat_neg_limb [unat_limb]:
  "unat (- x :: limb) = (if unat x = 0 then 0 else LB - unat x)"
  using unat_sub_limb [of 0 x] by simp

lemma unat_ucast_dlimb [unat_limb]: "unat (ucast (x::limb) :: dlimb) = unat x"
  by (simp add: unsigned_ucast_eq take_bit_nat_eq_self_iff) (rule less_trans [OF unsigned_less], simp)

lemma unat_ucast_limb [unat_limb]: "unat (ucast (t::dlimb) :: limb) = unat t mod LB"
  by (simp add: unsigned_ucast_eq take_bit_eq_mod LB_def)

lemma unat_dlimb_hi [unat_limb]: "unat (drop_bit 64 (t::dlimb)) = unat t div LB"
  by (simp add: unat_drop_bit_eq drop_bit_eq_div LB_def unat_div)

lemma unat_dlimb_hi_limb [unat_limb]:
  "unat (ucast (drop_bit 64 (t::dlimb)) :: limb) = unat t div LB"
  by (simp only: unat_ucast_limb unat_dlimb_hi) (simp add: less_mult_imp_div_less)

lemma unat_add_dlimb: "unat (s + t :: dlimb) = (unat s + unat t) mod (LB * LB)"
  by (simp add: unat_word_ariths LB_def)

lemma unat_mult_dlimb: "unat (s * t :: dlimb) = (unat s * unat t) mod (LB * LB)"
  by (simp add: unat_word_ariths LB_def)

lemma unat_sub_dlimb:
  "unat (s - t :: dlimb) = (if unat t \<le> unat s then unat s - unat t else unat s + LB * LB - unat t)"
  by (simp add: unat_sub_if' LB_def)

lemma or_eq_add_of_drop_bit:
  fixes a b :: "'a::len word"
  assumes "drop_bit n a = 0"
  shows "push_bit n b OR a = push_bit n b + a"
proof (rule disjunctive_add_eq_or [symmetric])
  have "\<not> bit a (n + j)" for j
    using assms by (metis bit_0_eq bit_drop_bit_eq bot_apply comp_apply bot_bool_def)
  then show "push_bit n b AND a = 0"
    by (intro bit_word_eqI) (auto simp: bit_simps le_iff_add)
qed

lemma unat_join_limbs [unat_limb]:
  "unat (push_bit 64 (ucast (x::limb) :: dlimb) OR ucast (y::limb)) = unat x * LB + unat y"
proof -
  have "drop_bit 64 (ucast y :: dlimb) = 0"
    by (rule unat_eq_zero [THEN iffD1]) (simp add: unat_dlimb_hi unat_ucast_dlimb)
  then have eq: "push_bit 64 (ucast x :: dlimb) OR ucast y = push_bit 64 (ucast x) + ucast y"
    by (rule or_eq_add_of_drop_bit)
  have "unat x * LB + unat y < (LB - 1) * LB + LB"
    using unat_le_LB [of x] by (intro add_le_less_mono mult_le_mono1) auto
  then have less: "unat x * LB + unat y < LB * LB"
    by (simp add: LB_def)
  then have "unat (push_bit 64 (ucast x :: dlimb)) = unat x * LB"
    by (simp add: push_bit_eq_mult unat_mult_dlimb unat_ucast_dlimb) (simp add: LB_def)
  with eq less show ?thesis
    by (simp add: unat_add_dlimb unat_ucast_dlimb)
qed


section \<open>Copies into an array\<close>

text \<open>
  \<open>blit buf off xs\<close> is the array after the C code has written \<open>xs\<close> at \<open>buf + off\<close>. A C
  function that works on the slice \<open>buf + off\<close> of an array is applied to \<open>array_slice buf off n\<close> and
  its result is copied back.
\<close>

definition blit :: "'a list \<Rightarrow> nat \<Rightarrow> 'a list \<Rightarrow> 'a list" where
  "blit buf off xs = take off buf @ xs @ drop (off + length xs) buf"

definition array_slice :: "'a list \<Rightarrow> nat \<Rightarrow> nat \<Rightarrow> 'a list" where
  "array_slice buf off n = take n (drop off buf)"

lemma length_blit [simp]: "off + length xs \<le> length buf \<Longrightarrow> length (blit buf off xs) = length buf"
  by (simp add: blit_def)

lemma length_array_slice [simp]: "off + n \<le> length buf \<Longrightarrow> length (array_slice buf off n) = n"
  by (simp add: array_slice_def)

lemma take_blit [simp]: "off \<le> length buf \<Longrightarrow> take off (blit buf off xs) = take off buf"
  by (simp add: blit_def)

lemma take_blit_whole: "off \<le> length buf \<Longrightarrow> n = off + length xs \<Longrightarrow> take n (blit buf off xs) = take off buf @ xs"
  by (simp add: blit_def)

lemma drop_blit [simp]: "n = off + length xs \<Longrightarrow> off \<le> length buf \<Longrightarrow> drop n (blit buf off xs) = drop n buf"
  by (simp add: blit_def)

lemma blit_0_whole [simp]: "length xs = length buf \<Longrightarrow> blit buf 0 xs = xs"
  by (simp add: blit_def)

section \<open>Exceptions and the allocator\<close>

text \<open>
  The fallible functions of the engine return \<open>NULL\<close> or \<open>JS_EXCEPTION\<close> after an error has been
  thrown into the context. They are computations over the answers of the allocator, which is not
  part of the program: each request consumes one answer, \<open>None\<close> for a failed request and
  \<open>Some junk\<close> for a block with the unspecified contents \<open>junk\<close>; a request after the last answer
  succeeds. Statements quantify over all answers. Releasing memory has no answer and is left out.
  \<open>Nontermination\<close> is the outcome of a loop that never ends and \<open>OutOfBounds\<close> that of an access outside
  of an array, a failed assertion or the use of a null pointer.
\<close>

datatype js_error =
    OutOfMemory
  | RangeError string
  | TypeError string
  | SyntaxError string
  | URIError string
  | InternalError string
  | OutOfBounds
  | Nontermination

type_synonym answers = "(nat \<Rightarrow> limb) option list"

type_synonym 'a js = "answers \<Rightarrow> (js_error + 'a) \<times> answers"

definition js_return :: "'a \<Rightarrow> 'a js" where
  "js_return x = (\<lambda>s. (Inr x, s))"

definition js_throw :: "js_error \<Rightarrow> 'a js" where
  "js_throw e = (\<lambda>s. (Inl e, s))"

definition js_bind :: "'a js \<Rightarrow> ('a \<Rightarrow> 'b js) \<Rightarrow> 'b js" where
  "js_bind m f = (\<lambda>s. case m s of (Inl e, s') \<Rightarrow> (Inl e, s') | (Inr x, s') \<Rightarrow> f x s')"

definition js_malloc_limbs :: "nat \<Rightarrow> limb list js" where
  "js_malloc_limbs n = (\<lambda>s. case s of
      [] \<Rightarrow> (Inr (replicate n 0), [])
    | None # s' \<Rightarrow> (Inl OutOfMemory, s')
    | Some junk # s' \<Rightarrow> (Inr (map junk [0..<n]), s'))"

text \<open>A block that the caller fills completely: only the success of the request matters.\<close>

definition js_malloc_block :: "unit js" where
  "js_malloc_block = (\<lambda>s. case s of
      [] \<Rightarrow> (Inr (), [])
    | None # s' \<Rightarrow> (Inl OutOfMemory, s')
    | Some junk # s' \<Rightarrow> (Inr (), s'))"

definition js_realloc_limbs :: "limb list \<Rightarrow> nat \<Rightarrow> limb list js" where
  "js_realloc_limbs p n = js_bind (js_malloc_limbs (n - length p)) (\<lambda>new. js_return (take n p @ new))"

text \<open>A call of \<open>js_realloc\<close> that shrinks a block and whose failure the caller ignores.\<close>

definition js_shrink_limbs :: "limb list \<Rightarrow> nat \<Rightarrow> limb list js" where
  "js_shrink_limbs p n = (\<lambda>s. (Inr (take n p), tl s))"

text \<open>
  \<open>js_spec m P E\<close>: with any answers of the allocator, \<open>m\<close> either returns a value that satisfies
  \<open>P\<close>, or throws an error that satisfies \<open>E\<close>, or throws \<open>OutOfMemory\<close> after a failed request.
\<close>

definition js_spec :: "'a js \<Rightarrow> ('a \<Rightarrow> bool) \<Rightarrow> (js_error \<Rightarrow> bool) \<Rightarrow> bool" where
  "js_spec m P E = (\<forall>s. set (snd (m s)) \<subseteq> set s \<and>
     (case fst (m s) of Inr x \<Rightarrow> P x | Inl e \<Rightarrow> E e \<or> (e = OutOfMemory \<and> None \<in> set s)))"

lemma js_spec_return [js_spec_intros]: "P x \<Longrightarrow> js_spec (js_return x) P E"
  by (simp add: js_spec_def js_return_def)

lemma js_spec_throw [js_spec_intros]: "E e \<Longrightarrow> js_spec (js_throw e) P E"
  by (simp add: js_spec_def js_throw_def)

lemma js_spec_bind [js_spec_intros]:
  assumes m: "js_spec m Q E" and f: "\<And>x. Q x \<Longrightarrow> js_spec (f x) P E"
  shows "js_spec (js_bind m f) P E"
  unfolding js_spec_def
proof
  fix s
  obtain r s' where ms: "m s = (r, s')" by (cases "m s")
  from m ms have sub: "set s' \<subseteq> set s" unfolding js_spec_def by (metis snd_conv)
  show "set (snd (js_bind m f s)) \<subseteq> set s \<and> (case fst (js_bind m f s) of
      Inl e \<Rightarrow> E e \<or> (e = OutOfMemory \<and> None \<in> set s) | Inr x \<Rightarrow> P x)"
  proof (cases r)
    case (Inl e)
    with m ms sub show ?thesis
      unfolding js_spec_def js_bind_def by (auto dest: spec [of _ s])
  next
    case (Inr x)
    with m ms have "Q x" unfolding js_spec_def by (auto dest: spec [of _ s])
    from f [OF this] have "set (snd (f x s')) \<subseteq> set s' \<and> (case fst (f x s') of
        Inl e \<Rightarrow> E e \<or> (e = OutOfMemory \<and> None \<in> set s') | Inr x \<Rightarrow> P x)"
      unfolding js_spec_def by blast
    with Inr ms sub show ?thesis
      by (auto simp: js_bind_def split: sum.splits)
  qed
qed

lemma js_spec_conseq:
  "js_spec m Q E' \<Longrightarrow> (\<And>x. Q x \<Longrightarrow> P x) \<Longrightarrow> (\<And>e. E' e \<Longrightarrow> E e) \<Longrightarrow> js_spec m P E"
  unfolding js_spec_def by (fastforce split: sum.splits)

lemma js_spec_if [js_spec_intros]:
  "(b \<Longrightarrow> js_spec m P E) \<Longrightarrow> (\<not> b \<Longrightarrow> js_spec m' P E) \<Longrightarrow> js_spec (if b then m else m') P E"
  by simp

lemma js_spec_malloc: "js_spec (js_malloc_limbs n) (\<lambda>p. length p = n) E"
  by (auto simp: js_spec_def js_malloc_limbs_def split: list.splits option.splits)

lemma js_spec_malloc_block: "js_spec js_malloc_block (\<lambda>_. True) E"
  by (auto simp: js_spec_def js_malloc_block_def split: list.splits option.splits)

lemma js_spec_realloc:
  assumes "length p \<le> n"
  shows "js_spec (js_realloc_limbs p n) (\<lambda>q. length q = n \<and> take (length p) q = p) E"
  unfolding js_realloc_limbs_def using assms
  by (intro js_spec_bind [OF js_spec_malloc] js_spec_return) simp

lemma js_spec_shrink [js_spec_intros]: "P (take n p) \<Longrightarrow> js_spec (js_shrink_limbs p n) P E"
  by (auto simp: js_spec_def js_shrink_limbs_def) (metis list.set_sel(2) tl_Nil)

text \<open>Running a computation under an allocator that never fails.\<close>

lemma js_spec_run:
  "js_spec m P E \<Longrightarrow> m s = (Inr x, s') \<Longrightarrow> P x"
  by (auto simp: js_spec_def dest: spec [of _ s])

lemma js_spec_succeeds:
  "js_spec m P (\<lambda>_. False) \<Longrightarrow> None \<notin> set s \<Longrightarrow> \<exists>x s'. m s = (Inr x, s') \<and> P x"
  by (cases "m s"; cases "fst (m s)") (auto simp: js_spec_def dest!: spec [of _ s])

section \<open>Growable arrays\<close>

text \<open>
  The reallocation function of growable arrays: like the allocator of the engine it consumes one
  answer per request. A grown block keeps its old contents; the rest is unspecified.
\<close>

definition mem_realloc :: "'a::len word list \<Rightarrow> nat \<Rightarrow> answers \<Rightarrow> 'a word list option \<times> answers" where
  "mem_realloc p n s = (case s of
      [] \<Rightarrow> (Some (take n p @ replicate (n - length p) 0), [])
    | None # s' \<Rightarrow> (None, s')
    | Some junk # s' \<Rightarrow> (Some (take n p @ map (\<lambda>i. ucast (junk i)) [0..<n - length p]), s'))"

lemma mem_realloc_cases:
  assumes "mem_realloc p n s = (r, s')" "length p \<le> n"
  obtains (ok) q where "r = Some q" "length q = n" "take (length p) q = p" "set s' \<subseteq> set s"
  | (failed) "r = None" "None \<in> set s" "set s' \<subseteq> set s"
  using assms by (force simp: mem_realloc_def split: list.splits option.splits)

end
