(* ===== verification/Limbs.thy ===== *)
theory Limbs
  imports Prelude
begin

text \<open>
  The multi-precision base of the BigInt code (\<open>ADDC\<close> and the \<open>mp_\<close> functions of
  \<open>quickjs.c\<close>): additions, subtractions, products and divisions on arrays of limbs, least
  significant limb first. A loop over the limbs of an array is a recursion over the list of the
  limbs, from the low end or, where the C loop counts down, from the high end.
\<close>

section \<open>Values of limb arrays\<close>

fun mp_val :: "limb list \<Rightarrow> nat" where
  "mp_val [] = 0"
| "mp_val (x # xs) = unat x + LB * mp_val xs"

lemma mp_val_append: "mp_val (xs @ ys) = mp_val xs + LB ^ length xs * mp_val ys"
  by (induction xs) (auto simp: algebra_simps)

lemma mp_val_bound: "mp_val xs < LB ^ length xs"
proof (induction xs)
  case (Cons x xs)
  have "unat x + LB * mp_val xs < LB + LB * mp_val xs" by simp
  also have "\<dots> = LB * Suc (mp_val xs)" by simp
  also have "\<dots> \<le> LB * LB ^ length xs" using Cons by (intro mult_le_mono2) simp
  finally show ?case by simp
qed simp

lemma mp_val_replicate_0 [simp]: "mp_val (replicate n 0) = 0"
  by (induction n) auto

lemma mp_val_snoc_0 [simp]: "mp_val (xs @ [0]) = mp_val xs"
  by (simp add: mp_val_append)

lemma mp_val_take_drop: "mp_val xs = mp_val (take n xs) + LB ^ min (length xs) n * mp_val (drop n xs)"
  by (metis append_take_drop_id length_take mp_val_append)

lemma mp_val_inj: "length xs = length ys \<Longrightarrow> mp_val xs = mp_val ys \<Longrightarrow> xs = ys"
proof (induction xs ys rule: list_induct2)
  case (Cons x xs y ys)
  have "unat x = (unat x + LB * mp_val xs) mod LB" by simp
  also have "\<dots> = (unat y + LB * mp_val ys) mod LB" using Cons.prems by simp
  also have "\<dots> = unat y" by simp
  finally have "unat x = unat y" .
  moreover with Cons.prems have "mp_val xs = mp_val ys" by simp
  ultimately show ?case using Cons.IH by (simp add: unsigned_word_eqI word_unat_eq_iff)
qed simp

section \<open>Addition, subtraction and negation\<close>

text \<open>The macro returns the sum and the carry out; carries are limbs that hold 0 or 1.\<close>

definition ADDC :: "limb \<Rightarrow> limb \<Rightarrow> limb \<Rightarrow> limb \<times> limb" where
  "ADDC op1 op2 carry_in =
     (let v = op1;
          a = v + op2;
          k1 = (a < v);
          k = carry_in;
          a' = a + k
      in (a', of_bool (a' < k \<or> k1)))"

fun mp_add :: "limb list \<Rightarrow> limb list \<Rightarrow> limb \<Rightarrow> limb list \<times> limb" where
  "mp_add (x # xs) (y # ys) carry =
     (let (r, carry1) = ADDC x y carry; (rs, carry2) = mp_add xs ys carry1 in (r # rs, carry2))"
| "mp_add _ _ carry = ([], carry)"

fun mp_sub :: "limb list \<Rightarrow> limb list \<Rightarrow> limb \<Rightarrow> limb list \<times> limb" where
  "mp_sub (x # xs) (y # ys) k =
     (let v = x;
          a = v - y;
          k1 = (a > v);
          v' = a - k;
          k' = of_bool (v' > a \<or> k1);
          (rs, k'') = mp_sub xs ys k'
      in (v' # rs, k''))"
| "mp_sub _ _ k = ([], k)"

fun mp_neg_loop :: "limb list \<Rightarrow> limb \<Rightarrow> limb list \<times> limb" where
  "mp_neg_loop [] carry = ([], carry)"
| "mp_neg_loop (x # xs) carry =
     (let v = NOT x + carry; carry' = of_bool (v < carry); (rs, carry'') = mp_neg_loop xs carry'
      in (v # rs, carry''))"

definition mp_neg :: "limb list \<Rightarrow> limb list \<times> limb" where
  "mp_neg op2 = mp_neg_loop op2 1"

lemma unat_of_bool [simp]: "unat (of_bool b :: limb) = of_bool b"
  by (cases b) auto

lemma ADDC_value:
  assumes "ADDC x y c = (r, c')" "unat c \<le> 1"
  shows "unat r + LB * unat c' = unat x + unat y + unat c" "unat c' \<le> 1"
proof -
  have r: "r = x + y + c" and c': "c' = of_bool (x + y + c < c \<or> x + y < x)"
    using assms(1) by (auto simp: ADDC_def Let_def)
  show "unat c' \<le> 1" by (simp add: c')
  have "unat x < LB" "unat y < LB" "1 < LB" by simp_all
  with assms(2) show "unat r + LB * unat c' = unat x + unat y + unat c"
    unfolding r c' by (cases "unat x + unat y < LB"; cases "unat x + unat y + unat c < LB")
      (auto simp: word_less_nat_alt unat_add_limb simp del: unat_less_LB LB_gt_1 split: if_splits)
qed

lemma mp_add_value:
  assumes "length xs = length ys" "mp_add xs ys c = (rs, c')" "unat c \<le> 1"
  shows "mp_val rs + LB ^ length xs * unat c' = mp_val xs + mp_val ys + unat c
       \<and> unat c' \<le> 1 \<and> length rs = length xs"
  using assms
proof (induction xs ys arbitrary: c rs c' rule: list_induct2)
  case (Cons x xs y ys)
  obtain r c1 where a: "ADDC x y c = (r, c1)" by fastforce
  obtain rs' c2 where b: "mp_add xs ys c1 = (rs', c2)" by fastforce
  from a b Cons.prems(1) have rs: "rs = r # rs'" and c': "c' = c2" by simp_all
  from ADDC_value [OF a Cons.prems(2)] have v: "unat r + LB * unat c1 = unat x + unat y + unat c"
    and "unat c1 \<le> 1" .
  from Cons.IH [OF b this(2)]
  have IH: "mp_val rs' + LB ^ length xs * unat c2 = mp_val xs + mp_val ys + unat c1"
    "unat c2 \<le> 1" "length rs' = length xs" by auto
  have "mp_val rs + LB ^ length (x # xs) * unat c' =
        unat r + LB * (mp_val rs' + LB ^ length xs * unat c2)"
    by (simp add: rs c' algebra_simps)
  also have "\<dots> = (unat r + LB * unat c1) + LB * (mp_val xs + mp_val ys)"
    by (simp only: IH(1)) (simp add: algebra_simps)
  also have "\<dots> = mp_val (x # xs) + mp_val (y # ys) + unat c"
    by (simp add: v algebra_simps)
  finally show ?case using IH rs c' by simp
qed simp

lemma sub_borrow:
  fixes x y k :: limb
  assumes "unat k \<le> 1"
  defines "a \<equiv> x - y"
  defines "k' \<equiv> (of_bool (a - k > a \<or> a > x) :: limb)"
  shows "unat (a - k) + unat y + unat k = unat x + LB * unat k'"
proof -
  have "unat x < LB" "unat y < LB" "1 < LB" by simp_all
  with assms(1) show ?thesis
    unfolding k'_def a_def
    by (cases "unat y \<le> unat x"; cases "unat y + unat k \<le> unat x")
      (auto simp: word_less_nat_alt unat_sub_limb simp del: unat_less_LB LB_gt_1)
qed

lemma mp_sub_value:
  assumes "length xs = length ys" "mp_sub xs ys k = (rs, k')" "unat k \<le> 1"
  shows "mp_val rs + mp_val ys + unat k = mp_val xs + LB ^ length xs * unat k'
       \<and> unat k' \<le> 1 \<and> length rs = length xs"
  using assms
proof (induction xs ys arbitrary: k rs k' rule: list_induct2)
  case (Cons x xs y ys)
  define a where "a = x - y"
  define k1 where "k1 = (of_bool (a - k > a \<or> a > x) :: limb)"
  obtain rs' k2 where b: "mp_sub xs ys k1 = (rs', k2)" by fastforce
  from b Cons.prems(1) have rs: "rs = (a - k) # rs'" and k': "k' = k2"
    by (simp_all add: Let_def a_def k1_def)
  have "unat k1 \<le> 1" by (simp add: k1_def)
  from Cons.IH [OF b this]
  have IH: "mp_val rs' + mp_val ys + unat k1 = mp_val xs + LB ^ length xs * unat k2"
    "unat k2 \<le> 1" "length rs' = length xs" by auto
  have v: "unat (a - k) + unat y + unat k = unat x + LB * unat k1"
    unfolding a_def k1_def by (rule sub_borrow) (rule Cons.prems(2))
  have "mp_val rs + mp_val (y # ys) + unat k = (unat (a - k) + unat y + unat k) + LB * (mp_val rs' + mp_val ys)"
    by (simp add: rs algebra_simps)
  also have "\<dots> = unat x + LB * (mp_val rs' + mp_val ys + unat k1)"
    by (simp only: v) (simp add: algebra_simps)
  also have "\<dots> = mp_val (x # xs) + LB ^ length (x # xs) * unat k'"
    by (simp only: IH(1)) (simp add: k' algebra_simps)
  finally show ?case using IH rs k' by simp
qed simp

lemma mp_neg_loop_value:
  assumes "mp_neg_loop xs c = (rs, c')" "unat c \<le> 1"
  shows "mp_val rs + mp_val xs + 1 + LB ^ length xs * unat c' = LB ^ length xs + unat c
       \<and> unat c' \<le> 1 \<and> length rs = length xs"
  using assms
proof (induction xs arbitrary: c rs c')
  case (Cons x xs)
  define v where "v = NOT x + c"
  define c1 where "c1 = (of_bool (v < c) :: limb)"
  obtain rs' c2 where b: "mp_neg_loop xs c1 = (rs', c2)" by fastforce
  from b Cons.prems(1) have rs: "rs = v # rs'" and c': "c' = c2"
    by (simp_all add: Let_def v_def c1_def)
  have "unat c1 \<le> 1" by (simp add: c1_def)
  from Cons.IH [OF b this]
  have IH: "mp_val rs' + mp_val xs + 1 + LB ^ length xs * unat c2 = LB ^ length xs + unat c1"
    "unat c2 \<le> 1" "length rs' = length xs" by auto
  have bx: "unat x < LB" by simp
  have e: "unat v + unat x + 1 + LB * unat c1 = LB + unat c"
  proof (cases "LB - 1 - unat x + unat c < LB")
    case True
    then show ?thesis using bx
      by (auto simp: v_def c1_def word_less_nat_alt unat_limb simp del: unat_less_LB)
  next
    case False
    with Cons.prems(2) bx have "unat x = 0" "unat c = 1" by linarith+
    then show ?thesis by (simp add: v_def c1_def word_less_nat_alt unat_limb)
  qed
  have "mp_val rs + mp_val (x # xs) + 1 + LB ^ length (x # xs) * unat c' + LB * unat c1
      = (unat v + unat x + 1 + LB * unat c1) + LB * (mp_val rs' + mp_val xs + LB ^ length xs * unat c2)"
    by (simp add: rs c' algebra_simps)
  also have "\<dots> = unat c + LB * (mp_val rs' + mp_val xs + 1 + LB ^ length xs * unat c2)"
    by (simp only: e) (simp add: algebra_simps)
  also have "\<dots> = unat c + LB * (LB ^ length xs + unat c1)"
    by (simp only: IH(1))
  finally have "mp_val rs + mp_val (x # xs) + 1 + LB ^ length (x # xs) * unat c' = LB ^ length (x # xs) + unat c"
    by (simp add: algebra_simps)
  with IH rs c' show ?case by simp
qed simp

lemma length_mp_neg [simp]: "length (fst (mp_neg xs)) = length xs"
  using mp_neg_loop_value [of xs 1] by (cases "mp_neg xs") (simp add: mp_neg_def)

text \<open>The two's complement of the array's value.\<close>

lemma mp_neg_value: "mp_val (fst (mp_neg xs)) = (if mp_val xs = 0 then 0 else LB ^ length xs - mp_val xs)"
proof -
  obtain rs c where e: "mp_neg_loop xs 1 = (rs, c)" by fastforce
  from mp_neg_loop_value [OF e] have v: "mp_val rs + mp_val xs + LB ^ length xs * unat c = LB ^ length xs"
    "unat c \<le> 1" "length rs = length xs" by auto
  have "mp_val rs < LB ^ length xs" using mp_val_bound [of rs] v(3) by simp
  moreover have "unat c = 0 \<or> unat c = 1" using v(2) by linarith
  ultimately show ?thesis using v(1) mp_val_bound [of xs]
    by (auto simp: mp_neg_def e)
qed

section \<open>Products with one limb\<close>

fun mp_mul1 :: "limb list \<Rightarrow> limb \<Rightarrow> limb \<Rightarrow> limb list \<times> limb" where
  "mp_mul1 [] b l = ([], l)"
| "mp_mul1 (x # xs) b l =
     (let t = (ucast x :: dlimb) * (ucast b :: dlimb) + ucast l;
          (rs, h) = mp_mul1 xs b (ucast (drop_bit 64 t))
      in (ucast t # rs, h))"

fun mp_add_mul1_loop :: "limb list \<Rightarrow> limb list \<Rightarrow> limb \<Rightarrow> limb \<Rightarrow> limb list \<times> limb" where
  "mp_add_mul1_loop (r # rs) (x # xs) b l =
     (let t = (ucast x :: dlimb) * (ucast b :: dlimb) + ucast l + ucast r;
          (rs', h) = mp_add_mul1_loop rs xs b (ucast (drop_bit 64 t))
      in (ucast t # rs', h))"
| "mp_add_mul1_loop _ _ b l = ([], l)"

definition mp_add_mul1 :: "limb list \<Rightarrow> limb list \<Rightarrow> limb \<Rightarrow> limb list \<times> limb" where
  "mp_add_mul1 tabr taba b = mp_add_mul1_loop tabr taba b 0"

fun mp_sub_mul1_loop :: "limb list \<Rightarrow> limb list \<Rightarrow> limb \<Rightarrow> limb \<Rightarrow> limb list \<times> limb" where
  "mp_sub_mul1_loop (r # rs) (x # xs) b l =
     (let t = ucast r - (ucast x :: dlimb) * (ucast b :: dlimb) - ucast l;
          (rs', h) = mp_sub_mul1_loop rs xs b (ucast (- drop_bit 64 t))
      in (ucast t # rs', h))"
| "mp_sub_mul1_loop _ _ b l = ([], l)"

definition mp_sub_mul1 :: "limb list \<Rightarrow> limb list \<Rightarrow> limb \<Rightarrow> limb list \<times> limb" where
  "mp_sub_mul1 tabr taba b = mp_sub_mul1_loop tabr taba b 0"

lemma limb_prod_le: "unat (x::limb) * unat (b::limb) \<le> (LB - 1) * (LB - 1)"
  using unat_le_LB [of x] unat_le_LB [of b] by (rule mult_le_mono)

lemma LB_square: "(LB - 1) * (LB - 1) + (LB - 1) + (LB - 1) + 1 = LB * LB"
  by (simp add: LB_def)

lemma unat_mul_add:
  "unat ((ucast (x::limb) :: dlimb) * ucast (b::limb) + ucast (l::limb) + ucast (r::limb))
     = unat x * unat b + unat l + unat r"
proof -
  have "unat x * unat b + unat l + unat r < LB * LB"
    using limb_prod_le [of x b] unat_le_LB [of l] unat_le_LB [of r] LB_square by linarith
  then show ?thesis
    by (simp add: unat_add_dlimb unat_mult_dlimb unat_ucast_dlimb)
qed

lemma mp_add_mul1_loop_value:
  assumes "length rs = length xs" "mp_add_mul1_loop rs xs b l = (rs', h)"
  shows "mp_val rs' + LB ^ length xs * unat h = mp_val rs + mp_val xs * unat b + unat l
       \<and> length rs' = length xs"
  using assms
proof (induction rs xs arbitrary: l rs' h rule: list_induct2)
  case (Cons r rs x xs)
  define t where "t = (ucast x :: dlimb) * ucast b + ucast l + ucast r"
  obtain rs1 h1 where b: "mp_add_mul1_loop rs xs b (ucast (drop_bit 64 t)) = (rs1, h1)" by fastforce
  from b Cons.prems have rs': "rs' = ucast t # rs1" "h = h1" by (simp_all add: Let_def t_def)
  from Cons.IH [OF b]
  have IH: "mp_val rs1 + LB ^ length xs * unat h1 = mp_val rs + mp_val xs * unat b + unat t div LB"
    "length rs1 = length xs" by (simp_all add: unat_dlimb_hi_limb)
  have t: "unat t = unat x * unat b + unat l + unat r" unfolding t_def by (rule unat_mul_add)
  have "mp_val rs' + LB ^ length (x # xs) * unat h = unat t mod LB + LB * (mp_val rs1 + LB ^ length xs * unat h1)"
    by (simp add: rs' unat_ucast_limb algebra_simps)
  also have "\<dots> = (unat t mod LB + LB * (unat t div LB)) + LB * (mp_val rs + mp_val xs * unat b)"
    by (simp only: IH(1)) (simp add: algebra_simps)
  also have "\<dots> = unat t + LB * (mp_val rs + mp_val xs * unat b)"
    by simp
  also have "\<dots> = mp_val (r # rs) + mp_val (x # xs) * unat b + unat l"
    by (simp add: t algebra_simps)
  finally show ?case using IH(2) rs' by simp
qed simp

lemma mp_mul1_eq_add_mul1: "mp_mul1 xs b l = mp_add_mul1_loop (replicate (length xs) 0) xs b l"
  by (induction xs arbitrary: l) (auto simp: Let_def)

lemma mp_mul1_value:
  assumes "mp_mul1 xs b l = (rs, h)"
  shows "mp_val rs + LB ^ length xs * unat h = mp_val xs * unat b + unat l" "length rs = length xs"
  using mp_add_mul1_loop_value [of "replicate (length xs) 0" xs b l rs h] assms
  by (simp_all add: mp_mul1_eq_add_mul1)

lemma unat_sub_mul:
  fixes r x b l :: limb
  defines "t \<equiv> ucast r - (ucast x :: dlimb) * ucast b - ucast l"
  shows "unat (ucast t :: limb) + unat x * unat b + unat l = unat r + LB * unat (ucast (- drop_bit 64 t) :: limb)"
proof -
  let ?p = "unat x * unat b"
  have p: "unat ((ucast x :: dlimb) * ucast b) = ?p"
    using unat_mul_add [of x b 0 0] by simp
  have bounds: "?p \<le> (LB - 1) * (LB - 1)" "unat l \<le> LB - 1" "unat r \<le> LB - 1"
    by (rule limb_prod_le, rule unat_le_LB, rule unat_le_LB)
  have LL: "(LB - 1) * (LB - 1) + (LB - 1) + LB = LB * LB" by (simp add: LB_def)
  have neg: "unat (ucast (- drop_bit 64 t) :: limb) = (if unat t div LB = 0 then 0 else LB - unat t div LB)"
  proof -
    have d: "unat t div LB < LB" by (simp add: less_mult_imp_div_less)
    have eq: "unat (- drop_bit 64 t) = (if unat t div LB = 0 then 0 else LB * LB - unat t div LB)"
      using unat_sub_dlimb [of 0 "drop_bit 64 t"] by (auto simp: unat_dlimb_hi)
    show ?thesis
    proof (cases "unat t div LB = 0")
      case False
      with d have e: "LB * LB - unat t div LB = (LB - unat t div LB) + LB * (LB - 1)"
        by (simp add: diff_mult_distrib2)
      have "unat (ucast (- drop_bit 64 t) :: limb) = (LB * LB - unat t div LB) mod LB"
        using False eq by (simp only: unat_ucast_limb if_False)
      also have "\<dots> = LB - unat t div LB"
        using False d by (simp only: e mod_mult_self2) simp
      finally show ?thesis using False by (simp only: if_False)
    qed (simp add: unat_ucast_limb eq)
  qed
  have split: "unat t = LB * (unat t div LB) + unat t mod LB" by simp
  show ?thesis
  proof (cases "?p + unat l \<le> unat r")
    case True
    then have "unat t = unat r - ?p - unat l"
      by (simp add: t_def unat_sub_dlimb unat_ucast_dlimb p)
    moreover from this have lt: "unat t < LB" using bounds(3) LB_pos(1) by linarith
    have "unat (ucast (- drop_bit 64 t) :: limb) = 0" using neg lt by simp
    moreover have "unat (ucast t :: limb) = unat t" using lt by (simp add: unat_ucast_limb)
    ultimately show ?thesis using True by simp
  next
    case False
    have t: "unat t = unat r + LB * LB - ?p - unat l"
      using False bounds LL by (auto simp: t_def unat_sub_dlimb unat_ucast_dlimb p)
    have "LB \<le> unat t" using t bounds LL by linarith
    then have d0: "unat t div LB \<noteq> 0" by (simp add: div_greater_zero_iff)
    have "unat t div LB \<le> LB" using unat_dlimb_less [of t] by (simp add: less_mult_imp_div_less less_imp_le)
    then have "LB * (LB - unat t div LB) + LB * (unat t div LB) = LB * LB"
      by (simp add: diff_mult_distrib2)
    moreover have "unat t + ?p + unat l = unat r + LB * LB" using t bounds LL by linarith
    ultimately have "unat t mod LB + ?p + unat l = unat r + LB * (LB - unat t div LB)"
      using split by linarith
    then show ?thesis using d0 neg by (simp add: unat_ucast_limb [of t])
  qed
qed

lemma mp_sub_mul1_loop_value:
  assumes "length rs = length xs" "mp_sub_mul1_loop rs xs b l = (rs', h)"
  shows "mp_val rs' + mp_val xs * unat b + unat l = mp_val rs + LB ^ length xs * unat h
       \<and> length rs' = length xs"
  using assms
proof (induction rs xs arbitrary: l rs' h rule: list_induct2)
  case (Cons r rs x xs)
  define t where "t = ucast r - (ucast x :: dlimb) * ucast b - ucast l"
  define l1 where "l1 = (ucast (- drop_bit 64 t) :: limb)"
  obtain rs1 h1 where b: "mp_sub_mul1_loop rs xs b l1 = (rs1, h1)" by fastforce
  from b Cons.prems have rs': "rs' = ucast t # rs1" "h = h1" by (simp_all add: Let_def t_def l1_def)
  from Cons.IH [OF b]
  have IH: "mp_val rs1 + mp_val xs * unat b + unat l1 = mp_val rs + LB ^ length xs * unat h1"
    "length rs1 = length xs" by simp_all
  have t: "unat (ucast t :: limb) + unat x * unat b + unat l = unat r + LB * unat l1"
    unfolding t_def l1_def by (rule unat_sub_mul)
  have "mp_val rs' + mp_val (x # xs) * unat b + unat l
      = (unat (ucast t :: limb) + unat x * unat b + unat l) + LB * (mp_val rs1 + mp_val xs * unat b)"
    by (simp add: rs' algebra_simps)
  also have "\<dots> = unat r + LB * (mp_val rs1 + mp_val xs * unat b + unat l1)"
    by (simp only: t) (simp add: algebra_simps)
  also have "\<dots> = mp_val (r # rs) + LB ^ length (x # xs) * unat h"
    by (simp only: IH(1)) (simp add: rs' algebra_simps)
  finally show ?case using IH(2) rs' by simp
qed simp

section \<open>The schoolbook product\<close>

fun mp_mul_rows :: "limb list \<Rightarrow> limb list \<Rightarrow> nat \<Rightarrow> limb list \<Rightarrow> limb list" where
  "mp_mul_rows result op1 i [] = result"
| "mp_mul_rows result op1 i (y # ys) =
     (let (row, r) = mp_add_mul1 (array_slice result i (length op1)) op1 y
      in mp_mul_rows (blit result i (row @ [r])) op1 (Suc i) ys)"

definition mp_mul_basecase :: "limb list \<Rightarrow> limb list \<Rightarrow> limb list \<Rightarrow> limb list" where
  "mp_mul_basecase result op1 op2 =
     (let (row, h) = mp_mul1 op1 (op2 ! 0) 0
      in mp_mul_rows (blit result 0 (row @ [h])) op1 1 (tl op2))"

lemma mp_mul_rows_value:
  assumes "length result = i + length op1 + length ys"
    and "mp_val (take (i + length op1) result) = mp_val op1 * v"
  shows "mp_val (mp_mul_rows result op1 i ys) = mp_val op1 * (v + LB ^ i * mp_val ys)
       \<and> length (mp_mul_rows result op1 i ys) = length result"
  using assms
proof (induction ys arbitrary: result i v)
  case (Cons y ys)
  let ?n = "length op1"
  obtain row r where row: "mp_add_mul1 (array_slice result i ?n) op1 y = (row, r)" by fastforce
  define result' where "result' = blit result i (row @ [r])"
  have "length (array_slice result i ?n) = ?n" using Cons.prems(1) by simp
  from mp_add_mul1_loop_value [OF this row [unfolded mp_add_mul1_def]]
  have rv: "mp_val row + LB ^ ?n * unat r = mp_val (array_slice result i ?n) + mp_val op1 * unat y"
    and lr: "length row = ?n" by simp_all
  have len: "length result' = Suc i + ?n + length ys"
    using Cons.prems(1) lr by (simp add: result'_def)
  have tk: "take (Suc i + ?n) result' = take i result @ row @ [r]"
    using Cons.prems(1) lr by (simp add: result'_def take_blit_whole)
  have old: "mp_val (take i result) + LB ^ i * mp_val (array_slice result i ?n) = mp_val op1 * v"
  proof -
    have "take (i + ?n) result = take i result @ array_slice result i ?n"
      by (simp add: array_slice_def take_add)
    with Cons.prems show ?thesis by (simp add: mp_val_append)
  qed
  have "mp_val (take (Suc i + ?n) result') = mp_val (take i result) + LB ^ i * (mp_val row + LB ^ ?n * unat r)"
    unfolding tk using Cons.prems(1) lr by (simp add: mp_val_append)
  also have "\<dots> = mp_val op1 * (v + LB ^ i * unat y)"
    unfolding rv using old by (simp add: algebra_simps)
  finally have "mp_val (take (Suc i + ?n) result') = mp_val op1 * (v + LB ^ i * unat y)" .
  from Cons.IH [OF len this] show ?case
    using row len Cons.prems(1) by (simp add: result'_def algebra_simps)
qed simp

lemma mp_mul_basecase_value:
  assumes "length result = length op1 + length op2" "op2 \<noteq> []"
  shows "mp_val (mp_mul_basecase result op1 op2) = mp_val op1 * mp_val op2"
    "length (mp_mul_basecase result op1 op2) = length op1 + length op2"
proof -
  obtain y ys where op2: "op2 = y # ys" using assms(2) by (cases op2) auto
  obtain row h where row: "mp_mul1 op1 y 0 = (row, h)" by fastforce
  note rv = mp_mul1_value [OF row]
  define result' where "result' = blit result 0 (row @ [h])"
  have len: "length result' = 1 + length op1 + length ys"
    using assms(1) rv(2) by (simp add: result'_def op2)
  have "mp_val (take (1 + length op1) result') = mp_val op1 * unat y"
    using rv by (simp add: result'_def take_blit_whole mp_val_append)
  from mp_mul_rows_value [OF len this]
  show "mp_val (mp_mul_basecase result op1 op2) = mp_val op1 * mp_val op2"
    "length (mp_mul_basecase result op1 op2) = length op1 + length op2"
    using row len by (simp_all add: mp_mul_basecase_def result'_def op2)
qed

end
