(* ===== verification/LimbDiv.thy ===== *)
theory LimbDiv
  imports Limbs
begin

text \<open>
  Division of limb arrays: by one limb (\<open>mp_div1\<close>), with a precomputed reciprocal
  (\<open>udiv1norm\<close>), and Knuth's algorithm D (\<open>mp_divnorm\<close>); the shifts that normalise the operands.
\<close>

section \<open>Shifts\<close>

fun mp_shl_loop :: "limb list \<Rightarrow> nat \<Rightarrow> limb \<Rightarrow> limb list \<times> limb" where
  "mp_shl_loop [] shift l = ([], l)"
| "mp_shl_loop (v # vs) shift l =
     (let (rs, h) = mp_shl_loop vs shift (drop_bit (64 - shift) v)
      in ((push_bit shift v OR l) # rs, h))"

definition mp_shl :: "limb list \<Rightarrow> nat \<Rightarrow> limb list \<times> limb" where
  "mp_shl taba shift = mp_shl_loop taba shift 0"

fun mp_shr_loop :: "limb list \<Rightarrow> nat \<Rightarrow> limb \<Rightarrow> limb list \<times> limb" where
  "mp_shr_loop [] shift high = ([], high)"
| "mp_shr_loop (a # as) shift high =
     (let (rs, l) = mp_shr_loop as shift high
      in ((drop_bit shift a OR push_bit (64 - shift) l) # rs, a))"

definition mp_shr :: "limb list \<Rightarrow> nat \<Rightarrow> limb \<Rightarrow> limb list \<times> limb" where
  "mp_shr tab shift high =
     (let (rs, l) = mp_shr_loop tab shift high in (rs, l AND (push_bit shift 1 - 1)))"

lemma less_LB_square: "x < LB \<Longrightarrow> x < LB * LB"
  by (simp add: LB_def)

lemma unat_push_bit_limb: "unat (push_bit n (x::limb)) = (unat x * 2 ^ n) mod LB"
proof -
  have "unat (push_bit n x) = take_bit 64 (push_bit n (unat x))"
    by (simp add: unsigned_push_bit_eq)
  then show ?thesis by (simp add: push_bit_eq_mult take_bit_eq_mod LB_def)
qed

lemma unat_drop_bit_limb: "unat (drop_bit n (x::limb)) = unat x div 2 ^ n"
  by (simp add: unat_drop_bit_eq flip: drop_bit_eq_div)

lemma LB_split: "s \<le> 64 \<Longrightarrow> LB = 2 ^ s * 2 ^ (64 - s)"
  by (simp add: LB_def flip: power_add)

lemma mult_pow_mod_LB: "s \<le> 64 \<Longrightarrow> (v * 2 ^ s) mod LB = 2 ^ s * (v mod 2 ^ (64 - s))"
  using LB_split [of s] by (simp add: mult_mod_right mult.commute)

lemma mult_pow_div_LB: "s \<le> 64 \<Longrightarrow> (v * 2 ^ s) div LB = v div 2 ^ (64 - s)"
  by (simp only: LB_split mult.commute [of v] div_mult_mult1_if) simp

lemma unat_mask_limb: "s < 64 \<Longrightarrow> unat ((l::limb) AND (push_bit s 1 - 1)) = unat l mod 2 ^ s"
proof -
  assume "s < 64"
  have "push_bit s 1 - 1 = (mask s :: limb)" by (simp add: mask_eq_exp_minus_1 push_bit_eq_mult)
  then have "l AND (push_bit s 1 - 1) = take_bit s l" by (simp only: take_bit_eq_mask)
  moreover have "unat (take_bit s l) = take_bit s (unat l)" by (rule unsigned_take_bit_eq)
  ultimately show ?thesis by (simp only: take_bit_eq_mod)
qed

lemma push_or_limb:
  assumes "s < 64" "unat (l::limb) < 2 ^ s"
  shows "unat (push_bit s v OR l) = (unat v * 2 ^ s) mod LB + unat l"
proof -
  have "drop_bit s l = 0"
    by (rule unat_eq_zero [THEN iffD1]) (use assms(2) in \<open>simp add: unat_drop_bit_limb\<close>)
  then have e: "push_bit s v OR l = push_bit s v + l" by (rule or_eq_add_of_drop_bit)
  have m: "(unat v * 2 ^ s) mod LB = 2 ^ s * (unat v mod 2 ^ (64 - s))"
    using assms(1) by (simp add: mult_pow_mod_LB)
  have "(unat v * 2 ^ s) mod LB + unat l < 2 ^ s * (unat v mod 2 ^ (64 - s)) + 2 ^ s"
    using assms(2) by (simp add: m)
  also have "\<dots> = 2 ^ s * Suc (unat v mod 2 ^ (64 - s))" by simp
  also have "\<dots> \<le> 2 ^ s * 2 ^ (64 - s)" by (intro mult_le_mono2) (simp add: Suc_le_eq)
  also have "\<dots> = LB" using LB_split [of s] assms(1) by simp
  finally have "(unat v * 2 ^ s) mod LB + unat l < LB" .
  then show ?thesis by (simp add: e unat_add_limb unat_push_bit_limb)
qed

lemma mp_shl_loop_value:
  assumes "mp_shl_loop vs s l = (rs, h)" "0 < s" "s < 64" "unat l < 2 ^ s"
  shows "mp_val rs + LB ^ length vs * unat h = mp_val vs * 2 ^ s + unat l
       \<and> length rs = length vs \<and> unat h < 2 ^ s"
  using assms
proof (induction vs arbitrary: l rs h)
  case (Cons v vs)
  obtain rs1 h1 where b: "mp_shl_loop vs s (drop_bit (64 - s) v) = (rs1, h1)" by fastforce
  from b Cons.prems have rs: "rs = (push_bit s v OR l) # rs1" "h = h1" by (simp_all add: Let_def)
  have hi: "unat (drop_bit (64 - s) v) = (unat v * 2 ^ s) div LB"
    using \<open>s < 64\<close> by (simp add: unat_drop_bit_limb mult_pow_div_LB)
  have "unat (drop_bit (64 - s) v) < 2 ^ s"
    using unat_less_LB [of v] LB_split [of s] \<open>s < 64\<close>
    by (simp add: unat_drop_bit_limb less_mult_imp_div_less mult.commute)
  from Cons.IH [OF b Cons.prems(2,3) this]
  have IH: "mp_val rs1 + LB ^ length vs * unat h1 = mp_val vs * 2 ^ s + unat v * 2 ^ s div LB"
    "length rs1 = length vs" "unat h1 < 2 ^ s" by (simp_all add: hi)
  have "mp_val rs + LB ^ length (v # vs) * unat h
      = (unat v * 2 ^ s) mod LB + unat l + LB * (mp_val rs1 + LB ^ length vs * unat h1)"
    by (simp add: rs push_or_limb Cons.prems algebra_simps)
  also have "\<dots> = ((unat v * 2 ^ s) mod LB + LB * (unat v * 2 ^ s div LB)) + unat l + LB * (mp_val vs * 2 ^ s)"
    by (simp only: IH(1)) (simp only: algebra_simps)
  also have "\<dots> = mp_val (v # vs) * 2 ^ s + unat l" by (simp add: algebra_simps)
  finally show ?case using IH rs by simp
qed simp

lemma mp_shl_value:
  assumes "mp_shl vs s = (rs, h)" "0 < s" "s < 64"
  shows "mp_val rs + LB ^ length vs * unat h = mp_val vs * 2 ^ s" "length rs = length vs" "unat h < 2 ^ s"
  using mp_shl_loop_value [of vs s 0 rs h] assms by (simp_all add: mp_shl_def)

lemma mp_shr_loop_value:
  assumes "mp_shr_loop vs s high = (rs, l)" "0 < s" "s < 64"
  shows "mp_val rs + LB ^ length vs * (unat high div 2 ^ s) = (mp_val vs + LB ^ length vs * unat high) div 2 ^ s
       \<and> length rs = length vs \<and> unat l mod 2 ^ s = (mp_val vs + LB ^ length vs * unat high) mod 2 ^ s"
  using assms
proof (induction vs arbitrary: rs l)
  case (Cons a vs)
  let ?H = "unat high" and ?V = "mp_val vs + LB ^ length vs * unat high"
  obtain rs1 l1 where b: "mp_shr_loop vs s high = (rs1, l1)" by fastforce
  from b Cons.prems have rs: "rs = (drop_bit s a OR push_bit (64 - s) l1) # rs1" "l = a"
    by (auto simp: Let_def)
  from Cons.IH [OF b Cons.prems(2,3)]
  have IH: "mp_val rs1 + LB ^ length vs * (?H div 2 ^ s) = ?V div 2 ^ s"
    "length rs1 = length vs" "unat l1 mod 2 ^ s = ?V mod 2 ^ s" by auto
  have LBs: "LB = 2 ^ s * 2 ^ (64 - s)" using LB_split [of s] \<open>s < 64\<close> by simp
  have LBV: "LB * q = 2 ^ (64 - s) * (2 ^ s * q)" for q
    by (subst LBs) (simp only: ac_simps)
  have a: "unat (drop_bit s a) < 2 ^ (64 - s)"
    using unat_less_LB [of a] LBs by (simp add: unat_drop_bit_limb less_mult_imp_div_less mult.commute)
  have "unat (drop_bit s a OR push_bit (64 - s) l1) = (unat l1 * 2 ^ (64 - s)) mod LB + unat a div 2 ^ s"
    using push_or_limb [of "64 - s" "drop_bit s a" l1] a Cons.prems
    by (simp add: or.commute unat_drop_bit_limb)
  also have "(unat l1 * 2 ^ (64 - s)) mod LB = 2 ^ (64 - s) * (?V mod 2 ^ s)"
    using mult_pow_mod_LB [of "64 - s" "unat l1"] IH(3) \<open>s < 64\<close> by simp
  finally have hd: "unat (drop_bit s a OR push_bit (64 - s) l1) = 2 ^ (64 - s) * (?V mod 2 ^ s) + unat a div 2 ^ s" .
  have "mp_val rs + LB ^ length (a # vs) * (?H div 2 ^ s)
      = unat a div 2 ^ s + 2 ^ (64 - s) * (?V mod 2 ^ s) + LB * (mp_val rs1 + LB ^ length vs * (?H div 2 ^ s))"
    by (simp add: rs hd algebra_simps)
  also have "\<dots> = unat a div 2 ^ s + 2 ^ (64 - s) * (?V mod 2 ^ s + 2 ^ s * (?V div 2 ^ s))"
    by (simp only: IH(1) LBV distrib_left add.assoc)
  also have "\<dots> = unat a div 2 ^ s + 2 ^ (64 - s) * ?V" by simp
  also have "\<dots> = (unat a + 2 ^ s * (2 ^ (64 - s) * ?V)) div 2 ^ s" by simp
  also have V: "unat a + 2 ^ s * (2 ^ (64 - s) * ?V) = mp_val (a # vs) + LB ^ length (a # vs) * ?H"
    by (simp only: mult.assoc [symmetric] LBs [symmetric]) (simp add: algebra_simps)
  finally have 1: "mp_val rs + LB ^ length (a # vs) * (?H div 2 ^ s) = (mp_val (a # vs) + LB ^ length (a # vs) * ?H) div 2 ^ s" .
  have "(mp_val (a # vs) + LB ^ length (a # vs) * ?H) mod 2 ^ s = unat a mod 2 ^ s"
    by (simp only: V [symmetric] mod_mult_self2)
  with 1 show ?case using IH(2) rs by simp
qed simp

section \<open>Division by one limb\<close>

fun mp_div1 :: "limb list \<Rightarrow> limb \<Rightarrow> limb \<Rightarrow> limb list \<times> limb" where
  "mp_div1 [] b r = ([], r)"
| "mp_div1 (x # xs) b r =
     (let (qs, r1) = mp_div1 xs b r;
          a1 = push_bit 64 (ucast r1 :: dlimb) OR ucast x
      in (ucast (a1 div ucast b) # qs, ucast (a1 mod ucast b)))"

text \<open>The reciprocal of a normalised divisor, and the division that uses it.\<close>

definition udiv1norm_init :: "limb \<Rightarrow> limb" where
  "udiv1norm_init d =
     (let a1 = - d - 1; a0 = - 1
      in ucast ((push_bit 64 (ucast a1 :: dlimb) OR ucast (a0 :: limb)) div ucast d))"

definition udiv1norm :: "limb \<Rightarrow> limb \<Rightarrow> limb \<Rightarrow> limb \<Rightarrow> limb \<times> limb" where
  "udiv1norm a1 a0 d d_inv =
     (let n1m = signed_drop_bit 63 a0;
          n_adj = a0 + (n1m AND d);
          a = (ucast d_inv :: dlimb) * ucast (a1 - n1m) + ucast n_adj;
          q = ucast (drop_bit 64 a + ucast a1) :: limb;
          a = push_bit 64 (ucast a1 :: dlimb) OR ucast a0;
          a = a - ucast q * ucast d - ucast d;
          ah = ucast (drop_bit 64 a);
          q = q + (1 + ah);
          r = ucast a + (ah AND d)
      in (q, r))"

definition UDIV1NORM_THRESHOLD :: nat where
  "UDIV1NORM_THRESHOLD = 3"

fun mp_div1norm_inv :: "limb list \<Rightarrow> limb \<Rightarrow> limb \<Rightarrow> limb \<Rightarrow> limb list \<times> limb" where
  "mp_div1norm_inv [] b b_inv r = ([], r)"
| "mp_div1norm_inv (x # xs) b b_inv r =
     (let (qs, r1) = mp_div1norm_inv xs b b_inv r; (q, r') = udiv1norm r1 x b b_inv in (q # qs, r'))"

definition mp_div1norm :: "limb list \<Rightarrow> limb \<Rightarrow> limb \<Rightarrow> limb list \<times> limb" where
  "mp_div1norm taba b r =
     (if length taba \<ge> UDIV1NORM_THRESHOLD
      then mp_div1norm_inv taba b (udiv1norm_init b) r
      else mp_div1 taba b r)"

lemma join_div_mod:
  fixes r b x :: limb
  assumes "unat r < unat b"
  defines "a \<equiv> push_bit 64 (ucast r :: dlimb) OR ucast x"
  shows "unat (ucast (a div ucast b) :: limb) = (unat r * LB + unat x) div unat b"
    and "unat (ucast (a mod ucast b) :: limb) = (unat r * LB + unat x) mod unat b"
proof -
  have a: "unat a = unat r * LB + unat x" unfolding a_def by (rule unat_join_limbs)
  have "unat r * LB + unat x < (unat r + 1) * LB" by simp
  also have "\<dots> \<le> unat b * LB" using assms(1) by (intro mult_le_mono1) simp
  finally have "(unat r * LB + unat x) div unat b < LB"
    by (simp add: less_mult_imp_div_less mult.commute)
  then show "unat (ucast (a div ucast b) :: limb) = (unat r * LB + unat x) div unat b"
    by (simp add: unat_ucast_limb unat_div unat_ucast_dlimb a)
  have "(unat r * LB + unat x) mod unat b < LB"
    using assms(1) less_trans [OF mod_less_divisor unat_less_LB] by simp
  then show "unat (ucast (a mod ucast b) :: limb) = (unat r * LB + unat x) mod unat b"
    by (simp add: unat_ucast_limb unat_mod unat_ucast_dlimb a)
qed

text \<open>Dividing limb by limb from the high end, with any correct two-by-one division.\<close>

lemma div_step_value:
  fixes V v :: nat
  assumes "v * LB ^ n + r0 = V * b + r1"
    and "q = (r1 * LB + x) div b" and "r' = (r1 * LB + x) mod b"
  shows "(v * LB ^ n + r0) * LB + x = (q + LB * V) * b + r'"
proof -
  have "(v * LB ^ n + r0) * LB + x = LB * V * b + (r1 * LB + x)"
    unfolding assms(1) by (simp add: algebra_simps)
  also have "r1 * LB + x = q * b + r'" by (simp add: assms(2,3))
  finally show ?thesis by (simp add: algebra_simps)
qed

lemma mp_div1_value:
  assumes "mp_div1 xs b r = (qs, r')" "unat r < unat b"
  shows "mp_val xs + LB ^ length xs * unat r = mp_val qs * unat b + unat r'
       \<and> unat r' < unat b \<and> length qs = length xs"
  using assms
proof (induction xs arbitrary: qs r')
  case (Cons x xs)
  obtain qs1 r1 where b: "mp_div1 xs b r = (qs1, r1)" by fastforce
  let ?a = "push_bit 64 (ucast r1 :: dlimb) OR ucast x"
  from b Cons.prems have qs: "qs = ucast (?a div ucast b) # qs1" "r' = ucast (?a mod ucast b)"
    by (auto simp: Let_def)
  from Cons.IH [OF b Cons.prems(2)]
  have IH: "mp_val xs + LB ^ length xs * unat r = mp_val qs1 * unat b + unat r1"
    "unat r1 < unat b" "length qs1 = length xs" by auto
  note dm = join_div_mod [OF IH(2), of x]
  have "mp_val (x # xs) + LB ^ length (x # xs) * unat r = (mp_val xs + LB ^ length xs * unat r) * LB + unat x"
    by (simp add: algebra_simps)
  also have "\<dots> = mp_val qs1 * unat b * LB + (unat r1 * LB + unat x)"
    unfolding IH(1) by (simp add: algebra_simps)
  also have "unat r1 * LB + unat x = unat (ucast (?a div ucast b) :: limb) * unat b + unat r'"
    by (simp add: dm qs(2))
  finally show ?case using IH qs by (simp add: dm algebra_simps)
qed simp

text \<open>
  The reciprocal division is right for every normalised divisor: with \<open>m = floor ((B\<^sup>2 - 1) / d) - B\<close>,
  the estimate \<open>q\<close> taken from the high word of \<open>m * (a1 + n1) + n_adj\<close> is the quotient or one less.
\<close>

lemma reciprocal_estimate:
  fixes B d m a1 a0 n1 t l :: int
  assumes "2 * d \<ge> B" "d < B" "0 \<le> a1" "a1 < d" "0 \<le> a0" "a0 < B"
    and n1: "n1 = (if 2 * a0 \<ge> B then 1 else 0)"
    and k: "(B + m) * d = B * B - k" "1 \<le> k" "k \<le> d"
    and t: "m * (a1 + n1) + a0 + n1 * (d - B) = B * h + l" "0 \<le> l" "l < B"
  shows "0 \<le> a1 * B + a0 - (a1 + h) * d" and "a1 * B + a0 - (a1 + h) * d < 2 * d"
proof -
  have B: "0 < B" using assms(1,2) by linarith
  let ?X = "a1 * B + a0 - (a1 + h) * d"
  have h: "B * h = m * (a1 + n1) + a0 + n1 * (d - B) - l" using t by simp
  have "B * ?X = a1 * B * B + a0 * B - B * a1 * d - (B * h) * d" by (simp add: algebra_simps)
  also have "\<dots> = a1 * B * B + a0 * B - (B + m) * d * (a1 + n1) + B * d * n1 - a0 * d - n1 * (d - B) * d + l * d"
    unfolding h by (simp add: algebra_simps)
  also have "\<dots> = (B - d) * (a0 - n1 * (B - d)) + k * (a1 + n1) + l * d"
    unfolding k(1) by (simp add: n1 algebra_simps)
  finally have X: "B * ?X = (B - d) * (a0 - n1 * (B - d)) + k * (a1 + n1) + l * d" .
  have p1: "0 \<le> (B - d) * (a0 - n1 * (B - d))"
    using assms by (intro mult_nonneg_nonneg) (auto simp: n1)
  have p2: "0 \<le> k * (a1 + n1)" and p3: "0 \<le> l * d"
    using assms by (auto intro!: mult_nonneg_nonneg simp: n1)
  from X p1 p2 p3 have "0 \<le> B * ?X" by linarith
  with B show "0 \<le> ?X" by (simp add: zero_le_mult_iff)
  have l: "l * d \<le> (B - 1) * d" using assms by (intro mult_right_mono) auto
  have "B * ?X < B * (2 * d)"
  proof (cases "2 * a0 \<ge> B")
    case False
    then have n: "n1 = 0" by (simp add: n1)
    have "2 * ((B - d) * a0) \<le> (B - d) * B"
      using False assms(2) mult_left_mono [of "2 * a0" B "B - d"] by simp
    moreover have "k * a1 \<le> d * (d - 1)"
      using k assms(3,4) by (intro mult_mono) auto
    moreover have "0 \<le> (2 * d - B) * (B - d)" using assms(1,2) by (intro mult_nonneg_nonneg) auto
    moreover have "0 < d" using assms(3,4) by linarith
    ultimately show ?thesis using l unfolding X n by (simp add: algebra_simps)
  next
    case True
    then have n: "n1 = 1" by (simp add: n1)
    have "(B - d) * (a0 - (B - d)) \<le> (B - d) * (d - 1)"
      using assms(2,6) by (intro mult_left_mono) auto
    moreover have "k * (a1 + 1) \<le> d * d"
      using k assms(3,4) by (intro mult_mono) auto
    ultimately show ?thesis using l B unfolding X n by (simp add: algebra_simps)
  qed
  with B show "?X < 2 * d" by simp
qed

lemma reciprocal_estimate_nat:
  fixes B d m a1 a0 n1 n_adj h l k :: nat
  assumes "B \<le> 2 * d" "d < B" "a1 < d" "a0 < B" and n1: "n1 = (if B \<le> 2 * a0 then 1 else 0)"
    and adj: "n_adj + n1 * B = a0 + n1 * d"
    and k: "(B + m) * d + k = B * B" "1 \<le> k" "k \<le> d"
    and t: "m * (a1 + n1) + n_adj = B * h + l" "l < B"
  shows "(a1 + h) * d \<le> a1 * B + a0" and "a1 * B + a0 < (a1 + h) * d + 2 * d"
proof -
  have k': "(int B + int m) * int d = int B * int B - int k"
    using arg_cong [OF k(1), of int] by simp
  have adj': "int n_adj = int a0 + int n1 * (int d - int B)"
    using arg_cong [OF adj, of int] by (simp add: algebra_simps)
  have t': "int m * (int a1 + int n1) + int a0 + int n1 * (int d - int B) = int B * int h + int l"
    using arg_cong [OF t(1), of int] adj' by simp
  have n1': "int n1 = (if int B \<le> 2 * int a0 then 1 else 0)" using n1 by auto
  note est = reciprocal_estimate [of "int B" "int d" "int a1" "int a0" "int n1" "int m" "int k" "int h" "int l",
      OF _ _ _ _ _ _ n1' k' _ _ t']
  have "0 \<le> int a1 * int B + int a0 - (int a1 + int h) * int d"
    "int a1 * int B + int a0 - (int a1 + int h) * int d < 2 * int d"
    using est assms by simp_all
  then have "int ((a1 + h) * d) \<le> int (a1 * B + a0)" "int (a1 * B + a0) < int ((a1 + h) * d + 2 * d)"
    by (simp_all add: algebra_simps)
  then show "(a1 + h) * d \<le> a1 * B + a0" and "a1 * B + a0 < (a1 + h) * d + 2 * d"
    by (simp_all only: of_nat_le_iff of_nat_less_iff)
qed

lemma bit_63_limb: "bit (a::limb) 63 \<longleftrightarrow> LB \<le> 2 * unat a"
proof -
  have "bit a 63 \<longleftrightarrow> odd (unat a div 2 ^ 63)"
    using bit_iff_odd [of "unat a" 63] by (simp add: bit_unsigned_iff)
  moreover have "unat a div 2 ^ 63 < 2" using unat_less_LB [of a] by (simp add: LB_def less_mult_imp_div_less)
  ultimately have "bit a 63 \<longleftrightarrow> 2 ^ 63 \<le> unat a" by (auto simp: less_2_cases_iff div_greater_zero_iff)
  then show ?thesis by (simp add: LB_def)
qed

lemma signed_drop_63: "signed_drop_bit 63 (a::limb) = (if LB \<le> 2 * unat a then - 1 else 0)"
proof -
  have "signed_drop_bit 63 a = (if bit a 63 then - 1 else 0)"
    by (rule bit_word_eqI) (auto simp: bit_simps not_le)
  then show ?thesis by (simp add: bit_63_limb)
qed

lemma udiv1norm_init_value:
  assumes "LB \<le> 2 * unat d"
  shows "\<exists>k. (LB + unat (udiv1norm_init d)) * unat d + k = LB * LB \<and> 1 \<le> k \<and> k \<le> unat d"
proof -
  let ?d = "unat d"
  let ?N = "(LB - ?d - 1) * LB + (LB - 1)"
  have d: "?d < LB" "0 < ?d" using assms LB_pos(1) by (simp, linarith)
  have "unat (- d - 1 :: limb) = LB - ?d - 1"
    using d LB_gt_1(1) by (simp add: unat_sub_limb unat_neg_limb del: LB_gt_1 unat_less_LB)
  moreover have "unat (- 1 :: limb) = LB - 1" by (simp add: unat_neg_limb)
  ultimately have e: "unat ((push_bit 64 (ucast (- d - 1) :: dlimb) OR ucast (- 1 :: limb)) div ucast d) = ?N div ?d"
    by (simp add: unat_div unat_join_limbs unat_ucast_dlimb)
  have N: "?N + ?d * LB + 1 = LB * LB"
  proof -
    have "?N + ?d * LB + 1 = (LB - ?d - 1) * LB + LB + ?d * LB" using LB_pos(1) by linarith
    also have "\<dots> = (LB - ?d - 1 + 1 + ?d) * LB" by (simp add: algebra_simps)
    also have "LB - ?d - 1 + 1 + ?d = LB" using d by linarith
    finally show ?thesis .
  qed
  have "LB * LB \<le> 2 * (?d * LB)" using mult_le_mono1 [OF assms, of LB] by simp
  with N have "?N < ?d * LB" by linarith
  then have lt: "?N div ?d < LB" by (simp add: less_mult_imp_div_less mult.commute)
  have m: "unat (udiv1norm_init d) = ?N div ?d"
    by (simp only: udiv1norm_init_def Let_def unat_ucast_limb e mod_less [OF lt])
  have "?N = ?N div ?d * ?d + ?N mod ?d" by simp
  then have "(LB + ?N div ?d) * ?d + (?N mod ?d + 1) = LB * LB"
    using N by (simp add: algebra_simps)
  then show ?thesis using d m by (intro exI [of _ "?N mod ?d + 1"]) (simp add: Suc_le_eq)
qed

lemma udiv1norm_value:
  assumes "LB \<le> 2 * unat d" "unat a1 < unat d" "udiv1norm a1 a0 d (udiv1norm_init d) = (q, r)"
  shows "unat q = (unat a1 * LB + unat a0) div unat d" "unat r = (unat a1 * LB + unat a0) mod unat d"
proof -
  let ?d = "unat d" and ?m = "unat (udiv1norm_init d)" and ?n = "unat a1 * LB + unat a0"
  define n1 :: nat where "n1 = (if LB \<le> 2 * unat a0 then 1 else 0)"
  define n1m where "n1m = signed_drop_bit 63 a0"
  define n_adj where "n_adj = a0 + (n1m AND d)"
  define a where "a = (ucast (udiv1norm_init d) :: dlimb) * ucast (a1 - n1m) + ucast n_adj"
  define q0 where "q0 = (ucast (drop_bit 64 a + ucast a1) :: limb)"
  define a' where "a' = (push_bit 64 (ucast a1 :: dlimb) OR ucast a0) - ucast q0 * ucast d - ucast d"
  define ah where "ah = (ucast (drop_bit 64 a') :: limb)"
  have q: "q = q0 + (1 + ah)" and r: "r = ucast a' + (ah AND d)"
    using assms(3) by (auto simp: udiv1norm_def Let_def n1m_def n_adj_def a_def q0_def a'_def ah_def)
  have d: "?d < LB" and a0: "unat a0 < LB" by simp_all
  have adj: "unat n_adj + n1 * LB = unat a0 + n1 * ?d"
    using d a0 assms(1) by (auto simp: n_adj_def n1m_def signed_drop_63 n1_def unat_add_limb
        simp del: unat_less_LB)
  have a1n: "unat (a1 - n1m) = unat a1 + n1"
    using d assms(2) by (auto simp: n1m_def signed_drop_63 n1_def unat_add_limb simp del: unat_less_LB)
  have ua: "unat a = ?m * (unat a1 + n1) + unat n_adj"
    using unat_mul_add [of "udiv1norm_init d" "a1 - n1m" n_adj 0] by (simp add: a_def a1n)
  define h where "h = unat a div LB"
  obtain k where k: "(LB + ?m) * ?d + k = LB * LB" "1 \<le> k" "k \<le> ?d"
    using udiv1norm_init_value [OF assms(1)] by blast
  have eq: "?m * (unat a1 + n1) + unat n_adj = LB * h + unat a mod LB"
    by (simp add: ua [symmetric] h_def)
  note X = reciprocal_estimate_nat [OF assms(1) d assms(2) a0 n1_def adj k eq mod_less_divisor [OF LB_pos(1)]]
  define X where "X = ?n - (unat a1 + h) * ?d"
  have nX: "?n = (unat a1 + h) * ?d + X" and X2: "X < 2 * ?d" using X by (simp_all add: X_def)
  have nlt: "?n < LB * ?d"
  proof -
    have "?n < (unat a1 + 1) * LB" by simp
    also have "\<dots> \<le> ?d * LB" using assms(2) by (intro mult_le_mono1) simp
    finally show ?thesis by (simp add: mult.commute)
  qed
  have q1: "unat a1 + h < LB" using le_less_trans [OF X(1) nlt] by simp
  have q0: "unat q0 = unat a1 + h"
  proof -
    have "unat (drop_bit 64 a + ucast a1) = h + unat a1"
      using less_LB_square [OF q1]
      by (simp add: unat_add_dlimb unat_dlimb_hi unat_ucast_dlimb add.commute flip: h_def)
    then show ?thesis using q1 by (simp add: q0_def unat_ucast_limb)
  qed
  have ua': "unat a' = (if ?d \<le> X then X - ?d else LB * LB - (?d - X))"
  proof -
    have p: "unat ((ucast q0 :: dlimb) * ucast d) = (unat a1 + h) * ?d"
      using unat_mul_add [of q0 d 0 0] by (simp add: q0)
    have "unat ((push_bit 64 (ucast a1 :: dlimb) OR ucast a0) - ucast q0 * ucast d) = X"
      using X(1) by (simp add: unat_sub_dlimb unat_join_limbs p X_def)
    then show ?thesis by (auto simp: a'_def unat_sub_dlimb unat_ucast_dlimb)
  qed
  have "unat q * ?d + unat r = ?n \<and> unat r < ?d"
  proof (cases "?d \<le> X")
    case True
    with ua' X2 d have lt: "unat a' < LB" by (simp del: unat_less_LB)
    have "unat ah = 0" using lt by (simp add: ah_def unat_dlimb_hi_limb)
    then have ah0: "ah = 0" by (simp add: unat_eq_0)
    have "unat a1 + h + 1 < LB"
    proof -
      have "(unat a1 + h + 1) * ?d \<le> ?n" using nX True by simp
      also note nlt
      finally show ?thesis by (simp only: mult_less_cancel2)
    qed
    then have "unat q = unat a1 + h + 1" by (simp add: q ah0 unat_add_limb q0)
    moreover have "unat r = X - ?d" using lt ua' True by (simp add: r ah0 unat_ucast_limb)
    ultimately show ?thesis using nX True X2 by simp
  next
    case False
    then have ua1: "unat a' = (LB - 1) * LB + (LB - (?d - X))"
      using ua' d by (simp add: diff_mult_distrib del: unat_less_LB)
    have lt: "LB - (?d - X) < LB" using False d by (simp del: unat_less_LB)
    have "unat ah = LB - 1" using lt by (simp add: ah_def unat_dlimb_hi_limb ua1)
    then have "ah = - 1" by (simp add: word_unat_eq_iff unat_neg_limb)
    then have "unat q = unat a1 + h" and r': "r = ucast a' + d" by (simp_all add: q r q0)
    moreover have "unat (ucast a' :: limb) = LB - (?d - X)"
      using lt by (simp add: unat_ucast_limb ua1)
    then have "unat r = X" using False d
      by (auto simp: r' unat_add_limb simp del: unat_less_LB)
    ultimately show ?thesis using nX False by simp
  qed
  then have e: "?n = unat r + unat q * ?d" and lt: "unat r < ?d" by auto
  show "unat q = ?n div ?d" "unat r = ?n mod ?d"
    unfolding e using lt by simp_all
qed

lemma mp_div1norm_inv_value:
  assumes "mp_div1norm_inv xs b (udiv1norm_init b) r = (qs, r')" "unat r < unat b" "LB \<le> 2 * unat b"
  shows "mp_val xs + LB ^ length xs * unat r = mp_val qs * unat b + unat r'
       \<and> unat r' < unat b \<and> length qs = length xs"
  using assms
proof (induction xs arbitrary: qs r')
  case (Cons x xs)
  obtain qs1 r1 where b: "mp_div1norm_inv xs b (udiv1norm_init b) r = (qs1, r1)" by fastforce
  obtain q r2 where u: "udiv1norm r1 x b (udiv1norm_init b) = (q, r2)" by fastforce
  from b u Cons.prems have qs: "qs = q # qs1" "r' = r2" by (auto simp: Let_def)
  from Cons.IH [OF b Cons.prems(2,3)]
  have IH: "mp_val xs + LB ^ length xs * unat r = mp_val qs1 * unat b + unat r1"
    "unat r1 < unat b" "length qs1 = length xs" by auto
  note dm = udiv1norm_value [OF Cons.prems(3) IH(2) u]
  have "mp_val (x # xs) + LB ^ length (x # xs) * unat r = (mp_val xs + LB ^ length xs * unat r) * LB + unat x"
    by (simp add: algebra_simps)
  also have "\<dots> = mp_val qs1 * unat b * LB + (unat r1 * LB + unat x)"
    unfolding IH(1) by (simp add: algebra_simps)
  also have "unat r1 * LB + unat x = unat q * unat b + unat r'"
    by (simp add: dm qs(2))
  finally show ?case using IH qs by (simp add: dm algebra_simps)
qed simp

lemma mp_div1norm_value:
  assumes "mp_div1norm xs b r = (qs, r')" "unat r < unat b" "LB \<le> 2 * unat b"
  shows "mp_val xs + LB ^ length xs * unat r = mp_val qs * unat b + unat r'
       \<and> unat r' < unat b \<and> length qs = length xs"
  using assms mp_div1norm_inv_value mp_div1_value by (auto simp: mp_div1norm_def split: if_splits)

section \<open>Algorithm D\<close>

text \<open>The first quotient limb is 0 or 1: the comparison of the high limbs, from the top.\<close>

fun mp_divnorm_top :: "limb list \<Rightarrow> limb list \<Rightarrow> nat \<Rightarrow> nat \<Rightarrow> limb" where
  "mp_divnorm_top taba tabb n 0 = 1"
| "mp_divnorm_top taba tabb n (Suc j) =
     (if taba ! (n + j) \<noteq> tabb ! j then (if taba ! (n + j) < tabb ! j then 0 else 1)
      else mp_divnorm_top taba tabb n j)"

text \<open>
  The correction loop: the divisor is added back until the high limb wraps to zero. \<open>None\<close> stands
  for a loop that never reaches its \<open>break\<close>.
\<close>

partial_function (option) mp_add_back ::
  "limb list \<Rightarrow> limb list \<Rightarrow> limb \<Rightarrow> limb \<Rightarrow> (limb \<times> limb list \<times> limb) option" where
  "mp_add_back seg tabb hi q =
     (let q' = q - 1;
          (seg', c) = mp_add seg tabb 0
      in if c \<noteq> 0
         then (if hi + 1 = 0 then Some (q', seg', hi + 1) else mp_add_back seg' tabb (hi + 1) q')
         else mp_add_back seg' tabb hi q')"

text \<open>One iteration of the main loop at index \<open>i\<close>, and the loop from \<open>n - 1\<close> down to 0.\<close>

definition mp_divnorm_step ::
  "limb list \<Rightarrow> limb list \<Rightarrow> limb \<Rightarrow> limb \<Rightarrow> nat \<Rightarrow> (limb \<times> limb list) option" where
  "mp_divnorm_step taba tabb b1 b1_inv i =
     (let nb = length tabb;
          q = (if taba ! (i + nb) \<ge> b1 then - 1
               else if b1_inv \<noteq> 0 then fst (udiv1norm (taba ! (i + nb)) (taba ! (i + nb - 1)) b1 b1_inv)
               else ucast ((push_bit 64 (ucast (taba ! (i + nb)) :: dlimb)
                              OR ucast (taba ! (i + nb - 1))) div ucast b1));
          (seg, r) = mp_sub_mul1 (array_slice taba i nb) tabb q;
          v = taba ! (i + nb);
          a = v - r
      in if a > v
         then (case mp_add_back seg tabb a q of
                 None \<Rightarrow> None
               | Some (q', seg', a') \<Rightarrow> Some (q', blit taba i (seg' @ [a'])))
         else Some (q, blit taba i (seg @ [a])))"

fun mp_divnorm_loop ::
  "limb list \<Rightarrow> limb list \<Rightarrow> limb list \<Rightarrow> limb \<Rightarrow> limb \<Rightarrow> nat \<Rightarrow> (limb list \<times> limb list) option" where
  "mp_divnorm_loop tabq taba tabb b1 b1_inv 0 = Some (tabq, taba)"
| "mp_divnorm_loop tabq taba tabb b1 b1_inv (Suc i) =
     (case mp_divnorm_step taba tabb b1 b1_inv i of
        None \<Rightarrow> None
      | Some (q, taba') \<Rightarrow> mp_divnorm_loop (tabq[i := q]) taba' tabb b1 b1_inv i)"

definition mp_divnorm :: "limb list \<Rightarrow> limb list \<Rightarrow> limb list \<Rightarrow> (limb list \<times> limb list) option" where
  "mp_divnorm tabq taba tabb =
     (let na = length taba;
          nb = length tabb;
          b1 = tabb ! (nb - 1)
      in if nb = 1
         then (let (qs, r) = mp_div1norm taba b1 0 in Some (blit tabq 0 qs, taba[0 := r]))
         else
           (let n = na - nb;
                b1_inv = (if n \<ge> UDIV1NORM_THRESHOLD then udiv1norm_init b1 else 0);
                q = mp_divnorm_top taba tabb n nb;
                tabq = tabq[n := q];
                taba = (if q \<noteq> 0 then blit taba n (fst (mp_sub (array_slice taba n nb) tabb 0)) else taba)
            in mp_divnorm_loop tabq taba tabb b1 b1_inv n))"

lemma mp_add_back_value:
  assumes "length seg = length tabb" "0 < mp_val tabb"
  shows "\<exists>k seg'. mp_add_back seg tabb hi q = Some (q - of_nat k, seg', 0) \<and> length seg' = length tabb
     \<and> mp_val seg' + LB ^ Suc (length tabb) = mp_val seg + LB ^ length tabb * unat hi + k * mp_val tabb
     \<and> mp_val seg' < mp_val tabb"
  using assms(1)
proof (induction "LB ^ Suc (length tabb) - (mp_val seg + LB ^ length tabb * unat hi)"
    arbitrary: seg hi q rule: less_induct)
  case less
  let ?n = "length tabb" and ?bv = "mp_val tabb"
  obtain seg1 c where add: "mp_add seg tabb 0 = (seg1, c)" by fastforce
  from mp_add_value [OF less.prems add]
  have av: "mp_val seg1 + LB ^ ?n * unat c = mp_val seg + ?bv" "unat c \<le> 1" and l1: "length seg1 = ?n"
    using less.prems by auto
  have bn: "?bv < LB ^ ?n" by (rule mp_val_bound)
  have sn: "mp_val seg < LB ^ ?n" "mp_val seg1 < LB ^ ?n"
    using mp_val_bound [of seg] mp_val_bound [of seg1] less.prems l1 by simp_all
  have rec: "\<exists>k seg'. mp_add_back seg1 tabb hi1 (q - 1) = Some (q - of_nat k, seg', 0) \<and> length seg' = ?n
      \<and> mp_val seg' + LB ^ Suc ?n = mp_val seg + LB ^ ?n * unat hi + k * ?bv \<and> mp_val seg' < ?bv"
    if R: "mp_val seg1 + LB ^ ?n * unat hi1 = mp_val seg + LB ^ ?n * unat hi + ?bv" for hi1
  proof -
    have "mp_val seg1 + LB ^ ?n * unat hi1 < LB ^ ?n + LB ^ ?n * unat hi1" using sn by simp
    also have "\<dots> = LB ^ ?n * (unat hi1 + 1)" by simp
    also have "\<dots> \<le> LB ^ ?n * LB" by (intro mult_le_mono2) (simp add: Suc_le_eq)
    finally have "mp_val seg1 + LB ^ ?n * unat hi1 < LB ^ Suc ?n" by (simp add: mult.commute)
    then have "LB ^ Suc ?n - (mp_val seg1 + LB ^ ?n * unat hi1) < LB ^ Suc ?n - (mp_val seg + LB ^ ?n * unat hi)"
      using R assms(2) by linarith
    from less.hyps [OF this l1, of "q - 1"] obtain k seg' where
      k: "mp_add_back seg1 tabb hi1 (q - 1) = Some (q - 1 - of_nat k, seg', 0)" "length seg' = ?n"
      "mp_val seg' + LB ^ Suc ?n = mp_val seg1 + LB ^ ?n * unat hi1 + k * ?bv" "mp_val seg' < ?bv"
      by blast
    from k R show ?thesis by (intro exI [of _ "Suc k"] exI [of _ seg']) (simp add: algebra_simps)
  qed
  show ?case
  proof (cases "c = 0")
    case True
    then have "mp_add_back seg tabb hi q = mp_add_back seg1 tabb hi (q - 1)"
      by (subst mp_add_back.simps) (simp add: add)
    with rec [of hi] av True show ?thesis by simp
  next
    case False
    then have c1: "unat c = 1" using av(2) by (simp add: unat_eq_0 le_Suc_eq)
    show ?thesis
    proof (cases "hi + 1 = 0")
      case True
      then have e: "mp_add_back seg tabb hi q = Some (q - of_nat 1, seg1, 0)"
        by (subst mp_add_back.simps) (simp add: add False)
      from True have "hi = - 1" by (simp add: eq_neg_iff_add_eq_0)
      then have "unat hi + 1 = LB" by (simp add: unat_neg_limb)
      then have "LB ^ Suc ?n = LB ^ ?n * (unat hi + 1)" by (simp only: power_Suc mult.commute)
      then have "LB ^ ?n * unat hi + LB ^ ?n = LB ^ Suc ?n" by simp
      with av c1 sn e l1 show ?thesis by (intro exI [of _ 1] exI [of _ seg1]) simp
    next
      case hi: False
      then have e: "mp_add_back seg tabb hi q = mp_add_back seg1 tabb (hi + 1) (q - 1)"
        by (subst mp_add_back.simps) (simp add: add False)
      have "unat (hi + 1) = unat hi + 1"
        using hi unat_add_limb [of hi 1] by (auto simp: unat_eq_0 split: if_splits) (metis unat_eq_0 unat_less_LB diff_is_0_eq less_Suc_eq_le not_less_eq)
      with rec [of "hi + 1"] av c1 e show ?thesis by (simp add: algebra_simps)
    qed
  qed
qed

lemma quotient_estimate:
  fixes P :: nat
  assumes "low < P" "0 < b1" "b1 * P \<le> bv"
  shows "(w * P + low) div bv \<le> w div b1"
proof -
  have "(w * P + low) div bv \<le> (w * P + low) div (b1 * P)"
    using assms by (intro div_le_mono2) auto
  also have "\<dots> = (w * P + low) div P div b1"
    by (simp add: div_mult2_eq mult.commute [of b1 P])
  also have "(w * P + low) div P = w" using assms(1) by simp
  finally show ?thesis .
qed

lemma mp_val_split_top:
  assumes "i + n \<le> length taba" "0 < n"
  shows "mp_val (array_slice taba i n) = mp_val (array_slice taba i (n - 1)) + LB ^ (n - 1) * unat (taba ! (i + n - 1))"
proof -
  obtain m where n: "n = Suc m" using assms(2) by (cases n) auto
  have "array_slice taba i n = array_slice taba i m @ [taba ! (i + m)]"
    using assms(1) by (simp add: array_slice_def n take_Suc_conv_app_nth)
  then show ?thesis using assms(1) by (simp add: mp_val_append n)
qed

lemma mp_divnorm_step_value:
  assumes len: "i + length tabb < length taba" and nb: "1 < length tabb"
    and b1: "b1 = tabb ! (length tabb - 1)" "LB \<le> 2 * unat b1"
    and inv: "b1_inv = 0 \<or> b1_inv = udiv1norm_init b1"
    and small: "mp_val (array_slice taba (Suc i) (length tabb)) < mp_val tabb"
  shows "\<exists>q seg a. mp_divnorm_step taba tabb b1 b1_inv i = Some (q, blit taba i (seg @ [a]))
     \<and> length seg = length tabb \<and> mp_val seg < mp_val tabb
     \<and> mp_val (array_slice taba i (Suc (length tabb))) = unat q * mp_val tabb + mp_val seg"
proof -
  let ?n = "length tabb" and ?bv = "mp_val tabb"
  let ?u = "taba ! (i + ?n)" and ?lo = "taba ! (i + ?n - 1)"
  define S where "S = mp_val (array_slice taba i ?n)"
  define N where "N = mp_val (array_slice taba i (Suc ?n))"
  define q where "q = (if ?u \<ge> b1 then - 1
     else if b1_inv \<noteq> 0 then fst (udiv1norm ?u ?lo b1 b1_inv)
     else ucast ((push_bit 64 (ucast ?u :: dlimb) OR ucast ?lo) div ucast b1) :: limb)"
  have N: "N = S + LB ^ ?n * unat ?u"
    using mp_val_split_top [of i "Suc ?n" taba] len by (simp add: N_def S_def)
  have lenS: "length (array_slice taba i ?n) = ?n" using len by simp
  have NB: "N < LB * ?bv"
  proof -
    have "array_slice taba i (Suc ?n) = taba ! i # array_slice taba (Suc i) ?n"
      using len by (simp add: array_slice_def Cons_nth_drop_Suc [symmetric])
    then have "N = unat (taba ! i) + LB * mp_val (array_slice taba (Suc i) ?n)" by (simp add: N_def)
    also have "\<dots> < LB * (mp_val (array_slice taba (Suc i) ?n) + 1)" by simp
    also have "\<dots> \<le> LB * ?bv" using small by (intro mult_le_mono2) simp
    finally show ?thesis .
  qed
  have bv: "0 < ?bv" using small by simp
  have bn: "?bv < LB ^ ?n" by (rule mp_val_bound)
  have top: "unat b1 * LB ^ (?n - 1) \<le> ?bv"
  proof -
    have "tabb \<noteq> []" using nb by auto
    with mp_val_split_top [of 0 ?n tabb] b1(1) show ?thesis by (simp add: array_slice_def mult.commute)
  qed
  have Qle: "N div ?bv \<le> unat q"
  proof (cases "?u \<ge> b1")
    case True
    have "N div ?bv < LB" using NB by (simp add: less_mult_imp_div_less)
    with True show ?thesis by (simp add: q_def unat_neg_limb)
  next
    case False
    let ?w = "unat ?u * LB + unat ?lo"
    have lt: "unat ?u < unat b1" using False by (simp add: word_le_nat_alt)
    have "unat q = ?w div unat b1"
    proof (cases "b1_inv = 0")
      case True
      with False join_div_mod(1) [OF lt] show ?thesis by (simp add: q_def)
    next
      case nz: False
      obtain q' r' where u: "udiv1norm ?u ?lo b1 b1_inv = (q', r')" by fastforce
      from udiv1norm_value(1) [OF b1(2) lt] u inv nz have "unat q' = ?w div unat b1" by auto
      with False nz u show ?thesis by (simp add: q_def)
    qed
    moreover have "N = ?w * LB ^ (?n - 1) + mp_val (array_slice taba i (?n - 1))"
    proof -
      have "LB ^ ?n = LB * LB ^ (?n - 1)" using nb by (simp flip: power_Suc)
      moreover have "tabb \<noteq> []" using nb by auto
      ultimately show ?thesis
        using mp_val_split_top [of i ?n taba] len nb by (simp add: N S_def algebra_simps)
    qed
    moreover have "mp_val (array_slice taba i (?n - 1)) < LB ^ (?n - 1)"
      using mp_val_bound [of "array_slice taba i (?n - 1)"] len by simp
    ultimately show ?thesis using quotient_estimate [OF _ _ top] lt by simp
  qed
  obtain seg r where sub: "mp_sub_mul1 (array_slice taba i ?n) tabb q = (seg, r)" by fastforce
  from mp_sub_mul1_loop_value [OF lenS sub [unfolded mp_sub_mul1_def]]
  have sv: "mp_val seg + ?bv * unat q = S + LB ^ ?n * unat r" and lseg: "length seg = ?n"
    by (simp_all add: S_def)
  define a where "a = ?u - r"
  have step: "mp_divnorm_step taba tabb b1 b1_inv i =
     (if a > ?u then (case mp_add_back seg tabb a q of None \<Rightarrow> None
         | Some (q', seg', a') \<Rightarrow> Some (q', blit taba i (seg' @ [a'])))
      else Some (q, blit taba i (seg @ [a])))"
    unfolding mp_divnorm_step_def Let_def q_def [symmetric] sub a_def by simp
  show ?thesis
  proof (cases "unat r \<le> unat ?u")
    case True
    then have "\<not> a > ?u" and ua: "unat a = unat ?u - unat r"
      by (simp_all add: a_def word_less_nat_alt unat_sub_limb)
    have "LB ^ ?n * unat ?u = LB ^ ?n * unat r + LB ^ ?n * unat a" using True ua by (simp flip: distrib_left)
    then have X: "N = unat q * ?bv + (mp_val seg + LB ^ ?n * unat a)" using sv N by (simp add: mult.commute)
    have "N < (N div ?bv + 1) * ?bv" using bv by (simp add: dividend_less_div_times)
    also have "\<dots> \<le> (unat q + 1) * ?bv" using Qle by (intro mult_le_mono1) simp
    finally have lt: "mp_val seg + LB ^ ?n * unat a < ?bv" using X by simp
    have "unat a = 0"
    proof (rule ccontr)
      assume "unat a \<noteq> 0"
      then have "LB ^ ?n * 1 \<le> LB ^ ?n * unat a" by (intro mult_le_mono2) simp
      with lt bn show False by simp
    qed
    with X lt \<open>\<not> a > ?u\<close> lseg step show ?thesis by (auto simp: N_def)
  next
    case False
    then have "a > ?u" and ua: "unat a = unat ?u + LB - unat r"
      using unat_le_LB [of r] by (auto simp: a_def word_less_nat_alt unat_sub_limb)
    have rLB: "unat r < LB" by simp
    have R: "LB ^ ?n * unat a + LB ^ ?n * unat r = LB ^ ?n * unat ?u + LB ^ Suc ?n"
    proof -
      have "LB ^ ?n * unat a + LB ^ ?n * unat r = LB ^ ?n * (unat a + unat r)" by (simp add: distrib_left)
      also have "unat a + unat r = unat ?u + LB" using ua rLB by linarith
      finally show ?thesis by (simp add: distrib_left mult.commute)
    qed
    obtain k seg' where k: "mp_add_back seg tabb a q = Some (q - of_nat k, seg', 0)" "length seg' = ?n"
      "mp_val seg' + LB ^ Suc ?n = mp_val seg + LB ^ ?n * unat a + k * ?bv" "mp_val seg' < ?bv"
      using mp_add_back_value [OF lseg bv] by blast
    have eq: "N + k * ?bv = unat q * ?bv + mp_val seg'"
      using R k(3) sv N by (simp add: mult.commute)
    have "k \<le> unat q"
    proof -
      have "k * ?bv < (unat q + 1) * ?bv" using eq k(4) by simp
      then show ?thesis by (simp only: mult_less_cancel2) simp
    qed
    then have "of_nat k \<le> q" and uk: "unat (of_nat k :: limb) = k"
      using unat_less_LB [of q] by (auto simp: LB_def unat_of_nat word_le_nat_alt)
    then have "unat (q - of_nat k) = unat q - k" by (simp add: unat_sub)
    moreover have "N = (unat q - k) * ?bv + mp_val seg'"
      using eq \<open>k \<le> unat q\<close> by (simp add: diff_mult_distrib)
    ultimately show ?thesis using step \<open>a > ?u\<close> k by (auto simp: N_def)
  qed
qed

lemma mp_divnorm_loop_value:
  assumes "i + length tabb \<le> length taba" "i \<le> length tabq" "1 < length tabb"
    and "b1 = tabb ! (length tabb - 1)" "LB \<le> 2 * unat b1"
    and "b1_inv = 0 \<or> b1_inv = udiv1norm_init b1"
    and "mp_val (array_slice taba i (length tabb)) < mp_val tabb"
  shows "\<exists>tabq' taba'. mp_divnorm_loop tabq taba tabb b1 b1_inv i = Some (tabq', taba')
     \<and> length tabq' = length tabq \<and> drop i tabq' = drop i tabq \<and> length taba' = length taba
     \<and> mp_val (take (i + length tabb) taba) = mp_val (take i tabq') * mp_val tabb + mp_val (take (length tabb) taba')
     \<and> mp_val (take (length tabb) taba') < mp_val tabb"
  using assms
proof (induction i arbitrary: tabq taba)
  case 0
  then show ?case by (simp add: array_slice_def)
next
  case (Suc i)
  let ?n = "length tabb" and ?bv = "mp_val tabb"
  from Suc.prems(1) have "i + ?n < length taba" by simp
  from mp_divnorm_step_value [OF this Suc.prems(3-7)] obtain q seg a where
    st: "mp_divnorm_step taba tabb b1 b1_inv i = Some (q, blit taba i (seg @ [a]))"
    and seg: "length seg = ?n" "mp_val seg < ?bv"
    and N: "mp_val (array_slice taba i (Suc ?n)) = unat q * ?bv + mp_val seg" by blast
  define taba1 where "taba1 = blit taba i (seg @ [a])"
  have l1: "length taba1 = length taba" using Suc.prems(1) seg by (simp add: taba1_def)
  have tk1: "take (i + ?n) taba1 = take i taba @ seg"
    using Suc.prems(1) seg by (simp add: taba1_def blit_def)
  have sl1: "array_slice taba1 i ?n = seg"
    using Suc.prems(1) seg by (simp add: taba1_def blit_def array_slice_def)
  have "i + ?n \<le> length taba1" "i \<le> length (tabq[i := q])"
    using Suc.prems(1,2) l1 by simp_all
  moreover have "mp_val (array_slice taba1 i ?n) < ?bv" using sl1 seg by simp
  ultimately obtain tabq' taba' where
    l: "mp_divnorm_loop (tabq[i := q]) taba1 tabb b1 b1_inv i = Some (tabq', taba')"
    "length tabq' = length tabq" "drop i tabq' = drop i (tabq[i := q])" "length taba' = length taba"
    "mp_val (take (i + ?n) taba1) = mp_val (take i tabq') * ?bv + mp_val (take ?n taba')"
    "mp_val (take ?n taba') < ?bv"
    using Suc.IH [of taba1 "tabq[i := q]"] Suc.prems(3-6) l1 by auto
  have "drop i tabq' = q # drop (Suc i) tabq"
    using l(3) Suc.prems(2) by (simp add: Cons_nth_drop_Suc [symmetric])
  then have nq: "tabq' ! i = q" "drop (Suc i) tabq' = drop (Suc i) tabq"
    using Suc.prems(2) l(2) by (simp_all add: nth_via_drop) (metis drop_Suc list.sel(3) tl_drop)
  have "take (Suc i + ?n) taba = take i taba @ array_slice taba i (Suc ?n)"
    by (simp add: array_slice_def flip: take_add)
  then have "mp_val (take (Suc i + ?n) taba) = mp_val (take i taba) + LB ^ i * (unat q * ?bv + mp_val seg)"
    using Suc.prems(1) N by (simp add: mp_val_append)
  also have "\<dots> = mp_val (take (i + ?n) taba1) + LB ^ i * unat q * ?bv"
    using Suc.prems(1) by (simp add: tk1 mp_val_append algebra_simps)
  also have "\<dots> = (mp_val (take i tabq') + LB ^ i * unat q) * ?bv + mp_val (take ?n taba')"
    using l(5) by (simp add: algebra_simps)
  also have "mp_val (take i tabq') + LB ^ i * unat q = mp_val (take (Suc i) tabq')"
    using Suc.prems(2) l(2) nq by (simp add: take_Suc_conv_app_nth mp_val_append)
  finally show ?case using l nq st by (simp add: taba1_def)
qed

lemma mp_divnorm_top_value:
  assumes "n + j \<le> length taba" "j \<le> length tabb"
  shows "mp_divnorm_top taba tabb n j =
     (if mp_val (array_slice taba n j) < mp_val (take j tabb) then 0 else 1)"
  using assms
proof (induction j)
  case 0
  then show ?case by (simp add: array_slice_def)
next
  case (Suc j)
  let ?A = "mp_val (array_slice taba n j)" and ?B = "mp_val (take j tabb)"
  have a: "mp_val (array_slice taba n (Suc j)) = ?A + LB ^ j * unat (taba ! (n + j))"
    using mp_val_split_top [of n "Suc j" taba] Suc.prems by simp
  have b: "mp_val (take (Suc j) tabb) = ?B + LB ^ j * unat (tabb ! j)"
    using mp_val_split_top [of 0 "Suc j" tabb] Suc.prems by (simp add: array_slice_def)
  have bounds: "?A < LB ^ j" "?B < LB ^ j"
    using mp_val_bound [of "array_slice taba n j"] mp_val_bound [of "take j tabb"] Suc.prems by simp_all
  have less: "x + LB ^ j * u < y + LB ^ j * v" if "u < v" "x < LB ^ j" for x y u v
  proof -
    have "x + LB ^ j * u < LB ^ j * (u + 1)" using that by simp
    also have "\<dots> \<le> LB ^ j * v" using that by (intro mult_le_mono2) simp
    finally show ?thesis by simp
  qed
  consider "unat (taba ! (n + j)) = unat (tabb ! j)" | "unat (taba ! (n + j)) < unat (tabb ! j)"
    | "unat (tabb ! j) < unat (taba ! (n + j))" by linarith
  then show ?case
  proof cases
    case 1
    then have "taba ! (n + j) = tabb ! j" by (simp add: word_unat_eq_iff)
    with Suc a b show ?thesis by simp
  next
    case 2
    with less [OF 2 bounds(1), of ?B] a b show ?thesis by (auto simp: word_less_nat_alt)
  next
    case 3
    with less [OF 3 bounds(2), of ?A] a b show ?thesis by (auto simp: word_less_nat_alt)
  qed
qed

text \<open>Algorithm D returns, and its results are the quotient and the remainder.\<close>

lemma mp_divnorm_value:
  assumes len: "tabb \<noteq> []" "length tabb \<le> length taba" "length taba < length tabq + length tabb"
    and norm: "LB \<le> 2 * unat (last tabb)"
  shows "\<exists>tabq' taba'. mp_divnorm tabq taba tabb = Some (tabq', taba')
     \<and> length tabq' = length tabq \<and> length taba' = length taba
     \<and> mp_val (take (length taba - length tabb + 1) tabq') = mp_val taba div mp_val tabb
     \<and> mp_val (take (length tabb) taba') = mp_val taba mod mp_val tabb
     \<and> drop (length taba - length tabb + 1) tabq' = drop (length taba - length tabb + 1) tabq"
proof -
  let ?na = "length taba" and ?nb = "length tabb" and ?bv = "mp_val tabb"
  have unique: "a div ?bv = q \<and> a mod ?bv = r" if "a = q * ?bv + r" "r < ?bv" for a q r :: nat
    using that by simp
  have lastb: "last tabb = tabb ! (?nb - 1)" using len(1) by (simp add: last_conv_nth)
  show ?thesis
  proof (cases "?nb = 1")
    case True
    then obtain b where b: "tabb = [b]" by (cases tabb) auto
    obtain qs r where qr: "mp_div1norm taba b 0 = (qs, r)" by fastforce
    have "0 < unat b" using norm LB_pos(1) by (cases "unat b = 0") (simp_all add: b del: LB_pos)
    from mp_div1norm_value [OF qr] norm b this
    have v: "mp_val taba = mp_val qs * unat b + unat r" "unat r < unat b" "length qs = ?na" by simp_all
    obtain x xs where "taba = x # xs" using len(2) b by (cases taba) auto
    then show ?thesis using v len b qr
      by (auto simp: mp_divnorm_def Let_def blit_def)
  next
    case False
    then have nb: "1 < ?nb" using len(1) by (cases tabb) auto
    define n where "n = ?na - ?nb"
    define inv where "inv = (if n \<ge> UDIV1NORM_THRESHOLD then udiv1norm_init (tabb ! (?nb - 1)) else 0)"
    define q where "q = mp_divnorm_top taba tabb n ?nb"
    define taba1 where "taba1 = (if q \<noteq> 0 then blit taba n (fst (mp_sub (array_slice taba n ?nb) tabb 0)) else taba)"
    have n: "n + ?nb = ?na" "n < length tabq" using len by (simp_all add: n_def)
    let ?T = "mp_val (array_slice taba n ?nb)"
    have topv: "mp_val taba = mp_val (take n taba) + LB ^ n * ?T"
      using mp_val_take_drop [of taba n] n by (simp add: array_slice_def)
    have qv: "q = (if ?T < ?bv then 0 else 1)"
      using mp_divnorm_top_value [of n ?nb taba tabb] n by (simp add: q_def)
    have Tlt: "?T < LB ^ ?nb" using mp_val_bound [of "array_slice taba n ?nb"] n by simp
    have big: "LB ^ ?nb \<le> 2 * ?bv"
    proof -
      have "LB ^ ?nb = LB ^ (?nb - 1) * LB"
        by (rule power_minus_mult [symmetric]) (use nb in linarith)
      also have "\<dots> \<le> LB ^ (?nb - 1) * (2 * unat (last tabb))" using norm by (intro mult_le_mono2)
      also have "\<dots> \<le> 2 * ?bv" using mp_val_split_top [of 0 ?nb tabb] len(1) by (simp add: array_slice_def lastb)
      finally show ?thesis .
    qed
    have T1: "length taba1 = ?na \<and> take n taba1 = take n taba \<and>
        ?T = unat q * ?bv + mp_val (array_slice taba1 n ?nb) \<and> mp_val (array_slice taba1 n ?nb) < ?bv"
    proof (cases "?T < ?bv")
      case True
      then show ?thesis by (simp add: qv taba1_def)
    next
      case False
      obtain rs k where sub: "mp_sub (array_slice taba n ?nb) tabb 0 = (rs, k)" by fastforce
      have "length (array_slice taba n ?nb) = ?nb" using n by simp
      from mp_sub_value [OF this sub] this
      have sv: "mp_val rs + ?bv = ?T + LB ^ ?nb * unat k" "unat k \<le> 1" "length rs = ?nb" by auto
      have "unat k = 0"
      proof (rule ccontr)
        assume "unat k \<noteq> 0"
        then have "unat k = 1" using sv(2) by simp
        with sv(1,3) False mp_val_bound [of rs] show False by simp
      qed
      with sv False Tlt big have "?T = ?bv + mp_val rs" "mp_val rs < ?bv" by simp_all
      moreover have t1: "taba1 = blit taba n rs" using False by (simp add: qv taba1_def sub)
      have "array_slice taba1 n ?nb = rs" "length taba1 = ?na" "take n taba1 = take n taba"
        using n sv by (simp_all add: t1 blit_def array_slice_def)
      ultimately show ?thesis using False by (simp add: qv)
    qed
    have "n + ?nb \<le> length taba1" "n \<le> length (tabq[n := q])" using n T1 by simp_all
    moreover have "inv = 0 \<or> inv = udiv1norm_init (tabb ! (?nb - 1))" by (simp add: inv_def)
    ultimately obtain tabq' taba' where
      l: "mp_divnorm_loop (tabq[n := q]) taba1 tabb (tabb ! (?nb - 1)) inv n = Some (tabq', taba')"
      "length tabq' = length tabq" "drop n tabq' = drop n (tabq[n := q])" "length taba' = ?na"
      "mp_val (take (n + ?nb) taba1) = mp_val (take n tabq') * ?bv + mp_val (take ?nb taba')"
      "mp_val (take ?nb taba') < ?bv"
      using mp_divnorm_loop_value [of n tabb taba1 "tabq[n := q]" "tabb ! (?nb - 1)" inv] nb norm lastb T1 by auto
    have dq: "drop n tabq' = q # drop (Suc n) tabq"
      using l(3) n by (simp add: Cons_nth_drop_Suc [symmetric])
    then have nq: "tabq' ! n = q" "drop (Suc n) tabq' = drop (Suc n) tabq"
      using n l(2) by (simp_all add: nth_via_drop) (metis drop_Suc list.sel(3) tl_drop)
    have "mp_val taba1 = mp_val (take n taba) + LB ^ n * mp_val (array_slice taba1 n ?nb)"
      using mp_val_take_drop [of taba1 n] n T1 by (simp add: array_slice_def)
    moreover have "take (n + ?nb) taba1 = taba1" using n T1 by simp
    ultimately have "mp_val taba = (mp_val (take n tabq') + LB ^ n * unat q) * ?bv + mp_val (take ?nb taba')"
      using topv T1 l(5) by (simp add: algebra_simps)
    also have "mp_val (take n tabq') + LB ^ n * unat q = mp_val (take (Suc n) tabq')"
      using n l(2) nq by (simp add: take_Suc_conv_app_nth mp_val_append)
    finally have "mp_val taba = mp_val (take (Suc n) tabq') * ?bv + mp_val (take ?nb taba')" .
    moreover have "mp_divnorm tabq taba tabb = Some (tabq', taba')"
      unfolding mp_divnorm_def Let_def n_def [symmetric] inv_def [symmetric] q_def [symmetric] taba1_def [symmetric]
      using l(1) nb by simp
    ultimately show ?thesis using unique l nq n_def by auto
  qed
qed

end
