(* ===== verification/BigInt.thy ===== *)
theory BigInt
  imports LimbDiv
begin

text \<open>
  The arbitrary-precision integers of the engine (\<open>js_bigint_\<close> functions of \<open>quickjs.c\<close>): a
  \<open>JSBigInt\<close> is the array of its limbs in two's complement (\<open>len\<close> is the length of the list), always
  normalised so that no limb can be dropped. Each operation is modelled with its allocations, and
  its result is shown to be the normalised representation of the mathematical result.
\<close>

section \<open>Representation\<close>

type_synonym JSBigInt = "limb list"

definition JS_BIGINT_MAX_SIZE :: nat where
  "JS_BIGINT_MAX_SIZE = (1024 * 1024) div 64"

definition too_large :: js_error where
  "too_large = RangeError ''BigInt is too large to allocate''"

fun bit_len :: "nat \<Rightarrow> nat" where
  "bit_len n = (if n = 0 then 0 else Suc (bit_len (n div 2)))"

declare bit_len.simps [simp del]

definition js_limb_clz :: "limb \<Rightarrow> nat" where
  "js_limb_clz a = 64 - bit_len (unat a)"

definition js_bigint_new :: "nat \<Rightarrow> JSBigInt js" where
  "js_bigint_new len =
     (if len > JS_BIGINT_MAX_SIZE then js_throw too_large else js_malloc_limbs len)"

definition js_bigint_set_si :: "limb \<Rightarrow> JSBigInt" where
  "js_bigint_set_si a = [a]"

definition js_bigint_new_si :: "limb \<Rightarrow> JSBigInt js" where
  "js_bigint_new_si a = js_bind (js_bigint_new 1) (\<lambda>r. js_return (r[0 := a]))"

definition js_bigint_new_ui64 :: "u64 \<Rightarrow> JSBigInt js" where
  "js_bigint_new_ui64 a =
     (if a \<le> 0x7fffffffffffffff then js_bigint_new_si a
      else js_bind (js_bigint_new ((65 + 64 - 1) div 64)) (\<lambda>r. js_return (r[0 := a, 1 := 0])))"

definition js_bigint_new_di :: "dlimb \<Rightarrow> JSBigInt js" where
  "js_bigint_new_di a =
     (if a = scast (ucast a :: limb)
      then js_bind (js_bigint_new 1) (\<lambda>r. js_return (r[0 := ucast a]))
      else js_bind (js_bigint_new 2)
             (\<lambda>r. js_return (r[0 := ucast a, 1 := ucast (signed_drop_bit 64 a)])))"

text \<open>The number of limbs left when the redundant high limbs are dropped.\<close>

fun js_bigint_norm_len :: "limb list \<Rightarrow> nat \<Rightarrow> nat" where
  "js_bigint_norm_len tab (Suc (Suc l)) =
     (let v = tab ! (Suc l)
      in if (v \<noteq> 0 \<and> v \<noteq> - 1) \<or> (v AND 1) \<noteq> drop_bit 63 (tab ! l)
         then Suc (Suc l)
         else js_bigint_norm_len tab (Suc l))"
| "js_bigint_norm_len tab l = l"

definition js_bigint_normalize1 :: "JSBigInt \<Rightarrow> nat \<Rightarrow> JSBigInt js" where
  "js_bigint_normalize1 a l =
     (let l' = js_bigint_norm_len a l
      in if l' \<noteq> length a then js_shrink_limbs a l' else js_return a)"

definition js_bigint_normalize :: "JSBigInt \<Rightarrow> JSBigInt js" where
  "js_bigint_normalize a = js_bigint_normalize1 a (length a)"

definition js_bigint_sign :: "JSBigInt \<Rightarrow> limb" where
  "js_bigint_sign a = drop_bit 63 (a ! (length a - 1))"

definition js_bigint_get_si_sat :: "JSBigInt \<Rightarrow> limb" where
  "js_bigint_get_si_sat a =
     (if length a = 1 then a ! 0
      else if js_bigint_sign a \<noteq> 0 then 0x8000000000000000 else 0x7fffffffffffffff)"

definition js_bigint_extend :: "JSBigInt \<Rightarrow> limb \<Rightarrow> JSBigInt js" where
  "js_bigint_extend r op1 =
     (let n2 = length r
      in if (op1 \<noteq> 0 \<and> op1 \<noteq> - 1) \<or> (op1 AND 1) \<noteq> drop_bit 63 (r ! (n2 - 1))
         then js_bind (js_realloc_limbs r (n2 + 1)) (\<lambda>r. js_return (r[n2 := op1]))
         else js_bigint_normalize r)"

section \<open>Operations\<close>

text \<open>
  Sum (\<open>b_neg\<close> false) and difference. The common part of the operands goes through \<open>ADDC\<close> limb by
  limb, as in \<open>mp_add\<close>; the part beyond the shorter operand goes through the same chain with that
  operand's sign limb.
\<close>

definition js_bigint_add :: "JSBigInt \<Rightarrow> JSBigInt \<Rightarrow> bool \<Rightarrow> JSBigInt js" where
  "js_bigint_add a b b_neg =
     (let n2 = max (length a) (length b);
          n1 = min (length a) (length b)
      in js_bind (js_bigint_new n2) (\<lambda>r.
         let m = - (of_bool b_neg) :: limb;
             (lo, carry) = mp_add (take n1 a) (map (\<lambda>x. x XOR m) (take n1 b)) (of_bool b_neg);
             a_sign = - js_bigint_sign a;
             b_sign = - js_bigint_sign b XOR m;
             (hi, carry) =
               (if length a > length b then mp_add (drop n1 a) (replicate (n2 - n1) b_sign) carry
                else if length a < length b
                     then mp_add (replicate (n2 - n1) a_sign) (map (\<lambda>x. x XOR m) (drop n1 b)) carry
                     else ([], carry))
         in js_bigint_extend (blit r 0 (lo @ hi)) (a_sign + b_sign + carry)))"

definition js_bigint_neg :: "JSBigInt \<Rightarrow> JSBigInt js" where
  "js_bigint_neg a = js_bigint_add (js_bigint_set_si 0) a True"

definition js_bigint_mul :: "JSBigInt \<Rightarrow> JSBigInt \<Rightarrow> JSBigInt js" where
  "js_bigint_mul a b =
     js_bind (js_bigint_new (length a + length b)) (\<lambda>r.
       let r = mp_mul_basecase r a b;
           r = (if js_bigint_sign a \<noteq> 0
                then blit r (length a) (fst (mp_sub (array_slice r (length a) (length b)) b 0)) else r);
           r = (if js_bigint_sign b \<noteq> 0
                then blit r (length b) (fst (mp_sub (array_slice r (length b) (length a)) a 0)) else r)
       in js_bigint_normalize r)"

text \<open>The number of significant limbs: \<open>while (n > 1 && tab[n - 1] == 0) n--;\<close>\<close>

fun mp_sig_len :: "limb list \<Rightarrow> nat \<Rightarrow> nat" where
  "mp_sig_len tab (Suc (Suc n)) = (if tab ! (Suc n) = 0 then mp_sig_len tab (Suc n) else Suc (Suc n))"
| "mp_sig_len tab n = n"

definition js_bigint_divrem :: "JSBigInt \<Rightarrow> JSBigInt \<Rightarrow> bool \<Rightarrow> JSBigInt js" where
  "js_bigint_divrem a b is_rem =
     (if length b = 1 \<and> b ! 0 = 0 then js_throw (RangeError ''BigInt division by zero'')
      else
        (let a_sign = js_bigint_sign a;
             b_sign = js_bigint_sign b;
             na = length a;
             nb = length b
         in js_bind (js_bigint_new (na + 2)) (\<lambda>r.
            let r = blit r 0 (if a_sign \<noteq> 0 then fst (mp_neg a) else a);
                na = mp_sig_len r na
            in js_bind (js_malloc_limbs nb) (\<lambda>tabb.
               let tabb = blit tabb 0 (if b_sign \<noteq> 0 then fst (mp_neg b) else b);
                   nb = mp_sig_len tabb nb
               in if na < nb
                  then (if is_rem
                        then js_bind (js_bigint_new (length a)) (\<lambda>r. js_return (blit r 0 a))
                        else js_bigint_new_si 0)
                  else
                    (let shift = js_limb_clz (tabb ! (nb - 1));
                         (tabb, r, na) =
                           (if shift \<noteq> 0
                            then (let (bs, _) = mp_shl (take nb tabb) shift;
                                      (rs, h) = mp_shl (take na r) shift;
                                      r = blit r 0 rs
                                  in if h \<noteq> 0 then (blit tabb 0 bs, r[na := h], na + 1)
                                     else (blit tabb 0 bs, r, na))
                            else (tabb, r, na))
                     in js_bind (js_bigint_new (na - nb + 2)) (\<lambda>q.
                        case mp_divnorm q (take na r) (take nb tabb) of
                          None \<Rightarrow> js_throw Nontermination
                        | Some (q, rs) \<Rightarrow>
                            (if is_rem
                             then
                               (let r = blit r 0 rs;
                                    r = (if shift \<noteq> 0 then blit r 0 (fst (mp_shr (take nb r) shift 0)) else r);
                                    r = r[nb := 0];
                                    nb = nb + 1;
                                    r = (if a_sign \<noteq> 0 then blit r 0 (fst (mp_neg (take nb r))) else r)
                                in js_bigint_normalize1 r nb)
                             else
                               (let q = q[na - nb + 1 := 0];
                                    q = (if a_sign XOR b_sign \<noteq> 0 then fst (mp_neg q) else q)
                                in js_bigint_normalize q))))))))"

datatype logic_op = OP_or | OP_and | OP_xor

definition js_bigint_logic :: "JSBigInt \<Rightarrow> JSBigInt \<Rightarrow> logic_op \<Rightarrow> JSBigInt js" where
  "js_bigint_logic a b op =
     (let (a, b) = (if length a < length b then (b, a) else (a, b));
          a_len = length a;
          b_len = length b;
          b_sign = - js_bigint_sign b
      in js_bind (js_bigint_new a_len) (\<lambda>r.
         let f = (case op of OP_or \<Rightarrow> (OR) | OP_and \<Rightarrow> (AND) | OP_xor \<Rightarrow> (XOR));
             r = blit r 0 (map2 f (take b_len a) b @ map (\<lambda>x. f x b_sign) (drop b_len a))
         in js_bigint_normalize r))"

definition js_bigint_not :: "JSBigInt \<Rightarrow> JSBigInt js" where
  "js_bigint_not a = js_bind (js_bigint_new (length a)) (\<lambda>r. js_return (blit r 0 (map (\<lambda>x. NOT x) a)))"

definition js_bigint_shl :: "JSBigInt \<Rightarrow> nat \<Rightarrow> JSBigInt js" where
  "js_bigint_shl a shift1 =
     (if length a = 1 \<and> a ! 0 = 0 then js_bigint_new_si 0
      else
        (let d = shift1 div 64;
             shift = shift1 mod 64
         in js_bind (js_bigint_new (length a + d)) (\<lambda>r.
            let r = blit r 0 (replicate d 0)
            in if shift = 0 then js_return (blit r d a)
               else
                 (let (rs, l) = mp_shl a shift;
                      r = blit r d rs;
                      l = (if js_bigint_sign a \<noteq> 0 then l OR push_bit shift (- 1) else l)
                  in js_bigint_extend r l))))"

definition js_bigint_shr :: "JSBigInt \<Rightarrow> nat \<Rightarrow> JSBigInt js" where
  "js_bigint_shr a shift1 =
     (let d = shift1 div 64;
          shift = shift1 mod 64;
          a_sign = js_bigint_sign a
      in if d \<ge> length a then js_bigint_new_si (- a_sign)
         else
           (let n1 = length a - d
            in js_bind (js_bigint_new n1) (\<lambda>r.
               if shift = 0 then js_return (blit r 0 (drop d a))
               else js_bigint_normalize (blit r 0 (fst (mp_shr (drop d a) shift (- a_sign)))))))"

fun js_bigint_pow_loop :: "JSBigInt \<Rightarrow> JSBigInt \<Rightarrow> nat \<Rightarrow> nat \<Rightarrow> JSBigInt js" where
  "js_bigint_pow_loop r a e 0 = js_return r"
| "js_bigint_pow_loop r a e (Suc i) =
     js_bind (js_bigint_mul r r) (\<lambda>r.
       if odd (e div 2 ^ i) then js_bind (js_bigint_mul r a) (\<lambda>r. js_bigint_pow_loop r a e i)
       else js_bigint_pow_loop r a e i)"

definition js_bigint_pow_big :: "JSBigInt \<Rightarrow> JSBigInt \<Rightarrow> JSBigInt js" where
  "js_bigint_pow_big a b =
     (if length b > 1 \<or> b ! 0 > 0x7fffffff then js_throw (RangeError ''BigInt is too large'')
      else
        (let e = unat (b ! 0);
             n_bits = bit_len e
         in js_bind (js_bigint_new (length a)) (\<lambda>r.
            js_bigint_pow_loop (blit r 0 a) a e (n_bits - 1))))"

definition js_bigint_pow :: "JSBigInt \<Rightarrow> JSBigInt \<Rightarrow> JSBigInt js" where
  "js_bigint_pow a b =
     (if js_bigint_sign b \<noteq> 0 then js_throw (RangeError ''BigInt negative exponent'')
      else if length b = 1 \<and> b ! 0 = 0 then js_bigint_new_si 1
      else if length a = 1
      then
        (let v = a ! 0
         in if v \<le> 1 then js_bigint_new_si v
            else if v = - 1 then js_bigint_new_si (1 - 2 * (b ! 0 AND 1))
            else
              (let is_neg = (v <s 0);
                   v = (if is_neg then - v else v)
               in if v AND (v - 1) = 0
                  then
                    (let n = 64 - 1 - js_limb_clz v
                     in if length b > 1 \<or> b ! 0 > 0x7fffffff then js_throw (RangeError ''BigInt is too large'')
                        else
                          (let e1 = unat (b ! 0) * n
                           in if e1 > JS_BIGINT_MAX_SIZE * 64 then js_throw (RangeError ''BigInt is too large'')
                              else
                                (let e = e1;
                                     is_neg = (of_bool is_neg AND (b ! 0 AND 1) :: limb)
                                 in js_bind (js_bigint_new ((e + 64 + 1 - unat is_neg) div 64)) (\<lambda>r.
                                    let r = replicate (length r) 0
                                    in js_return (r[e div 64 := push_bit (e mod 64) (1 - 2 * is_neg)])))))
                  else js_bigint_pow_big a b))
      else js_bigint_pow_big a b)"

text \<open>The comparison of the limbs of two numbers of the same length, from the top.\<close>

fun js_bigint_cmp_loop :: "JSBigInt \<Rightarrow> JSBigInt \<Rightarrow> nat \<Rightarrow> int" where
  "js_bigint_cmp_loop a b 0 = 0"
| "js_bigint_cmp_loop a b (Suc i) =
     (if a ! i \<noteq> b ! i then (if a ! i < b ! i then - 1 else 1) else js_bigint_cmp_loop a b i)"

definition js_bigint_cmp :: "JSBigInt \<Rightarrow> JSBigInt \<Rightarrow> int" where
  "js_bigint_cmp a b =
     (let a_sign = uint (js_bigint_sign a);
          b_sign = uint (js_bigint_sign b)
      in if a_sign \<noteq> b_sign then 1 - 2 * a_sign
         else if length a \<noteq> length b
              then (if length a < length b then 2 * a_sign - 1 else 1 - 2 * a_sign)
              else js_bigint_cmp_loop a b (length a))"

section \<open>The value of a representation\<close>

definition big_val :: "JSBigInt \<Rightarrow> int" where
  "big_val a = int (mp_val a) - (if LB ^ length a \<le> 2 * mp_val a then int (LB ^ length a) else 0)"

definition big_wf :: "JSBigInt \<Rightarrow> bool" where
  "big_wf a \<longleftrightarrow> a \<noteq> [] \<and> js_bigint_norm_len a (length a) = length a"

abbreviation represents :: "JSBigInt \<Rightarrow> int \<Rightarrow> bool" where
  "represents r x \<equiv> big_wf r \<and> big_val r = x"

lemma drop_bit_63_limb: "drop_bit 63 (x::limb) = of_bool (LB \<le> 2 * unat x)"
proof -
  have "unat x div 2 ^ 63 < 2" using unat_less_LB [of x] by (simp add: LB_def less_mult_imp_div_less)
  moreover have "unat x div 2 ^ 63 \<noteq> 0 \<longleftrightarrow> LB \<le> 2 * unat x"
    by (auto simp: LB_def div_greater_zero_iff)
  ultimately have "unat x div 2 ^ 63 = of_bool (LB \<le> 2 * unat x)" by (auto simp: less_2_cases_iff)
  then show ?thesis by (simp add: word_unat_eq_iff unat_drop_bit_limb)
qed

lemma top_bit_iff:
  assumes "a \<noteq> []"
  shows "LB \<le> 2 * unat (last a) \<longleftrightarrow> LB ^ length a \<le> 2 * mp_val a"
proof -
  obtain xs x where a: "a = xs @ [x]" using assms by (cases a rule: rev_cases) auto
  let ?P = "LB ^ length xs"
  have low: "mp_val xs < ?P" by (rule mp_val_bound)
  obtain h where ev: "LB = 2 * h" by (auto simp: LB_def intro: that [of "2 ^ 63"])
  have len: "LB ^ length a = ?P * LB" and val: "2 * mp_val a = 2 * mp_val xs + ?P * (2 * unat x)"
    by (simp_all add: a mp_val_append)
  show ?thesis
  proof
    assume "LB \<le> 2 * unat (last a)"
    then have "?P * LB \<le> ?P * (2 * unat x)" by (intro mult_le_mono2) (simp add: a)
    with len val show "LB ^ length a \<le> 2 * mp_val a" by linarith
  next
    assume *: "LB ^ length a \<le> 2 * mp_val a"
    show "LB \<le> 2 * unat (last a)"
    proof (rule ccontr)
      assume "\<not> LB \<le> 2 * unat (last a)"
      then have "2 * unat x + 2 \<le> LB" unfolding ev by (simp add: a)
      then have "?P * (2 * unat x + 2) \<le> ?P * LB" by (intro mult_le_mono2)
      then have "?P * (2 * unat x) + 2 * ?P \<le> ?P * LB" by (simp only: distrib_left mult.commute [of ?P 2])
      with * low len val show False by linarith
    qed
  qed
qed

lemma sign_limb: "a \<noteq> [] \<Longrightarrow> js_bigint_sign a = of_bool (LB ^ length a \<le> 2 * mp_val a)"
  by (simp add: js_bigint_sign_def drop_bit_63_limb top_bit_iff [symmetric] last_conv_nth)

lemma big_val_neg_iff: "big_val a < 0 \<longleftrightarrow> LB ^ length a \<le> 2 * mp_val a"
proof -
  have "int (mp_val a) < int (LB ^ length a)" using mp_val_bound [of a] by (simp only: of_nat_less_iff)
  then show ?thesis by (simp add: big_val_def)
qed

lemma sign_big_val: "a \<noteq> [] \<Longrightarrow> js_bigint_sign a = of_bool (big_val a < 0)"
  by (simp add: sign_limb big_val_neg_iff)

lemma big_val_range: "- int (LB ^ length a) \<le> 2 * big_val a" "2 * big_val a < int (LB ^ length a)"
proof -
  have b: "int (mp_val a) < int (LB ^ length a)" using mp_val_bound [of a] by (simp only: of_nat_less_iff)
  have "LB ^ length a \<le> 2 * mp_val a \<longleftrightarrow> int (LB ^ length a) \<le> 2 * int (mp_val a)"
    by (metis of_nat_le_iff of_nat_mult of_nat_numeral)
  with b show "- int (LB ^ length a) \<le> 2 * big_val a" "2 * big_val a < int (LB ^ length a)"
    by (auto simp: big_val_def simp del: of_nat_power)
qed

lemma big_val_cong: "\<exists>k. int (mp_val a) = big_val a + k * int (LB ^ length a)"
  by (intro exI [of _ "if LB ^ length a \<le> 2 * mp_val a then 1 else 0"]) (simp add: big_val_def)

text \<open>The value is the only number of the range congruent to the limbs.\<close>

lemma big_val_eqI:
  assumes "int (mp_val a) = x + k * int (LB ^ length a)"
    and "- int (LB ^ length a) \<le> 2 * x" "2 * x < int (LB ^ length a)"
  shows "big_val a = x"
proof -
  let ?P = "int (LB ^ length a)"
  obtain j where j: "int (mp_val a) = big_val a + j * ?P" using big_val_cong by blast
  have P: "0 < ?P" by simp
  have eq: "big_val a - x = (k - j) * ?P" using assms(1) j by (simp add: left_diff_distrib)
  have lt: "\<bar>big_val a - x\<bar> < ?P" using big_val_range [of a] assms(2,3) by linarith
  have "k - j = 0"
  proof (rule ccontr)
    assume "k - j \<noteq> 0"
    then have "1 * ?P \<le> \<bar>k - j\<bar> * ?P" using P by (intro mult_right_mono) auto
    moreover have "\<bar>big_val a - x\<bar> = \<bar>k - j\<bar> * ?P" using P by (simp only: eq abs_mult) 
    ultimately show False using lt by linarith
  qed
  with eq show ?thesis by simp
qed

lemma big_val_inj:
  assumes "length a = length b" "big_val a = big_val b"
  shows "a = b"
proof -
  have "LB ^ length a \<le> 2 * mp_val a \<longleftrightarrow> LB ^ length b \<le> 2 * mp_val b"
    using assms(2) by (simp only: big_val_neg_iff [symmetric])
  with assms have "mp_val a = mp_val b"
    by (cases "LB ^ length b \<le> 2 * mp_val b") (simp_all add: big_val_def)
  with assms(1) show ?thesis by (rule mp_val_inj)
qed

text \<open>Sign extension by one limb.\<close>

lemma neg_limb_eq: "unat (- 1 :: limb) = LB - 1"
  by (simp add: unat_neg_limb)

lemma redundant_limb:
  assumes "(op :: limb) = 0 \<or> op = - 1" "op AND 1 = drop_bit 63 (last a)" "a \<noteq> []"
  shows "op = - (of_bool (LB ^ length a \<le> 2 * mp_val a))"
  using assms by (auto simp: drop_bit_63_limb top_bit_iff split: if_splits)

lemma big_val_sign_extend:
  assumes "a \<noteq> []"
  shows "big_val (a @ [- (of_bool (LB ^ length a \<le> 2 * mp_val a))]) = big_val a"
proof (cases "LB ^ length a \<le> 2 * mp_val a")
  case False
  have "LB ^ length a \<le> LB ^ Suc (length a)" by simp
  with False have "\<not> LB ^ Suc (length a) \<le> 2 * mp_val a" by linarith
  with False show ?thesis by (simp add: big_val_def mp_val_append)
next
  case True
  have e: "int (mp_val (a @ [- 1])) = int (mp_val a) + int (LB ^ length a) * (int LB - 1)"
    by (simp add: mp_val_append neg_limb_eq of_nat_diff)
  show ?thesis
  proof (rule big_val_eqI [of _ _ 1])
    show "int (mp_val (a @ [- of_bool (LB ^ length a \<le> 2 * mp_val a)])) = big_val a +
        1 * int (LB ^ length (a @ [- of_bool (LB ^ length a \<le> 2 * mp_val a)]))"
      using True e by (simp add: big_val_def algebra_simps)
    have "LB ^ length a \<le> LB ^ Suc (length a)" by simp
    then have "int (LB ^ length a) \<le> int (LB ^ Suc (length a))" by (simp only: of_nat_le_iff)
    moreover have "length (a @ [x]) = Suc (length a)" for x :: limb by simp
    ultimately show "- int (LB ^ length (a @ [- of_bool (LB ^ length a \<le> 2 * mp_val a)])) \<le> 2 * big_val a"
      "2 * big_val a < int (LB ^ length (a @ [- of_bool (LB ^ length a \<le> 2 * mp_val a)]))"
      using big_val_range [of a] by (simp_all only:)
  qed
qed

lemma norm_len_value:
  assumes "0 < l" "l \<le> length tab"
  shows "0 < js_bigint_norm_len tab l \<and> js_bigint_norm_len tab l \<le> l
     \<and> big_val (take (js_bigint_norm_len tab l) tab) = big_val (take l tab)
     \<and> js_bigint_norm_len tab (js_bigint_norm_len tab l) = js_bigint_norm_len tab l"
  using assms
proof (induction tab l rule: js_bigint_norm_len.induct)
  case (1 tab l)
  let ?stop = "(tab ! Suc l \<noteq> 0 \<and> tab ! Suc l \<noteq> - 1) \<or> (tab ! Suc l AND 1) \<noteq> drop_bit 63 (tab ! l)"
  show ?case
  proof (cases ?stop)
    case True
    then show ?thesis by (simp add: Let_def)
  next
    case False
    let ?a = "take (Suc l) tab"
    have a: "?a \<noteq> []" "last ?a = tab ! l" "length ?a = Suc l" using 1(3) by (auto simp: take_Suc_conv_app_nth)
    have "tab ! Suc l = - (of_bool (LB ^ length ?a \<le> 2 * mp_val ?a))"
      using False a by (intro redundant_limb) auto
    moreover have "take (Suc (Suc l)) tab = ?a @ [tab ! Suc l]" using 1(3) by (simp add: take_Suc_conv_app_nth)
    ultimately have "big_val (take (Suc (Suc l)) tab) = big_val ?a" using big_val_sign_extend [OF a(1)] by simp
    with 1 False show ?thesis by (simp add: Let_def)
  qed
qed simp_all

lemma norm_len_take: "l \<le> n \<Longrightarrow> js_bigint_norm_len (take n tab) l = js_bigint_norm_len tab l"
  by (induction tab l rule: js_bigint_norm_len.induct) (auto simp: Let_def)

lemma normalize1_spec:
  assumes "0 < l" "l \<le> length a"
  shows "js_spec (js_bigint_normalize1 a l) (\<lambda>r. represents r (big_val (take l a))) E"
proof -
  let ?l = "js_bigint_norm_len a l"
  note v = norm_len_value [OF assms]
  then have "represents (take ?l a) (big_val (take l a))"
    using assms by (auto simp: big_wf_def norm_len_take)
  then show ?thesis
    using v assms unfolding js_bigint_normalize1_def Let_def
    by (auto intro!: js_spec_intros simp: js_bigint_normalize1_def)
qed

lemma normalize_spec: "a \<noteq> [] \<Longrightarrow> js_spec (js_bigint_normalize a) (\<lambda>r. represents r (big_val a)) E"
  using normalize1_spec [of "length a" a] by (simp add: js_bigint_normalize_def)

lemma new_spec:
  "(n > JS_BIGINT_MAX_SIZE \<Longrightarrow> E too_large) \<Longrightarrow> js_spec (js_bigint_new n) (\<lambda>r. length r = n) E"
  unfolding js_bigint_new_def by (intro js_spec_if js_spec_throw js_spec_malloc)

lemma extend_spec:
  assumes "r \<noteq> []"
  shows "js_spec (js_bigint_extend r op1) (\<lambda>q. represents q (big_val (r @ [op1]))) E"
proof (cases "(op1 \<noteq> 0 \<and> op1 \<noteq> - 1) \<or> (op1 AND 1) \<noteq> drop_bit 63 (r ! (length r - 1))")
  case True
  have "represents (r @ [op1]) (big_val (r @ [op1]))"
  proof -
    obtain m where m: "length r = Suc m" using assms by (cases r) auto
    then show ?thesis using True assms by (auto simp: big_wf_def Let_def nth_append)
  qed
  moreover have "q[length r := op1] = r @ [op1]" if "length q = length r + 1" "take (length r) q = r" for q
    using that by (intro nth_equalityI) (auto simp: nth_append nth_list_update, metis nth_take)
  ultimately show ?thesis
    using True unfolding js_bigint_extend_def Let_def
    by (auto intro!: js_spec_bind [OF js_spec_realloc] js_spec_return)
next
  case False
  then have "op1 = - (of_bool (LB ^ length r \<le> 2 * mp_val r))"
    using assms by (intro redundant_limb) (auto simp: last_conv_nth)
  then have "big_val (r @ [op1]) = big_val r" using big_val_sign_extend [OF assms] by simp
  moreover have "js_bigint_extend r op1 = js_bigint_normalize r"
    unfolding js_bigint_extend_def Let_def by (rule if_not_P [OF False])
  ultimately show ?thesis using normalize_spec [OF assms] by simp
qed

text \<open>A normalised number of more than one limb does not fit in fewer limbs: the representation is unique.\<close>

lemma wf_magnitude:
  assumes "big_wf a" "length a = Suc (Suc m)"
  shows "int (LB ^ Suc m) \<le> 2 * big_val a \<or> 2 * big_val a < - int (LB ^ Suc m)"
proof (rule ccontr)
  assume *: "\<not> ?thesis"
  obtain b op where a: "a = b @ [op]" using assms(2) by (cases a rule: rev_cases) auto
  have lb: "length b = Suc m" using assms(2) a by simp
  let ?P = "int (LB ^ Suc m)"
  have bv: "big_val b = big_val a"
  proof -
    obtain k where k: "int (mp_val a) = big_val a + k * int (LB ^ length a)" using big_val_cong by blast
    have "int (mp_val a) = int (mp_val b) + int (unat op) * ?P" by (simp add: a lb mp_val_append)
    moreover have "int (LB ^ length a) = int LB * ?P" using assms(2) by simp
    ultimately have "int (mp_val b) = big_val a + (k * int LB - int (unat op)) * int (LB ^ length b)"
      using k lb by (simp add: algebra_simps)
    then show ?thesis using * lb by (intro big_val_eqI) auto
  qed
  have b: "b \<noteq> []" using lb by auto
  have op: "op = - (of_bool (LB ^ length b \<le> 2 * mp_val b))"
  proof -
    let ?e = "- (of_bool (LB ^ length b \<le> 2 * mp_val b)) :: limb"
    have "big_val (b @ [op]) = big_val (b @ [?e])" using bv big_val_sign_extend [OF b] a by simp
    then have "b @ [op] = b @ [?e]" by (intro big_val_inj) auto
    then show ?thesis by simp
  qed
  have "(op = 0 \<or> op = - 1) \<and> (op AND 1) = drop_bit 63 (b ! m)"
    using op b lb top_bit_iff [OF b] by (auto simp: drop_bit_63_limb last_conv_nth)
  then have "js_bigint_norm_len a (length a) = js_bigint_norm_len a (Suc m)"
    using lb by (auto simp: a Let_def nth_append)
  moreover have "js_bigint_norm_len a (Suc m) \<le> Suc m" using norm_len_value [of "Suc m" a] assms(2) by simp
  ultimately show False using assms by (simp add: big_wf_def)
qed

lemma length_le_of_range:
  assumes "big_wf a" "0 < n" "- int (LB ^ n) \<le> 2 * big_val a" "2 * big_val a < int (LB ^ n)"
  shows "length a \<le> n"
proof (rule ccontr)
  assume "\<not> ?thesis"
  then obtain m where m: "length a = Suc (Suc m)" "n \<le> Suc m" using assms(2) by (cases "length a"; cases "length a - 1") auto
  have "LB ^ n \<le> LB ^ Suc m" using m(2) by (intro power_increasing) auto
  then have "int (LB ^ n) \<le> int (LB ^ Suc m)" by (simp only: of_nat_le_iff)
  with wf_magnitude [OF assms(1) m(1)] assms(3,4) show False by linarith
qed

text \<open>Two representations of the same number are equal.\<close>

lemma represents_unique:
  assumes "big_wf a" "big_wf b" "big_val a = big_val b"
  shows "a = b"
proof -
  have "length a = length b"
    using length_le_of_range [OF assms(1), of "length b"] length_le_of_range [OF assms(2), of "length a"]
      big_val_range [of a] big_val_range [of b] assms by (auto simp: big_wf_def intro!: antisym)
  with assms(3) show ?thesis by (intro big_val_inj)
qed

end
