(* ===== verification/BigIntArith.thy ===== *)
theory BigIntArith
  imports BigInt
begin

text \<open>
  What the BigInt operations compute: each returns the normalised representation of the
  mathematical result, or throws a \<open>RangeError\<close> in the cases the code names, or runs out of memory.
\<close>

section \<open>Sums, differences and negation\<close>

lemma mp_add_append:
  assumes "length xs = length ys"
  shows "mp_add (xs @ xs') (ys @ ys') c =
    (let (r, c1) = mp_add xs ys c; (r', c2) = mp_add xs' ys' c1 in (r @ r', c2))"
  using assms by (induction xs ys arbitrary: c rule: list_induct2) (auto simp: Let_def split: prod.splits)

definition sign_ext :: "JSBigInt \<Rightarrow> nat \<Rightarrow> limb list" where
  "sign_ext a n = a @ replicate (n - length a) (- js_bigint_sign a)"

lemma length_sign_ext [simp]: "length a \<le> n \<Longrightarrow> length (sign_ext a n) = n"
  by (simp add: sign_ext_def)

lemma big_val_replicate_sign:
  assumes "a \<noteq> []"
  shows "big_val (a @ replicate k (- js_bigint_sign a)) = big_val a"
proof (induction k)
  case (Suc k)
  let ?b = "a @ replicate k (- js_bigint_sign a)"
  have b: "?b \<noteq> []" using assms by simp
  have "js_bigint_sign a = of_bool (LB ^ length ?b \<le> 2 * mp_val ?b)"
    unfolding big_val_neg_iff [symmetric] Suc using sign_big_val [OF assms] by simp
  then have "big_val (?b @ [- js_bigint_sign a]) = big_val ?b"
    using big_val_sign_extend [OF b] by simp
  moreover have "a @ replicate (Suc k) (- js_bigint_sign a) = ?b @ [- js_bigint_sign a]"
    by (simp add: replicate_append_same)
  ultimately show ?case using Suc by (simp only:)
qed simp

lemma big_val_sign_ext: "a \<noteq> [] \<Longrightarrow> big_val (sign_ext a n) = big_val a"
  unfolding sign_ext_def by (rule big_val_replicate_sign)

lemma mp_val_complement: "mp_val (map (\<lambda>x. NOT x) xs) + mp_val xs + 1 = LB ^ length xs"
proof (induction xs)
  case (Cons x xs)
  have e: "unat (NOT x) + unat x + 1 = LB"
    using unat_not_limb [of x] unat_le_LB [of x] LB_ge_1(1) by linarith
  have "mp_val (map (\<lambda>x. NOT x) (x # xs)) + mp_val (x # xs) + 1
      = (unat (NOT x) + unat x + 1) + LB * (mp_val (map (\<lambda>x. NOT x) xs) + mp_val xs)"
    by (simp add: distrib_left)
  also have "\<dots> = LB * (mp_val (map (\<lambda>x. NOT x) xs) + mp_val xs + 1)"
    unfolding e by (simp add: distrib_left)
  finally show ?case unfolding Cons by simp
qed simp

lemma LB_power_even: "0 < n \<Longrightarrow> \<exists>h. int (LB ^ n) = 2 * h"
  by (cases n) (auto simp: LB_def)

lemma big_val_complement:
  assumes "a \<noteq> []"
  shows "big_val (map (\<lambda>x. NOT x) a) = - big_val a - 1"
proof -
  obtain h where h: "int (LB ^ length a) = 2 * h" using LB_power_even [of "length a"] assms by auto
  obtain k where k: "int (mp_val a) = big_val a + k * int (LB ^ length a)" using big_val_cong by blast
  have "int (mp_val (map (\<lambda>x. NOT x) a)) = int (LB ^ length a) - 1 - int (mp_val a)"
    using arg_cong [OF mp_val_complement [of a], of int] by simp
  then have "int (mp_val (map (\<lambda>x. NOT x) a)) = - big_val a - 1 + (1 - k) * int (LB ^ length (map (\<lambda>x. NOT x) a))"
    using k by (simp add: algebra_simps)
  then show ?thesis by (rule big_val_eqI) (use big_val_range [of a] h in \<open>simp_all del: of_nat_power\<close>)
qed

lemma int_unat_of_int: "\<exists>j. int (unat (of_int z :: limb)) = z + j * int LB"
proof -
  have "int (unat (of_int z :: limb)) = z mod int LB"
    by (simp add: LB_def uint_word_of_int)
  also have "\<dots> = z + (- (z div int LB)) * int LB"
    by (simp add: minus_div_mult_eq_mod [symmetric])
  finally show ?thesis by blast
qed

lemma big_val_extended_sum:
  assumes "A \<noteq> []" "length B = length A" "mp_add A B c = (r, carry)" "unat c \<le> 1"
  shows "big_val (r @ [- js_bigint_sign A + - js_bigint_sign B + carry]) = big_val A + big_val B + int (unat c)"
proof -
  let ?n = "length A" and ?op = "- js_bigint_sign A + - js_bigint_sign B + carry"
  let ?P = "int (LB ^ ?n)" and ?SA = "of_bool (LB ^ length A \<le> 2 * mp_val A) :: int"
    and ?SB = "of_bool (LB ^ length B \<le> 2 * mp_val B) :: int"
  have B: "B \<noteq> []" using assms(1,2) by auto
  have "mp_val r + LB ^ ?n * unat carry = mp_val A + mp_val B + unat c" and lr: "length r = ?n"
    using mp_add_value [OF assms(2) [symmetric] assms(3,4)] by auto
  from arg_cong [OF this(1), of int]
  have v: "int (mp_val r) + ?P * int (unat carry) = int (mp_val A) + int (mp_val B) + int (unat c)"
    by simp
  have "?op = of_int (int (unat carry) - ?SA - ?SB)"
    by (simp add: sign_limb [OF assms(1)] sign_limb [OF B])
  moreover obtain j where "int (unat (of_int (int (unat carry) - ?SA - ?SB) :: limb)) = int (unat carry) - ?SA - ?SB + j * int LB"
    using int_unat_of_int by blast
  ultimately have op: "int (unat ?op) = int (unat carry) - ?SA - ?SB + j * int LB" by (simp only:)
  have bA: "big_val A = int (mp_val A) - ?SA * ?P" by (simp add: big_val_def)
  have bB: "big_val B = int (mp_val B) - ?SB * ?P" by (simp add: big_val_def assms(2))
  show ?thesis
  proof (rule big_val_eqI [of _ _ j])
    have "int (mp_val (r @ [?op])) = int (mp_val r) + ?P * int (unat ?op)"
      by (simp add: mp_val_append lr)
    also have "\<dots> = big_val A + big_val B + int (unat c) + j * (?P * int LB)"
      unfolding op bA bB using v by (simp only: algebra_simps)
    finally show "int (mp_val (r @ [?op])) = big_val A + big_val B + int (unat c) + j * int (LB ^ length (r @ [?op]))"
      by (simp add: lr mult.commute)
    have "4 * LB ^ ?n \<le> LB ^ ?n * LB" by (simp add: LB_def)
    then have "4 * ?P \<le> int (LB ^ length (r @ [?op]))" by (simp add: lr mult.commute)
    moreover have "1 \<le> ?P" by simp
    moreover have "0 \<le> int (unat c)" "int (unat c) \<le> 1" using assms(4) by (simp_all only: of_nat_0_le_iff of_nat_le_1_iff)
    moreover have "\<And>P M x y z :: int. 4 * P \<le> M \<Longrightarrow> 1 \<le> P \<Longrightarrow> 0 \<le> z \<Longrightarrow> z \<le> 1 \<Longrightarrow> - P \<le> 2 * x \<Longrightarrow> 2 * x < P
        \<Longrightarrow> - P \<le> 2 * y \<Longrightarrow> 2 * y < P \<Longrightarrow> - M \<le> 2 * (x + y + z) \<and> 2 * (x + y + z) < M"
      by auto
    ultimately have "- int (LB ^ length (r @ [?op])) \<le> 2 * (big_val A + big_val B + int (unat c))
        \<and> 2 * (big_val A + big_val B + int (unat c)) < int (LB ^ length (r @ [?op]))"
      using big_val_range [of A] big_val_range [of B, unfolded assms(2)] by blast
    then show "- int (LB ^ length (r @ [?op])) \<le> 2 * (big_val A + big_val B + int (unat c))"
      "2 * (big_val A + big_val B + int (unat c)) < int (LB ^ length (r @ [?op]))"
      by blast+
  qed
qed

lemma xor_mask: "x XOR - (of_bool s :: limb) = (if s then NOT x else x)"
  by (simp add: xor.commute)

lemma sign_map_not: "b \<noteq> [] \<Longrightarrow> js_bigint_sign (map (\<lambda>x. NOT x) b) = js_bigint_sign b XOR 1"
  by (simp add: sign_big_val big_val_complement)

lemma map_mask_sign_ext:
  fixes neg :: bool
  assumes "b \<noteq> []"
  defines "f \<equiv> (\<lambda>x. x XOR - (of_bool neg :: limb))"
  shows "map f (sign_ext b n) = sign_ext (map f b) n"
    and "- js_bigint_sign (map f b) = - js_bigint_sign b XOR - (of_bool neg)"
    and "big_val (map f b) = (if neg then - big_val b - 1 else big_val b)"
proof -
  show s: "- js_bigint_sign (map f b) = - js_bigint_sign b XOR - (of_bool neg)"
    using assms(1) by (cases neg) (simp_all add: f_def sign_big_val big_val_complement)
  then show "map f (sign_ext b n) = sign_ext (map f b) n"
    by (simp add: sign_ext_def) (simp add: f_def)
  show "big_val (map f b) = (if neg then - big_val b - 1 else big_val b)"
    using assms(1) by (simp add: f_def big_val_complement)
qed

lemma js_bigint_add_spec:
  assumes "big_wf a" "big_wf b"
  shows "js_spec (js_bigint_add a b b_neg)
     (\<lambda>r. represents r (if b_neg then big_val a - big_val b else big_val a + big_val b))
     (\<lambda>e. e = too_large \<and> max (length a) (length b) > JS_BIGINT_MAX_SIZE)"
proof -
  let ?n2 = "max (length a) (length b)" and ?n1 = "min (length a) (length b)"
  define m where "m = - (of_bool b_neg :: limb)"
  define f where "f = (\<lambda>x. x XOR m)"
  define B where "B = map f b"
  have ne: "a \<noteq> []" "b \<noteq> []" "B \<noteq> []" using assms by (auto simp: big_wf_def B_def)
  have fs: "- js_bigint_sign B = - js_bigint_sign b XOR m"
    "big_val B = (if b_neg then - big_val b - 1 else big_val b)"
    using map_mask_sign_ext(2,3) [OF ne(2), of b_neg] by (simp_all add: B_def f_def m_def)
  obtain lo c1 where lo: "mp_add (take ?n1 a) (take ?n1 B) (of_bool b_neg) = (lo, c1)" by fastforce
  obtain hi c2 where hi: "(if length a > length b then mp_add (drop ?n1 a) (replicate (?n2 - ?n1) (- js_bigint_sign B)) c1
      else if length a < length b then mp_add (replicate (?n2 - ?n1) (- js_bigint_sign a)) (drop ?n1 B) c1
      else ([], c1)) = (hi, c2)" by fastforce
  have lB: "length B = length b" by (simp add: B_def)
  have A: "sign_ext a ?n2 = take ?n1 a @ (if length a > length b then drop ?n1 a else replicate (?n2 - ?n1) (- js_bigint_sign a))"
    using lB by (auto simp: sign_ext_def min_def max_def)
  have B: "sign_ext B ?n2 = take ?n1 B @ (if length a < length b then drop ?n1 B else replicate (?n2 - ?n1) (- js_bigint_sign B))"
    using lB by (auto simp: sign_ext_def min_def max_def)
  have sum: "mp_add (sign_ext a ?n2) (sign_ext B ?n2) (of_bool b_neg) = (lo @ hi, c2)"
    unfolding A B using lo hi lB by (subst mp_add_append) (auto split: if_splits)
  have len: "length (sign_ext a ?n2) = ?n2" "length (sign_ext B ?n2) = ?n2" using lB by simp_all
  have ne2: "sign_ext a ?n2 \<noteq> []" "sign_ext B ?n2 \<noteq> []" using ne by (simp_all add: sign_ext_def)
  have sg: "js_bigint_sign (sign_ext a ?n2) = js_bigint_sign a" "js_bigint_sign (sign_ext B ?n2) = js_bigint_sign B"
    using ne ne2 by (simp_all add: sign_big_val big_val_sign_ext)
  have val: "big_val ((lo @ hi) @ [- js_bigint_sign a + - js_bigint_sign B + c2])
      = (if b_neg then big_val a - big_val b else big_val a + big_val b)"
    using big_val_extended_sum [OF ne2(1) _ sum] len ne fs sg by (simp add: big_val_sign_ext)
  have llh: "length (lo @ hi) = ?n2"
    using mp_add_value [OF _ sum] len by simp
  have lh: "lo @ hi \<noteq> []" using llh ne by (cases "lo @ hi") auto
  have mB: "map (\<lambda>x. x XOR m) (take ?n1 b) = take ?n1 B" "map (\<lambda>x. x XOR m) (drop ?n1 b) = drop ?n1 B"
    by (simp_all add: B_def f_def take_map drop_map)
  have body: "js_bigint_add a b b_neg = js_bind (js_bigint_new ?n2)
      (\<lambda>r. js_bigint_extend (blit r 0 (lo @ hi)) (- js_bigint_sign a + - js_bigint_sign B + c2))"
    unfolding js_bigint_add_def Let_def m_def [symmetric] fs(1) [symmetric]
    by (simp only: mB lo hi case_prod_conv)
  show ?thesis
    unfolding body
  proof (rule js_spec_bind [OF new_spec])
    fix r :: JSBigInt
    assume "length r = ?n2"
    then have "blit r 0 (lo @ hi) = lo @ hi" using llh by simp
    with extend_spec [OF lh, of "- js_bigint_sign a + - js_bigint_sign B + c2"] val
    show "js_spec (js_bigint_extend (blit r 0 (lo @ hi)) (- js_bigint_sign a + - js_bigint_sign B + c2))
       (\<lambda>r. represents r (if b_neg then big_val a - big_val b else big_val a + big_val b))
       (\<lambda>e. e = too_large \<and> max (length a) (length b) > JS_BIGINT_MAX_SIZE)" by simp
  qed simp
qed

lemma big_wf_single [simp]: "big_wf [x]"
  by (simp add: big_wf_def)

lemma big_val_single: "big_val [x] = sint x"
proof -
  have "uint x < 18446744073709551616" by (rule order_less_le_trans [OF uint_lt2p]) simp
  then have "sint x = uint x - (if bit x 63 then 2 ^ 64 else 0)"
    by (simp add: sint_uint signed_take_bit_eq_take_bit_minus bit_uint_iff take_bit_int_eq_self_iff)
  then show ?thesis by (simp add: big_val_def bit_63_limb LB_def)
qed

lemma big_wf_zero: "big_wf a \<Longrightarrow> (length a = 1 \<and> a ! 0 = 0) = (big_val a = 0)"
  using represents_unique [of a "[0]"] by (auto simp: big_val_single length_Suc_conv)

lemma new_si_spec: "js_spec (js_bigint_new_si a) (\<lambda>r. represents r (sint a)) E"
  unfolding js_bigint_new_si_def
  by (rule js_spec_bind [OF new_spec])
    (auto simp: JS_BIGINT_MAX_SIZE_def length_Suc_conv big_val_single intro!: js_spec_return)

lemma js_bigint_neg_spec:
  assumes "big_wf a"
  shows "js_spec (js_bigint_neg a) (\<lambda>r. represents r (- big_val a))
     (\<lambda>e. e = too_large \<and> length a > JS_BIGINT_MAX_SIZE)"
  unfolding js_bigint_neg_def js_bigint_set_si_def
  by (rule js_spec_conseq [OF js_bigint_add_spec [of "[0]" a True]])
    (use assms in \<open>auto simp: big_val_single JS_BIGINT_MAX_SIZE_def\<close>)

section \<open>Products\<close>

lemma sub_at_value:
  assumes "length r = off + length y" 
  shows "\<exists>k. int (mp_val (blit r off (fst (mp_sub (array_slice r off (length y)) y 0))))
     = int (mp_val r) - int (LB ^ off * mp_val y) + k * int (LB ^ length r)"
    and "length (blit r off (fst (mp_sub (array_slice r off (length y)) y 0))) = length r"
proof -
  obtain rs c where sub: "mp_sub (array_slice r off (length y)) y 0 = (rs, c)" by fastforce
  have "length (array_slice r off (length y)) = length y" using assms by simp
  from mp_sub_value [OF this sub] this
  have v: "mp_val rs + mp_val y = mp_val (array_slice r off (length y)) + LB ^ length y * unat c"
    and l: "length rs = length y" by auto
  have b: "blit r off rs = take off r @ rs" using assms l by (simp add: blit_def)
  have "mp_val r = mp_val (take off r) + LB ^ off * mp_val (array_slice r off (length y))"
    using mp_val_take_drop [of r off] assms by (simp add: array_slice_def)
  moreover have "mp_val (blit r off rs) = mp_val (take off r) + LB ^ off * mp_val rs"
    using assms by (simp add: b mp_val_append)
  moreover have "LB ^ off * mp_val rs + LB ^ off * mp_val y
      = LB ^ off * mp_val (array_slice r off (length y)) + LB ^ length r * unat c"
    using arg_cong [OF v, of "\<lambda>x. LB ^ off * x"] assms by (simp add: distrib_left power_add)
  ultimately have "mp_val (blit r off rs) + LB ^ off * mp_val y = mp_val r + unat c * LB ^ length r"
    by simp
  from arg_cong [OF this, of int]
  have "int (mp_val (blit r off rs)) = int (mp_val r) - int (LB ^ off * mp_val y) + int (unat c) * int (LB ^ length r)"
    by simp
  then show "\<exists>k. int (mp_val (blit r off (fst (mp_sub (array_slice r off (length y)) y 0))))
     = int (mp_val r) - int (LB ^ off * mp_val y) + k * int (LB ^ length r)"
    unfolding sub fst_conv by blast
  show "length (blit r off (fst (mp_sub (array_slice r off (length y)) y 0))) = length r"
    using assms l by (simp add: sub)
qed

lemma js_bigint_mul_spec:
  assumes "big_wf a" "big_wf b"
  shows "js_spec (js_bigint_mul a b) (\<lambda>r. represents r (big_val a * big_val b))
     (\<lambda>e. e = too_large \<and> length a + length b > JS_BIGINT_MAX_SIZE)"
  unfolding js_bigint_mul_def
proof (rule js_spec_bind [OF new_spec])
  fix r0 :: JSBigInt
  assume l0: "length r0 = length a + length b"
  have ne: "a \<noteq> []" "b \<noteq> []" using assms by (auto simp: big_wf_def)
  let ?P = "int (LB ^ length a)" and ?Q = "int (LB ^ length b)"
  define SA :: int where "SA = of_bool (big_val a < 0)"
  define SB :: int where "SB = of_bool (big_val b < 0)"
  have va: "int (mp_val a) = big_val a + SA * ?P" and vb: "int (mp_val b) = big_val b + SB * ?Q"
    unfolding SA_def SB_def big_val_neg_iff by (simp_all add: big_val_def)
  define r1 where "r1 = mp_mul_basecase r0 a b"
  define r2 where "r2 = (if js_bigint_sign a \<noteq> 0
     then blit r1 (length a) (fst (mp_sub (array_slice r1 (length a) (length b)) b 0)) else r1)"
  define r3 where "r3 = (if js_bigint_sign b \<noteq> 0
     then blit r2 (length b) (fst (mp_sub (array_slice r2 (length b) (length a)) a 0)) else r2)"
  have l1: "length r1 = length a + length b" and v1: "mp_val r1 = mp_val a * mp_val b"
    using mp_mul_basecase_value [OF l0 ne(2)] by (simp_all add: r1_def)
  have sa: "js_bigint_sign a \<noteq> 0 \<longleftrightarrow> big_val a < 0" and sb: "js_bigint_sign b \<noteq> 0 \<longleftrightarrow> big_val b < 0"
    using ne by (simp_all add: sign_big_val)
  have l2: "length r2 = length a + length b" using sub_at_value(2) [OF l1] l1 by (simp add: r2_def)
  obtain k2 where v2: "int (mp_val r2) = int (mp_val r1) - SA * ?P * int (mp_val b) + k2 * (?P * ?Q)"
    using sub_at_value(1) [OF l1] l1 by (cases "big_val a < 0") (auto simp: r2_def sa SA_def power_add intro: that [of 0])
  have l2': "length r2 = length b + length a" using l2 by simp
  have l3: "length r3 = length a + length b" using sub_at_value(2) [OF l2'] l2 by (simp add: r3_def)
  obtain k3 where v3: "int (mp_val r3) = int (mp_val r2) - SB * ?Q * int (mp_val a) + k3 * (?P * ?Q)"
    using sub_at_value(1) [OF l2'] l2 by (cases "big_val b < 0") (auto simp: r3_def sb SB_def power_add intro: that [of 0])
  have PQ: "int (LB ^ length r3) = ?P * ?Q" by (simp add: l3 power_add)
  have "big_val r3 = big_val a * big_val b"
  proof (rule big_val_eqI)
    show "int (mp_val r3) = big_val a * big_val b + (k2 + k3 - SA * SB) * int (LB ^ length r3)"
      unfolding PQ v3 v2 v1 of_nat_mult va vb by (simp only: algebra_simps)
    have "\<bar>2 * big_val a\<bar> \<le> ?P" "\<bar>2 * big_val b\<bar> \<le> ?Q"
      using big_val_range [of a] big_val_range [of b] by linarith+
    then have "\<bar>2 * big_val a\<bar> * \<bar>2 * big_val b\<bar> \<le> ?P * ?Q" by (intro mult_mono) auto
    then have "4 * \<bar>big_val a * big_val b\<bar> \<le> ?P * ?Q" by (simp add: abs_mult)
    moreover have "0 < ?P * ?Q" by simp
    ultimately show "- int (LB ^ length r3) \<le> 2 * (big_val a * big_val b)"
      "2 * (big_val a * big_val b) < int (LB ^ length r3)" unfolding PQ by linarith+
  qed
  moreover have "r3 \<noteq> []" using l3 ne by auto
  ultimately show "js_spec (let r = mp_mul_basecase r0 a b;
           r = (if js_bigint_sign a \<noteq> 0
                then blit r (length a) (fst (mp_sub (array_slice r (length a) (length b)) b 0)) else r);
           r = (if js_bigint_sign b \<noteq> 0
                then blit r (length b) (fst (mp_sub (array_slice r (length b) (length a)) a 0)) else r)
       in js_bigint_normalize r) (\<lambda>r. represents r (big_val a * big_val b))
     (\<lambda>e. e = too_large \<and> length a + length b > JS_BIGINT_MAX_SIZE)"
    unfolding Let_def r1_def [symmetric] r2_def [symmetric] r3_def [symmetric]
    using normalize_spec [of r3] by simp
qed simp

end
