(* ===== verification/BigIntDiv.thy ===== *)
theory BigIntDiv
  imports BigIntArith "HOL-Library.Signed_Division"
begin

text \<open>
  Division: \<open>js_bigint_divrem\<close> returns the quotient truncated towards zero or the remainder with
  the sign of the dividend, and never loops.
\<close>

lemma bit_len_bounds: "0 < n \<Longrightarrow> 0 < bit_len n \<and> 2 ^ (bit_len n - 1) \<le> n \<and> n < 2 ^ bit_len n"
proof (induction n rule: bit_len.induct)
  case (1 n)
  show ?case
  proof (cases "n = 1")
    case True
    then show ?thesis by (simp add: bit_len.simps)
  next
    case False
    with 1 have IH: "0 < bit_len (n div 2)" "2 ^ (bit_len (n div 2) - 1) \<le> n div 2" "n div 2 < 2 ^ bit_len (n div 2)" by auto
    obtain m where m: "bit_len (n div 2) = Suc m" using IH(1) gr0_implies_Suc by blast
    have "bit_len n = Suc (Suc m)" using 1(2) m by (subst bit_len.simps) simp
    then show ?thesis using IH m by simp linarith
  qed
qed

lemma bit_len_le: "n < 2 ^ k \<Longrightarrow> bit_len n \<le> k"
proof (cases "n = 0")
  case False
  assume "n < 2 ^ k"
  with False bit_len_bounds [of n] have "(2::nat) ^ (bit_len n - 1) < 2 ^ k" by linarith
  then have "bit_len n - 1 < k" by simp
  then show ?thesis by linarith
qed (simp add: bit_len.simps)

lemma js_limb_clz_bounds:
  assumes "x \<noteq> 0"
  shows "js_limb_clz x < 64" "LB \<le> 2 * (unat x * 2 ^ js_limb_clz x)" "unat x * 2 ^ js_limb_clz x < LB"
proof -
  let ?b = "bit_len (unat x)"
  have "0 < unat x" using assms by (simp add: unat_gt_0)
  note b = bit_len_bounds [OF this]
  have le: "?b \<le> 64" using unat_less_LB [of x] by (intro bit_len_le) (simp add: LB_def)
  have LBe: "LB = 2 ^ ?b * 2 ^ js_limb_clz x" using le by (simp add: LB_def js_limb_clz_def power_add [symmetric])
  show "js_limb_clz x < 64" using b by (simp add: js_limb_clz_def)
  show "unat x * 2 ^ js_limb_clz x < LB" unfolding LBe using b by simp
  have "2 * 2 ^ (?b - 1) = (2::nat) ^ ?b" using b by (metis One_nat_def Suc_pred power_Suc)
  then have "2 ^ ?b \<le> 2 * unat x" using b by linarith
  then have "2 ^ ?b * 2 ^ js_limb_clz x \<le> 2 * unat x * 2 ^ js_limb_clz x" by (intro mult_le_mono1)
  then show "LB \<le> 2 * (unat x * 2 ^ js_limb_clz x)" unfolding LBe [symmetric] by (simp only: mult.assoc)
qed

lemma mp_sig_len_value:
  assumes "0 < n" "n \<le> length tab"
  shows "0 < mp_sig_len tab n \<and> mp_sig_len tab n \<le> n
    \<and> mp_val (take (mp_sig_len tab n) tab) = mp_val (take n tab)
    \<and> (mp_sig_len tab n = 1 \<or> tab ! (mp_sig_len tab n - 1) \<noteq> 0)"
  using assms
proof (induction tab n rule: mp_sig_len.induct)
  case (1 tab n)
  then show ?case by (auto simp: take_Suc_conv_app_nth [of "Suc n"])
qed auto

lemma sig_limb_nonzero:
  assumes "0 < n" "n \<le> length tab" "mp_val (take n tab) \<noteq> 0"
  shows "tab ! (mp_sig_len tab n - 1) \<noteq> 0"
proof (cases "mp_sig_len tab n = 1")
  case True
  then have "mp_val (take 1 tab) \<noteq> 0" using mp_sig_len_value [OF assms(1,2)] assms(3) by simp
  moreover have "take 1 tab = [tab ! 0]" using assms by (cases tab) auto
  ultimately show ?thesis using True by auto
qed (use mp_sig_len_value [OF assms(1,2)] in auto)

lemma sig_limb_lower:
  assumes "0 < n" "n \<le> length tab" "tab ! (n - 1) \<noteq> 0"
  shows "LB ^ (n - 1) \<le> mp_val (take n tab)"
proof -
  obtain m where n: "n = Suc m" using assms(1) by (cases n) auto
  have "1 \<le> unat (tab ! m)" using assms(3) n by (simp add: Suc_le_eq unat_gt_0)
  then have "LB ^ m * 1 \<le> LB ^ m * unat (tab ! m)" by (rule mult_le_mono2)
  then have "LB ^ m \<le> mp_val (take m tab) + LB ^ m * unat (tab ! m)" by linarith
  then show ?thesis using assms(2) n by (simp add: take_Suc_conv_app_nth mp_val_append)
qed

text \<open>The magnitude of an operand.\<close>

definition mag :: "JSBigInt \<Rightarrow> limb list" where
  "mag a = (if js_bigint_sign a \<noteq> 0 then fst (mp_neg a) else a)"

lemma mag_value:
  assumes "a \<noteq> []"
  shows "int (mp_val (mag a)) = \<bar>big_val a\<bar>" "length (mag a) = length a"
proof -
  show "length (mag a) = length a" by (simp add: mag_def)
  have "mp_val a < LB ^ length a" by (rule mp_val_bound)
  then show "int (mp_val (mag a)) = \<bar>big_val a\<bar>"
    using assms by (auto simp: mag_def sign_limb mp_neg_value big_val_def of_nat_diff simp flip: of_nat_power)
qed

lemma mp_val_lower:
  assumes "x \<noteq> []"
  shows "LB ^ (length x - 1) * unat (last x) \<le> mp_val x" "mp_val x < LB ^ (length x - 1) * (unat (last x) + 1)"
proof -
  obtain ys y where x: "x = ys @ [y]" using assms by (cases x rule: rev_cases) auto
  show "LB ^ (length x - 1) * unat (last x) \<le> mp_val x" "mp_val x < LB ^ (length x - 1) * (unat (last x) + 1)"
    using mp_val_bound [of ys] by (simp_all add: x mp_val_append distrib_left)
qed

text \<open>Shifting the divisor by the leading zeros of its top limb loses no bit and sets its top bit.\<close>

lemma shl_norm_divisor:
  assumes "v \<noteq> []" "last v \<noteq> 0" "js_limb_clz (last v) \<noteq> 0" "mp_shl v (js_limb_clz (last v)) = (bs, h)"
  shows "mp_val bs = mp_val v * 2 ^ js_limb_clz (last v)" "length bs = length v" "LB \<le> 2 * unat (last bs)"
proof -
  let ?s = "js_limb_clz (last v)" and ?P = "LB ^ (length v - 1)"
  note c = js_limb_clz_bounds [OF assms(2)]
  have val: "mp_val bs + LB ^ length v * unat h = mp_val v * 2 ^ ?s" and l: "length bs = length v"
    using mp_shl_value [OF assms(4)] c(1) assms(3) by auto
  have P: "LB ^ length v = ?P * LB" using assms(1) by (cases v) auto
  have LBs: "LB = 2 ^ (64 - ?s) * 2 ^ ?s" using c(1) by (simp add: LB_def flip: power_add)
  have "unat (last v) * 2 ^ ?s < 2 ^ (64 - ?s) * 2 ^ ?s" using c(3) LBs by simp
  then have "unat (last v) + 1 \<le> 2 ^ (64 - ?s)" by simp
  then have "(unat (last v) + 1) * 2 ^ ?s \<le> LB" using LBs by (metis mult_le_mono1)
  then have "?P * ((unat (last v) + 1) * 2 ^ ?s) \<le> ?P * LB" by (rule mult_le_mono2)
  moreover have "mp_val v * 2 ^ ?s < ?P * (unat (last v) + 1) * 2 ^ ?s"
    using mp_val_lower(2) [OF assms(1)] by simp
  ultimately have "mp_val v * 2 ^ ?s < LB ^ length v" unfolding P mult.assoc by (rule less_le_trans [rotated])
  with val have "LB ^ length v * unat h < LB ^ length v * 1" by linarith
  then have "h = 0" by (simp add: unat_eq_zero)
  with val show v: "mp_val bs = mp_val v * 2 ^ ?s" by simp
  show "length bs = length v" by (rule l)
  have "?P * LB \<le> ?P * (2 * (unat (last v) * 2 ^ ?s))" using c(2) by (rule mult_le_mono2)
  also have "\<dots> = 2 * (?P * unat (last v) * 2 ^ ?s)" by (simp only: ac_simps)
  also have "\<dots> \<le> 2 * (mp_val v * 2 ^ ?s)" using mp_val_lower(1) [OF assms(1)] by simp
  finally have "LB ^ length bs \<le> 2 * mp_val bs" by (simp only: l P v)
  then show "LB \<le> 2 * unat (last bs)" using top_bit_iff [of bs] assms(1) l by (cases bs) auto
qed


text \<open>The operands after normalisation of the divisor, as \<open>js_bigint_divrem\<close> prepares them.\<close>

definition shift_operands :: "nat \<Rightarrow> limb list \<Rightarrow> nat \<Rightarrow> limb list \<Rightarrow> nat \<Rightarrow> limb list \<times> limb list \<times> nat" where
  "shift_operands shift tabb nb r na =
     (if shift \<noteq> 0
      then (let (bs, _) = mp_shl (take nb tabb) shift;
                (rs, h) = mp_shl (take na r) shift;
                r = blit r 0 rs
            in if h \<noteq> 0 then (blit tabb 0 bs, r[na := h], na + 1)
               else (blit tabb 0 bs, r, na))
      else (tabb, r, na))"

lemma mp_val_take_Suc: "n < length xs \<Longrightarrow> mp_val (take (Suc n) xs) = mp_val (take n xs) + LB ^ n * unat (xs ! n)"
  by (simp add: take_Suc_conv_app_nth mp_val_append)

lemma shift_operands_value:
  assumes "0 < nb" "nb \<le> length tabb" "tabb ! (nb - 1) \<noteq> 0" "na < length r" "s = js_limb_clz (tabb ! (nb - 1))"
    and e: "shift_operands s tabb nb r na = (tabb', r', na')"
  shows "length r' = length r" "na \<le> na'" "na' \<le> na + 1" "mp_val (take na' r') = mp_val (take na r) * 2 ^ s"
    "mp_val (take nb tabb') = mp_val (take nb tabb) * 2 ^ s" "LB \<le> 2 * unat (last (take nb tabb'))"
    "nb \<le> length tabb'"
proof -
  let ?v = "take nb tabb"
  have v: "?v \<noteq> []" "last ?v = tabb ! (nb - 1)" "length ?v = nb"
    using assms(1,2) by (cases nb; auto simp: take_Suc_conv_app_nth)+
  note c = js_limb_clz_bounds [OF assms(3), folded assms(5)]
  have *: "length r' = length r \<and> na \<le> na' \<and> na' \<le> na + 1 \<and> mp_val (take na' r') = mp_val (take na r) * 2 ^ s
    \<and> mp_val (take nb tabb') = mp_val (take nb tabb) * 2 ^ s \<and> LB \<le> 2 * unat (last (take nb tabb')) \<and> nb \<le> length tabb'"
  proof (cases "s = 0")
    case True
    with e c(2) v assms(2) show ?thesis by (simp add: shift_operands_def)
  next
    case False
    obtain bs hb where bs: "mp_shl ?v s = (bs, hb)" by fastforce
    obtain rs h where rs: "mp_shl (take na r) s = (rs, h)" by fastforce
    have B: "mp_val bs = mp_val ?v * 2 ^ s" "length bs = nb" "LB \<le> 2 * unat (last bs)"
      using shl_norm_divisor [OF v(1), of bs hb] v assms(3,5) False bs by simp_all
    have R: "mp_val rs + LB ^ na * unat h = mp_val (take na r) * 2 ^ s" "length rs = na"
      using mp_shl_value [OF rs] False c(1) assms(4) by auto
    have tb: "take nb (blit tabb 0 bs) = bs" using B(2) by (simp add: blit_def)
    have tr: "take na (blit r 0 rs) = rs" using R(2) by (simp add: blit_def)
    have len: "length (blit r 0 rs) = length r" "length (blit tabb 0 bs) = length tabb"
      using R(2) B(2) assms(2,4) by simp_all
    show ?thesis
    proof (cases "h = 0")
      case True
      with e False bs rs have "tabb' = blit tabb 0 bs" "r' = blit r 0 rs" "na' = na" by (auto simp: shift_operands_def)
      with True B R tb tr len assms(2) show ?thesis by simp
    next
      case h: False
      with e False bs rs have *: "tabb' = blit tabb 0 bs" "r' = (blit r 0 rs)[na := h]" "na' = Suc na"
        by (auto simp: shift_operands_def)
      have "mp_val (take na' r') = mp_val rs + LB ^ na * unat h"
        using * len assms(4) tr by (simp add: mp_val_take_Suc)
      with * B R tb len assms(2) show ?thesis by simp
    qed
  qed
  show "length r' = length r" "na \<le> na'" "na' \<le> na + 1" "mp_val (take na' r') = mp_val (take na r) * 2 ^ s"
    "mp_val (take nb tabb') = mp_val (take nb tabb) * 2 ^ s" "LB \<le> 2 * unat (last (take nb tabb'))"
    "nb \<le> length tabb'" using * by blast+
qed

text \<open>Turning the magnitude of a result into its two's complement.\<close>

lemma big_val_snoc_0: "big_val (x @ [0]) = int (mp_val x)"
proof -
  have "2 * mp_val x < LB ^ Suc (length x)"
  proof -
    have "2 * mp_val x < 2 * LB ^ length x" using mp_val_bound [of x] by simp
    also have "\<dots> \<le> LB * LB ^ length x" by (intro mult_le_mono1) (simp add: LB_def)
    finally show ?thesis by simp
  qed
  then show ?thesis by (simp add: big_val_def)
qed

lemma big_val_neg_snoc_0: "big_val (fst (mp_neg (x @ [0]))) = - int (mp_val x)"
proof (rule big_val_eqI [of _ _ "of_bool (mp_val x \<noteq> 0)"])
  have l: "length (fst (mp_neg (x @ [0]))) = Suc (length x)" by simp
  have b: "mp_val x < LB ^ length x" by (rule mp_val_bound)
  then have "mp_val x \<le> LB ^ Suc (length x)" by (metis le_less_trans less_imp_le mp_val_bound length_append_singleton mp_val_snoc_0)
  then show "int (mp_val (fst (mp_neg (x @ [0])))) = - int (mp_val x)
      + of_bool (mp_val x \<noteq> 0) * int (LB ^ length (fst (mp_neg (x @ [0]))))"
    unfolding l by (simp add: mp_neg_value of_nat_diff del: power_Suc of_nat_power)
  have "2 * mp_val x < LB ^ Suc (length x)"
    using big_val_snoc_0 [of x] by (auto simp: big_val_def split: if_splits)
  then have "2 * int (mp_val x) < int (LB ^ Suc (length x))"
    by (metis of_nat_less_iff of_nat_mult of_nat_numeral)
  then show "- int (LB ^ length (fst (mp_neg (x @ [0])))) \<le> 2 * - int (mp_val x)"
    "2 * - int (mp_val x) < int (LB ^ length (fst (mp_neg (x @ [0]))))"
    unfolding l by (simp_all del: of_nat_power)
qed

lemma unshift_remainder:
  assumes "0 < s" "s < 64" "mp_val x = y * 2 ^ s"
  shows "mp_val (fst (mp_shr x s 0)) = y" "length (fst (mp_shr x s 0)) = length x"
proof -
  obtain rs l where r: "mp_shr_loop x s 0 = (rs, l)" by fastforce
  from mp_shr_loop_value [OF this assms(1,2)] assms(3)
  show "mp_val (fst (mp_shr x s 0)) = y" "length (fst (mp_shr x s 0)) = length x"
    by (simp_all add: mp_shr_def r)
qed


text \<open>The end of the function, after the division of the shifted operands.\<close>

definition finish_remainder :: "nat \<Rightarrow> limb list \<Rightarrow> nat \<Rightarrow> bool \<Rightarrow> limb list \<Rightarrow> JSBigInt js" where
  "finish_remainder shift r nb neg rs =
     (let r = blit r 0 rs;
          r = (if shift \<noteq> 0 then blit r 0 (fst (mp_shr (take nb r) shift 0)) else r);
          r = r[nb := 0];
          nb = nb + 1;
          r = (if neg then blit r 0 (fst (mp_neg (take nb r))) else r)
      in js_bigint_normalize1 r nb)"

lemma finish_remainder_spec:
  assumes "0 < nb" "nb < length r" "nb \<le> length rs" "length rs \<le> length r" "s < 64"
    "mp_val (take nb rs) = y * 2 ^ s"
  shows "js_spec (finish_remainder s r nb neg rs)
    (\<lambda>x. represents x (if neg then - int y else int y)) E"
proof -
  define r1 where "r1 = blit r 0 rs"
  define r2 where "r2 = (if s \<noteq> 0 then blit r1 0 (fst (mp_shr (take nb r1) s 0)) else r1)"
  define r3 where "r3 = r2[nb := 0]"
  define r4 where "r4 = (if neg then blit r3 0 (fst (mp_neg (take (nb + 1) r3))) else r3)"
  have l1: "length r1 = length r" and t1: "take nb r1 = take nb rs"
    using assms by (simp_all add: r1_def blit_def)
  have l2: "length r2 = length r" and v2: "mp_val (take nb r2) = y"
  proof -
    have l: "length (take nb r1) = nb" using assms l1 by simp
    have "s \<noteq> 0 \<Longrightarrow> mp_val (fst (mp_shr (take nb r1) s 0)) = y \<and> length (fst (mp_shr (take nb r1) s 0)) = nb"
      using unshift_remainder [of s "take nb r1" y] assms(5,6) t1 l by simp
    then show "length r2 = length r" "mp_val (take nb r2) = y"
      using assms l1 t1 by (auto simp: r2_def blit_def)
  qed
  have t3: "take (nb + 1) r3 = take nb r2 @ [0]" and l3: "length r3 = length r"
    using assms(2) l2 by (simp_all add: r3_def take_Suc_conv_app_nth)
  have l4: "length r4 = length r" and t4: "take (nb + 1) r4 = (if neg then fst (mp_neg (take nb r2 @ [0])) else take nb r2 @ [0])"
    using assms(2) l3 t3 by (auto simp: r4_def blit_def t3 l2)
  have "big_val (take (nb + 1) r4) = (if neg then - int y else int y)"
    unfolding t4 using v2 by (simp add: big_val_neg_snoc_0 big_val_snoc_0)
  with normalize1_spec [of "nb + 1" r4] assms(2) l4
  have "js_spec (js_bigint_normalize1 r4 (nb + 1)) (\<lambda>x. represents x (if neg then - int y else int y)) E"
    by simp
  then show ?thesis
    unfolding finish_remainder_def Let_def r1_def [symmetric] r2_def [symmetric] r3_def [symmetric] r4_def [symmetric] .
qed

definition finish_quotient :: "nat \<Rightarrow> bool \<Rightarrow> limb list \<Rightarrow> JSBigInt js" where
  "finish_quotient n neg q =
     (let q = q[n := 0];
          q = (if neg then fst (mp_neg q) else q)
      in js_bigint_normalize q)"

lemma finish_quotient_spec:
  assumes "length q = n + 1" "mp_val (take n q) = y"
  shows "js_spec (finish_quotient n neg q) (\<lambda>x. represents x (if neg then - int y else int y)) E"
proof -
  have q: "q[n := 0] = take n q @ [0]"
    using assms(1) by (simp add: upd_conv_take_nth_drop)
  define Q where "Q = (if neg then fst (mp_neg (take n q @ [0])) else take n q @ [0])"
  have "length Q = n + 1" using assms(1) by (simp add: Q_def)
  then have "Q \<noteq> []" by (cases Q) auto
  moreover have "big_val Q = (if neg then - int y else int y)"
    using assms(2) by (simp add: Q_def big_val_neg_snoc_0 big_val_snoc_0)
  ultimately show ?thesis
    using normalize_spec [of Q E] unfolding finish_quotient_def Let_def q Q_def [symmetric] by simp
qed

lemma divrem_tail_spec:
  assumes "0 < nb" "nb \<le> length tabb" "tabb ! (nb - 1) \<noteq> 0" "nb \<le> na" "na < length r"
    "E too_large \<or> na + 2 \<le> JS_BIGINT_MAX_SIZE"
    and A: "mp_val (take na r) = A" and B: "mp_val (take nb tabb) = B"
  shows "js_spec
    (let shift = js_limb_clz (tabb ! (nb - 1)); (tabb, r, na) = shift_operands shift tabb nb r na
     in js_bind (js_bigint_new (na - nb + 2)) (\<lambda>q.
          case mp_divnorm q (take na r) (take nb tabb) of
            None \<Rightarrow> js_throw Nontermination
          | Some (q, rs) \<Rightarrow> (if is_rem then finish_remainder shift r nb neg_r rs
                            else finish_quotient (na - nb + 1) neg_q q)))
    (\<lambda>x. represents x (if is_rem then (if neg_r then - int (A mod B) else int (A mod B))
                       else (if neg_q then - int (A div B) else int (A div B)))) E"
proof -
  let ?s = "js_limb_clz (tabb ! (nb - 1))"
  obtain tabb' r' na' where e: "shift_operands ?s tabb nb r na = (tabb', r', na')" by (metis prod_cases3)
  note sh = shift_operands_value [OF assms(1,2,3,5) refl e]
  have s: "?s < 64" using js_limb_clz_bounds [OF assms(3)] by simp
  have big: "JS_BIGINT_MAX_SIZE < na' - nb + 2 \<Longrightarrow> E too_large" using sh assms(1,6) by linarith
  have na': "na' \<le> length r'" using sh assms(5) by linarith
  have AB: "mp_val (take na' r') div mp_val (take nb tabb') = A div B"
    "mp_val (take na' r') mod mp_val (take nb tabb') = (A mod B) * 2 ^ ?s"
    using sh A B by (simp_all add: mult_mod_left)
  show ?thesis
    unfolding Let_def e case_prod_conv
  proof (rule js_spec_bind [OF new_spec])
    show "JS_BIGINT_MAX_SIZE < na' - nb + 2 \<Longrightarrow> E too_large" by (rule big)
  next
    fix q :: JSBigInt
    assume lq: "length q = na' - nb + 2"
    have ne: "take nb tabb' \<noteq> []" "length (take nb tabb') = nb" "length (take na' r') = na'"
      using sh assms(1) na' by auto
    have "nb \<le> na'" "na' < length q + nb" using sh(2) assms(4) lq by linarith+
    with mp_divnorm_value [OF ne(1), of "take na' r'" q, unfolded ne(2,3) AB] sh(6)
    obtain q' rs where d: "mp_divnorm q (take na' r') (take nb tabb') = Some (q', rs)"
      and lq': "length q' = length q" and lrs: "length rs = na'"
      and vq: "mp_val (take (na' - nb + 1) q') = A div B" and vr: "mp_val (take nb rs) = (A mod B) * 2 ^ ?s"
      by blast
    have "js_spec (finish_remainder ?s r' nb neg_r rs) (\<lambda>x. represents x (if neg_r then - int (A mod B) else int (A mod B))) E"
      using sh assms lrs na' by (intro finish_remainder_spec [OF assms(1) _ _ _ s vr]) auto
    moreover have "js_spec (finish_quotient (na' - nb + 1) neg_q q') (\<lambda>x. represents x (if neg_q then - int (A div B) else int (A div B))) E"
      using lq lq' vq by (intro finish_quotient_spec) auto
    ultimately show "js_spec (case mp_divnorm q (take na' r') (take nb tabb') of
            None \<Rightarrow> js_throw Nontermination
          | Some (q, rs) \<Rightarrow> (if is_rem then finish_remainder ?s r' nb neg_r rs
                            else finish_quotient (na' - nb + 1) neg_q q))
      (\<lambda>x. represents x (if is_rem then (if neg_r then - int (A mod B) else int (A mod B))
                       else (if neg_q then - int (A div B) else int (A div B)))) E"
      by (simp add: d)
  qed
qed

lemma signed_div_of_magnitude:
  fixes a b :: int
  assumes "int A = \<bar>a\<bar>" "int B = \<bar>b\<bar>" "b \<noteq> 0"
  shows "(if a < 0 then - int (A mod B) else int (A mod B)) = a smod b"
    and "(if (a < 0) \<noteq> (b < 0) then - int (A div B) else int (A div B)) = a sdiv b"
  using assms by (auto simp: signed_modulo_int_def signed_divide_int_def sgn_if zmod_int zdiv_int)

lemma xor_bool_word: "(of_bool p XOR of_bool q :: limb) = of_bool (p \<noteq> q)"
  by (cases p; cases q) auto

text \<open>The function after both magnitudes have been stored and their leading zeros skipped.\<close>

definition divrem_core :: "JSBigInt \<Rightarrow> JSBigInt \<Rightarrow> bool \<Rightarrow> limb list \<Rightarrow> nat \<Rightarrow> limb list \<Rightarrow> nat \<Rightarrow> JSBigInt js" where
  "divrem_core a b is_rem r na tabb nb =
     (if na < nb
      then (if is_rem then js_bind (js_bigint_new (length a)) (\<lambda>r. js_return (blit r 0 a)) else js_bigint_new_si 0)
      else
        (let shift = js_limb_clz (tabb ! (nb - 1)); (tabb, r, na) = shift_operands shift tabb nb r na
         in js_bind (js_bigint_new (na - nb + 2)) (\<lambda>q.
              case mp_divnorm q (take na r) (take nb tabb) of
                None \<Rightarrow> js_throw Nontermination
              | Some (q, rs) \<Rightarrow>
                  (if is_rem then finish_remainder shift r nb (js_bigint_sign a \<noteq> 0) rs
                   else finish_quotient (na - nb + 1) (js_bigint_sign a XOR js_bigint_sign b \<noteq> 0) q))))"

lemma js_bigint_divrem_eq:
  "js_bigint_divrem a b is_rem =
     (if length b = 1 \<and> b ! 0 = 0 then js_throw (RangeError ''BigInt division by zero'')
      else js_bind (js_bigint_new (length a + 2)) (\<lambda>r.
        let r = blit r 0 (mag a); na = mp_sig_len r (length a)
        in js_bind (js_malloc_limbs (length b)) (\<lambda>tabb.
             let tabb = blit tabb 0 (mag b); nb = mp_sig_len tabb (length b)
             in divrem_core a b is_rem r na tabb nb)))"
  unfolding js_bigint_divrem_def mag_def finish_remainder_def finish_quotient_def shift_operands_def
    divrem_core_def Let_def
  by (rule refl)

definition divrem_result :: "int \<Rightarrow> int \<Rightarrow> bool \<Rightarrow> int" where
  "divrem_result x y is_rem = (if is_rem then x smod y else x sdiv y)"

lemma divrem_core_spec:
  assumes wf: "big_wf a" "big_wf b" and nz: "big_val b \<noteq> 0"
    and na: "0 < na" "na \<le> length a" "na < length r" "mp_val (take na r) = mp_val (mag a)"
    and nb: "0 < nb" "nb \<le> length tabb" "mp_val (take nb tabb) = mp_val (mag b)" "tabb ! (nb - 1) \<noteq> 0"
  shows "js_spec (divrem_core a b is_rem r na tabb nb)
    (\<lambda>r. represents r (divrem_result (big_val a) (big_val b) is_rem))
    (\<lambda>e. e = too_large \<and> length a + 2 > JS_BIGINT_MAX_SIZE)" (is "js_spec _ ?P ?E")
proof -
  have ne: "a \<noteq> []" "b \<noteq> []" using wf by (auto simp: big_wf_def)
  have sg: "js_bigint_sign a = of_bool (big_val a < 0)" "js_bigint_sign b = of_bool (big_val b < 0)"
    using ne by (simp_all add: sign_big_val)
  note ma = mag_value [OF ne(1)] and mb = mag_value [OF ne(2)]
  show ?thesis
    unfolding divrem_core_def
  proof (rule js_spec_if)
    assume "na < nb"
    have "mp_val (mag a) < LB ^ na" using mp_val_bound [of "take na r"] na by simp
    also have "\<dots> \<le> LB ^ (nb - 1)" using \<open>na < nb\<close> by (intro power_increasing) auto
    also have "\<dots> \<le> mp_val (mag b)" using sig_limb_lower [OF nb(1,2,4)] nb(3) by simp
    finally have "\<bar>big_val a\<bar> < \<bar>big_val b\<bar>" using ma mb by linarith
    then have "divrem_result (big_val a) (big_val b) is_rem = (if is_rem then big_val a else 0)"
      by (auto simp: divrem_result_def signed_modulo_int_def signed_divide_int_def sgn_if)
    then show "js_spec (if is_rem then js_bind (js_bigint_new (length a)) (\<lambda>r. js_return (blit r 0 a))
        else js_bigint_new_si 0) ?P ?E"
      using wf by (auto intro!: js_spec_bind [OF new_spec] js_spec_return js_spec_conseq [OF new_si_spec [where E = "\<lambda>_. False"]])
  next
    assume "\<not> na < nb"
    then show "js_spec
        (let shift = js_limb_clz (tabb ! (nb - 1)); (tabb, r, na) = shift_operands shift tabb nb r na
         in js_bind (js_bigint_new (na - nb + 2)) (\<lambda>q.
              case mp_divnorm q (take na r) (take nb tabb) of
                None \<Rightarrow> js_throw Nontermination
              | Some (q, rs) \<Rightarrow>
                  (if is_rem then finish_remainder shift r nb (js_bigint_sign a \<noteq> 0) rs
                   else finish_quotient (na - nb + 1) (js_bigint_sign a XOR js_bigint_sign b \<noteq> 0) q))) ?P ?E"
      using nb na signed_div_of_magnitude [OF ma(1) mb(1) nz]
      by (intro js_spec_conseq [OF divrem_tail_spec]) (auto simp: sg xor_bool_word divrem_result_def)
  qed
qed

lemma js_bigint_divrem_spec:
  assumes "big_wf a" "big_wf b"
  shows "js_spec (js_bigint_divrem a b is_rem)
    (\<lambda>r. big_val b \<noteq> 0 \<and> represents r (divrem_result (big_val a) (big_val b) is_rem))
    (\<lambda>e. e = RangeError ''BigInt division by zero'' \<and> big_val b = 0
       \<or> e = too_large \<and> big_val b \<noteq> 0 \<and> length a + 2 > JS_BIGINT_MAX_SIZE)" (is "js_spec _ ?P ?E")
proof (cases "big_val b = 0")
  case True
  then have "length b = 1 \<and> b ! 0 = 0" using big_wf_zero [OF assms(2)] by simp
  then show ?thesis using True unfolding js_bigint_divrem_eq by (simp add: js_spec_throw)
next
  case False
  have ne: "a \<noteq> []" "b \<noteq> []" using assms by (auto simp: big_wf_def)
  note ma = mag_value [OF ne(1)] and mb = mag_value [OF ne(2)]
  have z: "\<not> (length b = 1 \<and> b ! 0 = 0)" using big_wf_zero [OF assms(2)] False by simp
  show ?thesis
    unfolding js_bigint_divrem_eq if_not_P [OF z]
  proof (rule js_spec_bind [OF new_spec])
    fix r0 :: JSBigInt
    assume lr0: "length r0 = length a + 2"
    define r where "r = blit r0 0 (mag a)"
    have r: "length r = length a + 2" "take (length a) r = mag a" using lr0 ma by (simp_all add: blit_def r_def)
    have "js_spec (js_bind (js_malloc_limbs (length b)) (\<lambda>tabb.
             let tabb = blit tabb 0 (mag b); nb = mp_sig_len tabb (length b)
             in divrem_core a b is_rem r (mp_sig_len r (length a)) tabb nb)) ?P ?E"
      unfolding Let_def
    proof (rule js_spec_bind [OF js_spec_malloc])
      fix tabb0 :: "limb list"
      assume lb0: "length tabb0 = length b"
      define tabb where "tabb = blit tabb0 0 (mag b)"
      have tb: "tabb = mag b" using lb0 mb by (simp add: tabb_def)
      have "js_spec (divrem_core a b is_rem r (mp_sig_len r (length a)) tabb (mp_sig_len tabb (length b)))
          (\<lambda>r. represents r (divrem_result (big_val a) (big_val b) is_rem))
          (\<lambda>e. e = too_large \<and> length a + 2 > JS_BIGINT_MAX_SIZE)"
        using mp_sig_len_value [of "length a" r] mp_sig_len_value [of "length b" tabb]
          sig_limb_nonzero [of "length b" tabb] ne r tb ma mb False
        by (intro divrem_core_spec assms) auto
      then show "js_spec (divrem_core a b is_rem r (mp_sig_len r (length a)) (blit tabb0 0 (mag b))
          (mp_sig_len (blit tabb0 0 (mag b)) (length b))) ?P ?E"
        unfolding tabb_def by (rule js_spec_conseq) (use False in auto)
    qed
    then show "js_spec (let r = blit r0 0 (mag a); na = mp_sig_len r (length a)
        in js_bind (js_malloc_limbs (length b)) (\<lambda>tabb.
             let tabb = blit tabb 0 (mag b); nb = mp_sig_len tabb (length b)
             in divrem_core a b is_rem r na tabb nb)) ?P ?E"
      by (simp only: Let_def r_def)
  qed (use False in simp)
qed

end
