(* ===== verification/BigIntBits.thy ===== *)
theory BigIntBits
  imports BigIntDiv
begin

text \<open>
  The bitwise operations, shifts, powers, comparison and the constructors of BigInts from machine
  integers.
\<close>

section \<open>The bits of a number\<close>

lemma bit_add_LB: "bit (unat (x::limb) + LB * v) n = (if n < 64 then bit x n else bit v (n - 64))"
proof -
  have "push_bit 64 v AND unat x = 0"
    by (rule bit_eqI) (auto simp: bit_simps dest: bit_imp_le_length)
  then have "unat x + LB * v = push_bit 64 v OR unat x"
    using disjunctive_add_eq_or [of "push_bit 64 v" "unat x"] by (simp add: push_bit_eq_mult LB_def ac_simps)
  then show ?thesis by (auto simp: bit_simps dest: bit_imp_le_length)
qed

lemma bit_mp_val: "bit (mp_val a) n \<longleftrightarrow> n div 64 < length a \<and> bit (a ! (n div 64)) (n mod 64)"
proof (induction a arbitrary: n)
  case (Cons x xs)
  show ?case
  proof (cases "n < 64")
    case False
    then have "n div 64 = Suc ((n - 64) div 64)" "n mod 64 = (n - 64) mod 64"
      by (simp_all add: le_div_geq le_mod_geq)
    with False Cons show ?thesis by (simp add: bit_add_LB)
  qed (simp add: bit_add_LB)
qed simp

lemma LB_power: "LB ^ n = 2 ^ (64 * n)"
  by (simp add: LB_def power_mult)

lemma big_val_signed_take_bit:
  assumes "a \<noteq> []"
  shows "big_val a = signed_take_bit (64 * length a - 1) (int (mp_val a))"
proof -
  let ?n = "64 * length a"
  obtain m where m: "?n = Suc m" using assms by (cases "?n") auto
  have b: "mp_val a < 2 ^ Suc m" using mp_val_bound [of a] by (simp only: LB_power m)
  then have ib: "int (mp_val a) < 2 ^ Suc m" by (metis of_nat_less_iff of_nat_numeral of_nat_power)
  have "bit (int (mp_val a)) m \<longleftrightarrow> 2 ^ Suc m \<le> 2 * mp_val a"
  proof -
    have "mp_val a div 2 ^ m < 2" using b by (simp add: less_mult_imp_div_less mult.commute)
    then have "odd (mp_val a div 2 ^ m) \<longleftrightarrow> 0 < mp_val a div 2 ^ m"
      by (cases "mp_val a div 2 ^ m"; cases "mp_val a div 2 ^ m - 1") auto
    then show ?thesis using bit_iff_odd [of "mp_val a" m] by (simp add: bit_of_nat_iff_bit div_greater_zero_iff)
  qed
  moreover have "take_bit (Suc m) (int (mp_val a)) = int (mp_val a)"
    using ib by (simp add: take_bit_int_eq_self_iff)
  ultimately show ?thesis
    unfolding big_val_def LB_power m by (simp add: signed_take_bit_eq_take_bit_minus)
qed

text \<open>Limb \<open>i\<close> of the infinite two's complement representation.\<close>

definition limb_at :: "JSBigInt \<Rightarrow> nat \<Rightarrow> limb" where
  "limb_at a i = (if i < length a then a ! i else - js_bigint_sign a)"

lemma bit_sign_limb: "n < 64 \<Longrightarrow> bit (- js_bigint_sign a) n \<longleftrightarrow> bit (a ! (length a - 1)) 63"
  by (simp add: js_bigint_sign_def drop_bit_63_limb bit_63_limb)

lemma bit_big_val:
  assumes "a \<noteq> []"
  shows "bit (big_val a) n \<longleftrightarrow> bit (limb_at a (n div 64)) (n mod 64)"
proof -
  have *: "bit (big_val a) n \<longleftrightarrow> bit (mp_val a) (min n (64 * length a - 1))"
    by (simp add: big_val_signed_take_bit [OF assms] bit_signed_take_bit_iff bit_of_nat_iff_bit min.commute)
  show ?thesis
  proof (cases "n div 64 < length a")
    case True
    then have "n < 64 * length a" by (simp add: div_less_iff_less_mult mult.commute)
    then have "min n (64 * length a - 1) = n" by simp
    with True * show ?thesis by (simp add: bit_mp_val limb_at_def)
  next
    case False
    then have "64 * length a \<le> n" by (simp add: div_less_iff_less_mult mult.commute not_less)
    moreover obtain m where m: "length a = Suc m" using assms by (cases a) auto
    moreover have "(64 * Suc m - 1) div 64 = m" "(64 * Suc m - 1) mod 64 = 63"
      by (simp_all add: div_nat_eqI)
    moreover have "min n (64 * Suc m - 1) = 64 * Suc m - 1" using \<open>64 * length a \<le> n\<close> m by simp
    ultimately show ?thesis using False *
      by (simp add: bit_mp_val limb_at_def bit_sign_limb del: mult_Suc_right)
  qed
qed

lemma big_val_eq_by_limbs:
  assumes "a \<noteq> []" "\<And>i n. n < 64 \<Longrightarrow> bit x (64 * i + n) \<longleftrightarrow> bit (limb_at a i) n"
  shows "big_val a = x"
proof (rule bit_eqI)
  fix n
  show "bit (big_val a) n = bit x n"
    using assms(2) [of "n mod 64" "n div 64"] by (simp add: bit_big_val [OF assms(1)] mult.commute)
qed

section \<open>Bitwise operations\<close>

lemma limb_at_ge: "length a \<le> i \<Longrightarrow> limb_at a i = - js_bigint_sign a"
  by (simp add: limb_at_def)

definition logic_int :: "logic_op \<Rightarrow> int \<Rightarrow> int \<Rightarrow> int" where
  "logic_int op = (case op of OP_or \<Rightarrow> (OR) | OP_and \<Rightarrow> (AND) | OP_xor \<Rightarrow> (XOR))"

definition logic_limb :: "logic_op \<Rightarrow> limb \<Rightarrow> limb \<Rightarrow> limb" where
  "logic_limb op = (case op of OP_or \<Rightarrow> (OR) | OP_and \<Rightarrow> (AND) | OP_xor \<Rightarrow> (XOR))"

definition logic_bool :: "logic_op \<Rightarrow> bool \<Rightarrow> bool \<Rightarrow> bool" where
  "logic_bool op = (case op of OP_or \<Rightarrow> (\<or>) | OP_and \<Rightarrow> (\<and>) | OP_xor \<Rightarrow> (\<noteq>))"

lemma bit_logic_int: "bit (logic_int op x y) n \<longleftrightarrow> logic_bool op (bit x n) (bit y n)"
  by (cases op) (simp_all add: logic_int_def logic_bool_def bit_simps)

lemma bit_logic_limb: "bit (logic_limb op x y) n \<longleftrightarrow> logic_bool op (bit x n) (bit y n)"
  by (cases op) (simp_all add: logic_limb_def logic_bool_def bit_simps)

lemma logic_int_commute: "logic_int op x y = logic_int op y x"
  by (cases op) (simp_all add: logic_int_def ac_simps)

lemma logic_value:
  fixes op :: logic_op
  assumes "b \<noteq> []" "length b \<le> length a"
  defines "r \<equiv> map2 (logic_limb op) (take (length b) a) b @ map (\<lambda>x. logic_limb op x (- js_bigint_sign b)) (drop (length b) a)"
  shows "big_val r = logic_int op (big_val a) (big_val b)" "length r = length a"
proof -
  show l: "length r = length a" using assms(2) by (simp add: r_def)
  have a: "a \<noteq> []" using assms by auto
  have nth: "r ! i = logic_limb op (a ! i) (limb_at b i)" if "i < length a" for i
    using that assms(2) by (auto simp: r_def nth_append limb_at_def)
  have at: "bit (limb_at r i) n \<longleftrightarrow> logic_bool op (bit (limb_at a i) n) (bit (limb_at b i) n)" if n: "n < 64" for i n
  proof (cases "i < length a")
    case True
    then show ?thesis using l nth by (simp add: limb_at_def [of r] limb_at_def [of a] bit_logic_limb)
  next
    case False
    let ?k = "length a - 1"
    have k: "?k < length a" using a by (cases a) auto
    have bi: "limb_at b i = - js_bigint_sign b" using False assms(2) by (intro limb_at_ge) simp
    have bb: "bit (limb_at b ?k) 63 \<longleftrightarrow> bit (limb_at b i) n"
    proof (cases "?k < length b")
      case True
      then have "length b = length a" using assms(2) by linarith
      then show ?thesis unfolding bi using True n by (simp add: limb_at_def bit_sign_limb)
    next
      case False
      then show ?thesis unfolding bi using n by (simp add: limb_at_def bit_sign_limb)
    qed
    show ?thesis using n False l k nth [OF k] bb
      by (simp add: limb_at_ge bit_sign_limb bit_logic_limb)
  qed
  show "big_val r = logic_int op (big_val a) (big_val b)"
    using a l by (intro big_val_eq_by_limbs) (auto simp: bit_logic_int bit_big_val a assms(1) at)
qed

lemma js_bigint_logic_ge_spec:
  assumes "big_wf a" "big_wf b" "length b \<le> length a"
  shows "js_spec (js_bigint_logic a b op) (\<lambda>r. represents r (logic_int op (big_val a) (big_val b)))
     (\<lambda>e. e = too_large \<and> max (length a) (length b) > JS_BIGINT_MAX_SIZE)"
proof -
  define r where "r = map2 (logic_limb op) (take (length b) a) b @ map (\<lambda>x. logic_limb op x (- js_bigint_sign b)) (drop (length b) a)"
  have "b \<noteq> []" "a \<noteq> []" using assms by (auto simp: big_wf_def)
  with logic_value [OF _ assms(3), of op] have v: "big_val r = logic_int op (big_val a) (big_val b)" "length r = length a" "r \<noteq> []"
    by (auto simp: r_def)
  have "js_bigint_logic a b op = js_bind (js_bigint_new (length a)) (\<lambda>r0. js_bigint_normalize (blit r0 0 r))"
    using assms(3) by (simp add: js_bigint_logic_def logic_limb_def r_def Let_def)
  then show ?thesis
    using v assms(3) normalize_spec [OF v(3)] by (auto intro!: js_spec_bind [OF new_spec])
qed

lemma js_bigint_logic_spec:
  assumes "big_wf a" "big_wf b"
  shows "js_spec (js_bigint_logic a b op) (\<lambda>r. represents r (logic_int op (big_val a) (big_val b)))
     (\<lambda>e. e = too_large \<and> max (length a) (length b) > JS_BIGINT_MAX_SIZE)"
proof (cases "length a < length b")
  case True
  then have "js_bigint_logic a b op = js_bigint_logic b a op" by (simp add: js_bigint_logic_def)
  with True js_bigint_logic_ge_spec [OF assms(2,1), of op] show ?thesis
    by (simp add: max.commute logic_int_commute)
qed (use js_bigint_logic_ge_spec [OF assms] in simp)

lemma norm_len_map_not:
  "l \<le> length a \<Longrightarrow> js_bigint_norm_len (map (\<lambda>x. NOT x) a) l = js_bigint_norm_len a l"
proof (induction a l rule: js_bigint_norm_len.induct)
  case (1 a l)
  have "(NOT x :: limb) AND 1 = drop_bit 63 (NOT y :: limb) \<longleftrightarrow> x AND 1 = drop_bit 63 y" for x y :: limb
    by (simp add: and_one_eq mod_2_eq_odd drop_bit_63_limb bit_not_iff flip: bit_63_limb)
  moreover have "(NOT x :: limb) = 0 \<longleftrightarrow> x = - 1" "(NOT x :: limb) = - 1 \<longleftrightarrow> x = 0" for x :: limb
    by (metis bit.double_compl bit.compl_zero bit.compl_one)+
  ultimately show ?case using 1 by (auto simp: Let_def)
qed auto

lemma js_bigint_not_spec:
  assumes "big_wf a"
  shows "js_spec (js_bigint_not a) (\<lambda>r. represents r (NOT (big_val a)))
     (\<lambda>e. e = too_large \<and> length a > JS_BIGINT_MAX_SIZE)"
  unfolding js_bigint_not_def
  using assms norm_len_map_not [of "length a" a]
  by (intro js_spec_bind [OF new_spec] js_spec_return)
    (auto simp: big_wf_def big_val_complement not_int_def)

end
