(* ===== verification/BigIntShift.thy ===== *)
theory BigIntShift
  imports BigIntBits
begin

text \<open>
  The shifts and the comparison of BigInts.
\<close>

section \<open>Left shift\<close>

lemma js_bigint_sign_drop: "d < length a \<Longrightarrow> js_bigint_sign (drop d a) = js_bigint_sign a"
  by (simp add: js_bigint_sign_def)

text \<open>A number is normalised when its two top limbs are not redundant.\<close>

lemma norm_len_top:
  "js_bigint_norm_len a (Suc (Suc l)) = Suc (Suc l) \<longleftrightarrow>
     (a ! Suc l \<noteq> 0 \<and> a ! Suc l \<noteq> - 1) \<or> (a ! Suc l AND 1) \<noteq> drop_bit 63 (a ! l)"
proof -
  have le: "js_bigint_norm_len a k \<le> k" for k
    by (induction a k rule: js_bigint_norm_len.induct) (auto simp: Let_def)
  show ?thesis using le [of "Suc l"] by (auto simp: Let_def)
qed

lemma big_wf_append:
  assumes "a \<noteq> []" "big_wf a" "length a = 1 \<Longrightarrow> a ! 0 \<noteq> 0"
  shows "big_wf (replicate d 0 @ a)"
proof (cases "length a")
  case 0
  with assms show ?thesis by simp
next
  case (Suc n)
  show ?thesis
  proof (cases n)
    case 0
    with Suc obtain x where x: "a = [x]" by (cases a) auto
    with assms(3) have x0: "x \<noteq> 0" by simp
    show ?thesis
    proof (cases d)
      case (Suc k)
      then have "js_bigint_norm_len (replicate d 0 @ a) (Suc (Suc k)) = Suc (Suc k)"
        unfolding norm_len_top using x x0 Suc by (auto simp: nth_append simp del: replicate_Suc)
      then show ?thesis using Suc x by (simp add: big_wf_def)
    qed (use assms in simp)
  next
    case (Suc m)
    with \<open>length a = Suc n\<close> have l: "length a = Suc (Suc m)" by simp
    then have "js_bigint_norm_len a (Suc (Suc m)) = Suc (Suc m)" using assms(2) by (simp add: big_wf_def)
    then have "js_bigint_norm_len (replicate d 0 @ a) (Suc (Suc (d + m))) = Suc (Suc (d + m))"
      unfolding norm_len_top by (simp add: nth_append)
    then show ?thesis using l assms(1) by (simp add: big_wf_def del: js_bigint_norm_len.simps)
  qed
qed

lemma big_wf_drop:
  assumes "big_wf a" "d < length a"
  shows "big_wf (drop d a)"
proof (cases "length (drop d a)")
  case (Suc n)
  show ?thesis
  proof (cases n)
    case 0
    with Suc obtain x where "drop d a = [x]" by (cases "drop d a") auto
    then show ?thesis by (simp add: big_wf_def)
  next
    case (Suc m)
    with \<open>length (drop d a) = Suc n\<close> have l: "length a = Suc (Suc (d + m))" by simp
    then have "js_bigint_norm_len a (Suc (Suc (d + m))) = Suc (Suc (d + m))" using assms(1) by (simp add: big_wf_def)
    then have "js_bigint_norm_len (drop d a) (Suc (Suc m)) = Suc (Suc m)"
      using l unfolding norm_len_top by simp
    then show ?thesis using l by (simp add: big_wf_def)
  qed
qed (use assms in simp)

lemma big_val_replicate_append:
  assumes "a \<noteq> []"
  shows "big_val (replicate d 0 @ a) = big_val a * 2 ^ (64 * d)"
proof -
  have "LB ^ length (replicate d 0 @ a) \<le> 2 * mp_val (replicate d 0 @ a) \<longleftrightarrow> LB ^ d * LB ^ length a \<le> LB ^ d * (2 * mp_val a)"
    by (simp add: mp_val_append power_add)
  then show ?thesis
    by (auto simp: big_val_def mp_val_append power_add LB_power algebra_simps)
qed

text \<open>The limb that \<open>js_bigint_shl\<close> appends carries the bits shifted out and the sign.\<close>

lemma shl_extend_value:
  assumes "a \<noteq> []" "0 < s" "s < 64" "mp_shl a s = (rs, l)"
  shows "big_val (rs @ [if js_bigint_sign a \<noteq> 0 then l OR push_bit s (- 1) else l]) = big_val a * 2 ^ s"
proof -
  let ?L = "if js_bigint_sign a \<noteq> 0 then l OR push_bit s (- 1) else l"
  let ?n = "length a" and ?S = "of_bool (big_val a < 0) :: int"
  note v = mp_shl_value [OF assms(4,2,3)]
  have s2: "(2::nat) ^ s * 2 \<le> LB"
  proof -
    have "(2::nat) ^ Suc s \<le> 2 ^ 64" using assms(3) by (intro power_increasing) auto
    then show ?thesis by (simp add: LB_def mult.commute)
  qed
  have s1: "(2::nat) ^ s \<le> LB" using s2 by linarith
  have m: "(LB - 1) * 2 ^ s mod LB = LB - 2 ^ s"
  proof -
    have "(LB - 1) * 2 ^ s = LB - 2 ^ s + (2 ^ s - 1) * LB"
      using s2 by (simp add: diff_mult_distrib) (simp add: mult.commute)
    moreover have "LB - 2 ^ s < LB" by simp
    ultimately show ?thesis by simp
  qed
  have uL0: "unat ?L = unat l + of_bool (big_val a < 0) * (LB - 2 ^ s)"
    using push_or_limb [OF assms(3) v(3), of "- 1"] m assms(1)
    by (simp add: sign_big_val neg_limb_eq or.commute)
  have uL: "int (unat ?L) = int (unat l) + ?S * (int LB - 2 ^ s)"
    by (simp only: uL0 of_nat_add of_nat_mult of_nat_diff [OF s1]) simp
  have len: "length (rs @ [?L]) = Suc ?n" using v(2) by simp
  show ?thesis
  proof (rule big_val_eqI [of _ _ ?S])
    have "int (mp_val rs) + int (LB ^ ?n) * int (unat l) = int (mp_val a) * 2 ^ s"
      using arg_cong [OF v(1), of int] by simp
    moreover have "int (mp_val a) = big_val a + ?S * int (LB ^ ?n)"
      unfolding big_val_neg_iff by (simp add: big_val_def)
    ultimately have "int (mp_val rs) + int (LB ^ ?n) * int (unat l) = (big_val a + ?S * int (LB ^ ?n)) * 2 ^ s"
      by simp
    moreover have "int (mp_val (rs @ [?L])) = int (mp_val rs) + int (LB ^ ?n) * int (unat ?L)"
      by (simp only: mp_val_append v(2) of_nat_add of_nat_mult) simp
    moreover have "int (LB ^ Suc ?n) = int (LB ^ ?n) * int LB" by simp
    ultimately show "int (mp_val (rs @ [?L])) = big_val a * 2 ^ s + ?S * int (LB ^ length (rs @ [?L]))"
      unfolding len uL by (simp only: algebra_simps)
    have "2 ^ s \<le> int LB" using s1 by (metis of_nat_le_iff of_nat_numeral of_nat_power)
    then have "int (LB ^ ?n) * 2 ^ s \<le> int (LB ^ ?n) * int LB" by (intro mult_left_mono) auto
    then have "int (LB ^ ?n) * 2 ^ s \<le> int (LB ^ Suc ?n)" by (simp add: mult.commute)
    moreover have "- int (LB ^ ?n) * 2 ^ s \<le> 2 * big_val a * 2 ^ s" "2 * big_val a * 2 ^ s < int (LB ^ ?n) * 2 ^ s"
      using big_val_range [of a] by (intro mult_right_mono mult_strict_right_mono; simp)+
    ultimately show "- int (LB ^ length (rs @ [?L])) \<le> 2 * (big_val a * 2 ^ s)" "2 * (big_val a * 2 ^ s) < int (LB ^ length (rs @ [?L]))"
      unfolding len by linarith+
  qed
qed

lemma js_bigint_shl_spec:
  assumes "big_wf a"
  shows "js_spec (js_bigint_shl a n) (\<lambda>r. represents r (big_val a * 2 ^ n))
     (\<lambda>e. e = too_large \<and> big_val a \<noteq> 0 \<and> length a + n div 64 > JS_BIGINT_MAX_SIZE)"
proof (cases "big_val a = 0")
  case True
  then have "js_bigint_shl a n = js_bigint_new_si 0"
    using big_wf_zero [OF assms] by (simp add: js_bigint_shl_def)
  with True js_spec_conseq [OF new_si_spec [where E = "\<lambda>_. False"]] show ?thesis by fastforce
next
  case False
  have nz: "\<not> (length a = 1 \<and> a ! 0 = 0)" using False big_wf_zero [OF assms] by simp
  have a: "a \<noteq> []" using assms by (auto simp: big_wf_def)
  let ?d = "n div 64" and ?s = "n mod 64"
  have n: "(2::int) ^ n = 2 ^ ?s * 2 ^ (64 * ?d)" by (simp flip: power_add)
  show ?thesis
    unfolding js_bigint_shl_def if_not_P [OF nz] Let_def
  proof (rule js_spec_bind [OF new_spec])
    fix r0 :: JSBigInt
    assume l0: "length r0 = length a + ?d"
    let ?r = "blit r0 0 (replicate ?d 0)"
    have r: "blit ?r ?d xs = replicate ?d 0 @ xs" if "length xs = length a" for xs :: "limb list"
      using that l0 by (simp add: blit_def)
    show "js_spec (if ?s = 0 then js_return (blit ?r ?d a)
       else case mp_shl a ?s of (rs, l) \<Rightarrow>
         js_bigint_extend (blit ?r ?d rs) (if js_bigint_sign a \<noteq> 0 then l OR push_bit ?s (- 1) else l))
      (\<lambda>r. represents r (big_val a * 2 ^ n))
      (\<lambda>e. e = too_large \<and> big_val a \<noteq> 0 \<and> length a + n div 64 > JS_BIGINT_MAX_SIZE)"
    proof (rule js_spec_if)
      assume "?s = 0"
      then show "js_spec (js_return (blit ?r ?d a)) (\<lambda>r. represents r (big_val a * 2 ^ n))
        (\<lambda>e. e = too_large \<and> big_val a \<noteq> 0 \<and> length a + n div 64 > JS_BIGINT_MAX_SIZE)"
        using nz by (intro js_spec_return) (simp add: r big_wf_append [OF a assms] big_val_replicate_append [OF a] n)
    next
      assume s: "?s \<noteq> 0"
      obtain rs l where sh: "mp_shl a ?s = (rs, l)" by fastforce
      let ?L = "if js_bigint_sign a \<noteq> 0 then l OR push_bit ?s (- 1) else l"
      have lrs: "length rs = length a" using mp_shl_value [OF sh] s by simp
      have "big_val (rs @ [?L]) = big_val a * 2 ^ ?s" using s by (intro shl_extend_value [OF a _ _ sh]) auto
      then have "big_val (blit ?r ?d rs @ [?L]) = big_val a * 2 ^ n"
        using big_val_replicate_append [of "rs @ [?L]" ?d] by (simp add: r [OF lrs] n)
      note eq = this
      have "blit ?r ?d rs \<noteq> []" using lrs a by (auto simp: r [OF lrs])
      from extend_spec [OF this, of ?L] show "js_spec (case mp_shl a ?s of (rs, l) \<Rightarrow>
         js_bigint_extend (blit ?r ?d rs) (if js_bigint_sign a \<noteq> 0 then l OR push_bit ?s (- 1) else l))
        (\<lambda>r. represents r (big_val a * 2 ^ n))
        (\<lambda>e. e = too_large \<and> big_val a \<noteq> 0 \<and> length a + n div 64 > JS_BIGINT_MAX_SIZE)"
        unfolding sh case_prod_conv eq .
    qed
  qed (use False in simp)
qed

section \<open>Right shift\<close>

lemma big_val_drop:
  assumes "d < length a"
  shows "big_val (drop d a) = big_val a div 2 ^ (64 * d)"
proof -
  let ?n = "length a - d"
  have len: "length a = ?n + d" using assms by simp
  have ne: "a \<noteq> []" "drop d a \<noteq> []" using assms by auto
  have "js_bigint_sign (drop d a) = js_bigint_sign a" using assms by (rule js_bigint_sign_drop)
  then have s: "(LB ^ length a \<le> 2 * mp_val a) = (LB ^ ?n \<le> 2 * mp_val (drop d a))"
    using sign_limb [OF ne(1)] sign_limb [OF ne(2)] by (auto split: if_splits simp: of_bool_def)
  have v: "mp_val a = mp_val (take d a) + LB ^ d * mp_val (drop d a)"
    using mp_val_take_drop [of a d] assms by simp
  have lo: "int (mp_val (take d a)) < int (LB ^ d)" using mp_val_bound [of "take d a"] assms by (simp only: of_nat_less_iff) simp
  have "LB ^ length a = LB ^ ?n * LB ^ d" by (subst len) (simp only: power_add)
  then have "big_val a = int (mp_val (take d a)) + int (LB ^ d) * big_val (drop d a)"
    unfolding big_val_def s using v by (simp add: right_diff_distrib mult.commute)
  then have "big_val a div int (LB ^ d) = big_val (drop d a)"
    using lo by simp
  then show ?thesis by (simp add: LB_power)
qed

lemma shr_value:
  assumes "x \<noteq> []" "0 < s" "s < 64"
  shows "big_val (fst (mp_shr x s (- js_bigint_sign x))) = big_val x div 2 ^ s"
    "length (fst (mp_shr x s (- js_bigint_sign x))) = length x"
proof -
  let ?h = "- js_bigint_sign x" and ?S = "of_bool (big_val x < 0) :: nat" and ?P = "LB ^ length x"
  obtain rs l where r: "mp_shr_loop x s ?h = (rs, l)" by fastforce
  from mp_shr_loop_value [OF this assms(2,3)]
  have v: "mp_val rs + ?P * (unat ?h div 2 ^ s) = (mp_val x + ?P * unat ?h) div 2 ^ s" and l: "length rs = length x"
    by simp_all
  show "length (fst (mp_shr x s ?h)) = length x" by (simp add: mp_shr_def r l)
  obtain k where k: "LB = k * 2 ^ s" "0 < k" using LB_split [of s] assms(3) by (metis LB_pos(1) less_imp_le mult.commute nat_0_less_mult_iff)
  have h: "unat ?h = ?S * (LB - 1)"
    using assms(1) by (simp add: sign_big_val neg_limb_eq)
  have "(LB - 1) div 2 ^ s = k - 1"
  proof -
    have "LB - 1 = (2 ^ s - 1) + (k - 1) * 2 ^ s" using k by (cases k) simp_all
    then have "(LB - 1) div 2 ^ s = (k - 1) + (2 ^ s - 1) div 2 ^ s"
      by (metis div_mult_self1 power_not_zero zero_neq_numeral)
    then show ?thesis by simp
  qed
  then have hs: "unat ?h div 2 ^ s = ?S * (k - 1)"
    unfolding h by simp
  have xv: "int (mp_val x) = big_val x + int ?S * int ?P"
    unfolding big_val_neg_iff by (simp add: big_val_def)
  have "int (mp_val x + ?P * unat ?h) = big_val x + (int ?S * int ?P * int k) * 2 ^ s"
    unfolding h of_nat_add of_nat_mult xv using arg_cong [OF k(1), of int] by (simp add: of_nat_diff algebra_simps)
  then have "(big_val x + (int ?S * int ?P * int k) * 2 ^ s) div 2 ^ s = int (mp_val rs + ?P * (?S * (k - 1)))"
    using arg_cong [OF v [unfolded hs], of int] by (simp add: zdiv_int)
  then have rv: "int (mp_val rs) = big_val x div 2 ^ s + int ?S * int ?P"
    using k(2) unfolding div_mult_self1 [of "2 ^ s :: int", OF power_not_zero [OF zero_neq_numeral [symmetric]]]
    by (cases "big_val x < 0") (simp_all add: of_nat_diff right_diff_distrib)
  have "big_val rs = big_val x div 2 ^ s"
  proof (rule big_val_eqI [of _ _ "int ?S"])
    show "int (mp_val rs) = big_val x div 2 ^ s + int ?S * int (LB ^ length rs)"
      using rv l by simp
    have "big_val x div 2 ^ s \<le> max (big_val x) (- 1)" "min (big_val x) 0 \<le> big_val x div 2 ^ s"
      using zdiv_mono2 [of "big_val x" 1 "2 ^ s"] zdiv_mono2_neg [of "big_val x" 1 "2 ^ s"]
        pos_imp_zdiv_neg_iff [of "2 ^ s" "big_val x"] pos_imp_zdiv_nonneg_iff [of "2 ^ s" "big_val x"]
      by (cases "big_val x < 0"; simp)+
    then show "- int (LB ^ length rs) \<le> 2 * (big_val x div 2 ^ s)" "2 * (big_val x div 2 ^ s) < int (LB ^ length rs)"
      using big_val_range [of x] l by (auto simp: max_def min_def split: if_splits)
  qed
  then show "big_val (fst (mp_shr x s ?h)) = big_val x div 2 ^ s" by (simp add: mp_shr_def r)
qed

lemma js_bigint_shr_spec:
  assumes "big_wf a"
  shows "js_spec (js_bigint_shr a n) (\<lambda>r. represents r (big_val a div 2 ^ n))
     (\<lambda>e. e = too_large \<and> length a - n div 64 > JS_BIGINT_MAX_SIZE)"
proof -
  have a: "a \<noteq> []" using assms by (auto simp: big_wf_def)
  let ?d = "n div 64" and ?s = "n mod 64"
  have n: "big_val a div 2 ^ n = (big_val a div 2 ^ (64 * ?d)) div 2 ^ ?s"
  proof -
    have "(2::int) ^ n = 2 ^ (64 * ?d) * 2 ^ ?s" by (simp flip: power_add)
    then show ?thesis by (simp only: zdiv_zmult2_eq [of "2 ^ ?s"] zero_le_power zero_le_numeral)
  qed
  show ?thesis
  proof (cases "?d \<ge> length a")
    case True
    have "LB ^ length a \<le> 2 ^ n"
    proof -
      have "64 * length a \<le> 64 * ?d" using True by simp
      also have "\<dots> \<le> n" by simp
      finally show ?thesis unfolding LB_power by (intro power_increasing) auto
    qed
    then have "int (LB ^ length a) \<le> 2 ^ n" by (metis of_nat_le_iff of_nat_numeral of_nat_power)
    then have "- (2 ^ n) \<le> big_val a" "big_val a < 2 ^ n" using big_val_range [of a] by linarith+
    then have "big_val a div 2 ^ n = - of_bool (big_val a < 0)"
      using int_div_pos_eq [of "big_val a" "2 ^ n" "- 1" "big_val a + 2 ^ n"] by (cases "big_val a < 0") simp_all
    moreover have "sint (- js_bigint_sign a) = - of_bool (big_val a < 0)" by (simp add: sign_big_val [OF a])
    ultimately have "js_spec (js_bigint_new_si (- js_bigint_sign a)) (\<lambda>r. represents r (big_val a div 2 ^ n))
        (\<lambda>e. e = too_large \<and> length a - n div 64 > JS_BIGINT_MAX_SIZE)"
      using new_si_spec [of "- js_bigint_sign a"] by simp
    then show ?thesis using True by (simp add: js_bigint_shr_def Let_def)
  next
    case False
    let ?x = "drop ?d a"
    have x: "?x \<noteq> []" "length ?x = length a - ?d" "js_bigint_sign ?x = js_bigint_sign a" "big_wf ?x"
      using False assms by (auto simp: js_bigint_sign_drop big_wf_drop)
    have v: "big_val ?x = big_val a div 2 ^ (64 * ?d)" using False by (intro big_val_drop) simp
    let ?y = "fst (mp_shr ?x ?s (- js_bigint_sign a))"
    have eq: "js_bigint_shr a n = js_bind (js_bigint_new (length ?x)) (\<lambda>r.
        if ?s = 0 then js_return (blit r 0 ?x) else js_bigint_normalize (blit r 0 ?y))"
      unfolding js_bigint_shr_def Let_def x(2) by (rule if_not_P [OF False])
    show ?thesis
      unfolding eq
    proof (rule js_spec_bind [OF new_spec], goal_cases)
      case (2 r)
      show ?case
      proof (rule js_spec_if)
        assume "?s = 0"
        then show "js_spec (js_return (blit r 0 ?x)) (\<lambda>r. represents r (big_val a div 2 ^ n))
          (\<lambda>e. e = too_large \<and> length a - n div 64 > JS_BIGINT_MAX_SIZE)"
          using 2 x(4) v n by (intro js_spec_return) simp
      next
        assume s: "?s \<noteq> 0"
        have y: "big_val ?y = big_val a div 2 ^ n" "length ?y = length ?x"
          using shr_value [OF x(1), of ?s] s v n x(3) by simp_all
        then have "?y \<noteq> []" "blit r 0 ?y = ?y" using x(1) 2 by auto
        with normalize_spec [of ?y] y(1)
        show "js_spec (js_bigint_normalize (blit r 0 ?y)) (\<lambda>r. represents r (big_val a div 2 ^ n))
          (\<lambda>e. e = too_large \<and> length a - n div 64 > JS_BIGINT_MAX_SIZE)" by simp
      qed
    qed (simp add: x(2))
  qed
qed

section \<open>Comparison\<close>

lemma js_bigint_cmp_loop_value:
  "i \<le> length a \<Longrightarrow> i \<le> length b \<Longrightarrow>
     js_bigint_cmp_loop a b i = sgn (int (mp_val (take i a)) - int (mp_val (take i b)))"
proof (induction a b i rule: js_bigint_cmp_loop.induct)
  case (2 a b i)
  have lt: "mp_val (take (Suc i) x) < mp_val (take (Suc i) y)"
    if "x ! i < y ! i" "Suc i \<le> length x" "Suc i \<le> length y" for x y :: JSBigInt
  proof -
    have "mp_val (take i x) < LB ^ i" using mp_val_bound [of "take i x"] that(2) by simp
    moreover have "LB ^ i * (unat (x ! i) + 1) \<le> LB ^ i * unat (y ! i)"
      using that(1) by (intro mult_le_mono2) (simp add: word_less_nat_alt Suc_le_eq)
    ultimately have "mp_val (take i x) + LB ^ i * unat (x ! i) < LB ^ i * unat (y ! i)"
      by (simp add: distrib_left)
    then show ?thesis using that(2,3) by (simp add: take_Suc_conv_app_nth mp_val_append)
  qed
  consider "a ! i = b ! i" | "a ! i < b ! i" | "b ! i < a ! i" by (meson linorder_cases)
  then show ?case
  proof cases
    case 1
    then show ?thesis using 2 by (simp add: take_Suc_conv_app_nth mp_val_append)
  next
    case c: 2
    then show ?thesis using lt [OF c] 2(2,3) c by auto
  next
    case 3
    then show ?thesis using lt [OF 3] 2(2,3) 3 by auto
  qed
qed simp

lemma js_bigint_cmp_value:
  assumes "big_wf a" "big_wf b"
  shows "js_bigint_cmp a b = sgn (big_val a - big_val b)"
proof -
  have ne: "a \<noteq> []" "b \<noteq> []" using assms by (auto simp: big_wf_def)
  have longer: "(big_val y < 0 \<longrightarrow> big_val y < big_val x) \<and> (0 \<le> big_val y \<longrightarrow> big_val x < big_val y)"
    if "big_wf x" "big_wf y" "length x < length y" "(big_val x < 0) = (big_val y < 0)" for x y
  proof -
    have "0 < length x" using that(1) by (auto simp: big_wf_def)
    with that(3) have "length y = Suc (Suc (length y - 2))" by linarith
    then obtain m where m: "length y = Suc (Suc m)" by blast
    have "LB ^ length x \<le> LB ^ Suc m" using that(3) m by (intro power_increasing) auto
    then have "int (LB ^ length x) \<le> int (LB ^ Suc m)" by (simp only: of_nat_le_iff)
    then show ?thesis using wf_magnitude [OF that(2) m] big_val_range [of x] that(4) by linarith
  qed
  have same: "js_bigint_cmp_loop a b (length a) = sgn (big_val a - big_val b)"
    if "length a = length b" "(big_val a < 0) = (big_val b < 0)"
    using that js_bigint_cmp_loop_value [of "length a" a b] unfolding big_val_neg_iff
    by (simp add: big_val_def)
  have "js_bigint_cmp a b = (if (big_val a < 0) \<noteq> (big_val b < 0) then 1 - 2 * of_bool (big_val a < 0)
      else if length a \<noteq> length b
           then (if length a < length b then 2 * of_bool (big_val a < 0) - 1 else 1 - 2 * of_bool (big_val a < 0))
           else js_bigint_cmp_loop a b (length a))"
    by (auto simp: js_bigint_cmp_def Let_def sign_big_val [OF ne(1)] sign_big_val [OF ne(2)])
  then show ?thesis
    using same longer [OF assms] longer [OF assms(2,1)]
    by (auto simp: sgn_if)
qed

end
