(* ===== verification/BigIntPow.thy ===== *)
theory BigIntPow
  imports BigIntShift
begin

text \<open>
  Powers, and the conversions between BigInts and machine integers.
\<close>

section \<open>Machine integers\<close>

lemma js_bigint_get_si_sat_value:
  assumes "big_wf a"
  shows "sint (js_bigint_get_si_sat a) = max (- (2 ^ 63)) (min (2 ^ 63 - 1) (big_val a))"
proof (cases "length a = 1")
  case True
  then obtain x where a: "a = [x]" by (auto simp: length_Suc_conv)
  have "- (2 ^ 63) \<le> sint x" "sint x < 2 ^ 63"
    using sint_greater_eq [of x] sint_less [of x] by simp_all
  then show ?thesis by (simp add: a js_bigint_get_si_sat_def big_val_single)
next
  case False
  then obtain m where m: "length a = Suc (Suc m)"
    using assms by (cases "length a"; cases "length a - 1") (auto simp: big_wf_def)
  have "LB ^ 1 \<le> LB ^ Suc m" by (intro power_increasing) auto
  then have "int LB \<le> int (LB ^ Suc m)" by (simp only: of_nat_le_iff power_one_right)
  then have "18446744073709551616 \<le> int (LB ^ Suc m)" by (simp only: LB_def) simp
  moreover have "\<And>P x :: int. 18446744073709551616 \<le> P \<Longrightarrow> P \<le> 2 * x \<or> 2 * x < - P
      \<Longrightarrow> 9223372036854775808 \<le> x \<or> x < - 9223372036854775808" by linarith
  ultimately have "2 ^ 63 \<le> big_val a \<or> big_val a < - (2 ^ 63)" using wf_magnitude [OF assms m] by fastforce
  moreover have "js_bigint_sign a = of_bool (big_val a < 0)" using m by (intro sign_big_val) auto
  moreover have "sint (0x8000000000000000 :: limb) = - (2 ^ 63)" "sint (0x7fffffffffffffff :: limb) = 2 ^ 63 - 1"
    by simp_all
  ultimately show ?thesis using False by (auto simp: js_bigint_get_si_sat_def)
qed

lemma length2: "length (r::limb list) = 2 \<Longrightarrow> r[0 := x, Suc 0 := y] = [x, y]"
  by (auto simp: length_Suc_conv numeral_2_eq_2)

lemma big_wf_pair: "big_wf [x, y] \<longleftrightarrow> (y \<noteq> 0 \<and> y \<noteq> - 1) \<or> (y AND 1) \<noteq> drop_bit 63 x"
proof -
  have l: "length [x, y] = Suc (Suc 0)" by simp
  show ?thesis unfolding big_wf_def l norm_len_top by simp
qed

lemma js_bigint_new_ui64_spec: "js_spec (js_bigint_new_ui64 x) (\<lambda>r. represents r (uint x)) E"
proof (cases "x \<le> 0x7fffffffffffffff")
  case True
  then have "\<not> LB \<le> 2 * unat x" by (simp add: LB_def word_le_nat_alt)
  then have "big_val [x] = uint x" by (simp add: big_val_def)
  then have "sint x = uint x" by (simp add: big_val_single)
  then show ?thesis using True new_si_spec [of x] by (simp add: js_bigint_new_ui64_def)
next
  case False
  then have t: "LB \<le> 2 * unat x" by (simp add: LB_def word_le_nat_alt)
  have "big_wf [x, 0]" using t by (simp add: big_wf_pair drop_bit_63_limb)
  moreover have "big_val [x, 0] = uint x" using big_val_snoc_0 [of "[x]"] by simp
  ultimately show ?thesis
    using False by (auto simp: js_bigint_new_ui64_def length2 JS_BIGINT_MAX_SIZE_def
        intro!: js_spec_bind [OF new_spec] js_spec_return)
qed

lemma big_val_dlimb:
  fixes x :: dlimb
  shows "big_val [ucast x, ucast (signed_drop_bit 64 x)] = sint x"
proof -
  have "ucast (signed_drop_bit 64 x) = (ucast (drop_bit 64 x) :: limb)"
    by (rule bit_word_eqI) (auto simp: bit_simps)
  then have v: "mp_val [ucast x, ucast (signed_drop_bit 64 x)] = unat x"
    by (simp only: mp_val.simps unat_dlimb_hi_limb) (simp add: unat_ucast_limb)
  have "uint x < 2 ^ 128" by (rule order_less_le_trans [OF uint_lt2p]) simp
  then have s: "sint x = uint x - (if bit x 127 then 2 ^ 128 else 0)"
    by (simp add: sint_uint signed_take_bit_eq_take_bit_minus bit_uint_iff take_bit_int_eq_self_iff)
  have "LB * LB \<le> 2 * unat x \<longleftrightarrow> bit x 127"
  proof -
    have "unat x div 2 ^ 127 < 2" using unat_dlimb_less [of x] by (simp add: LB_def less_mult_imp_div_less del: unat_dlimb_less)
    then have "odd (unat x div 2 ^ 127) \<longleftrightarrow> 0 < unat x div 2 ^ 127" by (auto simp: less_2_cases_iff)
    moreover have "bit x 127 \<longleftrightarrow> odd (unat x div 2 ^ 127)"
      using bit_iff_odd [of "unat x" 127] by (simp add: bit_unsigned_iff)
    ultimately show ?thesis by (simp add: div_greater_zero_iff LB_def)
  qed
  then have "LB ^ length [ucast x, ucast (signed_drop_bit 64 x) :: limb] \<le> 2 * unat x \<longleftrightarrow> bit x 127"
    by (simp add: power2_eq_square)
  moreover have "int (LB ^ length [ucast x, ucast (signed_drop_bit 64 x) :: limb]) = 2 ^ 128"
    by (simp add: LB_def)
  ultimately show ?thesis unfolding big_val_def v s by (simp del: list.size)
qed

lemma js_bigint_new_di_spec: "js_spec (js_bigint_new_di x) (\<lambda>r. represents r (sint x)) E"
proof (cases "x = scast (ucast x :: limb)")
  case True
  have "sint (scast (ucast x :: limb) :: dlimb) = sint (ucast x :: limb)"
    by (rule sint_up_scast) (simp add: is_up_def)
  then have "sint x = sint (ucast x :: limb)" using True by metis
  moreover have "js_bigint_new_di x = js_bigint_new_si (ucast x)"
    using True by (simp add: js_bigint_new_di_def js_bigint_new_si_def)
  ultimately show ?thesis using new_si_spec [of "ucast x"] by simp
next
  case False
  let ?lo = "ucast x :: limb" and ?hi = "ucast (signed_drop_bit 64 x) :: limb"
  have "big_wf [?lo, ?hi]"
  proof (rule ccontr)
    assume "\<not> big_wf [?lo, ?hi]"
    then have "?hi = - (of_bool (LB ^ length [?lo] \<le> 2 * mp_val [?lo]))"
      by (intro redundant_limb) (auto simp: big_wf_pair)
    then have "big_val [?lo, ?hi] = big_val [?lo]" using big_val_sign_extend [of "[?lo]"] by simp
    then have "sint x = sint ?lo" by (simp add: big_val_dlimb big_val_single)
    also have "\<dots> = sint (scast ?lo :: dlimb)" by (rule sint_up_scast [symmetric]) (simp add: is_up_def)
    finally show False using False by (simp add: signed_word_eqI)
  qed
  then show ?thesis
    using False big_val_dlimb [of x] by (auto simp: js_bigint_new_di_def length2 JS_BIGINT_MAX_SIZE_def
        intro!: js_spec_bind [OF new_spec] js_spec_return)
qed


section \<open>Powers\<close>

lemma wf_lower:
  assumes "big_wf a" "big_val a \<noteq> 0"
  shows "int (LB ^ (length a - 1)) \<le> 2 * \<bar>big_val a\<bar>"
proof (cases "length a = 1")
  case False
  then obtain m where m: "length a = Suc (Suc m)"
    using assms(1) by (cases "length a"; cases "length a - 1") (auto simp: big_wf_def)
  then have "length a - 1 = Suc m" by simp
  then show ?thesis using wf_magnitude [OF assms(1) m] by (auto simp del: power_Suc of_nat_power)
qed (use assms in simp)

text \<open>The result of a power is too large when it does not fit in one limb less than the maximal size.\<close>

definition pow_too_large :: "int \<Rightarrow> bool" where
  "pow_too_large x \<longleftrightarrow> int (LB ^ (JS_BIGINT_MAX_SIZE - 1)) \<le> 4 * \<bar>x\<bar>"

lemma mul_too_large:
  assumes "big_wf a" "big_wf b" "big_val a \<noteq> 0" "big_val b \<noteq> 0" "length a + length b > JS_BIGINT_MAX_SIZE"
    and dvd: "\<bar>big_val a * big_val b\<bar> \<le> \<bar>x\<bar>"
  shows "pow_too_large x"
proof -
  have "0 < length a" "0 < length b" using assms(1,2) by (auto simp: big_wf_def)
  with assms(5) have "JS_BIGINT_MAX_SIZE - 1 \<le> (length a - 1) + (length b - 1)" by linarith
  then have "LB ^ (JS_BIGINT_MAX_SIZE - 1) \<le> LB ^ ((length a - 1) + (length b - 1))" by (intro power_increasing) auto
  then have "int (LB ^ (JS_BIGINT_MAX_SIZE - 1)) \<le> int (LB ^ ((length a - 1) + (length b - 1)))" by (simp only: of_nat_le_iff)
  also have "\<dots> = int (LB ^ (length a - 1)) * int (LB ^ (length b - 1))" by (simp add: power_add)
  also have "\<dots> \<le> (2 * \<bar>big_val a\<bar>) * (2 * \<bar>big_val b\<bar>)"
    by (intro mult_mono wf_lower assms) auto
  also have "\<dots> = 4 * \<bar>big_val a * big_val b\<bar>" by (simp add: abs_mult)
  also have "\<dots> \<le> 4 * \<bar>x\<bar>" using dvd by simp
  finally show ?thesis by (simp only: pow_too_large_def)
qed

lemma pow_abs_mono: "(x::int) \<noteq> 0 \<Longrightarrow> m \<le> n \<Longrightarrow> \<bar>x ^ m\<bar> \<le> \<bar>x ^ n\<bar>"
  unfolding power_abs by (intro power_increasing) auto

lemma pow_loop_spec:
  assumes "big_wf a" "big_val a \<noteq> 0" "big_wf r" "big_val r = big_val a ^ (e div 2 ^ i)"
  shows "js_spec (js_bigint_pow_loop r a e i) (\<lambda>r. represents r (big_val a ^ e))
     (\<lambda>x. x = too_large \<and> pow_too_large (big_val a ^ e))"
  using assms(3,4)
proof (induction i arbitrary: r)
  case (Suc i)
  let ?A = "big_val a" and ?k = "e div 2 ^ Suc i" and ?E = "\<lambda>x. x = too_large \<and> pow_too_large (big_val a ^ e)"
  have k: "e div 2 ^ i = 2 * ?k + of_bool (odd (e div 2 ^ i))"
  proof -
    have "?k = e div 2 ^ i div 2" by (simp only: power_Suc2 div_mult2_eq)
    moreover have "m = 2 * (m div 2) + of_bool (odd m)" for m :: nat by (cases "odd m") auto
    ultimately show ?thesis by metis
  qed
  have le: "e div 2 ^ i \<le> e" by simp
  have sq: "big_val r * big_val r = ?A ^ (2 * ?k)" using Suc.prems by (simp add: power_add mult_2)
  have rn: "big_val r \<noteq> 0" using Suc.prems assms(2) by simp
  have big1: "pow_too_large (?A ^ e)" if "length r + length r > JS_BIGINT_MAX_SIZE"
  proof (rule mul_too_large [OF Suc.prems(1) Suc.prems(1) rn rn that])
    have "2 * ?k \<le> e" using le k by linarith
    then show "\<bar>big_val r * big_val r\<bar> \<le> \<bar>?A ^ e\<bar>" unfolding sq by (rule pow_abs_mono [OF assms(2)])
  qed
  show ?case
    unfolding js_bigint_pow_loop.simps
  proof (rule js_spec_bind [OF js_spec_conseq [OF js_bigint_mul_spec [OF Suc.prems(1) Suc.prems(1)]]], assumption)
    fix x assume "x = too_large \<and> length r + length r > JS_BIGINT_MAX_SIZE"
    then show "?E x" using big1 by simp
  next
    fix r2 assume r2: "represents r2 (big_val r * big_val r)"
    have n2: "big_val r2 \<noteq> 0" using r2 rn by simp
    show "js_spec (if odd (e div 2 ^ i) then js_bind (js_bigint_mul r2 a) (\<lambda>r. js_bigint_pow_loop r a e i)
       else js_bigint_pow_loop r2 a e i) (\<lambda>r. represents r (?A ^ e)) ?E"
    proof (rule js_spec_if)
      assume odd: "odd (e div 2 ^ i)"
      have v: "big_val r2 * ?A = ?A ^ (e div 2 ^ i)" using r2 sq k odd by simp
      have big2: "pow_too_large (?A ^ e)" if "length r2 + length a > JS_BIGINT_MAX_SIZE"
        using pow_abs_mono [OF assms(2) le] by (intro mul_too_large [OF _ assms(1) n2 assms(2) that]) (use r2 v in auto)
      have m: "js_spec (js_bigint_mul r2 a) (\<lambda>r. represents r (?A ^ (e div 2 ^ i))) ?E"
        by (rule js_spec_conseq [OF js_bigint_mul_spec]) (use r2 v big2 assms(1) in auto)
      show "js_spec (js_bind (js_bigint_mul r2 a) (\<lambda>r. js_bigint_pow_loop r a e i)) (\<lambda>r. represents r (?A ^ e)) ?E"
        by (rule js_spec_bind [OF m], rule Suc.IH) auto
    next
      assume "\<not> odd (e div 2 ^ i)"
      then show "js_spec (js_bigint_pow_loop r2 a e i) (\<lambda>r. represents r (?A ^ e)) ?E"
        using r2 sq k by (intro Suc.IH) auto
    qed
  qed
qed (auto intro: js_spec_return)

lemma js_bigint_pow_big_spec:
  assumes "big_wf a" "big_val a \<noteq> 0" "big_wf b" "0 < big_val b"
  shows "js_spec (js_bigint_pow_big a b) (\<lambda>r. represents r (big_val a ^ nat (big_val b)))
     (\<lambda>x. x = RangeError ''BigInt is too large'' \<and> big_val b > 2 ^ 31 - 1
        \<or> x = too_large \<and> pow_too_large (big_val a ^ nat (big_val b)))"
proof (cases "length b > 1 \<or> b ! 0 > 0x7fffffff")
  case True
  have "big_val b > 2 ^ 31 - 1"
  proof (cases "length b > 1")
    case True
    then have "LB ^ 1 \<le> LB ^ (length b - 1)" by (intro power_increasing) auto
    then have "int LB \<le> int (LB ^ (length b - 1))" by (simp only: of_nat_le_iff power_one_right)
    also have "\<dots> \<le> 2 * \<bar>big_val b\<bar>" using assms by (intro wf_lower) auto
    finally show ?thesis using assms(4) by (simp add: LB_def)
  next
    case False
    with \<open>length b > 1 \<or> b ! 0 > 0x7fffffff\<close> obtain y where b: "b = [y]" "0x7fffffff < y"
      using assms(3) by (cases b; cases "tl b") (auto simp: big_wf_def)
    then have "2147483647 < unat y" by (simp add: word_less_nat_alt)
    then have "2147483647 < int (unat y)" by linarith
    moreover have "big_val b = int (unat y)" using assms(4) big_val_neg_iff [of b] b by (simp add: big_val_def split: if_splits)
    ultimately show ?thesis by simp
  qed
  then show ?thesis using True by (simp add: js_bigint_pow_big_def js_spec_throw)
next
  case False
  then obtain y where b: "b = [y]" "y \<le> 0x7fffffff"
    using assms(3) by (cases b; cases "tl b") (auto simp: big_wf_def)
  then have "unat y < 2 ^ 31" by (simp add: word_le_nat_alt)
  then have vb: "big_val b = int (unat y)" by (simp add: b big_val_def LB_def)
  let ?e = "unat y"
  have e: "0 < ?e" using assms(4) unfolding vb by (simp only: of_nat_0_less_iff)
  obtain m where m: "bit_len ?e = Suc m" using bit_len_bounds [OF e] gr0_implies_Suc by blast
  have "?e div 2 ^ (bit_len ?e - 1) = 1" using bit_len_bounds [OF e] unfolding m
    by (intro div_nat_eqI) auto
  then have loop: "js_spec (js_bigint_pow_loop a a ?e (bit_len ?e - 1)) (\<lambda>r. represents r (big_val a ^ ?e))
     (\<lambda>x. x = too_large \<and> pow_too_large (big_val a ^ ?e))"
    by (intro pow_loop_spec assms) simp
  have big: "pow_too_large (big_val a ^ ?e)" if "length a > JS_BIGINT_MAX_SIZE"
    using pow_abs_mono [OF assms(2), of 1 ?e] e
    by (intro mul_too_large [OF assms(1) big_wf_single assms(2), of 1]) (use that in \<open>auto simp: big_val_single\<close>)
  have eq: "js_bigint_pow_big a b = js_bind (js_bigint_new (length a)) (\<lambda>r.
            js_bigint_pow_loop (blit r 0 a) a ?e (bit_len ?e - 1))"
    using b(1) leD [OF b(2)] by (simp add: js_bigint_pow_big_def Let_def)
  show ?thesis
    unfolding eq
  proof (rule js_spec_bind [OF new_spec], goal_cases)
    case (2 r)
    then show ?case using js_spec_conseq [OF loop] vb by simp
  qed (use big vb in simp)
qed


text \<open>The power of two: the limb with the single set bit, below a zero limb when it is a sign bit.\<close>

lemma replicate_update: "k < n \<Longrightarrow> (replicate n x)[k := y] = replicate k x @ [y] @ replicate (n - k - 1) x"
  by (intro nth_equalityI) (auto simp: nth_append nth_list_update nth_Cons')

lemma two_power_le_LB: "m < 64 \<Longrightarrow> 2 * 2 ^ m \<le> LB"
  using power_increasing [of "Suc m" 64 "2 :: nat"] by (simp add: LB_def)

lemma pow2_limb:
  assumes "m < 64"
  shows "unat (push_bit m 1 :: limb) = 2 ^ m" "unat (push_bit m (- 1) :: limb) = LB - 2 ^ m"
proof -
  have lt: "2 * 2 ^ m \<le> LB" using assms by (rule two_power_le_LB)
  then have "2 ^ m < LB" by (metis LB_pos(1) less_le_trans mult_2 nat_add_left_cancel_less add.right_neutral zero_less_numeral zero_less_power)
  then show "unat (push_bit m 1 :: limb) = 2 ^ m" using unat_push_bit_limb [of m 1] by (simp del: push_bit_of_1)
  have "(LB - 1) * 2 ^ m = (LB - 2 ^ m) + (2 ^ m - 1) * LB"
    using lt by (simp add: diff_mult_distrib) (simp add: mult.commute)
  then show "unat (push_bit m (- 1) :: limb) = LB - 2 ^ m"
    using unat_push_bit_limb [of m "- 1"] by (simp add: neg_limb_eq del: push_bit_minus_one_eq_not_mask)
qed

lemma pow2_pos:
  fixes x :: limb
  assumes x: "unat x = 2 ^ (e mod 64)"
  shows "represents ((replicate ((e + 65) div 64) 0)[e div 64 := x]) (2 ^ e)" (is "represents ?r _")
proof -
  let ?d = "e div 64" and ?s = "e mod 64"
  have e: "e = ?s + 64 * ?d" by simp
  from x have x0: "x \<noteq> 0" by (metis power_not_zero unat_0 zero_neq_numeral)
  define a where "a = (if ?s = 63 then [x, 0] else [x])"
  have a: "a \<noteq> []" "big_wf a" "length a = 1 \<Longrightarrow> a ! 0 \<noteq> 0"
    using x x0 by (auto simp: a_def big_wf_pair drop_bit_63_limb LB_def)
  have v: "big_val a = 2 ^ ?s"
  proof (cases "?s = 63")
    case True
    then show ?thesis using big_val_snoc_0 [of "[x]"] x by (simp add: a_def)
  next
    case False
    have "?s < 64" by simp
    with False have "Suc ?s < 64" by linarith
    then have "4 * 2 ^ ?s \<le> LB" using two_power_le_LB [of "Suc ?s"] by simp
    moreover have "0 < (2::nat) ^ ?s" by simp
    ultimately have "\<not> LB \<le> 2 * unat x" unfolding x by linarith
    then have "big_val [x] = int (unat x)" by (simp add: big_val_def)
    then show ?thesis using False x by (simp add: a_def del: int_nat_eq)
  qed
  have "(?s + 65) div 64 = length a"
    by (auto simp: a_def intro!: div_nat_eqI)
  moreover have "(?s + 65 + 64 * ?d) div 64 = ?d + (?s + 65) div 64" by (rule div_mult_self2) simp
  moreover have "?s + 65 + 64 * ?d = e + 65" by simp
  ultimately have "(e + 65) div 64 = ?d + length a" by simp
  moreover have "(replicate (?d + length a) 0)[?d := x] = replicate ?d 0 @ a"
    by (subst replicate_update) (auto simp: a_def)
  ultimately have "?r = replicate ?d 0 @ a" by simp
  then show ?thesis
    using big_wf_append [OF a(1,2,3)] big_val_replicate_append [OF a(1)] v e by (metis power_add)
qed

lemma pow2_neg:
  fixes x :: limb
  assumes x: "unat x = LB - 2 ^ (e mod 64)"
  shows "represents ((replicate ((e + 64) div 64) 0)[e div 64 := x]) (- (2 ^ e))" (is "represents ?r _")
proof -
  let ?d = "e div 64" and ?s = "e mod 64"
  have e: "e = ?s + 64 * ?d" by simp
  have le: "2 * 2 ^ ?s \<le> LB" by (rule two_power_le_LB) simp
  moreover have "0 < (2::nat) ^ ?s" by simp
  ultimately have "unat x \<noteq> 0" "LB \<le> 2 * unat x" unfolding x by linarith+
  then have ne: "[x] \<noteq> []" "big_wf [x]" "length [x] = 1 \<Longrightarrow> [x] ! 0 \<noteq> 0" by auto
  have "big_val [x] = int (unat x) - int LB" using \<open>LB \<le> 2 * unat x\<close> by (simp add: big_val_def)
  also have "\<dots> = - (2 ^ ?s)" unfolding x using le by (simp add: of_nat_diff)
  finally have v: "big_val [x] = - (2 ^ ?s)" .
  have "(e + 64) div 64 = ?d + 1" by simp
  then have "?r = replicate ?d 0 @ [x]"
    by (simp only: replicate_update) simp
  then show ?thesis
    using big_wf_append [OF ne] big_val_replicate_append [OF ne(1)] v e by (metis power_add mult_minus_left)
qed


lemma bit_limb_div: "bit (x::limb) m \<longleftrightarrow> odd (unat x div 2 ^ m)"
  using bit_iff_odd [of "unat x" m] by (simp add: bit_unsigned_iff)

lemma one_bit_power:
  assumes "(v :: limb) AND (v - 1) = 0" "v \<noteq> 0"
  shows "unat v = 2 ^ (64 - 1 - js_limb_clz v)"
proof -
  have v0: "0 < unat v" using assms(2) by (simp add: unat_gt_0)
  note b = bit_len_bounds [OF v0]
  have le: "bit_len (unat v) \<le> 64" using unat_less_LB [of v] by (intro bit_len_le) (simp add: LB_def)
  obtain m where m: "bit_len (unat v) = Suc m" using b gr0_implies_Suc by blast
  have m': "64 - 1 - js_limb_clz v = m" using le m by (simp add: js_limb_clz_def)
  have odd: "odd (x div 2 ^ m)" if "2 ^ m \<le> x" "x < 2 ^ Suc m" for x :: nat
  proof -
    have "x div 2 ^ m = 1" using that by (intro div_nat_eqI) auto
    then show ?thesis by simp
  qed
  have "unat v = 2 ^ m"
  proof (rule ccontr)
    assume "unat v \<noteq> 2 ^ m"
    then have "2 ^ m \<le> unat v - 1" "unat v - 1 < 2 ^ Suc m" using b m by auto
    moreover have "unat (v - 1) = unat v - 1" using v0 by (simp add: unat_sub_limb)
    ultimately have "bit (v - 1) m" using odd by (simp add: bit_limb_div)
    moreover have "bit v m" using odd [of "unat v"] b m by (simp add: bit_limb_div)
    ultimately have "bit (v AND (v - 1)) m" by (simp add: bit_and_iff)
    with assms(1) show False by simp
  qed
  then show ?thesis unfolding m' .
qed

lemma even_big_val: "a \<noteq> [] \<Longrightarrow> even (big_val a) \<longleftrightarrow> even (a ! 0)"
  using bit_big_val [of a 0] by (simp add: bit_0 limb_at_def)

lemma and_1_parity: "(x::limb) AND 1 = of_bool (odd x)"
  by (simp add: and_one_eq mod_2_eq_odd)

lemma LB_power_le:
  assumes "64 * n \<le> e"
  shows "int (LB ^ n) \<le> 2 ^ e"
proof -
  have "LB ^ n \<le> 2 ^ e" unfolding LB_power using assms by (intro power_increasing) auto
  then show ?thesis by (metis of_nat_le_iff of_nat_numeral of_nat_power)
qed

text \<open>The power of plus or minus a power of two.\<close>

definition pow_two_result :: "nat \<Rightarrow> limb \<Rightarrow> JSBigInt js" where
  "pow_two_result e is_neg = js_bind (js_bigint_new ((e + 64 + 1 - unat is_neg) div 64)) (\<lambda>r.
     let r = replicate (length r) 0
     in js_return (r[e div 64 := push_bit (e mod 64) (1 - 2 * is_neg)]))"

lemma pow_two_result_spec:
  assumes "x = (if neg then - (2 ^ e) else 2 ^ e)"
  shows "js_spec (pow_two_result e (of_bool neg)) (\<lambda>r. represents r x)
     (\<lambda>err. err = too_large \<and> pow_too_large x)"
  unfolding pow_two_result_def
proof (rule js_spec_bind [OF new_spec])
  assume "JS_BIGINT_MAX_SIZE < (e + 64 + 1 - unat (of_bool neg :: limb)) div 64"
  also have "\<dots> \<le> (e + 65) div 64" by (intro div_le_mono) simp
  finally have "(JS_BIGINT_MAX_SIZE + 1) * 64 \<le> e + 65" by (simp add: less_eq_div_iff_mult_less_eq Suc_le_eq [symmetric])
  then have "64 * (JS_BIGINT_MAX_SIZE - 1) \<le> e" by simp
  then have "int (LB ^ (JS_BIGINT_MAX_SIZE - 1)) \<le> 2 ^ e" by (rule LB_power_le)
  also have "\<dots> \<le> 4 * \<bar>x\<bar>" using assms by simp
  finally show "too_large = too_large \<and> pow_too_large x" by (simp only: pow_too_large_def)
next
  fix r :: JSBigInt
  assume l: "length r = (e + 64 + 1 - unat (of_bool neg :: limb)) div 64"
  have "represents ((replicate (length r) 0)[e div 64 := push_bit (e mod 64) (1 - 2 * of_bool neg)]) x"
  proof (cases neg)
    case True
    then show ?thesis using pow2_neg [of "push_bit (e mod 64) (- 1)" e] pow2_limb(2) [of "e mod 64"] l assms
      by (simp add: add.commute del: push_bit_minus_one_eq_not_mask)
  next
    case False
    then show ?thesis using pow2_pos [of "push_bit (e mod 64) 1" e] pow2_limb(1) [of "e mod 64"] l assms
      by (simp add: add.commute del: push_bit_of_1)
  qed
  then show "js_spec (let r = replicate (length r) 0
     in js_return (r[e div 64 := push_bit (e mod 64) (1 - 2 * of_bool neg)])) (\<lambda>r. represents r x)
     (\<lambda>err. err = too_large \<and> pow_too_large x)"
    unfolding Let_def by (rule js_spec_return)
qed


definition pow_single_result :: "limb \<Rightarrow> JSBigInt \<Rightarrow> JSBigInt \<Rightarrow> JSBigInt js" where
  "pow_single_result v a b =
     (let is_neg = (v <s 0); v = (if is_neg then - v else v)
      in if v AND (v - 1) = 0
         then (let n = 64 - 1 - js_limb_clz v
               in if length b > 1 \<or> b ! 0 > 0x7fffffff then js_throw (RangeError ''BigInt is too large'')
                  else (let e1 = unat (b ! 0) * n
                        in if e1 > JS_BIGINT_MAX_SIZE * 64 then js_throw (RangeError ''BigInt is too large'')
                           else pow_two_result e1 (of_bool is_neg AND (b ! 0 AND 1))))
         else js_bigint_pow_big a b)"

lemma js_bigint_pow_eq:
  "js_bigint_pow a b =
     (if js_bigint_sign b \<noteq> 0 then js_throw (RangeError ''BigInt negative exponent'')
      else if length b = 1 \<and> b ! 0 = 0 then js_bigint_new_si 1
      else if length a = 1
      then (let v = a ! 0
            in if v \<le> 1 then js_bigint_new_si v
               else if v = - 1 then js_bigint_new_si (1 - 2 * (b ! 0 AND 1))
               else pow_single_result v a b)
      else js_bigint_pow_big a b)"
  unfolding js_bigint_pow_def pow_single_result_def pow_two_result_def Let_def by (rule refl)

lemma exponent_small:
  assumes "big_wf b" "0 < big_val b" "\<not> (length b > 1 \<or> b ! 0 > 0x7fffffff)"
  shows "big_val b = int (unat (b ! 0))"
proof -
  obtain y where b: "b = [y]" "y \<le> 0x7fffffff"
    using assms(1,3) by (cases b; cases "tl b") (auto simp: big_wf_def)
  then have "unat y < 2 ^ 31" by (simp add: word_le_nat_alt)
  then show ?thesis by (simp add: b big_val_def LB_def)
qed

lemma exponent_large:
  assumes "big_wf b" "0 < big_val b" "length b > 1 \<or> b ! 0 > 0x7fffffff"
  shows "big_val b > 2 ^ 31 - 1"
proof (cases "length b > 1")
  case True
  then have "LB ^ 1 \<le> LB ^ (length b - 1)" by (intro power_increasing) auto
  then have "int LB \<le> int (LB ^ (length b - 1))" by (simp only: of_nat_le_iff power_one_right)
  also have "\<dots> \<le> 2 * \<bar>big_val b\<bar>" using assms by (intro wf_lower) auto
  finally show ?thesis using assms(2) by (simp add: LB_def)
next
  case False
  with assms(3) obtain y where b: "b = [y]" "0x7fffffff < y"
    using assms(1) by (cases b; cases "tl b") (auto simp: big_wf_def)
  then have "2147483647 < unat y" by (simp add: word_less_nat_alt)
  then have "2147483647 < int (unat y)" by linarith
  moreover have "big_val b = int (unat y)" using assms(2) big_val_neg_iff [of b] b by (simp add: big_val_def split: if_splits)
  ultimately show ?thesis by simp
qed

abbreviation pow_error :: "JSBigInt \<Rightarrow> JSBigInt \<Rightarrow> js_error \<Rightarrow> bool" where
  "pow_error a b x \<equiv> x = RangeError ''BigInt is too large'' \<and> (big_val b > 2 ^ 31 - 1 \<or> pow_too_large (big_val a ^ nat (big_val b)))
        \<or> x = too_large \<and> pow_too_large (big_val a ^ nat (big_val b))"

lemma pow_single_result_spec:
  assumes "a = [v]" "big_val a \<noteq> 0" "big_wf b" "0 < big_val b"
  shows "js_spec (pow_single_result v a b) (\<lambda>r. represents r (big_val a ^ nat (big_val b))) (pow_error a b)"
proof -
  let ?neg = "v <s 0"
  define w where "w = (if ?neg then - v else v)"
  have va: "big_val a = sint v" using assms(1) by (simp add: big_val_single)
  have neg: "?neg \<longleftrightarrow> big_val a < 0" by (simp add: va word_sless_alt)
  have w: "int (unat w) = \<bar>big_val a\<bar>"
  proof (cases "?neg")
    case True
    then have "LB \<le> 2 * unat v" using big_val_neg_iff [of a] by (simp add: neg assms(1))
    with True show ?thesis
      using neg unat_less_LB [of v] by (auto simp: w_def assms(1) big_val_def unat_neg_limb of_nat_diff simp del: unat_less_LB)
  next
    case False
    then show ?thesis using neg big_val_neg_iff [of a] by (simp add: w_def assms(1) big_val_def split: if_splits)
  qed
  have big: "js_spec (js_bigint_pow_big a b) (\<lambda>r. represents r (big_val a ^ nat (big_val b))) (pow_error a b)"
    by (rule js_spec_conseq [OF js_bigint_pow_big_spec]) (use assms in auto)
  show ?thesis
  proof (cases "w AND (w - 1) = 0")
    case False
    then show ?thesis using big by (simp add: pow_single_result_def Let_def w_def)
  next
    case True
    let ?n = "64 - 1 - js_limb_clz w"
    let ?e = "unat (b ! 0) * ?n"
    have "w \<noteq> 0"
    proof
      assume "w = 0"
      then have "unat w = 0" by simp
      with w assms(2) show False by linarith
    qed
    from one_bit_power [OF True this] have abs: "\<bar>big_val a\<bar> = 2 ^ ?n" unfolding w [symmetric] by (metis of_nat_numeral of_nat_power)
    have eq: "pow_single_result v a b =
        (if length b > 1 \<or> b ! 0 > 0x7fffffff then js_throw (RangeError ''BigInt is too large'')
         else if ?e > JS_BIGINT_MAX_SIZE * 64 then js_throw (RangeError ''BigInt is too large'')
         else pow_two_result ?e (of_bool ?neg AND (b ! 0 AND 1)))"
      unfolding pow_single_result_def Let_def w_def [symmetric] using True by simp
    have abs_pow: "\<bar>big_val a ^ nat (big_val b)\<bar> = 2 ^ ?e" if "\<not> (length b > 1 \<or> b ! 0 > 0x7fffffff)"
    proof -
      have "nat (big_val b) = unat (b ! 0)" using exponent_small [OF assms(3,4) that] by (simp only: nat_int)
      then show ?thesis unfolding power_abs abs by (simp add: power_mult [symmetric] mult.commute)
    qed
    show ?thesis
      unfolding eq
    proof (intro js_spec_if js_spec_throw)
      assume "length b > 1 \<or> b ! 0 > 0x7fffffff"
      then show "pow_error a b (RangeError ''BigInt is too large'')" using exponent_large assms by blast
    next
      assume *: "\<not> (length b > 1 \<or> b ! 0 > 0x7fffffff)" and "?e > JS_BIGINT_MAX_SIZE * 64"
      then have "64 * (JS_BIGINT_MAX_SIZE - 1) \<le> ?e" by simp
      then have "int (LB ^ (JS_BIGINT_MAX_SIZE - 1)) \<le> 2 ^ ?e" by (rule LB_power_le)
      then have "pow_too_large (big_val a ^ nat (big_val b))" unfolding pow_too_large_def abs_pow [OF *]
        by (rule order_trans) simp
      then show "pow_error a b (RangeError ''BigInt is too large'')" by simp
    next
      assume *: "\<not> (length b > 1 \<or> b ! 0 > 0x7fffffff)"
      have "even (big_val b) \<longleftrightarrow> even (b ! 0)" using assms(3) by (intro even_big_val) (auto simp: big_wf_def)
      then have ev: "even (nat (big_val b)) \<longleftrightarrow> even (b ! 0)" using assms(4) by (simp add: even_nat_iff)
      have s: "of_bool ?neg AND (b ! 0 AND 1) = (of_bool (?neg \<and> odd (b ! 0)) :: limb)"
        by (simp add: and_1_parity)
      have "big_val a ^ nat (big_val b) < 0 \<longleftrightarrow> ?neg \<and> odd (b ! 0)"
        using ev neg by (auto simp: power_less_zero_eq)
      then have "big_val a ^ nat (big_val b) = (if ?neg \<and> odd (b ! 0) then - (2 ^ ?e) else 2 ^ ?e)"
        using abs_pow [OF *] by (auto simp: abs_if split: if_splits)
      from pow_two_result_spec [OF this]
      show "js_spec (pow_two_result ?e (of_bool ?neg AND (b ! 0 AND 1)))
        (\<lambda>r. represents r (big_val a ^ nat (big_val b))) (pow_error a b)"
        unfolding s by (rule js_spec_conseq) auto
    qed
  qed
qed

lemma minus_one_not_le: "\<not> (- 1 :: limb) \<le> 1"
  unfolding word_le_nat_alt neg_limb_eq by (simp add: LB_def)

lemma js_bigint_pow_spec:
  assumes "big_wf a" "big_wf b"
  shows "js_spec (js_bigint_pow a b) (\<lambda>r. 0 \<le> big_val b \<and> represents r (big_val a ^ nat (big_val b)))
     (\<lambda>x. x = RangeError ''BigInt negative exponent'' \<and> big_val b < 0 \<or> 0 \<le> big_val b \<and> pow_error a b x)"
proof -
  have ne: "a \<noteq> []" "b \<noteq> []" using assms by (auto simp: big_wf_def)
  consider "big_val b < 0" | "big_val b = 0" | "0 < big_val b" by linarith
  then show ?thesis
  proof cases
    case 1
    then show ?thesis by (simp add: js_bigint_pow_eq sign_big_val [OF ne(2)] js_spec_throw)
  next
    case 2
    then have "length b = 1 \<and> b ! 0 = 0" using big_wf_zero [OF assms(2)] by simp
    with 2 new_si_spec [of 1] show ?thesis by (simp add: js_bigint_pow_eq sign_big_val [OF ne(2)])
  next
    case 3
    then have b: "js_bigint_sign b = 0" "\<not> (length b = 1 \<and> b ! 0 = 0)"
      using big_wf_zero [OF assms(2)] ne by (simp_all add: sign_big_val)
    have "js_spec (js_bigint_pow a b) (\<lambda>r. represents r (big_val a ^ nat (big_val b))) (pow_error a b)"
    proof (cases "length a = 1")
      case True
      then obtain v where a: "a = [v]" by (auto simp: length_Suc_conv)
      have va: "big_val a = sint v" by (simp add: a big_val_single)
      consider "v = 0" | "v = 1" | "v = - 1" | "\<not> v \<le> 1" "v \<noteq> - 1"
        by (metis word_le_less_eq word_less_1 )
      then show ?thesis
      proof cases
        case 4
        then have "big_val a \<noteq> 0" unfolding va by (metis signed_0 signed_word_eqI word_zero_le)
        moreover have "js_bigint_pow a b = pow_single_result v a b"
          using 4 b by (auto simp: js_bigint_pow_eq a Let_def)
        ultimately show ?thesis using pow_single_result_spec [OF a _ assms(2) 3] by (simp only:) blast
      next
        case v: 3
        have "even (nat (big_val b)) \<longleftrightarrow> even (b ! 0)" using even_big_val [OF ne(2)] 3 by (simp add: even_nat_iff)
        then have "sint (1 - 2 * (b ! 0 AND 1)) = big_val a ^ nat (big_val b)"
          by (simp add: va v and_1_parity minus_one_power_iff)
        moreover have "js_bigint_pow a b = js_bigint_new_si (1 - 2 * (b ! 0 AND 1))"
          using v b minus_one_not_le by (auto simp: js_bigint_pow_eq a Let_def)
        ultimately show ?thesis using new_si_spec [of "1 - 2 * (b ! 0 AND 1)"] by (simp only:)
      qed (use new_si_spec [of v] 3 b in \<open>auto simp: js_bigint_pow_eq a Let_def big_val_single zero_power\<close>)
    next
      case False
      have "big_val a \<noteq> 0" using False big_wf_zero [OF assms(1)] by simp
      moreover have "js_bigint_pow a b = js_bigint_pow_big a b" using False b by (auto simp: js_bigint_pow_eq)
      ultimately show ?thesis by (simp only:) (rule js_spec_conseq [OF js_bigint_pow_big_spec [OF assms(1) _ assms(2) 3]], auto)
    qed
    then show ?thesis using 3 by (auto intro: js_spec_conseq)
  qed
qed
end
