(* ===== verification/BigIntTheorems.thy ===== *)
theory BigIntTheorems
  imports BigIntPow
begin

text \<open>
  The properties of BigInt arithmetic, each with a concrete run. They quantify over all behaviours
  of the allocator through \<open>js_spec\<close>: a result is returned, or a listed error is thrown, or a request
  for memory failed.
\<close>

lemmas bigint_run = js_bind_def js_return_def js_throw_def js_malloc_limbs_def js_realloc_limbs_def
  js_shrink_limbs_def js_bigint_new_def js_bigint_sign_def js_bigint_extend_def js_bigint_normalize_def
  js_bigint_normalize1_def JS_BIGINT_MAX_SIZE_def blit_def array_slice_def Let_def

section \<open>Uniqueness of the representation\<close>

text \<open>The representation is canonical: two normalised limb arrays denote the same integer only when
  they are equal, so the engine may compare BigInts limb by limb.\<close>

theorem bigint_representation_unique:
  assumes "big_wf a" "big_wf b"
  shows "big_val a = big_val b \<longleftrightarrow> a = b"
  using represents_unique [OF assms] by auto

theorem bigint_representation_unique_witness: "big_val [- 1] = big_val [3] \<longleftrightarrow> [- 1] = [3 :: limb]"
  using bigint_representation_unique [of "[- 1]" "[3]"] by (simp only: big_wf_single simp_thms)

section \<open>Arithmetic\<close>

text \<open>C12: Addition and subtraction. For well-formed operands and every behaviour of the allocator
  \<open>js_bigint_add\<close> returns the normalised representation of the sum (of the difference when \<open>b_neg\<close> is
  set), and the only error it throws besides running out of memory is the size limit.\<close>

theorem bigint_add_correct:
  assumes "big_wf a" "big_wf b"
  shows "js_spec (js_bigint_add a b b_neg)
     (\<lambda>r. big_wf r \<and> big_val r = (if b_neg then big_val a - big_val b else big_val a + big_val b))
     (\<lambda>e. e = too_large \<and> max (length a) (length b) > JS_BIGINT_MAX_SIZE)"
  by (rule js_bigint_add_spec [OF assms])

theorem bigint_add_witness:
  "js_spec (js_bigint_add [0x7fffffffffffffff] [1] False)
     (\<lambda>r. big_wf r \<and> big_val r = 2 ^ 63) (\<lambda>e. e = too_large \<and> 1 > JS_BIGINT_MAX_SIZE)
   \<and> fst (js_bigint_add [0x7fffffffffffffff] [1] False []) = Inr [0x8000000000000000, 0]"
proof
  show "js_spec (js_bigint_add [0x7fffffffffffffff] [1] False)
     (\<lambda>r. big_wf r \<and> big_val r = 2 ^ 63) (\<lambda>e. e = too_large \<and> 1 > JS_BIGINT_MAX_SIZE)"
    using bigint_add_correct [of "[0x7fffffffffffffff]" "[1]" False] by (simp add: big_val_single)
qed (simp add: js_bigint_add_def bigint_run ADDC_def)

text \<open>C19: Multiplication returns the normalised product; the correction of the unsigned product for
  negative operands is exact.\<close>

theorem bigint_mul_correct:
  assumes "big_wf a" "big_wf b"
  shows "js_spec (js_bigint_mul a b) (\<lambda>r. big_wf r \<and> big_val r = big_val a * big_val b)
     (\<lambda>e. e = too_large \<and> length a + length b > JS_BIGINT_MAX_SIZE)"
  by (rule js_bigint_mul_spec [OF assms])

theorem bigint_mul_witness:
  "js_spec (js_bigint_mul [- 5] [0x4000000000000000])
     (\<lambda>r. big_wf r \<and> big_val r = - 5 * 2 ^ 62) (\<lambda>e. e = too_large \<and> 1 + 1 > JS_BIGINT_MAX_SIZE)"
  using bigint_mul_correct [of "[- 5]" "[0x4000000000000000]"] by (simp add: big_val_single)

text \<open>C6: Division. \<open>js_bigint_divrem\<close> throws the division-by-zero error exactly for a zero divisor;
  otherwise it returns the quotient truncated towards zero or the remainder with the sign of the
  dividend. The correction loop of the schoolbook division always ends.\<close>

theorem bigint_divrem_correct:
  assumes "big_wf a" "big_wf b"
  shows "js_spec (js_bigint_divrem a b is_rem)
    (\<lambda>r. big_val b \<noteq> 0 \<and> big_wf r
       \<and> big_val r = (if is_rem then big_val a smod big_val b else big_val a sdiv big_val b))
    (\<lambda>e. e = RangeError ''BigInt division by zero'' \<and> big_val b = 0
       \<or> e = too_large \<and> big_val b \<noteq> 0 \<and> length a + 2 > JS_BIGINT_MAX_SIZE)"
  using js_bigint_divrem_spec [OF assms, of is_rem] by (simp add: divrem_result_def)

theorem bigint_divrem_witness:
  "js_spec (js_bigint_divrem [- 7] [2] True) (\<lambda>r. big_wf r \<and> big_val r = - 1) (\<lambda>e. False)"
  using bigint_divrem_correct [of "[- 7]" "[2]" True]
  by (simp add: big_val_single signed_modulo_int_def JS_BIGINT_MAX_SIZE_def)

text \<open>C22: Powers. A negative exponent is an error; otherwise the result is the exact power, and an
  error is thrown only when the exponent exceeds 31 bits or the power does not fit in the size limit
  less one limb.\<close>

theorem bigint_pow_correct:
  assumes "big_wf a" "big_wf b"
  shows "js_spec (js_bigint_pow a b)
     (\<lambda>r. 0 \<le> big_val b \<and> big_wf r \<and> big_val r = big_val a ^ nat (big_val b))
     (\<lambda>e. e = RangeError ''BigInt negative exponent'' \<and> big_val b < 0
        \<or> 0 \<le> big_val b \<and> (e = RangeError ''BigInt is too large'' \<or> e = too_large)
          \<and> (big_val b > 2 ^ 31 - 1
             \<or> int (LB ^ (JS_BIGINT_MAX_SIZE - 1)) \<le> 4 * \<bar>big_val a ^ nat (big_val b)\<bar>))"
  by (rule js_spec_conseq [OF js_bigint_pow_spec [OF assms]]) (auto simp: pow_too_large_def)

theorem bigint_pow_witness:
  "js_spec (js_bigint_pow [- 3] [5]) (\<lambda>r. big_wf r \<and> big_val r = - 243)
     (\<lambda>e. (e = RangeError ''BigInt is too large'' \<or> e = too_large)
        \<and> int (LB ^ (JS_BIGINT_MAX_SIZE - 1)) \<le> 4 * \<bar>- 243\<bar>)"
  using bigint_pow_correct [of "[- 3]" "[5]"] by (simp add: big_val_single)

text \<open>C23: Shifts. The left shift multiplies by the power of two; the right shift divides by it and
  rounds towards minus infinity, for negative numbers too.\<close>

theorem bigint_shift_correct:
  assumes "big_wf a"
  shows "js_spec (js_bigint_shl a n) (\<lambda>r. big_wf r \<and> big_val r = big_val a * 2 ^ n)
     (\<lambda>e. e = too_large \<and> big_val a \<noteq> 0 \<and> length a + n div 64 > JS_BIGINT_MAX_SIZE)
   \<and> js_spec (js_bigint_shr a n) (\<lambda>r. big_wf r \<and> big_val r = big_val a div 2 ^ n)
     (\<lambda>e. e = too_large \<and> length a - n div 64 > JS_BIGINT_MAX_SIZE)"
  using js_bigint_shl_spec [OF assms] js_bigint_shr_spec [OF assms] by blast

theorem bigint_shift_witness:
  "js_spec (js_bigint_shl [- 7] 1) (\<lambda>r. big_wf r \<and> big_val r = - 14) (\<lambda>e. False)
   \<and> js_spec (js_bigint_shr [- 7] 1) (\<lambda>r. big_wf r \<and> big_val r = - 4) (\<lambda>e. False)"
  using bigint_shift_correct [of "[- 7]" 1] by (simp add: big_val_single JS_BIGINT_MAX_SIZE_def)

text \<open>C24: Bitwise operations. OR, AND, XOR and NOT of operands of any lengths and signs compute the
  operation on the infinite two's complement representations.\<close>

theorem bigint_logic_correct:
  assumes "big_wf a" "big_wf b"
  shows "js_spec (js_bigint_logic a b op)
     (\<lambda>r. big_wf r \<and> big_val r = (case op of OP_or \<Rightarrow> big_val a OR big_val b
        | OP_and \<Rightarrow> big_val a AND big_val b | OP_xor \<Rightarrow> big_val a XOR big_val b))
     (\<lambda>e. e = too_large \<and> max (length a) (length b) > JS_BIGINT_MAX_SIZE)
   \<and> js_spec (js_bigint_not a) (\<lambda>r. big_wf r \<and> big_val r = NOT (big_val a))
     (\<lambda>e. e = too_large \<and> length a > JS_BIGINT_MAX_SIZE)"
  using js_bigint_logic_spec [OF assms, of op] js_bigint_not_spec [OF assms(1)]
  by (cases op) (simp_all add: logic_int_def)

theorem bigint_logic_witness:
  "js_spec (js_bigint_logic [- 4] [6] OP_xor) (\<lambda>r. big_wf r \<and> big_val r = - 6) (\<lambda>e. False)"
  using bigint_logic_correct [of "[- 4]" "[6]" OP_xor]
  by (simp add: big_val_single JS_BIGINT_MAX_SIZE_def)

text \<open>C25: Comparison of normalised numbers by sign, length and limbs from the top is the order of the
  integers.\<close>

theorem bigint_cmp_correct:
  assumes "big_wf a" "big_wf b"
  shows "js_bigint_cmp a b = sgn (big_val a - big_val b)"
  by (rule js_bigint_cmp_value [OF assms])

theorem bigint_cmp_witness: "js_bigint_cmp [- 4] [0, 1] = - 1"
proof -
  have "big_wf [0, 1 :: limb]" by (simp add: big_wf_pair)
  with bigint_cmp_correct [of "[- 4]" "[0, 1]"] show ?thesis
    by (simp add: big_val_single) (simp add: big_val_def LB_def)
qed

text \<open>C21: The schoolbook division of limb arrays (Knuth's algorithm D with its reciprocal variant):
  for a normalised divisor it terminates, the quotient digits and the remainder are those of natural
  division, and nothing beyond the quotient's digits is overwritten.\<close>

theorem mp_divnorm_correct:
  assumes "tabb \<noteq> []" "length tabb \<le> length taba" "length taba < length tabq + length tabb"
    and "LB \<le> 2 * unat (last tabb)"
  shows "\<exists>q r. mp_divnorm tabq taba tabb = Some (q, r)
     \<and> length q = length tabq \<and> length r = length taba
     \<and> mp_val (take (length taba - length tabb + 1) q) = mp_val taba div mp_val tabb
     \<and> mp_val (take (length tabb) r) = mp_val taba mod mp_val tabb
     \<and> drop (length taba - length tabb + 1) q = drop (length taba - length tabb + 1) tabq"
  by (rule mp_divnorm_value [OF assms])

theorem mp_divnorm_witness:
  "\<exists>q r. mp_divnorm [9, 9, 9] [5, 7] [0x8000000000000000] = Some (q, r)
     \<and> mp_val (take (Suc 1) q) = 14 \<and> mp_val (take 1 r) = 5 \<and> drop (Suc 1) q = [9]"
  using mp_divnorm_correct [of "[0x8000000000000000]" "[5, 7]" "[9, 9, 9]"] by (auto simp: LB_def)

text \<open>Machine integers. A 64-bit unsigned or a 128-bit signed integer becomes the normalised
  BigInt of the same value, and reading a BigInt back saturates at the signed 64-bit range.\<close>

theorem bigint_machine_integers:
  "js_spec (js_bigint_new_si x) (\<lambda>r. big_wf r \<and> big_val r = sint x) (\<lambda>_. False)
   \<and> js_spec (js_bigint_new_ui64 x) (\<lambda>r. big_wf r \<and> big_val r = uint x) (\<lambda>_. False)
   \<and> js_spec (js_bigint_new_di y) (\<lambda>r. big_wf r \<and> big_val r = sint y) (\<lambda>_. False)
   \<and> (big_wf a \<longrightarrow> sint (js_bigint_get_si_sat a) = max (- (2 ^ 63)) (min (2 ^ 63 - 1) (big_val a)))"
  using new_si_spec js_bigint_new_ui64_spec js_bigint_new_di_spec js_bigint_get_si_sat_value by blast

theorem bigint_machine_integers_witness: "sint (js_bigint_get_si_sat [- 4]) = - 4"
  using bigint_machine_integers [of 0 0 "[- 4]"] by (simp add: big_val_single)

end
