(* ===== verification/BigIntFloat.thy ===== *)
theory BigIntFloat
  imports BigIntPow
begin

text \<open>
  The conversions between BigInts and IEEE 754 doubles, and the comparison of a BigInt with a double.
  A double is the 64-bit pattern that the code manipulates.
\<close>

section \<open>Doubles\<close>

type_synonym float64 = "64 word"

text \<open>\<open>clz64\<close>\<close>

definition clz64 :: "u64 \<Rightarrow> nat" where
  "clz64 a = 64 - bit_len (unat a)"

text \<open>
  The C conversion of a 64-bit integer to \<open>double\<close> (round to nearest, ties to even), for integers of
  any size: \<open>round_even m s\<close> is \<open>m / 2^s\<close> rounded, \<open>int_to_float64\<close> the pattern of the nearest double.
\<close>

definition round_even :: "nat \<Rightarrow> nat \<Rightarrow> nat" where
  "round_even m s =
     (let q = m div 2 ^ s; r = m mod 2 ^ s
      in if 2 * r > 2 ^ s \<or> (2 * r = 2 ^ s \<and> odd q) then q + 1 else q)"

definition pack_float64 :: "bool \<Rightarrow> nat \<Rightarrow> nat \<Rightarrow> float64" where
  "pack_float64 s e m = word_of_nat (of_bool s * 2 ^ 63 + e * 2 ^ 52 + m)"

definition int_to_float64 :: "int \<Rightarrow> float64" where
  "int_to_float64 x =
     (let m = nat \<bar>x\<bar>; s = (x < 0)
      in if m = 0 then 0
         else
           (let e = bit_len m - 1;
                f = (if e \<le> 52 then m * 2 ^ (52 - e) else round_even m (e - 52));
                (e, f) = (if f = 2 ^ 53 then (e + 1, 2 ^ 52) else (e, f))
            in if e > 1023 then pack_float64 s 2047 0
               else pack_float64 s (e + 1023) (f - 2 ^ 52)))"

section \<open>The operations\<close>

text \<open>The magnitude with the carry of the negation, and whether a limb below the two top limbs is not zero.\<close>

fun mant_low :: "limb list \<Rightarrow> limb \<Rightarrow> limb \<Rightarrow> limb \<Rightarrow> limb \<times> limb" where
  "mant_low [] m carry low_bits = (carry, low_bits)"
| "mant_low (x # xs) m carry low_bits =
     (let v = (x XOR m) + carry;
          carry = of_bool (v < carry)
      in mant_low xs m carry (low_bits OR v))"

definition js_bigint_get_mant_exp :: "JSBigInt \<Rightarrow> u64 \<times> int" where
  "js_bigint_get_mant_exp a =
     (let n1 = int (length a) - 2;
          sgn = js_bigint_sign a;
          (carry, low_bits) = mant_low (take (nat n1) a) (- sgn) sgn 0;
          (t0, carry) =
            (if n1 < 0 then (0, carry)
             else (let v = (a ! nat n1 XOR (- sgn)) + carry in (v, of_bool (v < carry))));
          t1 = (a ! (length a - 1) XOR (- sgn)) + carry;
          a1 = t1;
          a0 = t0 OR of_bool (low_bits \<noteq> 0);
          (shift, a1, a0) =
            (if a1 = 0 then (64, a0, 0)
             else
               (let shift = clz64 a1
                in if shift \<noteq> 0
                   then (shift, push_bit shift a1 OR drop_bit (64 - shift) a0, push_bit shift a0)
                   else (shift, a1, a0)));
          a1 = a1 OR of_bool (a0 \<noteq> 0)
      in (a1, int (length a) * 64 - int shift - 1))"

definition shr_rndn :: "u64 \<Rightarrow> nat \<Rightarrow> u64" where
  "shr_rndn a n =
     (let addend = (drop_bit n a AND 1) + (push_bit (n - 1) 1 - 1)
      in drop_bit n (a + addend))"

definition js_bigint_to_float64 :: "JSBigInt \<Rightarrow> float64" where
  "js_bigint_to_float64 a =
     (if length a = 1 then int_to_float64 (sint (a ! 0))
      else
        (let sgn = js_bigint_sign a;
             (mant, e) = js_bigint_get_mant_exp a;
             (mant, e) =
               (if e > 1023 then (0, 1024)
                else
                  (let mant = drop_bit 1 mant OR (mant AND 1);
                       mant = shr_rndn mant 10;
                       (mant, e) = (if mant \<ge> push_bit 53 1 then (drop_bit 1 mant, e + 1) else (mant, e))
                   in (mant AND (push_bit 52 1 - 1), e)))
         in push_bit 63 sgn OR push_bit 52 (word_of_int (e + 1023)) OR mant))"

datatype from_float64_result =
    FF_integer JSBigInt
  | FF_not_integer
  | FF_not_finite

definition js_bigint_from_float64 :: "float64 \<Rightarrow> from_float64_result js" where
  "js_bigint_from_float64 a =
     (let sgn = drop_bit 63 a;
          e = uint (drop_bit 52 a AND (push_bit 11 1 - 1));
          mant = a AND (push_bit 52 1 - 1)
      in if e = 2047 then js_return FF_not_finite
         else if e = 0 \<and> mant = 0
              then js_bind (js_bigint_new_si 0) (\<lambda>r. js_return (FF_integer r))
              else
                (let e = e - 1023
                 in if e < 0 then js_return FF_not_integer
                    else
                      (let mant = mant OR push_bit 52 1
                       in if e < 52 \<and> mant AND (push_bit (nat (52 - e)) 1 - 1) \<noteq> 0
                          then js_return FF_not_integer
                          else
                            (let (mant, e) = (if e < 52 then (drop_bit (nat (52 - e)) mant, 0) else (mant, e - 52));
                                 mant = (if sgn \<noteq> 0 then - mant else mant)
                             in js_bind (js_bigint_shl (js_bigint_set_si mant) (nat e))
                                  (\<lambda>r. js_return (FF_integer r))))))"

definition js_bigint_float64_cmp :: "JSBigInt \<Rightarrow> float64 \<Rightarrow> int" where
  "js_bigint_float64_cmp a b1 =
     (let b_sign = uint (drop_bit 63 b1);
          e = uint (drop_bit 52 b1 AND (push_bit 11 1 - 1));
          mant = b1 AND (push_bit 52 1 - 1);
          a_sign = uint (js_bigint_sign a)
      in if e = 2047
         then (if mant \<noteq> 0 then 2 else 2 * b_sign - 1)
         else if e = 0 \<and> mant = 0
              then (if length a = 1 \<and> a ! 0 = 0 then 0 else 1 - 2 * a_sign)
         else if length a = 1 \<and> a ! 0 = 0 then 2 * b_sign - 1
         else if a_sign \<noteq> b_sign then 1 - 2 * a_sign
         else
           (let e = e - 1023;
                (a_mant, f) = js_bigint_get_mant_exp a
            in if f \<noteq> e then (if f < e then - 1 else 1)
               else
                 (let mant = push_bit 11 (mant OR push_bit 52 1)
                  in if a_mant < mant then 2 * a_sign - 1
                     else if a_mant > mant then 1 - 2 * a_sign
                     else 0)))"


section \<open>The magnitude read by \<open>js_bigint_get_mant_exp\<close>\<close>

fun mag_loop :: "limb list \<Rightarrow> limb \<Rightarrow> limb \<Rightarrow> limb list \<times> limb" where
  "mag_loop [] m carry = ([], carry)"
| "mag_loop (x # xs) m carry =
     (let v = (x XOR m) + carry; (rs, c) = mag_loop xs m (of_bool (v < carry)) in (v # rs, c))"

lemma mag_loop_neg: "mag_loop xs (- 1) c = mp_neg_loop xs c"
  by (induction xs arbitrary: c) (auto simp: Let_def split: prod.splits)

lemma mag_loop_pos: "mag_loop xs 0 0 = (xs, 0)"
  by (induction xs) auto

lemma mag_loop_mag: "a \<noteq> [] \<Longrightarrow> fst (mag_loop a (- js_bigint_sign a) (js_bigint_sign a)) = mag a"
  by (auto simp: mag_def mag_loop_neg mag_loop_pos mp_neg_def sign_big_val)

lemma mag_loop_append:
  "mag_loop (xs @ ys) m c =
     (let (r1, c1) = mag_loop xs m c; (r2, c2) = mag_loop ys m c1 in (r1 @ r2, c2))"
  by (induction xs arbitrary: c) (auto simp: Let_def split: prod.splits)

lemma length_mag_loop [simp]: "length (fst (mag_loop xs m c)) = length xs"
  by (induction xs arbitrary: c) (simp_all add: Let_def case_prod_beta)

lemma or_limb_eq_0: "(x OR y = 0) = (x = 0 \<and> y = (0::limb))"
  by (rule or_eq_0_iff)

lemma mant_low_eq:
  "fst (mant_low xs m c low) = snd (mag_loop xs m c)
   \<and> (snd (mant_low xs m c low) = 0 \<longleftrightarrow> low = 0 \<and> mp_val (fst (mag_loop xs m c)) = 0)"
proof (induction xs arbitrary: c low)
  case (Cons x xs)
  then show ?case by (auto simp: Let_def case_prod_beta or_limb_eq_0 unat_eq_zero)
qed simp

text \<open>The limbs that the function works on: the two top limbs, and whether the rest is zero.\<close>

lemma get_mant_exp_limbs:
  assumes "a \<noteq> []"
  defines "n \<equiv> length a" and "M \<equiv> mag a"
  obtains lo hi low where
    "js_bigint_get_mant_exp a =
      (let a0 = lo OR of_bool (low \<noteq> 0);
          (shift, a1, a0) =
            (if hi = 0 then (64, a0, 0)
             else (let shift = clz64 hi
                in if shift \<noteq> 0
                   then (shift, push_bit shift hi OR drop_bit (64 - shift) a0, push_bit shift a0)
                   else (shift, hi, a0)))
      in (a1 OR of_bool (a0 \<noteq> 0), int n * 64 - int shift - 1))"
    "hi = M ! (n - 1)" "lo = (if 2 \<le> n then M ! (n - 2) else 0)"
    "low = (0::limb) \<longleftrightarrow> mp_val (take (n - 2) M) = 0"
proof -
  let ?s = "js_bigint_sign a"
  let ?xs = "take (n - 2) a"
  obtain carry low where ml: "mant_low ?xs (- ?s) ?s 0 = (carry, low)" by fastforce
  obtain L c where L: "mag_loop ?xs (- ?s) ?s = (L, c)" by fastforce
  from mant_low_eq [of ?xs "- ?s" ?s 0] ml L have c: "carry = c" and low: "low = 0 \<longleftrightarrow> mp_val L = 0" by simp_all
  have "length (fst (mag_loop ?xs (- ?s) ?s)) = n - 2" by (simp add: n_def)
  then have lL: "length L = n - 2" unfolding L by simp
  have M: "M = L @ fst (mag_loop (drop (n - 2) a) (- ?s) c)"
    using mag_loop_mag [OF assms(1)] mag_loop_append [of ?xs "drop (n - 2) a" "- ?s" ?s] L
    by (simp add: M_def split: prod.splits)
  show ?thesis
  proof (cases "2 \<le> n")
    case False
    moreover have "0 < n" using assms(1) by (simp add: n_def)
    ultimately have n1: "n = 1" by linarith
    then obtain x where a: "a = [x]" by (auto simp: n_def length_Suc_conv)
    have "M ! (n - 1) = (x XOR - ?s) + c" using M n1 lL by (simp add: a Let_def)
    then show ?thesis using n1 ml c low lL M
      by (intro that [where lo = 0 and hi = "(x XOR - ?s) + c" and low = low]) (simp_all add: js_bigint_get_mant_exp_def a n_def Let_def)
  next
    case True
    then have d: "drop (n - 2) a = [a ! (n - 2), a ! (n - 1)]"
    proof -
      obtain k where "n = Suc (Suc k)" using True by (metis add_2_eq_Suc le_iff_add)
      then show ?thesis
        using Cons_nth_drop_Suc [of k a] Cons_nth_drop_Suc [of "Suc k" a] by (simp add: n_def)
    qed
    let ?t0 = "(a ! (n - 2) XOR - ?s) + c"
    let ?t1 = "(a ! (n - 1) XOR - ?s) + of_bool (?t0 < c)"
    have "M = L @ [?t0, ?t1]" using M d by (simp add: Let_def split: prod.splits)
    then have t: "M ! (n - 1) = ?t1" "M ! (n - 2) = ?t0" "take (n - 2) M = L"
      using lL True by (auto simp: nth_append Suc_diff_le)
    have "nat (int n - 2) = n - 2" "\<not> int n - 2 < 0" using True by linarith+
    then show ?thesis using ml t c low True
      by (intro that [where lo = ?t0 and hi = ?t1 and low = low]) (simp_all add: js_bigint_get_mant_exp_def n_def [symmetric] Let_def)
  qed
qed


section \<open>The value of mantissa and exponent\<close>

text \<open>\<open>sticky A k\<close> drops the \<open>k\<close> low bits of \<open>A\<close> and remembers in the lowest bit whether one was set.\<close>

definition sticky :: "nat \<Rightarrow> nat \<Rightarrow> nat" where
  "sticky A k = (if A mod 2 ^ k \<noteq> 0 \<and> even (A div 2 ^ k) then A div 2 ^ k + 1 else A div 2 ^ k)"

lemma bit_len_unique:
  assumes "2 ^ k \<le> n" "n < 2 ^ Suc k"
  shows "bit_len n = Suc k"
proof -
  have n: "0 < n" using assms(1) by (meson less_le_trans zero_less_numeral zero_less_power)
  note b = bit_len_bounds [OF n]
  obtain m where m: "bit_len n = Suc m" using b gr0_implies_Suc by blast
  have "(2::nat) ^ k < 2 ^ Suc m" "(2::nat) ^ m < 2 ^ Suc k" using assms b m by simp_all
  moreover have "x < y" if "(2::nat) ^ x < 2 ^ y" for x y
    using that by (rule power_less_imp_less_exp [rotated]) simp
  ultimately have "k < Suc m" "m < Suc k" by blast+
  with m show ?thesis by simp
qed

lemma unat_or_of_bool: "unat (x OR of_bool b :: limb) = (if b \<and> even (unat x) then unat x + 1 else unat x)"
proof (cases "b \<and> even (unat x)")
  case True
  have "even x" using True bit_limb_div [of x 0] by (simp add: bit_0)
  then have "x AND 1 = 0" by (simp add: and_one_eq mod_2_eq_odd)
  then have "x OR 1 = x + 1" using disjunctive_add_eq_or by metis
  moreover have "unat x \<noteq> LB - 1" using True by (auto simp: LB_def)
  then have "unat x + 1 < LB" using unat_le_LB [of x] LB_gt_1(1) by linarith
  ultimately show ?thesis using True by (simp add: unat_add_limb)
next
  case False
  have "x OR 1 = x" if "odd (unat x)"
    using that bit_limb_div [of x 0] by (intro bit_word_eqI) (auto simp: bit_simps)
  with False show ?thesis by auto
qed

lemma div_even_Suc: "even t \<Longrightarrow> 0 < i \<Longrightarrow> Suc t div 2 ^ i = t div 2 ^ i"
  "even t \<Longrightarrow> 0 < i \<Longrightarrow> Suc t mod 2 ^ i = Suc (t mod 2 ^ i)"
proof -
  assume e: "even t" and i: "0 < i"
  obtain k where k: "i = Suc k" using i gr0_implies_Suc by blast
  have ev: "even (t mod 2 ^ i)" using e k by (simp add: dvd_mod_iff)
  have "t mod 2 ^ i < 2 ^ i" by simp
  moreover have "Suc (t mod 2 ^ i) \<noteq> 2 ^ i" using ev k by (metis even_Suc even_power even_numeral i)
  ultimately have lt: "Suc (t mod 2 ^ i) < 2 ^ i" by linarith
  then show "Suc t mod 2 ^ i = Suc (t mod 2 ^ i)" by (metis mod_Suc_eq mod_less)
  have "Suc t = Suc (t mod 2 ^ i) + (t div 2 ^ i) * 2 ^ i" by (metis add.commute add_Suc div_mult_mod_eq)
  then have "Suc t div 2 ^ i = t div 2 ^ i + Suc (t mod 2 ^ i) div 2 ^ i"
    by (metis div_mult_self1 power_not_zero zero_neq_numeral)
  with lt show "Suc t div 2 ^ i = t div 2 ^ i" by simp
qed

lemma top_bits:
  assumes "L < 2 ^ j" "t1 * 2 ^ s < LB" "LB \<le> 2 * (t1 * 2 ^ s)" "s < 64" "t0 < LB"
  defines "A \<equiv> L + 2 ^ j * (t0 + LB * t1)"
  shows "bit_len A = j + 128 - s" "A div 2 ^ (j + (64 - s)) = t1 * 2 ^ s + t0 div 2 ^ (64 - s)"
    "A mod 2 ^ (j + (64 - s)) \<noteq> 0 \<longleftrightarrow> t0 mod 2 ^ (64 - s) \<noteq> 0 \<or> L \<noteq> 0"
proof -
  let ?i = "64 - s"
  have LB: "LB = 2 ^ ?i * 2 ^ s" using LB_split [of s] assms(4) by (simp add: mult.commute)
  have dm: "A div 2 ^ j = t0 + LB * t1" "A mod 2 ^ j = L" using assms(1) by (simp_all add: A_def)
  have T: "(t0 + LB * t1) div 2 ^ ?i = t1 * 2 ^ s + t0 div 2 ^ ?i" "(t0 + LB * t1) mod 2 ^ ?i = t0 mod 2 ^ ?i"
    by (simp_all add: LB mult.assoc)
  show d: "A div 2 ^ (j + ?i) = t1 * 2 ^ s + t0 div 2 ^ ?i"
    by (simp only: power_add div_mult2_eq dm T)
  show "A mod 2 ^ (j + ?i) \<noteq> 0 \<longleftrightarrow> t0 mod 2 ^ ?i \<noteq> 0 \<or> L \<noteq> 0"
    by (simp only: power_add mod_mult2_eq dm T) simp
  have t0: "t0 div 2 ^ ?i < 2 ^ s" using assms(5) by (simp add: LB less_mult_imp_div_less mult.commute)
  have "LB = 2 ^ 63 * 2" by (simp add: LB_def)
  then have lo: "2 ^ 63 \<le> A div 2 ^ (j + ?i)" unfolding d using assms(3) by linarith
  have "(t1 + 1) * 2 ^ s \<le> LB"
  proof -
    have "t1 < 2 ^ ?i" using assms(2) unfolding LB by simp
    then show ?thesis unfolding LB by (intro mult_le_mono1) simp
  qed
  then have hi: "A div 2 ^ (j + ?i) < 2 ^ 64" unfolding d using t0 by (simp add: LB_def)
  have "bit_len A = Suc (j + ?i + 63)"
  proof (rule bit_len_unique)
    have "2 ^ 63 * 2 ^ (j + ?i) \<le> A" using lo by (simp add: less_eq_div_iff_mult_less_eq)
    then show "2 ^ (j + ?i + 63) \<le> A" by (simp only: power_add) (simp add: ac_simps)
    have "A < 2 ^ 64 * 2 ^ (j + ?i)" using hi by (simp add: div_less_iff_less_mult)
    then show "A < 2 ^ Suc (j + ?i + 63)" by (simp add: power_add)
  qed
  then show "bit_len A = j + 128 - s" using assms(4) by simp
qed


lemma absorb_sticky:
  fixes t :: nat
  assumes "t' = (if b \<and> even t then t + 1 else t)" "0 < i"
  shows "t' div 2 ^ i = t div 2 ^ i" "t' mod 2 ^ i \<noteq> 0 \<longleftrightarrow> t mod 2 ^ i \<noteq> 0 \<or> b"
proof -
  show "t' div 2 ^ i = t div 2 ^ i" using assms div_even_Suc by simp
  have "t mod 2 ^ i \<noteq> 0" if "odd t"
  proof
    assume "t mod 2 ^ i = 0"
    then have "2 ^ i dvd t" by (simp add: dvd_eq_mod_eq_0)
    moreover have "2 dvd (2::nat) ^ i" using assms(2) by simp
    ultimately show False using that dvd_trans by blast
  qed
  then show "t' mod 2 ^ i \<noteq> 0 \<longleftrightarrow> t mod 2 ^ i \<noteq> 0 \<or> b" using assms div_even_Suc by auto
qed

definition mant_of :: "nat \<Rightarrow> nat" where
  "mant_of A = (if bit_len A \<le> 64 then A * 2 ^ (64 - bit_len A) else sticky A (bit_len A - 64))"

lemma clz64_bounds:
  assumes "x \<noteq> 0"
  shows "clz64 x < 64" "LB \<le> 2 * (unat x * 2 ^ clz64 x)" "unat x * 2 ^ clz64 x < LB"
  using js_limb_clz_bounds [OF assms] by (simp_all add: clz64_def js_limb_clz_def)

lemma bit_len_clz: "x \<noteq> 0 \<Longrightarrow> bit_len (unat x) = 64 - clz64 x"
  using bit_len_le [of "unat x" 64] unat_less_LB [of x] by (simp add: clz64_def LB_def)

lemma mod_mult_pow: "s < 64 \<Longrightarrow> (x * 2 ^ s) mod LB = 0 \<longleftrightarrow> x mod 2 ^ (64 - s) = 0"
  by (simp add: mult_pow_mod_LB)

lemma get_mant_exp_value:
  assumes "big_wf a" "big_val a \<noteq> 0" "js_bigint_get_mant_exp a = (m, e)"
  defines "A \<equiv> nat \<bar>big_val a\<bar>"
  shows "unat m = mant_of A" "e = int (bit_len A) - 1" "2 ^ 63 \<le> unat m"
proof -
  have a: "a \<noteq> []" using assms(1) by (auto simp: big_wf_def)
  define n where "n = length a"
  have n0: "0 < n" using a by (simp add: n_def)
  have A: "mp_val (mag a) = A" "length (mag a) = n" "0 < A"
    using mag_value [OF a] assms(2) by (simp_all add: A_def n_def) 
  obtain t0 t1 low where eq: "js_bigint_get_mant_exp a =
      (let a0 = t0 OR of_bool (low \<noteq> 0);
          (shift, a1, a0) =
            (if t1 = 0 then (64, a0, 0)
             else (let shift = clz64 t1
                in if shift \<noteq> 0
                   then (shift, push_bit shift t1 OR drop_bit (64 - shift) a0, push_bit shift a0)
                   else (shift, t1, a0)))
      in (a1 OR of_bool (a0 \<noteq> 0), int n * 64 - int shift - 1))"
    and t: "t1 = mag a ! (n - 1)" "t0 = (if 2 \<le> n then mag a ! (n - 2) else 0)"
    and low: "low = (0::limb) \<longleftrightarrow> mp_val (take (n - 2) (mag a)) = 0"
    by (rule get_mant_exp_limbs [OF a, folded n_def])
  let ?a0 = "t0 OR of_bool (low \<noteq> 0)" and ?L = "mp_val (take (n - 2) (mag a))" and ?s = "clz64 t1"
  have a0: "unat ?a0 = (if ?L \<noteq> 0 \<and> even (unat t0) then unat t0 + 1 else unat t0)"
    by (simp only: unat_or_of_bool low)
  have split2: "A = ?L + 2 ^ (64 * (n - 2)) * (unat t0 + LB * unat t1)" if n2: "2 \<le> n"
  proof -
    obtain k where "n = 2 + k" using n2 by (auto simp: le_iff_add)
    then have k: "n = Suc (Suc k)" by simp
    then have "drop k (mag a) = [t0, t1]"
      using t A(2) Cons_nth_drop_Suc [of k "mag a"] Cons_nth_drop_Suc [of "Suc k" "mag a"] by simp
    then have "mag a = take (n - 2) (mag a) @ [t0, t1]" using append_take_drop_id [of k "mag a"] k by simp
    then have "mp_val (mag a) = mp_val (take (n - 2) (mag a) @ [t0, t1])" by (rule arg_cong)
    moreover have "length (take (n - 2) (mag a)) = n - 2" using A(2) by simp
    ultimately show ?thesis by (simp add: A(1) LB_power mp_val_append)
  qed
  have "unat m = mant_of A \<and> e = int (bit_len A) - 1 \<and> 2 ^ 63 \<le> unat m"
  proof (cases "t1 = 0")
    case False
    note False' = False
    note c = clz64_bounds [OF False]
    have "drop_bit 64 x = 0" for x :: limb by (intro bit_word_eqI) (auto simp: bit_simps dest: bit_imp_le_length)
    then have m: "m = (push_bit ?s t1 OR drop_bit (64 - ?s) ?a0) OR of_bool (push_bit ?s ?a0 \<noteq> 0)"
      and e: "e = int n * 64 - int ?s - 1"
      using assms(3) False unfolding eq by (auto simp: Let_def split: if_splits)
    have a0d: "unat ?a0 div 2 ^ (64 - ?s) = unat t0 div 2 ^ (64 - ?s)"
      "unat ?a0 mod 2 ^ (64 - ?s) \<noteq> 0 \<longleftrightarrow> unat t0 mod 2 ^ (64 - ?s) \<noteq> 0 \<or> ?L \<noteq> 0"
      using absorb_sticky [OF a0, of "64 - ?s"] c(1) by simp_all
    have "unat (drop_bit (64 - ?s) ?a0) < 2 ^ ?s"
      using unat_less_LB [of ?a0] LB_split [of ?s] c(1)
      by (simp add: unat_drop_bit_limb less_mult_imp_div_less mult.commute)
    with push_or_limb [OF c(1) this, of t1] c(3)
    have hi: "unat (push_bit ?s t1 OR drop_bit (64 - ?s) ?a0) = unat t1 * 2 ^ ?s + unat t0 div 2 ^ (64 - ?s)"
      by (simp only: unat_drop_bit_limb a0d(1) mod_less)
    have "push_bit ?s ?a0 = 0 \<longleftrightarrow> unat (push_bit ?s ?a0) = 0" by (simp only: unat_eq_zero)
    then have p0: "push_bit ?s ?a0 = 0 \<longleftrightarrow> unat ?a0 mod 2 ^ (64 - ?s) = 0"
      unfolding unat_push_bit_limb mod_mult_pow [OF c(1)] .
    have lo: "push_bit ?s ?a0 \<noteq> 0 \<longleftrightarrow> unat t0 mod 2 ^ (64 - ?s) \<noteq> 0 \<or> ?L \<noteq> 0"
      unfolding p0 by (rule a0d(2))
    have um: "unat m = (let q = unat t1 * 2 ^ ?s + unat t0 div 2 ^ (64 - ?s)
       in if (unat t0 mod 2 ^ (64 - ?s) \<noteq> 0 \<or> ?L \<noteq> 0) \<and> even q then q + 1 else q)"
      unfolding m unat_or_of_bool hi lo Let_def ..
    have m63: "2 ^ 63 \<le> unat m" using um c(2) by (simp add: LB_def Let_def split: if_splits)
    show ?thesis
    proof (cases "2 \<le> n")
      case n2: True
      have Lb: "?L < 2 ^ (64 * (n - 2))" using mp_val_bound [of "take (n - 2) (mag a)"] A(2) by (simp add: LB_power)
      note tb = top_bits [OF Lb c(3,2,1) unat_less_LB [of t0], folded split2 [OF n2]]
      have k: "64 * (n - 2) + 128 - ?s = 64 * n - ?s" "64 * (n - 2) + (64 - ?s) = 64 * n - ?s - 64" "64 < 64 * n - ?s"
        using n2 c(1) by linarith+
      have "unat m = sticky A (64 * n - ?s - 64)"
        unfolding um sticky_def k(2) [symmetric] tb(2,3) by (simp add: Let_def)
      moreover have "int (64 * n - ?s) = int n * 64 - int ?s" using k(3) by linarith
      ultimately show ?thesis using tb(1) k e m63 by (simp add: mant_of_def)
    next
      case False
      with n0 have n1: "n = 1" by linarith
      then have "mag a = [t1]" using A(2) t by (auto simp: length_Suc_conv)
      then have At: "A = unat t1" "?L = 0" using A(1) n1 by simp_all
      have "unat m = unat t1 * 2 ^ ?s" unfolding um using At t n1 by simp
      then show ?thesis using bit_len_clz [OF False'] At e m63 n1 c(1) by (simp add: mant_of_def)
    qed
  next
    case True
    have n2: "2 \<le> n"
    proof (rule ccontr)
      assume "\<not> 2 \<le> n"
      with n0 have "n = 1" by linarith
      then have "mag a = [t1]" using A(2) t by (auto simp: length_Suc_conv)
      then show False using A True by simp
    qed
    let ?P = "2 ^ (64 * (n - 2)) :: nat"
    have Lb: "?L < ?P" using mp_val_bound [of "take (n - 2) (mag a)"] A(2) by (simp add: LB_power)
    have At: "A = ?L + ?P * unat t0" using split2 [OF n2] True by simp
    have t063: "2 ^ 63 \<le> unat t0"
    proof (rule ccontr)
      assume "\<not> 2 ^ 63 \<le> unat t0"
      then have "?P * (unat t0 + 1) \<le> ?P * 2 ^ 63" by (intro mult_le_mono2) simp
      moreover have "A < ?P * (unat t0 + 1)" using At Lb by simp
      ultimately have "2 * A < 2 * (?P * 2 ^ 63)" by linarith
      then have "2 * A < ?P * 2 ^ 64" by simp
      also have "\<dots> = LB ^ (n - 1)" using n2 unfolding LB_power power_add [symmetric] by simp
      finally have "2 * A < LB ^ (n - 1)" .
      moreover have "int (LB ^ (n - 1)) \<le> 2 * \<bar>big_val a\<bar>" using wf_lower [OF assms(1,2)] by (simp add: n_def)
      moreover have "int A = \<bar>big_val a\<bar>" by (simp add: A_def)
      ultimately have "int (2 * A) < int (LB ^ (n - 1))" "int (LB ^ (n - 1)) \<le> int (2 * A)"
        by (simp_all only: of_nat_less_iff of_nat_mult of_nat_numeral)
      then show False by linarith
    qed
    have blA: "bit_len A = 64 * (n - 1)"
    proof -
      have "bit_len A = Suc (64 * (n - 2) + 63)"
      proof (rule bit_len_unique)
        have "?P * 2 ^ 63 \<le> ?P * unat t0" using t063 by (rule mult_le_mono2)
        then show "2 ^ (64 * (n - 2) + 63) \<le> A" unfolding At power_add by linarith
        have "?P * (unat t0 + 1) \<le> ?P * LB" by (intro mult_le_mono2) (simp add: Suc_le_eq)
        moreover have "A < ?P * (unat t0 + 1)" using At Lb by simp
        ultimately have "A < ?P * LB" by linarith
        then show "A < 2 ^ Suc (64 * (n - 2) + 63)" by (simp add: power_add LB_def)
      qed
      then show ?thesis using n2 by simp
    qed
    have m: "m = ?a0" and e: "e = int n * 64 - 65"
      using assms(3) True unfolding eq by (auto simp: Let_def)
    have "A div ?P = unat t0" "A mod ?P = ?L" using At Lb by simp_all
    then have st: "sticky A (64 * (n - 2)) = unat m" by (simp add: sticky_def m a0)
    have "mant_of A = unat m"
    proof (cases "n = 2")
      case True
      then show ?thesis using blA st by (simp add: mant_of_def sticky_def)
    next
      case False
      then have "bit_len A - 64 = 64 * (n - 2)" "\<not> bit_len A \<le> 64" using n2 blA by simp_all
      then show ?thesis using st by (simp add: mant_of_def)
    qed
    then show ?thesis using e blA n2 t063 a0 m by (auto simp: of_nat_diff split: if_splits)
  qed
  then show "unat m = mant_of A" "e = int (bit_len A) - 1" "2 ^ 63 \<le> unat m" by blast+
qed


section \<open>Rounding\<close>

lemma sticky_parts:
  assumes "0 < s"
  shows "sticky A j div 2 ^ s = A div 2 ^ (j + s)"
    "sticky A j mod 2 ^ s = (if A mod 2 ^ j \<noteq> 0 \<and> even (A div 2 ^ j) then A div 2 ^ j mod 2 ^ s + 1 else A div 2 ^ j mod 2 ^ s)"
  using div_even_Suc [of "A div 2 ^ j" s] assms
  by (auto simp: sticky_def power_add div_mult2_eq)

text \<open>The last bit of a sticky number stands for all the bits it replaced.\<close>

lemma round_even_sticky:
  assumes "2 \<le> s"
  shows "round_even (sticky A j) s = round_even A (j + s)"
proof -
  obtain h where h: "(2::nat) ^ s = 2 * h" "even h"
  proof -
    obtain k where k: "s = 2 + k" using assms by (auto simp: le_iff_add)
    then show ?thesis by (intro that [of "2 ^ (1 + k)"]) simp_all
  qed
  define r where "r = A mod 2 ^ j"
  define B where "B = A div 2 ^ j mod 2 ^ s"
  define M where "M = A mod 2 ^ (j + s)"
  define P where "P = (2::nat) ^ j"
  have R: "M = P * B + r" unfolding M_def P_def B_def r_def by (simp only: power_add mod_mult2_eq)
  have r: "r < P" by (simp add: r_def P_def)
  have pw: "2 ^ (j + s) = 2 * (P * h)" unfolding P_def by (simp add: power_add h(1))
  have gt: "2 * M > 2 ^ (j + s) \<longleftrightarrow> B > h \<or> B = h \<and> r > 0"
    and eq: "2 * M = 2 ^ (j + s) \<longleftrightarrow> B = h \<and> r = 0"
  proof -
    consider "h + 1 \<le> B" | "B = h" | "B + 1 \<le> h" by linarith
    then have "(2 * M > 2 ^ (j + s) \<longleftrightarrow> B > h \<or> B = h \<and> r > 0) \<and> (2 * M = 2 ^ (j + s) \<longleftrightarrow> B = h \<and> r = 0)"
    proof cases
      case 1
      then have "P * (h + 1) \<le> P * B" by (rule mult_le_mono2)
      then have "P * h + P \<le> P * B" by (simp add: distrib_left)
      then show ?thesis using 1 r unfolding R pw by auto
    next
      case 2
      then show ?thesis unfolding R pw by auto
    next
      case 3
      then have "P * (B + 1) \<le> P * h" by (rule mult_le_mono2)
      then have "P * B + P \<le> P * h" by (simp add: distrib_left)
      then show ?thesis using 3 r unfolding R pw by auto
    qed
    then show "2 * M > 2 ^ (j + s) \<longleftrightarrow> B > h \<or> B = h \<and> r > 0"
      "2 * M = 2 ^ (j + s) \<longleftrightarrow> B = h \<and> r = 0" by blast+
  qed
  have ev: "even B \<longleftrightarrow> even (A div 2 ^ j)" using assms by (simp add: B_def dvd_mod_iff)
  have s0: "0 < s" using assms by simp
  define S where "S = sticky A j mod 2 ^ s"
  have st: "S = (if r \<noteq> 0 \<and> even B then B + 1 else B)"
    by (simp only: S_def sticky_parts(2) [OF s0] ev) (simp only: r_def B_def)
  have odd: "r \<noteq> 0 \<Longrightarrow> \<not> even B \<Longrightarrow> B \<noteq> h" "even B \<Longrightarrow> Suc B \<noteq> h" using h(2) by auto
  have up: "(2 * S > 2 ^ s \<longleftrightarrow> B > h \<or> B = h \<and> r > 0) \<and> (2 * S = 2 ^ s \<longleftrightarrow> B = h \<and> r = 0)"
    unfolding h(1) st using odd by auto
  show ?thesis
    unfolding round_even_def Let_def M_def [symmetric] S_def [symmetric] gt eq sticky_parts(1) [OF s0] using up by simp
qed

lemma shr_rndn_value:
  assumes "unat m < 2 ^ 63"
  shows "unat (shr_rndn m 10) = round_even (unat m) 10"
proof -
  let ?q = "unat m div 2 ^ 10" and ?r = "unat m mod 2 ^ 10"
  have b: "unat (drop_bit 10 m AND 1) = of_bool (odd ?q)"
    using bit_limb_div [of m 10] by (simp add: and_1_parity bit_drop_bit_eq flip: bit_0)
  have o: "unat ((push_bit 9 1 - 1 :: limb)) = 511" by simp
  have ad: "unat ((drop_bit 10 m AND 1) + (push_bit 9 1 - 1)) = of_bool (odd ?q) + 511"
    by (simp only: unat_add_limb b o) (simp add: LB_def)
  have "unat (m + ((drop_bit 10 m AND 1) + (push_bit 9 1 - 1))) = unat m + (of_bool (odd ?q) + 511)"
    using assms by (subst unat_add_limb, simp only: ad) (simp add: LB_def)
  then have "unat (shr_rndn m 10) = (unat m + (of_bool (odd ?q) + 511)) div 2 ^ 10"
    by (simp add: shr_rndn_def unat_drop_bit_limb Let_def)
  also have "unat m + (of_bool (odd ?q) + 511) = (?r + (of_bool (odd ?q) + 511)) + ?q * 2 ^ 10"
    by simp
  also have "\<dots> div 2 ^ 10 = ?q + (?r + (of_bool (odd ?q) + 511)) div 2 ^ 10"
    by (rule div_mult_self1) simp
  also have "\<dots> = round_even (unat m) 10"
  proof -
    have "?r < 1024" by simp
    then show ?thesis unfolding round_even_def Let_def
      by (cases "odd ?q") (auto simp: div_if le_div_geq)
  qed
  finally show ?thesis .
qed


section \<open>Conversion to a double\<close>

lemma unat_word_of_nat_limb: "n < LB \<Longrightarrow> unat (word_of_nat n :: limb) = n"
  by (simp add: unat_of_nat LB_def)

lemma pack_float64_word:
  assumes "e < 2 ^ 11" "unat m < 2 ^ 52"
  shows "push_bit 63 (of_bool s) OR push_bit 52 (word_of_nat e) OR m = pack_float64 s e (unat m)"
proof (rule word_unat_eq_iff [THEN iffD2])
  have e: "unat (word_of_nat e :: limb) = e" using assms(1) by (intro unat_word_of_nat_limb) (simp add: LB_def)
  have es: "e * 2 ^ 52 + unat m < 2 ^ 63" using assms by simp
  have in1: "unat (push_bit 52 (word_of_nat e) OR m) = e * 2 ^ 52 + unat m"
    using push_or_limb [of 52 m "word_of_nat e"] assms e by (simp add: LB_def)
  have "unat (push_bit 63 (of_bool s) OR (push_bit 52 (word_of_nat e) OR m)) = of_bool s * 2 ^ 63 + (e * 2 ^ 52 + unat m)"
    using push_or_limb [of 63 "push_bit 52 (word_of_nat e) OR m" "of_bool s"] es unfolding in1
    by (cases s) (simp_all add: LB_def)
  moreover have "of_bool s * 2 ^ 63 + (e * 2 ^ 52 + unat m) < LB"
    using es by (cases s) (simp_all add: LB_def)
  ultimately show "unat (push_bit 63 (of_bool s) OR push_bit 52 (word_of_nat e) OR m) = unat (pack_float64 s e (unat m))"
    unfolding pack_float64_def by (simp only: or.assoc add.assoc unat_word_of_nat_limb)
qed

lemma unat_and_mask: "unat (x AND (push_bit n 1 - 1) :: limb) = unat x mod 2 ^ n" if "n < 64"
  using that by (simp add: unsigned_and_eq unsigned_take_bit_eq flip: take_bit_eq_mod take_bit_eq_mask mask_eq_exp_minus_1)

lemma round_even_bounds:
  assumes "2 ^ k \<le> A div 2 ^ s" "A div 2 ^ s < 2 ^ Suc k"
  shows "2 ^ k \<le> round_even A s" "round_even A s \<le> 2 ^ Suc k"
  using assms by (auto simp: round_even_def Let_def)

lemma half_sticky: "unat (drop_bit 1 m OR (m AND 1) :: limb) = sticky (unat m) 1"
proof -
  have "odd m \<longleftrightarrow> odd (unat m)" using bit_limb_div [of m 0] by (simp add: bit_0)
  then show ?thesis
    unfolding and_1_parity unat_or_of_bool unat_drop_bit_limb sticky_def by (auto simp: odd_iff_mod_2_eq_one)
qed


lemma mant_of_sticky: "64 \<le> bit_len A \<Longrightarrow> mant_of A = sticky A (bit_len A - 64)"
  by (cases "bit_len A = 64") (simp_all add: mant_of_def sticky_def)

lemma round_mant:
  assumes "64 \<le> bit_len A" "unat m = mant_of A" "2 ^ 63 \<le> unat m"
  shows "unat (shr_rndn (drop_bit 1 m OR (m AND 1)) 10) = round_even A (bit_len A - 1 - 52)"
    "2 ^ 52 \<le> round_even A (bit_len A - 1 - 52)" "round_even A (bit_len A - 1 - 52) \<le> 2 ^ 53"
proof -
  let ?n = "drop_bit 1 m OR (m AND 1)" and ?k = "bit_len A - 64"
  have k: "bit_len A - 1 - 52 = ?k + 11" using assms(1) by simp
  have m: "unat m = sticky A ?k" using assms by (simp add: mant_of_sticky)
  have lt: "sticky (unat m) 1 < 2 ^ 63"
  proof -
    have "unat m div 2 < 2 ^ 63" using unat_less_LB [of m] by (simp add: LB_def less_mult_imp_div_less del: unat_less_LB)
    then show ?thesis by (auto simp: sticky_def elim!: evenE)
  qed
  have "unat (shr_rndn ?n 10) = round_even (sticky (unat m) 1) 10"
    using shr_rndn_value [of ?n] lt by (simp only: half_sticky)
  also have "\<dots> = round_even (unat m) 11" by (simp add: round_even_sticky)
  also have "\<dots> = round_even A (?k + 11)" unfolding m by (simp add: round_even_sticky)
  finally show r: "unat (shr_rndn ?n 10) = round_even A (bit_len A - 1 - 52)" unfolding k .
  have "unat m div 2 ^ 11 = A div 2 ^ (?k + 11)" unfolding m by (rule sticky_parts) simp
  moreover have "2 ^ 52 \<le> unat m div 2 ^ 11" using assms(3) by (simp add: less_eq_div_iff_mult_less_eq)
  moreover have "unat m div 2 ^ 11 < 2 ^ Suc 52" using unat_less_LB [of m] by (simp add: LB_def less_mult_imp_div_less del: unat_less_LB)
  ultimately show "2 ^ 52 \<le> round_even A (bit_len A - 1 - 52)" "round_even A (bit_len A - 1 - 52) \<le> 2 ^ 53"
    using round_even_bounds [of 52 A "?k + 11"] unfolding k by simp_all
qed

lemma js_bigint_to_float64_value:
  assumes "big_wf a"
  shows "js_bigint_to_float64 a = int_to_float64 (big_val a)"
proof (cases "length a = 1")
  case True
  then obtain x where "a = [x]" by (auto simp: length_Suc_conv)
  then show ?thesis by (simp add: js_bigint_to_float64_def big_val_single)
next
  case False
  define A where "A = nat \<bar>big_val a\<bar>"
  have a: "a \<noteq> []" using assms by (auto simp: big_wf_def)
  have nz: "big_val a \<noteq> 0" using False big_wf_zero [OF assms] by simp
  have A0: "A \<noteq> 0" using nz by (simp add: A_def)
  have "2 ^ 63 \<le> A"
  proof -
    have "0 < length a" using a by simp
    with False have "1 \<le> length a - 1" by linarith
    then have "LB ^ 1 \<le> LB ^ (length a - 1)" by (intro power_increasing) auto
    then have "int LB \<le> int (LB ^ (length a - 1))" by (simp only: of_nat_le_iff power_one_right)
    also have "\<dots> \<le> 2 * \<bar>big_val a\<bar>" by (rule wf_lower [OF assms nz])
    finally show ?thesis by (simp add: A_def LB_def)
  qed
  then have "(2::nat) ^ 63 < 2 ^ bit_len A" using bit_len_bounds [of A] A0 by simp
  then have "63 < bit_len A" by (rule power_less_imp_less_exp [rotated]) simp
  then have bl: "64 \<le> bit_len A" by simp
  obtain m e where me: "js_bigint_get_mant_exp a = (m, e)" by fastforce
  note v = get_mant_exp_value [OF assms nz me, folded A_def]
  have e: "e = int (bit_len A - 1)" using v(2) bl by simp
  let ?e = "bit_len A - 1" and ?f = "round_even A (bit_len A - 1 - 52)"
  note rm = round_mant [OF bl v(1,3)]
  have e52: "\<not> bit_len A - 1 \<le> 52" using bl by simp
  have spec: "int_to_float64 (big_val a) =
      (let f = ?f; (e, f) = (if f = 2 ^ 53 then (?e + 1, 2 ^ 52) else (?e, f))
       in if e > 1023 then pack_float64 (big_val a < 0) 2047 0 else pack_float64 (big_val a < 0) (e + 1023) (f - 2 ^ 52))"
    unfolding int_to_float64_def A_def [symmetric] Let_def if_not_P [OF A0] if_not_P [OF e52] by (rule refl)
  have sgn: "js_bigint_sign a = of_bool (big_val a < 0)" using a by (rule sign_big_val)
  have packed: "push_bit 63 (js_bigint_sign a) OR push_bit 52 (word_of_nat n) OR w = pack_float64 (big_val a < 0) n (unat w)"
    if "n < 2 ^ 11" "unat w < 2 ^ 52" for n and w :: limb
    unfolding sgn using that by (rule pack_float64_word)
  show ?thesis
  proof (cases "?e > 1023")
    case True
    then have big: "e > 1023" using e by simp
    have "js_bigint_to_float64 a = push_bit 63 (js_bigint_sign a) OR push_bit 52 (word_of_nat 2047) OR 0"
      unfolding js_bigint_to_float64_def if_not_P [OF False] me Let_def case_prod_conv if_P [OF big] by simp
    also have "\<dots> = pack_float64 (big_val a < 0) 2047 0" using packed [of 2047 0] by simp
    moreover have "1023 < bit_len A" using True by linarith
    ultimately show ?thesis using True unfolding spec by (simp add: Let_def)
  next
    case small: False
    let ?w = "shr_rndn (drop_bit 1 m OR (m AND 1)) 10"
    have ge: "push_bit 53 1 \<le> ?w \<longleftrightarrow> ?f = 2 ^ 53"
      using rm by (simp add: word_le_nat_alt)
    have w1: "unat (drop_bit 1 ?w AND (push_bit 52 1 - 1)) = 0" if "?f = 2 ^ 53"
      using rm(1) that by (simp only: unat_and_mask unat_drop_bit_limb) simp
    have w2: "unat (?w AND (push_bit 52 1 - 1)) = ?f - 2 ^ 52" if "?f \<noteq> 2 ^ 53"
      using rm that by (simp only: unat_and_mask) (simp add: le_mod_geq)
    have "js_bigint_to_float64 a =
        (if ?f = 2 ^ 53
         then push_bit 63 (js_bigint_sign a) OR push_bit 52 (word_of_nat (?e + 1 + 1023)) OR (drop_bit 1 ?w AND (push_bit 52 1 - 1))
         else push_bit 63 (js_bigint_sign a) OR push_bit 52 (word_of_nat (?e + 1023)) OR (?w AND (push_bit 52 1 - 1)))"
    proof -
      have i: "word_of_int (e + 1023) = (word_of_nat (?e + 1023) :: limb)"
        "word_of_int (e + 1 + 1023) = (word_of_nat (?e + 1 + 1023) :: limb)" using e by simp_all
      have ne: "\<not> e > 1023" using small e by simp
      show ?thesis
        unfolding js_bigint_to_float64_def if_not_P [OF False] me Let_def case_prod_conv if_not_P [OF ne] ge
        by (simp only: if_distrib [of "\<lambda>p. case p of (x, y) \<Rightarrow> (x AND _, y)"] i split: if_split)
          (simp add: e)
    qed
    also have "\<dots> = int_to_float64 (big_val a)"
    proof (cases "?f = 2 ^ 53")
      case True
      have "push_bit 63 (js_bigint_sign a) OR push_bit 52 (word_of_nat (?e + 1 + 1023)) OR (drop_bit 1 ?w AND (push_bit 52 1 - 1))
          = pack_float64 (big_val a < 0) (?e + 1 + 1023) 0"
        using packed [of "?e + 1 + 1023" "drop_bit 1 ?w AND (push_bit 52 1 - 1)"] small
        unfolding w1 [OF True] by simp
      moreover have "?e + 1 > 1023 \<Longrightarrow> ?e + 1 + 1023 = 2047" using small by linarith
      ultimately show ?thesis unfolding spec Let_def if_P [OF True] case_prod_conv by (simp only: diff_self_eq_0 split: if_split) metis
    next
      case False
      have lt: "unat (?w AND (push_bit 52 1 - 1)) < 2 ^ 52" by (subst unat_and_mask) simp_all
      have "push_bit 63 (js_bigint_sign a) OR push_bit 52 (word_of_nat (?e + 1023)) OR (?w AND (push_bit 52 1 - 1))
          = pack_float64 (big_val a < 0) (?e + 1023) (?f - 2 ^ 52)"
        using packed [OF _ lt, of "?e + 1023"] small unfolding w2 [OF False] by simp
      then show ?thesis unfolding spec Let_def if_not_P [OF False] case_prod_conv if_not_P [OF small] .
    qed
    finally show ?thesis .
  qed
qed
end
