(* ===== verification/BigIntDouble.thy ===== *)
theory BigIntDouble
  imports BigIntFloat
begin

text \<open>
  The value of a double, the conversion of a double to a BigInt and the comparison of the two.
\<close>

section \<open>The value of a double\<close>

text \<open>
  The value of a finite double is \<open>f64_scaled b\<close> in units of \<open>2 ^ (- 1074)\<close>, the least positive
  double; it is the integer \<open>x\<close> when \<open>f64_scaled b = x * 2 ^ 1074\<close>.
\<close>

definition f64_exp :: "float64 \<Rightarrow> nat" where
  "f64_exp b = unat b div 2 ^ 52 mod 2 ^ 11"

definition f64_man :: "float64 \<Rightarrow> nat" where
  "f64_man b = unat b mod 2 ^ 52"

definition f64_neg :: "float64 \<Rightarrow> bool" where
  "f64_neg b \<longleftrightarrow> LB \<le> 2 * unat b"

definition f64_mag :: "float64 \<Rightarrow> nat" where
  "f64_mag b = (if f64_exp b = 0 then f64_man b else (2 ^ 52 + f64_man b) * 2 ^ (f64_exp b - 1))"

definition f64_scaled :: "float64 \<Rightarrow> int" where
  "f64_scaled b = (if f64_neg b then - int (f64_mag b) else int (f64_mag b))"

definition f64_finite :: "float64 \<Rightarrow> bool" where
  "f64_finite b \<longleftrightarrow> f64_exp b \<noteq> 2047"

lemma f64_fields:
  "uint (drop_bit 52 b AND (push_bit 11 1 - 1)) = int (f64_exp b)"
  "unat (b AND (push_bit 52 1 - 1)) = f64_man b"
  "drop_bit 63 b = of_bool (f64_neg b)"
proof -
  have "unat (drop_bit 52 b AND (push_bit 11 1 - 1)) = f64_exp b"
    by (simp only: unat_and_mask unat_drop_bit_limb f64_exp_def)
  then show "uint (drop_bit 52 b AND (push_bit 11 1 - 1)) = int (f64_exp b)" by (metis uint_nat)
  show "unat (b AND (push_bit 52 1 - 1)) = f64_man b" by (simp only: unat_and_mask f64_man_def)
  show "drop_bit 63 b = of_bool (f64_neg b)" by (simp add: drop_bit_63_limb f64_neg_def)
qed

lemma f64_man_less: "f64_man b < 2 ^ 52"
  by (simp add: f64_man_def)

lemma f64_exp_less: "f64_exp b < 2048"
  by (simp add: f64_exp_def)

lemma f64_man_0: "b AND (push_bit 52 1 - 1) = 0 \<longleftrightarrow> f64_man b = 0"
  using f64_fields(2) [of b] by (metis unat_eq_zero)

lemma f64_mag_0: "f64_mag b = 0 \<longleftrightarrow> f64_exp b = 0 \<and> f64_man b = 0"
  by (simp add: f64_mag_def)

text \<open>The magnitude of a normal double lies between the powers of two that its exponent names.\<close>

lemma f64_mag_bounds:
  assumes "f64_exp b \<noteq> 0"
  shows "2 ^ (51 + f64_exp b) \<le> f64_mag b" "f64_mag b < 2 ^ (52 + f64_exp b)"
proof -
  obtain k where k: "f64_exp b = Suc k" using assms not0_implies_Suc by blast
  have m: "f64_mag b = (2 ^ 52 + f64_man b) * 2 ^ k" by (simp add: f64_mag_def k)
  have "(2::nat) ^ 52 * 2 ^ k \<le> (2 ^ 52 + f64_man b) * 2 ^ k" by (intro mult_le_mono1) simp
  then show "2 ^ (51 + f64_exp b) \<le> f64_mag b" unfolding m k by (simp add: power_add)
  have "(2 ^ 52 + f64_man b) * 2 ^ k < 2 ^ 53 * 2 ^ k" using f64_man_less [of b] by (intro mult_strict_right_mono) simp_all
  then show "f64_mag b < 2 ^ (52 + f64_exp b)" unfolding m k by (simp add: power_add)
qed

lemma f64_mag_small: "f64_exp b \<le> 1022 \<Longrightarrow> f64_mag b < 2 ^ 1074"
proof (cases "f64_exp b = 0")
  case True
  then have "f64_mag b < 2 ^ 52" using f64_man_less [of b] by (simp add: f64_mag_def)
  also have "(2::nat) ^ 52 \<le> 2 ^ 1074" by (rule power_increasing) simp_all
  finally show ?thesis .
next
  case False
  assume "f64_exp b \<le> 1022"
  then have "(2::nat) ^ (52 + f64_exp b) \<le> 2 ^ 1074" by (intro power_increasing) simp_all
  with f64_mag_bounds(2) [OF False] show ?thesis by (rule less_le_trans)
qed

section \<open>Comparison\<close>

lemma sticky_compare:
  assumes "even M"
  shows "sticky A k < M \<longleftrightarrow> A < M * 2 ^ k" "M < sticky A k \<longleftrightarrow> M * 2 ^ k < A"
proof -
  let ?q = "A div 2 ^ k" and ?r = "A mod 2 ^ k"
  have A: "A = ?q * 2 ^ k + ?r" by (rule div_mult_mod_eq [symmetric])
  have r: "?r < 2 ^ k" by simp
  consider "?q + 1 \<le> M" | "?q = M" | "M + 1 \<le> ?q" by linarith
  then have "(sticky A k < M \<longleftrightarrow> A < M * 2 ^ k) \<and> (M < sticky A k \<longleftrightarrow> M * 2 ^ k < A)"
  proof cases
    case 1
    then have "(?q + 1) * 2 ^ k \<le> M * 2 ^ k" by (rule mult_le_mono1)
    then have "A < M * 2 ^ k" using A r unfolding distrib_right by linarith
    moreover have "sticky A k < M" using 1 assms by (auto simp: sticky_def le_less)
    ultimately show ?thesis by simp
  next
    case 2
    then show ?thesis using A assms by (auto simp: sticky_def)
  next
    case 3
    then have "(M + 1) * 2 ^ k \<le> ?q * 2 ^ k" by (rule mult_le_mono1)
    then have "M * 2 ^ k < A" using A by (simp only: distrib_right) (use zero_less_power [of "2::nat" k] in linarith)
    moreover have "M < sticky A k" using 3 by (auto simp: sticky_def)
    ultimately show ?thesis by simp
  qed
  then show "sticky A k < M \<longleftrightarrow> A < M * 2 ^ k" "M < sticky A k \<longleftrightarrow> M * 2 ^ k < A" by blast+
qed

lemma mant_compare:
  assumes "0 < A" "even M"
  shows "mant_of A < M \<longleftrightarrow> A * 2 ^ 63 < M * 2 ^ (bit_len A - 1)"
    "M < mant_of A \<longleftrightarrow> M * 2 ^ (bit_len A - 1) < A * 2 ^ 63"
proof -
  have b: "0 < bit_len A" using bit_len_bounds [OF assms(1)] by simp
  have c: "(x * 2 ^ n < y * 2 ^ n) = (x < y)" for x y n :: nat by simp
  have "(mant_of A < M \<longleftrightarrow> A * 2 ^ 63 < M * 2 ^ (bit_len A - 1))
      \<and> (M < mant_of A \<longleftrightarrow> M * 2 ^ (bit_len A - 1) < A * 2 ^ 63)"
  proof (cases "bit_len A \<le> 64")
    case True
    have "(2::nat) ^ 63 = 2 ^ (64 - bit_len A) * 2 ^ (bit_len A - 1)"
      using True b unfolding power_add [symmetric] by simp
    then have e: "A * 2 ^ 63 = A * 2 ^ (64 - bit_len A) * 2 ^ (bit_len A - 1)" by (simp only: mult.assoc)
    show ?thesis unfolding mant_of_def if_P [OF True] e c by blast
  next
    case False
    have "(2::nat) ^ (bit_len A - 1) = 2 ^ (bit_len A - 64) * 2 ^ 63"
      using False unfolding power_add [symmetric] by simp
    then have e: "M * 2 ^ (bit_len A - 1) = M * 2 ^ (bit_len A - 64) * 2 ^ 63" by (simp only: mult.assoc)
    show ?thesis unfolding mant_of_def if_not_P [OF False] e c using sticky_compare [OF assms(2)] by blast
  qed
  then show "mant_of A < M \<longleftrightarrow> A * 2 ^ 63 < M * 2 ^ (bit_len A - 1)"
    "M < mant_of A \<longleftrightarrow> M * 2 ^ (bit_len A - 1) < A * 2 ^ 63" by blast+
qed

text \<open>The comparison of the magnitudes by exponent, then by mantissa.\<close>

definition exponents_differ :: "JSBigInt \<Rightarrow> float64 \<Rightarrow> bool" where
  "exponents_differ a b \<longleftrightarrow> int (bit_len (nat \<bar>big_val a\<bar>)) - 1 \<noteq> int (f64_exp b) - 1023"

lemma mag_compare:
  assumes "0 < A" "0 < f64_mag b"
  shows "int (bit_len A) - 1 < int (f64_exp b) - 1023 \<Longrightarrow> A * 2 ^ 1074 < f64_mag b"
    "int (f64_exp b) - 1023 < int (bit_len A) - 1 \<Longrightarrow> f64_mag b < A * 2 ^ 1074"
    "int (bit_len A) - 1 = int (f64_exp b) - 1023 \<Longrightarrow>
       (mant_of A < (2 ^ 52 + f64_man b) * 2 ^ 11 \<longleftrightarrow> A * 2 ^ 1074 < f64_mag b)
       \<and> ((2 ^ 52 + f64_man b) * 2 ^ 11 < mant_of A \<longleftrightarrow> f64_mag b < A * 2 ^ 1074)"
proof -
  note b = bit_len_bounds [OF assms(1)]
  {
    assume "int (bit_len A) - 1 < int (f64_exp b) - 1023"
    then have le: "bit_len A + 1074 \<le> 51 + f64_exp b" and nz: "f64_exp b \<noteq> 0" by linarith+
    have "A * 2 ^ 1074 < 2 ^ bit_len A * 2 ^ 1074" using b by (intro mult_strict_right_mono) simp_all
    also have "\<dots> = 2 ^ (bit_len A + 1074)" by (simp only: power_add)
    also have "\<dots> \<le> 2 ^ (51 + f64_exp b)" using le by (rule power_increasing) simp
    also have "\<dots> \<le> f64_mag b" using f64_mag_bounds [OF nz] by simp
    finally show "A * 2 ^ 1074 < f64_mag b" .
  next
    assume lt: "int (f64_exp b) - 1023 < int (bit_len A) - 1"
    show "f64_mag b < A * 2 ^ 1074"
    proof (cases "f64_exp b = 0")
      case True
      have "f64_mag b < 1 * 2 ^ 1074" using f64_mag_small [of b] True by simp
      also have "\<dots> \<le> A * 2 ^ 1074" using assms(1) by (intro mult_le_mono1) simp
      finally show ?thesis .
    next
      case False
      have le: "52 + f64_exp b \<le> bit_len A - 1 + 1074" using lt b by linarith
      have "f64_mag b < 2 ^ (52 + f64_exp b)" using f64_mag_bounds [OF False] by simp
      also have "\<dots> \<le> 2 ^ (bit_len A - 1 + 1074)" using le by (rule power_increasing) simp
      also have "\<dots> \<le> A * 2 ^ 1074" unfolding power_add using b by (intro mult_le_mono1) simp
      finally show ?thesis .
    qed
  next
    assume eq: "int (bit_len A) - 1 = int (f64_exp b) - 1023"
    let ?M = "(2 ^ 52 + f64_man b) * 2 ^ 11" and ?f = "bit_len A - 1"
    have ex: "f64_exp b - 1 = ?f + 1022" and nz: "f64_exp b \<noteq> 0" using eq b by linarith+
    have mag: "f64_mag b = ?M * 2 ^ ?f * 2 ^ 1011"
      using nz ex by (simp add: f64_mag_def power_add mult.assoc)
    have A: "A * 2 ^ 1074 = A * 2 ^ 63 * 2 ^ 1011" by (simp only: mult.assoc power_add [symmetric]) simp
    have "(0::nat) < 2 ^ 1011" by simp
    then have c: "(x * 2 ^ 1011 < y * 2 ^ 1011) = (x < y)" for x y :: nat by (simp only: mult_less_cancel2 simp_thms)
    have "even ?M" by simp
    from mant_compare [OF assms(1) this]
    show "(mant_of A < ?M \<longleftrightarrow> A * 2 ^ 1074 < f64_mag b) \<and> (?M < mant_of A \<longleftrightarrow> f64_mag b < A * 2 ^ 1074)"
      unfolding mag A c by blast
  }
qed


lemma aligned_mantissa:
  "unat (push_bit 11 ((b AND (push_bit 52 1 - 1)) OR push_bit 52 1 :: limb)) = (2 ^ 52 + f64_man b) * 2 ^ 11"
proof -
  have "unat (push_bit 52 1 OR (b AND (push_bit 52 1 - 1)) :: limb) = 2 ^ 52 + f64_man b"
    using push_or_limb [of 52 "b AND (push_bit 52 1 - 1)" 1] f64_fields(2) [of b] f64_man_less [of b]
    by (simp only: unat_1) (simp add: LB_def)
  then have "unat ((b AND (push_bit 52 1 - 1)) OR push_bit 52 1 :: limb) = 2 ^ 52 + f64_man b"
    by (simp only: or.commute)
  then show ?thesis using f64_man_less [of b]
    by (simp only: unat_push_bit_limb) (simp add: LB_def)
qed

lemma js_bigint_float64_cmp_value:
  assumes "big_wf a"
  shows "js_bigint_float64_cmp a b =
    (if f64_exp b = 2047
     then (if f64_man b \<noteq> 0 then 2 else if f64_neg b then 1 else - 1)
     else
       (let d = sgn (big_val a * 2 ^ 1074 - f64_scaled b)
        in if big_val a < 0 \<and> f64_scaled b < 0 \<and> exponents_differ a b then - d else d))"
proof -
  have a: "a \<noteq> []" using assms by (auto simp: big_wf_def)
  have sa: "uint (js_bigint_sign a) = of_bool (big_val a < 0)" by (simp add: sign_big_val [OF a])
  have sb: "uint (drop_bit 63 b) = of_bool (f64_neg b)" by (simp add: f64_fields)
  have z: "length a = 1 \<and> a ! 0 = 0 \<longleftrightarrow> big_val a = 0" by (rule big_wf_zero [OF assms])
  define A where "A = nat \<bar>big_val a\<bar>"
  have va: "big_val a = (if big_val a < 0 then - int A else int A)" by (simp add: A_def)
  have sc: "f64_scaled b = (if f64_neg b then - int (f64_mag b) else int (f64_mag b))" by (simp add: f64_scaled_def)
  have unf: "js_bigint_float64_cmp a b =
     (if int (f64_exp b) = 2047 then (if f64_man b \<noteq> 0 then 2 else 2 * of_bool (f64_neg b) - 1)
      else if int (f64_exp b) = 0 \<and> f64_man b = 0 then (if big_val a = 0 then 0 else 1 - 2 * of_bool (big_val a < 0))
      else if big_val a = 0 then 2 * of_bool (f64_neg b) - 1
      else if (of_bool (big_val a < 0) :: int) \<noteq> of_bool (f64_neg b) then 1 - 2 * of_bool (big_val a < 0)
      else (case js_bigint_get_mant_exp a of (a_mant, f) \<Rightarrow>
         if f \<noteq> int (f64_exp b) - 1023 then (if f < int (f64_exp b) - 1023 then - 1 else 1)
         else if a_mant < push_bit 11 ((b AND (push_bit 52 1 - 1)) OR push_bit 52 1) then 2 * of_bool (big_val a < 0) - 1
         else if a_mant > push_bit 11 ((b AND (push_bit 52 1 - 1)) OR push_bit 52 1) then 1 - 2 * of_bool (big_val a < 0)
         else 0))"
    unfolding js_bigint_float64_cmp_def Let_def f64_fields(1) f64_man_0 sa sb z by (simp only: not_not)
  have int_cmp: "int (A * 2 ^ 1074) = int A * 2 ^ 1074" by simp
  consider (special) "f64_exp b = 2047" | (zero) "f64_exp b \<noteq> 2047" "f64_mag b = 0"
    | (a0) "f64_exp b \<noteq> 2047" "f64_mag b \<noteq> 0" "big_val a = 0"
    | (signs) "f64_exp b \<noteq> 2047" "f64_mag b \<noteq> 0" "big_val a \<noteq> 0" "(big_val a < 0) \<noteq> f64_neg b"
    | (same) "f64_exp b \<noteq> 2047" "f64_mag b \<noteq> 0" "big_val a \<noteq> 0" "(big_val a < 0) = f64_neg b"
    by blast
  then show ?thesis
  proof cases
    case special
    then show ?thesis by (simp add: unf)
  next
    case zero
    then have "f64_exp b = 0" "f64_man b = 0" "f64_scaled b = 0" by (simp_all add: f64_mag_0 sc)
    then show ?thesis by (auto simp: unf sgn_if zero_less_mult_iff)
  next
    case a0
    then have "\<not> (int (f64_exp b) = 0 \<and> f64_man b = 0)" by (simp add: f64_mag_0)
    then show ?thesis using a0 by (auto simp: unf sgn_if sc)
  next
    case signs
    then have ne: "\<not> (int (f64_exp b) = 0 \<and> f64_man b = 0)" by (simp add: f64_mag_0)
    have "sgn (big_val a * 2 ^ 1074 - f64_scaled b) = 1 - 2 * of_bool (big_val a < 0)"
    proof (cases "big_val a < 0")
      case True
      then have "big_val a * 2 ^ 1074 < 0" by (simp add: mult_neg_pos)
      then show ?thesis using True signs sc by (simp add: sgn_if)
    next
      case False
      with signs have "0 < big_val a * 2 ^ 1074" by simp
      then show ?thesis using False signs sc by (simp add: sgn_if)
    qed
    then show ?thesis using signs ne sc by (auto simp: unf)
  next
    case same
    then have ne: "\<not> (int (f64_exp b) = 0 \<and> f64_man b = 0)" by (simp add: f64_mag_0)
    have pos: "0 < A" "0 < f64_mag b" using same by (simp_all add: A_def)
    obtain m f where me: "js_bigint_get_mant_exp a = (m, f)" by fastforce
    note v = get_mant_exp_value [OF assms same(3) me, folded A_def]
    note mc = mag_compare [OF pos]
    let ?e = "int (f64_exp b) - 1023" and ?M = "(2 ^ 52 + f64_man b) * 2 ^ 11"
    define w where "w = push_bit 11 ((b AND (push_bit 52 1 - 1)) OR push_bit 52 1 :: limb)"
    have w: "unat w = ?M" unfolding w_def by (rule aligned_mantissa)
    have lt: "m < w \<longleftrightarrow> mant_of A < ?M" "m > w \<longleftrightarrow> ?M < mant_of A"
      by (simp_all add: word_less_nat_alt w v(1))
    have code: "js_bigint_float64_cmp a b = (if f \<noteq> ?e then (if f < ?e then - 1 else 1)
        else if m < w then 2 * of_bool (big_val a < 0) - 1
        else if m > w then 1 - 2 * of_bool (big_val a < 0) else 0)"
    proof -
      have n: "\<not> int (f64_exp b) = 2047" "\<not> (of_bool (big_val a < 0) :: int) \<noteq> of_bool (f64_neg b)"
        using same by simp_all
      show ?thesis
        unfolding unf me case_prod_conv w_def [symmetric] if_not_P [OF n(1)] if_not_P [OF n(2)] if_not_P [OF ne]
          if_not_P [OF same(3)] by (rule refl)
    qed
    have ex: "exponents_differ a b \<longleftrightarrow> f \<noteq> ?e" by (simp add: exponents_differ_def A_def [symmetric] v(2))
    define c where "c = sgn (int (A * 2 ^ 1074) - int (f64_mag b))"
    have c: "c = (if f < ?e then - 1 else if f > ?e then 1 else if m < w then - 1 else if m > w then 1 else 0)"
    proof -
      have lt': "A * 2 ^ 1074 < f64_mag b \<Longrightarrow> c = - 1" "f64_mag b < A * 2 ^ 1074 \<Longrightarrow> c = 1"
        "A * 2 ^ 1074 = f64_mag b \<Longrightarrow> c = 0" unfolding c_def by (simp_all add: sgn_if del: of_nat_mult of_nat_power)
      consider "f < ?e" | "?e < f" | "f = ?e" by linarith
      then show ?thesis
      proof cases
        case 3
        with mc(3) v(2) lt have "(m < w \<longleftrightarrow> A * 2 ^ 1074 < f64_mag b) \<and> (m > w \<longleftrightarrow> f64_mag b < A * 2 ^ 1074)" by blast
        with 3 lt' show ?thesis by (auto simp: not_less)
      qed (use lt' mc(1,2) v(2) in auto)
    qed
    have d: "sgn (big_val a * 2 ^ 1074 - f64_scaled b) = (if big_val a < 0 then - c else c)"
    proof (cases "big_val a < 0")
      case True
      then have "big_val a * 2 ^ 1074 - f64_scaled b = - (int (A * 2 ^ 1074) - int (f64_mag b))"
        using va same(4) sc by simp
      then show ?thesis using True unfolding c_def by (simp only: sgn_minus if_True)
    next
      case False
      then have "big_val a * 2 ^ 1074 - f64_scaled b = int (A * 2 ^ 1074) - int (f64_mag b)"
        using va same(4) sc by simp
      then show ?thesis using False unfolding c_def by (simp only: if_False)
    qed
    have sneg: "f64_scaled b < 0 \<longleftrightarrow> big_val a < 0" using same pos sc by simp
    show ?thesis unfolding d ex sneg Let_def code if_not_P [OF same(1)] c by (cases "big_val a < 0") auto
  qed
qed

section \<open>Conversion of a double to a BigInt\<close>

lemma big_val_small: "unat m < 2 ^ 63 \<Longrightarrow> big_val [m] = int (unat m)"
  by (simp add: big_val_def LB_def)

lemma big_val_small_neg:
  assumes "0 < unat m" "unat m < 2 ^ 63"
  shows "big_val [- m] = - int (unat m)"
proof -
  have "unat (- m) = LB - unat m" using assms by (simp add: unat_neg_limb)
  moreover have "LB \<le> 2 * (LB - unat m)" using assms by (simp add: LB_def)
  moreover have "unat m \<le> LB" using unat_less_LB [of m] by linarith
  ultimately show ?thesis by (simp add: big_val_def of_nat_diff)
qed

lemma set_bit_52: "unat ((b AND (push_bit 52 1 - 1)) OR push_bit 52 1 :: limb) = 2 ^ 52 + f64_man b"
  using push_or_limb [of 52 "b AND (push_bit 52 1 - 1)" 1] f64_fields(2) [of b] f64_man_less [of b]
  by (simp only: unat_1 or.commute) (simp add: LB_def)

definition from_float64_post :: "float64 \<Rightarrow> from_float64_result \<Rightarrow> bool" where
  "from_float64_post b x = (case x of
      FF_not_finite \<Rightarrow> f64_exp b = 2047
    | FF_not_integer \<Rightarrow> f64_exp b \<noteq> 2047 \<and> \<not> 2 ^ 1074 dvd f64_scaled b
    | FF_integer r \<Rightarrow> f64_exp b \<noteq> 2047 \<and> big_wf r \<and> big_val r * 2 ^ 1074 = f64_scaled b)"

lemma pow_dvd_int: "(2::int) ^ n dvd int x \<longleftrightarrow> 2 ^ n dvd x"
  by (metis of_nat_dvd_iff of_nat_numeral of_nat_power)

lemma f64_scaled_dvd: "2 ^ 1074 dvd f64_scaled b \<longleftrightarrow> 2 ^ 1074 dvd f64_mag b"
  by (simp only: f64_scaled_def dvd_minus_iff pow_dvd_int split: if_split) blast

lemma from_float64_not_integer:
  "f64_exp b \<noteq> 2047 \<Longrightarrow> \<not> 2 ^ 1074 dvd f64_mag b \<Longrightarrow> from_float64_post b FF_not_integer"
  by (simp only: from_float64_post_def f64_scaled_dvd from_float64_result.case) blast

lemma js_bigint_from_float64_spec:
  "js_spec (js_bigint_from_float64 b) (from_float64_post b) (\<lambda>_. False)"
proof -
  let ?e = "int (f64_exp b)"
  let ?w = "(b AND (push_bit 52 1 - 1)) OR push_bit 52 1 :: limb"
  let ?mm = "2 ^ 52 + f64_man b"
  have unf: "js_bigint_from_float64 b =
     (if ?e = 2047 then js_return FF_not_finite
      else if ?e = 0 \<and> f64_man b = 0 then js_bind (js_bigint_new_si 0) (\<lambda>r. js_return (FF_integer r))
      else if ?e - 1023 < 0 then js_return FF_not_integer
      else if ?e - 1023 < 52 \<and> ?w AND (push_bit (nat (52 - (?e - 1023))) 1 - 1) \<noteq> 0 then js_return FF_not_integer
      else (case (if ?e - 1023 < 52 then (drop_bit (nat (52 - (?e - 1023))) ?w, 0) else (?w, ?e - 1023 - 52)) of
         (mant, e) \<Rightarrow> js_bind (js_bigint_shl (js_bigint_set_si (if (of_bool (f64_neg b) :: limb) \<noteq> 0 then - mant else mant)) (nat e))
            (\<lambda>r. js_return (FF_integer r))))"
    unfolding js_bigint_from_float64_def Let_def f64_fields(1,3) f64_man_0 by (rule refl)
  have m0: "unat ?w = ?mm" by (rule set_bit_52)
  have shl: "js_spec (js_bind (js_bigint_shl (js_bigint_set_si (if (of_bool (f64_neg b) :: limb) \<noteq> 0 then - mant else mant)) n)
       (\<lambda>r. js_return (FF_integer r))) (from_float64_post b) (\<lambda>_. False)"
    if "0 < unat mant" "unat mant < 2 ^ 63" "unat mant * 2 ^ n * 2 ^ 1074 = f64_mag b" "f64_exp b \<noteq> 2047" "n < 1000"
    for mant :: limb and n
  proof (rule js_spec_bind [OF js_spec_conseq [OF js_bigint_shl_spec]])
    let ?x = "if (of_bool (f64_neg b) :: limb) \<noteq> 0 then - mant else mant"
    show "big_wf (js_bigint_set_si ?x)" by (simp add: js_bigint_set_si_def)
    fix e assume "e = too_large \<and> big_val (js_bigint_set_si ?x) \<noteq> 0 \<and> JS_BIGINT_MAX_SIZE < length (js_bigint_set_si ?x) + n div 64"
    moreover have "n div 64 \<le> 1000" using that(5) by simp
    ultimately show False by (simp add: js_bigint_set_si_def JS_BIGINT_MAX_SIZE_def)
  next
    let ?x = "if (of_bool (f64_neg b) :: limb) \<noteq> 0 then - mant else mant"
    fix r
    assume r: "represents r (big_val (js_bigint_set_si ?x) * 2 ^ n)"
    have x: "big_val (js_bigint_set_si ?x) = (if f64_neg b then - int (unat mant) else int (unat mant))"
      using big_val_small [OF that(2)] big_val_small_neg [OF that(1,2)] by (simp add: js_bigint_set_si_def)
    have "int (f64_mag b) = int (unat mant) * 2 ^ n * 2 ^ 1074" by (simp only: that(3) [symmetric] of_nat_mult of_nat_power of_nat_numeral)
    then have "big_val r * 2 ^ 1074 = f64_scaled b"
      using r x by (simp add: f64_scaled_def)
    then show "js_spec (js_return (FF_integer r)) (from_float64_post b) (\<lambda>_. False)"
      using r that(4) by (intro js_spec_return) (simp add: from_float64_post_def)
  qed simp
  show ?thesis
    unfolding unf
  proof (intro js_spec_if js_spec_return, goal_cases)
    case 2
    then have "f64_scaled b = 0" by (simp add: f64_scaled_def f64_mag_0)
    with 2 show ?case
      by (intro js_spec_bind [OF new_si_spec] js_spec_return) (simp add: from_float64_post_def)
  next
    case 3
    then have "f64_exp b \<le> 1022" by linarith
    then have "f64_mag b < 2 ^ 1074" by (rule f64_mag_small)
    moreover have "f64_mag b \<noteq> 0" unfolding f64_mag_0 using 3 by simp
    ultimately have "\<not> 2 ^ 1074 dvd f64_mag b" by (meson dvd_imp_le not_gr_zero not_le)
    moreover have "f64_exp b \<noteq> 2047" using 3 by linarith
    ultimately show ?case by (intro from_float64_not_integer)
  next
    case 4
    let ?k = "nat (52 - (?e - 1023))"
    have k: "?k < 64" "1074 = (f64_exp b - 1) + ?k" "f64_exp b \<noteq> 0" using 4 by linarith+
    have p1074: "(2::nat) ^ 1074 = 2 ^ (f64_exp b - 1) * 2 ^ ?k"
      by (simp only: power_add [symmetric] k(2) [symmetric])
    have "?w AND (push_bit ?k 1 - 1) = 0 \<longleftrightarrow> ?mm mod 2 ^ ?k = 0"
      using unat_and_mask [OF k(1), of ?w] m0 by (metis unat_eq_zero)
    with 4 have "\<not> 2 ^ ?k dvd ?mm" by (simp add: dvd_eq_mod_eq_0)
    moreover have "2 ^ 1074 dvd f64_mag b \<longleftrightarrow> 2 ^ ?k dvd ?mm"
    proof -
      have gen: "p * x dvd y * p \<longleftrightarrow> x dvd y" if "p \<noteq> 0" for p x y :: nat
        using that by (simp add: mult.commute)
      show ?thesis unfolding f64_mag_def if_not_P [OF k(3)] p1074 by (rule gen) simp
    qed
    moreover have "f64_exp b \<noteq> 2047" using 4 by linarith
    ultimately show ?case by (intro from_float64_not_integer) blast+
  next
    case 5
    then have e: "f64_exp b \<noteq> 2047" "1023 \<le> f64_exp b" by linarith+
    have ml: "?mm < 2 ^ 63" using f64_man_less [of b] by simp
    show ?case
    proof (cases "?e - 1023 < 52")
      case True
      let ?k = "nat (52 - (?e - 1023))"
      have k: "?k < 64" "1074 = (f64_exp b - 1) + ?k" "f64_exp b \<noteq> 0" using True e by linarith+
      have p1074: "(2::nat) ^ 1074 = 2 ^ ?k * 2 ^ (f64_exp b - 1)"
        by (simp only: power_add [symmetric] add.commute [of ?k] k(2) [symmetric])
      have "?mm mod 2 ^ ?k = 0"
        using 5 True unat_and_mask [OF k(1), of ?w] m0 by (metis unat_eq_zero)
      then have d: "?mm div 2 ^ ?k * 2 ^ ?k = ?mm" by (metis add.right_neutral div_mult_mod_eq)
      have u: "unat (drop_bit ?k ?w) = ?mm div 2 ^ ?k" by (simp only: unat_drop_bit_limb m0)
      have "0 < ?mm div 2 ^ ?k" using d by (metis add_is_0 bot_nat_0.not_eq_extremum mult_0 power_not_zero zero_neq_numeral)
      moreover have "?mm div 2 ^ ?k < 2 ^ 63" using ml by (meson div_le_dividend le_less_trans)
      moreover have "?mm div 2 ^ ?k * 2 ^ 0 * 2 ^ 1074 = f64_mag b"
        unfolding f64_mag_def if_not_P [OF k(3)] p1074 by (simp only: power_0 mult_1_right mult.assoc [symmetric] d)
      ultimately have "js_spec (js_bind (js_bigint_shl (js_bigint_set_si (if (of_bool (f64_neg b) :: limb) \<noteq> 0 then - drop_bit ?k ?w else drop_bit ?k ?w)) 0)
       (\<lambda>r. js_return (FF_integer r))) (from_float64_post b) (\<lambda>_. False)"
        using e(1) by (intro shl) (simp_all only: u simp_thms zero_less_numeral)
      then show ?thesis unfolding if_P [OF True] case_prod_conv nat_0 .
    next
      case False
      let ?n = "nat (?e - 1023 - 52)"
      have n: "f64_exp b - 1 = ?n + 1074" "f64_exp b \<noteq> 0" "?n < 1000" using False f64_exp_less [of b] by linarith+
      have "?mm * 2 ^ ?n * 2 ^ 1074 = f64_mag b"
        unfolding f64_mag_def if_not_P [OF n(2)] n(1) by (simp add: power_add)
      then have "js_spec (js_bind (js_bigint_shl (js_bigint_set_si (if (of_bool (f64_neg b) :: limb) \<noteq> 0 then - ?w else ?w)) ?n)
       (\<lambda>r. js_return (FF_integer r))) (from_float64_post b) (\<lambda>_. False)"
        using e(1) ml n(3) by (intro shl) (simp_all only: m0, simp_all)
      then show ?thesis unfolding if_not_P [OF False] case_prod_conv .
    qed
  qed (simp_all add: from_float64_post_def)
qed


section \<open>Small integers are represented exactly\<close>

lemma pack_float64_fields:
  assumes "e < 2 ^ 11" "m < 2 ^ 52"
  shows "f64_exp (pack_float64 s e m) = e" "f64_man (pack_float64 s e m) = m" "f64_neg (pack_float64 s e m) = s"
proof -
  have lt: "e * 2 ^ 52 + m < 2 ^ 63" using assms by simp
  then have "of_bool s * 2 ^ 63 + e * 2 ^ 52 + m < LB" by (cases s) (simp_all add: LB_def)
  then have u: "unat (pack_float64 s e m) = of_bool s * 2 ^ 63 + e * 2 ^ 52 + m"
    unfolding pack_float64_def by (rule unat_word_of_nat_limb)
  also have "\<dots> = m + (of_bool s * 2 ^ 11 + e) * 2 ^ 52" by (simp add: algebra_simps)
  finally have v: "unat (pack_float64 s e m) = m + (of_bool s * 2 ^ 11 + e) * 2 ^ 52" .
  have "unat (pack_float64 s e m) div 2 ^ 52 = of_bool s * 2 ^ 11 + e"
    unfolding v using assms(2) by (subst div_mult_self1) simp_all
  then show "f64_exp (pack_float64 s e m) = e" using assms(1) by (simp add: f64_exp_def)
  show "f64_man (pack_float64 s e m) = m" unfolding f64_man_def v using assms(2) by (subst mod_mult_self1) simp
  show "f64_neg (pack_float64 s e m) = s" unfolding f64_neg_def u using lt by (cases s) (simp_all add: LB_def)
qed

lemma pack_float64_scaled:
  assumes "0 < e" "e < 2047" "2 ^ 52 \<le> f" "f < 2 ^ 53"
  shows "f64_scaled (pack_float64 s e (f - 2 ^ 52)) = (if s then - int (f * 2 ^ (e - 1)) else int (f * 2 ^ (e - 1)))"
    "f64_exp (pack_float64 s e (f - 2 ^ 52)) = e"
proof -
  have l: "f - 2 ^ 52 < 2 ^ 52" "e < 2 ^ 11" using assms by simp_all
  note p = pack_float64_fields [OF l(2,1), of s]
  show "f64_exp (pack_float64 s e (f - 2 ^ 52)) = e" by (rule p)
  have "f64_mag (pack_float64 s e (f - 2 ^ 52)) = f * 2 ^ (e - 1)"
    using assms unfolding f64_mag_def p by simp
  then show "f64_scaled (pack_float64 s e (f - 2 ^ 52)) = (if s then - int (f * 2 ^ (e - 1)) else int (f * 2 ^ (e - 1)))"
    unfolding f64_scaled_def p by (simp only:)
qed

lemma int_to_float64_exact:
  assumes "\<bar>x\<bar> \<le> 2 ^ 53"
  shows "f64_scaled (int_to_float64 x) = x * 2 ^ 1074" "f64_exp (int_to_float64 x) \<noteq> 2047"
proof -
  define m where "m = nat \<bar>x\<bar>"
  have x: "x = (if x < 0 then - int m else int m)" by (simp add: m_def)
  have "f64_scaled (int_to_float64 x) = x * 2 ^ 1074 \<and> f64_exp (int_to_float64 x) \<noteq> 2047"
  proof (cases "m = 0")
    case True
    then show ?thesis using x
      by (simp add: int_to_float64_def f64_scaled_def f64_mag_def f64_exp_def f64_man_def f64_neg_def m_def)
  next
    case False
    note b = bit_len_bounds [of m, OF False [THEN neq0_conv [THEN iffD1]]]
    let ?e = "bit_len m - 1"
    define f where "f = (if ?e \<le> 52 then m * 2 ^ (52 - ?e) else round_even m (?e - 52))"
    define p where "p = (if f = 2 ^ 53 then (?e + 1, 2 ^ 52) else (?e, f))"
    have itf: "int_to_float64 x = (case p of (e, f) \<Rightarrow> if e > 1023 then pack_float64 (x < 0) 2047 0
        else pack_float64 (x < 0) (e + 1023) (f - 2 ^ 52))"
      unfolding int_to_float64_def m_def [symmetric] Let_def if_not_P [OF False] f_def [symmetric] p_def [symmetric] ..
    have m53: "m \<le> 2 ^ 53" using assms by (simp add: m_def)
    have pf: "fst p \<le> 53 \<and> 2 ^ 52 \<le> snd p \<and> snd p < 2 ^ 53 \<and> snd p * 2 ^ fst p = m * 2 ^ 52"
    proof (cases "?e \<le> 52")
      case True
      have P: "(2::nat) ^ 52 = 2 ^ ?e * 2 ^ (52 - ?e)" using True by (simp flip: power_add)
      have f: "f = m * 2 ^ (52 - ?e)" using True by (simp add: f_def)
      have "2 ^ ?e * 2 ^ (52 - ?e) \<le> m * 2 ^ (52 - ?e)" using b by (intro mult_le_mono1) simp
      then have lo: "2 ^ 52 \<le> f" unfolding f P .
      have "2 ^ bit_len m = 2 * (2::nat) ^ ?e" using b by (metis One_nat_def Suc_pred power_Suc)
      then have "m < 2 * 2 ^ ?e" using b by simp
      then have "m * 2 ^ (52 - ?e) < 2 * 2 ^ ?e * 2 ^ (52 - ?e)" by (intro mult_strict_right_mono) simp_all
      then have hi: "f < 2 ^ 53" unfolding f mult.assoc P [symmetric] by simp
      have "f * 2 ^ ?e = m * 2 ^ 52" unfolding f P by (simp only: ac_simps)
      with lo hi True show ?thesis by (simp add: p_def)
    next
      case False
      then have "(2::nat) ^ 53 \<le> 2 ^ ?e" by (intro power_increasing) simp_all
      with b m53 have m: "m = 2 ^ 53" by linarith
      then have bl: "bit_len m = Suc 53" by (intro bit_len_unique) simp_all
      then have "f = 2 ^ 52" unfolding f_def m by (simp add: round_even_def m)
      then show ?thesis using bl m by (simp add: p_def)
    qed
    obtain e g where p: "p = (e, g)" by fastforce
    with pf have e: "e \<le> 53" and g: "2 ^ 52 \<le> g" "g < 2 ^ 53" and eq: "g * 2 ^ e = m * 2 ^ 52" by simp_all
    have it: "int_to_float64 x = pack_float64 (x < 0) (e + 1023) (g - 2 ^ 52)" using e unfolding itf p by simp
    have "g * 2 ^ (e + 1023 - 1) = g * 2 ^ e * 2 ^ 1022" by (simp add: power_add)
    also have "\<dots> = m * 2 ^ 1074" unfolding eq by simp
    finally have v: "g * 2 ^ (e + 1023 - 1) = m * 2 ^ 1074" .
    have ee: "0 < e + 1023" "e + 1023 < 2047" using e by simp_all
    have "f64_scaled (int_to_float64 x) = (if x < 0 then - int (m * 2 ^ 1074) else int (m * 2 ^ 1074))"
      unfolding it pack_float64_scaled(1) [OF ee g] v ..
    also have "\<dots> = x * 2 ^ 1074"
    proof -
      have "int (m * 2 ^ 1074) = int m * 2 ^ 1074" by (simp only: of_nat_mult of_nat_power of_nat_numeral)
      then show ?thesis using x by (metis mult_minus_left)
    qed
    finally show ?thesis using e pack_float64_scaled(2) [OF ee g] unfolding it by simp
  qed
  then show "f64_scaled (int_to_float64 x) = x * 2 ^ 1074" "f64_exp (int_to_float64 x) \<noteq> 2047" by blast+
qed

section \<open>Properties\<close>

text \<open>C15: The conversion to a double rounds to nearest, ties to even, with overflow to infinity: the
  mantissa gathered from the limbs with its sticky bit yields the same pattern as the direct rounding
  of the integer.\<close>

theorem bigint_to_float64_correct:
  assumes "big_wf a"
  shows "js_bigint_to_float64 a = int_to_float64 (big_val a)"
  by (rule js_bigint_to_float64_value [OF assms])

theorem bigint_to_float64_witness: "js_bigint_to_float64 [- 3] = int_to_float64 (- 3)"
  using bigint_to_float64_correct [of "[- 3]"] by (simp add: big_val_single)

text \<open>C26: The conversion from a double never fails and classifies every pattern: NaN and infinities,
  numbers with a fractional part, and integers, whose exact value is the result.\<close>

theorem bigint_from_float64_correct:
  "js_spec (js_bigint_from_float64 b)
     (\<lambda>x. case x of FF_not_finite \<Rightarrow> f64_exp b = 2047
        | FF_not_integer \<Rightarrow> f64_exp b \<noteq> 2047 \<and> \<not> 2 ^ 1074 dvd f64_scaled b
        | FF_integer r \<Rightarrow> f64_exp b \<noteq> 2047 \<and> big_wf r \<and> big_val r * 2 ^ 1074 = f64_scaled b)
     (\<lambda>_. False)"
  using js_bigint_from_float64_spec [of b] unfolding from_float64_post_def .

text \<open>Round trip. A BigInt of magnitude at most \<open>2 ^ 53\<close> converted to a double and back is the same
  limb array.\<close>

theorem bigint_float64_roundtrip:
  assumes "big_wf a" "\<bar>big_val a\<bar> \<le> 2 ^ 53"
  shows "js_spec (js_bigint_from_float64 (js_bigint_to_float64 a)) (\<lambda>x. x = FF_integer a) (\<lambda>_. False)"
proof (rule js_spec_conseq [OF js_bigint_from_float64_spec])
  fix x
  let ?b = "js_bigint_to_float64 a"
  have b: "f64_scaled ?b = big_val a * 2 ^ 1074" "f64_exp ?b \<noteq> 2047"
    unfolding js_bigint_to_float64_value [OF assms(1)] by (rule int_to_float64_exact [OF assms(2)])+
  assume "from_float64_post ?b x"
  then obtain r where x: "x = FF_integer r" "big_wf r" "big_val r * 2 ^ 1074 = f64_scaled ?b"
    using b by (cases x) (auto simp only: from_float64_post_def from_float64_result.case dvd_triv_right simp_thms)
  then have "big_val r = big_val a" unfolding b by (simp only: mult_cancel_right power_not_zero) simp
  with x assms(1) show "x = FF_integer a" using represents_unique by blast
qed

theorem bigint_float64_roundtrip_witness:
  "js_spec (js_bigint_from_float64 (js_bigint_to_float64 [- 3])) (\<lambda>x. x = FF_integer [- 3]) (\<lambda>_. False)"
  using bigint_float64_roundtrip [of "[- 3]"] by (simp add: big_val_single)

text \<open>C27: The comparison of a BigInt with a double is exact, without rounding, unless both are
  negative and their binary exponents differ; NaN is unordered.\<close>

theorem bigint_float64_cmp_correct:
  assumes "big_wf a" "\<not> (big_val a < 0 \<and> f64_scaled b < 0 \<and> exponents_differ a b)"
  shows "js_bigint_float64_cmp a b =
    (if f64_exp b = 2047 then (if f64_man b \<noteq> 0 then 2 else if f64_neg b then 1 else - 1)
     else sgn (big_val a * 2 ^ 1074 - f64_scaled b))"
  unfolding js_bigint_float64_cmp_value [OF assms(1)] Let_def using assms(2) by (simp only: if_False)

theorem bigint_float64_cmp_witness: "js_bigint_float64_cmp [5] 0x3ff0000000000000 = 1"
proof -
  have f: "f64_exp 0x3ff0000000000000 = 1023" "f64_man 0x3ff0000000000000 = 0" "\<not> f64_neg 0x3ff0000000000000"
    by (simp_all add: f64_exp_def f64_man_def f64_neg_def LB_def)
  then have s: "f64_scaled 0x3ff0000000000000 = 2 ^ 1074" by (simp add: f64_scaled_def f64_mag_def)
  have b: "big_val [5] = 5" by (simp add: big_val_single)
  show ?thesis
    using bigint_float64_cmp_correct [of "[5]" "0x3ff0000000000000"] unfolding s b f(1) by simp
qed

text \<open>C28: When both are negative and their binary exponents differ, the comparison is inverted: the
  branch on the exponents returns the order of the magnitudes and ignores the sign, so that
  \<open>-5n < -100.5\<close> holds. This is a defect of the code.\<close>

theorem bigint_float64_cmp_negative_inverted:
  assumes "big_wf a" "f64_exp b \<noteq> 2047" "big_val a < 0" "f64_scaled b < 0" "exponents_differ a b"
  shows "js_bigint_float64_cmp a b = - sgn (big_val a * 2 ^ 1074 - f64_scaled b)"
  unfolding js_bigint_float64_cmp_value [OF assms(1)] Let_def using assms(2-) by (simp only: if_True if_False simp_thms)

theorem bigint_float64_cmp_negative_inverted_witness: "js_bigint_float64_cmp [- 5] 0xC059200000000000 = - 1"
proof -
  let ?b = "0xC059200000000000 :: float64"
  have f: "f64_exp ?b = 1029" "f64_man ?b = 0x9200000000000" "f64_neg ?b"
    by (simp_all add: f64_exp_def f64_man_def f64_neg_def LB_def)
  then have s: "f64_scaled ?b = - (0x19200000000000 * 2 ^ 1028)" by (simp add: f64_scaled_def f64_mag_def)
  have b: "big_val [- 5] = - 5" by (simp add: big_val_single)
  have "bit_len 5 = 3" by (simp add: bit_len.simps)
  then have "exponents_differ [- 5] ?b" by (simp add: exponents_differ_def b f)
  then show ?thesis
    using bigint_float64_cmp_negative_inverted [of "[- 5]" ?b] unfolding s b f(1) by simp
qed

end
