(* ===== verification/Sort.thy ===== *)
theory Sort
  imports Prelude "HOL-Library.Multiset"
begin

text \<open>
  The sorting routine of the engine (\<open>rqsort\<close>, \<open>heapsortx\<close> and \<open>med3\<close> of \<open>cutils.c\<close>): a quicksort with
  three-way partitioning and an explicit stack that falls back to heap sort for deep recursion and
  to insertion sort for small segments. An array is the list of its elements, positions count
  elements, and the comparison is a parameter as in the code; its sign is the answer.
\<close>

section \<open>The code\<close>

type_synonym 'a cmp_f = "'a \<Rightarrow> 'a \<Rightarrow> int"

definition exchange_one :: "'a list \<Rightarrow> nat \<Rightarrow> nat \<Rightarrow> 'a list" where
  "exchange_one base pa pb =
     (let t = base ! pa;
          base = base[pa := base ! pb]
      in base[pb := t])"

text \<open>The loop of the \<open>exchange_\<close> functions: \<open>n\<close> units at \<open>a\<close> and \<open>b\<close> are exchanged one by one.\<close>

fun exchange_block :: "'a list \<Rightarrow> nat \<Rightarrow> nat \<Rightarrow> nat \<Rightarrow> 'a list" where
  "exchange_block xs a b 0 = xs"
| "exchange_block xs a b (Suc n) = exchange_block (exchange_one xs a b) (Suc a) (Suc b) n"

text \<open>Sifting down in \<open>heapsortx\<close>: the heap is the first \<open>n\<close> elements.\<close>

function heap_sift :: "'a cmp_f \<Rightarrow> 'a list \<Rightarrow> nat \<Rightarrow> nat \<Rightarrow> 'a list" where
  "heap_sift cmp xs r n =
     (let c = r * 2 + 1
      in if c < n
         then
           (let c = (if c < n - 1 \<and> cmp (xs ! c) (xs ! (c + 1)) \<le> 0 then c + 1 else c)
            in if cmp (xs ! r) (xs ! c) > 0 then xs else heap_sift cmp (exchange_one xs r c) c n)
         else xs)"
  by auto
termination
  by (relation "measure (\<lambda>(cmp, xs, r, n). n - r)") (auto simp: Let_def split: if_splits)

declare heap_sift.simps [simp del]

fun heap_build :: "'a cmp_f \<Rightarrow> 'a list \<Rightarrow> nat \<Rightarrow> 'a list" where
  "heap_build cmp xs 0 = xs"
| "heap_build cmp xs (Suc i) = heap_build cmp (heap_sift cmp xs i (length xs)) i"

fun heap_extract :: "'a cmp_f \<Rightarrow> 'a list \<Rightarrow> nat \<Rightarrow> 'a list" where
  "heap_extract cmp xs 0 = xs"
| "heap_extract cmp xs (Suc i) = heap_extract cmp (heap_sift cmp (exchange_one xs 0 (Suc i)) 0 (Suc i)) i"

definition heapsortx :: "'a cmp_f \<Rightarrow> 'a list \<Rightarrow> 'a list" where
  "heapsortx cmp xs =
     (if length xs > 1
      then heap_extract cmp (heap_build cmp xs (length xs div 2)) (length xs - 1)
      else xs)"

definition med3 :: "'a cmp_f \<Rightarrow> 'a list \<Rightarrow> nat \<Rightarrow> nat \<Rightarrow> nat \<Rightarrow> nat" where
  "med3 cmp xs a b c =
     (if cmp (xs ! a) (xs ! b) < 0
      then (if cmp (xs ! b) (xs ! c) < 0 then b else if cmp (xs ! a) (xs ! c) < 0 then c else a)
      else (if cmp (xs ! b) (xs ! c) > 0 then b else if cmp (xs ! a) (xs ! c) < 0 then a else c))"

text \<open>The two inner loops of the partition. The pivot is element 0.\<close>

function scan_up :: "'a cmp_f \<Rightarrow> 'a list \<Rightarrow> nat \<Rightarrow> nat \<Rightarrow> nat \<Rightarrow> 'a list \<times> nat \<times> nat" where
  "scan_up cmp xs lt i pj =
     (if i < pj
      then
        (let c = cmp (xs ! 0) (xs ! i)
         in if c \<ge> 0
            then (if c = 0 then scan_up cmp (exchange_one xs lt i) (lt + 1) (i + 1) pj
                  else scan_up cmp xs lt (i + 1) pj)
            else (xs, lt, i))
      else (xs, lt, i))"
  by auto
termination
  by (relation "measure (\<lambda>(cmp, xs, lt, i, pj). pj - i)") auto

declare scan_up.simps [simp del]

fun scan_down :: "'a cmp_f \<Rightarrow> 'a list \<Rightarrow> nat \<Rightarrow> nat \<Rightarrow> nat \<Rightarrow> 'a list \<times> nat \<times> nat" where
  "scan_down cmp xs i gt 0 = (xs, gt, 0)"
| "scan_down cmp xs i gt (Suc pj) =
     (if i < pj
      then
        (let c = cmp (xs ! 0) (xs ! pj)
         in if c \<le> 0
            then (if c = 0 then scan_down cmp (exchange_one xs (gt - 1) pj) i (gt - 1) pj
                  else scan_down cmp xs i gt pj)
            else (xs, gt, pj))
      else (xs, gt, pj))"

lemma scan_up_stop: "\<not> i < pj \<or> cmp (xs ! 0) (xs ! i) < 0 \<Longrightarrow> scan_up cmp xs lt i pj = (xs, lt, i)"
  by (subst scan_up.simps) auto

lemma scan_up_equal:
  "i < pj \<Longrightarrow> cmp (xs ! 0) (xs ! i) = 0 \<Longrightarrow> scan_up cmp xs lt i pj = scan_up cmp (exchange_one xs lt i) (lt + 1) (i + 1) pj"
  by (subst scan_up.simps) auto

lemma scan_up_smaller:
  "i < pj \<Longrightarrow> cmp (xs ! 0) (xs ! i) > 0 \<Longrightarrow> scan_up cmp xs lt i pj = scan_up cmp xs lt (i + 1) pj"
  by (subst scan_up.simps) auto

lemma scan_up_induct [case_names stop equal smaller]:
  fixes cmp :: "'a cmp_f"
  assumes "\<And>xs lt i. \<not> i < pj \<or> cmp (xs ! 0) (xs ! i) < 0 \<Longrightarrow> P xs lt i"
    and "\<And>xs lt i. i < pj \<Longrightarrow> cmp (xs ! 0) (xs ! i) = 0 \<Longrightarrow> P (exchange_one xs lt i) (lt + 1) (i + 1) \<Longrightarrow> P xs lt i"
    and "\<And>xs lt i. i < pj \<Longrightarrow> cmp (xs ! 0) (xs ! i) > 0 \<Longrightarrow> P xs lt (i + 1) \<Longrightarrow> P xs lt i"
  shows "P xs lt (i::nat)"
proof (induction "pj - i" arbitrary: xs lt i rule: less_induct)
  case less
  consider "\<not> i < pj \<or> cmp (xs ! 0) (xs ! i) < 0" | "i < pj" "cmp (xs ! 0) (xs ! i) = 0"
    | "i < pj" "cmp (xs ! 0) (xs ! i) > 0" by linarith
  then show ?case
    by cases (use assms less in \<open>simp_all add: diff_less_mono2\<close>)
qed

lemma scan_up_le:
  "scan_up cmp xs lt i pj = (ys, lt', i') \<Longrightarrow> i \<le> i' \<and> (i \<le> pj \<longrightarrow> i' \<le> pj)"
  by (induction xs lt i rule: scan_up_induct [where pj = pj and cmp = cmp])
    (simp_all add: scan_up_stop scan_up_equal scan_up_smaller)

lemma scan_down_stop:
  "\<not> i < pj - 1 \<or> cmp (xs ! 0) (xs ! (pj - 1)) > 0 \<Longrightarrow> scan_down cmp xs i gt pj = (xs, gt, pj - 1)"
  by (cases pj) auto

lemma scan_down_equal:
  "i < pj - 1 \<Longrightarrow> cmp (xs ! 0) (xs ! (pj - 1)) = 0 \<Longrightarrow>
   scan_down cmp xs i gt pj = scan_down cmp (exchange_one xs (gt - 1) (pj - 1)) i (gt - 1) (pj - 1)"
  by (cases pj) auto

lemma scan_down_greater:
  "i < pj - 1 \<Longrightarrow> cmp (xs ! 0) (xs ! (pj - 1)) < 0 \<Longrightarrow> scan_down cmp xs i gt pj = scan_down cmp xs i gt (pj - 1)"
  by (cases pj) auto

lemma scan_down_induct [case_names stop equal greater]:
  fixes cmp :: "'a cmp_f"
  assumes "\<And>xs gt pj. \<not> i < pj - 1 \<or> cmp (xs ! 0) (xs ! (pj - 1)) > 0 \<Longrightarrow> P xs gt pj"
    and "\<And>xs gt pj. i < pj - 1 \<Longrightarrow> cmp (xs ! 0) (xs ! (pj - 1)) = 0 \<Longrightarrow>
           P (exchange_one xs (gt - 1) (pj - 1)) (gt - 1) (pj - 1) \<Longrightarrow> P xs gt pj"
    and "\<And>xs gt pj. i < pj - 1 \<Longrightarrow> cmp (xs ! 0) (xs ! (pj - 1)) < 0 \<Longrightarrow> P xs gt (pj - 1) \<Longrightarrow> P xs gt pj"
  shows "P xs gt (pj::nat)"
proof (induction pj arbitrary: xs gt rule: less_induct)
  case (less pj)
  consider "\<not> i < pj - 1 \<or> cmp (xs ! 0) (xs ! (pj - 1)) > 0" | "i < pj - 1" "cmp (xs ! 0) (xs ! (pj - 1)) = 0"
    | "i < pj - 1" "cmp (xs ! 0) (xs ! (pj - 1)) < 0" by linarith
  then show ?case
    by cases (use assms less in simp_all)
qed

lemma scan_down_le: "scan_down cmp xs i gt pj = (ys, gt', pj') \<Longrightarrow> pj' \<le> pj \<and> (0 < pj \<longrightarrow> pj' < pj)"
  by (induction xs gt pj rule: scan_down_induct [where i = i and cmp = cmp])
    (auto simp: scan_down_stop scan_down_equal scan_down_greater)

text \<open>The partition loop: elements, \<open>lt\<close>, \<open>i\<close> (which is \<open>pi\<close>), \<open>gt\<close> (which is \<open>pgt\<close>) and \<open>pj\<close>.\<close>

function rq_partition_loop :: "'a cmp_f \<Rightarrow> 'a list \<Rightarrow> nat \<Rightarrow> nat \<Rightarrow> nat \<Rightarrow> nat \<Rightarrow> 'a list \<times> nat \<times> nat \<times> nat" where
  "rq_partition_loop cmp xs lt i gt pj =
     (case scan_up cmp xs lt i pj of (xs1, lt1, i1) \<Rightarrow>
        (case scan_down cmp xs1 i1 gt pj of (xs2, gt1, pj1) \<Rightarrow>
           (if i1 \<ge> pj1 then (xs2, lt1, i1, gt1)
            else rq_partition_loop cmp (exchange_one xs2 i1 pj1) lt1 (i1 + 1) gt1 pj1)))"
  by auto
termination
  by (relation "measure (\<lambda>(cmp, xs, lt, i, gt, pj). pj)") (auto dest: scan_down_le [OF sym])

declare rq_partition_loop.simps [simp del]

definition rq_partition :: "'a cmp_f \<Rightarrow> 'a list \<Rightarrow> 'a list \<times> nat \<times> nat" where
  "rq_partition cmp xs =
     (let nmemb = length xs;
          m4 = nmemb div 4;
          m = med3 cmp xs m4 (2 * m4) (3 * m4);
          xs = exchange_one xs 0 m;
          (xs, lt, i, gt) = rq_partition_loop cmp xs 1 1 nmemb nmemb;
          span = min lt (i - lt);
          lt = i - lt;
          xs = exchange_block xs 0 (i - span) span;
          span = min (nmemb - gt) (gt - i);
          gt = nmemb - (gt - i);
          xs = exchange_block xs i (nmemb - span) span
      in (xs, lt, gt))"

fun insert_down :: "'a cmp_f \<Rightarrow> 'a list \<Rightarrow> nat \<Rightarrow> 'a list" where
  "insert_down cmp xs 0 = xs"
| "insert_down cmp xs (Suc j) =
     (if cmp (xs ! j) (xs ! Suc j) > 0 then insert_down cmp (exchange_one xs (Suc j) j) j else xs)"

fun insertion_sort_loop :: "'a cmp_f \<Rightarrow> 'a list \<Rightarrow> nat \<Rightarrow> nat \<Rightarrow> 'a list" where
  "insertion_sort_loop cmp xs i 0 = xs"
| "insertion_sort_loop cmp xs i (Suc k) = insertion_sort_loop cmp (insert_down cmp xs i) (Suc i) k"

definition insertion_sort :: "'a cmp_f \<Rightarrow> 'a list \<Rightarrow> 'a list" where
  "insertion_sort cmp xs = insertion_sort_loop cmp xs 1 (length xs - 1)"

section \<open>Permutations\<close>

lemma exchange_one_length [simp]: "length (exchange_one xs i j) = length xs"
  by (simp add: exchange_one_def Let_def)

lemma exchange_one_mset [simp]: "i < length xs \<Longrightarrow> j < length xs \<Longrightarrow> mset (exchange_one xs i j) = mset xs"
  by (simp add: exchange_one_def Let_def mset_swap)

lemma exchange_one_nth:
  assumes "i < length xs" "j < length xs"
  shows "exchange_one xs i j ! k = xs ! (if k = j then i else if k = i then j else k)"
  using assms by (simp add: exchange_one_def Let_def nth_list_update)

lemma length_exchange_block [simp]: "length (exchange_block xs a b n) = length xs"
  by (induction xs a b n rule: exchange_block.induct) auto

lemma mset_exchange_block [simp]:
  "a + n \<le> length xs \<Longrightarrow> b + n \<le> length xs \<Longrightarrow> mset (exchange_block xs a b n) = mset xs"
  by (induction xs a b n rule: exchange_block.induct) auto

lemma nth_exchange_block:
  "a + n \<le> b \<Longrightarrow> b + n \<le> length xs \<Longrightarrow> exchange_block xs a b n ! k =
     (if a \<le> k \<and> k < a + n then xs ! (k - a + b) else if b \<le> k \<and> k < b + n then xs ! (k - b + a) else xs ! k)"
proof (induction xs a b n arbitrary: k rule: exchange_block.induct)
  case (2 xs a b n)
  have i: "a < length xs" "b < length xs" using 2 by auto
  have e: "exchange_block xs a b (Suc n) ! k =
     (if Suc a \<le> k \<and> k < Suc a + n then exchange_one xs a b ! (k - Suc a + Suc b)
      else if Suc b \<le> k \<and> k < Suc b + n then exchange_one xs a b ! (k - Suc b + Suc a) else exchange_one xs a b ! k)"
    using 2 by simp
  show ?case
    unfolding e exchange_one_nth [OF i] using 2(2)
    by (cases "k = a"; cases "k = b"; cases "Suc a \<le> k \<and> k < Suc a + n"; cases "Suc b \<le> k \<and> k < Suc b + n")
      (auto simp: Suc_diff_Suc)
qed auto

lemma heap_sift_perm [simp]:
  "n \<le> length xs \<Longrightarrow> r < length xs \<Longrightarrow> mset (heap_sift cmp xs r n) = mset xs"
  by (induction cmp xs r n rule: heap_sift.induct) (subst heap_sift.simps, auto simp: Let_def)

lemma heap_sift_length [simp]: "length (heap_sift cmp xs r n) = length xs"
  by (induction cmp xs r n rule: heap_sift.induct) (subst heap_sift.simps, auto simp: Let_def)

lemma heap_build_length [simp]: "length (heap_build cmp xs i) = length xs"
  by (induction cmp xs i rule: heap_build.induct) auto

lemma heap_build_perm [simp]: "i \<le> length xs \<Longrightarrow> mset (heap_build cmp xs i) = mset xs"
  by (induction cmp xs i rule: heap_build.induct) auto

lemma heap_extract_length [simp]: "length (heap_extract cmp xs i) = length xs"
  by (induction cmp xs i rule: heap_extract.induct) auto

lemma heap_extract_perm [simp]: "i < length xs \<Longrightarrow> mset (heap_extract cmp xs i) = mset xs"
proof (induction cmp xs i rule: heap_extract.induct)
  case (2 cmp xs i)
  moreover have "0 < length xs" using 2(2) by linarith
  ultimately show ?case by simp
qed simp

lemma heapsortx_perm [simp]: "mset (heapsortx cmp xs) = mset xs" "length (heapsortx cmp xs) = length xs"
  by (simp_all add: heapsortx_def)

lemma insert_down_perm [simp]:
  "j < length xs \<Longrightarrow> mset (insert_down cmp xs j) = mset xs" "length (insert_down cmp xs j) = length xs"
  by (induction cmp xs j rule: insert_down.induct) auto

lemma insertion_sort_loop_perm [simp]:
  "i + k \<le> length xs \<Longrightarrow> mset (insertion_sort_loop cmp xs i k) = mset xs"
  "length (insertion_sort_loop cmp xs i k) = length xs"
  by (induction cmp xs i k rule: insertion_sort_loop.induct) auto

lemma insertion_sort_perm [simp]:
  "mset (insertion_sort cmp xs) = mset xs" "length (insertion_sort cmp xs) = length xs"
  by (cases xs; simp add: insertion_sort_def)+

section \<open>The partition\<close>

text \<open>
  The invariant of the partition loop around the pivot \<open>p\<close> and what it leaves when the two scans
  have met (the comment after the loop in the code).
\<close>

definition rq_parts :: "'a cmp_f \<Rightarrow> 'a \<Rightarrow> 'a list \<Rightarrow> nat \<Rightarrow> nat \<Rightarrow> nat \<Rightarrow> nat \<Rightarrow> bool" where
  "rq_parts cmp p xs lt i pj gt \<longleftrightarrow>
     1 \<le> lt \<and> lt \<le> i \<and> i \<le> pj \<and> pj \<le> gt \<and> gt \<le> length xs \<and> xs ! 0 = p \<and>
     (\<forall>k<length xs.
        (1 \<le> k \<and> k < lt \<longrightarrow> cmp p (xs ! k) = 0) \<and>
        (lt \<le> k \<and> k < i \<longrightarrow> cmp p (xs ! k) > 0) \<and>
        (pj \<le> k \<and> k < gt \<longrightarrow> cmp p (xs ! k) < 0) \<and>
        (gt \<le> k \<longrightarrow> cmp p (xs ! k) = 0))"

lemma rq_parts_swap_up:
  assumes "rq_parts cmp p xs lt i pj gt" "i < pj" "cmp p (xs ! i) = 0"
  shows "rq_parts cmp p (exchange_one xs lt i) (lt + 1) (i + 1) pj gt"
  using assms unfolding rq_parts_def by (auto simp: exchange_one_nth)

lemma rq_parts_smaller:
  assumes "rq_parts cmp p xs lt i pj gt" "i < pj" "cmp p (xs ! i) > 0"
  shows "rq_parts cmp p xs lt (i + 1) pj gt"
  using assms unfolding rq_parts_def by (auto simp: less_Suc_eq)

lemma rq_parts_swap_down:
  assumes "rq_parts cmp p xs lt i pj gt" "i < pj - 1" "cmp p (xs ! (pj - 1)) = 0"
  shows "rq_parts cmp p (exchange_one xs (gt - 1) (pj - 1)) lt i (pj - 1) (gt - 1)"
proof -
  obtain j g where [simp]: "pj = Suc j" "gt = Suc g"
    using assms(1,2) by (cases pj; cases gt) (auto simp: rq_parts_def)
  have "j \<le> k \<and> k < g \<longrightarrow> k = j \<or> Suc j \<le> k" for k by auto
  with assms show ?thesis
    unfolding rq_parts_def by (auto simp: exchange_one_nth less_Suc_eq)
qed

lemma rq_parts_greater:
  assumes "rq_parts cmp p xs lt i pj gt" "i < pj" "cmp p (xs ! (pj - 1)) < 0"
  shows "rq_parts cmp p xs lt i (pj - 1) gt"
proof -
  have "cmp p (xs ! k) < 0" if "pj - 1 \<le> k" "k < gt" for k
  proof (cases "k = pj - 1")
    case False
    with assms that show ?thesis unfolding rq_parts_def by auto
  qed (use assms in simp)
  with assms show ?thesis unfolding rq_parts_def by auto
qed

lemma scan_up_parts:
  "rq_parts cmp p xs lt i pj gt \<Longrightarrow> scan_up cmp xs lt i pj = (ys, lt', i') \<Longrightarrow>
   rq_parts cmp p ys lt' i' pj gt \<and> (i' = pj \<or> cmp p (ys ! i') < 0) \<and> mset ys = mset xs \<and> length ys = length xs"
proof (induction xs lt i rule: scan_up_induct [where pj = pj and cmp = cmp])
  case (stop xs lt i)
  then show ?case by (auto simp: scan_up_stop rq_parts_def)
next
  case (equal xs lt i)
  then have p: "cmp p (xs ! i) = 0" "i < length xs" "lt < length xs" by (auto simp: rq_parts_def)
  show ?case
    using equal(3) [OF rq_parts_swap_up [OF equal(4) equal(1) p(1)]] equal p
    by (simp add: scan_up_equal)
next
  case (smaller xs lt i)
  then have p: "cmp p (xs ! i) > 0" by (auto simp: rq_parts_def)
  show ?case
    using smaller(3) [OF rq_parts_smaller [OF smaller(4) smaller(1) p]] smaller
    by (simp add: scan_up_smaller)
qed

lemma scan_down_parts:
  "rq_parts cmp p xs lt i pj gt \<Longrightarrow> i = pj \<or> cmp p (xs ! i) < 0 \<Longrightarrow>
   scan_down cmp xs i gt pj = (ys, gt', pj') \<Longrightarrow>
   mset ys = mset xs \<and> length ys = length xs \<and>
   (if i < pj' then rq_parts cmp p ys lt i (pj' + 1) gt' \<and> cmp p (ys ! i) < 0 \<and> cmp p (ys ! pj') > 0
    else rq_parts cmp p ys lt i i gt')"
proof (induction xs gt pj rule: scan_down_induct [where i = i and cmp = cmp])
  case (stop xs gt pj)
  show ?case
  proof (cases "i < pj - 1")
    case True
    with stop show ?thesis by (auto simp: scan_down_stop rq_parts_def)
  next
    case False
    moreover have "i \<le> pj" using stop(2) by (simp add: rq_parts_def)
    ultimately consider "i = pj" | "i < pj" "pj = i + 1" by linarith
    then show ?thesis
      by cases (use stop rq_parts_greater [of cmp p xs lt i pj gt] in \<open>auto simp: scan_down_stop\<close>)
  qed
next
  case (equal xs gt pj)
  have p: "cmp p (xs ! (pj - 1)) = 0" "pj - 1 < length xs" "gt - 1 < length xs" "i < gt - 1" "i < length xs"
    "cmp p (xs ! i) < 0"
    using equal by (auto simp: rq_parts_def)
  have i: "exchange_one xs (gt - 1) (pj - 1) ! i = xs ! i" using p equal(1) by (simp add: exchange_one_nth)
  show ?case
    using equal(3) [OF rq_parts_swap_down [OF equal(4) equal(1) p(1)]] equal p i
    by (auto simp: scan_down_equal split: if_splits)
next
  case (greater xs gt pj)
  have p: "cmp p (xs ! (pj - 1)) < 0" "i < pj" "cmp p (xs ! i) < 0" using greater by (auto simp: rq_parts_def)
  show ?case
    using greater(3) [OF rq_parts_greater [OF greater(4) p(2) p(1)]] greater p
    by (auto simp: scan_down_greater split: if_splits)
qed

lemma rq_partition_loop_parts:
  "rq_parts cmp p xs lt i pj gt \<Longrightarrow> rq_partition_loop cmp xs lt i gt pj = (ys, lt', i', gt') \<Longrightarrow>
   rq_parts cmp p ys lt' i' i' gt' \<and> mset ys = mset xs \<and> length ys = length xs"
proof (induction cmp xs lt i gt pj arbitrary: ys lt' i' gt' rule: rq_partition_loop.induct)
  case (1 cmp xs lt i gt pj)
  obtain xs1 lt1 i1 where u: "scan_up cmp xs lt i pj = (xs1, lt1, i1)" by (cases "scan_up cmp xs lt i pj")
  obtain xs2 gt1 pj1 where d: "scan_down cmp xs1 i1 gt pj = (xs2, gt1, pj1)"
    by (cases "scan_down cmp xs1 i1 gt pj")
  note U = scan_up_parts [OF "1.prems"(1) u]
  have "rq_parts cmp p xs1 lt1 i1 pj gt" "i1 = pj \<or> cmp p (xs1 ! i1) < 0" using U by auto
  note D = scan_down_parts [OF this d]
  show ?case
  proof (cases "i1 < pj1")
    case False
    with "1.prems"(2) U D show ?thesis
      by (subst (asm) rq_partition_loop.simps) (simp add: u d)
  next
    case True
    with D have P: "rq_parts cmp p xs2 lt1 i1 (pj1 + 1) gt1" "cmp p (xs2 ! i1) < 0" "cmp p (xs2 ! pj1) > 0"
      by auto
    then have b: "i1 < length xs2" "pj1 < length xs2" using True by (auto simp: rq_parts_def)
    have "rq_parts cmp p (exchange_one xs2 i1 pj1) lt1 (i1 + 1) pj1 gt1"
      using P True b unfolding rq_parts_def by (auto simp: exchange_one_nth less_Suc_eq)
    moreover have "rq_partition_loop cmp (exchange_one xs2 i1 pj1) lt1 (i1 + 1) gt1 pj1 = (ys, lt', i', gt')"
      using "1.prems"(2) True by (subst (asm) rq_partition_loop.simps) (simp add: u d)
    ultimately show ?thesis
      using "1.IH" [OF u [symmetric] refl d [symmetric] refl] True U D b by auto
  qed
qed

text \<open>
  The three parts that \<open>rq_partition\<close> leaves: smaller than the pivot, identical to it, greater.
\<close>

definition rq_partitioned :: "'a cmp_f \<Rightarrow> 'a \<Rightarrow> 'a list \<Rightarrow> nat \<Rightarrow> nat \<Rightarrow> bool" where
  "rq_partitioned cmp p xs lt gt \<longleftrightarrow>
     lt < gt \<and> gt \<le> length xs \<and>
     (\<forall>k<length xs.
        (k < lt \<longrightarrow> cmp p (xs ! k) > 0) \<and>
        (lt \<le> k \<and> k < gt \<longrightarrow> xs ! k = p \<or> cmp p (xs ! k) = 0) \<and>
        (gt \<le> k \<longrightarrow> cmp p (xs ! k) < 0))"

lemma rq_exchange_low:
  assumes P: "rq_parts cmp p xs lt i i gt" and ys: "ys = exchange_block xs 0 (i - min lt (i - lt)) (min lt (i - lt))"
  shows "mset ys = mset xs \<and> length ys = length xs \<and>
    (\<forall>k<length ys. (k < i - lt \<longrightarrow> cmp p (ys ! k) > 0) \<and>
       (i - lt \<le> k \<and> k < i \<longrightarrow> ys ! k = p \<or> cmp p (ys ! k) = 0) \<and>
       (i \<le> k \<longrightarrow> ys ! k = xs ! k))"
proof -
  have b: "lt \<le> i" "i \<le> length xs" "1 \<le> lt" using P by (auto simp: rq_parts_def)
  have eq: "xs ! k = p \<or> cmp p (xs ! k) = 0" if "k < lt" for k
    using P that by (cases k) (auto simp: rq_parts_def)
  have sm: "cmp p (xs ! k) > 0" if "lt \<le> k" "k < i" for k
    using P that by (auto simp: rq_parts_def)
  have n: "ys ! k = (if k < min lt (i - lt) then xs ! (k + (i - min lt (i - lt)))
      else if i - min lt (i - lt) \<le> k \<and> k < i then xs ! (k - (i - min lt (i - lt))) else xs ! k)" for k
    unfolding ys using b by (subst nth_exchange_block) auto
  have "mset ys = mset xs \<and> length ys = length xs" unfolding ys using b by simp
  moreover have "cmp p (ys ! k) > 0" if "k < i - lt" for k
    using that b unfolding n by (auto intro!: sm split: if_splits)
  moreover have "ys ! k = p \<or> cmp p (ys ! k) = 0" if "i - lt \<le> k" "k < i" for k
    using that b unfolding n by (auto intro!: eq simp del: disj_imp split: if_splits)
  moreover have "ys ! k = xs ! k" if "i \<le> k" for k
    using that b unfolding n by auto
  ultimately show ?thesis by blast
qed

lemma rq_exchange_high:
  assumes P: "rq_parts cmp p zs lt i i gt" and len: "length xs = length zs" and xs: "\<And>k. i \<le> k \<Longrightarrow> k < length xs \<Longrightarrow> xs ! k = zs ! k"
    and s: "s = min (length xs - gt) (gt - i)" and ys: "ys = exchange_block xs i (length xs - s) s"
  shows "mset ys = mset xs \<and> length ys = length xs \<and>
    (\<forall>k<length ys. (k < i \<longrightarrow> ys ! k = xs ! k) \<and>
       (i \<le> k \<and> k < length xs - (gt - i) \<longrightarrow> cmp p (ys ! k) = 0) \<and>
       (length xs - (gt - i) \<le> k \<longrightarrow> cmp p (ys ! k) < 0))"
proof -
  have b: "i \<le> gt" "gt \<le> length xs" using P len by (auto simp: rq_parts_def)
  then have s2: "s \<le> length xs" "i + s \<le> length xs - s" "length xs - s + s \<le> length xs" using s by linarith+
  have eq: "cmp p (xs ! k) = 0" if "gt \<le> k" "k < length xs" for k
    using P that len xs b by (auto simp: rq_parts_def)
  have gr: "cmp p (xs ! k) < 0" if "i \<le> k" "k < gt" for k
    using P that len xs b by (auto simp: rq_parts_def)
  have n: "ys ! k = (if i \<le> k \<and> k < i + s then xs ! (k - i + (length xs - s))
      else if length xs - s \<le> k \<and> k < length xs then xs ! (k - (length xs - s) + i) else xs ! k)" for k
    unfolding ys using b s2 by (subst nth_exchange_block) auto
  have "mset ys = mset xs \<and> length ys = length xs" unfolding ys using b s2 by simp
  moreover have "ys ! k = xs ! k" if "k < i" for k
    using that b s unfolding n by auto
  moreover have "cmp p (ys ! k) = 0" if "i \<le> k" "k < length xs - (gt - i)" for k
  proof (cases "k < i + s")
    case True
    then have "ys ! k = xs ! (k - i + (length xs - s))" using that unfolding n by simp
    moreover have "gt \<le> k - i + (length xs - s)" "k - i + (length xs - s) < length xs"
      using True that b s s2 by linarith+
    ultimately show ?thesis using eq by simp
  next
    case False
    have "\<not> length xs - s \<le> k" "gt \<le> k" using False that b s s2 by linarith+
    then show ?thesis using that b eq [of k] unfolding n using False by simp
  qed
  moreover have "cmp p (ys ! k) < 0" if "length xs - (gt - i) \<le> k" "k < length xs" for k
  proof (cases "length xs - s \<le> k")
    case True
    then have "\<not> k < i + s" using s2 by linarith
    then have "ys ! k = xs ! (k - (length xs - s) + i)" using that True unfolding n by simp
    moreover have "k - (length xs - s) + i < gt" using True that b s s2 by linarith
    ultimately show ?thesis using gr by simp
  next
    case False
    have "\<not> k < i + s" "k < gt" "i \<le> k" using False that b s s2 by linarith+
    then show ?thesis using that b gr [of k] unfolding n using False by simp
  qed
  ultimately show ?thesis by auto
qed

lemma rq_parts_start: "xs \<noteq> [] \<Longrightarrow> rq_parts cmp (xs ! 0) xs 1 1 (length xs) (length xs)"
  by (cases xs) (auto simp: rq_parts_def)

lemma med3_less: "a < n \<Longrightarrow> b < n \<Longrightarrow> c < n \<Longrightarrow> med3 cmp xs a b c < n"
  by (simp add: med3_def)

lemma rq_partition_spec:
  assumes part: "rq_partition cmp xs = (ys, lt, gt)" and ne: "xs \<noteq> []"
  shows "mset ys = mset xs \<and> length ys = length xs \<and> (\<exists>p. rq_partitioned cmp p ys lt gt)"
proof -
  define m where "m = med3 cmp xs (length xs div 4) (2 * (length xs div 4)) (3 * (length xs div 4))"
  define x0 where "x0 = exchange_one xs 0 m"
  obtain x1 lt0 i gt0 where loop: "rq_partition_loop cmp x0 1 1 (length xs) (length xs) = (x1, lt0, i, gt0)"
    by (metis prod_cases4)
  define x2 where "x2 = exchange_block x1 0 (i - min lt0 (i - lt0)) (min lt0 (i - lt0))"
  define s where "s = min (length xs - gt0) (gt0 - i)"
  define x3 where "x3 = exchange_block x2 i (length xs - s) s"
  have m: "m < length xs" unfolding m_def by (rule med3_less) (use ne in \<open>cases xs; simp\<close>)+
  have x0: "mset x0 = mset xs" "length x0 = length xs" "x0 \<noteq> []"
    using m ne unfolding x0_def by (simp_all flip: length_greater_0_conv)
  have L: "rq_parts cmp (x0 ! 0) x1 lt0 i i gt0" "mset x1 = mset xs" "length x1 = length xs"
    using rq_partition_loop_parts [OF rq_parts_start [OF x0(3)], of cmp x1 lt0 i gt0] loop x0 by auto
  note low = rq_exchange_low [OF L(1) x2_def]
  have l2: "length x2 = length xs" "mset x2 = mset xs" using low L by auto
  have "x2 ! k = x1 ! k" if "i \<le> k" "k < length x2" for k
    using low that l2 by auto
  then have high: "mset x3 = mset x2 \<and> length x3 = length x2 \<and>
    (\<forall>k<length x3. (k < i \<longrightarrow> x3 ! k = x2 ! k) \<and>
       (i \<le> k \<and> k < length x2 - (gt0 - i) \<longrightarrow> cmp (x0 ! 0) (x3 ! k) = 0) \<and>
       (length x2 - (gt0 - i) \<le> k \<longrightarrow> cmp (x0 ! 0) (x3 ! k) < 0))"
    by (intro rq_exchange_high [OF L(1)]) (simp_all add: l2 L s_def x3_def)
  have out: "ys = x3" "lt = i - lt0" "gt = length xs - (gt0 - i)"
    using part unfolding rq_partition_def
    by (simp_all add: Let_def loop [unfolded One_nat_def] flip: m_def x0_def x2_def s_def x3_def)
  have b: "1 \<le> lt0" "lt0 \<le> i" "i \<le> gt0" "gt0 \<le> length xs" using L by (auto simp: rq_parts_def)
  have "rq_partitioned cmp (x0 ! 0) ys lt gt"
    unfolding rq_partitioned_def out
  proof (intro conjI allI impI)
    fix k assume k: "k < length x3"
    show "cmp (x0 ! 0) (x3 ! k) > 0" if "k < i - lt0" using k that low high l2 b by auto
    show "x3 ! k = x0 ! 0 \<or> cmp (x0 ! 0) (x3 ! k) = 0" if "i - lt0 \<le> k \<and> k < length xs - (gt0 - i)"
      using k that low high l2 b by (cases "k < i") auto
    show "cmp (x0 ! 0) (x3 ! k) < 0" if "length xs - (gt0 - i) \<le> k" using k that high l2 by auto
  qed (use b high l2 in auto)
  with out high l2 show ?thesis by auto
qed

end
