(* ===== verification/SortDriver.thy ===== *)
theory SortDriver
  imports Sort
begin

text \<open>
  The driver of the sort (\<open>rqsort\<close> of \<open>cutils.c\<close>): its explicit stack of segments, its termination,
  and the order of the result for every comparison that is a total preorder.
\<close>

section \<open>The code\<close>

lemma rq_partition_bounds:
  assumes "rq_partition cmp (array_slice xs ptr nmemb) = (seg, lt, gt)" "6 < nmemb" "ptr + nmemb \<le> length xs"
  shows "lt < gt \<and> gt \<le> nmemb \<and> length seg = nmemb \<and> mset seg = mset (array_slice xs ptr nmemb)"
proof -
  have "array_slice xs ptr nmemb \<noteq> []" "length (array_slice xs ptr nmemb) = nmemb"
    using assms by (auto simp flip: length_0_conv)
  then show ?thesis
    using rq_partition_spec [OF assms(1)] by (auto simp: rq_partitioned_def)
qed

record rq_frame =
  fr_base :: nat
  fr_count :: nat
  fr_depth :: nat

definition RQ_STACK_SIZE :: nat where
  "RQ_STACK_SIZE = 50"

text \<open>
  A store in the fixed array \<open>stack\<close>: the model has the outcome \<open>None\<close> where the C code would write
  past its end, and likewise for a segment that leaves the array.
\<close>

definition rq_push :: "rq_frame list \<Rightarrow> rq_frame \<Rightarrow> rq_frame list option" where
  "rq_push stack f = (if length stack < RQ_STACK_SIZE then Some (f # stack) else None)"

function rq_split ::
  "'a cmp_f \<Rightarrow> 'a list \<Rightarrow> rq_frame list \<Rightarrow> nat \<Rightarrow> nat \<Rightarrow> nat \<Rightarrow> ('a list \<times> rq_frame list \<times> nat \<times> nat) option" where
  "rq_split cmp xs stack ptr nmemb depth =
     (if ptr + nmemb > length xs then None
      else if nmemb > 6
      then
        (let depth = depth + 1
         in if depth > 50
            then Some (blit xs ptr (heapsortx cmp (array_slice xs ptr nmemb)), stack, ptr, 0)
            else
              (case rq_partition cmp (array_slice xs ptr nmemb) of
                 (seg, lt, gt) \<Rightarrow>
                   (let xs = blit xs ptr seg
                    in if lt > nmemb - gt
                       then (case rq_push stack \<lparr>fr_base = ptr, fr_count = lt, fr_depth = depth\<rparr> of
                               None \<Rightarrow> None
                             | Some stack \<Rightarrow> rq_split cmp xs stack (ptr + gt) (nmemb - gt) depth)
                       else (case rq_push stack \<lparr>fr_base = ptr + gt, fr_count = nmemb - gt, fr_depth = depth\<rparr> of
                               None \<Rightarrow> None
                             | Some stack \<Rightarrow> rq_split cmp xs stack ptr lt depth))))
      else Some (xs, stack, ptr, nmemb))"
  by auto
termination
  by (relation "measure (\<lambda>(cmp, xs, stack, ptr, nmemb, depth). nmemb)")
    (auto dest: rq_partition_bounds [OF sym])

declare rq_split.simps [simp del]

definition rq_work :: "rq_frame list \<Rightarrow> nat" where
  "rq_work stack = (\<Sum>f\<leftarrow>stack. 2 * fr_count f + 1)"

lemma rq_work_simps [simp]:
  "rq_work [] = 0" "rq_work (f # stack) = 2 * fr_count f + 1 + rq_work stack"
  by (simp_all add: rq_work_def)

text \<open>The outcomes of one step of \<open>rq_split\<close>.\<close>

lemma rq_split_cases [consumes 1, case_names outside heapsort low high small]:
  assumes "rq_split cmp xs stack ptr nmemb depth = r"
  obtains "ptr + nmemb > length xs" "r = None"
  | "ptr + nmemb \<le> length xs" "nmemb > 6" "50 \<le> depth"
      "r = Some (blit xs ptr (heapsortx cmp (array_slice xs ptr nmemb)), stack, ptr, 0)"
  | seg lt gt where "ptr + nmemb \<le> length xs" "nmemb > 6" "depth < 50"
      "rq_partition cmp (array_slice xs ptr nmemb) = (seg, lt, gt)" "lt > nmemb - gt"
      "r = (case rq_push stack \<lparr>fr_base = ptr, fr_count = lt, fr_depth = depth + 1\<rparr> of None \<Rightarrow> None
            | Some stack \<Rightarrow> rq_split cmp (blit xs ptr seg) stack (ptr + gt) (nmemb - gt) (depth + 1))"
  | seg lt gt where "ptr + nmemb \<le> length xs" "nmemb > 6" "depth < 50"
      "rq_partition cmp (array_slice xs ptr nmemb) = (seg, lt, gt)" "\<not> lt > nmemb - gt"
      "r = (case rq_push stack \<lparr>fr_base = ptr + gt, fr_count = nmemb - gt, fr_depth = depth + 1\<rparr> of None \<Rightarrow> None
            | Some stack \<Rightarrow> rq_split cmp (blit xs ptr seg) stack ptr lt (depth + 1))"
  | "ptr + nmemb \<le> length xs" "nmemb \<le> 6" "r = Some (xs, stack, ptr, nmemb)"
  using assms [unfolded rq_split.simps [of cmp xs stack ptr nmemb depth] Let_def]
  by (cases "rq_partition cmp (array_slice xs ptr nmemb)"; auto simp: not_less split: if_splits)

lemma rq_split_work:
  "rq_split cmp xs stack ptr nmemb depth = Some (xs', stack', ptr', nmemb') \<Longrightarrow>
   rq_work stack' + 2 * nmemb' \<le> rq_work stack + 2 * nmemb"
proof (induction nmemb arbitrary: xs stack ptr depth rule: less_induct)
  case (less nmemb)
  from less.prems show ?case
  proof (cases rule: rq_split_cases)
    case (low seg lt gt)
    note b = rq_partition_bounds [OF low(4) low(2) low(1)]
    from low(6) obtain st where st: "rq_push stack \<lparr>fr_base = ptr, fr_count = lt, fr_depth = depth + 1\<rparr> = Some st"
      "rq_split cmp (blit xs ptr seg) st (ptr + gt) (nmemb - gt) (depth + 1) = Some (xs', stack', ptr', nmemb')"
      by (auto split: option.splits)
    with less.IH [OF _ st(2)] b low show ?thesis by (auto simp: rq_push_def split: if_splits)
  next
    case (high seg lt gt)
    note b = rq_partition_bounds [OF high(4) high(2) high(1)]
    from high(6) obtain st where st:
      "rq_push stack \<lparr>fr_base = ptr + gt, fr_count = nmemb - gt, fr_depth = depth + 1\<rparr> = Some st"
      "rq_split cmp (blit xs ptr seg) st ptr lt (depth + 1) = Some (xs', stack', ptr', nmemb')"
      by (auto split: option.splits)
    with less.IH [OF _ st(2)] b high show ?thesis by (auto simp: rq_push_def split: if_splits)
  qed auto
qed

function rq_loop :: "'a cmp_f \<Rightarrow> 'a list \<Rightarrow> rq_frame list \<Rightarrow> 'a list option" where
  "rq_loop cmp xs [] = Some xs"
| "rq_loop cmp xs (f # stack) =
     (case rq_split cmp xs stack (fr_base f) (fr_count f) (fr_depth f) of
        None \<Rightarrow> None
      | Some (xs, stack, ptr, nmemb) \<Rightarrow>
          rq_loop cmp (blit xs ptr (insertion_sort cmp (array_slice xs ptr nmemb))) stack)"
  by pat_completeness auto
termination
  by (relation "measure (\<lambda>(cmp, xs, stack). rq_work stack)") (auto dest: rq_split_work)

definition rqsort :: "'a cmp_f \<Rightarrow> 'a list \<Rightarrow> 'a list option" where
  "rqsort cmp xs =
     (if length xs < 2 then Some xs
      else rq_loop cmp xs [\<lparr>fr_base = 0, fr_count = length xs, fr_depth = 0\<rparr>])"

section \<open>The stack and the permutation\<close>

text \<open>Depths decrease strictly from the top of the stack, so that \<open>50\<close> entries are enough.\<close>

primrec rq_depths :: "nat \<Rightarrow> rq_frame list \<Rightarrow> bool" where
  "rq_depths d [] = True"
| "rq_depths d (f # stack) = (fr_depth f \<le> d \<and> 0 < fr_depth f \<and> rq_depths (fr_depth f - 1) stack)"

lemma rq_depths_length: "rq_depths d stack \<Longrightarrow> length stack \<le> d"
  by (induction stack arbitrary: d) force+

lemma rq_depths_mono: "rq_depths d stack \<Longrightarrow> d \<le> e \<Longrightarrow> rq_depths e stack"
  by (cases stack) auto

lemma rq_push_ok:
  "rq_depths d stack \<Longrightarrow> d < 50 \<Longrightarrow>
   rq_push stack \<lparr>fr_base = b, fr_count = n, fr_depth = Suc d\<rparr> = Some (\<lparr>fr_base = b, fr_count = n, fr_depth = Suc d\<rparr> # stack)"
  using rq_depths_length [of d stack] by (simp add: rq_push_def RQ_STACK_SIZE_def)

definition rq_frames_within :: "nat \<Rightarrow> rq_frame list \<Rightarrow> bool" where
  "rq_frames_within n stack \<longleftrightarrow> (\<forall>f\<in>set stack. fr_base f + fr_count f \<le> n)"

lemma rq_frames_within_simps [simp]:
  "rq_frames_within n []"
  "rq_frames_within n (f # stack) \<longleftrightarrow> fr_base f + fr_count f \<le> n \<and> rq_frames_within n stack"
  by (auto simp: rq_frames_within_def)

lemma mset_blit_slice:
  assumes "off + n \<le> length xs" "mset s = mset (array_slice xs off n)"
  shows "mset (blit xs off s) = mset xs"
proof -
  have "length s = n" using assms mset_eq_length by fastforce
  then have "mset (blit xs off s) = mset (take off xs) + mset (take n (drop off xs)) + mset (drop n (drop off xs))"
    using assms by (simp add: blit_def array_slice_def add.commute)
  also have "\<dots> = mset (take off xs @ take n (drop off xs) @ drop n (drop off xs))" by simp
  also have "\<dots> = mset xs" by (simp only: append_take_drop_id)
  finally show ?thesis .
qed

lemma rq_split_perm:
  "rq_depths d stack \<Longrightarrow> d \<le> 50 \<Longrightarrow> ptr + n \<le> length xs \<Longrightarrow> rq_frames_within (length xs) stack \<Longrightarrow>
   \<exists>xs' stack' ptr' n'. rq_split cmp xs stack ptr n d = Some (xs', stack', ptr', n') \<and> mset xs' = mset xs \<and>
     length xs' = length xs \<and> rq_depths 50 stack' \<and> rq_frames_within (length xs) stack' \<and> ptr' + n' \<le> length xs"
proof (induction n arbitrary: xs stack ptr d rule: less_induct)
  case (less n)
  show ?case
  proof (cases rule: rq_split_cases [of cmp xs stack ptr n d, OF refl, case_names outside heapsort low high small])
    case outside
    with less.prems show ?thesis by simp
  next
    case heapsort
    with less.prems show ?thesis by (auto simp: mset_blit_slice)
  next
    case (low seg lt gt)
    note b = rq_partition_bounds [OF low(4) low(2) low(1)]
    have "mset (blit xs ptr seg) = mset xs" "length (blit xs ptr seg) = length xs"
      using b low(1) mset_blit_slice [of ptr n xs seg] by auto
    with less.IH [of "n - gt" "d + 1" "\<lparr>fr_base = ptr, fr_count = lt, fr_depth = d + 1\<rparr> # stack" "ptr + gt" "blit xs ptr seg"]
      low b less.prems
    show ?thesis by (auto simp: rq_push_ok)
  next
    case (high seg lt gt)
    note b = rq_partition_bounds [OF high(4) high(2) high(1)]
    have "mset (blit xs ptr seg) = mset xs" "length (blit xs ptr seg) = length xs"
      using b high(1) mset_blit_slice [of ptr n xs seg] by auto
    with less.IH [of lt "d + 1" "\<lparr>fr_base = ptr + gt, fr_count = n - gt, fr_depth = d + 1\<rparr> # stack" ptr "blit xs ptr seg"]
      high b less.prems
    show ?thesis by (auto simp: rq_push_ok)
  next
    case small
    with less.prems rq_depths_mono [of d stack 50] show ?thesis by auto
  qed
qed

lemma rq_loop_perm:
  assumes "case stack of [] \<Rightarrow> True | f # st \<Rightarrow> rq_depths (fr_depth f) st \<and> fr_depth f \<le> 50"
    and "rq_frames_within (length xs) stack"
  shows "\<exists>ys. rq_loop cmp xs stack = Some ys \<and> mset ys = mset xs"
  using assms
proof (induction "rq_work stack" arbitrary: xs stack rule: less_induct)
  case less
  show ?case
  proof (cases stack)
    case (Cons f st)
    with less.prems rq_split_perm [of "fr_depth f" st "fr_base f" "fr_count f" xs cmp]
    obtain xs' stack' ptr n where s: "rq_split cmp xs st (fr_base f) (fr_count f) (fr_depth f) = Some (xs', stack', ptr, n)"
      and p: "mset xs' = mset xs" "length xs' = length xs" "rq_depths 50 stack'"
        "rq_frames_within (length xs) stack'" "ptr + n \<le> length xs" by auto
    have "rq_work stack' < rq_work stack" using rq_split_work [OF s] Cons by simp
    moreover have "case stack' of [] \<Rightarrow> True | f # st \<Rightarrow> rq_depths (fr_depth f) st \<and> fr_depth f \<le> 50"
      using p(3) by (auto split: list.splits intro: rq_depths_mono)
    moreover have "mset (blit xs' ptr (insertion_sort cmp (array_slice xs' ptr n))) = mset xs"
      "length (blit xs' ptr (insertion_sort cmp (array_slice xs' ptr n))) = length xs"
      using p by (auto simp: mset_blit_slice)
    ultimately show ?thesis
      using less.hyps [of stack' "blit xs' ptr (insertion_sort cmp (array_slice xs' ptr n))"] p Cons s by simp
  qed simp
qed

section \<open>The order of the result\<close>

lemma rq_split_bounds:
  "rq_split cmp xs stack ptr n d = Some (xs', stack', ptr', n') \<Longrightarrow> ptr' + n' \<le> length xs'"
proof (induction n arbitrary: xs stack ptr d rule: less_induct)
  case (less n)
  from less.prems show ?case
  proof (cases rule: rq_split_cases)
    case (low seg lt gt)
    then show ?thesis
      using less.IH [of "n - gt"] rq_partition_bounds [OF low(4) low(2) low(1)] by (auto split: option.splits)
  next
    case (high seg lt gt)
    then show ?thesis
      using less.IH [of lt] rq_partition_bounds [OF high(4) high(2) high(1)] by (auto split: option.splits)
  qed auto
qed

lemma heap_sift_above: "n \<le> k \<Longrightarrow> r < n \<Longrightarrow> heap_sift cmp xs r n ! k = xs ! k"
proof (induction cmp xs r n rule: heap_sift.induct)
  case (1 cmp xs r n)
  then show ?case by (subst heap_sift.simps) (auto simp: Let_def exchange_one_def Let_def)
qed

text \<open>The child that \<open>heap_sift\<close> compares with its parent.\<close>

definition heap_child :: "'a cmp_f \<Rightarrow> 'a list \<Rightarrow> nat \<Rightarrow> nat \<Rightarrow> nat" where
  "heap_child cmp xs r n =
     (if r * 2 + 1 < n - 1 \<and> cmp (xs ! (r * 2 + 1)) (xs ! (r * 2 + 2)) \<le> 0 then r * 2 + 2 else r * 2 + 1)"

lemma heap_sift_step:
  "heap_sift cmp xs r n =
     (if r * 2 + 1 < n \<and> \<not> cmp (xs ! r) (xs ! heap_child cmp xs r n) > 0
      then heap_sift cmp (exchange_one xs r (heap_child cmp xs r n)) (heap_child cmp xs r n) n else xs)"
  by (subst heap_sift.simps) (simp add: Let_def heap_child_def)

lemma heap_child_less: "r * 2 + 1 < n \<Longrightarrow> r < heap_child cmp xs r n \<and> heap_child cmp xs r n < n"
  by (auto simp: heap_child_def)

lemma heap_sift_below:
  "a < n \<Longrightarrow> r < n \<Longrightarrow> n \<le> length xs \<Longrightarrow> \<exists>k<n. heap_sift cmp xs r n ! a = xs ! k"
proof (induction "n - r" arbitrary: xs r rule: less_induct)
  case less
  define c where "c = heap_child cmp xs r n"
  show ?case
  proof (cases "r * 2 + 1 < n \<and> \<not> cmp (xs ! r) (xs ! c) > 0")
    case True
    then have c: "r < c" "c < n" using heap_child_less unfolding c_def by auto
    then obtain k where "k < n" "heap_sift cmp (exchange_one xs r c) c n ! a = exchange_one xs r c ! k"
      using less.hyps [of c "exchange_one xs r c"] less.prems by (auto simp: diff_less_mono2)
    moreover have "\<exists>l<n. exchange_one xs r c ! k = xs ! l"
      using \<open>k < n\<close> c less.prems
      by (intro exI [of _ "if k = r then c else if k = c then r else k"]) (auto simp: exchange_one_nth)
    ultimately show ?thesis
      using True by (subst heap_sift_step) (simp flip: c_def)
  next
    case False
    then have "heap_sift cmp xs r n = xs" by (subst heap_sift_step) (auto simp flip: c_def)
    with less.prems show ?thesis by auto
  qed
qed

locale comparator =
  fixes cmp :: "'a cmp_f"
  assumes cmp_antisym: "cmp x y < 0 \<longleftrightarrow> cmp y x > 0"
    and cmp_trans: "cmp x y \<le> 0 \<Longrightarrow> cmp y z \<le> 0 \<Longrightarrow> cmp x z \<le> 0"
begin

lemma cmp_refl: "cmp x x = 0"
  using cmp_antisym [of x x] by linarith

lemma cmp_flip: "cmp x y > 0 \<Longrightarrow> cmp y x \<le> 0" "cmp x y = 0 \<Longrightarrow> cmp y x \<le> 0" "\<not> cmp x y > 0 \<Longrightarrow> cmp x y \<le> 0"
  using cmp_antisym [of x y] cmp_antisym [of y x] by linarith+

subsection \<open>Insertion sort\<close>

lemma insert_down_above: "j < k \<Longrightarrow> insert_down cmp xs j ! k = xs ! k"
  by (induction cmp xs j rule: insert_down.induct) (auto simp: exchange_one_def Let_def)

lemma insert_down_sorted:
  assumes "j < length xs"
    and "\<And>a b. a < b \<Longrightarrow> b \<le> m \<Longrightarrow> a \<noteq> j \<Longrightarrow> b \<noteq> j \<Longrightarrow> cmp (xs ! a) (xs ! b) \<le> 0"
    and "\<And>b. j < b \<Longrightarrow> b \<le> m \<Longrightarrow> cmp (xs ! j) (xs ! b) \<le> 0"
    and "j \<le> m" "m < length xs" "a < b" "b \<le> m"
  shows "cmp (insert_down cmp xs j ! a) (insert_down cmp xs j ! b) \<le> 0"
  using assms
proof (induction j arbitrary: xs a b)
  case 0
  then show ?case by (cases "a = 0") auto
next
  case (Suc j)
  show ?case
  proof (cases "cmp (xs ! j) (xs ! Suc j) > 0")
    case True
    note n = exchange_one_nth [of "Suc j" xs j]
    have "cmp (insert_down cmp (exchange_one xs (Suc j) j) j ! a) (insert_down cmp (exchange_one xs (Suc j) j) j ! b) \<le> 0"
    proof (rule Suc.IH)
      fix a b assume ab: "a < b" "b \<le> m" "a \<noteq> j" "b \<noteq> j"
      show "cmp (exchange_one xs (Suc j) j ! a) (exchange_one xs (Suc j) j ! b) \<le> 0"
        using ab Suc.prems(1,4,5) Suc.prems(2) [of a b] Suc.prems(2) [of a j] Suc.prems(2) [of j b]
        by (auto simp: n)
    next
      fix b assume b: "j < b" "b \<le> m"
      show "cmp (exchange_one xs (Suc j) j ! j) (exchange_one xs (Suc j) j ! b) \<le> 0"
        using b True Suc.prems(1,5) Suc.prems(3) [of b] cmp_flip(1) [OF True] by (auto simp: n)
    qed (use Suc.prems in auto)
    with True show ?thesis by simp
  next
    case False
    have j: "cmp (xs ! j) (xs ! Suc j) \<le> 0" using False by simp
    have "cmp (xs ! a) (xs ! Suc j) \<le> 0" if "a < Suc j" for a
    proof (cases "a = j")
      case False
      with that Suc.prems(2) [of a j] Suc.prems(4) have "cmp (xs ! a) (xs ! j) \<le> 0" by simp
      with j show ?thesis by (rule cmp_trans [rotated])
    qed (use j in simp)
    then show ?thesis
      using False Suc.prems(2) [of a b] Suc.prems(3) [of b] Suc.prems(6,7) by auto
  qed
qed

lemma insertion_sort_loop_sorted:
  assumes "\<And>a b. a < b \<Longrightarrow> b < i \<Longrightarrow> cmp (xs ! a) (xs ! b) \<le> 0" "i + k = length xs" "a < b" "b < length xs"
  shows "cmp (insertion_sort_loop cmp xs i k ! a) (insertion_sort_loop cmp xs i k ! b) \<le> 0"
  using assms
proof (induction k arbitrary: xs i)
  case (Suc k)
  have "cmp (insert_down cmp xs i ! a) (insert_down cmp xs i ! b) \<le> 0" if "a < b" "b < Suc i" for a b
    using that Suc.prems by (intro insert_down_sorted [where m = i]) auto
  with Suc show ?case by simp
qed simp

lemma insertion_sort_sorted:
  "a < b \<Longrightarrow> b < length xs \<Longrightarrow> cmp (insertion_sort cmp xs ! a) (insertion_sort cmp xs ! b) \<le> 0"
  unfolding insertion_sort_def by (rule insertion_sort_loop_sorted) auto

subsection \<open>Heap sort\<close>

text \<open>The heap edges \<open>i\<close>--\<open>c\<close> below \<open>n\<close> whose upper end is at least \<open>r0\<close>.\<close>

definition heap_edge :: "nat \<Rightarrow> nat \<Rightarrow> bool" where
  "heap_edge i c \<longleftrightarrow> c = 2 * i + 1 \<or> c = 2 * i + 2"

definition heap_from :: "'a list \<Rightarrow> nat \<Rightarrow> nat \<Rightarrow> bool" where
  "heap_from xs r0 n \<longleftrightarrow> (\<forall>i c. r0 \<le> i \<and> c < n \<and> heap_edge i c \<longrightarrow> cmp (xs ! c) (xs ! i) \<le> 0)"

text \<open>A heap except for the edges below \<open>r\<close>.\<close>

definition heap_but :: "'a list \<Rightarrow> nat \<Rightarrow> nat \<Rightarrow> nat \<Rightarrow> bool" where
  "heap_but xs r0 r n \<longleftrightarrow>
     (\<forall>i c. r0 \<le> i \<and> c < n \<and> heap_edge i c \<and> i \<noteq> r \<longrightarrow> cmp (xs ! c) (xs ! i) \<le> 0) \<and>
     (\<forall>i c. r0 \<le> i \<and> c < n \<and> heap_edge i r \<and> heap_edge r c \<longrightarrow> cmp (xs ! c) (xs ! i) \<le> 0)"

lemma heap_sift_heap:
  "heap_but xs r0 r n \<Longrightarrow> r0 \<le> r \<Longrightarrow> r < n \<Longrightarrow> n \<le> length xs \<Longrightarrow> heap_from (heap_sift cmp xs r n) r0 n"
proof (induction "n - r" arbitrary: xs r rule: less_induct)
  case less
  define c where "c = heap_child cmp xs r n"
  have eq: "heap_sift cmp xs r n = (if r * 2 + 1 < n \<and> \<not> cmp (xs ! r) (xs ! c) > 0
      then heap_sift cmp (exchange_one xs r c) c n else xs)"
    unfolding c_def by (rule heap_sift_step)
  have H: "cmp (xs ! d) (xs ! i) \<le> 0" if "r0 \<le> i" "d < n" "heap_edge i d" "i \<noteq> r" for i d
    using less.prems(1) that unfolding heap_but_def by blast
  have G: "cmp (xs ! d) (xs ! i) \<le> 0" if "r0 \<le> i" "d < n" "heap_edge i r" "heap_edge r d" for i d
    using less.prems(1) that unfolding heap_but_def by blast
  show ?case
  proof (cases "r * 2 + 1 < n")
    case False
    then have "\<not> (d < n \<and> heap_edge r d)" for d by (auto simp: heap_edge_def)
    with False H show ?thesis unfolding eq heap_from_def by auto
  next
    case True
    then have c: "c < n" "heap_edge r c" "r < c" by (auto simp: c_def heap_child_def heap_edge_def)
    have top: "cmp (xs ! d) (xs ! c) \<le> 0" if "d < n" "heap_edge r d" for d
      using that cmp_refl cmp_flip [of "xs ! (r * 2 + 1)" "xs ! (r * 2 + 2)"]
      by (auto simp: c_def heap_child_def heap_edge_def mult.commute split: if_splits)
    show ?thesis
    proof (cases "cmp (xs ! r) (xs ! c) > 0")
      case stop: True
      have "cmp (xs ! d) (xs ! i) \<le> 0" if "r0 \<le> i" "d < n" "heap_edge i d" for i d
        using H that cmp_trans [OF top cmp_flip(1) [OF stop]] by (cases "i = r") auto
      with True stop show ?thesis unfolding eq heap_from_def by auto
    next
      case False
      have le: "cmp (xs ! r) (xs ! c) \<le> 0" using False by simp
      have b: "r < length xs" "c < length xs" using c less.prems by auto
      have "heap_but (exchange_one xs r c) r0 c n"
        unfolding heap_but_def
      proof (intro conjI allI impI; elim conjE)
        fix i d assume i: "r0 \<le> i" "d < n" "heap_edge i d" "i \<noteq> c"
        show "cmp (exchange_one xs r c ! d) (exchange_one xs r c ! i) \<le> 0"
        proof (cases "i = r")
          case True
          with i top [of d] le c show ?thesis by (auto simp: exchange_one_nth [OF b] heap_edge_def)
        next
          case False
          then have "d \<noteq> c" using i(3) c(2) by (auto simp: heap_edge_def; presburger)
          then show ?thesis
            using H [OF i(1-3) False] G [OF i(1) c(1) _ c(2)] i False by (auto simp: exchange_one_nth [OF b])
        qed
      next
        fix i d assume i: "r0 \<le> i" "d < n" "heap_edge i c" "heap_edge c d"
        have "i = r" using i(3) c(2) by (auto simp: heap_edge_def; presburger)
        then show "cmp (exchange_one xs r c ! d) (exchange_one xs r c ! i) \<le> 0"
          using H [of c d] i less.prems c by (auto simp: exchange_one_nth [OF b] heap_edge_def)
      qed
      then have "heap_from (heap_sift cmp (exchange_one xs r c) c n) r0 n"
        using c less.prems by (intro less.hyps) auto
      with True False show ?thesis unfolding eq by simp
    qed
  qed
qed

lemma heap_build_heap:
  "heap_from xs i (length xs) \<Longrightarrow> i \<le> length xs div 2 \<Longrightarrow> heap_from (heap_build cmp xs i) 0 (length xs)"
proof (induction i arbitrary: xs)
  case (Suc i)
  then have "heap_but xs i i (length xs)"
    unfolding heap_but_def heap_from_def by (auto simp: heap_edge_def Suc_le_eq)
  then have "heap_from (heap_sift cmp xs i (length xs)) i (length xs)"
    using Suc.prems by (intro heap_sift_heap) auto
  with Suc.IH [of "heap_sift cmp xs i (length xs)"] Suc.prems show ?case by simp
qed simp

lemma heap_root_max:
  "heap_from xs 0 n \<Longrightarrow> k < n \<Longrightarrow> cmp (xs ! k) (xs ! 0) \<le> 0"
proof (induction k rule: less_induct)
  case (less k)
  show ?case
  proof (cases "k = 0")
    case False
    then have e: "heap_edge ((k - 1) div 2) k" unfolding heap_edge_def by presburger
    have s: "(k - 1) div 2 < k" using False by linarith
    have "cmp (xs ! k) (xs ! ((k - 1) div 2)) \<le> 0"
      using less.prems e unfolding heap_from_def by blast
    with less.IH [OF s] less.prems s show ?thesis by (auto intro: cmp_trans)
  qed (simp add: cmp_refl)
qed

lemma heap_extract_sorted:
  assumes "heap_from xs 0 (i + 1)" "i < length xs"
    and "\<And>a b. a < b \<Longrightarrow> i < b \<Longrightarrow> b < length xs \<Longrightarrow> cmp (xs ! a) (xs ! b) \<le> 0"
    and "a < b" "b < length xs"
  shows "cmp (heap_extract cmp xs i ! a) (heap_extract cmp xs i ! b) \<le> 0"
  using assms
proof (induction i arbitrary: xs)
  case (Suc i)
  define y where "y = exchange_one xs 0 (Suc i)"
  define z where "z = heap_sift cmp y 0 (Suc i)"
  have len: "length y = length xs" "length z = length xs" by (simp_all add: y_def z_def)
  have y: "y ! k = (if k = 0 then xs ! Suc i else if k = Suc i then xs ! 0 else xs ! k)" for k
    unfolding y_def using Suc.prems(2) by (subst exchange_one_nth) auto
  have "heap_but y 0 0 (Suc i)"
    using Suc.prems(1) unfolding heap_but_def heap_from_def y by (auto simp: heap_edge_def)
  then have hz: "heap_from z 0 (Suc i)"
    unfolding z_def using Suc.prems(2) len by (intro heap_sift_heap) auto
  have above: "z ! k = y ! k" if "Suc i \<le> k" for k
    unfolding z_def using that by (rule heap_sift_above) simp
  have below: "\<exists>k\<le>Suc i. z ! a = xs ! k" if "a < Suc i" for a
    using heap_sift_below [OF that, of 0 y cmp] Suc.prems(2) len y unfolding z_def
    by (metis Suc_le_mono le_Suc_eq less_Suc_eq_le not_less zero_less_Suc bot_nat_0.extremum)
  have "cmp (z ! a) (z ! b) \<le> 0" if "a < b" "i < b" "b < length xs" for a b
  proof (cases "a < Suc i")
    case True
    then obtain k where k: "k \<le> Suc i" "z ! a = xs ! k" using below by blast
    show ?thesis
    proof (cases "b = Suc i")
      case True
      with k above y heap_root_max [OF Suc.prems(1), of k] show ?thesis by simp
    next
      case False
      with that k above [of b] y Suc.prems(3) [of k b] show ?thesis by simp
    qed
  next
    case False
    with that above y Suc.prems(3) [of a b] Suc.prems(3) [of 0 b] show ?thesis by auto
  qed
  with Suc.IH [of z] hz len Suc.prems show ?case by (simp add: y_def z_def)
qed simp

lemma heapsortx_sorted:
  "a < b \<Longrightarrow> b < length xs \<Longrightarrow> cmp (heapsortx cmp xs ! a) (heapsortx cmp xs ! b) \<le> 0"
proof -
  assume ab: "a < b" "b < length xs"
  have "heap_from xs (length xs div 2) (length xs)"
    unfolding heap_from_def heap_edge_def by auto
  then have "heap_from (heap_build cmp xs (length xs div 2)) 0 (length xs)"
    by (rule heap_build_heap) simp
  then show ?thesis
    unfolding heapsortx_def using ab
    by (simp del: One_nat_def, intro heap_extract_sorted) (auto simp del: One_nat_def)
qed

subsection \<open>Order outside the segments still to be sorted\<close>

definition ordered_outside :: "'a list \<Rightarrow> (nat \<times> nat) set \<Rightarrow> bool" where
  "ordered_outside xs segs \<longleftrightarrow>
     (\<forall>i j. i < j \<and> j < length xs \<and> \<not> (\<exists>(b, n)\<in>segs. b \<le> i \<and> j < b + n) \<longrightarrow> cmp (xs ! i) (xs ! j) \<le> 0)"

lemma ordered_outsideD:
  "ordered_outside xs segs \<Longrightarrow> i < j \<Longrightarrow> j < length xs \<Longrightarrow>
   (\<And>b n. (b, n) \<in> segs \<Longrightarrow> b \<le> i \<Longrightarrow> \<not> j < b + n) \<Longrightarrow> cmp (xs ! i) (xs ! j) \<le> 0"
  unfolding ordered_outside_def by blast

lemma ordered_outside_refine:
  assumes o: "ordered_outside xs (insert (b, n) S)" and d: "\<And>c m. (c, m) \<in> S \<Longrightarrow> b + n \<le> c \<or> c + m \<le> b"
    and bn: "b + n \<le> length xs" and s: "mset s = mset (array_slice xs b n)"
    and inner: "\<And>i j. i < j \<Longrightarrow> j < n \<Longrightarrow> (\<And>c m. (c, m) \<in> T \<Longrightarrow> c \<le> b + i \<Longrightarrow> \<not> b + j < c + m) \<Longrightarrow>
       cmp (s ! i) (s ! j) \<le> 0"
  shows "ordered_outside (blit xs b s) (T \<union> S)"
  unfolding ordered_outside_def
proof (intro allI impI; elim conjE)
  fix i j assume ij: "i < j" "j < length (blit xs b s)" "\<not> (\<exists>(c, m)\<in>T \<union> S. c \<le> i \<and> j < c + m)"
  have ls: "length s = n" using s bn by (metis length_array_slice mset_eq_length)
  then have len: "length (blit xs b s) = length xs" using bn by simp
  have nth: "blit xs b s ! k = (if b \<le> k \<and> k < b + n then s ! (k - b) else xs ! k)" if "k < length xs" for k
    using that bn ls by (auto simp: blit_def nth_append min_def)
  have mem: "\<exists>k'. b \<le> k' \<and> k' < b + n \<and> s ! (k - b) = xs ! k'" if "b \<le> k" "k < b + n" for k
  proof -
    have "s ! (k - b) \<in> set (array_slice xs b n)"
      using that ls s by (metis add_diff_inverse_nat mset_eq_setD nat_add_left_cancel_less not_less nth_mem)
    then obtain l where "l < n" "s ! (k - b) = array_slice xs b n ! l"
      using bn by (metis in_set_conv_nth length_array_slice)
    then show ?thesis by (intro exI [of _ "b + l"]) (use bn in \<open>simp add: array_slice_def\<close>)
  qed
  have nS: "\<not> j < c + m" if "(c, m) \<in> S" "c \<le> i" for c m using ij(3) that by auto
  consider "b \<le> i" "j < b + n" | "\<not> (b \<le> i \<and> i < b + n)" "\<not> (b \<le> j \<and> j < b + n)"
    | "i < b" "b \<le> j" "j < b + n" | "b \<le> i" "i < b + n" "b + n \<le> j"
    using ij(1) by linarith
  then show "cmp (blit xs b s ! i) (blit xs b s ! j) \<le> 0"
  proof cases
    case 1
    then have "cmp (s ! (i - b)) (s ! (j - b)) \<le> 0" using ij by (intro inner) auto
    with 1 ij len nth show ?thesis by simp
  next
    case 2
    then have "cmp (xs ! i) (xs ! j) \<le> 0"
      using ij len nS by (intro ordered_outsideD [OF o]) auto
    moreover have "blit xs b s ! i = xs ! i" "blit xs b s ! j = xs ! j" using 2 ij len nth by auto
    ultimately show ?thesis by simp
  next
    case 3
    then obtain k where k: "b \<le> k" "k < b + n" "s ! (j - b) = xs ! k" using mem by blast
    then have "cmp (xs ! i) (xs ! k) \<le> 0"
      using 3 bn d by (intro ordered_outsideD [OF o]) fastforce+
    with 3 k ij len nth show ?thesis by auto
  next
    case 4
    then obtain k where k: "b \<le> k" "k < b + n" "s ! (i - b) = xs ! k" using mem by blast
    then have "cmp (xs ! k) (xs ! j) \<le> 0"
      using 4 bn d ij len by (intro ordered_outsideD [OF o]) fastforce+
    with 4 k ij len nth show ?thesis by auto
  qed
qed

lemma rq_partitioned_inner:
  assumes p: "rq_partitioned cmp p s lt gt" and ij: "i < j" "j < length s"
    and out: "\<not> j < lt" "\<not> gt \<le> i"
  shows "cmp (s ! i) (s ! j) \<le> 0"
proof -
  have P: "k < length s \<Longrightarrow> k < lt \<Longrightarrow> cmp p (s ! k) > 0"
    "k < length s \<Longrightarrow> lt \<le> k \<Longrightarrow> k < gt \<Longrightarrow> s ! k = p \<or> cmp p (s ! k) = 0"
    "k < length s \<Longrightarrow> gt \<le> k \<Longrightarrow> cmp p (s ! k) < 0" for k
    using p unfolding rq_partitioned_def by blast+
  have "cmp (s ! i) p \<le> 0"
    using ij out P [of i] cmp_flip [of p "s ! i"] cmp_refl by (cases "i < lt") auto
  moreover have "cmp p (s ! j) \<le> 0"
    using ij out P [of j] cmp_refl by (cases "j < gt") auto
  ultimately show ?thesis by (rule cmp_trans)
qed

subsection \<open>The driver\<close>

definition fr_segs :: "rq_frame list \<Rightarrow> (nat \<times> nat) set" where
  "fr_segs stack = (\<lambda>f. (fr_base f, fr_count f)) ` set stack"

lemma fr_segs_simps [simp]:
  "fr_segs [] = {}" "fr_segs (f # stack) = insert (fr_base f, fr_count f) (fr_segs stack)"
  by (simp_all add: fr_segs_def)

abbreviation apart :: "nat \<Rightarrow> nat \<Rightarrow> nat \<Rightarrow> nat \<Rightarrow> bool" where
  "apart b n c m \<equiv> b + n \<le> c \<or> c + m \<le> b"

primrec fr_disjoint :: "rq_frame list \<Rightarrow> bool" where
  "fr_disjoint [] = True"
| "fr_disjoint (f # stack) =
     (fr_disjoint stack \<and> (\<forall>(c, m)\<in>fr_segs stack. apart (fr_base f) (fr_count f) c m))"

lemma ordered_outside_done:
  assumes "ordered_outside xs (insert (b, n) S)" "\<And>c m. (c, m) \<in> S \<Longrightarrow> apart b n c m" "b + n \<le> length xs"
    and "mset s = mset (array_slice xs b n)" "\<And>i j. i < j \<Longrightarrow> j < n \<Longrightarrow> cmp (s ! i) (s ! j) \<le> 0"
  shows "ordered_outside (blit xs b s) S"
  using ordered_outside_refine [of xs b n S s "{}"] assms by auto

lemma ordered_outside_mono: "ordered_outside xs S \<Longrightarrow> S \<subseteq> T \<Longrightarrow> ordered_outside xs T"
  unfolding ordered_outside_def by fast

lemma ordered_outside_partition:
  assumes "ordered_outside xs (insert (b, n) S)" "\<And>c m. (c, m) \<in> S \<Longrightarrow> apart b n c m" "b + n \<le> length xs"
    and part: "rq_partition cmp (array_slice xs b n) = (seg, lt, gt)" "6 < n"
  shows "ordered_outside (blit xs b seg) (insert (b, lt) (insert (b + gt, n - gt) S))"
proof -
  have ne: "array_slice xs b n \<noteq> []" using assms(3,5) by (auto simp flip: length_0_conv)
  note bd = rq_partition_bounds [OF part assms(3)]
  from rq_partition_spec [OF part(1) ne] obtain p where p: "rq_partitioned cmp p seg lt gt" by auto
  have "ordered_outside (blit xs b seg) ({(b, lt), (b + gt, n - gt)} \<union> S)"
  proof (rule ordered_outside_refine [OF assms(1-3)])
    fix i j assume ij: "i < j" "j < n"
      "\<And>c m. (c, m) \<in> {(b, lt), (b + gt, n - gt)} \<Longrightarrow> c \<le> b + i \<Longrightarrow> \<not> b + j < c + m"
    have "\<not> j < lt" using ij(3) [of b lt] by simp
    moreover have "\<not> gt \<le> i" using ij(3) [of "b + gt" "n - gt"] ij(2) bd by auto
    ultimately show "cmp (seg ! i) (seg ! j) \<le> 0"
      using ij bd by (intro rq_partitioned_inner [OF p]) auto
  qed (use bd in auto)
  then show ?thesis by (simp add: insert_commute)
qed

lemma rq_split_ordered:
  "rq_split cmp xs stack ptr n d = Some (xs', stack', ptr', n') \<Longrightarrow>
   ordered_outside xs (insert (ptr, n) (fr_segs stack)) \<Longrightarrow> fr_disjoint stack \<Longrightarrow>
   (\<And>c m. (c, m) \<in> fr_segs stack \<Longrightarrow> apart ptr n c m) \<Longrightarrow>
   ordered_outside xs' (insert (ptr', n') (fr_segs stack')) \<and> fr_disjoint stack' \<and>
   (\<forall>(c, m)\<in>fr_segs stack'. apart ptr' n' c m)"
proof (induction n arbitrary: xs stack ptr d rule: less_induct)
  case (less n)
  note A = less.prems(4)
  from less.prems(1) show ?case
  proof (cases rule: rq_split_cases)
    case heapsort
    then have "ordered_outside (blit xs ptr (heapsortx cmp (array_slice xs ptr n))) (fr_segs stack)"
      by (intro ordered_outside_done [OF less.prems(2) A]) (auto intro: heapsortx_sorted)
    moreover have "apart ptr 0 c m" if "(c, m) \<in> fr_segs stack" for c m
      using A [OF that] by auto
    ultimately show ?thesis
      using heapsort less.prems(3) by (auto intro: ordered_outside_mono)
  next
    case (low seg lt gt)
    note b = rq_partition_bounds [OF low(4) low(2) low(1)]
    let ?f = "\<lparr>fr_base = ptr, fr_count = lt, fr_depth = d + 1\<rparr>"
    from low(6) have r: "rq_split cmp (blit xs ptr seg) (?f # stack) (ptr + gt) (n - gt) (d + 1) = Some (xs', stack', ptr', n')"
      by (auto simp: rq_push_def split: option.splits if_splits)
    have o: "ordered_outside (blit xs ptr seg) (insert (ptr + gt, n - gt) (fr_segs (?f # stack)))"
      using ordered_outside_partition [OF less.prems(2) A low(1) low(4) low(2)] by (simp add: insert_commute)
    have "apart ptr lt c m" "apart (ptr + gt) (n - gt) c m" if "(c, m) \<in> fr_segs stack" for c m
      using A [OF that] b by linarith+
    then show ?thesis
      using b less.prems(3) by (intro less.IH [OF _ r o]) auto
  next
    case (high seg lt gt)
    note b = rq_partition_bounds [OF high(4) high(2) high(1)]
    let ?f = "\<lparr>fr_base = ptr + gt, fr_count = n - gt, fr_depth = d + 1\<rparr>"
    from high(6) have r: "rq_split cmp (blit xs ptr seg) (?f # stack) ptr lt (d + 1) = Some (xs', stack', ptr', n')"
      by (auto simp: rq_push_def split: option.splits if_splits)
    have o: "ordered_outside (blit xs ptr seg) (insert (ptr, lt) (fr_segs (?f # stack)))"
      using ordered_outside_partition [OF less.prems(2) A high(1) high(4) high(2)] by simp
    have "apart ptr lt c m" "apart (ptr + gt) (n - gt) c m" if "(c, m) \<in> fr_segs stack" for c m
      using A [OF that] b by linarith+
    then show ?thesis
      using b less.prems(3) by (intro less.IH [OF _ r o]) auto
  next
    case small
    with less.prems show ?thesis by auto
  qed simp
qed

lemma rq_loop_ordered:
  "rq_loop cmp xs stack = Some ys \<Longrightarrow> ordered_outside xs (fr_segs stack) \<Longrightarrow> fr_disjoint stack \<Longrightarrow>
   ordered_outside ys {}"
proof (induction "rq_work stack" arbitrary: xs stack rule: less_induct)
  case less
  show ?case
  proof (cases stack)
    case (Cons f st)
    with less.prems(1) obtain xs' stack' ptr n where
      s: "rq_split cmp xs st (fr_base f) (fr_count f) (fr_depth f) = Some (xs', stack', ptr, n)"
      and l: "rq_loop cmp (blit xs' ptr (insertion_sort cmp (array_slice xs' ptr n))) stack' = Some ys"
      by (auto split: option.splits)
    from rq_split_ordered [OF s] less.prems Cons
    have o: "ordered_outside xs' (insert (ptr, n) (fr_segs stack'))" "fr_disjoint stack'"
      "\<And>c m. (c, m) \<in> fr_segs stack' \<Longrightarrow> apart ptr n c m" by fastforce+
    have "ptr + n \<le> length xs'" by (rule rq_split_bounds [OF s])
    then have "ordered_outside (blit xs' ptr (insertion_sort cmp (array_slice xs' ptr n))) (fr_segs stack')"
      by (intro ordered_outside_done [OF o(1,3)]) (auto intro: insertion_sort_sorted)
    moreover have "rq_work stack' < rq_work stack" using rq_split_work [OF s] Cons by simp
    ultimately show ?thesis using less.hyps [OF _ l] o(2) by blast
  qed (use less.prems in simp)
qed

lemma rqsort_sorted:
  assumes "rqsort cmp xs = Some ys"
  shows "sorted_wrt (\<lambda>x y. cmp x y \<le> 0) ys"
proof (cases "length xs < 2")
  case True
  with assms have "ys = xs" by (simp add: rqsort_def)
  with True show ?thesis by (auto simp: sorted_wrt_iff_nth_less)
next
  case False
  let ?f = "\<lparr>fr_base = 0, fr_count = length xs, fr_depth = 0\<rparr>"
  have "ordered_outside xs (fr_segs [?f])" "fr_disjoint [?f]"
    by (auto simp: ordered_outside_def)
  with assms False rq_loop_ordered [of xs "[?f]" ys] have "ordered_outside ys {}"
    by (simp add: rqsort_def)
  then show ?thesis by (auto simp: sorted_wrt_iff_nth_less ordered_outside_def)
qed

end

lemma rqsort_total: "\<exists>ys. rqsort cmp xs = Some ys \<and> mset ys = mset xs"
  using rq_loop_perm [of "[\<lparr>fr_base = 0, fr_count = length xs, fr_depth = 0\<rparr>]" xs cmp]
  by (simp add: rqsort_def)

section \<open>Properties\<close>

text \<open>C18: whatever the comparison function answers, even inconsistently, the sort terminates, never
  writes past its stack of 50 segments, never leaves the array, and permutes its elements.\<close>

theorem rqsort_permutes: "\<exists>ys. rqsort cmp xs = Some ys \<and> mset ys = mset xs"
  by (rule rqsort_total)

text \<open>C8: when the comparison is a total preorder, the sort returns the elements in order.\<close>

theorem rqsort_correct:
  assumes "\<And>x y. cmp x y < 0 \<longleftrightarrow> cmp y x > 0"
    and "\<And>x y z. cmp x y \<le> 0 \<Longrightarrow> cmp y z \<le> 0 \<Longrightarrow> cmp x z \<le> 0"
  shows "\<exists>ys. rqsort cmp xs = Some ys \<and> mset ys = mset xs \<and> sorted_wrt (\<lambda>x y. cmp x y \<le> 0) ys"
proof -
  have "comparator cmp" using assms by (rule comparator.intro)
  then show ?thesis using rqsort_total [of cmp xs] comparator.rqsort_sorted by blast
qed

theorem rqsort_witness:
  "\<exists>ys. rqsort (\<lambda>x y. x mod 10 - y mod 10 :: int) [13, 2, 31, 7, 45, 23, 99, 1] = Some ys \<and>
        mset ys = mset [13, 2, 31, 7, 45, 23, 99, 1] \<and> sorted_wrt (\<lambda>x y. x mod 10 - y mod 10 \<le> 0) ys"
  by (rule rqsort_correct) simp_all

text \<open>The partition of a segment leaves the elements smaller than a pivot, those identical to
  it and the greater ones in this order, and the two outer parts together are shorter than the segment.\<close>

theorem rq_partition_three_parts:
  assumes "xs \<noteq> []"
  shows "\<exists>p ys lt gt. rq_partition cmp xs = (ys, lt, gt) \<and> mset ys = mset xs \<and> lt < gt \<and> gt \<le> length ys \<and>
    (\<forall>k<length ys.
       (k < lt \<longrightarrow> cmp p (ys ! k) > 0) \<and>
       (lt \<le> k \<and> k < gt \<longrightarrow> ys ! k = p \<or> cmp p (ys ! k) = 0) \<and>
       (gt \<le> k \<longrightarrow> cmp p (ys ! k) < 0))"
proof -
  obtain ys lt gt where r: "rq_partition cmp xs = (ys, lt, gt)" by (metis prod_cases3)
  from rq_partition_spec [OF r assms] obtain p where
    "mset ys = mset xs" "rq_partitioned cmp p ys lt gt" by blast
  with r show ?thesis unfolding rq_partitioned_def by blast
qed

theorem rq_partition_three_parts_witness:
  "\<exists>p ys lt gt. rq_partition (\<lambda>x y. x - y :: int) [3, 1, 2] = (ys, lt, gt) \<and> mset ys = mset [3, 1, 2] \<and>
    lt < gt \<and> gt \<le> length ys \<and>
    (\<forall>k<length ys.
       (k < lt \<longrightarrow> p - ys ! k > 0) \<and>
       (lt \<le> k \<and> k < gt \<longrightarrow> ys ! k = p \<or> p - ys ! k = 0) \<and>
       (gt \<le> k \<longrightarrow> p - ys ! k < 0))"
  using rq_partition_three_parts [of "[3, 1, 2]" "\<lambda>x y. x - y"] by simp

end
