(* ===== verification/CharRange.thy ===== *)
theory CharRange
  imports SortDriver
begin

text \<open>
  Sets of code points as sorted arrays of interval ends (\<open>CharRange\<close> of \<open>libunicode.c\<close> and
  \<open>libunicode.h\<close>): the growable array, the in-place compression, and union, intersection,
  symmetric difference, difference and complement.
\<close>

section \<open>The code\<close>

record CharRange =
  cr_len :: nat
  cr_size :: nat
  cr_points :: "u32 list"

datatype CharRangeOpEnum = CR_OP_UNION | CR_OP_INTER | CR_OP_XOR | CR_OP_SUB

definition cr_init :: CharRange where
  "cr_init = \<lparr>cr_len = 0, cr_size = 0, cr_points = []\<rparr>"

definition cr_realloc :: "CharRange \<Rightarrow> nat \<Rightarrow> answers \<Rightarrow> int \<times> CharRange \<times> answers" where
  "cr_realloc cr sz s =
     (if sz > cr_size cr
      then
        (let new_size = max sz (cr_size cr * 3 div 2)
         in case mem_realloc (cr_points cr) new_size s of
              (None, s) \<Rightarrow> (-1, cr, s)
            | (Some new_buf, s) \<Rightarrow> (0, cr\<lparr>cr_points := new_buf, cr_size := new_size\<rparr>, s))
      else (0, cr, s))"

definition cr_copy :: "CharRange \<Rightarrow> CharRange \<Rightarrow> answers \<Rightarrow> int \<times> CharRange \<times> answers" where
  "cr_copy cr cr1 s =
     (case cr_realloc cr (cr_len cr1) s of
        (ret, cr, s) \<Rightarrow>
          if ret \<noteq> 0 then (-1, cr, s)
          else (0, cr\<lparr>cr_points := blit (cr_points cr) 0 (take (cr_len cr1) (cr_points cr1)), cr_len := cr_len cr1\<rparr>, s))"

definition cr_put :: "CharRange \<Rightarrow> u32 \<Rightarrow> CharRange" where
  "cr_put cr v = cr\<lparr>cr_points := (cr_points cr)[cr_len cr := v], cr_len := cr_len cr + 1\<rparr>"

definition cr_add_point :: "CharRange \<Rightarrow> u32 \<Rightarrow> answers \<Rightarrow> int \<times> CharRange \<times> answers" where
  "cr_add_point cr v s =
     (case (if cr_len cr \<ge> cr_size cr then cr_realloc cr (cr_len cr + 1) s else (0, cr, s)) of
        (ret, cr, s) \<Rightarrow> if ret \<noteq> 0 then (-1, cr, s) else (0, cr_put cr v, s))"

definition cr_add_interval :: "CharRange \<Rightarrow> u32 \<Rightarrow> u32 \<Rightarrow> answers \<Rightarrow> int \<times> CharRange \<times> answers" where
  "cr_add_interval cr c1 c2 s =
     (case (if cr_len cr + 2 > cr_size cr then cr_realloc cr (cr_len cr + 2) s else (0, cr, s)) of
        (ret, cr, s) \<Rightarrow> if ret \<noteq> 0 then (-1, cr, s) else (0, cr_put (cr_put cr c1) c2, s))"

text \<open>\<open>cr_compress\<close> works in place: \<open>i\<close> and \<open>j\<close> read ahead of \<open>k\<close>.\<close>

function cr_compress_merge :: "u32 list \<Rightarrow> nat \<Rightarrow> nat \<Rightarrow> nat" where
  "cr_compress_merge pt len j =
     (if j + 3 < len \<and> pt ! (j + 1) = pt ! (j + 2) then cr_compress_merge pt len (j + 2) else j)"
  by auto
termination by (relation "measure (\<lambda>(pt, len, j). len - j)") auto

declare cr_compress_merge.simps [simp del]

lemma cr_compress_merge_ge: "j \<le> cr_compress_merge pt len j"
  by (induction pt len j rule: cr_compress_merge.induct) (subst cr_compress_merge.simps, auto)

function cr_compress_loop :: "u32 list \<Rightarrow> nat \<Rightarrow> nat \<Rightarrow> nat \<Rightarrow> u32 list \<times> nat" where
  "cr_compress_loop pt len i k =
     (if i + 1 < len
      then
        (if pt ! i = pt ! (i + 1) then cr_compress_loop pt len (i + 2) k
         else
           (let j = cr_compress_merge pt len i;
                pt = pt[k := pt ! i];
                pt = pt[k + 1 := pt ! (j + 1)]
            in cr_compress_loop pt len (j + 2) (k + 2)))
      else (pt, k))"
  by auto
termination
proof (relation "measure (\<lambda>(pt, len, i, k). len - i)", goal_cases)
  case (3 pt len i k j pt' pt'')
  then show ?case using cr_compress_merge_ge [of i pt len] by auto
qed auto

declare cr_compress_loop.simps [simp del]

definition cr_compress :: "CharRange \<Rightarrow> CharRange" where
  "cr_compress cr =
     (case cr_compress_loop (cr_points cr) (cr_len cr) 0 0 of
        (pt, k) \<Rightarrow> cr\<lparr>cr_points := pt, cr_len := k\<rparr>)"

definition cr_is_in :: "CharRangeOpEnum \<Rightarrow> nat \<Rightarrow> nat \<Rightarrow> nat" where
  "cr_is_in op a_idx b_idx =
     (case op of
        CR_OP_UNION \<Rightarrow> (a_idx AND 1) OR (b_idx AND 1)
      | CR_OP_INTER \<Rightarrow> (a_idx AND 1) AND (b_idx AND 1)
      | CR_OP_XOR \<Rightarrow> (a_idx AND 1) XOR (b_idx AND 1)
      | CR_OP_SUB \<Rightarrow> (a_idx AND 1) AND ((b_idx AND 1) XOR 1))"

text \<open>The next point in increasing order with the indices after it.\<close>

definition cr_next_point :: "u32 list \<Rightarrow> nat \<Rightarrow> u32 list \<Rightarrow> nat \<Rightarrow> nat \<Rightarrow> nat \<Rightarrow> (u32 \<times> nat \<times> nat) option" where
  "cr_next_point a_pt a_len b_pt b_len a_idx b_idx =
     (if a_idx < a_len \<and> b_idx < b_len
      then
        (if a_pt ! a_idx < b_pt ! b_idx then Some (a_pt ! a_idx, a_idx + 1, b_idx)
         else if a_pt ! a_idx = b_pt ! b_idx then Some (a_pt ! a_idx, a_idx + 1, b_idx + 1)
         else Some (b_pt ! b_idx, a_idx, b_idx + 1))
      else if a_idx < a_len then Some (a_pt ! a_idx, a_idx + 1, b_idx)
      else if b_idx < b_len then Some (b_pt ! b_idx, a_idx, b_idx + 1)
      else None)"

function cr_op_loop ::
  "CharRange \<Rightarrow> u32 list \<Rightarrow> nat \<Rightarrow> u32 list \<Rightarrow> nat \<Rightarrow> CharRangeOpEnum \<Rightarrow> nat \<Rightarrow> nat \<Rightarrow> answers \<Rightarrow> int \<times> CharRange \<times> answers" where
  "cr_op_loop cr a_pt a_len b_pt b_len op a_idx b_idx s =
     (case cr_next_point a_pt a_len b_pt b_len a_idx b_idx of
        None \<Rightarrow> (0, cr, s)
      | Some (v, a_idx, b_idx) \<Rightarrow>
          if cr_is_in op a_idx b_idx \<noteq> cr_len cr AND 1
          then (case cr_add_point cr v s of
                  (ret, cr, s) \<Rightarrow>
                    if ret \<noteq> 0 then (-1, cr, s)
                    else cr_op_loop cr a_pt a_len b_pt b_len op a_idx b_idx s)
          else cr_op_loop cr a_pt a_len b_pt b_len op a_idx b_idx s)"
  by auto
termination
  by (relation "measure (\<lambda>(cr, a_pt, a_len, b_pt, b_len, op, a_idx, b_idx, s). (a_len - a_idx) + (b_len - b_idx))")
    (auto simp: cr_next_point_def split: if_splits)

declare cr_op_loop.simps [simp del]

definition cr_op ::
  "CharRange \<Rightarrow> u32 list \<Rightarrow> nat \<Rightarrow> u32 list \<Rightarrow> nat \<Rightarrow> CharRangeOpEnum \<Rightarrow> answers \<Rightarrow> int \<times> CharRange \<times> answers" where
  "cr_op cr a_pt a_len b_pt b_len op s =
     (case cr_op_loop cr a_pt a_len b_pt b_len op 0 0 s of
        (ret, cr, s) \<Rightarrow> if ret \<noteq> 0 then (-1, cr, s) else (0, cr_compress cr, s))"

definition cr_op1 :: "CharRange \<Rightarrow> u32 list \<Rightarrow> nat \<Rightarrow> CharRangeOpEnum \<Rightarrow> answers \<Rightarrow> int \<times> CharRange \<times> answers" where
  "cr_op1 cr b_pt b_len op s =
     (let a = cr in
      cr_op (cr\<lparr>cr_len := 0, cr_size := 0, cr_points := []\<rparr>) (cr_points a) (cr_len a) b_pt b_len op s)"

definition cr_union_interval :: "CharRange \<Rightarrow> u32 \<Rightarrow> u32 \<Rightarrow> answers \<Rightarrow> int \<times> CharRange \<times> answers" where
  "cr_union_interval cr c1 c2 s = cr_op1 cr [c1, c2 + 1] 2 CR_OP_UNION s"

definition cr_invert :: "CharRange \<Rightarrow> answers \<Rightarrow> int \<times> CharRange \<times> answers" where
  "cr_invert cr s =
     (let len = cr_len cr in
      case cr_realloc cr (len + 2) s of
        (ret, cr, s) \<Rightarrow>
          if ret \<noteq> 0 then (-1, cr, s)
          else
            (let pt = blit (cr_points cr) 1 (take len (cr_points cr));
                 pt = pt[0 := 0];
                 pt = pt[len + 1 := - 1]
             in (0, cr_compress (cr\<lparr>cr_points := pt, cr_len := len + 2\<rparr>), s)))"

text \<open>Sorting the intervals by their first point; the elements \<open>rqsort\<close> moves are pairs of points.\<close>

definition point_cmp :: "u32 \<times> u32 \<Rightarrow> u32 \<times> u32 \<Rightarrow> int" where
  "point_cmp p1 p2 = of_bool (fst p1 > fst p2) - of_bool (fst p1 < fst p2)"

fun cr_pairs :: "u32 list \<Rightarrow> (u32 \<times> u32) list" where
  "cr_pairs (x # y # xs) = (x, y) # cr_pairs xs"
| "cr_pairs _ = []"

fun cr_unpairs :: "(u32 \<times> u32) list \<Rightarrow> u32 list" where
  "cr_unpairs [] = []"
| "cr_unpairs ((x, y) # ps) = x # y # cr_unpairs ps"

function cr_overlap_merge :: "u32 list \<Rightarrow> nat \<Rightarrow> nat \<Rightarrow> u32 \<Rightarrow> nat \<times> u32" where
  "cr_overlap_merge pt len i stop =
     (if i < len
      then
        (let start1 = pt ! i;
             end1 = pt ! (i + 1)
         in if start1 > stop then (i, stop)
            else if end1 \<le> stop then cr_overlap_merge pt len (i + 2) stop
            else cr_overlap_merge pt len (i + 2) end1)
      else (i, stop))"
  by auto
termination by (relation "measure (\<lambda>(pt, len, i, e). len - i)") auto

declare cr_overlap_merge.simps [simp del]

lemma cr_overlap_merge_ge: "i \<le> fst (cr_overlap_merge pt len i e)"
  by (induction pt len i e rule: cr_overlap_merge.induct) (subst cr_overlap_merge.simps, fastforce simp: Let_def intro: Suc_leD)

function cr_overlap_loop :: "u32 list \<Rightarrow> nat \<Rightarrow> nat \<Rightarrow> nat \<Rightarrow> u32 list \<times> nat" where
  "cr_overlap_loop pt len i j =
     (if i < len
      then
        (let start = pt ! i in
         case cr_overlap_merge pt len (i + 2) (pt ! (i + 1)) of
           (i, stop) \<Rightarrow> cr_overlap_loop (pt[j := start, j + 1 := stop]) len i (j + 2))
      else (pt, j))"
  by auto
termination
proof (relation "measure (\<lambda>(pt, len, i, j). len - i)", goal_cases)
  case (2 pt len i j start i' e)
  then show ?case using cr_overlap_merge_ge [of "i + 2" pt len "pt ! (i + 1)"] by (auto simp: prod_eq_iff)
qed auto

declare cr_overlap_loop.simps [simp del]

definition cr_sort_and_remove_overlap :: "CharRange \<Rightarrow> CharRange option" where
  "cr_sort_and_remove_overlap cr =
     (case rqsort point_cmp (cr_pairs (take (cr_len cr) (cr_points cr))) of
        None \<Rightarrow> None
      | Some ps \<Rightarrow>
          (case cr_overlap_loop (blit (cr_points cr) 0 (cr_unpairs ps)) (cr_len cr) 0 0 of
             (pt, j) \<Rightarrow> Some (cr\<lparr>cr_points := pt, cr_len := j\<rparr>)))"

end
