(* ===== verification/CharRangeSets.thy ===== *)
theory CharRangeSets
  imports CharRange
begin

text \<open>
  The sets that \<open>CharRange\<close> arrays denote: a code point belongs to the set when an odd number of
  ends is not above it. The operations of the code are the operations on sets, their results are the
  unique strictly increasing representations, and a failed allocation leaves a well-formed range.
\<close>

section \<open>The growable array\<close>

definition cr_list :: "CharRange \<Rightarrow> u32 list" where
  "cr_list cr = take (cr_len cr) (cr_points cr)"

definition cr_ok :: "CharRange \<Rightarrow> bool" where
  "cr_ok cr \<longleftrightarrow> cr_len cr \<le> cr_size cr \<and> length (cr_points cr) = cr_size cr"

lemma cr_realloc_cases [consumes 2, case_names ok failed]:
  assumes "cr_realloc cr n s = (ret, cr', s')" "cr_ok cr"
  obtains "ret = 0" "cr_ok cr'" "n \<le> cr_size cr'" "cr_len cr' = cr_len cr" "cr_list cr' = cr_list cr" "set s' \<subseteq> set s"
  | "ret = -1" "cr' = cr" "None \<in> set s" "set s' \<subseteq> set s"
proof (cases "n > cr_size cr")
  case False
  with assms that(1) show ?thesis by (auto simp: cr_realloc_def)
next
  case True
  let ?n = "max n (cr_size cr * 3 div 2)"
  obtain r s1 where m: "mem_realloc (cr_points cr) ?n s = (r, s1)" by (cases "mem_realloc (cr_points cr) ?n s")
  have "length (cr_points cr) \<le> ?n" using True assms(2) by (simp add: cr_ok_def)
  with m show ?thesis
  proof (cases rule: mem_realloc_cases)
    case (ok q)
    have "take (cr_len cr) q = take (cr_len cr) (cr_points cr)"
      using ok(3) assms(2) by (metis cr_ok_def min.absorb1 take_take)
    with ok m True assms that(1) show ?thesis by (auto simp: cr_realloc_def cr_ok_def cr_list_def)
  next
    case failed
    with m True assms that(2) show ?thesis by (auto simp: cr_realloc_def)
  qed
qed

lemma cr_put_list:
  "cr_ok cr \<Longrightarrow> cr_len cr < cr_size cr \<Longrightarrow>
   cr_ok (cr_put cr v) \<and> cr_list (cr_put cr v) = cr_list cr @ [v] \<and> cr_len (cr_put cr v) = cr_len cr + 1 \<and>
   cr_size (cr_put cr v) = cr_size cr"
  by (simp add: cr_put_def cr_ok_def cr_list_def take_Suc_conv_app_nth)

lemma cr_list_length [simp]: "cr_ok cr \<Longrightarrow> length (cr_list cr) = cr_len cr"
  by (simp add: cr_list_def cr_ok_def)

lemma cr_add_point_cases [consumes 2, case_names ok failed]:
  assumes "cr_add_point cr v s = (ret, cr', s')" "cr_ok cr"
  obtains "ret = 0" "cr_ok cr'" "cr_list cr' = cr_list cr @ [v]" "set s' \<subseteq> set s"
  | "ret = -1" "cr_ok cr'" "cr_list cr' = cr_list cr" "None \<in> set s" "set s' \<subseteq> set s"
proof (cases "cr_len cr \<ge> cr_size cr")
  case False
  with assms cr_put_list [of cr v] that(1) show ?thesis by (auto simp: cr_add_point_def)
next
  case True
  obtain r c s1 where r: "cr_realloc cr (cr_len cr + 1) s = (r, c, s1)" by (metis prod_cases3)
  from r assms(2) show ?thesis
  proof (cases rule: cr_realloc_cases)
    case ok
    with r True assms cr_put_list [of c v] that(1) show ?thesis by (auto simp: cr_add_point_def)
  next
    case failed
    with r True assms that(2) show ?thesis by (auto simp: cr_add_point_def)
  qed
qed

lemma cr_add_interval_cases [consumes 2, case_names ok failed]:
  assumes "cr_add_interval cr c1 c2 s = (ret, cr', s')" "cr_ok cr"
  obtains "ret = 0" "cr_ok cr'" "cr_list cr' = cr_list cr @ [c1, c2]" "set s' \<subseteq> set s"
  | "ret = -1" "cr_ok cr'" "cr_list cr' = cr_list cr" "None \<in> set s" "set s' \<subseteq> set s"
proof (cases "cr_len cr + 2 > cr_size cr")
  case False
  with assms cr_put_list [of cr c1] cr_put_list [of "cr_put cr c1" c2] that(1) show ?thesis
    by (auto simp: cr_add_interval_def)
next
  case True
  obtain r c s1 where r: "cr_realloc cr (cr_len cr + 2) s = (r, c, s1)" by (metis prod_cases3)
  from r assms(2) show ?thesis
  proof (cases rule: cr_realloc_cases)
    case ok
    with r True assms cr_put_list [of c c1] cr_put_list [of "cr_put c c1" c2] that(1) show ?thesis
      by (auto simp: cr_add_interval_def)
  next
    case failed
    with r True assms that(2) show ?thesis by (auto simp: cr_add_interval_def)
  qed
qed

section \<open>Sets of points\<close>

definition cr_count :: "u32 \<Rightarrow> u32 list \<Rightarrow> nat" where
  "cr_count c xs = length (filter (\<lambda>v. v \<le> c) xs)"

definition cr_mem :: "u32 list \<Rightarrow> u32 \<Rightarrow> bool" where
  "cr_mem xs c \<longleftrightarrow> odd (cr_count c xs)"

lemma cr_count_simps [simp]:
  "cr_count c [] = 0" "cr_count c (x # xs) = of_bool (x \<le> c) + cr_count c xs"
  "cr_count c (xs @ ys) = cr_count c xs + cr_count c ys"
  by (simp_all add: cr_count_def)

lemma cr_count_all: "(\<And>x. x \<in> set xs \<Longrightarrow> x \<le> c) \<Longrightarrow> cr_count c xs = length xs"
  by (simp add: cr_count_def)

lemma cr_count_none: "(\<And>x. x \<in> set xs \<Longrightarrow> c < x) \<Longrightarrow> cr_count c xs = 0"
  by (force simp: cr_count_def filter_empty_conv)

lemma cr_mem_pair:
  assumes "x \<le> y" "sorted (y # zs)"
  shows "cr_mem (x # y # zs) c \<longleftrightarrow> x \<le> c \<and> c < y \<or> cr_mem zs c"
proof -
  have "cr_count c zs = 0" if "c < y"
    using assms(2) that by (intro cr_count_none) (auto intro: order.strict_trans2)
  then show ?thesis using assms(1) by (cases "y \<le> c"; cases "x \<le> c") (auto simp: cr_mem_def not_le)
qed

text \<open>The strictly increasing arrays represent different sets.\<close>

lemma cr_mem_unique:
  "sorted_wrt (<) xs \<Longrightarrow> sorted_wrt (<) ys \<Longrightarrow> cr_mem xs = cr_mem ys \<Longrightarrow> xs = ys"
proof (induction xs arbitrary: ys)
  case Nil
  show ?case
  proof (cases ys)
    case (Cons y ys')
    with Nil have "cr_mem ys y" by (auto simp: cr_mem_def cr_count_none)
    moreover have "\<not> cr_mem [] y" by (simp add: cr_mem_def)
    ultimately show ?thesis using Nil.prems(3) by metis
  qed simp
next
  case (Cons x xs)
  have x: "cr_mem (x # xs) x" "c < x \<Longrightarrow> \<not> cr_mem (x # xs) c" for c
    using Cons.prems(1) by (auto simp: cr_mem_def cr_count_none order.strict_trans)
  show ?case
  proof (cases ys)
    case Nil
    with x(1) Cons.prems(3) show ?thesis by (simp add: cr_mem_def)
  next
    case (Cons y zs)
    have y: "cr_mem (y # zs) y" "c < y \<Longrightarrow> \<not> cr_mem (y # zs) c" for c
      using Cons.prems(2) unfolding Cons by (auto simp: cr_mem_def cr_count_none order.strict_trans)
    have "x = y" using x y Cons.prems(3) unfolding Cons by (metis linorder_less_linear)
    moreover have "cr_mem xs c = cr_mem zs c" for c
    proof (cases "x \<le> c")
      case True
      with fun_cong [OF Cons.prems(3), of c] \<open>x = y\<close> show ?thesis unfolding Cons by (simp add: cr_mem_def)
    next
      case False
      then show ?thesis using Cons.prems(1,2) \<open>x = y\<close> unfolding Cons
        by (auto simp: cr_mem_def cr_count_none not_le order.strict_trans)
    qed
    ultimately show ?thesis using Cons.IH [of zs] Cons.prems(1,2) unfolding Cons by auto
  qed
qed

section \<open>Compression\<close>

fun compress_points :: "u32 list \<Rightarrow> u32 list" and compress_from :: "u32 \<Rightarrow> u32 \<Rightarrow> u32 list \<Rightarrow> u32 list" where
  "compress_points (x # y # zs) = (if x = y then compress_points zs else compress_from x y zs)"
| "compress_points _ = []"
| "compress_from x y (u # w # zs) = (if y = u then compress_from x w zs else x # y # compress_points (u # w # zs))"
| "compress_from x y _ = [x, y]"

lemma cr_mem_compress:
  "even (length xs) \<Longrightarrow> cr_mem (compress_points xs) c = cr_mem xs c"
  "even (length zs) \<Longrightarrow> cr_mem (compress_from x y zs) c = cr_mem (x # y # zs) c"
  by (induction xs and x y zs rule: compress_points_compress_from.induct) (auto simp: cr_mem_def)

lemma even_compress: "even (length (compress_points xs))" "even (length (compress_from x y zs))"
  by (induction xs and x y zs rule: compress_points_compress_from.induct) auto

lemma set_compress:
  "set (compress_points xs) \<subseteq> set xs" "set (compress_from x y zs) \<subseteq> set (x # y # zs)"
  by (induction xs and x y zs rule: compress_points_compress_from.induct) auto

lemma sorted_compress:
  "sorted xs \<Longrightarrow> sorted_wrt (<) (compress_points xs)"
  "x < y \<Longrightarrow> sorted (y # zs) \<Longrightarrow> sorted_wrt (<) (compress_from x y zs)"
proof (induction xs and x y zs rule: compress_points_compress_from.induct)
  case (1 x y zs)
  then show ?case by (cases "x = y") auto
next
  case (3 x y u w zs)
  show ?case
  proof (cases "y = u")
    case True
    with 3(1) 3(3,4) show ?thesis by (auto intro: order.strict_trans2)
  next
    case False
    have "y < v" if "v \<in> set (compress_points (u # w # zs))" for v
      using False that 3(4) set_compress(1) [of "u # w # zs"] by force
    with False 3(2,3,4) show ?thesis
      by (auto simp del: compress_points.simps intro: order.strict_trans)
  qed
qed auto

lemma drop_two: "i + 1 < length xs \<Longrightarrow> drop i xs = xs ! i # xs ! (i + 1) # drop (i + 2) xs"
  by (simp add: Cons_nth_drop_Suc)

lemma cr_compress_merge_points:
  "len \<le> length pt \<Longrightarrow> j + 1 < len \<Longrightarrow>
   cr_compress_merge pt len j + 1 < len \<and>
   compress_from x (pt ! (j + 1)) (drop (j + 2) (take len pt)) =
     x # pt ! (cr_compress_merge pt len j + 1) # compress_points (drop (cr_compress_merge pt len j + 2) (take len pt))"
proof (induction pt len j rule: cr_compress_merge.induct)
  case (1 pt len j)
  show ?case
  proof (cases "j + 3 < len")
    case True
    have d: "drop (j + 2) (take len pt) = pt ! (j + 2) # pt ! (j + 3) # drop (j + 4) (take len pt)"
      using 1(2) True drop_two [of "j + 2" "take len pt"] by (simp add: numeral_eq_Suc)
    show ?thesis
    proof (cases "pt ! (j + 1) = pt ! (j + 2)")
      case eq: True
      then have m: "cr_compress_merge pt len j = cr_compress_merge pt len (j + 2)"
        using True by (subst cr_compress_merge.simps) simp
      show ?thesis
        unfolding m d using 1(1) [OF conjI [OF True eq]] 1(2) True eq by (simp add: numeral_eq_Suc)
    next
      case False
      then have m: "cr_compress_merge pt len j = j" by (subst cr_compress_merge.simps) simp
      show ?thesis unfolding m using 1(3) False d by simp
    qed
  next
    case False
    then have m: "cr_compress_merge pt len j = j" by (subst cr_compress_merge.simps) simp
    have "length (drop (j + 2) (take len pt)) < 2" using False by simp
    then have "compress_from x y (drop (j + 2) (take len pt)) = [x, y]"
      "compress_points (drop (j + 2) (take len pt)) = []" for y
      by (cases "drop (j + 2) (take len pt)" rule: compress_points.cases; simp)+
    then show ?thesis unfolding m using 1(3) by simp
  qed
qed

lemma compress_points_short: "length xs < 2 \<Longrightarrow> compress_points xs = []"
  by (cases xs rule: compress_points.cases) auto

lemma cr_compress_loop_points:
  "cr_compress_loop pt len i k = (pt', k') \<Longrightarrow> len \<le> length pt \<Longrightarrow> k \<le> i \<Longrightarrow> k \<le> len \<Longrightarrow>
   length pt' = length pt \<and> k' \<le> len \<and> take k' pt' = take k pt @ compress_points (drop i (take len pt))"
proof (induction pt len i k arbitrary: pt' k' rule: cr_compress_loop.induct)
  case (1 pt len i k)
  note len = "1.prems"(2)
  show ?case
  proof (cases "i + 1 < len")
    case False
    then have "cr_compress_loop pt len i k = (pt, k)" by (subst cr_compress_loop.simps) simp
    with False "1.prems" show ?thesis by (simp add: compress_points_short)
  next
    case True
    then have d: "drop i (take len pt) = pt ! i # pt ! (i + 1) # drop (i + 2) (take len pt)"
      using drop_two [of i "take len pt"] len by simp
    show ?thesis
    proof (cases "pt ! i = pt ! (i + 1)")
      case eq: True
      with True have "cr_compress_loop pt len i k = cr_compress_loop pt len (i + 2) k"
        by (subst cr_compress_loop.simps) simp
      with "1.IH"(1) [OF True eq] "1.prems" d eq show ?thesis by simp
    next
      case False
      define j where "j = cr_compress_merge pt len i"
      define pt2 where "pt2 = pt[k := pt ! i, k + 1 := pt[k := pt ! i] ! (j + 1)]"
      have ij: "i \<le> j" unfolding j_def by (rule cr_compress_merge_ge)
      note merge = cr_compress_merge_points [OF len True, of "pt ! i", folded j_def]
      have kj: "k + 1 < j + 2" "k + 1 < length pt" using "1.prems" ij merge by auto
      then have kl: "k < length pt" "k + 1 < len" using merge "1.prems"(3) ij by auto
      have pt2: "pt2 = pt[k := pt ! i, k + 1 := pt ! (j + 1)]" using kj kl by (simp add: pt2_def)
      have r2: "cr_compress_loop pt len i k = cr_compress_loop pt2 len (j + 2) (k + 2)"
        using True False kj kl by (subst cr_compress_loop.simps) (simp add: Let_def pt2_def j_def)
      moreover have "take (k + 2) pt2 = take k pt @ [pt ! i, pt ! (j + 1)]"
        using kj kl by (simp add: pt2 take_Suc_conv_app_nth numeral_2_eq_2)
      moreover have "drop (j + 2) (take len pt2) = drop (j + 2) (take len pt)"
        using kj by (simp add: pt2 take_update_swap)
      moreover have "compress_points (drop i (take len pt)) =
          pt ! i # pt ! (j + 1) # compress_points (drop (j + 2) (take len pt))"
        using d False merge by simp
      moreover have "length pt2 = length pt" by (simp add: pt2_def)
      moreover have "cr_compress_loop pt2 len (j + 2) (k + 2) = (pt', k')" using r2 "1.prems"(1) by simp
      note IH = "1.IH"(2) [OF True False j_def refl refl, folded pt2_def, OF this]
      ultimately show ?thesis using IH kj kl len by simp
    qed
  qed
qed

lemma cr_compress_spec:
  assumes "cr_ok cr"
  shows "cr_ok (cr_compress cr) \<and> cr_list (cr_compress cr) = compress_points (cr_list cr)"
proof -
  obtain pt k where r: "cr_compress_loop (cr_points cr) (cr_len cr) 0 0 = (pt, k)"
    by (cases "cr_compress_loop (cr_points cr) (cr_len cr) 0 0")
  with cr_compress_loop_points [OF r] assms show ?thesis
    by (auto simp: cr_compress_def cr_ok_def cr_list_def)
qed

section \<open>The binary operations\<close>

fun cr_bool_op :: "CharRangeOpEnum \<Rightarrow> bool \<Rightarrow> bool \<Rightarrow> bool" where
  "cr_bool_op CR_OP_UNION x y = (x \<or> y)"
| "cr_bool_op CR_OP_INTER x y = (x \<and> y)"
| "cr_bool_op CR_OP_XOR x y = (x \<noteq> y)"
| "cr_bool_op CR_OP_SUB x y = (x \<and> \<not> y)"

lemma cr_bool_op_False [simp]: "\<not> cr_bool_op op False False"
  by (cases op) auto

lemma and_one_nat: "(n::nat) AND 1 = of_bool (odd n)"
  by (simp add: and_one_eq odd_iff_mod_2_eq_one)

lemma cr_is_in_bool: "cr_is_in op i j = of_bool (cr_bool_op op (odd i) (odd j))"
  unfolding cr_is_in_def and_one_nat by (cases op; cases "odd i"; cases "odd j") simp_all

text \<open>After the points \<open>A\<close> and \<open>B\<close> have been consumed, the output \<open>E\<close> is in step with them.\<close>

definition cr_op_inv :: "CharRangeOpEnum \<Rightarrow> u32 list \<Rightarrow> u32 list \<Rightarrow> u32 list \<Rightarrow> bool" where
  "cr_op_inv op A B E \<longleftrightarrow>
     set E \<subseteq> set A \<union> set B \<and> sorted E \<and>
     odd (length E) = cr_bool_op op (odd (length A)) (odd (length B)) \<and>
     (\<forall>c. cr_mem E c = cr_bool_op op (cr_mem A c) (cr_mem B c))"

lemma cr_op_inv_step:
  assumes inv: "cr_op_inv op A B E" and le: "\<And>x. x \<in> set A \<union> set B \<Longrightarrow> x \<le> v"
    and A': "A' = A \<or> A' = A @ [v]" and B': "B' = B \<or> B' = B @ [v]"
    and new: "A' = A @ [v] \<or> B' = B @ [v]"
    and E': "E' = (if cr_bool_op op (odd (length A')) (odd (length B')) \<noteq> odd (length E) then E @ [v] else E)"
  shows "cr_op_inv op A' B' E'"
proof -
  have leE: "x \<le> v" if "x \<in> set E" for x using that inv le unfolding cr_op_inv_def by blast
  have par: "odd (length E') = cr_bool_op op (odd (length A')) (odd (length B'))"
    unfolding E' by simp
  have "cr_mem E' c = cr_bool_op op (cr_mem A' c) (cr_mem B' c)" for c
  proof (cases "v \<le> c")
    case True
    have "x \<le> v" if "x \<in> set A' \<union> set B' \<union> set E'" for x
      using that A' B' le leE unfolding E' by (auto split: if_splits)
    with True have "cr_count c A' = length A'" "cr_count c B' = length B'" "cr_count c E' = length E'"
      by (auto intro!: cr_count_all intro: order.trans)
    with par show ?thesis by (simp add: cr_mem_def)
  next
    case False
    then have "cr_count c A' = cr_count c A" "cr_count c B' = cr_count c B" "cr_count c E' = cr_count c E"
      using A' B' unfolding E' by auto
    with inv show ?thesis by (simp add: cr_mem_def cr_op_inv_def)
  qed
  moreover have "sorted E'" "set E' \<subseteq> set A' \<union> set B'"
    using inv leE A' B' new unfolding E' cr_op_inv_def by (auto simp: sorted_append)
  ultimately show ?thesis using par unfolding cr_op_inv_def by blast
qed

lemma cr_next_point_step:
  assumes nxt: "cr_next_point a_pt a_len b_pt b_len i j = Some (v, i', j')"
    and sorted: "sorted (take a_len a_pt)" "sorted (take b_len b_pt)" "a_len \<le> length a_pt" "b_len \<le> length b_pt"
    and ij: "i \<le> a_len" "j \<le> b_len"
    and dn: "\<And>x y. x \<in> set (take i a_pt) \<union> set (take j b_pt) \<Longrightarrow>
      y \<in> set (drop i (take a_len a_pt)) \<union> set (drop j (take b_len b_pt)) \<Longrightarrow> x \<le> y"
  shows "i' \<le> a_len \<and> j' \<le> b_len \<and>
    (\<forall>x\<in>set (take i a_pt) \<union> set (take j b_pt). x \<le> v) \<and>
    (take i' a_pt = take i a_pt \<and> i' = i \<or> take i' a_pt = take i a_pt @ [v] \<and> i' = Suc i) \<and>
    (take j' b_pt = take j b_pt \<and> j' = j \<or> take j' b_pt = take j b_pt @ [v] \<and> j' = Suc j) \<and>
    (i' = Suc i \<or> j' = Suc j) \<and>
    (\<forall>x\<in>set (take i' a_pt) \<union> set (take j' b_pt).
       \<forall>y\<in>set (drop i' (take a_len a_pt)) \<union> set (drop j' (take b_len b_pt)). x \<le> y)"
proof -
  let ?ra = "drop i (take a_len a_pt)" and ?rb = "drop j (take b_len b_pt)"
  have ra: "?ra = a_pt ! i # drop (Suc i) (take a_len a_pt)" "take (Suc i) a_pt = take i a_pt @ [a_pt ! i]" if "i < a_len"
    using that sorted(3) by (simp_all add: take_Suc_conv_app_nth flip: Cons_nth_drop_Suc)
  have rb: "?rb = b_pt ! j # drop (Suc j) (take b_len b_pt)" "take (Suc j) b_pt = take j b_pt @ [b_pt ! j]" if "j < b_len"
    using that sorted(4) by (simp_all add: take_Suc_conv_app_nth flip: Cons_nth_drop_Suc)
  have sa: "sorted ?ra" "sorted ?rb" using sorted by (simp_all add: sorted_wrt_drop)
  consider (both) "i < a_len" "j < b_len" "a_pt ! i = b_pt ! j" "v = a_pt ! i" "i' = Suc i" "j' = Suc j"
    | (a) "i < a_len" "v = a_pt ! i" "i' = Suc i" "j' = j" "j < b_len \<Longrightarrow> v < b_pt ! j"
    | (b) "j < b_len" "v = b_pt ! j" "i' = i" "j' = Suc j" "i < a_len \<Longrightarrow> v < a_pt ! i"
    using nxt by (auto simp: cr_next_point_def split: if_splits)
  then show ?thesis
  proof cases
    case both
    with ra rb sa dn show ?thesis by fastforce
  next
    case a
    have "v \<le> y" if "y \<in> set ?rb" for y
      using a(5) rb(1) sa(2) that by (cases "j < b_len") (auto intro: order.strict_implies_order order.trans)
    with a ra sa dn ij show ?thesis by fastforce
  next
    case b
    have "v \<le> y" if "y \<in> set ?ra" for y
      using b(5) ra(1) sa(1) that by (cases "i < a_len") (auto intro: order.strict_implies_order order.trans)
    with b rb sa dn ij show ?thesis by fastforce
  qed
qed

lemma cr_op_loop_spec:
  assumes "cr_op_loop cr a_pt a_len b_pt b_len op i j s = (ret, cr', s')" "cr_ok cr"
    and "cr_op_inv op (take i a_pt) (take j b_pt) (cr_list cr)"
    and "sorted (take a_len a_pt)" "sorted (take b_len b_pt)" "a_len \<le> length a_pt" "b_len \<le> length b_pt"
    and "i \<le> a_len" "j \<le> b_len"
    and "\<And>x y. x \<in> set (take i a_pt) \<union> set (take j b_pt) \<Longrightarrow>
      y \<in> set (drop i (take a_len a_pt)) \<union> set (drop j (take b_len b_pt)) \<Longrightarrow> x \<le> y"
  shows "cr_ok cr' \<and> set s' \<subseteq> set s \<and>
    (ret = 0 \<and> cr_op_inv op (take a_len a_pt) (take b_len b_pt) (cr_list cr') \<or> ret = -1 \<and> None \<in> set s)"
  using assms
proof (induction "(a_len - i) + (b_len - j)" arbitrary: cr i j s rule: less_induct)
  case less
  note eq = cr_op_loop.simps [of cr a_pt a_len b_pt b_len op i j s]
  show ?case
  proof (cases "cr_next_point a_pt a_len b_pt b_len i j")
    case None
    with less.prems(8,9) have "i = a_len" "j = b_len" by (auto simp: cr_next_point_def split: if_splits)
    with None less.prems(1-3) eq show ?thesis by simp
  next
    case (Some t)
    then obtain v i' j' where n: "cr_next_point a_pt a_len b_pt b_len i j = Some (v, i', j')" by (metis prod_cases3)
    note st = cr_next_point_step [OF n less.prems(4-10)]
    have dec: "(a_len - i') + (b_len - j') < (a_len - i) + (b_len - j)"
      using n by (auto simp: cr_next_point_def split: if_splits)
    have len: "length (take i' a_pt) = i'" "length (take j' b_pt) = j'"
      using st less.prems(6,7) by auto
    have inv: "cr_op_inv op (take i' a_pt) (take j' b_pt)
        (if cr_bool_op op (odd i') (odd j') \<noteq> odd (cr_len cr) then cr_list cr @ [v] else cr_list cr)"
      by (rule cr_op_inv_step [OF less.prems(3), of v]) (use st len less.prems(2) in auto)
    have c: "cr_is_in op i' j' \<noteq> cr_len cr AND 1 \<longleftrightarrow> cr_bool_op op (odd i') (odd j') \<noteq> odd (cr_len cr)"
      unfolding cr_is_in_bool and_one_nat by simp
    show ?thesis
    proof (cases "cr_is_in op i' j' \<noteq> cr_len cr AND 1")
      case False
      with n eq less.prems(1) have "cr_op_loop cr a_pt a_len b_pt b_len op i' j' s = (ret, cr', s')" by simp
      from less.hyps [OF dec this less.prems(2) _ less.prems(4-7)] inv c False st show ?thesis by auto
    next
      case True
      obtain r c1 s1 where a: "cr_add_point cr v s = (r, c1, s1)" by (metis prod_cases3)
      from a less.prems(2) show ?thesis
      proof (cases rule: cr_add_point_cases)
        case ok
        with n eq less.prems(1) True a
        have "cr_op_loop c1 a_pt a_len b_pt b_len op i' j' s1 = (ret, cr', s')" by simp
        from less.hyps [OF dec this ok(2) _ less.prems(4-7)] inv c True st ok show ?thesis by auto
      next
        case failed
        with n eq less.prems(1) True a show ?thesis by simp
      qed
    qed
  qed
qed

lemma cr_op_spec:
  assumes r: "cr_op cr a_pt a_len b_pt b_len op s = (ret, cr', s')" "cr_ok cr" "cr_len cr = 0"
    and ab: "sorted (take a_len a_pt)" "sorted (take b_len b_pt)" "a_len \<le> length a_pt" "b_len \<le> length b_pt"
    and ev: "even a_len" "even b_len"
  shows "cr_ok cr' \<and> set s' \<subseteq> set s \<and>
    (ret = 0 \<and> sorted_wrt (<) (cr_list cr') \<and> even (length (cr_list cr')) \<and>
       (\<forall>c. cr_mem (cr_list cr') c = cr_bool_op op (cr_mem (take a_len a_pt) c) (cr_mem (take b_len b_pt) c))
     \<or> ret = -1 \<and> None \<in> set s)"
proof -
  obtain r c s1 where l: "cr_op_loop cr a_pt a_len b_pt b_len op 0 0 s = (r, c, s1)" by (metis prod_cases3)
  have "cr_op_inv op (take 0 a_pt) (take 0 b_pt) (cr_list cr)"
    using assms(3) by (simp add: cr_op_inv_def cr_list_def cr_mem_def)
  from cr_op_loop_spec [OF l assms(2) this ab] have L: "cr_ok c \<and> set s1 \<subseteq> set s \<and>
    (r = 0 \<and> cr_op_inv op (take a_len a_pt) (take b_len b_pt) (cr_list c) \<or> r = -1 \<and> None \<in> set s)"
    by simp
  show ?thesis
  proof (cases "r = 0")
    case False
    with L l r(1) show ?thesis by (auto simp: cr_op_def)
  next
    case True
    with L have inv: "cr_op_inv op (take a_len a_pt) (take b_len b_pt) (cr_list c)" by simp
    then have ev: "even (length (cr_list c))" using ev ab unfolding cr_op_inv_def by simp
    have "cr' = cr_compress c" "ret = 0" "s' = s1" using True l r(1) by (auto simp: cr_op_def)
    with L cr_compress_spec [of c] inv ev show ?thesis
      by (auto simp: cr_op_inv_def cr_mem_compress even_compress sorted_compress)
  qed
qed

section \<open>Replacing the receiver, intervals and the complement\<close>

lemma cr_ok_reset [simp]: "cr_ok (cr\<lparr>cr_len := 0, cr_size := 0, cr_points := []\<rparr>)"
  by (simp add: cr_ok_def)

lemma cr_op1_spec:
  assumes "cr_op1 cr b_pt b_len op s = (ret, cr', s')" "cr_ok cr" "sorted (cr_list cr)" "even (cr_len cr)"
    and "sorted (take b_len b_pt)" "b_len \<le> length b_pt" "even b_len"
  shows "cr_ok cr' \<and> set s' \<subseteq> set s \<and>
    (ret = 0 \<and> sorted_wrt (<) (cr_list cr') \<and> even (length (cr_list cr')) \<and>
       (\<forall>c. cr_mem (cr_list cr') c = cr_bool_op op (cr_mem (cr_list cr) c) (cr_mem (take b_len b_pt) c))
     \<or> ret = -1 \<and> None \<in> set s)"
  unfolding cr_list_def [of cr]
  by (rule cr_op_spec [OF _ cr_ok_reset, of cr])
    (use assms in \<open>auto simp: cr_op1_def Let_def cr_list_def cr_ok_def\<close>)

lemma cr_mem_interval:
  assumes "c1 \<le> c2" "c2 \<noteq> (- 1 :: u32)"
  shows "cr_mem [c1, c2 + 1] c \<longleftrightarrow> c1 \<le> c \<and> c \<le> c2" "sorted [c1, c2 + 1]"
proof -
  have u: "unat (c2 + 1) = unat c2 + 1"
  proof -
    have "1 + c2 \<noteq> 0" using assms(2) by (simp add: add_eq_0_iff)
    then show ?thesis using unatSuc [of c2] by (simp add: add.commute)
  qed
  then have "c2 + 1 \<le> c \<longleftrightarrow> \<not> c \<le> c2" "c1 \<le> c2 + 1"
    using assms(1) by (auto simp: word_le_nat_alt)
  with assms show "cr_mem [c1, c2 + 1] c \<longleftrightarrow> c1 \<le> c \<and> c \<le> c2" "sorted [c1, c2 + 1]"
    by (auto simp: cr_mem_def intro: order.trans)
qed

lemma cr_union_interval_spec:
  assumes "cr_union_interval cr c1 c2 s = (ret, cr', s')" "cr_ok cr" "sorted (cr_list cr)" "even (cr_len cr)"
    and "c1 \<le> c2" "c2 \<noteq> - 1"
  shows "cr_ok cr' \<and> set s' \<subseteq> set s \<and>
    (ret = 0 \<and> sorted_wrt (<) (cr_list cr') \<and> even (length (cr_list cr')) \<and>
       (\<forall>c. cr_mem (cr_list cr') c \<longleftrightarrow> cr_mem (cr_list cr) c \<or> c1 \<le> c \<and> c \<le> c2)
     \<or> ret = -1 \<and> None \<in> set s)"
  using cr_op1_spec [OF assms(1) [unfolded cr_union_interval_def] assms(2-4)] cr_mem_interval [OF assms(5,6)]
  by auto

lemma cr_invert_spec:
  assumes "cr_invert cr s = (ret, cr', s')" "cr_ok cr" "sorted (cr_list cr)" "even (cr_len cr)"
  shows "cr_ok cr' \<and> set s' \<subseteq> set s \<and>
    (ret = 0 \<and> sorted_wrt (<) (cr_list cr') \<and> even (length (cr_list cr')) \<and>
       (\<forall>c. cr_mem (cr_list cr') c \<longleftrightarrow> c \<noteq> - 1 \<and> \<not> cr_mem (cr_list cr) c)
     \<or> ret = -1 \<and> cr' = cr \<and> None \<in> set s)"
proof -
  obtain r c s1 where re: "cr_realloc cr (cr_len cr + 2) s = (r, c, s1)" by (metis prod_cases3)
  from re assms(2) show ?thesis
  proof (cases rule: cr_realloc_cases)
    case failed
    with assms re show ?thesis by (auto simp: cr_invert_def)
  next
    case ok
    let ?xs = "cr_list cr"
    define pt where "pt = (blit (cr_points c) 1 (take (cr_len cr) (cr_points c)))[0 := 0, cr_len cr + 1 := (- 1 :: u32)]"
    have len: "length (cr_points c) = cr_size c" "cr_len cr + 2 \<le> cr_size c" "take (cr_len cr) (cr_points c) = ?xs"
      "length ?xs = cr_len cr"
      using ok assms(2) by (auto simp: cr_ok_def cr_list_def)
    have "take (cr_len cr + 2) pt = 0 # ?xs @ [- 1]"
    proof (rule nth_equalityI)
      show "length (take (cr_len cr + 2) pt) = length (0 # ?xs @ [- 1])" using len by (simp add: pt_def)
    next
      fix i assume "i < length (take (cr_len cr + 2) pt)"
      then have "i < cr_len cr + 2" by simp
      then consider "i = 0" | j where "i = Suc j" "j < cr_len cr" | "i = cr_len cr + 1"
        by (cases i) (auto simp: less_Suc_eq)
      then show "take (cr_len cr + 2) pt ! i = (0 # ?xs @ [- 1]) ! i"
        by cases (use len in \<open>auto simp: pt_def blit_def nth_append nth_list_update\<close>)
    qed
    then have l: "cr_list (c\<lparr>cr_points := pt, cr_len := cr_len cr + 2\<rparr>) = 0 # ?xs @ [- 1]"
      by (simp add: cr_list_def)
    have k: "cr_ok (c\<lparr>cr_points := pt, cr_len := cr_len cr + 2\<rparr>)" using len by (simp add: cr_ok_def pt_def)
    have res: "ret = 0" "cr' = cr_compress (c\<lparr>cr_points := pt, cr_len := cr_len cr + 2\<rparr>)" "s' = s1"
      using assms(1) re ok(1) by (auto simp: cr_invert_def pt_def Let_def)
    have top: "x \<le> - 1" for x :: u32 by (rule word_n1_ge)
    have mem: "cr_mem (0 # ?xs @ [- 1]) c \<longleftrightarrow> c \<noteq> - 1 \<and> \<not> cr_mem ?xs c" for c
    proof (cases "c = - 1")
      case True
      have "cr_count (- 1) ?xs = cr_len cr" using cr_count_all [of ?xs "- 1"] top len(4) by simp
      with True assms(4) show ?thesis by (simp add: cr_mem_def)
    next
      case False
      then have "\<not> - 1 \<le> c" using top [of c] by (metis order.antisym)
      with False show ?thesis by (simp add: cr_mem_def)
    qed
    have so: "sorted (0 # ?xs @ [- 1])" using assms(3) top by (auto simp: sorted_append)
    show ?thesis
      using cr_compress_spec [OF k] l res ok(6) mem so len(4) assms(4)
      by (simp add: cr_mem_compress even_compress sorted_compress)
  qed
qed

section \<open>Sorting and merging intervals\<close>

interpretation point: comparator point_cmp
  by unfold_locales (auto simp: point_cmp_def split: if_splits)

definition ivl_mem :: "(u32 \<times> u32) list \<Rightarrow> u32 \<Rightarrow> bool" where
  "ivl_mem ps c \<longleftrightarrow> (\<exists>(x, y)\<in>set ps. x \<le> c \<and> c < y)"

lemma ivl_mem_simps [simp]:
  "ivl_mem [] c \<longleftrightarrow> False" "ivl_mem ((x, y) # ps) c \<longleftrightarrow> x \<le> c \<and> c < y \<or> ivl_mem ps c"
  by (auto simp: ivl_mem_def)

fun merge_from :: "u32 \<Rightarrow> u32 \<Rightarrow> (u32 \<times> u32) list \<Rightarrow> u32 list" where
  "merge_from s e [] = [s, e]"
| "merge_from s e ((s1, e1) # ps) =
     (if s1 > e then s # e # merge_from s1 e1 ps else if e1 \<le> e then merge_from s e ps else merge_from s e1 ps)"

fun merge_pairs :: "(u32 \<times> u32) list \<Rightarrow> u32 list" where
  "merge_pairs [] = []"
| "merge_pairs ((s, e) # ps) = merge_from s e ps"

lemma merge_from_spec:
  "s \<le> e \<Longrightarrow> sorted_wrt (\<lambda>p q. fst p \<le> fst q) ps \<Longrightarrow> (\<forall>p\<in>set ps. s \<le> fst p \<and> fst p \<le> snd p) \<Longrightarrow>
   sorted (merge_from s e ps) \<and> even (length (merge_from s e ps)) \<and> (\<forall>x\<in>set (merge_from s e ps). s \<le> x) \<and>
   (\<forall>c. cr_mem (merge_from s e ps) c \<longleftrightarrow> s \<le> c \<and> c < e \<or> ivl_mem ps c)"
proof (induction s e ps rule: merge_from.induct)
  case (1 s e)
  then show ?case using cr_mem_pair [of s e "[]"] by (simp add: cr_mem_def)
next
  case (2 s e s1 e1 ps)
  consider "s1 > e" | "s1 \<le> e" "e1 \<le> e" | "s1 \<le> e" "e < e1" by fastforce
  then show ?case
  proof cases
    case 1
    let ?m = "merge_from s1 e1 ps"
    from 2(1) [OF 1] 2(5,6) have IH: "sorted ?m" "even (length ?m)" "\<forall>x\<in>set ?m. s1 \<le> x"
      "\<And>c. cr_mem ?m c \<longleftrightarrow> s1 \<le> c \<and> c < e1 \<or> ivl_mem ps c" by auto
    have "sorted (e # ?m)" using 1 IH(1,3) by (auto intro: order.strict_implies_order order.strict_trans2)
    moreover have "\<forall>x\<in>set ?m. s \<le> x" using IH(3) 2(6) by (auto intro: order.trans)
    ultimately show ?thesis
      using 1 2(4) IH cr_mem_pair [of s e ?m] by (auto intro: order.trans)
  next
    case 2
    with "2.IH"(2) "2.prems" show ?thesis
      by (auto intro: order.strict_trans2 order.trans)
  next
    case 3
    let ?m = "merge_from s e1 ps"
    have "s \<le> e1" "\<not> e < s1" "\<not> e1 \<le> e" using 3 "2.prems"(1) by auto
    with "2.IH"(3) "2.prems" have IH: "sorted ?m" "even (length ?m)" "\<forall>x\<in>set ?m. s \<le> x"
      "\<And>c. cr_mem ?m c \<longleftrightarrow> s \<le> c \<and> c < e1 \<or> ivl_mem ps c" by auto
    have "s \<le> c \<and> c < e1 \<longleftrightarrow> s \<le> c \<and> c < e \<or> s1 \<le> c \<and> c < e1" for c
      using 3 "2.prems"(1,3) by (cases "c < e") (auto simp: not_less intro: order.trans order.strict_trans)
    with IH \<open>\<not> e < s1\<close> \<open>\<not> e1 \<le> e\<close> show ?thesis by auto
  qed
qed

lemma cr_pairs_length: "length (cr_pairs xs) = length xs div 2"
  by (induction xs rule: cr_pairs.induct) auto

lemma cr_unpairs_length: "length (cr_unpairs ps) = 2 * length ps"
  by (induction ps rule: cr_unpairs.induct) auto

lemma cr_pairs_unpairs [simp]: "cr_pairs (cr_unpairs ps) = ps"
  by (induction ps rule: cr_unpairs.induct) auto

lemma cr_overlap_merge_points:
  "len \<le> length pt \<Longrightarrow> i \<le> len \<Longrightarrow> even len \<Longrightarrow> even i \<Longrightarrow> cr_overlap_merge pt len i stop = (i', e) \<Longrightarrow>
   i \<le> i' \<and> i' \<le> len \<and> even i' \<and>
   merge_from s stop (cr_pairs (drop i (take len pt))) = s # e # merge_pairs (cr_pairs (drop i' (take len pt)))"
proof (induction pt len i stop rule: cr_overlap_merge.induct)
  case (1 pt len i stop)
  show ?case
  proof (cases "i < len")
    case False
    then have "i' = i" "e = stop"
      using "1.prems"(5) by (simp_all add: cr_overlap_merge.simps [of pt len i stop])
    with False "1.prems" show ?thesis by simp
  next
    case True
    then have i: "i + 1 < len" using 1(5,6) by (metis Suc_eq_plus1 Suc_lessI even_Suc)
    then have d: "drop i (take len pt) = pt ! i # pt ! (i + 1) # drop (i + 2) (take len pt)"
      using drop_two [of i "take len pt"] 1(3) by simp
    consider "pt ! i > stop" | "pt ! i \<le> stop" "pt ! (i + 1) \<le> stop" | "pt ! i \<le> stop" "pt ! (i + 1) > stop"
      by fastforce
    then show ?thesis
    proof cases
      case 1
      then have "i' = i" "e = stop"
        using "1.prems"(5) True by (simp_all add: cr_overlap_merge.simps [of pt len i stop] Let_def)
      with 1 "1.prems"(2,4) d show ?thesis by simp
    next
      case 2
      then have "cr_overlap_merge pt len (i + 2) stop = (i', e)"
        using "1.prems"(5) True by (simp add: cr_overlap_merge.simps [of pt len i stop] Let_def not_le [symmetric])
      with "1.IH"(1) [OF True refl refl] 2 "1.prems" i d show ?thesis by auto
    next
      case 3
      then have "cr_overlap_merge pt len (i + 2) (pt ! (i + 1)) = (i', e)"
        using "1.prems"(5) True by (simp add: cr_overlap_merge.simps [of pt len i stop] Let_def not_le [symmetric])
      with "1.IH"(2) [OF True refl refl] 3 "1.prems" i d show ?thesis by (auto simp: not_le)
    qed
  qed
qed

lemma cr_overlap_loop_points:
  "cr_overlap_loop pt len i j = (pt', j') \<Longrightarrow> len \<le> length pt \<Longrightarrow> j \<le> i \<Longrightarrow> i \<le> len \<Longrightarrow> even len \<Longrightarrow> even i \<Longrightarrow>
   length pt' = length pt \<and> j' \<le> len \<and> take j' pt' = take j pt @ merge_pairs (cr_pairs (drop i (take len pt)))"
proof (induction pt len i j arbitrary: pt' j' rule: cr_overlap_loop.induct)
  case (1 pt len i j)
  note len = "1.prems"(2)
  show ?case
  proof (cases "i < len")
    case False
    with "1.prems" show ?thesis by (simp add: cr_overlap_loop.simps [of pt len i j])
  next
    case True
    then have i: "i + 1 < len" using "1.prems"(5,6) by (metis Suc_eq_plus1 Suc_lessI even_Suc)
    then have d: "drop i (take len pt) = pt ! i # pt ! (i + 1) # drop (i + 2) (take len pt)"
      using drop_two [of i "take len pt"] len by simp
    obtain i1 e where m: "cr_overlap_merge pt len (i + 2) (pt ! (i + 1)) = (i1, e)"
      by (cases "cr_overlap_merge pt len (i + 2) (pt ! (i + 1))")
    note merge = cr_overlap_merge_points [OF len _ "1.prems"(5) _ m, of "pt ! i"]
    have mm: "i + 2 \<le> i1" "i1 \<le> len" "even i1"
      "merge_from (pt ! i) (pt ! (i + 1)) (cr_pairs (drop (i + 2) (take len pt))) =
       pt ! i # e # merge_pairs (cr_pairs (drop i1 (take len pt)))"
      using merge i "1.prems"(6) by auto
    define pt2 where "pt2 = pt[j := pt ! i, j + 1 := e]"
    have r: "cr_overlap_loop pt2 len i1 (j + 2) = (pt', j')"
      using "1.prems"(1) True m by (simp add: cr_overlap_loop.simps [of pt len i j] pt2_def)
    have j: "j < length pt" "j + 1 < length pt" using "1.prems" i by auto
    have "take (j + 2) pt2 = take j pt @ [pt ! i, e]"
      using j by (simp add: pt2_def take_Suc_conv_app_nth numeral_2_eq_2)
    moreover have "drop i1 (take len pt2) = drop i1 (take len pt)"
      using mm "1.prems"(3) by (simp add: pt2_def take_update_swap)
    ultimately show ?thesis
      using "1.IH" [OF True refl m [symmetric], folded pt2_def, OF r] mm d "1.prems" by (simp add: pt2_def)
  qed
qed

lemma cr_sort_and_remove_overlap_spec:
  assumes "cr_ok cr" "even (cr_len cr)" "\<forall>p\<in>set (cr_pairs (cr_list cr)). fst p \<le> snd p"
  shows "\<exists>cr'. cr_sort_and_remove_overlap cr = Some cr' \<and> cr_ok cr' \<and> sorted (cr_list cr') \<and>
    even (cr_len cr') \<and> (\<forall>c. cr_mem (cr_list cr') c \<longleftrightarrow> ivl_mem (cr_pairs (cr_list cr)) c)"
proof -
  let ?ps = "cr_pairs (cr_list cr)"
  obtain ps where ps: "rqsort point_cmp ?ps = Some ps" "mset ps = mset ?ps"
    using rqsort_total [of point_cmp ?ps] by blast
  have so: "sorted_wrt (\<lambda>p q. fst p \<le> fst q) ps"
    using point.rqsort_sorted [OF ps(1)] by (rule sorted_wrt_mono_rel [rotated]) (auto simp: point_cmp_def split: if_splits)
  have se: "set ps = set ?ps" using ps(2) by (rule mset_eq_setD)
  have "length ps = length ?ps" using ps(2) by (rule mset_eq_length)
  then have len: "length (cr_unpairs ps) = cr_len cr"
    using assms by (simp add: cr_unpairs_length cr_pairs_length)
  define pt where "pt = blit (cr_points cr) 0 (cr_unpairs ps)"
  have pt: "length pt = cr_size cr" "take (cr_len cr) pt = cr_unpairs ps"
    using assms(1) len by (auto simp: pt_def cr_ok_def blit_def)
  obtain pt' j where l: "cr_overlap_loop pt (cr_len cr) 0 0 = (pt', j)" by (cases "cr_overlap_loop pt (cr_len cr) 0 0")
  have L: "length pt' = cr_size cr" "j \<le> cr_len cr" "take j pt' = merge_pairs ps"
    using cr_overlap_loop_points [OF l] pt assms(1,2) by (auto simp: cr_ok_def)
  have M: "sorted (merge_pairs ps) \<and> even (length (merge_pairs ps)) \<and> (\<forall>c. cr_mem (merge_pairs ps) c \<longleftrightarrow> ivl_mem ps c)"
  proof (cases ps)
    case (Cons p qs)
    moreover have "\<forall>p\<in>set ps. fst p \<le> snd p" using se assms(3) by simp
    ultimately show ?thesis
      using so merge_from_spec [of "fst p" "snd p" qs] by (cases p) auto
  qed (simp add: cr_mem_def)
  have "ivl_mem ps c = ivl_mem ?ps c" for c using se by (simp add: ivl_mem_def)
  moreover have "length (merge_pairs ps) = j"
    using L(1,2) assms(1) unfolding L(3) [symmetric] cr_ok_def by simp
  ultimately show ?thesis
    using ps(1) l L M assms(1) by (auto simp add: cr_sort_and_remove_overlap_def cr_list_def cr_ok_def pt_def [symmetric])
qed

section \<open>Properties\<close>

text \<open>C13: union, intersection, symmetric difference and difference of two increasing arrays of
  interval ends denote the operation on the sets; the result is strictly increasing, so it is the
  unique representation, and the only error is a failed allocation, which leaves a well-formed range.\<close>

theorem cr_op_correct:
  assumes "cr_op cr a_pt a_len b_pt b_len op s = (ret, cr', s')" "cr_ok cr" "cr_len cr = 0"
    and "sorted (take a_len a_pt)" "sorted (take b_len b_pt)" "a_len \<le> length a_pt" "b_len \<le> length b_pt"
    and "even a_len" "even b_len"
  shows "cr_ok cr' \<and>
    (ret = 0 \<and> sorted_wrt (<) (cr_list cr') \<and> even (length (cr_list cr')) \<and>
       (\<forall>c. cr_mem (cr_list cr') c =
          (case op of
             CR_OP_UNION \<Rightarrow> cr_mem (take a_len a_pt) c \<or> cr_mem (take b_len b_pt) c
           | CR_OP_INTER \<Rightarrow> cr_mem (take a_len a_pt) c \<and> cr_mem (take b_len b_pt) c
           | CR_OP_XOR \<Rightarrow> cr_mem (take a_len a_pt) c \<noteq> cr_mem (take b_len b_pt) c
           | CR_OP_SUB \<Rightarrow> cr_mem (take a_len a_pt) c \<and> \<not> cr_mem (take b_len b_pt) c))
     \<or> ret = -1 \<and> None \<in> set s)"
  using cr_op_spec [OF assms] by (cases op) auto

theorem cr_op_correct_witness:
  "\<exists>cr'. cr_op cr_init [1, 5, 9, 12] 4 [3, 10] 2 CR_OP_SUB [] = (0, cr', []) \<and> sorted_wrt (<) (cr_list cr') \<and>
     (\<forall>c. cr_mem (cr_list cr') c = (cr_mem [1, 5, 9, 12] c \<and> \<not> cr_mem [3, 10] c))"
proof -
  obtain ret cr' s' where r: "cr_op cr_init [1, 5, 9, 12] 4 [3, 10] 2 CR_OP_SUB [] = (ret, cr', s')"
    by (metis prod_cases3)
  moreover have "s' = []"
    using cr_op_spec [OF r] by (simp add: cr_ok_def cr_init_def)
  ultimately show ?thesis
    using cr_op_correct [OF r] by (simp add: cr_ok_def cr_init_def)
qed

text \<open>Inverting a range denotes the complement below \<open>UINT32_MAX\<close>, or fails and changes nothing.\<close>

theorem cr_invert_correct:
  assumes "cr_invert cr s = (ret, cr', s')" "cr_ok cr" "sorted (cr_list cr)" "even (cr_len cr)"
  shows "cr_ok cr' \<and>
    (ret = 0 \<and> sorted_wrt (<) (cr_list cr') \<and> even (length (cr_list cr')) \<and>
       (\<forall>c. cr_mem (cr_list cr') c \<longleftrightarrow> c \<noteq> - 1 \<and> \<not> cr_mem (cr_list cr) c)
     \<or> ret = -1 \<and> cr' = cr \<and> None \<in> set s)"
  using cr_invert_spec [OF assms] by blast

theorem cr_invert_witness:
  "\<exists>cr'. fst (cr_invert \<lparr>cr_len = 2, cr_size = 2, cr_points = [0, 7]\<rparr> []) = 0 \<and>
     fst (snd (cr_invert \<lparr>cr_len = 2, cr_size = 2, cr_points = [0, 7]\<rparr> [])) = cr' \<and>
     (\<forall>c. cr_mem (cr_list cr') c \<longleftrightarrow> c \<noteq> - 1 \<and> \<not> cr_mem [0, 7] c)"
  using cr_invert_correct [of "\<lparr>cr_len = 2, cr_size = 2, cr_points = [0, 7]\<rparr>" "[]"]
  by (cases "cr_invert \<lparr>cr_len = 2, cr_size = 2, cr_points = [0, 7]\<rparr> []") (simp add: cr_ok_def cr_list_def)

text \<open>Adding the interval from \<open>c1\<close> to \<open>c2\<close> denotes the union, for every \<open>c2\<close> but \<open>UINT32_MAX\<close>.\<close>

theorem cr_union_interval_correct:
  assumes "cr_union_interval cr c1 c2 s = (ret, cr', s')" "cr_ok cr" "sorted (cr_list cr)" "even (cr_len cr)"
    and "c1 \<le> c2" "c2 \<noteq> - 1"
  shows "cr_ok cr' \<and>
    (ret = 0 \<and> sorted_wrt (<) (cr_list cr') \<and> even (length (cr_list cr')) \<and>
       (\<forall>c. cr_mem (cr_list cr') c \<longleftrightarrow> cr_mem (cr_list cr) c \<or> c1 \<le> c \<and> c \<le> c2)
     \<or> ret = -1 \<and> None \<in> set s)"
  using cr_union_interval_spec [OF assms] by blast

theorem cr_union_interval_witness:
  "fst (cr_union_interval \<lparr>cr_len = 2, cr_size = 2, cr_points = [2, 7]\<rparr> 5 9 []) = 0 \<and>
   (\<forall>c. cr_mem (cr_list (fst (snd (cr_union_interval \<lparr>cr_len = 2, cr_size = 2, cr_points = [2, 7]\<rparr> 5 9 [])))) c
      \<longleftrightarrow> cr_mem [2, 7] c \<or> 5 \<le> c \<and> c \<le> 9)"
  using cr_union_interval_correct [of "\<lparr>cr_len = 2, cr_size = 2, cr_points = [2, 7]\<rparr>" 5 9 "[]"]
  by (cases "cr_union_interval \<lparr>cr_len = 2, cr_size = 2, cr_points = [2, 7]\<rparr> 5 9 []")
    (simp add: cr_ok_def cr_list_def)

text \<open>C29: sorting the intervals and merging those that overlap or touch terminates, keeps the set of
  points the intervals cover, and leaves increasing ends.\<close>

theorem cr_sort_and_remove_overlap_correct:
  assumes "cr_ok cr" "even (cr_len cr)" "\<forall>p\<in>set (cr_pairs (cr_list cr)). fst p \<le> snd p"
  shows "\<exists>cr'. cr_sort_and_remove_overlap cr = Some cr' \<and> cr_ok cr' \<and> sorted (cr_list cr') \<and>
    even (cr_len cr') \<and>
    (\<forall>c. cr_mem (cr_list cr') c \<longleftrightarrow> (\<exists>(x, y)\<in>set (cr_pairs (cr_list cr)). x \<le> c \<and> c < y))"
  using cr_sort_and_remove_overlap_spec [OF assms] unfolding ivl_mem_def .

theorem cr_sort_and_remove_overlap_witness:
  "\<exists>cr'. cr_sort_and_remove_overlap \<lparr>cr_len = 6, cr_size = 6, cr_points = [8, 9, 1, 3, 2, 5]\<rparr> = Some cr' \<and>
    sorted (cr_list cr') \<and> (\<forall>c. cr_mem (cr_list cr') c \<longleftrightarrow> (\<exists>(x, y)\<in>{(8, 9), (1, 3), (2, 5)}. x \<le> c \<and> c < y))"
  using cr_sort_and_remove_overlap_correct [of "\<lparr>cr_len = 6, cr_size = 6, cr_points = [8, 9, 1, 3, 2, 5]\<rparr>"]
  by (simp add: cr_ok_def cr_list_def) blast

end
