(* ===== verification/DynBuf.thy ===== *)
theory DynBuf
  imports CharRange
begin

text \<open>
  The growable byte buffer (\<open>DynBuf\<close> of \<open>cutils.c\<close> and \<open>cutils.h\<close>) with its sticky error flag, and
  the interface through which the encoders of the engine use it.
\<close>

section \<open>The code\<close>

text \<open>\<open>size_t\<close> values are naturals below \<open>2 ^ 64\<close>; the sums that the code checks for wrap-around wrap.\<close>

definition size_add :: "nat \<Rightarrow> nat \<Rightarrow> nat" where
  "size_add a b = (a + b) mod 2 ^ 64"

record DynBuf =
  db_buf :: "u8 list"
  db_size :: nat
  db_allocated_size :: nat
  db_error :: bool

definition dbuf_init :: DynBuf where
  "dbuf_init = \<lparr>db_buf = [], db_size = 0, db_allocated_size = 0, db_error = False\<rparr>"

definition dbuf_claim :: "DynBuf \<Rightarrow> nat \<Rightarrow> answers \<Rightarrow> int \<times> DynBuf \<times> answers" where
  "dbuf_claim d len s =
     (let new_size = size_add (db_size d) len
      in if new_size < len then (-1, d, s)
         else if new_size > db_allocated_size d
         then
           (if db_error d then (-1, d, s)
            else
              (let sz = size_add (db_allocated_size d) (db_allocated_size d div 2)
               in if sz < db_allocated_size d then (-1, d, s)
                  else
                    (let new_size = (if sz > new_size then sz else new_size)
                     in case mem_realloc (db_buf d) new_size s of
                          (None, s) \<Rightarrow> (-1, d\<lparr>db_error := True\<rparr>, s)
                        | (Some new_buf, s) \<Rightarrow>
                            (0, d\<lparr>db_buf := new_buf, db_allocated_size := new_size\<rparr>, s))))
         else (0, d, s))"

definition dbuf_store :: "DynBuf \<Rightarrow> u8 list \<Rightarrow> DynBuf" where
  "dbuf_store d data = d\<lparr>db_buf := blit (db_buf d) (db_size d) data, db_size := db_size d + length data\<rparr>"

definition dbuf_put :: "DynBuf \<Rightarrow> u8 list \<Rightarrow> answers \<Rightarrow> int \<times> DynBuf \<times> answers" where
  "dbuf_put d data s =
     (case (if db_allocated_size d - db_size d < length data then dbuf_claim d (length data) s else (0, d, s)) of
        (ret, d, s) \<Rightarrow> if ret \<noteq> 0 then (-1, d, s) else (0, dbuf_store d data, s))"

definition dbuf_put_self :: "DynBuf \<Rightarrow> nat \<Rightarrow> nat \<Rightarrow> answers \<Rightarrow> int \<times> DynBuf \<times> answers" where
  "dbuf_put_self d off len s =
     (case (if db_allocated_size d - db_size d < len then dbuf_claim d len s else (0, d, s)) of
        (ret, d, s) \<Rightarrow> if ret \<noteq> 0 then (-1, d, s) else (0, dbuf_store d (array_slice (db_buf d) off len), s))"

text \<open>The in-line versions test the room themselves; multi-byte values are little endian.\<close>

definition dbuf_putc :: "DynBuf \<Rightarrow> u8 \<Rightarrow> answers \<Rightarrow> int \<times> DynBuf \<times> answers" where
  "dbuf_putc d c s =
     (if db_allocated_size d - db_size d < 1 then dbuf_put d [c] s else (0, dbuf_store d [c], s))"

definition bytes_u16 :: "u16 \<Rightarrow> u8 list" where
  "bytes_u16 v = [ucast v, ucast (drop_bit 8 v)]"

definition bytes_u32 :: "u32 \<Rightarrow> u8 list" where
  "bytes_u32 v = map (\<lambda>i. ucast (drop_bit (8 * i) v)) [0..<4]"

definition bytes_u64 :: "u64 \<Rightarrow> u8 list" where
  "bytes_u64 v = map (\<lambda>i. ucast (drop_bit (8 * i) v)) [0..<8]"

definition dbuf_put_u16 :: "DynBuf \<Rightarrow> u16 \<Rightarrow> answers \<Rightarrow> int \<times> DynBuf \<times> answers" where
  "dbuf_put_u16 d v s =
     (if db_allocated_size d - db_size d < 2 then dbuf_put d (bytes_u16 v) s else (0, dbuf_store d (bytes_u16 v), s))"

definition dbuf_put_u32 :: "DynBuf \<Rightarrow> u32 \<Rightarrow> answers \<Rightarrow> int \<times> DynBuf \<times> answers" where
  "dbuf_put_u32 d v s =
     (if db_allocated_size d - db_size d < 4 then dbuf_put d (bytes_u32 v) s else (0, dbuf_store d (bytes_u32 v), s))"

definition dbuf_put_u64 :: "DynBuf \<Rightarrow> u64 \<Rightarrow> answers \<Rightarrow> int \<times> DynBuf \<times> answers" where
  "dbuf_put_u64 d v s =
     (if db_allocated_size d - db_size d < 8 then dbuf_put d (bytes_u64 v) s else (0, dbuf_store d (bytes_u64 v), s))"

text \<open>C strings are the bytes before the terminator.\<close>

definition dbuf_putstr :: "DynBuf \<Rightarrow> u8 list \<Rightarrow> answers \<Rightarrow> int \<times> DynBuf \<times> answers" where
  "dbuf_putstr d str s = dbuf_put d (takeWhile (\<lambda>c. c \<noteq> 0) str) s"

definition dbuf_set_error :: "DynBuf \<Rightarrow> DynBuf" where
  "dbuf_set_error d = d\<lparr>db_error := True\<rparr>"

section \<open>Contents and errors\<close>

definition db_bytes :: "DynBuf \<Rightarrow> u8 list" where
  "db_bytes d = take (db_size d) (db_buf d)"

definition db_ok :: "DynBuf \<Rightarrow> bool" where
  "db_ok d \<longleftrightarrow> db_size d \<le> db_allocated_size d \<and> length (db_buf d) = db_allocated_size d \<and> db_allocated_size d < 2 ^ 64"

lemma db_ok_init: "db_ok dbuf_init" "db_bytes dbuf_init = []" "\<not> db_error dbuf_init"
  by (simp_all add: db_ok_def dbuf_init_def db_bytes_def)

lemma db_bytes_length [simp]: "db_ok d \<Longrightarrow> length (db_bytes d) = db_size d"
  by (simp add: db_ok_def db_bytes_def)

lemma dbuf_store_bytes:
  "db_ok d \<Longrightarrow> db_size d + length data \<le> db_allocated_size d \<Longrightarrow>
   db_ok (dbuf_store d data) \<and> db_bytes (dbuf_store d data) = db_bytes d @ data \<and>
   db_size (dbuf_store d data) = db_size d + length data \<and> db_error (dbuf_store d data) = db_error d"
  by (auto simp: dbuf_store_def db_ok_def db_bytes_def take_blit_whole)

text \<open>
  A failed claim changes at most the error flag. It raises the flag unless the sizes overflow, which
  needs a buffer of \<open>2 ^ 62\<close> bytes.
\<close>

lemma dbuf_claim_cases [consumes 2, case_names ok failed]:
  assumes "dbuf_claim d len s = (ret, d', s')" "db_ok d"
  obtains "ret = 0" "db_ok d'" "db_bytes d' = db_bytes d" "db_size d' = db_size d" "db_error d' = db_error d"
      "db_size d + len \<le> db_allocated_size d'" "set s' \<subseteq> set s"
  | "ret = -1" "db_ok d'" "db_bytes d' = db_bytes d" "db_size d' = db_size d" "set s' \<subseteq> set s"
      "db_error d' \<or> 2 ^ 64 \<le> db_size d + len \<or> 2 ^ 63 \<le> db_allocated_size d"
      "db_error d' \<Longrightarrow> db_error d \<or> None \<in> set s"
proof -
  have ok: "db_size d \<le> db_allocated_size d" "length (db_buf d) = db_allocated_size d" "db_allocated_size d < 2 ^ 64"
    using assms(2) by (auto simp: db_ok_def)
  define n where "n = size_add (db_size d) len"
  define z where "z = size_add (db_allocated_size d) (db_allocated_size d div 2)"
  have n: "n < 2 ^ 64" "2 ^ 64 \<le> db_size d + len \<or> n = db_size d + len"
    by (cases "db_size d + len < 2 ^ 64"; simp add: n_def size_add_def)+
  have z: "z < 2 ^ 64" "2 ^ 63 \<le> db_allocated_size d \<or> db_allocated_size d \<le> z"
    by (cases "2 ^ 63 \<le> db_allocated_size d"; simp add: z_def size_add_def)+
  have over: "n < len \<Longrightarrow> 2 ^ 64 \<le> db_size d + len" using n by auto
  have nn: "n = db_size d + len" if "\<not> n < len"
  proof (rule ccontr)
    assume "n \<noteq> db_size d + len"
    then have big: "2 ^ 64 \<le> db_size d + len" using n(2) by blast
    have "len < 2 ^ 64" using that n(1) by linarith
    then have "db_size d + len - 2 ^ 64 < 2 ^ 64" using ok by linarith
    then have "n = db_size d + len - 2 ^ 64"
      unfolding n_def size_add_def using le_mod_geq [OF big] by simp
    then show False using that ok big by linarith
  qed
  show ?thesis
  proof (cases "n < len \<or> n \<le> db_allocated_size d \<or> db_error d \<or> z < db_allocated_size d")
    case True
    then show ?thesis
      using assms that over nn n(2) z(2)
      by (auto simp: dbuf_claim_def simp flip: n_def z_def split: if_splits)
  next
    case False
    define m where "m = (if z > n then z else n)"
    obtain r s1 where re: "mem_realloc (db_buf d) m s = (r, s1)" by (cases "mem_realloc (db_buf d) m s")
    have m: "db_allocated_size d \<le> m" "n \<le> m" "m < 2 ^ 64" using False n(1) z(1) by (auto simp: m_def)
    have D: "dbuf_claim d len s = (case r of None \<Rightarrow> (-1, d\<lparr>db_error := True\<rparr>, s1)
        | Some b \<Rightarrow> (0, d\<lparr>db_buf := b, db_allocated_size := m\<rparr>, s1))"
      using False re by (auto simp: dbuf_claim_def Let_def simp flip: n_def z_def m_def split: option.splits)
    have "length (db_buf d) \<le> m" using m ok by simp
    with re show ?thesis
    proof (cases rule: mem_realloc_cases)
      case (ok q)
      have "take (db_size d) q = take (db_size d) (db_buf d)"
        using ok(3) assms(2) by (metis db_ok_def min.absorb1 take_take)
      then show ?thesis
        using ok D assms m nn False that(1) by (auto simp: db_ok_def db_bytes_def)
    next
      case failed
      with D assms that(2) show ?thesis by (auto simp: db_ok_def db_bytes_def)
    qed
  qed
qed

lemma dbuf_put_cases [consumes 2, case_names ok failed]:
  assumes "dbuf_put d data s = (ret, d', s')" "db_ok d"
  obtains "ret = 0" "db_ok d'" "db_bytes d' = db_bytes d @ data" "db_error d' = db_error d" "set s' \<subseteq> set s"
  | "ret = -1" "db_ok d'" "db_bytes d' = db_bytes d" "set s' \<subseteq> set s"
      "db_error d' \<or> 2 ^ 64 \<le> db_size d + length data \<or> 2 ^ 63 \<le> db_allocated_size d"
      "db_error d' \<Longrightarrow> db_error d \<or> None \<in> set s"
proof (cases "db_allocated_size d - db_size d < length data")
  case False
  then have "db_size d + length data \<le> db_allocated_size d" using assms(2) by (auto simp: db_ok_def)
  with False show ?thesis
    using assms dbuf_store_bytes [of d data] that(1) by (auto simp: dbuf_put_def)
next
  case True
  obtain r d1 s1 where c: "dbuf_claim d (length data) s = (r, d1, s1)" by (metis prod_cases3)
  from c assms(2) show ?thesis
  proof (cases rule: dbuf_claim_cases)
    case ok
    then show ?thesis using c True assms dbuf_store_bytes [of d1 data] that(1) by (auto simp: dbuf_put_def)
  next
    case failed
    then show ?thesis using c True assms that(2) by (auto simp: dbuf_put_def)
  qed
qed

text \<open>The in-line versions behave like \<open>dbuf_put\<close>.\<close>

lemma dbuf_put_inline:
  "dbuf_putc d c s = dbuf_put d [c] s"
  "dbuf_put_u16 d v s = dbuf_put d (bytes_u16 v) s"
  "dbuf_put_u32 d w s = dbuf_put d (bytes_u32 w) s"
  "dbuf_put_u64 d x s = dbuf_put d (bytes_u64 x) s"
  by (simp_all add: dbuf_putc_def dbuf_put_u16_def dbuf_put_u32_def dbuf_put_u64_def dbuf_put_def
      bytes_u16_def bytes_u32_def bytes_u64_def)

end
