(* ===== verification/Leb128.thy ===== *)
theory Leb128
  imports DynBuf
begin

text \<open>
  Variable-length integers of the bytecode (\<open>dbuf_put_leb128\<close>, \<open>get_leb128\<close> and their signed
  versions in \<open>quickjs.c\<close>), and the contract of a byte sink with a sticky error on which their
  writers rely: they ignore the answers of single writes and test the error once at the end.
\<close>

section \<open>Byte sinks\<close>

locale byte_sink =
  fixes sink_ok :: "'d \<Rightarrow> bool"
    and contents :: "'d \<Rightarrow> u8 list"
    and sink_failed :: "'d \<Rightarrow> bool"
    and put :: "'d \<Rightarrow> u8 \<Rightarrow> answers \<Rightarrow> int \<times> 'd \<times> answers"
  assumes put_law: "sink_ok d \<Longrightarrow> put d c s = (ret, d', s') \<Longrightarrow>
      sink_ok d' \<and> (sink_failed d \<longrightarrow> sink_failed d') \<and>
      (ret = 0 \<and> contents d' = contents d @ [c] \<or> ret \<noteq> 0 \<and> contents d' = contents d \<and> sink_failed d')"
begin

text \<open>Writes whose answers are ignored.\<close>

primrec put_all :: "'d \<Rightarrow> u8 list \<Rightarrow> answers \<Rightarrow> 'd \<times> answers" where
  "put_all d [] s = (d, s)"
| "put_all d (c # cs) s = (case put d c s of (ret, d, s) \<Rightarrow> put_all d cs s)"

lemma put_all_append: "put_all d (cs @ cs') s = (case put_all d cs s of (d, s) \<Rightarrow> put_all d cs' s)"
  by (induction cs arbitrary: d s) (simp_all split: prod.splits)

lemma put_all_spec:
  "sink_ok d \<Longrightarrow> put_all d cs s = (d', s') \<Longrightarrow>
   sink_ok d' \<and> (sink_failed d \<longrightarrow> sink_failed d') \<and> (sink_failed d' \<or> contents d' = contents d @ cs)"
proof (induction cs arbitrary: d s)
  case (Cons c cs)
  obtain ret d1 s1 where p: "put d c s = (ret, d1, s1)" by (metis prod_cases3)
  with Cons.prems have r: "put_all d1 cs s1 = (d', s')" by simp
  from put_law [OF Cons.prems(1) p] have "sink_ok d1" by blast
  from Cons.IH [OF this r] put_law [OF Cons.prems(1) p] show ?case by auto
qed simp

text \<open>A write that fails leaves the error behind, so a clean sink at the end has every byte.\<close>

lemma put_all_clean:
  "sink_ok d \<Longrightarrow> put_all d cs s = (d', s') \<Longrightarrow> \<not> sink_failed d' \<Longrightarrow> contents d' = contents d @ cs"
  using put_all_spec by blast

end

definition db_failed :: "DynBuf \<Rightarrow> bool" where
  "db_failed d \<longleftrightarrow> db_error d \<or> 2 ^ 63 \<le> db_allocated_size d"

lemma dbuf_put_allocated:
  "dbuf_put d data s = (ret, d', s') \<Longrightarrow> db_allocated_size d \<le> db_allocated_size d'"
  by (auto simp: dbuf_put_def dbuf_claim_def dbuf_store_def Let_def split: if_splits prod.splits option.splits)

interpretation db: byte_sink db_ok db_bytes db_failed dbuf_putc
proof
  fix d c s ret d' s'
  assume ok: "db_ok d" and p: "dbuf_putc d c s = (ret, d', s')"
  note p' = p [unfolded dbuf_put_inline]
  have a: "db_allocated_size d \<le> db_allocated_size d'" by (rule dbuf_put_allocated [OF p'])
  from p' ok show "db_ok d' \<and> (db_failed d \<longrightarrow> db_failed d') \<and>
      (ret = 0 \<and> db_bytes d' = db_bytes d @ [c] \<or> ret \<noteq> 0 \<and> db_bytes d' = db_bytes d \<and> db_failed d')"
  proof (cases rule: dbuf_put_cases)
    case ok
    with a show ?thesis by (auto simp: db_failed_def)
  next
    case failed
    have "2 ^ 63 \<le> db_allocated_size d" if "2 ^ 64 \<le> db_size d + length [c]"
      using that ok by (auto simp: db_ok_def)
    with failed a show ?thesis by (auto simp: db_failed_def)
  qed
qed

text \<open>
  Growing by half keeps the allocation below twice the contents, so the sizes of a buffer that is
  written byte by byte never overflow, and without a failed request no error is recorded.
\<close>

definition db_tight :: "DynBuf \<Rightarrow> bool" where
  "db_tight d \<longleftrightarrow> db_ok d \<and> db_allocated_size d \<le> 2 * db_size d + 1"

lemma dbuf_putc_tight:
  assumes "db_tight d" "dbuf_putc d c s = (ret, d', s')" "db_size d < 2 ^ 60"
  shows "db_tight d' \<and> db_size d' \<le> db_size d + 1 \<and> set s' \<subseteq> set s \<and> (db_error d' \<longrightarrow> db_error d \<or> None \<in> set s)"
proof -
  have ok: "db_ok d" "db_allocated_size d \<le> 2 * db_size d + 1" using assms(1) by (auto simp: db_tight_def)
  note p = assms(2) [unfolded dbuf_put_inline]
  have al: "db_allocated_size d' = db_allocated_size d \<or>
      db_size d = db_allocated_size d \<and> ret = 0 \<and> db_allocated_size d' \<le> 2 * db_size d + 1"
    using p ok assms(3)
    by (auto simp: dbuf_put_def dbuf_claim_def dbuf_store_def size_add_def Let_def db_ok_def
        split: if_splits prod.splits option.splits)
  from p ok(1) show ?thesis
  proof (cases rule: dbuf_put_cases)
    case ok: ok
    then have "db_size d' = db_size d + 1" using db_bytes_length [OF ok(2)] db_bytes_length [of d] assms(1) by (simp add: db_tight_def)
    with ok al assms(1) show ?thesis by (auto simp: db_tight_def)
  next
    case failed
    then have "db_size d' = db_size d" using db_bytes_length [OF failed(2)] db_bytes_length [of d] assms(1) by (simp add: db_tight_def)
    with failed al assms(1) show ?thesis by (auto simp: db_tight_def)
  qed
qed

lemma db_put_all_tight:
  "db_tight d \<Longrightarrow> db.put_all d cs s = (d', s') \<Longrightarrow> db_size d + length cs \<le> 2 ^ 60 \<Longrightarrow>
   db_tight d' \<and> db_size d' \<le> db_size d + length cs \<and> (db_error d' \<longrightarrow> db_error d \<or> None \<in> set s)"
proof (induction cs arbitrary: d s)
  case (Cons c cs)
  obtain ret d1 s1 where p: "dbuf_putc d c s = (ret, d1, s1)" by (metis prod_cases3)
  with Cons.prems(2) have r: "db.put_all d1 cs s1 = (d', s')" by simp
  have "db_size d < 2 ^ 60" using Cons.prems(3) by simp
  note t = dbuf_putc_tight [OF Cons.prems(1) p this]
  with Cons.IH [OF _ r] Cons.prems(3) show ?case by auto
qed simp

lemma db_put_all_init:
  assumes "db.put_all dbuf_init cs s = (d, s')" "length cs \<le> 2 ^ 60"
  shows "(db_error d \<or> db_bytes d = cs) \<and> (db_error d \<longrightarrow> None \<in> set s)"
proof -
  have "db_tight dbuf_init" by (simp add: db_tight_def db_ok_init) (simp add: dbuf_init_def)
  moreover have "db_size dbuf_init = 0" by (simp add: dbuf_init_def)
  ultimately have t: "db_tight d" "db_size d \<le> 2 ^ 60" "db_error d \<longrightarrow> None \<in> set s"
    using db_put_all_tight [OF _ assms(1)] assms(2) db_ok_init(3) by auto
  then have "db_allocated_size d < 2 ^ 63" by (auto simp: db_tight_def)
  with t db.put_all_clean [OF db_ok_init(1) assms(1)] db_ok_init(2) show ?thesis
    by (auto simp: db_failed_def)
qed

section \<open>The code\<close>

lemma drop_bit_7_less:
  assumes "drop_bit 7 (v :: u32) \<noteq> 0"
  shows "unat (drop_bit 7 v) < unat v"
proof -
  have u: "unat (drop_bit 7 v) = unat v div 128"
    by (simp add: unat_div drop_bit_eq_div)
  have "unat (drop_bit 7 v) \<noteq> 0" using assms by (simp add: unat_eq_zero)
  with u show ?thesis by simp
qed

function dbuf_put_leb128 :: "DynBuf \<Rightarrow> u32 \<Rightarrow> answers \<Rightarrow> DynBuf \<times> answers" where
  "dbuf_put_leb128 d v s =
     (let a = v AND 0x7f;
          v = drop_bit 7 v
      in if v \<noteq> 0
         then (case dbuf_putc d (ucast (a OR 0x80)) s of (ret, d, s) \<Rightarrow> dbuf_put_leb128 d v s)
         else (case dbuf_putc d (ucast a) s of (ret, d, s) \<Rightarrow> (d, s)))"
  by auto

termination
  by (relation "measure (\<lambda>(d, v, s). unat v)") (auto simp: drop_bit_7_less)

declare dbuf_put_leb128.simps [simp del]

definition dbuf_put_sleb128 :: "DynBuf \<Rightarrow> u32 \<Rightarrow> answers \<Rightarrow> DynBuf \<times> answers" where
  "dbuf_put_sleb128 d v s = dbuf_put_leb128 d ((2 * v) XOR - (drop_bit 31 v)) s"

text \<open>The bytes from \<open>ptr\<close> to \<open>buf_end\<close> are a list; the answer is the value and the length or \<open>-1\<close>.\<close>

function get_leb128_loop :: "u8 list \<Rightarrow> nat \<Rightarrow> u32 \<Rightarrow> u32 \<times> int" where
  "get_leb128_loop buf i v =
     (if i < 5
      then
        (if i \<ge> length buf then (0, -1)
         else
           (let a = ucast (buf ! i) :: u32;
                v = v OR push_bit (i * 7) (a AND 0x7f)
            in if a AND 0x80 = 0 then (v, int i + 1) else get_leb128_loop buf (i + 1) v))
      else (0, -1))"
  by auto
termination by (relation "measure (\<lambda>(buf, i, v). 5 - i)") auto

declare get_leb128_loop.simps [simp del]

definition get_leb128 :: "u8 list \<Rightarrow> u32 \<times> int" where
  "get_leb128 buf = get_leb128_loop buf 0 0"

definition get_sleb128 :: "u8 list \<Rightarrow> u32 \<times> int" where
  "get_sleb128 buf =
     (case get_leb128 buf of (val, ret) \<Rightarrow>
        if ret < 0 then (0, -1) else (drop_bit 1 val XOR - (val AND 1), ret))"

section \<open>Round trip\<close>

function leb128 :: "u32 \<Rightarrow> u8 list" where
  "leb128 v =
     (if drop_bit 7 v \<noteq> 0 then ucast ((v AND 0x7f) OR 0x80) # leb128 (drop_bit 7 v) else [ucast (v AND 0x7f)])"
  by auto
termination by (relation "measure unat") (auto simp: drop_bit_7_less)

declare leb128.simps [simp del]

definition sleb128 :: "u32 \<Rightarrow> u8 list" where
  "sleb128 v = leb128 ((2 * v) XOR - (drop_bit 31 v))"

lemma dbuf_put_leb128_all: "dbuf_put_leb128 d v s = db.put_all d (leb128 v) s"
proof (induction d v s rule: dbuf_put_leb128.induct)
  case (1 d v s)
  then show ?case
    by (subst dbuf_put_leb128.simps, subst leb128.simps) (auto simp: Let_def split: prod.splits)
qed

lemma dbuf_put_sleb128_all: "dbuf_put_sleb128 d v s = db.put_all d (sleb128 v) s"
  by (simp add: dbuf_put_sleb128_def sleb128_def dbuf_put_leb128_all)

lemma take_bit_or_next:
  "take_bit n (a :: 'a::len word) OR push_bit n (drop_bit n a AND mask m) = take_bit (n + m) a"
  by (rule bit_word_eqI) (auto simp: bit_simps)

lemma mask_7: "(0x7f :: u32) = mask 7" "(0x80 :: u32) = push_bit 7 1"
  by (simp_all add: mask_eq_exp_minus_1)

lemma bit_128: "bit (128 :: 'a::len word) n \<longleftrightarrow> n = 7 \<and> 7 < LENGTH('a)"
proof -
  have "(128 :: 'a word) = 2 ^ 7" by simp
  then show ?thesis by (simp only: bit_exp_iff) auto
qed

lemma bit_128_int: "bit (128 :: int) n \<longleftrightarrow> n = 7" "bit (128 :: nat) n \<longleftrightarrow> n = 7"
  using bit_exp_iff [of 7 n, where 'a = int] bit_exp_iff [of 7 n, where 'a = nat] by auto

lemma bit_twice: "bit (v * 2 :: u32) n \<longleftrightarrow> n < 32 \<and> n \<noteq> 0 \<and> bit v (n - 1)"
  using bit_double_iff [of v n] by (auto simp: mult.commute)

lemma leb128_byte:
  fixes v :: u32
  shows "(ucast (ucast ((v AND 0x7f) OR 0x80) :: u8) :: u32) AND 0x7f = v AND 0x7f"
    "(ucast (ucast ((v AND 0x7f) OR 0x80) :: u8) :: u32) AND 0x80 \<noteq> 0"
    "(ucast (ucast (v AND 0x7f) :: u8) :: u32) AND 0x7f = v AND 0x7f"
    "(ucast (ucast (v AND 0x7f) :: u8) :: u32) AND 0x80 = 0"
proof -
  let ?b = "(ucast (ucast ((v AND 0x7f) OR 0x80) :: u8) :: u32)"
  have "bit (?b AND 0x80) 7" by (simp add: bit_simps bit_128)
  then show "?b AND 0x80 \<noteq> 0" by force
qed (unfold mask_7(1), (rule bit_word_eqI; auto simp: bit_simps bit_128 bit_128_int)+)

lemma get_leb128_loop_enc:
  "i < 5 \<Longrightarrow> drop_bit 35 (v :: u32) = 0 \<Longrightarrow> drop i buf = leb128 (drop_bit (i * 7) v) @ rest \<Longrightarrow>
   get_leb128_loop buf i (take_bit (i * 7) v) = (v, int i + int (length (leb128 (drop_bit (i * 7) v))))"
proof (induction "5 - i" arbitrary: i)
  case (Suc n)
  let ?w = "drop_bit (i * 7) v"
  have v': "take_bit (i * 7) v OR push_bit (i * 7) (?w AND 0x7f) = take_bit (Suc i * 7) v"
    using take_bit_or_next [of "i * 7" v 7] by (simp add: mask_7 add.commute)
  have dd: "drop_bit 7 ?w = drop_bit (Suc i * 7) v" by (simp add: add.commute)
  have len: "i < length buf"
    using Suc.prems(3) by (metis append_is_Nil_conv drop_eq_Nil leb128.simps list.distinct(1) not_le)
  then have di: "drop i buf = buf ! i # drop (Suc i) buf" by (simp add: Cons_nth_drop_Suc)
  show ?case
  proof (cases "drop_bit 7 ?w = 0")
    case True
    then have l: "leb128 ?w = [ucast (?w AND 0x7f)]" by (subst leb128.simps) simp
    have "take_bit (Suc i * 7) v = v"
      using True unfolding dd by (metis bits_ident add_0 push_bit_of_0)
    then show ?thesis
      using Suc.prems(1,3) len v' l leb128_byte(3,4) [of ?w] di
      by (subst get_leb128_loop.simps) (simp add: Let_def del: push_bit_and)
  next
    case False
    then have l: "leb128 ?w = ucast ((?w AND 0x7f) OR 0x80) # leb128 (drop_bit 7 ?w)"
      by (subst leb128.simps) simp
    have i: "Suc i < 5"
    proof (rule ccontr)
      assume "\<not> Suc i < 5"
      with Suc.prems(1) have "Suc i * 7 = 35" by simp
      with False Suc.prems(2) dd show False by simp
    qed
    have "get_leb128_loop buf (Suc i) (take_bit (Suc i * 7) v) =
        (v, int (Suc i) + int (length (leb128 (drop_bit (Suc i * 7) v))))"
      using Suc.prems(3) Suc.hyps(2) di unfolding l dd by (intro Suc.hyps(1) [OF _ i Suc.prems(2)]) auto
    then show ?thesis
      using Suc.prems(1,3) len v' l leb128_byte(1,2) [of ?w] di dd
      by (subst get_leb128_loop.simps) (simp add: Let_def del: push_bit_and)
  qed
qed simp

lemma get_leb128_enc: "get_leb128 (leb128 v @ rest) = (v, int (length (leb128 v)))"
  using get_leb128_loop_enc [of 0 v "leb128 v @ rest" rest] by (simp add: get_leb128_def)

lemma leb128_length: "0 < length (leb128 v)"
  by (subst leb128.simps) simp

lemma zigzag: "drop_bit 1 ((2 * v) XOR - (drop_bit 31 v)) XOR - (((2 * v) XOR - (drop_bit 31 v)) AND 1) = (v :: u32)"
proof (cases "bit v 31")
  case True
  have d: "drop_bit 31 v = 1"
    by (rule bit_word_eqI) (use True in \<open>auto simp: bit_drop_bit_eq bit_1_iff dest: bit_imp_le_length\<close>)
  have n: "(2 * v) XOR - 1 = NOT (push_bit 1 v)" by (simp add: push_bit_eq_mult)
  have "NOT (push_bit 1 v) AND 1 = 1" by (rule bit_word_eqI) (auto simp: bit_simps bit_twice)
  moreover have "NOT (drop_bit 1 (NOT (push_bit 1 v))) = v" 
  proof (rule bit_word_eqI)
    fix n assume "n < LENGTH(32)"
    then have "n < 31 \<or> n = 31" by auto
    then show "bit (NOT (drop_bit 1 (NOT (push_bit 1 v)))) n = bit v n"
      using True by (auto simp: bit_simps bit_twice)
  qed
  ultimately show ?thesis unfolding d n by simp
next
  case False
  have d: "drop_bit 31 v = 0"
  proof (rule bit_word_eqI)
    fix n assume "n < LENGTH(32)"
    show "bit (drop_bit 31 v) n = bit 0 n"
      using False bit_imp_le_length [of v "31 + n"] by (cases "n = 0") (auto simp: bit_drop_bit_eq)
  qed
  have t: "2 * v = push_bit 1 v" by (simp add: push_bit_eq_mult)
  have "push_bit 1 v AND 1 = 0" by (rule bit_word_eqI) (auto simp: bit_simps bit_twice)
  moreover have "drop_bit 1 (push_bit 1 v) = v"
  proof (rule bit_word_eqI)
    fix n assume "n < LENGTH(32)"
    then have "n < 31 \<or> n = 31" by auto
    then show "bit (drop_bit 1 (push_bit 1 v)) n = bit v n"
      using False by (auto simp: bit_simps bit_twice)
  qed
  ultimately show ?thesis unfolding d t by simp
qed

lemma get_sleb128_enc: "get_sleb128 (sleb128 v @ rest) = (v, int (length (sleb128 v)))"
  using zigzag [of v] by (simp add: get_sleb128_def sleb128_def get_leb128_enc)

lemma leb128_length_le: "length (leb128 v) \<le> 5"
proof -
  have "snd (get_leb128_loop buf i v) \<le> 5" for buf i v
    by (induction buf i v rule: get_leb128_loop.induct) (subst get_leb128_loop.simps, auto simp: Let_def)
  then have "snd (get_leb128 (leb128 v @ [])) \<le> 5" unfolding get_leb128_def .
  then show ?thesis unfolding get_leb128_enc by simp
qed

section \<open>Properties\<close>

text \<open>C30: reading back what was written, in front of any further bytes, gives the integer and the
  number of bytes written, for unsigned and for signed integers; only a failed allocation, which the
  buffer records, prevents it.\<close>

theorem leb128_roundtrip:
  "(case dbuf_put_leb128 dbuf_init v s of (d, s') \<Rightarrow>
      db_error d \<and> None \<in> set s \<or> get_leb128 (db_bytes d @ rest) = (v, int (length (db_bytes d)))) \<and>
   (case dbuf_put_sleb128 dbuf_init v s of (d, s') \<Rightarrow>
      db_error d \<and> None \<in> set s \<or> get_sleb128 (db_bytes d @ rest) = (v, int (length (db_bytes d))))"
proof -
  have 1: "db_error d \<and> None \<in> set s \<or> db_bytes d = leb128 w"
    if "db.put_all dbuf_init (leb128 w) s = (d, s')" for w d s'
    using db_put_all_init [OF that] leb128_length_le [of w] by auto
  obtain d1 s1 where d1: "dbuf_put_leb128 dbuf_init v s = (d1, s1)" by (metis surj_pair)
  obtain d2 s2 where d2: "dbuf_put_sleb128 dbuf_init v s = (d2, s2)" by (metis surj_pair)
  from 1 [OF d1 [unfolded dbuf_put_leb128_all]] 1 [OF d2 [unfolded dbuf_put_sleb128_all sleb128_def]]
  show ?thesis unfolding d1 d2 prod.case
    using get_leb128_enc [of v rest] get_sleb128_enc [of v rest] by (auto simp: sleb128_def)
qed

end
