(* ===== verification/Pc2Line.thy ===== *)
theory Pc2Line
  imports Leb128
begin

text \<open>
  Source positions (\<open>quickjs.c\<close>): line and column of a byte of the source, the cache that moves with
  the position asked for, the line number slots that code generation records, and the compact table
  from bytecode positions to lines and columns with its reader \<open>find_line_num\<close>.
\<close>

section \<open>Lines and columns\<close>

fun get_line_col_loop :: "u8 list \<Rightarrow> int \<Rightarrow> int \<Rightarrow> int \<times> int" where
  "get_line_col_loop [] line_num col_num = (line_num, col_num)"
| "get_line_col_loop (c # buf) line_num col_num =
     (if c = 10 then get_line_col_loop buf (line_num + 1) 0
      else if c < 0x80 \<or> c \<ge> 0xc0 then get_line_col_loop buf line_num (col_num + 1)
      else get_line_col_loop buf line_num col_num)"

definition get_line_col :: "u8 list \<Rightarrow> int \<times> int" where
  "get_line_col buf = get_line_col_loop buf 0 0"

text \<open>Positions are offsets from \<open>buf_start\<close>.\<close>

record GetLineColCache =
  gl_ptr :: nat
  gl_line_num :: int
  gl_col_num :: int
  gl_buf :: "u8 list"

text \<open>The absolute column, searching back for the start of the line.\<close>

fun col_back :: "u8 list \<Rightarrow> nat \<Rightarrow> int \<Rightarrow> int" where
  "col_back buf 0 col_num = col_num"
| "col_back buf (Suc p) col_num =
     (if buf ! p = 10 then col_num
      else if buf ! p < 0x80 \<or> buf ! p \<ge> 0xc0 then col_back buf p (col_num + 1)
      else col_back buf p col_num)"

definition get_line_col_cached :: "GetLineColCache \<Rightarrow> nat \<Rightarrow> int \<times> int \<times> GetLineColCache" where
  "get_line_col_cached c ptr =
     (let c =
        (if ptr \<ge> gl_ptr c
         then
           (case get_line_col (array_slice (gl_buf c) (gl_ptr c) (ptr - gl_ptr c)) of
              (line_num, col_num) \<Rightarrow>
                if line_num = 0 then c\<lparr>gl_col_num := gl_col_num c + col_num\<rparr>
                else c\<lparr>gl_line_num := gl_line_num c + line_num, gl_col_num := col_num\<rparr>)
         else
           (case get_line_col (array_slice (gl_buf c) ptr (gl_ptr c - ptr)) of
              (line_num, col_num) \<Rightarrow>
                if line_num = 0 then c\<lparr>gl_col_num := gl_col_num c - col_num\<rparr>
                else c\<lparr>gl_line_num := gl_line_num c - line_num, gl_col_num := col_back (gl_buf c) ptr 0\<rparr>));
          c = c\<lparr>gl_ptr := ptr\<rparr>
      in (gl_line_num c, gl_col_num c, c))"

section \<open>The table\<close>

record LineNumberSlot =
  ls_pc :: u32
  ls_source_pos :: u32

text \<open>The fields of \<open>JSFunctionDef\<close> that take part; the array of slots may be absent.\<close>

record JSFunctionLines =
  line_number_slots :: "LineNumberSlot list option"
  line_number_size :: nat
  line_number_count :: nat
  line_number_last :: u32
  line_number_last_pc :: u32
  strip_debug :: bool
  fd_source_pos :: u32

definition add_pc2line_info :: "JSFunctionLines \<Rightarrow> u32 \<Rightarrow> u32 \<Rightarrow> JSFunctionLines" where
  "add_pc2line_info fd pc source_pos =
     (case line_number_slots fd of
        None \<Rightarrow> fd
      | Some slots \<Rightarrow>
          if line_number_count fd < line_number_size fd \<and> pc \<ge> line_number_last_pc fd \<and>
             source_pos \<noteq> line_number_last fd
          then fd\<lparr>line_number_slots :=
                    Some (slots[line_number_count fd := \<lparr>ls_pc = pc, ls_source_pos = source_pos\<rparr>]),
                  line_number_count := line_number_count fd + 1,
                  line_number_last_pc := pc,
                  line_number_last := source_pos\<rparr>
          else fd)"

definition PC2LINE_BASE :: int where "PC2LINE_BASE = -1"
definition PC2LINE_RANGE :: int where "PC2LINE_RANGE = 5"
definition PC2LINE_OP_FIRST :: int where "PC2LINE_OP_FIRST = 1"
definition PC2LINE_DIFF_PC_MAX :: int where "PC2LINE_DIFF_PC_MAX = (255 - PC2LINE_OP_FIRST) div PC2LINE_RANGE"

lemmas pc2line_consts = PC2LINE_BASE_def PC2LINE_RANGE_def PC2LINE_OP_FIRST_def PC2LINE_DIFF_PC_MAX_def

fun compute_pc2line_loop ::
  "LineNumberSlot list \<Rightarrow> DynBuf \<Rightarrow> GetLineColCache \<Rightarrow> u32 \<Rightarrow> int \<Rightarrow> int \<Rightarrow> answers \<Rightarrow> DynBuf \<times> GetLineColCache \<times> answers" where
  "compute_pc2line_loop [] d cache last_pc last_line_num last_col_num s = (d, cache, s)"
| "compute_pc2line_loop (slot # slots) d cache last_pc last_line_num last_col_num s =
     (let pc = ls_pc slot;
          source_pos = ls_source_pos slot
      in if source_pos = - 1 then compute_pc2line_loop slots d cache last_pc last_line_num last_col_num s
         else
           (let diff_pc = sint (pc - last_pc)
            in if diff_pc < 0 then compute_pc2line_loop slots d cache last_pc last_line_num last_col_num s
               else
                 (case get_line_col_cached cache (unat source_pos) of
                    (line_num, col_num, cache) \<Rightarrow>
                      (let diff_line = line_num - last_line_num;
                           diff_col = col_num - last_col_num
                       in if diff_line = 0 \<and> diff_col = 0
                          then compute_pc2line_loop slots d cache last_pc last_line_num last_col_num s
                          else
                            (case
                               (if diff_line \<ge> PC2LINE_BASE \<and> diff_line < PC2LINE_BASE + PC2LINE_RANGE \<and>
                                   diff_pc \<le> PC2LINE_DIFF_PC_MAX
                                then
                                  (case dbuf_putc d (word_of_int ((diff_line - PC2LINE_BASE) +
                                          diff_pc * PC2LINE_RANGE + PC2LINE_OP_FIRST)) s of
                                     (ret, d, s) \<Rightarrow> (d, s))
                                else
                                  (case dbuf_putc d 0 s of (ret, d, s) \<Rightarrow>
                                     (case dbuf_put_leb128 d (word_of_int diff_pc) s of (d, s) \<Rightarrow>
                                        dbuf_put_sleb128 d (word_of_int diff_line) s))) of
                               (d, s) \<Rightarrow>
                                 (case dbuf_put_sleb128 d (word_of_int diff_col) s of (d, s) \<Rightarrow>
                                    compute_pc2line_loop slots d cache pc line_num col_num s))))))"

definition compute_pc2line_info ::
  "JSFunctionLines \<Rightarrow> GetLineColCache \<Rightarrow> answers \<Rightarrow> DynBuf option \<times> GetLineColCache \<times> answers" where
  "compute_pc2line_info fd cache s =
     (if \<not> strip_debug fd
      then
        (case get_line_col_cached cache (unat (fd_source_pos fd)) of
           (last_line_num, last_col_num, cache) \<Rightarrow>
             (case dbuf_put_leb128 dbuf_init (word_of_int last_line_num) s of (d, s) \<Rightarrow>
                (case dbuf_put_leb128 d (word_of_int last_col_num) s of (d, s) \<Rightarrow>
                   (case compute_pc2line_loop
                           (case line_number_slots fd of None \<Rightarrow> [] | Some slots \<Rightarrow> take (line_number_count fd) slots)
                           d cache 0 last_line_num last_col_num s of
                      (d, cache, s) \<Rightarrow> (Some d, cache, s)))))
      else (None, cache, s))"

text \<open>One entry of the table: the rest of it, the new \<open>pc\<close>, line and column, or \<open>None\<close> (\<open>fail\<close>).\<close>

definition pc2line_read_op :: "u8 list \<Rightarrow> u32 \<Rightarrow> u32 \<Rightarrow> u8 \<Rightarrow> (u8 list \<times> u32 \<times> u32) option" where
  "pc2line_read_op p pc line_num op =
     (if op = 0
      then
        (case get_leb128 p of (val, ret) \<Rightarrow>
           if ret < 0 then None
           else
             (let pc = pc + val;
                  p = drop (nat ret) p
              in case get_sleb128 p of (v, ret) \<Rightarrow>
                   if ret < 0 then None else Some (drop (nat ret) p, pc, line_num + v)))
      else
        (let op = ucast op - word_of_int PC2LINE_OP_FIRST
         in Some (p, pc + op div word_of_int PC2LINE_RANGE,
                  line_num + op mod word_of_int PC2LINE_RANGE + word_of_int PC2LINE_BASE)))"

lemma pc2line_read_op_length: "pc2line_read_op p pc line_num op = Some (p', x) \<Longrightarrow> length p' \<le> length p"
  by (auto simp: pc2line_read_op_def Let_def split: if_splits prod.splits)

function pc2line_find :: "u8 list \<Rightarrow> u32 \<Rightarrow> u32 \<Rightarrow> u32 \<Rightarrow> u32 \<Rightarrow> (u32 \<times> u32) option" where
  "pc2line_find [] pc line_num col_num pc_value = Some (line_num, col_num)"
| "pc2line_find (op # p) pc line_num col_num pc_value =
     (case pc2line_read_op p pc line_num op of
        None \<Rightarrow> None
      | Some (p, pc, new_line_num) \<Rightarrow>
          (case get_sleb128 p of (v, ret) \<Rightarrow>
             if ret < 0 then None
             else
               (let p = drop (nat ret) p;
                    new_col_num = col_num + v
                in if pc_value < pc then Some (line_num, col_num)
                   else pc2line_find p pc new_line_num new_col_num pc_value)))"
  by pat_completeness auto
termination
  by (relation "measure (\<lambda>(p, pc, line_num, col_num, pc_value). length p)")
    (auto dest!: pc2line_read_op_length)

definition find_line_num :: "u8 list option \<Rightarrow> u32 \<Rightarrow> u32 \<times> u32" where
  "find_line_num pc2line_buf pc_value =
     (case pc2line_buf of
        None \<Rightarrow> (0, 0)
      | Some p \<Rightarrow>
          (case get_leb128 p of (val, ret) \<Rightarrow>
             if ret < 0 then (0, 0)
             else
               (let p = drop (nat ret) p;
                    line_num = val + 1
                in case get_leb128 p of (val, ret) \<Rightarrow>
                     if ret < 0 then (0, 0)
                     else
                       (let p = drop (nat ret) p;
                            col_num = val + 1
                        in if pc_value \<noteq> - 1
                           then (case pc2line_find p 0 line_num col_num pc_value of
                                   None \<Rightarrow> (0, 0) | Some r \<Rightarrow> r)
                           else (line_num, col_num)))))"

section \<open>The cache\<close>

lemma get_line_col_append:
  "get_line_col_loop (xs @ ys) l c = (case get_line_col_loop xs l c of (l, c) \<Rightarrow> get_line_col_loop ys l c)"
  by (induction xs l c rule: get_line_col_loop.induct) auto

lemma get_line_col_lines: "fst (get_line_col_loop xs l c) = l + int (count_list xs 10)"
  by (induction xs l c rule: get_line_col_loop.induct) auto

lemma get_line_col_col: "snd (get_line_col_loop xs l c) = snd (get_line_col_loop xs l' c)"
proof (induction xs arbitrary: l l' c)
  case (Cons x xs)
  show ?case by (auto intro: Cons.IH)
qed simp

lemma get_line_col_same_line:
  "10 \<notin> set xs \<Longrightarrow> snd (get_line_col_loop xs l (c + d)) = c + snd (get_line_col_loop xs l d)"
proof (induction xs arbitrary: d)
  case (Cons x xs)
  then have "x \<noteq> 10" "snd (get_line_col_loop xs l (c + d')) = c + snd (get_line_col_loop xs l d')" for d'
    by simp_all
  then show ?case by (simp only: get_line_col_loop.simps add.assoc split: if_split) simp
qed simp

lemma get_line_col_new_line:
  "10 \<in> set xs \<Longrightarrow> snd (get_line_col_loop xs l c) = snd (get_line_col_loop xs l' c')"
proof (induction xs arbitrary: l c l' c')
  case (Cons x xs)
  show ?case
  proof (cases "x = 10")
    case True
    then show ?thesis using get_line_col_col [of xs "l + 1" 0 "l' + 1"] by simp
  next
    case False
    with Cons show ?thesis by simp
  qed
qed simp

lemma get_line_col_shift:
  "get_line_col_loop ys l c = (let r = get_line_col ys in if fst r = 0 then (l, c + snd r) else (l + fst r, snd r))"
proof (cases "10 \<in> set ys")
  case True
  then have "count_list ys 10 \<noteq> 0" by (simp add: count_list_0_iff)
  with get_line_col_new_line [OF True, of l c 0 0] show ?thesis
    by (simp add: get_line_col_def Let_def prod_eq_iff get_line_col_lines)
next
  case False
  then have "count_list ys 10 = 0" by (simp add: count_list_0_iff)
  with get_line_col_same_line [OF False, of l c 0] get_line_col_col [of ys l 0 0] show ?thesis
    by (simp add: get_line_col_def Let_def prod_eq_iff get_line_col_lines)
qed

lemma col_back_spec:
  "p \<le> length buf \<Longrightarrow> col_back buf p k = k + snd (get_line_col (take p buf))"
proof (induction p arbitrary: k)
  case (Suc p)
  have "take (Suc p) buf = take p buf @ [buf ! p]" using Suc.prems by (simp add: take_Suc_conv_app_nth)
  then have "get_line_col (take (Suc p) buf) =
      (case get_line_col (take p buf) of (l, c) \<Rightarrow> get_line_col_loop [buf ! p] l c)"
    by (simp add: get_line_col_def get_line_col_append)
  with Suc show ?case by (auto split: prod.splits)
qed (simp add: get_line_col_def)

definition gl_ok :: "GetLineColCache \<Rightarrow> bool" where
  "gl_ok c \<longleftrightarrow> gl_ptr c \<le> length (gl_buf c) \<and>
     (gl_line_num c, gl_col_num c) = get_line_col (take (gl_ptr c) (gl_buf c))"

lemma get_line_col_take_split:
  "i \<le> j \<Longrightarrow> j \<le> length buf \<Longrightarrow>
   get_line_col (take j buf) =
     (let r = get_line_col (array_slice buf i (j - i)); q = get_line_col (take i buf)
      in if fst r = 0 then (fst q, snd q + snd r) else (fst q + fst r, snd r))"
proof -
  assume "i \<le> j" "j \<le> length buf"
  then have "take j buf = take i buf @ array_slice buf i (j - i)"
    by (simp add: array_slice_def flip: take_add)
  then have "get_line_col (take j buf) =
      (case get_line_col (take i buf) of (l, c) \<Rightarrow> get_line_col_loop (array_slice buf i (j - i)) l c)"
    by (simp add: get_line_col_def get_line_col_append)
  then show ?thesis
    by (simp add: get_line_col_shift [of _ "fst _"] get_line_col_shift Let_def split: prod.splits)
qed

lemma get_line_col_cached_spec:
  assumes "gl_ok c" "ptr \<le> length (gl_buf c)" "get_line_col_cached c ptr = (l, k, c')"
  shows "(l, k) = get_line_col (take ptr (gl_buf c)) \<and> gl_ok c' \<and> gl_ptr c' = ptr \<and> gl_buf c' = gl_buf c"
proof (cases "gl_ptr c \<le> ptr")
  case True
  with get_line_col_take_split [OF True assms(2)] assms show ?thesis
    by (auto simp: get_line_col_cached_def gl_ok_def Let_def prod_eq_iff split: prod.splits if_splits)
next
  case False
  then have "ptr \<le> gl_ptr c" "gl_ptr c \<le> length (gl_buf c)" using assms(1) by (auto simp: gl_ok_def)
  with get_line_col_take_split [OF this] False assms col_back_spec [OF assms(2), of 0] show ?thesis
    by (auto simp: get_line_col_cached_def gl_ok_def Let_def prod_eq_iff split: prod.splits if_splits)
qed

section \<open>The bytes of the table\<close>

definition pc2line_entry :: "int \<Rightarrow> int \<Rightarrow> int \<Rightarrow> u8 list" where
  "pc2line_entry diff_pc diff_line diff_col =
     (if -1 \<le> diff_line \<and> diff_line < 4 \<and> diff_pc \<le> 50
      then [word_of_int (diff_line + 1 + diff_pc * 5 + 1)]
      else 0 # leb128 (word_of_int diff_pc) @ sleb128 (word_of_int diff_line)) @ sleb128 (word_of_int diff_col)"

fun pc2line_bytes :: "u8 list \<Rightarrow> LineNumberSlot list \<Rightarrow> u32 \<Rightarrow> int \<Rightarrow> int \<Rightarrow> u8 list" where
  "pc2line_bytes buf [] last_pc line col = []"
| "pc2line_bytes buf (slot # slots) last_pc line col =
     (let (l, c) = get_line_col (take (unat (ls_source_pos slot)) buf);
          diff_pc = sint (ls_pc slot - last_pc)
      in if ls_source_pos slot = - 1 \<or> diff_pc < 0 \<or> (l = line \<and> c = col) then pc2line_bytes buf slots last_pc line col
         else pc2line_entry diff_pc (l - line) (c - col) @ pc2line_bytes buf slots (ls_pc slot) l c)"

definition slots_within :: "u8 list \<Rightarrow> LineNumberSlot list \<Rightarrow> bool" where
  "slots_within buf slots \<longleftrightarrow> (\<forall>x\<in>set slots. ls_source_pos x = - 1 \<or> unat (ls_source_pos x) \<le> length buf)"

lemma slots_within_simps [simp]:
  "slots_within buf []"
  "slots_within buf (x # xs) \<longleftrightarrow> (ls_source_pos x = - 1 \<or> unat (ls_source_pos x) \<le> length buf) \<and> slots_within buf xs"
  by (auto simp: slots_within_def)

lemma dbuf_putc_all: "(case dbuf_putc d c s of (ret, d, s) \<Rightarrow> (d, s)) = db.put_all d [c] s"
  by (simp split: prod.splits)

lemma put_all_two:
  "db.put_all d cs s = (d1, s1) \<Longrightarrow> db.put_all d1 cs' s1 = r \<Longrightarrow> db.put_all d (cs @ cs') s = r"
  by (simp add: db.put_all_append)

lemma pc2line_put_entry:
  "(case
     (if dl \<ge> PC2LINE_BASE \<and> dl < PC2LINE_BASE + PC2LINE_RANGE \<and> dp \<le> PC2LINE_DIFF_PC_MAX
      then (case dbuf_putc d (word_of_int ((dl - PC2LINE_BASE) + dp * PC2LINE_RANGE + PC2LINE_OP_FIRST)) s of
              (ret, d, s) \<Rightarrow> (d, s))
      else
        (case dbuf_putc d 0 s of (ret, d, s) \<Rightarrow>
           (case dbuf_put_leb128 d (word_of_int dp) s of (d, s) \<Rightarrow>
              dbuf_put_sleb128 d (word_of_int dl) s))) of
     (d, s) \<Rightarrow> (case dbuf_put_sleb128 d (word_of_int dc) s of (d, s) \<Rightarrow> K d s)) =
   (case db.put_all d (pc2line_entry dp dl dc) s of (d, s) \<Rightarrow> K d s)"
  by (auto simp: pc2line_consts pc2line_entry_def dbuf_put_leb128_all dbuf_put_sleb128_all db.put_all_append
      split: prod.splits)

lemma compute_pc2line_loop_bytes:
  "gl_ok cache \<Longrightarrow> slots_within (gl_buf cache) slots \<Longrightarrow>
   \<exists>cache'. gl_ok cache' \<and> gl_buf cache' = gl_buf cache \<and>
     compute_pc2line_loop slots d cache last_pc line col s =
       (case db.put_all d (pc2line_bytes (gl_buf cache) slots last_pc line col) s of (d, s) \<Rightarrow> (d, cache', s))"
proof (induction slots arbitrary: d cache last_pc line col s)
  case (Cons x xs)
  show ?case
  proof (cases "ls_source_pos x = - 1 \<or> sint (ls_pc x - last_pc) < 0")
    case True
    then show ?thesis using Cons.IH [of cache] Cons.prems by (auto simp: Let_def split: prod.splits)
  next
    case False
    obtain l c cache1 where g: "get_line_col_cached cache (unat (ls_source_pos x)) = (l, c, cache1)"
      by (metis prod_cases3)
    have u: "unat (ls_source_pos x) \<le> length (gl_buf cache)" using Cons.prems(2) False by simp
    note G = get_line_col_cached_spec [OF Cons.prems(1) u g]
    then have lc: "get_line_col (take (unat (ls_source_pos x)) (gl_buf cache)) = (l, c)" by simp
    show ?thesis
    proof (cases "l = line \<and> c = col")
      case True
      then show ?thesis using False Cons.IH [of cache1] Cons.prems G g lc by (auto simp: Let_def)
    next
      case new: False
      have K: "compute_pc2line_loop (x # xs) d cache last_pc line col s =
          (case db.put_all d (pc2line_entry (sint (ls_pc x - last_pc)) (l - line) (c - col)) s of
             (d, s) \<Rightarrow> compute_pc2line_loop xs d cache1 (ls_pc x) l c s)"
        using False new by (simp only: compute_pc2line_loop.simps Let_def g prod.case pc2line_put_entry) auto
      obtain d1 s1 where p: "db.put_all d (pc2line_entry (sint (ls_pc x - last_pc)) (l - line) (c - col)) s = (d1, s1)"
        by (metis surj_pair)
      have b: "pc2line_bytes (gl_buf cache) (x # xs) last_pc line col =
          pc2line_entry (sint (ls_pc x - last_pc)) (l - line) (c - col) @ pc2line_bytes (gl_buf cache) xs (ls_pc x) l c"
        using False new lc by auto
      from Cons.IH [of cache1 d1 "ls_pc x" l c s1] Cons.prems G
      obtain cache' where "gl_ok cache'" "gl_buf cache' = gl_buf cache"
        "compute_pc2line_loop xs d1 cache1 (ls_pc x) l c s1 =
          (case db.put_all d1 (pc2line_bytes (gl_buf cache) xs (ls_pc x) l c) s1 of (d, s) \<Rightarrow> (d, cache', s))"
        by auto
      then show ?thesis
        by (intro exI [of _ cache']) (simp only: K b p db.put_all_append prod.case simp_thms)
    qed
  qed
qed auto

section \<open>Reading an entry\<close>

lemma pc2line_read_entry:
  assumes dp: "0 \<le> dp" "dp < 2 ^ 31"
  shows "pc2line_find (pc2line_entry dp dl dc @ rest) pc line col v =
    (if v < pc + word_of_int dp then Some (line, col)
     else pc2line_find rest (pc + word_of_int dp) (line + word_of_int dl) (col + word_of_int dc) v)"
proof (cases "-1 \<le> dl \<and> dl < 4 \<and> dp \<le> 50")
  case False
  then show ?thesis
    by (auto simp: pc2line_entry_def pc2line_read_op_def get_leb128_enc get_sleb128_enc Let_def)
next
  case True
  define n where "n = nat (dl + 1 + dp * 5)"
  have n: "int n = dl + 1 + dp * 5" "n < 255" using True dp by (auto simp: n_def)
  define op :: u8 where "op = word_of_int (dl + 1 + dp * 5 + 1)"
  have "op = word_of_nat (n + 1)" unfolding op_def n(1) [symmetric] by simp
  then have uop: "unat op = n + 1" using n(2) by (simp only: unat_of_nat) simp
  then have op0: "op \<noteq> 0" by auto
  define m :: u32 where "m = ucast op - 1"
  have "unat (ucast op :: u32) = n + 1"
    using uop n(2) by (simp add: unsigned_ucast_eq take_bit_nat_eq_self_iff)
  then have "(ucast op :: u32) = word_of_nat (n + 1)"
    using n(2) by (simp only: word_unat_eq_iff unat_of_nat) simp
  then have m: "m = word_of_nat n" by (simp add: m_def pc2line_consts)
  have um: "unat m = n" using n(2) m by (simp add: unat_of_nat)
  have "n = 5 * nat dp + nat (dl + 1)" "nat (dl + 1) < 5" using n(1) True dp by linarith+
  then have dm: "n div 5 = nat dp" "n mod 5 = nat (dl + 1)" by simp_all
  have nat_eq: "w = word_of_nat k" if "unat (w :: u32) = k" for w k
  proof -
    have "unat w < 2 ^ LENGTH(32)" by (rule unsigned_less)
    then show ?thesis using that by (auto simp: word_unat_eq_iff unat_of_nat)
  qed
  have "m div 5 = word_of_nat (n div 5)" "m mod 5 = word_of_nat (n mod 5)"
    by (intro nat_eq; simp add: um unat_div unat_mod)+
  then have q: "m div 5 = word_of_int dp" "m mod 5 = word_of_int dl + 1"
    using True dp unfolding dm by simp_all
  have "pc2line_entry dp dl dc = op # sleb128 (word_of_int dc)"
    using True by (simp add: pc2line_entry_def op_def)
  moreover have "pc2line_read_op p pc line op = Some (p, pc + word_of_int dp, line + word_of_int dl)" for p
    unfolding pc2line_read_op_def using op0 q by (simp add: Let_def pc2line_consts m_def)
  ultimately show ?thesis by (simp add: get_sleb128_enc Let_def)
qed

lemma pc2line_bytes_length: "length (pc2line_bytes buf slots last_pc line col) \<le> 16 * length slots"
proof (induction slots arbitrary: last_pc line col)
  case (Cons x xs)
  have e: "length (pc2line_entry dp dl dc) \<le> 16" for dp dl dc
    using leb128_length_le [of "word_of_int dp"] leb128_length_le [of "(2 * word_of_int dl) XOR - (drop_bit 31 (word_of_int dl))"]
      leb128_length_le [of "(2 * word_of_int dc) XOR - (drop_bit 31 (word_of_int dc))"]
    by (simp add: pc2line_entry_def sleb128_def)
  obtain l c where lc: "get_line_col (take (unat (ls_source_pos x)) buf) = (l, c)" by (metis surj_pair)
  have "length (pc2line_bytes buf xs p a b) \<le> 16 * length (x # xs)" for p a b
    using Cons.IH [of p a b] by simp
  moreover have "length (pc2line_entry dp dl dc @ pc2line_bytes buf xs p a b) \<le> 16 * length (x # xs)" for dp dl dc p a b
    using Cons.IH [of p a b] e [of dp dl dc] by simp
  ultimately show ?case by (simp only: pc2line_bytes.simps lc prod.case Let_def split: if_split) simp
qed simp

section \<open>The round trip\<close>

text \<open>The source position that the table has for a bytecode position: that of the last slot not after it.\<close>

definition slot_source_pos :: "LineNumberSlot list \<Rightarrow> u32 \<Rightarrow> u32 \<Rightarrow> u32" where
  "slot_source_pos slots first pc_value =
     (case filter (\<lambda>x. ls_source_pos x \<noteq> - 1 \<and> ls_pc x \<le> pc_value) slots of
        [] \<Rightarrow> first | xs \<Rightarrow> ls_source_pos (last xs))"

lemma slot_source_pos_Cons:
  "slot_source_pos (x # xs) first v =
     (if ls_source_pos x \<noteq> - 1 \<and> ls_pc x \<le> v then slot_source_pos xs (ls_source_pos x) v
      else slot_source_pos xs first v)"
  by (auto simp: slot_source_pos_def split: list.splits)

lemma sint_diff:
  assumes "a \<le> (b :: u32)" "unat b < 2 ^ 31"
  shows "sint (b - a) = int (unat b - unat a)" "a + word_of_int (sint (b - a)) = b"
proof -
  have u: "unat (b - a) = unat b - unat a" using assms(1) by (simp add: unat_sub)
  then have "uint (b - a) < 2 ^ 31" using assms(2) by (simp add: uint_nat)
  then have "signed_take_bit 31 (uint (b - a)) = uint (b - a)"
    by (intro signed_take_bit_int_eq_self) (auto intro: order.trans [OF _ uint_ge_0])
  then show "sint (b - a) = int (unat b - unat a)" using u by (simp add: sint_uint uint_nat)
  show "a + word_of_int (sint (b - a)) = b" by simp
qed

lemma pc2line_find_bytes:
  "sorted (map ls_pc slots) \<Longrightarrow> (\<forall>x\<in>set slots. last_pc \<le> ls_pc x \<and> unat (ls_pc x) < 2 ^ 31) \<Longrightarrow> last_pc \<le> v \<Longrightarrow>
   get_line_col (take (unat first) buf) = (line, col) \<Longrightarrow>
   pc2line_find (pc2line_bytes buf slots last_pc line col) last_pc (word_of_int (line + 1)) (word_of_int (col + 1)) v =
     (case get_line_col (take (unat (slot_source_pos slots first v)) buf) of
        (l, c) \<Rightarrow> Some (word_of_int (l + 1), word_of_int (c + 1)))"
proof (induction slots arbitrary: last_pc line col first)
  case (Cons x xs)
  let ?sp = "ls_source_pos x"
  have x: "last_pc \<le> ls_pc x" "unat (ls_pc x) < 2 ^ 31" "sorted (map ls_pc xs)"
    "\<forall>y\<in>set xs. ls_pc x \<le> ls_pc y \<and> unat (ls_pc y) < 2 ^ 31"
    "\<forall>y\<in>set xs. last_pc \<le> ls_pc y \<and> unat (ls_pc y) < 2 ^ 31"
    using Cons.prems(1,2) by auto
  obtain l c where lc: "get_line_col (take (unat ?sp) buf) = (l, c)" by (metis surj_pair)
  note sd = sint_diff [OF x(1,2)]
  have nn: "\<not> sint (ls_pc x - last_pc) < 0" "sint (ls_pc x - last_pc) < 2 ^ 31" using sd(1) x(2) by auto
  consider (skip) "?sp = - 1" | (same) "?sp \<noteq> - 1" "l = line" "c = col" | (entry) "?sp \<noteq> - 1" "\<not> (l = line \<and> c = col)"
    by blast
  then show ?case
  proof cases
    case skip
    then show ?thesis using Cons.IH [OF x(3,5) Cons.prems(3,4)] by (simp add: slot_source_pos_Cons lc)
  next
    case same
    then have b: "pc2line_bytes buf (x # xs) last_pc line col = pc2line_bytes buf xs last_pc line col"
      by (simp add: lc)
    show ?thesis
      using Cons.IH [OF x(3,5) Cons.prems(3), of first] Cons.IH [OF x(3,5) Cons.prems(3), of ?sp] Cons.prems(4) lc same
      unfolding b slot_source_pos_Cons by auto
  next
    case entry
    then have b: "pc2line_bytes buf (x # xs) last_pc line col =
        pc2line_entry (sint (ls_pc x - last_pc)) (l - line) (c - col) @ pc2line_bytes buf xs (ls_pc x) l c"
      using nn lc by auto
    have later: "slot_source_pos (x # xs) first v = first" if "v < ls_pc x"
    proof -
      have "filter (\<lambda>y. ls_source_pos y \<noteq> - 1 \<and> ls_pc y \<le> v) (x # xs) = []"
        using that x(4) by (auto simp: filter_empty_conv not_le intro: order.strict_trans2)
      then show ?thesis by (simp only: slot_source_pos_def list.case)
    qed
    show ?thesis
    proof (cases "v < ls_pc x")
      case True
      then show ?thesis
        unfolding b later [OF True] using nn sd Cons.prems(4) by (subst pc2line_read_entry) auto
    next
      case False
      then have "slot_source_pos (x # xs) first v = slot_source_pos xs ?sp v"
        using entry by (simp add: slot_source_pos_Cons not_less)
      then show ?thesis
        unfolding b using nn sd False Cons.IH [OF x(3,4) _ lc]
        by (subst pc2line_read_entry) (auto simp: algebra_simps)
    qed
  qed
qed (simp add: slot_source_pos_def)

section \<open>Properties\<close>

text \<open>C31: the cached search gives the line and column that counting from the start of the source
  gives, wherever the cache stood, and leaves the cache consistent.\<close>

theorem get_line_col_cached_correct:
  assumes "gl_ok c" "ptr \<le> length (gl_buf c)"
  shows "\<exists>c'. get_line_col_cached c ptr =
      (fst (get_line_col (take ptr (gl_buf c))), snd (get_line_col (take ptr (gl_buf c))), c') \<and>
    gl_ok c' \<and> gl_ptr c' = ptr \<and> gl_buf c' = gl_buf c"
proof -
  obtain l k c' where g: "get_line_col_cached c ptr = (l, k, c')" by (metis prod_cases3)
  from get_line_col_cached_spec [OF assms g] g show ?thesis by (metis fst_conv snd_conv)
qed

theorem get_line_col_cached_witness:
  "\<exists>c'. get_line_col_cached \<lparr>gl_ptr = 4, gl_line_num = 1, gl_col_num = 1, gl_buf = [97, 98, 10, 99, 10, 100]\<rparr> 2 = (0, 2, c')"
  using get_line_col_cached_correct
    [of "\<lparr>gl_ptr = 4, gl_line_num = 1, gl_col_num = 1, gl_buf = [97, 98, 10, 99, 10, 100]\<rparr>" 2]
  by (auto simp: gl_ok_def get_line_col_def)

text \<open>Recording a slot keeps the recorded bytecode positions increasing.\<close>

theorem add_pc2line_info_sorted:
  assumes "line_number_slots fd = Some slots" "length slots = line_number_size fd"
    and "sorted (map ls_pc (take (line_number_count fd) slots))"
    and "\<forall>x\<in>set (take (line_number_count fd) slots). ls_pc x \<le> line_number_last_pc fd"
  shows "\<exists>slots'. line_number_slots (add_pc2line_info fd pc sp) = Some slots' \<and>
    length slots' = line_number_size (add_pc2line_info fd pc sp) \<and>
    sorted (map ls_pc (take (line_number_count (add_pc2line_info fd pc sp)) slots')) \<and>
    (\<forall>x\<in>set (take (line_number_count (add_pc2line_info fd pc sp)) slots').
       ls_pc x \<le> line_number_last_pc (add_pc2line_info fd pc sp))"
  using assms
  by (auto simp: add_pc2line_info_def take_Suc_conv_app_nth sorted_append intro: order.trans)

theorem add_pc2line_info_sorted_witness:
  "\<exists>slots'. line_number_slots (add_pc2line_info \<lparr>line_number_slots = Some [\<lparr>ls_pc = 3, ls_source_pos = 1\<rparr>, \<lparr>ls_pc = 0, ls_source_pos = 0\<rparr>],
      line_number_size = 2, line_number_count = 1, line_number_last = 1, line_number_last_pc = 3,
      strip_debug = False, fd_source_pos = 0\<rparr> 7 4) = Some slots' \<and> sorted (map ls_pc (take 2 slots'))"
  using add_pc2line_info_sorted [of "\<lparr>line_number_slots = Some [\<lparr>ls_pc = 3, ls_source_pos = 1\<rparr>, \<lparr>ls_pc = 0, ls_source_pos = 0\<rparr>],
      line_number_size = 2, line_number_count = 1, line_number_last = 1, line_number_last_pc = 3,
      strip_debug = False, fd_source_pos = 0\<rparr>" _ 7 4]
  by (auto simp: add_pc2line_info_def)

text \<open>C10: code generation writes a table such that, for every bytecode position, reading it gives the
  line and column (counted from 1) of the last recorded slot at or before it, and those of the
  function itself when there is none. Only a failed allocation prevents this, and it is recorded.\<close>

theorem pc2line_roundtrip:
  assumes "\<not> strip_debug fd" "gl_ok cache" "unat (fd_source_pos fd) \<le> length (gl_buf cache)"
    and "line_number_slots fd = Some slots" "line_number_count fd = length slots" "length slots < 2 ^ 50"
    and "sorted (map ls_pc slots)" "\<forall>x\<in>set slots. unat (ls_pc x) < 2 ^ 31"
    and "\<forall>x\<in>set slots. ls_source_pos x = - 1 \<or> unat (ls_source_pos x) \<le> length (gl_buf cache)"
  shows "\<exists>d cache' s'. compute_pc2line_info fd cache s = (Some d, cache', s') \<and> (db_error d \<longrightarrow> None \<in> set s) \<and>
    (db_error d \<or> (\<forall>pc. pc \<noteq> - 1 \<longrightarrow> find_line_num (Some (db_bytes d)) pc =
      (case get_line_col (take (unat (slot_source_pos slots (fd_source_pos fd) pc)) (gl_buf cache)) of
         (l, c) \<Rightarrow> (word_of_int (l + 1), word_of_int (c + 1)))))"
proof -
  let ?buf = "gl_buf cache"
  obtain l0 c0 cache0 where g: "get_line_col_cached cache (unat (fd_source_pos fd)) = (l0, c0, cache0)"
    by (metis prod_cases3)
  note G = get_line_col_cached_spec [OF assms(2,3) g]
  let ?tab = "pc2line_bytes ?buf slots 0 l0 c0"
  obtain d1 s1 where p1: "db.put_all dbuf_init (leb128 (word_of_int l0) @ leb128 (word_of_int c0)) s = (d1, s1)"
    by (metis surj_pair)
  obtain d s' where p2: "db.put_all d1 ?tab s1 = (d, s')" by (metis surj_pair)
  from compute_pc2line_loop_bytes [of cache0 slots d1 0 l0 c0 s1] G assms(9) p2
  obtain cache1 where "compute_pc2line_loop slots d1 cache0 0 l0 c0 s1 = (d, cache1, s')"
    by (auto simp: slots_within_def)
  then have comp: "compute_pc2line_info fd cache s = (Some d, cache1, s')"
    using assms(1,4,5) g p1
    by (auto simp: compute_pc2line_info_def dbuf_put_leb128_all db.put_all_append split: prod.splits)
  have put: "db.put_all dbuf_init ((leb128 (word_of_int l0) @ leb128 (word_of_int c0)) @ ?tab) s = (d, s')"
    using p1 p2 by (rule put_all_two)
  have "length ?tab \<le> 16 * length slots" by (rule pc2line_bytes_length)
  then have len: "length ((leb128 (word_of_int l0) @ leb128 (word_of_int c0)) @ ?tab) \<le> 2 ^ 60"
    using assms(6) leb128_length_le [of "word_of_int l0"] leb128_length_le [of "word_of_int c0"] by simp
  have read: "find_line_num (Some (db_bytes d)) pc =
      (case get_line_col (take (unat (slot_source_pos slots (fd_source_pos fd) pc)) ?buf) of
         (l, c) \<Rightarrow> (word_of_int (l + 1), word_of_int (c + 1)))"
    if "pc \<noteq> - 1" "\<not> db_error d" for pc
  proof -
    have bytes: "db_bytes d = leb128 (word_of_int l0) @ leb128 (word_of_int c0) @ ?tab"
      using db_put_all_init [OF put len] that(2) by simp
    have "pc2line_find ?tab 0 (word_of_int (l0 + 1)) (word_of_int (c0 + 1)) pc =
       (case get_line_col (take (unat (slot_source_pos slots (fd_source_pos fd) pc)) ?buf) of
          (l, c) \<Rightarrow> Some (word_of_int (l + 1), word_of_int (c + 1)))"
      using assms(7,8) G by (intro pc2line_find_bytes) auto
    then show ?thesis
      unfolding find_line_num_def bytes using that(1) by (simp add: get_leb128_enc Let_def split: prod.splits)
  qed
  show ?thesis using comp db_put_all_init [OF put len] read by blast
qed

text \<open>A function at the start of a source of three lines with code positions on the last two.\<close>

theorem pc2line_roundtrip_witness:
  "\<exists>d. fst (compute_pc2line_info \<lparr>line_number_slots = Some [\<lparr>ls_pc = 3, ls_source_pos = 4\<rparr>, \<lparr>ls_pc = 90, ls_source_pos = 7\<rparr>],
       line_number_size = 2, line_number_count = 2, line_number_last = 7, line_number_last_pc = 90,
       strip_debug = False, fd_source_pos = 0\<rparr>
     \<lparr>gl_ptr = 0, gl_line_num = 0, gl_col_num = 0, gl_buf = [97, 98, 10, 99, 100, 10, 101, 102]\<rparr> []) = Some d \<and>
     find_line_num (Some (db_bytes d)) 50 = (2, 2)"
proof -
  let ?fd = "\<lparr>line_number_slots = Some [\<lparr>ls_pc = 3, ls_source_pos = 4\<rparr>, \<lparr>ls_pc = 90, ls_source_pos = 7\<rparr>],
       line_number_size = 2, line_number_count = 2, line_number_last = 7, line_number_last_pc = 90,
       strip_debug = False, fd_source_pos = 0\<rparr>"
  let ?c = "\<lparr>gl_ptr = 0, gl_line_num = 0, gl_col_num = 0, gl_buf = [97, 98, 10, 99, 100, 10, 101, 102]\<rparr>"
  have "\<exists>d cache' s'. compute_pc2line_info ?fd ?c [] = (Some d, cache', s') \<and> (db_error d \<longrightarrow> None \<in> set ([] :: answers)) \<and>
    (db_error d \<or> (\<forall>pc. pc \<noteq> - 1 \<longrightarrow> find_line_num (Some (db_bytes d)) pc =
      (case get_line_col (take (unat (slot_source_pos [\<lparr>ls_pc = 3, ls_source_pos = 4\<rparr>, \<lparr>ls_pc = 90, ls_source_pos = 7\<rparr>]
           (fd_source_pos ?fd) pc)) (gl_buf ?c)) of
         (l, c) \<Rightarrow> (word_of_int (l + 1), word_of_int (c + 1)))))"
    by (rule pc2line_roundtrip) (auto simp: gl_ok_def get_line_col_def)
  then obtain d cache' s' where d: "compute_pc2line_info ?fd ?c [] = (Some d, cache', s')"
    and r: "find_line_num (Some (db_bytes d)) 50 =
      (case get_line_col (take (unat (slot_source_pos [\<lparr>ls_pc = 3, ls_source_pos = 4\<rparr>, \<lparr>ls_pc = 90, ls_source_pos = 7\<rparr>] 0 50))
         (gl_buf ?c)) of (l, c) \<Rightarrow> (word_of_int (l + 1), word_of_int (c + 1)))"
    by auto
  then show ?thesis by (simp add: slot_source_pos_def get_line_col_def)
qed

end
