(* ===== verification/CStrings.thy ===== *)
theory CStrings
  imports Prelude
begin

text \<open>
  The bounded string functions of \<open>cutils.c\<close>. A C string is a list of bytes with a terminator.
\<close>

section \<open>C strings\<close>

text \<open>\<open>None\<close> stands for a read past the last byte of a string without terminator.\<close>

fun pstrcpy_loop :: "u8 list \<Rightarrow> nat \<Rightarrow> nat \<Rightarrow> u8 list \<Rightarrow> u8 list option" where
  "pstrcpy_loop buf buf_size q [] = None"
| "pstrcpy_loop buf buf_size q (c # str) =
     (if c = 0 \<or> q \<ge> buf_size - 1 then Some (buf[q := 0])
      else pstrcpy_loop (buf[q := c]) buf_size (q + 1) str)"

definition pstrcpy :: "u8 list \<Rightarrow> nat \<Rightarrow> u8 list \<Rightarrow> u8 list option" where
  "pstrcpy buf buf_size str = (if buf_size = 0 then Some buf else pstrcpy_loop buf buf_size 0 str)"

definition c_strlen :: "u8 list \<Rightarrow> nat" where
  "c_strlen str = length (takeWhile (\<lambda>c. c \<noteq> 0) str)"

definition pstrcat :: "u8 list \<Rightarrow> nat \<Rightarrow> u8 list \<Rightarrow> u8 list option" where
  "pstrcat buf buf_size s =
     (let len = c_strlen buf in
      if len < buf_size
      then map_option (\<lambda>b. blit buf len b) (pstrcpy (drop len buf) (buf_size - len) s)
      else Some buf)"

text \<open>The answer of \<open>strstart\<close> is the rest behind the prefix.\<close>

fun strstart :: "u8 list \<Rightarrow> u8 list \<Rightarrow> u8 list option" where
  "strstart p (v # q) =
     (if v = 0 then Some p
      else (case p of [] \<Rightarrow> None | c # p' \<Rightarrow> if c \<noteq> v then None else strstart p' q))"
| "strstart p [] = Some p"

definition has_suffix :: "u8 list \<Rightarrow> u8 list \<Rightarrow> bool" where
  "has_suffix str suffix =
     (let len = c_strlen str;
          slen = c_strlen suffix
      in len \<ge> slen \<and> array_slice str (len - slen) slen = array_slice suffix 0 slen)"

abbreviation c_string :: "u8 list \<Rightarrow> u8 list" where
  "c_string str \<equiv> takeWhile (\<lambda>c. c \<noteq> 0) str"

lemma pstrcpy_loop_spec:
  "0 \<in> set str \<Longrightarrow> q < buf_size \<Longrightarrow> buf_size \<le> length buf \<Longrightarrow>
   \<exists>b. pstrcpy_loop buf buf_size q str = Some b \<and> length b = length buf \<and>
     take (q + min (c_strlen str) (buf_size - 1 - q) + 1) b =
       take q buf @ take (buf_size - 1 - q) (c_string str) @ [0] \<and>
     drop buf_size b = drop buf_size buf"
proof (induction str arbitrary: q buf)
  case (Cons c str)
  show ?case
  proof (cases "c = 0 \<or> q \<ge> buf_size - 1")
    case True
    then show ?thesis
      using Cons.prems by (auto simp: c_strlen_def take_Suc_conv_app_nth)
  next
    case False
    with Cons.prems have "0 \<in> set str" "q + 1 < buf_size" "buf_size \<le> length (buf[q := c])" by auto
    from Cons.IH [OF this] obtain b where b: "pstrcpy_loop (buf[q := c]) buf_size (q + 1) str = Some b"
      "length b = length buf"
      "take (q + 1 + min (c_strlen str) (buf_size - 1 - (q + 1)) + 1) b =
        take (q + 1) (buf[q := c]) @ take (buf_size - 1 - (q + 1)) (c_string str) @ [0]"
      "drop buf_size b = drop buf_size buf"
      using False Cons.prems by auto
    have "take (q + 1) (buf[q := c]) = take q buf @ [c]"
      using False Cons.prems by (simp add: take_Suc_conv_app_nth)
    moreover have "take (buf_size - 1 - q) (c_string (c # str)) = c # take (buf_size - 1 - (q + 1)) (c_string str)"
    proof -
      have "buf_size - 1 - q = Suc (buf_size - 1 - (q + 1))" using False by linarith
      with False show ?thesis by simp
    qed
    moreover have "q + min (c_strlen (c # str)) (buf_size - 1 - q) = q + 1 + min (c_strlen str) (buf_size - 1 - (q + 1))"
    proof -
      have "buf_size - 1 - q = Suc (buf_size - 1 - (q + 1))" using False by linarith
      with False show ?thesis by (simp add: c_strlen_def)
    qed
    ultimately show ?thesis using b False by simp
  qed
qed simp

lemma c_string_of_take:
  assumes "take (length s + 1) b = s @ [0]" "0 \<notin> set s"
  shows "c_string b = s"
proof -
  have "b = s @ 0 # drop (length s + 1) b" by (metis append.assoc append_Cons append_Nil append_take_drop_id assms(1))
  then have "c_string b = c_string (s @ 0 # drop (length s + 1) b)" by simp
  also have "\<dots> = s" using assms(2) by (subst takeWhile_append2) auto
  finally show ?thesis .
qed

lemma zero_notin_c_string: "0 \<notin> set (take n (c_string str))"
  by (auto dest: in_set_takeD set_takeWhileD)

lemma pstrcpy_spec:
  assumes "0 \<in> set str" "0 < buf_size" "buf_size \<le> length buf"
  shows "\<exists>b. pstrcpy buf buf_size str = Some b \<and> length b = length buf \<and>
    take (min (c_strlen str) (buf_size - 1) + 1) b = take (buf_size - 1) (c_string str) @ [0] \<and>
    c_string b = take (buf_size - 1) (c_string str) \<and> drop buf_size b = drop buf_size buf"
proof -
  from pstrcpy_loop_spec [OF assms(1,2,3)] obtain b where b: "pstrcpy_loop buf buf_size 0 str = Some b" "length b = length buf"
    "take (min (c_strlen str) (buf_size - 1) + 1) b = take (buf_size - 1) (c_string str) @ [0]"
    "drop buf_size b = drop buf_size buf" by auto
  have "c_string b = take (buf_size - 1) (c_string str)"
    using b(3) by (intro c_string_of_take zero_notin_c_string) (simp add: c_strlen_def)
  with b assms(2) show ?thesis by (auto simp: pstrcpy_def)
qed

text \<open>C34: \<open>pstrcpy\<close> stores the longest prefix that fits, terminated, within the \<open>buf_size\<close> bytes.\<close>

theorem pstrcpy_correct:
  assumes "0 \<in> set str" "0 < buf_size" "buf_size \<le> length buf"
  shows "\<exists>b. pstrcpy buf buf_size str = Some b \<and> length b = length buf \<and>
    c_string b = take (buf_size - 1) (c_string str) \<and> c_strlen b < buf_size \<and> drop buf_size b = drop buf_size buf"
  using pstrcpy_spec [OF assms] assms(2) by (auto simp: c_strlen_def)

theorem pstrcpy_witness:
  "\<exists>b. pstrcpy [9, 9, 9, 9] 3 [65, 66, 67, 0] = Some b \<and> c_string b = [65, 66]"
  using pstrcpy_correct [of "[65, 66, 67, 0]" 3 "[9, 9, 9, 9]"] by auto

lemma c_string_drop: "c_string (drop (c_strlen buf) buf) = []"
  unfolding c_strlen_def by (metis dropWhile_eq_drop dropWhile_eq_Nil_conv hd_dropWhile takeWhile_eq_Nil_iff list.collapse)

text \<open>Concatenation appends what fits and keeps the string terminated within \<open>buf_size\<close> bytes.\<close>

theorem pstrcat_correct:
  assumes "0 \<in> set s" "c_strlen buf < buf_size" "buf_size \<le> length buf"
  shows "\<exists>b. pstrcat buf buf_size s = Some b \<and> length b = length buf \<and>
    c_string b = take (buf_size - 1) (c_string buf @ c_string s) \<and> c_strlen b < buf_size"
proof -
  let ?n = "c_strlen buf"
  from pstrcpy_spec [OF assms(1), of "buf_size - ?n" "drop ?n buf"] assms diff_le_mono [OF assms(3), of ?n] obtain b where
    b: "pstrcpy (drop ?n buf) (buf_size - ?n) s = Some b" "length b = length buf - ?n"
      "c_string b = take (buf_size - ?n - 1) (c_string s)" by auto
  have len: "?n < length buf" using assms by simp
  have pre: "take ?n buf = c_string buf" unfolding c_strlen_def by (metis takeWhile_eq_take)
  have r: "blit buf ?n b = c_string buf @ b" using b(2) len pre by (simp add: blit_def)
  have "c_string (c_string buf @ b) = c_string buf @ c_string b"
    by (subst takeWhile_append2) (auto dest: set_takeWhileD)
  then have c: "c_string (blit buf ?n b) = take (buf_size - 1) (c_string buf @ c_string s)"
    unfolding r b(3) using assms(2) by (simp add: c_strlen_def)
  moreover have "c_strlen (blit buf ?n b) = length (c_string (blit buf ?n b))" by (simp only: c_strlen_def)
  then have "c_strlen (blit buf ?n b) < buf_size" unfolding c using assms(2) by simp
  ultimately show ?thesis using b assms len by (simp add: pstrcat_def Let_def)
qed

theorem pstrcat_witness: "\<exists>b. pstrcat [65, 0, 9, 9] 4 [66, 0] = Some b \<and> c_string b = [65, 66]"
  using pstrcat_correct [of "[66, 0]" "[65, 0, 9, 9]" 4] by (auto simp: c_strlen_def)

lemma strstart_spec:
  "0 \<in> set str \<Longrightarrow> 0 \<in> set val \<Longrightarrow>
   strstart str val = (if take (c_strlen val) (c_string str) = c_string val then Some (drop (c_strlen val) str) else None)"
proof (induction str val rule: strstart.induct)
  case (1 p v q)
  show ?case
  proof (cases "v = 0")
    case True
    then show ?thesis by (simp add: c_strlen_def)
  next
    case v: False
    show ?thesis
    proof (cases p)
      case (Cons c p')
      show ?thesis
      proof (cases "c = v")
        case True
        with v Cons 1 show ?thesis by (auto simp: c_strlen_def)
      next
        case False
        with v Cons show ?thesis by (auto simp: c_strlen_def)
      qed
    qed (use 1 in simp)
  qed
qed simp

lemma has_suffix_spec:
  "has_suffix str suffix \<longleftrightarrow> (\<exists>c. c_string str = c @ c_string suffix)"
proof -
  have t: "take (c_strlen s) s = c_string s" for s unfolding c_strlen_def by (metis takeWhile_eq_take)
  have "array_slice str (c_strlen str - c_strlen suffix) (c_strlen suffix) =
      drop (c_strlen str - c_strlen suffix) (c_string str)" if "c_strlen suffix \<le> c_strlen str"
    using that unfolding t [of str, symmetric] by (simp add: array_slice_def drop_take)
  moreover have "array_slice suffix 0 (c_strlen suffix) = c_string suffix" by (simp add: array_slice_def t)
  moreover have "(c_strlen suffix \<le> c_strlen str \<and>
      drop (c_strlen str - c_strlen suffix) (c_string str) = c_string suffix) \<longleftrightarrow> (\<exists>c. c_string str = c @ c_string suffix)"
  proof
    assume "c_strlen suffix \<le> c_strlen str \<and> drop (c_strlen str - c_strlen suffix) (c_string str) = c_string suffix"
    then show "\<exists>c. c_string str = c @ c_string suffix" by (metis append_take_drop_id)
  next
    assume "\<exists>c. c_string str = c @ c_string suffix"
    then obtain c where c: "c_string str = c @ c_string suffix" by blast
    then have "c_strlen str = length c + c_strlen suffix" unfolding c_strlen_def by simp
    then show "c_strlen suffix \<le> c_strlen str \<and> drop (c_strlen str - c_strlen suffix) (c_string str) = c_string suffix"
      using c by simp
  qed
  ultimately show ?thesis by (auto simp: has_suffix_def Let_def)
qed

text \<open>The prefix test answers the rest behind the prefix, and the suffix test is that of the strings.\<close>

theorem strstart_has_suffix_correct:
  assumes "0 \<in> set str" "0 \<in> set val"
  shows "strstart str val =
      (if \<exists>c. c_string str = c_string val @ c then Some (drop (c_strlen val) str) else None) \<and>
    (has_suffix str val \<longleftrightarrow> (\<exists>c. c_string str = c @ c_string val))"
proof -
  have "take (c_strlen val) (c_string str) = c_string val \<longleftrightarrow> (\<exists>c. c_string str = c_string val @ c)"
    unfolding c_strlen_def by (metis append_eq_conv_conj append_take_drop_id)
  with strstart_spec [OF assms] has_suffix_spec show ?thesis by auto
qed

theorem strstart_has_suffix_witness:
  "strstart [65, 66, 0] [65, 0] = Some [66, 0] \<and> \<not> has_suffix [65, 66, 0] [65, 0]"
  using strstart_has_suffix_correct [of "[65, 66, 0]" "[65, 0]"] by (auto simp: c_strlen_def)

end
