(* ===== verification/ListHead.thy ===== *)
theory ListHead
  imports Prelude
begin

text \<open>
  The intrusive doubly linked lists of \<open>list.h\<close>: two functions from addresses to addresses, and the
  operations as operations on the sequence of elements.
\<close>

section \<open>Doubly linked lists\<close>

text \<open>Addresses are numbers, \<open>NULL\<close> is 0.\<close>

record list_links =
  l_prev :: "nat \<Rightarrow> nat"
  l_next :: "nat \<Rightarrow> nat"

definition init_list_head :: "nat \<Rightarrow> list_links \<Rightarrow> list_links" where
  "init_list_head head s = s\<lparr>l_prev := (l_prev s)(head := head), l_next := (l_next s)(head := head)\<rparr>"

definition list_insert_between :: "nat \<Rightarrow> nat \<Rightarrow> nat \<Rightarrow> list_links \<Rightarrow> list_links" where
  "list_insert_between el p n s =
     (let s = s\<lparr>l_next := (l_next s)(p := el)\<rparr>;
          s = s\<lparr>l_prev := (l_prev s)(el := p)\<rparr>;
          s = s\<lparr>l_next := (l_next s)(el := n)\<rparr>
      in s\<lparr>l_prev := (l_prev s)(n := el)\<rparr>)"

definition list_add :: "nat \<Rightarrow> nat \<Rightarrow> list_links \<Rightarrow> list_links" where
  "list_add el head s = list_insert_between el head (l_next s head) s"

definition list_add_tail :: "nat \<Rightarrow> nat \<Rightarrow> list_links \<Rightarrow> list_links" where
  "list_add_tail el head s = list_insert_between el (l_prev s head) head s"

definition list_del :: "nat \<Rightarrow> list_links \<Rightarrow> list_links" where
  "list_del el s =
     (let p = l_prev s el;
          n = l_next s el;
          s = s\<lparr>l_next := (l_next s)(p := n)\<rparr>;
          s = s\<lparr>l_prev := (l_prev s)(n := p)\<rparr>;
          s = s\<lparr>l_prev := (l_prev s)(el := 0)\<rparr>
      in s\<lparr>l_next := (l_next s)(el := 0)\<rparr>)"

definition list_empty :: "nat \<Rightarrow> list_links \<Rightarrow> bool" where
  "list_empty el s \<longleftrightarrow> l_next s el = el"

text \<open>The elements that \<open>list_for_each\<close> visits from \<open>el\<close> on, at most \<open>fuel\<close> of them.\<close>

fun list_for_each :: "list_links \<Rightarrow> nat \<Rightarrow> nat \<Rightarrow> nat \<Rightarrow> nat list option" where
  "list_for_each s head el 0 = (if el = head then Some [] else None)"
| "list_for_each s head el (Suc fuel) =
     (if el = head then Some [] else map_option (\<lambda>els. el # els) (list_for_each s head (l_next s el) fuel))"

text \<open>The chain of links from \<open>a\<close> through \<open>xs\<close> to \<open>b\<close>, in both directions.\<close>

fun dll_seg :: "list_links \<Rightarrow> nat \<Rightarrow> nat list \<Rightarrow> nat \<Rightarrow> bool" where
  "dll_seg s a [] b \<longleftrightarrow> l_next s a = b \<and> l_prev s b = a"
| "dll_seg s a (x # xs) b \<longleftrightarrow> l_next s a = x \<and> l_prev s x = a \<and> dll_seg s x xs b"

definition dll :: "list_links \<Rightarrow> nat \<Rightarrow> nat list \<Rightarrow> bool" where
  "dll s head xs \<longleftrightarrow> distinct (head # xs) \<and> dll_seg s head xs head"

lemma dll_seg_append: "dll_seg s a (xs @ x # ys) b \<longleftrightarrow> dll_seg s a xs x \<and> dll_seg s x ys b"
  by (induction xs arbitrary: a) auto

lemma dll_seg_next: "dll_seg s a xs b \<Longrightarrow> l_next s a = hd (xs @ [b])"
  by (cases xs) auto

lemma dll_seg_prev: "dll_seg s a xs b \<Longrightarrow> l_prev s b = last (a # xs)"
  by (induction xs arbitrary: a) auto

text \<open>Only the \<open>next\<close> links of \<open>a\<close> and \<open>xs\<close> and the \<open>prev\<close> links of \<open>xs\<close> and \<open>b\<close> matter.\<close>

lemma dll_seg_frame:
  "dll_seg s a xs b \<Longrightarrow> (\<And>y. y \<in> set (a # xs) \<Longrightarrow> l_next s' y = l_next s y) \<Longrightarrow>
   (\<And>y. y \<in> set (b # xs) \<Longrightarrow> l_prev s' y = l_prev s y) \<Longrightarrow> dll_seg s' a xs b"
  by (induction xs arbitrary: a) auto

text \<open>A segment of which only the last link is redirected.\<close>

lemma dll_seg_redirect:
  "dll_seg s a xs b \<Longrightarrow> distinct (a # xs) \<Longrightarrow> l_next s' (last (a # xs)) = q \<Longrightarrow> l_prev s' q = last (a # xs) \<Longrightarrow>
   (\<And>y. y \<in> set (a # xs) \<Longrightarrow> y \<noteq> last (a # xs) \<Longrightarrow> l_next s' y = l_next s y) \<Longrightarrow>
   (\<And>y. y \<in> set xs \<Longrightarrow> l_prev s' y = l_prev s y) \<Longrightarrow> dll_seg s' a xs q"
proof (induction xs arbitrary: a)
  case (Cons x xs)
  have "a \<noteq> last (x # xs)" using Cons.prems(2) by (auto split: if_splits dest: last_in_set)
  then have "l_next s' a = l_next s a" using Cons.prems(5) [of a] by simp
  moreover have "dll_seg s' x xs q"
    using Cons.prems by (intro Cons.IH) auto
  ultimately show ?case using Cons.prems(1,6) by simp
qed simp

lemma list_insert_between_seg:
  assumes "l_next s p = q" "l_prev s q = p" "el \<noteq> p" "el \<noteq> q"
  shows "dll_seg (list_insert_between el p q s) p [el] q"
  using assms by (auto simp: list_insert_between_def)

lemma list_insert_between_links:
  assumes "el \<noteq> p" "el \<noteq> q"
  shows "l_next (list_insert_between el p q s) y = (if y = el then q else if y = p then el else l_next s y)"
    "l_prev (list_insert_between el p q s) y = (if y = q then el else if y = el then p else l_prev s y)"
  using assms by (auto simp: list_insert_between_def)

lemma list_add_spec:
  assumes "dll s head xs" "el \<notin> set (head # xs)"
  shows "dll (list_add el head s) head (el # xs)"
proof (cases xs)
  case Nil
  with assms show ?thesis by (auto simp: dll_def list_add_def list_insert_between_links)
next
  case (Cons x xs')
  have n: "l_next s head = x" "dll_seg s x xs' head" "x \<noteq> head" "head \<notin> set xs'" "x \<notin> set xs'"
    using assms(1) Cons by (auto simp: dll_def)
  have e: "el \<noteq> head" "el \<noteq> x" "el \<notin> set xs'" using assms(2) Cons by auto
  have "dll_seg (list_insert_between el head x s) x xs' head"
    by (rule dll_seg_frame [OF n(2)]) (use n e in \<open>auto simp: list_insert_between_links\<close>)
  with assms n e Cons show ?thesis by (auto simp: dll_def list_add_def list_insert_between_links)
qed

lemma list_add_tail_spec:
  assumes "dll s head xs" "el \<notin> set (head # xs)"
  shows "dll (list_add_tail el head s) head (xs @ [el])"
proof -
  have seg: "dll_seg s head xs head" and d: "distinct (head # xs)" using assms(1) by (auto simp: dll_def)
  let ?p = "last (head # xs)"
  have p: "l_prev s head = ?p" using dll_seg_prev [OF seg] .
  have e: "el \<noteq> ?p" "el \<noteq> head" "el \<notin> set xs" using assms(2) by (auto split: if_splits)
  let ?s = "list_insert_between el ?p head s"
  have "dll_seg ?s head xs el"
    by (rule dll_seg_redirect [OF seg d]) (use e d in \<open>auto simp: list_insert_between_links split: if_splits\<close>)
  moreover have "dll_seg ?s el [] head" using e by (simp add: list_insert_between_links)
  ultimately have "dll_seg ?s head (xs @ [el]) head" by (simp only: dll_seg_append)
  with assms d e p show ?thesis by (auto simp: dll_def list_add_tail_def)
qed

lemma list_del_links:
  "l_next (list_del el s) y = (if y = el then 0 else if y = l_prev s el then l_next s el else l_next s y)"
  "l_prev (list_del el s) y = (if y = el then 0 else if y = l_next s el then l_prev s el else l_prev s y)"
  by (auto simp: list_del_def Let_def)

lemma list_del_spec:
  assumes "dll s head (xs @ el # ys)"
  shows "dll (list_del el s) head (xs @ ys) \<and> l_next (list_del el s) el = 0 \<and> l_prev (list_del el s) el = 0"
proof -
  have seg: "dll_seg s head xs el" "dll_seg s el ys head" and d: "distinct (head # xs @ el # ys)"
    using assms by (auto simp: dll_def dll_seg_append)
  let ?p = "last (head # xs)" and ?s = "list_del el s"
  have p: "l_prev s el = ?p" using dll_seg_prev [OF seg(1)] .
  have dx: "distinct (head # xs)" using d by auto
  have ep: "el \<noteq> ?p" using d by (auto split: if_splits)
  have "dll_seg ?s head (xs @ ys) head"
  proof (cases ys)
    case Nil
    then have n: "l_next s el = head" using seg(2) by simp
    have "dll_seg ?s head xs head"
      by (rule dll_seg_redirect [OF seg(1) dx]) (use d n p ep in \<open>auto simp: list_del_links split: if_splits\<close>)
    with Nil show ?thesis by simp
  next
    case (Cons y ys')
    then have n: "l_next s el = y" "dll_seg s y ys' head" using seg(2) by auto
    have "dll_seg ?s head xs y"
      by (rule dll_seg_redirect [OF seg(1) dx]) (use d n p ep Cons in \<open>auto simp: list_del_links split: if_splits\<close>)
    moreover have "?p \<notin> set (y # ys')" using d Cons by (auto split: if_splits dest: last_in_set)
    then have "dll_seg ?s y ys' head"
      by (intro dll_seg_frame [OF n(2)]) (use d n p Cons in \<open>auto simp: list_del_links\<close>)
    ultimately show ?thesis unfolding Cons by (simp only: dll_seg_append)
  qed
  with d show ?thesis by (auto simp: dll_def list_del_links)
qed

lemma list_for_each_spec:
  "dll_seg s a xs head \<Longrightarrow> head \<notin> set xs \<Longrightarrow> length xs \<le> fuel \<Longrightarrow>
   list_for_each s head (l_next s a) fuel = Some xs"
proof (induction xs arbitrary: a fuel)
  case Nil
  then show ?case by (cases fuel) auto
next
  case (Cons x xs)
  then obtain f where "fuel = Suc f" by (cases fuel) auto
  with Cons show ?case by auto
qed

text \<open>C35: on the circular list of the elements \<open>xs\<close> the operations act as on the sequence: a fresh
  element is added in front or at the end, an element is taken out and its links are cleared, the
  test for emptiness is exact, and the traversal visits the elements in order and stops.\<close>

theorem list_refines_sequence:
  assumes "dll s head xs" "el \<notin> set (head # xs)"
  shows "dll (list_add el head s) head (el # xs) \<and>
    dll (list_add_tail el head s) head (xs @ [el]) \<and>
    (\<forall>x\<in>set xs. dll (list_del x s) head (remove1 x xs)) \<and>
    (list_empty head s \<longleftrightarrow> xs = []) \<and>
    list_for_each s head (l_next s head) (length xs) = Some xs"
proof -
  have "dll (list_del x s) head (remove1 x xs)" if m: "x \<in> set xs" for x
  proof -
    obtain us vs where "xs = us @ x # vs" "x \<notin> set us" using split_list_first [OF m] by blast
    with list_del_spec [of s head us x vs] assms(1) show ?thesis by (simp add: remove1_append)
  qed
  moreover have "list_empty head s \<longleftrightarrow> xs = []"
    using assms(1) by (cases xs) (auto simp: dll_def list_empty_def)
  moreover have "list_for_each s head (l_next s head) (length xs) = Some xs"
    using assms(1) by (intro list_for_each_spec) (auto simp: dll_def)
  ultimately show ?thesis using list_add_spec [OF assms] list_add_tail_spec [OF assms] by blast
qed

theorem list_refines_sequence_witness:
  "list_for_each (list_add 7 1 (init_list_head 1 \<lparr>l_prev = \<lambda>_. 0, l_next = \<lambda>_. 0\<rparr>)) 1 7 1 = Some [7]"
proof -
  let ?s = "init_list_head 1 \<lparr>l_prev = \<lambda>_. 0, l_next = \<lambda>_. 0\<rparr>"
  have s: "dll ?s 1 []" by (simp add: dll_def init_list_head_def)
  have "dll (list_add 7 1 ?s) 1 [7]" using list_refines_sequence [OF s, of 7] by simp
  moreover have "l_next (list_add 7 1 ?s) 1 = 7" by (simp add: list_add_def list_insert_between_def init_list_head_def)
  ultimately show ?thesis using list_for_each_spec [of "list_add 7 1 ?s" 1 "[7]" 1 1] by (simp add: dll_def)
qed

end
