(* ===== verification/Utf8.thy ===== *)
theory Utf8
  imports Prelude
begin

text \<open>
  Character encodings and C strings (\<open>cutils.c\<close>, \<open>cutils.h\<close>): the UTF-8 encoder and decoder, the
  surrogate pairs of UTF-16, hexadecimal digits, and the bounded string functions.
\<close>

section \<open>UTF-8\<close>

text \<open>The bytes stored from \<open>buf\<close> on; the answer of the function is their number.\<close>

definition utf8_cont :: "u32 \<Rightarrow> nat \<Rightarrow> u8" where
  "utf8_cont c n = ucast ((drop_bit n c AND 0x3f) OR 0x80)"

definition unicode_to_utf8 :: "u32 \<Rightarrow> u8 list" where
  "unicode_to_utf8 c =
     (if c < 0x80 then [ucast c]
      else
        (let q6 =
           (if c < 0x800 then [ucast (drop_bit 6 c OR 0xc0)]
            else
              (let q12 =
                 (if c < 0x10000 then [ucast (drop_bit 12 c OR 0xe0)]
                  else
                    (let q18 =
                       (if c < 0x200000 then [ucast (drop_bit 18 c OR 0xf0)]
                        else
                          (let q24 =
                             (if c < 0x4000000 then [ucast (drop_bit 24 c OR 0xf8)]
                              else if c < 0x80000000 then [ucast (drop_bit 30 c OR 0xfc), utf8_cont c 24]
                              else [])
                           in if q24 = [] then [] else q24 @ [utf8_cont c 18]))
                     in if q18 = [] then [] else q18 @ [utf8_cont c 12]))
               in if q12 = [] then [] else q12 @ [utf8_cont c 6]))
         in if q6 = [] then [] else q6 @ [utf8_cont c 0]))"

definition utf8_min_code :: "u32 list" where
  "utf8_min_code = [0x80, 0x800, 0x10000, 0x200000, 0x4000000]"

definition utf8_first_code_mask :: "u32 list" where
  "utf8_first_code_mask = [0x1f, 0xf, 0x7, 0x3, 0x1]"

text \<open>The number of continuation bytes that a first byte announces.\<close>

definition utf8_lead :: "u8 \<Rightarrow> nat option" where
  "utf8_lead c =
     (if 0xc0 \<le> c \<and> c \<le> 0xdf then Some 1
      else if 0xe0 \<le> c \<and> c \<le> 0xef then Some 2
      else if 0xf0 \<le> c \<and> c \<le> 0xf7 then Some 3
      else if 0xf8 \<le> c \<and> c \<le> 0xfb then Some 4
      else if 0xfc \<le> c \<and> c \<le> 0xfd then Some 5
      else None)"

fun utf8_rest :: "u8 list \<Rightarrow> nat \<Rightarrow> u32 \<Rightarrow> u32 option" where
  "utf8_rest p 0 c = Some c"
| "utf8_rest [] (Suc n) c = None"
| "utf8_rest (b # p) (Suc n) c =
     (if b < 0x80 \<or> b \<ge> 0xc0 then None else utf8_rest p n (push_bit 6 c OR (ucast b AND 0x3f)))"

text \<open>
  The bytes at \<open>p\<close> are at least \<open>max_len\<close> many. The answer is the code point and the number of bytes
  by which \<open>*pp\<close> advances, or \<open>None\<close> for \<open>-1\<close>.
\<close>

definition unicode_from_utf8 :: "u8 list \<Rightarrow> int \<Rightarrow> (u32 \<times> nat) option" where
  "unicode_from_utf8 p max_len =
     (case p of
        [] \<Rightarrow> None
      | c # p \<Rightarrow>
          if c < 0x80 then Some (ucast c, 1)
          else
            (case utf8_lead c of
               None \<Rightarrow> None
             | Some l \<Rightarrow>
                 if int l > max_len - 1 then None
                 else
                   (case utf8_rest p l (ucast c AND utf8_first_code_mask ! (l - 1)) of
                      None \<Rightarrow> None
                    | Some c \<Rightarrow> if c < utf8_min_code ! (l - 1) then None else Some (c, l + 1))))"

section \<open>Surrogates and hexadecimal digits\<close>

definition is_surrogate :: "u32 \<Rightarrow> bool" where "is_surrogate c \<longleftrightarrow> drop_bit 11 c = drop_bit 11 0xD800"
definition is_hi_surrogate :: "u32 \<Rightarrow> bool" where "is_hi_surrogate c \<longleftrightarrow> drop_bit 10 c = drop_bit 10 0xD800"
definition is_lo_surrogate :: "u32 \<Rightarrow> bool" where "is_lo_surrogate c \<longleftrightarrow> drop_bit 10 c = drop_bit 10 0xDC00"
definition get_hi_surrogate :: "u32 \<Rightarrow> u32" where
  "get_hi_surrogate c = drop_bit 10 c - drop_bit 10 0x10000 + 0xD800"
definition get_lo_surrogate :: "u32 \<Rightarrow> u32" where "get_lo_surrogate c = (c AND 0x3FF) OR 0xDC00"
definition from_surrogate :: "u32 \<Rightarrow> u32 \<Rightarrow> u32" where
  "from_surrogate hi lo = 0x10000 + 0x400 * (hi - 0xD800) + (lo - 0xDC00)"

definition from_hex :: "int \<Rightarrow> int" where
  "from_hex c =
     (if c \<ge> 48 \<and> c \<le> 57 then c - 48
      else if c \<ge> 65 \<and> c \<le> 70 then c - 65 + 10
      else if c \<ge> 97 \<and> c \<le> 102 then c - 97 + 10
      else -1)"

section \<open>Arithmetic of the encoding\<close>

lemma or_tag: "drop_bit k (x :: 'a::len word) = 0 \<Longrightarrow> x OR push_bit k m = push_bit k m + x"
  using or_eq_add_of_drop_bit [of k x m] by (simp add: or.commute)

lemma unat_drop_u32: "unat (drop_bit k (c :: u32)) = unat c div 2 ^ k"
  unfolding unat_drop_bit_eq by (rule drop_bit_eq_div)

lemma unat_take_u32: "unat (take_bit k (c :: u32)) = unat c mod 2 ^ k"
  by (simp add: unsigned_take_bit_eq flip: take_bit_eq_mod)

lemma drop_bit_0_of_less: "unat (c :: u32) < 2 ^ k \<Longrightarrow> drop_bit k c = 0"
  using unat_drop_u32 [of k c] by (simp add: unat_eq_zero)

lemma unat_ucast_u8: "unat (ucast (c :: u32) :: u8) = unat c mod 256"
  by (simp add: unsigned_ucast_eq take_bit_eq_mod)

lemma unat_ucast_u32: "unat (ucast (b :: u8) :: u32) = unat b"
proof -
  have "unat b < 2 ^ LENGTH(8)" by (rule unsigned_less)
  then show ?thesis by (simp add: unsigned_ucast_eq take_bit_nat_eq_self_iff)
qed

lemma mask_u32: "(0x3f :: u32) = mask 6" "(0x1f :: u32) = mask 5" "(0xf :: u32) = mask 4" "(7 :: u32) = mask 3"
  "(3 :: u32) = mask 2" "(1 :: u32) = mask 1"
  by (simp_all add: mask_eq_exp_minus_1)

lemma unat_or_tag:
  assumes "unat (x :: u32) < 2 ^ k" "unat (push_bit k m :: u32) + 2 ^ k \<le> 2 ^ 8"
  shows "unat (ucast (x OR push_bit k m) :: u8) = unat (push_bit k m :: u32) + unat x"
proof -
  have "unat (push_bit k m + x) = unat (push_bit k m) + unat x"
    using assms by (subst unat_plus_if') auto
  with assms show ?thesis by (simp add: or_tag [OF drop_bit_0_of_less [OF assms(1)]] unat_ucast_u8)
qed

lemma unat_utf8_cont: "unat (utf8_cont c k) = unat c div 2 ^ k mod 64 + 128"
proof -
  have x: "unat (drop_bit k c AND 0x3f) = unat c div 2 ^ k mod 64"
    by (simp only: mask_u32(1) take_bit_eq_mask [symmetric] unat_take_u32 unat_drop_u32) simp
  have t: "(0x80 :: u32) = push_bit 7 1" by simp
  have "unat (drop_bit k c AND 0x3f) < 2 ^ 7" unfolding x by (rule less_trans [OF mod_less_divisor]) auto
  from unat_or_tag [OF this, of 1] x show ?thesis unfolding utf8_cont_def t by simp
qed

lemma unat_utf8_lead:
  fixes c t :: u32
  assumes "unat c div 2 ^ k < 2 ^ j" "t = push_bit j m" "unat t + 2 ^ j \<le> 2 ^ 8"
  shows "unat (ucast (drop_bit k c OR t) :: u8) = unat t + unat c div 2 ^ k"
  using unat_or_tag [of "drop_bit k c" j m] assms by (simp add: unat_drop_u32)

primrec cont_nats :: "nat \<Rightarrow> nat \<Rightarrow> nat list" where
  "cont_nats n 0 = []"
| "cont_nats n (Suc k) = (n div 64 ^ k mod 64 + 128) # cont_nats n k"

abbreviation cont_step :: "nat \<Rightarrow> nat \<Rightarrow> nat" where
  "cont_step c b \<equiv> c * 64 + b mod 64"

lemma cont_nats_length [simp]: "length (cont_nats n k) = k"
  by (induction k) auto

lemma cont_nats_range: "b \<in> set (cont_nats n k) \<Longrightarrow> 128 \<le> b \<and> b < 192"
  by (induction k) (auto simp: add.commute [of _ 128])

lemma foldl_cont_nats: "foldl cont_step (n div 64 ^ k) (cont_nats n k) = n"
proof (induction k)
  case (Suc k)
  have "cont_step (n div 64 ^ Suc k) (n div 64 ^ k mod 64 + 128) = n div 64 ^ k"
    by (simp add: div_mult2_eq mult.commute [of 64] mod_add_eq [of _ 64 128, symmetric])
  with Suc show ?case by simp
qed simp

lemma cont_byte: "128 \<le> b \<Longrightarrow> b < 192 \<Longrightarrow> b mod 64 + 128 = (b :: nat)"
  using mod_mult_self2 [of "b - 128" 64 2] by simp

lemma cont_nats_foldl:
  "(\<forall>b\<in>set bs. 128 \<le> b \<and> b < 192) \<Longrightarrow>
   cont_nats (foldl cont_step c bs) (length bs) = bs \<and> foldl cont_step c bs div 64 ^ length bs = c"
proof (induction bs arbitrary: c)
  case (Cons b bs)
  then have b: "128 \<le> b" "b < 192" by auto
  define n where "n = foldl cont_step (cont_step c b) bs"
  have IH: "cont_nats n (length bs) = bs" "n div 64 ^ length bs = cont_step c b"
    using Cons unfolding n_def by auto
  have "b mod 64 + 128 = b" using b by (rule cont_byte)
  moreover have "n div 64 ^ Suc (length bs) = c" using IH(2) by (simp add: div_mult2_eq mult.commute [of 64])
  ultimately show ?case using IH by (simp flip: n_def)
qed simp

section \<open>The encoder and the decoder as arithmetic\<close>

definition utf8_len :: "nat \<Rightarrow> nat" where
  "utf8_len n = (if n < 0x800 then 1 else if n < 0x10000 then 2 else if n < 0x200000 then 3 else if n < 0x4000000 then 4 else 5)"

definition utf8_tag :: "nat \<Rightarrow> nat" where
  "utf8_tag l = [0, 0xc0, 0xe0, 0xf0, 0xf8, 0xfc] ! l"

definition utf8_nats :: "nat \<Rightarrow> nat list" where
  "utf8_nats n = (if n < 0x80 then [n] else (utf8_tag (utf8_len n) + n div 64 ^ utf8_len n) # cont_nats n (utf8_len n))"

lemma cont_nats_numeral:
  "cont_nats n (numeral k) = (n div 64 ^ pred_numeral k mod 64 + 128) # cont_nats n (pred_numeral k)"
  by (simp add: numeral_eq_Suc [of k])

lemma cont_nats_unfold:
  "cont_nats n 1 = [n mod 64 + 128]"
  "cont_nats n 2 = [n div 2 ^ 6 mod 64 + 128, n mod 64 + 128]"
  "cont_nats n 3 = [n div 2 ^ 12 mod 64 + 128, n div 2 ^ 6 mod 64 + 128, n mod 64 + 128]"
  "cont_nats n 4 = [n div 2 ^ 18 mod 64 + 128, n div 2 ^ 12 mod 64 + 128, n div 2 ^ 6 mod 64 + 128, n mod 64 + 128]"
  "cont_nats n 5 = [n div 2 ^ 24 mod 64 + 128, n div 2 ^ 18 mod 64 + 128, n div 2 ^ 12 mod 64 + 128,
     n div 2 ^ 6 mod 64 + 128, n mod 64 + 128]"
  by (simp_all add: cont_nats_numeral)

lemma unicode_to_utf8_nats:
  assumes "unat c < 2 ^ 31"
  shows "map unat (unicode_to_utf8 c) = utf8_nats (unat c)"
proof -
  have tags: "(0xc0 :: u32) = push_bit 6 3" "(0xe0 :: u32) = push_bit 5 7" "(0xf0 :: u32) = push_bit 4 15"
    "(0xf8 :: u32) = push_bit 3 31" "(0xfc :: u32) = push_bit 2 63" by simp_all
  note lead = unat_utf8_lead [OF _ tags(1), of c 6] unat_utf8_lead [OF _ tags(2), of c 12]
    unat_utf8_lead [OF _ tags(3), of c 18] unat_utf8_lead [OF _ tags(4), of c 24] unat_utf8_lead [OF _ tags(5), of c 30]
  note defs = unicode_to_utf8_def utf8_nats_def utf8_len_def utf8_tag_def Let_def word_less_nat_alt unat_utf8_cont cont_nats_unfold
  consider "unat c < 0x80" | "0x80 \<le> unat c" "unat c < 0x800" | "0x800 \<le> unat c" "unat c < 0x10000"
    | "0x10000 \<le> unat c" "unat c < 0x200000" | "0x200000 \<le> unat c" "unat c < 0x4000000" | "0x4000000 \<le> unat c"
    by linarith
  then show ?thesis
  proof cases
    case 1
    then show ?thesis by (simp add: defs unat_ucast_u8)
  next
    case 2
    have "unat c div 2 ^ 6 < 2 ^ 6" using 2 by (simp add: less_mult_imp_div_less)
    from lead(1) [OF this] 2 show ?thesis by (simp add: defs)
  next
    case 3
    have "unat c div 2 ^ 12 < 2 ^ 5" using 3 by (simp add: less_mult_imp_div_less)
    from lead(2) [OF this] 3 show ?thesis by (simp add: defs)
  next
    case 4
    have "unat c div 2 ^ 18 < 2 ^ 4" using 4 by (simp add: less_mult_imp_div_less)
    from lead(3) [OF this] 4 show ?thesis by (simp add: defs)
  next
    case 5
    have "unat c div 2 ^ 24 < 2 ^ 3" using 5 by (simp add: less_mult_imp_div_less)
    from lead(4) [OF this] 5 show ?thesis by (simp add: defs)
  next
    case 6
    have "unat c div 2 ^ 30 < 2 ^ 2" using assms by (simp add: less_mult_imp_div_less)
    from lead(5) [OF this] 6 assms show ?thesis by (simp add: defs)
  qed
qed

lemma unat_utf8_step:
  assumes "unat c < 2 ^ 26"
  shows "unat (push_bit 6 c OR (ucast (b :: u8) AND 0x3f) :: u32) = cont_step (unat c) (unat b)"
proof -
  let ?x = "ucast b AND 0x3f :: u32"
  have x: "unat ?x = unat b mod 64"
    by (simp only: mask_u32(1) take_bit_eq_mask [symmetric] unat_take_u32 unat_ucast_u32) simp
  then have "drop_bit 6 ?x = 0" by (intro drop_bit_0_of_less) simp
  then have "push_bit 6 c OR ?x = push_bit 6 c + ?x" by (rule or_eq_add_of_drop_bit)
  moreover have "unat (push_bit 6 c) = unat c * 64"
    using assms by (simp add: push_bit_eq_mult unat_word_ariths)
  ultimately show ?thesis using assms x by (simp add: unat_word_ariths)
qed

lemma utf8_rest_iff:
  "(unat c + 1) * 64 ^ n \<le> 2 ^ 32 \<Longrightarrow>
   utf8_rest p n c = Some r \<longleftrightarrow>
     n \<le> length p \<and> (\<forall>b\<in>set (take n p). 128 \<le> unat b \<and> unat b < 192) \<and>
     unat r = foldl cont_step (unat c) (map unat (take n p))"
proof (induction p n c rule: utf8_rest.induct)
  case (1 p c)
  then show ?case by (auto simp: word_unat_eq_iff)
next
  case (3 b p n c)
  have c: "unat c < 2 ^ 26"
  proof -
    have "(unat c + 1) * 64 \<le> (unat c + 1) * 64 ^ Suc n" by (intro mult_le_mono2) simp
    also note 3(2)
    finally show ?thesis by simp
  qed
  let ?c = "push_bit 6 c OR (ucast b AND 0x3f)"
  have s: "unat ?c = cont_step (unat c) (unat b)" by (rule unat_utf8_step [OF c])
  have "(unat ?c + 1) * 64 ^ n \<le> ((unat c + 1) * 64) * 64 ^ n"
    unfolding s by (intro mult_le_mono1) (simp add: Suc_le_eq)
  also have "\<dots> = (unat c + 1) * 64 ^ Suc n" by (simp only: power_Suc mult.assoc)
  also note 3(2)
  finally have "(unat ?c + 1) * 64 ^ n \<le> 2 ^ 32" .
  with 3(1) s show ?case by (auto simp: word_less_nat_alt word_le_nat_alt)
qed simp

lemma utf8_lead_iff:
  "utf8_lead b = Some l \<longleftrightarrow> 1 \<le> l \<and> l \<le> 5 \<and> utf8_tag l \<le> unat b \<and> unat b < utf8_tag l + 2 ^ (6 - l)"
proof -
  have "l \<in> {1, 2, 3, 4, 5}" if "1 \<le> l" "l \<le> 5" using that by auto
  then show ?thesis
    by (auto simp: utf8_lead_def utf8_tag_def word_le_nat_alt split: if_splits)
qed

lemma utf8_lead_value:
  assumes "utf8_lead b = Some l"
  shows "unat (ucast b AND utf8_first_code_mask ! (l - 1) :: u32) = unat b - utf8_tag l"
proof -
  have "1 \<le> l" "l \<le> 5" using assms unfolding utf8_lead_iff by auto
  then have l: "l \<in> {1, 2, 3, 4, 5}" by auto
  then have m: "utf8_first_code_mask ! (l - 1) = mask (6 - l)"
    by (auto simp: utf8_first_code_mask_def mask_eq_exp_minus_1)
  have "unat (ucast b AND utf8_first_code_mask ! (l - 1) :: u32) = unat b mod 2 ^ (6 - l)"
    unfolding m by (simp only: take_bit_eq_mask [symmetric] unat_take_u32 unat_ucast_u32)
  also have "\<dots> = unat b - utf8_tag l"
  proof -
    have "utf8_tag l mod 2 ^ (6 - l) = 0" using l by (auto simp: utf8_tag_def)
    moreover obtain q where q: "unat b = utf8_tag l + q" "q < 2 ^ (6 - l)"
      using assms unfolding utf8_lead_iff by (metis add_less_cancel_left le_Suc_ex)
    ultimately have "(utf8_tag l + q) mod 2 ^ (6 - l) = q"
      by (subst mod_add_left_eq [symmetric]) simp
    with q show ?thesis by simp
  qed
  finally show ?thesis .
qed

lemma utf8_bounds:
  assumes "1 \<le> l" "l \<le> 5" "q < 2 ^ (6 - l)" "n div 64 ^ l = q" "unat (utf8_min_code ! (l - 1)) \<le> n"
  shows "utf8_len n = l" "0x80 \<le> n" "n < 2 ^ 31"
proof -
  have "l \<in> {1, 2, 3, 4, 5}" using assms(1,2) by auto
  then have "utf8_len n = l \<and> 0x80 \<le> n \<and> n < 2 ^ 31"
    using assms(3-5) by (auto simp: utf8_len_def utf8_min_code_def div_less_iff_less_mult)
  then show "utf8_len n = l" "0x80 \<le> n" "n < 2 ^ 31" by auto
qed

lemma utf8_len_range: "n < 2 ^ 31 \<Longrightarrow> 0x80 \<le> n \<Longrightarrow>
    1 \<le> utf8_len n \<and> utf8_len n \<le> 5 \<and> n div 64 ^ utf8_len n < 2 ^ (6 - utf8_len n) \<and>
    unat (utf8_min_code ! (utf8_len n - 1)) \<le> n"
  by (auto simp: utf8_len_def utf8_min_code_def div_less_iff_less_mult)

lemma utf8_capacity: "1 \<le> l \<Longrightarrow> l \<le> 5 \<Longrightarrow> q < 2 ^ (6 - l) \<Longrightarrow> (q + 1) * 64 ^ l \<le> (2 ^ 32 :: nat)"
proof -
  assume "1 \<le> l" "l \<le> 5" "q < (2 ^ (6 - l) :: nat)"
  moreover from this have "l \<in> {1, 2, 3, 4, 5}" by auto
  ultimately show ?thesis by auto
qed

lemma map_unat_inj: "map unat xs = map unat (ys :: 'a::len word list) \<Longrightarrow> xs = ys"
  by (rule map_injective) (auto simp: inj_def word_unat_eq_iff)

section \<open>Properties\<close>

text \<open>C32: decoding the encoding of a code point of at most 31 bits, in front of any bytes, gives it
  back and consumes exactly the encoding.\<close>

theorem utf8_roundtrip:
  assumes "unat c < 2 ^ 31" "int (length (unicode_to_utf8 c)) \<le> max_len"
  shows "unicode_from_utf8 (unicode_to_utf8 c @ rest) max_len = Some (c, length (unicode_to_utf8 c))"
proof (cases "unat c < 0x80")
  case True
  then have c: "c < 0x80" by (simp add: word_less_nat_alt)
  have "unat (ucast c :: u8) = unat c" using True by (simp add: unat_ucast_u8)
  then have "(ucast c :: u8) < 0x80" "(ucast (ucast c :: u8) :: u32) = c"
    using True by (simp_all add: word_less_nat_alt word_unat_eq_iff unat_ucast_u32)
  with c show ?thesis by (simp add: unicode_to_utf8_def unicode_from_utf8_def)
next
  case False
  let ?n = "unat c" and ?l = "utf8_len (unat c)"
  note r = utf8_len_range [OF assms(1)]
  have enc: "map unat (unicode_to_utf8 c) = (utf8_tag ?l + ?n div 64 ^ ?l) # cont_nats ?n ?l"
    using unicode_to_utf8_nats [OF assms(1)] False by (simp add: utf8_nats_def)
  then obtain b bs where bs: "unicode_to_utf8 c = b # bs" "unat b = utf8_tag ?l + ?n div 64 ^ ?l"
    "map unat bs = cont_nats ?n ?l" by (cases "unicode_to_utf8 c") auto
  have len: "length bs = ?l" using bs(3) by (metis cont_nats_length length_map)
  have lead: "utf8_lead b = Some ?l" using r False bs(2) unfolding utf8_lead_iff by auto
  let ?c0 = "ucast b AND utf8_first_code_mask ! (?l - 1) :: u32"
  have c0: "unat ?c0 = ?n div 64 ^ ?l" using utf8_lead_value [OF lead] bs(2) by simp
  have cap: "(unat ?c0 + 1) * 64 ^ ?l \<le> 2 ^ 32" unfolding c0 using r False by (intro utf8_capacity) auto
  have "utf8_rest (bs @ rest) ?l ?c0 = Some c"
    unfolding utf8_rest_iff [OF cap] c0 using len bs(3) foldl_cont_nats [of ?n ?l] cont_nats_range [of _ ?n ?l]
    by (auto simp flip: bs(3))
  moreover have "\<not> b < 0x80"
    using lead unfolding utf8_lead_iff
    by (auto simp: word_less_nat_alt utf8_tag_def utf8_len_def split: if_splits)
  moreover have "\<not> c < utf8_min_code ! (?l - 1)" using r False by (simp add: word_less_nat_alt)
  ultimately show ?thesis
    using lead bs(1) len assms(2) by (simp add: unicode_from_utf8_def)
qed

theorem utf8_roundtrip_witness:
  "unicode_from_utf8 (unicode_to_utf8 0x20AC @ [65]) 4 = Some (0x20AC, length (unicode_to_utf8 0x20AC))"
  by (rule utf8_roundtrip) (simp_all add: unicode_to_utf8_def utf8_cont_def Let_def)

text \<open>C33: the decoder accepts nothing but encodings: what it consumes is the encoding of the code
  point it answers, lies within the bytes it may read, and has no longer form.\<close>

theorem utf8_decode_canonical:
  assumes "unicode_from_utf8 p max_len = Some (c, k)"
  shows "take k p = unicode_to_utf8 c \<and> k \<le> length p \<and> (k = 1 \<or> int k \<le> max_len) \<and> unat c < 2 ^ 31"
proof -
  from assms obtain b bs where p: "p = b # bs" by (auto simp: unicode_from_utf8_def split: list.splits)
  show ?thesis
  proof (cases "b < 0x80")
    case True
    then have b: "unat b < 0x80" by (simp add: word_less_nat_alt)
    have ck: "c = ucast b" "k = 1" using assms p True by (auto simp: unicode_from_utf8_def)
    have u: "unat c = unat b" using ck by (simp add: unat_ucast_u32)
    then have "c < 0x80" using b by (simp add: word_less_nat_alt)
    moreover have "(ucast c :: u8) = b" using u b by (simp add: word_unat_eq_iff unat_ucast_u8)
    ultimately show ?thesis using ck p b u by (simp add: unicode_to_utf8_def)
  next
    case False
    with assms p obtain l where l: "utf8_lead b = Some l" "int l \<le> max_len - 1" "k = l + 1"
      "utf8_rest bs l (ucast b AND utf8_first_code_mask ! (l - 1)) = Some c"
      "\<not> c < utf8_min_code ! (l - 1)"
      by (auto simp: unicode_from_utf8_def split: option.splits if_splits)
    let ?q = "unat b - utf8_tag l"
    have L: "1 \<le> l" "l \<le> 5" "utf8_tag l \<le> unat b" "?q < 2 ^ (6 - l)"
      using l(1) unfolding utf8_lead_iff by auto
    have c0: "unat (ucast b AND utf8_first_code_mask ! (l - 1) :: u32) = ?q" by (rule utf8_lead_value [OF l(1)])
    have cap: "(?q + 1) * 64 ^ l \<le> 2 ^ 32" by (rule utf8_capacity [OF L(1,2,4)])
    have R: "l \<le> length bs" "\<forall>x\<in>set (take l bs). 128 \<le> unat x \<and> unat x < 192"
      "unat c = foldl cont_step ?q (map unat (take l bs))"
      using l(4) utf8_rest_iff [of "ucast b AND utf8_first_code_mask ! (l - 1)" l bs c] cap unfolding c0 by auto
    have D: "cont_nats (unat c) l = map unat (take l bs)" "unat c div 64 ^ l = ?q"
      using cont_nats_foldl [of "map unat (take l bs)" ?q] R by (auto simp: min_absorb2)
    have "unat (utf8_min_code ! (l - 1)) \<le> unat c" using l(5) by (simp add: word_less_nat_alt not_less)
    note B = utf8_bounds [OF L(1,2,4) D(2) this]
    have "map unat (unicode_to_utf8 c) = map unat (b # take l bs)"
      using unicode_to_utf8_nats [OF B(3)] B D L(3) by (simp add: utf8_nats_def)
    then have "unicode_to_utf8 c = b # take l bs" by (rule map_unat_inj)
    then show ?thesis using p l(2,3) R(1) B(3) by simp
  qed
qed

theorem utf8_decode_canonical_witness:
  "unicode_to_utf8 0xE9 = [0xC3, 0xA9]"
proof -
  have "unicode_from_utf8 [0xC3, 0xA9, 65] 2 = Some (0xE9, 2)"
    by (simp add: unicode_from_utf8_def utf8_lead_def utf8_first_code_mask_def utf8_min_code_def)
  from utf8_decode_canonical [OF this] show ?thesis by simp
qed

text \<open>The surrogate pair of a code point beyond the basic plane is a high and a low surrogate and
  stands for that code point.\<close>

theorem surrogate_roundtrip:
  assumes "0x10000 \<le> c" "c \<le> 0x10FFFF"
  shows "is_hi_surrogate (get_hi_surrogate c) \<and> is_lo_surrogate (get_lo_surrogate c) \<and>
    from_surrogate (get_hi_surrogate c) (get_lo_surrogate c) = c"
proof -
  let ?n = "unat c"
  have n: "0x10000 \<le> ?n" "?n \<le> 0x10FFFF" using assms by (auto simp: word_le_nat_alt)
  have q: "64 \<le> ?n div 1024" "?n div 1024 \<le> 1087"
    using div_le_mono [OF n(1), of 1024] div_le_mono [OF n(2), of 1024] by simp_all
  have d: "unat (drop_bit 10 c) = ?n div 1024" by (simp add: unat_drop_u32)
  have hi: "unat (get_hi_surrogate c) = ?n div 1024 - 64 + 0xD800"
    using q d by (simp add: get_hi_surrogate_def unat_word_ariths unat_sub_if' )
  have t: "unat (c AND 0x3FF) = ?n mod 1024"
  proof -
    have "(0x3FF :: u32) = mask 10" by (simp add: mask_eq_exp_minus_1)
    then show ?thesis by (simp only: take_bit_eq_mask [symmetric] unat_take_u32) simp
  qed
  have "(0xDC00 :: u32) = push_bit 10 55" by simp
  moreover have "drop_bit 10 (c AND 0x3FF) = 0" using t by (intro drop_bit_0_of_less) simp
  ultimately have "get_lo_surrogate c = 0xDC00 + (c AND 0x3FF)"
    unfolding get_lo_surrogate_def using or_tag [of 10 "c AND 0x3FF" 55] by simp
  then have lo: "unat (get_lo_surrogate c) = 0xDC00 + ?n mod 1024"
    using t by (simp add: unat_word_ariths)
  have "is_hi_surrogate (get_hi_surrogate c)"
    unfolding is_hi_surrogate_def word_unat_eq_iff unat_drop_u32 hi using q by simp
  moreover have "is_lo_surrogate (get_lo_surrogate c)"
    unfolding is_lo_surrogate_def word_unat_eq_iff unat_drop_u32 lo by simp
  moreover have "from_surrogate (get_hi_surrogate c) (get_lo_surrogate c) = c"
  proof -
    have "unat (get_hi_surrogate c - 0xD800) = ?n div 1024 - 64" "unat (get_lo_surrogate c - 0xDC00) = ?n mod 1024"
      using hi lo q by (simp_all add: unat_sub_if')
    moreover have "unat (0x10000 + 0x400 * x + y) = (0x10000 + 1024 * unat x + unat y) mod 2 ^ 32" for x y :: u32
      by (simp add: unat_word_ariths mod_simps)
    ultimately have "unat (from_surrogate (get_hi_surrogate c) (get_lo_surrogate c)) =
        (0x10000 + 1024 * (?n div 1024 - 64) + ?n mod 1024) mod 2 ^ 32"
      unfolding from_surrogate_def by (simp only:)
    also have "0x10000 + 1024 * (?n div 1024 - 64) + ?n mod 1024 = ?n"
      using q mult_div_mod_eq [of 1024 ?n] by linarith
    finally show ?thesis using n by (simp add: word_unat_eq_iff)
  qed
  ultimately show ?thesis by blast
qed

theorem surrogate_roundtrip_witness: "from_surrogate (get_hi_surrogate 0x1F600) (get_lo_surrogate 0x1F600) = 0x1F600"
  using surrogate_roundtrip [of "0x1F600"] by simp

end
