(* ===== verification/JSString.thy ===== *)
theory JSString
  imports Utf8
begin

text \<open>
  The strings of the engine (\<open>JSString\<close> of \<open>quickjs.c\<close>): an array of 8-bit or of 16-bit code units.
  Comparison, hashing, concatenation, substrings and the reading of code points.
\<close>

section \<open>The code\<close>

text \<open>\<open>JSString\<close>; the constructor is \<open>is_wide_char\<close> and the length of the list is \<open>len\<close>.\<close>

datatype JSString = Str8 (str8: "u8 list") | Str16 (str16: "u16 list")

definition JS_STRING_LEN_MAX :: nat where "JS_STRING_LEN_MAX = 2 ^ 30 - 1"

definition is_wide_char :: "JSString \<Rightarrow> bool" where
  "is_wide_char p = (case p of Str8 _ \<Rightarrow> False | Str16 _ \<Rightarrow> True)"

definition str_len :: "JSString \<Rightarrow> nat" where
  "str_len p = (case p of Str8 cs \<Rightarrow> length cs | Str16 cs \<Rightarrow> length cs)"

definition string_get :: "JSString \<Rightarrow> nat \<Rightarrow> int" where
  "string_get p idx = (case p of Str8 cs \<Rightarrow> uint (cs ! idx) | Str16 cs \<Rightarrow> uint (cs ! idx))"

fun memcmp8 :: "u8 list \<Rightarrow> u8 list \<Rightarrow> nat \<Rightarrow> int" where
  "memcmp8 (a # src1) (b # src2) (Suc n) =
     (let c = uint a - uint b in if c \<noteq> 0 then c else memcmp8 src1 src2 n)"
| "memcmp8 src1 src2 n = 0"

fun memcmp16_8 :: "u16 list \<Rightarrow> u8 list \<Rightarrow> nat \<Rightarrow> int" where
  "memcmp16_8 (a # src1) (b # src2) (Suc n) =
     (let c = uint a - uint b in if c \<noteq> 0 then c else memcmp16_8 src1 src2 n)"
| "memcmp16_8 src1 src2 n = 0"

fun memcmp16 :: "u16 list \<Rightarrow> u16 list \<Rightarrow> nat \<Rightarrow> int" where
  "memcmp16 (a # src1) (b # src2) (Suc n) =
     (let c = uint a - uint b in if c \<noteq> 0 then c else memcmp16 src1 src2 n)"
| "memcmp16 src1 src2 n = 0"

definition js_string_memcmp :: "JSString \<Rightarrow> nat \<Rightarrow> JSString \<Rightarrow> nat \<Rightarrow> nat \<Rightarrow> int" where
  "js_string_memcmp p1 pos1 p2 pos2 len =
     (case p1 of
        Str8 s1 \<Rightarrow>
          (case p2 of
             Str8 s2 \<Rightarrow> memcmp8 (drop pos1 s1) (drop pos2 s2) len
           | Str16 s2 \<Rightarrow> - memcmp16_8 (drop pos2 s2) (drop pos1 s1) len)
      | Str16 s1 \<Rightarrow>
          (case p2 of
             Str8 s2 \<Rightarrow> memcmp16_8 (drop pos1 s1) (drop pos2 s2) len
           | Str16 s2 \<Rightarrow> memcmp16 (drop pos1 s1) (drop pos2 s2) len))"

definition js_string_eq :: "JSString \<Rightarrow> JSString \<Rightarrow> bool" where
  "js_string_eq p1 p2 =
     (if str_len p1 \<noteq> str_len p2 then False
      else if p1 = p2 then True
      else js_string_memcmp p1 0 p2 0 (str_len p1) = 0)"

definition js_string_compare :: "JSString \<Rightarrow> JSString \<Rightarrow> int" where
  "js_string_compare p1 p2 =
     (let len = min (str_len p1) (str_len p2);
          res = js_string_memcmp p1 0 p2 0 len
      in if res = 0
         then (if str_len p1 = str_len p2 then 0 else if str_len p1 < str_len p2 then -1 else 1)
         else res)"

fun hash_string8 :: "u8 list \<Rightarrow> u32 \<Rightarrow> u32" where
  "hash_string8 [] h = h"
| "hash_string8 (c # str) h = hash_string8 str (h * 263 + ucast c)"

fun hash_string16 :: "u16 list \<Rightarrow> u32 \<Rightarrow> u32" where
  "hash_string16 [] h = h"
| "hash_string16 (c # str) h = hash_string16 str (h * 263 + ucast c)"

definition hash_string :: "JSString \<Rightarrow> u32 \<Rightarrow> u32" where
  "hash_string p h = (case p of Str16 cs \<Rightarrow> hash_string16 cs h | Str8 cs \<Rightarrow> hash_string8 cs h)"

definition copy_str16 :: "JSString \<Rightarrow> nat \<Rightarrow> nat \<Rightarrow> u16 list" where
  "copy_str16 p offset len =
     (case p of Str16 cs \<Rightarrow> take len (drop offset cs) | Str8 cs \<Rightarrow> map ucast (take len (drop offset cs)))"

definition JS_ConcatString1 :: "JSString \<Rightarrow> JSString \<Rightarrow> JSString js" where
  "JS_ConcatString1 p1 p2 =
     (let len = str_len p1 + str_len p2
      in if len > JS_STRING_LEN_MAX then js_throw (InternalError ''string too long'')
         else
           (let wide = is_wide_char p1 \<or> is_wide_char p2
            in js_bind js_malloc_block (\<lambda>_.
                 js_return
                   (if \<not> wide then Str8 (str8 p1 @ str8 p2)
                    else Str16 (copy_str16 p1 0 (str_len p1) @ copy_str16 p2 0 (str_len p2))))))"

text \<open>
  Appending in place asks for the state of the block of \<open>p1\<close>: its reference count and the bytes
  of its allocation behind the header. The answer is the new contents, or \<open>None\<close> for \<open>FALSE\<close>.
\<close>

record str_block =
  blk_ref_count :: nat
  blk_usable :: nat

definition JS_ConcatStringInPlace :: "str_block \<Rightarrow> JSString \<Rightarrow> JSString \<Rightarrow> JSString option" where
  "JS_ConcatStringInPlace blk p1 p2 =
     (if str_len p2 = 0 then Some p1
      else if blk_ref_count blk \<noteq> 1 then None
      else
        (let size1 = blk_usable blk
         in case p1 of
              Str16 s1 \<Rightarrow>
                if size1 \<ge> 2 * (str_len p1 + str_len p2)
                then (case p2 of Str16 s2 \<Rightarrow> Some (Str16 (s1 @ s2)) | Str8 s2 \<Rightarrow> Some (Str16 (s1 @ map ucast s2)))
                else None
            | Str8 s1 \<Rightarrow>
                (case p2 of
                   Str16 s2 \<Rightarrow> None
                 | Str8 s2 \<Rightarrow> if size1 \<ge> str_len p1 + str_len p2 + 1 then Some (Str8 (s1 @ s2)) else None)))"

definition JS_ConcatString2 :: "str_block \<Rightarrow> JSString \<Rightarrow> JSString \<Rightarrow> JSString js" where
  "JS_ConcatString2 blk p1 p2 =
     (case JS_ConcatStringInPlace blk p1 p2 of
        Some p \<Rightarrow> js_return p
      | None \<Rightarrow> JS_ConcatString1 p1 p2)"

definition empty_string :: JSString where "empty_string = Str8 []"

definition js_new_string8_len :: "u8 list \<Rightarrow> JSString js" where
  "js_new_string8_len buf =
     (if length buf \<le> 0 then js_return empty_string
      else js_bind js_malloc_block (\<lambda>_. js_return (Str8 buf)))"

definition js_new_string16_len :: "u16 list \<Rightarrow> JSString js" where
  "js_new_string16_len buf = js_bind js_malloc_block (\<lambda>_. js_return (Str16 buf))"

definition js_new_string_char :: "u16 \<Rightarrow> JSString js" where
  "js_new_string_char c =
     (if c < 0x100 then js_new_string8_len [ucast c] else js_new_string16_len [c])"

definition js_sub_string :: "JSString \<Rightarrow> nat \<Rightarrow> nat \<Rightarrow> JSString js" where
  "js_sub_string p start end' =
     (let len = end' - start
      in if start = 0 \<and> end' = str_len p then js_return p
         else
           (case p of
              Str16 cs \<Rightarrow>
                if len > 0
                then
                  (let c = foldl (\<lambda>c x. c OR x) 0 (take len (drop start cs))
                   in if c > 0xFF then js_new_string16_len (take len (drop start cs))
                      else js_bind js_malloc_block (\<lambda>_.
                             js_return (Str8 (map ucast (take len (drop start cs))))))
                else js_new_string8_len []
            | Str8 cs \<Rightarrow> js_new_string8_len (take len (drop start cs))))"

definition string_getc :: "JSString \<Rightarrow> nat \<Rightarrow> u32 \<times> nat" where
  "string_getc p idx =
     (case p of
        Str16 cs \<Rightarrow>
          (let c = ucast (cs ! idx);
               idx = idx + 1
           in if is_hi_surrogate c \<and> idx < length cs
              then (let c1 = ucast (cs ! idx)
                    in if is_lo_surrogate c1 then (from_surrogate c c1, idx + 1) else (c, idx))
              else (c, idx))
      | Str8 cs \<Rightarrow> (ucast (cs ! idx), idx + 1))"

section \<open>Code units\<close>

definition units :: "JSString \<Rightarrow> u16 list" where
  "units p = (case p of Str8 cs \<Rightarrow> map ucast cs | Str16 cs \<Rightarrow> cs)"

lemma units_simps [simp]: "units (Str8 cs) = map ucast cs" "units (Str16 ds) = ds"
  by (simp_all add: units_def)

lemma is_wide_char_simps [simp]: "\<not> is_wide_char (Str8 cs)" "is_wide_char (Str16 cs')"
  by (simp_all add: is_wide_char_def)

lemma str_len_simps [simp]: "str_len (Str8 cs) = length cs" "str_len (Str16 cs') = length cs'"
  by (simp_all add: str_len_def)

lemma length_units [simp]: "length (units p) = str_len p"
  by (cases p) simp_all

lemma units_empty_string [simp]: "units empty_string = []" "str_len empty_string = 0"
  by (simp_all add: empty_string_def)

lemma str_len_0_iff: "str_len p = 0 \<longleftrightarrow> units p = []"
  by (metis length_0_conv length_units)

lemma uint_ucast_u8 [simp]: "uint (ucast (c :: u8) :: u16) = uint c"
  by (simp add: uint_up_ucast is_up)

lemma ucast_u8_u16_u8 [simp]: "ucast (ucast (c :: u8) :: u16) = c"
  by (simp add: ucast_up_ucast_id is_up)

lemma ucast_u8_u16_u32 [simp]: "(ucast (ucast (c :: u8) :: u16) :: u32) = ucast c"
  by (simp add: ucast_up_ucast is_up)

lemma narrow_unit: "(c :: u16) \<le> 0xFF \<Longrightarrow> ucast (ucast c :: u8) = c"
  by (simp add: word_unat_eq_iff unsigned_ucast_eq take_bit_eq_mod word_le_nat_alt unat_mod)

lemma narrow_unit_iff: "(c :: u16) \<le> 0xFF \<longleftrightarrow> drop_bit 8 c = 0"
  by (simp add: word_unat_eq_iff word_le_nat_alt drop_bit_eq_div unat_div div_eq_0_iff less_Suc_eq_le [symmetric])

lemma unat_lt2p_u8: "unat (c :: u8) < 256"
  using unsigned_less [of c, where ?'a = nat] by simp

lemma ucast_u8_le [simp]: "(ucast (c :: u8) :: u16) \<le> 0xFF"
proof -
  have "unat c < 256" using unat_lt2p_u8 [of c] .
  then show ?thesis by (simp add: word_le_nat_alt unsigned_ucast_eq take_bit_eq_mod)
qed

lemma copy_str16_whole [simp]: "copy_str16 p 0 (str_len p) = units p"
  by (cases p) (simp_all add: copy_str16_def)

lemma string_get_units: "i < str_len p \<Longrightarrow> string_get p i = uint (units p ! i)"
  by (cases p) (simp_all add: string_get_def)

section \<open>Comparison and hashing\<close>

lemma memcmp8_16: "memcmp8 xs ys n = memcmp16 (map ucast xs) (map ucast ys) n"
  by (induction xs ys n rule: memcmp8.induct) (simp_all add: Let_def)

lemma memcmp16_8_16: "memcmp16_8 xs ys n = memcmp16 xs (map ucast ys) n"
  by (induction xs ys n rule: memcmp16_8.induct) (simp_all add: Let_def)

lemma memcmp16_neg: "- memcmp16 ys xs n = memcmp16 xs ys n"
  by (induction xs ys n rule: memcmp16.induct) (auto simp: Let_def)

lemma js_string_memcmp_units:
  "js_string_memcmp p1 pos1 p2 pos2 len = memcmp16 (drop pos1 (units p1)) (drop pos2 (units p2)) len"
  by (cases p1; cases p2)
    (simp_all add: js_string_memcmp_def memcmp8_16 memcmp16_8_16 memcmp16_neg drop_map)

lemma memcmp16_0 [simp]: "memcmp16 xs ys 0 = 0"
  by (cases xs; cases ys) simp_all

lemma memcmp16_eq_0:
  "n \<le> length xs \<Longrightarrow> n \<le> length ys \<Longrightarrow> memcmp16 xs ys n = 0 \<longleftrightarrow> take n xs = take n ys"
  by (induction xs ys n rule: memcmp16.induct) (auto simp: Let_def word_uint_eq_iff)

lemma memcmp16_add:
  "m \<le> length xs \<Longrightarrow> m \<le> length ys \<Longrightarrow>
   memcmp16 xs ys (m + n) =
     (if memcmp16 xs ys m \<noteq> 0 then memcmp16 xs ys m else memcmp16 (drop m xs) (drop m ys) n)"
  by (induction xs ys m rule: memcmp16.induct) (auto simp: Let_def)

text \<open>The order of strings: lexicographic by code units.\<close>

definition unit_cmp :: "u16 list \<Rightarrow> u16 list \<Rightarrow> int" where
  "unit_cmp xs ys =
     (let res = memcmp16 xs ys (min (length xs) (length ys))
      in if res = 0
         then (if length xs = length ys then 0 else if length xs < length ys then -1 else 1)
         else res)"

lemma unit_cmp_simps [simp]:
  "unit_cmp [] [] = 0" "unit_cmp [] (y # ys) = -1" "unit_cmp (x # xs) [] = 1"
  "unit_cmp (x # xs) (y # ys) = (if x = y then unit_cmp xs ys else uint x - uint y)"
  by (auto simp: unit_cmp_def Let_def word_uint_eq_iff)

lemma unit_cmp_order:
  "unit_cmp xs ys = 0 \<longleftrightarrow> xs = ys"
  "unit_cmp xs ys < 0 \<longleftrightarrow> ord_class.lexordp xs ys"
  by (induction xs ys rule: list_induct2') (auto simp: word_less_def word_uint_eq_iff)

lemma js_string_compare_units: "js_string_compare p1 p2 = unit_cmp (units p1) (units p2)"
  by (simp add: js_string_compare_def unit_cmp_def js_string_memcmp_units)

lemma js_string_eq_units: "js_string_eq p1 p2 \<longleftrightarrow> units p1 = units p2"
  by (auto simp: js_string_eq_def js_string_memcmp_units memcmp16_eq_0)
    (metis length_units)

definition hash_units :: "u16 list \<Rightarrow> u32 \<Rightarrow> u32" where
  "hash_units cs h = foldl (\<lambda>h c. h * 263 + ucast c) h cs"

lemma hash_string_units: "hash_string p h = hash_units (units p) h"
proof (cases p)
  case (Str8 cs)
  have "hash_string8 cs h = hash_units (map ucast cs) h"
    by (induction cs h rule: hash_string8.induct) (simp_all add: hash_units_def)
  with Str8 show ?thesis by (simp add: hash_string_def)
next
  case (Str16 cs)
  have "hash_string16 cs h = hash_units cs h"
    by (induction cs h rule: hash_string16.induct) (simp_all add: hash_units_def)
  with Str16 show ?thesis by (simp add: hash_string_def)
qed

section \<open>Concatenation and substrings\<close>

definition string_too_long :: "nat \<Rightarrow> js_error \<Rightarrow> bool" where
  "string_too_long len e \<longleftrightarrow> e = InternalError ''string too long'' \<and> len > JS_STRING_LEN_MAX"

lemma str8_units: "\<not> is_wide_char p \<Longrightarrow> map ucast (str8 p) = units p"
  by (cases p) simp_all

lemma JS_ConcatString1_spec:
  "js_spec (JS_ConcatString1 p1 p2)
     (\<lambda>p. units p = units p1 @ units p2 \<and> (is_wide_char p \<longleftrightarrow> is_wide_char p1 \<or> is_wide_char p2))
     (string_too_long (str_len p1 + str_len p2))"
  unfolding JS_ConcatString1_def Let_def
  by (intro js_spec_if js_spec_throw js_spec_bind [OF js_spec_malloc_block] js_spec_return)
    (auto simp: string_too_long_def str8_units)

lemma JS_ConcatStringInPlace_units:
  "JS_ConcatStringInPlace blk p1 p2 = Some p \<Longrightarrow>
   units p = units p1 @ units p2 \<and> is_wide_char p = is_wide_char p1"
  unfolding JS_ConcatStringInPlace_def str_len_0_iff Let_def
  by (cases p1; cases p2) (auto split: if_splits)

lemma JS_ConcatString2_spec:
  "js_spec (JS_ConcatString2 blk p1 p2)
     (\<lambda>p. units p = units p1 @ units p2) (string_too_long (str_len p1 + str_len p2))"
  unfolding JS_ConcatString2_def
  by (cases "JS_ConcatStringInPlace blk p1 p2")
    (auto intro: js_spec_return js_spec_conseq [OF JS_ConcatString1_spec] dest: JS_ConcatStringInPlace_units)

lemma js_new_string8_len_spec: "js_spec (js_new_string8_len cs) (\<lambda>p. p = Str8 cs) E"
  unfolding js_new_string8_len_def empty_string_def
  by (intro js_spec_if js_spec_return js_spec_bind [OF js_spec_malloc_block]) simp_all

lemma js_new_string16_len_spec: "js_spec (js_new_string16_len cs) (\<lambda>p. p = Str16 cs) E"
  unfolding js_new_string16_len_def by (intro js_spec_return js_spec_bind [OF js_spec_malloc_block]) simp_all

lemma or_word_eq_0: "(a OR b :: u16) = 0 \<longleftrightarrow> a = 0 \<and> b = 0"
  by (auto simp: bit_eq_iff bit_or_iff)

lemma foldl_or_le:
  "foldl (\<lambda>c x. c OR x) a cs \<le> 0xFF \<longleftrightarrow> a \<le> 0xFF \<and> (\<forall>c\<in>set cs. c \<le> (0xFF :: u16))"
proof (induction cs arbitrary: a)
  case (Cons c cs)
  have "a OR c \<le> 0xFF \<longleftrightarrow> a \<le> 0xFF \<and> c \<le> 0xFF"
    unfolding narrow_unit_iff by (simp add: or_word_eq_0)
  with Cons show ?case by auto
qed simp

lemma foldl_or_gt:
  "0xFF < foldl (\<lambda>c x. c OR x) 0 cs \<longleftrightarrow> (\<exists>c\<in>set cs. (0xFF :: u16) < c)"
  using foldl_or_le [of 0 cs] by (auto simp flip: not_le)

lemma js_sub_string_spec:
  assumes "start \<le> end'" "end' \<le> str_len p"
  shows "js_spec (js_sub_string p start end')
     (\<lambda>r. units r = take (end' - start) (drop start (units p)) \<and>
          (\<not> (start = 0 \<and> end' = str_len p) \<longrightarrow> (is_wide_char r \<longleftrightarrow> (\<exists>c\<in>set (units r). c > 0xFF)))) E"
proof (cases p)
  case (Str8 cs)
  show ?thesis
    unfolding js_sub_string_def Let_def Str8 JSString.case
    by (intro js_spec_if js_spec_return js_spec_conseq [OF js_new_string8_len_spec])
      (auto simp: take_map drop_map ucast_u8_le not_less)
next
  case (Str16 cs)
  have narrow: "map (ucast \<circ> (ucast :: u16 \<Rightarrow> u8)) xs = xs" if "\<forall>c\<in>set xs. c \<le> 0xFF" for xs :: "u16 list"
    using that by (induction xs) (auto simp: narrow_unit)
  show ?thesis
    unfolding js_sub_string_def Let_def Str16 JSString.case
    by (intro js_spec_if js_spec_return js_spec_conseq [OF js_new_string8_len_spec]
        js_spec_conseq [OF js_new_string16_len_spec] js_spec_bind [OF js_spec_malloc_block])
      (auto simp: narrow foldl_or_gt not_less)
qed

text \<open>C36: equality, order and hash of strings depend only on their code units, not on whether they are
  stored as bytes or as 16-bit units: comparison is the lexicographic order by code units, it agrees
  with equality, and the hash is that of the same units stored wide, so equal strings hash alike.\<close>

theorem js_string_compare_correct:
  "(js_string_eq p1 p2 \<longleftrightarrow> units p1 = units p2) \<and>
   (js_string_compare p1 p2 = 0 \<longleftrightarrow> js_string_eq p1 p2) \<and>
   (js_string_compare p1 p2 < 0 \<longleftrightarrow> ord_class.lexordp (units p1) (units p2)) \<and>
   (js_string_compare p1 p2 < 0 \<longleftrightarrow> js_string_compare p2 p1 > 0) \<and>
   hash_string p1 h = hash_string (Str16 (units p1)) h"
proof -
  have flip: "unit_cmp xs ys < 0 \<longleftrightarrow> unit_cmp ys xs > 0" for xs ys
    by (induction xs ys rule: list_induct2') auto
  show ?thesis
    by (simp add: js_string_eq_units js_string_compare_units unit_cmp_order(1) hash_string_units
        flip [of "units p1"] flip: unit_cmp_order(2))
qed

end
