(* ===== verification/StringBuffer.thy ===== *)
theory StringBuffer
  imports JSString
begin

text \<open>
  String buffers (\<open>StringBuffer\<close> of \<open>quickjs.c\<close>): the bytes of a growing string that is widened in place
  from 8-bit to 16-bit code units when the first wide unit arrives.
\<close>

section \<open>Sinks\<close>

text \<open>
  The interface of the append-only buffers of the engine: a buffer holds contents and possibly a
  failure, and appending elements adds them, keeps an earlier failure, or fails for lack of memory or
  because the limit \<open>too_long\<close> is exceeded. Clients may ignore the return codes of the single
  operations and ask for the failure at the end, since appending is closed under composition.
\<close>

definition sink_appended ::
  "('d \<Rightarrow> bool) \<Rightarrow> ('d \<Rightarrow> 'c list) \<Rightarrow> ('d \<Rightarrow> js_error option) \<Rightarrow> (nat \<Rightarrow> js_error \<Rightarrow> bool) \<Rightarrow>
   'd \<Rightarrow> 'c list \<Rightarrow> answers \<Rightarrow> 'd \<Rightarrow> answers \<Rightarrow> bool" where
  "sink_appended ok contents failure too_long d xs s d' s' \<longleftrightarrow>
     ok d' \<and> set s' \<subseteq> set s \<and>
     (case failure d of
        Some e \<Rightarrow> failure d' = Some e
      | None \<Rightarrow>
          (case failure d' of
             None \<Rightarrow> contents d' = contents d @ xs
           | Some e \<Rightarrow> e = OutOfMemory \<and> None \<in> set s \<or> too_long (length (contents d) + length xs) e))"

locale append_sink =
  fixes ok :: "'d \<Rightarrow> bool"
    and contents :: "'d \<Rightarrow> 'c list"
    and failure :: "'d \<Rightarrow> js_error option"
    and too_long :: "nat \<Rightarrow> js_error \<Rightarrow> bool"
    and put :: "'d \<Rightarrow> 'c \<Rightarrow> answers \<Rightarrow> int \<times> 'd \<times> answers"
  assumes too_long_mono: "too_long m e \<Longrightarrow> m \<le> n \<Longrightarrow> too_long n e"
    and put_appends:
      "ok d \<Longrightarrow> put d c s = (ret, d', s') \<Longrightarrow> sink_appended ok contents failure too_long d [c] s d' s'"
    and put_code: "ok d \<Longrightarrow> put d c s = (ret, d', s') \<Longrightarrow> ret \<noteq> 0 \<Longrightarrow> failure d' \<noteq> None"
begin

abbreviation appended :: "'d \<Rightarrow> 'c list \<Rightarrow> answers \<Rightarrow> 'd \<Rightarrow> answers \<Rightarrow> bool" where
  "appended \<equiv> sink_appended ok contents failure too_long"

lemma appended_refl: "ok d \<Longrightarrow> appended d [] s d s"
  by (simp add: sink_appended_def split: option.splits)

lemma appended_ok: "appended d xs s d' s' \<Longrightarrow> ok d'"
  by (simp add: sink_appended_def)

lemma appended_trans:
  assumes "appended d xs s d1 s1" "appended d1 ys s1 d2 s2"
  shows "appended d (xs @ ys) s d2 s2"
proof (cases "failure d")
  case None
  show ?thesis
  proof (cases "failure d1")
    case N1: None
    with None assms show ?thesis
      unfolding sink_appended_def by (auto simp: add.assoc split: option.splits)
  next
    case (Some e)
    with None assms show ?thesis
      unfolding sink_appended_def by (auto intro: too_long_mono split: option.splits)
  qed
next
  case (Some e)
  with assms show ?thesis unfolding sink_appended_def by auto
qed

text \<open>A failure stays, whatever is left to be appended.\<close>

lemma appended_stop: "appended d xs s d' s' \<Longrightarrow> failure d' \<noteq> None \<Longrightarrow> appended d (xs @ ys) s d' s'"
  unfolding sink_appended_def by (auto intro: too_long_mono split: option.splits)

primrec put_all :: "'d \<Rightarrow> 'c list \<Rightarrow> answers \<Rightarrow> 'd \<times> answers" where
  "put_all d [] s = (d, s)"
| "put_all d (c # cs) s = (case put d c s of (ret, d, s) \<Rightarrow> put_all d cs s)"

lemma put_all_appends: "ok d \<Longrightarrow> put_all d cs s = (d', s') \<Longrightarrow> appended d cs s d' s'"
proof (induction cs arbitrary: d s)
  case Nil
  then show ?case by (simp add: appended_refl)
next
  case (Cons c cs)
  obtain ret d1 s1 where p: "put d c s = (ret, d1, s1)" by (cases "put d c s")
  from put_appends [OF Cons.prems(1) p] have a: "appended d [c] s d1 s1" .
  from Cons.prems(2) p have "put_all d1 cs s1 = (d', s')" by simp
  from appended_trans [OF a Cons.IH [OF appended_ok [OF a] this]] show ?case by simp
qed

end

section \<open>The code\<close>

text \<open>
  The units of a narrow string are its bytes, those of a wide string are pairs of bytes (little
  endian). \<open>sb_str\<close> is the block behind the header of the string, \<open>sb_error\<close> the exception that has
  been thrown when \<open>error_status\<close> is set.
\<close>

record StringBuffer =
  sb_str :: "u8 list"
  sb_len :: nat
  sb_size :: nat
  sb_wide :: bool
  sb_error :: "js_error option"

definition str_bytes :: "nat \<Rightarrow> bool \<Rightarrow> nat" where
  "str_bytes n wide = (if wide then 2 * n else n + 1)"

definition get16 :: "u8 list \<Rightarrow> nat \<Rightarrow> u16" where
  "get16 b i = ucast (b ! (2 * i)) OR push_bit 8 (ucast (b ! (2 * i + 1)))"

definition put16 :: "u8 list \<Rightarrow> nat \<Rightarrow> u16 \<Rightarrow> u8 list" where
  "put16 b i c = b[2 * i := ucast c, 2 * i + 1 := ucast (drop_bit 8 c)]"

definition string_buffer_init2 :: "nat \<Rightarrow> bool \<Rightarrow> answers \<Rightarrow> int \<times> StringBuffer \<times> answers" where
  "string_buffer_init2 sz wide s =
     (case mem_realloc [] (str_bytes sz wide) s of
        (None, s) \<Rightarrow>
          (-1, \<lparr>sb_str = [], sb_len = 0, sb_size = 0, sb_wide = wide, sb_error = Some OutOfMemory\<rparr>, s)
      | (Some b, s) \<Rightarrow>
          (0, \<lparr>sb_str = b, sb_len = 0, sb_size = sz, sb_wide = wide, sb_error = None\<rparr>, s))"

definition string_buffer_init :: "nat \<Rightarrow> answers \<Rightarrow> int \<times> StringBuffer \<times> answers" where
  "string_buffer_init sz s = string_buffer_init2 sz False s"

definition string_buffer_set_error :: "js_error \<Rightarrow> StringBuffer \<Rightarrow> StringBuffer" where
  "string_buffer_set_error e sb = sb\<lparr>sb_str := [], sb_size := 0, sb_len := 0, sb_error := Some e\<rparr>"

text \<open>\<open>js_realloc2\<close> also tells by how much the block exceeds the request; the answer of the allocator decides.\<close>

definition js_realloc2 :: "u8 list \<Rightarrow> nat \<Rightarrow> answers \<Rightarrow> (u8 list \<times> nat) option \<times> answers" where
  "js_realloc2 p n s = (case s of
      [] \<Rightarrow> (Some (take n p @ replicate (n - length p) 0, 0), [])
    | None # s' \<Rightarrow> (None, s')
    | Some junk # s' \<Rightarrow>
        (let slack = unat (junk n)
         in (Some (take (n + slack) (take n p @ map (\<lambda>i. ucast (junk i)) [0..<n + slack]), slack), s')))"

text \<open>The widening in place, from the last unit down to the first.\<close>

fun widen_loop :: "u8 list \<Rightarrow> nat \<Rightarrow> u8 list" where
  "widen_loop b 0 = b"
| "widen_loop b (Suc i) = widen_loop (put16 b i (ucast (b ! i))) i"

definition string_buffer_widen :: "StringBuffer \<Rightarrow> nat \<Rightarrow> answers \<Rightarrow> int \<times> StringBuffer \<times> answers" where
  "string_buffer_widen sb sz s =
     (if sb_error sb \<noteq> None then (-1, sb, s)
      else
        (case js_realloc2 (sb_str sb) (2 * sz) s of
           (None, s) \<Rightarrow> (-1, string_buffer_set_error OutOfMemory sb, s)
         | (Some (b, slack), s) \<Rightarrow>
             (0, sb\<lparr>sb_str := widen_loop b (sb_len sb), sb_wide := True, sb_size := sz + slack div 2\<rparr>, s)))"

definition string_buffer_realloc :: "StringBuffer \<Rightarrow> nat \<Rightarrow> u32 \<Rightarrow> answers \<Rightarrow> int \<times> StringBuffer \<times> answers" where
  "string_buffer_realloc sb new_len c s =
     (if sb_error sb \<noteq> None then (-1, sb, s)
      else if new_len > JS_STRING_LEN_MAX
      then (-1, string_buffer_set_error (InternalError ''string too long'') sb, s)
      else
        (let new_size = min (max new_len (sb_size sb * 3 div 2)) JS_STRING_LEN_MAX
         in if \<not> sb_wide sb \<and> c \<ge> 0x100 then string_buffer_widen sb new_size s
            else
              (case js_realloc2 (sb_str sb) (str_bytes new_size (sb_wide sb)) s of
                 (None, s) \<Rightarrow> (-1, string_buffer_set_error OutOfMemory sb, s)
               | (Some (b, slack), s) \<Rightarrow>
                   (let new_size = min (new_size + (if sb_wide sb then slack div 2 else slack)) JS_STRING_LEN_MAX
                    in (0, sb\<lparr>sb_size := new_size, sb_str := b\<rparr>, s)))))"

definition sb_store16 :: "StringBuffer \<Rightarrow> u32 \<Rightarrow> StringBuffer" where
  "sb_store16 sb c = sb\<lparr>sb_str := put16 (sb_str sb) (sb_len sb) (ucast c), sb_len := sb_len sb + 1\<rparr>"

definition sb_store8 :: "StringBuffer \<Rightarrow> u32 \<Rightarrow> StringBuffer" where
  "sb_store8 sb c = sb\<lparr>sb_str := (sb_str sb)[sb_len sb := ucast c], sb_len := sb_len sb + 1\<rparr>"

definition string_buffer_putc16_slow :: "StringBuffer \<Rightarrow> u32 \<Rightarrow> answers \<Rightarrow> int \<times> StringBuffer \<times> answers" where
  "string_buffer_putc16_slow sb c s =
     (case (if sb_len sb \<ge> sb_size sb then string_buffer_realloc sb (sb_len sb + 1) c s else (0, sb, s)) of
        (ret, sb, s) \<Rightarrow>
          if ret \<noteq> 0 then (-1, sb, s)
          else if sb_wide sb then (0, sb_store16 sb c, s)
          else if c < 0x100 then (0, sb_store8 sb c, s)
          else
            (case string_buffer_widen sb (sb_size sb) s of
               (ret, sb, s) \<Rightarrow> if ret \<noteq> 0 then (-1, sb, s) else (0, sb_store16 sb c, s)))"

definition string_buffer_putc8 :: "StringBuffer \<Rightarrow> u32 \<Rightarrow> answers \<Rightarrow> int \<times> StringBuffer \<times> answers" where
  "string_buffer_putc8 sb c s =
     (case (if sb_len sb \<ge> sb_size sb then string_buffer_realloc sb (sb_len sb + 1) c s else (0, sb, s)) of
        (ret, sb, s) \<Rightarrow>
          if ret \<noteq> 0 then (-1, sb, s)
          else (0, if sb_wide sb then sb_store16 sb c else sb_store8 sb c, s))"

definition string_buffer_putc16 :: "StringBuffer \<Rightarrow> u32 \<Rightarrow> answers \<Rightarrow> int \<times> StringBuffer \<times> answers" where
  "string_buffer_putc16 sb c s =
     (if sb_len sb < sb_size sb \<and> sb_wide sb then (0, sb_store16 sb c, s)
      else if sb_len sb < sb_size sb \<and> c < 0x100 then (0, sb_store8 sb c, s)
      else string_buffer_putc16_slow sb c s)"

definition string_buffer_putc_slow :: "StringBuffer \<Rightarrow> u32 \<Rightarrow> answers \<Rightarrow> int \<times> StringBuffer \<times> answers" where
  "string_buffer_putc_slow sb c s =
     (if c \<ge> 0x10000
      then
        (case string_buffer_putc16 sb (get_hi_surrogate c) s of
           (ret, sb, s) \<Rightarrow>
             if ret \<noteq> 0 then (-1, sb, s) else string_buffer_putc16 sb (get_lo_surrogate c) s)
      else string_buffer_putc16 sb c s)"

definition string_buffer_putc :: "StringBuffer \<Rightarrow> u32 \<Rightarrow> answers \<Rightarrow> int \<times> StringBuffer \<times> answers" where
  "string_buffer_putc sb c s =
     (if sb_len sb < sb_size sb \<and> sb_wide sb \<and> c < 0x10000 then (0, sb_store16 sb c, s)
      else if sb_len sb < sb_size sb \<and> sb_wide sb \<and> sb_len sb + 1 < sb_size sb
      then (0, sb_store16 (sb_store16 sb (get_hi_surrogate c)) (get_lo_surrogate c), s)
      else if sb_len sb < sb_size sb \<and> \<not> sb_wide sb \<and> c < 0x100 then (0, sb_store8 sb c, s)
      else string_buffer_putc_slow sb c s)"

text \<open>The loops that store an array of units from index \<open>i\<close> on.\<close>

fun put16s :: "u8 list \<Rightarrow> nat \<Rightarrow> u16 list \<Rightarrow> u8 list" where
  "put16s b i [] = b"
| "put16s b i (c # cs) = put16s (put16 b i c) (i + 1) cs"

definition sb_store_units :: "StringBuffer \<Rightarrow> u16 list \<Rightarrow> StringBuffer" where
  "sb_store_units sb p =
     (if sb_wide sb then sb\<lparr>sb_str := put16s (sb_str sb) (sb_len sb) p, sb_len := sb_len sb + length p\<rparr>
      else sb\<lparr>sb_str := blit (sb_str sb) (sb_len sb) (map ucast p), sb_len := sb_len sb + length p\<rparr>)"

definition string_buffer_write8 :: "StringBuffer \<Rightarrow> u8 list \<Rightarrow> answers \<Rightarrow> int \<times> StringBuffer \<times> answers" where
  "string_buffer_write8 sb p s =
     (case (if sb_len sb + length p > sb_size sb
            then string_buffer_realloc sb (sb_len sb + length p) 0 s else (0, sb, s)) of
        (ret, sb, s) \<Rightarrow> if ret \<noteq> 0 then (-1, sb, s) else (0, sb_store_units sb (map ucast p), s))"

definition string_buffer_write16 :: "StringBuffer \<Rightarrow> u16 list \<Rightarrow> answers \<Rightarrow> int \<times> StringBuffer \<times> answers" where
  "string_buffer_write16 sb p s =
     (let c = foldl (\<lambda>c x. c OR x) 0 p
      in case (if sb_len sb + length p > sb_size sb
               then string_buffer_realloc sb (sb_len sb + length p) (ucast c) s
               else if \<not> sb_wide sb \<and> c \<ge> 0x100 then string_buffer_widen sb (sb_size sb) s
               else (0, sb, s)) of
           (ret, sb, s) \<Rightarrow> if ret \<noteq> 0 then (-1, sb, s) else (0, sb_store_units sb p, s))"

definition string_buffer_puts8 :: "StringBuffer \<Rightarrow> u8 list \<Rightarrow> answers \<Rightarrow> int \<times> StringBuffer \<times> answers" where
  "string_buffer_puts8 sb str s = string_buffer_write8 sb (takeWhile (\<lambda>c. c \<noteq> 0) str) s"

definition string_buffer_concat :: "StringBuffer \<Rightarrow> JSString \<Rightarrow> nat \<Rightarrow> nat \<Rightarrow> answers \<Rightarrow> int \<times> StringBuffer \<times> answers" where
  "string_buffer_concat sb p from to s =
     (if to \<le> from then (0, sb, s)
      else
        (case p of
           Str16 cs \<Rightarrow> string_buffer_write16 sb (take (to - from) (drop from cs)) s
         | Str8 cs \<Rightarrow> string_buffer_write8 sb (take (to - from) (drop from cs)) s))"

fun string_buffer_fill_loop :: "StringBuffer \<Rightarrow> u32 \<Rightarrow> nat \<Rightarrow> answers \<Rightarrow> int \<times> StringBuffer \<times> answers" where
  "string_buffer_fill_loop sb c 0 s = (0, sb, s)"
| "string_buffer_fill_loop sb c (Suc count) s =
     (case string_buffer_putc16 sb c s of
        (ret, sb, s) \<Rightarrow> if ret \<noteq> 0 then (-1, sb, s) else string_buffer_fill_loop sb c count s)"

definition string_buffer_fill :: "StringBuffer \<Rightarrow> u32 \<Rightarrow> nat \<Rightarrow> answers \<Rightarrow> int \<times> StringBuffer \<times> answers" where
  "string_buffer_fill sb c count s =
     (case (if sb_len sb + count > sb_size sb
            then string_buffer_realloc sb (sb_len sb + count) c s else (0, sb, s)) of
        (ret, sb, s) \<Rightarrow> if ret \<noteq> 0 then (-1, sb, s) else string_buffer_fill_loop sb c count s)"

definition string_buffer_end :: "StringBuffer \<Rightarrow> JSString js" where
  "string_buffer_end sb = (\<lambda>s.
     case sb_error sb of
       Some e \<Rightarrow> (Inl e, s)
     | None \<Rightarrow>
         if sb_len sb = 0 then (Inr empty_string, s)
         else
           (case (if sb_len sb < sb_size sb
                  then
                    (case mem_realloc (sb_str sb) (str_bytes (sb_len sb) (sb_wide sb)) s of
                       (None, s) \<Rightarrow> (sb_str sb, s)
                     | (Some str, s) \<Rightarrow> (str, s))
                  else (sb_str sb, s)) of
              (str, s) \<Rightarrow>
                (Inr (if sb_wide sb then Str16 (map (get16 str) [0..<sb_len sb])
                      else Str8 (take (sb_len sb) (str[sb_len sb := 0]))), s)))"

section \<open>The units of a buffer\<close>

definition sb_units :: "StringBuffer \<Rightarrow> u16 list" where
  "sb_units sb =
     (if sb_wide sb then map (get16 (sb_str sb)) [0..<sb_len sb] else map ucast (take (sb_len sb) (sb_str sb)))"

definition sb_ok :: "StringBuffer \<Rightarrow> bool" where
  "sb_ok sb \<longleftrightarrow>
     (case sb_error sb of
        Some e \<Rightarrow> sb_len sb = 0 \<and> sb_size sb = 0
      | None \<Rightarrow> sb_len sb \<le> sb_size sb \<and> str_bytes (sb_size sb) (sb_wide sb) \<le> length (sb_str sb))"

abbreviation sb_appended :: "StringBuffer \<Rightarrow> u16 list \<Rightarrow> answers \<Rightarrow> StringBuffer \<Rightarrow> answers \<Rightarrow> bool" where
  "sb_appended \<equiv> sink_appended sb_ok sb_units sb_error string_too_long"

lemma length_put16 [simp]: "length (put16 b i c) = length b"
  by (simp add: put16_def)

lemma join_bytes: "ucast (ucast c :: u8) OR push_bit 8 (ucast (ucast (drop_bit 8 c) :: u8)) = (c :: u16)"
  by (rule bit_word_eqI) (auto simp: bit_or_iff bit_ucast_iff bit_push_bit_iff bit_drop_bit_eq)

lemma get16_put16:
  "2 * i + 1 < length b \<Longrightarrow> get16 (put16 b i c) j = (if j = i then c else get16 b j)"
proof (cases "j = i")
  case True
  assume "2 * i + 1 < length b"
  with True show ?thesis by (simp add: get16_def put16_def join_bytes)
next
  case False
  then have "2 * j \<noteq> 2 * i" "2 * j \<noteq> 2 * i + 1" "2 * j + 1 \<noteq> 2 * i" "2 * j + 1 \<noteq> 2 * i + 1" by presburger+
  with False show ?thesis by (simp add: get16_def put16_def)
qed

lemma put16_nth_other: "k \<noteq> 2 * i \<Longrightarrow> k \<noteq> 2 * i + 1 \<Longrightarrow> put16 b i c ! k = b ! k"
  by (simp add: put16_def)

lemma length_widen_loop [simp]: "length (widen_loop b n) = length b"
  by (induction b n rule: widen_loop.induct) simp_all

lemma widen_loop_above: "2 * n \<le> k \<Longrightarrow> widen_loop b n ! k = b ! k"
  by (induction b n rule: widen_loop.induct) (simp_all add: put16_nth_other)

lemma widen_loop_get16:
  "2 * n \<le> length b \<Longrightarrow> j < n \<Longrightarrow> get16 (widen_loop b n) j = ucast (b ! j)"
proof (induction b n rule: widen_loop.induct)
  case (2 b i)
  let ?b = "put16 b i (ucast (b ! i))"
  show ?case
  proof (cases "j = i")
    case True
    have "get16 (widen_loop ?b i) i = get16 ?b i"
      by (simp add: get16_def widen_loop_above)
    with True 2 show ?thesis by (simp add: get16_put16)
  next
    case False
    with 2 have "get16 (widen_loop ?b i) j = ucast (?b ! j)" by simp
    moreover have "?b ! j = b ! j" using False 2 by (intro put16_nth_other) auto
    ultimately show ?thesis by simp
  qed
qed simp

lemma length_put16s [simp]: "length (put16s b i cs) = length b"
  by (induction b i cs rule: put16s.induct) simp_all

lemma put16s_get16:
  "2 * (i + length cs) \<le> length b \<Longrightarrow>
   get16 (put16s b i cs) j = (if i \<le> j \<and> j < i + length cs then cs ! (j - i) else get16 b j)"
  by (induction b i cs rule: put16s.induct) (auto simp: get16_put16 nth_Cons' Suc_le_eq)

text \<open>Storing behind the last unit.\<close>

lemma map_upt_add: "map f [0..<m + n] = map f [0..<m] @ map (\<lambda>i. f (m + i)) [0..<n]"
  by (rule nth_equalityI) (auto simp: nth_append)

lemma sb_store_units_spec:
  assumes "sb_ok sb" "sb_error sb = None" "sb_len sb + length p \<le> sb_size sb"
    and "\<not> sb_wide sb \<Longrightarrow> \<forall>c\<in>set p. c \<le> 0xFF"
  shows "sb_ok (sb_store_units sb p) \<and> sb_error (sb_store_units sb p) = None \<and>
         sb_units (sb_store_units sb p) = sb_units sb @ p"
proof (cases "sb_wide sb")
  case True
  have l: "2 * (sb_len sb + length p) \<le> length (sb_str sb)"
    using assms True by (simp add: sb_ok_def str_bytes_def)
  have "map (get16 (put16s (sb_str sb) (sb_len sb) p)) [0..<sb_len sb + length p] =
        map (get16 (sb_str sb)) [0..<sb_len sb] @ p"
    using l by (intro nth_equalityI) (auto simp: put16s_get16 nth_append)
  with assms True show ?thesis
    by (simp add: sb_store_units_def sb_ok_def sb_units_def str_bytes_def)
next
  case False
  have l: "sb_len sb + length p \<le> length (sb_str sb)" and l0: "sb_len sb \<le> length (sb_str sb)"
    using assms False by (simp_all add: sb_ok_def str_bytes_def)
  have p: "map (ucast \<circ> (ucast :: u16 \<Rightarrow> u8)) p = p"
    using assms(4) [OF False] by (induction p) (auto simp: narrow_unit)
  with assms l l0 False show ?thesis
    by (simp add: sb_store_units_def sb_ok_def sb_units_def str_bytes_def take_blit_whole)
qed

lemma sb_store16_units: "sb_wide sb \<Longrightarrow> sb_store16 sb c = sb_store_units sb [ucast c]"
  by (simp add: sb_store16_def sb_store_units_def)

lemma ucast_u32_narrow: "(ucast (ucast (c :: u32) :: u16) :: u8) = ucast c"
  by (rule bit_word_eqI) (simp add: bit_ucast_iff)

lemma sb_store8_units:
  "\<not> sb_wide sb \<Longrightarrow> c < 0x100 \<Longrightarrow> sb_len sb < length (sb_str sb) \<Longrightarrow> sb_store8 sb c = sb_store_units sb [ucast c]"
  by (simp add: sb_store8_def sb_store_units_def blit_def upd_conv_take_nth_drop ucast_u32_narrow)

section \<open>Growing and widening\<close>

lemma js_realloc2_cases:
  assumes "js_realloc2 p n s = (r, s')"
  obtains (ok) b slack where "r = Some (b, slack)" "length b = n + slack" "set s' \<subseteq> set s"
      "\<And>i. i < n \<Longrightarrow> i < length p \<Longrightarrow> b ! i = p ! i"
  | (failed) "r = None" "None \<in> set s" "set s' \<subseteq> set s"
proof (cases s)
  case Nil
  with assms show ?thesis by (intro ok [of "take n p @ replicate (n - length p) 0" 0]) (auto simp: js_realloc2_def nth_append)
next
  case (Cons a t)
  show ?thesis
  proof (cases a)
    case None
    with assms Cons show ?thesis by (intro failed) (auto simp: js_realloc2_def)
  next
    case (Some junk)
    with assms Cons show ?thesis
      by (intro ok [of "take (n + unat (junk n)) (take n p @ map (\<lambda>i. ucast (junk i)) [0..<n + unat (junk n)])"
            "unat (junk n)"]) (auto simp: js_realloc2_def Let_def nth_append)
  qed
qed

text \<open>The outcomes of an operation that makes room: \<open>w\<close> tells whether the buffer is wide afterwards.\<close>

definition sb_grown :: "StringBuffer \<Rightarrow> nat \<Rightarrow> bool \<Rightarrow> answers \<Rightarrow> int \<times> StringBuffer \<times> answers \<Rightarrow> bool" where
  "sb_grown sb n w s r =
     (case r of (ret, sb', s') \<Rightarrow>
        sb_ok sb' \<and> set s' \<subseteq> set s \<and>
        (if ret = 0
         then sb_error sb' = None \<and> sb_units sb' = sb_units sb \<and> sb_len sb' = sb_len sb \<and>
              n \<le> sb_size sb' \<and> sb_wide sb' = w
         else (\<exists>e. sb_error sb' = Some e \<and> (e = OutOfMemory \<and> None \<in> set s \<or> string_too_long n e))))"

lemma sb_ok_set_error [simp]: "sb_ok (string_buffer_set_error e sb)" "sb_error (string_buffer_set_error e sb) = Some e"
  by (simp_all add: sb_ok_def string_buffer_set_error_def)

lemma string_buffer_widen_spec:
  assumes "sb_ok sb" "sb_error sb = None" "\<not> sb_wide sb" "sb_len sb \<le> sz" "n \<le> sz"
  shows "sb_grown sb n True s (string_buffer_widen sb sz s)"
proof -
  obtain r s' where re: "js_realloc2 (sb_str sb) (2 * sz) s = (r, s')" by (cases "js_realloc2 (sb_str sb) (2 * sz) s")
  then show ?thesis
  proof (cases rule: js_realloc2_cases)
    case (ok b slack)
    have l: "sb_len sb \<le> length (sb_str sb)" using assms by (simp add: sb_ok_def str_bytes_def)
    have "map (get16 (widen_loop b (sb_len sb))) [0..<sb_len sb] = map ucast (take (sb_len sb) (sb_str sb))"
      using ok assms l by (intro nth_equalityI) (auto simp: widen_loop_get16)
    with ok assms re show ?thesis
      by (auto simp: string_buffer_widen_def sb_grown_def sb_ok_def sb_units_def str_bytes_def)
  next
    case failed
    with re assms show ?thesis by (auto simp: string_buffer_widen_def sb_grown_def)
  qed
qed

lemma string_buffer_realloc_spec:
  assumes "sb_ok sb" "sb_error sb = None" "sb_size sb < n"
  shows "sb_grown sb n (sb_wide sb \<or> c \<ge> 0x100) s (string_buffer_realloc sb n c s)"
proof (cases "n > JS_STRING_LEN_MAX")
  case True
  with assms show ?thesis
    by (auto simp: string_buffer_realloc_def sb_grown_def string_too_long_def)
next
  case False
  define m where "m = min (max n (sb_size sb * 3 div 2)) JS_STRING_LEN_MAX"
  have m: "n \<le> m" using False by (simp add: m_def)
  have len: "sb_len sb \<le> sb_size sb" using assms by (simp add: sb_ok_def)
  show ?thesis
  proof (cases "\<not> sb_wide sb \<and> c \<ge> 0x100")
    case True
    with string_buffer_widen_spec [of sb m n s] assms m len
    have "sb_grown sb n True s (string_buffer_widen sb m s)" by simp
    with True assms False show ?thesis by (simp add: string_buffer_realloc_def m_def)
  next
    case wide: False
    obtain r s' where re: "js_realloc2 (sb_str sb) (str_bytes m (sb_wide sb)) s = (r, s')"
      by (cases "js_realloc2 (sb_str sb) (str_bytes m (sb_wide sb)) s")
    then show ?thesis
    proof (cases rule: js_realloc2_cases)
      case (ok b slack)
      have u: "sb_units (sb\<lparr>sb_size := k, sb_str := b\<rparr>) = sb_units sb" for k
      proof (cases "sb_wide sb")
        case True
        have "get16 b i = get16 (sb_str sb) i" if "i < sb_len sb" for i
          using that ok(4) [of "2 * i"] ok(4) [of "2 * i + 1"] True assms m len
          by (simp add: get16_def sb_ok_def str_bytes_def)
        with True show ?thesis by (simp add: sb_units_def)
      next
        case False
        have "take (sb_len sb) b = take (sb_len sb) (sb_str sb)"
          using ok False assms m len by (intro nth_equalityI) (auto simp: sb_ok_def str_bytes_def)
        with False show ?thesis by (simp add: sb_units_def)
      qed
      have "string_buffer_realloc sb n c s =
          (0, sb\<lparr>sb_size := min (m + (if sb_wide sb then slack div 2 else slack)) JS_STRING_LEN_MAX, sb_str := b\<rparr>, s')"
        using wide assms False re ok(1) by (cases "sb_wide sb") (simp_all add: string_buffer_realloc_def m_def [symmetric])
      moreover have "2 * min (m + slack div 2) JS_STRING_LEN_MAX \<le> 2 * m + slack"
        by (simp add: min_def) presburger
      ultimately show ?thesis
        using ok assms m len wide False u by (auto simp: sb_grown_def sb_ok_def str_bytes_def)
    next
      case failed
      with re wide assms False show ?thesis
        by (auto simp: string_buffer_realloc_def m_def [symmetric] sb_grown_def)
    qed
  qed
qed

section \<open>Appending\<close>

text \<open>An operation that makes room for \<open>xs\<close> and stores them if that succeeded.\<close>

definition sb_append_result :: "StringBuffer \<Rightarrow> u16 list \<Rightarrow> answers \<Rightarrow> int \<times> StringBuffer \<times> answers \<Rightarrow> bool" where
  "sb_append_result sb xs s r =
     (case r of (ret, sb', s') \<Rightarrow> sb_appended sb xs s sb' s' \<and> (ret \<noteq> 0 \<longrightarrow> sb_error sb' \<noteq> None))"

lemma string_too_long_mono: "string_too_long m e \<Longrightarrow> m \<le> n \<Longrightarrow> string_too_long n e"
  by (simp add: string_too_long_def)

lemma sb_append_failed:
  "sb_ok sb \<Longrightarrow> sb_error sb = Some e \<Longrightarrow> sb_append_result sb xs s (r, sb, s)"
  by (simp add: sb_append_result_def sink_appended_def)

lemma sb_len_units [simp]: "sb_ok sb \<Longrightarrow> length (sb_units sb) = sb_len sb"
  by (auto simp: sb_units_def sb_ok_def str_bytes_def split: option.splits)

lemma sb_append_grown:
  assumes "sb_ok sb" "sb_error sb = None" "sb_grown sb n w s g" "n \<le> sb_len sb + length xs"
    and "\<And>sb' s'. g = (0, sb', s') \<Longrightarrow> sb_ok sb' \<Longrightarrow> sb_error sb' = None \<Longrightarrow> sb_units sb' = sb_units sb \<Longrightarrow>
           sb_len sb' = sb_len sb \<Longrightarrow> n \<le> sb_size sb' \<Longrightarrow> sb_wide sb' = w \<Longrightarrow> set s' \<subseteq> set s \<Longrightarrow>
           sb_append_result sb xs s (f sb' s')"
  shows "sb_append_result sb xs s (case g of (ret, sb, s) \<Rightarrow> if ret \<noteq> 0 then (-1, sb, s) else f sb s)"
proof -
  obtain ret sb' s' where g: "g = (ret, sb', s')" by (cases g)
  show ?thesis
  proof (cases "ret = 0")
    case True
    with assms(3,5) g show ?thesis by (simp add: sb_grown_def)
  next
    case False
    with assms g show ?thesis
      by (auto simp: sb_grown_def sb_append_result_def sink_appended_def intro: string_too_long_mono)
  qed
qed

text \<open>Storing units with enough room.\<close>

lemma sb_append_store:
  assumes "sb_ok sb" "sb_error sb = None" "sb_ok sb'" "sb_error sb' = None" "sb_units sb' = sb_units sb"
    and "sb_len sb' = sb_len sb" "sb_len sb + length xs \<le> sb_size sb'" "set s' \<subseteq> set s"
    and "\<not> sb_wide sb' \<Longrightarrow> \<forall>c\<in>set xs. c \<le> 0xFF"
  shows "sb_append_result sb xs s (0, sb_store_units sb' xs, s')"
  using sb_store_units_spec [of sb' xs] assms by (simp add: sb_append_result_def sink_appended_def)

lemma sb_room [simp]: "sb_ok sb \<Longrightarrow> sb_error sb = None \<Longrightarrow> \<not> sb_wide sb \<Longrightarrow> sb_len sb < sb_size sb \<Longrightarrow> sb_len sb < length (sb_str sb)"
  by (simp add: sb_ok_def str_bytes_def)

lemma narrow_u32: "(c :: u32) < 0x100 \<Longrightarrow> (ucast c :: u16) \<le> 0xFF"
  by (simp add: word_le_nat_alt word_less_nat_alt unsigned_ucast_eq take_bit_eq_mod)

lemma narrow_u32_iff: "(c :: u32) < 0x10000 \<Longrightarrow> (ucast c :: u16) \<le> 0xFF \<longleftrightarrow> c < 0x100"
  by (simp add: word_le_nat_alt word_less_nat_alt unsigned_ucast_eq take_bit_eq_mod) linarith

lemma sb_append_store16:
  "sb_wide sb \<Longrightarrow> sb_ok sb \<Longrightarrow> sb_error sb = None \<Longrightarrow> sb_len sb < sb_size sb \<Longrightarrow>
   sb_append_result sb [ucast c] s (0, sb_store16 sb c, s)"
  unfolding sb_store16_units by (rule sb_append_store) simp_all

lemma sb_append_store8:
  "\<not> sb_wide sb \<Longrightarrow> c < 0x100 \<Longrightarrow> sb_ok sb \<Longrightarrow> sb_error sb = None \<Longrightarrow> sb_len sb < sb_size sb \<Longrightarrow>
   sb_append_result sb [ucast c] s (0, sb_store8 sb c, s)"
  by (subst sb_store8_units) (auto intro!: sb_append_store narrow_u32)

lemma sb_append_room:
  assumes "sb_append_result sb' xs s' r" "sb_error sb' = None" "sb_units sb' = sb_units sb" "set s' \<subseteq> set s"
    "sb_error sb = None"
  shows "sb_append_result sb xs s r"
  using assms unfolding sb_append_result_def sink_appended_def by (auto split: option.splits)

lemma sb_grown_self: "sb_ok sb \<Longrightarrow> sb_error sb = None \<Longrightarrow> n \<le> sb_size sb \<Longrightarrow> sb_grown sb n (sb_wide sb) s (0, sb, s)"
  by (simp add: sb_grown_def)

lemma putc_make_room:
  assumes "sb_ok sb" "sb_error sb = None"
  shows "sb_grown sb (sb_len sb + 1) (sb_wide sb \<or> sb_len sb \<ge> sb_size sb \<and> c \<ge> 0x100) s
     (if sb_len sb \<ge> sb_size sb then string_buffer_realloc sb (sb_len sb + 1) c s else (0, sb, s))"
  using assms string_buffer_realloc_spec [of sb "sb_len sb + 1" c s] sb_grown_self [of sb "sb_len sb + 1" s]
  by (auto simp: sb_ok_def)

lemma string_buffer_putc16_slow_spec:
  assumes "sb_ok sb"
  shows "sb_append_result sb [ucast c] s (string_buffer_putc16_slow sb c s)"
proof (cases "sb_error sb")
  case (Some e)
  with assms show ?thesis
    by (simp add: string_buffer_putc16_slow_def string_buffer_realloc_def sb_ok_def sb_append_result_def
        sink_appended_def)
next
  case None
  show ?thesis
    unfolding string_buffer_putc16_slow_def
  proof (rule sb_append_grown [OF assms None putc_make_room [OF assms None]])
    fix sb' s'
    assume g: "sb_ok sb'" "sb_error sb' = None" "sb_units sb' = sb_units sb" "sb_len sb' = sb_len sb"
      "sb_len sb + 1 \<le> sb_size sb'" "set s' \<subseteq> set s"
    have "sb_append_result sb' [ucast c] s' (if sb_wide sb' then (0, sb_store16 sb' c, s')
        else if c < 0x100 then (0, sb_store8 sb' c, s')
        else case string_buffer_widen sb' (sb_size sb') s' of (ret, sb, s) \<Rightarrow>
               if ret \<noteq> 0 then (-1, sb, s) else (0, sb_store16 sb c, s))"
    proof -
      consider "sb_wide sb'" | "\<not> sb_wide sb'" "c < 0x100" | "\<not> sb_wide sb'" "\<not> c < 0x100" by blast
      then show ?thesis
      proof cases
        case 3
        have "sb_append_result sb' [ucast c] s' (case string_buffer_widen sb' (sb_size sb') s' of (ret, sb, s) \<Rightarrow>
               if ret \<noteq> 0 then (-1, sb, s) else (0, sb_store16 sb c, s))"
          by (rule sb_append_grown [OF g(1,2) string_buffer_widen_spec [of sb' "sb_size sb'" "sb_len sb' + 1" s']])
            (use 3 g in \<open>auto intro: sb_append_room [OF sb_append_store16]\<close>)
        with 3 show ?thesis by simp
      qed (use g in \<open>auto intro: sb_append_store16 sb_append_store8\<close>)
    qed
    from sb_append_room [OF this g(2,3,6) None]
    show "sb_append_result sb [ucast c] s (if sb_wide sb' then (0, sb_store16 sb' c, s')
        else if c < 0x100 then (0, sb_store8 sb' c, s')
        else case string_buffer_widen sb' (sb_size sb') s' of (ret, sb, s) \<Rightarrow>
               if ret \<noteq> 0 then (-1, sb, s) else (0, sb_store16 sb c, s))" .
  qed simp
qed

lemma sb_failed_full: "sb_ok sb \<Longrightarrow> sb_error sb = Some e \<Longrightarrow> sb_len sb = 0 \<and> sb_size sb = 0"
  by (simp add: sb_ok_def)

lemma string_buffer_putc8_spec:
  assumes "sb_ok sb" "c < 0x100"
  shows "sb_append_result sb [ucast c] s (string_buffer_putc8 sb c s)"
proof (cases "sb_error sb")
  case (Some e)
  with assms show ?thesis
    by (simp add: string_buffer_putc8_def string_buffer_realloc_def sb_failed_full sb_append_result_def sink_appended_def)
next
  case None
  show ?thesis
    unfolding string_buffer_putc8_def
  proof (rule sb_append_grown [OF assms(1) None putc_make_room [OF assms(1) None]])
    fix sb' s'
    assume "sb_ok sb'" "sb_error sb' = None" "sb_units sb' = sb_units sb" "sb_len sb' = sb_len sb"
      "sb_len sb + 1 \<le> sb_size sb'" "set s' \<subseteq> set s"
    with None assms(2) show "sb_append_result sb [ucast c] s
        (0, if sb_wide sb' then sb_store16 sb' c else sb_store8 sb' c, s')"
      by (auto intro: sb_append_room [OF sb_append_store16] sb_append_room [OF sb_append_store8])
  qed simp
qed

lemma string_buffer_putc16_spec:
  assumes "sb_ok sb"
  shows "sb_append_result sb [ucast c] s (string_buffer_putc16 sb c s)"
proof -
  have "sb_error sb = None" if "sb_len sb < sb_size sb"
    using assms that by (auto simp: sb_ok_def split: option.splits)
  with assms string_buffer_putc16_slow_spec [OF assms, of c s] show ?thesis
    unfolding string_buffer_putc16_def by (auto intro: sb_append_store16 sb_append_store8)
qed

lemma ucast_u16_u32_u16 [simp]: "ucast (ucast (c :: u16) :: u32) = c"
  by (simp add: ucast_up_ucast_id is_up)

interpretation sb: append_sink sb_ok sb_units sb_error string_too_long "\<lambda>sb c. string_buffer_putc16 sb (ucast c)"
proof unfold_locales
  fix d :: StringBuffer and c :: u16 and s ret d' s'
  assume a: "sb_ok d" "string_buffer_putc16 d (ucast c) s = (ret, d', s')"
  show "sb_appended d [c] s d' s'"
    using string_buffer_putc16_spec [OF a(1), of "ucast c" s] a(2)
    by (simp add: sb_append_result_def)
  show "sb_error d' \<noteq> None" if "ret \<noteq> 0"
    using string_buffer_putc16_spec [OF a(1), of "ucast c" s] a(2) that
    by (simp add: sb_append_result_def)
qed (rule string_too_long_mono)

text \<open>The code units of a code point.\<close>

definition utf16_units :: "u32 \<Rightarrow> u16 list" where
  "utf16_units c = (if c \<ge> 0x10000 then [ucast (get_hi_surrogate c), ucast (get_lo_surrogate c)] else [ucast c])"

lemma sb_append_then:
  assumes "sb_append_result sb xs s r" "\<And>ret sb' s'. r = (ret, sb', s') \<Longrightarrow> sb_appended sb xs s sb' s' \<Longrightarrow>
      sb_append_result sb' ys s' (f sb' s')"
  shows "sb_append_result sb (xs @ ys) s (case r of (ret, sb, s) \<Rightarrow> if ret \<noteq> 0 then (-1, sb, s) else f sb s)"
proof -
  obtain ret sb1 s1 where r: "r = (ret, sb1, s1)" by (cases r)
  obtain ret2 sb2 s2 where f: "f sb1 s1 = (ret2, sb2, s2)" by (cases "f sb1 s1")
  from assms r have a: "sb_appended sb xs s sb1 s1" "ret \<noteq> 0 \<longrightarrow> sb_error sb1 \<noteq> None"
    by (simp_all add: sb_append_result_def)
  with assms(2) [OF r] f have b: "sb_appended sb1 ys s1 sb2 s2" "ret2 \<noteq> 0 \<longrightarrow> sb_error sb2 \<noteq> None"
    by (simp_all add: sb_append_result_def)
  show ?thesis
    using r f a b sb.appended_trans [OF a(1) b(1)] sb.appended_stop [OF a(1), of ys]
    by (auto simp: sb_append_result_def)
qed

lemma string_buffer_putc_slow_spec:
  assumes "sb_ok sb"
  shows "sb_append_result sb (utf16_units c) s (string_buffer_putc_slow sb c s)"
proof (cases "c \<ge> 0x10000")
  case True
  have "sb_append_result sb ([ucast (get_hi_surrogate c)] @ [ucast (get_lo_surrogate c)]) s
      (case string_buffer_putc16 sb (get_hi_surrogate c) s of
           (ret, sb, s) \<Rightarrow> if ret \<noteq> 0 then (-1, sb, s) else string_buffer_putc16 sb (get_lo_surrogate c) s)"
    by (rule sb_append_then [OF string_buffer_putc16_spec [OF assms]])
      (auto intro: string_buffer_putc16_spec sb.appended_ok)
  with True show ?thesis by (simp add: string_buffer_putc_slow_def utf16_units_def)
next
  case False
  with string_buffer_putc16_spec [OF assms] show ?thesis by (simp add: string_buffer_putc_slow_def utf16_units_def)
qed

lemma sb_append_chain:
  "sb_append_result sb xs s (0, sb', s') \<Longrightarrow> sb_append_result sb' ys s' r \<Longrightarrow> sb_append_result sb (xs @ ys) s r"
  by (auto simp: sb_append_result_def intro: sb.appended_trans)

lemma string_buffer_putc_spec:
  assumes "sb_ok sb"
  shows "sb_append_result sb (utf16_units c) s (string_buffer_putc sb c s)"
proof -
  have e: "sb_error sb = None" if "sb_len sb < sb_size sb"
    using assms that by (auto simp: sb_ok_def split: option.splits)
  have two: "sb_append_result sb [ucast (get_hi_surrogate c), ucast (get_lo_surrogate c)] s
      (0, sb_store16 (sb_store16 sb (get_hi_surrogate c)) (get_lo_surrogate c), s)"
    if "sb_wide sb" "sb_len sb + 1 < sb_size sb"
  proof -
    have s1: "sb_ok (sb_store16 sb x) \<and> sb_error (sb_store16 sb x) = None" for x
      using sb_store_units_spec [of sb "[ucast x]"] that e assms by (simp add: sb_store16_units)
    have f: "sb_wide (sb_store16 sb x) \<and> sb_len (sb_store16 sb x) < sb_size (sb_store16 sb x)" for x
      using that by (simp add: sb_store16_def)
    have "sb_append_result sb ([ucast (get_hi_surrogate c)] @ [ucast (get_lo_surrogate c)]) s
      (0, sb_store16 (sb_store16 sb (get_hi_surrogate c)) (get_lo_surrogate c), s)"
      using that e assms s1 f by (intro sb_append_chain [OF sb_append_store16 sb_append_store16]) auto
    then show ?thesis by simp
  qed
  show ?thesis
  proof (cases "c \<ge> 0x10000")
    case True
    then have "\<not> c < 0x100" using order.strict_trans1 [of "0x10000" c "0x100"] by auto
    with True string_buffer_putc_slow_spec [OF assms, of c s] two show ?thesis
      by (auto simp: string_buffer_putc_def utf16_units_def)
  next
    case False
    with string_buffer_putc_slow_spec [OF assms, of c s] e assms show ?thesis
      by (auto simp: string_buffer_putc_def utf16_units_def intro: sb_append_store16 sb_append_store8)
  qed
qed

lemma sb_store_units_Nil [simp]: "sb_store_units sb [] = sb"
  by (simp add: sb_store_units_def blit_def)

lemma write_make_room:
  assumes "sb_ok sb" "sb_error sb = None"
  shows "sb_grown sb (sb_len sb + n) (sb_wide sb \<or> sb_len sb + n > sb_size sb \<and> c \<ge> 0x100) s
     (if sb_len sb + n > sb_size sb then string_buffer_realloc sb (sb_len sb + n) c s else (0, sb, s))"
  using assms string_buffer_realloc_spec [of sb "sb_len sb + n" c s] sb_grown_self [of sb "sb_len sb + n" s]
  by auto

lemma string_buffer_write8_spec:
  assumes "sb_ok sb"
  shows "sb_append_result sb (map ucast p) s (string_buffer_write8 sb p s)"
proof (cases "sb_error sb")
  case (Some e)
  then show ?thesis
    using assms sb_append_failed [OF assms Some]
    by (cases "p = []")
      (simp_all add: string_buffer_write8_def string_buffer_realloc_def sb_failed_full)
next
  case None
  show ?thesis
    unfolding string_buffer_write8_def
    by (rule sb_append_grown [OF assms(1) None write_make_room [OF assms(1) None]])
      (auto intro!: sb_append_store [OF assms None])
qed

lemma string_buffer_write16_spec:
  assumes "sb_ok sb"
  shows "sb_append_result sb p s (string_buffer_write16 sb p s)"
proof (cases "sb_error sb")
  case (Some e)
  then show ?thesis
    using assms sb_append_failed [OF assms Some]
    by (cases "p = []")
      (simp_all add: string_buffer_write16_def string_buffer_realloc_def sb_failed_full Let_def)
next
  case None
  define c where "c = foldl (\<lambda>c x. c OR x) 0 p"
  define g where "g = (if sb_len sb + length p > sb_size sb
               then string_buffer_realloc sb (sb_len sb + length p) (ucast c) s
               else if \<not> sb_wide sb \<and> c \<ge> 0x100 then string_buffer_widen sb (sb_size sb) s
               else (0, sb, s))"
  have u: "(ucast c :: u32) \<ge> 0x100 \<longleftrightarrow> c \<ge> 0x100"
    using unsigned_less [of c, where ?'a = nat]
    by (simp add: word_le_nat_alt unsigned_ucast_eq take_bit_nat_eq_self)
  have c: "\<forall>x\<in>set p. x \<le> 0xFF" if "\<not> c \<ge> 0x100"
  proof -
    from that have "c \<le> 0xFF" by (simp add: word_le_nat_alt)
    then show ?thesis unfolding c_def foldl_or_le by simp
  qed
  have "sb_grown sb (sb_len sb + length p) (sb_wide sb \<or> c \<ge> 0x100) s g"
    using assms None string_buffer_realloc_spec [of sb "sb_len sb + length p" "ucast c" s]
      sb_grown_self [of sb "sb_len sb + length p" s] string_buffer_widen_spec [of sb "sb_size sb" "sb_len sb + length p" s]
    by (auto simp: g_def u sb_ok_def)
  then have "sb_append_result sb p s (case g of (ret, sb, s) \<Rightarrow> if ret \<noteq> 0 then (-1, sb, s) else (0, sb_store_units sb p, s))"
    by (rule sb_append_grown [OF assms(1) None]) (auto intro!: sb_append_store [OF assms None] dest: c)
  then show ?thesis unfolding string_buffer_write16_def Let_def g_def c_def .
qed

lemma string_buffer_concat_spec:
  assumes "sb_ok sb"
  shows "sb_append_result sb (take (to - from) (drop from (units p))) s (string_buffer_concat sb p from to s)"
proof (cases "to \<le> from")
  case True
  with sb.appended_refl [OF assms] show ?thesis by (simp add: string_buffer_concat_def sb_append_result_def)
next
  case False
  with string_buffer_write8_spec [OF assms] string_buffer_write16_spec [OF assms] show ?thesis
    by (cases p) (simp_all add: string_buffer_concat_def take_map drop_map)
qed

lemma string_buffer_fill_loop_spec:
  "sb_ok sb \<Longrightarrow> sb_append_result sb (replicate n (ucast c)) s (string_buffer_fill_loop sb c n s)"
proof (induction n arbitrary: sb s)
  case 0
  then show ?case by (simp add: sb_append_result_def sb.appended_refl)
next
  case (Suc n)
  from sb_append_then [OF string_buffer_putc16_spec [OF Suc.prems] Suc.IH [OF sb.appended_ok]]
  show ?case by (simp add: replicate_append_same)
qed

lemma string_buffer_fill_spec:
  assumes "sb_ok sb"
  shows "sb_append_result sb (replicate n (ucast c)) s (string_buffer_fill sb c n s)"
proof (cases "sb_error sb")
  case (Some e)
  then show ?thesis
    using assms sb_append_failed [OF assms Some] string_buffer_fill_loop_spec [OF assms, of n c s]
    by (cases "n = 0") (simp_all add: string_buffer_fill_def string_buffer_realloc_def sb_failed_full)
next
  case None
  show ?thesis
    unfolding string_buffer_fill_def
  proof (rule sb_append_grown [OF assms None write_make_room [OF assms None]])
    fix sb' s'
    assume "sb_ok sb'" "sb_error sb' = None" "sb_units sb' = sb_units sb" "set s' \<subseteq> set s"
    with None show "sb_append_result sb (replicate n (ucast c)) s (string_buffer_fill_loop sb' c n s')"
      by (intro sb_append_room [OF string_buffer_fill_loop_spec])
  qed simp
qed

lemma get16_prefix: "take (2 * n) b = take (2 * n) b' \<Longrightarrow> i < n \<Longrightarrow> get16 b i = get16 b' i"
proof -
  assume t: "take (2 * n) b = take (2 * n) b'" and i: "i < n"
  have "b ! k = b' ! k" if "k < 2 * n" for k
    using that t by (metis nth_take)
  with i show ?thesis by (simp add: get16_def)
qed

lemma string_buffer_end_spec:
  assumes "sb_ok sb"
  shows "(case fst (string_buffer_end sb s) of
      Inr p \<Rightarrow> sb_error sb = None \<and> units p = sb_units sb
    | Inl e \<Rightarrow> sb_error sb = Some e) \<and> set (snd (string_buffer_end sb s)) \<subseteq> set s"
proof (cases "sb_error sb")
  case (Some e)
  then show ?thesis by (simp add: string_buffer_end_def)
next
  case None
  define b where "b = (if sb_len sb < sb_size sb
                  then
                    (case mem_realloc (sb_str sb) (str_bytes (sb_len sb) (sb_wide sb)) s of
                       (None, s) \<Rightarrow> (sb_str sb, s)
                     | (Some str, s) \<Rightarrow> (str, s))
                  else (sb_str sb, s))"
  have l: "sb_len sb \<le> sb_size sb" "str_bytes (sb_size sb) (sb_wide sb) \<le> length (sb_str sb)"
    using assms None by (simp_all add: sb_ok_def)
  let ?n = "str_bytes (sb_len sb) (sb_wide sb)"
  have n: "?n \<le> length (sb_str sb)" using l by (auto simp: str_bytes_def split: if_splits)
  have b: "take ?n (fst b) = take ?n (sb_str sb)" "set (snd b) \<subseteq> set s"
    using n by (auto simp: b_def mem_realloc_def split: list.splits option.splits)
  have "units (if sb_wide sb then Str16 (map (get16 (fst b)) [0..<sb_len sb])
               else Str8 (take (sb_len sb) ((fst b)[sb_len sb := 0]))) = sb_units sb"
  proof (cases "sb_wide sb")
    case True
    with b(1) have "get16 (fst b) i = get16 (sb_str sb) i" if "i < sb_len sb" for i
      using that by (intro get16_prefix [of "sb_len sb"]) (simp_all add: str_bytes_def)
    with True show ?thesis by (simp add: sb_units_def)
  next
    case False
    with b(1) have "take (sb_len sb) (take ?n (fst b)) = take (sb_len sb) (take ?n (sb_str sb))" by simp
    with False have "take (sb_len sb) (fst b) = take (sb_len sb) (sb_str sb)" by (simp add: str_bytes_def)
    with False show ?thesis by (simp add: sb_units_def)
  qed
  moreover have "sb_units sb = []" if "sb_len sb = 0" using that by (simp add: sb_units_def)
  ultimately show ?thesis
    using None b(2) by (cases b) (auto simp: string_buffer_end_def b_def [symmetric])
qed

lemma string_buffer_init2_spec:
  assumes "string_buffer_init2 sz wide s = (ret, sb, s')"
  shows "sb_ok sb \<and> sb_units sb = [] \<and> set s' \<subseteq> set s \<and>
    (sb_error sb = None \<and> ret = 0 \<or> sb_error sb = Some OutOfMemory \<and> ret = -1 \<and> None \<in> set s)"
proof -
  obtain r s1 where m: "mem_realloc ([] :: u8 list) (str_bytes sz wide) s = (r, s1)"
    by (cases "mem_realloc ([] :: u8 list) (str_bytes sz wide) s")
  from m have "length ([] :: u8 list) \<le> str_bytes sz wide" by simp
  with m show ?thesis
  proof (cases rule: mem_realloc_cases)
    case (ok q)
    with m assms show ?thesis by (auto simp: string_buffer_init2_def sb_ok_def sb_units_def)
  next
    case failed
    with m assms show ?thesis by (auto simp: string_buffer_init2_def sb_ok_def)
      (auto simp: sb_units_def)
  qed
qed

section \<open>Sequences of operations\<close>

datatype sb_op =
    SB_putc8 u8
  | SB_putc16 u16
  | SB_putc u32
  | SB_write8 "u8 list"
  | SB_write16 "u16 list"
  | SB_concat JSString nat nat
  | SB_fill u16 nat

fun sb_exec :: "sb_op \<Rightarrow> StringBuffer \<Rightarrow> answers \<Rightarrow> int \<times> StringBuffer \<times> answers" where
  "sb_exec (SB_putc8 c) sb s = string_buffer_putc8 sb (ucast c) s"
| "sb_exec (SB_putc16 c) sb s = string_buffer_putc16 sb (ucast c) s"
| "sb_exec (SB_putc c) sb s = string_buffer_putc sb c s"
| "sb_exec (SB_write8 p) sb s = string_buffer_write8 sb p s"
| "sb_exec (SB_write16 p) sb s = string_buffer_write16 sb p s"
| "sb_exec (SB_concat p from to) sb s = string_buffer_concat sb p from to s"
| "sb_exec (SB_fill c n) sb s = string_buffer_fill sb (ucast c) n s"

fun sb_op_units :: "sb_op \<Rightarrow> u16 list" where
  "sb_op_units (SB_putc8 c) = [ucast c]"
| "sb_op_units (SB_putc16 c) = [c]"
| "sb_op_units (SB_putc c) = utf16_units c"
| "sb_op_units (SB_write8 p) = map ucast p"
| "sb_op_units (SB_write16 p) = p"
| "sb_op_units (SB_concat p from to) = take (to - from) (drop from (units p))"
| "sb_op_units (SB_fill c n) = replicate n c"

fun sb_run :: "sb_op list \<Rightarrow> StringBuffer \<Rightarrow> answers \<Rightarrow> StringBuffer \<times> answers" where
  "sb_run [] sb s = (sb, s)"
| "sb_run (op # ops) sb s = (case sb_exec op sb s of (ret, sb, s) \<Rightarrow> sb_run ops sb s)"

lemma ucast_u8_u32: "(ucast (c :: u8) :: u32) < 0x100"
  using unsigned_less [of c, where ?'a = nat]
  by (simp add: word_less_nat_alt unsigned_ucast_eq take_bit_nat_eq_self)

lemma ucast_u8_u32_u16: "(ucast (ucast (c :: u8) :: u32) :: u16) = ucast c"
  by (rule bit_word_eqI) (auto simp: bit_ucast_iff dest: bit_imp_le_length)

lemma sb_exec_spec: "sb_ok sb \<Longrightarrow> sb_append_result sb (sb_op_units op) s (sb_exec op sb s)"
  using string_buffer_putc8_spec [of sb "ucast (c :: u8)" s for c] string_buffer_putc16_spec [of sb "ucast (c :: u16)" s for c]
    string_buffer_fill_spec [of sb _ "ucast (c :: u16)" s for c]
  by (cases op)
    (simp_all add: ucast_u8_u32 ucast_u8_u32_u16 string_buffer_putc_spec string_buffer_write8_spec string_buffer_write16_spec
      string_buffer_concat_spec)

lemma sb_run_spec:
  "sb_ok sb \<Longrightarrow> sb_run ops sb s = (sb', s') \<Longrightarrow> sb_appended sb (concat (map sb_op_units ops)) s sb' s'"
proof (induction ops arbitrary: sb s)
  case Nil
  then show ?case by (simp add: sb.appended_refl)
next
  case (Cons op ops)
  obtain ret sb1 s1 where e: "sb_exec op sb s = (ret, sb1, s1)" by (cases "sb_exec op sb s")
  with sb_exec_spec [OF Cons.prems(1), of op s] have a: "sb_appended sb (sb_op_units op) s sb1 s1"
    by (simp add: sb_append_result_def)
  from Cons.prems(2) e have "sb_run ops sb1 s1 = (sb', s')" by simp
  from sb.appended_trans [OF a Cons.IH [OF sb.appended_ok [OF a] this]] show ?case by simp
qed

text \<open>C9: any sequence of operations on a fresh string buffer, whatever they return, ends in a string
  with exactly the code units that were appended, in their order; otherwise the exception is that of a
  failed allocation or the one for strings that are too long.\<close>

theorem string_buffer_correct:
  "case string_buffer_init2 sz wide s of (ret, sb, s1) \<Rightarrow>
     (case sb_run ops sb s1 of (sb', s2) \<Rightarrow>
        (case fst (string_buffer_end sb' s2) of
           Inr p \<Rightarrow> units p = concat (map sb_op_units ops)
         | Inl e \<Rightarrow> (e = OutOfMemory \<and> None \<in> set s) \<or>
             (e = InternalError ''string too long'' \<and>
              length (concat (map sb_op_units ops)) > JS_STRING_LEN_MAX)))"
proof -
  obtain ret sb s1 where i: "string_buffer_init2 sz wide s = (ret, sb, s1)" by (cases "string_buffer_init2 sz wide s")
  obtain sb' s2 where r: "sb_run ops sb s1 = (sb', s2)" by (cases "sb_run ops sb s1")
  note init = string_buffer_init2_spec [OF i]
  from init sb_run_spec [OF _ r] have a: "sb_appended sb (concat (map sb_op_units ops)) s1 sb' s2" by simp
  from string_buffer_end_spec [OF sb.appended_ok [OF a], of s2] show ?thesis
    using a init i r
    by (auto simp: sink_appended_def string_too_long_def split: sum.splits option.splits)
qed

end
