(* ===== verification/JSValue.thy ===== *)
theory JSValue
  imports StringBuffer BigIntArith
begin

text \<open>
  The values of the engine (\<open>JSValue\<close> of \<open>quickjs.h\<close> with the blocks its pointers lead to in
  \<open>quickjs.c\<close>). Strings, ropes and BigInts are immutable for the operations modelled on them, so
  that a value holds their contents; objects and symbols are compared by address.
\<close>

datatype jsval =
    JS_Int "32 word"
  | JS_Bool bool
  | JS_Null
  | JS_Undefined
  | JS_Exception
  | JS_Float64 u64
  | JS_Str JSString
  | JS_Rope (rope_len: nat) (rope_wide: bool) (rope_depth: nat) (rope_left: jsval) (rope_right: jsval)
  | JS_Object nat
  | JS_Symbol nat
  | JS_ShortBigInt "64 word"
  | JS_BigInt JSBigInt

text \<open>\<open>tag_is_string\<close>, which both a flat string and a rope satisfy.\<close>

fun tag_is_string :: "jsval \<Rightarrow> bool" where
  "tag_is_string (JS_Str p) \<longleftrightarrow> True"
| "tag_is_string (JS_Rope len wide depth l r) \<longleftrightarrow> True"
| "tag_is_string _ \<longleftrightarrow> False"

end
