(* ===== verification/Rope.thy ===== *)
theory Rope
  imports JSValue
begin

text \<open>
  Ropes (\<open>JSStringRope\<close> of \<open>quickjs.c\<close>): strings as trees of concatenations. Access, comparison without
  flattening, linearization, concatenation, and the rebalancing of trees that have become too deep.
\<close>

section \<open>The code\<close>

definition JS_STRING_ROPE_SHORT_LEN :: nat where "JS_STRING_ROPE_SHORT_LEN = 512"
definition JS_STRING_ROPE_SHORT2_LEN :: nat where "JS_STRING_ROPE_SHORT2_LEN = 8192"
definition JS_STRING_ROPE_MAX_DEPTH :: nat where "JS_STRING_ROPE_MAX_DEPTH = 60"
definition ROPE_N_BUCKETS :: nat where "ROPE_N_BUCKETS = 44"

definition rope_bucket_len :: "nat list" where
  "rope_bucket_len =
     [1, 2, 3, 5, 8, 13, 21, 34, 55, 89, 144, 233, 377, 610, 987, 1597, 2584, 4181, 6765, 10946, 17711, 28657,
      46368, 75025, 121393, 196418, 317811, 514229, 832040, 1346269, 2178309, 3524578, 5702887, 9227465,
      14930352, 24157817, 39088169, 63245986, 102334155, 165580141, 267914296, 433494437, 701408733, 1134903170]"

fun string_rope_get_len :: "jsval \<Rightarrow> nat" where
  "string_rope_get_len (JS_Str p) = str_len p"
| "string_rope_get_len v = rope_len v"

fun string_rope_get :: "jsval \<Rightarrow> nat \<Rightarrow> int" where
  "string_rope_get (JS_Str p) idx = string_get p idx"
| "string_rope_get (JS_Rope len wide depth left right) idx =
     (let len = string_rope_get_len left
      in if idx < len then string_rope_get left idx else string_rope_get right (idx - len))"
| "string_rope_get _ idx = 0"

fun hash_string_rope :: "jsval \<Rightarrow> u32 \<Rightarrow> u32" where
  "hash_string_rope (JS_Str p) h = hash_string p h"
| "hash_string_rope (JS_Rope len wide depth left right) h = hash_string_rope right (hash_string_rope left h)"
| "hash_string_rope _ h = h"

text \<open>
  The iterator is its stack of at most \<open>JS_STRING_ROPE_MAX_DEPTH\<close> ropes still to be visited, the top
  first. \<open>rope_iter_descend\<close> is the inner loop; it fails where the assertion of the code would.
\<close>

fun rope_iter_descend :: "jsval \<Rightarrow> jsval list \<Rightarrow> (JSString \<times> jsval list) option" where
  "rope_iter_descend (JS_Str p) stack = Some (p, stack)"
| "rope_iter_descend (JS_Rope len wide depth left right) stack =
     (if length stack < JS_STRING_ROPE_MAX_DEPTH then rope_iter_descend left (right # stack) else None)"
| "rope_iter_descend _ stack = None"

text \<open>The next string, \<open>None\<close> at the end, or an exception for the failed assertion.\<close>

definition string_rope_iter_next :: "jsval list \<Rightarrow> js_error + (JSString option \<times> jsval list)" where
  "string_rope_iter_next stack =
     (case stack of
        [] \<Rightarrow> Inr (None, [])
      | val # stack \<Rightarrow>
          (case rope_iter_descend val stack of
             None \<Rightarrow> Inl OutOfBounds
           | Some (p, stack) \<Rightarrow> Inr (Some p, stack)))"

text \<open>Stepping an iterator after \<open>l\<close> units have been used: the string, its position and the stack.\<close>

definition rope_iter_advance ::
  "JSString \<Rightarrow> nat \<Rightarrow> jsval list \<Rightarrow> js_error + (JSString option \<times> nat \<times> jsval list)" where
  "rope_iter_advance p pos stack =
     (if pos \<ge> str_len p
      then
        (case string_rope_iter_next stack of
           Inl e \<Rightarrow> Inl e
         | Inr (p, stack) \<Rightarrow> Inr (p, 0, stack))
      else Inr (Some p, pos, stack))"

definition rope_iter_work :: "JSString option \<Rightarrow> jsval list \<Rightarrow> nat" where
  "rope_iter_work p stack = (case p of None \<Rightarrow> 0 | Some _ \<Rightarrow> 1) + (\<Sum>v\<leftarrow>stack. Suc (size v))"

lemma rope_iter_descend_work:
  "rope_iter_descend v stack = Some (p, stack') \<Longrightarrow>
   (\<Sum>v\<leftarrow>stack'. Suc (size v)) \<le> size v + (\<Sum>v\<leftarrow>stack. Suc (size v))"
  by (induction v stack rule: rope_iter_descend.induct) (force split: if_splits)+

lemma rope_iter_advance_work:
  assumes "rope_iter_advance p pos stack = Inr (p', pos', stack')"
  shows "rope_iter_work p' stack' \<le> rope_iter_work (Some p) stack"
    and "pos \<ge> str_len p \<Longrightarrow> rope_iter_work p' stack' < rope_iter_work (Some p) stack"
  using assms rope_iter_descend_work
  by (auto simp: rope_iter_advance_def string_rope_iter_next_def rope_iter_work_def less_Suc_eq_le
      split: if_splits sum.splits list.splits option.splits) fastforce+

lemma rope_compare_measure:
  assumes "len \<noteq> 0" "l = min (min (str_len p1 - pos1) (str_len p2 - pos2)) len"
    and a1: "rope_iter_advance p1 (pos1 + l) it1 = Inr (q1, pos1', it1')"
    and a2: "rope_iter_advance p2 (pos2 + l) it2 = Inr (q2, pos2', it2')"
  shows "len - l + rope_iter_work q1 it1' + rope_iter_work q2 it2'
    < len + rope_iter_work (Some p1) it1 + rope_iter_work (Some p2) it2"
proof (cases "l = 0")
  case True
  with assms(1,2) have "str_len p1 \<le> pos1 \<or> str_len p2 \<le> pos2" by (auto simp: min_def split: if_splits)
  with True rope_iter_advance_work [OF a1] rope_iter_advance_work [OF a2] show ?thesis by auto
next
  case False
  with assms(1) rope_iter_advance_work(1) [OF a1] rope_iter_advance_work(1) [OF a2] show ?thesis by linarith
qed

lemma rope_compare_measure':
  assumes "len \<noteq> 0"
    and "rope_iter_advance p1 (pos1 + min (min (str_len p1 - pos1) (str_len p2 - pos2)) len) it1 = Inr (q1, pos1', it1')"
    and "rope_iter_advance p2 (pos2 + min (min (str_len p1 - pos1) (str_len p2 - pos2)) len) it2 = Inr (q2, pos2', it2')"
  shows "len + rope_iter_work q1 it1' - min (min (str_len p1 - pos1) (str_len p2 - pos2)) len + rope_iter_work q2 it2'
    < len + rope_iter_work (Some p1) it1 + rope_iter_work (Some p2) it2"
  using rope_compare_measure [OF assms(1) refl assms(2,3)] by simp

function rope_compare_loop ::
  "JSString option \<Rightarrow> nat \<Rightarrow> jsval list \<Rightarrow> JSString option \<Rightarrow> nat \<Rightarrow> jsval list \<Rightarrow> nat \<Rightarrow> js_error + int" where
  "rope_compare_loop p1 pos1 it1 p2 pos2 it2 len =
     (if len \<noteq> 0
      then
        (case (p1, p2) of
           (Some p1, Some p2) \<Rightarrow>
             (let l = min (min (str_len p1 - pos1) (str_len p2 - pos2)) len;
                  res = js_string_memcmp p1 pos1 p2 pos2 l
              in if res \<noteq> 0 then Inr res
                 else
                   (case rope_iter_advance p1 (pos1 + l) it1 of
                      Inl e \<Rightarrow> Inl e
                    | Inr (q1, pos1', it1') \<Rightarrow>
                        (case rope_iter_advance p2 (pos2 + l) it2 of
                           Inl e \<Rightarrow> Inl e
                         | Inr (q2, pos2', it2') \<Rightarrow> rope_compare_loop q1 pos1' it1' q2 pos2' it2' (len - l))))
         | _ \<Rightarrow> Inl OutOfBounds)
      else Inr 0)"
  by auto
termination
  by (relation "measure (\<lambda>(p1, pos1, it1, p2, pos2, it2, len). len + rope_iter_work p1 it1 + rope_iter_work p2 it2)")
    (auto intro: rope_compare_measure' [simplified])

declare rope_compare_loop.simps [simp del]

definition js_string_rope_compare :: "jsval \<Rightarrow> jsval \<Rightarrow> bool \<Rightarrow> js_error + int" where
  "js_string_rope_compare op1 op2 eq_only =
     (let len1 = string_rope_get_len op1;
          len2 = string_rope_get_len op2
      in if eq_only \<and> len1 \<noteq> len2 then Inr 1
         else
           (case (string_rope_iter_next [op1], string_rope_iter_next [op2]) of
              (Inr (p1, it1), Inr (p2, it2)) \<Rightarrow>
                (case rope_compare_loop p1 0 it1 p2 0 it2 (min len1 len2) of
                   Inl e \<Rightarrow> Inl e
                 | Inr res \<Rightarrow>
                     Inr (if res \<noteq> 0 then res
                          else if len1 = len2 then 0 else if len1 < len2 then -1 else 1))
            | _ \<Rightarrow> Inl OutOfBounds))"

text \<open>
  Appending a value to a string buffer; \<open>to_string\<close> is the conversion \<open>JS_ToString\<close> of the values
  that are not strings.
\<close>

fun string_buffer_concat_value ::
  "(jsval \<Rightarrow> JSString js) \<Rightarrow> StringBuffer \<Rightarrow> jsval \<Rightarrow> answers \<Rightarrow> int \<times> StringBuffer \<times> answers" where
  "string_buffer_concat_value to_string sb (JS_Str p) s =
     (if sb_error sb \<noteq> None then (-1, sb, s) else string_buffer_concat sb p 0 (str_len p) s)"
| "string_buffer_concat_value to_string sb (JS_Rope len wide depth left right) s =
     (if sb_error sb \<noteq> None then (-1, sb, s)
      else
        (case string_buffer_concat_value to_string sb left s of
           (ret, sb, s) \<Rightarrow>
             if ret \<noteq> 0 then (-1, sb, s) else string_buffer_concat_value to_string sb right s))"
| "string_buffer_concat_value to_string sb v s =
     (if sb_error sb \<noteq> None then (-1, sb, s)
      else
        (case to_string v s of
           (Inl e, s) \<Rightarrow> (-1, string_buffer_set_error e sb, s)
         | (Inr p, s) \<Rightarrow> string_buffer_concat sb p 0 (str_len p) s))"

text \<open>
  \<open>js_linearize_string_rope\<close>: the flat string and the rope afterwards, which is replaced by the flat
  string and the empty one when others refer to it.
\<close>

definition js_linearize_string_rope :: "(jsval \<Rightarrow> JSString js) \<Rightarrow> nat \<Rightarrow> jsval \<Rightarrow> (jsval \<times> jsval) js" where
  "js_linearize_string_rope to_string ref_count rope =
     (if (case rope_right rope of JS_Str p \<Rightarrow> str_len p = 0 | _ \<Rightarrow> False) then js_return (rope_left rope, rope)
      else
        (\<lambda>s. case string_buffer_init2 (rope_len rope) (rope_wide rope) s of
           (ret, sb, s) \<Rightarrow>
             if ret \<noteq> 0 then (Inl OutOfMemory, s)
             else
               (case string_buffer_concat_value to_string sb rope s of
                  (ret, sb, s) \<Rightarrow>
                    if ret \<noteq> 0 then (Inl (the (sb_error sb)), s)
                    else
                      js_bind (string_buffer_end sb) (\<lambda>ret.
                        js_return
                          (JS_Str ret,
                           if ref_count > 1
                           then JS_Rope (rope_len rope) (rope_wide rope) (rope_depth rope) (JS_Str ret) (JS_Str empty_string)
                           else rope)) s)))"

text \<open>
  Rebalancing. \<open>mk\<close> is \<open>js_new_string_rope\<close>, which calls the rebalancing in turn. Bucket numbers
  outside of the table are the outcome \<open>OutOfBounds\<close>.
\<close>

type_synonym rope_mk = "jsval \<Rightarrow> jsval \<Rightarrow> jsval js"

text \<open>The first loop: collect the buckets before the one for \<open>len\<close>.\<close>

function rope_gather :: "rope_mk \<Rightarrow> nat \<Rightarrow> nat \<Rightarrow> jsval \<Rightarrow> jsval list \<Rightarrow> answers \<Rightarrow> (js_error + jsval \<times> nat) \<times> jsval list \<times> answers" where
  "rope_gather mk len i a buckets s =
     (if i + 1 \<ge> ROPE_N_BUCKETS then (Inl OutOfBounds, buckets, s)
      else if len \<ge> rope_bucket_len ! (i + 1)
      then
        (let b = buckets ! i
         in if b \<noteq> JS_Null
            then
              (let buckets = buckets[i := JS_Null]
               in if a = JS_Null then rope_gather mk len (i + 1) b buckets s
                  else
                    (case mk b a s of
                       (Inl e, s) \<Rightarrow> (Inl e, buckets, s)
                     | (Inr a, s) \<Rightarrow> rope_gather mk len (i + 1) a buckets s))
            else rope_gather mk len (i + 1) a buckets s)
      else (Inr (a, i), buckets, s))"
  by auto
termination
  by (relation "measure (\<lambda>(mk, len, i, a, buckets, s). ROPE_N_BUCKETS - i)") auto

declare rope_gather.simps [simp del]

text \<open>The second loop: merge with the occupied buckets from \<open>i\<close> on and store in the first free one.\<close>

function rope_merge_up :: "rope_mk \<Rightarrow> nat \<Rightarrow> jsval \<Rightarrow> jsval list \<Rightarrow> answers \<Rightarrow> js_error option \<times> jsval list \<times> answers" where
  "rope_merge_up mk i a buckets s =
     (if i \<ge> ROPE_N_BUCKETS then (Some OutOfBounds, buckets, s)
      else if buckets ! i \<noteq> JS_Null
      then
        (case mk (buckets ! i) a s of
           (Inl e, s) \<Rightarrow> (Some e, buckets[i := JS_Null], s)
         | (Inr a, s) \<Rightarrow> rope_merge_up mk (i + 1) a (buckets[i := JS_Null]) s)
      else (None, buckets[i := a], s))"
  by auto
termination
  by (relation "measure (\<lambda>(mk, i, a, buckets, s). ROPE_N_BUCKETS - i)") auto

declare rope_merge_up.simps [simp del]

definition rope_insert :: "rope_mk \<Rightarrow> JSString \<Rightarrow> jsval list \<Rightarrow> answers \<Rightarrow> js_error option \<times> jsval list \<times> answers" where
  "rope_insert mk p buckets s =
     (let len = str_len p
      in if len = 0 then (None, buckets, s)
         else
           (case rope_gather mk len 0 JS_Null buckets s of
              (Inl e, buckets, s) \<Rightarrow> (Some e, buckets, s)
            | (Inr (a, i), buckets, s) \<Rightarrow>
                (if a \<noteq> JS_Null
                 then
                   (case mk a (JS_Str p) s of
                      (Inl e, s) \<Rightarrow> (Some e, buckets, s)
                    | (Inr a, s) \<Rightarrow> rope_merge_up mk i a buckets s)
                 else rope_merge_up mk i (JS_Str p) buckets s)))"

text \<open>
  The calls for the two halves ignore the exceptions that they return; only an outcome that no C
  execution continues from ends them.
\<close>

definition js_diverged :: "js_error option \<Rightarrow> bool" where
  "js_diverged ret \<longleftrightarrow> ret = Some Nontermination \<or> ret = Some OutOfBounds"

fun js_rebalancee_string_rope_rec :: "rope_mk \<Rightarrow> jsval list \<Rightarrow> jsval \<Rightarrow> answers \<Rightarrow> js_error option \<times> jsval list \<times> answers" where
  "js_rebalancee_string_rope_rec mk buckets (JS_Str p) s = rope_insert mk p buckets s"
| "js_rebalancee_string_rope_rec mk buckets (JS_Rope len wide depth left right) s =
     (case js_rebalancee_string_rope_rec mk buckets left s of
        (ret, buckets, s) \<Rightarrow>
          if js_diverged ret then (ret, buckets, s)
          else
            (case js_rebalancee_string_rope_rec mk buckets right s of
               (ret, buckets, s) \<Rightarrow> (if js_diverged ret then ret else None, buckets, s)))"
| "js_rebalancee_string_rope_rec mk buckets _ s = (None, buckets, s)"

text \<open>The final loop over all buckets.\<close>

fun rope_collect :: "rope_mk \<Rightarrow> jsval list \<Rightarrow> jsval \<Rightarrow> jsval js" where
  "rope_collect mk [] a = js_return a"
| "rope_collect mk (b # buckets) a =
     (if b \<noteq> JS_Null
      then if a = JS_Null then rope_collect mk buckets b else js_bind (mk b a) (rope_collect mk buckets)
      else rope_collect mk buckets a)"

definition js_rebalancee_string_rope :: "rope_mk \<Rightarrow> jsval \<Rightarrow> jsval js" where
  "js_rebalancee_string_rope mk rope = (\<lambda>s.
     case js_rebalancee_string_rope_rec mk (replicate ROPE_N_BUCKETS JS_Null) rope s of
       (Some e, buckets, s) \<Rightarrow> (Inl e, s)
     | (None, buckets, s) \<Rightarrow>
         js_bind (rope_collect mk buckets JS_Null)
           (\<lambda>a. js_return (if a = JS_Null then JS_Str empty_string else a)) s)"

text \<open>
  \<open>js_new_string_rope\<close> and the rebalancing call each other. \<open>fuel\<close> bounds the nesting; when it runs out
  the outcome is \<open>Nontermination\<close>.
\<close>

fun string_depth :: "jsval \<Rightarrow> nat" where
  "string_depth (JS_Str p) = 0"
| "string_depth v = rope_depth v"

fun string_wide :: "jsval \<Rightarrow> bool" where
  "string_wide (JS_Str p) = is_wide_char p"
| "string_wide v = rope_wide v"

fun js_new_string_rope :: "nat \<Rightarrow> jsval \<Rightarrow> jsval \<Rightarrow> jsval js" where
  "js_new_string_rope fuel op1 op2 =
     (let len = string_rope_get_len op1 + string_rope_get_len op2;
          wide = string_wide op1 \<or> string_wide op2;
          depth = max (string_depth op1) (string_depth op2)
      in if len > JS_STRING_LEN_MAX then js_throw (InternalError ''string too long'')
         else
           js_bind js_malloc_block (\<lambda>_.
             let res = JS_Rope len wide (depth + 1) op1 op2
             in if depth + 1 > JS_STRING_ROPE_MAX_DEPTH
                then
                  (case fuel of
                     0 \<Rightarrow> js_throw Nontermination
                   | Suc fuel \<Rightarrow> js_rebalancee_string_rope (js_new_string_rope fuel) res)
                else js_return res))"

text \<open>
  \<open>JS_ConcatString\<close>. \<open>to_string\<close> is the conversion of operands that are not strings, \<open>blk\<close> the
  state of the block of the left string when it is extended; a duplicated reference adds one.
\<close>

definition concat_operand :: "(jsval \<Rightarrow> jsval js) \<Rightarrow> jsval \<Rightarrow> jsval js" where
  "concat_operand to_string v = (if tag_is_string v then js_return v else to_string v)"

definition js_concat_flat :: "str_block \<Rightarrow> JSString \<Rightarrow> JSString \<Rightarrow> jsval js" where
  "js_concat_flat blk p1 p2 = js_bind (JS_ConcatString2 blk p1 p2) (\<lambda>p. js_return (JS_Str p))"

definition short_string :: "jsval \<Rightarrow> bool" where
  "short_string v = (case v of JS_Str p \<Rightarrow> str_len p \<le> JS_STRING_ROPE_SHORT_LEN | _ \<Rightarrow> False)"

definition js_concat_strings :: "nat \<Rightarrow> str_block \<Rightarrow> jsval \<Rightarrow> jsval \<Rightarrow> jsval js" where
  "js_concat_strings fuel blk op1 op2 =
     (case op2 of
        JS_Str p2 \<Rightarrow>
          if str_len p2 = 0 then js_return op1
          else if str_len p2 \<le> JS_STRING_ROPE_SHORT_LEN
          then
            (case op1 of
               JS_Str p1 \<Rightarrow>
                 if str_len p1 \<le> JS_STRING_ROPE_SHORT2_LEN then js_concat_flat blk p1 p2
                 else js_new_string_rope fuel op1 op2
             | _ \<Rightarrow>
                 if short_string (rope_right op1)
                 then
                   js_bind
                     (js_concat_flat (blk\<lparr>blk_ref_count := blk_ref_count blk + 1\<rparr>)
                        (case rope_right op1 of JS_Str p \<Rightarrow> p | _ \<Rightarrow> empty_string) p2)
                     (js_new_string_rope fuel (rope_left op1))
                 else js_new_string_rope fuel op1 op2)
          else js_new_string_rope fuel op1 op2
      | _ \<Rightarrow>
          (case op1 of
             JS_Str p1 \<Rightarrow>
               if str_len p1 = 0 then js_return op2
               else if short_string (rope_left op2)
               then
                 js_bind
                   (js_concat_flat blk p1 (case rope_left op2 of JS_Str p \<Rightarrow> p | _ \<Rightarrow> empty_string))
                   (\<lambda>val. js_new_string_rope fuel val (rope_right op2))
               else js_new_string_rope fuel op1 op2
           | _ \<Rightarrow> js_new_string_rope fuel op1 op2))"

definition JS_ConcatString :: "(jsval \<Rightarrow> jsval js) \<Rightarrow> nat \<Rightarrow> str_block \<Rightarrow> jsval \<Rightarrow> jsval \<Rightarrow> jsval js" where
  "JS_ConcatString to_string fuel blk op1 op2 =
     js_bind (concat_operand to_string op1) (\<lambda>op1.
       js_bind (concat_operand to_string op2) (js_concat_strings fuel blk op1))"

end
