(* ===== verification/RopeUnits.thy ===== *)
theory RopeUnits
  imports Rope
begin

text \<open>
  What the rope operations promise in terms of the sequence of code units that a rope stands for.
\<close>

section \<open>The units of a rope\<close>

fun rope_units :: "jsval \<Rightarrow> u16 list" where
  "rope_units (JS_Str p) = units p"
| "rope_units (JS_Rope len wide depth left right) = rope_units left @ rope_units right"
| "rope_units _ = []"

fun rope_leaves :: "jsval \<Rightarrow> JSString list" where
  "rope_leaves (JS_Str p) = [p]"
| "rope_leaves (JS_Rope len wide depth left right) = rope_leaves left @ rope_leaves right"
| "rope_leaves _ = []"

text \<open>
  Well-formed strings and ropes: the cached length is exact, the cached depth is an upper bound, and
  an empty right part marks a rope that has been linearized.
\<close>

fun rope_wf :: "jsval \<Rightarrow> bool" where
  "rope_wf (JS_Str p) \<longleftrightarrow> str_len p \<le> JS_STRING_LEN_MAX"
| "rope_wf (JS_Rope len wide depth left right) \<longleftrightarrow>
     rope_wf left \<and> rope_wf right \<and> len = string_rope_get_len left + string_rope_get_len right \<and>
     len \<le> JS_STRING_LEN_MAX \<and> string_depth left < depth \<and> string_depth right < depth"
| "rope_wf _ \<longleftrightarrow> False"

definition rope_ok :: "jsval \<Rightarrow> bool" where
  "rope_ok v \<longleftrightarrow> rope_wf v \<and> string_depth v \<le> JS_STRING_ROPE_MAX_DEPTH"

lemma rope_units_leaves: "rope_units v = concat (map units (rope_leaves v))"
  by (induction v) simp_all

lemma rope_wf_len: "rope_wf v \<Longrightarrow> length (rope_units v) = string_rope_get_len v"
  by (induction v) simp_all

lemma rope_ok_Str: "rope_ok (JS_Str p) \<longleftrightarrow> str_len p \<le> JS_STRING_LEN_MAX"
  by (simp add: rope_ok_def)

lemma rope_ok_parts: "rope_ok (JS_Rope len wide depth l r) \<Longrightarrow> rope_ok l \<and> rope_ok r"
  by (simp add: rope_ok_def)

lemma rope_wf_cases [consumes 1, case_names Str Rope]:
  assumes "rope_wf v"
  obtains p where "v = JS_Str p" "str_len p \<le> JS_STRING_LEN_MAX"
  | len wide depth l r where "v = JS_Rope len wide depth l r" "rope_wf l" "rope_wf r"
  using assms by (cases v) auto

lemma rope_wf_not_null: "rope_wf v \<Longrightarrow> v \<noteq> JS_Null"
  by auto

lemma string_rope_get_units:
  "rope_wf v \<Longrightarrow> i < string_rope_get_len v \<Longrightarrow> string_rope_get v i = uint (rope_units v ! i)"
  by (induction v arbitrary: i) (auto simp: Let_def string_get_units nth_append rope_wf_len)

lemma hash_string_rope_units: "rope_wf v \<Longrightarrow> hash_string_rope v h = hash_units (rope_units v) h"
  by (induction v arbitrary: h) (auto simp: hash_string_units hash_units_def)

section \<open>Iterators and comparison\<close>

fun rope_stack_ok :: "jsval list \<Rightarrow> bool" where
  "rope_stack_ok [] \<longleftrightarrow> True"
| "rope_stack_ok (v # stack) \<longleftrightarrow>
     rope_wf v \<and> string_depth v + length stack \<le> JS_STRING_ROPE_MAX_DEPTH \<and> rope_stack_ok stack"

definition rope_rest :: "JSString option \<Rightarrow> nat \<Rightarrow> jsval list \<Rightarrow> u16 list" where
  "rope_rest p pos stack =
     (case p of None \<Rightarrow> [] | Some p \<Rightarrow> drop pos (units p)) @ concat (map rope_units stack)"

lemma rope_iter_descend_spec:
  assumes "rope_wf v" "string_depth v + length stack \<le> JS_STRING_ROPE_MAX_DEPTH" "rope_stack_ok stack"
  shows "\<exists>p stack'. rope_iter_descend v stack = Some (p, stack') \<and> rope_stack_ok stack' \<and>
    units p @ concat (map rope_units stack') = rope_units v @ concat (map rope_units stack)"
  using assms
proof (induction v stack rule: rope_iter_descend.induct)
  case (2 len wide depth left right stack)
  have "length stack < JS_STRING_ROPE_MAX_DEPTH" using 2(2,3) by simp
  with 2 show ?case by auto
qed simp_all

lemma string_rope_iter_next_spec:
  assumes "rope_stack_ok stack"
  shows "\<exists>p stack'. string_rope_iter_next stack = Inr (p, stack') \<and> rope_stack_ok stack' \<and>
    rope_rest p 0 stack' = concat (map rope_units stack) \<and> (p = None \<longrightarrow> stack = [] \<and> stack' = [])"
proof (cases stack)
  case Nil
  then show ?thesis by (simp add: string_rope_iter_next_def rope_rest_def)
next
  case (Cons v st)
  with assms rope_iter_descend_spec [of v st] obtain p st' where
    "rope_iter_descend v st = Some (p, st')" "rope_stack_ok st'"
    "units p @ concat (map rope_units st') = rope_units v @ concat (map rope_units st)" by auto
  with Cons show ?thesis by (simp add: string_rope_iter_next_def rope_rest_def)
qed

lemma rope_iter_advance_spec:
  assumes "rope_stack_ok stack" "l \<le> str_len p - pos"
  shows "\<exists>q pos' stack'. rope_iter_advance p (pos + l) stack = Inr (q, pos', stack') \<and> rope_stack_ok stack' \<and>
    rope_rest q pos' stack' = drop l (rope_rest (Some p) pos stack) \<and> (q = None \<longrightarrow> stack' = [])"
proof (cases "pos + l \<ge> str_len p")
  case True
  with assms(2) have "drop l (rope_rest (Some p) pos stack) = concat (map rope_units stack)"
    by (simp add: rope_rest_def)
  with True string_rope_iter_next_spec [OF assms(1)] show ?thesis
    by (force simp: rope_iter_advance_def)
next
  case False
  with assms show ?thesis by (simp add: rope_iter_advance_def rope_rest_def add.commute)
qed

lemma memcmp16_take:
  "n \<le> length xs \<Longrightarrow> n \<le> length ys \<Longrightarrow> memcmp16 (xs @ xs') (ys @ ys') n = memcmp16 xs ys n"
  by (induction xs ys n rule: memcmp16.induct) (auto simp: Let_def)

lemma rope_compare_loop_spec:
  "rope_stack_ok it1 \<Longrightarrow> rope_stack_ok it2 \<Longrightarrow>
   len \<le> length (rope_rest p1 pos1 it1) \<Longrightarrow> len \<le> length (rope_rest p2 pos2 it2) \<Longrightarrow>
   (p1 = None \<longrightarrow> it1 = []) \<Longrightarrow> (p2 = None \<longrightarrow> it2 = []) \<Longrightarrow>
   rope_compare_loop p1 pos1 it1 p2 pos2 it2 len =
     Inr (memcmp16 (rope_rest p1 pos1 it1) (rope_rest p2 pos2 it2) len)"
proof (induction p1 pos1 it1 p2 pos2 it2 len rule: rope_compare_loop.induct)
  case (1 p1 pos1 it1 p2 pos2 it2 len)
  show ?case
  proof (cases "len = 0")
    case True
    then show ?thesis by (subst rope_compare_loop.simps) simp
  next
    case False
    with "1.prems" obtain q1 q2 where p: "p1 = Some q1" "p2 = Some q2"
      by (cases p1; cases p2) (auto simp: rope_rest_def)
    define l where "l = min (min (str_len q1 - pos1) (str_len q2 - pos2)) len"
    let ?u1 = "rope_rest (Some q1) pos1 it1" and ?u2 = "rope_rest (Some q2) pos2 it2"
    have l: "l \<le> len" "l \<le> str_len q1 - pos1" "l \<le> str_len q2 - pos2" by (simp_all add: l_def)
    have m: "js_string_memcmp q1 pos1 q2 pos2 l = memcmp16 ?u1 ?u2 l"
      using l by (simp add: js_string_memcmp_units rope_rest_def memcmp16_take)
    have split: "memcmp16 ?u1 ?u2 len =
        (if memcmp16 ?u1 ?u2 l \<noteq> 0 then memcmp16 ?u1 ?u2 l else memcmp16 (drop l ?u1) (drop l ?u2) (len - l))"
      using memcmp16_add [of l ?u1 ?u2 "len - l"] l "1.prems"(3,4) p by simp
    obtain r1 n1 st1 where a1: "rope_iter_advance q1 (pos1 + l) it1 = Inr (r1, n1, st1)" "rope_stack_ok st1"
      "rope_rest r1 n1 st1 = drop l ?u1" "r1 = None \<longrightarrow> st1 = []"
      using rope_iter_advance_spec [OF "1.prems"(1) l(2)] by blast
    obtain r2 n2 st2 where a2: "rope_iter_advance q2 (pos2 + l) it2 = Inr (r2, n2, st2)" "rope_stack_ok st2"
      "rope_rest r2 n2 st2 = drop l ?u2" "r2 = None \<longrightarrow> st2 = []"
      using rope_iter_advance_spec [OF "1.prems"(2) l(3)] by blast
    show ?thesis
    proof (cases "memcmp16 ?u1 ?u2 l = 0")
      case True
      have "rope_compare_loop r1 n1 st1 r2 n2 st2 (len - l) =
          Inr (memcmp16 (rope_rest r1 n1 st1) (rope_rest r2 n2 st2) (len - l))"
        using "1.IH" [OF False refl p l_def refl _ a1(1) refl refl a2(1) refl refl a1(2) a2(2)]
          True a1 a2 "1.prems"(3,4) l m p by simp
      with False p True m a1 a2 split show ?thesis
        by (simp add: rope_compare_loop.simps [of "Some q1" pos1 it1 "Some q2"] l_def [symmetric] Let_def)
    next
      case neq: False
      with False p m split show ?thesis
        by (simp add: rope_compare_loop.simps [of "Some q1" pos1 it1 "Some q2"] l_def [symmetric] Let_def)
    qed
  qed
qed

lemma js_string_rope_compare_spec:
  assumes "rope_ok op1" "rope_ok op2"
  shows "js_string_rope_compare op1 op2 eq_only =
    Inr (if eq_only \<and> length (rope_units op1) \<noteq> length (rope_units op2) then 1
         else unit_cmp (rope_units op1) (rope_units op2))"
proof -
  have st: "rope_stack_ok [op1]" "rope_stack_ok [op2]" using assms by (simp_all add: rope_ok_def)
  obtain p1 it1 where n1: "string_rope_iter_next [op1] = Inr (p1, it1)" "rope_stack_ok it1"
    "rope_rest p1 0 it1 = rope_units op1" "p1 = None \<longrightarrow> it1 = []"
    using string_rope_iter_next_spec [OF st(1)] by auto
  obtain p2 it2 where n2: "string_rope_iter_next [op2] = Inr (p2, it2)" "rope_stack_ok it2"
    "rope_rest p2 0 it2 = rope_units op2" "p2 = None \<longrightarrow> it2 = []"
    using string_rope_iter_next_spec [OF st(2)] by auto
  have len: "string_rope_get_len op1 = length (rope_units op1)" "string_rope_get_len op2 = length (rope_units op2)"
    using assms by (simp_all add: rope_ok_def rope_wf_len)
  show ?thesis
    using n1 n2 rope_compare_loop_spec [OF n1(2) n2(2), of "min (length (rope_units op1)) (length (rope_units op2))" p1 0 p2 0]
    by (simp add: js_string_rope_compare_def Let_def len unit_cmp_def)
qed

end
