(* ===== verification/RopeBalance.thy ===== *)
theory RopeBalance
  imports RopeUnits
begin

text \<open>
  Rebalancing ropes: with memory available it keeps the contents, and it ends when the rope is
  shorter than the bucket of index 30, since a rope in bucket \<open>i\<close> has then a depth of at most \<open>2 * i\<close>.
\<close>

section \<open>The table of bucket lengths\<close>

lemma rope_table_length [simp]: "length rope_bucket_len = 44"
  by (simp add: rope_bucket_len_def)

lemma rope_table_successive: "successively (\<lambda>x y. x < y \<and> y \<le> 2 * x) rope_bucket_len"
  by (simp add: rope_bucket_len_def)

lemma rope_table_sorted: "sorted_wrt (<) rope_bucket_len"
proof -
  have "successively (<) rope_bucket_len"
    using rope_table_successive by (rule successively_mono) simp
  then show ?thesis by (simp add: successively_conv_sorted_wrt)
qed

lemma rope_table_less: "i < j \<Longrightarrow> j < 44 \<Longrightarrow> rope_bucket_len ! i < rope_bucket_len ! j"
  using sorted_wrt_nth_less [OF rope_table_sorted] by simp

lemma rope_table_le: "i \<le> j \<Longrightarrow> j < 44 \<Longrightarrow> rope_bucket_len ! i \<le> rope_bucket_len ! j"
  using rope_table_less [of i j] by (cases "i = j") auto

lemma rope_table_double: "i < 43 \<Longrightarrow> rope_bucket_len ! Suc i \<le> 2 * rope_bucket_len ! i"
  using rope_table_successive by (simp add: successively_conv_nth)

lemma rope_table_first [simp]: "rope_bucket_len ! 0 = 1"
  by (simp add: rope_bucket_len_def)

lemma rope_table_last: "JS_STRING_LEN_MAX < rope_bucket_len ! 43"
  by (simp add: rope_bucket_len_def JS_STRING_LEN_MAX_def)

lemma rope_index_bound: "rope_bucket_len ! i \<le> n \<Longrightarrow> n < rope_bucket_len ! k \<Longrightarrow> i < 44 \<Longrightarrow> i < k"
  using rope_table_le [of k i] by (meson le_less_trans less_le_trans not_le_imp_less order_less_irrefl)

section \<open>Buckets\<close>

text \<open>The contents from bucket \<open>i\<close> on; higher buckets are further to the left.\<close>

definition bucket_units :: "jsval list \<Rightarrow> nat \<Rightarrow> u16 list" where
  "bucket_units bs i = concat (map rope_units (rev (drop i bs)))"

definition buckets_ok :: "bool \<Rightarrow> jsval list \<Rightarrow> bool" where
  "buckets_ok B bs \<longleftrightarrow> length bs = ROPE_N_BUCKETS \<and>
     (\<forall>i<ROPE_N_BUCKETS. bs ! i \<noteq> JS_Null \<longrightarrow>
        rope_ok (bs ! i) \<and> rope_bucket_len ! i \<le> string_rope_get_len (bs ! i) \<and>
        (B \<longrightarrow> string_depth (bs ! i) \<le> 2 * i))"

definition buckets_clear :: "jsval list \<Rightarrow> nat \<Rightarrow> bool" where
  "buckets_clear bs i \<longleftrightarrow> (\<forall>j<i. bs ! j = JS_Null)"

definition rope_size_ok :: "bool \<Rightarrow> nat \<Rightarrow> bool" where
  "rope_size_ok B n \<longleftrightarrow> n \<le> JS_STRING_LEN_MAX \<and> (B \<longrightarrow> n < rope_bucket_len ! 30)"

lemma rope_ok_len: "rope_ok v \<Longrightarrow> string_rope_get_len v = length (rope_units v)"
  by (simp add: rope_ok_def rope_wf_len)

lemma bucket_units_step:
  "i < length bs \<Longrightarrow> bucket_units bs i = bucket_units bs (Suc i) @ rope_units (bs ! i)"
  by (simp add: bucket_units_def Cons_nth_drop_Suc [symmetric])

lemma bucket_units_update [simp]: "j < i \<Longrightarrow> bucket_units (bs[j := v]) i = bucket_units bs i"
  by (simp add: bucket_units_def)

lemma bucket_units_set:
  "i < length bs \<Longrightarrow> bucket_units (bs[i := v]) i = bucket_units bs (Suc i) @ rope_units v"
  by (simp add: bucket_units_step)

lemma bucket_units_clear:
  assumes "buckets_clear bs i" "i \<le> length bs"
  shows "bucket_units bs 0 = bucket_units bs i"
  using assms
proof (induction i)
  case (Suc i)
  then have "bs ! i = JS_Null" "buckets_clear bs i" by (auto simp: buckets_clear_def)
  with Suc show ?case by (simp add: bucket_units_step)
qed simp

lemma buckets_ok_update:
  "buckets_ok B bs \<Longrightarrow> i < ROPE_N_BUCKETS \<Longrightarrow>
   (v \<noteq> JS_Null \<Longrightarrow> rope_ok v \<and> rope_bucket_len ! i \<le> string_rope_get_len v \<and> (B \<longrightarrow> string_depth v \<le> 2 * i)) \<Longrightarrow>
   buckets_ok B (bs[i := v])"
  by (auto simp: buckets_ok_def nth_list_update)

lemma buckets_okD:
  "buckets_ok B bs \<Longrightarrow> i < ROPE_N_BUCKETS \<Longrightarrow> bs ! i \<noteq> JS_Null \<Longrightarrow>
   rope_ok (bs ! i) \<and> rope_bucket_len ! i \<le> string_rope_get_len (bs ! i) \<and> (B \<longrightarrow> string_depth (bs ! i) \<le> 2 * i)"
  by (simp add: buckets_ok_def)

lemma buckets_ok_length: "buckets_ok B bs \<Longrightarrow> length bs = 44"
  by (simp add: buckets_ok_def ROPE_N_BUCKETS_def)

section \<open>The interface of rebalancing\<close>

text \<open>
  What the rebalancing needs of the constructor of ropes when memory does not run out: shallow ropes
  are built as they are, and whatever is built otherwise has the right contents.
\<close>

locale rope_maker =
  fixes mk :: rope_mk
  assumes mk_shallow:
    "rope_ok x \<Longrightarrow> rope_ok y \<Longrightarrow> string_rope_get_len x + string_rope_get_len y \<le> JS_STRING_LEN_MAX \<Longrightarrow>
     max (string_depth x) (string_depth y) < JS_STRING_ROPE_MAX_DEPTH \<Longrightarrow> None \<notin> set s \<Longrightarrow>
     \<exists>wide s'. None \<notin> set s' \<and>
       mk x y s = (Inr (JS_Rope (string_rope_get_len x + string_rope_get_len y) wide
                          (max (string_depth x) (string_depth y) + 1) x y), s')"
    and mk_units:
    "rope_ok x \<Longrightarrow> rope_ok y \<Longrightarrow> string_rope_get_len x + string_rope_get_len y \<le> JS_STRING_LEN_MAX \<Longrightarrow>
     None \<notin> set s \<Longrightarrow>
     (\<exists>v s'. mk x y s = (Inr v, s') \<and> rope_ok v \<and> rope_units v = rope_units x @ rope_units y \<and> None \<notin> set s') \<or>
     fst (mk x y s) = Inl Nontermination"
begin

text \<open>The two cases in one; \<open>B\<close> says that depths are bounded.\<close>

lemma mk_cases:
  assumes "rope_ok x" "rope_ok y" "string_rope_get_len x + string_rope_get_len y \<le> JS_STRING_LEN_MAX"
    and "None \<notin> set s" "B \<longrightarrow> string_depth x \<le> k \<and> string_depth y \<le> k \<and> k < JS_STRING_ROPE_MAX_DEPTH"
  obtains (made) v s' where "mk x y s = (Inr v, s')" "rope_ok v" "rope_units v = rope_units x @ rope_units y"
      "None \<notin> set s'" "B \<longrightarrow> string_depth v \<le> k + 1"
  | (diverges) s' where "mk x y s = (Inl Nontermination, s')" "\<not> B"
proof (cases B)
  case True
  with assms(5) have k: "max (string_depth x) (string_depth y) \<le> k" "k < JS_STRING_ROPE_MAX_DEPTH" by auto
  from mk_shallow [OF assms(1-3) _ assms(4)] k obtain wide s' where
    m: "mk x y s = (Inr (JS_Rope (string_rope_get_len x + string_rope_get_len y) wide
                          (max (string_depth x) (string_depth y) + 1) x y), s')" "None \<notin> set s'"
    by (metis le_less_trans)
  show ?thesis
    by (rule made [OF m(1) _ _ m(2)]) (use assms(1-3) k in \<open>auto simp: rope_ok_def\<close>)
next
  case False
  with mk_units [OF assms(1-4)] show ?thesis
    by (cases "mk x y s") (auto intro: made diverges)
qed

lemma rope_gather_spec:
  assumes "rope_bucket_len ! i \<le> len" "len \<le> JS_STRING_LEN_MAX" "B \<Longrightarrow> len < rope_bucket_len ! 30"
    "i < ROPE_N_BUCKETS" "buckets_ok B bs" "buckets_clear bs i" "None \<notin> set s"
    "a \<noteq> JS_Null \<Longrightarrow> rope_ok a \<and> (B \<longrightarrow> string_depth a + 1 \<le> 2 * i)"
    "length (bucket_units bs 0 @ rope_units a) \<le> JS_STRING_LEN_MAX"
  shows "\<exists>r bs' s'. rope_gather mk len i a bs s = (r, bs', s') \<and>
    (case r of
       Inr (a', i') \<Rightarrow>
         i' < 43 \<and> rope_bucket_len ! i' \<le> len \<and> buckets_ok B bs' \<and> buckets_clear bs' i' \<and> None \<notin> set s' \<and>
         (a' \<noteq> JS_Null \<longrightarrow> rope_ok a' \<and> (B \<longrightarrow> string_depth a' + 1 \<le> 2 * i')) \<and>
         bucket_units bs' 0 @ rope_units a' = bucket_units bs 0 @ rope_units a
     | Inl e \<Rightarrow> e = Nontermination \<and> \<not> B)"
  using assms
proof (induction "ROPE_N_BUCKETS - i" arbitrary: i a bs s rule: less_induct)
  case less
  note prems = less.prems
  let ?b = "bs ! i"
  have lb: "length bs = 44" using prems(5) by (rule buckets_ok_length)
  have i43: "i < 43" using rope_index_bound [OF prems(1) le_less_trans [OF prems(2) rope_table_last]] prems(4)
    by (simp add: ROPE_N_BUCKETS_def)
  note unfold = rope_gather.simps [of mk len i a bs s]
  show ?case
  proof (cases "len \<ge> rope_bucket_len ! (i + 1)")
    case False
    with i43 prems show ?thesis by (simp add: unfold ROPE_N_BUCKETS_def)
  next
    case True
    have i30: "i + 1 < 30" if B
      using rope_index_bound [OF True prems(3) [OF that]] i43 by simp
    have ih: "\<exists>r bs' s'. rope_gather mk len (i + 1) a1 bs1 s1 = (r, bs', s') \<and>
       (case r of
       Inr (a', i') \<Rightarrow>
         i' < 43 \<and> rope_bucket_len ! i' \<le> len \<and> buckets_ok B bs' \<and> buckets_clear bs' i' \<and> None \<notin> set s' \<and>
         (a' \<noteq> JS_Null \<longrightarrow> rope_ok a' \<and> (B \<longrightarrow> string_depth a' + 1 \<le> 2 * i')) \<and>
         bucket_units bs' 0 @ rope_units a' = bucket_units bs 0 @ rope_units a
       | Inl e \<Rightarrow> e = Nontermination \<and> \<not> B)"
      if "buckets_ok B bs1" "buckets_clear bs1 (i + 1)" "None \<notin> set s1"
        "a1 \<noteq> JS_Null \<Longrightarrow> rope_ok a1 \<and> (B \<longrightarrow> string_depth a1 + 1 \<le> 2 * (i + 1))"
        "bucket_units bs1 0 @ rope_units a1 = bucket_units bs 0 @ rope_units a" for a1 bs1 s1
    proof -
      have "length (bucket_units bs1 0 @ rope_units a1) \<le> JS_STRING_LEN_MAX"
        using prems(9) by (simp only: that(5))
      with less.hyps [of "i + 1" bs1 s1 a1, OF _ True prems(2,3) _ that(1-4)] i43 show ?thesis
        unfolding that(5) by (simp add: ROPE_N_BUCKETS_def)
    qed
    have clear: "buckets_clear (bs[i := JS_Null]) (i + 1)" "?b = JS_Null \<Longrightarrow> buckets_clear bs (i + 1)"
      using prems(6) lb i43 by (auto simp: buckets_clear_def nth_list_update less_Suc_eq)
    have ok: "buckets_ok B (bs[i := JS_Null])"
      using prems(5) i43 by (intro buckets_ok_update) (simp_all add: ROPE_N_BUCKETS_def)
    have u: "bucket_units bs 0 = bucket_units bs (Suc i) @ rope_units ?b"
      using bucket_units_clear [OF prems(6)] bucket_units_step [of i bs] lb i43 by simp
    have u': "bucket_units (bs[i := JS_Null]) 0 = bucket_units bs (Suc i)"
      using bucket_units_clear [OF clear(1)] lb i43 by simp
    consider "?b = JS_Null" | "?b \<noteq> JS_Null" "a = JS_Null" | "?b \<noteq> JS_Null" "a \<noteq> JS_Null" by blast
    then show ?thesis
    proof cases
      case 1
      with ih [OF prems(5) clear(2) prems(7)] prems(8) True i43 show ?thesis
        by (simp add: unfold ROPE_N_BUCKETS_def le_Suc_eq)
    next
      case 2
      note b = buckets_okD [OF prems(5) prems(4) 2(1)]
      have e: "rope_gather mk len i a bs s = rope_gather mk len (i + 1) ?b (bs[i := JS_Null]) s"
        using 2 True i43 by (subst unfold) (simp add: ROPE_N_BUCKETS_def Let_def)
      have "B \<longrightarrow> string_depth ?b + 1 \<le> 2 * (i + 1)" using b by auto
      with b ih [OF ok clear(1) prems(7), of ?b] u u' 2(2) show ?thesis unfolding e by simp
    next
      case 3
      note b = buckets_okD [OF prems(5) prems(4) 3(1)] and a = prems(8) [OF 3(2)]
      have l: "string_rope_get_len ?b + string_rope_get_len a \<le> JS_STRING_LEN_MAX"
        using a b prems(9) by (simp add: u rope_ok_len)
      have d: "B \<longrightarrow> string_depth ?b \<le> 2 * i \<and> string_depth a \<le> 2 * i \<and> 2 * i < JS_STRING_ROPE_MAX_DEPTH"
        using a b i30 by (auto simp: JS_STRING_ROPE_MAX_DEPTH_def)
      from conjunct1 [OF b] conjunct1 [OF a] l prems(7) d show ?thesis
      proof (cases rule: mk_cases)
        case (made v s1)
        from made 3 ih [OF ok clear(1) made(4), of v] True i43 u u' show ?thesis
          by (simp add: unfold ROPE_N_BUCKETS_def Let_def)
      next
        case (diverges s1)
        with 3 True i43 show ?thesis by (simp add: unfold ROPE_N_BUCKETS_def Let_def)
      qed
    qed
  qed
qed

lemma rope_merge_up_spec:
  assumes "rope_bucket_len ! i \<le> string_rope_get_len a" "B \<Longrightarrow> length (bucket_units bs 0 @ rope_units a) < rope_bucket_len ! 30"
    "i < ROPE_N_BUCKETS" "buckets_ok B bs" "buckets_clear bs i" "None \<notin> set s"
    "rope_ok a" "B \<Longrightarrow> string_depth a \<le> 2 * i"
    "length (bucket_units bs 0 @ rope_units a) \<le> JS_STRING_LEN_MAX"
  shows "\<exists>r bs' s'. rope_merge_up mk i a bs s = (r, bs', s') \<and>
    (case r of
       None \<Rightarrow> buckets_ok B bs' \<and> None \<notin> set s' \<and>
         bucket_units bs' 0 = bucket_units bs 0 @ rope_units a
     | Some e \<Rightarrow> e = Nontermination \<and> \<not> B)"
  using assms
proof (induction "ROPE_N_BUCKETS - i" arbitrary: i a bs s rule: less_induct)
  case less
  note prems = less.prems
  let ?b = "bs ! i"
  have lb: "length bs = 44" using prems(4) by (rule buckets_ok_length)
  have la: "string_rope_get_len a = length (rope_units a)" using prems(7) by (rule rope_ok_len)
  have i43: "i < 43"
    using rope_index_bound [OF prems(1), of 43] prems(3,9) rope_table_last la by (simp add: ROPE_N_BUCKETS_def)
  have i30: "i < 30" if B
    using rope_index_bound [OF prems(1), of 30] prems(2) [OF that] prems(3) la by (simp add: ROPE_N_BUCKETS_def)
  note unfold = rope_merge_up.simps [of mk i a bs s]
  have u: "bucket_units bs 0 = bucket_units bs (Suc i) @ rope_units ?b"
    using bucket_units_clear [OF prems(5)] bucket_units_step [of i bs] lb i43 by simp
  show ?case
  proof (cases "?b = JS_Null")
    case True
    have c: "buckets_clear (bs[i := a]) i" using prems(5) by (simp add: buckets_clear_def)
    have "bucket_units (bs[i := a]) 0 = bucket_units bs 0 @ rope_units a"
      using bucket_units_clear [OF c] lb i43 u True by (simp add: bucket_units_set)
    moreover have "buckets_ok B (bs[i := a])"
      using prems by (intro buckets_ok_update) auto
    ultimately show ?thesis using True i43 prems by (simp add: unfold ROPE_N_BUCKETS_def)
  next
    case False
    note b = buckets_okD [OF prems(4) prems(3) False]
    have clear: "buckets_clear (bs[i := JS_Null]) (i + 1)"
      using prems(5) lb i43 by (auto simp: buckets_clear_def nth_list_update less_Suc_eq)
    have ok: "buckets_ok B (bs[i := JS_Null])"
      using prems(3,4) by (intro buckets_ok_update) simp_all
    have u': "bucket_units (bs[i := JS_Null]) 0 = bucket_units bs (Suc i)"
      using bucket_units_clear [OF clear(1)] lb i43 by simp
    have l: "string_rope_get_len ?b + string_rope_get_len a \<le> JS_STRING_LEN_MAX"
      using b prems(9) by (simp add: u rope_ok_len la)
    have d: "B \<longrightarrow> string_depth ?b \<le> 2 * i \<and> string_depth a \<le> 2 * i \<and> 2 * i < JS_STRING_ROPE_MAX_DEPTH"
      using prems(8) b i30 by (auto simp: JS_STRING_ROPE_MAX_DEPTH_def)
    from conjunct1 [OF b] prems(7) l prems(6) d show ?thesis
    proof (cases rule: mk_cases)
      case (made v s1)
      have lv: "rope_bucket_len ! (i + 1) \<le> string_rope_get_len v"
      proof -
        have "rope_bucket_len ! i \<le> length (rope_units ?b)" using b rope_ok_len [OF conjunct1 [OF b]] by simp
        with rope_table_double [OF i43] prems(1) show ?thesis
          by (simp add: rope_ok_len [OF made(2)] made(3) la)
      qed
      have uv: "bucket_units (bs[i := JS_Null]) 0 @ rope_units v = bucket_units bs 0 @ rope_units a"
        using made(3) u u' by simp
      have dv: "string_depth v \<le> 2 * (i + 1)" if B using made(5) that by simp
      have lt: "length (bucket_units (bs[i := JS_Null]) 0 @ rope_units v) < rope_bucket_len ! 30" if B
        unfolding uv using prems(2) [OF that] .
      have le: "length (bucket_units (bs[i := JS_Null]) 0 @ rope_units v) \<le> JS_STRING_LEN_MAX"
        unfolding uv using prems(9) .
      have lt44: "ROPE_N_BUCKETS - (i + 1) < ROPE_N_BUCKETS - i" "i + 1 < ROPE_N_BUCKETS"
        using i43 by (simp_all add: ROPE_N_BUCKETS_def)
      from less.hyps [OF lt44(1) lv lt lt44(2) ok clear made(4,2) dv le, unfolded uv] made(1) False i43
      show ?thesis by (simp add: unfold ROPE_N_BUCKETS_def)
    next
      case (diverges s1)
      with False i43 show ?thesis by (simp add: unfold ROPE_N_BUCKETS_def)
    qed
  qed
qed

lemma rope_insert_spec:
  assumes "buckets_ok B bs" "None \<notin> set s" "rope_size_ok B (length (bucket_units bs 0) + str_len p)"
  shows "\<exists>r bs' s'. rope_insert mk p bs s = (r, bs', s') \<and>
    (case r of
       None \<Rightarrow> buckets_ok B bs' \<and> None \<notin> set s' \<and> bucket_units bs' 0 = bucket_units bs 0 @ units p
     | Some e \<Rightarrow> e = Nontermination \<and> \<not> B)"
proof (cases "str_len p = 0")
  case True
  with assms show ?thesis by (auto simp: rope_insert_def str_len_0_iff)
next
  case False
  have size: "length (bucket_units bs 0) + str_len p \<le> JS_STRING_LEN_MAX"
    "B \<Longrightarrow> length (bucket_units bs 0) + str_len p < rope_bucket_len ! 30"
    using assms(3) by (auto simp: rope_size_ok_def)
  have len: "rope_bucket_len ! 0 \<le> str_len p" "str_len p \<le> JS_STRING_LEN_MAX"
    "B \<Longrightarrow> str_len p < rope_bucket_len ! 30"
    using False size by (auto simp: Suc_le_eq)
  obtain r bs1 s1 where g: "rope_gather mk (str_len p) 0 JS_Null bs s = (r, bs1, s1)"
    and r: "case r of
       Inr (a', i') \<Rightarrow>
         i' < 43 \<and> rope_bucket_len ! i' \<le> str_len p \<and> buckets_ok B bs1 \<and> buckets_clear bs1 i' \<and> None \<notin> set s1 \<and>
         (a' \<noteq> JS_Null \<longrightarrow> rope_ok a' \<and> (B \<longrightarrow> string_depth a' + 1 \<le> 2 * i')) \<and>
         bucket_units bs1 0 @ rope_units a' = bucket_units bs 0 @ rope_units JS_Null
     | Inl e \<Rightarrow> e = Nontermination \<and> \<not> B"
    using rope_gather_spec [OF len, where B = B and bs = bs and s = s and a = JS_Null] assms(1,2) size
    by (auto simp: ROPE_N_BUCKETS_def buckets_clear_def)
  have p: "rope_ok (JS_Str p)" using len by (simp add: rope_ok_Str)
  show ?thesis
  proof (cases r)
    case (Inl e)
    with r g False show ?thesis by (simp add: rope_insert_def)
  next
    case (Inr ai)
    obtain a i where ai: "ai = (a, i)" by (cases ai)
    with r Inr have i: "i < 43" "rope_bucket_len ! i \<le> str_len p" "buckets_ok B bs1" "buckets_clear bs1 i" "None \<notin> set s1"
      "a \<noteq> JS_Null \<Longrightarrow> rope_ok a \<and> (B \<longrightarrow> string_depth a + 1 \<le> 2 * i)"
      "bucket_units bs1 0 @ rope_units a = bucket_units bs 0"
      by auto
    have iN: "i < ROPE_N_BUCKETS" using i(1) by (simp add: ROPE_N_BUCKETS_def)
    have sum: "length (bucket_units bs1 0) + length (rope_units a) = length (bucket_units bs 0)"
      using arg_cong [OF i(7), of length] by simp
    have i30: "i < 30" if B
      using rope_index_bound [OF i(2) len(3) [OF that]] i(1) by simp
    show ?thesis
    proof (cases "a = JS_Null")
      case True
      with i have u: "bucket_units bs1 0 = bucket_units bs 0" by simp
      have "\<exists>r bs' s'. rope_merge_up mk i (JS_Str p) bs1 s1 = (r, bs', s') \<and>
        (case r of
           None \<Rightarrow> buckets_ok B bs' \<and> None \<notin> set s' \<and>
             bucket_units bs' 0 = bucket_units bs1 0 @ rope_units (JS_Str p)
         | Some e \<Rightarrow> e = Nontermination \<and> \<not> B)"
        by (rule rope_merge_up_spec) (use i iN p size u in simp_all)
      with g Inr ai True False show ?thesis unfolding u rope_units.simps by (simp add: rope_insert_def)
    next
      case a: False
      note ok = i(6) [OF a]
      have l: "string_rope_get_len a + string_rope_get_len (JS_Str p) \<le> JS_STRING_LEN_MAX"
        using sum size ok by (simp add: rope_ok_len)
      have d: "B \<longrightarrow> string_depth a \<le> 2 * i - 1 \<and> string_depth (JS_Str p) \<le> 2 * i - 1 \<and>
          2 * i - 1 < JS_STRING_ROPE_MAX_DEPTH"
        using ok i30 by (auto simp: JS_STRING_ROPE_MAX_DEPTH_def)
      from conjunct1 [OF ok] p l i(5) d show ?thesis
      proof (cases rule: mk_cases)
        case (made v s2)
        have "\<exists>r bs' s'. rope_merge_up mk i v bs1 s2 = (r, bs', s') \<and>
          (case r of
             None \<Rightarrow> buckets_ok B bs' \<and> None \<notin> set s' \<and>
               bucket_units bs' 0 = bucket_units bs1 0 @ rope_units v
           | Some e \<Rightarrow> e = Nontermination \<and> \<not> B)"
        proof (rule rope_merge_up_spec)
          show "string_depth v \<le> 2 * i" if B
            using made(5) that ok by auto
          show "rope_bucket_len ! i \<le> string_rope_get_len v"
            using made i(2) by (simp add: rope_ok_len)
          show "length (bucket_units bs1 0 @ rope_units v) < rope_bucket_len ! 30" if B
            using size(2) [OF that] made sum by simp
          show "length (bucket_units bs1 0 @ rope_units v) \<le> JS_STRING_LEN_MAX"
            using size(1) made sum by simp
        qed (use i iN made in simp_all)
        moreover have uv: "bucket_units bs1 0 @ rope_units v = bucket_units bs 0 @ units p"
          using made i(7) by simp
        ultimately show ?thesis using g Inr ai a False made unfolding uv by (simp add: rope_insert_def)
      next
        case (diverges s2)
        with g Inr ai a False show ?thesis by (simp add: rope_insert_def)
      qed
    qed
  qed
qed

lemma rope_rec_spec:
  assumes "buckets_ok B bs" "None \<notin> set s" "rope_size_ok B (length (bucket_units bs 0) + length (rope_units v))"
  shows "\<exists>r bs' s'. js_rebalancee_string_rope_rec mk bs v s = (r, bs', s') \<and>
    (case r of
       None \<Rightarrow> buckets_ok B bs' \<and> None \<notin> set s' \<and> bucket_units bs' 0 = bucket_units bs 0 @ rope_units v
     | Some e \<Rightarrow> e = Nontermination \<and> \<not> B)"
  using assms
proof (induction v arbitrary: bs s)
  case (JS_Str p)
  then show ?case
    unfolding js_rebalancee_string_rope_rec.simps rope_units.simps by (intro rope_insert_spec) simp_all
next
  case (JS_Rope len wide depth l r)
  have szl: "rope_size_ok B (length (bucket_units bs 0) + length (rope_units l))"
    using JS_Rope.prems(3) by (auto simp: rope_size_ok_def)
  from JS_Rope.IH(1) [OF JS_Rope.prems(1,2) szl] obtain r1 bs1 s1 where
    1: "js_rebalancee_string_rope_rec mk bs l s = (r1, bs1, s1)" and
    c1: "case r1 of
       None \<Rightarrow> buckets_ok B bs1 \<and> None \<notin> set s1 \<and> bucket_units bs1 0 = bucket_units bs 0 @ rope_units l
     | Some e \<Rightarrow> e = Nontermination \<and> \<not> B" by auto
  show ?case
  proof (cases r1)
    case (Some e)
    with 1 c1 show ?thesis by (simp add: js_diverged_def)
  next
    case None
    with c1 have ok1: "buckets_ok B bs1" "None \<notin> set s1" "bucket_units bs1 0 = bucket_units bs 0 @ rope_units l"
      by simp_all
    have szr: "rope_size_ok B (length (bucket_units bs1 0) + length (rope_units r))"
      using JS_Rope.prems(3) ok1(3) by (simp add: add.assoc)
    from JS_Rope.IH(2) [OF ok1(1,2) szr] obtain r2 bs2 s2 where
      "js_rebalancee_string_rope_rec mk bs1 r s1 = (r2, bs2, s2)"
      "case r2 of
       None \<Rightarrow> buckets_ok B bs2 \<and> None \<notin> set s2 \<and> bucket_units bs2 0 = bucket_units bs1 0 @ rope_units r
     | Some e \<Rightarrow> e = Nontermination \<and> \<not> B" by auto
    with 1 None ok1 show ?thesis
      by (cases r2) (simp_all add: js_diverged_def)
  qed
qed auto

lemma rope_collect_spec:
  assumes "buckets_ok B bs" "i \<le> ROPE_N_BUCKETS" "None \<notin> set s"
    "a \<noteq> JS_Null \<Longrightarrow> rope_ok a \<and> (B \<longrightarrow> string_depth a + 1 \<le> 2 * i)"
    "rope_size_ok B (length (bucket_units bs i @ rope_units a))"
  shows "\<exists>r s'. rope_collect mk (drop i bs) a s = (r, s') \<and>
    (case r of
       Inr v \<Rightarrow> None \<notin> set s' \<and> (v \<noteq> JS_Null \<longrightarrow> rope_ok v) \<and> rope_units v = bucket_units bs i @ rope_units a
     | Inl e \<Rightarrow> e = Nontermination \<and> \<not> B)"
  using assms
proof (induction "ROPE_N_BUCKETS - i" arbitrary: i a s)
  case 0
  then have "length bs \<le> i" by (simp add: buckets_ok_def)
  with 0 show ?case by (simp add: js_return_def bucket_units_def)
next
  case (Suc n)
  let ?b = "bs ! i"
  have iN: "i < ROPE_N_BUCKETS" using Suc(2) by simp
  have lb: "length bs = 44" using Suc.prems(1) by (rule buckets_ok_length)
  then have i44: "i < 44" using iN by (simp add: ROPE_N_BUCKETS_def)
  have d: "drop i bs = ?b # drop (Suc i) bs" using lb i44 by (simp add: Cons_nth_drop_Suc)
  have u: "bucket_units bs i = bucket_units bs (Suc i) @ rope_units ?b"
    using lb i44 by (simp add: bucket_units_step)
  have ih: "\<exists>r s'. rope_collect mk (drop (Suc i) bs) a1 s1 = (r, s') \<and>
    (case r of
       Inr v \<Rightarrow> None \<notin> set s' \<and> (v \<noteq> JS_Null \<longrightarrow> rope_ok v) \<and> rope_units v = bucket_units bs (Suc i) @ rope_units a1
     | Inl e \<Rightarrow> e = Nontermination \<and> \<not> B)"
    if "None \<notin> set s1" "a1 \<noteq> JS_Null \<Longrightarrow> rope_ok a1 \<and> (B \<longrightarrow> string_depth a1 + 1 \<le> 2 * Suc i)"
      "rope_size_ok B (length (bucket_units bs (Suc i) @ rope_units a1))" for a1 s1
    using Suc(2) iN that Suc.prems(1) by (intro Suc(1)) auto
  consider "?b = JS_Null" | "?b \<noteq> JS_Null" "a = JS_Null" | "?b \<noteq> JS_Null" "a \<noteq> JS_Null" by blast
  then show ?case
  proof cases
    case 1
    have "a \<noteq> JS_Null \<Longrightarrow> rope_ok a \<and> (B \<longrightarrow> string_depth a + 1 \<le> 2 * Suc i)" using Suc.prems(4) by auto
    moreover have uu: "bucket_units bs i @ rope_units a = bucket_units bs (Suc i) @ rope_units a"
      using 1 by (simp add: u)
    ultimately show ?thesis
      using 1 ih [of s a] Suc.prems(3,5) unfolding uu d by simp
  next
    case 2
    note b = buckets_okD [OF Suc.prems(1) iN 2(1)]
    then have "?b \<noteq> JS_Null \<Longrightarrow> rope_ok ?b \<and> (B \<longrightarrow> string_depth ?b + 1 \<le> 2 * Suc i)" by auto
    moreover have uu: "bucket_units bs i @ rope_units a = bucket_units bs (Suc i) @ rope_units ?b"
      using 2 by (simp add: u)
    ultimately show ?thesis
      using 2 ih [of s ?b] Suc.prems(3,5) unfolding uu d by simp
  next
    case 3
    note b = buckets_okD [OF Suc.prems(1) iN 3(1)] and a = Suc.prems(4) [OF 3(2)]
    have l: "string_rope_get_len ?b + string_rope_get_len a \<le> JS_STRING_LEN_MAX"
      using a b Suc.prems(5) by (simp add: u rope_ok_len rope_size_ok_def)
    have i30: "i < 30" if B
    proof (rule rope_index_bound [OF _ _ i44])
      show "rope_bucket_len ! i \<le> string_rope_get_len ?b" using b by simp
      show "string_rope_get_len ?b < rope_bucket_len ! 30"
        using Suc.prems(5) that rope_ok_len [OF conjunct1 [OF b]] by (simp add: u rope_size_ok_def)
    qed
    have dp: "B \<longrightarrow> string_depth ?b \<le> 2 * i \<and> string_depth a \<le> 2 * i \<and> 2 * i < JS_STRING_ROPE_MAX_DEPTH"
      using a b i30 by (auto simp: JS_STRING_ROPE_MAX_DEPTH_def)
    from conjunct1 [OF b] conjunct1 [OF a] l Suc.prems(3) dp show ?thesis
    proof (cases rule: mk_cases)
      case (made v s1)
      then have "v \<noteq> JS_Null \<Longrightarrow> rope_ok v \<and> (B \<longrightarrow> string_depth v + 1 \<le> 2 * Suc i)" by auto
      moreover have uu: "bucket_units bs i @ rope_units a = bucket_units bs (Suc i) @ rope_units v"
        using made by (simp add: u)
      ultimately show ?thesis
        using 3 ih [of s1 v] made(1,4) Suc.prems(5) unfolding uu d by (simp add: js_bind_def)
    next
      case (diverges s1)
      with 3 show ?thesis by (simp add: d js_bind_def)
    qed
  qed
qed

lemma js_rebalancee_string_rope_spec:
  assumes "rope_size_ok B (length (rope_units v))" "None \<notin> set s"
  shows "\<exists>r s'. js_rebalancee_string_rope mk v s = (r, s') \<and>
    (case r of
       Inr v' \<Rightarrow> rope_ok v' \<and> rope_units v' = rope_units v \<and> None \<notin> set s'
     | Inl e \<Rightarrow> e = Nontermination \<and> \<not> B)"
proof -
  let ?e = "replicate ROPE_N_BUCKETS JS_Null"
  have e: "buckets_ok B ?e" by (simp add: buckets_ok_def)
  have z: "bucket_units ?e 0 = []" by (simp add: bucket_units_def)
  from rope_rec_spec [OF e assms(2), of v, unfolded z append_Nil] assms(1) obtain r1 bs s1 where
    r1: "js_rebalancee_string_rope_rec mk ?e v s = (r1, bs, s1)" and
    c: "case r1 of None \<Rightarrow> buckets_ok B bs \<and> None \<notin> set s1 \<and> bucket_units bs 0 = rope_units v
        | Some e \<Rightarrow> e = Nontermination \<and> \<not> B" by auto
  show ?thesis
  proof (cases r1)
    case (Some e)
    with r1 c show ?thesis by (simp add: js_rebalancee_string_rope_def)
  next
    case None
    with c have ok: "buckets_ok B bs" "None \<notin> set s1" "bucket_units bs 0 = rope_units v" by simp_all
      from rope_collect_spec [OF ok(1) _ ok(2), of 0 JS_Null, unfolded rope_units.simps append_Nil2 ok(3)] assms(1) obtain r s' where
      "rope_collect mk bs JS_Null s1 = (r, s')"
      "case r of
         Inr v' \<Rightarrow> None \<notin> set s' \<and> (v' \<noteq> JS_Null \<longrightarrow> rope_ok v') \<and> rope_units v' = rope_units v
       | Inl e \<Rightarrow> e = Nontermination \<and> \<not> B" by auto
    with r1 None show ?thesis
      by (cases r) (auto simp: js_rebalancee_string_rope_def js_bind_def js_return_def rope_ok_Str)
  qed
qed

end

section \<open>The constructor of ropes\<close>

text \<open>A computation while the allocator does not fail.\<close>

definition js_ample :: "'a js \<Rightarrow> ('a \<Rightarrow> bool) \<Rightarrow> (js_error \<Rightarrow> bool) \<Rightarrow> bool" where
  "js_ample m P E \<longleftrightarrow> (\<forall>s. None \<notin> set s \<longrightarrow>
     (case m s of (Inr x, s') \<Rightarrow> P x \<and> None \<notin> set s' | (Inl e, s') \<Rightarrow> E e))"

lemma js_ample_return: "P x \<Longrightarrow> js_ample (js_return x) P E"
  by (simp add: js_ample_def js_return_def)

lemma js_ample_throw: "E e \<Longrightarrow> js_ample (js_throw e) P E"
  by (simp add: js_ample_def js_throw_def)

lemma js_ample_bind:
  "js_ample m Q E \<Longrightarrow> (\<And>x. Q x \<Longrightarrow> js_ample (f x) P E) \<Longrightarrow> js_ample (js_bind m f) P E"
  unfolding js_ample_def js_bind_def by (fastforce split: prod.splits sum.splits)

lemma js_ample_spec:
  assumes "js_spec m P E"
  shows "js_ample m P E"
  unfolding js_ample_def
proof (intro allI impI)
  fix s :: answers
  assume "None \<notin> set s"
  moreover obtain r s' where "m s = (r, s')" by (cases "m s")
  ultimately show "case m s of (Inr x, s') \<Rightarrow> P x \<and> None \<notin> set s' | (Inl e, s') \<Rightarrow> E e"
    using spec [OF assms [unfolded js_spec_def], of s] by (cases r) auto
qed

lemma js_ample_malloc: "js_ample js_malloc_block (\<lambda>_. True) E"
  by (rule js_ample_spec [OF js_spec_malloc_block])

lemma js_ample_conseq:
  "js_ample m Q E' \<Longrightarrow> (\<And>x. Q x \<Longrightarrow> P x) \<Longrightarrow> (\<And>e. E' e \<Longrightarrow> E e) \<Longrightarrow> js_ample m P E"
  unfolding js_ample_def by (fastforce split: prod.splits sum.splits)

text \<open>The errors of building a rope for \<open>n\<close> units.\<close>

definition rope_error :: "nat \<Rightarrow> nat \<Rightarrow> js_error \<Rightarrow> bool" where
  "rope_error fuel n e \<longleftrightarrow> string_too_long n e \<or> (e = Nontermination \<and> \<not> (0 < fuel \<and> n < rope_bucket_len ! 30))"

declare js_new_string_rope.simps [simp del]

lemma js_malloc_block_ample: "None \<notin> set s \<Longrightarrow> \<exists>s'. js_malloc_block s = (Inr (), s') \<and> None \<notin> set s'"
  by (auto simp: js_malloc_block_def split: list.splits option.splits)

lemma js_new_string_rope_shallow:
  assumes "string_rope_get_len x + string_rope_get_len y \<le> JS_STRING_LEN_MAX"
    "max (string_depth x) (string_depth y) < JS_STRING_ROPE_MAX_DEPTH" "None \<notin> set s"
  shows "\<exists>wide s'. None \<notin> set s' \<and>
    js_new_string_rope fuel x y s = (Inr (JS_Rope (string_rope_get_len x + string_rope_get_len y) wide
                          (max (string_depth x) (string_depth y) + 1) x y), s')"
  using js_malloc_block_ample [OF assms(3)] assms(1,2)
  by (auto simp: js_new_string_rope.simps [of fuel] Let_def js_bind_def js_return_def)

lemma js_new_string_rope_deep:
  assumes "rope_maker (js_new_string_rope fuel)" "rope_ok x" "rope_ok y"
    "string_rope_get_len x + string_rope_get_len y \<le> JS_STRING_LEN_MAX" "None \<notin> set s"
    "\<not> max (string_depth x) (string_depth y) < JS_STRING_ROPE_MAX_DEPTH"
  shows "(\<exists>v s'. js_new_string_rope (Suc fuel) x y s = (Inr v, s') \<and>
       rope_ok v \<and> rope_units v = rope_units x @ rope_units y \<and> None \<notin> set s') \<or>
    (\<exists>s'. js_new_string_rope (Suc fuel) x y s = (Inl Nontermination, s') \<and>
       \<not> string_rope_get_len x + string_rope_get_len y < rope_bucket_len ! 30)"
proof -
  let ?n = "string_rope_get_len x + string_rope_get_len y"
  let ?res = "JS_Rope ?n (string_wide x \<or> string_wide y) (max (string_depth x) (string_depth y) + 1) x y"
  from js_malloc_block_ample [OF assms(5)] obtain s1 where
    m: "js_malloc_block s = (Inr (), s1)" and s1: "None \<notin> set s1" by auto
  have l: "length (rope_units ?res) = ?n" using assms(2,3) by (simp add: rope_ok_len)
  have sz: "rope_size_ok (?n < rope_bucket_len ! 30) (length (rope_units ?res))"
    unfolding l using assms(4) by (simp add: rope_size_ok_def)
  have e: "js_new_string_rope (Suc fuel) x y s = js_rebalancee_string_rope (js_new_string_rope fuel) ?res s1"
  proof -
    have "JS_STRING_ROPE_MAX_DEPTH < max (string_depth x) (string_depth y) + 1" using assms(6)
      by (simp only: not_less Suc_eq_plus1 [symmetric] less_Suc_eq_le)
    with assms(4) m show ?thesis by (simp add: js_new_string_rope.simps [of "Suc fuel"] Let_def js_bind_def)
  qed
  from rope_maker.js_rebalancee_string_rope_spec [OF assms(1) sz s1] obtain r s' where
    "js_rebalancee_string_rope (js_new_string_rope fuel) ?res s1 = (r, s')"
    "case r of Inr v \<Rightarrow> rope_ok v \<and> rope_units v = rope_units ?res \<and> None \<notin> set s'
     | Inl e \<Rightarrow> e = Nontermination \<and> \<not> ?n < rope_bucket_len ! 30" by blast
  then show ?thesis unfolding e by (cases r) auto
qed

lemma js_new_string_rope_maker: "rope_maker (js_new_string_rope fuel)"
proof (induction fuel)
  case 0
  show ?case
  proof
    fix x y :: jsval and s :: answers
    assume "string_rope_get_len x + string_rope_get_len y \<le> JS_STRING_LEN_MAX" "None \<notin> set s"
      and ok: "rope_ok x" "rope_ok y"
    note a = this
    show "(\<exists>v s'. js_new_string_rope 0 x y s = (Inr v, s') \<and> rope_ok v \<and>
             rope_units v = rope_units x @ rope_units y \<and> None \<notin> set s') \<or>
          fst (js_new_string_rope 0 x y s) = Inl Nontermination"
    proof (cases "max (string_depth x) (string_depth y) < JS_STRING_ROPE_MAX_DEPTH")
      case True
      from js_new_string_rope_shallow [OF a(1) True a(2), of 0] a True show ?thesis
        by (auto simp: rope_ok_def less_Suc_eq_le)
    next
      case False
      with js_malloc_block_ample [OF a(2)] a(1) show ?thesis
        by (auto simp: js_new_string_rope.simps [of 0] Let_def js_bind_def js_throw_def)
    qed
  qed (rule js_new_string_rope_shallow)
next
  case (Suc fuel)
  show ?case
  proof
    fix x y :: jsval and s :: answers
    assume "string_rope_get_len x + string_rope_get_len y \<le> JS_STRING_LEN_MAX" "None \<notin> set s"
      and ok: "rope_ok x" "rope_ok y"
    note a = this
    show "(\<exists>v s'. js_new_string_rope (Suc fuel) x y s = (Inr v, s') \<and> rope_ok v \<and>
             rope_units v = rope_units x @ rope_units y \<and> None \<notin> set s') \<or>
          fst (js_new_string_rope (Suc fuel) x y s) = Inl Nontermination"
    proof (cases "max (string_depth x) (string_depth y) < JS_STRING_ROPE_MAX_DEPTH")
      case True
      from js_new_string_rope_shallow [OF a(1) True a(2), of "Suc fuel"] a True show ?thesis
        by (auto simp: rope_ok_def less_Suc_eq_le)
    next
      case False
      from js_new_string_rope_deep [OF Suc.IH ok a(1,2) False] show ?thesis
        by auto
    qed
  qed (rule js_new_string_rope_shallow)
qed

interpretation new_rope: rope_maker "js_new_string_rope fuel" for fuel
  by (rule js_new_string_rope_maker)

lemma js_new_string_rope_too_long:
  "string_rope_get_len x + string_rope_get_len y > JS_STRING_LEN_MAX \<Longrightarrow>
   js_new_string_rope fuel x y s = (Inl (InternalError ''string too long''), s)"
  by (simp add: js_new_string_rope.simps [of fuel] Let_def js_throw_def)

lemma js_new_string_rope_spec:
  assumes "rope_ok x" "rope_ok y"
  shows "js_ample (js_new_string_rope fuel x y)
     (\<lambda>v. rope_ok v \<and> rope_units v = rope_units x @ rope_units y)
     (rope_error fuel (length (rope_units x @ rope_units y)))"
proof -
  have n: "length (rope_units x @ rope_units y) = string_rope_get_len x + string_rope_get_len y"
    using assms by (simp add: rope_ok_len)
  show ?thesis
    unfolding js_ample_def
  proof (intro allI impI)
    fix s :: answers
    assume s: "None \<notin> set s"
    show "case js_new_string_rope fuel x y s of
        (Inr v, s') \<Rightarrow> (rope_ok v \<and> rope_units v = rope_units x @ rope_units y) \<and> None \<notin> set s'
      | (Inl e, s') \<Rightarrow> rope_error fuel (length (rope_units x @ rope_units y)) e"
    proof (cases "string_rope_get_len x + string_rope_get_len y \<le> JS_STRING_LEN_MAX")
      case False
      then show ?thesis unfolding n by (simp add: js_new_string_rope_too_long rope_error_def string_too_long_def)
    next
      case len: True
      show ?thesis
      proof (cases "max (string_depth x) (string_depth y) < JS_STRING_ROPE_MAX_DEPTH")
        case True
        from js_new_string_rope_shallow [OF len True s, of fuel] assms len True show ?thesis
          by (auto simp: rope_ok_def less_Suc_eq_le)
      next
        case False
        show ?thesis
        proof (cases fuel)
          case 0
          with False len js_malloc_block_ample [OF s] show ?thesis
            by (auto simp: js_new_string_rope.simps [of 0] Let_def js_bind_def js_throw_def rope_error_def)
        next
          case (Suc n')
          from js_new_string_rope_deep [OF js_new_string_rope_maker assms len s False, of n'] Suc show ?thesis
            unfolding n by (auto simp: rope_error_def)
        qed
      qed
    qed
  qed
qed

end
