(* ===== verification/RopeTheorems.thy ===== *)
theory RopeTheorems
  imports RopeBalance
begin

text \<open>
  Concatenation and linearization of strings and ropes, and the two defects of the rebalancing.
\<close>

section \<open>Concatenation\<close>

lemma js_concat_flat_ample:
  "js_ample (js_concat_flat blk p1 p2) (\<lambda>v. \<exists>p. v = JS_Str p \<and> units p = units p1 @ units p2)
     (string_too_long (str_len p1 + str_len p2))"
  unfolding js_concat_flat_def
  by (rule js_ample_bind [OF js_ample_spec [OF JS_ConcatString2_spec]]) (simp add: js_ample_return)

lemma string_too_long_rope_error: "string_too_long m e \<Longrightarrow> m \<le> n \<Longrightarrow> rope_error fuel n e"
  by (auto simp: rope_error_def string_too_long_def)

lemma rope_error_mono: "rope_error fuel m e \<Longrightarrow> m \<le> n \<Longrightarrow> rope_error fuel n e"
  by (auto simp: rope_error_def string_too_long_def)

text \<open>The constructor with a flat operand whose length has not been checked.\<close>

lemma js_new_string_rope_spec_any:
  assumes "rope_ok x \<or> (\<exists>p. x = JS_Str p)" "rope_ok y \<or> (\<exists>p. y = JS_Str p)"
  shows "js_ample (js_new_string_rope fuel x y)
     (\<lambda>v. rope_ok v \<and> rope_units v = rope_units x @ rope_units y)
     (rope_error fuel (length (rope_units x @ rope_units y)))"
proof (cases "rope_ok x \<and> rope_ok y")
  case True
  then show ?thesis by (intro js_new_string_rope_spec) auto
next
  case False
  have n: "string_rope_get_len x = length (rope_units x)" "string_rope_get_len y = length (rope_units y)"
    using assms by (auto simp: rope_ok_len)
  from False assms have "length (rope_units x @ rope_units y) > JS_STRING_LEN_MAX"
    by (auto simp: rope_ok_Str not_le)
  then show ?thesis
    using n by (auto simp: js_ample_def js_new_string_rope_too_long rope_error_def string_too_long_def)
qed

lemma rope_ok_rope_cases [consumes 1, case_names Str Rope]:
  assumes "rope_ok v"
  obtains p where "v = JS_Str p" "str_len p \<le> JS_STRING_LEN_MAX"
  | len wide depth l r where "v = JS_Rope len wide depth l r" "rope_ok l" "rope_ok r"
  using assms by (cases v) (auto simp: rope_ok_def)

lemma short_string_cases:
  assumes "short_string v"
  obtains p where "v = JS_Str p" "str_len p \<le> JS_STRING_ROPE_SHORT_LEN"
  using assms by (auto simp: short_string_def split: jsval.splits)

lemma js_concat_strings_spec:
  assumes "rope_ok op1" "rope_ok op2"
  shows "js_ample (js_concat_strings fuel blk op1 op2)
     (\<lambda>v. rope_ok v \<and> rope_units v = rope_units op1 @ rope_units op2)
     (rope_error fuel (length (rope_units op1 @ rope_units op2)))"
  using assms(2)
proof (cases rule: rope_ok_rope_cases)
  case (Str p2)
  note s2 = this
  have new: "js_ample (js_new_string_rope fuel op1 op2)
     (\<lambda>v. rope_ok v \<and> rope_units v = rope_units op1 @ rope_units op2)
     (rope_error fuel (length (rope_units op1 @ rope_units op2)))"
    by (rule js_new_string_rope_spec [OF assms])
  consider "str_len p2 = 0" | "str_len p2 \<noteq> 0" "str_len p2 \<le> JS_STRING_ROPE_SHORT_LEN"
    | "str_len p2 > JS_STRING_ROPE_SHORT_LEN" by linarith
  then show ?thesis
  proof cases
    case 1
    then show ?thesis
      using assms(1) s2 by (simp add: js_concat_strings_def str_len_0_iff js_ample_return)
  next
    case 3
    then show ?thesis using new s2 by (simp add: js_concat_strings_def JS_STRING_ROPE_SHORT_LEN_def)
  next
    case 2
    from assms(1) show ?thesis
    proof (cases rule: rope_ok_rope_cases)
      case (Str p1)
      show ?thesis
      proof (cases "str_len p1 \<le> JS_STRING_ROPE_SHORT2_LEN")
        case True
        have "js_ample (js_concat_flat blk p1 p2)
           (\<lambda>v. rope_ok v \<and> rope_units v = rope_units op1 @ rope_units op2)
           (rope_error fuel (length (rope_units op1 @ rope_units op2)))"
        proof (rule js_ample_conseq [OF js_concat_flat_ample])
          fix v
          assume "\<exists>p. v = JS_Str p \<and> units p = units p1 @ units p2"
          then obtain p where p: "v = JS_Str p" "units p = units p1 @ units p2" by blast
          have "str_len p = str_len p1 + str_len p2"
            using arg_cong [OF p(2), of length] by simp
          with True 2 p Str s2 show "rope_ok v \<and> rope_units v = rope_units op1 @ rope_units op2"
            by (simp add: rope_ok_Str JS_STRING_ROPE_SHORT2_LEN_def JS_STRING_ROPE_SHORT_LEN_def JS_STRING_LEN_MAX_def)
        qed (use Str s2 in \<open>auto intro: string_too_long_rope_error\<close>)
        with 2 True Str s2 show ?thesis by (simp add: js_concat_strings_def)
      next
        case False
        with 2 Str s2 new show ?thesis by (simp add: js_concat_strings_def)
      qed
    next
      case (Rope len wide depth l r)
      show ?thesis
      proof (cases "short_string r")
        case True
        then obtain p where p: "r = JS_Str p" by (auto elim: short_string_cases)
        have "js_ample (js_bind (js_concat_flat (blk\<lparr>blk_ref_count := blk_ref_count blk + 1\<rparr>) p p2)
                (js_new_string_rope fuel l))
           (\<lambda>v. rope_ok v \<and> rope_units v = rope_units op1 @ rope_units op2)
           (rope_error fuel (length (rope_units op1 @ rope_units op2)))"
        proof (rule js_ample_bind)
          show "js_ample (js_concat_flat (blk\<lparr>blk_ref_count := blk_ref_count blk + 1\<rparr>) p p2)
             (\<lambda>v. \<exists>q. v = JS_Str q \<and> units q = units p @ units p2)
             (rope_error fuel (length (rope_units op1 @ rope_units op2)))"
            by (rule js_ample_conseq [OF js_concat_flat_ample])
              (use Rope p s2 in \<open>auto intro: string_too_long_rope_error\<close>)
          fix v
          assume "\<exists>q. v = JS_Str q \<and> units q = units p @ units p2"
          then obtain q where q: "v = JS_Str q" "units q = units p @ units p2" by blast
          have u: "rope_units l @ rope_units v = rope_units op1 @ rope_units op2"
            using q Rope p s2 by simp
          show "js_ample (js_new_string_rope fuel l v)
             (\<lambda>v. rope_ok v \<and> rope_units v = rope_units op1 @ rope_units op2)
             (rope_error fuel (length (rope_units op1 @ rope_units op2)))"
            using js_new_string_rope_spec_any [of l v fuel] Rope q unfolding u by auto
        qed
        with 2 True Rope p s2 show ?thesis by (simp add: js_concat_strings_def)
      next
        case False
        with 2 Rope s2 new show ?thesis by (simp add: js_concat_strings_def)
      qed
    qed
  qed
next
  case (Rope len2 wide2 depth2 l2 r2)
  note s2 = this
  have new: "js_ample (js_new_string_rope fuel op1 op2)
     (\<lambda>v. rope_ok v \<and> rope_units v = rope_units op1 @ rope_units op2)
     (rope_error fuel (length (rope_units op1 @ rope_units op2)))"
    by (rule js_new_string_rope_spec [OF assms])
  from assms(1) show ?thesis
  proof (cases rule: rope_ok_rope_cases)
    case (Rope len wide depth l r)
    with new s2 show ?thesis by (simp add: js_concat_strings_def)
  next
    case (Str p1)
    consider "str_len p1 = 0" | "str_len p1 \<noteq> 0" "short_string l2" | "str_len p1 \<noteq> 0" "\<not> short_string l2" by blast
    then show ?thesis
    proof cases
      case 1
      then show ?thesis
        using assms(2) Str s2 by (simp add: js_concat_strings_def str_len_0_iff js_ample_return)
    next
      case 3
      with Str s2 new show ?thesis by (simp add: js_concat_strings_def)
    next
      case 2
      then obtain p where p: "l2 = JS_Str p" by (auto elim: short_string_cases)
      have "js_ample (js_bind (js_concat_flat blk p1 p) (\<lambda>val. js_new_string_rope fuel val r2))
         (\<lambda>v. rope_ok v \<and> rope_units v = rope_units op1 @ rope_units op2)
         (rope_error fuel (length (rope_units op1 @ rope_units op2)))"
      proof (rule js_ample_bind)
        show "js_ample (js_concat_flat blk p1 p)
           (\<lambda>v. \<exists>q. v = JS_Str q \<and> units q = units p1 @ units p)
           (rope_error fuel (length (rope_units op1 @ rope_units op2)))"
          by (rule js_ample_conseq [OF js_concat_flat_ample])
            (use Str p s2 in \<open>auto intro: string_too_long_rope_error\<close>)
        fix v
        assume "\<exists>q. v = JS_Str q \<and> units q = units p1 @ units p"
        then obtain q where q: "v = JS_Str q" "units q = units p1 @ units p" by blast
        have u: "rope_units v @ rope_units r2 = rope_units op1 @ rope_units op2"
          using q Str p s2 by simp
        show "js_ample (js_new_string_rope fuel v r2)
           (\<lambda>v. rope_ok v \<and> rope_units v = rope_units op1 @ rope_units op2)
           (rope_error fuel (length (rope_units op1 @ rope_units op2)))"
          using js_new_string_rope_spec_any [of v r2 fuel] s2 q unfolding u by auto
      qed
      with 2 Str p s2 show ?thesis by (simp add: js_concat_strings_def)
    qed
  qed
qed

section \<open>Linearization\<close>

lemma string_buffer_concat_value_spec:
  "rope_wf v \<Longrightarrow> sb_ok sb \<Longrightarrow>
   sb_append_result sb (rope_units v) s (string_buffer_concat_value to_string sb v s)"
proof (induction v arbitrary: sb s)
  case (JS_Str p)
  then show ?case
    using string_buffer_concat_spec [of sb "str_len p" 0 p s] sb_append_failed [of sb _ "units p" s "-1"]
    by auto
next
  case (JS_Rope len wide depth l r)
  have "sb_append_result sb (rope_units l @ rope_units r) s
    (case string_buffer_concat_value to_string sb l s of
       (ret, sb, s) \<Rightarrow> if ret \<noteq> 0 then (-1, sb, s) else string_buffer_concat_value to_string sb r s)"
    using JS_Rope by (intro sb_append_then) (auto dest: sb.appended_ok)
  with JS_Rope.prems sb_append_failed [of sb _ "rope_units l @ rope_units r" s "-1"] show ?case by auto
qed auto

lemma rope_flat_part:
  assumes "rope_wf (JS_Rope len wide depth l r)" "r = JS_Str p" "str_len p = 0"
  shows "rope_units l = rope_units (JS_Rope len wide depth l r)"
  using assms by (simp add: str_len_0_iff)

lemma js_linearize_string_rope_spec:
  assumes "rope_wf (JS_Rope len wide depth l r)"
  shows "js_spec (js_linearize_string_rope to_string ref_count (JS_Rope len wide depth l r))
     (\<lambda>(v, rope'). rope_units v = rope_units l @ rope_units r \<and> rope_units rope' = rope_units l @ rope_units r \<and>
        rope_wf rope' \<and> string_depth rope' = depth \<and> (v = l \<or> (\<exists>p. v = JS_Str p)))
     (string_too_long (length (rope_units l @ rope_units r)))"
proof (cases "\<exists>p. r = JS_Str p \<and> str_len p = 0")
  case True
  with assms show ?thesis
    by (auto simp: js_linearize_string_rope_def str_len_0_iff intro!: js_spec_return)
next
  case False
  let ?rope = "JS_Rope len wide depth l r"
  let ?u = "rope_units l @ rope_units r"
  have flat: "\<not> (case rope_right ?rope of JS_Str p \<Rightarrow> str_len p = 0 | _ \<Rightarrow> False)"
    using False by (auto split: jsval.splits)
  show ?thesis
    unfolding js_spec_def
  proof
    fix s
    let ?P = "\<lambda>x. (case x of (v, rope') \<Rightarrow> rope_units v = ?u \<and> rope_units rope' = ?u \<and> rope_wf rope' \<and>
        string_depth rope' = depth \<and> (v = l \<or> (\<exists>p. v = JS_Str p)))"
    let ?m = "js_linearize_string_rope to_string ref_count ?rope s"
    obtain ret sb s1 where i: "string_buffer_init2 len wide s = (ret, sb, s1)" by (cases "string_buffer_init2 len wide s")
    note init = string_buffer_init2_spec [OF i]
    obtain ret2 sb2 s2 where c: "string_buffer_concat_value to_string sb ?rope s1 = (ret2, sb2, s2)"
      by (cases "string_buffer_concat_value to_string sb ?rope s1")
    have app: "sb_appended sb ?u s1 sb2 s2" "ret2 \<noteq> 0 \<Longrightarrow> sb_error sb2 \<noteq> None"
      using string_buffer_concat_value_spec [OF assms, of sb s1 to_string] init c
      by (simp_all add: sb_append_result_def)
    obtain r3 s3 where e: "string_buffer_end sb2 s2 = (r3, s3)" by (cases "string_buffer_end sb2 s2")
    note fin = string_buffer_end_spec [OF sb.appended_ok [OF app(1)], of s2, unfolded e fst_conv snd_conv]
    have len: "length ?u = len" using rope_wf_len [OF assms] by simp
    have m: "?m = (if ret \<noteq> 0 then (Inl OutOfMemory, s1)
        else if ret2 \<noteq> 0 then (Inl (the (sb_error sb2)), s2)
        else (case r3 of Inl e \<Rightarrow> (Inl e, s3)
              | Inr p \<Rightarrow> (Inr (JS_Str p, if ref_count > 1 then JS_Rope len wide depth (JS_Str p) (JS_Str empty_string) else ?rope), s3)))"
      using flat i c e by (simp add: js_linearize_string_rope_def js_bind_def js_return_def split: sum.splits)
    have err: "case sb_error sb2 of None \<Rightarrow> sb_units sb2 = ?u
      | Some e \<Rightarrow> e = OutOfMemory \<and> None \<in> set s \<or> string_too_long (length ?u) e" if "ret = 0"
      using app init that by (auto simp: sink_appended_def split: option.splits)
    show "set (snd ?m) \<subseteq> set s \<and> (case fst ?m of Inl e \<Rightarrow> string_too_long (length ?u) e \<or> (e = OutOfMemory \<and> None \<in> set s)
        | Inr x \<Rightarrow> ?P x)"
    proof (cases r3)
      case (Inl e')
      with m err app init fin show ?thesis
        by (auto simp: sink_appended_def split: option.splits)
    next
      case (Inr p)
      with fin have p: "sb_error sb2 = None" "units p = sb_units sb2" "set s3 \<subseteq> set s2" by auto
      with err have u: "units p = ?u" if "ret = 0" using that by simp
      have "str_len p = len" if "ret = 0" using arg_cong [OF u [OF that], of length] len by simp
      with m Inr p u app init assms len show ?thesis
        by (auto simp: sink_appended_def split: option.splits)
    qed
  qed
qed

section \<open>A rope whose rebalancing never ends\<close>

text \<open>The rope that the constructor builds when it is shallow, and strings of a given length.\<close>

definition flat_rope :: "jsval \<Rightarrow> jsval \<Rightarrow> jsval" where
  "flat_rope x y =
     JS_Rope (string_rope_get_len x + string_rope_get_len y) (string_wide x \<or> string_wide y)
       (max (string_depth x) (string_depth y) + 1) x y"

definition a_string :: "nat \<Rightarrow> jsval" where
  "a_string n = JS_Str (Str8 (replicate n 0x61))"

text \<open>
  Each level adds a single unit, which waits in bucket 0, and a string that is just long enough for the
  bucket above that of the rope: the rope climbs by one bucket and gains two in depth.
\<close>

fun climbing_rope :: "nat \<Rightarrow> jsval" where
  "climbing_rope 0 = flat_rope (a_string 1) (a_string 2)"
| "climbing_rope (Suc k) = flat_rope (flat_rope (climbing_rope k) (a_string 1)) (a_string (rope_bucket_len ! (k + 2)))"

lemma a_string_simps [simp]:
  "string_rope_get_len (a_string n) = n" "string_depth (a_string n) = 0" "string_wide (a_string n) = False"
  "a_string n \<noteq> JS_Null" "length (rope_units (a_string n)) = n"
  "a_string n = JS_Str p \<longleftrightarrow> p = Str8 (replicate n 0x61)"
  by (auto simp: a_string_def)

lemma flat_rope_simps [simp]:
  "string_rope_get_len (flat_rope x y) = string_rope_get_len x + string_rope_get_len y"
  "string_depth (flat_rope x y) = max (string_depth x) (string_depth y) + 1"
  "string_wide (flat_rope x y) \<longleftrightarrow> string_wide x \<or> string_wide y"
  "flat_rope x y \<noteq> JS_Null"
  "rope_units (flat_rope x y) = rope_units x @ rope_units y"
  "rope_wf (flat_rope x y) \<longleftrightarrow> rope_wf x \<and> rope_wf y \<and>
     string_rope_get_len x + string_rope_get_len y \<le> JS_STRING_LEN_MAX"
  by (auto simp: flat_rope_def less_Suc_eq_le)

lemma js_new_string_rope_flat:
  "string_rope_get_len x + string_rope_get_len y \<le> JS_STRING_LEN_MAX \<Longrightarrow>
   string_depth x < JS_STRING_ROPE_MAX_DEPTH \<Longrightarrow> string_depth y < JS_STRING_ROPE_MAX_DEPTH \<Longrightarrow>
   js_new_string_rope fuel x y [] = (Inr (flat_rope x y), [])"
  by (cases "JS_STRING_ROPE_MAX_DEPTH < max (string_depth x) (string_depth y) + 1")
    (simp_all add: js_new_string_rope.simps [of fuel] Let_def js_bind_def js_malloc_block_def js_return_def
      flat_rope_def less_Suc_eq_le le_max_iff_disj)

lemma climbing_rope_len:
  "k \<le> 30 \<Longrightarrow> string_rope_get_len (climbing_rope k) = 3 + k + sum_list (take k (drop 2 rope_bucket_len))"
proof (induction k)
  case (Suc k)
  then show ?case by (simp add: take_Suc_conv_app_nth)
qed simp

lemma climbing_rope_len_mono:
  "k \<le> k' \<Longrightarrow> string_rope_get_len (climbing_rope k) \<le> string_rope_get_len (climbing_rope k')"
  by (induction k' rule: dec_induct) auto

lemma climbing_rope_30: "string_rope_get_len (climbing_rope 30) = 9227493"
  by (simp add: climbing_rope_len rope_bucket_len_def)

lemma climbing_rope_total: "k \<le> 30 \<Longrightarrow> string_rope_get_len (climbing_rope k) \<le> 9227493"
  using climbing_rope_len_mono [of k 30] by (simp add: climbing_rope_30)

lemma climbing_rope_depth [simp]: "string_depth (climbing_rope k) = 2 * k + 1"
  by (induction k) auto

lemma climbing_rope_not_null [simp]: "climbing_rope k \<noteq> JS_Null"
  by (cases k) auto

text \<open>Inserting the leaves one after the other.\<close>

definition single_bucket :: "nat \<Rightarrow> jsval \<Rightarrow> jsval list" where
  "single_bucket i v = (replicate ROPE_N_BUCKETS JS_Null)[i := v]"

lemma rope_gather_skip:
  assumes "m \<le> n" "n < 44" "rope_bucket_len ! n \<le> len" "\<forall>i. m \<le> i \<and> i < n \<longrightarrow> bs ! i = JS_Null"
  shows "rope_gather mk len m a bs s = rope_gather mk len n a bs s"
  using assms
proof (induction "n - m" arbitrary: m)
  case (Suc d)
  then have "m < n" by simp
  moreover have "rope_bucket_len ! (m + 1) \<le> len"
    using rope_table_le [of "m + 1" n] Suc.prems \<open>m < n\<close> by simp
  ultimately have "rope_gather mk len m a bs s = rope_gather mk len (m + 1) a bs s"
    using Suc.prems by (subst rope_gather.simps) (simp add: ROPE_N_BUCKETS_def)
  also have "\<dots> = rope_gather mk len n a bs s"
    using Suc \<open>m < n\<close> by (intro Suc.hyps(1)) auto
  finally show ?case .
qed simp

lemma rope_gather_stop:
  "i < 43 \<Longrightarrow> len < rope_bucket_len ! (i + 1) \<Longrightarrow> rope_gather mk len i a bs s = (Inr (a, i), bs, s)"
  by (subst rope_gather.simps) (simp add: ROPE_N_BUCKETS_def)

lemma rope_merge_up_store:
  "i < 44 \<Longrightarrow> bs ! i = JS_Null \<Longrightarrow> rope_merge_up mk i a bs s = (None, bs[i := a], s)"
  by (subst rope_merge_up.simps) (simp add: ROPE_N_BUCKETS_def)

lemma insert_one_unit:
  assumes "bs ! 0 = JS_Null" "length bs = 44"
  shows "rope_insert mk (Str8 (replicate 1 0x61)) bs s = (None, bs[0 := a_string 1], s)"
proof -
  have "rope_bucket_len ! (0 + 1) = 2" by (simp add: rope_bucket_len_def)
  with assms show ?thesis
    by (simp add: rope_insert_def rope_gather_stop rope_merge_up_store a_string_def)
qed

text \<open>The string for the next bucket meets the unit in bucket 0 and the rope in bucket \<open>j\<close>.\<close>

lemma insert_next_string:
  assumes j: "0 < j" "j < 42" and v: "v \<noteq> JS_Null" and n: "n = rope_bucket_len ! (j + 1)"
    and mk1: "mk v (a_string 1) s = (Inr r, s1)" and r: "r \<noteq> JS_Null"
  shows "rope_insert mk (Str8 (replicate n 0x61)) ((single_bucket j v)[0 := a_string 1]) s =
    (case mk r (a_string n) s1 of
       (Inl e, s2) \<Rightarrow> (Some e, replicate ROPE_N_BUCKETS JS_Null, s2)
     | (Inr w, s2) \<Rightarrow> (None, single_bucket (j + 1) w, s2))"
proof -
  let ?bs = "(single_bucket j v)[0 := a_string 1]" and ?e = "replicate ROPE_N_BUCKETS JS_Null"
  have t: "rope_bucket_len ! 1 \<le> n" "rope_bucket_len ! j \<le> n" "n < rope_bucket_len ! (j + 2)" "0 < n"
    using rope_table_le [of 1 "j + 1"] rope_table_le [of j "j + 1"] rope_table_less [of "j + 1" "j + 2"]
      rope_table_less [of 0 "j + 1"] j
    by (simp_all add: n)
  have b1: "?bs[0 := JS_Null] = single_bucket j v"
    using j by (intro nth_equalityI) (auto simp: single_bucket_def nth_list_update ROPE_N_BUCKETS_def)
  have b2: "(single_bucket j v)[j := JS_Null] = ?e"
    using j by (intro nth_equalityI) (auto simp: single_bucket_def nth_list_update ROPE_N_BUCKETS_def)
  have "rope_gather mk n 0 JS_Null ?bs s = rope_gather mk n 1 (a_string 1) (single_bucket j v) s"
    using t b1 by (subst rope_gather.simps) (simp add: ROPE_N_BUCKETS_def single_bucket_def)
  also have "\<dots> = rope_gather mk n j (a_string 1) (single_bucket j v) s"
    using j t by (intro rope_gather_skip) (auto simp: single_bucket_def ROPE_N_BUCKETS_def)
  also have "\<dots> = rope_gather mk n (j + 1) r ?e s1"
    using j t v mk1 b2 by (subst rope_gather.simps) (simp add: ROPE_N_BUCKETS_def single_bucket_def n)
  also have "\<dots> = (Inr (r, j + 1), ?e, s1)"
    using j t by (intro rope_gather_stop) simp_all
  finally have g: "rope_gather mk n 0 JS_Null ?bs s = (Inr (r, j + 1), ?e, s1)" .
  have store: "rope_merge_up mk (j + 1) w ?e s2 = (None, single_bucket (j + 1) w, s2)" for w s2
    using j by (simp add: rope_merge_up_store single_bucket_def ROPE_N_BUCKETS_def)
  show ?thesis
    using t(4) r
    by (cases "mk r (a_string n) s1"; cases "fst (mk r (a_string n) s1)")
      (simp_all add: rope_insert_def g store a_string_def [symmetric] del: One_nat_def)
qed

text \<open>The leaves of a rope are inserted one after the other.\<close>

fun rope_feed :: "rope_mk \<Rightarrow> JSString list \<Rightarrow> jsval list \<Rightarrow> answers \<Rightarrow> js_error option \<times> jsval list \<times> answers" where
  "rope_feed mk [] bs s = (None, bs, s)"
| "rope_feed mk (p # ps) bs s =
     (case rope_insert mk p bs s of
        (ret, bs, s) \<Rightarrow> if js_diverged ret then (ret, bs, s) else rope_feed mk ps bs s)"

lemma rope_feed_append:
  "rope_feed mk (ps @ qs) bs s =
     (case rope_feed mk ps bs s of
        (ret, bs, s) \<Rightarrow> if js_diverged ret then (ret, bs, s) else rope_feed mk qs bs s)"
  by (induction mk ps bs s rule: rope_feed.induct) (auto split: prod.splits simp: js_diverged_def)

lemma rope_feed_ret: "rope_feed mk ps bs s = (ret, r) \<Longrightarrow> ret = None \<or> js_diverged ret"
  by (induction mk ps bs s arbitrary: r rule: rope_feed.induct) (auto split: prod.splits if_splits)

lemma rope_rec_feed:
  assumes "rope_wf v"
  shows "(case js_rebalancee_string_rope_rec mk bs v s of (ret, r) \<Rightarrow> (if js_diverged ret then ret else None, r)) =
    rope_feed mk (rope_leaves v) bs s"
  using assms
proof (induction v arbitrary: bs s)
  case (JS_Str p)
  then show ?case by (auto split: prod.splits simp: js_diverged_def)
next
  case (JS_Rope len wide depth l r)
  have l: "rope_feed mk (rope_leaves l) bs s =
      (case js_rebalancee_string_rope_rec mk bs l s of (ret, r) \<Rightarrow> (if js_diverged ret then ret else None, r))"
    using JS_Rope by simp
  have r: "rope_feed mk (rope_leaves r) bs s =
      (case js_rebalancee_string_rope_rec mk bs r s of (ret, r) \<Rightarrow> (if js_diverged ret then ret else None, r))" for bs s
    using JS_Rope by simp
  show ?case
    by (auto simp: rope_feed_append l r js_diverged_def split: prod.splits)
qed auto

lemma rope_leaves_simps [simp]:
  "rope_leaves (flat_rope x y) = rope_leaves x @ rope_leaves y" "rope_leaves (a_string n) = [Str8 (replicate n 0x61)]"
  by (simp_all add: flat_rope_def a_string_def)

lemma climbing_rope_fed:
  "k \<le> 29 \<Longrightarrow> rope_feed (js_new_string_rope fuel) (rope_leaves (climbing_rope k)) (replicate ROPE_N_BUCKETS JS_Null) [] =
     (None, single_bucket (k + 1) (climbing_rope k), [])"
proof (induction k)
  case 0
  let ?mk = "js_new_string_rope fuel" and ?e = "replicate ROPE_N_BUCKETS JS_Null"
  have t: "rope_bucket_len ! 1 = 2" "rope_bucket_len ! (1 + 1) = 3" by (simp_all add: rope_bucket_len_def)
  have one: "rope_insert ?mk (Str8 (replicate 1 0x61)) ?e [] = (None, ?e[0 := a_string 1], [])"
    by (rule insert_one_unit) (simp_all add: ROPE_N_BUCKETS_def)
  have e: "?e[0 := JS_Null] = ?e"
    by (intro nth_equalityI) (auto simp: nth_list_update)
  have "rope_gather ?mk 2 0 JS_Null (?e[0 := a_string 1]) [] = rope_gather ?mk 2 1 (a_string 1) ?e []"
    using t by (subst rope_gather.simps) (simp add: ROPE_N_BUCKETS_def e [unfolded ROPE_N_BUCKETS_def])
  also have "\<dots> = (Inr (a_string 1, 1), ?e, [])"
    using t by (intro rope_gather_stop) simp_all
  finally have g: "rope_gather ?mk 2 0 JS_Null (?e[0 := a_string 1]) [] = (Inr (a_string 1, 1), ?e, [])" .
  have mk: "?mk (a_string 1) (a_string 2) [] = (Inr (climbing_rope 0), [])"
    unfolding climbing_rope.simps
    by (intro js_new_string_rope_flat) (simp_all add: JS_STRING_LEN_MAX_def JS_STRING_ROPE_MAX_DEPTH_def)
  have "rope_insert ?mk (Str8 (replicate 2 0x61)) (?e[0 := a_string 1]) [] = (None, single_bucket 1 (climbing_rope 0), [])"
    using g mk by (simp add: rope_insert_def a_string_def [symmetric] rope_merge_up_store ROPE_N_BUCKETS_def
        single_bucket_def del: One_nat_def climbing_rope.simps)
  with one show ?case by (simp add: js_diverged_def del: One_nat_def)
next
  case (Suc k)
  let ?mk = "js_new_string_rope fuel" and ?r = "flat_rope (climbing_rope k) (a_string 1)"
  have total: "string_rope_get_len (climbing_rope (Suc k)) \<le> 9227493"
    using Suc.prems by (intro climbing_rope_total) simp
  have one: "rope_insert ?mk (Str8 (replicate 1 0x61)) (single_bucket (k + 1) (climbing_rope k)) [] =
      (None, (single_bucket (k + 1) (climbing_rope k))[0 := a_string 1], [])"
    by (rule insert_one_unit) (simp_all add: single_bucket_def ROPE_N_BUCKETS_def)
  have m1: "?mk (climbing_rope k) (a_string 1) [] = (Inr ?r, [])"
    using total Suc.prems
    by (intro js_new_string_rope_flat) (simp_all add: JS_STRING_LEN_MAX_def JS_STRING_ROPE_MAX_DEPTH_def)
  have m2: "?mk ?r (a_string (rope_bucket_len ! (k + 2))) [] = (Inr (climbing_rope (Suc k)), [])"
    unfolding climbing_rope.simps using total Suc.prems
    by (intro js_new_string_rope_flat) (simp_all add: JS_STRING_LEN_MAX_def JS_STRING_ROPE_MAX_DEPTH_def)
  have "rope_insert ?mk (Str8 (replicate (rope_bucket_len ! (k + 2)) 0x61)) ((single_bucket (k + 1) (climbing_rope k))[0 := a_string 1]) [] =
      (None, single_bucket (Suc (k + 1)) (climbing_rope (Suc k)), [])"
    using insert_next_string [of "k + 1" "climbing_rope k" "rope_bucket_len ! (k + 2)" ?mk "[]" ?r "[]"] Suc.prems m1 m2 by simp
  with Suc one show ?case
    by (simp add: rope_feed_append js_diverged_def del: One_nat_def)
qed

text \<open>The two operands: the rope of depth 60 and the string for bucket 31.\<close>

definition deep_left :: jsval where
  "deep_left = flat_rope (climbing_rope 29) (a_string 1)"

definition deep_right :: jsval where
  "deep_right = a_string (rope_bucket_len ! 31)"

lemma climbing_rope_wf: "k \<le> 30 \<Longrightarrow> rope_wf (climbing_rope k)"
proof (induction k)
  case (Suc k)
  then show ?case
    using climbing_rope_total [of "Suc k"] by (auto simp: a_string_def JS_STRING_LEN_MAX_def)
qed (simp add: a_string_def JS_STRING_LEN_MAX_def)

lemma deep_operands: "flat_rope deep_left deep_right = climbing_rope 30"
proof -
  have "climbing_rope (Suc 29) = flat_rope deep_left (a_string (rope_bucket_len ! (29 + 2)))"
    unfolding deep_left_def by (rule climbing_rope.simps(2))
  then show ?thesis by (simp add: deep_right_def)
qed

lemma deep_operands_call:
  "js_new_string_rope fuel deep_left deep_right [] =
     (case fuel of
        0 \<Rightarrow> (Inl Nontermination, [])
      | Suc fuel \<Rightarrow> js_rebalancee_string_rope (js_new_string_rope fuel) (climbing_rope 30) [])"
proof -
  have d: "string_depth deep_left = 60" "string_depth deep_right = 0"
    by (simp_all add: deep_left_def deep_right_def)
  have l: "string_rope_get_len deep_left + string_rope_get_len deep_right \<le> JS_STRING_LEN_MAX"
    using climbing_rope_30 unfolding deep_operands [symmetric] by (simp add: JS_STRING_LEN_MAX_def)
  show ?thesis
    using l by (cases fuel)
      (simp_all add: js_new_string_rope.simps [of 0] js_new_string_rope.simps [of "Suc _"] Let_def d
        js_bind_def js_malloc_block_def js_throw_def JS_STRING_ROPE_MAX_DEPTH_def deep_operands [symmetric] flat_rope_def)
qed

lemma deep_operands_diverge: "js_new_string_rope fuel deep_left deep_right [] = (Inl Nontermination, [])"
proof (induction fuel)
  case 0
  show ?case unfolding deep_operands_call by simp
next
  case (Suc fuel)
  let ?mk = "js_new_string_rope fuel" and ?e = "replicate ROPE_N_BUCKETS JS_Null"
  let ?n = "rope_bucket_len ! 31"
  have lt: "Suc 29 = (30 :: nat)" by simp
  have leaves: "rope_leaves (climbing_rope 30) =
      rope_leaves (climbing_rope 29) @ [Str8 (replicate 1 0x61), Str8 (replicate ?n 0x61)]"
    by (simp add: deep_operands [symmetric] deep_left_def deep_right_def)
  have one: "rope_insert ?mk (Str8 (replicate 1 0x61)) (single_bucket 30 (climbing_rope 29)) [] =
      (None, (single_bucket 30 (climbing_rope 29))[0 := a_string 1], [])"
    by (rule insert_one_unit) (simp_all add: single_bucket_def ROPE_N_BUCKETS_def)
  have m1: "?mk (climbing_rope 29) (a_string 1) [] = (Inr deep_left, [])"
    unfolding deep_left_def using climbing_rope_total [of 29]
    by (intro js_new_string_rope_flat) (simp_all add: JS_STRING_LEN_MAX_def JS_STRING_ROPE_MAX_DEPTH_def)
  have "rope_insert ?mk (Str8 (replicate ?n 0x61)) ((single_bucket 30 (climbing_rope 29))[0 := a_string 1]) [] =
      (Some Nontermination, ?e, [])"
    using insert_next_string [of 30 "climbing_rope 29" ?n ?mk "[]" deep_left "[]"] m1
      Suc.IH [unfolded deep_right_def]
    by (simp add: deep_left_def)
  with climbing_rope_fed [of 29 fuel] one
  have feed: "rope_feed ?mk (rope_leaves (climbing_rope 30)) ?e [] = (Some Nontermination, ?e, [])"
    by (simp add: leaves rope_feed_append js_diverged_def lt del: One_nat_def)
  have "js_rebalancee_string_rope_rec ?mk ?e (climbing_rope 30) [] = (Some Nontermination, ?e, [])"
    using rope_rec_feed [OF climbing_rope_wf [of 30], of ?mk ?e "[]"] feed
    by (auto split: prod.splits if_splits)
  then show ?case
    unfolding deep_operands_call by (simp add: js_rebalancee_string_rope_def)
qed

section \<open>Properties\<close>

text \<open>C16: ropes are read, hashed and compared without flattening exactly like the sequences of code
  units that they stand for: the length, indexing, the hash of the equal flat string, equality, and the
  lexicographic order by code units. The iterators never exceed their stacks.\<close>

theorem rope_access_correct:
  assumes "rope_ok v" "rope_ok w"
  shows "string_rope_get_len v = length (rope_units v) \<and>
    map (string_rope_get v) [0..<string_rope_get_len v] = map uint (rope_units v) \<and>
    hash_string_rope v h = hash_string (Str16 (rope_units v)) h \<and>
    (\<exists>r. js_string_rope_compare v w True = Inr r \<and> (r = 0 \<longleftrightarrow> rope_units v = rope_units w)) \<and>
    (\<exists>r. js_string_rope_compare v w False = Inr r \<and> (r = 0 \<longleftrightarrow> rope_units v = rope_units w) \<and>
           (r < 0 \<longleftrightarrow> ord_class.lexordp (rope_units v) (rope_units w)))"
proof (intro conjI)
  have wf: "rope_wf v" using assms(1) by (simp add: rope_ok_def)
  show l: "string_rope_get_len v = length (rope_units v)" by (rule rope_ok_len [OF assms(1)])
  show "map (string_rope_get v) [0..<string_rope_get_len v] = map uint (rope_units v)"
    using wf by (auto simp: l string_rope_get_units intro!: nth_equalityI)
  show "hash_string_rope v h = hash_string (Str16 (rope_units v)) h"
    using wf by (simp add: hash_string_rope_units hash_string_units)
  show "\<exists>r. js_string_rope_compare v w True = Inr r \<and> (r = 0 \<longleftrightarrow> rope_units v = rope_units w)"
    using js_string_rope_compare_spec [OF assms, of True] by (auto simp: unit_cmp_order)
  show "\<exists>r. js_string_rope_compare v w False = Inr r \<and> (r = 0 \<longleftrightarrow> rope_units v = rope_units w) \<and>
           (r < 0 \<longleftrightarrow> ord_class.lexordp (rope_units v) (rope_units w))"
    using js_string_rope_compare_spec [OF assms, of False] by (auto simp: unit_cmp_order)
qed

theorem rope_access_witness:
  "\<exists>r. js_string_rope_compare (JS_Rope 3 True 1 (JS_Str (Str8 [97])) (JS_Str (Str16 [98, 0x20AC])))
         (JS_Str (Str16 [97, 98, 0x20AC])) True = Inr r \<and> r = 0"
  using rope_access_correct [of "JS_Rope 3 True 1 (JS_Str (Str8 [97])) (JS_Str (Str16 [98, 0x20AC]))"
      "JS_Str (Str16 [97, 98, 0x20AC])"]
  by (simp add: rope_ok_def JS_STRING_LEN_MAX_def JS_STRING_ROPE_MAX_DEPTH_def)



text \<open>C37: rebalancing does not end on every rope. For a well-formed rope of depth 60 and a string of
  together 9227493 code units, far below the limit on the length of a string, inserting the last
  leaf rebuilds the very rope whose rebalancing is in progress: no nesting depth is enough.\<close>

theorem js_new_string_rope_diverges:
  "rope_ok deep_left \<and> rope_ok deep_right \<and>
   length (rope_units deep_left @ rope_units deep_right) = 9227493 \<and>
   (\<forall>fuel. fst (js_new_string_rope fuel deep_left deep_right []) = Inl Nontermination)"
proof (intro conjI allI)
  have w: "rope_wf (flat_rope deep_left deep_right)" unfolding deep_operands by (rule climbing_rope_wf) simp
  then show l: "rope_ok deep_left" and r: "rope_ok deep_right"
    by (simp_all add: rope_ok_def JS_STRING_ROPE_MAX_DEPTH_def) (simp_all add: deep_left_def deep_right_def)
  show "length (rope_units deep_left @ rope_units deep_right) = 9227493"
    using rope_wf_len [OF w] climbing_rope_30 unfolding deep_operands [symmetric] by simp
  show "fst (js_new_string_rope fuel deep_left deep_right []) = Inl Nontermination" for fuel
    by (simp add: deep_operands_diverge)
qed


end
