(* ===== verification/JSEquality.thy ===== *)
theory JSEquality
  imports RopeTheorems BigIntDouble BigIntShift
begin

text \<open>
  Equality of values (\<open>js_strict_eq2\<close> and its callers in \<open>quickjs.c\<close>) and the hash of the keys of maps.
\<close>

section \<open>Doubles\<close>

text \<open>The tests of C on doubles, on their bit patterns.\<close>

definition JS_FLOAT64_NAN :: float64 where "JS_FLOAT64_NAN = 0x7FF8000000000000"

definition f64_isnan :: "float64 \<Rightarrow> bool" where
  "f64_isnan b \<longleftrightarrow> f64_exp b = 2047 \<and> f64_man b \<noteq> 0"

definition f64_eq :: "float64 \<Rightarrow> float64 \<Rightarrow> bool" where
  "f64_eq a b \<longleftrightarrow> \<not> f64_isnan a \<and> \<not> f64_isnan b \<and>
     (if f64_finite a \<and> f64_finite b then f64_scaled a = f64_scaled b else a = b)"

section \<open>The code\<close>

datatype JSStrictEqModeEnum = JS_EQ_STRICT | JS_EQ_SAME_VALUE | JS_EQ_SAME_VALUE_ZERO

text \<open>The modes are ordered as the enumeration lists them.\<close>

instantiation JSStrictEqModeEnum :: linorder
begin

definition eq_mode_rank :: "JSStrictEqModeEnum \<Rightarrow> nat" where
  "eq_mode_rank m = (case m of JS_EQ_STRICT \<Rightarrow> 0 | JS_EQ_SAME_VALUE \<Rightarrow> 1 | JS_EQ_SAME_VALUE_ZERO \<Rightarrow> 2)"

definition less_eq_JSStrictEqModeEnum :: "JSStrictEqModeEnum \<Rightarrow> JSStrictEqModeEnum \<Rightarrow> bool" where
  "m \<le> m' \<longleftrightarrow> eq_mode_rank m \<le> eq_mode_rank m'"

definition less_JSStrictEqModeEnum :: "JSStrictEqModeEnum \<Rightarrow> JSStrictEqModeEnum \<Rightarrow> bool" where
  "m < m' \<longleftrightarrow> eq_mode_rank m < eq_mode_rank m'"

instance
  by standard
    (auto simp: less_eq_JSStrictEqModeEnum_def less_JSStrictEqModeEnum_def eq_mode_rank_def split: JSStrictEqModeEnum.splits)

end

text \<open>The end of the comparison of two numbers, from \<open>number_test\<close> on.\<close>

definition js_number_eq :: "JSStrictEqModeEnum \<Rightarrow> float64 \<Rightarrow> float64 \<Rightarrow> bool" where
  "js_number_eq eq_mode d1 d2 =
     (if eq_mode \<ge> JS_EQ_SAME_VALUE
      then if f64_isnan d1 \<or> f64_isnan d2 then f64_isnan d1 = f64_isnan d2
           else if eq_mode = JS_EQ_SAME_VALUE_ZERO then f64_eq d1 d2
           else d1 = d2
      else f64_eq d1 d2)"

text \<open>The operand of a comparison of BigInts: a short one is put on the stack.\<close>

definition bigint_operand :: "jsval \<Rightarrow> JSBigInt option" where
  "bigint_operand v =
     (case v of
        JS_ShortBigInt x \<Rightarrow> Some (js_bigint_set_si x)
      | JS_BigInt p \<Rightarrow> Some p
      | _ \<Rightarrow> None)"

text \<open>The operand of a comparison of numbers as a double.\<close>

definition number_operand :: "jsval \<Rightarrow> float64 option" where
  "number_operand v =
     (case v of
        JS_Int x \<Rightarrow> Some (int_to_float64 (sint x))
      | JS_Float64 d \<Rightarrow> Some d
      | _ \<Rightarrow> None)"

definition js_strict_eq2 :: "jsval \<Rightarrow> jsval \<Rightarrow> JSStrictEqModeEnum \<Rightarrow> js_error + bool" where
  "js_strict_eq2 op1 op2 eq_mode =
     (let numbers = (case (number_operand op1, number_operand op2) of
            (Some d1, Some d2) \<Rightarrow> Inr (js_number_eq eq_mode d1 d2)
          | _ \<Rightarrow> Inr False);
          strings = (if \<not> tag_is_string op2 then Inr False
            else
              (case (op1, op2) of
                 (JS_Str p1, JS_Str p2) \<Rightarrow> Inr (js_string_eq p1 p2)
               | _ \<Rightarrow>
                 (case js_string_rope_compare op1 op2 True of
                    Inl e \<Rightarrow> Inl e
                  | Inr res \<Rightarrow> Inr (res = 0))));
          bigints = (case (bigint_operand op1, bigint_operand op2) of
            (Some p1, Some p2) \<Rightarrow> Inr (js_bigint_cmp p1 p2 = 0)
          | _ \<Rightarrow> Inr False)
      in case op1 of
           JS_Bool b1 \<Rightarrow> Inr (case op2 of JS_Bool b2 \<Rightarrow> b1 = b2 | _ \<Rightarrow> False)
         | JS_Null \<Rightarrow> Inr (op2 = JS_Null)
         | JS_Undefined \<Rightarrow> Inr (op2 = JS_Undefined)
         | JS_Str p \<Rightarrow> strings
         | JS_Rope len wide depth left right \<Rightarrow> strings
         | JS_Symbol p1 \<Rightarrow> Inr (case op2 of JS_Symbol p2 \<Rightarrow> p1 = p2 | _ \<Rightarrow> False)
         | JS_Object p1 \<Rightarrow> Inr (case op2 of JS_Object p2 \<Rightarrow> p1 = p2 | _ \<Rightarrow> False)
         | JS_Int x \<Rightarrow> numbers
         | JS_Float64 d \<Rightarrow> numbers
         | JS_ShortBigInt x \<Rightarrow> bigints
         | JS_BigInt p \<Rightarrow> bigints
         | JS_Exception \<Rightarrow> Inr False)"

definition js_strict_eq :: "jsval \<Rightarrow> jsval \<Rightarrow> js_error + bool" where
  "js_strict_eq op1 op2 = js_strict_eq2 op1 op2 JS_EQ_STRICT"

definition js_same_value :: "jsval \<Rightarrow> jsval \<Rightarrow> js_error + bool" where
  "js_same_value op1 op2 = js_strict_eq2 op1 op2 JS_EQ_SAME_VALUE"

definition js_same_value_zero :: "jsval \<Rightarrow> jsval \<Rightarrow> js_error + bool" where
  "js_same_value_zero op1 op2 = js_strict_eq2 op1 op2 JS_EQ_SAME_VALUE_ZERO"

definition map_normalize_key :: "jsval \<Rightarrow> jsval" where
  "map_normalize_key key =
     (case key of
        JS_Float64 d \<Rightarrow> if f64_eq d 0 then JS_Int 0 else key
      | _ \<Rightarrow> key)"

definition HASH_MUL32 :: u32 where "HASH_MUL32 = 0x61C88647"
definition HASH_MUL64 :: u64 where "HASH_MUL64 = 0x61C8864680B583EB"

definition map_hash32 :: "u32 \<Rightarrow> nat \<Rightarrow> u32" where
  "map_hash32 a hash_bits = drop_bit (32 - hash_bits) (a * HASH_MUL32)"

definition map_hash64 :: "u64 \<Rightarrow> nat \<Rightarrow> u32" where
  "map_hash64 a hash_bits = ucast (drop_bit (64 - hash_bits) (a * HASH_MUL64))"

definition map_hash_pointer :: "u64 \<Rightarrow> nat \<Rightarrow> u32" where
  "map_hash_pointer a hash_bits = map_hash64 a hash_bits"

text \<open>The tags that the hash mixes in, as 32-bit words.\<close>

definition JS_TAG_BIG_INT :: u32 where "JS_TAG_BIG_INT = 0xFFFFFFF7"
definition JS_TAG_SYMBOL :: u32 where "JS_TAG_SYMBOL = 0xFFFFFFF8"
definition JS_TAG_STRING :: u32 where "JS_TAG_STRING = 0xFFFFFFF9"
definition JS_TAG_OBJECT :: u32 where "JS_TAG_OBJECT = 0xFFFFFFFF"
definition JS_TAG_BOOL :: u32 where "JS_TAG_BOOL = 1"
definition JS_TAG_FLOAT64 :: u64 where "JS_TAG_FLOAT64 = 8"

fun hash_bigint_loop :: "limb list \<Rightarrow> nat \<Rightarrow> u32 \<Rightarrow> u32" where
  "hash_bigint_loop tab 0 h = h"
| "hash_bigint_loop tab (Suc i) h = hash_bigint_loop tab i (h * 263 + ucast (tab ! i))"

definition hash_bigint :: "JSBigInt \<Rightarrow> nat \<Rightarrow> u32" where
  "hash_bigint p hash_bits = map_hash32 (hash_bigint_loop p (length p) 1 XOR JS_TAG_BIG_INT) hash_bits"

definition hash_float64 :: "float64 \<Rightarrow> nat \<Rightarrow> u32" where
  "hash_float64 d hash_bits = map_hash64 (d XOR JS_TAG_FLOAT64) hash_bits"

definition map_hash_key :: "jsval \<Rightarrow> nat \<Rightarrow> u32" where
  "map_hash_key key hash_bits =
     (case key of
        JS_Bool b \<Rightarrow> map_hash32 (of_bool b XOR JS_TAG_BOOL) hash_bits
      | JS_Str p \<Rightarrow> map_hash32 (hash_string p 0 XOR JS_TAG_STRING) hash_bits
      | JS_Rope len wide depth left right \<Rightarrow> map_hash32 (hash_string_rope key 0 XOR JS_TAG_STRING) hash_bits
      | JS_Object p \<Rightarrow> map_hash_pointer (word_of_nat p XOR ucast JS_TAG_OBJECT) hash_bits
      | JS_Symbol p \<Rightarrow> map_hash_pointer (word_of_nat p XOR ucast JS_TAG_SYMBOL) hash_bits
      | JS_Int x \<Rightarrow> hash_float64 (int_to_float64 (sint x)) hash_bits
      | JS_Float64 d \<Rightarrow> hash_float64 (if f64_isnan d then JS_FLOAT64_NAN else d) hash_bits
      | JS_ShortBigInt x \<Rightarrow> hash_bigint (js_bigint_set_si x) hash_bits
      | JS_BigInt p \<Rightarrow> hash_bigint p hash_bits
      | _ \<Rightarrow> 0)"

section \<open>What the comparison of two values compares\<close>

text \<open>Values that the engine builds.\<close>

fun jsval_ok :: "jsval \<Rightarrow> bool" where
  "jsval_ok JS_Exception \<longleftrightarrow> False"
| "jsval_ok (JS_Str p) \<longleftrightarrow> rope_ok (JS_Str p)"
| "jsval_ok (JS_Rope len wide depth l r) \<longleftrightarrow> rope_ok (JS_Rope len wide depth l r)"
| "jsval_ok (JS_BigInt p) \<longleftrightarrow> big_wf p"
| "jsval_ok _ \<longleftrightarrow> True"

datatype js_key =
    K_Bool bool
  | K_Null
  | K_Undefined
  | K_String "u16 list"
  | K_Symbol nat
  | K_Object nat
  | K_Number float64
  | K_BigInt int

definition canon_float64 :: "float64 \<Rightarrow> float64" where
  "canon_float64 d = (if f64_isnan d then JS_FLOAT64_NAN else if f64_mag d = 0 then 0 else d)"

fun key_of :: "jsval \<Rightarrow> js_key" where
  "key_of (JS_Bool b) = K_Bool b"
| "key_of JS_Null = K_Null"
| "key_of (JS_Str p) = K_String (units p)"
| "key_of (JS_Rope len wide depth l r) = K_String (rope_units l @ rope_units r)"
| "key_of (JS_Symbol p) = K_Symbol p"
| "key_of (JS_Object p) = K_Object p"
| "key_of (JS_Int x) = K_Number (int_to_float64 (sint x))"
| "key_of (JS_Float64 d) = K_Number (canon_float64 d)"
| "key_of (JS_ShortBigInt x) = K_BigInt (sint x)"
| "key_of (JS_BigInt p) = K_BigInt (big_val p)"
| "key_of _ = K_Undefined"


lemma unat_f64: "unat b = (of_bool (f64_neg b) * 2 ^ 11 + f64_exp b) * 2 ^ 52 + f64_man b"
proof -
  let ?q = "unat b div 2 ^ 52"
  have lt: "unat b < 2 ^ 64" using unat_less_LB [of b] by (simp add: LB_def)
  then have q: "?q div 2 ^ 11 < 2" by (simp add: div_mult2_eq [symmetric] less_mult_imp_div_less)
  have "f64_neg b \<longleftrightarrow> 2 ^ 63 \<le> unat b" by (simp add: f64_neg_def LB_def)
  also have "\<dots> \<longleftrightarrow> 1 \<le> unat b div 2 ^ 63" by (simp add: div_greater_zero_iff Suc_le_eq)
  also have "unat b div 2 ^ 63 = ?q div 2 ^ 11" by (simp add: div_mult2_eq [symmetric])
  finally have "?q div 2 ^ 11 = of_bool (f64_neg b)" using q by (cases "f64_neg b") auto
  with div_mult_mod_eq [of ?q "2 ^ 11"] have "?q = of_bool (f64_neg b) * 2 ^ 11 + f64_exp b"
    unfolding f64_exp_def by (simp only:)
  with div_mult_mod_eq [of "unat b" "2 ^ 52"] show ?thesis unfolding f64_man_def by (simp only:)
qed

lemma f64_mag_inj:
  assumes "f64_mag a = f64_mag b"
  shows "f64_exp a = f64_exp b \<and> f64_man a = f64_man b"
proof -
  have sub: "f64_mag x < 2 ^ 52" if "f64_exp x = 0" for x
    using that f64_man_less [of x] by (simp add: f64_mag_def)
  have nor: "2 ^ 52 \<le> f64_mag x" if "f64_exp x \<noteq> 0" for x
  proof -
    have "(2::nat) ^ 52 \<le> 2 ^ (51 + f64_exp x)" using that by (intro power_increasing) auto
    with f64_mag_bounds(1) [OF that] show ?thesis by linarith
  qed
  have z: "f64_exp a = 0 \<longleftrightarrow> f64_exp b = 0"
    using sub [of a] sub [of b] nor [of a] nor [of b] assms by linarith
  show ?thesis
  proof (cases "f64_exp a = 0")
    case True
    with z assms show ?thesis by (simp add: f64_mag_def)
  next
    case False
    have lt: "(2::nat) ^ (51 + f64_exp x) < 2 ^ (52 + f64_exp y)" if "f64_mag x = f64_mag y" "f64_exp x \<noteq> 0" "f64_exp y \<noteq> 0" for x y
      using f64_mag_bounds(1) [OF that(2)] f64_mag_bounds(2) [OF that(3)] that(1) by linarith
    have "51 + f64_exp a < 52 + f64_exp b" "51 + f64_exp b < 52 + f64_exp a"
      using lt [OF assms False False [unfolded z]] lt [OF assms [symmetric] False [unfolded z] False] by simp_all
    then have "f64_exp a = f64_exp b" by linarith
    with assms False show ?thesis by (simp add: f64_mag_def)
  qed
qed

lemma f64_eqI: "f64_mag a = f64_mag b \<Longrightarrow> f64_neg a = f64_neg b \<Longrightarrow> a = b"
  using f64_mag_inj [of a b] unat_f64 [of a] unat_f64 [of b] by (simp add: word_unat_eq_iff)

lemma f64_scaled_eq: "f64_scaled a = f64_scaled b \<longleftrightarrow> (f64_mag a = 0 \<and> f64_mag b = 0) \<or> a = b"
  by (auto simp: f64_scaled_def intro: f64_eqI split: if_splits)

lemma f64_zero [simp]: "f64_mag 0 = 0" "\<not> f64_isnan 0" "f64_finite 0"
  by (simp_all add: f64_mag_def f64_exp_def f64_man_def f64_isnan_def f64_finite_def)

lemma f64_mag_0_finite: "f64_mag b = 0 \<Longrightarrow> f64_finite b \<and> \<not> f64_isnan b"
  by (simp add: f64_mag_0 f64_finite_def f64_isnan_def)

lemma f64_eq_canon: "\<not> f64_isnan a \<Longrightarrow> \<not> f64_isnan b \<Longrightarrow> f64_eq a b \<longleftrightarrow> canon_float64 a = canon_float64 b"
  using f64_mag_0_finite [of a] f64_mag_0_finite [of b] by (auto simp: f64_eq_def canon_float64_def f64_scaled_eq)

lemma f64_isnan_NAN: "f64_isnan JS_FLOAT64_NAN"
  by (simp add: JS_FLOAT64_NAN_def f64_isnan_def f64_exp_def f64_man_def)

lemma f64_isnan_canon: "f64_isnan (canon_float64 x) \<longleftrightarrow> f64_isnan x"
  using f64_isnan_NAN by (simp add: canon_float64_def)

lemma canon_float64_nan: "f64_isnan a \<Longrightarrow> f64_isnan b \<Longrightarrow> canon_float64 a = canon_float64 b"
  by (simp add: canon_float64_def)

lemma eq_mode_order [simp]:
  "\<not> JS_EQ_SAME_VALUE \<le> JS_EQ_STRICT" "JS_EQ_SAME_VALUE \<le> JS_EQ_SAME_VALUE" "JS_EQ_SAME_VALUE \<le> JS_EQ_SAME_VALUE_ZERO"
  by (simp_all add: less_eq_JSStrictEqModeEnum_def eq_mode_rank_def)

lemma js_number_eq_canon:
  "js_number_eq m a b \<longleftrightarrow> canon_float64 a = canon_float64 b \<and>
     (case m of
        JS_EQ_STRICT \<Rightarrow> \<not> f64_isnan a
      | JS_EQ_SAME_VALUE \<Rightarrow> a = b \<or> f64_isnan a
      | JS_EQ_SAME_VALUE_ZERO \<Rightarrow> True)"
proof (cases "f64_isnan a \<or> f64_isnan b")
  case True
  have "canon_float64 a = canon_float64 b \<longleftrightarrow> f64_isnan a \<and> f64_isnan b"
    using True f64_isnan_canon [of a] f64_isnan_canon [of b] canon_float64_nan [of a b] by metis
  with True show ?thesis by (cases m) (auto simp: js_number_eq_def f64_eq_def)
next
  case False
  then show ?thesis by (cases m) (auto simp: js_number_eq_def f64_eq_canon)
qed

lemma int_to_float64_canon: "canon_float64 (int_to_float64 (sint (x :: 32 word))) = int_to_float64 (sint x)"
proof (cases "x = 0")
  case True
  then show ?thesis by (simp add: int_to_float64_def canon_float64_def)
next
  case False
  have "\<bar>sint x\<bar> \<le> 2 ^ 53" using sint_range_size [of x] by (simp add: word_size abs_le_iff)
  note e = int_to_float64_exact [OF this]
  have "f64_scaled (int_to_float64 (sint x)) \<noteq> 0" unfolding e(1) using False by (simp add: signed_eq_0_iff)
  then have "f64_mag (int_to_float64 (sint x)) \<noteq> 0" by (rule contrapos_nn) (simp add: f64_scaled_def)
  with e(2) show ?thesis by (simp add: canon_float64_def f64_isnan_def)
qed


section \<open>Equality and hash\<close>

lemma bigint_operand_key:
  "bigint_operand v = Some p \<Longrightarrow> jsval_ok v \<Longrightarrow> big_wf p \<and> key_of v = K_BigInt (big_val p)"
  by (cases v) (auto simp: bigint_operand_def js_bigint_set_si_def big_val_single)

lemma number_operand_key: "number_operand v = Some d \<Longrightarrow> key_of v = K_Number (canon_float64 d)"
  by (cases v) (auto simp: number_operand_def int_to_float64_canon)

lemma string_key: "jsval_ok v \<Longrightarrow> tag_is_string v \<Longrightarrow> key_of v = K_String (rope_units v) \<and> rope_ok v"
  by (cases v) auto

text \<open>What the modes demand of two numbers with the same key.\<close>

definition number_mode_ok :: "JSStrictEqModeEnum \<Rightarrow> jsval \<Rightarrow> jsval \<Rightarrow> bool" where
  "number_mode_ok m a b =
     (case (number_operand a, number_operand b) of
        (Some d1, Some d2) \<Rightarrow>
          (case m of
             JS_EQ_STRICT \<Rightarrow> \<not> f64_isnan d1
           | JS_EQ_SAME_VALUE \<Rightarrow> d1 = d2 \<or> f64_isnan d1
           | JS_EQ_SAME_VALUE_ZERO \<Rightarrow> True)
      | _ \<Rightarrow> True)"

lemma js_strict_eq2_key:
  assumes "jsval_ok a" "jsval_ok b"
  shows "js_strict_eq2 a b m = Inr (key_of a = key_of b \<and> number_mode_ok m a b)"
proof -
  have big: "js_bigint_cmp p q = 0 \<longleftrightarrow> big_val p = big_val q" if "big_wf p" "big_wf q" for p q
    using js_bigint_cmp_value [OF that] by (simp add: sgn_0_0)
  have num: "js_strict_eq2 a b m = Inr (key_of a = key_of b \<and> number_mode_ok m a b)" if "number_operand a = Some d" for d
  proof -
    from that have a: "key_of a = K_Number (canon_float64 d)" by (rule number_operand_key)
    have e: "js_strict_eq2 a b m = (case number_operand b of Some d2 \<Rightarrow> Inr (js_number_eq m d d2) | None \<Rightarrow> Inr False)"
      using that by (cases a) (auto simp: js_strict_eq2_def number_mode_ok_def number_operand_def split: option.splits)
    show ?thesis
    proof (cases "number_operand b")
      case None
      then show ?thesis unfolding e a by (cases b) (auto simp: number_operand_def)
    next
      case (Some d2)
      then show ?thesis unfolding e a number_operand_key [OF Some] by (simp add: js_number_eq_canon number_mode_ok_def that)
    qed
  qed
  have bigint: "js_strict_eq2 a b m = Inr (key_of a = key_of b \<and> number_mode_ok m a b)" if "bigint_operand a = Some p" for p
  proof -
    from bigint_operand_key [OF that assms(1)] have a: "big_wf p" "key_of a = K_BigInt (big_val p)" by auto
    have e: "js_strict_eq2 a b m = (case bigint_operand b of Some q \<Rightarrow> Inr (js_bigint_cmp p q = 0) | None \<Rightarrow> Inr False)"
      using that by (cases a) (auto simp: js_strict_eq2_def number_mode_ok_def bigint_operand_def split: option.splits)
    show ?thesis
    proof (cases "bigint_operand b")
      case None
      then show ?thesis unfolding e a by (cases b) (auto simp: bigint_operand_def)
    next
      case (Some q)
      from bigint_operand_key [OF Some assms(2)] a show ?thesis unfolding e Some using that by (cases a) (auto simp: big bigint_operand_def number_mode_ok_def number_operand_def)
    qed
  qed
  have str: "js_strict_eq2 a b m = Inr (key_of a = key_of b \<and> number_mode_ok m a b)" if "tag_is_string a"
  proof (cases "tag_is_string b")
    case False
    with that show ?thesis
      by (cases a) (auto simp: js_strict_eq2_def, (cases b; auto)+)
  next
    case True
    note k = string_key [OF assms(1) that] string_key [OF assms(2) True]
    have r: "js_string_rope_compare a b True = Inr (if length (rope_units a) \<noteq> length (rope_units b) then 1
         else unit_cmp (rope_units a) (rope_units b))"
      using js_string_rope_compare_spec [of a b True] k by simp
    have "(case js_string_rope_compare a b True of Inl e \<Rightarrow> Inl e | Inr res \<Rightarrow> Inr (res = 0)) =
        (Inr (key_of a = key_of b) :: js_error + bool)"
      unfolding r using k by (auto simp: unit_cmp_order)
    moreover have "number_mode_ok m a b" using that by (cases a) (auto simp: number_mode_ok_def number_operand_def)
    moreover have "js_strict_eq2 a b m =
        (case (a, b) of (JS_Str p1, JS_Str p2) \<Rightarrow> Inr (js_string_eq p1 p2)
         | _ \<Rightarrow> (case js_string_rope_compare a b True of Inl e \<Rightarrow> Inl e | Inr res \<Rightarrow> Inr (res = 0)))"
      using that True by (cases a) (auto simp: js_strict_eq2_def number_mode_ok_def)
    ultimately show ?thesis
      by (cases a; cases b) (auto simp: js_string_eq_units)
  qed
  show ?thesis
  proof (cases a)
    case (JS_Int x)
    then show ?thesis by (intro num) (simp add: number_operand_def)
  next
    case (JS_Float64 x)
    then show ?thesis by (intro num) (simp add: number_operand_def)
  next
    case (JS_ShortBigInt x)
    then show ?thesis by (intro bigint) (simp add: bigint_operand_def)
  next
    case (JS_BigInt x)
    then show ?thesis by (intro bigint) (simp add: bigint_operand_def)
  next
    case (JS_Str x)
    then show ?thesis by (intro str) simp
  next
    case (JS_Rope x1 x2 x3 x4 x5)
    then show ?thesis by (intro str) simp
  qed (use assms in \<open>cases b; simp add: js_strict_eq2_def number_mode_ok_def number_operand_def\<close>)+
qed

lemma js_same_value_zero_key:
  "jsval_ok a \<Longrightarrow> jsval_ok b \<Longrightarrow> js_same_value_zero a b = Inr (key_of a = key_of b)"
  unfolding js_same_value_zero_def
  by (simp add: js_strict_eq2_key number_mode_ok_def split: option.splits)

text \<open>Keys after normalization: a double is not a zero.\<close>

definition key_normal :: "jsval \<Rightarrow> bool" where
  "key_normal v \<longleftrightarrow> jsval_ok v \<and> map_normalize_key v = v"

lemma map_normalize_key_normal: "jsval_ok v \<Longrightarrow> key_normal (map_normalize_key v)"
  by (cases v) (auto simp: key_normal_def map_normalize_key_def)

lemma map_normalize_key_of: "key_of (map_normalize_key v) = key_of v"
proof (cases v)
  case (JS_Float64 d)
  have "canon_float64 d = canon_float64 0" if "f64_eq d 0"
    using that f64_eq_canon [of d 0] by (auto simp: f64_eq_def)
  then show ?thesis by (simp add: JS_Float64 map_normalize_key_def) (simp add: int_to_float64_def canon_float64_def)
qed (simp_all add: map_normalize_key_def)

text \<open>The hash as a function of the key.\<close>

fun js_key_hash :: "js_key \<Rightarrow> nat \<Rightarrow> u32" where
  "js_key_hash (K_Bool b) n = map_hash32 (of_bool b XOR JS_TAG_BOOL) n"
| "js_key_hash (K_String us) n = map_hash32 (hash_units us 0 XOR JS_TAG_STRING) n"
| "js_key_hash (K_Object p) n = map_hash_pointer (word_of_nat p XOR ucast JS_TAG_OBJECT) n"
| "js_key_hash (K_Symbol p) n = map_hash_pointer (word_of_nat p XOR ucast JS_TAG_SYMBOL) n"
| "js_key_hash (K_Number d) n = hash_float64 d n"
| "js_key_hash (K_BigInt x) n = hash_bigint (THE p. represents p x) n"
| "js_key_hash _ n = 0"

lemma the_represents: "big_wf p \<Longrightarrow> (THE q. represents q (big_val p)) = p"
  by (rule the_equality) (auto intro: represents_unique)

lemma map_hash_key_of: "key_normal v \<Longrightarrow> map_hash_key v n = js_key_hash (key_of v) n"
proof (cases v)
  case (JS_Float64 d)
  assume "key_normal v"
  with JS_Float64 have z: "\<not> f64_eq d 0" by (auto simp: key_normal_def map_normalize_key_def split: if_splits)
  have "f64_mag d \<noteq> 0" if "\<not> f64_isnan d"
    using z
  proof (rule contrapos_nn)
    assume "f64_mag d = 0"
    with f64_mag_0_finite [of d] show "f64_eq d 0" by (simp add: f64_eq_def f64_scaled_eq)
  qed
  then show ?thesis by (auto simp: JS_Float64 map_hash_key_def canon_float64_def)
next
  case (JS_ShortBigInt x)
  have "js_bigint_set_si x = [x]" by (simp add: js_bigint_set_si_def)
  then show ?thesis using the_represents [of "[x]"]
    by (simp add: JS_ShortBigInt map_hash_key_def big_val_single)
next
  case (JS_BigInt p)
  assume "key_normal v"
  then show ?thesis by (simp add: JS_BigInt map_hash_key_def key_normal_def the_represents)
next
  case (JS_Rope len wide depth l r)
  assume "key_normal v"
  with JS_Rope have "rope_wf v" by (simp add: key_normal_def rope_ok_def)
  from hash_string_rope_units [OF this] JS_Rope show ?thesis by (simp add: map_hash_key_def)
qed (auto simp: map_hash_key_def hash_string_units)

lemma map_hash32_less: "1 \<le> n \<Longrightarrow> n \<le> 32 \<Longrightarrow> unat (map_hash32 a n) < 2 ^ n"
  unfolding map_hash32_def unat_drop_u32
  by (rule less_mult_imp_div_less) (use unsigned_less [of "a * HASH_MUL32"] in \<open>simp flip: power_add\<close>)

lemma map_hash64_less:
  assumes "1 \<le> n" "n \<le> 32"
  shows "unat (map_hash64 a n) < 2 ^ n"
proof -
  have "unat (drop_bit (64 - n) (a * HASH_MUL64)) < 2 ^ n"
    unfolding unat_drop_bit_limb
    by (rule less_mult_imp_div_less) (use unsigned_less [of "a * HASH_MUL64"] assms in \<open>simp flip: power_add\<close>)
  then show ?thesis unfolding map_hash64_def unsigned_ucast_eq take_bit_eq_mod
    by (rule order_le_less_trans [OF mod_less_eq_dividend])
qed

lemma map_hash_key_less: "1 \<le> n \<Longrightarrow> n \<le> 32 \<Longrightarrow> unat (map_hash_key v n) < 2 ^ n"
  by (cases v) (simp_all add: map_hash_key_def map_hash32_less map_hash64_less map_hash_pointer_def
      hash_float64_def hash_bigint_def)

section \<open>Properties\<close>

text \<open>C20: the three comparisons of values never fail and compare what \<open>key_of\<close> extracts: the contents of
  strings and ropes, the integers of BigInts in either representation, numbers as doubles whether
  stored as integers or not, and addresses. \<open>NaN\<close> equals itself except for strict equality, the two
  zeros differ only for \<open>SameValue\<close>. After normalization equal keys of maps have equal hashes, which
  are indices into a table of \<open>2 ^ n\<close> entries.\<close>

theorem js_strict_eq2_correct:
  assumes "jsval_ok a" "jsval_ok b" "1 \<le> n" "n \<le> 32"
  shows "js_strict_eq2 a b m = Inr (key_of a = key_of b \<and> number_mode_ok m a b) \<and>
    js_same_value_zero (map_normalize_key a) (map_normalize_key b) = Inr (key_of a = key_of b) \<and>
    (key_of a = key_of b \<longrightarrow> map_hash_key (map_normalize_key a) n = map_hash_key (map_normalize_key b) n) \<and>
    unat (map_hash_key (map_normalize_key a) n) < 2 ^ n"
proof -
  note n = map_normalize_key_normal [OF assms(1)] map_normalize_key_normal [OF assms(2)]
  then have ok: "jsval_ok (map_normalize_key a)" "jsval_ok (map_normalize_key b)" by (auto simp: key_normal_def)
  show ?thesis
    using js_same_value_zero_key [OF ok] map_hash_key_of [OF n(1), of n] map_hash_key_of [OF n(2), of n]
      map_hash_key_less [OF assms(3,4), of "map_normalize_key a"]
    by (simp add: js_strict_eq2_key [OF assms(1,2)] map_normalize_key_of)
qed

theorem js_strict_eq2_witness:
  "js_strict_eq2 (JS_Str (Str8 [97, 98])) (JS_Rope 2 False 1 (JS_Str (Str8 [97])) (JS_Str (Str8 [98]))) JS_EQ_STRICT =
     Inr True \<and>
   map_hash_key (JS_Str (Str8 [97, 98])) 5 =
     map_hash_key (JS_Rope 2 False 1 (JS_Str (Str8 [97])) (JS_Str (Str8 [98]))) 5"
  using js_strict_eq2_correct [of "JS_Str (Str8 [97, 98])" "JS_Rope 2 False 1 (JS_Str (Str8 [97])) (JS_Str (Str8 [98]))"
      5 JS_EQ_STRICT]
  by (simp add: rope_ok_def JS_STRING_LEN_MAX_def JS_STRING_ROPE_MAX_DEPTH_def number_mode_ok_def number_operand_def
      map_normalize_key_def)

end
