(* ===== verification/MapState.thy ===== *)
theory MapState
  imports JSEquality ListHead
begin

text \<open>
  \<open>Map\<close>, \<open>Set\<close> and their weak variants (\<open>JSMapState\<close> of \<open>quickjs.c\<close>): a hash table whose records are
  also linked in insertion order, with records that iterators keep alive after their deletion.
\<close>

section \<open>The state\<close>

text \<open>
  Records live at addresses of a store, \<open>NULL\<close> is 0; an address is free when the store has no record
  for it, and every access to a free address is the outcome \<open>OutOfBounds\<close>. The link of a record in
  the list of records has the address of the record, and \<open>ms_head\<close> is the address of the list head.
  The allocator hands out the address \<open>ms_brk\<close> and never one twice. A walk along more records than
  there are addresses repeats one and never ends: \<open>ms_brk\<close> bounds the walks.
\<close>

record JSMapRecord =
  mr_ref_count :: int
  mr_empty :: bool
  mr_hash_next :: nat
  mr_key :: jsval
  mr_value :: jsval

record JSMapState =
  ms_is_weak :: bool
  ms_head :: nat
  ms_links :: list_links
  ms_mem :: "nat \<Rightarrow> JSMapRecord option"
  ms_brk :: nat
  ms_record_count :: u32
  ms_hash_table :: "nat list"
  ms_hash_bits :: nat
  ms_hash_size :: u32
  ms_record_count_threshold :: u32

text \<open>What the operations read of the heap of objects: reference counts, and which symbols are plain ones.\<close>

record js_heap =
  heap_ref_count :: "nat \<Rightarrow> nat"
  heap_plain_symbol :: "nat \<Rightarrow> bool"

section \<open>Weak references\<close>

definition js_weakref_is_target :: "js_heap \<Rightarrow> jsval \<Rightarrow> bool" where
  "js_weakref_is_target heap val =
     (case val of
        JS_Object p \<Rightarrow> True
      | JS_Symbol p \<Rightarrow> heap_plain_symbol heap p
      | _ \<Rightarrow> False)"

text \<open>Values other than these are never kept as weak references.\<close>

definition js_weakref_is_live :: "js_heap \<Rightarrow> jsval \<Rightarrow> bool" where
  "js_weakref_is_live heap val =
     (case val of
        JS_Object p \<Rightarrow> heap_ref_count heap p \<noteq> 0
      | JS_Symbol p \<Rightarrow> heap_ref_count heap p \<noteq> 0
      | _ \<Rightarrow> True)"

section \<open>Looking up records\<close>

text \<open>Whether a record can match: it is not empty and its key has not died.\<close>

definition map_can_match :: "js_heap \<Rightarrow> JSMapState \<Rightarrow> JSMapRecord \<Rightarrow> bool" where
  "map_can_match heap s mr \<longleftrightarrow>
     \<not> (mr_empty mr \<or> (ms_is_weak s \<and> \<not> js_weakref_is_live heap (mr_key mr)))"

definition map_matches :: "js_heap \<Rightarrow> JSMapState \<Rightarrow> jsval \<Rightarrow> nat \<Rightarrow> JSMapRecord \<Rightarrow> js_error + bool" where
  "map_matches heap s key a mr =
     (if map_can_match heap s mr then js_same_value_zero (mr_key mr) key else Inr False)"

text \<open>
  The walk along a chain of the table to the first record that passes a test, with the record before
  it (0 for the entry of the table): \<open>pmr\<close> and \<open>mr\<close> of the code.
\<close>

fun map_chain_walk ::
  "(nat \<Rightarrow> JSMapRecord \<Rightarrow> js_error + bool) \<Rightarrow> JSMapState \<Rightarrow> nat \<Rightarrow> nat \<Rightarrow> nat \<Rightarrow> js_error + (nat \<times> nat)" where
  "map_chain_walk test s pmr mr fuel =
     (if mr = 0 then Inr (pmr, 0)
      else
        (case ms_mem s mr of
           None \<Rightarrow> Inl OutOfBounds
         | Some r \<Rightarrow>
             (case test mr r of
                Inl e \<Rightarrow> Inl e
              | Inr found \<Rightarrow>
                  if found then Inr (pmr, mr)
                  else
                    (case fuel of
                       0 \<Rightarrow> Inl Nontermination
                     | Suc fuel \<Rightarrow> map_chain_walk test s mr (mr_hash_next r) fuel))))"

definition map_find_slot ::
  "(nat \<Rightarrow> JSMapRecord \<Rightarrow> js_error + bool) \<Rightarrow> JSMapState \<Rightarrow> u32 \<Rightarrow> js_error + (nat \<times> nat)" where
  "map_find_slot test s h =
     (if unat h < length (ms_hash_table s)
      then map_chain_walk test s 0 (ms_hash_table s ! unat h) (ms_brk s)
      else Inl OutOfBounds)"

definition map_find_record :: "js_heap \<Rightarrow> JSMapState \<Rightarrow> jsval \<Rightarrow> js_error + nat" where
  "map_find_record heap s key =
     (case map_find_slot (map_matches heap s key) s (map_hash_key key (ms_hash_bits s)) of
        Inl e \<Rightarrow> Inl e
      | Inr (pmr, mr) \<Rightarrow> Inr mr)"

section \<open>Adding records\<close>

text \<open>The loop over all records that fills the new table.\<close>

fun map_rehash_loop ::
  "js_heap \<Rightarrow> nat \<Rightarrow> JSMapState \<Rightarrow> nat list \<Rightarrow> nat \<Rightarrow> nat \<Rightarrow> js_error + (JSMapState \<times> nat list)" where
  "map_rehash_loop heap bits s tab el fuel =
     (if el = ms_head s then Inr (s, tab)
      else
        (case ms_mem s el of
           None \<Rightarrow> Inl OutOfBounds
         | Some mr \<Rightarrow>
             (case fuel of
                0 \<Rightarrow> Inl Nontermination
              | Suc fuel \<Rightarrow>
                  if map_can_match heap s mr
                  then
                    (let h = unat (map_hash_key (mr_key mr) bits)
                     in if h < length tab
                        then map_rehash_loop heap bits
                               (s\<lparr>ms_mem := (ms_mem s)(el \<mapsto> mr\<lparr>mr_hash_next := tab ! h\<rparr>)\<rparr>)
                               (tab[h := el]) (l_next (ms_links s) el) fuel
                        else Inl OutOfBounds)
                  else map_rehash_loop heap bits s tab (l_next (ms_links s) el) fuel)))"

text \<open>A table that cannot be enlarged is kept.\<close>

definition map_hash_resize :: "js_heap \<Rightarrow> JSMapState \<Rightarrow> JSMapState js" where
  "map_hash_resize heap s = (\<lambda>ans.
     let new_hash_bits = min (ms_hash_bits s + 1) 31;
         new_hash_size = push_bit new_hash_bits (1 :: u32)
     in case js_malloc_block ans of
          (Inl e, ans) \<Rightarrow> (Inr s, ans)
        | (Inr _, ans) \<Rightarrow>
            (case map_rehash_loop heap new_hash_bits s (replicate (unat new_hash_size) 0)
                    (l_next (ms_links s) (ms_head s)) (ms_brk s) of
               Inl e \<Rightarrow> (Inl e, ans)
             | Inr (s, new_hash_table) \<Rightarrow>
                 (Inr (s\<lparr>ms_hash_table := new_hash_table, ms_hash_bits := new_hash_bits,
                         ms_hash_size := new_hash_size, ms_record_count_threshold := new_hash_size * 2\<rparr>), ans)))"

text \<open>The value of the new record is set by the caller; until then it is shown as undefined.\<close>

definition map_link_record :: "JSMapState \<Rightarrow> jsval \<Rightarrow> nat \<Rightarrow> JSMapState" where
  "map_link_record s key h =
     (let mr = ms_brk s
      in s\<lparr>ms_brk := mr + 1,
           ms_mem := (ms_mem s)(mr \<mapsto> \<lparr>mr_ref_count = 1, mr_empty = False,
             mr_hash_next = ms_hash_table s ! h, mr_key = key, mr_value = JS_Undefined\<rparr>),
           ms_hash_table := (ms_hash_table s)[h := mr],
           ms_links := list_add_tail mr (ms_head s) (ms_links s),
           ms_record_count := ms_record_count s + 1\<rparr>)"

definition map_add_record :: "js_heap \<Rightarrow> JSMapState \<Rightarrow> jsval \<Rightarrow> (nat \<times> JSMapState) js" where
  "map_add_record heap s key =
     js_bind js_malloc_block (\<lambda>_.
       let mr = ms_brk s;
           h = unat (map_hash_key key (ms_hash_bits s))
       in if h < length (ms_hash_table s)
          then
            (let s = map_link_record s key h
             in js_bind
                  (if ms_record_count s \<ge> ms_record_count_threshold s then map_hash_resize heap s else js_return s)
                  (\<lambda>s. js_return (mr, s)))
          else js_throw OutOfBounds)"

definition map_set_value :: "JSMapState \<Rightarrow> nat \<Rightarrow> jsval \<Rightarrow> js_error + JSMapState" where
  "map_set_value s mr val =
     (case ms_mem s mr of
        None \<Rightarrow> Inl OutOfBounds
      | Some r \<Rightarrow> Inr (s\<lparr>ms_mem := (ms_mem s)(mr \<mapsto> r\<lparr>mr_value := val\<rparr>)\<rparr>))"

text \<open>The result of a computation that does not allocate.\<close>

definition js_lift :: "js_error + 'a \<Rightarrow> 'a js" where
  "js_lift r = (\<lambda>ans. (r, ans))"

definition set_add_record :: "js_heap \<Rightarrow> JSMapState \<Rightarrow> jsval \<Rightarrow> (nat \<times> JSMapState) js" where
  "set_add_record heap s key =
     js_bind (map_add_record heap s key) (\<lambda>(mr, s).
       js_bind (js_lift (map_set_value s mr JS_Undefined)) (\<lambda>s. js_return (mr, s)))"

section \<open>Deleting records\<close>

definition map_free_record :: "JSMapState \<Rightarrow> nat \<Rightarrow> JSMapState" where
  "map_free_record s mr = s\<lparr>ms_links := list_del mr (ms_links s), ms_mem := (ms_mem s)(mr := None)\<rparr>"

definition map_delete_record_internal :: "JSMapState \<Rightarrow> nat \<Rightarrow> js_error + JSMapState" where
  "map_delete_record_internal s mr =
     (case ms_mem s mr of
        None \<Rightarrow> Inl OutOfBounds
      | Some r \<Rightarrow>
          if mr_empty r then Inr s
          else
            (let s' = (if mr_ref_count r - 1 = 0 then map_free_record s mr
                       else s\<lparr>ms_mem := (ms_mem s)(mr \<mapsto> r\<lparr>mr_ref_count := mr_ref_count r - 1, mr_empty := True,
                                 mr_key := JS_Undefined, mr_value := JS_Undefined\<rparr>)\<rparr>)
             in Inr (s'\<lparr>ms_record_count := ms_record_count s' - 1\<rparr>)))"

definition map_decref_record :: "JSMapState \<Rightarrow> nat \<Rightarrow> js_error + JSMapState" where
  "map_decref_record s mr =
     (case ms_mem s mr of
        None \<Rightarrow> Inl OutOfBounds
      | Some r \<Rightarrow>
          if mr_ref_count r - 1 = 0
          then if mr_empty r then Inr (map_free_record s mr) else Inl OutOfBounds
          else Inr (s\<lparr>ms_mem := (ms_mem s)(mr \<mapsto> r\<lparr>mr_ref_count := mr_ref_count r - 1\<rparr>)\<rparr>))"

text \<open>\<open>*pmr = mr->hash_next\<close>\<close>

definition map_unlink_slot :: "JSMapState \<Rightarrow> u32 \<Rightarrow> nat \<Rightarrow> nat \<Rightarrow> js_error + JSMapState" where
  "map_unlink_slot s h pmr mr =
     (case ms_mem s mr of
        None \<Rightarrow> Inl OutOfBounds
      | Some r \<Rightarrow>
          if pmr = 0 then Inr (s\<lparr>ms_hash_table := (ms_hash_table s)[unat h := mr_hash_next r]\<rparr>)
          else
            (case ms_mem s pmr of
               None \<Rightarrow> Inl OutOfBounds
             | Some p \<Rightarrow> Inr (s\<lparr>ms_mem := (ms_mem s)(pmr \<mapsto> p\<lparr>mr_hash_next := mr_hash_next r\<rparr>)\<rparr>)))"

text \<open>The result is whether a record was deleted, and the map.\<close>

definition map_delete_record :: "js_heap \<Rightarrow> JSMapState \<Rightarrow> jsval \<Rightarrow> js_error + (bool \<times> JSMapState)" where
  "map_delete_record heap s key =
     (let key = map_normalize_key key;
          h = map_hash_key key (ms_hash_bits s)
      in case map_find_slot (map_matches heap s key) s h of
           Inl e \<Rightarrow> Inl e
         | Inr (pmr, mr) \<Rightarrow>
             if mr = 0 then Inr (False, s)
             else
               (case map_unlink_slot s h pmr mr of
                  Inl e \<Rightarrow> Inl e
                | Inr s \<Rightarrow> map_sum id (Pair True) (map_delete_record_internal s mr)))"

text \<open>The records whose keys have died; the next record is read before the current one is deleted.\<close>

fun map_delete_weakrefs_loop :: "js_heap \<Rightarrow> JSMapState \<Rightarrow> nat \<Rightarrow> nat \<Rightarrow> js_error + JSMapState" where
  "map_delete_weakrefs_loop heap s el fuel =
     (if el = ms_head s then Inr s
      else
        (case (ms_mem s el, fuel) of
           (None, _) \<Rightarrow> Inl OutOfBounds
         | (Some mr, 0) \<Rightarrow> Inl Nontermination
         | (Some mr, Suc fuel) \<Rightarrow>
             (let el1 = l_next (ms_links s) el
              in if js_weakref_is_live heap (mr_key mr) then map_delete_weakrefs_loop heap s el1 fuel
                 else
                   (let h = map_hash_key (mr_key mr) (ms_hash_bits s)
                    in case map_find_slot (\<lambda>a r. Inr (a = el)) s h of
                         Inl e \<Rightarrow> Inl e
                       | Inr (pmr, mr1) \<Rightarrow>
                           (case (if mr1 = 0 then Inr s else map_unlink_slot s h pmr mr1) of
                              Inl e \<Rightarrow> Inl e
                            | Inr s \<Rightarrow>
                                (case map_delete_record_internal s el of
                                   Inl e \<Rightarrow> Inl e
                                 | Inr s \<Rightarrow> map_delete_weakrefs_loop heap s el1 fuel))))))"

definition map_delete_weakrefs :: "js_heap \<Rightarrow> JSMapState \<Rightarrow> js_error + JSMapState" where
  "map_delete_weakrefs heap s =
     map_delete_weakrefs_loop heap s (l_next (ms_links s) (ms_head s)) (ms_brk s)"

section \<open>The methods of maps\<close>

text \<open>The receiver has been resolved to its map. The empty map of the constructor, with its list head at \<open>head\<close>.\<close>

definition js_map_new :: "bool \<Rightarrow> nat \<Rightarrow> list_links \<Rightarrow> JSMapState js" where
  "js_map_new is_weak head links =
     js_bind js_malloc_block (\<lambda>_.
       let hash_bits = 1;
           hash_size = push_bit hash_bits (1 :: u32)
       in js_bind js_malloc_block (\<lambda>_.
            js_return
              \<lparr>ms_is_weak = is_weak, ms_head = head, ms_links = init_list_head head links,
               ms_mem = (\<lambda>_. None), ms_brk = head + 1, ms_record_count = 0,
               ms_hash_table = replicate (unat hash_size) 0, ms_hash_bits = hash_bits, ms_hash_size = hash_size,
               ms_record_count_threshold = 4\<rparr>))"

definition js_map_set :: "js_heap \<Rightarrow> bool \<Rightarrow> JSMapState \<Rightarrow> jsval \<Rightarrow> jsval \<Rightarrow> JSMapState js" where
  "js_map_set heap is_set s k v =
     (let key = map_normalize_key k
      in if ms_is_weak s \<and> \<not> js_weakref_is_target heap key
         then js_throw (TypeError (''invalid value used as '' @ (if is_set then ''WeakSet'' else ''WeakMap'') @ '' key''))
         else
           (let val = (if is_set then JS_Undefined else v)
            in js_bind (js_lift (map_find_record heap s key)) (\<lambda>mr.
                 if mr \<noteq> 0 then js_lift (map_set_value s mr val)
                 else js_bind (map_add_record heap s key) (\<lambda>(mr, s). js_lift (map_set_value s mr val)))))"

definition map_get_value :: "JSMapState \<Rightarrow> nat \<Rightarrow> js_error + jsval" where
  "map_get_value s mr =
     (case ms_mem s mr of
        None \<Rightarrow> Inl OutOfBounds
      | Some r \<Rightarrow> Inr (mr_value r))"

definition js_map_get :: "js_heap \<Rightarrow> JSMapState \<Rightarrow> jsval \<Rightarrow> js_error + jsval" where
  "js_map_get heap s k =
     (case map_find_record heap s (map_normalize_key k) of
        Inl e \<Rightarrow> Inl e
      | Inr mr \<Rightarrow> if mr = 0 then Inr JS_Undefined else map_get_value s mr)"

definition js_map_has :: "js_heap \<Rightarrow> JSMapState \<Rightarrow> jsval \<Rightarrow> js_error + bool" where
  "js_map_has heap s k = map_sum id (\<lambda>mr. mr \<noteq> 0) (map_find_record heap s (map_normalize_key k))"

definition js_map_delete :: "js_heap \<Rightarrow> JSMapState \<Rightarrow> jsval \<Rightarrow> js_error + (bool \<times> JSMapState)" where
  "js_map_delete heap s k = map_delete_record heap s k"

fun js_map_clear_loop :: "JSMapState \<Rightarrow> nat \<Rightarrow> nat \<Rightarrow> js_error + JSMapState" where
  "js_map_clear_loop s el fuel =
     (if el = ms_head s then Inr s
      else
        (case fuel of
           0 \<Rightarrow> Inl Nontermination
         | Suc fuel \<Rightarrow>
             (let el1 = l_next (ms_links s) el
              in case map_delete_record_internal s el of
                   Inl e \<Rightarrow> Inl e
                 | Inr s \<Rightarrow> js_map_clear_loop s el1 fuel)))"

definition js_map_clear :: "JSMapState \<Rightarrow> js_error + JSMapState" where
  "js_map_clear s =
     (let s = s\<lparr>ms_hash_table := replicate (unat (ms_hash_size s)) 0\<rparr>
      in js_map_clear_loop s (l_next (ms_links s) (ms_head s)) (ms_brk s))"

definition js_map_get_size :: "JSMapState \<Rightarrow> u32" where
  "js_map_get_size s = ms_record_count s"

text \<open>
  The methods that call back into JavaScript. The rest of the engine is a state of any type, which
  the callback transforms together with the map.
\<close>

type_synonym ('w, 'a) map_call = "JSMapState \<Rightarrow> 'w \<Rightarrow> (js_error + 'a) \<times> JSMapState \<times> 'w"

text \<open>The argument is the value of \<open>getOrInsert\<close> or the callback of \<open>getOrInsertComputed\<close>, a function.\<close>

definition js_map_getOrInsert ::
  "js_heap \<Rightarrow> JSMapState \<Rightarrow> jsval \<Rightarrow> jsval + (jsval \<Rightarrow> (answers, jsval) map_call) \<Rightarrow> answers \<Rightarrow>
     (js_error + jsval) \<times> JSMapState \<times> answers" where
  "js_map_getOrInsert heap s k arg ans =
     (let key = map_normalize_key k
      in if ms_is_weak s \<and> \<not> js_weakref_is_target heap key
         then (Inl (TypeError ''invalid value used as WeakMap key''), s, ans)
         else
           (case map_find_record heap s key of
              Inl e \<Rightarrow> (Inl e, s, ans)
            | Inr mr \<Rightarrow>
                if mr \<noteq> 0 then (map_get_value s mr, s, ans)
                else
                  (case (case arg of
                           Inl val \<Rightarrow> (Inr val, s, ans)
                         | Inr call \<Rightarrow>
                             (case call key s ans of
                                (Inl e, s, ans) \<Rightarrow> (Inl e, s, ans)
                              | (Inr val, s, ans) \<Rightarrow>
                                  (case map_delete_record heap s key of
                                     Inl e \<Rightarrow> (Inl e, s, ans)
                                   | Inr (deleted, s) \<Rightarrow> (Inr val, s, ans)))) of
                     (Inl e, s, ans) \<Rightarrow> (Inl e, s, ans)
                   | (Inr val, s, ans) \<Rightarrow>
                       (case map_add_record heap s key ans of
                          (Inl e, ans) \<Rightarrow> (Inl e, s, ans)
                        | (Inr (mr, s), ans) \<Rightarrow>
                            (case map_set_value s mr val of
                               Inl e \<Rightarrow> (Inl e, s, ans)
                             | Inr s \<Rightarrow> (Inr val, s, ans))))))"

fun js_map_forEach_loop ::
  "(jsval \<Rightarrow> jsval \<Rightarrow> ('w, jsval) map_call) \<Rightarrow> bool \<Rightarrow> nat \<Rightarrow> nat \<Rightarrow> ('w, unit) map_call" where
  "js_map_forEach_loop func is_set el fuel s w =
     (if el = ms_head s then (Inr (), s, w)
      else
        (case ms_mem s el of
           None \<Rightarrow> (Inl OutOfBounds, s, w)
         | Some mr \<Rightarrow>
             (case fuel of
                0 \<Rightarrow> (Inl Nontermination, s, w)
              | Suc fuel \<Rightarrow>
                  if \<not> mr_empty mr
                  then
                    (let s = s\<lparr>ms_mem := (ms_mem s)(el \<mapsto> mr\<lparr>mr_ref_count := mr_ref_count mr + 1\<rparr>)\<rparr>
                     in case func (if is_set then mr_key mr else mr_value mr) (mr_key mr) s w of
                          (ret, s, w) \<Rightarrow>
                            (let el1 = l_next (ms_links s) el
                             in case map_decref_record s el of
                                  Inl e \<Rightarrow> (Inl e, s, w)
                                | Inr s \<Rightarrow>
                                    (case ret of
                                       Inl e \<Rightarrow> (Inl e, s, w)
                                     | Inr _ \<Rightarrow> js_map_forEach_loop func is_set el1 fuel s w)))
                  else js_map_forEach_loop func is_set (l_next (ms_links s) el) fuel s w)))"

definition js_map_forEach ::
  "(jsval \<Rightarrow> jsval \<Rightarrow> ('w, jsval) map_call) \<Rightarrow> bool \<Rightarrow> nat \<Rightarrow> ('w, unit) map_call" where
  "js_map_forEach func is_set fuel s w =
     js_map_forEach_loop func is_set (l_next (ms_links s) (ms_head s)) fuel s w"

section \<open>Iterators\<close>

datatype JSIteratorKindEnum = JS_ITERATOR_KIND_KEY | JS_ITERATOR_KIND_VALUE | JS_ITERATOR_KIND_KEY_AND_VALUE

text \<open>\<open>it_attached\<close> is false once \<open>obj\<close> has been set to undefined.\<close>

record JSMapIteratorData =
  it_attached :: bool
  it_kind :: JSIteratorKindEnum
  it_cur_record :: nat

definition js_create_map_iterator :: "JSIteratorKindEnum \<Rightarrow> JSMapIteratorData js" where
  "js_create_map_iterator kind =
     js_bind js_malloc_block (\<lambda>_. js_return \<lparr>it_attached = True, it_kind = kind, it_cur_record = 0\<rparr>)"

text \<open>From \<open>el\<close> on the first record that is not empty, or the head of the list.\<close>

fun map_iterator_skip :: "JSMapState \<Rightarrow> nat \<Rightarrow> nat \<Rightarrow> js_error + nat" where
  "map_iterator_skip s el fuel =
     (if el = ms_head s then Inr el
      else
        (case ms_mem s el of
           None \<Rightarrow> Inl OutOfBounds
         | Some mr \<Rightarrow>
             if \<not> mr_empty mr then Inr el
             else
               (case fuel of
                  0 \<Rightarrow> Inl Nontermination
                | Suc fuel \<Rightarrow> map_iterator_skip s (l_next (ms_links s) el) fuel)))"

text \<open>A pair of the iteration becomes an array, which the caller builds; \<open>None\<close> is the end.\<close>

datatype map_item = Map_Item jsval | Map_Pair jsval jsval

definition map_item_of :: "JSIteratorKindEnum \<Rightarrow> bool \<Rightarrow> JSMapRecord \<Rightarrow> map_item" where
  "map_item_of kind is_set mr =
     (let val = (if is_set then mr_key mr else mr_value mr)
      in case kind of
           JS_ITERATOR_KIND_KEY \<Rightarrow> Map_Item (mr_key mr)
         | JS_ITERATOR_KIND_VALUE \<Rightarrow> Map_Item val
         | JS_ITERATOR_KIND_KEY_AND_VALUE \<Rightarrow> Map_Pair (mr_key mr) val)"

definition js_map_iterator_next ::
  "bool \<Rightarrow> JSMapState \<Rightarrow> JSMapIteratorData \<Rightarrow> js_error + (map_item option \<times> JSMapState \<times> JSMapIteratorData)" where
  "js_map_iterator_next is_set s it =
     (if \<not> it_attached it then Inr (None, s, it)
      else
        (case (if it_cur_record it = 0 then Inr (l_next (ms_links s) (ms_head s), s)
               else map_sum id (Pair (l_next (ms_links s) (it_cur_record it))) (map_decref_record s (it_cur_record it))) of
           Inl e \<Rightarrow> Inl e
         | Inr (el, s) \<Rightarrow>
             (case map_iterator_skip s el (ms_brk s) of
                Inl e \<Rightarrow> Inl e
              | Inr el \<Rightarrow>
                  if el = ms_head s then Inr (None, s, it\<lparr>it_cur_record := 0, it_attached := False\<rparr>)
                  else
                    (case ms_mem s el of
                       None \<Rightarrow> Inl OutOfBounds
                     | Some mr \<Rightarrow>
                         Inr (Some (map_item_of (it_kind it) is_set mr),
                              s\<lparr>ms_mem := (ms_mem s)(el \<mapsto> mr\<lparr>mr_ref_count := mr_ref_count mr + 1\<rparr>)\<rparr>,
                              it\<lparr>it_cur_record := el\<rparr>)))))"

text \<open>The finalizer of an iterator whose map is alive.\<close>

definition js_map_iterator_finalizer :: "JSMapState \<Rightarrow> JSMapIteratorData \<Rightarrow> js_error + JSMapState" where
  "js_map_iterator_finalizer s it =
     (if it_attached it \<and> it_cur_record it \<noteq> 0 then map_decref_record s (it_cur_record it) else Inr s)"

declare map_chain_walk.simps [simp del] map_rehash_loop.simps [simp del] map_delete_weakrefs_loop.simps [simp del]
  js_map_clear_loop.simps [simp del] js_map_forEach_loop.simps [simp del] map_iterator_skip.simps [simp del]

end
