(* ===== verification/MapInv.thy ===== *)
theory MapInv
  imports MapState
begin

text \<open>
  The invariant of maps, and what walking, linking, unlinking and rehashing do to it.
\<close>

section \<open>Chains of the hash table\<close>

fun map_chain :: "(nat \<Rightarrow> JSMapRecord option) \<Rightarrow> nat \<Rightarrow> nat list \<Rightarrow> bool" where
  "map_chain mem a [] \<longleftrightarrow> a = 0"
| "map_chain mem a (x # xs) \<longleftrightarrow> a = x \<and> x \<noteq> 0 \<and> (\<exists>r. mem x = Some r \<and> map_chain mem (mr_hash_next r) xs)"

lemma map_chain_frame:
  "map_chain mem a xs \<Longrightarrow>
   (\<And>x r. x \<in> set xs \<Longrightarrow> mem x = Some r \<Longrightarrow> \<exists>r'. mem' x = Some r' \<and> mr_hash_next r' = mr_hash_next r) \<Longrightarrow>
   map_chain mem' a xs"
  by (induction xs arbitrary: a) (auto, metis)

lemma map_chain_dom: "map_chain mem a xs \<Longrightarrow> x \<in> set xs \<Longrightarrow> \<exists>r. mem x = Some r"
  by (induction xs arbitrary: a) auto

lemma map_chain_nonzero: "map_chain mem a xs \<Longrightarrow> 0 \<notin> set xs"
  by (induction xs arbitrary: a) auto

lemma map_chain_unique: "map_chain mem a xs \<Longrightarrow> map_chain mem a ys \<Longrightarrow> xs = ys"
proof (induction xs arbitrary: a ys)
  case Nil
  then show ?case by (cases ys) auto
next
  case (Cons x xs)
  then show ?case by (cases ys) auto
qed

lemma map_chain_append:
  "map_chain mem a (us @ x # vs) \<Longrightarrow> map_chain mem x (x # vs)"
  by (induction us arbitrary: a) auto

text \<open>The walk stops at the first record of the chain that passes the test.\<close>

lemma map_chain_walk_spec:
  assumes "map_chain (ms_mem s) mr xs" "length xs \<le> fuel"
    and "\<And>x r. x \<in> set xs \<Longrightarrow> ms_mem s x = Some r \<Longrightarrow> test x r = Inr (P x)"
  shows "(\<exists>us x vs. xs = us @ x # vs \<and> P x \<and> (\<forall>u\<in>set us. \<not> P u) \<and>
            map_chain_walk test s pmr mr fuel = Inr (last (pmr # us), x)) \<or>
         ((\<forall>x\<in>set xs. \<not> P x) \<and> map_chain_walk test s pmr mr fuel = Inr (last (pmr # xs), 0))"
  using assms
proof (induction xs arbitrary: pmr mr fuel)
  case Nil
  then show ?case by (subst map_chain_walk.simps) simp
next
  case (Cons x xs)
  then obtain r fuel' where r: "ms_mem s x = Some r" "mr = x" "x \<noteq> 0" "map_chain (ms_mem s) (mr_hash_next r) xs"
    "fuel = Suc fuel'" by (cases fuel) auto
  show ?case
  proof (cases "P x")
    case True
    then have "map_chain_walk test s pmr mr fuel = Inr (last (pmr # []), x)"
      using r Cons.prems(3) by (subst map_chain_walk.simps) simp
    with True show ?thesis by (intro disjI1 exI [of _ "[]"] exI [of _ x] exI [of _ xs]) simp
  next
    case False
    then have e: "map_chain_walk test s pmr mr fuel = map_chain_walk test s x (mr_hash_next r) fuel'"
      using r Cons.prems(3) by (subst map_chain_walk.simps) simp
    from Cons.IH [OF r(4), of fuel' x] Cons.prems r(5) consider
      us y vs where "xs = us @ y # vs" "P y" "\<forall>u\<in>set us. \<not> P u"
        "map_chain_walk test s x (mr_hash_next r) fuel' = Inr (last (x # us), y)"
      | "\<forall>x\<in>set xs. \<not> P x" "map_chain_walk test s x (mr_hash_next r) fuel' = Inr (last (x # xs), 0)"
      by auto
    then show ?thesis
    proof cases
      case 1
      with False e show ?thesis
        by (intro disjI1 exI [of _ "x # us"] exI [of _ y] exI [of _ vs]) simp
    next
      case 2
      with False e show ?thesis by simp
    qed
  qed
qed

section \<open>Keys\<close>

text \<open>
  What the map relies on in the comparison and the hash: both are functions of the key that a value
  stands for, and the hash is an index into the table.
\<close>

locale map_keys =
  fixes eq :: "jsval \<Rightarrow> jsval \<Rightarrow> js_error + bool"
    and hash :: "jsval \<Rightarrow> nat \<Rightarrow> u32"
    and key :: "jsval \<Rightarrow> 'k"
    and ok :: "jsval \<Rightarrow> bool"
  assumes eq_key: "ok a \<Longrightarrow> ok b \<Longrightarrow> eq a b = Inr (key a = key b)"
    and hash_key: "ok a \<Longrightarrow> ok b \<Longrightarrow> key a = key b \<Longrightarrow> hash a n = hash b n"
    and hash_less: "1 \<le> n \<Longrightarrow> n \<le> 32 \<Longrightarrow> unat (hash a n) < 2 ^ n"
begin

text \<open>
  Searching one chain is searching the map: when every record that can match is in the chain of its
  hash, the walk along the chain of a key finds the record with that key if there is one at all.
\<close>

lemma bucket_walk:
  assumes chain: "map_chain (ms_mem s) mr xs" "length xs \<le> fuel"
    and within: "\<forall>x r. ms_mem s x = Some r \<longrightarrow> can r \<longrightarrow> ok (mr_key r)"
    and complete: "\<forall>x r. ms_mem s x = Some r \<longrightarrow> can r \<longrightarrow> hash (mr_key r) n = hash k n \<longrightarrow> x \<in> set xs"
    and k: "ok k"
  shows "(\<exists>us x vs r. xs = us @ x # vs \<and> ms_mem s x = Some r \<and> can r \<and> key (mr_key r) = key k \<and>
            map_chain_walk (\<lambda>a r. if can r then eq (mr_key r) k else Inr False) s 0 mr fuel = Inr (last (0 # us), x)) \<or>
         ((\<forall>x r. ms_mem s x = Some r \<longrightarrow> can r \<longrightarrow> key (mr_key r) \<noteq> key k) \<and>
            map_chain_walk (\<lambda>a r. if can r then eq (mr_key r) k else Inr False) s 0 mr fuel = Inr (last (0 # xs), 0))"
proof -
  define P where "P x = (case ms_mem s x of None \<Rightarrow> False | Some r \<Rightarrow> can r \<and> key (mr_key r) = key k)" for x
  have t: "(if can r then eq (mr_key r) k else Inr False) = Inr (P x)" if "x \<in> set xs" "ms_mem s x = Some r" for x r
    using that within eq_key [OF _ k] by (auto simp: P_def)
  from map_chain_walk_spec [where test = "\<lambda>a r. if can r then eq (mr_key r) k else Inr False" and pmr = 0 and P = P, OF chain t]
  consider us x vs where "xs = us @ x # vs" "P x"
      "map_chain_walk (\<lambda>a r. if can r then eq (mr_key r) k else Inr False) s 0 mr fuel = Inr (last (0 # us), x)"
    | "\<forall>x\<in>set xs. \<not> P x"
      "map_chain_walk (\<lambda>a r. if can r then eq (mr_key r) k else Inr False) s 0 mr fuel = Inr (last (0 # xs), 0)"
    by blast
  then show ?thesis
  proof cases
    case 1
    then show ?thesis by (auto simp: P_def split: option.splits)
  next
    case 2
    have "key (mr_key r) \<noteq> key k" if "ms_mem s x = Some r" "can r" for x r
    proof
      assume "key (mr_key r) = key k"
      with that within complete hash_key [OF _ k, of "mr_key r" n] have "x \<in> set xs" "P x" by (auto simp: P_def)
      with 2(1) show False by blast
    qed
    with 2(2) show ?thesis by blast
  qed
qed

end

interpretation svz: map_keys js_same_value_zero map_hash_key key_of key_normal
  by unfold_locales
    (auto simp: js_same_value_zero_key key_normal_def map_hash_key_less intro: js_same_value_zero_key [unfolded key_normal_def]
      simp: map_hash_key_of [unfolded key_normal_def])

section \<open>The invariant\<close>

text \<open>
  \<open>rs\<close> is the list of records, \<open>cs\<close> the chains of the table and \<open>locks\<close> the number of iterations that
  hold a record. The count of a record is one for the map, while it is not empty, and one for each of these.
\<close>

definition map_hash_at :: "JSMapState \<Rightarrow> JSMapRecord \<Rightarrow> nat" where
  "map_hash_at s r = unat (map_hash_key (mr_key r) (ms_hash_bits s))"

definition map_nonempty :: "JSMapState \<Rightarrow> nat \<Rightarrow> bool" where
  "map_nonempty s a \<longleftrightarrow> (\<exists>r. ms_mem s a = Some r \<and> \<not> mr_empty r)"

definition record_ok :: "nat \<Rightarrow> JSMapRecord \<Rightarrow> bool" where
  "record_ok n r \<longleftrightarrow> mr_ref_count r = of_bool (\<not> mr_empty r) + int n \<and> 0 < mr_ref_count r \<and>
     (if mr_empty r then mr_key r = JS_Undefined \<and> mr_value r = JS_Undefined else key_normal (mr_key r))"

definition store_ok :: "(nat \<Rightarrow> nat) \<Rightarrow> JSMapState \<Rightarrow> nat list \<Rightarrow> bool" where
  "store_ok locks s rs \<longleftrightarrow> dll (ms_links s) (ms_head s) rs \<and> set rs = dom (ms_mem s) \<and>
     (\<forall>a\<in>insert (ms_head s) (set rs). 0 < a \<and> a < ms_brk s) \<and>
     (\<forall>a. locks a \<noteq> 0 \<longrightarrow> a \<in> set rs) \<and>
     (\<forall>a r. ms_mem s a = Some r \<longrightarrow> record_ok (locks a) r) \<and>
     ms_record_count s = word_of_nat (length (filter (map_nonempty s) rs))"

definition table_ok :: "js_heap \<Rightarrow> JSMapState \<Rightarrow> (nat \<Rightarrow> nat list) \<Rightarrow> bool" where
  "table_ok heap s cs \<longleftrightarrow> 1 \<le> ms_hash_bits s \<and> ms_hash_bits s \<le> 31 \<and>
     length (ms_hash_table s) = 2 ^ ms_hash_bits s \<and> unat (ms_hash_size s) = 2 ^ ms_hash_bits s \<and>
     (\<forall>h < 2 ^ ms_hash_bits s. map_chain (ms_mem s) (ms_hash_table s ! h) (cs h) \<and> distinct (cs h) \<and>
        (\<forall>a r. a \<in> set (cs h) \<longrightarrow> ms_mem s a = Some r \<longrightarrow> \<not> mr_empty r \<and> map_hash_at s r = h)) \<and>
     (\<forall>a r. ms_mem s a = Some r \<longrightarrow> map_can_match heap s r \<longrightarrow> a \<in> set (cs (map_hash_at s r)))"

definition keys_ok :: "js_heap \<Rightarrow> JSMapState \<Rightarrow> bool" where
  "keys_ok heap s \<longleftrightarrow> (\<forall>a b r q. ms_mem s a = Some r \<longrightarrow> ms_mem s b = Some q \<longrightarrow>
     map_can_match heap s r \<longrightarrow> map_can_match heap s q \<longrightarrow> key_of (mr_key r) = key_of (mr_key q) \<longrightarrow> a = b)"

definition map_inv :: "js_heap \<Rightarrow> (nat \<Rightarrow> nat) \<Rightarrow> JSMapState \<Rightarrow> nat list \<Rightarrow> bool" where
  "map_inv heap locks s rs \<longleftrightarrow> store_ok locks s rs \<and> (\<exists>cs. table_ok heap s cs) \<and> keys_ok heap s"

lemma store_ok_record:
  "store_ok locks s rs \<Longrightarrow> ms_mem s a = Some r \<Longrightarrow> record_ok (locks a) r \<and> 0 < a \<and> a < ms_brk s \<and> a \<in> set rs"
  by (auto simp: store_ok_def)

lemma store_ok_list:
  assumes "store_ok locks s rs"
  shows "dll (ms_links s) (ms_head s) rs" "set rs = dom (ms_mem s)" "distinct rs" "length rs \<le> ms_brk s"
proof -
  show d: "dll (ms_links s) (ms_head s) rs" "set rs = dom (ms_mem s)" using assms by (auto simp: store_ok_def)
  then show r: "distinct rs" by (simp add: dll_def)
  have "set rs \<subseteq> {..<ms_brk s}" using assms by (auto simp: store_ok_def)
  from card_mono [OF _ this] r show "length rs \<le> ms_brk s" by (simp add: distinct_card)
qed

lemma can_match_nonempty: "map_can_match heap s r \<Longrightarrow> \<not> mr_empty r"
  by (simp add: map_can_match_def)

lemma chain_length:
  assumes "store_ok locks s rs" "map_chain (ms_mem s) a xs" "distinct xs"
  shows "length xs \<le> ms_brk s"
proof -
  have "set xs \<subseteq> set rs"
    using map_chain_dom [OF assms(2)] store_ok_list(2) [OF assms(1)] by auto
  from card_mono [OF _ this] assms(3) store_ok_list(3,4) [OF assms(1)] show ?thesis
    by (simp add: distinct_card)
qed

text \<open>The slot of a key: the chain around the record, or no record with the key.\<close>

lemma map_find_slot_cases:
  assumes "store_ok locks s rs" "table_ok heap s cs" "key_normal k"
  defines "h \<equiv> unat (map_hash_key k (ms_hash_bits s))"
  obtains (found) us x vs r where "cs h = us @ x # vs" "ms_mem s x = Some r" "map_can_match heap s r"
      "key_of (mr_key r) = key_of k"
      "map_find_slot (map_matches heap s k) s (map_hash_key k (ms_hash_bits s)) = Inr (last (0 # us), x)"
  | (missing) pmr where "\<And>x r. ms_mem s x = Some r \<Longrightarrow> map_can_match heap s r \<Longrightarrow> key_of (mr_key r) \<noteq> key_of k"
      "map_find_slot (map_matches heap s k) s (map_hash_key k (ms_hash_bits s)) = Inr (pmr, 0)"
proof -
  let ?n = "ms_hash_bits s"
  have h: "h < 2 ^ ?n" and n: "length (ms_hash_table s) = 2 ^ ?n"
    using assms(2) map_hash_key_less [of ?n k] by (auto simp: h_def table_ok_def)
  with assms(2) have chain: "map_chain (ms_mem s) (ms_hash_table s ! h) (cs h)" "distinct (cs h)"
    by (auto simp: table_ok_def)
  have ok: "\<forall>x r. ms_mem s x = Some r \<longrightarrow> map_can_match heap s r \<longrightarrow> key_normal (mr_key r)"
    using store_ok_record [OF assms(1)] can_match_nonempty by (auto simp: record_ok_def)
  have complete: "\<forall>x r. ms_mem s x = Some r \<longrightarrow> map_can_match heap s r \<longrightarrow>
    map_hash_key (mr_key r) ?n = map_hash_key k ?n \<longrightarrow> x \<in> set (cs h)"
  proof (intro allI impI)
    fix x r
    assume a: "ms_mem s x = Some r" "map_can_match heap s r" "map_hash_key (mr_key r) ?n = map_hash_key k ?n"
    then have "x \<in> set (cs (map_hash_at s r))" using assms(2) by (simp add: table_ok_def)
    with a(3) show "x \<in> set (cs h)" by (simp add: map_hash_at_def h_def)
  qed
  have e: "map_find_slot (map_matches heap s k) s (map_hash_key k ?n) =
      map_chain_walk (\<lambda>a r. if map_can_match heap s r then js_same_value_zero (mr_key r) k else Inr False)
        s 0 (ms_hash_table s ! h) (ms_brk s)"
    using h n by (simp add: map_find_slot_def h_def map_matches_def [abs_def])
  from svz.bucket_walk [where can = "map_can_match heap s", OF chain(1) chain_length [OF assms(1) chain] ok complete assms(3)]
  consider us x vs r where "cs h = us @ x # vs" "ms_mem s x = Some r" "map_can_match heap s r" "key_of (mr_key r) = key_of k"
      "map_chain_walk (\<lambda>a r. if map_can_match heap s r then js_same_value_zero (mr_key r) k else Inr False)
        s 0 (ms_hash_table s ! h) (ms_brk s) = Inr (last (0 # us), x)"
    | "\<forall>x r. ms_mem s x = Some r \<longrightarrow> map_can_match heap s r \<longrightarrow> key_of (mr_key r) \<noteq> key_of k"
      "map_chain_walk (\<lambda>a r. if map_can_match heap s r then js_same_value_zero (mr_key r) k else Inr False)
        s 0 (ms_hash_table s ! h) (ms_brk s) = Inr (last (0 # cs h), 0)"
    by blast
  then show thesis
  proof cases
    case 1
    then show thesis using found e by auto
  next
    case 2
    then show thesis using missing e ok by auto
  qed
qed

lemma map_find_record_cases:
  assumes "map_inv heap locks s rs" "key_normal k"
  obtains (found) x r where "ms_mem s x = Some r" "map_can_match heap s r" "key_of (mr_key r) = key_of k"
      "map_find_record heap s k = Inr x" "x \<noteq> 0"
  | (missing) "\<And>x r. ms_mem s x = Some r \<Longrightarrow> map_can_match heap s r \<Longrightarrow> key_of (mr_key r) \<noteq> key_of k"
      "map_find_record heap s k = Inr 0"
proof -
  from assms(1) obtain cs where inv: "store_ok locks s rs" "table_ok heap s cs" by (auto simp: map_inv_def)
  from inv assms(2) show thesis
  proof (cases rule: map_find_slot_cases)
    case (found us x vs r)
    then show thesis using that(1) [of x r] store_ok_record [OF inv(1) found(2)] by (simp add: map_find_record_def)
  next
    case (missing pmr)
    then show thesis using that(2) by (simp add: map_find_record_def)
  qed
qed

section \<open>Entries\<close>

definition record_entry :: "js_heap \<Rightarrow> JSMapState \<Rightarrow> nat \<Rightarrow> (js_key \<times> jsval) list" where
  "record_entry heap s a =
     (case ms_mem s a of
        None \<Rightarrow> []
      | Some r \<Rightarrow> if map_can_match heap s r then [(key_of (mr_key r), mr_value r)] else [])"

definition map_entries :: "js_heap \<Rightarrow> JSMapState \<Rightarrow> nat list \<Rightarrow> (js_key \<times> jsval) list" where
  "map_entries heap s rs = concat (map (record_entry heap s) rs)"

lemma map_entries_simps [simp]:
  "map_entries heap s [] = []"
  "map_entries heap s (a # rs) = record_entry heap s a @ map_entries heap s rs"
  "map_entries heap s (rs @ rs') = map_entries heap s rs @ map_entries heap s rs'"
  by (simp_all add: map_entries_def)

lemma map_entries_cong: "(\<And>a. a \<in> set rs \<Longrightarrow> record_entry heap s' a = record_entry heap s a) \<Longrightarrow>
   map_entries heap s' rs = map_entries heap s rs"
  by (induction rs) auto

lemma map_entries_keys:
  "k \<in> fst ` set (map_entries heap s rs) \<longleftrightarrow>
     (\<exists>a\<in>set rs. \<exists>r. ms_mem s a = Some r \<and> map_can_match heap s r \<and> key_of (mr_key r) = k)"
  by (induction rs) (auto 0 4 simp: record_entry_def image_Un split: option.splits)

text \<open>The entry of a record that can match, with the entries before and after it.\<close>

lemma map_entries_split:
  assumes "map_inv heap locks s rs" "ms_mem s x = Some r" "map_can_match heap s r"
  obtains us vs where "rs = us @ x # vs" "x \<notin> set us" "x \<notin> set vs"
    "map_entries heap s rs = map_entries heap s us @ (key_of (mr_key r), mr_value r) # map_entries heap s vs"
    "key_of (mr_key r) \<notin> fst ` set (map_entries heap s us)" "key_of (mr_key r) \<notin> fst ` set (map_entries heap s vs)"
proof -
  from assms(1) have st: "store_ok locks s rs" and k: "keys_ok heap s" by (auto simp: map_inv_def)
  from store_ok_record [OF st assms(2)] obtain us vs where rs: "rs = us @ x # vs"
    by (auto dest: split_list)
  with store_ok_list(3) [OF st] have x: "x \<notin> set us" "x \<notin> set vs" by auto
  have "key_of (mr_key r) \<notin> fst ` set (map_entries heap s ws)" if "x \<notin> set ws" for ws
    using k assms(2,3) that unfolding map_entries_keys keys_ok_def by metis
  with x rs assms(2,3) show thesis
    by (intro that [of us vs]) (auto simp: record_entry_def)
qed

lemma map_entries_distinct:
  assumes "map_inv heap locks s rs"
  shows "distinct (map fst (map_entries heap s rs))"
proof -
  have st: "store_ok locks s rs" and k: "keys_ok heap s" using assms by (auto simp: map_inv_def)
  have "distinct (map fst (map_entries heap s ws))" if "distinct ws" for ws
    using that
  proof (induction ws)
    case (Cons w ws)
    have "key_of (mr_key r) \<notin> fst ` set (map_entries heap s ws)"
      if "ms_mem s w = Some r" "map_can_match heap s r" for r
      using k Cons.prems that unfolding map_entries_keys keys_ok_def by (metis distinct.simps(2))
    with Cons show ?case by (auto simp: record_entry_def split: option.splits)
  qed simp
  from this [OF store_ok_list(3) [OF st]] show ?thesis .
qed

lemma map_of_entries:
  assumes "map_inv heap locks s rs" "ms_mem s x = Some r" "map_can_match heap s r"
  shows "map_of (map_entries heap s rs) (key_of (mr_key r)) = Some (mr_value r)"
proof -
  from map_entries_split [OF assms] obtain us vs where
    "map_entries heap s rs = map_entries heap s us @ (key_of (mr_key r), mr_value r) # map_entries heap s vs"
    "key_of (mr_key r) \<notin> fst ` set (map_entries heap s us)" by metis
  then show ?thesis by (simp add: map_add_def map_of_eq_None_iff [symmetric] split: option.splits)
qed

lemma map_of_entries_missing:
  assumes "\<And>x r. ms_mem s x = Some r \<Longrightarrow> map_can_match heap s r \<Longrightarrow> key_of (mr_key r) \<noteq> k"
  shows "map_of (map_entries heap s rs) k = None"
  unfolding map_of_eq_None_iff map_entries_keys using assms by blast

end
