(* ===== verification/MapAdd.thy ===== *)
theory MapAdd
  imports MapInv "HOL-Library.AList"
begin

text \<open>
  What the operations of a map do to its invariant and its entries.
\<close>

section \<open>Changes that keep the shape\<close>

text \<open>Stores that agree on a part of every record.\<close>

definition mem_agree :: "(JSMapRecord \<Rightarrow> 'a) \<Rightarrow> (nat \<Rightarrow> JSMapRecord option) \<Rightarrow> (nat \<Rightarrow> JSMapRecord option) \<Rightarrow> bool" where
  "mem_agree f mem mem' \<longleftrightarrow> (\<forall>a. map_option f (mem a) = map_option f (mem' a))"

lemma mem_agreeD:
  assumes "mem_agree f mem mem'" "mem' a = Some r'"
  obtains r where "mem a = Some r" "f r = f r'"
  using assms by (auto simp: mem_agree_def dest!: spec [of _ a])

lemma mem_agree_sym: "mem_agree f mem mem' \<Longrightarrow> mem_agree f mem' mem"
  by (simp add: mem_agree_def)

lemma mem_agree_trans: "mem_agree f m1 m2 \<Longrightarrow> mem_agree f m2 m3 \<Longrightarrow> mem_agree f m1 m3"
  by (simp add: mem_agree_def)

lemma mem_agree_refl [simp]: "mem_agree f m m"
  by (simp add: mem_agree_def)

lemma mem_agree_dom: "mem_agree f mem mem' \<Longrightarrow> dom mem' = dom mem"
  by (auto simp: mem_agree_def dom_def) (metis map_option_is_None not_None_eq)+

lemma mem_agree_update: "mem a = Some r \<Longrightarrow> f r' = f r \<Longrightarrow> mem_agree f mem (mem(a \<mapsto> r'))"
  by (simp add: mem_agree_def)

abbreviation rec_key :: "JSMapRecord \<Rightarrow> jsval \<times> bool" where
  "rec_key r \<equiv> (mr_key r, mr_empty r)"

lemma can_match_cong:
  "rec_key r = rec_key r' \<Longrightarrow> ms_is_weak s' = ms_is_weak s \<Longrightarrow> map_can_match heap s' r' = map_can_match heap s r"
  by (simp add: map_can_match_def)

lemma keys_ok_frame:
  assumes "keys_ok heap s" "mem_agree rec_key (ms_mem s) (ms_mem s')" "ms_is_weak s' = ms_is_weak s"
  shows "keys_ok heap s'"
  unfolding keys_ok_def
proof (intro allI impI)
  fix a b r q
  assume a: "ms_mem s' a = Some r" "ms_mem s' b = Some q" "map_can_match heap s' r" "map_can_match heap s' q"
    "key_of (mr_key r) = key_of (mr_key q)"
  from mem_agreeD [OF assms(2) a(1)] obtain r0 where r: "ms_mem s a = Some r0" "rec_key r0 = rec_key r" .
  from mem_agreeD [OF assms(2) a(2)] obtain q0 where q: "ms_mem s b = Some q0" "rec_key q0 = rec_key q" .
  show "a = b"
    using assms(1) r q a(3-5) can_match_cong [OF r(2) assms(3)] can_match_cong [OF q(2) assms(3)]
    unfolding keys_ok_def by (metis prod.inject)
qed

lemma nonempty_frame:
  assumes "mem_agree rec_key (ms_mem s) (ms_mem s')"
  shows "map_nonempty s' = map_nonempty s"
proof
  fix a
  have "map_option rec_key (ms_mem s a) = map_option rec_key (ms_mem s' a)"
    using assms by (simp add: mem_agree_def)
  then show "map_nonempty s' a = map_nonempty s a"
    by (cases "ms_mem s a"; cases "ms_mem s' a") (simp_all add: map_nonempty_def)
qed

lemma store_ok_frame:
  assumes "store_ok locks s rs" "mem_agree rec_key (ms_mem s) (ms_mem s')"
    and "ms_links s' = ms_links s" "ms_head s' = ms_head s" "ms_brk s' = ms_brk s" "ms_record_count s' = ms_record_count s"
    and "\<And>a r. ms_mem s' a = Some r \<Longrightarrow> record_ok (locks' a) r" "\<And>a. locks' a \<noteq> 0 \<Longrightarrow> a \<in> set rs"
  shows "store_ok locks' s' rs"
  using assms(1,3-8) unfolding store_ok_def mem_agree_dom [OF assms(2)] nonempty_frame [OF assms(2)] by auto

lemma table_ok_frame:
  assumes "table_ok heap s cs" "mem_agree (\<lambda>r. (rec_key r, mr_hash_next r)) (ms_mem s) (ms_mem s')"
    and "ms_is_weak s' = ms_is_weak s" "ms_hash_bits s' = ms_hash_bits s" "ms_hash_table s' = ms_hash_table s"
      "ms_hash_size s' = ms_hash_size s"
  shows "table_ok heap s' cs"
proof -
  have old: "\<exists>r. ms_mem s a = Some r \<and> rec_key r = rec_key r' \<and> mr_hash_next r = mr_hash_next r'" if "ms_mem s' a = Some r'" for a r'
    using mem_agreeD [OF assms(2) that] by auto
  have chain: "map_chain (ms_mem s') a xs" if "map_chain (ms_mem s) a xs" for a xs
    by (rule map_chain_frame [OF that]) (use mem_agreeD [OF mem_agree_sym [OF assms(2)]] in \<open>metis prod.inject\<close>)
  have hash_same: "map_hash_at s' r' = map_hash_at s r" if "rec_key r = rec_key r'" for r r'
    using that assms(4) by (simp add: map_hash_at_def)
  show ?thesis
    unfolding table_ok_def assms(4-6)
  proof (intro conjI allI impI)
    fix h :: nat
    assume h: "h < 2 ^ ms_hash_bits s"
    from assms(1) h show "map_chain (ms_mem s') (ms_hash_table s ! h) (cs h)" "distinct (cs h)"
      by (auto simp: table_ok_def intro: chain)
    fix a r'
    assume a: "a \<in> set (cs h)" "ms_mem s' a = Some r'"
    from old [OF a(2)] obtain r where r: "ms_mem s a = Some r" "rec_key r = rec_key r'" by auto
    with assms(1) h a(1) have "\<not> mr_empty r \<and> map_hash_at s r = h" by (simp add: table_ok_def)
    with r(2) hash_same [OF r(2)] show "\<not> mr_empty r'" "map_hash_at s' r' = h" by auto
  next
    fix a r'
    assume a: "ms_mem s' a = Some r'" "map_can_match heap s' r'"
    from old [OF a(1)] obtain r where r: "ms_mem s a = Some r" "rec_key r = rec_key r'" by auto
    with assms(1) a(2) can_match_cong [OF r(2) assms(3)] hash_same [OF r(2)] show "a \<in> set (cs (map_hash_at s' r'))"
      by (simp add: table_ok_def)
  qed (use assms(1) in \<open>auto simp: table_ok_def\<close>)
qed

text \<open>A record whose value or count changes.\<close>

lemma map_inv_touch:
  assumes "map_inv heap locks s rs" "ms_mem s a = Some r" "rec_key r' = rec_key r" "mr_hash_next r' = mr_hash_next r"
    and "record_ok n r'"
  shows "map_inv heap (locks(a := n)) (s\<lparr>ms_mem := (ms_mem s)(a \<mapsto> r')\<rparr>) rs"
proof -
  let ?s = "s\<lparr>ms_mem := (ms_mem s)(a \<mapsto> r')\<rparr>"
  from assms(1) obtain cs where inv: "store_ok locks s rs" "table_ok heap s cs" "keys_ok heap s"
    by (auto simp: map_inv_def)
  have k: "mem_agree rec_key (ms_mem s) (ms_mem ?s)" and l: "mem_agree (\<lambda>r. (rec_key r, mr_hash_next r)) (ms_mem s) (ms_mem ?s)"
    using assms(2-4) by (simp_all add: mem_agree_update)
  have "store_ok (locks(a := n)) ?s rs"
    using store_ok_record [OF inv(1)] assms(5)
    by (intro store_ok_frame [OF inv(1) k]) (use inv(1) assms(2) in \<open>auto simp: store_ok_def split: if_splits\<close>)
  moreover have "table_ok heap ?s cs" by (rule table_ok_frame [OF inv(2) l]) simp_all
  moreover have "keys_ok heap ?s" by (rule keys_ok_frame [OF inv(3) k]) simp
  ultimately show ?thesis by (auto simp: map_inv_def)
qed

lemma record_entry_cong:
  "ms_mem s' a = ms_mem s a \<Longrightarrow> ms_is_weak s' = ms_is_weak s \<Longrightarrow> record_entry heap s' a = record_entry heap s a"
  by (simp add: record_entry_def map_can_match_def split: option.splits)

text \<open>Replacing the value of a key, where there is one.\<close>

fun upd_entry :: "js_key \<Rightarrow> jsval \<Rightarrow> js_key \<times> jsval \<Rightarrow> js_key \<times> jsval" where
  "upd_entry k v (k', w) = (k', if k' = k then v else w)"

lemma upd_entry_missing: "k \<notin> fst ` set es \<Longrightarrow> map (upd_entry k v) es = es"
  by (induction es) auto

lemma AList_update_upd:
  "distinct (map fst es) \<Longrightarrow> AList.update k v es = map (upd_entry k v) es @ (if k \<in> fst ` set es then [] else [(k, v)])"
proof (induction es)
  case (Cons e es)
  then show ?case by (cases e) (auto simp: upd_entry_missing)
qed simp

lemma map_set_value_spec:
  assumes "map_inv heap locks s rs" "ms_mem s a = Some r" "map_can_match heap s r"
  shows "\<exists>s'. map_set_value s a v = Inr s' \<and> map_inv heap locks s' rs \<and> ms_is_weak s' = ms_is_weak s \<and>
    (\<forall>b. record_entry heap s' b = map (upd_entry (key_of (mr_key r)) v) (record_entry heap s b))"
proof -
  let ?s = "s\<lparr>ms_mem := (ms_mem s)(a \<mapsto> r\<lparr>mr_value := v\<rparr>)\<rparr>"
  have ok: "record_ok (locks a) (r\<lparr>mr_value := v\<rparr>)"
    using assms store_ok_record [of locks s rs a r] can_match_nonempty [OF assms(3)]
    by (auto simp: map_inv_def record_ok_def)
  have inv: "map_inv heap locks ?s rs"
    using map_inv_touch [OF assms(1,2) _ _ ok] by simp
  have can: "map_can_match heap ?s = map_can_match heap s" by (simp add: map_can_match_def fun_eq_iff)
  have "record_entry heap ?s b = map (upd_entry (key_of (mr_key r)) v) (record_entry heap s b)" for b
  proof (cases "b = a")
    case True
    with assms(2,3) show ?thesis by (simp add: record_entry_def can) (simp add: map_can_match_def)
  next
    case False
    with assms have "key_of (mr_key q) \<noteq> key_of (mr_key r)" if "ms_mem s b = Some q" "map_can_match heap s q" for q
      using that unfolding map_inv_def keys_ok_def by metis
    with False show ?thesis by (auto simp: record_entry_def can split: option.splits)
  qed
  with inv assms(2) show ?thesis by (simp add: map_set_value_def)
qed

section \<open>Enlarging the table\<close>

definition rehashed :: "js_heap \<Rightarrow> nat \<Rightarrow> JSMapState \<Rightarrow> nat list \<Rightarrow> (nat \<Rightarrow> nat list) \<Rightarrow> nat list \<Rightarrow> bool" where
  "rehashed heap bits s tab cs xs \<longleftrightarrow> length tab = 2 ^ bits \<and>
     (\<forall>h < 2 ^ bits. map_chain (ms_mem s) (tab ! h) (cs h) \<and> distinct (cs h) \<and> set (cs h) \<subseteq> set xs \<and>
        (\<forall>a r. a \<in> set (cs h) \<longrightarrow> ms_mem s a = Some r \<longrightarrow>
           \<not> mr_empty r \<and> unat (map_hash_key (mr_key r) bits) = h)) \<and>
     (\<forall>a r. a \<in> set xs \<longrightarrow> ms_mem s a = Some r \<longrightarrow> map_can_match heap s r \<longrightarrow>
        a \<in> set (cs (unat (map_hash_key (mr_key r) bits))))"

lemma rehashed_skip:
  assumes "rehashed heap bits s tab cs xs" "ms_mem s y = Some r" "\<not> map_can_match heap s r"
  shows "rehashed heap bits s tab cs (xs @ [y])"
  using assms unfolding rehashed_def by fastforce

lemma rehashed_insert:
  assumes "rehashed heap bits s tab cs xs" "ms_mem s y = Some r" "map_can_match heap s r" "y \<notin> set xs" "y \<noteq> 0"
    and h: "h = unat (map_hash_key (mr_key r) bits)" "h < 2 ^ bits"
  shows "rehashed heap bits (s\<lparr>ms_mem := (ms_mem s)(y \<mapsto> r\<lparr>mr_hash_next := tab ! h\<rparr>)\<rparr>)
    (tab[h := y]) (cs(h := y # cs h)) (xs @ [y])"
proof -
  let ?r = "r\<lparr>mr_hash_next := tab ! h\<rparr>"
  let ?mem = "(ms_mem s)(y \<mapsto> ?r)"
  have y: "y \<notin> set (cs i)" if "i < 2 ^ bits" for i
    using assms(1,4) that by (auto simp: rehashed_def)
  have chain: "map_chain ?mem (tab ! i) (cs i)" if "i < 2 ^ bits" for i
    by (rule map_chain_frame [of "ms_mem s"]) (use assms(1) that y [OF that] in \<open>auto simp: rehashed_def\<close>)
  have len: "length tab = 2 ^ bits" using assms(1) by (simp add: rehashed_def)
  have chain_h: "map_chain ?mem (tab[h := y] ! i) ((cs(h := y # cs h)) i)" if "i < 2 ^ bits" for i
    using chain [OF that] assms(5) len h(2) by (cases "i = h") auto
  have elems: "\<not> mr_empty q \<and> unat (map_hash_key (mr_key q) bits) = i"
    if "i < 2 ^ bits" "a \<in> set ((cs(h := y # cs h)) i)" "?mem a = Some q" for i a q
  proof (cases "a = y")
    case True
    with that y [OF that(1)] can_match_nonempty [OF assms(3)] h(1) show ?thesis by (auto split: if_splits)
  next
    case False
    with that have "a \<in> set (cs i)" "ms_mem s a = Some q" by (auto split: if_splits)
    with assms(1) that(1) show ?thesis by (auto simp: rehashed_def)
  qed
  have complete: "a \<in> set ((cs(h := y # cs h)) (unat (map_hash_key (mr_key q) bits)))"
    if "a \<in> set (xs @ [y])" "?mem a = Some q" "map_can_match heap s q" for a q
  proof (cases "a = y")
    case True
    with that h(1) show ?thesis by auto
  next
    case False
    with that have "a \<in> set xs" "ms_mem s a = Some q" by (auto split: if_splits)
    with assms(1) that(3) have "a \<in> set (cs (unat (map_hash_key (mr_key q) bits)))" by (simp add: rehashed_def)
    then show ?thesis by (cases "unat (map_hash_key (mr_key q) bits) = h") auto
  qed
  have can: "map_can_match heap (s\<lparr>ms_mem := ?mem\<rparr>) q = map_can_match heap s q" for q
    by (simp add: map_can_match_def)
  have sub: "distinct ((cs(h := y # cs h)) i)" "set ((cs(h := y # cs h)) i) \<subseteq> set (xs @ [y])" if "i < 2 ^ bits" for i
    using assms(1) that y [OF that] by (auto simp: rehashed_def)
  show ?thesis
    unfolding rehashed_def can
    using len chain_h elems complete sub by (simp del: fun_upd_apply)
qed

lemma map_rehash_loop_spec:
  "dll_seg (ms_links s) p ys (ms_head s) \<Longrightarrow> ms_head s \<notin> set ys \<Longrightarrow> distinct (xs @ ys) \<Longrightarrow> set ys \<subseteq> dom (ms_mem s) \<Longrightarrow>
   0 \<notin> set ys \<Longrightarrow> length ys \<le> fuel \<Longrightarrow> 1 \<le> bits \<Longrightarrow> bits \<le> 32 \<Longrightarrow> rehashed heap bits s tab cs xs \<Longrightarrow>
   \<exists>mem' tab' cs'. map_rehash_loop heap bits s tab (hd (ys @ [ms_head s])) fuel = Inr (s\<lparr>ms_mem := mem'\<rparr>, tab') \<and>
     mem_agree (mr_hash_next_update (\<lambda>_. 0)) (ms_mem s) mem' \<and>
     rehashed heap bits (s\<lparr>ms_mem := mem'\<rparr>) tab' cs' (xs @ ys)"
proof (induction ys arbitrary: p xs s tab cs fuel)
  case Nil
  have "map_rehash_loop heap bits s tab (ms_head s) fuel = Inr (s, tab)"
    by (subst map_rehash_loop.simps) simp
  with Nil show ?case by (intro exI [of _ "ms_mem s"] exI [of _ tab] exI [of _ cs]) simp
next
  case (Cons y ys)
  obtain r where r: "ms_mem s y = Some r" using Cons.prems(4) by auto
  obtain f where f: "fuel = Suc f" using Cons.prems(6) by (cases fuel) auto
  have n: "l_next (ms_links s) y = hd (ys @ [ms_head s])" and seg: "dll_seg (ms_links s) y ys (ms_head s)"
    using Cons.prems(1) dll_seg_next [of "ms_links s" y ys "ms_head s"] by auto
  have ne: "y \<noteq> ms_head s" using Cons.prems(2) by auto
  let ?h = "unat (map_hash_key (mr_key r) bits)"
  have h: "?h < 2 ^ bits" using Cons.prems(7,8) by (rule map_hash_key_less)
  show ?case
  proof (cases "map_can_match heap s r")
    case False
    have e: "map_rehash_loop heap bits s tab (hd ((y # ys) @ [ms_head s])) fuel =
        map_rehash_loop heap bits s tab (hd (ys @ [ms_head s])) f"
      using r f n ne False by (subst map_rehash_loop.simps) simp
    have "\<exists>mem' tab' cs'. map_rehash_loop heap bits s tab (hd (ys @ [ms_head s])) f = Inr (s\<lparr>ms_mem := mem'\<rparr>, tab') \<and>
        mem_agree (mr_hash_next_update (\<lambda>_. 0)) (ms_mem s) mem' \<and>
        rehashed heap bits (s\<lparr>ms_mem := mem'\<rparr>) tab' cs' ((xs @ [y]) @ ys)"
      by (rule Cons.IH [OF seg _ _ _ _ _ Cons.prems(7,8) rehashed_skip [OF Cons.prems(9) r False]])
        (use Cons.prems f in auto)
    then show ?thesis unfolding e by simp
  next
    case True
    let ?s = "s\<lparr>ms_mem := (ms_mem s)(y \<mapsto> r\<lparr>mr_hash_next := tab ! ?h\<rparr>)\<rparr>"
    have len: "length tab = 2 ^ bits" using Cons.prems(9) by (simp add: rehashed_def)
    have e: "map_rehash_loop heap bits s tab (hd ((y # ys) @ [ms_head s])) fuel =
        map_rehash_loop heap bits ?s (tab[?h := y]) (hd (ys @ [ms_head ?s])) f"
      using r f n ne True h len by (subst map_rehash_loop.simps) (simp add: Let_def)
    have ins: "rehashed heap bits ?s (tab[?h := y]) (cs(?h := y # cs ?h)) (xs @ [y])"
      using Cons.prems by (intro rehashed_insert [OF Cons.prems(9) r True _ _ refl h]) auto
    have "\<exists>mem' tab' cs'. map_rehash_loop heap bits ?s (tab[?h := y]) (hd (ys @ [ms_head ?s])) f = Inr (?s\<lparr>ms_mem := mem'\<rparr>, tab') \<and>
        mem_agree (mr_hash_next_update (\<lambda>_. 0)) (ms_mem ?s) mem' \<and>
        rehashed heap bits (?s\<lparr>ms_mem := mem'\<rparr>) tab' cs' ((xs @ [y]) @ ys)"
      by (rule Cons.IH [OF _ _ _ _ _ _ Cons.prems(7,8) ins, where p = y]) (use Cons.prems f seg in auto)
    then obtain mem' tab' cs' where m: "map_rehash_loop heap bits ?s (tab[?h := y]) (hd (ys @ [ms_head ?s])) f = Inr (s\<lparr>ms_mem := mem'\<rparr>, tab')"
      "mem_agree (mr_hash_next_update (\<lambda>_. 0)) (ms_mem ?s) mem'"
      "rehashed heap bits (s\<lparr>ms_mem := mem'\<rparr>) tab' cs' (xs @ y # ys)" by auto
    have "mem_agree (mr_hash_next_update (\<lambda>_. 0)) (ms_mem s) (ms_mem ?s)"
      using r by (simp add: mem_agree_update)
    from mem_agree_trans [OF this m(2)] m show ?thesis unfolding e by auto
  qed
qed

lemma mem_agree_weaken:
  assumes "mem_agree (mr_hash_next_update (\<lambda>_. 0)) mem mem'" "\<And>r. f (mr_hash_next_update (\<lambda>_. 0) r) = f r"
  shows "mem_agree f mem mem'"
proof -
  have "map_option f (map_option (mr_hash_next_update (\<lambda>_. 0)) x) = map_option f x" for x
    by (cases x) (simp_all add: assms(2))
  with assms(1) show ?thesis unfolding mem_agree_def by metis
qed

text \<open>Two states that differ in the hash table only.\<close>

definition same_records :: "JSMapState \<Rightarrow> JSMapState \<Rightarrow> bool" where
  "same_records s s' \<longleftrightarrow> mem_agree (mr_hash_next_update (\<lambda>_. 0)) (ms_mem s) (ms_mem s') \<and>
     ms_is_weak s' = ms_is_weak s \<and> ms_head s' = ms_head s \<and> ms_links s' = ms_links s \<and> ms_brk s' = ms_brk s \<and>
     ms_record_count s' = ms_record_count s"

lemma same_records_refl [simp]: "same_records s s"
  by (simp add: same_records_def)

lemma same_records_agree:
  "same_records s s' \<Longrightarrow> (\<And>r. f (mr_hash_next_update (\<lambda>_. 0) r) = f r) \<Longrightarrow> mem_agree f (ms_mem s) (ms_mem s')"
  by (auto simp: same_records_def intro: mem_agree_weaken)

lemma same_records_entry:
  assumes "same_records s s'"
  shows "record_entry heap s' a = record_entry heap s a"
proof -
  have "mem_agree (\<lambda>r. (rec_key r, mr_value r)) (ms_mem s) (ms_mem s')"
    by (rule same_records_agree [OF assms]) simp
  then have "map_option (\<lambda>r. (rec_key r, mr_value r)) (ms_mem s a) = map_option (\<lambda>r. (rec_key r, mr_value r)) (ms_mem s' a)"
    by (simp add: mem_agree_def)
  with assms show ?thesis
    by (cases "ms_mem s a"; cases "ms_mem s' a")
      (auto simp: record_entry_def map_can_match_def same_records_def)
qed

lemma same_records_entries: "same_records s s' \<Longrightarrow> map_entries heap s' rs = map_entries heap s rs"
  by (intro map_entries_cong) (rule same_records_entry)

lemma same_records_store:
  assumes "store_ok locks s rs" "same_records s s'"
  shows "store_ok locks s' rs"
proof (rule store_ok_frame [OF assms(1)])
  show "mem_agree rec_key (ms_mem s) (ms_mem s')"
    by (rule same_records_agree [OF assms(2)]) simp
  have ok: "record_ok n (mr_hash_next_update (\<lambda>_. 0) r) = record_ok n r" for n r
    by (simp add: record_ok_def)
  show "record_ok (locks a) r'" if a: "ms_mem s' a = Some r'" for a r'
  proof -
    from assms(2) have "mem_agree (mr_hash_next_update (\<lambda>_. 0)) (ms_mem s) (ms_mem s')" by (simp add: same_records_def)
    from mem_agreeD [OF this a] obtain r where "ms_mem s a = Some r" "mr_hash_next_update (\<lambda>_. 0) r = mr_hash_next_update (\<lambda>_. 0) r'" .
    with store_ok_record [OF assms(1)] ok [of "locks a" r] ok [of "locks a" r'] show ?thesis by metis
  qed
qed (use assms in \<open>auto simp: same_records_def store_ok_def\<close>)

lemma table_ok_rehashed:
  assumes "rehashed heap bits s tab cs rs" "set rs = dom (ms_mem s)" "1 \<le> bits" "bits \<le> 31"
    "unat size' = 2 ^ bits"
  shows "table_ok heap (s\<lparr>ms_hash_table := tab, ms_hash_bits := bits, ms_hash_size := size',
           ms_record_count_threshold := t\<rparr>) cs"
proof -
  have "a \<in> set rs" if "ms_mem s a = Some r" for a r using assms(2) that by blast
  with assms show ?thesis
    by (simp add: table_ok_def rehashed_def map_hash_at_def map_can_match_def)
qed

lemma unat_push_bit_1: "n \<le> 31 \<Longrightarrow> unat (push_bit n (1 :: u32)) = 2 ^ n"
proof -
  assume "n \<le> 31"
  then have "(2 :: nat) ^ n \<le> 2 ^ 31" by (intro power_increasing) simp_all
  then have "(2 :: nat) ^ n < 2 ^ 32" by simp
  with \<open>n \<le> 31\<close> show ?thesis unfolding unsigned_push_bit_eq by (simp add: take_bit_nat_eq_self_iff push_bit_eq_mult)
qed

lemma map_hash_resize_spec:
  assumes "map_inv heap locks s rs"
  shows "\<exists>s' ans'. map_hash_resize heap s ans = (Inr s', ans') \<and> map_inv heap locks s' rs \<and> same_records s s' \<and>
    set ans' \<subseteq> set ans"
proof -
  from assms obtain cs where inv: "store_ok locks s rs" "table_ok heap s cs" "keys_ok heap s"
    by (auto simp: map_inv_def)
  define bits where "bits = min (ms_hash_bits s + 1) 31"
  have b: "1 \<le> bits" "bits \<le> 31" "bits \<le> 32" using inv(2) by (auto simp: bits_def table_ok_def)
  have sz: "unat (push_bit bits (1 :: u32)) = 2 ^ bits" using b by (intro unat_push_bit_1)
  obtain r ans' where m: "js_malloc_block ans = (r, ans')" by (cases "js_malloc_block ans")
  have sub: "set ans' \<subseteq> set ans"
    using m by (auto simp: js_malloc_block_def split: list.splits option.splits)
  note l = store_ok_list [OF inv(1)]
  have "rehashed heap bits s (replicate (2 ^ bits) 0) (\<lambda>_. []) []"
    by (simp add: rehashed_def)
  moreover have "dll_seg (ms_links s) (ms_head s) rs (ms_head s)" "ms_head s \<notin> set rs" "0 \<notin> set rs"
    using l(1) inv(1) by (auto simp: dll_def store_ok_def)
  ultimately obtain mem' tab' cs' where
    e: "map_rehash_loop heap bits s (replicate (2 ^ bits) 0) (hd (rs @ [ms_head s])) (ms_brk s) =
        Inr (s\<lparr>ms_mem := mem'\<rparr>, tab')"
    and agree: "mem_agree (mr_hash_next_update (\<lambda>_. 0)) (ms_mem s) mem'"
    and re: "rehashed heap bits (s\<lparr>ms_mem := mem'\<rparr>) tab' cs' rs"
    using map_rehash_loop_spec [of s "ms_head s" rs "[]" "ms_brk s" bits heap "replicate (2 ^ bits) 0" "\<lambda>_. []"] b l by auto
  define s' where "s' = s\<lparr>ms_mem := mem', ms_hash_table := tab', ms_hash_bits := bits, ms_hash_size := push_bit bits 1,
    ms_record_count_threshold := push_bit bits 1 * 2\<rparr>"
  have same: "same_records s s'" using agree by (simp add: same_records_def s'_def)
  have "set rs = dom (ms_mem (s\<lparr>ms_mem := mem'\<rparr>))" using l(2) mem_agree_dom [OF agree] by simp
  from table_ok_rehashed [OF re this b(1,2) sz] have "table_ok heap s' cs'" by (simp add: s'_def)
  moreover have "keys_ok heap s'"
    by (rule keys_ok_frame [OF inv(3)]) (use same in \<open>auto intro: same_records_agree simp: same_records_def\<close>)
  ultimately have inv': "map_inv heap locks s' rs"
    using same_records_store [OF inv(1) same] by (auto simp: map_inv_def)
  have n: "l_next (ms_links s) (ms_head s) = hd (rs @ [ms_head s])"
    using l(1) dll_seg_next by (auto simp: dll_def)
  show ?thesis
  proof (cases r)
    case (Inl er)
    with m sub assms show ?thesis
      by (intro exI [of _ s] exI [of _ ans']) (simp add: map_hash_resize_def Let_def)
  next
    case (Inr u)
    have "map_hash_resize heap s ans = (Inr s', ans')"
      unfolding map_hash_resize_def Let_def bits_def [symmetric] m Inr sz n by (simp add: e s'_def)
    with inv' same sub show ?thesis by blast
  qed
qed

section \<open>Adding a record\<close>

text \<open>A key that a new record can have: normalized, alive, and not in the map.\<close>

definition new_key :: "js_heap \<Rightarrow> JSMapState \<Rightarrow> jsval \<Rightarrow> bool" where
  "new_key heap s k \<longleftrightarrow> key_normal k \<and> (ms_is_weak s \<longrightarrow> js_weakref_is_live heap k) \<and>
     (\<forall>x r. ms_mem s x = Some r \<longrightarrow> map_can_match heap s r \<longrightarrow> key_of (mr_key r) \<noteq> key_of k)"

lemma map_link_record_simps [simp]:
  "ms_is_weak (map_link_record s k h) = ms_is_weak s"
  "ms_head (map_link_record s k h) = ms_head s"
  "ms_links (map_link_record s k h) = list_add_tail (ms_brk s) (ms_head s) (ms_links s)"
  "ms_mem (map_link_record s k h) = (ms_mem s)(ms_brk s \<mapsto> \<lparr>mr_ref_count = 1, mr_empty = False,
     mr_hash_next = ms_hash_table s ! h, mr_key = k, mr_value = JS_Undefined\<rparr>)"
  "ms_brk (map_link_record s k h) = ms_brk s + 1"
  "ms_record_count (map_link_record s k h) = ms_record_count s + 1"
  "ms_hash_table (map_link_record s k h) = (ms_hash_table s)[h := ms_brk s]"
  "ms_hash_bits (map_link_record s k h) = ms_hash_bits s"
  "ms_hash_size (map_link_record s k h) = ms_hash_size s"
  by (simp_all add: map_link_record_def Let_def)

lemma map_link_record_store:
  assumes "store_ok locks s rs" "key_normal k"
  shows "store_ok locks (map_link_record s k h) (rs @ [ms_brk s])"
proof -
  let ?s = "map_link_record s k h" and ?mr = "ms_brk s"
  note l = store_ok_list [OF assms(1)]
  have b: "?mr \<notin> set (ms_head s # rs)" "?mr \<notin> dom (ms_mem s)" "0 < ms_head s" "ms_head s < ?mr" "0 < ?mr"
    using assms(1) by (auto simp: store_ok_def)
  have dll: "dll (ms_links ?s) (ms_head ?s) (rs @ [?mr])"
    using list_add_tail_spec [OF l(1) b(1)] by (simp)
  have ne: "map_nonempty ?s a \<longleftrightarrow> a = ?mr \<or> map_nonempty s a" for a
    by (auto simp: map_nonempty_def)
  have "filter (map_nonempty ?s) rs = filter (map_nonempty s) rs"
    using b by (intro filter_cong) (auto simp: ne)
  then have count: "ms_record_count ?s = word_of_nat (length (filter (map_nonempty ?s) (rs @ [?mr])))"
    using assms(1) by (simp add: ne store_ok_def)
  have "locks ?mr = 0" using assms(1) b by (auto simp: store_ok_def)
  then have rec: "record_ok (locks a) r" if "ms_mem ?s a = Some r" for a r
    using that store_ok_record [OF assms(1), of a r] assms(2)
    by (cases "a = ?mr") (auto simp: record_ok_def)
  have lt: "\<forall>a\<in>insert (ms_head s) (set (rs @ [?mr])). 0 < a \<and> a < ms_brk s + 1"
    using assms(1) b by (auto simp: store_ok_def intro: less_SucI)
  have locks: "\<forall>a. locks a \<noteq> 0 \<longrightarrow> a \<in> set (rs @ [?mr])" using assms(1) by (auto simp: store_ok_def)
  have dom: "set (rs @ [?mr]) = dom (ms_mem ?s)" using l(2) by auto
  show ?thesis
    unfolding store_ok_def using dll dom lt locks rec count by simp
qed

lemma map_link_record_can:
  "map_can_match heap (map_link_record s k h) r = map_can_match heap s r"
  by (simp add: map_can_match_def)

lemma map_link_record_table:
  assumes "store_ok locks s rs" "table_ok heap s cs" "h = unat (map_hash_key k (ms_hash_bits s))"
  shows "table_ok heap (map_link_record s k h) (cs(h := ms_brk s # cs h))"
proof -
  let ?s = "map_link_record s k h" and ?mr = "ms_brk s" and ?n = "ms_hash_bits s"
  let ?cs = "cs(h := ?mr # cs h)"
  have h: "h < 2 ^ ?n" "length (ms_hash_table s) = 2 ^ ?n"
    using assms(2,3) map_hash_key_less [of ?n k] by (auto simp: table_ok_def)
  have b: "?mr \<notin> dom (ms_mem s)" "0 < ?mr" using assms(1) by (auto simp: store_ok_def)
  have notin: "?mr \<notin> set (cs i)" if "i < 2 ^ ?n" for i
    using assms(2) that b(1) map_chain_dom [of "ms_mem s" "ms_hash_table s ! i" "cs i" ?mr] by (auto simp: table_ok_def)
  have chain: "map_chain (ms_mem ?s) (ms_hash_table s ! i) (cs i)" if "i < 2 ^ ?n" for i
    by (rule map_chain_frame [of "ms_mem s"])
      (use assms(2) that notin [OF that] in \<open>auto simp: table_ok_def\<close>)
  have "map_chain (ms_mem ?s) (ms_hash_table ?s ! i) (?cs i)" if "i < 2 ^ ?n" for i
    using chain [OF that] chain [OF h(1)] h b(2) by (cases "i = h") (auto)
  moreover have "distinct (?cs i)" if "i < 2 ^ ?n" for i
    using assms(2) that notin [OF that] by (auto simp: table_ok_def)
  moreover have "\<not> mr_empty r \<and> map_hash_at ?s r = i"
    if "i < 2 ^ ?n" "a \<in> set (?cs i)" "ms_mem ?s a = Some r" for i a r
  proof (cases "a = ?mr")
    case True
    with that notin [OF that(1)] assms(3) show ?thesis
      by (auto simp: map_hash_at_def split: if_splits)
  next
    case False
    with that have "a \<in> set (cs i)" "ms_mem s a = Some r" by (auto simp: split: if_splits)
    with assms(2) that(1) show ?thesis by (auto simp: table_ok_def map_hash_at_def)
  qed
  moreover have "a \<in> set (?cs (map_hash_at ?s r))" if "ms_mem ?s a = Some r" "map_can_match heap ?s r" for a r
  proof (cases "a = ?mr")
    case True
    with that assms(3) show ?thesis by (auto simp: map_hash_at_def)
  next
    case False
    with that have "ms_mem s a = Some r" "map_can_match heap s r"
      by (auto simp: map_link_record_can)
    with assms(2) have "a \<in> set (cs (map_hash_at s r))" by (simp add: table_ok_def)
    then show ?thesis by (auto simp: map_hash_at_def)
  qed
  moreover have "ms_hash_bits ?s = ?n" "ms_hash_size ?s = ms_hash_size s" "length (ms_hash_table ?s) = length (ms_hash_table s)"
    by (simp_all add:)
  ultimately show ?thesis
    using assms(2) unfolding table_ok_def by (simp del: fun_upd_apply)
qed

lemma map_link_record_spec:
  assumes "map_inv heap locks s rs" "new_key heap s k" "h = unat (map_hash_key k (ms_hash_bits s))"
  defines "s' \<equiv> map_link_record s k h"
  shows "map_inv heap locks s' (rs @ [ms_brk s])"
    and "\<forall>b\<in>set rs. record_entry heap s' b = record_entry heap s b"
    and "record_entry heap s' (ms_brk s) = [(key_of k, JS_Undefined)]"
    and "\<exists>r. ms_mem s' (ms_brk s) = Some r \<and> map_can_match heap s' r \<and> mr_key r = k"
proof -
  from assms(1) obtain cs where inv: "store_ok locks s rs" "table_ok heap s cs" "keys_ok heap s"
    by (auto simp: map_inv_def)
  have b: "ms_brk s \<notin> set rs" using inv(1) by (auto simp: store_ok_def)
  have new: "\<exists>r. ms_mem s' (ms_brk s) = Some r \<and> map_can_match heap s' r \<and> mr_key r = k \<and> mr_value r = JS_Undefined"
    using assms(2) by (simp add: s'_def map_can_match_def new_key_def)
  then show "\<exists>r. ms_mem s' (ms_brk s) = Some r \<and> map_can_match heap s' r \<and> mr_key r = k" by blast
  have old: "ms_mem s' a = ms_mem s a" if "a \<noteq> ms_brk s" for a
    using that by (simp add: s'_def)
  have "keys_ok heap s'"
    unfolding keys_ok_def
  proof (intro allI impI)
    fix a c r q
    assume a: "ms_mem s' a = Some r" "ms_mem s' c = Some q" "map_can_match heap s' r" "map_can_match heap s' q"
      "key_of (mr_key r) = key_of (mr_key q)"
    show "a = c"
      using a new old [of a] old [of c] assms(2) inv(3) unfolding keys_ok_def new_key_def s'_def map_link_record_can
      by (metis option.inject)
  qed
  with map_link_record_store [OF inv(1), of k h] map_link_record_table [OF inv(1,2) assms(3)] assms(2)
  show "map_inv heap locks s' (rs @ [ms_brk s])"
    by (auto simp: map_inv_def s'_def new_key_def)
  show "\<forall>b\<in>set rs. record_entry heap s' b = record_entry heap s b"
    using b old by (auto intro!: record_entry_cong simp: s'_def)
  from new show "record_entry heap s' (ms_brk s) = [(key_of k, JS_Undefined)]"
    by (auto simp: record_entry_def)
qed

text \<open>The list of records after an operation is the old one with some records at the end.\<close>

lemma map_add_record_spec:
  assumes "map_inv heap locks s rs" "new_key heap s k"
  shows "(\<exists>s' ans' r. map_add_record heap s k ans = (Inr (ms_brk s, s'), ans') \<and> set ans' \<subseteq> set ans \<and>
            map_inv heap locks s' (rs @ [ms_brk s]) \<and> ms_is_weak s' = ms_is_weak s \<and>
            (\<forall>b\<in>set rs. record_entry heap s' b = record_entry heap s b) \<and>
            record_entry heap s' (ms_brk s) = [(key_of k, JS_Undefined)] \<and>
            ms_mem s' (ms_brk s) = Some r \<and> map_can_match heap s' r \<and> mr_key r = k) \<or>
         (\<exists>ans'. map_add_record heap s k ans = (Inl OutOfMemory, ans') \<and> set ans' \<subseteq> set ans \<and> None \<in> set ans)"
proof -
  let ?h = "unat (map_hash_key k (ms_hash_bits s))"
  let ?s = "map_link_record s k ?h"
  obtain r ans1 where m: "js_malloc_block ans = (r, ans1)" by (cases "js_malloc_block ans")
  have sub: "set ans1 \<subseteq> set ans"
    using m by (auto simp: js_malloc_block_def split: list.splits option.splits)
  from assms(1) obtain cs where tab: "table_ok heap s cs" by (auto simp: map_inv_def)
  then have h: "?h < length (ms_hash_table s)" using map_hash_key_less [of "ms_hash_bits s" k] by (auto simp: table_ok_def)
  note link = map_link_record_spec [OF assms refl]
  show ?thesis
  proof (cases r)
    case (Inl e)
    with m have "e = OutOfMemory \<and> None \<in> set ans" by (auto simp: js_malloc_block_def split: list.splits option.splits)
    with m Inl sub show ?thesis by (intro disjI2) (simp add: map_add_record_def js_bind_def)
  next
    case (Inr u)
    let ?grow = "if ms_record_count ?s \<ge> ms_record_count_threshold ?s then map_hash_resize heap ?s else js_return ?s"
    have "\<exists>s' ans'. ?grow ans1 = (Inr s', ans') \<and> map_inv heap locks s' (rs @ [ms_brk s]) \<and> same_records ?s s' \<and> set ans' \<subseteq> set ans1"
    proof (cases "ms_record_count ?s \<ge> ms_record_count_threshold ?s")
      case True
      with map_hash_resize_spec [OF link(1), of ans1] show ?thesis by (simp only: if_True)
    next
      case False
      with link(1) show ?thesis
        by (intro exI [of _ ?s] exI [of _ ans1]) (simp only: if_False js_return_def same_records_refl subset_refl simp_thms)
    qed
    then obtain s' ans' where n: "?grow ans1 = (Inr s', ans')"
      and inv': "map_inv heap locks s' (rs @ [ms_brk s])" and same: "same_records ?s s'" and sub': "set ans' \<subseteq> set ans1"
      by blast
    have e: "map_add_record heap s k ans = (Inr (ms_brk s, s'), ans')"
      using m Inr h n unfolding map_add_record_def Let_def js_bind_def by (simp add: js_return_def)
    from link(4) obtain q where q: "ms_mem ?s (ms_brk s) = Some q" "map_can_match heap ?s q" "mr_key q = k" by blast
    have "mem_agree rec_key (ms_mem ?s) (ms_mem s')" by (rule same_records_agree [OF same]) simp
    from mem_agreeD [OF mem_agree_sym [OF this] q(1)] obtain q' where
      q': "ms_mem s' (ms_brk s) = Some q'" "rec_key q' = rec_key q" .
    have "map_can_match heap s' q' = map_can_match heap ?s q"
      by (rule can_match_cong [OF q'(2) [symmetric]]) (use same in \<open>simp add: same_records_def\<close>)
    with q' q e inv' sub sub' link(2,3) same_records_entry [OF same, of heap] same show ?thesis
      by (intro disjI1 exI [of _ s'] exI [of _ ans'] exI [of _ q']) (auto simp: same_records_def)
  qed
qed

section \<open>The methods\<close>

lemma map_find_new_key:
  assumes "map_inv heap locks s rs" "key_normal k" "ms_is_weak s \<longrightarrow> js_weakref_is_live heap k"
  obtains (found) x r where "ms_mem s x = Some r" "map_can_match heap s r" "key_of (mr_key r) = key_of k"
      "map_find_record heap s k = Inr x" "x \<noteq> 0" "map_of (map_entries heap s rs) (key_of k) = Some (mr_value r)"
  | (missing) "new_key heap s k" "map_find_record heap s k = Inr 0" "map_of (map_entries heap s rs) (key_of k) = None"
proof (cases rule: map_find_record_cases [OF assms(1,2)])
  case (1 x r)
  with map_of_entries [OF assms(1), of x r] show thesis by (intro found) auto
next
  case 2
  with assms map_of_entries_missing [of s heap "key_of k" rs] show thesis by (intro missing) (auto simp: new_key_def)
qed

text \<open>The list of records grows at its end only.\<close>

lemma js_map_set_records:
  fixes v :: jsval and is_set :: bool
  assumes "map_inv heap locks s rs" "jsval_ok k"
    and weak: "ms_is_weak s \<Longrightarrow> js_weakref_is_target heap (map_normalize_key k) \<and> js_weakref_is_live heap (map_normalize_key k)"
  defines "nv \<equiv> if is_set then JS_Undefined else v"
  shows "(\<exists>s' ans' rs'. js_map_set heap is_set s k v ans = (Inr s', ans') \<and> set ans' \<subseteq> set ans \<and>
            map_inv heap locks s' (rs @ rs') \<and> ms_is_weak s' = ms_is_weak s \<and>
            (\<forall>b\<in>set rs. record_entry heap s' b = map (upd_entry (key_of k) nv) (record_entry heap s b)) \<and>
            map_entries heap s' rs' = (if key_of k \<in> fst ` set (map_entries heap s rs) then [] else [(key_of k, nv)])) \<or>
         (\<exists>ans'. js_map_set heap is_set s k v ans = (Inl OutOfMemory, ans') \<and> set ans' \<subseteq> set ans \<and> None \<in> set ans)"
proof -
  let ?k = "map_normalize_key k"
  have k: "key_normal ?k" "key_of ?k = key_of k"
    using map_normalize_key_normal [OF assms(2)] by (simp_all add: map_normalize_key_of)
  have e: "js_map_set heap is_set s k v ans =
      js_bind (js_lift (map_find_record heap s ?k)) (\<lambda>mr.
        if mr \<noteq> 0 then js_lift (map_set_value s mr nv)
        else js_bind (map_add_record heap s ?k) (\<lambda>(mr, s). js_lift (map_set_value s mr nv))) ans"
    unfolding nv_def using weak by (cases "ms_is_weak s") (simp_all add: js_map_set_def Let_def)
  have live: "ms_is_weak s \<longrightarrow> js_weakref_is_live heap ?k" using weak by blast
  from assms(1) k(1) live show ?thesis
  proof (cases rule: map_find_new_key)
    case (found x r)
    from map_set_value_spec [OF assms(1) found(1,2), of nv] obtain s' where
      "map_set_value s x nv = Inr s'" "map_inv heap locks s' rs" "ms_is_weak s' = ms_is_weak s"
      "\<forall>b. record_entry heap s' b = map (upd_entry (key_of (mr_key r)) nv) (record_entry heap s b)"
      by blast
    moreover have "key_of k \<in> fst ` set (map_entries heap s rs)"
      using found(6) k by (metis map_of_eq_None_iff option.distinct(1))
    ultimately show ?thesis using found k
      by (intro disjI1 exI [of _ s'] exI [of _ ans] exI [of _ "[]"]) (simp add: e js_bind_def js_lift_def)
  next
    case missing
    from map_add_record_spec [OF assms(1) missing(1), of ans] show ?thesis
    proof (elim disjE exE conjE)
      fix s1 ans1 r
      assume a: "map_add_record heap s ?k ans = (Inr (ms_brk s, s1), ans1)" "set ans1 \<subseteq> set ans"
        "map_inv heap locks s1 (rs @ [ms_brk s])" "ms_is_weak s1 = ms_is_weak s"
        "\<forall>b\<in>set rs. record_entry heap s1 b = record_entry heap s b"
        "record_entry heap s1 (ms_brk s) = [(key_of ?k, JS_Undefined)]"
        "ms_mem s1 (ms_brk s) = Some r" "map_can_match heap s1 r" "mr_key r = ?k"
      from map_set_value_spec [OF a(3,7,8), of nv] a(9) obtain s' where
        s': "map_set_value s1 (ms_brk s) nv = Inr s'" "map_inv heap locks s' (rs @ [ms_brk s])" "ms_is_weak s' = ms_is_weak s1"
          "\<forall>b. record_entry heap s' b = map (upd_entry (key_of k) nv) (record_entry heap s1 b)"
        using k by auto
      have "key_of k \<notin> fst ` set (map_entries heap s rs)"
        using missing(3) k by (simp add: map_of_eq_None_iff)
      with a s' missing k show ?thesis
        by (intro disjI1 exI [of _ s'] exI [of _ ans1] exI [of _ "[ms_brk s]"])
          (simp add: e js_bind_def js_lift_def)
    next
      fix ans1
      assume "map_add_record heap s ?k ans = (Inl OutOfMemory, ans1)" "set ans1 \<subseteq> set ans" "None \<in> set ans"
      with missing show ?thesis
        by (intro disjI2 exI [of _ ans1]) (simp add: e js_bind_def js_lift_def)
    qed
  qed
qed

lemma map_entries_records:
  assumes "\<forall>b\<in>set rs. record_entry heap s' b = f (record_entry heap s b)"
    and "f [] = []" "\<And>xs ys. f (xs @ ys) = f xs @ f ys"
  shows "map_entries heap s' rs = f (map_entries heap s rs)"
  using assms(1) by (induction rs) (simp_all add: assms(2,3))

lemma js_map_get_spec:
  assumes "map_inv heap locks s rs" "jsval_ok k"
  shows "js_map_get heap s k =
      Inr (case map_of (map_entries heap s rs) (key_of k) of None \<Rightarrow> JS_Undefined | Some v \<Rightarrow> v)"
    and "js_map_has heap s k = Inr (map_of (map_entries heap s rs) (key_of k) \<noteq> None)"
proof -
  have k: "key_normal (map_normalize_key k)" "key_of (map_normalize_key k) = key_of k"
    using map_normalize_key_normal [OF assms(2)] by (simp_all add: map_normalize_key_of)
  have "js_map_get heap s k =
        Inr (case map_of (map_entries heap s rs) (key_of k) of None \<Rightarrow> JS_Undefined | Some v \<Rightarrow> v) \<and>
      js_map_has heap s k = Inr (map_of (map_entries heap s rs) (key_of k) \<noteq> None)"
  proof (cases rule: map_find_record_cases [OF assms(1) k(1)])
    case (1 x r)
    with map_of_entries [OF assms(1) 1(1,2)] k(2) show ?thesis
      by (simp add: js_map_get_def js_map_has_def map_get_value_def)
  next
    case 2
    have "map_of (map_entries heap s rs) (key_of k) = None"
      by (rule map_of_entries_missing) (use 2 k(2) in auto)
    with 2 show ?thesis by (simp add: js_map_get_def js_map_has_def)
  qed
  then show "js_map_get heap s k =
      Inr (case map_of (map_entries heap s rs) (key_of k) of None \<Rightarrow> JS_Undefined | Some v \<Rightarrow> v)"
    "js_map_has heap s k = Inr (map_of (map_entries heap s rs) (key_of k) \<noteq> None)" by auto
qed

end
