(* ===== verification/MapDelete.thy ===== *)
theory MapDelete
  imports MapAdd
begin

text \<open>
  Deleting records: from the chains of the table, from the list, and the records that iterators keep.
\<close>

section \<open>The list of records\<close>

text \<open>Two states with the same table and the same place in memory.\<close>

definition same_table :: "JSMapState \<Rightarrow> JSMapState \<Rightarrow> bool" where
  "same_table s s' \<longleftrightarrow> ms_is_weak s' = ms_is_weak s \<and> ms_head s' = ms_head s \<and> ms_brk s' = ms_brk s \<and>
     ms_hash_table s' = ms_hash_table s \<and> ms_hash_bits s' = ms_hash_bits s \<and> ms_hash_size s' = ms_hash_size s"

lemma same_table_refl [simp]: "same_table s s"
  by (simp add: same_table_def)

lemma same_table_trans: "same_table s s' \<Longrightarrow> same_table s' s'' \<Longrightarrow> same_table s s''"
  by (simp add: same_table_def)

lemma filter_nonempty_remove:
  assumes "distinct rs" "map_nonempty s a" "a \<in> set rs" "\<And>b. map_nonempty s' b \<longleftrightarrow> b \<noteq> a \<and> map_nonempty s b"
  shows "length (filter (map_nonempty s') rs) = length (filter (map_nonempty s) rs) - 1"
    and "length (filter (map_nonempty s') (remove1 a rs)) = length (filter (map_nonempty s) rs) - 1"
    and "0 < length (filter (map_nonempty s) rs)"
proof -
  from assms(3) obtain us vs where rs: "rs = us @ a # vs" by (auto dest: split_list)
  with assms(1) have n: "a \<notin> set us" "a \<notin> set vs" by auto
  then have "filter (map_nonempty s') us = filter (map_nonempty s) us" "filter (map_nonempty s') vs = filter (map_nonempty s) vs"
    using assms(4) by (auto intro!: filter_cong)
  with rs n assms(2,4) show "length (filter (map_nonempty s') rs) = length (filter (map_nonempty s) rs) - 1"
    "length (filter (map_nonempty s') (remove1 a rs)) = length (filter (map_nonempty s) rs) - 1"
    "0 < length (filter (map_nonempty s) rs)"
    by (auto simp: remove1_append)
qed

lemma word_of_nat_pred: "0 < n \<Longrightarrow> (word_of_nat (n - 1) :: u32) = word_of_nat n - 1"
  by (cases n) simp_all

text \<open>A record leaves the list, or its fields change.\<close>

lemma store_ok_free:
  assumes "store_ok locks s rs" "ms_mem s a = Some r" "locks' = locks(a := 0)" "\<And>b. b \<noteq> a \<Longrightarrow> locks' b = locks b"
    and "ms_links s' = list_del a (ms_links s)" "ms_mem s' = (ms_mem s)(a := None)"
    and "ms_head s' = ms_head s" "ms_brk s' = ms_brk s"
    and "ms_record_count s' = word_of_nat (length (filter (map_nonempty s') (remove1 a rs)))"
  shows "store_ok locks' s' (remove1 a rs)"
proof -
  note l = store_ok_list [OF assms(1)]
  have a: "a \<in> set rs" using store_ok_record [OF assms(1,2)] by blast
  from split_list_first [OF this] obtain us vs where rs: "rs = us @ a # vs" "a \<notin> set us" by blast
  then have "dll (list_del a (ms_links s)) (ms_head s) (remove1 a rs)"
    using list_del_spec [of "ms_links s" "ms_head s" us a vs] l(1) by (simp add: remove1_append)
  moreover have "set (remove1 a rs) = dom (ms_mem s')"
    using l(2,3) assms(6) by (simp add: set_remove1_eq)
  moreover have "set (remove1 a rs) \<subseteq> set rs" by (rule set_remove1_subset)
  ultimately show ?thesis
    using assms unfolding store_ok_def
    by (auto simp: set_remove1_eq [OF l(3)] split: if_splits)
qed

lemma store_ok_change:
  assumes "store_ok locks s rs" "ms_mem s a = Some r" "record_ok (locks' a) r'" "\<And>b. b \<noteq> a \<Longrightarrow> locks' b = locks b"
    and "ms_links s' = ms_links s" "ms_mem s' = (ms_mem s)(a \<mapsto> r')"
    and "ms_head s' = ms_head s" "ms_brk s' = ms_brk s"
    and "ms_record_count s' = word_of_nat (length (filter (map_nonempty s') rs))"
  shows "store_ok locks' s' rs"
proof -
  have a: "a \<in> set rs" using store_ok_record [OF assms(1,2)] by blast
  then have "dom (ms_mem s') = dom (ms_mem s)" using assms(2,6) by auto
  moreover have "record_ok (locks' b) q" if "ms_mem s' b = Some q" for b q
    using that assms(3,4,6) store_ok_record [OF assms(1), of b q] by (cases "b = a") auto
  moreover have "b \<in> set rs" if "locks' b \<noteq> 0" for b
    using that assms(1,4) a by (cases "b = a") (auto simp: store_ok_def)
  ultimately show ?thesis
    using assms(1,5,7-9) unfolding store_ok_def by auto
qed

text \<open>\<open>map_delete_record_internal\<close> on a record that is not empty: it is freed unless it is locked.\<close>

definition zombie :: "JSMapRecord \<Rightarrow> JSMapRecord" where
  "zombie r = r\<lparr>mr_ref_count := mr_ref_count r - 1, mr_empty := True, mr_key := JS_Undefined, mr_value := JS_Undefined\<rparr>"

definition deleted_mem :: "(nat \<Rightarrow> nat) \<Rightarrow> JSMapState \<Rightarrow> nat \<Rightarrow> JSMapRecord \<Rightarrow> nat \<Rightarrow> JSMapRecord option" where
  "deleted_mem locks s a r = (if locks a = 0 then (ms_mem s)(a := None) else (ms_mem s)(a \<mapsto> zombie r))"

definition deleted_list :: "(nat \<Rightarrow> nat) \<Rightarrow> nat list \<Rightarrow> nat \<Rightarrow> nat list" where
  "deleted_list locks rs a = (if locks a = 0 then remove1 a rs else rs)"

lemma map_delete_record_internal_spec:
  assumes "store_ok locks s rs" "ms_mem s a = Some r" "\<not> mr_empty r"
  shows "\<exists>s'. map_delete_record_internal s a = Inr s' \<and> store_ok locks s' (deleted_list locks rs a) \<and>
    ms_mem s' = deleted_mem locks s a r \<and> same_table s s'"
proof -
  note l = store_ok_list [OF assms(1)]
  have r: "record_ok (locks a) r" "a \<in> set rs" using store_ok_record [OF assms(1,2)] by auto
  then have ref: "mr_ref_count r = 1 + int (locks a)" using assms(3) by (simp add: record_ok_def)
  define s1 where "s1 = (if mr_ref_count r - 1 = 0 then map_free_record s a else s\<lparr>ms_mem := (ms_mem s)(a \<mapsto> zombie r)\<rparr>)"
  define s' where "s' = s1\<lparr>ms_record_count := ms_record_count s1 - 1\<rparr>"
  have e: "map_delete_record_internal s a = Inr s'"
    using assms(2,3) by (simp add: map_delete_record_internal_def s1_def s'_def zombie_def Let_def)
  have mem: "ms_mem s' = deleted_mem locks s a r"
    by (simp add: s'_def s1_def map_free_record_def deleted_mem_def ref)
  have ne: "map_nonempty s' b \<longleftrightarrow> b \<noteq> a \<and> map_nonempty s b" for b
    using mem by (auto simp: map_nonempty_def deleted_mem_def zombie_def)
  have "map_nonempty s a" using assms(2,3) by (simp add: map_nonempty_def)
  note count = filter_nonempty_remove [OF l(3) this r(2) ne]
  have c: "ms_record_count s' = ms_record_count s - 1" by (simp add: s'_def s1_def map_free_record_def)
  also have "ms_record_count s = word_of_nat (length (filter (map_nonempty s) rs))" using assms(1) by (simp add: store_ok_def)
  finally have c': "ms_record_count s' = word_of_nat (length (filter (map_nonempty s) rs) - 1)"
    using word_of_nat_pred [OF count(3)] by simp
  have "store_ok locks s' (deleted_list locks rs a)"
  proof (cases "locks a = 0")
    case True
    have "store_ok locks s' (remove1 a rs)"
      by (rule store_ok_free [OF assms(1,2)])
        (use True c' count(2) mem in \<open>auto simp: s'_def s1_def map_free_record_def deleted_mem_def ref\<close>)
    with True show ?thesis by (simp add: deleted_list_def)
  next
    case False
    have "store_ok locks s' rs"
      by (rule store_ok_change [OF assms(1,2), where r' = "zombie r"])
        (use False c' count(1) mem r(1) assms(3) in \<open>auto simp: s'_def s1_def deleted_mem_def ref record_ok_def zombie_def\<close>)
    with False show ?thesis by (simp add: deleted_list_def)
  qed
  moreover have "same_table s s'" by (simp add: same_table_def s'_def s1_def map_free_record_def)
  ultimately show ?thesis using e mem by blast
qed

lemma map_delete_record_internal_empty:
  "ms_mem s a = Some r \<Longrightarrow> mr_empty r \<Longrightarrow> map_delete_record_internal s a = Inr s"
  by (simp add: map_delete_record_internal_def)

text \<open>Releasing a lock frees the record when it is empty and this was the last one.\<close>

definition released_list :: "(nat \<Rightarrow> nat) \<Rightarrow> JSMapState \<Rightarrow> nat list \<Rightarrow> nat \<Rightarrow> nat list" where
  "released_list locks s rs a = (if \<not> map_nonempty s a \<and> locks a = 1 then remove1 a rs else rs)"

lemma map_decref_record_store:
  assumes "store_ok locks s rs" "locks a \<noteq> 0"
  shows "\<exists>s' r. map_decref_record s a = Inr s' \<and> ms_mem s a = Some r \<and>
    store_ok (locks(a := locks a - 1)) s' (released_list locks s rs a) \<and> same_table s s' \<and>
    (if \<not> map_nonempty s a \<and> locks a = 1 then ms_mem s' = (ms_mem s)(a := None)
     else ms_mem s' = (ms_mem s)(a \<mapsto> r\<lparr>mr_ref_count := mr_ref_count r - 1\<rparr>))"
proof -
  note l = store_ok_list [OF assms(1)]
  have a: "a \<in> set rs" using assms by (auto simp: store_ok_def)
  then obtain r where r: "ms_mem s a = Some r" using l(2) by auto
  have ok: "record_ok (locks a) r" using store_ok_record [OF assms(1) r] by blast
  have ne: "map_nonempty s a \<longleftrightarrow> \<not> mr_empty r" using r by (simp add: map_nonempty_def)
  have one: "mr_ref_count r - 1 = 0 \<longleftrightarrow> mr_empty r \<and> locks a = 1"
    using ok assms(2) by (auto simp: record_ok_def)
  show ?thesis
  proof (cases "mr_empty r \<and> locks a = 1")
    case True
    let ?s = "map_free_record s a"
    have n: "map_nonempty ?s = map_nonempty s"
      using True r by (auto simp: map_nonempty_def map_free_record_def fun_eq_iff)
    have "filter (map_nonempty ?s) (remove1 a rs) = filter (map_nonempty s) rs"
    proof -
      from a obtain us vs where rs: "rs = us @ a # vs" "a \<notin> set us" by (auto dest: split_list_first)
      with True ne n show ?thesis by (simp add: remove1_append)
    qed
    then have "store_ok (locks(a := locks a - 1)) ?s (remove1 a rs)"
      by (intro store_ok_free [OF assms(1) r]) (use True assms(1) in \<open>auto simp: map_free_record_def store_ok_def\<close>)
    with True r one ne show ?thesis
      by (intro exI [of _ ?s] exI [of _ r])
        (simp add: map_decref_record_def released_list_def same_table_def, simp add: map_free_record_def)
  next
    case False
    let ?r = "r\<lparr>mr_ref_count := mr_ref_count r - 1\<rparr>"
    let ?s = "s\<lparr>ms_mem := (ms_mem s)(a \<mapsto> ?r)\<rparr>"
    have n: "map_nonempty ?s = map_nonempty s"
      using r by (auto simp: map_nonempty_def fun_eq_iff)
    have "record_ok (locks a - 1) ?r" using ok False assms(2) by (auto simp: record_ok_def)
    then have "store_ok (locks(a := locks a - 1)) ?s rs"
      by (intro store_ok_change [OF assms(1) r, where r' = ?r]) (use assms(1) n in \<open>auto simp: store_ok_def\<close>)
    with False r one ne show ?thesis
      by (intro exI [of _ ?s] exI [of _ r]) (auto simp: map_decref_record_def released_list_def same_table_def)
  qed
qed

section \<open>The table\<close>

lemma table_okD:
  assumes "table_ok heap s cs" "h < 2 ^ ms_hash_bits s"
  shows "map_chain (ms_mem s) (ms_hash_table s ! h) (cs h)" "distinct (cs h)"
    and "a \<in> set (cs h) \<Longrightarrow> ms_mem s a = Some r \<Longrightarrow> \<not> mr_empty r \<and> map_hash_at s r = h"
  using assms by (auto simp: table_ok_def)

text \<open>A record that is in no chain leaves the store or becomes empty.\<close>

lemma table_ok_removed:
  assumes "table_ok heap s cs" "same_table s s'" "\<And>b. b \<noteq> a \<Longrightarrow> ms_mem s' b = ms_mem s b"
    and "\<And>r. ms_mem s' a = Some r \<Longrightarrow> mr_empty r" "\<And>h. h < 2 ^ ms_hash_bits s \<Longrightarrow> a \<notin> set (cs h)"
  shows "table_ok heap s' cs"
proof -
  have same: "ms_is_weak s' = ms_is_weak s" "ms_hash_table s' = ms_hash_table s" "ms_hash_bits s' = ms_hash_bits s"
    "ms_hash_size s' = ms_hash_size s" using assms(2) by (simp_all add: same_table_def)
  have can: "map_can_match heap s' = map_can_match heap s" using same(1) by (simp add: map_can_match_def fun_eq_iff)
  have hash: "map_hash_at s' = map_hash_at s" using same(3) by (simp add: map_hash_at_def fun_eq_iff)
  have chain: "map_chain (ms_mem s') x (cs h)" if "map_chain (ms_mem s) x (cs h)" "h < 2 ^ ms_hash_bits s" for x h
    by (rule map_chain_frame [OF that(1)]) (use assms(3,5) that(2) in metis)
  have elems: "\<not> mr_empty r \<and> map_hash_at s r = h" if "h < 2 ^ ms_hash_bits s" "b \<in> set (cs h)" "ms_mem s' b = Some r" for h b r
  proof -
    have "b \<noteq> a" using assms(5) [OF that(1)] that(2) by blast
    with that assms(1,3) show ?thesis by (simp add: table_ok_def)
  qed
  have complete: "b \<in> set (cs (map_hash_at s r))" if "ms_mem s' b = Some r" "map_can_match heap s r" for b r
  proof -
    have "b \<noteq> a" using assms(4) that can_match_nonempty by blast
    with that assms(1,3) show ?thesis by (simp add: table_ok_def)
  qed
  show ?thesis
    unfolding table_ok_def same can hash
    using assms(1) chain elems complete by (simp add: table_ok_def)
qed

text \<open>A record is taken out of its chain, and leaves the store or becomes empty.\<close>

lemma map_chain_unlink:
  "map_chain mem x (ws @ p # a # vs) \<Longrightarrow>
   (\<And>b r. b \<in> set (ws @ vs) \<Longrightarrow> mem b = Some r \<Longrightarrow> \<exists>q. mem' b = Some q \<and> mr_hash_next q = mr_hash_next r) \<Longrightarrow>
   mem' p = Some p' \<Longrightarrow> mem a = Some r \<Longrightarrow> mr_hash_next p' = mr_hash_next r \<Longrightarrow> map_chain mem' x (ws @ p # vs)"
proof (induction ws arbitrary: x)
  case Nil
  then have "map_chain mem (mr_hash_next r) vs" by auto
  then have "map_chain mem' (mr_hash_next r) vs" by (rule map_chain_frame) (use Nil in auto)
  with Nil show ?case by auto
next
  case (Cons w ws)
  from Cons.prems(1) obtain q where q: "x = w" "w \<noteq> 0" "mem w = Some q" "map_chain mem (mr_hash_next q) (ws @ p # a # vs)" by auto
  from Cons.prems(2) [OF _ q(3)] obtain q' where "mem' w = Some q'" "mr_hash_next q' = mr_hash_next q" by auto
  moreover have "map_chain mem' (mr_hash_next q) (ws @ p # vs)"
    by (rule Cons.IH [OF q(4)]) (use Cons.prems in auto)
  ultimately show ?case using q by auto
qed

lemma table_ok_unlinked:
  assumes "table_ok heap s cs" "h < 2 ^ ms_hash_bits s" "cs h = us @ a # vs" "ms_mem s a = Some r"
    and "ms_is_weak s' = ms_is_weak s" "ms_hash_bits s' = ms_hash_bits s" "ms_hash_size s' = ms_hash_size s"
    and "ms_hash_table s' = (if us = [] then (ms_hash_table s)[h := mr_hash_next r] else ms_hash_table s)"
    and "\<And>q. ms_mem s' a = Some q \<Longrightarrow> mr_empty q"
    and "\<And>b. b \<noteq> a \<Longrightarrow> map_option rec_key (ms_mem s' b) = map_option rec_key (ms_mem s b)"
    and "\<And>b. b \<noteq> a \<Longrightarrow> us = [] \<or> b \<noteq> last us \<Longrightarrow> map_option mr_hash_next (ms_mem s' b) = map_option mr_hash_next (ms_mem s b)"
    and "us \<noteq> [] \<Longrightarrow> map_option mr_hash_next (ms_mem s' (last us)) = Some (mr_hash_next r)"
  shows "table_ok heap s' (cs(h := us @ vs))"
proof -
  let ?n = "ms_hash_bits s" and ?cs = "cs(h := us @ vs)"
  have len: "length (ms_hash_table s) = 2 ^ ?n" using assms(1) by (simp add: table_ok_def)
  have dist: "distinct (cs i)" and chain: "map_chain (ms_mem s) (ms_hash_table s ! i) (cs i)"
    and at_hash: "b \<in> set (cs i) \<Longrightarrow> ms_mem s b = Some q \<Longrightarrow> \<not> mr_empty q \<and> map_hash_at s q = i" if "i < 2 ^ ?n" for i b q
    using assms(1) that by (auto simp: table_ok_def)
  have d: "distinct (us @ a # vs)" using dist [OF assms(2)] assms(3) by simp
  have other: "b \<notin> set (cs i)" if "b \<in> set (cs h)" "i < 2 ^ ?n" "i \<noteq> h" for b i
    using that at_hash [OF that(2), of b] at_hash [OF assms(2), of b] map_chain_dom [OF chain [OF assms(2)], of b] by metis
  have can: "map_can_match heap s' = map_can_match heap s" using assms(5) by (simp add: map_can_match_def fun_eq_iff)
  have hash: "map_hash_at s' = map_hash_at s" using assms(6) by (simp add: map_hash_at_def fun_eq_iff)
  have next_same: "\<exists>q'. ms_mem s' b = Some q' \<and> mr_hash_next q' = mr_hash_next q"
    if "ms_mem s b = Some q" "b \<noteq> a" "us = [] \<or> b \<noteq> last us" for b q
    using assms(11) [OF that(2,3)] that(1) by auto
  have chain_h: "map_chain (ms_mem s') (ms_hash_table s' ! h) (us @ vs)"
  proof (cases us rule: rev_cases)
    case Nil
    have "map_chain (ms_mem s) (ms_hash_table s ! h) (a # vs)" using chain [OF assms(2)] assms(3) Nil by simp
    then have "map_chain (ms_mem s) (mr_hash_next r) vs" using assms(4) by auto
    then have "map_chain (ms_mem s') (mr_hash_next r) vs"
      by (rule map_chain_frame) (use next_same d Nil in auto)
    with Nil len assms(2,8) show ?thesis by simp
  next
    case (snoc ws p)
    obtain p' where p': "ms_mem s' p = Some p'" "mr_hash_next p' = mr_hash_next r"
      using assms(12) snoc by auto
    have c: "map_chain (ms_mem s) (ms_hash_table s ! h) (ws @ p # a # vs)" using chain [OF assms(2)] assms(3) snoc by simp
    have "map_chain (ms_mem s') (ms_hash_table s ! h) (ws @ p # vs)"
    proof (rule map_chain_unlink [where mem = "ms_mem s" and a = a and p' = p' and r = r])
      show "\<exists>q'. ms_mem s' b = Some q' \<and> mr_hash_next q' = mr_hash_next q"
        if "b \<in> set (ws @ vs)" "ms_mem s b = Some q" for b q
        using that next_same [of b q] d snoc by auto
    qed (use c p' assms(4) in auto)
    with snoc assms(8) show ?thesis by simp
  qed
  have chain_i: "map_chain (ms_mem s') (ms_hash_table s' ! i) (?cs i)" if i: "i < 2 ^ ?n" for i
  proof (cases "i = h")
    case True
    with chain_h show ?thesis by simp
  next
    case False
    have "a \<notin> set (cs i)" "us \<noteq> [] \<Longrightarrow> last us \<notin> set (cs i)" using other [OF _ i False] assms(3) by auto
    then have "map_chain (ms_mem s') (ms_hash_table s ! i) (cs i)"
      by (intro map_chain_frame [OF chain [OF i]] next_same) auto
    with False assms(8) show ?thesis by auto
  qed
  have sub: "set (?cs i) \<subseteq> set (cs i)" "distinct (?cs i)" "a \<notin> set (?cs i)" if "i < 2 ^ ?n" for i
    using d dist [OF that] assms(3) other [OF _ that] by auto
  have old: "\<exists>q0. ms_mem s b = Some q0 \<and> rec_key q0 = rec_key q" if "ms_mem s' b = Some q" "b \<noteq> a" for b q
    using assms(10) [OF that(2)] that(1) by (cases "ms_mem s b") auto
  have elems: "\<not> mr_empty q \<and> map_hash_at s q = i" if "i < 2 ^ ?n" "b \<in> set (?cs i)" "ms_mem s' b = Some q" for i b q
  proof -
    have b: "b \<in> set (cs i)" "b \<noteq> a" using sub [OF that(1)] that(2) by auto
    from old [OF that(3) b(2)] obtain q0 where "ms_mem s b = Some q0" "rec_key q0 = rec_key q" by blast
    with at_hash [OF that(1) b(1), of q0] show ?thesis by (auto simp: map_hash_at_def)
  qed
  have complete: "b \<in> set (?cs (map_hash_at s q))" if "ms_mem s' b = Some q" "map_can_match heap s q" for b q
  proof -
    have b: "b \<noteq> a" using that assms(9) can_match_nonempty by blast
    from old [OF that(1) this] obtain q0 where q: "ms_mem s b = Some q0" "rec_key q0 = rec_key q" by blast
    then have m: "map_can_match heap s q0" "map_hash_at s q0 = map_hash_at s q"
      using that(2) by (auto simp: map_can_match_def map_hash_at_def)
    from assms(1) q(1) m(1) have "b \<in> set (cs (map_hash_at s q0))" by (simp add: table_ok_def)
    then have "b \<in> set (cs (map_hash_at s q))" unfolding m(2) .
    with b assms(3) show ?thesis by (cases "map_hash_at s q = h") auto
  qed
  have "length (ms_hash_table s') = 2 ^ ?n" using assms(8) len by simp
  with chain_i sub elems complete assms(1) show ?thesis
    unfolding table_ok_def can hash assms(6,7) by (simp del: fun_upd_apply)
qed

section \<open>Deletion\<close>

lemma keys_ok_removed:
  assumes "keys_ok heap s" "ms_is_weak s' = ms_is_weak s"
    and "\<And>b q. ms_mem s' b = Some q \<Longrightarrow> mr_empty q \<or> (\<exists>q0. ms_mem s b = Some q0 \<and> rec_key q0 = rec_key q)"
  shows "keys_ok heap s'"
  unfolding keys_ok_def
proof (intro allI impI)
  fix a b r q
  assume a: "ms_mem s' a = Some r" "ms_mem s' b = Some q" "map_can_match heap s' r" "map_can_match heap s' q"
    "key_of (mr_key r) = key_of (mr_key q)"
  obtain r0 where r: "ms_mem s a = Some r0" "rec_key r0 = rec_key r"
    using assms(3) [OF a(1)] can_match_nonempty [OF a(3)] by blast
  obtain q0 where q: "ms_mem s b = Some q0" "rec_key q0 = rec_key q"
    using assms(3) [OF a(2)] can_match_nonempty [OF a(4)] by blast
  have "map_can_match heap s r0" "map_can_match heap s q0"
    using a(3,4) can_match_cong [OF r(2) assms(2)] can_match_cong [OF q(2) assms(2)] by auto
  moreover have "key_of (mr_key r0) = key_of (mr_key q0)" using a(5) r(2) q(2) by simp
  ultimately show "a = b" using assms(1) r(1) q(1) unfolding keys_ok_def by blast
qed

lemma record_entry_deleted:
  assumes "ms_mem s' = deleted_mem locks s a r" "ms_is_weak s' = ms_is_weak s"
  shows "record_entry heap s' b = (if b = a then [] else record_entry heap s b)"
  using assms by (auto simp: record_entry_def deleted_mem_def zombie_def map_can_match_def split: option.splits)

text \<open>The record before another one in its chain is not that record.\<close>

lemma map_unlink_slot_spec:
  assumes "store_ok locks s rs" "table_ok heap s cs" "unat h < 2 ^ ms_hash_bits s" "cs (unat h) = us @ a # vs" "ms_mem s a = Some r"
  shows "\<exists>s1. map_unlink_slot s h (last (0 # us)) a = Inr s1 \<and> same_records s s1 \<and>
    ms_hash_bits s1 = ms_hash_bits s \<and> ms_hash_size s1 = ms_hash_size s \<and>
    ms_hash_table s1 = (if us = [] then (ms_hash_table s)[unat h := mr_hash_next r] else ms_hash_table s) \<and>
    (\<forall>b. us = [] \<or> b \<noteq> last us \<longrightarrow> ms_mem s1 b = ms_mem s b) \<and>
    (us \<noteq> [] \<longrightarrow> map_option mr_hash_next (ms_mem s1 (last us)) = Some (mr_hash_next r)) \<and>
    ms_mem s1 a = Some r"
proof (cases us rule: rev_cases)
  case Nil
  with assms(5) show ?thesis
    by (intro exI [of _ "s\<lparr>ms_hash_table := (ms_hash_table s)[unat h := mr_hash_next r]\<rparr>"])
      (simp add: map_unlink_slot_def same_records_def)
next
  case (snoc ws p)
  have c: "map_chain (ms_mem s) (ms_hash_table s ! unat h) (cs (unat h))" "distinct (cs (unat h))"
    using assms(2,3) by (auto simp: table_ok_def)
  have "p \<in> set (cs (unat h))" using assms(4) snoc by simp
  from map_chain_dom [OF c(1) this] obtain q where q: "ms_mem s p = Some q" by blast
  have p: "p \<noteq> 0" "p \<noteq> a" using store_ok_record [OF assms(1) q] c(2) assms(4) snoc by auto
  let ?s = "s\<lparr>ms_mem := (ms_mem s)(p \<mapsto> q\<lparr>mr_hash_next := mr_hash_next r\<rparr>)\<rparr>"
  have "mem_agree (mr_hash_next_update (\<lambda>_. 0)) (ms_mem s) (ms_mem ?s)"
    using q by (simp add: mem_agree_update)
  with assms(5) q p snoc show ?thesis
    by (intro exI [of _ ?s]) (simp add: map_unlink_slot_def same_records_def)
qed

text \<open>Unlinking and deleting a record of the table.\<close>

lemma map_unlink_delete:
  assumes "map_inv heap locks s rs" "store_ok locks s rs" "table_ok heap s cs" "unat h < 2 ^ ms_hash_bits s"
    and "cs (unat h) = us @ a # vs" "ms_mem s a = Some r"
  shows "\<exists>s1 s'. map_unlink_slot s h (last (0 # us)) a = Inr s1 \<and> map_delete_record_internal s1 a = Inr s' \<and>
    map_inv heap locks s' (deleted_list locks rs a) \<and> ms_is_weak s' = ms_is_weak s \<and> ms_head s' = ms_head s \<and> ms_brk s' = ms_brk s \<and>
    (\<forall>b. b \<noteq> a \<longrightarrow> map_option rec_key (ms_mem s' b) = map_option rec_key (ms_mem s b)) \<and>
    (\<forall>b. record_entry heap s' b = (if b = a then [] else record_entry heap s b))"
proof -
  from map_unlink_slot_spec [OF assms(2-6)] obtain s1 where s1: "map_unlink_slot s h (last (0 # us)) a = Inr s1"
    "same_records s s1" "ms_hash_bits s1 = ms_hash_bits s" "ms_hash_size s1 = ms_hash_size s"
    "ms_hash_table s1 = (if us = [] then (ms_hash_table s)[unat h := mr_hash_next r] else ms_hash_table s)"
    "\<And>b. us = [] \<or> b \<noteq> last us \<Longrightarrow> ms_mem s1 b = ms_mem s b"
    "us \<noteq> [] \<Longrightarrow> map_option mr_hash_next (ms_mem s1 (last us)) = Some (mr_hash_next r)"
    "ms_mem s1 a = Some r" by blast
  note st = same_records_store [OF assms(2) s1(2)]
  have ne: "\<not> mr_empty r" and d: "distinct (us @ a # vs)"
    using table_okD [OF assms(3,4)] assms(5,6) by auto
  have la: "us \<noteq> [] \<Longrightarrow> last us \<noteq> a" using d by auto
  from map_delete_record_internal_spec [OF st s1(8) ne] obtain s' where
    s': "map_delete_record_internal s1 a = Inr s'" "store_ok locks s' (deleted_list locks rs a)"
      "ms_mem s' = deleted_mem locks s1 a r" "same_table s1 s'" by blast
  have mem: "ms_mem s' b = ms_mem s1 b" if "b \<noteq> a" for b
    using that s'(3) by (simp add: deleted_mem_def)
  have emp: "mr_empty q" if "ms_mem s' a = Some q" for q
    using that s'(3) by (auto simp: deleted_mem_def zombie_def split: if_splits)
  have key: "map_option rec_key (ms_mem s1 b) = map_option rec_key (ms_mem s b)" for b
    using same_records_agree [OF s1(2), of rec_key] by (simp add: mem_agree_def)
  have same: "ms_is_weak s' = ms_is_weak s" "ms_hash_bits s' = ms_hash_bits s" "ms_hash_size s' = ms_hash_size s"
    "ms_hash_table s' = ms_hash_table s1" "ms_head s' = ms_head s" "ms_brk s' = ms_brk s"
    using s1(2-4) s'(4) by (simp_all add: same_records_def same_table_def)
  have "table_ok heap s' (cs(unat h := us @ vs))"
    by (rule table_ok_unlinked [OF assms(3-6) same(1-3)])
      (use same(4) s1(5-7) mem key emp la in auto)
  moreover have "keys_ok heap s'"
  proof (rule keys_ok_removed)
    show "keys_ok heap s" using assms(1) by (simp add: map_inv_def)
    show "mr_empty q \<or> (\<exists>q0. ms_mem s b = Some q0 \<and> rec_key q0 = rec_key q)" if "ms_mem s' b = Some q" for b q
      using that emp mem [of b] key [of b] by (cases "b = a"; cases "ms_mem s b") auto
  qed (rule same(1))
  moreover have "record_entry heap s' b = (if b = a then [] else record_entry heap s b)" for b
    using record_entry_deleted [OF s'(3), of heap b] same_records_entry [OF s1(2), of heap b] s'(4) by (simp add: same_table_def)
  moreover have "map_option rec_key (ms_mem s' b) = map_option rec_key (ms_mem s b)" if "b \<noteq> a" for b
    using mem [OF that] key by simp
  ultimately show ?thesis using s1(1) s'(1,2) same unfolding map_inv_def by blast
qed

lemma AList_delete_missing: "k \<notin> fst ` set es \<Longrightarrow> AList.delete k es = es"
  by (simp add: AList.delete_eq) (induction es, auto)

lemma AList_delete_append: "AList.delete k (xs @ ys) = AList.delete k xs @ AList.delete k ys"
  by (simp add: AList.delete_eq)

lemma map_delete_record_spec:
  assumes "map_inv heap locks s rs" "jsval_ok k"
  shows "\<exists>s' rs'. map_delete_record heap s k = Inr (key_of k \<in> fst ` set (map_entries heap s rs), s') \<and>
    map_inv heap locks s' rs' \<and> ms_is_weak s' = ms_is_weak s \<and> ms_head s' = ms_head s \<and>
    (rs' = rs \<or> (\<exists>a. rs' = remove1 a rs \<and> locks a = 0)) \<and>
    (\<forall>b. record_entry heap s' b = AList.delete (key_of k) (record_entry heap s b))"
proof -
  let ?k = "map_normalize_key k"
  have k: "key_normal ?k" "key_of ?k = key_of k"
    using map_normalize_key_normal [OF assms(2)] by (simp_all add: map_normalize_key_of)
  from assms(1) obtain cs where inv: "store_ok locks s rs" "table_ok heap s cs" "keys_ok heap s"
    by (auto simp: map_inv_def)
  have h: "unat (map_hash_key ?k (ms_hash_bits s)) < 2 ^ ms_hash_bits s"
    using inv(2) map_hash_key_less by (auto simp: table_ok_def)
  from inv(1,2) k(1) show ?thesis
  proof (cases rule: map_find_slot_cases)
    case (found us x vs r)
    from map_unlink_delete [OF assms(1) inv(1,2) h found(1,2)] obtain s1 s' where
      s': "map_unlink_slot s (map_hash_key ?k (ms_hash_bits s)) (last (0 # us)) x = Inr s1"
        "map_delete_record_internal s1 x = Inr s'" "map_inv heap locks s' (deleted_list locks rs x)"
        "ms_is_weak s' = ms_is_weak s" "ms_head s' = ms_head s"
        "\<And>b. record_entry heap s' b = (if b = x then [] else record_entry heap s b)" by blast
    have x: "x \<noteq> 0" using store_ok_record [OF inv(1) found(2)] by simp
    have mem: "key_of k \<in> fst ` set (map_entries heap s rs)"
      unfolding map_entries_keys using found k store_ok_record [OF inv(1) found(2)] by auto
    have "record_entry heap s' b = AList.delete (key_of k) (record_entry heap s b)" for b
    proof (cases "b = x")
      case True
      with s'(6) found k show ?thesis by (simp add: record_entry_def)
    next
      case False
      have "key_of (mr_key q) \<noteq> key_of k" if "ms_mem s b = Some q" "map_can_match heap s q" for q
        using inv(3) that found(2-4) k False unfolding keys_ok_def by metis
      with s'(6) False show ?thesis by (auto simp: record_entry_def split: option.splits)
    qed
    with s' x mem found(5) show ?thesis
      by (intro exI [of _ s'] exI [of _ "deleted_list locks rs x"])
        (simp add: map_delete_record_def Let_def, auto simp: deleted_list_def)
  next
    case (missing pmr)
    have mem: "key_of k \<notin> fst ` set (map_entries heap s rs)"
      unfolding map_entries_keys using missing(1) k by auto
    have "record_entry heap s b = AList.delete (key_of k) (record_entry heap s b)" for b
      using missing(1) k by (auto simp: record_entry_def split: option.splits)
    with missing mem assms(1) show ?thesis
      by (auto simp: map_delete_record_def Let_def intro!: exI [of _ s] exI [of _ rs])
  qed
qed

section \<open>Loops over the records\<close>

text \<open>A list of records from which some that are not locked have been removed.\<close>

definition shrunk :: "(nat \<Rightarrow> nat) \<Rightarrow> nat list \<Rightarrow> nat list \<Rightarrow> bool" where
  "shrunk locks rs rs' \<longleftrightarrow> (\<exists>P. rs' = filter P rs \<and> (\<forall>a\<in>set rs. \<not> P a \<longrightarrow> locks a = 0))"

lemma shrunk_refl [simp]: "shrunk locks rs rs"
  unfolding shrunk_def by (rule exI [of _ "\<lambda>_. True"]) simp

lemma shrunk_trans:
  assumes "shrunk locks rs rs'" "shrunk locks rs' rs''"
  shows "shrunk locks rs rs''"
proof -
  from assms obtain P Q where "rs' = filter P rs" "\<forall>a\<in>set rs. \<not> P a \<longrightarrow> locks a = 0"
    "rs'' = filter Q rs'" "\<forall>a\<in>set rs'. \<not> Q a \<longrightarrow> locks a = 0" unfolding shrunk_def by blast
  then show ?thesis unfolding shrunk_def
    by (intro exI [of _ "\<lambda>a. P a \<and> Q a"]) (auto simp: filter_filter conj_commute)
qed

lemma shrunk_remove1: "distinct rs \<Longrightarrow> locks a = 0 \<Longrightarrow> shrunk locks rs (remove1 a rs)"
  unfolding shrunk_def by (rule exI [of _ "(\<noteq>) a"]) (auto simp: distinct_remove1_removeAll removeAll_filter_not_eq)

lemma shrunk_deleted: "distinct rs \<Longrightarrow> shrunk locks rs (deleted_list locks rs a)"
  by (simp add: deleted_list_def shrunk_remove1)

lemma shrunk_set: "shrunk locks rs rs' \<Longrightarrow> set rs' \<subseteq> set rs"
  by (auto simp: shrunk_def)

lemma dll_next:
  assumes "dll links head (xs @ y # ys)"
  shows "l_next links y = hd (ys @ [head])"
  using assms dll_seg_next [of links y ys head] by (auto simp: dll_def dll_seg_append)

lemma dll_first: "dll links head rs \<Longrightarrow> l_next links head = hd (rs @ [head])"
  using dll_seg_next [of links head rs head] by (simp add: dll_def)

lemma deleted_list_mid:
  "distinct (xs @ y # ys) \<Longrightarrow> \<exists>xs'. deleted_list locks (xs @ y # ys) y = xs' @ ys \<and> set xs' \<subseteq> insert y (set xs)"
  by (cases "locks y = 0")
    (auto simp: deleted_list_def remove1_append intro: exI [of _ xs] exI [of _ "xs @ [y]"])

lemma js_map_clear_loop_spec:
  "store_ok locks s (xs @ ys) \<Longrightarrow> \<forall>a\<in>set xs. \<not> map_nonempty s a \<Longrightarrow> length ys \<le> fuel \<Longrightarrow>
   \<exists>s' rs'. js_map_clear_loop s (hd (ys @ [ms_head s])) fuel = Inr s' \<and> store_ok locks s' rs' \<and>
     shrunk locks (xs @ ys) rs' \<and> (\<forall>a. \<not> map_nonempty s' a) \<and> same_table s s'"
proof (induction ys arbitrary: xs s fuel)
  case Nil
  have "\<not> map_nonempty s a" for a
    using Nil(1,2) store_ok_list(2) [OF Nil(1)] by (auto simp: map_nonempty_def)
  with Nil show ?case by (intro exI [of _ s] exI [of _ xs]) (simp add: js_map_clear_loop.simps [of s])
next
  case (Cons y ys)
  note l = store_ok_list [OF Cons.prems(1)]
  obtain f where f: "fuel = Suc f" using Cons.prems(3) by (cases fuel) auto
  have y: "y \<noteq> ms_head s" "l_next (ms_links s) y = hd (ys @ [ms_head s])"
    using l(1) dll_next [OF l(1)] by (auto simp: dll_def)
  from l(2) obtain r where r: "ms_mem s y = Some r" by auto
  have "\<exists>s1 xs'. map_delete_record_internal s y = Inr s1 \<and> store_ok locks s1 (xs' @ ys) \<and> same_table s s1 \<and>
      shrunk locks (xs @ y # ys) (xs' @ ys) \<and> (\<forall>a\<in>set xs'. \<not> map_nonempty s1 a)"
  proof (cases "mr_empty r")
    case True
    then have "\<not> map_nonempty s y" using r by (simp add: map_nonempty_def)
    with map_delete_record_internal_empty [OF r True] Cons.prems show ?thesis
      by (intro exI [of _ s] exI [of _ "xs @ [y]"]) auto
  next
    case False
    from map_delete_record_internal_spec [OF Cons.prems(1) r False] obtain s1 where
      s1: "map_delete_record_internal s y = Inr s1" "store_ok locks s1 (deleted_list locks (xs @ y # ys) y)"
        "ms_mem s1 = deleted_mem locks s y r" "same_table s s1" by blast
    from deleted_list_mid [OF l(3), of locks] obtain xs' where
      xs': "deleted_list locks (xs @ y # ys) y = xs' @ ys" "set xs' \<subseteq> insert y (set xs)" by blast
    have "\<not> map_nonempty s1 a" if "a \<in> insert y (set xs)" for a
      using that s1(3) Cons.prems(2) by (auto simp: map_nonempty_def deleted_mem_def zombie_def)
    with s1 xs' shrunk_deleted [OF l(3), of locks y] show ?thesis
      by (intro exI [of _ s1] exI [of _ xs']) auto
  qed
  then obtain s1 xs' where s1: "map_delete_record_internal s y = Inr s1" "store_ok locks s1 (xs' @ ys)" "same_table s s1"
    "shrunk locks (xs @ y # ys) (xs' @ ys)" "\<forall>a\<in>set xs'. \<not> map_nonempty s1 a" by blast
  have h: "ms_head s1 = ms_head s" using s1(3) by (simp add: same_table_def)
  from Cons.IH [OF s1(2,5), of f] Cons.prems(3) f obtain s' rs' where
    s': "js_map_clear_loop s1 (hd (ys @ [ms_head s1])) f = Inr s'" "store_ok locks s' rs'"
      "shrunk locks (xs' @ ys) rs'" "\<forall>a. \<not> map_nonempty s' a" "same_table s1 s'" by auto
  have "js_map_clear_loop s (hd ((y # ys) @ [ms_head s])) fuel = Inr s'"
    using y s1(1) s'(1) f h by (simp add: js_map_clear_loop.simps [of s])
  with s' shrunk_trans [OF s1(4) s'(3)] same_table_trans [OF s1(3) s'(5)] show ?case by blast
qed

lemma js_map_clear_spec:
  assumes "map_inv heap locks s rs"
  shows "\<exists>s' rs'. js_map_clear s = Inr s' \<and> map_inv heap locks s' rs' \<and> shrunk locks rs rs' \<and>
    (\<forall>b. record_entry heap s' b = []) \<and> ms_is_weak s' = ms_is_weak s \<and> ms_head s' = ms_head s"
proof -
  from assms obtain cs where inv: "store_ok locks s rs" "table_ok heap s cs" "keys_ok heap s"
    by (auto simp: map_inv_def)
  let ?s = "s\<lparr>ms_hash_table := replicate (unat (ms_hash_size s)) 0\<rparr>"
  have st: "store_ok locks ?s ([] @ rs)"
    unfolding append_Nil by (rule store_ok_frame [OF inv(1)]) (use inv(1) in \<open>auto simp: store_ok_def\<close>)
  note l = store_ok_list [OF inv(1)]
  from js_map_clear_loop_spec [OF st, of "ms_brk s"] l(4) obtain s' rs' where
    s': "js_map_clear_loop ?s (hd (rs @ [ms_head s])) (ms_brk s) = Inr s'" "store_ok locks s' rs'"
      "shrunk locks rs rs'" "\<forall>a. \<not> map_nonempty s' a" "same_table ?s s'" by auto
  have e: "js_map_clear s = Inr s'" using s'(1) dll_first [OF l(1)] by (simp add: js_map_clear_def Let_def)
  have none: "\<not> map_can_match heap s' r" if "ms_mem s' a = Some r" for a r
    using s'(4) that can_match_nonempty [of heap s' r] by (auto simp: map_nonempty_def)
  have "table_ok heap s' (\<lambda>_. [])"
    using inv(2) s'(5) none by (auto simp: table_ok_def same_table_def)
  moreover have "keys_ok heap s'" using none by (auto simp: keys_ok_def)
  moreover have "record_entry heap s' b = []" for b
    using none by (auto simp: record_entry_def split: option.splits)
  ultimately show ?thesis using e s'(2,3,5) by (auto simp: map_inv_def same_table_def)
qed

text \<open>The records whose keys have died have no entries; the sweep removes them.\<close>

lemma map_delete_dead:
  assumes "map_inv heap locks s rs" "ms_is_weak s" "ms_mem s y = Some r" "\<not> js_weakref_is_live heap (mr_key r)"
  shows "\<exists>pmr mr1 s1 s'. map_find_slot (\<lambda>a r. Inr (a = y)) s (map_hash_key (mr_key r) (ms_hash_bits s)) = Inr (pmr, mr1) \<and>
    (if mr1 = 0 then Inr s else map_unlink_slot s (map_hash_key (mr_key r) (ms_hash_bits s)) pmr mr1) = Inr s1 \<and>
    map_delete_record_internal s1 y = Inr s' \<and> map_inv heap locks s' (deleted_list locks rs y) \<and>
    ms_is_weak s' \<and> ms_head s' = ms_head s \<and> ms_brk s' = ms_brk s \<and> (\<forall>b. record_entry heap s' b = record_entry heap s b) \<and>
    (\<forall>q. ms_mem s' y = Some q \<longrightarrow> js_weakref_is_live heap (mr_key q)) \<and>
    (\<forall>b. b \<noteq> y \<longrightarrow> map_option rec_key (ms_mem s' b) = map_option rec_key (ms_mem s b))"
proof -
  from assms(1) obtain cs where inv: "store_ok locks s rs" "table_ok heap s cs" "keys_ok heap s"
    by (auto simp: map_inv_def)
  let ?h = "map_hash_key (mr_key r) (ms_hash_bits s)"
  have h: "unat ?h < 2 ^ ms_hash_bits s" "length (ms_hash_table s) = 2 ^ ms_hash_bits s"
    using inv(2) map_hash_key_less by (auto simp: table_ok_def)
  have y: "y \<noteq> 0" "\<not> mr_empty r"
    using store_ok_record [OF inv(1) assms(3)] assms(4)
    by (auto simp: record_ok_def js_weakref_is_live_def split: if_splits)
  have dead: "\<not> map_can_match heap s r" using assms(2,4) by (simp add: map_can_match_def)
  note c = table_okD [OF inv(2) h(1)]
  have entry: "record_entry heap s y = []" using assms(3) dead by (simp add: record_entry_def)
  have live: "js_weakref_is_live heap JS_Undefined" by (simp add: js_weakref_is_live_def)
  have slot: "map_find_slot (\<lambda>a r. Inr (a = y)) s ?h = map_chain_walk (\<lambda>a r. Inr (a = y)) s 0 (ms_hash_table s ! unat ?h) (ms_brk s)"
    using h by (simp add: map_find_slot_def)
  from map_chain_walk_spec [OF c(1) chain_length [OF inv(1) c(1,2)], where test = "\<lambda>a r. Inr (a = y)" and P = "\<lambda>a. a = y" and pmr = 0]
  consider us vs where "cs (unat ?h) = us @ y # vs" "map_find_slot (\<lambda>a r. Inr (a = y)) s ?h = Inr (last (0 # us), y)"
    | "y \<notin> set (cs (unat ?h))" "map_find_slot (\<lambda>a r. Inr (a = y)) s ?h = Inr (last (0 # cs (unat ?h)), 0)"
    unfolding slot by blast
  then show ?thesis
  proof cases
    case 1
    from map_unlink_delete [OF assms(1) inv(1,2) h(1) 1(1) assms(3)] obtain s1 s' where
      s': "map_unlink_slot s ?h (last (0 # us)) y = Inr s1" "map_delete_record_internal s1 y = Inr s'"
        "map_inv heap locks s' (deleted_list locks rs y)" "ms_is_weak s' = ms_is_weak s" "ms_head s' = ms_head s" "ms_brk s' = ms_brk s"
        "\<forall>b. b \<noteq> y \<longrightarrow> map_option rec_key (ms_mem s' b) = map_option rec_key (ms_mem s b)"
        "\<And>b. record_entry heap s' b = (if b = y then [] else record_entry heap s b)" by blast
    have "js_weakref_is_live heap (mr_key q)" if "ms_mem s' y = Some q" for q
    proof -
      have "store_ok locks s' (deleted_list locks rs y)" using s'(3) by (simp add: map_inv_def)
      from store_ok_record [OF this that] have q: "record_ok (locks y) q" "y \<in> set (deleted_list locks rs y)" by auto
      have "locks y \<noteq> 0"
        using q(2) store_ok_list(3) [OF inv(1)] by (auto simp: deleted_list_def split: if_splits)
      show ?thesis
      proof (rule ccontr)
        assume nl: "\<not> ?thesis"
        then have "\<not> mr_empty q" using q(1) live by (auto simp: record_ok_def)
        with s'(2) \<open>locks y \<noteq> 0\<close> that show False
          by (auto simp: map_delete_record_internal_def map_free_record_def Let_def split: option.splits if_splits)
      qed
    qed
    then have live': "\<forall>q. ms_mem s' y = Some q \<longrightarrow> js_weakref_is_live heap (mr_key q)" by blast
    define p where "p = last (0 # us)"
    have "record_entry heap s' b = record_entry heap s b" for b
      using s'(8) entry by simp
    with 1(2) [folded p_def] s'(1) [folded p_def] s'(2-7) y(1) assms(2) live' show ?thesis
      by (intro exI [of _ p] exI [of _ y] exI [of _ s1] exI [of _ s']) simp
  next
    case 2
    have notin: "y \<notin> set (cs i)" if "i < 2 ^ ms_hash_bits s" for i
      using table_okD(3) [OF inv(2) that _ assms(3)] 2(1) by (auto simp: map_hash_at_def)
    from map_delete_record_internal_spec [OF inv(1) assms(3) y(2)] obtain s' where
      s': "map_delete_record_internal s y = Inr s'" "store_ok locks s' (deleted_list locks rs y)"
        "ms_mem s' = deleted_mem locks s y r" "same_table s s'" by blast
    have "table_ok heap s' cs"
      by (rule table_ok_removed [OF inv(2) s'(4) _ _ notin])
        (auto simp: s'(3) deleted_mem_def zombie_def split: if_splits)
    moreover have "keys_ok heap s'"
      by (rule keys_ok_removed [OF inv(3)])
        (use s'(4) in \<open>auto simp: same_table_def s'(3) deleted_mem_def zombie_def split: if_splits\<close>)
    moreover have "js_weakref_is_live heap (mr_key q)" if "ms_mem s' y = Some q" for q
      using that live by (auto simp: s'(3) deleted_mem_def zombie_def split: if_splits)
    moreover have "record_entry heap s' b = record_entry heap s b" for b
      using record_entry_deleted [OF s'(3), of heap b] s'(4) entry by (simp add: same_table_def)
    moreover have "map_option rec_key (ms_mem s' b) = map_option rec_key (ms_mem s b)" if "b \<noteq> y" for b
      using that by (simp add: s'(3) deleted_mem_def)
    ultimately have post: "map_inv heap locks s' (deleted_list locks rs y)"
      "\<And>q. ms_mem s' y = Some q \<Longrightarrow> js_weakref_is_live heap (mr_key q)"
      "\<And>b. record_entry heap s' b = record_entry heap s b"
      "\<And>b. b \<noteq> y \<Longrightarrow> map_option rec_key (ms_mem s' b) = map_option rec_key (ms_mem s b)"
      using s'(2) by (auto simp only: map_inv_def)
    define p where "p = last (0 # cs (unat ?h))"
    from s'(4) have "ms_is_weak s' = ms_is_weak s" "ms_head s' = ms_head s" "ms_brk s' = ms_brk s"
      by (simp_all add: same_table_def)
    with 2(2) [folded p_def] s'(1) post assms(2) show ?thesis
      by (intro exI [of _ p] exI [of _ 0] exI [of _ s] exI [of _ s']) simp
  qed
qed

lemma map_delete_weakrefs_loop_spec:
  "map_inv heap locks s (xs @ ys) \<Longrightarrow> ms_is_weak s \<Longrightarrow> length ys \<le> fuel \<Longrightarrow>
   \<forall>a\<in>set xs. \<forall>r. ms_mem s a = Some r \<longrightarrow> js_weakref_is_live heap (mr_key r) \<Longrightarrow>
   \<exists>s' rs'. map_delete_weakrefs_loop heap s (hd (ys @ [ms_head s])) fuel = Inr s' \<and> map_inv heap locks s' rs' \<and>
     ms_is_weak s' \<and> ms_head s' = ms_head s \<and> shrunk locks (xs @ ys) rs' \<and>
     (\<forall>b. record_entry heap s' b = record_entry heap s b) \<and>
     (\<forall>a r. ms_mem s' a = Some r \<longrightarrow> js_weakref_is_live heap (mr_key r))"
proof (induction ys arbitrary: xs s fuel)
  case Nil
  have "store_ok locks s xs" using Nil(1) by (simp add: map_inv_def)
  then have "\<forall>a r. ms_mem s a = Some r \<longrightarrow> js_weakref_is_live heap (mr_key r)"
    using Nil(4) store_ok_list(2) by blast
  with Nil show ?case by (intro exI [of _ s] exI [of _ xs]) (simp add: map_delete_weakrefs_loop.simps [of _ s])
next
  case (Cons y ys)
  have st: "store_ok locks s (xs @ y # ys)" using Cons.prems(1) by (simp add: map_inv_def)
  note l = store_ok_list [OF st]
  obtain f where f: "fuel = Suc f" using Cons.prems(3) by (cases fuel) auto
  have y: "y \<noteq> ms_head s" "l_next (ms_links s) y = hd (ys @ [ms_head s])"
    using l(1) dll_next [OF l(1)] by (auto simp: dll_def)
  from l(2) obtain r where r: "ms_mem s y = Some r" by auto
  show ?case
  proof (cases "js_weakref_is_live heap (mr_key r)")
    case True
    have "\<exists>s' rs'. map_delete_weakrefs_loop heap s (hd (ys @ [ms_head s])) f = Inr s' \<and> map_inv heap locks s' rs' \<and>
       ms_is_weak s' \<and> ms_head s' = ms_head s \<and> shrunk locks ((xs @ [y]) @ ys) rs' \<and>
       (\<forall>b. record_entry heap s' b = record_entry heap s b) \<and>
       (\<forall>a r. ms_mem s' a = Some r \<longrightarrow> js_weakref_is_live heap (mr_key r))"
      by (rule Cons.IH) (use Cons.prems f r True in auto)
    with y r True f show ?thesis by (simp add: map_delete_weakrefs_loop.simps [of _ s y])
  next
    case False
    from map_delete_dead [OF Cons.prems(1,2) r False] obtain pmr mr1 s1 s2 where
      d: "map_find_slot (\<lambda>a r. Inr (a = y)) s (map_hash_key (mr_key r) (ms_hash_bits s)) = Inr (pmr, mr1)"
        "(if mr1 = 0 then Inr s else map_unlink_slot s (map_hash_key (mr_key r) (ms_hash_bits s)) pmr mr1) = Inr s1"
        "map_delete_record_internal s1 y = Inr s2" "map_inv heap locks s2 (deleted_list locks (xs @ y # ys) y)"
        "ms_is_weak s2" "ms_head s2 = ms_head s" "\<forall>b. record_entry heap s2 b = record_entry heap s b"
        "\<forall>q. ms_mem s2 y = Some q \<longrightarrow> js_weakref_is_live heap (mr_key q)"
        "\<forall>b. b \<noteq> y \<longrightarrow> map_option rec_key (ms_mem s2 b) = map_option rec_key (ms_mem s b)" by blast
    from deleted_list_mid [OF l(3), of locks] obtain xs' where
      xs': "deleted_list locks (xs @ y # ys) y = xs' @ ys" "set xs' \<subseteq> insert y (set xs)" by blast
    have live: "\<forall>a\<in>set xs'. \<forall>r. ms_mem s2 a = Some r \<longrightarrow> js_weakref_is_live heap (mr_key r)"
    proof (intro ballI allI impI)
      fix a q
      assume a: "a \<in> set xs'" "ms_mem s2 a = Some q"
      show "js_weakref_is_live heap (mr_key q)"
      proof (cases "a = y")
        case True
        with d(8) a(2) show ?thesis by blast
      next
        case False
        then have x: "a \<in> set xs" and e: "map_option rec_key (ms_mem s a) = map_option rec_key (ms_mem s2 a)"
          using d(9) a(1) xs'(2) by (auto simp del: map_option_eq_Some)
        from e a(2) obtain q0 where "ms_mem s a = Some q0" "mr_key q0 = mr_key q" by auto
        with Cons.prems(4) x show ?thesis by metis
      qed
    qed
    from Cons.IH [OF d(4) [unfolded xs'(1)] d(5) _ live, of f] Cons.prems(3) f d(6) obtain s' rs' where
      s': "map_delete_weakrefs_loop heap s2 (hd (ys @ [ms_head s])) f = Inr s'" "map_inv heap locks s' rs'"
       "ms_is_weak s'" "ms_head s' = ms_head s" "shrunk locks (xs' @ ys) rs'"
       "\<forall>b. record_entry heap s' b = record_entry heap s2 b"
       "\<forall>a r. ms_mem s' a = Some r \<longrightarrow> js_weakref_is_live heap (mr_key r)" by auto
    have "map_delete_weakrefs_loop heap s (hd ((y # ys) @ [ms_head s])) fuel = Inr s'"
      using y r False f d(1-3) s'(1) by (simp add: map_delete_weakrefs_loop.simps [of _ s y] Let_def)
    with s' d(7) shrunk_trans [OF _ s'(5), of "xs @ y # ys"] shrunk_deleted [OF l(3), of locks y] xs'(1) show ?thesis
      by auto
  qed
qed

end
