(* ===== verification/MapIter.thy ===== *)
theory MapIter
  imports MapDelete
begin

text \<open>
  Iterators of maps, the system of a map with its iterators, and its abstraction to association lists.
\<close>

section \<open>Iterators\<close>

lemma map_delete_weakrefs_spec:
  assumes "map_inv heap locks s rs" "ms_is_weak s"
  shows "\<exists>s' rs'. map_delete_weakrefs heap s = Inr s' \<and> map_inv heap locks s' rs' \<and> ms_is_weak s' \<and>
    shrunk locks rs rs' \<and> (\<forall>b. record_entry heap s' b = record_entry heap s b) \<and>
    (\<forall>a r. ms_mem s' a = Some r \<longrightarrow> js_weakref_is_live heap (mr_key r))"
proof -
  have l: "dll (ms_links s) (ms_head s) rs" "length rs \<le> ms_brk s"
    using assms(1) store_ok_list by (auto simp: map_inv_def)
  from map_delete_weakrefs_loop_spec [of heap locks s "[]" rs "ms_brk s"] assms l(2) show ?thesis
    unfolding map_delete_weakrefs_def dll_first [OF l(1)] by auto
qed

lemma map_decref_record_spec:
  assumes "map_inv heap locks s rs" "locks a \<noteq> 0"
  shows "\<exists>s'. map_decref_record s a = Inr s' \<and>
    map_inv heap (locks(a := locks a - 1)) s' (released_list locks s rs a) \<and> ms_is_weak s' = ms_is_weak s \<and>
    ms_head s' = ms_head s \<and> ms_brk s' = ms_brk s \<and> (\<forall>b. record_entry heap s' b = record_entry heap s b)"
proof -
  from assms(1) obtain cs where inv: "store_ok locks s rs" "table_ok heap s cs" "keys_ok heap s"
    by (auto simp: map_inv_def)
  from map_decref_record_store [OF inv(1) assms(2)] obtain s' r where
    s': "map_decref_record s a = Inr s'" "ms_mem s a = Some r"
      "store_ok (locks(a := locks a - 1)) s' (released_list locks s rs a)" "same_table s s'"
    and mem: "if \<not> map_nonempty s a \<and> locks a = 1 then ms_mem s' = (ms_mem s)(a := None)
       else ms_mem s' = (ms_mem s)(a \<mapsto> r\<lparr>mr_ref_count := mr_ref_count r - 1\<rparr>)" by blast
  have w: "ms_is_weak s' = ms_is_weak s" "ms_head s' = ms_head s" "ms_brk s' = ms_brk s"
    using s'(4) by (simp_all add: same_table_def)
  have "table_ok heap s' cs \<and> keys_ok heap s' \<and> (\<forall>b. record_entry heap s' b = record_entry heap s b)"
  proof (cases "\<not> map_nonempty s a \<and> locks a = 1")
    case True
    with mem have m: "ms_mem s' = (ms_mem s)(a := None)" by simp
    have e: "mr_empty r" using True s'(2) by (simp add: map_nonempty_def)
    have notin: "a \<notin> set (cs h)" if "h < 2 ^ ms_hash_bits s" for h
      using table_okD(3) [OF inv(2) that _ s'(2)] e by blast
    have "table_ok heap s' cs" by (rule table_ok_removed [OF inv(2) s'(4) _ _ notin]) (auto simp: m)
    moreover have "keys_ok heap s'" by (rule keys_ok_removed [OF inv(3) w(1)]) (auto simp: m split: if_splits)
    moreover have "record_entry heap s' b = record_entry heap s b" for b
      using e s'(2) w(1) by (cases "b = a") (auto simp: record_entry_def m map_can_match_def split: option.splits)
    ultimately show ?thesis by blast
  next
    case False
    with mem have m: "ms_mem s' = (ms_mem s)(a \<mapsto> r\<lparr>mr_ref_count := mr_ref_count r - 1\<rparr>)" by auto
    have agree: "mem_agree (\<lambda>r. (rec_key r, mr_hash_next r)) (ms_mem s) (ms_mem s')" "mem_agree rec_key (ms_mem s) (ms_mem s')"
      unfolding m using s'(2) by (simp_all add: mem_agree_update)
    have "table_ok heap s' cs" by (rule table_ok_frame [OF inv(2) agree(1)]) (use s'(4) in \<open>simp_all add: same_table_def\<close>)
    moreover have "keys_ok heap s'" by (rule keys_ok_frame [OF inv(3) agree(2) w(1)])
    moreover have "record_entry heap s' b = record_entry heap s b" for b
      using s'(2) w(1) by (cases "b = a") (auto simp: record_entry_def m map_can_match_def split: option.splits)
    ultimately show ?thesis by blast
  qed
  with s'(1,3) w show ?thesis by (auto simp: map_inv_def)
qed

text \<open>Taking a lock.\<close>

definition map_lock :: "JSMapState \<Rightarrow> nat \<Rightarrow> JSMapRecord \<Rightarrow> JSMapState" where
  "map_lock s a r = s\<lparr>ms_mem := (ms_mem s)(a \<mapsto> r\<lparr>mr_ref_count := mr_ref_count r + 1\<rparr>)\<rparr>"

lemma map_lock_spec:
  assumes "map_inv heap locks s rs" "ms_mem s a = Some r"
  shows "map_inv heap (locks(a := locks a + 1)) (map_lock s a r) rs"
    and "record_entry heap (map_lock s a r) b = record_entry heap s b"
proof -
  have "store_ok locks s rs" using assms(1) by (simp add: map_inv_def)
  from store_ok_record [OF this assms(2)] have "record_ok (locks a + 1) (r\<lparr>mr_ref_count := mr_ref_count r + 1\<rparr>)"
    by (simp add: record_ok_def)
  from map_inv_touch [OF assms _ _ this] show "map_inv heap (locks(a := locks a + 1)) (map_lock s a r) rs"
    by (simp add: map_lock_def)
  show "record_entry heap (map_lock s a r) b = record_entry heap s b"
    using assms(2) by (auto simp: map_lock_def record_entry_def map_can_match_def split: option.splits)
qed

lemma map_iterator_skip_spec:
  "store_ok locks s (xs @ ys) \<Longrightarrow> length ys \<le> fuel \<Longrightarrow>
   map_iterator_skip s (hd (ys @ [ms_head s])) fuel = Inr (hd (dropWhile (\<lambda>b. \<not> map_nonempty s b) ys @ [ms_head s]))"
proof (induction ys arbitrary: xs fuel)
  case Nil
  then show ?case by (simp add: map_iterator_skip.simps [of s])
next
  case (Cons y ys)
  note l = store_ok_list [OF Cons.prems(1)]
  obtain f where f: "fuel = Suc f" using Cons.prems(2) by (cases fuel) auto
  have y: "y \<noteq> ms_head s" "l_next (ms_links s) y = hd (ys @ [ms_head s])"
    using l(1) dll_next [OF l(1)] by (auto simp: dll_def)
  from l(2) obtain r where r: "ms_mem s y = Some r" by auto
  have "map_iterator_skip s (hd (ys @ [ms_head s])) f = Inr (hd (dropWhile (\<lambda>b. \<not> map_nonempty s b) ys @ [ms_head s]))"
    by (rule Cons.IH [of "xs @ [y]"]) (use Cons.prems f in auto)
  with y r f show ?case by (simp add: map_iterator_skip.simps [of s y] map_nonempty_def)
qed

text \<open>The records that an iteration has still to visit, and their entries.\<close>

definition list_after :: "nat list \<Rightarrow> nat \<Rightarrow> nat list" where
  "list_after rs a = (if a = 0 then rs else tl (dropWhile (\<lambda>b. b \<noteq> a) rs))"

lemma list_after_0 [simp]: "list_after rs 0 = rs"
  by (simp add: list_after_def)

lemma list_after_split: "a \<noteq> 0 \<Longrightarrow> a \<notin> set us \<Longrightarrow> list_after (us @ a # vs) a = vs"
  by (simp add: list_after_def dropWhile_append)

lemma list_after_append: "a = 0 \<or> a \<in> set rs \<Longrightarrow> list_after (rs @ rs') a = list_after rs a @ rs'"
proof (cases "a = 0")
  case False
  assume "a = 0 \<or> a \<in> set rs"
  with False obtain us vs where "rs = us @ a # vs" "a \<notin> set us" by (auto dest: split_list_first)
  with False show ?thesis using list_after_split [of a us vs] list_after_split [of a us "vs @ rs'"] by simp
qed simp

lemma list_after_filter:
  assumes "a = 0 \<or> (a \<in> set rs \<and> P a)" "distinct rs"
  shows "list_after (filter P rs) a = filter P (list_after rs a)"
proof (cases "a = 0")
  case False
  with assms(1) obtain us vs where "rs = us @ a # vs" "a \<notin> set us" "P a" by (auto dest: split_list_first)
  with False show ?thesis
    using list_after_split [of a us vs] list_after_split [of a "filter P us" "filter P vs"] by simp
qed simp

lemma list_after_subset: "set (list_after rs a) \<subseteq> set rs"
proof (cases "a = 0")
  case False
  then show ?thesis unfolding list_after_def by (induction rs) auto
qed simp

lemma entries_filter:
  "(\<And>a. a \<in> set xs \<Longrightarrow> \<not> P a \<Longrightarrow> record_entry heap s a = []) \<Longrightarrow> map_entries heap s (filter P xs) = map_entries heap s xs"
  by (induction xs) auto

text \<open>Freed records have no entries, so that what is left to visit keeps its entries.\<close>

lemma entries_after_shrunk:
  assumes "shrunk locks rs rs'" "store_ok locks' s' rs'" "distinct rs" "a = 0 \<or> (a \<in> set rs \<and> locks a \<noteq> 0)"
  shows "map_entries heap s' (list_after rs' a) = map_entries heap s' (list_after rs a)"
proof -
  from assms(1) obtain P where P: "rs' = filter P rs" "\<forall>a\<in>set rs. \<not> P a \<longrightarrow> locks a = 0" by (auto simp: shrunk_def)
  have none: "record_entry heap s' b = []" if "b \<in> set rs" "\<not> P b" for b
  proof -
    have "b \<notin> set rs'" using that P(1) by simp
    then have "ms_mem s' b = None" using store_ok_list(2) [OF assms(2)] by auto
    then show ?thesis by (simp add: record_entry_def)
  qed
  have "list_after rs' a = filter P (list_after rs a)"
    unfolding P(1) using assms(3,4) P(2) by (intro list_after_filter) auto
  then show ?thesis using none list_after_subset [of rs a] by (auto intro: entries_filter)
qed

lemma list_after_suffix: "a = 0 \<or> a \<in> set rs \<Longrightarrow> \<exists>us. rs = us @ list_after rs a"
proof (cases "a = 0")
  case False
  assume "a = 0 \<or> a \<in> set rs"
  with False obtain us vs where "rs = us @ a # vs" "a \<notin> set us" by (auto dest: split_list_first)
  with False show ?thesis using list_after_split [of a us vs] by (intro exI [of _ "us @ [a]"]) simp
qed simp

text \<open>Leaving the current record: where the search for the next one starts.\<close>

definition released :: "(nat \<Rightarrow> nat) \<Rightarrow> nat \<Rightarrow> nat \<Rightarrow> nat" where
  "released locks c = (if c = 0 then locks else locks(c := locks c - 1))"

lemma map_iterator_leave:
  assumes "map_inv heap locks s rs" "c = 0 \<or> locks c \<noteq> 0"
  shows "\<exists>s1 us. (if c = 0 then Inr (l_next (ms_links s) (ms_head s), s)
        else map_sum id (Pair (l_next (ms_links s) c)) (map_decref_record s c)) =
      Inr (hd (list_after rs c @ [ms_head s]), s1) \<and>
    map_inv heap (released locks c) s1 (us @ list_after rs c) \<and> shrunk (released locks c) rs (us @ list_after rs c) \<and>
    ms_is_weak s1 = ms_is_weak s \<and> ms_head s1 = ms_head s \<and> ms_brk s1 = ms_brk s \<and>
    (\<forall>b. record_entry heap s1 b = record_entry heap s b)"
proof (cases "c = 0")
  case True
  have "dll (ms_links s) (ms_head s) rs" using assms(1) store_ok_list(1) by (auto simp: map_inv_def)
  from dll_first [OF this] True assms(1) show ?thesis
    by (intro exI [of _ s] exI [of _ "[]"]) (simp add: released_def)
next
  case False
  have st: "store_ok locks s rs" using assms(1) by (simp add: map_inv_def)
  note l = store_ok_list [OF st]
  have c: "locks c \<noteq> 0" "c \<in> set rs" using assms(2) False st by (auto simp: store_ok_def)
  then obtain us vs where rs: "rs = us @ c # vs" "c \<notin> set us" by (auto dest: split_list_first)
  have after: "list_after rs c = vs" using rs False by (simp add: list_after_split)
  have next_c: "l_next (ms_links s) c = hd (vs @ [ms_head s])" using dll_next l(1) rs(1) by blast
  from map_decref_record_spec [OF assms(1) c(1)] obtain s1 where
    s1: "map_decref_record s c = Inr s1" "map_inv heap (locks(c := locks c - 1)) s1 (released_list locks s rs c)"
      "ms_is_weak s1 = ms_is_weak s" "ms_head s1 = ms_head s" "ms_brk s1 = ms_brk s" "\<forall>b. record_entry heap s1 b = record_entry heap s b"
    by blast
  have "\<exists>us'. released_list locks s rs c = us' @ vs"
    using rs by (auto simp: released_list_def remove1_append intro: exI [of _ us] exI [of _ "us @ [c]"])
  then obtain us' where us': "released_list locks s rs c = us' @ vs" by blast
  have "shrunk (locks(c := locks c - 1)) rs (released_list locks s rs c)"
    using shrunk_remove1 [OF l(3), of "locks(c := locks c - 1)" c] by (auto simp: released_list_def)
  with s1 us' False after next_c show ?thesis
    by (intro exI [of _ s1] exI [of _ us']) (simp add: released_def)
qed

lemma dropWhile_head:
  "dropWhile P xs = [] \<and> (\<forall>x\<in>set xs. P x) \<or> (\<exists>ds e es. xs = ds @ e # es \<and> (\<forall>x\<in>set ds. P x) \<and> \<not> P e \<and> dropWhile P xs = e # es)"
proof (cases "dropWhile P xs")
  case (Cons e es)
  then have "xs = takeWhile P xs @ e # es" "\<not> P e" using takeWhile_dropWhile_id [of P xs] by (auto simp: dropWhile_eq_Cons_conv)
  with Cons show ?thesis by (metis set_takeWhileD)
qed simp

lemma js_map_iterator_next_spec:
  assumes "map_inv heap locks s rs" "\<not> ms_is_weak s" "it_attached it"
    and "it_cur_record it = 0 \<or> locks (it_cur_record it) \<noteq> 0"
  defines "c \<equiv> it_cur_record it" and "locks1 \<equiv> released locks (it_cur_record it)"
  shows "\<exists>item s' it' rs' locks'. js_map_iterator_next is_set s it = Inr (item, s', it') \<and> map_inv heap locks' s' rs' \<and>
    shrunk locks1 rs rs' \<and> ms_is_weak s' = ms_is_weak s \<and> ms_head s' = ms_head s \<and>
    (\<forall>b. record_entry heap s' b = record_entry heap s b) \<and>
    (case map_entries heap s (list_after rs c) of
       [] \<Rightarrow> item = None \<and> it' = it\<lparr>it_cur_record := 0, it_attached := False\<rparr> \<and> locks' = locks1
     | e # es \<Rightarrow> \<exists>r a. item = Some (map_item_of (it_kind it) is_set r) \<and> (key_of (mr_key r), mr_value r) = e \<and>
         it' = it\<lparr>it_cur_record := a\<rparr> \<and> a \<noteq> 0 \<and> a \<in> set rs' \<and> locks' = locks1(a := locks1 a + 1) \<and>
         map_entries heap s' (list_after rs' a) = es)"
proof -
  let ?ys = "list_after rs c"
  from map_iterator_leave [OF assms(1), of c] assms(4) obtain s1 us where
    leave: "(if c = 0 then Inr (l_next (ms_links s) (ms_head s), s)
        else map_sum id (Pair (l_next (ms_links s) c)) (map_decref_record s c)) = Inr (hd (?ys @ [ms_head s]), s1)"
    and s1: "map_inv heap locks1 s1 (us @ ?ys)" "shrunk locks1 rs (us @ ?ys)" "ms_is_weak s1 = ms_is_weak s"
      "ms_head s1 = ms_head s" "ms_brk s1 = ms_brk s" "\<And>b. record_entry heap s1 b = record_entry heap s b"
    unfolding c_def locks1_def by blast
  have st: "store_ok locks1 s1 (us @ ?ys)" using s1(1) by (simp add: map_inv_def)
  note l = store_ok_list [OF st]
  have skip: "map_iterator_skip s1 (hd (?ys @ [ms_head s])) (ms_brk s1) =
      Inr (hd (dropWhile (\<lambda>b. \<not> map_nonempty s1 b) ?ys @ [ms_head s]))"
    using map_iterator_skip_spec [OF st, of "ms_brk s1"] l(4) s1(4) by simp
  have can: "map_can_match heap s1 r \<longleftrightarrow> \<not> mr_empty r" for r using assms(2) s1(3) by (simp add: map_can_match_def)
  have entry: "record_entry heap s b = []" if "\<not> map_nonempty s1 b" for b
  proof -
    have "record_entry heap s1 b = []"
      using that can by (cases "ms_mem s1 b") (simp_all add: record_entry_def map_nonempty_def)
    then show ?thesis unfolding s1(6) .
  qed
  have ent: "map_entries heap s xs = map_entries heap s1 xs" for xs
    using s1(6) by (intro map_entries_cong) simp
  have none: "map_entries heap s xs = []" if "\<forall>x\<in>set xs. \<not> map_nonempty s1 x" for xs
    using that entry by (induction xs) auto
  have head: "x \<noteq> ms_head s" if "x \<in> set ?ys" for x using l(1) s1(4) that by (auto simp: dll_def)
  have next_eq: "js_map_iterator_next is_set s it =
      (let el = hd (dropWhile (\<lambda>b. \<not> map_nonempty s1 b) ?ys @ [ms_head s])
       in if el = ms_head s1 then Inr (None, s1, it\<lparr>it_cur_record := 0, it_attached := False\<rparr>)
          else
            (case ms_mem s1 el of
               None \<Rightarrow> Inl OutOfBounds
             | Some mr \<Rightarrow> Inr (Some (map_item_of (it_kind it) is_set mr), map_lock s1 el mr, it\<lparr>it_cur_record := el\<rparr>)))"
    unfolding js_map_iterator_next_def c_def [symmetric] leave map_lock_def using assms(3) skip by (simp add: Let_def)
  from dropWhile_head [of "\<lambda>b. \<not> map_nonempty s1 b" ?ys] show ?thesis
  proof (elim disjE conjE exE)
    assume d: "dropWhile (\<lambda>b. \<not> map_nonempty s1 b) ?ys = []" "\<forall>x\<in>set ?ys. \<not> map_nonempty s1 x"
    have "js_map_iterator_next is_set s it = Inr (None, s1, it\<lparr>it_cur_record := 0, it_attached := False\<rparr>)"
      unfolding next_eq d(1) Let_def using s1(4) by simp
    moreover have "map_entries heap s ?ys = []" using none d(2) by blast
    ultimately show ?thesis using s1
      by (intro exI [of _ None] exI [of _ s1] exI [of _ "it\<lparr>it_cur_record := 0, it_attached := False\<rparr>"]
          exI [of _ "us @ ?ys"] exI [of _ locks1]) simp
  next
    fix ds e es
    assume d: "?ys = ds @ e # es" "\<forall>x\<in>set ds. \<not> map_nonempty s1 x" "\<not> \<not> map_nonempty s1 e"
      "dropWhile (\<lambda>b. \<not> map_nonempty s1 b) ?ys = e # es"
    from d(3) obtain r where r: "ms_mem s1 e = Some r" "\<not> mr_empty r" by (auto simp: map_nonempty_def)
    note lock = map_lock_spec [OF s1(1) r(1)]
    have e: "js_map_iterator_next is_set s it =
        Inr (Some (map_item_of (it_kind it) is_set r), map_lock s1 e r, it\<lparr>it_cur_record := e\<rparr>)"
      using d(4) head [of e] d(1) s1(4) r(1) by (simp add: next_eq Let_def)
    have e0: "e \<noteq> 0" using store_ok_record [OF st r(1)] by simp
    have after: "list_after (us @ ?ys) e = es"
      using l(3) d(1) e0 list_after_split [of e "us @ ds" es] by simp
    have rec: "record_entry heap s1 e = [(key_of (mr_key r), mr_value r)]"
      using r can by (simp add: record_entry_def)
    have ents: "map_entries heap s ?ys = (key_of (mr_key r), mr_value r) # map_entries heap s1 es"
      unfolding d(1) using none [OF d(2)] ent [of es] rec s1(6) [of e] by simp
    let ?s' = "map_lock s1 e r"
    have "map_entries heap ?s' es = map_entries heap s1 es"
      using lock(2) by (intro map_entries_cong) simp
    then have inner: "\<exists>q a. Some (map_item_of (it_kind it) is_set r) = Some (map_item_of (it_kind it) is_set q) \<and>
        (key_of (mr_key q), mr_value q) = (key_of (mr_key r), mr_value r) \<and>
        it\<lparr>it_cur_record := e\<rparr> = it\<lparr>it_cur_record := a\<rparr> \<and> a \<noteq> 0 \<and> a \<in> set (us @ ?ys) \<and>
        locks1(e := locks1 e + 1) = locks1(a := locks1 a + 1) \<and>
        map_entries heap ?s' (list_after (us @ ?ys) a) = map_entries heap s1 es"
      using e0 after d(1) by (intro exI [of _ r] exI [of _ e]) simp
    have w: "ms_is_weak ?s' = ms_is_weak s" "ms_head ?s' = ms_head s" using s1(3,4) by (simp_all add: map_lock_def)
    have same: "\<forall>b. record_entry heap ?s' b = record_entry heap s b" using lock(2) s1(6) by simp
    show ?thesis
      unfolding ents list.case using e lock(1) s1(2) w same inner by blast
  qed
qed

end
