(* ===== verification/MapSystem.thy ===== *)
theory MapSystem
  imports MapIter
begin

text \<open>
  A map together with its iterators as a transition system, and the simulation of an abstract machine
  of association lists: the entries of the map, and for every iterator the entries it has still to deliver.
\<close>

section \<open>The transition system\<close>

record map_system =
  sys_map :: JSMapState
  sys_iters :: "JSMapIteratorData list"

datatype map_op =
    Op_Set jsval jsval
  | Op_Get jsval
  | Op_Has jsval
  | Op_Delete jsval
  | Op_Clear
  | Op_Size
  | Op_Iterator JSIteratorKindEnum
  | Op_Next nat
  | Op_Finalize nat

datatype map_result =
    R_Done
  | R_Value jsval
  | R_Bool bool
  | R_Size u32
  | R_Item "map_item option"
  | R_Error js_error

text \<open>A finalized iterator keeps its number and nothing else.\<close>

definition finalized :: "JSMapIteratorData \<Rightarrow> JSMapIteratorData" where
  "finalized it = it\<lparr>it_attached := False, it_cur_record := 0\<rparr>"

text \<open>One call of a method. The answers of the allocator are free; the arguments are values of the engine.\<close>

inductive map_step :: "js_heap \<Rightarrow> bool \<Rightarrow> map_system \<Rightarrow> map_op \<Rightarrow> map_result \<Rightarrow> map_system \<Rightarrow> bool"
  for heap :: js_heap and is_set :: bool where
  Step_Set: "jsval_ok k \<Longrightarrow> js_map_set heap is_set (sys_map y) k v ans = (Inr m, ans') \<Longrightarrow>
     map_step heap is_set y (Op_Set k v) R_Done (y\<lparr>sys_map := m\<rparr>)"
| Step_Set_Error: "jsval_ok k \<Longrightarrow> js_map_set heap is_set (sys_map y) k v ans = (Inl e, ans') \<Longrightarrow>
     map_step heap is_set y (Op_Set k v) (R_Error e) y"
| Step_Get: "jsval_ok k \<Longrightarrow> js_map_get heap (sys_map y) k = r \<Longrightarrow>
     map_step heap is_set y (Op_Get k) (case r of Inl e \<Rightarrow> R_Error e | Inr v \<Rightarrow> R_Value v) y"
| Step_Has: "jsval_ok k \<Longrightarrow> js_map_has heap (sys_map y) k = r \<Longrightarrow>
     map_step heap is_set y (Op_Has k) (case r of Inl e \<Rightarrow> R_Error e | Inr b \<Rightarrow> R_Bool b) y"
| Step_Delete: "jsval_ok k \<Longrightarrow> js_map_delete heap (sys_map y) k = Inr (b, m) \<Longrightarrow>
     map_step heap is_set y (Op_Delete k) (R_Bool b) (y\<lparr>sys_map := m\<rparr>)"
| Step_Delete_Error: "jsval_ok k \<Longrightarrow> js_map_delete heap (sys_map y) k = Inl e \<Longrightarrow>
     map_step heap is_set y (Op_Delete k) (R_Error e) y"
| Step_Clear: "js_map_clear (sys_map y) = Inr m \<Longrightarrow> map_step heap is_set y Op_Clear R_Done (y\<lparr>sys_map := m\<rparr>)"
| Step_Clear_Error: "js_map_clear (sys_map y) = Inl e \<Longrightarrow> map_step heap is_set y Op_Clear (R_Error e) y"
| Step_Size: "map_step heap is_set y Op_Size (R_Size (js_map_get_size (sys_map y))) y"
| Step_Iterator: "js_create_map_iterator kind ans = (Inr it, ans') \<Longrightarrow>
     map_step heap is_set y (Op_Iterator kind) R_Done (y\<lparr>sys_iters := sys_iters y @ [it]\<rparr>)"
| Step_Iterator_Error: "js_create_map_iterator kind ans = (Inl e, ans') \<Longrightarrow>
     map_step heap is_set y (Op_Iterator kind) (R_Error e) y"
| Step_Next: "i < length (sys_iters y) \<Longrightarrow> js_map_iterator_next is_set (sys_map y) (sys_iters y ! i) = Inr (item, m, it) \<Longrightarrow>
     map_step heap is_set y (Op_Next i) (R_Item item) \<lparr>sys_map = m, sys_iters = (sys_iters y)[i := it]\<rparr>"
| Step_Next_Error: "i < length (sys_iters y) \<Longrightarrow> js_map_iterator_next is_set (sys_map y) (sys_iters y ! i) = Inl e \<Longrightarrow>
     map_step heap is_set y (Op_Next i) (R_Error e) y"
| Step_Finalize: "i < length (sys_iters y) \<Longrightarrow> js_map_iterator_finalizer (sys_map y) (sys_iters y ! i) = Inr m \<Longrightarrow>
     map_step heap is_set y (Op_Finalize i) R_Done
       \<lparr>sys_map = m, sys_iters = (sys_iters y)[i := finalized (sys_iters y ! i)]\<rparr>"
| Step_Finalize_Error: "i < length (sys_iters y) \<Longrightarrow> js_map_iterator_finalizer (sys_map y) (sys_iters y ! i) = Inl e \<Longrightarrow>
     map_step heap is_set y (Op_Finalize i) (R_Error e) y"

inductive_cases map_step_cases: "map_step heap is_set y op res y'"

inductive_simps map_step_next: "map_step heap is_set y (Op_Next i) res y'"

text \<open>The systems that a program can reach from a new map that is not weak.\<close>

inductive map_reachable :: "js_heap \<Rightarrow> bool \<Rightarrow> map_system \<Rightarrow> bool" for heap :: js_heap and is_set :: bool where
  Reach_New: "0 < head \<Longrightarrow> js_map_new False head links ans = (Inr m, ans') \<Longrightarrow>
     map_reachable heap is_set \<lparr>sys_map = m, sys_iters = []\<rparr>"
| Reach_Step: "map_reachable heap is_set y \<Longrightarrow> map_step heap is_set y op res y' \<Longrightarrow> map_reachable heap is_set y'"

section \<open>The abstract machine\<close>

type_synonym map_list = "(js_key \<times> jsval) list"

text \<open>The entries of the map; of each iterator its kind and what it has still to deliver, \<open>None\<close> once it has ended.\<close>

type_synonym abs_map = "map_list \<times> (JSIteratorKindEnum \<times> map_list option) list"

definition abs_value :: "bool \<Rightarrow> jsval \<Rightarrow> jsval" where
  "abs_value is_set v = (if is_set then JS_Undefined else v)"

fun abs_map_op :: "bool \<Rightarrow> map_op \<Rightarrow> abs_map \<Rightarrow> abs_map" where
  "abs_map_op is_set (Op_Set k v) (E, Rs) =
     (let k = key_of k; v = abs_value is_set v
      in (AList.update k v E,
          map (\<lambda>(kind, R). (kind, map_option (\<lambda>R. if k \<in> fst ` set E then map (upd_entry k v) R else R @ [(k, v)]) R)) Rs))"
| "abs_map_op is_set (Op_Delete k) (E, Rs) =
     (AList.delete (key_of k) E, map (\<lambda>(kind, R). (kind, map_option (AList.delete (key_of k)) R)) Rs)"
| "abs_map_op is_set Op_Clear (E, Rs) = ([], map (\<lambda>(kind, R). (kind, map_option (\<lambda>_. []) R)) Rs)"
| "abs_map_op is_set (Op_Iterator kind) (E, Rs) = (E, Rs @ [(kind, Some E)])"
| "abs_map_op is_set (Op_Next i) (E, Rs) =
     (E, Rs[i := (fst (Rs ! i), case snd (Rs ! i) of Some (e # es) \<Rightarrow> Some es | _ \<Rightarrow> None)])"
| "abs_map_op is_set (Op_Finalize i) (E, Rs) = (E, Rs[i := (fst (Rs ! i), None)])"
| "abs_map_op is_set _ (E, Rs) = (E, Rs)"

text \<open>An item of the iteration is made from a key and a value.\<close>

definition item_shows :: "bool \<Rightarrow> JSIteratorKindEnum \<Rightarrow> map_item \<Rightarrow> js_key \<times> jsval \<Rightarrow> bool" where
  "item_shows is_set kind item e \<longleftrightarrow>
     (\<exists>mr. item = map_item_of kind is_set mr \<and> (key_of (mr_key mr), mr_value mr) = e)"

fun abs_map_result :: "bool \<Rightarrow> map_op \<Rightarrow> abs_map \<Rightarrow> map_result \<Rightarrow> bool" where
  "abs_map_result is_set (Op_Get k) (E, Rs) res \<longleftrightarrow>
     res = R_Value (case map_of E (key_of k) of None \<Rightarrow> JS_Undefined | Some v \<Rightarrow> v)"
| "abs_map_result is_set (Op_Has k) (E, Rs) res \<longleftrightarrow> res = R_Bool (map_of E (key_of k) \<noteq> None)"
| "abs_map_result is_set (Op_Delete k) (E, Rs) res \<longleftrightarrow> res = R_Bool (map_of E (key_of k) \<noteq> None)"
| "abs_map_result is_set Op_Size (E, Rs) res \<longleftrightarrow> res = R_Size (word_of_nat (length E))"
| "abs_map_result is_set (Op_Next i) (E, Rs) res \<longleftrightarrow>
     (case snd (Rs ! i) of
        Some (e # es) \<Rightarrow> (\<exists>item. res = R_Item (Some item) \<and> item_shows is_set (fst (Rs ! i)) item e)
      | _ \<Rightarrow> res = R_Item None)"
| "abs_map_result is_set _ (E, Rs) res \<longleftrightarrow> res = R_Done"

section \<open>The invariant of the system\<close>

definition iter_locks :: "JSMapIteratorData list \<Rightarrow> nat \<Rightarrow> nat" where
  "iter_locks its a = (if a = 0 then 0 else count_list (map it_cur_record its) a)"

text \<open>The list of records, read off the links.\<close>

definition map_records :: "JSMapState \<Rightarrow> nat list" where
  "map_records s = the (list_for_each (ms_links s) (ms_head s) (l_next (ms_links s) (ms_head s)) (ms_brk s))"

lemma map_records_eq:
  assumes "store_ok locks s rs"
  shows "map_records s = rs"
  using list_for_each_spec [of "ms_links s" "ms_head s" rs "ms_head s" "ms_brk s"] store_ok_list [OF assms]
  by (simp add: map_records_def dll_def)

definition sys_ok :: "js_heap \<Rightarrow> map_system \<Rightarrow> bool" where
  "sys_ok heap y \<longleftrightarrow> \<not> ms_is_weak (sys_map y) \<and> map_inv heap (iter_locks (sys_iters y)) (sys_map y) (map_records (sys_map y)) \<and>
     (\<forall>it\<in>set (sys_iters y). \<not> it_attached it \<longrightarrow> it_cur_record it = 0)"

definition sys_abs :: "js_heap \<Rightarrow> map_system \<Rightarrow> abs_map" where
  "sys_abs heap y =
     (let s = sys_map y; rs = map_records s
      in (map_entries heap s rs,
          map (\<lambda>it. (it_kind it,
                 if it_attached it then Some (map_entries heap s (list_after rs (it_cur_record it))) else None))
            (sys_iters y)))"

lemma sys_okI:
  assumes "\<not> ms_is_weak s" "map_inv heap (iter_locks its) s rs" "\<And>it. it \<in> set its \<Longrightarrow> \<not> it_attached it \<Longrightarrow> it_cur_record it = 0"
  shows "sys_ok heap \<lparr>sys_map = s, sys_iters = its\<rparr>" "map_records s = rs"
proof -
  show r: "map_records s = rs" using assms(2) map_records_eq by (auto simp: map_inv_def)
  show "sys_ok heap \<lparr>sys_map = s, sys_iters = its\<rparr>" using assms by (simp add: sys_ok_def r)
qed

lemma sys_abs_eq:
  assumes "map_records s = rs"
  shows "sys_abs heap \<lparr>sys_map = s, sys_iters = its\<rparr> = (map_entries heap s rs,
     map (\<lambda>it. (it_kind it, if it_attached it then Some (map_entries heap s (list_after rs (it_cur_record it))) else None)) its)"
  using assms by (simp add: sys_abs_def Let_def)

text \<open>The records that the iterators hold are in the list.\<close>

lemma iter_locked:
  assumes "map_inv heap (iter_locks its) s rs" "it \<in> set its"
  shows "it_cur_record it = 0 \<or> (it_cur_record it \<in> set rs \<and> iter_locks its (it_cur_record it) \<noteq> 0)"
proof (cases "it_cur_record it = 0")
  case False
  then have "iter_locks its (it_cur_record it) \<noteq> 0"
    using assms(2) by (simp add: iter_locks_def count_list_0_iff)
  with assms(1) show ?thesis by (auto simp: map_inv_def store_ok_def)
qed simp

lemma iter_locks_append [simp]: "it_cur_record it = 0 \<Longrightarrow> iter_locks (its @ [it]) = iter_locks its"
  by (simp add: iter_locks_def fun_eq_iff)

lemma count_list_update:
  "i < length xs \<Longrightarrow> count_list (xs[i := x]) a = count_list xs a - of_bool (xs ! i = a) + of_bool (x = a)"
proof (induction xs arbitrary: i)
  case (Cons y ys)
  show ?case
  proof (cases i)
    case (Suc j)
    have "0 < count_list ys a" if "ys ! j = a"
      using that Cons.prems Suc by (metis Suc_less_eq count_list_0_iff gr0I length_Cons nth_mem)
    with Cons Suc show ?thesis by auto
  qed simp
qed simp

lemma iter_locks_update:
  assumes "i < length its"
  shows "iter_locks (its[i := it]) = (let l = released (iter_locks its) (it_cur_record (its ! i))
     in if it_cur_record it = 0 then l else l(it_cur_record it := l (it_cur_record it) + 1))"
  using assms
  by (auto simp: iter_locks_def released_def fun_eq_iff map_update count_list_update Let_def)

section \<open>The simulation\<close>

definition sys_list :: "js_heap \<Rightarrow> JSMapState \<Rightarrow> nat list \<Rightarrow> JSMapIteratorData \<Rightarrow> JSIteratorKindEnum \<times> map_list option" where
  "sys_list heap s rs it =
     (it_kind it, if it_attached it then Some (map_entries heap s (list_after rs (it_cur_record it))) else None)"

lemma sys_list_finalized [simp]: "sys_list heap s rs (finalized it) = (it_kind it, None)"
  by (simp add: sys_list_def finalized_def)

text \<open>How the invariant and the abstraction of a system are established from those of its map.\<close>

definition its_ok :: "JSMapIteratorData list \<Rightarrow> bool" where
  "its_ok its \<longleftrightarrow> (\<forall>it\<in>set its. \<not> it_attached it \<longrightarrow> it_cur_record it = 0)"

lemma sys_intro:
  assumes "\<not> ms_is_weak s" "map_inv heap (iter_locks its) s rs" "its_ok its"
  shows "sys_ok heap \<lparr>sys_map = s, sys_iters = its\<rparr>"
    and "sys_abs heap \<lparr>sys_map = s, sys_iters = its\<rparr> = (map_entries heap s rs, map (sys_list heap s rs) its)"
proof -
  have d: "\<And>it. it \<in> set its \<Longrightarrow> \<not> it_attached it \<Longrightarrow> it_cur_record it = 0" using assms(3) by (simp add: its_ok_def)
  show "sys_ok heap \<lparr>sys_map = s, sys_iters = its\<rparr>" by (rule sys_okI(1) [OF assms(1,2) d])
  show "sys_abs heap \<lparr>sys_map = s, sys_iters = its\<rparr> = (map_entries heap s rs, map (sys_list heap s rs) its)"
    using sys_abs_eq [OF sys_okI(2) [OF assms(1,2) d], of heap its] by (simp add: sys_list_def)
qed

lemma sys_elim:
  assumes "sys_ok heap y"
  obtains s its rs where "y = \<lparr>sys_map = s, sys_iters = its\<rparr>" "\<not> ms_is_weak s" "map_inv heap (iter_locks its) s rs"
    "its_ok its" "sys_abs heap y = (map_entries heap s rs, map (sys_list heap s rs) its)"
proof -
  obtain s its where y: "y = \<lparr>sys_map = s, sys_iters = its\<rparr>" by (cases y) auto
  from assms have "\<not> ms_is_weak s" "map_inv heap (iter_locks its) s (map_records s)" "its_ok its"
    by (auto simp: sys_ok_def its_ok_def y)
  from that [OF y this] sys_intro(2) [OF this] y show ?thesis by simp
qed

text \<open>An operation that deletes records or changes the contents of records, and keeps the locks.\<close>

lemma sys_list_shrunk:
  assumes "map_inv heap locks s rs" "map_inv heap locks' s' rs'" "shrunk locks1 rs rs'"
    and "it_cur_record it = 0 \<or> (it_cur_record it \<in> set rs \<and> locks1 (it_cur_record it) \<noteq> 0)"
    and "\<forall>b. record_entry heap s' b = f (record_entry heap s b)" "f [] = []" "\<And>xs ys. f (xs @ ys) = f xs @ f ys"
  shows "sys_list heap s' rs' it = map_prod id (map_option f) (sys_list heap s rs it)"
proof -
  let ?c = "it_cur_record it"
  have "map_entries heap s' (list_after rs' ?c) = map_entries heap s' (list_after rs ?c)"
    by (rule entries_after_shrunk [OF assms(3) _ _ assms(4)])
      (use assms(1,2) in \<open>auto simp: map_inv_def dest: store_ok_list(3)\<close>)
  also have "\<dots> = f (map_entries heap s (list_after rs ?c))"
    by (rule map_entries_records) (use assms(5,6,7) in auto)
  finally show ?thesis by (simp add: sys_list_def)
qed

lemma sys_shrunk:
  assumes "map_inv heap (iter_locks its) s rs" "map_inv heap (iter_locks its) s' rs'" "shrunk (iter_locks its) rs rs'"
    and "\<forall>b. record_entry heap s' b = f (record_entry heap s b)" "f [] = []" "\<And>xs ys. f (xs @ ys) = f xs @ f ys"
  shows "map_entries heap s' rs' = f (map_entries heap s rs)"
    and "map (sys_list heap s' rs') its = map (map_prod id (map_option f)) (map (sys_list heap s rs) its)"
proof -
  have "map_entries heap s' (list_after rs' 0) = map_entries heap s' (list_after rs 0)"
    by (rule entries_after_shrunk [OF assms(3)]) (use assms(1,2) in \<open>auto simp: map_inv_def dest: store_ok_list(3)\<close>)
  also have "\<dots> = f (map_entries heap s rs)"
    by (simp, rule map_entries_records) (use assms(4,5,6) in auto)
  finally show "map_entries heap s' rs' = f (map_entries heap s rs)" by simp
  show "map (sys_list heap s' rs') its = map (map_prod id (map_option f)) (map (sys_list heap s rs) its)"
    using sys_list_shrunk [OF assms(1,2,3) iter_locked [OF assms(1)] assms(4,5,6)] by simp
qed

text \<open>An operation that appends records and changes the values of records.\<close>

lemma sys_list_appended:
  assumes "map_inv heap locks s rs" "it_cur_record it = 0 \<or> it_cur_record it \<in> set rs"
    and "\<forall>b\<in>set rs. record_entry heap s' b = f (record_entry heap s b)" "f [] = []" "\<And>xs ys. f (xs @ ys) = f xs @ f ys"
  shows "sys_list heap s' (rs @ rs') it =
    map_prod id (map_option (\<lambda>R. f R @ map_entries heap s' rs')) (sys_list heap s rs it)"
proof -
  let ?c = "it_cur_record it"
  have "map_entries heap s' (list_after rs ?c) = f (map_entries heap s (list_after rs ?c))"
    by (rule map_entries_records) (use assms(3,4,5) list_after_subset in blast)+
  then show ?thesis by (simp add: sys_list_def list_after_append [OF assms(2)])
qed


definition op_allocates :: "map_op \<Rightarrow> bool" where
  "op_allocates op \<longleftrightarrow> (case op of Op_Set k v \<Rightarrow> True | Op_Iterator kind \<Rightarrow> True | _ \<Rightarrow> False)"

definition step_ok :: "js_heap \<Rightarrow> bool \<Rightarrow> map_system \<Rightarrow> map_op \<Rightarrow> map_result \<Rightarrow> map_system \<Rightarrow> bool" where
  "step_ok heap is_set y op res y' \<longleftrightarrow>
     (res = R_Error OutOfMemory \<and> y' = y \<and> op_allocates op) \<or>
     (sys_ok heap y' \<and> sys_abs heap y' = abs_map_op is_set op (sys_abs heap y) \<and> abs_map_result is_set op (sys_abs heap y) res)"

text \<open>The entries of a map have as keys those that the list of their keys has.\<close>

lemma entries_has_key: "(map_of es k \<noteq> None) = (k \<in> fst ` set es)"
  by (simp add: map_of_eq_None_iff)

lemma step_set:
  assumes "sys_ok heap y" "jsval_ok k" "js_map_set heap is_set (sys_map y) k v ans = (r, ans')"
  shows "(r = Inl OutOfMemory \<and> None \<in> set ans) \<or>
    (\<exists>m. r = Inr m \<and> step_ok heap is_set y (Op_Set k v) R_Done (y\<lparr>sys_map := m\<rparr>))"
  using assms(1)
proof (rule sys_elim)
  fix s its rs
  assume y: "y = \<lparr>sys_map = s, sys_iters = its\<rparr>" and w: "\<not> ms_is_weak s"
    and inv: "map_inv heap (iter_locks its) s rs" and its: "its_ok its"
    and abs: "sys_abs heap y = (map_entries heap s rs, map (sys_list heap s rs) its)"
  let ?nv = "abs_value is_set v" and ?k = "key_of k"
  from js_map_set_records [OF inv assms(2), of is_set v ans] w assms(3) y consider "r = Inl OutOfMemory" "None \<in> set ans"
    | (ok) s' rs' where "r = Inr s'" "map_inv heap (iter_locks its) s' (rs @ rs')" "\<not> ms_is_weak s'"
        "\<forall>b\<in>set rs. record_entry heap s' b = map (upd_entry ?k ?nv) (record_entry heap s b)"
        "map_entries heap s' rs' = (if ?k \<in> fst ` set (map_entries heap s rs) then [] else [(?k, ?nv)])"
    by (auto simp: abs_value_def)
  then show ?thesis
  proof cases
    case ok
    have e: "map_entries heap s' rs = map (upd_entry ?k ?nv) (map_entries heap s rs)"
      by (rule map_entries_records [OF ok(4)]) simp_all
    have l: "sys_list heap s' (rs @ rs') it = map_prod id (map_option (\<lambda>R.
        if ?k \<in> fst ` set (map_entries heap s rs) then map (upd_entry ?k ?nv) R else R @ [(?k, ?nv)])) (sys_list heap s rs it)"
      if it: "it \<in> set its" for it
    proof -
      have c: "it_cur_record it = 0 \<or> it_cur_record it \<in> set rs" using iter_locked [OF inv it] by auto
      have "set (map_entries heap s (list_after rs (it_cur_record it))) \<subseteq> set (map_entries heap s rs)"
        using list_after_subset [of rs "it_cur_record it"] by (auto simp: map_entries_def)
      then show ?thesis
        unfolding sys_list_appended [OF inv c ok(4), simplified]
        using upd_entry_missing [of ?k "map_entries heap s (list_after rs (it_cur_record it))" ?nv]
        by (auto simp: sys_list_def ok(5))
    qed
    have "distinct (map fst (map_entries heap s rs))" by (rule map_entries_distinct [OF inv])
    then have "step_ok heap is_set y (Op_Set k v) R_Done \<lparr>sys_map = s', sys_iters = its\<rparr>"
      using sys_intro [OF ok(3,2) its] l
      by (auto simp: step_ok_def abs e ok(5) AList_update_upd Let_def map_prod_def)
    with ok(1) y show ?thesis by simp
  qed simp
qed


lemma entries_count:
  assumes "store_ok locks s rs" "\<not> ms_is_weak s"
  shows "ms_record_count s = word_of_nat (length (map_entries heap s rs))"
proof -
  have "length (filter (map_nonempty s) xs) = length (map_entries heap s xs)" if "set xs \<subseteq> dom (ms_mem s)" for xs
    using that assms(2)
    by (induction xs) (auto simp: map_nonempty_def record_entry_def map_can_match_def)
  with assms(1) show ?thesis by (simp add: store_ok_def)
qed

lemma step_delete:
  assumes "sys_ok heap y" "jsval_ok k"
  shows "\<exists>b m. js_map_delete heap (sys_map y) k = Inr (b, m) \<and>
    step_ok heap is_set y (Op_Delete k) (R_Bool b) (y\<lparr>sys_map := m\<rparr>)"
  using assms(1)
proof (rule sys_elim)
  fix s its rs
  assume y: "y = \<lparr>sys_map = s, sys_iters = its\<rparr>" and w: "\<not> ms_is_weak s"
    and inv: "map_inv heap (iter_locks its) s rs" and its: "its_ok its"
    and abs: "sys_abs heap y = (map_entries heap s rs, map (sys_list heap s rs) its)"
  from map_delete_record_spec [OF inv assms(2)] obtain s' rs'
    where d: "map_delete_record heap s k = Inr (key_of k \<in> fst ` set (map_entries heap s rs), s')"
      and s': "map_inv heap (iter_locks its) s' rs'" "\<not> ms_is_weak s'"
        "rs' = rs \<or> (\<exists>a. rs' = remove1 a rs \<and> iter_locks its a = 0)"
        "\<forall>b. record_entry heap s' b = AList.delete (key_of k) (record_entry heap s b)"
    using w by blast
  have "distinct rs" using inv by (auto simp: map_inv_def dest: store_ok_list(3))
  then have "shrunk (iter_locks its) rs rs'" using s'(3) shrunk_remove1 by auto
  note e = sys_shrunk [OF inv s'(1) this s'(4) _ AList_delete_append, simplified]
  have "step_ok heap is_set y (Op_Delete k) (R_Bool (key_of k \<in> fst ` set (map_entries heap s rs)))
      \<lparr>sys_map = s', sys_iters = its\<rparr>"
    using sys_intro [OF s'(2,1) its] by (simp add: step_ok_def abs e entries_has_key map_prod_def del: not_None_eq)
  with d y show ?thesis by (simp add: js_map_delete_def)
qed

lemma step_clear:
  assumes "sys_ok heap y"
  shows "\<exists>m. js_map_clear (sys_map y) = Inr m \<and> step_ok heap is_set y Op_Clear R_Done (y\<lparr>sys_map := m\<rparr>)"
  using assms(1)
proof (rule sys_elim)
  fix s its rs
  assume y: "y = \<lparr>sys_map = s, sys_iters = its\<rparr>" and w: "\<not> ms_is_weak s"
    and inv: "map_inv heap (iter_locks its) s rs" and its: "its_ok its"
    and abs: "sys_abs heap y = (map_entries heap s rs, map (sys_list heap s rs) its)"
  from js_map_clear_spec [OF inv] obtain s' rs'
    where d: "js_map_clear s = Inr s'"
      and s': "map_inv heap (iter_locks its) s' rs'" "\<not> ms_is_weak s'" "shrunk (iter_locks its) rs rs'"
        "\<forall>b. record_entry heap s' b = []"
    using w by blast
  have e: "map_entries heap s' rs' = []"
      "map (sys_list heap s' rs') its = map (map_prod id (map_option (\<lambda>_. []))) (map (sys_list heap s rs) its)"
    using sys_shrunk [OF inv s'(1,3), of "\<lambda>_. []"] s'(4) by simp_all
  have "step_ok heap is_set y Op_Clear R_Done \<lparr>sys_map = s', sys_iters = its\<rparr>"
    using sys_intro [OF s'(2,1) its] by (simp add: step_ok_def abs e map_prod_def)
  with d y show ?thesis by simp
qed

lemma step_get:
  assumes "sys_ok heap y" "jsval_ok k"
  shows "\<exists>v. js_map_get heap (sys_map y) k = Inr v \<and> step_ok heap is_set y (Op_Get k) (R_Value v) y"
    and "\<exists>b. js_map_has heap (sys_map y) k = Inr b \<and> step_ok heap is_set y (Op_Has k) (R_Bool b) y"
    and "step_ok heap is_set y Op_Size (R_Size (js_map_get_size (sys_map y))) y"
proof -
  from assms(1) obtain s its rs where y: "y = \<lparr>sys_map = s, sys_iters = its\<rparr>" and w: "\<not> ms_is_weak s"
      and inv: "map_inv heap (iter_locks its) s rs" and its: "its_ok its"
      and abs: "sys_abs heap y = (map_entries heap s rs, map (sys_list heap s rs) its)"
    by (rule sys_elim)
  show "\<exists>v. js_map_get heap (sys_map y) k = Inr v \<and> step_ok heap is_set y (Op_Get k) (R_Value v) y"
    using js_map_get_spec(1) [OF inv assms(2)] assms(1) by (simp add: step_ok_def abs) (simp add: y)
  show "\<exists>b. js_map_has heap (sys_map y) k = Inr b \<and> step_ok heap is_set y (Op_Has k) (R_Bool b) y"
    using js_map_get_spec(2) [OF inv assms(2)] assms(1) by (simp add: step_ok_def abs) (simp add: y)
  have "js_map_get_size s = word_of_nat (length (map_entries heap s rs))"
    using inv w by (auto simp: js_map_get_size_def map_inv_def intro: entries_count)
  then show "step_ok heap is_set y Op_Size (R_Size (js_map_get_size (sys_map y))) y"
    using assms(1) by (simp add: step_ok_def abs) (simp add: y)
qed

lemma step_iterator:
  assumes "sys_ok heap y" "js_create_map_iterator kind ans = (r, ans')"
  shows "r = Inl OutOfMemory \<or>
    (\<exists>it. r = Inr it \<and> step_ok heap is_set y (Op_Iterator kind) R_Done (y\<lparr>sys_iters := sys_iters y @ [it]\<rparr>))"
proof -
  from assms(1) obtain s its rs where y: "y = \<lparr>sys_map = s, sys_iters = its\<rparr>" and w: "\<not> ms_is_weak s"
      and inv: "map_inv heap (iter_locks its) s rs" and its: "its_ok its"
      and abs: "sys_abs heap y = (map_entries heap s rs, map (sys_list heap s rs) its)"
    by (rule sys_elim)
  let ?it = "\<lparr>it_attached = True, it_kind = kind, it_cur_record = 0\<rparr>"
  have "r = Inl OutOfMemory \<or> r = Inr ?it"
    using assms(2) by (auto simp: js_create_map_iterator_def js_bind_def js_return_def js_malloc_block_def split: list.splits option.splits)
  moreover have "step_ok heap is_set y (Op_Iterator kind) R_Done \<lparr>sys_map = s, sys_iters = its @ [?it]\<rparr>"
    using sys_intro [of s heap "its @ [?it]" rs] w inv its
    by (simp add: step_ok_def abs its_ok_def sys_list_def)
  ultimately show ?thesis by (auto simp: y)
qed


text \<open>One iterator moves, and the others keep their place.\<close>

lemma sys_moved:
  assumes "map_inv heap (iter_locks its) s rs" "its_ok its" "i < length its"
    and "map_inv heap locks' s' rs'" "shrunk (released (iter_locks its) (it_cur_record (its ! i))) rs rs'"
    and "\<forall>b. record_entry heap s' b = record_entry heap s b"
  shows "map_entries heap s' rs' = map_entries heap s rs"
    and "map (sys_list heap s' rs') (its[i := it]) = (map (sys_list heap s rs) its)[i := sys_list heap s' rs' it]"
proof -
  let ?locks = "released (iter_locks its) (it_cur_record (its ! i))"
  let ?its = "its[i := (its ! i)\<lparr>it_cur_record := 0\<rparr>]"
  have l: "?locks = iter_locks ?its" using iter_locks_update [OF assms(3)] by simp
  have d: "distinct rs" using assms(1) by (auto simp: map_inv_def dest: store_ok_list(3))
  have "map_entries heap s' (list_after rs' 0) = map_entries heap s' (list_after rs 0)"
    by (rule entries_after_shrunk [OF assms(5) _ d]) (use assms(4) in \<open>auto simp: map_inv_def\<close>)
  also have "\<dots> = map_entries heap s rs" by (simp, rule map_entries_cong) (use assms(6) in blast)
  finally show "map_entries heap s' rs' = map_entries heap s rs" by simp
  have "sys_list heap s' rs' (its ! j) = sys_list heap s rs (its ! j)" if j: "j < length its" "j \<noteq> i" for j
  proof -
    let ?c = "it_cur_record (its ! j)"
    have c: "?c = 0 \<or> ?c \<in> set rs" using iter_locked [OF assms(1) nth_mem [OF j(1)]] by auto
    have "?locks ?c \<noteq> 0" if "?c \<noteq> 0"
    proof -
      have "its ! j \<in> set ?its" using j by (metis length_list_update nth_list_update_neq nth_mem)
      with that show ?thesis unfolding l by (simp add: iter_locks_def count_list_0_iff)
    qed
    with c have "?c = 0 \<or> (?c \<in> set rs \<and> ?locks ?c \<noteq> 0)" by auto
    from sys_list_shrunk [OF assms(1,4,5) this, of id] assms(6) show ?thesis by (simp add: option.map_id0 prod.map_id0)
  qed
  then show "map (sys_list heap s' rs') (its[i := it]) = (map (sys_list heap s rs) its)[i := sys_list heap s' rs' it]"
  proof (intro nth_equalityI)
    fix j assume "j < length (map (sys_list heap s' rs') (its[i := it]))"
    with \<open>\<And>j. j < length its \<Longrightarrow> j \<noteq> i \<Longrightarrow> sys_list heap s' rs' (its ! j) = sys_list heap s rs (its ! j)\<close>
    show "map (sys_list heap s' rs') (its[i := it]) ! j = (map (sys_list heap s rs) its)[i := sys_list heap s' rs' it] ! j"
      by (cases "j = i") simp_all
  qed simp
qed

lemma its_ok_update: "its_ok its \<Longrightarrow> (\<not> it_attached it \<longrightarrow> it_cur_record it = 0) \<Longrightarrow> its_ok (its[i := it])"
  by (auto simp: its_ok_def dest!: set_update_subset_insert [THEN subsetD])

lemma step_next:
  assumes "sys_ok heap y" "i < length (sys_iters y)"
  shows "\<exists>item m it. js_map_iterator_next is_set (sys_map y) (sys_iters y ! i) = Inr (item, m, it) \<and>
    step_ok heap is_set y (Op_Next i) (R_Item item) \<lparr>sys_map = m, sys_iters = (sys_iters y)[i := it]\<rparr>"
proof -
  from assms(1) obtain s its rs where y: "y = \<lparr>sys_map = s, sys_iters = its\<rparr>" and w: "\<not> ms_is_weak s"
      and inv: "map_inv heap (iter_locks its) s rs" and its: "its_ok its"
      and abs: "sys_abs heap y = (map_entries heap s rs, map (sys_list heap s rs) its)"
    by (rule sys_elim)
  let ?it = "its ! i" and ?c = "it_cur_record (its ! i)"
  have i: "i < length its" using assms(2) y by simp
  show ?thesis
  proof (cases "it_attached ?it")
    case False
    then have "sys_list heap s rs ?it = (it_kind ?it, None)" by (simp add: sys_list_def)
    with i have "step_ok heap is_set y (Op_Next i) (R_Item None) y"
      by (simp add: step_ok_def assms(1) abs) (metis length_map list_update_id nth_map)
    with False show ?thesis by (simp add: js_map_iterator_next_def y)
  next
    case True
    have c: "?c = 0 \<or> iter_locks its ?c \<noteq> 0" using iter_locked [OF inv nth_mem [OF i]] by auto
    from js_map_iterator_next_spec [OF inv w True c, of is_set]
    obtain item s' it' rs' locks' where n: "js_map_iterator_next is_set s ?it = Inr (item, s', it')"
        and inv': "map_inv heap locks' s' rs'" and sh: "shrunk (released (iter_locks its) ?c) rs rs'" and w': "\<not> ms_is_weak s'"
        and e: "\<forall>b. record_entry heap s' b = record_entry heap s b"
        and r: "case map_entries heap s (list_after rs ?c) of
          [] \<Rightarrow> item = None \<and> it' = ?it\<lparr>it_cur_record := 0, it_attached := False\<rparr> \<and> locks' = released (iter_locks its) ?c
        | e # es \<Rightarrow> \<exists>r a. item = Some (map_item_of (it_kind ?it) is_set r) \<and> (key_of (mr_key r), mr_value r) = e \<and>
            it' = ?it\<lparr>it_cur_record := a\<rparr> \<and> a \<noteq> 0 \<and> a \<in> set rs' \<and>
            locks' = (released (iter_locks its) ?c)(a := released (iter_locks its) ?c a + 1) \<and>
            map_entries heap s' (list_after rs' a) = es"
      using w by auto
    note moved = sys_moved [OF inv its i inv' sh e]
    have l: "locks' = iter_locks (its[i := it'])"
      using r unfolding iter_locks_update [OF i] by (auto simp: Let_def split: list.splits)
    have "its_ok (its[i := it'])"
      by (rule its_ok_update [OF its]) (use r True in \<open>auto split: list.splits\<close>)
    note intro = sys_intro [OF w' inv' [unfolded l] this]
    have sl: "sys_list heap s' rs' it' = (it_kind ?it,
        case map_entries heap s (list_after rs ?c) of [] \<Rightarrow> None | e # es \<Rightarrow> Some es)"
      using r True by (auto simp: sys_list_def split: list.splits)
    have "step_ok heap is_set y (Op_Next i) (R_Item item) \<lparr>sys_map = s', sys_iters = its[i := it']\<rparr>"
      unfolding step_ok_def
    proof (intro disjI2 conjI)
      show "sys_abs heap \<lparr>sys_map = s', sys_iters = its[i := it']\<rparr> = abs_map_op is_set (Op_Next i) (sys_abs heap y)"
      proof -
        have "(map (sys_list heap s rs) its ! i) = (it_kind ?it, Some (map_entries heap s (list_after rs ?c)))"
          using True i by (simp add: sys_list_def)
        then show ?thesis by (simp add: intro(2) moved abs sl)
      qed
      show "abs_map_result is_set (Op_Next i) (sys_abs heap y) (R_Item item)"
        using r True i by (auto simp: abs sys_list_def item_shows_def split: list.splits)
    qed (rule intro(1))
    with n y show ?thesis by simp
  qed
qed

lemma step_finalize:
  assumes "sys_ok heap y" "i < length (sys_iters y)"
  shows "\<exists>m. js_map_iterator_finalizer (sys_map y) (sys_iters y ! i) = Inr m \<and>
    step_ok heap is_set y (Op_Finalize i) R_Done \<lparr>sys_map = m, sys_iters = (sys_iters y)[i := finalized (sys_iters y ! i)]\<rparr>"
proof -
  from assms(1) obtain s its rs where y: "y = \<lparr>sys_map = s, sys_iters = its\<rparr>" and w: "\<not> ms_is_weak s"
      and inv: "map_inv heap (iter_locks its) s rs" and its: "its_ok its"
      and abs: "sys_abs heap y = (map_entries heap s rs, map (sys_list heap s rs) its)"
    by (rule sys_elim)
  let ?it = "its ! i" and ?c = "it_cur_record (its ! i)" and ?its = "its[i := finalized (its ! i)]"
  have i: "i < length its" using assms(2) y by simp
  have c: "?c = 0 \<or> iter_locks its ?c \<noteq> 0" using iter_locked [OF inv nth_mem [OF i]] by auto
  have att: "?c \<noteq> 0 \<Longrightarrow> it_attached ?it" using its i by (auto simp: its_ok_def)
  have d: "distinct rs" using inv by (auto simp: map_inv_def dest: store_ok_list(3))
  have "\<exists>s' rs'. js_map_iterator_finalizer s ?it = Inr s' \<and> map_inv heap (released (iter_locks its) ?c) s' rs' \<and>
      shrunk (released (iter_locks its) ?c) rs rs' \<and> \<not> ms_is_weak s' \<and> (\<forall>b. record_entry heap s' b = record_entry heap s b)"
  proof (cases "?c = 0")
    case True
    with inv w show ?thesis by (auto simp: js_map_iterator_finalizer_def released_def)
  next
    case False
    then have l: "iter_locks its ?c \<noteq> 0" using c by simp
    have "shrunk (released (iter_locks its) ?c) rs (released_list (iter_locks its) s rs ?c)"
      using shrunk_remove1 [OF d, of _ ?c] by (simp add: released_list_def released_def False)
    with map_decref_record_spec [OF inv l] False att w show ?thesis
      by (simp add: js_map_iterator_finalizer_def released_def) blast
  qed
  then obtain s' rs' where f: "js_map_iterator_finalizer s ?it = Inr s'" and w': "\<not> ms_is_weak s'"
      and inv': "map_inv heap (released (iter_locks its) ?c) s' rs'" and sh: "shrunk (released (iter_locks its) ?c) rs rs'"
      and e: "\<forall>b. record_entry heap s' b = record_entry heap s b" by blast
  have l: "released (iter_locks its) ?c = iter_locks ?its"
    unfolding iter_locks_update [OF i] by (simp add: finalized_def)
  have "its_ok ?its" by (rule its_ok_update [OF its]) (simp add: finalized_def)
  note intro = sys_intro [OF w' inv' [unfolded l] this]
  have "step_ok heap is_set y (Op_Finalize i) R_Done \<lparr>sys_map = s', sys_iters = ?its\<rparr>"
    using i by (simp add: step_ok_def intro sys_moved [OF inv its i inv' sh e] abs) (simp add: sys_list_def)
  with f y show ?thesis by simp
qed


section \<open>Reachable systems\<close>

lemma map_step_sim:
  assumes "sys_ok heap y" "map_step heap is_set y op res y'"
  shows "step_ok heap is_set y op res y'"
  using assms(2)
proof cases
  case (Step_Set k v ans m ans')
  with step_set [OF assms(1) Step_Set(4,5)] show ?thesis by simp
next
  case (Step_Set_Error k v ans e ans')
  with step_set [OF assms(1) Step_Set_Error(4,5)] show ?thesis by (simp add: step_ok_def op_allocates_def)
next
  case (Step_Get k r)
  with step_get(1) [OF assms(1) Step_Get(4), where is_set = is_set] show ?thesis by auto
next
  case (Step_Has k r)
  with step_get(2) [OF assms(1) Step_Has(4), where is_set = is_set] show ?thesis by auto
next
  case (Step_Delete k b m)
  with step_delete [OF assms(1) Step_Delete(4)] show ?thesis by auto
next
  case (Step_Delete_Error k e)
  with step_delete [OF assms(1) Step_Delete_Error(4)] show ?thesis by auto
next
  case (Step_Clear m)
  with step_clear [OF assms(1)] show ?thesis by auto
next
  case (Step_Clear_Error e)
  with step_clear [OF assms(1)] show ?thesis by auto
next
  case Step_Size
  with step_get(3) [OF assms(1), of JS_Undefined] show ?thesis by simp
next
  case (Step_Iterator kind ans it ans')
  with step_iterator [OF assms(1) Step_Iterator(4)] show ?thesis by auto
next
  case (Step_Iterator_Error kind ans e ans')
  with step_iterator [OF assms(1) Step_Iterator_Error(4)] show ?thesis by (auto simp: step_ok_def op_allocates_def)
next
  case (Step_Next i item m it)
  with step_next [OF assms(1) Step_Next(4), where is_set = is_set] show ?thesis by auto
next
  case (Step_Next_Error i e)
  with step_next [OF assms(1) Step_Next_Error(4), where is_set = is_set] show ?thesis by auto
next
  case (Step_Finalize i m)
  with step_finalize [OF assms(1) Step_Finalize(4)] show ?thesis by auto
next
  case (Step_Finalize_Error i e)
  with step_finalize [OF assms(1) Step_Finalize_Error(4)] show ?thesis by auto
qed

lemma js_map_new_inv:
  assumes "0 < head" "js_map_new is_weak head links ans = (Inr m, ans')"
  shows "map_inv heap (\<lambda>_. 0) m [] \<and> ms_is_weak m = is_weak"
proof -
  have m: "m = \<lparr>ms_is_weak = is_weak, ms_head = head, ms_links = init_list_head head links, ms_mem = (\<lambda>_. None),
      ms_brk = head + 1, ms_record_count = 0, ms_hash_table = replicate 2 0, ms_hash_bits = 1, ms_hash_size = 2,
      ms_record_count_threshold = 4\<rparr>"
    using assms(2) by (auto simp: js_map_new_def js_bind_def js_return_def js_malloc_block_def Let_def split: list.splits option.splits)
  have "table_ok heap m (\<lambda>_. [])" by (simp add: table_ok_def m)
  moreover have "store_ok (\<lambda>_. 0) m []"
    using assms(1) by (simp add: store_ok_def m dll_def init_list_head_def)
  ultimately show ?thesis by (auto simp: map_inv_def keys_ok_def m)
qed

lemma map_reachable_ok: "map_reachable heap is_set y \<Longrightarrow> sys_ok heap y"
proof (induction rule: map_reachable.induct)
  case (Reach_New head links ans m ans')
  moreover have "iter_locks [] = (\<lambda>_. 0)" by (simp add: iter_locks_def fun_eq_iff)
  ultimately show ?case using js_map_new_inv [of head False links ans m ans' heap]
    by (intro sys_intro(1) [of _ _ _ "[]"]) (simp_all add: its_ok_def)
next
  case (Reach_Step y op res y')
  from map_step_sim [OF Reach_Step.IH Reach_Step.hyps(2)] Reach_Step.IH show ?case by (auto simp: step_ok_def)
qed


text \<open>A result of the abstract machine is never an error.\<close>

lemma abs_no_error: "\<not> abs_map_result is_set op A (R_Error e)"
  by (cases op; cases A) (auto split: option.splits list.splits)

lemma map_step_error:
  assumes "sys_ok heap y" "map_step heap is_set y op (R_Error e) y'"
  shows "e = OutOfMemory \<and> op_allocates op \<and> y' = y"
  using map_step_sim [OF assms] by (simp add: step_ok_def abs_no_error)

section \<open>Properties\<close>




text \<open>A sequence of operations with their results.\<close>

inductive map_run :: "js_heap \<Rightarrow> bool \<Rightarrow> map_system \<Rightarrow> (map_op \<times> map_result) list \<Rightarrow> map_system \<Rightarrow> bool"
  for heap :: js_heap and is_set :: bool where
  Run_Nil: "map_run heap is_set y [] y"
| Run_Cons: "map_step heap is_set y op res y1 \<Longrightarrow> map_run heap is_set y1 tr y' \<Longrightarrow> map_run heap is_set y ((op, res) # tr) y'"

inductive_simps map_run_Nil: "map_run heap is_set y [] y'"
inductive_simps map_run_Cons: "map_run heap is_set y (e # tr) y'"

text \<open>A step of one iterator changes the list of that iterator only.\<close>

lemma next_abs:
  assumes "sys_ok heap y" "i < length (sys_iters y)" "snd (sys_abs heap y) ! i = (kind, Some R)"
    and "map_step heap is_set y (Op_Next i) res y'"
  shows "sys_ok heap y' \<and> length (sys_iters y') = length (sys_iters y) \<and>
    (case R of [] \<Rightarrow> res = R_Item None
     | e # es \<Rightarrow> snd (sys_abs heap y') ! i = (kind, Some es) \<and> (\<exists>item. res = R_Item (Some item) \<and> item_shows is_set kind item e))"
proof -
  obtain E Rs where a: "sys_abs heap y = (E, Rs)" by fastforce
  then have "length Rs = length (sys_iters y)" by (auto simp: sys_abs_def Let_def)
  moreover have "step_ok heap is_set y (Op_Next i) res y'" by (rule map_step_sim [OF assms(1,4)])
  moreover have "length (sys_iters y') = length (sys_iters y)"
    using assms(4) by (auto simp: map_step_next)
  ultimately show ?thesis
    using assms(2,3) by (auto simp: step_ok_def op_allocates_def a split: list.splits)
qed

lemma drain_results:
  "sys_ok heap y \<Longrightarrow> i < length (sys_iters y) \<Longrightarrow> snd (sys_abs heap y) ! i = (kind, Some R) \<Longrightarrow>
   map_run heap is_set y tr y' \<Longrightarrow> map fst tr = replicate (length R + 1) (Op_Next i) \<Longrightarrow>
   \<exists>items. map snd tr = map (\<lambda>x. R_Item (Some x)) items @ [R_Item None] \<and> list_all2 (item_shows is_set kind) items R"
proof (induction R arbitrary: y tr)
  case Nil
  then obtain res where "tr = [(Op_Next i, res)]" by auto
  with Nil next_abs [OF Nil.prems(1-3), of is_set res] have "map snd tr = [R_Item None]"
    by (auto simp: map_run_Cons)
  then show ?case by (intro exI [of _ "[]"]) simp
next
  case (Cons e es)
  then obtain res tr' where tr: "tr = (Op_Next i, res) # tr'" by (cases tr) auto
  with Cons.prems(4) obtain y1 where y1: "map_step heap is_set y (Op_Next i) res y1" "map_run heap is_set y1 tr' y'"
    by (auto simp: map_run_Cons)
  from next_abs [OF Cons.prems(1-3) y1(1)] obtain item
    where n: "sys_ok heap y1" "i < length (sys_iters y1)" "snd (sys_abs heap y1) ! i = (kind, Some es)"
      and item: "res = R_Item (Some item)" "item_shows is_set kind item e"
    using Cons.prems(2) by auto
  from Cons.IH [OF n y1(2)] Cons.prems(5) tr obtain items
    where "map snd tr' = map (\<lambda>x. R_Item (Some x)) items @ [R_Item None]" "list_all2 (item_shows is_set kind) items es" by auto
  with item tr show ?case by (intro exI [of _ "item # items"]) simp
qed

lemma drain_exists:
  assumes "sys_ok heap y" "i < length (sys_iters y)"
  shows "\<exists>tr y'. map_run heap is_set y tr y' \<and> map fst tr = replicate n (Op_Next i)"
  using assms
proof (induction n arbitrary: y)
  case 0
  then show ?case by (auto intro: Run_Nil)
next
  case (Suc n)
  from step_next [OF Suc.prems, of is_set] obtain item m it
    where s: "map_step heap is_set y (Op_Next i) (R_Item item) \<lparr>sys_map = m, sys_iters = (sys_iters y)[i := it]\<rparr>"
      and ok: "sys_ok heap \<lparr>sys_map = m, sys_iters = (sys_iters y)[i := it]\<rparr>"
    using Suc.prems(2) by (auto simp: step_ok_def intro: Step_Next)
  from Suc.IH [OF ok] Suc.prems(2) obtain tr y'
    where "map_run heap is_set \<lparr>sys_map = m, sys_iters = (sys_iters y)[i := it]\<rparr> tr y'" "map fst tr = replicate n (Op_Next i)" by auto
  with s show ?case by (intro exI [of _ "(Op_Next i, R_Item item) # tr"] exI [of _ y']) (auto intro: Run_Cons)
qed



section \<open>A system with one entry\<close>

definition demo_heap :: js_heap where
  "demo_heap = \<lparr>heap_ref_count = \<lambda>_. 1, heap_plain_symbol = \<lambda>_. True\<rparr>"

text \<open>The keys of the examples are the booleans.\<close>

definition demo_new :: JSMapState where
  "demo_new = \<lparr>ms_is_weak = False, ms_head = 1, ms_links = init_list_head 1 \<lparr>l_prev = \<lambda>_. 0, l_next = \<lambda>_. 0\<rparr>,
     ms_mem = (\<lambda>_. None), ms_brk = 2, ms_record_count = 0, ms_hash_table = replicate 2 0, ms_hash_bits = 1, ms_hash_size = 2,
     ms_record_count_threshold = 4\<rparr>"

definition demo_iter :: JSMapIteratorData where
  "demo_iter = \<lparr>it_attached = True, it_kind = JS_ITERATOR_KIND_VALUE, it_cur_record = 0\<rparr>"

lemma demo_created: "js_map_new False 1 \<lparr>l_prev = \<lambda>_. 0, l_next = \<lambda>_. 0\<rparr> [] = (Inr demo_new, [])"
  by (simp add: js_map_new_def js_bind_def js_return_def js_malloc_block_def demo_new_def)

lemma demo_reachable: "map_reachable demo_heap False \<lparr>sys_map = demo_new, sys_iters = []\<rparr>"
  by (rule Reach_New [OF _ demo_created]) simp

lemma demo_abs: "sys_abs demo_heap \<lparr>sys_map = demo_new, sys_iters = []\<rparr> = ([], [])"
proof -
  have "iter_locks [] = (\<lambda>_. 0)" by (simp add: iter_locks_def fun_eq_iff)
  then have "map_inv demo_heap (iter_locks []) demo_new []" using js_map_new_inv [OF _ demo_created] by simp
  from sys_intro(2) [OF _ this] show ?thesis by (simp add: its_ok_def demo_new_def)
qed

lemma demo_set:
  obtains m ans' where "js_map_set demo_heap False demo_new (JS_Bool True) (JS_Int 7) [] = (Inr m, ans')"
    "map_step demo_heap False \<lparr>sys_map = demo_new, sys_iters = []\<rparr> (Op_Set (JS_Bool True) (JS_Int 7)) R_Done
       \<lparr>sys_map = m, sys_iters = []\<rparr>"
    "sys_abs demo_heap \<lparr>sys_map = m, sys_iters = []\<rparr> = ([(K_Bool True, JS_Int 7)], [])"
proof -
  obtain r ans' where r: "js_map_set demo_heap False demo_new (JS_Bool True) (JS_Int 7) [] = (r, ans')" by fastforce
  from step_set [OF map_reachable_ok [OF demo_reachable], of "JS_Bool True" False "JS_Int 7" "[]"] r
  obtain m where m: "r = Inr m" and ok: "step_ok demo_heap False \<lparr>sys_map = demo_new, sys_iters = []\<rparr>
      (Op_Set (JS_Bool True) (JS_Int 7)) R_Done \<lparr>sys_map = m, sys_iters = []\<rparr>" by auto
  have "map_step demo_heap False \<lparr>sys_map = demo_new, sys_iters = []\<rparr> (Op_Set (JS_Bool True) (JS_Int 7)) R_Done
       \<lparr>sys_map = m, sys_iters = []\<rparr>"
    using Step_Set [of "JS_Bool True" demo_heap False "\<lparr>sys_map = demo_new, sys_iters = []\<rparr>" "JS_Int 7" "[]" m ans'] r m by simp
  from that [OF r [unfolded m] this] ok show thesis by (simp add: step_ok_def demo_abs abs_value_def)
qed

text \<open>The map with one entry and an iterator over its values.\<close>

lemma demo_iterating:
  obtains m where "fst (js_map_set demo_heap False demo_new (JS_Bool True) (JS_Int 7) []) = Inr m"
    "map_reachable demo_heap False \<lparr>sys_map = m, sys_iters = [demo_iter]\<rparr>"
    "sys_abs demo_heap \<lparr>sys_map = m, sys_iters = [demo_iter]\<rparr> =
       ([(K_Bool True, JS_Int 7)], [(JS_ITERATOR_KIND_VALUE, Some [(K_Bool True, JS_Int 7)])])"
proof (rule demo_set)
  fix m ans'
  assume m: "js_map_set demo_heap False demo_new (JS_Bool True) (JS_Int 7) [] = (Inr m, ans')"
    and s: "map_step demo_heap False \<lparr>sys_map = demo_new, sys_iters = []\<rparr> (Op_Set (JS_Bool True) (JS_Int 7)) R_Done
       \<lparr>sys_map = m, sys_iters = []\<rparr>"
    and a: "sys_abs demo_heap \<lparr>sys_map = m, sys_iters = []\<rparr> = ([(K_Bool True, JS_Int 7)], [])"
  have r: "map_reachable demo_heap False \<lparr>sys_map = m, sys_iters = []\<rparr>" by (rule Reach_Step [OF demo_reachable s])
  have "js_create_map_iterator JS_ITERATOR_KIND_VALUE [] = (Inr demo_iter, [])"
    by (simp add: js_create_map_iterator_def js_bind_def js_return_def js_malloc_block_def demo_iter_def)
  from Step_Iterator [OF this, of demo_heap False "\<lparr>sys_map = m, sys_iters = []\<rparr>"]
  have i: "map_step demo_heap False \<lparr>sys_map = m, sys_iters = []\<rparr> (Op_Iterator JS_ITERATOR_KIND_VALUE) R_Done
      \<lparr>sys_map = m, sys_iters = [demo_iter]\<rparr>" by simp
  from that [OF _ Reach_Step [OF r i]] m map_step_sim [OF map_reachable_ok [OF r] i] show thesis
    by (simp add: step_ok_def a)
qed




end
