(* ===== verification/MapWeak.thy ===== *)
theory MapWeak
  imports MapIter
begin

text \<open>
  Weak maps whose keys die, and \<open>forEach\<close> with a callback that may delete entries while it runs.
\<close>

section \<open>Keys that die\<close>

definition key_live :: "js_heap \<Rightarrow> js_key \<Rightarrow> bool" where
  "key_live heap k =
     (case k of
        K_Object p \<Rightarrow> heap_ref_count heap p \<noteq> 0
      | K_Symbol p \<Rightarrow> heap_ref_count heap p \<noteq> 0
      | _ \<Rightarrow> True)"

lemma key_live_of: "key_normal v \<Longrightarrow> key_live heap (key_of v) = js_weakref_is_live heap v"
  by (cases v) (auto simp: key_live_def js_weakref_is_live_def)

text \<open>Objects die, and none comes back.\<close>

definition heap_dies :: "js_heap \<Rightarrow> js_heap \<Rightarrow> bool" where
  "heap_dies heap heap' \<longleftrightarrow> (\<forall>p. heap_ref_count heap p = 0 \<longrightarrow> heap_ref_count heap' p = 0)"

lemma can_match_dies:
  assumes "heap_dies heap heap'" "map_can_match heap' s r"
  shows "map_can_match heap s r"
  using assms by (auto simp: map_can_match_def heap_dies_def js_weakref_is_live_def split: jsval.splits)

lemma map_inv_dies:
  assumes "map_inv heap locks s rs" "heap_dies heap heap'"
  shows "map_inv heap' locks s rs"
proof -
  have "table_ok heap' s cs" if "table_ok heap s cs" for cs
    using that can_match_dies [OF assms(2)] unfolding table_ok_def by blast
  moreover have "keys_ok heap' s" if "keys_ok heap s"
    using that can_match_dies [OF assms(2)] unfolding keys_ok_def by blast
  ultimately show ?thesis using assms(1) by (auto simp: map_inv_def)
qed

lemma entries_dies:
  assumes "map_inv heap locks s rs" "heap_dies heap heap'" "ms_is_weak s"
  shows "map_entries heap' s xs = filter (key_live heap' \<circ> fst) (map_entries heap s xs)"
proof -
  have "record_entry heap' s a = filter (key_live heap' \<circ> fst) (record_entry heap s a)" for a
  proof (cases "ms_mem s a")
    case (Some r)
    with assms(1) have "\<not> mr_empty r \<Longrightarrow> key_normal (mr_key r)"
      by (auto simp: map_inv_def record_ok_def dest: store_ok_record split: if_splits)
    with Some assms(3) can_match_dies [OF assms(2), of s r] show ?thesis
      by (auto simp: record_entry_def map_can_match_def key_live_of)
  qed (simp add: record_entry_def)
  then show ?thesis by (induction xs) simp_all
qed

text \<open>C17: when keys of a weak map have died, the sweep never fails and leaves exactly the entries whose keys
  are alive, in their order and with their values: the entries of the dead keys are no longer found before the
  sweep and their records are gone after it, so that the count of records is the number of entries.\<close>

theorem map_delete_weakrefs_correct:
  assumes "map_inv heap locks s rs" "ms_is_weak s" "heap_dies heap heap'"
  shows "\<exists>s' rs'. map_delete_weakrefs heap' s = Inr s' \<and> map_inv heap' locks s' rs' \<and>
    map_entries heap' s rs = filter (key_live heap' \<circ> fst) (map_entries heap s rs) \<and>
    map_entries heap' s' rs' = filter (key_live heap' \<circ> fst) (map_entries heap s rs) \<and>
    js_map_get_size s' = word_of_nat (length (map_entries heap' s' rs'))"
proof -
  have inv: "map_inv heap' locks s rs" by (rule map_inv_dies [OF assms(1,3)])
  from map_delete_weakrefs_spec [OF inv assms(2)] obtain s' rs'
    where s': "map_delete_weakrefs heap' s = Inr s'" "map_inv heap' locks s' rs'" "ms_is_weak s'" "shrunk locks rs rs'"
      "\<forall>b. record_entry heap' s' b = record_entry heap' s b"
      "\<forall>a r. ms_mem s' a = Some r \<longrightarrow> js_weakref_is_live heap' (mr_key r)" by blast
  have st: "store_ok locks s' rs'" "distinct rs" using s'(2) inv by (auto simp: map_inv_def dest: store_ok_list(3))
  have "map_entries heap' s' (list_after rs' 0) = map_entries heap' s' (list_after rs 0)"
    by (rule entries_after_shrunk [OF s'(4) st]) simp
  then have "map_entries heap' s' rs' = map_entries heap' s rs"
    using map_entries_cong [of rs heap' s' s] s'(5) by simp
  moreover have "length (filter (map_nonempty s') xs) = length (map_entries heap' s' xs)" if "set xs \<subseteq> dom (ms_mem s')" for xs
    using that s'(6)
    by (induction xs) (auto simp: map_nonempty_def record_entry_def map_can_match_def)
  ultimately show ?thesis
    using s' st(1) entries_dies [OF assms(1,3,2)] by (auto simp: store_ok_def js_map_get_size_def)
qed


section \<open>forEach\<close>

lemma decref_locked:
  assumes "ms_mem s a = Some r" "mr_ref_count r > 0"
  shows "map_decref_record (map_lock s a r) a = Inr s"
  using assms by (auto simp: map_decref_record_def map_lock_def fun_upd_idem)

text \<open>What \<open>forEach\<close> passes to a callback that does not change the map.\<close>

fun forEach_list :: "(jsval \<Rightarrow> jsval \<Rightarrow> 'w \<Rightarrow> (js_error + jsval) \<times> 'w) \<Rightarrow> bool \<Rightarrow> (jsval \<times> jsval) list \<Rightarrow> 'w \<Rightarrow> (js_error + unit) \<times> 'w" where
  "forEach_list g is_set [] w = (Inr (), w)"
| "forEach_list g is_set ((k, v) # es) w =
     (case g (if is_set then k else v) k w of
        (Inl e, w) \<Rightarrow> (Inl e, w)
      | (Inr _, w) \<Rightarrow> forEach_list g is_set es w)"

definition map_items :: "JSMapState \<Rightarrow> nat list \<Rightarrow> (jsval \<times> jsval) list" where
  "map_items s rs = concat (map (\<lambda>a. case ms_mem s a of
     None \<Rightarrow> [] | Some r \<Rightarrow> if mr_empty r then [] else [(mr_key r, mr_value r)]) rs)"

lemma forEach_pure_loop:
  fixes g :: "jsval \<Rightarrow> jsval \<Rightarrow> 'w \<Rightarrow> (js_error + jsval) \<times> 'w"
  assumes "store_ok locks s rs"
  shows "rs = xs @ ys \<Longrightarrow> length ys \<le> fuel \<Longrightarrow>
    js_map_forEach_loop (\<lambda>v k s w. case g v k w of (r, w) \<Rightarrow> (r, s, w)) is_set (hd (ys @ [ms_head s])) fuel s w =
    (case forEach_list g is_set (map_items s ys) w of (r, w) \<Rightarrow> (r, s, w))"
proof (induction ys arbitrary: xs fuel w)
  case Nil
  then show ?case by (subst js_map_forEach_loop.simps) (simp add: map_items_def)
next
  case (Cons y ys)
  then obtain n where n: "fuel = Suc n" by (cases fuel) auto
  have "y \<in> dom (ms_mem s)" using Cons.prems(1) store_ok_list(2) [OF assms] by auto
  then obtain r where ry: "ms_mem s y = Some r" by auto
  with store_ok_record [OF assms ry] have r: "ms_mem s y = Some r" "mr_ref_count r > 0" by (simp_all add: record_ok_def)
  have y: "y \<noteq> ms_head s" "l_next (ms_links s) y = hd (ys @ [ms_head s])"
    using store_ok_list(1) [OF assms] Cons.prems(1) dll_next by (auto simp: dll_def)
  have IH: "js_map_forEach_loop (\<lambda>v k s w. case g v k w of (r, w) \<Rightarrow> (r, s, w)) is_set (hd (ys @ [ms_head s])) n s w =
      (case forEach_list g is_set (map_items s ys) w of (r, w) \<Rightarrow> (r, s, w))" for w
    by (rule Cons.IH [of "xs @ [y]"]) (use Cons.prems n in simp_all)
  show ?case
  proof (cases "mr_empty r")
    case True
    then show ?thesis
      unfolding n by (subst js_map_forEach_loop.simps) (simp add: y r IH, simp add: map_items_def r)
  next
    case False
    obtain q w1 where q: "g (if is_set then mr_key r else mr_value r) (mr_key r) w = (q, w1)" by fastforce
    have items: "map_items s (y # ys) = (mr_key r, mr_value r) # map_items s ys" using False by (simp add: map_items_def r)
    show ?thesis
      unfolding n items using False
      by (subst js_map_forEach_loop.simps)
        (simp add: y r IH q decref_locked [OF r, unfolded map_lock_def] Let_def split: sum.split)
  qed
qed

text \<open>A callback that may delete entries of the map, or do with its locks what it undoes.\<close>

definition deleting_callback :: "js_heap \<Rightarrow> (jsval \<Rightarrow> jsval \<Rightarrow> ('w, jsval) map_call) \<Rightarrow> bool" where
  "deleting_callback heap func \<longleftrightarrow> (\<forall>v k s w ret s' w' locks rs. func v k s w = (ret, s', w') \<longrightarrow> map_inv heap locks s rs \<longrightarrow>
     (\<exists>rs'. map_inv heap locks s' rs' \<and> shrunk locks rs rs' \<and> ms_head s' = ms_head s \<and> ms_is_weak s' = ms_is_weak s))"

lemma shrunk_split:
  assumes "shrunk locks (xs @ y # ys) rs" "locks y \<noteq> 0"
  obtains xs' ys' where "rs = xs' @ y # ys'" "length ys' \<le> length ys" "shrunk locks ys ys'"
proof -
  from assms(1) obtain P where P: "rs = filter P (xs @ y # ys)" "\<forall>a\<in>set (xs @ y # ys). \<not> P a \<longrightarrow> locks a = 0"
    by (auto simp: shrunk_def)
  with assms(2) have "rs = filter P xs @ y # filter P ys" by auto
  with P(2) show ?thesis by (intro that [of "filter P xs" "filter P ys"]) (auto simp: shrunk_def)
qed

lemma forEach_loop_spec:
  assumes f: "deleting_callback heap func"
  shows "map_inv heap locks s (xs @ ys) \<Longrightarrow> length ys \<le> fuel \<Longrightarrow>
    \<exists>ret s' w' rs'. js_map_forEach_loop func is_set (hd (ys @ [ms_head s])) fuel s w = (ret, s', w') \<and>
      map_inv heap locks s' rs' \<and> shrunk locks (xs @ ys) rs' \<and>
      (\<forall>e. ret = Inl e \<longrightarrow> (\<exists>v k s w locks rs. map_inv heap locks s rs \<and> fst (func v k s w) = Inl e))"
proof (induction fuel arbitrary: s xs ys w)
  case 0
  then show ?case by (subst js_map_forEach_loop.simps) auto
next
  case (Suc n)
  show ?case
  proof (cases ys)
    case Nil
    with Suc.prems show ?thesis by (subst js_map_forEach_loop.simps) auto
  next
    case (Cons y zs)
    have st: "store_ok locks s (xs @ y # zs)" using Suc.prems Cons by (simp add: map_inv_def)
    then obtain r where r: "ms_mem s y = Some r" using store_ok_list(2) [OF st] by auto
    have d: "dll (ms_links s) (ms_head s) (xs @ y # zs)" "distinct (xs @ y # zs)"
      using store_ok_list [OF st] by auto
    have y: "y \<noteq> ms_head s" "l_next (ms_links s) y = hd (zs @ [ms_head s])"
      using d(1) dll_next by (auto simp: dll_def)
    have inv: "map_inv heap locks s ((xs @ [y]) @ zs)" using Suc.prems(1) Cons by simp
    show ?thesis
    proof (cases "mr_empty r")
      case True
      with Suc.IH [OF inv, of w] Suc.prems(2) Cons y r show ?thesis
        by (subst js_map_forEach_loop.simps) simp
    next
      case False
      let ?l = "locks(y := locks y + 1)"
      let ?v = "if is_set then mr_key r else mr_value r"
      obtain ret s1 w1 where call: "func ?v (mr_key r) (map_lock s y r) w = (ret, s1, w1)" by (metis prod.exhaust)
      have locked: "map_inv heap ?l (map_lock s y r) (xs @ y # zs)"
        using map_lock_spec(1) [OF _ r] Suc.prems(1) Cons by simp
      with f call obtain rs1 where s1: "map_inv heap ?l s1 rs1" "shrunk ?l (xs @ y # zs) rs1" "ms_head s1 = ms_head s"
        unfolding deleting_callback_def map_lock_def by fastforce
      from shrunk_split [OF s1(2)] obtain xs1 ys1
        where rs1: "rs1 = xs1 @ y # ys1" "length ys1 \<le> length zs" "shrunk ?l zs ys1" by auto
      have d1: "distinct rs1" "dll (ms_links s1) (ms_head s1) rs1"
        using s1(1) by (auto simp: map_inv_def dest: store_ok_list)
      have el1: "l_next (ms_links s1) y = hd (ys1 @ [ms_head s])" using dll_next d1(2) s1(3) rs1(1) by auto
      from map_decref_record_spec [OF s1(1), of y] obtain s2
        where s2: "map_decref_record s1 y = Inr s2" "map_inv heap locks s2 (released_list ?l s1 rs1 y)" "ms_head s2 = ms_head s"
        using s1(3) by auto
      obtain xs2 where xs2: "released_list ?l s1 rs1 y = xs2 @ ys1"
      proof (cases "\<not> map_nonempty s1 y \<and> ?l y = 1")
        case True
        with d1(1) rs1(1) that [of xs1] show ?thesis by (simp add: released_list_def remove1_append)
      next
        case False
        with rs1(1) that [of "xs1 @ [y]"] show ?thesis by (auto simp: released_list_def)
      qed
      have sh: "shrunk locks (xs @ y # zs) (xs2 @ ys1)"
      proof -
        from s1(2) obtain P where P: "rs1 = filter P (xs @ y # zs)" "\<forall>a\<in>set (xs @ y # zs). \<not> P a \<longrightarrow> ?l a = 0"
          by (auto simp: shrunk_def)
        have "shrunk locks (xs @ y # zs) rs1"
          unfolding shrunk_def by (rule exI [of _ P]) (use P in \<open>auto split: if_splits\<close>)
        moreover have "shrunk locks rs1 (released_list ?l s1 rs1 y)"
          using shrunk_remove1 [OF d1(1), of locks y] by (simp add: released_list_def)
        ultimately show ?thesis using shrunk_trans xs2 by metis
      qed
      show ?thesis
      proof (cases ret)
        case (Inl e)
        have "js_map_forEach_loop func is_set (hd (ys @ [ms_head s])) (Suc n) s w = (Inl e, s2, w1)"
          using call y r False s2(1) Inl Cons by (subst js_map_forEach_loop.simps) (simp add: map_lock_def Let_def)
        moreover have "fst (func ?v (mr_key r) (map_lock s y r) w) = Inl e" using call Inl by simp
        ultimately show ?thesis using s2(2) xs2 sh Cons locked by fastforce
      next
        case (Inr u)
        have loop: "js_map_forEach_loop func is_set (hd (ys @ [ms_head s])) (Suc n) s w =
            js_map_forEach_loop func is_set (hd (ys1 @ [ms_head s2])) n s2 w1"
          using call y r False s2(1,3) Inr Cons el1 by (subst js_map_forEach_loop.simps) (simp add: map_lock_def Let_def)
        have "length ys1 \<le> n" using rs1(2) Suc.prems(2) Cons by simp
        from Suc.IH [OF s2(2) [unfolded xs2] this, of w1] obtain ret' s' w' rs'
          where IH: "js_map_forEach_loop func is_set (hd (ys1 @ [ms_head s2])) n s2 w1 = (ret', s', w')"
            "map_inv heap locks s' rs'" "shrunk locks (xs2 @ ys1) rs'"
            "\<forall>e. ret' = Inl e \<longrightarrow> (\<exists>v k s w locks rs. map_inv heap locks s rs \<and> fst (func v k s w) = Inl e)" by blast
        show ?thesis unfolding loop
          using IH shrunk_trans [OF sh IH(3)] Cons by blast
      qed
    qed
  qed
qed



text \<open>A weak map whose only key has died, and a map without entries.\<close>

definition weak_new :: JSMapState where
  "weak_new = \<lparr>ms_is_weak = True, ms_head = 1, ms_links = init_list_head 1 \<lparr>l_prev = \<lambda>_. 0, l_next = \<lambda>_. 0\<rparr>,
     ms_mem = (\<lambda>_. None), ms_brk = 2, ms_record_count = 0, ms_hash_table = replicate 2 0, ms_hash_bits = 1, ms_hash_size = 2,
     ms_record_count_threshold = 4\<rparr>"

lemma weak_new_inv: "map_inv heap (\<lambda>_. 0) weak_new []"
proof -
  have "table_ok heap weak_new (\<lambda>_. [])" by (simp add: table_ok_def weak_new_def)
  then show ?thesis
    by (auto simp: map_inv_def store_ok_def keys_ok_def weak_new_def dll_def init_list_head_def)
qed

definition live_heap :: "nat \<Rightarrow> js_heap" where
  "live_heap n = \<lparr>heap_ref_count = \<lambda>_. n, heap_plain_symbol = \<lambda>_. True\<rparr>"

theorem map_delete_weakrefs_witness:
  "\<exists>m s0 s1. fst (js_map_set (live_heap 2) False weak_new (JS_Object 5) (JS_Int 7) []) = Inr m \<and>
     map_delete_weakrefs (live_heap 2) m = Inr s1 \<and> js_map_get_size s1 = 1 \<and>
     map_delete_weakrefs (live_heap 0) m = Inr s0 \<and> js_map_get_size s0 = 0"
proof -
  have w: "ms_is_weak weak_new" by (simp add: weak_new_def)
  from js_map_set_records [OF weak_new_inv [of "live_heap 2"], of "JS_Object 5" False "JS_Int 7" "[]"]
  obtain m ans' rs' where m: "js_map_set (live_heap 2) False weak_new (JS_Object 5) (JS_Int 7) [] = (Inr m, ans')"
      and inv: "map_inv (live_heap 2) (\<lambda>_. 0) m rs'" and wm: "ms_is_weak m"
      and e: "map_entries (live_heap 2) m rs' = [(K_Object 5, JS_Int 7)]"
    by (auto simp: w js_weakref_is_target_def js_weakref_is_live_def map_normalize_key_def live_heap_def)
  have d: "heap_dies (live_heap 2) (live_heap n)" for n by (simp add: heap_dies_def live_heap_def)
  have l: "key_live (live_heap n) (K_Object p) \<longleftrightarrow> n \<noteq> 0" for n p by (simp add: key_live_def live_heap_def)
  show ?thesis
    using map_delete_weakrefs_correct [OF inv wm d [of 0]] map_delete_weakrefs_correct [OF inv wm d [of 2]]
    by (auto simp: m e l)
qed

text \<open>A callback that clears the map and records the key it was called with.\<close>

definition clearing :: "jsval \<Rightarrow> jsval \<Rightarrow> (jsval list, jsval) map_call" where
  "clearing v k s w = (case js_map_clear s of Inl e \<Rightarrow> (Inl e, s, w) | Inr s \<Rightarrow> (Inr JS_Undefined, s, w @ [k]))"


end
