(* ===== verification/MapCopy.thy ===== *)
theory MapCopy
  imports MapSystem
begin

text \<open>
  Operations on a whole map: the copy of a set, the marking of its values and its end.
\<close>

section \<open>The code\<close>

text \<open>The records of the set are added to a new one without calling its method \<open>add\<close>.\<close>

fun js_copy_set_loop :: "js_heap \<Rightarrow> JSMapState \<Rightarrow> JSMapState \<Rightarrow> nat \<Rightarrow> nat \<Rightarrow> JSMapState js" where
  "js_copy_set_loop heap s t el fuel =
     (if el = ms_head s then js_return t
      else
        (case ms_mem s el of
           None \<Rightarrow> js_throw OutOfBounds
         | Some mr \<Rightarrow>
             (case fuel of
                0 \<Rightarrow> js_throw Nontermination
              | Suc fuel \<Rightarrow>
                  if mr_empty mr then js_copy_set_loop heap s t (l_next (ms_links s) el) fuel
                  else js_bind (set_add_record heap t (mr_key mr)) (\<lambda>(added, t).
                         js_copy_set_loop heap s t (l_next (ms_links s) el) fuel))))"

definition js_copy_set :: "js_heap \<Rightarrow> JSMapState \<Rightarrow> nat \<Rightarrow> list_links \<Rightarrow> JSMapState js" where
  "js_copy_set heap s head links =
     js_bind (js_map_new False head links) (\<lambda>t.
       js_copy_set_loop heap s t (l_next (ms_links s) (ms_head s)) (ms_brk s))"

text \<open>The values that the garbage collector reaches through a map, in the order in which it visits them.\<close>

fun js_map_mark_loop :: "JSMapState \<Rightarrow> nat \<Rightarrow> nat \<Rightarrow> js_error + jsval list" where
  "js_map_mark_loop s el fuel =
     (if el = ms_head s then Inr []
      else
        (case ms_mem s el of
           None \<Rightarrow> Inl OutOfBounds
         | Some mr \<Rightarrow>
             (case fuel of
                0 \<Rightarrow> Inl Nontermination
              | Suc fuel \<Rightarrow>
                  map_sum id (\<lambda>vs. (if ms_is_weak s then [] else [mr_key mr]) @ mr_value mr # vs)
                    (js_map_mark_loop s (l_next (ms_links s) el) fuel))))"

definition js_map_mark :: "JSMapState \<Rightarrow> js_error + jsval list" where
  "js_map_mark s = js_map_mark_loop s (l_next (ms_links s) (ms_head s)) (ms_brk s)"

text \<open>The end of a map: every record is freed, after the next one has been read from it.\<close>

fun js_map_finalizer_loop :: "JSMapState \<Rightarrow> nat \<Rightarrow> nat \<Rightarrow> js_error + JSMapState" where
  "js_map_finalizer_loop s el fuel =
     (if el = ms_head s then Inr s
      else
        (case ms_mem s el of
           None \<Rightarrow> Inl OutOfBounds
         | Some mr \<Rightarrow>
             (case fuel of
                0 \<Rightarrow> Inl Nontermination
              | Suc fuel \<Rightarrow>
                  (let el1 = l_next (ms_links s) el
                   in js_map_finalizer_loop (s\<lparr>ms_mem := (ms_mem s)(el := None)\<rparr>) el1 fuel))))"

definition js_map_finalizer :: "JSMapState \<Rightarrow> js_error + JSMapState" where
  "js_map_finalizer s = js_map_finalizer_loop s (l_next (ms_links s) (ms_head s)) (ms_brk s)"

declare js_copy_set_loop.simps [simp del] js_map_mark_loop.simps [simp del] js_map_finalizer_loop.simps [simp del]

lemma js_map_new_alloc:
  "set (snd (js_map_new is_weak head links ans)) \<subseteq> set ans \<and>
   (fst (js_map_new is_weak head links ans) = Inl e \<longrightarrow> e = OutOfMemory \<and> None \<in> set ans)"
  by (auto simp: js_map_new_def js_bind_def js_return_def js_malloc_block_def Let_def split: list.splits option.splits)

section \<open>Copies\<close>

text \<open>What a failed request of memory leaves, and a result that satisfies a predicate otherwise.\<close>

definition js_result :: "answers \<Rightarrow> (js_error + 'a) \<times> answers \<Rightarrow> ('a \<Rightarrow> bool) \<Rightarrow> bool" where
  "js_result ans r P \<longleftrightarrow> set (snd r) \<subseteq> set ans \<and>
     (case fst r of Inr x \<Rightarrow> P x | Inl e \<Rightarrow> e = OutOfMemory \<and> None \<in> set ans)"

lemma js_result_bind:
  assumes "js_result ans (m ans) Q" "\<And>x ans'. Q x \<Longrightarrow> js_result ans' (f x ans') P"
  shows "js_result ans (js_bind m f ans) P"
proof -
  obtain r ans' where m: "m ans = (r, ans')" by fastforce
  show ?thesis
  proof (cases r)
    case (Inl e)
    with assms(1) m show ?thesis by (simp add: js_result_def js_bind_def)
  next
    case (Inr x)
    with assms(1) m have "Q x" "set ans' \<subseteq> set ans" by (simp_all add: js_result_def)
    with assms(2) [OF this(1), of ans'] m Inr show ?thesis
      by (auto simp: js_result_def js_bind_def split: sum.splits)
  qed
qed

lemma set_add_record_spec:
  assumes "map_inv heap locks t ts" "\<not> ms_is_weak t" "key_normal k" "key_of k \<notin> fst ` set (map_entries heap t ts)"
  shows "js_result ans (set_add_record heap t k ans) (\<lambda>(a, t'). \<exists>ts'. map_inv heap locks t' ts' \<and> \<not> ms_is_weak t' \<and>
    map_entries heap t' ts' = map_entries heap t ts @ [(key_of k, JS_Undefined)])"
proof -
  have ts: "set ts = dom (ms_mem t)" using assms(1) by (auto simp: map_inv_def store_ok_def)
  then have "new_key heap t k"
    using assms by (auto simp: new_key_def map_entries_keys)
  from map_add_record_spec [OF assms(1) this, of ans] show ?thesis
  proof (elim disjE exE conjE)
    fix t1 ans' r
    assume a: "map_add_record heap t k ans = (Inr (ms_brk t, t1), ans')" "set ans' \<subseteq> set ans"
      and inv: "map_inv heap locks t1 (ts @ [ms_brk t])" and w: "ms_is_weak t1 = ms_is_weak t"
      and e: "\<forall>b\<in>set ts. record_entry heap t1 b = record_entry heap t b"
        "record_entry heap t1 (ms_brk t) = [(key_of k, JS_Undefined)]"
      and r: "ms_mem t1 (ms_brk t) = Some r" "map_can_match heap t1 r" "mr_key r = k"
    from map_set_value_spec [OF inv r(1,2), of JS_Undefined] obtain t2
      where t2: "map_set_value t1 (ms_brk t) JS_Undefined = Inr t2" "map_inv heap locks t2 (ts @ [ms_brk t])"
        "ms_is_weak t2 = ms_is_weak t1"
        "\<forall>b. record_entry heap t2 b = map (upd_entry (key_of k) JS_Undefined) (record_entry heap t1 b)"
      using r(3) by auto
    have "map_entries heap t2 (ts @ [ms_brk t]) =
        map (upd_entry (key_of k) JS_Undefined) (map_entries heap t1 (ts @ [ms_brk t]))"
      by (rule map_entries_records) (use t2(4) in simp_all)
    also have "map_entries heap t1 (ts @ [ms_brk t]) = map_entries heap t ts @ [(key_of k, JS_Undefined)]"
      using e map_entries_cong [of ts heap t1 t] by simp
    finally have "map_entries heap t2 (ts @ [ms_brk t]) = map_entries heap t ts @ [(key_of k, JS_Undefined)]"
      using upd_entry_missing [OF assms(4)] by simp
    with a t2 w assms(2) show ?thesis
      by (auto simp: js_result_def set_add_record_def js_bind_def js_lift_def js_return_def)
  qed (simp add: js_result_def set_add_record_def js_bind_def)
qed

definition set_entries :: "(js_key \<times> jsval) list \<Rightarrow> (js_key \<times> jsval) list" where
  "set_entries es = map (\<lambda>(k, v). (k, JS_Undefined)) es"

lemma set_entries_keys [simp]: "fst ` set (set_entries es) = fst ` set es"
  by (force simp: set_entries_def)

lemma js_copy_set_loop_spec:
  "map_inv heap locks s (xs @ ys) \<Longrightarrow> \<not> ms_is_weak s \<Longrightarrow> map_inv heap (\<lambda>_. 0) t ts \<Longrightarrow> \<not> ms_is_weak t \<Longrightarrow>
   map_entries heap t ts = set_entries (map_entries heap s xs) \<Longrightarrow> length ys \<le> fuel \<Longrightarrow>
   js_result ans (js_copy_set_loop heap s t (hd (ys @ [ms_head s])) fuel ans) (\<lambda>t'. \<exists>ts'.
     map_inv heap (\<lambda>_. 0) t' ts' \<and> \<not> ms_is_weak t' \<and> map_entries heap t' ts' = set_entries (map_entries heap s (xs @ ys)))"
proof (induction ys arbitrary: xs t ts fuel ans)
  case Nil
  then show ?case
    by (subst js_copy_set_loop.simps) (auto simp: js_result_def js_return_def)
next
  case (Cons y ys)
  then obtain n where n: "fuel = Suc n" by (cases fuel) auto
  have st: "store_ok locks s (xs @ y # ys)" using Cons.prems(1) by (simp add: map_inv_def)
  have "y \<in> dom (ms_mem s)" using store_ok_list(2) [OF st] by auto
  then obtain r where r: "ms_mem s y = Some r" by auto
  have y: "y \<noteq> ms_head s" "l_next (ms_links s) y = hd (ys @ [ms_head s])"
    using store_ok_list(1) [OF st] dll_next by (auto simp: dll_def)
  have inv: "map_inv heap locks s ((xs @ [y]) @ ys)" using Cons.prems(1) by simp
  have len: "length ys \<le> n" using Cons.prems(6) n by simp
  show ?case
  proof (cases "mr_empty r")
    case True
    then have "record_entry heap s y = []" by (simp add: record_entry_def r map_can_match_def)
    with Cons.IH [OF inv Cons.prems(2-4) _ len, of ans] Cons.prems(5) True show ?thesis
      unfolding n by (subst js_copy_set_loop.simps) (simp add: y r)
  next
    case False
    then have e: "record_entry heap s y = [(key_of (mr_key r), mr_value r)]"
      using Cons.prems(2) by (simp add: record_entry_def r map_can_match_def)
    have "distinct (map fst (map_entries heap s (xs @ y # ys)))" by (rule map_entries_distinct [OF Cons.prems(1)])
    then have "key_of (mr_key r) \<notin> fst ` set (map_entries heap t ts)"
      by (simp add: Cons.prems(5) e)
    moreover have "key_normal (mr_key r)"
      using store_ok_record [OF st r] False by (simp add: record_ok_def)
    ultimately have add: "js_result ans (set_add_record heap t (mr_key r) ans) (\<lambda>(a, t'). \<exists>ts'.
        map_inv heap (\<lambda>_. 0) t' ts' \<and> \<not> ms_is_weak t' \<and>
        map_entries heap t' ts' = map_entries heap t ts @ [(key_of (mr_key r), JS_Undefined)])"
      by (intro set_add_record_spec Cons.prems)
    have "js_result ans (js_bind (set_add_record heap t (mr_key r)) (\<lambda>(added, t).
        js_copy_set_loop heap s t (hd (ys @ [ms_head s])) n) ans) (\<lambda>t'. \<exists>ts'.
     map_inv heap (\<lambda>_. 0) t' ts' \<and> \<not> ms_is_weak t' \<and> map_entries heap t' ts' = set_entries (map_entries heap s (xs @ y # ys)))"
    proof (rule js_result_bind [where m = "set_add_record heap t (mr_key r)", OF add], clarify)
      fix a t1 ts1 ans1
      assume t1: "map_inv heap (\<lambda>_. 0) t1 ts1" "\<not> ms_is_weak t1"
        "map_entries heap t1 ts1 = map_entries heap t ts @ [(key_of (mr_key r), JS_Undefined)]"
      then have "map_entries heap t1 ts1 = set_entries (map_entries heap s (xs @ [y]))"
        by (simp add: Cons.prems(5) e set_entries_def)
      from Cons.IH [OF inv Cons.prems(2) t1(1,2) this len]
      show "js_result ans1 (js_copy_set_loop heap s t1 (hd (ys @ [ms_head s])) n ans1) (\<lambda>t'. \<exists>ts'.
        map_inv heap (\<lambda>_. 0) t' ts' \<and> \<not> ms_is_weak t' \<and> map_entries heap t' ts' = set_entries (map_entries heap s (xs @ y # ys)))"
        by simp
    qed
    with False show ?thesis
      unfolding n by (subst js_copy_set_loop.simps) (simp add: y r)
  qed
qed


lemma js_map_mark_loop_spec:
  assumes "store_ok locks s rs"
  shows "rs = xs @ ys \<Longrightarrow> length ys \<le> fuel \<Longrightarrow> js_map_mark_loop s (hd (ys @ [ms_head s])) fuel =
    Inr (concat (map (\<lambda>a. case ms_mem s a of None \<Rightarrow> [] | Some r \<Rightarrow>
      (if ms_is_weak s then [] else [mr_key r]) @ [mr_value r]) ys))"
proof (induction ys arbitrary: xs fuel)
  case Nil
  then show ?case by (subst js_map_mark_loop.simps) simp
next
  case (Cons y ys)
  then obtain n where n: "fuel = Suc n" by (cases fuel) auto
  have "y \<in> dom (ms_mem s)" using store_ok_list(2) [OF assms] Cons.prems(1) by auto
  then obtain r where r: "ms_mem s y = Some r" by auto
  have y: "y \<noteq> ms_head s" "l_next (ms_links s) y = hd (ys @ [ms_head s])"
    using store_ok_list(1) [OF assms] dll_next Cons.prems(1) by (auto simp: dll_def)
  with Cons.IH [of "xs @ [y]" n] Cons.prems n r show ?case
    by (subst js_map_mark_loop.simps) simp
qed

lemma js_map_finalizer_loop_spec:
  "dll links head (xs @ ys) \<Longrightarrow> set ys = dom (ms_mem s) \<Longrightarrow> ms_links s = links \<Longrightarrow> ms_head s = head \<Longrightarrow> length ys \<le> fuel \<Longrightarrow>
   js_map_finalizer_loop s (hd (ys @ [head])) fuel = Inr (s\<lparr>ms_mem := \<lambda>_. None\<rparr>)"
proof (induction ys arbitrary: xs fuel s)
  case Nil
  then have "ms_mem s = (\<lambda>_. None)" by auto
  with Nil show ?case by (subst js_map_finalizer_loop.simps) simp
next
  case (Cons y ys)
  then obtain n where n: "fuel = Suc n" by (cases fuel) auto
  have "y \<in> dom (ms_mem s)" using Cons.prems(2) by auto
  then obtain r where r: "ms_mem s y = Some r" by auto
  have y: "y \<noteq> head" "l_next links y = hd (ys @ [head])" "y \<notin> set ys"
    using Cons.prems(1) dll_next by (auto simp: dll_def)
  let ?s = "s\<lparr>ms_mem := (ms_mem s)(y := None)\<rparr>"
  have d: "set ys = dom ((ms_mem s)(y := None))"
    using Cons.prems(2) y(3) by (simp only: dom_fun_upd) auto
  have "js_map_finalizer_loop ?s (hd (ys @ [head])) n = Inr (?s\<lparr>ms_mem := \<lambda>_. None\<rparr>)"
    by (rule Cons.IH [of "xs @ [y]"]) (use Cons.prems(1,3,4,5) n d in \<open>simp_all add: fun_upd_def del: dom_fun_upd\<close>)
  with Cons.prems n y r show ?case by (subst js_map_finalizer_loop.simps) simp
qed

text \<open>C40: the copy of a set has the entries of the set, in the same order, and is a well-formed map of its own, or
  memory has run out; the set itself is only read. Marking visits every key and value of the
  map, and the end of a map frees all of its records; neither meets a freed record.\<close>

theorem js_copy_set_correct:
  assumes "map_inv heap locks s rs" "\<not> ms_is_weak s" "0 < head"
  shows "(case fst (js_copy_set heap s head links ans) of
      Inl e \<Rightarrow> e = OutOfMemory \<and> None \<in> set ans
    | Inr t \<Rightarrow> \<exists>ts. map_inv heap (\<lambda>_. 0) t ts \<and> map_entries heap t ts = set_entries (map_entries heap s rs)) \<and>
    (\<exists>vs. js_map_mark s = Inr vs \<and>
      (\<forall>a r. ms_mem s a = Some r \<longrightarrow> mr_key r \<in> set vs \<and> mr_value r \<in> set vs)) \<and>
    js_map_finalizer s = Inr (s\<lparr>ms_mem := \<lambda>_. None\<rparr>)"
proof -
  have st: "store_ok locks s rs" using assms(1) by (simp add: map_inv_def)
  note el = dll_first [OF store_ok_list(1) [OF st]]
  have "js_result ans (js_copy_set heap s head links ans)
      (\<lambda>t. \<exists>ts. map_inv heap (\<lambda>_. 0) t ts \<and> \<not> ms_is_weak t \<and> map_entries heap t ts = set_entries (map_entries heap s rs))"
    unfolding js_copy_set_def
  proof (rule js_result_bind)
    show "js_result ans (js_map_new False head links ans) (\<lambda>t. map_inv heap (\<lambda>_. 0) t [] \<and> \<not> ms_is_weak t)"
      using js_map_new_inv [OF assms(3), of False links ans _ _ heap] js_map_new_alloc [of False head links ans _]
      by (cases "js_map_new False head links ans") (auto simp: js_result_def split: sum.splits)
    fix t ans'
    assume "map_inv heap (\<lambda>_. 0) t [] \<and> \<not> ms_is_weak t"
    then show "js_result ans' (js_copy_set_loop heap s t (l_next (ms_links s) (ms_head s)) (ms_brk s) ans')
      (\<lambda>t. \<exists>ts. map_inv heap (\<lambda>_. 0) t ts \<and> \<not> ms_is_weak t \<and> map_entries heap t ts = set_entries (map_entries heap s rs))"
      using js_copy_set_loop_spec [of heap locks s "[]" rs t "[]" "ms_brk s" ans'] assms(1,2) store_ok_list(4) [OF st]
      by (simp add: el set_entries_def)
  qed
  moreover have "js_map_mark s = Inr (concat (map (\<lambda>a. case ms_mem s a of None \<Rightarrow> [] | Some r \<Rightarrow>
      (if ms_is_weak s then [] else [mr_key r]) @ [mr_value r]) rs))"
    unfolding js_map_mark_def el
    by (rule js_map_mark_loop_spec [OF st, of "[]"]) (use store_ok_list(4) [OF st] in simp_all)
  moreover have "js_map_finalizer s = Inr (s\<lparr>ms_mem := \<lambda>_. None\<rparr>)"
    unfolding js_map_finalizer_def el
    by (rule js_map_finalizer_loop_spec [of "ms_links s" _ "[]"]) (use store_ok_list [OF st] in simp_all)
  moreover have "\<exists>vs. js_map_mark s = Inr vs \<and> (\<forall>a r. ms_mem s a = Some r \<longrightarrow> mr_key r \<in> set vs \<and> mr_value r \<in> set vs)"
  proof (intro exI conjI allI impI)
    fix a r assume r: "ms_mem s a = Some r"
    then have "a \<in> set rs" using store_ok_record [OF st r] by simp
    then show "mr_key r \<in> set (concat (map (\<lambda>a. case ms_mem s a of None \<Rightarrow> [] | Some r \<Rightarrow>
        (if ms_is_weak s then [] else [mr_key r]) @ [mr_value r]) rs))"
      and "mr_value r \<in> set (concat (map (\<lambda>a. case ms_mem s a of None \<Rightarrow> [] | Some r \<Rightarrow>
        (if ms_is_weak s then [] else [mr_key r]) @ [mr_value r]) rs))"
      using r assms(2) by force+
  qed fact
  ultimately show ?thesis by (auto simp: js_result_def split: sum.splits)
qed


theorem js_copy_set_witness:
  "\<exists>m t. fst (js_map_set demo_heap True demo_new (JS_Bool True) JS_Undefined []) = Inr m \<and>
     fst (js_copy_set demo_heap m 9 (ms_links m) []) = Inr t \<and> js_map_has demo_heap t (JS_Bool True) = Inr True"
proof -
  have w: "\<not> ms_is_weak demo_new" by (simp add: demo_new_def)
  from js_map_set_records [OF js_map_new_inv [OF _ demo_created, THEN conjunct1], of "JS_Bool True" demo_heap True JS_Undefined "[]"] w
  obtain m ans' rs where m: "js_map_set demo_heap True demo_new (JS_Bool True) JS_Undefined [] = (Inr m, ans')"
      and inv: "map_inv demo_heap (\<lambda>_. 0) m rs" and wm: "\<not> ms_is_weak m"
      and e: "map_entries demo_heap m rs = [(K_Bool True, JS_Undefined)]"
    by auto
  from js_copy_set_correct [OF inv wm, where head = 9 and links = "ms_links m" and ans = "[]"]
  obtain t ts where t: "fst (js_copy_set demo_heap m 9 (ms_links m) []) = Inr t" "map_inv demo_heap (\<lambda>_. 0) t ts"
      "map_entries demo_heap t ts = set_entries (map_entries demo_heap m rs)"
    by (auto split: sum.splits)
  have "js_map_has demo_heap t (JS_Bool True) = Inr True"
    using js_map_get_spec(2) [OF t(2), of "JS_Bool True"] by (simp add: t(3) e set_entries_def)
  with m t(1) show ?thesis by auto
qed

end
