(* ===== verification/GCState.thy ===== *)
theory GCState
  imports ListHead
begin

text \<open>
  The garbage collector of \<open>quickjs.c\<close>: reference counts over a graph of objects, with the
  detection of unreachable cycles by trial deletion.
\<close>

section \<open>The heap\<close>

text \<open>
  A garbage collected object lives at an address of a store; a free address is not mapped. What the collector
  reads of an object are its references to other objects, in the order in which it visits
  them. \<open>NULL\<close> is 0. A value refers to an object or has no reference count that the collector cares for.
\<close>

datatype gc_value = GC_Ref nat | GC_Other

datatype gc_prop =
    Prop_Deleted
  | Prop_GetSet nat nat
  | Prop_VarRef nat
  | Prop_AutoInit nat
  | Prop_Value gc_value

text \<open>
  The types of objects. Of an object of a class of its own, \<open>class_refs\<close> are the references that the functions of the
  class mark and release; of a suspended function the frame lists the values on its stack, and a running
  function has none; a variable reference is detached with a value or refers to the frame of an asynchronous
  function, 0 for an ordinary one; a context lists its modules, its values and its shapes.
\<close>

datatype gc_obj =
    JS_GC_OBJ_TYPE_JS_OBJECT (obj_shape: nat) (obj_prop: "gc_prop list") (class_refs: "nat list") (weakref_count: nat)
  | JS_GC_OBJ_TYPE_FUNCTION_BYTECODE (cpool: "gc_value list") (realm: nat)
  | JS_GC_OBJ_TYPE_SHAPE (shape_proto: nat)
  | JS_GC_OBJ_TYPE_VAR_REF (var_value: "gc_value + nat")
  | JS_GC_OBJ_TYPE_ASYNC_FUNCTION (is_completed: bool) (cur_func: gc_value) (this_val: gc_value)
      (frame_values: "gc_value list option") (resolving_funcs: "gc_value list")
  | JS_GC_OBJ_TYPE_JS_CONTEXT (ctx_modules: "nat list") (ctx_values: "gc_value list") (ctx_shapes: "nat list")
  | JS_GC_OBJ_TYPE_MODULE (req_attributes: "gc_value list") (export_var_refs: "nat list") (module_values: "gc_value list")

text \<open>The count, the mark and \<open>free_mark\<close> of the header, with the object.\<close>

record JSGCObjectHeader =
  gc_ref_count :: int
  gc_mark :: int
  gc_free_mark :: bool
  gc_obj :: gc_obj

datatype JSGCPhaseEnum = JS_GC_PHASE_NONE | JS_GC_PHASE_DECREF | JS_GC_PHASE_REMOVE_CYCLES

text \<open>
  The heads of the three lists of objects are addresses. Addresses below \<open>rt_brk\<close> have been handed out, which
  bounds the walks along the lists.
\<close>

record JSRuntime =
  gc_obj_list :: nat
  tmp_obj_list :: nat
  gc_zero_ref_count_list :: nat
  gc_phase :: JSGCPhaseEnum
  rt_links :: list_links
  rt_mem :: "nat \<Rightarrow> JSGCObjectHeader option"
  rt_brk :: nat

section \<open>The references of an object\<close>

definition opt_ref :: "nat \<Rightarrow> nat list" where
  "opt_ref p = (if p = 0 then [] else [p])"

definition JS_MarkValue :: "gc_value \<Rightarrow> nat list" where
  "JS_MarkValue v = (case v of GC_Ref p \<Rightarrow> [p] | GC_Other \<Rightarrow> [])"

definition mark_values :: "gc_value list \<Rightarrow> nat list" where
  "mark_values vs = concat (map JS_MarkValue vs)"

definition mark_property :: "gc_prop \<Rightarrow> nat list" where
  "mark_property pr =
     (case pr of
        Prop_Deleted \<Rightarrow> []
      | Prop_GetSet getter setter \<Rightarrow> opt_ref getter @ opt_ref setter
      | Prop_VarRef p \<Rightarrow> [p]
      | Prop_AutoInit r \<Rightarrow> [r]
      | Prop_Value v \<Rightarrow> JS_MarkValue v)"

text \<open>The objects on which \<open>mark_children\<close> calls its function, in order.\<close>

fun mark_children :: "gc_obj \<Rightarrow> nat list" where
  "mark_children (JS_GC_OBJ_TYPE_JS_OBJECT sh props refs weak) = sh # concat (map mark_property props) @ refs"
| "mark_children (JS_GC_OBJ_TYPE_FUNCTION_BYTECODE vs r) = mark_values vs @ opt_ref r"
| "mark_children (JS_GC_OBJ_TYPE_VAR_REF v) = (case v of Inl v \<Rightarrow> JS_MarkValue v | Inr async_func \<Rightarrow> opt_ref async_func)"
| "mark_children (JS_GC_OBJ_TYPE_ASYNC_FUNCTION completed func this frame resolving) =
     (if \<not> completed
      then JS_MarkValue func @ JS_MarkValue this @ (case frame of None \<Rightarrow> [] | Some vs \<Rightarrow> mark_values vs)
      else []) @ mark_values resolving"
| "mark_children (JS_GC_OBJ_TYPE_SHAPE proto) = opt_ref proto"
| "mark_children (JS_GC_OBJ_TYPE_JS_CONTEXT modules vs shapes) = modules @ mark_values vs @ concat (map opt_ref shapes)"
| "mark_children (JS_GC_OBJ_TYPE_MODULE attributes exports vs) =
     mark_values attributes @ concat (map opt_ref exports) @ mark_values vs"

text \<open>A function called on each object of a list.\<close>

fun gc_each :: "(JSRuntime \<Rightarrow> nat \<Rightarrow> js_error + JSRuntime) \<Rightarrow> JSRuntime \<Rightarrow> nat list \<Rightarrow> js_error + JSRuntime" where
  "gc_each f rt [] = Inr rt"
| "gc_each f rt (p # ps) = (case f rt p of Inl e \<Rightarrow> Inl e | Inr rt \<Rightarrow> gc_each f rt ps)"

section \<open>Finding the unreachable objects\<close>

definition gc_put :: "JSRuntime \<Rightarrow> nat \<Rightarrow> JSGCObjectHeader \<Rightarrow> JSRuntime" where
  "gc_put rt p h = rt\<lparr>rt_mem := (rt_mem rt)(p \<mapsto> h)\<rparr>"

definition gc_move_tail :: "JSRuntime \<Rightarrow> nat \<Rightarrow> nat \<Rightarrow> JSRuntime" where
  "gc_move_tail rt p head = rt\<lparr>rt_links := list_add_tail p head (list_del p (rt_links rt))\<rparr>"

definition gc_decref_child :: "JSRuntime \<Rightarrow> nat \<Rightarrow> js_error + JSRuntime" where
  "gc_decref_child rt p =
     (case rt_mem rt p of
        None \<Rightarrow> Inl OutOfBounds
      | Some h \<Rightarrow>
          if gc_ref_count h > 0
          then
            (let h = h\<lparr>gc_ref_count := gc_ref_count h - 1\<rparr>;
                 rt = gc_put rt p h
             in Inr (if gc_ref_count h = 0 \<and> gc_mark h = 1 then gc_move_tail rt p (tmp_obj_list rt) else rt))
          else Inl OutOfBounds)"

text \<open>The next object is read before the current one is moved.\<close>

fun gc_decref_loop :: "JSRuntime \<Rightarrow> nat \<Rightarrow> nat \<Rightarrow> js_error + JSRuntime" where
  "gc_decref_loop rt el fuel =
     (if el = gc_obj_list rt then Inr rt
      else
        (case (rt_mem rt el, fuel) of
           (None, _) \<Rightarrow> Inl OutOfBounds
         | (Some h, 0) \<Rightarrow> Inl Nontermination
         | (Some h, Suc fuel) \<Rightarrow>
             (let el1 = l_next (rt_links rt) el
              in if gc_mark h \<noteq> 0 then Inl OutOfBounds
                 else
                   (case gc_each gc_decref_child rt (mark_children (gc_obj h)) of
                      Inl e \<Rightarrow> Inl e
                    | Inr rt \<Rightarrow>
                        (case rt_mem rt el of
                           None \<Rightarrow> Inl OutOfBounds
                         | Some h \<Rightarrow>
                             (let rt = gc_put rt el (h\<lparr>gc_mark := 1\<rparr>);
                                  rt = (if gc_ref_count h = 0 then gc_move_tail rt el (tmp_obj_list rt) else rt)
                              in gc_decref_loop rt el1 fuel))))))"

definition gc_decref :: "JSRuntime \<Rightarrow> js_error + JSRuntime" where
  "gc_decref rt =
     (let rt = rt\<lparr>rt_links := init_list_head (tmp_obj_list rt) (rt_links rt)\<rparr>
      in gc_decref_loop rt (l_next (rt_links rt) (gc_obj_list rt)) (rt_brk rt))"

definition gc_scan_incref_child :: "JSRuntime \<Rightarrow> nat \<Rightarrow> js_error + JSRuntime" where
  "gc_scan_incref_child rt p =
     (case rt_mem rt p of
        None \<Rightarrow> Inl OutOfBounds
      | Some h \<Rightarrow>
          (let h = h\<lparr>gc_ref_count := gc_ref_count h + 1\<rparr>
           in Inr (if gc_ref_count h = 1
                   then gc_move_tail (gc_put rt p (h\<lparr>gc_mark := 0\<rparr>)) p (gc_obj_list rt)
                   else gc_put rt p h)))"

definition gc_scan_incref_child2 :: "JSRuntime \<Rightarrow> nat \<Rightarrow> js_error + JSRuntime" where
  "gc_scan_incref_child2 rt p =
     (case rt_mem rt p of
        None \<Rightarrow> Inl OutOfBounds
      | Some h \<Rightarrow> Inr (gc_put rt p (h\<lparr>gc_ref_count := gc_ref_count h + 1\<rparr>)))"

text \<open>The first loop reaches the objects that it appends itself.\<close>

fun gc_scan_keep_loop :: "JSRuntime \<Rightarrow> nat \<Rightarrow> nat \<Rightarrow> js_error + JSRuntime" where
  "gc_scan_keep_loop rt el fuel =
     (if el = gc_obj_list rt then Inr rt
      else
        (case (rt_mem rt el, fuel) of
           (None, _) \<Rightarrow> Inl OutOfBounds
         | (Some h, 0) \<Rightarrow> Inl Nontermination
         | (Some h, Suc fuel) \<Rightarrow>
             if gc_ref_count h > 0
             then
               (case gc_each gc_scan_incref_child (gc_put rt el (h\<lparr>gc_mark := 0\<rparr>)) (mark_children (gc_obj h)) of
                  Inl e \<Rightarrow> Inl e
                | Inr rt \<Rightarrow> gc_scan_keep_loop rt (l_next (rt_links rt) el) fuel)
             else Inl OutOfBounds))"

fun gc_scan_restore_loop :: "JSRuntime \<Rightarrow> nat \<Rightarrow> nat \<Rightarrow> js_error + JSRuntime" where
  "gc_scan_restore_loop rt el fuel =
     (if el = tmp_obj_list rt then Inr rt
      else
        (case (rt_mem rt el, fuel) of
           (None, _) \<Rightarrow> Inl OutOfBounds
         | (Some h, 0) \<Rightarrow> Inl Nontermination
         | (Some h, Suc fuel) \<Rightarrow>
             (case gc_each gc_scan_incref_child2 rt (mark_children (gc_obj h)) of
                Inl e \<Rightarrow> Inl e
              | Inr rt \<Rightarrow> gc_scan_restore_loop rt (l_next (rt_links rt) el) fuel)))"

definition gc_scan :: "JSRuntime \<Rightarrow> js_error + JSRuntime" where
  "gc_scan rt =
     (case gc_scan_keep_loop rt (l_next (rt_links rt) (gc_obj_list rt)) (rt_brk rt) of
        Inl e \<Rightarrow> Inl e
      | Inr rt \<Rightarrow> gc_scan_restore_loop rt (l_next (rt_links rt) (tmp_obj_list rt)) (rt_brk rt))"

section \<open>Releasing references\<close>

text \<open>Objects that values refer to, and asynchronous functions, are queued; the other types are freed at once.\<close>

definition gc_is_queued :: "gc_obj \<Rightarrow> bool" where
  "gc_is_queued obj =
     (case obj of
        JS_GC_OBJ_TYPE_JS_OBJECT sh props refs weak \<Rightarrow> True
      | JS_GC_OBJ_TYPE_FUNCTION_BYTECODE vs r \<Rightarrow> True
      | JS_GC_OBJ_TYPE_ASYNC_FUNCTION completed func this frame resolving \<Rightarrow> True
      | JS_GC_OBJ_TYPE_MODULE attributes exports vs \<Rightarrow> True
      | _ \<Rightarrow> False)"

text \<open>The references that freeing an object releases, in order; \<open>None\<close> is a failed assertion.\<close>

fun free_refs :: "gc_obj \<Rightarrow> nat list option" where
  "free_refs (JS_GC_OBJ_TYPE_JS_OBJECT sh props refs weak) = Some (concat (map mark_property props) @ sh # refs)"
| "free_refs (JS_GC_OBJ_TYPE_FUNCTION_BYTECODE vs r) = Some (mark_values vs @ opt_ref r)"
| "free_refs (JS_GC_OBJ_TYPE_VAR_REF v) = Some (case v of Inl v \<Rightarrow> JS_MarkValue v | Inr async_func \<Rightarrow> opt_ref async_func)"
| "free_refs (JS_GC_OBJ_TYPE_ASYNC_FUNCTION completed func this frame resolving) =
     (if \<not> completed
      then (case frame of
              None \<Rightarrow> None
            | Some vs \<Rightarrow> Some (mark_values vs @ JS_MarkValue func @ JS_MarkValue this @ mark_values resolving))
      else Some (mark_values resolving))"
| "free_refs (JS_GC_OBJ_TYPE_SHAPE proto) = Some (opt_ref proto)"
| "free_refs (JS_GC_OBJ_TYPE_JS_CONTEXT modules vs shapes) =
     Some (modules @ mark_values vs @ concat (map opt_ref shapes))"
| "free_refs (JS_GC_OBJ_TYPE_MODULE attributes exports vs) =
     Some (mark_values attributes @ concat (map opt_ref exports) @ mark_values vs)"

text \<open>Queueing an object without references; during the removal of cycles it is freed in its turn.\<close>

definition gc_is_async :: "gc_obj \<Rightarrow> bool" where
  "gc_is_async obj = (case obj of JS_GC_OBJ_TYPE_ASYNC_FUNCTION completed func this frame resolving \<Rightarrow> True | _ \<Rightarrow> False)"

definition gc_queue :: "JSRuntime \<Rightarrow> nat \<Rightarrow> JSGCObjectHeader \<Rightarrow> JSRuntime" where
  "gc_queue rt p h =
     (if gc_phase rt = JS_GC_PHASE_REMOVE_CYCLES \<or> (gc_is_async (gc_obj h) \<and> gc_ref_count h \<noteq> 0) then rt
      else
        (let rt = rt\<lparr>rt_links := list_add p (gc_zero_ref_count_list rt) (list_del p (rt_links rt))\<rparr>
         in if gc_is_async (gc_obj h) then rt else gc_put rt p (h\<lparr>gc_mark := 1\<rparr>)))"

text \<open>
  Giving up one reference to \<open>p\<close> while objects are being freed: \<open>JS_FreeValueRT\<close>, \<open>js_free_shape\<close>, \<open>free_var_ref\<close>,
  \<open>JS_FreeContext\<close> and \<open>async_func_free\<close>, by the type of \<open>p\<close>. An object that is freed at once releases its own
  references; the argument bounds the depth of this recursion.
\<close>

primrec gc_release :: "nat \<Rightarrow> JSRuntime \<Rightarrow> nat \<Rightarrow> js_error + JSRuntime" where
  "gc_release 0 = (\<lambda>rt p. Inl Nontermination)"
| "gc_release (Suc depth) = (\<lambda>rt p.
     (case rt_mem rt p of
        None \<Rightarrow> Inl OutOfBounds
      | Some h \<Rightarrow>
          (let h = h\<lparr>gc_ref_count := gc_ref_count h - 1\<rparr>;
               rt = gc_put rt p h
           in if gc_ref_count h > 0 then Inr rt
              else if gc_is_queued (gc_obj h) then Inr (gc_queue rt p h)
              else if gc_ref_count h < 0 then Inl OutOfBounds
              else
                (case free_refs (gc_obj h) of
                   None \<Rightarrow> Inl OutOfBounds
                 | Some refs \<Rightarrow>
                     (case gc_each (gc_release depth) rt refs of
                        Inl e \<Rightarrow> Inl e
                      | Inr rt \<Rightarrow> Inr (rt\<lparr>rt_links := list_del p (rt_links rt), rt_mem := (rt_mem rt)(p := None)\<rparr>))))))"

text \<open>A context releases shapes, and a shape releases its prototype, which is queued.\<close>

definition release_depth :: nat where "release_depth = 3"

text \<open>An object whose fields have been released; its structure stays when references to it remain.\<close>

definition gc_freed :: "JSGCObjectHeader \<Rightarrow> JSGCObjectHeader" where
  "gc_freed h =
     (case gc_obj h of
        JS_GC_OBJ_TYPE_JS_OBJECT sh props refs weak \<Rightarrow> h\<lparr>gc_free_mark := True, gc_obj := JS_GC_OBJ_TYPE_JS_OBJECT 0 [] [] weak\<rparr>
      | _ \<Rightarrow> h)"

definition gc_weakrefs :: "JSGCObjectHeader \<Rightarrow> nat" where
  "gc_weakrefs h = (case gc_obj h of JS_GC_OBJ_TYPE_JS_OBJECT sh props refs weak \<Rightarrow> weak | _ \<Rightarrow> 0)"

text \<open>\<open>free_object\<close>, \<open>free_function_bytecode\<close>, \<open>__async_func_free\<close> and \<open>js_free_module_def\<close>.\<close>

definition free_gc_object :: "JSRuntime \<Rightarrow> nat \<Rightarrow> js_error + JSRuntime" where
  "free_gc_object rt p =
     (case rt_mem rt p of
        None \<Rightarrow> Inl OutOfBounds
      | Some h \<Rightarrow>
          if \<not> gc_is_queued (gc_obj h) then Inl OutOfBounds
          else
            (case free_refs (gc_obj h) of
               None \<Rightarrow> Inl OutOfBounds
             | Some refs \<Rightarrow>
                 (case gc_each (gc_release release_depth) (gc_put rt p (gc_freed h)) refs of
                    Inl e \<Rightarrow> Inl e
                  | Inr rt \<Rightarrow>
                      (case rt_mem rt p of
                         None \<Rightarrow> Inl OutOfBounds
                       | Some h \<Rightarrow>
                           (let rt = rt\<lparr>rt_links := list_del p (rt_links rt)\<rparr>
                            in Inr
                                (if gc_phase rt = JS_GC_PHASE_REMOVE_CYCLES
                                 then
                                   if gc_ref_count h = 0 \<and> gc_weakrefs h = 0 then rt\<lparr>rt_mem := (rt_mem rt)(p := None)\<rparr>
                                   else rt\<lparr>rt_links := list_add_tail p (gc_zero_ref_count_list rt) (rt_links rt)\<rparr>
                                 else
                                   if gc_weakrefs h = 0 then rt\<lparr>rt_mem := (rt_mem rt)(p := None)\<rparr>
                                   else gc_put rt p (h\<lparr>gc_mark := 0\<rparr>)))))))"

fun free_zero_refcount_loop :: "JSRuntime \<Rightarrow> nat \<Rightarrow> js_error + JSRuntime" where
  "free_zero_refcount_loop rt fuel =
     (let el = l_next (rt_links rt) (gc_zero_ref_count_list rt)
      in if el = gc_zero_ref_count_list rt then Inr rt
         else
           (case (rt_mem rt el, fuel) of
              (None, _) \<Rightarrow> Inl OutOfBounds
            | (Some h, 0) \<Rightarrow> Inl Nontermination
            | (Some h, Suc fuel) \<Rightarrow>
                if gc_ref_count h = 0
                then
                  (case free_gc_object rt el of
                     Inl e \<Rightarrow> Inl e
                   | Inr rt \<Rightarrow> free_zero_refcount_loop rt fuel)
                else Inl OutOfBounds))"

definition free_zero_refcount :: "JSRuntime \<Rightarrow> js_error + JSRuntime" where
  "free_zero_refcount rt =
     map_sum id (\<lambda>rt. rt\<lparr>gc_phase := JS_GC_PHASE_NONE\<rparr>)
       (free_zero_refcount_loop (rt\<lparr>gc_phase := JS_GC_PHASE_DECREF\<rparr>) (rt_brk rt))"

text \<open>Giving up a value outside of any collection.\<close>

definition JS_FreeValueRT :: "JSRuntime \<Rightarrow> gc_value \<Rightarrow> js_error + JSRuntime" where
  "JS_FreeValueRT rt v =
     (case v of
        GC_Other \<Rightarrow> Inr rt
      | GC_Ref p \<Rightarrow>
          (case rt_mem rt p of
             None \<Rightarrow> Inl OutOfBounds
           | Some h \<Rightarrow>
               (case gc_release release_depth rt p of
                  Inl e \<Rightarrow> Inl e
                | Inr rt \<Rightarrow>
                    if gc_ref_count h - 1 \<le> 0 \<and> gc_phase rt = JS_GC_PHASE_NONE then free_zero_refcount rt else Inr rt)))"

section \<open>Freeing the cycles\<close>

fun gc_free_cycles_loop :: "JSRuntime \<Rightarrow> nat \<Rightarrow> js_error + JSRuntime" where
  "gc_free_cycles_loop rt fuel =
     (let el = l_next (rt_links rt) (tmp_obj_list rt)
      in if el = tmp_obj_list rt then Inr rt
         else
           (case (rt_mem rt el, fuel) of
              (None, _) \<Rightarrow> Inl OutOfBounds
            | (Some h, 0) \<Rightarrow> Inl Nontermination
            | (Some h, Suc fuel) \<Rightarrow>
                if gc_is_queued (gc_obj h)
                then
                  (case free_gc_object rt el of
                     Inl e \<Rightarrow> Inl e
                   | Inr rt \<Rightarrow> gc_free_cycles_loop rt fuel)
                else gc_free_cycles_loop (gc_move_tail rt el (gc_zero_ref_count_list rt)) fuel))"

fun gc_free_zero_loop :: "JSRuntime \<Rightarrow> nat \<Rightarrow> nat \<Rightarrow> js_error + JSRuntime" where
  "gc_free_zero_loop rt el fuel =
     (if el = gc_zero_ref_count_list rt then Inr rt
      else
        (case (rt_mem rt el, fuel) of
           (None, _) \<Rightarrow> Inl OutOfBounds
         | (Some h, 0) \<Rightarrow> Inl Nontermination
         | (Some h, Suc fuel) \<Rightarrow>
             (let el1 = l_next (rt_links rt) el
              in if \<not> gc_is_queued (gc_obj h) then Inl OutOfBounds
                 else if gc_weakrefs h \<noteq> 0 then gc_free_zero_loop (gc_put rt el (h\<lparr>gc_mark := 0\<rparr>)) el1 fuel
                 else gc_free_zero_loop (rt\<lparr>rt_mem := (rt_mem rt)(el := None)\<rparr>) el1 fuel)))"

definition gc_free_cycles :: "JSRuntime \<Rightarrow> js_error + JSRuntime" where
  "gc_free_cycles rt =
     (case gc_free_cycles_loop (rt\<lparr>gc_phase := JS_GC_PHASE_REMOVE_CYCLES\<rparr>) (rt_brk rt) of
        Inl e \<Rightarrow> Inl e
      | Inr rt \<Rightarrow>
          (let rt = rt\<lparr>gc_phase := JS_GC_PHASE_NONE\<rparr>
           in case gc_free_zero_loop rt (l_next (rt_links rt) (gc_zero_ref_count_list rt)) (rt_brk rt) of
                Inl e \<Rightarrow> Inl e
              | Inr rt \<Rightarrow> Inr (rt\<lparr>rt_links := init_list_head (gc_zero_ref_count_list rt) (rt_links rt)\<rparr>)))"

text \<open>The collection of cycles, with \<open>remove_weak_objects\<close> false, as \<open>JS_FreeRuntime\<close> calls it.\<close>

definition JS_RunGCInternal :: "JSRuntime \<Rightarrow> js_error + JSRuntime" where
  "JS_RunGCInternal rt =
     (case gc_decref rt of
        Inl e \<Rightarrow> Inl e
      | Inr rt \<Rightarrow> (case gc_scan rt of Inl e \<Rightarrow> Inl e | Inr rt \<Rightarrow> gc_free_cycles rt))"

declare gc_decref_loop.simps [simp del] gc_scan_keep_loop.simps [simp del] gc_scan_restore_loop.simps [simp del]
  free_zero_refcount_loop.simps [simp del] gc_free_cycles_loop.simps [simp del] gc_free_zero_loop.simps [simp del]

end
