(* ===== verification/GCScan.thy ===== *)
theory GCScan
  imports GCState
begin

text \<open>
  Trial deletion: \<open>gc_decref\<close> and \<open>gc_scan\<close> separate the objects that can be reached from outside of the
  heap from those that cannot, and restore all reference counts.
\<close>

section \<open>Several lists in one store of links\<close>

lemma dll_frame:
  assumes "dll s h xs" "\<And>y. y \<in> set (h # xs) \<Longrightarrow> l_next s' y = l_next s y \<and> l_prev s' y = l_prev s y"
  shows "dll s' h xs"
  unfolding dll_def
proof
  show "dll_seg s' h xs h" by (rule dll_seg_frame [where s = s]) (use assms in \<open>auto simp: dll_def\<close>)
qed (use assms(1) in \<open>simp add: dll_def\<close>)

lemma dll_frame_del:
  assumes "dll s h xs" "dll s h' (us @ el # vs)" "set (h # xs) \<inter> set (h' # us @ el # vs) = {}"
  shows "dll (list_del el s) h xs"
proof -
  have seg: "dll_seg s h' us el" "dll_seg s el vs h'" using assms(2) by (auto simp: dll_def dll_seg_append)
  have p: "l_prev s el = last (h' # us)" by (rule dll_seg_prev [OF seg(1)])
  have n: "l_next s el = hd (vs @ [h'])" by (rule dll_seg_next [OF seg(2)])
  have p': "l_prev s el \<in> set (h' # us @ el # vs)" unfolding p by (metis Un_iff last_in_set list.distinct(1) set_append append_Cons)
  have n': "l_next s el \<in> set (h' # us @ el # vs)" unfolding n by (cases vs) auto
  have "y \<noteq> l_prev s el \<and> y \<noteq> l_next s el \<and> y \<noteq> el" if "y \<in> set (h # xs)" for y
    using that p' n' assms(3) by auto
  then show ?thesis by (intro dll_frame [OF assms(1)]) (simp add: list_del_links)
qed

lemma dll_frame_add_tail:
  assumes "dll s h xs" "dll s h' ys" "set (h # xs) \<inter> set (h' # ys) = {}" "el \<notin> set (h # xs)"
  shows "dll (list_add_tail el h' s) h xs"
proof -
  have seg: "dll_seg s h' ys h'" using assms(2) by (simp add: dll_def)
  have p: "l_prev s h' = last (h' # ys)" by (rule dll_seg_prev [OF seg])
  then have "l_prev s h' \<in> set (h' # ys)" by (metis last_in_set list.distinct(1))
  then have "y \<noteq> l_prev s h' \<and> y \<noteq> h' \<and> y \<noteq> el" if "y \<in> set (h # xs)" for y
    using that assms(3,4) by auto
  then show ?thesis by (intro dll_frame [OF assms(1)]) (simp add: list_add_tail_def list_insert_between_def)
qed

lemma dll_frame_add:
  assumes "dll s h xs" "dll s h' ys" "set (h # xs) \<inter> set (h' # ys) = {}" "el \<notin> set (h # xs)"
  shows "dll (list_add el h' s) h xs"
proof -
  have seg: "dll_seg s h' ys h'" using assms(2) by (simp add: dll_def)
  have "l_next s h' = hd (ys @ [h'])" by (rule dll_seg_next [OF seg])
  then have "l_next s h' \<in> set (h' # ys)" by (cases ys) auto
  then have "y \<noteq> l_next s h' \<and> y \<noteq> h' \<and> y \<noteq> el" if "y \<in> set (h # xs)" for y
    using that assms(3,4) by auto
  then show ?thesis by (intro dll_frame [OF assms(1)]) (simp add: list_add_def list_insert_between_def)
qed

lemma dll_frame_init:
  assumes "dll s h xs" "h' \<notin> set (h # xs)"
  shows "dll (init_list_head h' s) h xs" "dll (init_list_head h' s) h' []"
proof -
  show "dll (init_list_head h' s) h xs"
    by (rule dll_frame [OF assms(1)]) (use assms(2) in \<open>auto simp: init_list_head_def\<close>)
qed (simp add: dll_def init_list_head_def)

text \<open>Moving an element from one list to the end of another one.\<close>

definition list_move_tail :: "nat \<Rightarrow> nat \<Rightarrow> list_links \<Rightarrow> list_links" where
  "list_move_tail el head s = list_add_tail el head (list_del el s)"

lemma dll_move_tail:
  assumes "dll s h (us @ el # vs)" "dll s h' ys" "set (h # us @ el # vs) \<inter> set (h' # ys) = {}"
  shows "dll (list_move_tail el h' s) h (us @ vs)" "dll (list_move_tail el h' s) h' (ys @ [el])"
proof -
  note del = list_del_spec [OF assms(1)]
  have d: "dll (list_del el s) h' ys" by (rule dll_frame_del [OF assms(2,1)]) (use assms(3) in auto)
  have e: "el \<notin> set (h # us @ vs)" "el \<notin> set (h' # ys)" using assms(1,3) by (auto simp: dll_def)
  show "dll (list_move_tail el h' s) h' (ys @ [el])"
    unfolding list_move_tail_def by (rule list_add_tail_spec [OF d e(2)])
  show "dll (list_move_tail el h' s) h (us @ vs)"
    unfolding list_move_tail_def
    by (rule dll_frame_add_tail [OF del [THEN conjunct1] d _ e(1)]) (use assms(3) in auto)
qed

lemma dll_frame_move_tail:
  assumes "dll s h0 zs" "dll s h (us @ el # vs)" "dll s h' ys"
    "set (h # us @ el # vs) \<inter> set (h' # ys) = {}" "set (h0 # zs) \<inter> set (h # us @ el # vs) = {}" "set (h0 # zs) \<inter> set (h' # ys) = {}"
  shows "dll (list_move_tail el h' s) h0 zs"
proof -
  have d: "dll (list_del el s) h0 zs" by (rule dll_frame_del [OF assms(1,2,5)])
  have d': "dll (list_del el s) h' ys" by (rule dll_frame_del [OF assms(3,2)]) (use assms(4) in auto)
  show ?thesis unfolding list_move_tail_def
    by (rule dll_frame_add_tail [OF d d' assms(6)]) (use assms(5) in auto)
qed

section \<open>The lists of the collector\<close>

definition gc_lists :: "JSRuntime \<Rightarrow> nat list \<Rightarrow> nat list \<Rightarrow> nat list \<Rightarrow> bool" where
  "gc_lists rt os ts zs \<longleftrightarrow>
     dll (rt_links rt) (gc_obj_list rt) os \<and> dll (rt_links rt) (tmp_obj_list rt) ts \<and>
     dll (rt_links rt) (gc_zero_ref_count_list rt) zs \<and>
     distinct (gc_obj_list rt # tmp_obj_list rt # gc_zero_ref_count_list rt # os @ ts @ zs)"

lemma gc_lists_put [simp]: "gc_lists (gc_put rt p h) os ts zs = gc_lists rt os ts zs"
  by (simp add: gc_lists_def gc_put_def)

lemma gc_put_simps [simp]:
  "gc_obj_list (gc_put rt p h) = gc_obj_list rt" "tmp_obj_list (gc_put rt p h) = tmp_obj_list rt"
  "gc_zero_ref_count_list (gc_put rt p h) = gc_zero_ref_count_list rt" "gc_phase (gc_put rt p h) = gc_phase rt"
  "rt_links (gc_put rt p h) = rt_links rt" "rt_mem (gc_put rt p h) = (rt_mem rt)(p \<mapsto> h)" "rt_brk (gc_put rt p h) = rt_brk rt"
  by (simp_all add: gc_put_def)

lemma gc_move_tail_simps [simp]:
  "gc_obj_list (gc_move_tail rt p h) = gc_obj_list rt" "tmp_obj_list (gc_move_tail rt p h) = tmp_obj_list rt"
  "gc_zero_ref_count_list (gc_move_tail rt p h) = gc_zero_ref_count_list rt" "gc_phase (gc_move_tail rt p h) = gc_phase rt"
  "rt_links (gc_move_tail rt p h) = list_move_tail p h (rt_links rt)"
  "rt_mem (gc_move_tail rt p h) = rt_mem rt" "rt_brk (gc_move_tail rt p h) = rt_brk rt"
  by (simp_all add: gc_move_tail_def list_move_tail_def)

lemma gc_lists_to_tmp:
  assumes "gc_lists rt (us @ p # vs) ts zs"
  shows "gc_lists (gc_move_tail rt p (tmp_obj_list rt)) (us @ vs) (ts @ [p]) zs"
proof -
  have l: "dll (rt_links rt) (gc_obj_list rt) (us @ p # vs)" "dll (rt_links rt) (tmp_obj_list rt) ts"
      "dll (rt_links rt) (gc_zero_ref_count_list rt) zs"
    and d: "distinct (gc_obj_list rt # tmp_obj_list rt # gc_zero_ref_count_list rt # (us @ p # vs) @ ts @ zs)"
    using assms by (auto simp: gc_lists_def)
  have m: "dll (list_move_tail p (tmp_obj_list rt) (rt_links rt)) (gc_obj_list rt) (us @ vs)"
      "dll (list_move_tail p (tmp_obj_list rt) (rt_links rt)) (tmp_obj_list rt) (ts @ [p])"
    by (rule dll_move_tail [OF l(1,2)]; use d in auto)+
  moreover have "dll (list_move_tail p (tmp_obj_list rt) (rt_links rt)) (gc_zero_ref_count_list rt) zs"
    by (rule dll_frame_move_tail [OF l(3,1,2)]) (use d in auto)
  ultimately show ?thesis using d by (simp add: gc_lists_def)
qed

lemma gc_lists_to_obj:
  assumes "gc_lists rt os (us @ p # vs) zs"
  shows "gc_lists (gc_move_tail rt p (gc_obj_list rt)) (os @ [p]) (us @ vs) zs"
proof -
  have l: "dll (rt_links rt) (tmp_obj_list rt) (us @ p # vs)" "dll (rt_links rt) (gc_obj_list rt) os"
      "dll (rt_links rt) (gc_zero_ref_count_list rt) zs"
    and d: "distinct (gc_obj_list rt # tmp_obj_list rt # gc_zero_ref_count_list rt # os @ (us @ p # vs) @ zs)"
    using assms by (auto simp: gc_lists_def)
  have m: "dll (list_move_tail p (gc_obj_list rt) (rt_links rt)) (tmp_obj_list rt) (us @ vs)"
      "dll (list_move_tail p (gc_obj_list rt) (rt_links rt)) (gc_obj_list rt) (os @ [p])"
    by (rule dll_move_tail [OF l(1,2)]; use d in auto)+
  moreover have "dll (list_move_tail p (gc_obj_list rt) (rt_links rt)) (gc_zero_ref_count_list rt) zs"
    by (rule dll_frame_move_tail [OF l(3,1,2)]) (use d in auto)
  ultimately show ?thesis using d by (simp add: gc_lists_def)
qed

lemma gc_lists_next:
  assumes "gc_lists rt (us @ p # vs) ts zs"
  shows "p \<noteq> gc_obj_list rt" "l_next (rt_links rt) p = hd (vs @ [gc_obj_list rt])"
proof -
  have d: "dll (rt_links rt) (gc_obj_list rt) (us @ p # vs)" using assms by (simp add: gc_lists_def)
  then show "p \<noteq> gc_obj_list rt" by (auto simp: dll_def)
  from d have "dll_seg (rt_links rt) p vs (gc_obj_list rt)" by (auto simp: dll_def dll_seg_append)
  then show "l_next (rt_links rt) p = hd (vs @ [gc_obj_list rt])" by (rule dll_seg_next)
qed

section \<open>The graph of objects\<close>

text \<open>
  The state of the collector by three functions: the objects, their counts and their marks.
\<close>

definition gc_mem :: "JSRuntime \<Rightarrow> nat set \<Rightarrow> (nat \<Rightarrow> gc_obj) \<Rightarrow> (nat \<Rightarrow> int) \<Rightarrow> (nat \<Rightarrow> int) \<Rightarrow> bool" where
  "gc_mem rt A obj cnt mk \<longleftrightarrow> (\<forall>p\<in>A. rt_mem rt p =
     Some \<lparr>gc_ref_count = cnt p, gc_mark = mk p, gc_free_mark = False, gc_obj = obj p\<rparr>)"

text \<open>The references from the objects of a list to an object.\<close>

definition refs_from :: "(nat \<Rightarrow> gc_obj) \<Rightarrow> nat set \<Rightarrow> nat \<Rightarrow> int" where
  "refs_from obj S p = (\<Sum>q\<in>S. int (count_list (mark_children (obj q)) p))"

lemma refs_from_empty [simp]: "refs_from obj {} p = 0"
  by (simp add: refs_from_def)

lemma refs_from_insert:
  "finite S \<Longrightarrow> q \<notin> S \<Longrightarrow> refs_from obj (insert q S) p = int (count_list (mark_children (obj q)) p) + refs_from obj S p"
  by (simp add: refs_from_def)

lemma refs_from_nonneg: "0 \<le> refs_from obj S p"
  by (simp add: refs_from_def sum_nonneg)

lemma refs_from_pos:
  assumes "finite S" "q \<in> S" "p \<in> set (mark_children (obj q))"
  shows "0 < refs_from obj S p"
proof -
  have "0 < count_list (mark_children (obj q)) p" using assms(3) by (metis count_list_0_iff gr0I)
  moreover have "int (count_list (mark_children (obj q)) p) \<le> refs_from obj S p"
    unfolding refs_from_def by (rule member_le_sum [OF assms(2) _ assms(1)]) simp
  ultimately show ?thesis by simp
qed

text \<open>What can be reached from the objects that are referenced from outside of the heap.\<close>

definition gc_edges :: "(nat \<Rightarrow> gc_obj) \<Rightarrow> nat set \<Rightarrow> (nat \<times> nat) set" where
  "gc_edges obj A = {(p, q). p \<in> A \<and> q \<in> set (mark_children (obj p))}"

definition gc_reachable :: "(nat \<Rightarrow> gc_obj) \<Rightarrow> nat set \<Rightarrow> (nat \<Rightarrow> int) \<Rightarrow> nat set" where
  "gc_reachable obj A ext = {q. \<exists>p\<in>A. ext p > 0 \<and> (p, q) \<in> (gc_edges obj A)\<^sup>*}"

text \<open>What no phase of the collection touches.\<close>

definition gc_same :: "nat set \<Rightarrow> JSRuntime \<Rightarrow> JSRuntime \<Rightarrow> bool" where
  "gc_same A rt rt' \<longleftrightarrow> gc_obj_list rt' = gc_obj_list rt \<and> tmp_obj_list rt' = tmp_obj_list rt \<and>
     gc_zero_ref_count_list rt' = gc_zero_ref_count_list rt \<and> gc_phase rt' = gc_phase rt \<and> rt_brk rt' = rt_brk rt \<and>
     (\<forall>p. p \<notin> A \<longrightarrow> rt_mem rt' p = rt_mem rt p)"

lemma gc_same_refl [simp]: "gc_same A rt rt"
  by (simp add: gc_same_def)

lemma gc_same_trans: "gc_same A rt rt' \<Longrightarrow> gc_same A rt' rt'' \<Longrightarrow> gc_same A rt rt''"
  by (simp add: gc_same_def)

lemma gc_same_put [simp]: "p \<in> A \<Longrightarrow> gc_same A rt (gc_put rt' p h) = gc_same A rt rt'"
  by (auto simp: gc_same_def)

lemma gc_same_move [simp]: "gc_same A rt (gc_move_tail rt' p h) = gc_same A rt rt'"
  by (simp add: gc_same_def)

lemma gc_memD:
  "gc_mem rt A obj cnt mk \<Longrightarrow> p \<in> A \<Longrightarrow> rt_mem rt p =
     Some \<lparr>gc_ref_count = cnt p, gc_mark = mk p, gc_free_mark = False, gc_obj = obj p\<rparr>"
  by (simp add: gc_mem_def)

lemma gc_mem_move [simp]: "gc_mem (gc_move_tail rt p h) = gc_mem rt"
  by (simp add: gc_mem_def fun_eq_iff)

lemma gc_mem_put:
  "gc_mem rt A obj cnt mk \<Longrightarrow> gc_mem (gc_put rt p \<lparr>gc_ref_count = c, gc_mark = m, gc_free_mark = False, gc_obj = obj p\<rparr>) A obj
     (cnt(p := c)) (mk(p := m))"
  by (simp add: gc_mem_def)

lemma gc_mem_cong:
  "gc_mem rt A obj cnt mk \<Longrightarrow> (\<And>p. p \<in> A \<Longrightarrow> cnt' p = cnt p) \<Longrightarrow> (\<And>p. p \<in> A \<Longrightarrow> mk' p = mk p) \<Longrightarrow> gc_mem rt A obj cnt' mk'"
  by (simp add: gc_mem_def)

section \<open>Decrementing\<close>

text \<open>
  Of the objects visited, \<open>ks\<close> are those with references left and \<open>ts\<close> those without; \<open>todo\<close> is still to be visited.
\<close>

definition dec_inv :: "nat set \<Rightarrow> (nat \<Rightarrow> gc_obj) \<Rightarrow> nat list \<Rightarrow> nat list \<Rightarrow> nat list \<Rightarrow> nat list \<Rightarrow> (nat \<Rightarrow> int) \<Rightarrow> JSRuntime \<Rightarrow> bool" where
  "dec_inv A obj zs ks todo ts cnt rt \<longleftrightarrow> gc_lists rt (ks @ todo) ts zs \<and> A = set ks \<union> set todo \<union> set ts \<and>
     gc_mem rt A obj cnt (\<lambda>p. if p \<in> set todo then 0 else 1) \<and> (\<forall>q\<in>set ts. cnt q = 0) \<and> (\<forall>q\<in>set ks. 0 < cnt q)"

lemma gc_decref_child_step:
  assumes inv: "dec_inv A obj zs ks todo ts cnt rt" and p: "p \<in> A" "0 < cnt p"
  shows "\<exists>rt' ks' ts'. gc_decref_child rt p = Inr rt' \<and> gc_same A rt rt' \<and>
    dec_inv A obj zs ks' todo ts' (cnt(p := cnt p - 1)) rt'"
proof -
  let ?cnt = "cnt(p := cnt p - 1)"
  let ?mk = "\<lambda>p. if p \<in> set todo then 0 else 1 :: int"
  let ?h = "\<lparr>gc_ref_count = cnt p - 1, gc_mark = ?mk p, gc_free_mark = False, gc_obj = obj p\<rparr>"
  have l: "gc_lists rt (ks @ todo) ts zs" and A: "A = set ks \<union> set todo \<union> set ts"
    and mem: "gc_mem rt A obj cnt ?mk" and z: "\<forall>q\<in>set ts. cnt q = 0" "\<forall>q\<in>set ks. 0 < cnt q"
    using inv by (auto simp: dec_inv_def)
  note r = gc_memD [OF mem p(1)]
  have mem': "gc_mem (gc_put rt p ?h) A obj ?cnt ?mk"
    using gc_mem_put [OF mem, of p "cnt p - 1" "?mk p"] by (simp add: fun_upd_idem)
  have nt: "p \<notin> set ts" using z(1) p(2) by auto
  show ?thesis
  proof (cases "cnt p - 1 = 0 \<and> ?mk p = 1")
    case True
    then have "p \<in> set ks" using A p(1) nt by (auto split: if_splits)
    then obtain us vs where ks: "ks = us @ p # vs" by (auto dest: split_list)
    have "distinct ks" using l by (auto simp: gc_lists_def)
    with ks have n: "p \<notin> set us" "p \<notin> set vs" by auto
    let ?rt = "gc_move_tail (gc_put rt p ?h) p (tmp_obj_list rt)"
    have e: "gc_decref_child rt p = Inr ?rt"
      using r p(2) True by (simp add: gc_decref_child_def)
    have s: "gc_same A rt ?rt" using p(1) by (auto intro: gc_same_trans)
    have "gc_lists (gc_put rt p ?h) (us @ p # vs @ todo) ts zs" using l ks by simp
    from gc_lists_to_tmp [OF this] have "gc_lists ?rt (us @ vs @ todo) (ts @ [p]) zs" by simp
    then have "dec_inv A obj zs (us @ vs) todo (ts @ [p]) ?cnt ?rt"
      using A ks mem' z True n nt by (auto simp: dec_inv_def)
    with e s show ?thesis by blast
  next
    case False
    let ?rt = "gc_put rt p ?h"
    have e: "gc_decref_child rt p = Inr ?rt"
      using r p(2) False by (auto simp: gc_decref_child_def)
    have s: "gc_same A rt ?rt" using p(1) by simp
    have "0 < ?cnt q" if "q \<in> set ks" for q
    proof (cases "q = p")
      case True
      have "p \<notin> set todo" using l that True by (auto simp: gc_lists_def)
      with False p(2) True show ?thesis by auto
    qed (use z(2) that in simp)
    then have "dec_inv A obj zs ks todo ts ?cnt ?rt"
      using A mem' z(1) l nt by (simp add: dec_inv_def)
    with e s show ?thesis by blast
  qed
qed

lemma gc_decref_each:
  "dec_inv A obj zs ks todo ts cnt rt \<Longrightarrow> set ps \<subseteq> A \<Longrightarrow> \<forall>p\<in>A. int (count_list ps p) \<le> cnt p \<Longrightarrow>
   \<exists>rt' ks' ts'. gc_each gc_decref_child rt ps = Inr rt' \<and> gc_same A rt rt' \<and>
     dec_inv A obj zs ks' todo ts' (\<lambda>p. cnt p - int (count_list ps p)) rt'"
proof (induction ps arbitrary: rt ks ts cnt)
  case Nil
  then show ?case by auto
next
  case (Cons p ps)
  have "0 < cnt p" using Cons.prems(2,3) by (auto dest: bspec [of _ _ p])
  moreover have "p \<in> A" using Cons.prems(2) by simp
  ultimately obtain rt1 ks1 ts1
    where s: "gc_decref_child rt p = Inr rt1" "gc_same A rt rt1" "dec_inv A obj zs ks1 todo ts1 (cnt(p := cnt p - 1)) rt1"
    using gc_decref_child_step [OF Cons.prems(1)] by blast
  have "\<forall>q\<in>A. int (count_list ps q) \<le> (cnt(p := cnt p - 1)) q"
    using Cons.prems(3) by (auto split: if_splits)
  from Cons.IH [OF s(3) _ this] Cons.prems(2) obtain rt' ks' ts'
    where t: "gc_each gc_decref_child rt1 ps = Inr rt'" "gc_same A rt1 rt'"
      "dec_inv A obj zs ks' todo ts' (\<lambda>q. (cnt(p := cnt p - 1)) q - int (count_list ps q)) rt'" by auto
  have "(\<lambda>q. (cnt(p := cnt p - 1)) q - int (count_list ps q)) = (\<lambda>q. cnt q - int (count_list (p # ps) q))" by auto
  with t s(1) gc_same_trans [OF s(2) t(2)] show ?case by auto
qed

text \<open>The visit of one object is completed by its mark and, without references left, its move.\<close>

definition gc_marked :: "JSRuntime \<Rightarrow> nat \<Rightarrow> JSGCObjectHeader \<Rightarrow> JSRuntime" where
  "gc_marked rt p h = (let rt = gc_put rt p (h\<lparr>gc_mark := 1\<rparr>) in if gc_ref_count h = 0 then gc_move_tail rt p (tmp_obj_list rt) else rt)"

lemma dec_inv_visit:
  assumes inv: "dec_inv A obj zs ks (p # todo) ts cnt rt" and c: "0 \<le> cnt p"
  shows "\<exists>h ks' ts'. rt_mem rt p = Some h \<and> gc_same A rt (gc_marked rt p h) \<and>
    dec_inv A obj zs ks' todo ts' cnt (gc_marked rt p h)"
proof -
  let ?mk = "\<lambda>q. if q \<in> set (p # todo) then 0 else 1 :: int"
  have l: "gc_lists rt (ks @ p # todo) ts zs" and A: "A = set ks \<union> set (p # todo) \<union> set ts"
    and mem: "gc_mem rt A obj cnt ?mk" and z: "\<forall>q\<in>set ts. cnt q = 0" "\<forall>q\<in>set ks. 0 < cnt q"
    using inv by (auto simp: dec_inv_def)
  have p: "p \<in> A" using A by simp
  have d: "p \<notin> set ks" "p \<notin> set todo" "p \<notin> set ts" using l by (auto simp: gc_lists_def)
  define h where "h = \<lparr>gc_ref_count = cnt p, gc_mark = 0, gc_free_mark = False, gc_obj = obj p\<rparr>"
  have r: "rt_mem rt p = Some h" using gc_memD [OF mem p] by (simp add: h_def)
  let ?rt = "gc_put rt p (h\<lparr>gc_mark := 1\<rparr>)"
  have "gc_mem ?rt A obj (cnt(p := cnt p)) (?mk(p := 1))"
    using gc_mem_put [OF mem, of p "cnt p" 1] by (simp add: h_def)
  then have mem': "gc_mem ?rt A obj cnt (\<lambda>q. if q \<in> set todo then 0 else 1)"
    by (rule gc_mem_cong) (use d in auto)
  show ?thesis
  proof (cases "cnt p = 0")
    case True
    have "gc_lists ?rt (ks @ p # todo) ts zs" using l by simp
    from gc_lists_to_tmp [OF this] have "gc_lists (gc_marked rt p h) (ks @ todo) (ts @ [p]) zs"
      using True by (simp add: gc_marked_def h_def)
    then have "dec_inv A obj zs ks todo (ts @ [p]) cnt (gc_marked rt p h)"
      using A z mem' True by (auto simp: dec_inv_def gc_marked_def h_def)
    moreover have "gc_same A rt (gc_marked rt p h)"
      using p True by (auto simp: gc_marked_def h_def intro: gc_same_trans)
    ultimately show ?thesis using r by blast
  next
    case False
    have "gc_lists (gc_marked rt p h) ((ks @ [p]) @ todo) ts zs" using l False by (simp add: gc_marked_def h_def)
    then have "dec_inv A obj zs (ks @ [p]) todo ts cnt (gc_marked rt p h)"
      using A z mem' False c by (auto simp: dec_inv_def gc_marked_def h_def)
    moreover have "gc_same A rt (gc_marked rt p h)" using p False by (auto simp: gc_marked_def h_def)
    ultimately show ?thesis using r by blast
  qed
qed

lemma gc_decref_loop_spec:
  "dec_inv A obj zs ks todo ts cnt rt \<Longrightarrow> \<forall>p\<in>A. cnt p = ext p + refs_from obj (set todo) p \<Longrightarrow> \<forall>p\<in>A. 0 \<le> ext p \<Longrightarrow>
   \<forall>p\<in>A. set (mark_children (obj p)) \<subseteq> A \<Longrightarrow> length todo \<le> fuel \<Longrightarrow>
   \<exists>rt' ks' ts'. gc_decref_loop rt (hd (todo @ [gc_obj_list rt])) fuel = Inr rt' \<and> gc_same A rt rt' \<and>
     dec_inv A obj zs ks' [] ts' ext rt'"
proof (induction todo arbitrary: rt ks ts cnt fuel)
  case Nil
  then have "dec_inv A obj zs ks [] ts ext rt"
    by (auto simp: dec_inv_def intro: gc_mem_cong)
  then show ?case by (subst gc_decref_loop.simps) auto
next
  case (Cons x todo)
  then obtain n where n: "fuel = Suc n" by (cases fuel) auto
  have l: "gc_lists rt (ks @ x # todo) ts zs" and A: "A = set ks \<union> set (x # todo) \<union> set ts"
    and mem: "gc_mem rt A obj cnt (\<lambda>p. if p \<in> set (x # todo) then 0 else 1)"
    using Cons.prems(1) by (auto simp: dec_inv_def)
  have x: "x \<in> A" "x \<notin> set todo" using A l by (auto simp: gc_lists_def)
  have refs: "refs_from obj (set (x # todo)) p = int (count_list (mark_children (obj x)) p) + refs_from obj (set todo) p" for p
    using x(2) by (simp add: refs_from_insert)
  note el = gc_lists_next [OF l]
  note r = gc_memD [OF mem x(1)]
  have "set (mark_children (obj x)) \<subseteq> A" using Cons.prems(4) x(1) by blast
  moreover have "\<forall>p\<in>A. int (count_list (mark_children (obj x)) p) \<le> cnt p"
    using Cons.prems(2,3) refs refs_from_nonneg [of obj "set todo"] by (auto simp: add_increasing2)
  ultimately obtain rt1 ks1 ts1 where s: "gc_each gc_decref_child rt (mark_children (obj x)) = Inr rt1" "gc_same A rt rt1"
      "dec_inv A obj zs ks1 (x # todo) ts1 (\<lambda>p. cnt p - int (count_list (mark_children (obj x)) p)) rt1"
    using gc_decref_each [OF Cons.prems(1)] by blast
  have cnt1: "\<forall>p\<in>A. cnt p - int (count_list (mark_children (obj x)) p) = ext p + refs_from obj (set todo) p"
    using Cons.prems(2) refs by auto
  have "0 \<le> cnt x - int (count_list (mark_children (obj x)) x)"
    using cnt1 x(1) Cons.prems(3) refs_from_nonneg [of obj "set todo" x] by (metis add_nonneg_nonneg)
  from dec_inv_visit [OF s(3) this] obtain h ks2 ts2
    where v: "rt_mem rt1 x = Some h" "gc_same A rt1 (gc_marked rt1 x h)"
      "dec_inv A obj zs ks2 todo ts2 (\<lambda>p. cnt p - int (count_list (mark_children (obj x)) p)) (gc_marked rt1 x h)" by blast
  have same: "gc_same A rt (gc_marked rt1 x h)" by (rule gc_same_trans [OF s(2) v(2)])
  then have g: "gc_obj_list (gc_marked rt1 x h) = gc_obj_list rt" by (simp add: gc_same_def)
  from Cons.IH [OF v(3) cnt1 Cons.prems(3,4), of n] Cons.prems(5) n obtain rt' ks' ts'
    where IH: "gc_decref_loop (gc_marked rt1 x h) (hd (todo @ [gc_obj_list rt])) n = Inr rt'" "gc_same A (gc_marked rt1 x h) rt'"
      "dec_inv A obj zs ks' [] ts' ext rt'" by (auto simp: g)
  have "gc_decref_loop rt x (Suc n) = gc_decref_loop (gc_marked rt1 x h) (hd (todo @ [gc_obj_list rt])) n"
    using el r s(1) v(1) x by (subst gc_decref_loop.simps) (simp add: gc_marked_def Let_def)
  with IH gc_same_trans [OF same IH(2)] n show ?case by auto
qed


section \<open>Keeping what is reachable\<close>

text \<open>The references of \<open>ds\<close> have been counted again, those of \<open>todo\<close> will be, and \<open>ts\<close> has not been reached.\<close>

definition scan_inv :: "nat set \<Rightarrow> (nat \<Rightarrow> gc_obj) \<Rightarrow> nat list \<Rightarrow> nat list \<Rightarrow> nat list \<Rightarrow> nat list \<Rightarrow> (nat \<Rightarrow> int) \<Rightarrow> JSRuntime \<Rightarrow> bool" where
  "scan_inv A obj zs ds todo ts cnt rt \<longleftrightarrow> gc_lists rt (ds @ todo) ts zs \<and> A = set ds \<union> set todo \<union> set ts \<and>
     (\<exists>mk. gc_mem rt A obj cnt mk \<and> (\<forall>q\<in>set ds. mk q = 0) \<and> (\<forall>q\<in>set ts. mk q = 1)) \<and>
     (\<forall>q\<in>set ts. cnt q = 0) \<and> (\<forall>q\<in>set ds \<union> set todo. 0 < cnt q)"

lemma gc_scan_incref_child_step:
  assumes inv: "scan_inv A obj zs ds todo ts cnt rt" and p: "p \<in> A"
  shows "\<exists>rt' todo' ts'. gc_scan_incref_child rt p = Inr rt' \<and> gc_same A rt rt' \<and>
    scan_inv A obj zs ds todo' ts' (cnt(p := cnt p + 1)) rt' \<and> set todo' \<subseteq> insert p (set todo) \<and>
    length todo' + length ts' = length todo + length ts"
proof -
  let ?cnt = "cnt(p := cnt p + 1)"
  obtain mk where l: "gc_lists rt (ds @ todo) ts zs" and A: "A = set ds \<union> set todo \<union> set ts"
    and mem: "gc_mem rt A obj cnt mk" and m: "\<forall>q\<in>set ds. mk q = 0" "\<forall>q\<in>set ts. mk q = 1"
    and z: "\<forall>q\<in>set ts. cnt q = 0" "\<forall>q\<in>set ds \<union> set todo. 0 < cnt q"
    using inv by (auto simp: scan_inv_def)
  note r = gc_memD [OF mem p]
  show ?thesis
  proof (cases "p \<in> set ts")
    case True
    then obtain us vs where ts: "ts = us @ p # vs" by (auto dest: split_list)
    have d: "p \<notin> set us" "p \<notin> set vs" "p \<notin> set ds" "p \<notin> set todo" using l ts by (auto simp: gc_lists_def)
    let ?h = "\<lparr>gc_ref_count = 1, gc_mark = 0, gc_free_mark = False, gc_obj = obj p\<rparr>"
    let ?rt = "gc_move_tail (gc_put rt p ?h) p (gc_obj_list rt)"
    have c: "cnt p = 0" using z(1) True by simp
    have e: "gc_scan_incref_child rt p = Inr ?rt" using r c by (simp add: gc_scan_incref_child_def)
    have "gc_lists (gc_put rt p ?h) (ds @ todo) (us @ p # vs) zs" using l ts by simp
    from gc_lists_to_obj [OF this] have l': "gc_lists ?rt (ds @ todo @ [p]) (us @ vs) zs" by simp
    have "gc_mem ?rt A obj ?cnt (mk(p := 0))" using gc_mem_put [OF mem, of p 1 0] c by simp
    moreover have "\<forall>q\<in>set ds. (mk(p := 0)) q = 0" "\<forall>q\<in>set (us @ vs). (mk(p := 0)) q = 1"
      using m ts d by auto
    moreover have "\<forall>q\<in>set (us @ vs). ?cnt q = 0" "\<forall>q\<in>set ds \<union> set (todo @ [p]). 0 < ?cnt q"
      using z ts d c by auto
    moreover have "A = set ds \<union> set (todo @ [p]) \<union> set (us @ vs)" using A ts by auto
    ultimately have "scan_inv A obj zs ds (todo @ [p]) (us @ vs) ?cnt ?rt"
      using l' unfolding scan_inv_def by blast
    moreover have "gc_same A rt ?rt" using p by simp
    ultimately show ?thesis using e ts
      by (intro exI [of _ ?rt] exI [of _ "todo @ [p]"] exI [of _ "us @ vs"]) simp
  next
    case False
    let ?h = "\<lparr>gc_ref_count = cnt p + 1, gc_mark = mk p, gc_free_mark = False, gc_obj = obj p\<rparr>"
    have c: "0 < cnt p" using False A p z(2) by auto
    have e: "gc_scan_incref_child rt p = Inr (gc_put rt p ?h)" using r c by (simp add: gc_scan_incref_child_def)
    have "gc_mem (gc_put rt p ?h) A obj ?cnt mk" using gc_mem_put [OF mem, of p "cnt p + 1" "mk p"] by (simp add: fun_upd_idem)
    moreover have "\<forall>q\<in>set ts. ?cnt q = 0" using z(1) False by auto
    moreover have "\<forall>q\<in>set ds \<union> set todo. 0 < ?cnt q" using z(2) c by (simp add: add_pos_pos)
    ultimately have "scan_inv A obj zs ds todo ts ?cnt (gc_put rt p ?h)"
      using l A m unfolding scan_inv_def by auto
    moreover have "gc_same A rt (gc_put rt p ?h)" using p by simp
    ultimately show ?thesis using e by blast
  qed
qed

lemma gc_scan_incref_each:
  "scan_inv A obj zs ds todo ts cnt rt \<Longrightarrow> set ps \<subseteq> A \<Longrightarrow>
   \<exists>rt' todo' ts'. gc_each gc_scan_incref_child rt ps = Inr rt' \<and> gc_same A rt rt' \<and>
     scan_inv A obj zs ds todo' ts' (\<lambda>p. cnt p + int (count_list ps p)) rt' \<and> set todo' \<subseteq> set ps \<union> set todo \<and>
     length todo' + length ts' = length todo + length ts"
proof (induction ps arbitrary: rt todo ts cnt)
  case Nil
  then show ?case by (intro exI [of _ rt] exI [of _ todo] exI [of _ ts]) simp
next
  case (Cons p ps)
  then have p: "p \<in> A" by simp
  from gc_scan_incref_child_step [OF Cons.prems(1) p] obtain rt1 todo1 ts1
    where s: "gc_scan_incref_child rt p = Inr rt1" "gc_same A rt rt1" "scan_inv A obj zs ds todo1 ts1 (cnt(p := cnt p + 1)) rt1"
      "set todo1 \<subseteq> insert p (set todo)" "length todo1 + length ts1 = length todo + length ts" by blast
  from Cons.IH [OF s(3)] Cons.prems(2) obtain rt' todo' ts'
    where t: "gc_each gc_scan_incref_child rt1 ps = Inr rt'" "gc_same A rt1 rt'"
      "scan_inv A obj zs ds todo' ts' (\<lambda>q. (cnt(p := cnt p + 1)) q + int (count_list ps q)) rt'"
      "set todo' \<subseteq> set ps \<union> set todo1" "length todo' + length ts' = length todo1 + length ts1" by auto
  have "(\<lambda>q. (cnt(p := cnt p + 1)) q + int (count_list ps q)) = (\<lambda>q. cnt q + int (count_list (p # ps) q))" by auto
  with t s(1,4,5) gc_same_trans [OF s(2) t(2)] show ?case
    by (intro exI [of _ rt'] exI [of _ todo'] exI [of _ ts']) auto
qed

lemma scan_inv_visit:
  assumes inv: "scan_inv A obj zs ds (x # todo) ts cnt rt"
  shows "\<exists>h. rt_mem rt x = Some h \<and> gc_ref_count h = cnt x \<and> 0 < cnt x \<and> gc_obj h = obj x \<and> x \<in> A \<and> x \<notin> set ds \<and>
    gc_same A rt (gc_put rt x (h\<lparr>gc_mark := 0\<rparr>)) \<and> scan_inv A obj zs (ds @ [x]) todo ts cnt (gc_put rt x (h\<lparr>gc_mark := 0\<rparr>))"
proof -
  obtain mk where l: "gc_lists rt (ds @ x # todo) ts zs" and A: "A = set ds \<union> set (x # todo) \<union> set ts"
    and mem: "gc_mem rt A obj cnt mk" and m: "\<forall>q\<in>set ds. mk q = 0" "\<forall>q\<in>set ts. mk q = 1"
    and z: "\<forall>q\<in>set ts. cnt q = 0" "\<forall>q\<in>set ds \<union> set (x # todo). 0 < cnt q"
    using inv unfolding scan_inv_def by blast
  have x: "x \<in> A" "x \<notin> set ts" "x \<notin> set ds" using A l by (auto simp: gc_lists_def)
  let ?h = "\<lparr>gc_ref_count = cnt x, gc_mark = mk x, gc_free_mark = False, gc_obj = obj x\<rparr>"
  have r: "rt_mem rt x = Some ?h" by (rule gc_memD [OF mem x(1)])
  have "gc_mem (gc_put rt x (?h\<lparr>gc_mark := 0\<rparr>)) A obj cnt (mk(x := 0))"
    using gc_mem_put [OF mem, of x "cnt x" 0] by simp
  moreover have "\<forall>q\<in>set (ds @ [x]). (mk(x := 0)) q = 0" "\<forall>q\<in>set ts. (mk(x := 0)) q = 1"
    using m x(2) by auto
  moreover have "A = set (ds @ [x]) \<union> set todo \<union> set ts" "\<forall>q\<in>set (ds @ [x]) \<union> set todo. 0 < cnt q" using A z by auto
  moreover have "gc_lists (gc_put rt x (?h\<lparr>gc_mark := 0\<rparr>)) ((ds @ [x]) @ todo) ts zs" using l by simp
  ultimately have "scan_inv A obj zs (ds @ [x]) todo ts cnt (gc_put rt x (?h\<lparr>gc_mark := 0\<rparr>))"
    unfolding scan_inv_def using z(1) by blast
  with r x z(2) show ?thesis by simp
qed

lemma gc_scan_keep_loop_spec:
  "scan_inv A obj zs ds todo ts cnt rt \<Longrightarrow> \<forall>p\<in>A. cnt p = ext p + refs_from obj (set ds) p \<Longrightarrow>
   \<forall>p\<in>A. set (mark_children (obj p)) \<subseteq> A \<Longrightarrow> set ds \<union> set todo \<subseteq> gc_reachable obj A ext \<Longrightarrow>
   length todo + length ts \<le> fuel \<Longrightarrow>
   \<exists>rt' ds' ts' cnt'. gc_scan_keep_loop rt (hd (todo @ [gc_obj_list rt])) fuel = Inr rt' \<and> gc_same A rt rt' \<and>
     scan_inv A obj zs ds' [] ts' cnt' rt' \<and> (\<forall>p\<in>A. cnt' p = ext p + refs_from obj (set ds') p) \<and>
     set ds' \<subseteq> gc_reachable obj A ext"
proof (induction fuel arbitrary: rt ds todo ts cnt)
  case 0
  then show ?case by (subst gc_scan_keep_loop.simps) auto
next
  case (Suc n)
  show ?case
  proof (cases todo)
    case Nil
    then show ?thesis using Suc.prems by (subst gc_scan_keep_loop.simps) auto
  next
    case (Cons x todo1)
    have inv: "scan_inv A obj zs ds (x # todo1) ts cnt rt" using Suc.prems(1) Cons by simp
    from scan_inv_visit [OF inv] obtain h where h: "rt_mem rt x = Some h" "gc_ref_count h = cnt x" "0 < cnt x" "gc_obj h = obj x"
        "x \<in> A" "x \<notin> set ds" "gc_same A rt (gc_put rt x (h\<lparr>gc_mark := 0\<rparr>))"
        "scan_inv A obj zs (ds @ [x]) todo1 ts cnt (gc_put rt x (h\<lparr>gc_mark := 0\<rparr>))" by blast
    have sub: "set (mark_children (obj x)) \<subseteq> A" using Suc.prems(3) h(5) by blast
    from gc_scan_incref_each [OF h(8) sub] obtain rt1 todo2 ts2
      where e: "gc_each gc_scan_incref_child (gc_put rt x (h\<lparr>gc_mark := 0\<rparr>)) (mark_children (obj x)) = Inr rt1"
        "gc_same A (gc_put rt x (h\<lparr>gc_mark := 0\<rparr>)) rt1"
        "scan_inv A obj zs (ds @ [x]) todo2 ts2 (\<lambda>p. cnt p + int (count_list (mark_children (obj x)) p)) rt1"
        "set todo2 \<subseteq> set (mark_children (obj x)) \<union> set todo1" "length todo2 + length ts2 = length todo1 + length ts" by blast
    have same: "gc_same A rt rt1" by (rule gc_same_trans [OF h(7) e(2)])
    then have g: "gc_obj_list rt1 = gc_obj_list rt" by (simp add: gc_same_def)
    have cnt1: "\<forall>p\<in>A. cnt p + int (count_list (mark_children (obj x)) p) = ext p + refs_from obj (set (ds @ [x])) p"
      using Suc.prems(2) h(6) by (simp add: refs_from_insert)
    have xr: "x \<in> gc_reachable obj A ext" using Suc.prems(4) Cons by simp
    have "q \<in> gc_reachable obj A ext" if "q \<in> set (mark_children (obj x))" for q
    proof -
      have "(x, q) \<in> gc_edges obj A" using that h(5) by (simp add: gc_edges_def)
      with xr show ?thesis unfolding gc_reachable_def by (auto intro: rtrancl_into_rtrancl)
    qed
    then have reach: "set (ds @ [x]) \<union> set todo2 \<subseteq> gc_reachable obj A ext"
      using Suc.prems(4) Cons e(4) by auto
    have "length todo2 + length ts2 \<le> n" using e(5) Suc.prems(5) Cons by simp
    from Suc.IH [OF e(3) cnt1 Suc.prems(3) reach this] obtain rt' ds' ts' cnt'
      where IH: "gc_scan_keep_loop rt1 (hd (todo2 @ [gc_obj_list rt])) n = Inr rt'" "gc_same A rt1 rt'"
        "scan_inv A obj zs ds' [] ts' cnt' rt'" "\<forall>p\<in>A. cnt' p = ext p + refs_from obj (set ds') p"
        "set ds' \<subseteq> gc_reachable obj A ext"
      unfolding g by blast
    have l1: "gc_lists rt1 (ds @ x # todo2) ts2 zs" using e(3) by (simp add: scan_inv_def)
    have l0: "gc_lists rt (ds @ x # todo1) ts zs" using inv by (simp add: scan_inv_def)
    have "gc_scan_keep_loop rt x (Suc n) = gc_scan_keep_loop rt1 (hd (todo2 @ [gc_obj_list rt])) n"
      using gc_lists_next(1) [OF l0] gc_lists_next(2) [OF l1] h e(1) g by (subst gc_scan_keep_loop.simps) simp
    with IH gc_same_trans [OF same IH(2)] Cons show ?thesis by auto
  qed
qed

text \<open>At the end of the first loop everything reachable has been kept.\<close>

lemma scan_inv_closed:
  assumes inv: "scan_inv A obj zs ds [] ts cnt rt" and cnt: "\<forall>p\<in>A. cnt p = ext p + refs_from obj (set ds) p"
    and ch: "\<forall>p\<in>A. set (mark_children (obj p)) \<subseteq> A" and ext: "\<forall>p\<in>A. 0 \<le> ext p"
  shows "gc_reachable obj A ext \<subseteq> set ds"
proof
  fix q assume "q \<in> gc_reachable obj A ext"
  then obtain p where p: "p \<in> A" "ext p > 0" "(p, q) \<in> (gc_edges obj A)\<^sup>*" by (auto simp: gc_reachable_def)
  have A: "A = set ds \<union> set ts" and z: "\<forall>q\<in>set ts. cnt q = 0" using inv by (auto simp: scan_inv_def)
  have pos: "x \<in> set ds" if "x \<in> A" "0 < cnt x" for x using that A z by auto
  from p(3) show "q \<in> set ds"
  proof (induction rule: rtrancl_induct)
    case base
    have "0 < cnt p" using cnt p(1,2) refs_from_nonneg [of obj "set ds" p] by simp
    then show ?case by (rule pos [OF p(1)])
  next
    case (step x y)
    then have "y \<in> set (mark_children (obj x))" "x \<in> A" by (auto simp: gc_edges_def)
    then have "0 < refs_from obj (set ds) y" "y \<in> A" using refs_from_pos [OF _ step.IH] ch by auto
    moreover from this have "0 < cnt y" using cnt ext by (metis add_nonneg_pos)
    ultimately show ?case using pos by blast
  qed
qed


section \<open>Restoring the counts of the unreachable objects\<close>

lemma gc_restore_each:
  "gc_mem rt A obj cnt mk \<Longrightarrow> set ps \<subseteq> A \<Longrightarrow>
   \<exists>rt'. gc_each gc_scan_incref_child2 rt ps = Inr rt' \<and> gc_same A rt rt' \<and> rt_links rt' = rt_links rt \<and>
     gc_mem rt' A obj (\<lambda>p. cnt p + int (count_list ps p)) mk"
proof (induction ps arbitrary: rt cnt)
  case Nil
  then show ?case by simp
next
  case (Cons p ps)
  then have p: "p \<in> A" by simp
  let ?h = "\<lparr>gc_ref_count = cnt p + 1, gc_mark = mk p, gc_free_mark = False, gc_obj = obj p\<rparr>"
  have e: "gc_scan_incref_child2 rt p = Inr (gc_put rt p ?h)"
    using gc_memD [OF Cons.prems(1) p] by (simp add: gc_scan_incref_child2_def)
  have "gc_mem (gc_put rt p ?h) A obj (cnt(p := cnt p + 1)) mk"
    using gc_mem_put [OF Cons.prems(1), of p "cnt p + 1" "mk p"] by (simp add: fun_upd_idem)
  from Cons.IH [OF this] Cons.prems(2) obtain rt' where t: "gc_each gc_scan_incref_child2 (gc_put rt p ?h) ps = Inr rt'"
      "gc_same A (gc_put rt p ?h) rt'" "rt_links rt' = rt_links rt"
      "gc_mem rt' A obj (\<lambda>q. (cnt(p := cnt p + 1)) q + int (count_list ps q)) mk" by auto
  have "gc_same A rt rt'" by (rule gc_same_trans [OF _ t(2)]) (simp add: p)
  moreover have "(\<lambda>q. (cnt(p := cnt p + 1)) q + int (count_list ps q)) = (\<lambda>q. cnt q + int (count_list (p # ps) q))" by auto
  ultimately show ?case using e t by auto
qed

lemma gc_lists_links:
  "gc_same A rt rt' \<Longrightarrow> rt_links rt' = rt_links rt \<Longrightarrow> gc_lists rt' os ts zs = gc_lists rt os ts zs"
  by (simp add: gc_same_def gc_lists_def)

lemma gc_lists_next_tmp:
  assumes "gc_lists rt os (us @ p # vs) zs"
  shows "p \<noteq> tmp_obj_list rt" "l_next (rt_links rt) p = hd (vs @ [tmp_obj_list rt])"
proof -
  have d: "dll (rt_links rt) (tmp_obj_list rt) (us @ p # vs)" using assms by (simp add: gc_lists_def)
  then show "p \<noteq> tmp_obj_list rt" by (auto simp: dll_def)
  from d have "dll_seg (rt_links rt) p vs (tmp_obj_list rt)" by (auto simp: dll_def dll_seg_append)
  then show "l_next (rt_links rt) p = hd (vs @ [tmp_obj_list rt])" by (rule dll_seg_next)
qed

lemma gc_scan_restore_loop_spec:
  "gc_lists rt os (us @ vs) zs \<Longrightarrow> A = set os \<union> set (us @ vs) \<Longrightarrow> gc_mem rt A obj cnt mk \<Longrightarrow>
   \<forall>p\<in>A. cnt p = ext p + refs_from obj (set os \<union> set us) p \<Longrightarrow> \<forall>p\<in>A. set (mark_children (obj p)) \<subseteq> A \<Longrightarrow> length vs \<le> fuel \<Longrightarrow>
   \<exists>rt'. gc_scan_restore_loop rt (hd (vs @ [tmp_obj_list rt])) fuel = Inr rt' \<and> gc_same A rt rt' \<and> rt_links rt' = rt_links rt \<and>
     gc_mem rt' A obj (\<lambda>p. ext p + refs_from obj A p) mk"
proof (induction vs arbitrary: rt us cnt fuel)
  case Nil
  then have "gc_mem rt A obj (\<lambda>p. ext p + refs_from obj A p) mk" by (auto intro: gc_mem_cong)
  with Nil show ?case by (subst gc_scan_restore_loop.simps) auto
next
  case (Cons x vs)
  then obtain n where n: "fuel = Suc n" by (cases fuel) auto
  have x: "x \<in> A" using Cons.prems(2) by simp
  note next' = gc_lists_next_tmp [OF Cons.prems(1)]
  have "set (mark_children (obj x)) \<subseteq> A" using Cons.prems(5) x by blast
  from gc_restore_each [OF Cons.prems(3) this] obtain rt1
    where e: "gc_each gc_scan_incref_child2 rt (mark_children (obj x)) = Inr rt1" "gc_same A rt rt1" "rt_links rt1 = rt_links rt"
      "gc_mem rt1 A obj (\<lambda>p. cnt p + int (count_list (mark_children (obj x)) p)) mk" by blast
  have l1: "gc_lists rt1 os ((us @ [x]) @ vs) zs" using Cons.prems(1) gc_lists_links [OF e(2,3)] by simp
  have "x \<notin> set os \<union> set us" using Cons.prems(1) by (auto simp: gc_lists_def)
  then have cnt1: "\<forall>p\<in>A. cnt p + int (count_list (mark_children (obj x)) p) = ext p + refs_from obj (set os \<union> set (us @ [x])) p"
    using Cons.prems(4) by (simp add: refs_from_insert)
  have A1: "A = set os \<union> set ((us @ [x]) @ vs)" using Cons.prems(2) by simp
  have t: "tmp_obj_list rt1 = tmp_obj_list rt" using e(2) by (simp add: gc_same_def)
  from Cons.IH [OF l1 A1 e(4) cnt1 Cons.prems(5), of n] Cons.prems(6) n obtain rt'
    where IH: "gc_scan_restore_loop rt1 (hd (vs @ [tmp_obj_list rt])) n = Inr rt'" "gc_same A rt1 rt'" "rt_links rt' = rt_links rt1"
      "gc_mem rt' A obj (\<lambda>p. ext p + refs_from obj A p) mk" by (auto simp: t)
  have "gc_scan_restore_loop rt x (Suc n) = gc_scan_restore_loop rt1 (hd (vs @ [tmp_obj_list rt])) n"
    using next' gc_memD [OF Cons.prems(3) x] e(1,3) by (subst gc_scan_restore_loop.simps) simp
  with IH gc_same_trans [OF e(2) IH(2)] e(3) n show ?case by auto
qed

section \<open>The heap between two collections\<close>

text \<open>
  \<open>ext p\<close> is the number of references to \<open>p\<close> from outside of the heap: local variables, contexts of the
  host, stack frames. The list of objects holds every object that has not been freed, and the count of each is the
  number of all references to it. Of a freed object only the structure can remain, for weak references.
\<close>

definition gc_inv :: "(nat \<Rightarrow> int) \<Rightarrow> (nat \<Rightarrow> gc_obj) \<Rightarrow> nat list \<Rightarrow> JSRuntime \<Rightarrow> bool" where
  "gc_inv ext obj os rt \<longleftrightarrow>
     dll (rt_links rt) (gc_obj_list rt) os \<and> dll (rt_links rt) (gc_zero_ref_count_list rt) [] \<and>
     distinct (gc_obj_list rt # tmp_obj_list rt # gc_zero_ref_count_list rt # os) \<and>
     (\<forall>p\<in>set os. p < rt_brk rt) \<and> gc_phase rt = JS_GC_PHASE_NONE \<and>
     gc_mem rt (set os) obj (\<lambda>p. ext p + refs_from obj (set os) p) (\<lambda>p. 0) \<and>
     (\<forall>p\<in>set os. 0 \<le> ext p \<and> 0 < ext p + refs_from obj (set os) p \<and> set (mark_children (obj p)) \<subseteq> set os)"

lemma gc_inv_length:
  assumes "gc_inv ext obj os rt"
  shows "length os \<le> rt_brk rt"
proof -
  have "distinct os" "set os \<subseteq> {..<rt_brk rt}" using assms by (auto simp: gc_inv_def)
  then show ?thesis by (metis card_lessThan card_mono distinct_card finite_lessThan)
qed

text \<open>What \<open>gc_decref\<close> and \<open>gc_scan\<close> leave: the objects in two lists, with full counts.\<close>

definition gc_separated :: "(nat \<Rightarrow> int) \<Rightarrow> (nat \<Rightarrow> gc_obj) \<Rightarrow> nat list \<Rightarrow> nat list \<Rightarrow> JSRuntime \<Rightarrow> bool" where
  "gc_separated ext obj os ts rt \<longleftrightarrow> gc_lists rt os ts [] \<and>
     gc_mem rt (set os \<union> set ts) obj (\<lambda>p. ext p + refs_from obj (set os \<union> set ts) p) (\<lambda>p. of_bool (p \<in> set ts))"

text \<open>Trial deletion. The two passes over the heap end without a failed assertion and without touching
  anything that is not an object of the heap. They leave in the list of objects exactly those that can be
  reached through references from an object referenced from outside of the heap, and in the other list all the rest,
  the garbage in cycles; every reference count is what it was, and only the garbage is marked.\<close>

theorem gc_scan_correct:
  assumes "gc_inv ext obj os rt"
  shows "\<exists>rt1 rt2 ks ts. gc_decref rt = Inr rt1 \<and> gc_scan rt1 = Inr rt2 \<and> gc_separated ext obj ks ts rt2 \<and>
    set ks = gc_reachable obj (set os) ext \<and> set ks \<union> set ts = set os \<and> set ks \<inter> set ts = {} \<and> gc_same (set os) rt rt2"
proof -
  let ?A = "set os"
  have d: "dll (rt_links rt) (gc_obj_list rt) os" "dll (rt_links rt) (gc_zero_ref_count_list rt) []"
      "distinct (gc_obj_list rt # tmp_obj_list rt # gc_zero_ref_count_list rt # os)"
    and mem: "gc_mem rt ?A obj (\<lambda>p. ext p + refs_from obj ?A p) (\<lambda>p. 0)"
    and ext: "\<forall>p\<in>?A. 0 \<le> ext p" and ch: "\<forall>p\<in>?A. set (mark_children (obj p)) \<subseteq> ?A"
    using assms by (auto simp: gc_inv_def)
  have len: "length os \<le> rt_brk rt" by (rule gc_inv_length [OF assms])
  let ?rt = "rt\<lparr>rt_links := init_list_head (tmp_obj_list rt) (rt_links rt)\<rparr>"
  have l: "gc_lists ?rt ([] @ os) [] []"
    using dll_frame_init [OF d(1), of "tmp_obj_list rt"] dll_frame_init(1) [OF d(2), of "tmp_obj_list rt"] d(3)
    by (simp add: gc_lists_def)
  then have "gc_lists ?rt os [] []" by simp
  then have first: "l_next (rt_links ?rt) (gc_obj_list rt) = hd (os @ [gc_obj_list rt])"
    using dll_seg_next by (fastforce simp: gc_lists_def dll_def)
  have same0: "gc_same ?A rt ?rt" by (simp add: gc_same_def)
  have "dec_inv ?A obj [] [] os [] (\<lambda>p. ext p + refs_from obj ?A p) ?rt"
    using l mem by (auto simp: dec_inv_def gc_mem_def)
  from gc_decref_loop_spec [OF this _ ext ch len] obtain rt1 ks1 ts1
    where dec: "gc_decref rt = Inr rt1" "gc_same ?A ?rt rt1" "dec_inv ?A obj [] ks1 [] ts1 ext rt1"
    by (auto simp: gc_decref_def Let_def first [simplified])
  have A1: "?A = set ks1 \<union> set ts1" and l1: "gc_lists rt1 ks1 ts1 []" and pos1: "\<forall>q\<in>set ks1. 0 < ext q"
    using dec(3) by (auto simp: dec_inv_def)
  have "gc_mem rt1 ?A obj ext (\<lambda>p. if p \<in> set [] then 0 else 1)" using dec(3) unfolding dec_inv_def by blast
  then have scan0: "scan_inv ?A obj [] [] ks1 ts1 ext rt1"
    using dec(3) unfolding dec_inv_def scan_inv_def by auto
  have "set ks1 \<subseteq> gc_reachable obj ?A ext" using pos1 A1 by (auto simp: gc_reachable_def)
  moreover have "length ks1 + length ts1 \<le> rt_brk rt1"
  proof -
    have "distinct (ks1 @ ts1)" using l1 by (auto simp: gc_lists_def)
    then have "length ks1 + length ts1 = card ?A" unfolding A1 by (metis distinct_card length_append set_append)
    moreover have "card ?A = length os" using d(3) distinct_card by fastforce
    ultimately show ?thesis using len dec(2) by (simp add: gc_same_def)
  qed
  moreover have first1: "l_next (rt_links rt1) (gc_obj_list rt1) = hd (ks1 @ [gc_obj_list rt1])"
    using l1 dll_seg_next by (fastforce simp: gc_lists_def dll_def)
  ultimately obtain rt2 ds ts cnt where keep: "gc_scan_keep_loop rt1 (l_next (rt_links rt1) (gc_obj_list rt1)) (rt_brk rt1) = Inr rt2"
      "gc_same ?A rt1 rt2" "scan_inv ?A obj [] ds [] ts cnt rt2" "\<forall>p\<in>?A. cnt p = ext p + refs_from obj (set ds) p"
      "set ds \<subseteq> gc_reachable obj ?A ext"
    using gc_scan_keep_loop_spec [OF scan0 _ ch, of ext "rt_brk rt1"] by auto
  have reach: "set ds = gc_reachable obj ?A ext"
    using keep(5) scan_inv_closed [OF keep(3,4) ch ext] by auto
  obtain mk where l2: "gc_lists rt2 ds ([] @ ts) []" and A2: "?A = set ds \<union> set ([] @ ts)" and mem2: "gc_mem rt2 ?A obj cnt mk"
    and mk: "\<forall>q\<in>set ds. mk q = 0" "\<forall>q\<in>set ts. mk q = 1"
    using keep(3) by (auto simp: scan_inv_def)
  have lt: "length ts \<le> rt_brk rt2"
  proof -
    have "length ts \<le> card ?A" using l2 A2 by (metis append_Nil card_mono distinct_append distinct_card finite_set gc_lists_def distinct.simps(2) sup_ge2)
    also have "card ?A \<le> length os" by (rule card_length)
    finally show ?thesis using len dec(2) keep(2) by (simp add: gc_same_def)
  qed
  have first2: "l_next (rt_links rt2) (tmp_obj_list rt2) = hd (ts @ [tmp_obj_list rt2])"
    using l2 dll_seg_next by (fastforce simp: gc_lists_def dll_def)
  have "\<forall>p\<in>?A. cnt p = ext p + refs_from obj (set ds \<union> set []) p" using keep(4) by simp
  from gc_scan_restore_loop_spec [OF l2 A2 mem2 this ch lt] obtain rt3
    where res: "gc_scan_restore_loop rt2 (l_next (rt_links rt2) (tmp_obj_list rt2)) (rt_brk rt2) = Inr rt3" "gc_same ?A rt2 rt3"
      "rt_links rt3 = rt_links rt2" "gc_mem rt3 ?A obj (\<lambda>p. ext p + refs_from obj ?A p) mk"
    unfolding first2 by blast
  have scan: "gc_scan rt1 = Inr rt3" using keep(1) res(1) by (simp add: gc_scan_def)
  have disj: "set ds \<inter> set ts = {}" using l2 by (auto simp: gc_lists_def)
  have "gc_mem rt3 ?A obj (\<lambda>p. ext p + refs_from obj ?A p) (\<lambda>p. of_bool (p \<in> set ts))"
    by (rule gc_mem_cong [OF res(4)]) (use mk A2 disj in auto)
  then have "gc_separated ext obj ds ts rt3"
    using l2 A2 gc_lists_links [OF res(2,3)] by (simp add: gc_separated_def)
  moreover have "gc_same ?A rt rt3"
    by (rule gc_same_trans [OF gc_same_trans [OF gc_same_trans [OF same0 dec(2)] keep(2)] res(2)])
  moreover have "set ds \<union> set ts = ?A" using A2 by simp
  ultimately show ?thesis using dec(1) scan reach disj by blast
qed


section \<open>A heap with a cycle\<close>

text \<open>The object 4 refers to itself and to nothing else but its shape 5; the object 6 with shape 7 is in use.\<close>

definition demo_obj :: "nat \<Rightarrow> gc_obj" where
  "demo_obj p =
     (if p = 4 then JS_GC_OBJ_TYPE_JS_OBJECT 5 [Prop_Value (GC_Ref 4)] [] 0
      else if p = 6 then JS_GC_OBJ_TYPE_JS_OBJECT 7 [] [] 0
      else JS_GC_OBJ_TYPE_SHAPE 0)"

definition demo_ext :: "nat \<Rightarrow> int" where
  "demo_ext p = of_bool (p = 6)"

definition demo_links :: list_links where
  "demo_links = foldl (\<lambda>s p. list_add_tail p 1 s)
     (init_list_head 3 (init_list_head 1 \<lparr>l_prev = \<lambda>_. 0, l_next = \<lambda>_. 0\<rparr>)) [4, 5, 6, 7]"

definition demo_runtime :: JSRuntime where
  "demo_runtime = \<lparr>gc_obj_list = 1, tmp_obj_list = 2, gc_zero_ref_count_list = 3, gc_phase = JS_GC_PHASE_NONE,
     rt_links = demo_links,
     rt_mem = (\<lambda>p. if p \<in> {4, 5, 6, 7}
        then Some \<lparr>gc_ref_count = 1, gc_mark = 0, gc_free_mark = False, gc_obj = demo_obj p\<rparr> else None),
     rt_brk = 8\<rparr>"

lemma demo_inv: "gc_inv demo_ext demo_obj [4, 5, 6, 7] demo_runtime"
proof -
  have refs: "refs_from demo_obj {4, 5, 6, 7} p = (if p \<in> {4, 5, 7} then 1 else 0)" for p
    by (auto simp: refs_from_def demo_obj_def mark_property_def JS_MarkValue_def opt_ref_def)
  have "dll demo_links 1 [4, 5, 6, 7] \<and> dll demo_links 3 []"
    by (simp add: demo_links_def dll_def init_list_head_def list_add_tail_def list_insert_between_def)
  moreover have "set (mark_children (demo_obj p)) \<subseteq> {4, 5, 6, 7}" if "p \<in> {4, 5, 6, 7}" for p
    using that by (auto simp: demo_obj_def mark_property_def JS_MarkValue_def opt_ref_def)
  ultimately show ?thesis
    by (auto simp: gc_inv_def demo_runtime_def gc_mem_def demo_ext_def refs)
qed

theorem gc_scan_witness:
  "\<exists>rt1 rt2 ks ts. gc_decref demo_runtime = Inr rt1 \<and> gc_scan rt1 = Inr rt2 \<and> gc_separated demo_ext demo_obj ks ts rt2 \<and>
     4 \<in> set ts \<and> 6 \<in> set ks"
proof -
  from gc_scan_correct [OF demo_inv] obtain rt1 rt2 ks ts where g: "gc_decref demo_runtime = Inr rt1" "gc_scan rt1 = Inr rt2"
      "gc_separated demo_ext demo_obj ks ts rt2" "set ks = gc_reachable demo_obj (set [4, 5, 6, 7]) demo_ext"
      "set ks \<union> set ts = set [4, 5, 6, 7]" by blast
  have "6 \<in> set ks" unfolding g(4) by (auto simp: gc_reachable_def demo_ext_def)
  moreover have "4 \<notin> set ks"
  proof
    assume "4 \<in> set ks"
    then have "(6, 4) \<in> (gc_edges demo_obj {4, 5, 6, 7})\<^sup>*"
      unfolding g(4) by (auto simp: gc_reachable_def demo_ext_def split: if_splits)
    then have "(4::nat) \<in> {6, 7}"
    proof (induction rule: rtrancl_induct)
      case (step x y)
      then show ?case by (auto simp: gc_edges_def demo_obj_def opt_ref_def split: if_splits)
    qed simp
    then show False by simp
  qed
  ultimately show ?thesis using g by auto
qed

end
