(* ===== verification/GCFree.thy ===== *)
theory GCFree
  imports GCScan
begin

text \<open>
  Freeing the garbage: \<open>gc_free_cycles\<close> releases the references of every unreachable object once and
  frees its memory only when nothing refers to it any more.
\<close>

section \<open>Types of references\<close>

text \<open>An object that is freed at once refers to objects of smaller rank only.\<close>

definition gc_rank :: "gc_obj \<Rightarrow> nat" where
  "gc_rank ob = (if gc_is_queued ob then 0 else case ob of JS_GC_OBJ_TYPE_JS_CONTEXT _ _ _ \<Rightarrow> 2 | _ \<Rightarrow> 1)"

lemma gc_rank_less: "gc_rank ob < release_depth"
  by (simp add: gc_rank_def release_depth_def split: gc_obj.split)

lemma gc_rank_queued: "gc_is_queued ob \<longleftrightarrow> gc_rank ob = 0"
  by (simp add: gc_rank_def split: gc_obj.split)

text \<open>What is marked is released.\<close>

lemma free_refs_count:
  "free_refs ob = Some refs \<Longrightarrow> count_list refs p = count_list (mark_children ob) p"
  by (cases ob) (auto split: if_splits option.splits sum.splits)

lemma free_refs_set: "free_refs ob = Some refs \<Longrightarrow> set refs = set (mark_children ob)"
  using free_refs_count by (metis count_list_0_iff subsetI subset_antisym)

definition freed_obj :: "gc_obj \<Rightarrow> gc_obj" where
  "freed_obj ob = (case ob of JS_GC_OBJ_TYPE_JS_OBJECT sh props refs weak \<Rightarrow> JS_GC_OBJ_TYPE_JS_OBJECT 0 [] [] weak | _ \<Rightarrow> ob)"

definition is_js_object :: "gc_obj \<Rightarrow> bool" where
  "is_js_object ob = (case ob of JS_GC_OBJ_TYPE_JS_OBJECT sh props refs weak \<Rightarrow> True | _ \<Rightarrow> False)"

definition obj_weakrefs :: "gc_obj \<Rightarrow> nat" where
  "obj_weakrefs ob = (case ob of JS_GC_OBJ_TYPE_JS_OBJECT sh props refs weak \<Rightarrow> weak | _ \<Rightarrow> 0)"

lemma freed_obj_simps [simp]:
  "gc_is_queued (freed_obj ob) = gc_is_queued ob" "obj_weakrefs (freed_obj ob) = obj_weakrefs ob"
  "\<not> gc_is_queued ob \<Longrightarrow> freed_obj ob = ob" "\<not> gc_is_queued ob \<Longrightarrow> obj_weakrefs ob = 0"
  "\<not> gc_is_queued ob \<Longrightarrow> \<not> is_js_object ob" "\<not> is_js_object ob \<Longrightarrow> obj_weakrefs ob = 0"
  by (auto simp: freed_obj_def obj_weakrefs_def gc_is_queued_def is_js_object_def split: gc_obj.splits)

lemma gc_freed_eq:
  "gc_freed \<lparr>gc_ref_count = c, gc_mark = m, gc_free_mark = False, gc_obj = ob\<rparr> =
     \<lparr>gc_ref_count = c, gc_mark = m, gc_free_mark = is_js_object ob, gc_obj = freed_obj ob\<rparr>"
  by (simp add: gc_freed_def is_js_object_def freed_obj_def split: gc_obj.split)

lemma gc_weakrefs_eq: "gc_weakrefs h = obj_weakrefs (gc_obj h)"
  by (simp add: gc_weakrefs_def obj_weakrefs_def)

section \<open>The invariant of the removal\<close>

text \<open>
  \<open>K\<close> is kept and \<open>T\<close> is garbage. The references of the objects of \<open>U\<close> have not been released, and
  of an object that is being freed those of \<open>ps\<close> remain to be released.
\<close>

definition free_count :: "(nat \<Rightarrow> int) \<Rightarrow> (nat \<Rightarrow> gc_obj) \<Rightarrow> nat set \<Rightarrow> nat set \<Rightarrow> nat list \<Rightarrow> nat \<Rightarrow> int" where
  "free_count ext obj K U ps p = ext p + refs_from obj (K \<union> U) p + int (count_list ps p)"

definition free_hdr :: "(nat \<Rightarrow> gc_obj) \<Rightarrow> nat set \<Rightarrow> nat set \<Rightarrow> int \<Rightarrow> nat \<Rightarrow> JSGCObjectHeader" where
  "free_hdr obj T U c p = \<lparr>gc_ref_count = c, gc_mark = of_bool (p \<in> T),
     gc_free_mark = (p \<in> T \<and> p \<notin> U \<and> is_js_object (obj p)),
     gc_obj = (if p \<in> T \<and> p \<notin> U then freed_obj (obj p) else obj p)\<rparr>"

text \<open>What the heap is like: typed, and garbage refers to no object that does not exist.\<close>

definition free_heap :: "(nat \<Rightarrow> int) \<Rightarrow> (nat \<Rightarrow> gc_obj) \<Rightarrow> nat set \<Rightarrow> nat set \<Rightarrow> bool" where
  "free_heap ext obj K T \<longleftrightarrow> finite K \<and> finite T \<and> K \<inter> T = {} \<and>
     (\<forall>p\<in>T. ext p = 0 \<and> refs_from obj K p = 0 \<and> free_refs (obj p) \<noteq> None \<and> set (mark_children (obj p)) \<subseteq> K \<union> T) \<and>
     (\<forall>p\<in>K. 0 \<le> ext p \<and> 0 < ext p + refs_from obj K p) \<and>
     (\<forall>p\<in>T. \<not> gc_is_queued (obj p) \<longrightarrow> (\<forall>q\<in>set (mark_children (obj p)). gc_rank (obj q) < gc_rank (obj p)))"

definition free_inv ::
  "(nat \<Rightarrow> int) \<Rightarrow> (nat \<Rightarrow> gc_obj) \<Rightarrow> nat list \<Rightarrow> nat set \<Rightarrow> nat list \<Rightarrow> nat list \<Rightarrow> nat set \<Rightarrow> nat list \<Rightarrow> JSRuntime \<Rightarrow> bool" where
  "free_inv ext obj ks T ts zs U ps rt \<longleftrightarrow> gc_lists rt ks ts zs \<and> gc_phase rt = JS_GC_PHASE_REMOVE_CYCLES \<and>
     set ts \<union> set zs \<subseteq> T \<and> U \<subseteq> set ts \<union> set zs \<and> set ps \<subseteq> set ks \<union> T \<and>
     (\<forall>p \<in> set ks \<union> set ts \<union> set zs. rt_mem rt p = Some (free_hdr obj T U (free_count ext obj (set ks) U ps p) p)) \<and>
     (\<forall>p \<in> T - (set ts \<union> set zs). rt_mem rt p = None \<and> obj_weakrefs (obj p) = 0 \<and> free_count ext obj (set ks) U ps p = 0) \<and>
     (\<forall>p \<in> set ts \<union> set zs. \<not> gc_is_queued (obj p) \<longrightarrow> (p \<in> U \<longleftrightarrow> 0 < free_count ext obj (set ks) U ps p))"

lemma free_count_nonneg: "0 \<le> ext p \<Longrightarrow> 0 \<le> free_count ext obj K U ps p"
  by (simp add: free_count_def refs_from_nonneg)

lemma free_count_Cons: "free_count ext obj K U (q # ps) p = free_count ext obj K U ps p + of_bool (p = q)"
  by (simp add: free_count_def)

text \<open>Taking an object out of \<open>U\<close> makes its references pending.\<close>

lemma free_count_open:
  assumes "finite K" "finite U" "x \<in> U" "x \<notin> K" "free_refs (obj x) = Some refs"
  shows "free_count ext obj K (U - {x}) (refs @ ps) p = free_count ext obj K U ps p"
proof -
  have "K \<union> U = insert x (K \<union> (U - {x}))" using assms(3) by auto
  then have "refs_from obj (K \<union> U) p = int (count_list refs p) + refs_from obj (K \<union> (U - {x})) p"
    using assms by (simp add: refs_from_insert free_refs_count del: insert_Diff_single)
  then show ?thesis by (simp add: free_count_def)
qed

lemma free_heap_ext: "free_heap ext obj K T \<Longrightarrow> p \<in> K \<union> T \<Longrightarrow> 0 \<le> ext p"
  by (auto simp: free_heap_def)

text \<open>A pending reference leads to an object that is still there.\<close>

lemma free_inv_pending:
  assumes inv: "free_inv ext obj ks T ts zs U (p # ps) rt" and heap: "free_heap ext obj (set ks) T"
  shows "p \<in> set ks \<union> set ts \<union> set zs" "0 < free_count ext obj (set ks) U (p # ps) p"
proof -
  have p: "p \<in> set ks \<union> T" using inv by (simp add: free_inv_def)
  then have "0 \<le> ext p" using free_heap_ext [OF heap] by blast
  then show pos: "0 < free_count ext obj (set ks) U (p # ps) p"
    using free_count_nonneg [of ext p obj "set ks" U ps] by (simp add: free_count_Cons)
  then show "p \<in> set ks \<union> set ts \<union> set zs"
    using inv p by (auto simp: free_inv_def)
qed

lemma free_hdr_simps [simp]:
  "gc_ref_count (free_hdr obj T U c p) = c" "free_hdr obj T U c p\<lparr>gc_ref_count := c'\<rparr> = free_hdr obj T U c' p"
  "gc_is_queued (gc_obj (free_hdr obj T U c p)) = gc_is_queued (obj p)"
  "gc_weakrefs (free_hdr obj T U c p) = obj_weakrefs (obj p)"
  by (simp_all add: free_hdr_def gc_weakrefs_eq)

lemma free_hdr_obj [simp]:
  "\<not> gc_is_queued (obj p) \<Longrightarrow> gc_obj (free_hdr obj T U c p) = obj p" "p \<in> U \<Longrightarrow> gc_obj (free_hdr obj T U c p) = obj p"
  by (simp_all add: free_hdr_def)

lemma free_inv_mem:
  "free_inv ext obj ks T ts zs U ps rt \<Longrightarrow> p \<in> set ks \<union> set ts \<union> set zs \<Longrightarrow>
   rt_mem rt p = Some (free_hdr obj T U (free_count ext obj (set ks) U ps p) p)"
  by (simp add: free_inv_def)

text \<open>One pending reference less, to an object that stays.\<close>

lemma free_inv_drop:
  assumes inv: "free_inv ext obj ks T ts zs U (p # ps) rt" and heap: "free_heap ext obj (set ks) T"
    and c: "c = free_count ext obj (set ks) U ps p" and stays: "gc_is_queued (obj p) \<or> 0 < c"
  shows "free_inv ext obj ks T ts zs U ps (gc_put rt p (free_hdr obj T U c p))"
proof -
  note p = free_inv_pending [OF inv heap]
  have same: "free_count ext obj (set ks) U ps q = free_count ext obj (set ks) U (p # ps) q" if "q \<noteq> p" for q
    using that by (simp add: free_count_Cons)
  show ?thesis
    unfolding free_inv_def
  proof (intro conjI ballI impI)
    fix q assume "q \<in> set ks \<union> set ts \<union> set zs"
    then show "rt_mem (gc_put rt p (free_hdr obj T U c p)) q = Some (free_hdr obj T U (free_count ext obj (set ks) U ps q) q)"
      using inv same c by (auto simp: free_inv_def)
  next
    fix q assume q: "q \<in> T - (set ts \<union> set zs)"
    have "set ks \<inter> T = {}" using heap by (simp add: free_heap_def)
    with q p(1) have "q \<noteq> p" by auto
    with q inv same show "rt_mem (gc_put rt p (free_hdr obj T U c p)) q = None" "obj_weakrefs (obj q) = 0"
      "free_count ext obj (set ks) U ps q = 0" by (auto simp: free_inv_def)
  next
    fix q assume q: "q \<in> set ts \<union> set zs" "\<not> gc_is_queued (obj q)"
    have i: "q \<in> U \<longleftrightarrow> 0 < free_count ext obj (set ks) U (p # ps) q" using inv q unfolding free_inv_def by blast
    show "q \<in> U \<longleftrightarrow> 0 < free_count ext obj (set ks) U ps q"
    proof (cases "q = p")
      case True
      with stays q(2) c p(2) i show ?thesis by simp
    qed (use i same in simp)
  qed (use inv in \<open>auto simp: free_inv_def\<close>)
qed

text \<open>An object is opened: its own references become pending, and one to it may have been dropped.\<close>

lemma free_inv_open:
  assumes inv: "free_inv ext obj ks T ts zs U ps0 rt" and heap: "free_heap ext obj (set ks) T" and x: "x \<in> U"
    and refs: "free_refs (obj x) = Some refs" and sub: "set ps \<subseteq> set ps0"
    and same: "\<And>q. q \<noteq> x \<Longrightarrow> free_count ext obj (set ks) U ps q = free_count ext obj (set ks) U ps0 q"
    and c: "c = free_count ext obj (set ks) U ps x" and zero: "\<not> gc_is_queued (obj x) \<Longrightarrow> c = 0"
  shows "free_inv ext obj ks T ts zs (U - {x}) (refs @ ps) (gc_put rt x (free_hdr obj T (U - {x}) c x))"
proof -
  have U: "U \<subseteq> set ts \<union> set zs" "set ts \<union> set zs \<subseteq> T" using inv by (auto simp: free_inv_def)
  then have xT: "x \<in> T" "x \<in> set ts \<union> set zs" using x by auto
  have xK: "x \<notin> set ks" using heap xT(1) by (auto simp: free_heap_def)
  have finU: "finite U" using U(1) by (rule finite_subset) simp
  have cnt: "free_count ext obj (set ks) (U - {x}) (refs @ ps) q = free_count ext obj (set ks) U ps q" for q
    by (rule free_count_open [where x = x]) (use finU x xK refs in auto)
  have hdr: "free_hdr obj T (U - {x}) d q = free_hdr obj T U d q" if "q \<noteq> x" for q d
    using that by (simp add: free_hdr_def)
  show ?thesis
    unfolding free_inv_def cnt
  proof (intro conjI ballI impI)
    fix q assume "q \<in> set ks \<union> set ts \<union> set zs"
    then show "rt_mem (gc_put rt x (free_hdr obj T (U - {x}) c x)) q =
        Some (free_hdr obj T (U - {x}) (free_count ext obj (set ks) U ps q) q)"
      using inv same c hdr by (auto simp: free_inv_def)
  next
    fix q assume q: "q \<in> T - (set ts \<union> set zs)"
    with xT have "q \<noteq> x" by auto
    with q inv same show "rt_mem (gc_put rt x (free_hdr obj T (U - {x}) c x)) q = None" "obj_weakrefs (obj q) = 0"
      "free_count ext obj (set ks) U ps q = 0" by (auto simp: free_inv_def)
  next
    fix q assume q: "q \<in> set ts \<union> set zs" "\<not> gc_is_queued (obj q)"
    have i: "q \<in> U \<longleftrightarrow> 0 < free_count ext obj (set ks) U ps0 q" using inv q unfolding free_inv_def by blast
    show "q \<in> U - {x} \<longleftrightarrow> 0 < free_count ext obj (set ks) U ps q"
      using i same [of q] zero q(2) c by (cases "q = x") auto
  next
    have "set refs \<subseteq> set ks \<union> T" using heap xT(1) free_refs_set [OF refs] by (auto simp: free_heap_def)
    then show "set (refs @ ps) \<subseteq> set ks \<union> T" using sub inv by (auto simp: free_inv_def)
  qed (use inv U in \<open>auto simp: free_inv_def\<close>)
qed

lemma filter_neq [simp]: "p \<notin> set xs \<Longrightarrow> filter (\<lambda>q. q \<noteq> p) xs = xs"
  by (induction xs) auto

text \<open>The memory of an opened object without references is given back.\<close>

lemma gc_lists_del:
  assumes "gc_lists rt os ts zs" "p \<in> set ts \<union> set zs" "rt_links rt' = list_del p (rt_links rt)"
    "gc_obj_list rt' = gc_obj_list rt" "tmp_obj_list rt' = tmp_obj_list rt" "gc_zero_ref_count_list rt' = gc_zero_ref_count_list rt"
  shows "gc_lists rt' os (filter (\<lambda>q. q \<noteq> p) ts) (filter (\<lambda>q. q \<noteq> p) zs)"
proof -
  have l: "dll (rt_links rt) (gc_obj_list rt) os" "dll (rt_links rt) (tmp_obj_list rt) ts"
      "dll (rt_links rt) (gc_zero_ref_count_list rt) zs"
    and d: "distinct (gc_obj_list rt # tmp_obj_list rt # gc_zero_ref_count_list rt # os @ ts @ zs)"
    using assms(1) by (auto simp: gc_lists_def)
  from assms(2) show ?thesis
  proof
    assume "p \<in> set ts"
    then obtain us vs where ts: "ts = us @ p # vs" by (auto dest: split_list)
    have f: "filter (\<lambda>q. q \<noteq> p) ts = us @ vs" "filter (\<lambda>q. q \<noteq> p) zs = zs"
      using d ts by auto
    have "dll (list_del p (rt_links rt)) (tmp_obj_list rt) (us @ vs)" using list_del_spec l(2) ts by blast
    moreover have "dll (list_del p (rt_links rt)) (gc_obj_list rt) os"
      by (rule dll_frame_del [OF l(1) l(2) [unfolded ts]]) (use d ts in auto)
    moreover have "dll (list_del p (rt_links rt)) (gc_zero_ref_count_list rt) zs"
      by (rule dll_frame_del [OF l(3) l(2) [unfolded ts]]) (use d ts in auto)
    ultimately show ?thesis unfolding f using d assms(3-6) ts by (auto simp: gc_lists_def)
  next
    assume "p \<in> set zs"
    then obtain us vs where zs: "zs = us @ p # vs" by (auto dest: split_list)
    have f: "filter (\<lambda>q. q \<noteq> p) zs = us @ vs" "filter (\<lambda>q. q \<noteq> p) ts = ts"
      using d zs by auto
    have "dll (list_del p (rt_links rt)) (gc_zero_ref_count_list rt) (us @ vs)" using list_del_spec l(3) zs by blast
    moreover have "dll (list_del p (rt_links rt)) (gc_obj_list rt) os"
      by (rule dll_frame_del [OF l(1) l(3) [unfolded zs]]) (use d zs in auto)
    moreover have "dll (list_del p (rt_links rt)) (tmp_obj_list rt) ts"
      by (rule dll_frame_del [OF l(2) l(3) [unfolded zs]]) (use d zs in auto)
    ultimately show ?thesis unfolding f using d assms(3-6) zs by (auto simp: gc_lists_def)
  qed
qed

definition gc_dealloc :: "JSRuntime \<Rightarrow> nat \<Rightarrow> JSRuntime" where
  "gc_dealloc rt p = rt\<lparr>rt_links := list_del p (rt_links rt), rt_mem := (rt_mem rt)(p := None)\<rparr>"

lemma free_inv_dealloc:
  assumes inv: "free_inv ext obj ks T ts zs U ps rt" and heap: "free_heap ext obj (set ks) T"
    and x: "x \<in> set ts \<union> set zs" "x \<notin> U" "free_count ext obj (set ks) U ps x = 0" "obj_weakrefs (obj x) = 0"
  shows "free_inv ext obj ks T (filter (\<lambda>q. q \<noteq> x) ts) (filter (\<lambda>q. q \<noteq> x) zs) U ps (gc_dealloc rt x)"
proof -
  have l: "gc_lists rt ks ts zs" using inv by (simp add: free_inv_def)
  have "gc_lists (gc_dealloc rt x) ks (filter (\<lambda>q. q \<noteq> x) ts) (filter (\<lambda>q. q \<noteq> x) zs)"
    by (rule gc_lists_del [OF l x(1)]) (simp_all add: gc_dealloc_def)
  moreover have k: "x \<notin> set ks" using l x(1) by (auto simp: gc_lists_def)
  ultimately show ?thesis
    unfolding free_inv_def
  proof (intro conjI ballI impI)
    fix q assume q: "q \<in> set ks \<union> set (filter (\<lambda>q. q \<noteq> x) ts) \<union> set (filter (\<lambda>q. q \<noteq> x) zs)"
    then have "q \<in> set ks \<union> set ts \<union> set zs" "q \<noteq> x" using k by auto
    with free_inv_mem [OF inv] show "rt_mem (gc_dealloc rt x) q = Some (free_hdr obj T U (free_count ext obj (set ks) U ps q) q)"
      by (simp add: gc_dealloc_def)
  next
    fix q assume q: "q \<in> T - (set (filter (\<lambda>q. q \<noteq> x) ts) \<union> set (filter (\<lambda>q. q \<noteq> x) zs))"
    have "rt_mem (gc_dealloc rt x) q = None \<and> obj_weakrefs (obj q) = 0 \<and> free_count ext obj (set ks) U ps q = 0"
    proof (cases "q = x")
      case False
      with q have "q \<in> T - (set ts \<union> set zs)" by auto
      with inv have "rt_mem rt q = None \<and> obj_weakrefs (obj q) = 0 \<and> free_count ext obj (set ks) U ps q = 0"
        unfolding free_inv_def by blast
      with False show ?thesis by (simp add: gc_dealloc_def)
    qed (use x(3,4) in \<open>simp add: gc_dealloc_def\<close>)
    then show "rt_mem (gc_dealloc rt x) q = None" "obj_weakrefs (obj q) = 0" "free_count ext obj (set ks) U ps q = 0" by auto
  next
    fix q assume "q \<in> set (filter (\<lambda>q. q \<noteq> x) ts) \<union> set (filter (\<lambda>q. q \<noteq> x) zs)" "\<not> gc_is_queued (obj q)"
    then show "q \<in> U \<longleftrightarrow> 0 < free_count ext obj (set ks) U ps q" using inv unfolding free_inv_def by auto
  next
    show "U \<subseteq> set (filter (\<lambda>q. q \<noteq> x) ts) \<union> set (filter (\<lambda>q. q \<noteq> x) zs)"
      using inv x(2) by (auto simp: free_inv_def)
  qed (use inv in \<open>auto simp: free_inv_def gc_dealloc_def\<close>)
qed

section \<open>Releasing a reference\<close>



text \<open>What a release does: objects of \<open>D\<close>, none of them queued, have been freed.\<close>

definition released_to ::
  "(nat \<Rightarrow> int) \<Rightarrow> (nat \<Rightarrow> gc_obj) \<Rightarrow> nat list \<Rightarrow> nat set \<Rightarrow> nat list \<Rightarrow> nat list \<Rightarrow> nat set \<Rightarrow> nat list \<Rightarrow> JSRuntime \<Rightarrow> JSRuntime \<Rightarrow> nat set \<Rightarrow> bool" where
  "released_to ext obj ks T ts zs U ps rt rt' D \<longleftrightarrow> gc_same (set ks \<union> T) rt rt' \<and> D \<subseteq> U \<and>
     (\<forall>q\<in>D. \<not> gc_is_queued (obj q)) \<and>
     free_inv ext obj ks T (filter (\<lambda>q. q \<notin> D) ts) (filter (\<lambda>q. q \<notin> D) zs) (U - D) ps rt'"

lemma released_to_trans:
  assumes "released_to ext obj ks T ts zs U ps rt rt1 D"
    and "released_to ext obj ks T (filter (\<lambda>q. q \<notin> D) ts) (filter (\<lambda>q. q \<notin> D) zs) (U - D) ps' rt1 rt2 E"
  shows "released_to ext obj ks T ts zs U ps' rt rt2 (D \<union> E)"
proof -
  have "filter (\<lambda>q. q \<notin> E) (filter (\<lambda>q. q \<notin> D) xs) = filter (\<lambda>q. q \<notin> D \<union> E) xs" for xs :: "nat list"
    by (induction xs) auto
  moreover have "U - D - E = U - (D \<union> E)" by auto
  ultimately show ?thesis
    using assms gc_same_trans unfolding released_to_def by (auto intro: gc_same_trans)
qed

lemma gc_release_each:
  assumes one: "\<And>rt ts zs U p ps. free_inv ext obj ks T ts zs U (p # ps) rt \<Longrightarrow> p \<in> P \<Longrightarrow>
      \<exists>rt' D. f rt p = Inr rt' \<and> released_to ext obj ks T ts zs U ps rt rt' D"
  shows "free_inv ext obj ks T ts zs U (cs @ ps) rt \<Longrightarrow> set cs \<subseteq> P \<Longrightarrow>
    \<exists>rt' D. gc_each f rt cs = Inr rt' \<and> released_to ext obj ks T ts zs U ps rt rt' D"
proof (induction cs arbitrary: rt ts zs U)
  case Nil
  then show ?case by (intro exI [of _ rt] exI [of _ "{}"]) (simp add: released_to_def)
next
  case (Cons c cs)
  from one [of ts zs U c "cs @ ps" rt] Cons.prems obtain rt1 D where
    r1: "f rt c = Inr rt1" "released_to ext obj ks T ts zs U (cs @ ps) rt rt1 D" by auto
  from Cons.IH [of "filter (\<lambda>q. q \<notin> D) ts" "filter (\<lambda>q. q \<notin> D) zs" "U - D" rt1] r1(2) Cons.prems(2) obtain rt2 E
    where r2: "gc_each f rt1 cs = Inr rt2"
      "released_to ext obj ks T (filter (\<lambda>q. q \<notin> D) ts) (filter (\<lambda>q. q \<notin> D) zs) (U - D) ps rt1 rt2 E"
    unfolding released_to_def [of ext obj ks T ts zs] by auto
  from released_to_trans [OF r1(2) r2(2)] r1(1) r2(1) show ?case by auto
qed

lemma free_inv_same_lists:
  "free_inv ext obj ks T ts zs U ps rt \<Longrightarrow> gc_phase rt = JS_GC_PHASE_REMOVE_CYCLES"
  by (simp add: free_inv_def)

lemma gc_release_spec:
  assumes heap: "free_heap ext obj (set ks) T"
  shows "free_inv ext obj ks T ts zs U (p # ps) rt \<Longrightarrow> gc_rank (obj p) < depth \<Longrightarrow>
    \<exists>rt' D. gc_release depth rt p = Inr rt' \<and> released_to ext obj ks T ts zs U ps rt rt' D"
proof (induction depth arbitrary: ts zs U p ps rt)
  case (Suc depth)
  note inv = Suc.prems(1)
  note pend = free_inv_pending [OF inv heap]
  let ?c = "free_count ext obj (set ks) U ps p"
  let ?rt = "gc_put rt p (free_hdr obj T U ?c p)"
  have pA: "p \<in> set ks \<union> T" using inv by (simp add: free_inv_def)
  have m: "rt_mem rt p = Some (free_hdr obj T U (?c + 1) p)"
    using free_inv_mem [OF inv pend(1)] by (simp add: free_count_Cons)
  have ph: "gc_phase rt = JS_GC_PHASE_REMOVE_CYCLES" using inv by (simp add: free_inv_def)
  have nonneg: "0 \<le> ?c" using pend(2) by (simp add: free_count_Cons)
  have same: "gc_same (set ks \<union> T) rt ?rt" using pA by simp
  show ?case
  proof (cases "gc_is_queued (obj p) \<or> 0 < ?c")
    case True
    have "gc_release (Suc depth) rt p = Inr ?rt"
      using m True nonneg ph by (auto simp: gc_queue_def Let_def)
    moreover have "released_to ext obj ks T ts zs U ps rt ?rt {}"
      using free_inv_drop [OF inv heap refl True] same by (simp add: released_to_def)
    ultimately show ?thesis by blast
  next
    case False
    then have zero: "?c = 0" and nq: "\<not> gc_is_queued (obj p)" using nonneg by auto
    have pt: "p \<in> set ts \<union> set zs"
    proof -
      have "p \<notin> set ks"
      proof
        assume k: "p \<in> set ks"
        then have "0 < ext p + refs_from obj (set ks) p" using heap by (simp add: free_heap_def)
        moreover have "refs_from obj (set ks) p \<le> refs_from obj (set ks \<union> U) p"
          unfolding refs_from_def
          by (rule sum_mono2) (use inv finite_subset in \<open>auto simp: free_inv_def\<close>)
        ultimately show False using zero by (simp add: free_count_def)
      qed
      then show ?thesis using pend(1) by auto
    qed
    then have pT: "p \<in> T" using inv by (auto simp: free_inv_def)
    have pU: "p \<in> U" using inv pt nq pend(2) unfolding free_inv_def by blast
    from heap pT obtain refs where refs: "free_refs (obj p) = Some refs" by (auto simp: free_heap_def)
    have "free_hdr obj T U 0 p = free_hdr obj T (U - {p}) 0 p" using nq by (simp add: free_hdr_def)
    then have opened: "free_inv ext obj ks T ts zs (U - {p}) (refs @ ps) (gc_put rt p (free_hdr obj T U 0 p))"
      using free_inv_open [OF inv heap pU refs, of ps 0] zero by (auto simp: free_count_Cons)
    have ranks: "set refs \<subseteq> {q. gc_rank (obj q) < depth}"
    proof -
      have "\<forall>q\<in>set (mark_children (obj p)). gc_rank (obj q) < gc_rank (obj p)" using heap pT nq by (simp add: free_heap_def)
      then show ?thesis using Suc.prems(2) free_refs_set [OF refs] by fastforce
    qed
    have one: "\<exists>rt' D. gc_release depth rt q = Inr rt' \<and> released_to ext obj ks T ts zs U ps rt rt' D"
      if "free_inv ext obj ks T ts zs U (q # ps) rt" "q \<in> {q. gc_rank (obj q) < depth}" for rt ts zs U q ps
      by (rule Suc.IH [OF that(1)]) (use that(2) in simp)
    from gc_release_each [where f = "gc_release depth", OF one opened ranks] obtain rt1 D
      where r: "gc_each (gc_release depth) (gc_put rt p (free_hdr obj T U 0 p)) refs = Inr rt1"
        "released_to ext obj ks T ts zs (U - {p}) ps (gc_put rt p (free_hdr obj T U 0 p)) rt1 D"
      by auto
    have D: "D \<subseteq> U - {p}" and inv1: "free_inv ext obj ks T (filter (\<lambda>q. q \<notin> D) ts) (filter (\<lambda>q. q \<notin> D) zs) (U - {p} - D) ps rt1"
      using r(2) by (auto simp: released_to_def)
    have zero1: "free_count ext obj (set ks) (U - {p} - D) ps p = 0"
    proof -
      have "p \<in> set (filter (\<lambda>q. q \<notin> D) ts) \<union> set (filter (\<lambda>q. q \<notin> D) zs)" using pt D by auto
      then have "p \<in> U - {p} - D \<longleftrightarrow> 0 < free_count ext obj (set ks) (U - {p} - D) ps p"
        using inv1 nq unfolding free_inv_def by blast
      moreover have "0 \<le> free_count ext obj (set ks) (U - {p} - D) ps p"
        by (rule free_count_nonneg) (use free_heap_ext [OF heap] pA in blast)
      ultimately show ?thesis by auto
    qed
    have pt1: "p \<in> set (filter (\<lambda>q. q \<notin> D) ts) \<union> set (filter (\<lambda>q. q \<notin> D) zs)" using pt D by auto
    have "free_inv ext obj ks T (filter (\<lambda>q. q \<noteq> p) (filter (\<lambda>q. q \<notin> D) ts)) (filter (\<lambda>q. q \<noteq> p) (filter (\<lambda>q. q \<notin> D) zs))
        (U - {p} - D) ps (gc_dealloc rt1 p)"
      by (rule free_inv_dealloc [OF inv1 heap pt1 _ zero1]) (use nq in auto)
    moreover have "filter (\<lambda>q. q \<noteq> p) (filter (\<lambda>q. q \<notin> D) xs) = filter (\<lambda>q. q \<notin> insert p D) xs" for xs
      by (induction xs) auto
    moreover have "U - {p} - D = U - insert p D" by auto
    ultimately have inv2: "free_inv ext obj ks T (filter (\<lambda>q. q \<notin> insert p D) ts) (filter (\<lambda>q. q \<notin> insert p D) zs)
        (U - insert p D) ps (gc_dealloc rt1 p)" by simp
    have "gc_same (set ks \<union> T) rt (gc_dealloc rt1 p)"
      using r(2) same zero pA by (auto simp: released_to_def gc_same_def gc_dealloc_def)
    then have "released_to ext obj ks T ts zs U ps rt (gc_dealloc rt1 p) (insert p D)"
      using inv2 D pU nq r(2) by (auto simp: released_to_def)
    moreover have "gc_release (Suc depth) rt p = Inr (gc_dealloc rt1 p)"
      using m zero nq refs r(1) by (simp add: gc_dealloc_def Let_def)
    ultimately show ?thesis by blast
  qed
qed simp


section \<open>Freeing one object\<close>

lemma gc_lists_to_zero:
  assumes "gc_lists rt os (us @ p # vs) zs"
  shows "gc_lists (gc_move_tail rt p (gc_zero_ref_count_list rt)) os (us @ vs) (zs @ [p])"
proof -
  have l: "dll (rt_links rt) (tmp_obj_list rt) (us @ p # vs)" "dll (rt_links rt) (gc_zero_ref_count_list rt) zs"
      "dll (rt_links rt) (gc_obj_list rt) os"
    and d: "distinct (gc_obj_list rt # tmp_obj_list rt # gc_zero_ref_count_list rt # os @ (us @ p # vs) @ zs)"
    using assms by (auto simp: gc_lists_def)
  have m: "dll (list_move_tail p (gc_zero_ref_count_list rt) (rt_links rt)) (tmp_obj_list rt) (us @ vs)"
      "dll (list_move_tail p (gc_zero_ref_count_list rt) (rt_links rt)) (gc_zero_ref_count_list rt) (zs @ [p])"
    by (rule dll_move_tail [OF l(1,2)]; use d in auto)+
  moreover have "dll (list_move_tail p (gc_zero_ref_count_list rt) (rt_links rt)) (gc_obj_list rt) os"
    by (rule dll_frame_move_tail [OF l(3,1,2)]) (use d in auto)
  ultimately show ?thesis using d by (auto simp: gc_lists_def)
qed

lemma free_inv_to_zero:
  assumes inv: "free_inv ext obj ks T (x # ts) zs U ps rt"
  shows "free_inv ext obj ks T ts (zs @ [x]) U ps (gc_move_tail rt x (gc_zero_ref_count_list rt))"
proof -
  have "gc_lists rt ks ([] @ x # ts) zs" using inv by (simp add: free_inv_def)
  from gc_lists_to_zero [OF this] have "gc_lists (gc_move_tail rt x (gc_zero_ref_count_list rt)) ks ts (zs @ [x])" by simp
  moreover have "set (x # ts) \<union> set zs = set ts \<union> set (zs @ [x])" by auto
  ultimately show ?thesis using inv unfolding free_inv_def gc_move_tail_simps by (simp only: Un_assoc) blast
qed

text \<open>The lists at the head of each round: what is in the list of garbage has not been released yet.\<close>

definition round_ok :: "(nat \<Rightarrow> gc_obj) \<Rightarrow> nat list \<Rightarrow> nat list \<Rightarrow> nat set \<Rightarrow> bool" where
  "round_ok obj ts zs U \<longleftrightarrow> set ts \<subseteq> U \<and> (\<forall>p\<in>set zs. p \<in> U \<longleftrightarrow> \<not> gc_is_queued (obj p))"

lemma free_gc_object_spec:
  assumes inv: "free_inv ext obj ks T (x # ts) zs U [] rt" and heap: "free_heap ext obj (set ks) T"
    and ok: "round_ok obj (x # ts) zs U" and q: "gc_is_queued (obj x)"
  shows "\<exists>rt' ts' zs' U'. free_gc_object rt x = Inr rt' \<and> gc_same (set ks \<union> T) rt rt' \<and>
    free_inv ext obj ks T ts' zs' U' [] rt' \<and> round_ok obj ts' zs' U' \<and> length ts' \<le> length ts"
proof -
  have xU: "x \<in> U" using ok by (simp add: round_ok_def)
  have xT: "x \<in> T" using inv by (auto simp: free_inv_def)
  have l: "gc_lists rt ks (x # ts) zs" using inv by (simp add: free_inv_def)
  then have xd: "x \<notin> set ts" "x \<notin> set zs" "x \<notin> set ks" by (auto simp: gc_lists_def)
  let ?c = "free_count ext obj (set ks) U [] x"
  have m: "rt_mem rt x = Some (free_hdr obj T U ?c x)" by (rule free_inv_mem [OF inv]) simp
  have freed: "gc_freed (free_hdr obj T U ?c x) = free_hdr obj T (U - {x}) ?c x"
    using xU xT by (simp add: free_hdr_def gc_freed_eq)
  from heap xT obtain refs where refs: "free_refs (obj x) = Some refs" by (auto simp: free_heap_def)
  have opened: "free_inv ext obj ks T (x # ts) zs (U - {x}) (refs @ []) (gc_put rt x (free_hdr obj T (U - {x}) ?c x))"
    by (rule free_inv_open [OF inv heap xU refs]) (use q in auto)
  have one: "\<exists>rt' D. gc_release release_depth rt q = Inr rt' \<and> released_to ext obj ks T ts zs U ps rt rt' D"
    if "free_inv ext obj ks T ts zs U (q # ps) rt" "q \<in> UNIV" for rt ts zs U q ps
    by (rule gc_release_spec [OF heap that(1) gc_rank_less])
  from gc_release_each [where f = "gc_release release_depth" and P = UNIV, OF one opened] obtain rt1 D
    where r: "gc_each (gc_release release_depth) (gc_put rt x (free_hdr obj T (U - {x}) ?c x)) refs = Inr rt1"
      "released_to ext obj ks T (x # ts) zs (U - {x}) [] (gc_put rt x (free_hdr obj T (U - {x}) ?c x)) rt1 D" by auto
  have D: "D \<subseteq> U - {x}" "\<forall>q\<in>D. \<not> gc_is_queued (obj q)" using r(2) by (auto simp: released_to_def)
  let ?ts = "filter (\<lambda>q. q \<notin> D) ts" and ?zs = "filter (\<lambda>q. q \<notin> D) zs" and ?U = "U - {x} - D"
  have inv1: "free_inv ext obj ks T (x # ?ts) ?zs ?U [] rt1"
  proof -
    have "x \<notin> D" using D(1) by auto
    with r(2) show ?thesis by (simp add: released_to_def)
  qed
  have same: "gc_same (set ks \<union> T) rt rt1"
    by (rule gc_same_trans [where rt' = "gc_put rt x (free_hdr obj T (U - {x}) ?c x)"])
      (use r(2) xT in \<open>simp_all add: released_to_def\<close>)
  let ?c1 = "free_count ext obj (set ks) ?U [] x"
  have m1: "rt_mem rt1 x = Some (free_hdr obj T ?U ?c1 x)" by (rule free_inv_mem [OF inv1]) simp
  have ph: "gc_phase rt1 = JS_GC_PHASE_REMOVE_CYCLES" using inv1 by (simp add: free_inv_def)
  have ok1: "round_ok obj ?ts ?zs ?U" "round_ok obj ?ts (?zs @ [x]) ?U"
    using ok D xd q by (auto simp: round_ok_def)
  show ?thesis
  proof (cases "?c1 = 0 \<and> obj_weakrefs (obj x) = 0")
    case True
    have "free_inv ext obj ks T (filter (\<lambda>q. q \<noteq> x) (x # ?ts)) (filter (\<lambda>q. q \<noteq> x) ?zs) ?U [] (gc_dealloc rt1 x)"
      by (rule free_inv_dealloc [OF inv1 heap]) (use True in auto)
    moreover have "filter (\<lambda>q. q \<noteq> x) (x # ?ts) = ?ts" "filter (\<lambda>q. q \<noteq> x) ?zs = ?zs"
      using filter_neq [of x ?ts] filter_neq [of x ?zs] xd by (simp_all del: filter_filter filter_neq)
    ultimately have "free_inv ext obj ks T ?ts ?zs ?U [] (gc_dealloc rt1 x)" by (simp only:)
    moreover have "free_gc_object rt x = Inr (gc_dealloc rt1 x)"
      using m q xU refs r(1) m1 ph True by (simp add: free_gc_object_def freed gc_dealloc_def Let_def)
    moreover have "gc_same (set ks \<union> T) rt (gc_dealloc rt1 x)" using same xT by (simp add: gc_same_def gc_dealloc_def)
    ultimately show ?thesis using ok1(1) by (meson length_filter_le)
  next
    case False
    have "free_inv ext obj ks T ?ts (?zs @ [x]) ?U [] (gc_move_tail rt1 x (gc_zero_ref_count_list rt1))"
      by (rule free_inv_to_zero [OF inv1])
    moreover have "free_gc_object rt x = Inr (gc_move_tail rt1 x (gc_zero_ref_count_list rt1))"
      using m q xU refs r(1) m1 ph False by (auto simp: free_gc_object_def freed gc_move_tail_def Let_def)
    moreover have "gc_same (set ks \<union> T) rt (gc_move_tail rt1 x (gc_zero_ref_count_list rt1))" using same by simp
    ultimately show ?thesis using ok1(2) by (meson length_filter_le)
  qed
qed


section \<open>Freeing everything\<close>

lemma gc_free_cycles_loop_spec:
  assumes heap: "free_heap ext obj (set ks) T"
  shows "free_inv ext obj ks T ts zs U [] rt \<Longrightarrow> round_ok obj ts zs U \<Longrightarrow> length ts \<le> fuel \<Longrightarrow>
    \<exists>rt' zs' U'. gc_free_cycles_loop rt fuel = Inr rt' \<and> gc_same (set ks \<union> T) rt rt' \<and>
      free_inv ext obj ks T [] zs' U' [] rt' \<and> round_ok obj [] zs' U'"
proof (induction fuel arbitrary: ts zs U rt)
  case 0
  then have "l_next (rt_links rt) (tmp_obj_list rt) = tmp_obj_list rt"
    by (simp add: free_inv_def gc_lists_def dll_def)
  with 0 show ?case by (subst gc_free_cycles_loop.simps) auto
next
  case (Suc n)
  have l: "gc_lists rt ks ts zs" using Suc.prems(1) by (simp add: free_inv_def)
  then have "dll_seg (rt_links rt) (tmp_obj_list rt) ts (tmp_obj_list rt)" by (simp add: gc_lists_def dll_def)
  then have el: "l_next (rt_links rt) (tmp_obj_list rt) = hd (ts @ [tmp_obj_list rt])" by (rule dll_seg_next)
  show ?case
  proof (cases ts)
    case Nil
    with Suc.prems el show ?thesis by (subst gc_free_cycles_loop.simps) auto
  next
    case (Cons x ts1)
    have inv: "free_inv ext obj ks T (x # ts1) zs U [] rt" and ok: "round_ok obj (x # ts1) zs U"
      using Suc.prems Cons by auto
    have xU: "x \<in> U" and xt: "x \<noteq> tmp_obj_list rt" using ok l Cons by (auto simp: round_ok_def gc_lists_def)
    have m: "rt_mem rt x = Some (free_hdr obj T U (free_count ext obj (set ks) U [] x) x)"
      by (rule free_inv_mem [OF inv]) simp
    show ?thesis
    proof (cases "gc_is_queued (obj x)")
      case True
      from free_gc_object_spec [OF inv heap ok True] obtain rt1 ts2 zs2 U2
        where f: "free_gc_object rt x = Inr rt1" "gc_same (set ks \<union> T) rt rt1" "free_inv ext obj ks T ts2 zs2 U2 [] rt1"
          "round_ok obj ts2 zs2 U2" "length ts2 \<le> length ts1" by blast
      have "length ts2 \<le> n" using f(5) Suc.prems(3) Cons by simp
      from Suc.IH [OF f(3,4) this] obtain rt' zs' U' where IH: "gc_free_cycles_loop rt1 n = Inr rt'"
          "gc_same (set ks \<union> T) rt1 rt'" "free_inv ext obj ks T [] zs' U' [] rt'" "round_ok obj [] zs' U'" by blast
      have "gc_free_cycles_loop rt (Suc n) = gc_free_cycles_loop rt1 n"
        using el Cons xt m xU True f(1) by (subst gc_free_cycles_loop.simps) simp
      with IH gc_same_trans [OF f(2) IH(2)] show ?thesis by auto
    next
      case False
      let ?rt = "gc_move_tail rt x (gc_zero_ref_count_list rt)"
      have inv1: "free_inv ext obj ks T ts1 (zs @ [x]) U [] ?rt" by (rule free_inv_to_zero [OF inv])
      have ok1: "round_ok obj ts1 (zs @ [x]) U" using ok False by (auto simp: round_ok_def)
      have "length ts1 \<le> n" using Suc.prems(3) Cons by simp
      from Suc.IH [OF inv1 ok1 this] obtain rt' zs' U' where IH: "gc_free_cycles_loop ?rt n = Inr rt'"
          "gc_same (set ks \<union> T) ?rt rt'" "free_inv ext obj ks T [] zs' U' [] rt'" "round_ok obj [] zs' U'" by blast
      have "gc_free_cycles_loop rt (Suc n) = gc_free_cycles_loop ?rt n"
        using el Cons xt m xU False by (subst gc_free_cycles_loop.simps) simp
      moreover have "gc_same (set ks \<union> T) rt rt'" by (rule gc_same_trans [OF _ IH(2)]) simp
      ultimately show ?thesis using IH by auto
    qed
  qed
qed

text \<open>In the end nothing is left unreleased: an object that was not queued would need one of larger rank to refer to it.\<close>

lemma free_inv_end:
  assumes inv: "free_inv ext obj ks T [] zs U [] rt" and heap: "free_heap ext obj (set ks) T" and ok: "round_ok obj [] zs U"
  shows "U = {}"
proof (rule ccontr)
  assume "U \<noteq> {}"
  have U: "U \<subseteq> set zs" "set zs \<subseteq> T" using inv by (auto simp: free_inv_def)
  then have fin: "finite U" by (meson finite_set finite_subset)
  let ?r = "\<lambda>y. gc_rank (obj y)"
  have "Max (?r ` U) \<in> ?r ` U" by (rule Max_in) (use fin \<open>U \<noteq> {}\<close> in auto)
  then obtain x where xU: "x \<in> U" "Max (?r ` U) = ?r x" by auto
  have "?r y \<le> ?r x" if "y \<in> U" for y
    unfolding xU(2) [symmetric] by (rule Max_ge) (use fin that in auto)
  with xU(1) have x: "x \<in> U" "\<forall>y\<in>U. gc_rank (obj y) \<le> gc_rank (obj x)" by auto
  have nq: "\<not> gc_is_queued (obj y)" if "y \<in> U" for y using ok U that by (auto simp: round_ok_def)
  have "0 < free_count ext obj (set ks) U [] x" using inv x(1) U nq unfolding free_inv_def by blast
  moreover have "ext x = 0" "refs_from obj (set ks) x = 0" using heap x(1) U by (auto simp: free_heap_def)
  moreover have "set ks \<inter> U = {}" using heap U by (auto simp: free_heap_def)
  then have "refs_from obj (set ks \<union> U) x = refs_from obj (set ks) x + refs_from obj U x"
    unfolding refs_from_def by (intro sum.union_disjoint fin) auto
  ultimately have "refs_from obj U x \<noteq> 0" by (simp add: free_count_def)
  then obtain y where y: "y \<in> U" "count_list (mark_children (obj y)) x \<noteq> 0"
    unfolding refs_from_def by (elim sum.not_neutral_contains_not_neutral) auto
  then have "x \<in> set (mark_children (obj y))" by (metis count_notin)
  moreover have "y \<in> T" using y(1) U by auto
  ultimately have "gc_rank (obj x) < gc_rank (obj y)" using heap nq [OF y(1)] by (auto simp: free_heap_def)
  with x(2) y(1) show False by (metis leD)
qed

text \<open>The last loop gives back the memory of all objects to which no weak reference exists.\<close>

lemma gc_free_zero_loop_spec:
  "dll (rt_links rt) (gc_zero_ref_count_list rt) (us @ vs) \<Longrightarrow>
   \<forall>p\<in>set vs. rt_mem rt p = Some (hdr p) \<and> gc_is_queued (gc_obj (hdr p)) \<Longrightarrow> length vs \<le> fuel \<Longrightarrow>
   gc_free_zero_loop rt (hd (vs @ [gc_zero_ref_count_list rt])) fuel =
     Inr (rt\<lparr>rt_mem := \<lambda>p. if p \<in> set vs then if gc_weakrefs (hdr p) = 0 then None else Some (hdr p\<lparr>gc_mark := 0\<rparr>) else rt_mem rt p\<rparr>)"
proof (induction vs arbitrary: rt us fuel)
  case Nil
  then show ?case by (subst gc_free_zero_loop.simps) simp
next
  case (Cons x vs)
  then obtain n where n: "fuel = Suc n" by (cases fuel) auto
  have d: "x \<noteq> gc_zero_ref_count_list rt" "x \<notin> set vs" using Cons.prems(1) by (auto simp: dll_def)
  have "dll_seg (rt_links rt) x vs (gc_zero_ref_count_list rt)" using Cons.prems(1) by (auto simp: dll_def dll_seg_append)
  then have el: "l_next (rt_links rt) x = hd (vs @ [gc_zero_ref_count_list rt])" by (rule dll_seg_next)
  let ?new = "if gc_weakrefs (hdr x) = 0 then None else Some (hdr x\<lparr>gc_mark := 0\<rparr>)"
  let ?rt = "rt\<lparr>rt_mem := (rt_mem rt)(x := ?new)\<rparr>"
  have step: "gc_free_zero_loop rt x (Suc n) = gc_free_zero_loop ?rt (hd (vs @ [gc_zero_ref_count_list rt])) n"
    using d el Cons.prems(2) by (subst gc_free_zero_loop.simps) (simp add: gc_put_def Let_def)
  have IH: "gc_free_zero_loop ?rt (hd (vs @ [gc_zero_ref_count_list ?rt])) n =
     Inr (?rt\<lparr>rt_mem := \<lambda>p. if p \<in> set vs then if gc_weakrefs (hdr p) = 0 then None else Some (hdr p\<lparr>gc_mark := 0\<rparr>) else rt_mem ?rt p\<rparr>)"
    by (rule Cons.IH [of _ "us @ [x]"]) (use Cons.prems d n in auto)
  have "(\<lambda>p. if p \<in> set vs then if gc_weakrefs (hdr p) = 0 then None else Some (hdr p\<lparr>gc_mark := 0\<rparr>) else rt_mem ?rt p) =
      (\<lambda>p. if p \<in> set (x # vs) then if gc_weakrefs (hdr p) = 0 then None else Some (hdr p\<lparr>gc_mark := 0\<rparr>) else rt_mem rt p)"
    using d(2) by (auto simp: fun_eq_iff)
  with step IH n show ?case by simp
qed


section \<open>A whole collection\<close>

text \<open>
  The heap is typed, and a running function, whose frame the collector does not see, is in use.
\<close>

definition gc_typed :: "(nat \<Rightarrow> int) \<Rightarrow> (nat \<Rightarrow> gc_obj) \<Rightarrow> nat set \<Rightarrow> bool" where
  "gc_typed ext obj A \<longleftrightarrow> (\<forall>p\<in>A.
     (\<not> gc_is_queued (obj p) \<longrightarrow> (\<forall>q\<in>set (mark_children (obj p)). gc_rank (obj q) < gc_rank (obj p))) \<and>
     (free_refs (obj p) = None \<longrightarrow> 0 < ext p))"

lemma reachable_pos:
  assumes "p \<in> gc_reachable obj A ext" "finite A" "\<forall>q\<in>A. 0 \<le> ext q" "\<forall>q\<in>A. set (mark_children (obj q)) \<subseteq> A"
  shows "0 < ext p + refs_from obj (gc_reachable obj A ext) p \<and> p \<in> A"
proof -
  from assms(1) obtain r where r: "r \<in> A" "ext r > 0" "(r, p) \<in> (gc_edges obj A)\<^sup>*" by (auto simp: gc_reachable_def)
  have sub: "gc_reachable obj A ext \<subseteq> A"
  proof
    fix q assume "q \<in> gc_reachable obj A ext"
    then obtain r where "r \<in> A" "(r, q) \<in> (gc_edges obj A)\<^sup>*" by (auto simp: gc_reachable_def)
    from this(2,1) show "q \<in> A" by (induction rule: rtrancl_induct) (use assms(4) in \<open>auto simp: gc_edges_def\<close>)
  qed
  from r(3) show ?thesis
  proof (cases rule: rtranclE)
    case base
    with r refs_from_nonneg [of obj "gc_reachable obj A ext" p] show ?thesis by simp
  next
    case (step x)
    then have "x \<in> gc_reachable obj A ext" using r(1,2) by (auto simp: gc_reachable_def)
    moreover have "p \<in> set (mark_children (obj x))" using step(2) by (simp add: gc_edges_def)
    ultimately have "0 < refs_from obj (gc_reachable obj A ext) p"
      by (rule refs_from_pos [OF finite_subset [OF sub assms(2)]])
    moreover have "p \<in> A" using assms(1) sub by blast
    ultimately show ?thesis using assms(3) by force
  qed
qed

lemma separated_heap:
  assumes inv: "gc_inv ext obj os rt" and typed: "gc_typed ext obj (set os)"
    and K: "K = gc_reachable obj (set os) ext" and T: "K \<union> T = set os" "K \<inter> T = {}"
  shows "free_heap ext obj K T" "\<forall>p\<in>K. set (mark_children (obj p)) \<subseteq> K"
proof -
  have ext: "\<forall>p\<in>set os. 0 \<le> ext p" and ch: "\<forall>p\<in>set os. set (mark_children (obj p)) \<subseteq> set os"
    using inv by (auto simp: gc_inv_def)
  have fin: "finite K" "finite T" using T(1) by (metis finite_Un finite_set)+
  show closed: "\<forall>p\<in>K. set (mark_children (obj p)) \<subseteq> K"
  proof (intro ballI subsetI)
    fix p q assume p: "p \<in> K" and q: "q \<in> set (mark_children (obj p))"
    have "p \<in> set os" using p T by blast
    with q have "(p, q) \<in> gc_edges obj (set os)" by (simp add: gc_edges_def)
    with p show "q \<in> K" unfolding K gc_reachable_def by (auto intro: rtrancl_into_rtrancl)
  qed
  have "ext p = 0 \<and> refs_from obj K p = 0 \<and> free_refs (obj p) \<noteq> None \<and> set (mark_children (obj p)) \<subseteq> K \<union> T" if p: "p \<in> T" for p
  proof -
    have pos: "p \<in> set os" "p \<notin> K" using p T by auto
    have "\<not> 0 < ext p" using pos unfolding K gc_reachable_def by blast
    with pos(1) ext have "ext p = 0" by force
    moreover have "count_list (mark_children (obj q)) p = 0" if "q \<in> K" for q
      using closed that pos(2) by (meson count_notin subsetD)
    then have "refs_from obj K p = 0" by (simp add: refs_from_def)
    moreover have "free_refs (obj p) \<noteq> None" using typed pos(1) \<open>ext p = 0\<close> by (auto simp: gc_typed_def)
    ultimately show ?thesis using ch pos(1) T(1) by simp
  qed
  moreover have "0 \<le> ext p \<and> 0 < ext p + refs_from obj K p" if "p \<in> K" for p
    using reachable_pos [OF that [unfolded K] finite_set ext ch] that ext T(1) by (auto simp: K)
  moreover have "\<forall>q\<in>set (mark_children (obj p)). gc_rank (obj q) < gc_rank (obj p)" if "p \<in> T" "\<not> gc_is_queued (obj p)" for p
    using typed that T(1) unfolding gc_typed_def by blast
  ultimately show "free_heap ext obj K T" using fin T(2) by (simp add: free_heap_def)
qed

text \<open>The structure of an object that is kept for weak references.\<close>

definition gc_zombie :: "gc_obj \<Rightarrow> JSGCObjectHeader" where
  "gc_zombie ob = \<lparr>gc_ref_count = 0, gc_mark = 0, gc_free_mark = True, gc_obj = freed_obj ob\<rparr>"

lemma gc_free_cycles_spec:
  assumes sep: "gc_separated ext obj ks ts rt" and heap: "free_heap ext obj (set ks) (set ts)"
    and pos: "\<forall>p\<in>set ts. 0 < ext p + refs_from obj (set ks \<union> set ts) p"
    and len: "length ts \<le> rt_brk rt" and ph: "gc_phase rt = JS_GC_PHASE_NONE"
  shows "\<exists>rt'. gc_free_cycles rt = Inr rt' \<and> gc_same (set ks \<union> set ts) rt rt' \<and>
    dll (rt_links rt') (gc_obj_list rt') ks \<and> dll (rt_links rt') (gc_zero_ref_count_list rt') [] \<and>
    gc_mem rt' (set ks) obj (\<lambda>p. ext p + refs_from obj (set ks) p) (\<lambda>p. 0) \<and>
    (\<forall>p\<in>set ts. rt_mem rt' p = (if obj_weakrefs (obj p) = 0 then None else Some (gc_zombie (obj p))))"
proof -
  let ?T = "set ts" and ?rt = "rt\<lparr>gc_phase := JS_GC_PHASE_REMOVE_CYCLES\<rparr>"
  have l: "gc_lists rt ks ts []" and mem: "gc_mem rt (set ks \<union> ?T) obj (\<lambda>p. ext p + refs_from obj (set ks \<union> ?T) p) (\<lambda>p. of_bool (p \<in> ?T))"
    using sep by (auto simp: gc_separated_def)
  have "rt_mem rt p = Some (free_hdr obj ?T ?T (free_count ext obj (set ks) ?T [] p) p)" if "p \<in> set ks \<union> ?T" for p
    using gc_memD [OF mem that] by (simp add: free_hdr_def free_count_def)
  moreover have "gc_lists ?rt ks ts []" using l by (simp add: gc_lists_def)
  ultimately have inv: "free_inv ext obj ks ?T ts [] ?T [] ?rt"
    using pos by (auto simp: free_inv_def free_count_def)
  have ok: "round_ok obj ts [] ?T" by (simp add: round_ok_def)
  from gc_free_cycles_loop_spec [OF heap inv ok, of "rt_brk rt"] len obtain rt1 zs U
    where loop: "gc_free_cycles_loop ?rt (rt_brk rt) = Inr rt1" "gc_same (set ks \<union> ?T) ?rt rt1"
      "free_inv ext obj ks ?T [] zs U [] rt1" "round_ok obj [] zs U" by auto
  have U: "U = {}" by (rule free_inv_end [OF loop(3) heap loop(4)])
  note inv1 = loop(3) [unfolded U]
  have l1: "gc_lists rt1 ks [] zs" and zT: "set zs \<subseteq> ?T" using inv1 by (auto simp: free_inv_def)
  define hdr where "hdr p = free_hdr obj ?T {} (free_count ext obj (set ks) {} [] p) p" for p
  have z: "\<forall>p\<in>set zs. rt_mem rt1 p = Some (hdr p) \<and> gc_is_queued (gc_obj (hdr p))"
    using free_inv_mem [OF inv1] loop(4) U by (auto simp: hdr_def round_ok_def)
  let ?rt1 = "rt1\<lparr>gc_phase := JS_GC_PHASE_NONE\<rparr>"
  have d1: "dll (rt_links rt1) (gc_zero_ref_count_list rt1) zs" "dll (rt_links rt1) (gc_obj_list rt1) ks"
      "gc_zero_ref_count_list rt1 \<notin> set (gc_obj_list rt1 # ks)"
    using l1 by (auto simp: gc_lists_def)
  have el: "l_next (rt_links rt1) (gc_zero_ref_count_list rt1) = hd (zs @ [gc_zero_ref_count_list rt1])"
    by (rule dll_seg_next) (use d1(1) in \<open>simp add: dll_def\<close>)
  have brk: "rt_brk rt1 = rt_brk rt" using loop(2) by (simp add: gc_same_def)
  have lz: "length zs \<le> rt_brk rt1"
  proof -
    have "distinct zs" using l1 by (auto simp: gc_lists_def)
    then have "length zs \<le> card ?T" using zT by (metis card_mono distinct_card finite_set)
    with card_length [of ts] len brk show ?thesis by simp
  qed
  let ?mem = "\<lambda>p. if p \<in> set zs then if gc_weakrefs (hdr p) = 0 then None else Some (hdr p\<lparr>gc_mark := 0\<rparr>) else rt_mem rt1 p"
  have zero: "gc_free_zero_loop ?rt1 (hd (zs @ [gc_zero_ref_count_list rt1])) (rt_brk rt1) = Inr (?rt1\<lparr>rt_mem := ?mem\<rparr>)"
    using gc_free_zero_loop_spec [of ?rt1 "[]" zs hdr "rt_brk rt1"] d1(1) z lz by (simp cong: if_cong)
  let ?rt2 = "?rt1\<lparr>rt_mem := ?mem, rt_links := init_list_head (gc_zero_ref_count_list rt1) (rt_links rt1)\<rparr>"
  have run: "gc_free_cycles rt = Inr ?rt2"
    using loop(1) zero brk by (simp add: gc_free_cycles_def el)
  have "gc_same (set ks \<union> ?T) rt ?rt2"
    using loop(2) zT ph by (auto simp: gc_same_def)
  moreover have "dll (rt_links ?rt2) (gc_obj_list ?rt2) ks" "dll (rt_links ?rt2) (gc_zero_ref_count_list ?rt2) []"
    using dll_frame_init [OF d1(2,3)] by simp_all
  moreover have KT: "set ks \<inter> ?T = {}" using heap by (simp add: free_heap_def)
  have "gc_mem ?rt2 (set ks) obj (\<lambda>p. ext p + refs_from obj (set ks) p) (\<lambda>p. 0)"
    unfolding gc_mem_def
  proof
    fix p assume p: "p \<in> set ks"
    then have "p \<notin> ?T" "p \<notin> set zs" using KT zT by auto
    then show "rt_mem ?rt2 p = Some \<lparr>gc_ref_count = ext p + refs_from obj (set ks) p, gc_mark = 0, gc_free_mark = False,
        gc_obj = obj p\<rparr>"
      using free_inv_mem [OF inv1, of p] p by (simp add: free_hdr_def free_count_def)
  qed
  moreover have "rt_mem ?rt2 p = (if obj_weakrefs (obj p) = 0 then None else Some (gc_zombie (obj p)))" if p: "p \<in> ?T" for p
  proof (cases "p \<in> set zs")
    case True
    have "ext p = 0 \<and> refs_from obj (set ks) p = 0" using heap p unfolding free_heap_def by blast
    then have "free_count ext obj (set ks) {} [] p = 0" by (simp add: free_count_def)
    then have hdr: "hdr p = \<lparr>gc_ref_count = 0, gc_mark = 1, gc_free_mark = is_js_object (obj p), gc_obj = freed_obj (obj p)\<rparr>"
      using p by (simp add: hdr_def free_hdr_def)
    show ?thesis
    proof (cases "obj_weakrefs (obj p) = 0")
      case True
      then show ?thesis using \<open>p \<in> set zs\<close> by (simp add: hdr gc_weakrefs_eq)
    next
      case False
      then have js: "is_js_object (obj p)" by (rule contrapos_np) (rule freed_obj_simps(6))
      have w: "gc_weakrefs (hdr p) \<noteq> 0" unfolding hdr gc_weakrefs_eq by (simp add: False)
      have "hdr p\<lparr>gc_mark := 0\<rparr> = gc_zombie (obj p)" unfolding hdr gc_zombie_def by (simp add: js)
      with True w False show ?thesis by simp
    qed
  next
    case False
    then have "rt_mem rt1 p = None \<and> obj_weakrefs (obj p) = 0" using inv1 p unfolding free_inv_def by auto
    with False show ?thesis by simp
  qed
  ultimately show ?thesis using run by blast
qed

text \<open>C4: a collection never fails, never touches freed memory and ends. It frees exactly the objects that cannot be
  reached from an object in use outside of the heap, whatever cycles they form, and gives back their memory, but for
  the structures of those with weak references; every object that can be reached is kept unchanged, its reference count
  is the number of references that are left, and the heap is ready for the next collection.\<close>

theorem JS_RunGC_correct:
  assumes "gc_inv ext obj os rt" "gc_typed ext obj (set os)"
  shows "\<exists>rt' ks. JS_RunGCInternal rt = Inr rt' \<and> gc_inv ext obj ks rt' \<and> set ks = gc_reachable obj (set os) ext \<and>
    (\<forall>p\<in>set os - set ks. rt_mem rt' p = (if obj_weakrefs (obj p) = 0 then None else Some (gc_zombie (obj p)))) \<and>
    (\<forall>p. p \<notin> set os \<longrightarrow> rt_mem rt' p = rt_mem rt p)"
proof -
  from gc_scan_correct [OF assms(1)] obtain rt1 rt2 ks ts
    where scan: "gc_decref rt = Inr rt1" "gc_scan rt1 = Inr rt2" "gc_separated ext obj ks ts rt2"
      and K: "set ks = gc_reachable obj (set os) ext" and T: "set ks \<union> set ts = set os" "set ks \<inter> set ts = {}"
      and same: "gc_same (set os) rt rt2" by blast
  note heap = separated_heap [OF assms K T]
  have pos: "\<forall>p\<in>set ts. 0 < ext p + refs_from obj (set ks \<union> set ts) p"
    using assms(1) T(1) by (auto simp: gc_inv_def)
  have "distinct ts" using scan(3) by (auto simp: gc_separated_def gc_lists_def)
  then have "length ts \<le> length os" using T(1) by (metis card_length card_mono distinct_card finite_set le_trans sup_ge2)
  then have len: "length ts \<le> rt_brk rt2" using gc_inv_length [OF assms(1)] same by (simp add: gc_same_def)
  have ph: "gc_phase rt2 = JS_GC_PHASE_NONE" using same assms(1) by (simp add: gc_same_def gc_inv_def)
  from gc_free_cycles_spec [OF scan(3) heap(1) pos len ph] obtain rt'
    where f: "gc_free_cycles rt2 = Inr rt'" "gc_same (set ks \<union> set ts) rt2 rt'"
      "dll (rt_links rt') (gc_obj_list rt') ks" "dll (rt_links rt') (gc_zero_ref_count_list rt') []"
      "gc_mem rt' (set ks) obj (\<lambda>p. ext p + refs_from obj (set ks) p) (\<lambda>p. 0)"
      "\<forall>p\<in>set ts. rt_mem rt' p = (if obj_weakrefs (obj p) = 0 then None else Some (gc_zombie (obj p)))" by blast
  have same': "gc_same (set os) rt rt'" using gc_same_trans [OF same] f(2) T(1) by simp
  have "distinct (gc_obj_list rt' # tmp_obj_list rt' # gc_zero_ref_count_list rt' # ks)"
    using same' scan(3) same by (auto simp: gc_separated_def gc_lists_def gc_same_def)
  moreover have "\<forall>p\<in>set ks. p < rt_brk rt'" "gc_phase rt' = JS_GC_PHASE_NONE"
    using assms(1) T(1) same' by (auto simp: gc_inv_def gc_same_def)
  moreover have "\<forall>p\<in>set ks. 0 \<le> ext p \<and> 0 < ext p + refs_from obj (set ks) p \<and> set (mark_children (obj p)) \<subseteq> set ks"
    using heap by (simp add: free_heap_def)
  ultimately have "gc_inv ext obj ks rt'" using f(3-5) by (simp add: gc_inv_def)
  moreover have "JS_RunGCInternal rt = Inr rt'" using scan(1,2) f(1) by (simp add: JS_RunGCInternal_def)
  moreover have "set os - set ks = set ts" using T by auto
  then have "\<forall>p\<in>set os - set ks. rt_mem rt' p = (if obj_weakrefs (obj p) = 0 then None else Some (gc_zombie (obj p)))"
    using f(6) by simp
  moreover have "\<forall>p. p \<notin> set os \<longrightarrow> rt_mem rt' p = rt_mem rt p" using same' by (simp add: gc_same_def)
  ultimately show ?thesis using K by blast
qed

theorem JS_RunGC_witness:
  "\<exists>rt'. JS_RunGCInternal demo_runtime = Inr rt' \<and> rt_mem rt' 4 = None \<and> rt_mem rt' 5 = None \<and> rt_mem rt' 6 \<noteq> None"
proof -
  have typed: "gc_typed demo_ext demo_obj (set [4, 5, 6, 7])"
    by (simp add: gc_typed_def demo_obj_def opt_ref_def gc_is_queued_def)
  from JS_RunGC_correct [OF demo_inv typed] obtain rt' ks where g: "JS_RunGCInternal demo_runtime = Inr rt'"
      "gc_inv demo_ext demo_obj ks rt'" "set ks = gc_reachable demo_obj (set [4, 5, 6, 7]) demo_ext"
      "\<forall>p\<in>set [4, 5, 6, 7] - set ks. rt_mem rt' p =
         (if obj_weakrefs (demo_obj p) = 0 then None else Some (gc_zombie (demo_obj p)))" by blast
  have "6 \<in> set ks" unfolding g(3) by (auto simp: gc_reachable_def demo_ext_def)
  then have "rt_mem rt' 6 \<noteq> None" using g(2) by (auto simp: gc_inv_def gc_mem_def)
  moreover have "p \<in> {6, 7}" if "p \<in> set ks" for p
  proof -
    have "(6, p) \<in> (gc_edges demo_obj {4, 5, 6, 7})\<^sup>*"
      using that unfolding g(3) by (auto simp: gc_reachable_def demo_ext_def split: if_splits)
    then show ?thesis
    proof (induction rule: rtrancl_induct)
      case (step x y)
      then show ?case by (auto simp: gc_edges_def demo_obj_def opt_ref_def split: if_splits)
    qed simp
  qed
  from this [of 4] this [of 5] have "4 \<notin> set ks" "5 \<notin> set ks" by auto
  then have "rt_mem rt' 4 = None" "rt_mem rt' 5 = None"
    using bspec [OF g(4), of 4] bspec [OF g(4), of 5] by (simp_all add: demo_obj_def obj_weakrefs_def)
  ultimately show ?thesis using g(1) by blast
qed

end
