(* ===== verification/Opcodes.thy ===== *)
theory Opcodes
  imports StringBuffer
begin

text \<open>
  The instructions of the bytecode: the table of \<open>quickjs-opcode.h\<close> with the size of each instruction
  and its effect on the stack, and the numbering of the final bytecode, in which the short
  instructions take the numbers of the temporary ones.
\<close>

section \<open>The table\<close>

datatype OPCodeFormat =
    OP_FMT_none | OP_FMT_none_int | OP_FMT_none_loc | OP_FMT_none_arg | OP_FMT_none_var_ref | OP_FMT_u8
  | OP_FMT_i8 | OP_FMT_loc8 | OP_FMT_const8 | OP_FMT_label8 | OP_FMT_u16 | OP_FMT_i16 | OP_FMT_label16
  | OP_FMT_npop | OP_FMT_npopx | OP_FMT_npop_u16 | OP_FMT_loc | OP_FMT_arg | OP_FMT_var_ref | OP_FMT_u32
  | OP_FMT_i32 | OP_FMT_const | OP_FMT_label | OP_FMT_atom | OP_FMT_atom_u8 | OP_FMT_atom_u16
  | OP_FMT_atom_label_u8 | OP_FMT_atom_label_u16 | OP_FMT_label_u16

record JSOpCode =
  op_name :: string
  op_size :: nat
  n_pop :: nat
  n_push :: nat
  op_fmt :: OPCodeFormat

definition DEF :: "string \<Rightarrow> nat \<Rightarrow> nat \<Rightarrow> nat \<Rightarrow> OPCodeFormat \<Rightarrow> JSOpCode" where
  "DEF s sz pop push f = \<lparr>op_name = s, op_size = sz, n_pop = pop, n_push = push, op_fmt = f\<rparr>"

text \<open>Values, calls, variables and properties; then jumps, iteration and arithmetic up to \<open>nop\<close>.\<close>

definition opcode_values :: "JSOpCode list" where
  "opcode_values = [
    DEF ''invalid'' 1 0 0 OP_FMT_none, DEF ''push_i32'' 5 0 1 OP_FMT_i32,
    DEF ''push_const'' 5 0 1 OP_FMT_const, DEF ''fclosure'' 5 0 1 OP_FMT_const,
    DEF ''push_atom_value'' 5 0 1 OP_FMT_atom, DEF ''private_symbol'' 5 0 1 OP_FMT_atom,
    DEF ''undefined'' 1 0 1 OP_FMT_none, DEF ''null'' 1 0 1 OP_FMT_none, DEF ''push_this'' 1 0 1 OP_FMT_none,
    DEF ''push_false'' 1 0 1 OP_FMT_none, DEF ''push_true'' 1 0 1 OP_FMT_none,
    DEF ''object'' 1 0 1 OP_FMT_none, DEF ''special_object'' 2 0 1 OP_FMT_u8, DEF ''rest'' 3 0 1 OP_FMT_u16,
    DEF ''drop'' 1 1 0 OP_FMT_none, DEF ''nip'' 1 2 1 OP_FMT_none, DEF ''nip1'' 1 3 2 OP_FMT_none,
    DEF ''dup'' 1 1 2 OP_FMT_none, DEF ''dup1'' 1 2 3 OP_FMT_none, DEF ''dup2'' 1 2 4 OP_FMT_none,
    DEF ''dup3'' 1 3 6 OP_FMT_none, DEF ''insert2'' 1 2 3 OP_FMT_none, DEF ''insert3'' 1 3 4 OP_FMT_none,
    DEF ''insert4'' 1 4 5 OP_FMT_none, DEF ''perm3'' 1 3 3 OP_FMT_none, DEF ''perm4'' 1 4 4 OP_FMT_none,
    DEF ''perm5'' 1 5 5 OP_FMT_none, DEF ''swap'' 1 2 2 OP_FMT_none, DEF ''swap2'' 1 4 4 OP_FMT_none,
    DEF ''rot3l'' 1 3 3 OP_FMT_none, DEF ''rot3r'' 1 3 3 OP_FMT_none, DEF ''rot4l'' 1 4 4 OP_FMT_none,
    DEF ''rot5l'' 1 5 5 OP_FMT_none, DEF ''call_constructor'' 3 2 1 OP_FMT_npop,
    DEF ''call'' 3 1 1 OP_FMT_npop, DEF ''tail_call'' 3 1 0 OP_FMT_npop, DEF ''call_method'' 3 2 1 OP_FMT_npop,
    DEF ''tail_call_method'' 3 2 0 OP_FMT_npop, DEF ''array_from'' 3 0 1 OP_FMT_npop,
    DEF ''apply'' 3 3 1 OP_FMT_u16, DEF ''return'' 1 1 0 OP_FMT_none, DEF ''return_undef'' 1 0 0 OP_FMT_none,
    DEF ''check_ctor_return'' 1 1 2 OP_FMT_none, DEF ''check_ctor'' 1 0 0 OP_FMT_none,
    DEF ''init_ctor'' 1 0 1 OP_FMT_none, DEF ''check_brand'' 1 2 2 OP_FMT_none,
    DEF ''add_brand'' 1 2 0 OP_FMT_none, DEF ''return_async'' 1 1 0 OP_FMT_none,
    DEF ''throw'' 1 1 0 OP_FMT_none, DEF ''throw_error'' 6 0 0 OP_FMT_atom_u8,
    DEF ''eval'' 5 1 1 OP_FMT_npop_u16, DEF ''apply_eval'' 3 2 1 OP_FMT_u16, DEF ''regexp'' 1 2 1 OP_FMT_none,
    DEF ''get_super'' 1 1 1 OP_FMT_none, DEF ''import'' 1 2 1 OP_FMT_none,
    DEF ''get_var_undef'' 3 0 1 OP_FMT_var_ref, DEF ''get_var'' 3 0 1 OP_FMT_var_ref,
    DEF ''put_var'' 3 1 0 OP_FMT_var_ref, DEF ''put_var_init'' 3 1 0 OP_FMT_var_ref,
    DEF ''get_ref_value'' 1 2 3 OP_FMT_none, DEF ''put_ref_value'' 1 3 0 OP_FMT_none,
    DEF ''get_field'' 5 1 1 OP_FMT_atom, DEF ''get_field2'' 5 1 2 OP_FMT_atom,
    DEF ''put_field'' 5 2 0 OP_FMT_atom, DEF ''get_private_field'' 1 2 1 OP_FMT_none,
    DEF ''put_private_field'' 1 3 0 OP_FMT_none, DEF ''define_private_field'' 1 3 1 OP_FMT_none,
    DEF ''get_array_el'' 1 2 1 OP_FMT_none, DEF ''get_array_el2'' 1 2 2 OP_FMT_none,
    DEF ''get_array_el3'' 1 2 3 OP_FMT_none, DEF ''put_array_el'' 1 3 0 OP_FMT_none,
    DEF ''get_super_value'' 1 3 1 OP_FMT_none, DEF ''put_super_value'' 1 4 0 OP_FMT_none,
    DEF ''define_field'' 5 2 1 OP_FMT_atom, DEF ''set_name'' 5 1 1 OP_FMT_atom,
    DEF ''set_name_computed'' 1 2 2 OP_FMT_none, DEF ''set_proto'' 1 2 1 OP_FMT_none,
    DEF ''set_home_object'' 1 2 2 OP_FMT_none, DEF ''define_array_el'' 1 3 2 OP_FMT_none,
    DEF ''append'' 1 3 2 OP_FMT_none, DEF ''copy_data_properties'' 2 3 3 OP_FMT_u8,
    DEF ''define_method'' 6 2 1 OP_FMT_atom_u8, DEF ''define_method_computed'' 2 3 1 OP_FMT_u8,
    DEF ''define_class'' 6 2 2 OP_FMT_atom_u8, DEF ''define_class_computed'' 6 3 3 OP_FMT_atom_u8,
    DEF ''get_loc'' 3 0 1 OP_FMT_loc, DEF ''put_loc'' 3 1 0 OP_FMT_loc, DEF ''set_loc'' 3 1 1 OP_FMT_loc,
    DEF ''get_arg'' 3 0 1 OP_FMT_arg, DEF ''put_arg'' 3 1 0 OP_FMT_arg, DEF ''set_arg'' 3 1 1 OP_FMT_arg,
    DEF ''get_var_ref'' 3 0 1 OP_FMT_var_ref, DEF ''put_var_ref'' 3 1 0 OP_FMT_var_ref,
    DEF ''set_var_ref'' 3 1 1 OP_FMT_var_ref, DEF ''set_loc_uninitialized'' 3 0 0 OP_FMT_loc,
    DEF ''get_loc_check'' 3 0 1 OP_FMT_loc, DEF ''put_loc_check'' 3 1 0 OP_FMT_loc,
    DEF ''set_loc_check'' 3 1 1 OP_FMT_loc, DEF ''put_loc_check_init'' 3 1 0 OP_FMT_loc,
    DEF ''get_loc_checkthis'' 3 0 1 OP_FMT_loc, DEF ''get_var_ref_check'' 3 0 1 OP_FMT_var_ref,
    DEF ''put_var_ref_check'' 3 1 0 OP_FMT_var_ref, DEF ''put_var_ref_check_init'' 3 1 0 OP_FMT_var_ref,
    DEF ''close_loc'' 3 0 0 OP_FMT_loc]"

definition opcode_control :: "JSOpCode list" where
  "opcode_control = [
    DEF ''if_false'' 5 1 0 OP_FMT_label, DEF ''if_true'' 5 1 0 OP_FMT_label, DEF ''goto'' 5 0 0 OP_FMT_label,
    DEF ''catch'' 5 0 1 OP_FMT_label, DEF ''gosub'' 5 0 0 OP_FMT_label, DEF ''ret'' 1 1 0 OP_FMT_none,
    DEF ''nip_catch'' 1 2 1 OP_FMT_none, DEF ''to_object'' 1 1 1 OP_FMT_none,
    DEF ''to_propkey'' 1 1 1 OP_FMT_none, DEF ''with_get_var'' 10 1 0 OP_FMT_atom_label_u8,
    DEF ''with_put_var'' 10 2 1 OP_FMT_atom_label_u8, DEF ''with_delete_var'' 10 1 0 OP_FMT_atom_label_u8,
    DEF ''with_make_ref'' 10 1 0 OP_FMT_atom_label_u8, DEF ''with_get_ref'' 10 1 0 OP_FMT_atom_label_u8,
    DEF ''make_loc_ref'' 7 0 2 OP_FMT_atom_u16, DEF ''make_arg_ref'' 7 0 2 OP_FMT_atom_u16,
    DEF ''make_var_ref_ref'' 7 0 2 OP_FMT_atom_u16, DEF ''make_var_ref'' 5 0 2 OP_FMT_atom,
    DEF ''for_in_start'' 1 1 1 OP_FMT_none, DEF ''for_of_start'' 1 1 3 OP_FMT_none,
    DEF ''for_await_of_start'' 1 1 3 OP_FMT_none, DEF ''for_in_next'' 1 1 3 OP_FMT_none,
    DEF ''for_of_next'' 2 3 5 OP_FMT_u8, DEF ''for_await_of_next'' 1 3 4 OP_FMT_none,
    DEF ''iterator_check_object'' 1 1 1 OP_FMT_none, DEF ''iterator_get_value_done'' 1 2 3 OP_FMT_none,
    DEF ''iterator_close'' 1 3 0 OP_FMT_none, DEF ''iterator_next'' 1 4 4 OP_FMT_none,
    DEF ''iterator_call'' 2 4 5 OP_FMT_u8, DEF ''initial_yield'' 1 0 0 OP_FMT_none,
    DEF ''yield'' 1 1 2 OP_FMT_none, DEF ''yield_star'' 1 1 2 OP_FMT_none,
    DEF ''async_yield_star'' 1 1 2 OP_FMT_none, DEF ''await'' 1 1 1 OP_FMT_none, DEF ''neg'' 1 1 1 OP_FMT_none,
    DEF ''plus'' 1 1 1 OP_FMT_none, DEF ''dec'' 1 1 1 OP_FMT_none, DEF ''inc'' 1 1 1 OP_FMT_none,
    DEF ''post_dec'' 1 1 2 OP_FMT_none, DEF ''post_inc'' 1 1 2 OP_FMT_none, DEF ''dec_loc'' 2 0 0 OP_FMT_loc8,
    DEF ''inc_loc'' 2 0 0 OP_FMT_loc8, DEF ''add_loc'' 2 1 0 OP_FMT_loc8, DEF ''not'' 1 1 1 OP_FMT_none,
    DEF ''lnot'' 1 1 1 OP_FMT_none, DEF ''typeof'' 1 1 1 OP_FMT_none, DEF ''delete'' 1 2 1 OP_FMT_none,
    DEF ''delete_var'' 5 0 1 OP_FMT_atom, DEF ''mul'' 1 2 1 OP_FMT_none, DEF ''div'' 1 2 1 OP_FMT_none,
    DEF ''mod'' 1 2 1 OP_FMT_none, DEF ''add'' 1 2 1 OP_FMT_none, DEF ''sub'' 1 2 1 OP_FMT_none,
    DEF ''pow'' 1 2 1 OP_FMT_none, DEF ''shl'' 1 2 1 OP_FMT_none, DEF ''sar'' 1 2 1 OP_FMT_none,
    DEF ''shr'' 1 2 1 OP_FMT_none, DEF ''lt'' 1 2 1 OP_FMT_none, DEF ''lte'' 1 2 1 OP_FMT_none,
    DEF ''gt'' 1 2 1 OP_FMT_none, DEF ''gte'' 1 2 1 OP_FMT_none, DEF ''instanceof'' 1 2 1 OP_FMT_none,
    DEF ''in'' 1 2 1 OP_FMT_none, DEF ''eq'' 1 2 1 OP_FMT_none, DEF ''neq'' 1 2 1 OP_FMT_none,
    DEF ''strict_eq'' 1 2 1 OP_FMT_none, DEF ''strict_neq'' 1 2 1 OP_FMT_none, DEF ''and'' 1 2 1 OP_FMT_none,
    DEF ''xor'' 1 2 1 OP_FMT_none, DEF ''or'' 1 2 1 OP_FMT_none,
    DEF ''is_undefined_or_null'' 1 1 1 OP_FMT_none, DEF ''private_in'' 1 2 1 OP_FMT_none,
    DEF ''push_bigint_i32'' 5 0 1 OP_FMT_i32, DEF ''nop'' 1 0 0 OP_FMT_none]"

text \<open>The temporary instructions never reach the final bytecode.\<close>

definition opcode_temporary :: "JSOpCode list" where
  "opcode_temporary = [
    DEF ''enter_scope'' 3 0 0 OP_FMT_u16, DEF ''leave_scope'' 3 0 0 OP_FMT_u16,
    DEF ''label'' 5 0 0 OP_FMT_label, DEF ''scope_get_var_undef'' 7 0 1 OP_FMT_atom_u16,
    DEF ''scope_get_var'' 7 0 1 OP_FMT_atom_u16, DEF ''scope_put_var'' 7 1 0 OP_FMT_atom_u16,
    DEF ''scope_delete_var'' 7 0 1 OP_FMT_atom_u16, DEF ''scope_make_ref'' 11 0 2 OP_FMT_atom_label_u16,
    DEF ''scope_get_ref'' 7 0 2 OP_FMT_atom_u16, DEF ''scope_put_var_init'' 7 0 2 OP_FMT_atom_u16,
    DEF ''scope_get_var_checkthis'' 7 0 1 OP_FMT_atom_u16,
    DEF ''scope_get_private_field'' 7 1 1 OP_FMT_atom_u16,
    DEF ''scope_get_private_field2'' 7 1 2 OP_FMT_atom_u16,
    DEF ''scope_put_private_field'' 7 2 0 OP_FMT_atom_u16,
    DEF ''scope_in_private_field'' 7 1 1 OP_FMT_atom_u16, DEF ''get_field_opt_chain'' 5 1 1 OP_FMT_atom,
    DEF ''get_array_el_opt_chain'' 1 2 1 OP_FMT_none, DEF ''set_class_name'' 5 1 1 OP_FMT_u32,
    DEF ''line_num'' 5 0 0 OP_FMT_u32]"

definition opcode_short :: "JSOpCode list" where
  "opcode_short = [
    DEF ''push_minus1'' 1 0 1 OP_FMT_none_int, DEF ''push_0'' 1 0 1 OP_FMT_none_int,
    DEF ''push_1'' 1 0 1 OP_FMT_none_int, DEF ''push_2'' 1 0 1 OP_FMT_none_int,
    DEF ''push_3'' 1 0 1 OP_FMT_none_int, DEF ''push_4'' 1 0 1 OP_FMT_none_int,
    DEF ''push_5'' 1 0 1 OP_FMT_none_int, DEF ''push_6'' 1 0 1 OP_FMT_none_int,
    DEF ''push_7'' 1 0 1 OP_FMT_none_int, DEF ''push_i8'' 2 0 1 OP_FMT_i8, DEF ''push_i16'' 3 0 1 OP_FMT_i16,
    DEF ''push_const8'' 2 0 1 OP_FMT_const8, DEF ''fclosure8'' 2 0 1 OP_FMT_const8,
    DEF ''push_empty_string'' 1 0 1 OP_FMT_none, DEF ''get_loc8'' 2 0 1 OP_FMT_loc8,
    DEF ''put_loc8'' 2 1 0 OP_FMT_loc8, DEF ''set_loc8'' 2 1 1 OP_FMT_loc8,
    DEF ''get_loc0'' 1 0 1 OP_FMT_none_loc, DEF ''get_loc1'' 1 0 1 OP_FMT_none_loc,
    DEF ''get_loc2'' 1 0 1 OP_FMT_none_loc, DEF ''get_loc3'' 1 0 1 OP_FMT_none_loc,
    DEF ''put_loc0'' 1 1 0 OP_FMT_none_loc, DEF ''put_loc1'' 1 1 0 OP_FMT_none_loc,
    DEF ''put_loc2'' 1 1 0 OP_FMT_none_loc, DEF ''put_loc3'' 1 1 0 OP_FMT_none_loc,
    DEF ''set_loc0'' 1 1 1 OP_FMT_none_loc, DEF ''set_loc1'' 1 1 1 OP_FMT_none_loc,
    DEF ''set_loc2'' 1 1 1 OP_FMT_none_loc, DEF ''set_loc3'' 1 1 1 OP_FMT_none_loc,
    DEF ''get_arg0'' 1 0 1 OP_FMT_none_arg, DEF ''get_arg1'' 1 0 1 OP_FMT_none_arg,
    DEF ''get_arg2'' 1 0 1 OP_FMT_none_arg, DEF ''get_arg3'' 1 0 1 OP_FMT_none_arg,
    DEF ''put_arg0'' 1 1 0 OP_FMT_none_arg, DEF ''put_arg1'' 1 1 0 OP_FMT_none_arg,
    DEF ''put_arg2'' 1 1 0 OP_FMT_none_arg, DEF ''put_arg3'' 1 1 0 OP_FMT_none_arg,
    DEF ''set_arg0'' 1 1 1 OP_FMT_none_arg, DEF ''set_arg1'' 1 1 1 OP_FMT_none_arg,
    DEF ''set_arg2'' 1 1 1 OP_FMT_none_arg, DEF ''set_arg3'' 1 1 1 OP_FMT_none_arg,
    DEF ''get_var_ref0'' 1 0 1 OP_FMT_none_var_ref, DEF ''get_var_ref1'' 1 0 1 OP_FMT_none_var_ref,
    DEF ''get_var_ref2'' 1 0 1 OP_FMT_none_var_ref, DEF ''get_var_ref3'' 1 0 1 OP_FMT_none_var_ref,
    DEF ''put_var_ref0'' 1 1 0 OP_FMT_none_var_ref, DEF ''put_var_ref1'' 1 1 0 OP_FMT_none_var_ref,
    DEF ''put_var_ref2'' 1 1 0 OP_FMT_none_var_ref, DEF ''put_var_ref3'' 1 1 0 OP_FMT_none_var_ref,
    DEF ''set_var_ref0'' 1 1 1 OP_FMT_none_var_ref, DEF ''set_var_ref1'' 1 1 1 OP_FMT_none_var_ref,
    DEF ''set_var_ref2'' 1 1 1 OP_FMT_none_var_ref, DEF ''set_var_ref3'' 1 1 1 OP_FMT_none_var_ref,
    DEF ''get_length'' 1 1 1 OP_FMT_none, DEF ''if_false8'' 2 1 0 OP_FMT_label8,
    DEF ''if_true8'' 2 1 0 OP_FMT_label8, DEF ''goto8'' 2 0 0 OP_FMT_label8,
    DEF ''goto16'' 3 0 0 OP_FMT_label16, DEF ''call0'' 1 1 1 OP_FMT_npopx, DEF ''call1'' 1 1 1 OP_FMT_npopx,
    DEF ''call2'' 1 1 1 OP_FMT_npopx, DEF ''call3'' 1 1 1 OP_FMT_npopx, DEF ''is_undefined'' 1 1 1 OP_FMT_none,
    DEF ''is_null'' 1 1 1 OP_FMT_none, DEF ''typeof_is_undefined'' 1 1 1 OP_FMT_none,
    DEF ''typeof_is_function'' 1 1 1 OP_FMT_none]"

definition opcode_info :: "JSOpCode list" where
  "opcode_info = opcode_values @ opcode_control @ opcode_temporary @ opcode_short"

definition OP_TEMP_START :: nat where
  "OP_TEMP_START = length opcode_values + length opcode_control"

definition OP_TEMP_END :: nat where
  "OP_TEMP_END = OP_TEMP_START + length opcode_temporary"

definition OP_COUNT :: nat where
  "OP_COUNT = OP_TEMP_START + length opcode_short"

definition short_opcode_info :: "nat \<Rightarrow> JSOpCode" where
  "short_opcode_info oc = opcode_info ! (if oc \<ge> OP_TEMP_START then oc + (OP_TEMP_END - OP_TEMP_START) else oc)"

section \<open>The numbers of the instructions\<close>

definition OP_drop :: nat where "OP_drop = 14"
definition OP_nip :: nat where "OP_nip = 15"
definition OP_nip1 :: nat where "OP_nip1 = 16"
definition OP_tail_call :: nat where "OP_tail_call = 35"
definition OP_tail_call_method :: nat where "OP_tail_call_method = 37"
definition OP_return :: nat where "OP_return = 40"
definition OP_return_undef :: nat where "OP_return_undef = 41"
definition OP_return_async :: nat where "OP_return_async = 47"
definition OP_throw :: nat where "OP_throw = 48"
definition OP_throw_error :: nat where "OP_throw_error = 49"
definition OP_if_false :: nat where "OP_if_false = 104"
definition OP_if_true :: nat where "OP_if_true = 105"
definition OP_goto :: nat where "OP_goto = 106"
definition OP_catch :: nat where "OP_catch = 107"
definition OP_gosub :: nat where "OP_gosub = 108"
definition OP_ret :: nat where "OP_ret = 109"
definition OP_nip_catch :: nat where "OP_nip_catch = 110"
definition OP_with_get_var :: nat where "OP_with_get_var = 113"
definition OP_with_put_var :: nat where "OP_with_put_var = 114"
definition OP_with_delete_var :: nat where "OP_with_delete_var = 115"
definition OP_with_make_ref :: nat where "OP_with_make_ref = 116"
definition OP_with_get_ref :: nat where "OP_with_get_ref = 117"
definition OP_for_of_start :: nat where "OP_for_of_start = 123"
definition OP_for_await_of_start :: nat where "OP_for_await_of_start = 124"
definition OP_iterator_close :: nat where "OP_iterator_close = 130"
definition OP_nop :: nat where "OP_nop = 177"
definition OP_if_false8 :: nat where "OP_if_false8 = 232"
definition OP_if_true8 :: nat where "OP_if_true8 = 233"
definition OP_goto8 :: nat where "OP_goto8 = 234"
definition OP_goto16 :: nat where "OP_goto16 = 235"
definition OP_call0 :: nat where "OP_call0 = 236"

lemmas opcode_defs = OP_drop_def OP_nip_def OP_nip1_def OP_tail_call_def OP_tail_call_method_def OP_return_def
  OP_return_undef_def OP_return_async_def OP_throw_def OP_throw_error_def OP_if_false_def
  OP_if_true_def OP_goto_def OP_catch_def OP_gosub_def OP_ret_def OP_nip_catch_def
  OP_with_get_var_def OP_with_put_var_def OP_with_delete_var_def OP_with_make_ref_def
  OP_with_get_ref_def OP_for_of_start_def OP_for_await_of_start_def OP_iterator_close_def
  OP_nop_def OP_if_false8_def OP_if_true8_def OP_goto8_def OP_goto16_def OP_call0_def

lemmas opcode_tables = opcode_values_def opcode_control_def opcode_temporary_def opcode_short_def

lemma opcode_counts [simp]: "OP_TEMP_START = 178" "OP_TEMP_END = 197" "OP_COUNT = 244" "length opcode_info = 263"
  by (simp_all add: OP_TEMP_START_def OP_TEMP_END_def OP_COUNT_def opcode_info_def opcode_tables)

text \<open>The numbers are those of the table.\<close>

lemma short_opcode_info_simps [simp]:
  "short_opcode_info OP_drop = DEF ''drop'' 1 1 0 OP_FMT_none"
  "short_opcode_info OP_nip = DEF ''nip'' 1 2 1 OP_FMT_none"
  "short_opcode_info OP_nip1 = DEF ''nip1'' 1 3 2 OP_FMT_none"
  "short_opcode_info OP_tail_call = DEF ''tail_call'' 3 1 0 OP_FMT_npop"
  "short_opcode_info OP_tail_call_method = DEF ''tail_call_method'' 3 2 0 OP_FMT_npop"
  "short_opcode_info OP_return = DEF ''return'' 1 1 0 OP_FMT_none"
  "short_opcode_info OP_return_undef = DEF ''return_undef'' 1 0 0 OP_FMT_none"
  "short_opcode_info OP_return_async = DEF ''return_async'' 1 1 0 OP_FMT_none"
  "short_opcode_info OP_throw = DEF ''throw'' 1 1 0 OP_FMT_none"
  "short_opcode_info OP_throw_error = DEF ''throw_error'' 6 0 0 OP_FMT_atom_u8"
  "short_opcode_info OP_if_false = DEF ''if_false'' 5 1 0 OP_FMT_label"
  "short_opcode_info OP_if_true = DEF ''if_true'' 5 1 0 OP_FMT_label"
  "short_opcode_info OP_goto = DEF ''goto'' 5 0 0 OP_FMT_label"
  "short_opcode_info OP_catch = DEF ''catch'' 5 0 1 OP_FMT_label"
  "short_opcode_info OP_gosub = DEF ''gosub'' 5 0 0 OP_FMT_label"
  "short_opcode_info OP_ret = DEF ''ret'' 1 1 0 OP_FMT_none"
  "short_opcode_info OP_nip_catch = DEF ''nip_catch'' 1 2 1 OP_FMT_none"
  "short_opcode_info OP_with_get_var = DEF ''with_get_var'' 10 1 0 OP_FMT_atom_label_u8"
  "short_opcode_info OP_with_put_var = DEF ''with_put_var'' 10 2 1 OP_FMT_atom_label_u8"
  "short_opcode_info OP_with_delete_var = DEF ''with_delete_var'' 10 1 0 OP_FMT_atom_label_u8"
  "short_opcode_info OP_with_make_ref = DEF ''with_make_ref'' 10 1 0 OP_FMT_atom_label_u8"
  "short_opcode_info OP_with_get_ref = DEF ''with_get_ref'' 10 1 0 OP_FMT_atom_label_u8"
  "short_opcode_info OP_for_of_start = DEF ''for_of_start'' 1 1 3 OP_FMT_none"
  "short_opcode_info OP_for_await_of_start = DEF ''for_await_of_start'' 1 1 3 OP_FMT_none"
  "short_opcode_info OP_iterator_close = DEF ''iterator_close'' 1 3 0 OP_FMT_none"
  "short_opcode_info OP_nop = DEF ''nop'' 1 0 0 OP_FMT_none"
  "short_opcode_info OP_if_false8 = DEF ''if_false8'' 2 1 0 OP_FMT_label8"
  "short_opcode_info OP_if_true8 = DEF ''if_true8'' 2 1 0 OP_FMT_label8"
  "short_opcode_info OP_goto8 = DEF ''goto8'' 2 0 0 OP_FMT_label8"
  "short_opcode_info OP_goto16 = DEF ''goto16'' 3 0 0 OP_FMT_label16"
  "short_opcode_info OP_call0 = DEF ''call0'' 1 1 1 OP_FMT_npopx"
  by (simp_all add: short_opcode_info_def opcode_defs opcode_info_def opcode_tables)

end
