(* ===== verification/StackSize.thy ===== *)
theory StackSize
  imports Opcodes
begin

text \<open>
  The verifier of the bytecode: \<open>compute_stack_size\<close> explores the instructions of a function, determines the
  depth of the stack at each of them and rejects code that is not consistent.
\<close>

section \<open>Reading operands\<close>

text \<open>Operands have the byte order of the machine, which is little-endian here.\<close>

definition bc_u16 :: "u8 list \<Rightarrow> nat \<Rightarrow> u16" where
  "bc_u16 bc i = ucast (bc ! i) OR push_bit 8 (ucast (bc ! (i + 1)))"

definition bc_u32 :: "u8 list \<Rightarrow> nat \<Rightarrow> u32" where
  "bc_u32 bc i = ucast (bc_u16 bc i) OR push_bit 16 (ucast (bc_u16 bc (i + 2)))"

definition get_u16 :: "u8 list \<Rightarrow> nat \<Rightarrow> u16 js" where
  "get_u16 bc i = (if i + 2 \<le> length bc then js_return (bc_u16 bc i) else js_throw OutOfBounds)"

definition get_u32 :: "u8 list \<Rightarrow> nat \<Rightarrow> u32 js" where
  "get_u32 bc i = (if i + 4 \<le> length bc then js_return (bc_u32 bc i) else js_throw OutOfBounds)"

definition get_i8 :: "u8 list \<Rightarrow> nat \<Rightarrow> 8 word js" where
  "get_i8 bc i = (if i < length bc then js_return (bc ! i) else js_throw OutOfBounds)"

section \<open>The exploration\<close>

definition JS_STACK_SIZE_MAX :: int where "JS_STACK_SIZE_MAX = 65534"

text \<open>
  The stack of positions to explore has its top first; \<open>pc_stack_size\<close> is the capacity of its array. The length of the
  bytecode is that of the list \<open>bc\<close>, which every function takes.
\<close>

record StackSizeState =
  stack_len_max :: int
  stack_level_tab :: "u16 list"
  catch_pos_tab :: "int list"
  pc_stack :: "int list"
  pc_stack_size :: int

text \<open>Growing an array: the answer of the allocator also decides by how much the block exceeds the request.\<close>

definition js_realloc_array :: "int \<Rightarrow> int \<Rightarrow> int \<Rightarrow> int js" where
  "js_realloc_array elem_size psize req_size = (\<lambda>s.
     (let new_size = max req_size (psize * 3 div 2)
      in case s of
           [] \<Rightarrow> (Inr new_size, [])
         | None # s' \<Rightarrow> (Inl OutOfMemory, s')
         | Some junk # s' \<Rightarrow> (Inr (new_size + uint (junk (nat (new_size * elem_size))) div elem_size), s')))"

definition js_resize_array :: "int \<Rightarrow> int \<Rightarrow> int \<Rightarrow> int js" where
  "js_resize_array elem_size psize req_size =
     (if req_size > psize then js_realloc_array elem_size psize req_size else js_return psize)"

text \<open>Recording a depth, with the check for overflow when it is the largest so far.\<close>

definition ss_max :: "StackSizeState \<Rightarrow> int \<Rightarrow> StackSizeState js" where
  "ss_max s stack_len =
     (if stack_len > stack_len_max s
      then
        if stack_len > JS_STACK_SIZE_MAX then js_throw (InternalError ''stack overflow'')
        else js_return (s\<lparr>stack_len_max := stack_len\<rparr>)
      else js_return s)"

definition ss_check :: "u8 list \<Rightarrow> StackSizeState \<Rightarrow> int \<Rightarrow> int \<Rightarrow> int \<Rightarrow> StackSizeState js" where
  "ss_check bc s pos stack_len catch_pos =
     (if uint (word_of_int pos :: u32) \<ge> int (length bc) then js_throw (InternalError ''bytecode buffer overflow'')
      else
        js_bind (ss_max s stack_len) (\<lambda>s.
          if stack_level_tab s ! nat pos \<noteq> 0xffff
          then
            if uint (stack_level_tab s ! nat pos) \<noteq> stack_len then js_throw (InternalError ''inconsistent stack size'')
            else if catch_pos_tab s ! nat pos \<noteq> catch_pos then js_throw (InternalError ''inconsistent catch position'')
            else js_return s
          else
            (let s = s\<lparr>stack_level_tab := (stack_level_tab s)[nat pos := word_of_int stack_len],
                       catch_pos_tab := (catch_pos_tab s)[nat pos := catch_pos]\<rparr>
             in js_bind (js_resize_array 4 (pc_stack_size s) (int (length (pc_stack s)) + 1)) (\<lambda>sz.
                  js_return (s\<lparr>pc_stack := pos # pc_stack s, pc_stack_size := sz\<rparr>)))))"

text \<open>The number of values that the instruction \<open>oc\<close> at \<open>pos\<close> takes from the stack.\<close>

definition ss_n_pop :: "u8 list \<Rightarrow> int \<Rightarrow> nat \<Rightarrow> int js" where
  "ss_n_pop bc pos oc =
     (let oi = short_opcode_info oc
      in if op_fmt oi = OP_FMT_npop \<or> op_fmt oi = OP_FMT_npop_u16
         then js_bind (get_u16 bc (nat (pos + 1))) (\<lambda>n. js_return (int (n_pop oi) + uint n))
         else if op_fmt oi = OP_FMT_npopx then js_return (int (n_pop oi) + (int oc - int OP_call0))
         else js_return (int (n_pop oi)))"

text \<open>The slot of the catch offset that the instruction at \<open>catch_pos\<close> has pushed.\<close>

definition ss_catch_slot :: "u8 list \<Rightarrow> StackSizeState \<Rightarrow> int \<Rightarrow> int js" where
  "ss_catch_slot bc s catch_pos =
     (if nat catch_pos < length bc
      then
        js_return
          (uint (stack_level_tab s ! nat catch_pos) +
           (if unat (bc ! nat catch_pos) \<noteq> OP_catch then 1 else 0))
      else js_throw OutOfBounds)"

definition ss_check_catch :: "u8 list \<Rightarrow> StackSizeState \<Rightarrow> int \<Rightarrow> int \<Rightarrow> int js" where
  "ss_check_catch bc s catch_level catch_pos =
     (if catch_pos \<ge> 0
      then
        js_bind (ss_catch_slot bc s catch_pos) (\<lambda>level.
          js_return (if catch_level = level then catch_pos_tab s ! nat catch_pos else catch_pos))
      else js_return catch_pos)"

text \<open>
  The effect of the instruction \<open>oc\<close> at \<open>pos\<close> on the exploration: its jumps are checked, and the result is where the
  execution goes on, \<open>None\<close> if it does not.
\<close>

definition ss_insn ::
  "u8 list \<Rightarrow> StackSizeState \<Rightarrow> int \<Rightarrow> nat \<Rightarrow> int \<Rightarrow> int \<Rightarrow> int \<Rightarrow> (StackSizeState \<times> (int \<times> int \<times> int) option) js" where
  "ss_insn bc s pos oc pos_next stack_len catch_pos =
     (let branch = (\<lambda>target len. js_bind (ss_check bc s target len catch_pos)
                      (\<lambda>s. js_return (s, Some (pos_next, stack_len, catch_pos))));
          drop_catch = (\<lambda>catch_level. js_bind (ss_check_catch bc s catch_level catch_pos)
                      (\<lambda>catch_pos. js_return (s, Some (pos_next, stack_len, catch_pos))))
      in if oc = OP_tail_call \<or> oc = OP_tail_call_method \<or> oc = OP_return \<or> oc = OP_return_undef \<or>
            oc = OP_return_async \<or> oc = OP_throw \<or> oc = OP_throw_error \<or> oc = OP_ret
         then js_return (s, None)
         else if oc = OP_goto
         then js_bind (get_u32 bc (nat (pos + 1))) (\<lambda>diff. js_return (s, Some (pos + 1 + sint diff, stack_len, catch_pos)))
         else if oc = OP_goto16
         then js_bind (get_u16 bc (nat (pos + 1))) (\<lambda>diff. js_return (s, Some (pos + 1 + sint diff, stack_len, catch_pos)))
         else if oc = OP_goto8
         then js_bind (get_i8 bc (nat (pos + 1))) (\<lambda>diff. js_return (s, Some (pos + 1 + sint diff, stack_len, catch_pos)))
         else if oc = OP_if_true8 \<or> oc = OP_if_false8
         then js_bind (get_i8 bc (nat (pos + 1))) (\<lambda>diff. branch (pos + 1 + sint diff) stack_len)
         else if oc = OP_if_true \<or> oc = OP_if_false
         then js_bind (get_u32 bc (nat (pos + 1))) (\<lambda>diff. branch (pos + 1 + sint diff) stack_len)
         else if oc = OP_gosub
         then js_bind (get_u32 bc (nat (pos + 1))) (\<lambda>diff. branch (pos + 1 + sint diff) (stack_len + 1))
         else if oc = OP_with_get_var \<or> oc = OP_with_delete_var
         then js_bind (get_u32 bc (nat (pos + 5))) (\<lambda>diff. branch (pos + 5 + sint diff) (stack_len + 1))
         else if oc = OP_with_make_ref \<or> oc = OP_with_get_ref
         then js_bind (get_u32 bc (nat (pos + 5))) (\<lambda>diff. branch (pos + 5 + sint diff) (stack_len + 2))
         else if oc = OP_with_put_var
         then js_bind (get_u32 bc (nat (pos + 5))) (\<lambda>diff. branch (pos + 5 + sint diff) (stack_len - 1))
         else if oc = OP_catch
         then js_bind (get_u32 bc (nat (pos + 1))) (\<lambda>diff.
                js_bind (ss_check bc s (pos + 1 + sint diff) stack_len catch_pos) (\<lambda>s.
                  js_return (s, Some (pos_next, stack_len, pos))))
         else if oc = OP_for_of_start \<or> oc = OP_for_await_of_start
         then js_return (s, Some (pos_next, stack_len, pos))
         else if oc = OP_drop then drop_catch stack_len
         else if oc = OP_nip \<or> oc = OP_nip1 then drop_catch (stack_len - 1)
         else if oc = OP_iterator_close then drop_catch (stack_len + 2)
         else if oc = OP_nip_catch
         then
           if catch_pos < 0 then js_throw (InternalError ''nip_catch: no catch op'')
           else
             js_bind (ss_catch_slot bc s catch_pos) (\<lambda>level.
               js_return (s, Some (pos_next, level + 1, catch_pos_tab s ! nat catch_pos)))
         else js_return (s, Some (pos_next, stack_len, catch_pos)))"

definition ss_explore :: "u8 list \<Rightarrow> StackSizeState \<Rightarrow> int \<Rightarrow> StackSizeState js" where
  "ss_explore bc s pos =
     (let stack_len = uint (stack_level_tab s ! nat pos);
          catch_pos = catch_pos_tab s ! nat pos;
          oc = unat (bc ! nat pos)
      in if oc = 0 \<or> oc \<ge> OP_COUNT then js_throw (InternalError ''invalid opcode'')
         else
           (let oi = short_opcode_info oc;
                pos_next = pos + int (op_size oi)
            in if pos_next > int (length bc) then js_throw (InternalError ''bytecode buffer overflow'')
               else
                 js_bind (ss_n_pop bc pos oc) (\<lambda>n_pop.
                   if stack_len < n_pop then js_throw (InternalError ''stack underflow'')
                   else
                     (let stack_len = stack_len + (int (n_push oi) - n_pop)
                      in js_bind (ss_max s stack_len) (\<lambda>s.
                           js_bind (ss_insn bc s pos oc pos_next stack_len catch_pos) (\<lambda>(s, r).
                             case r of
                               None \<Rightarrow> js_return s
                             | Some (pos_next, stack_len, catch_pos) \<Rightarrow> ss_check bc s pos_next stack_len catch_pos))))))"

fun compute_stack_loop :: "u8 list \<Rightarrow> StackSizeState \<Rightarrow> nat \<Rightarrow> StackSizeState js" where
  "compute_stack_loop bc s fuel =
     (case pc_stack s of
        [] \<Rightarrow> js_return s
      | pos # ps \<Rightarrow>
          (case fuel of
             0 \<Rightarrow> js_throw Nontermination
           | Suc fuel \<Rightarrow> js_bind (ss_explore bc (s\<lparr>pc_stack := ps\<rparr>) pos) (\<lambda>s. compute_stack_loop bc s fuel)))"

definition compute_stack_size :: "u8 list \<Rightarrow> int js" where
  "compute_stack_size bc =
     js_bind js_malloc_block (\<lambda>_.
     js_bind js_malloc_block (\<lambda>_.
       (let s = \<lparr>stack_len_max = 0, stack_level_tab = replicate (length bc) 0xffff,
                 catch_pos_tab = replicate (length bc) 0, pc_stack = [], pc_stack_size = 0\<rparr>
        in js_bind (ss_check bc s 0 0 (-1)) (\<lambda>s.
           js_bind (compute_stack_loop bc s (length bc)) (\<lambda>s.
             js_return (stack_len_max s))))))"

declare compute_stack_loop.simps [simp del]

end
