(* ===== verification/StackSizeSound.thy ===== *)
theory StackSizeSound
  imports StackSize
begin

text \<open>
  The correctness of the verifier: it accepts exactly the code in which every reachable instruction is complete, finds
  its operands on the stack, and is reached with one depth of the stack and one nesting of catch offsets.
\<close>

section \<open>Execution as the verifier sees it\<close>

text \<open>
  A point of the execution is a position, a depth of the stack, and the catch offsets on the
  stack, innermost first, each as the position of the instruction that pushed it with its slot.
\<close>

type_synonym bc_point = "int \<times> int \<times> (int \<times> int) list"

definition bc_op :: "u8 list \<Rightarrow> int \<Rightarrow> nat" where
  "bc_op bc pos = unat (bc ! nat pos)"

definition bc_pops :: "u8 list \<Rightarrow> int \<Rightarrow> int" where
  "bc_pops bc pos =
     (let oi = short_opcode_info (bc_op bc pos)
      in int (n_pop oi) +
         (if op_fmt oi = OP_FMT_npop \<or> op_fmt oi = OP_FMT_npop_u16 then uint (bc_u16 bc (nat (pos + 1)))
          else if op_fmt oi = OP_FMT_npopx then int (bc_op bc pos) - int OP_call0
          else 0))"

definition bc_after :: "u8 list \<Rightarrow> int \<Rightarrow> int \<Rightarrow> int" where
  "bc_after bc pos len = len + (int (n_push (short_opcode_info (bc_op bc pos))) - bc_pops bc pos)"

fun bc_ok :: "u8 list \<Rightarrow> bc_point \<Rightarrow> bool" where
  "bc_ok bc (pos, len, cs) \<longleftrightarrow> 0 \<le> pos \<and> pos < int (length bc) \<and> bc_op bc pos \<noteq> 0 \<and> bc_op bc pos < OP_COUNT \<and>
     pos + int (op_size (short_opcode_info (bc_op bc pos))) \<le> int (length bc) \<and>
     bc_pops bc pos \<le> len \<and> len \<le> JS_STACK_SIZE_MAX \<and> bc_after bc pos len \<le> JS_STACK_SIZE_MAX \<and>
     (bc_op bc pos = OP_nip_catch \<longrightarrow> cs \<noteq> [])"

declare bc_ok.simps [simp del]

text \<open>The jumps of an instruction, by the depth \<open>len\<close> after it.\<close>

definition bc_jumps :: "u8 list \<Rightarrow> int \<Rightarrow> int \<Rightarrow> (int \<times> int) list" where
  "bc_jumps bc pos len =
     (let oc = bc_op bc pos
      in if oc \<in> {OP_if_true8, OP_if_false8} then [(pos + 1 + sint (bc ! nat (pos + 1)), len)]
         else if oc \<in> {OP_if_true, OP_if_false, OP_catch} then [(pos + 1 + sint (bc_u32 bc (nat (pos + 1))), len)]
         else if oc = OP_gosub then [(pos + 1 + sint (bc_u32 bc (nat (pos + 1))), len + 1)]
         else if oc \<in> {OP_with_get_var, OP_with_delete_var} then [(pos + 5 + sint (bc_u32 bc (nat (pos + 5))), len + 1)]
         else if oc \<in> {OP_with_make_ref, OP_with_get_ref} then [(pos + 5 + sint (bc_u32 bc (nat (pos + 5))), len + 2)]
         else if oc = OP_with_put_var then [(pos + 5 + sint (bc_u32 bc (nat (pos + 5))), len - 1)]
         else [])"

text \<open>An instruction that takes values off the stack forgets the innermost catch offset when it is in the slot it takes.\<close>

definition drop_catch :: "int \<Rightarrow> (int \<times> int) list \<Rightarrow> (int \<times> int) list" where
  "drop_catch slot cs = (case cs of [] \<Rightarrow> [] | (c, l) # cs' \<Rightarrow> if slot = l then cs' else cs)"

text \<open>Where the execution goes on without a jump of its own: with \<open>len0\<close> and \<open>len\<close> before and after the instruction.\<close>

definition bc_next :: "u8 list \<Rightarrow> int \<Rightarrow> int \<Rightarrow> int \<Rightarrow> (int \<times> int) list \<Rightarrow> bc_point option" where
  "bc_next bc pos len0 len cs =
     (let oc = bc_op bc pos; pos_next = pos + int (op_size (short_opcode_info oc))
      in if oc \<in> {OP_tail_call, OP_tail_call_method, OP_return, OP_return_undef, OP_return_async, OP_throw,
                  OP_throw_error, OP_ret} then None
         else if oc = OP_goto then Some (pos + 1 + sint (bc_u32 bc (nat (pos + 1))), len, cs)
         else if oc = OP_goto16 then Some (pos + 1 + sint (bc_u16 bc (nat (pos + 1))), len, cs)
         else if oc = OP_goto8 then Some (pos + 1 + sint (bc ! nat (pos + 1)), len, cs)
         else if oc = OP_catch then Some (pos_next, len, (pos, len0) # cs)
         else if oc \<in> {OP_for_of_start, OP_for_await_of_start} then Some (pos_next, len, (pos, len0 + 1) # cs)
         else if oc = OP_drop then Some (pos_next, len, drop_catch len cs)
         else if oc \<in> {OP_nip, OP_nip1} then Some (pos_next, len, drop_catch (len - 1) cs)
         else if oc = OP_iterator_close then Some (pos_next, len, drop_catch (len + 2) cs)
         else if oc = OP_nip_catch then (case cs of [] \<Rightarrow> None | (c, slot) # cs' \<Rightarrow> Some (pos_next, slot + 1, cs'))
         else Some (pos_next, len, cs))"

inductive bc_step :: "u8 list \<Rightarrow> bc_point \<Rightarrow> bc_point \<Rightarrow> bool" for bc where
  jump: "(target, l) \<in> set (bc_jumps bc pos (bc_after bc pos len)) \<Longrightarrow> bc_step bc (pos, len, cs) (target, l, cs)"
| onwards: "bc_next bc pos len (bc_after bc pos len) cs = Some q \<Longrightarrow> bc_step bc (pos, len, cs) q"

inductive_cases bc_step_elim: "bc_step bc (pos, len, cs) q"

text \<open>The points that are reached from the start of the function through executable instructions.\<close>

inductive bc_reach :: "u8 list \<Rightarrow> bc_point \<Rightarrow> bool" for bc where
  start: "bc_reach bc (0, 0, [])"
| step: "bc_reach bc p \<Longrightarrow> bc_ok bc p \<Longrightarrow> bc_step bc p q \<Longrightarrow> bc_reach bc q"

definition bc_verifiable :: "u8 list \<Rightarrow> bool" where
  "bc_verifiable bc \<longleftrightarrow> (\<forall>p. bc_reach bc p \<longrightarrow> bc_ok bc p) \<and>
     (\<forall>pos x y. bc_reach bc (pos, x) \<longrightarrow> bc_reach bc (pos, y) \<longrightarrow> x = y)"

text \<open>The largest depth at or after a reachable instruction.\<close>

definition bc_depth :: "u8 list \<Rightarrow> int \<Rightarrow> bool" where
  "bc_depth bc n \<longleftrightarrow> (\<forall>pos len cs. bc_reach bc (pos, len, cs) \<longrightarrow> len \<le> n \<and> bc_after bc pos len \<le> n) \<and>
     (\<exists>pos len cs. bc_reach bc (pos, len, cs) \<and> (n = len \<or> n = bc_after bc pos len))"

section \<open>The table of instructions\<close>

lemma opcode_sizes: "list_all (\<lambda>oi. 1 \<le> op_size oi \<and> op_size oi \<le> 11 \<and> (op_fmt oi = OP_FMT_npop \<or> op_fmt oi = OP_FMT_npop_u16 \<longrightarrow> 3 \<le> op_size oi)) opcode_info"
  by (simp add: opcode_info_def opcode_tables DEF_def)

lemma short_opcode_info_in: "oc < OP_COUNT \<Longrightarrow> short_opcode_info oc \<in> set opcode_info"
  by (auto simp: short_opcode_info_def intro!: nth_mem)

lemma short_opcode_size:
  assumes "oc < OP_COUNT"
  shows "1 \<le> op_size (short_opcode_info oc)" "op_size (short_opcode_info oc) \<le> 11"
    "op_fmt (short_opcode_info oc) = OP_FMT_npop \<or> op_fmt (short_opcode_info oc) = OP_FMT_npop_u16 \<Longrightarrow>
       3 \<le> op_size (short_opcode_info oc)"
  using opcode_sizes short_opcode_info_in [OF assms] by (auto simp: list_all_iff)

section \<open>The invariant of the exploration\<close>

type_synonym bc_view = "int \<Rightarrow> (int \<times> (int \<times> int) list) option"

text \<open>The catch offsets are recorded at their instructions.\<close>

definition catch_ok :: "u8 list \<Rightarrow> bc_view \<Rightarrow> (int \<times> int) list \<Rightarrow> bool" where
  "catch_ok bc V cs = (case cs of [] \<Rightarrow> True | (p, slot) # cs' \<Rightarrow>
     0 \<le> p \<and> (\<exists>l. V p = Some (l, cs') \<and> slot = l + (if bc_op bc p \<noteq> OP_catch then 1 else 0)))"

definition catch_head :: "(int \<times> int) list \<Rightarrow> int" where
  "catch_head cs = (case cs of [] \<Rightarrow> -1 | (p, slot) # cs' \<Rightarrow> p)"

definition bc_done :: "u8 list \<Rightarrow> bc_view \<Rightarrow> int \<Rightarrow> int \<Rightarrow> bool" where
  "bc_done bc V m p \<longleftrightarrow> (\<forall>l cs. V p = Some (l, cs) \<longrightarrow> bc_ok bc (p, l, cs) \<and> bc_after bc p l \<le> m \<and>
     (\<forall>p' l' cs'. bc_step bc (p, l, cs) (p', l', cs') \<longrightarrow> V p' = Some (l', cs')))"

definition bc_attained :: "u8 list \<Rightarrow> int \<Rightarrow> bool" where
  "bc_attained bc n \<longleftrightarrow> (\<exists>pos len cs. bc_reach bc (pos, len, cs) \<and> (n = len \<or> n = bc_after bc pos len))"

definition ss_entry :: "u8 list \<Rightarrow> StackSizeState \<Rightarrow> bc_view \<Rightarrow> int \<Rightarrow> int \<Rightarrow> (int \<times> int) list \<Rightarrow> bool" where
  "ss_entry bc s V p l cs \<longleftrightarrow> 0 \<le> p \<and> p < int (length bc) \<and> bc_reach bc (p, l, cs) \<and> catch_ok bc V cs \<and> 0 \<le> l \<and>
     l \<le> stack_len_max s \<and> stack_level_tab s ! nat p = word_of_int l \<and> catch_pos_tab s ! nat p = catch_head cs"

text \<open>\<open>V\<close> is what is known of each position; the positions of \<open>X\<close> are being explored.\<close>

definition ss_inv :: "u8 list \<Rightarrow> StackSizeState \<Rightarrow> bc_view \<Rightarrow> int set \<Rightarrow> bool" where
  "ss_inv bc s V X \<longleftrightarrow>
     length (stack_level_tab s) = length bc \<and> length (catch_pos_tab s) = length bc \<and>
     stack_len_max s \<le> JS_STACK_SIZE_MAX \<and> bc_attained bc (stack_len_max s) \<and>
     (\<forall>p l cs. V p = Some (l, cs) \<longrightarrow> ss_entry bc s V p l cs) \<and>
     (\<forall>p. 0 \<le> p \<and> p < int (length bc) \<and> V p = None \<longrightarrow> stack_level_tab s ! nat p = 0xffff) \<and>
     set (pc_stack s) \<subseteq> dom V \<and>
     (\<forall>p\<in>dom V - set (pc_stack s) - X. bc_done bc V (stack_len_max s) p)"

definition ss_todo :: "u8 list \<Rightarrow> StackSizeState \<Rightarrow> bc_view \<Rightarrow> int" where
  "ss_todo bc s V = int (length bc) - int (card (dom V)) + int (length (pc_stack s))"

text \<open>What an error stands for.\<close>

definition ss_rejects :: "u8 list \<Rightarrow> js_error \<Rightarrow> bool" where
  "ss_rejects bc e \<longleftrightarrow> (\<exists>m. e = InternalError m) \<and> \<not> bc_verifiable bc"

lemma ss_rejectsI:
  "bc_reach bc p \<Longrightarrow> \<not> bc_ok bc p \<Longrightarrow> ss_rejects bc (InternalError m)"
  unfolding ss_rejects_def bc_verifiable_def by blast

lemma ss_rejects_conflict:
  "bc_reach bc (p, x) \<Longrightarrow> bc_reach bc (p, y) \<Longrightarrow> x \<noteq> y \<Longrightarrow> ss_rejects bc (InternalError m)"
  unfolding ss_rejects_def bc_verifiable_def by blast

lemma catch_ok_mono: "catch_ok bc V cs \<Longrightarrow> V \<subseteq>\<^sub>m V' \<Longrightarrow> catch_ok bc V' cs"
  by (force simp: catch_ok_def map_le_def dom_def split: list.splits)

lemma catch_ok_eq:
  assumes "catch_ok bc V cs" "catch_ok bc V cs'" "catch_head cs = catch_head cs'"
  shows "cs = cs'"
  using assms by (auto simp: catch_ok_def catch_head_def split: list.splits)

lemma bc_done_mono:
  assumes "bc_done bc V m p" "V \<subseteq>\<^sub>m V'" "m \<le> m'" "p \<in> dom V"
  shows "bc_done bc V' m' p"
  unfolding bc_done_def
proof (intro allI impI)
  fix l cs assume "V' p = Some (l, cs)"
  then have V: "V p = Some (l, cs)" using assms(2,4) by (auto simp: map_le_def)
  have that: "V' p' = Some x" if "V p' = Some x" for p' x using that assms(2) by (force simp: map_le_def dom_def)
  show "bc_ok bc (p, l, cs) \<and> bc_after bc p l \<le> m' \<and>
      (\<forall>p' l' cs'. bc_step bc (p, l, cs) (p', l', cs') \<longrightarrow> V' p' = Some (l', cs'))"
    using assms(1) [unfolded bc_done_def, rule_format, OF V] assms(3) that by simp
qed

lemma ss_entry_mono:
  assumes "ss_entry bc s V p l cs" "V \<subseteq>\<^sub>m V'" "stack_len_max s \<le> stack_len_max s'"
    "stack_level_tab s' ! nat p = stack_level_tab s ! nat p" "catch_pos_tab s' ! nat p = catch_pos_tab s ! nat p"
  shows "ss_entry bc s' V' p l cs"
  using assms catch_ok_mono unfolding ss_entry_def by auto

lemma ss_inv_entry: "ss_inv bc s V X \<Longrightarrow> V p = Some (l, cs) \<Longrightarrow> ss_entry bc s V p l cs"
  unfolding ss_inv_def by blast

lemma ss_inv_done: "ss_inv bc s V X \<Longrightarrow> p \<in> dom V - set (pc_stack s) - X \<Longrightarrow> bc_done bc V (stack_len_max s) p"
  unfolding ss_inv_def by blast

lemma ss_inv_unseen:
  "ss_inv bc s V X \<Longrightarrow> 0 \<le> p \<Longrightarrow> p < int (length bc) \<Longrightarrow> V p = None \<Longrightarrow> stack_level_tab s ! nat p = 0xffff"
  unfolding ss_inv_def by blast

lemma ss_inv_simple:
  "ss_inv bc s V X \<Longrightarrow> length (stack_level_tab s) = length bc \<and> length (catch_pos_tab s) = length bc \<and>
     stack_len_max s \<le> JS_STACK_SIZE_MAX \<and> bc_attained bc (stack_len_max s) \<and> set (pc_stack s) \<subseteq> dom V"
  unfolding ss_inv_def by blast

text \<open>Recording a depth.\<close>

lemma ss_max_spec:
  assumes inv: "ss_inv bc s V X" and reach: "bc_reach bc (p, l, cs)" and n: "n = l \<or> n = bc_after bc p l"
    and bad: "n > JS_STACK_SIZE_MAX \<Longrightarrow> \<not> bc_ok bc (p, l, cs)"
  shows "js_spec (ss_max s n) (\<lambda>s'. ss_inv bc s' V X \<and> s' = s\<lparr>stack_len_max := max (stack_len_max s) n\<rparr>) (ss_rejects bc)"
proof -
  have att: "bc_attained bc n" using reach n by (auto simp: bc_attained_def)
  have "ss_inv bc (s\<lparr>stack_len_max := n\<rparr>) V X" if "n > stack_len_max s" "n \<le> JS_STACK_SIZE_MAX"
    unfolding ss_inv_def
  proof (intro conjI allI impI ballI)
    fix q l cs assume "V q = Some (l, cs)"
    then show "ss_entry bc (s\<lparr>stack_len_max := n\<rparr>) V q l cs"
      by (rule ss_entry_mono [OF ss_inv_entry [OF inv]]) (use that in auto)
  next
    fix q assume "q \<in> dom V - set (pc_stack (s\<lparr>stack_len_max := n\<rparr>)) - X"
    then show "bc_done bc V (stack_len_max (s\<lparr>stack_len_max := n\<rparr>)) q"
      using that(1) by (intro bc_done_mono [OF ss_inv_done [OF inv]]) auto
  next
    fix q assume "0 \<le> q \<and> q < int (length bc) \<and> V q = None"
    then show "stack_level_tab (s\<lparr>stack_len_max := n\<rparr>) ! nat q = 0xffff" using ss_inv_unseen [OF inv] by simp
  qed (use ss_inv_simple [OF inv] that att in auto)
  then show ?thesis
    unfolding ss_max_def using inv ss_rejectsI [OF reach bad]
    by (intro js_spec_if js_spec_throw js_spec_return) (auto simp: max_def)
qed

lemma js_spec_resize_array: "js_spec (js_resize_array e n m) (\<lambda>_. True) E"
  by (auto simp: js_spec_def js_resize_array_def js_realloc_array_def js_return_def Let_def split: list.splits option.splits)

definition pos_range :: "int \<Rightarrow> bool" where
  "pos_range p \<longleftrightarrow> - (2 ^ 31) \<le> p \<and> p < 2 ^ 32"

lemma pos_check:
  assumes "pos_range p" "int n < 2 ^ 31"
  shows "uint (word_of_int p :: u32) \<ge> int n \<longleftrightarrow> \<not> (0 \<le> p \<and> p < int n)"
proof (cases "0 \<le> p")
  case True
  then have "p mod 2 ^ 32 = p" using assms(1) by (intro mod_pos_pos_trivial) (auto simp: pos_range_def)
  then show ?thesis using True by (auto simp: uint_word_of_int)
next
  case False
  have "p mod 2 ^ 32 = (p + 2 ^ 32) mod 2 ^ 32" by simp
  also have "\<dots> = p + 2 ^ 32" using False assms(1) by (intro mod_pos_pos_trivial) (auto simp: pos_range_def)
  finally show ?thesis using False assms by (simp add: uint_word_of_int pos_range_def)
qed

lemma level_word:
  assumes "0 \<le> l" "l \<le> JS_STACK_SIZE_MAX"
  shows "uint (word_of_int l :: u16) = l" "(word_of_int l :: u16) \<noteq> 0xffff"
proof -
  have "l mod 2 ^ 16 = l" using assms by (intro mod_pos_pos_trivial) (auto simp: JS_STACK_SIZE_MAX_def)
  then show u: "uint (word_of_int l :: u16) = l" by (simp add: uint_word_of_int)
  show "(word_of_int l :: u16) \<noteq> 0xffff"
  proof
    assume "(word_of_int l :: u16) = 0xffff"
    then have "uint (word_of_int l :: u16) = 65535" by simp
    then show False using u assms(2) by (simp add: JS_STACK_SIZE_MAX_def)
  qed
qed

lemma ss_inv_dom: "ss_inv bc s V X \<Longrightarrow> dom V \<subseteq> {0..<int (length bc)}"
  by (auto simp: ss_entry_def dest: ss_inv_entry)

lemma ss_inv_finite: "ss_inv bc s V X \<Longrightarrow> finite (dom V)"
  using ss_inv_dom finite_subset finite_atLeastLessThan_int by metis

lemma ss_inv_insert:
  assumes inv: "ss_inv bc s V X" and p: "0 \<le> p" "p < int (length bc)" "V p = None"
    and reach: "bc_reach bc (p, l, cs)" and co: "catch_ok bc V cs" and l: "0 \<le> l" "l \<le> stack_len_max s"
    and s': "s' = s\<lparr>stack_level_tab := (stack_level_tab s)[nat p := word_of_int l],
      catch_pos_tab := (catch_pos_tab s)[nat p := catch_head cs], pc_stack := p # pc_stack s, pc_stack_size := sz\<rparr>"
  shows "ss_inv bc s' (V(p \<mapsto> (l, cs))) X \<and> ss_todo bc s' (V(p \<mapsto> (l, cs))) = ss_todo bc s V"
proof -
  let ?V = "V(p \<mapsto> (l, cs))"
  have le: "V \<subseteq>\<^sub>m ?V" using p(3) by (auto simp: map_le_def)
  note simple = ss_inv_simple [OF inv]
  have "ss_inv bc s' ?V X"
    unfolding ss_inv_def
  proof (intro conjI allI impI ballI)
    fix q m ds assume V: "?V q = Some (m, ds)"
    show "ss_entry bc s' ?V q m ds"
    proof (cases "q = p")
      case True
      then have "m = l" "ds = cs" using V by auto
      with True show ?thesis using p reach l catch_ok_mono [OF co le] simple by (auto simp: ss_entry_def s')
    next
      case False
      then have "V q = Some (m, ds)" using V by simp
      note e = ss_inv_entry [OF inv this]
      then have "nat q \<noteq> nat p" using False p(1) by (auto simp: ss_entry_def)
      with e le show ?thesis by (intro ss_entry_mono [OF e]) (auto simp: s')
    qed
  next
    fix q assume q: "0 \<le> q \<and> q < int (length bc) \<and> ?V q = None"
    then have "q \<noteq> p" "V q = None" by (auto split: if_splits)
    moreover have "nat q \<noteq> nat p" using q p(1) \<open>q \<noteq> p\<close> by auto
    ultimately show "stack_level_tab s' ! nat q = 0xffff" using ss_inv_unseen [OF inv] q by (simp add: s')
  next
    fix q assume "q \<in> dom ?V - set (pc_stack s') - X"
    then have "q \<in> dom V - set (pc_stack s) - X" by (auto simp: s')
    then show "bc_done bc ?V (stack_len_max s') q"
      using le by (intro bc_done_mono [OF ss_inv_done [OF inv]]) (auto simp: s')
  qed (use simple in \<open>auto simp: s'\<close>)
  moreover have "card (dom ?V) = Suc (card (dom V))"
    using ss_inv_finite [OF inv] p(3) by (simp add: domIff)
  ultimately show ?thesis by (simp add: ss_todo_def s')
qed

text \<open>What an operation of the exploration establishes for the points \<open>qs\<close>.\<close>

definition ss_post :: "u8 list \<Rightarrow> StackSizeState \<Rightarrow> bc_view \<Rightarrow> int set \<Rightarrow> bc_point set \<Rightarrow> StackSizeState \<Rightarrow> bc_view \<Rightarrow> bool" where
  "ss_post bc s V X qs s' V' \<longleftrightarrow> ss_inv bc s' V' X \<and> V \<subseteq>\<^sub>m V' \<and> stack_len_max s \<le> stack_len_max s' \<and>
     ss_todo bc s' V' = ss_todo bc s V \<and> (\<forall>p l cs. (p, l, cs) \<in> qs \<longrightarrow> V' p = Some (l, cs))"

lemma ss_check_spec:
  assumes inv: "ss_inv bc s V X" and reach: "bc_reach bc (p, l, cs)" and co: "catch_ok bc V cs" and l: "0 \<le> l"
    and range: "pos_range p" and len: "int (length bc) < 2 ^ 31"
  shows "js_spec (ss_check bc s p l (catch_head cs)) (\<lambda>s'. \<exists>V'. ss_post bc s V X {(p, l, cs)} s' V') (ss_rejects bc)"
proof (cases "0 \<le> p \<and> p < int (length bc)")
  case False
  then have "\<not> bc_ok bc (p, l, cs)" by (auto simp: bc_ok.simps)
  then show ?thesis using pos_check [OF range len] False
    by (simp add: ss_check_def js_spec_throw ss_rejectsI [OF reach])
next
  case True
  then have not_ge: "\<not> uint (word_of_int p :: u32) \<ge> int (length bc)" using pos_check [OF range len] by simp
  have bad: "l > JS_STACK_SIZE_MAX \<Longrightarrow> \<not> bc_ok bc (p, l, cs)" by (auto simp: bc_ok.simps)
  show ?thesis
    unfolding ss_check_def if_not_P [OF not_ge]
  proof (rule js_spec_bind [OF ss_max_spec [OF inv reach _ bad]])
    fix s1 assume s1: "ss_inv bc s1 V X \<and> s1 = s\<lparr>stack_len_max := max (stack_len_max s) l\<rparr>"
    then have inv1: "ss_inv bc s1 V X" and m: "stack_len_max s \<le> stack_len_max s1" "l \<le> stack_len_max s1"
      and todo: "ss_todo bc s1 V = ss_todo bc s V" by (auto simp: ss_todo_def)
    note simple = ss_inv_simple [OF inv1]
    show "js_spec (if stack_level_tab s1 ! nat p \<noteq> 0xffff
          then if uint (stack_level_tab s1 ! nat p) \<noteq> l then js_throw (InternalError ''inconsistent stack size'')
               else if catch_pos_tab s1 ! nat p \<noteq> catch_head cs then js_throw (InternalError ''inconsistent catch position'')
               else js_return s1
          else (let s = s1\<lparr>stack_level_tab := (stack_level_tab s1)[nat p := word_of_int l],
                       catch_pos_tab := (catch_pos_tab s1)[nat p := catch_head cs]\<rparr>
             in js_bind (js_resize_array 4 (pc_stack_size s) (int (length (pc_stack s)) + 1)) (\<lambda>sz.
                  js_return (s\<lparr>pc_stack := p # pc_stack s, pc_stack_size := sz\<rparr>))))
        (\<lambda>s'. \<exists>V'. ss_post bc s V X {(p, l, cs)} s' V') (ss_rejects bc)"
    proof (cases "V p")
      case None
      then have "stack_level_tab s1 ! nat p = 0xffff" using ss_inv_unseen [OF inv1] True by simp
      moreover have "ss_post bc s V X {(p, l, cs)} (s1\<lparr>stack_level_tab := (stack_level_tab s1)[nat p := word_of_int l],
          catch_pos_tab := (catch_pos_tab s1)[nat p := catch_head cs], pc_stack := p # pc_stack s1, pc_stack_size := sz\<rparr>)
          (V(p \<mapsto> (l, cs)))" for sz
        using ss_inv_insert [OF inv1 _ _ None reach co l m(2) refl, of sz] True m(1) todo None
        by (auto simp: ss_post_def map_le_def)
      ultimately show ?thesis
        by (auto simp: Let_def intro!: js_spec_bind [OF js_spec_resize_array] js_spec_return)
    next
      case (Some x)
      obtain l0 cs0 where x: "x = (l0, cs0)" by (cases x)
      note e = ss_inv_entry [OF inv1 Some [unfolded x]]
      then have e': "bc_reach bc (p, l0, cs0)" "catch_ok bc V cs0" "0 \<le> l0" "l0 \<le> JS_STACK_SIZE_MAX"
          "stack_level_tab s1 ! nat p = word_of_int l0" "catch_pos_tab s1 ! nat p = catch_head cs0"
        using simple by (auto simp: ss_entry_def)
      note lw = level_word [OF e'(3,4)]
      show ?thesis
      proof (cases "l0 = l \<and> catch_head cs0 = catch_head cs")
        case True
        then have "cs0 = cs" using catch_ok_eq [OF e'(2) co] by simp
        then have "ss_post bc s V X {(p, l, cs)} s1 V" using True Some x inv1 m todo by (auto simp: ss_post_def)
        then show ?thesis using True e' lw by (auto intro: js_spec_return)
      next
        case False
        then have "ss_rejects bc (InternalError msg)" for msg
          by (intro ss_rejects_conflict [OF reach e'(1)]) auto
        then show ?thesis using False e' lw by (auto intro!: js_spec_throw)
      qed
    qed
  qed simp
qed

section \<open>One instruction\<close>

lemma js_bind_return [simp]: "js_bind (js_return x) f = f x"
  by (simp add: js_bind_def js_return_def fun_eq_iff)

lemma get_u16_eq: "i + 2 \<le> length bc \<Longrightarrow> get_u16 bc i = js_return (bc_u16 bc i)"
  by (simp add: get_u16_def)

lemma get_u32_eq: "i + 4 \<le> length bc \<Longrightarrow> get_u32 bc i = js_return (bc_u32 bc i)"
  by (simp add: get_u32_def)

lemma get_i8_eq: "i < length bc \<Longrightarrow> get_i8 bc i = js_return (bc ! i)"
  by (simp add: get_i8_def)

lemma ss_catch_slot_eq:
  assumes inv: "ss_inv bc s V X" and co: "catch_ok bc V ((p, slot) # cs)"
  shows "ss_catch_slot bc s p = js_return slot" "catch_pos_tab s ! nat p = catch_head cs" "catch_ok bc V cs" "0 \<le> p" "0 \<le> slot"
proof -
  from co obtain l where p: "0 \<le> p" "V p = Some (l, cs)" and slot: "slot = l + (if bc_op bc p \<noteq> OP_catch then 1 else 0)"
    by (auto simp: catch_ok_def)
  note e = ss_inv_entry [OF inv p(2)]
  then have "uint (stack_level_tab s ! nat p) = l" using ss_inv_simple [OF inv] by (auto simp: ss_entry_def level_word)
  then show "ss_catch_slot bc s p = js_return slot" using e slot by (auto simp: ss_catch_slot_def ss_entry_def bc_op_def)
  show "catch_pos_tab s ! nat p = catch_head cs" "catch_ok bc V cs" "0 \<le> p" "0 \<le> slot"
    using e slot by (auto simp: ss_entry_def)
qed

lemma ss_check_catch_eq:
  assumes "ss_inv bc s V X" "catch_ok bc V cs"
  shows "ss_check_catch bc s lev (catch_head cs) = js_return (catch_head (drop_catch lev cs))"
proof (cases cs)
  case Nil
  then show ?thesis by (simp add: ss_check_catch_def catch_head_def drop_catch_def)
next
  case (Cons c cs')
  obtain p slot where c: "c = (p, slot)" by (cases c)
  note e = ss_catch_slot_eq [OF assms(1) assms(2) [unfolded Cons c]]
  show ?thesis using e(4) by (simp add: Cons c ss_check_catch_def catch_head_def drop_catch_def e(1,2) split: list.split)
qed

lemma catch_ok_drop:
  assumes "ss_inv bc s V X" "catch_ok bc V cs"
  shows "catch_ok bc V (drop_catch lev cs)"
proof (cases cs)
  case Nil
  then show ?thesis by (simp add: drop_catch_def catch_ok_def)
next
  case (Cons c cs')
  obtain p slot where c: "c = (p, slot)" by (cases c)
  show ?thesis using ss_catch_slot_eq(3) [OF assms(1) assms(2) [unfolded Cons c]] assms(2)
    by (simp add: Cons c drop_catch_def)
qed

definition insn_post ::
  "u8 list \<Rightarrow> StackSizeState \<Rightarrow> bc_view \<Rightarrow> int \<Rightarrow> int \<Rightarrow> (int \<times> int) list \<Rightarrow> StackSizeState \<times> (int \<times> int \<times> int) option \<Rightarrow> bool" where
  "insn_post bc s V pos len cs = (\<lambda>(s', r). bc_ok bc (pos, len, cs) \<and>
     (\<exists>V'. ss_post bc s V {pos} {(t, l, cs) |t l. (t, l) \<in> set (bc_jumps bc pos (bc_after bc pos len))} s' V' \<and>
        (case bc_next bc pos len (bc_after bc pos len) cs of
           None \<Rightarrow> r = None
         | Some (p2, l2, cs2) \<Rightarrow> r = Some (p2, l2, catch_head cs2) \<and> catch_ok bc V' cs2 \<and> 0 \<le> l2 \<and> pos_range p2)))"

lemma ss_post_refl: "ss_inv bc s V X \<Longrightarrow> ss_post bc s V X {} s V"
  by (simp add: ss_post_def)

lemma insn_post_simple:
  assumes "ss_inv bc s V {pos}" "bc_ok bc (pos, len, cs)" "bc_jumps bc pos (bc_after bc pos len) = []"
    "bc_next bc pos len (bc_after bc pos len) cs = Some (p2, l2, cs2)" "catch_ok bc V cs2" "0 \<le> l2" "pos_range p2" "c2 = catch_head cs2"
  shows "insn_post bc s V pos len cs (s, Some (p2, l2, c2))"
  using assms ss_post_refl [OF assms(1)] by (auto simp: insn_post_def)

lemma insn_post_none:
  assumes "ss_inv bc s V {pos}" "bc_ok bc (pos, len, cs)" "bc_jumps bc pos (bc_after bc pos len) = []"
    "bc_next bc pos len (bc_after bc pos len) cs = None"
  shows "insn_post bc s V pos len cs (s, None)"
  using assms ss_post_refl [OF assms(1)] by (auto simp: insn_post_def)

lemma insn_branch:
  assumes inv: "ss_inv bc s V {pos}" and pt: "V pos = Some (len, cs)" and ok: "bc_ok bc (pos, len, cs)"
    and bl: "int (length bc) < 2 ^ 31"
    and jumps: "bc_jumps bc pos (bc_after bc pos len) = [(t, l)]" and l: "0 \<le> l" and t: "pos_range t"
    and nx: "bc_next bc pos len (bc_after bc pos len) cs = Some (p2, l2, cs2)" and co: "catch_ok bc V cs2"
    and l2: "0 \<le> l2" and p2: "pos_range p2" and c2: "c2 = catch_head cs2"
  shows "js_spec (js_bind (ss_check bc s t l (catch_head cs)) (\<lambda>s. js_return (s, Some (p2, l2, c2))))
    (insn_post bc s V pos len cs) (ss_rejects bc)"
proof -
  note e = ss_inv_entry [OF inv pt]
  then have "bc_reach bc (pos, len, cs)" "catch_ok bc V cs" by (auto simp: ss_entry_def)
  moreover have "bc_step bc (pos, len, cs) (t, l, cs)" by (rule bc_step.jump) (simp add: jumps)
  ultimately have r: "bc_reach bc (t, l, cs)" "catch_ok bc V cs" using ok by (auto intro: bc_reach.step)
  show ?thesis
  proof (rule js_spec_bind [OF ss_check_spec [OF inv r l t bl]], rule js_spec_return)
    fix s' assume "\<exists>V'. ss_post bc s V {pos} {(t, l, cs)} s' V'"
    then obtain V' where V': "ss_post bc s V {pos} {(t, l, cs)} s' V'" ..
    moreover from V' have "catch_ok bc V' cs2" using catch_ok_mono [OF co] by (simp add: ss_post_def)
    moreover have "{(t', l', cs) |t' l'. (t', l') \<in> set (bc_jumps bc pos (bc_after bc pos len))} = {(t, l, cs)}"
      by (auto simp: jumps)
    ultimately show "insn_post bc s V pos len cs (s', Some (p2, l2, c2))"
      using ok nx l2 p2 c2 by (auto simp: insn_post_def)
  qed
qed

lemma sint32_range: "- (2 ^ 31) \<le> sint (w :: u32) \<and> sint w < 2 ^ 31"
  using sint_greater_eq [of w] sint_less [of w] by simp

lemma sint16_range: "- (2 ^ 15) \<le> sint (w :: u16) \<and> sint w < 2 ^ 15"
  using sint_greater_eq [of w] sint_less [of w] by simp

lemma sint8_range: "- (2 ^ 7) \<le> sint (w :: 8 word) \<and> sint w < 2 ^ 7"
  using sint_greater_eq [of w] sint_less [of w] by simp

text \<open>The instruction is complete and has its operands.\<close>

definition insn_pre :: "u8 list \<Rightarrow> StackSizeState \<Rightarrow> bc_view \<Rightarrow> int \<Rightarrow> int \<Rightarrow> (int \<times> int) list \<Rightarrow> bool" where
  "insn_pre bc s V pos len cs \<longleftrightarrow> ss_inv bc s V {pos} \<and> V pos = Some (len, cs) \<and> int (length bc) < 2 ^ 31 \<and> bc_op bc pos \<noteq> 0 \<and>
     bc_op bc pos < OP_COUNT \<and> pos + int (op_size (short_opcode_info (bc_op bc pos))) \<le> int (length bc) \<and>
     bc_pops bc pos \<le> len \<and> bc_after bc pos len \<le> JS_STACK_SIZE_MAX"

definition insn_spec :: "u8 list \<Rightarrow> StackSizeState \<Rightarrow> bc_view \<Rightarrow> int \<Rightarrow> int \<Rightarrow> (int \<times> int) list \<Rightarrow> bool" where
  "insn_spec bc s V pos len cs \<longleftrightarrow> js_spec
     (ss_insn bc s pos (bc_op bc pos) (pos + int (op_size (short_opcode_info (bc_op bc pos)))) (bc_after bc pos len) (catch_head cs))
     (insn_post bc s V pos len cs) (ss_rejects bc)"

lemma insn_preD:
  assumes "insn_pre bc s V pos len cs"
  shows "ss_inv bc s V {pos}" "V pos = Some (len, cs)" "int (length bc) < 2 ^ 31" "catch_ok bc V cs" "0 \<le> pos" "0 \<le> len"
    "pos_range (pos + int (op_size (short_opcode_info (bc_op bc pos))))"
    "int (n_push (short_opcode_info (bc_op bc pos))) \<le> bc_after bc pos len" "0 \<le> bc_after bc pos len"
    "bc_op bc pos = OP_nip_catch \<longrightarrow> cs \<noteq> [] \<Longrightarrow> bc_ok bc (pos, len, cs)"
proof -
  note pre = assms [unfolded insn_pre_def]
  show "ss_inv bc s V {pos}" "V pos = Some (len, cs)" "int (length bc) < 2 ^ 31" using pre by auto
  then have e: "ss_entry bc s V pos len cs" by (auto intro: ss_inv_entry)
  then show "catch_ok bc V cs" "0 \<le> pos" "0 \<le> len" by (auto simp: ss_entry_def)
  then show "pos_range (pos + int (op_size (short_opcode_info (bc_op bc pos))))" using pre by (auto simp: pos_range_def)
  show "int (n_push (short_opcode_info (bc_op bc pos))) \<le> bc_after bc pos len" using pre by (auto simp: bc_after_def)
  then show "0 \<le> bc_after bc pos len" by simp
  have "len \<le> JS_STACK_SIZE_MAX" using e ss_inv_simple [of bc s V "{pos}"] pre by (auto simp: ss_entry_def)
  then show "bc_op bc pos = OP_nip_catch \<longrightarrow> cs \<noteq> [] \<Longrightarrow> bc_ok bc (pos, len, cs)"
    using pre e by (auto simp: bc_ok.simps ss_entry_def)
qed

text \<open>Operands of an instruction that is complete are inside of the bytecode, and targets in the range of positions.\<close>

lemma insn_operand:
  assumes "insn_pre bc s V pos len cs" "k + m \<le> op_size (short_opcode_info (bc_op bc pos))"
  shows "nat (pos + int k) + m \<le> length bc"
  using assms insn_preD(5) [OF assms(1)] by (auto simp: insn_pre_def)

lemma insn_target:
  assumes "insn_pre bc s V pos len cs" "k \<le> op_size (short_opcode_info (bc_op bc pos))" "- (2 ^ 31) \<le> d" "d < 2 ^ 31"
  shows "pos_range (pos + int k + d)"
  using assms insn_preD(5) [OF assms(1)] by (auto simp: insn_pre_def pos_range_def)

lemma insn_spec_ret:
  assumes pre: "insn_pre bc s V pos len cs"
    and oc: "bc_op bc pos \<in> {OP_tail_call, OP_tail_call_method, OP_return, OP_return_undef, OP_return_async, OP_throw, OP_throw_error, OP_ret}"
  shows "insn_spec bc s V pos len cs"
proof -
  have "bc_ok bc (pos, len, cs)" by (rule insn_preD(10) [OF pre]) (use oc in \<open>auto simp: opcode_defs\<close>)
  moreover have "bc_jumps bc pos l = []" "bc_next bc pos len l cs = None" for l
    using oc by (auto simp: bc_jumps_def bc_next_def opcode_defs)
  ultimately have "insn_post bc s V pos len cs (s, None)" by (intro insn_post_none [OF insn_preD(1) [OF pre]]) auto
  moreover have "ss_insn bc s pos (bc_op bc pos) p2 l c = js_return (s, None)" for p2 l c
    using oc by (auto simp: ss_insn_def)
  ultimately show ?thesis by (simp add: insn_spec_def js_spec_return)
qed

lemma insn_spec_goto:
  assumes pre: "insn_pre bc s V pos len cs" and oc: "bc_op bc pos \<in> {OP_goto, OP_goto16, OP_goto8}"
  shows "insn_spec bc s V pos len cs"
proof -
  have ok: "bc_ok bc (pos, len, cs)" by (rule insn_preD(10) [OF pre]) (use oc in \<open>auto simp: opcode_defs\<close>)
  have jumps: "bc_jumps bc pos l = []" for l using oc by (auto simp: bc_jumps_def opcode_defs)
  note b = insn_operand [OF pre, of 1] and t = insn_target [OF pre, of 1]
  from oc obtain d where i: "ss_insn bc s pos (bc_op bc pos) p2 l c = js_return (s, Some (pos + 1 + d, l, c))"
    "bc_next bc pos len l cs = Some (pos + 1 + d, l, cs)" "- (2 ^ 31) \<le> d" "d < 2 ^ 31" for p2 l c
  proof (elim insertE)
    assume oc: "bc_op bc pos = OP_goto"
    then have "nat (pos + 1) + 4 \<le> length bc" using b [of 4] by (simp add: DEF_def)
    with oc that [of "sint (bc_u32 bc (nat (pos + 1)))"] show thesis
      using sint32_range [of "bc_u32 bc (nat (pos + 1))"] by (simp add: ss_insn_def bc_next_def opcode_defs get_u32_eq)
  next
    assume oc: "bc_op bc pos = OP_goto16"
    then have "nat (pos + 1) + 2 \<le> length bc" using b [of 2] by (simp add: DEF_def)
    with oc that [of "sint (bc_u16 bc (nat (pos + 1)))"] show thesis
      using sint16_range [of "bc_u16 bc (nat (pos + 1))"] by (simp add: ss_insn_def bc_next_def opcode_defs get_u16_eq)
  next
    assume oc: "bc_op bc pos = OP_goto8"
    then have "nat (pos + 1) < length bc" using b [of 1] by (simp add: DEF_def)
    with oc that [of "sint (bc ! nat (pos + 1))"] show thesis
      using sint8_range [of "bc ! nat (pos + 1)"] by (simp add: ss_insn_def bc_next_def opcode_defs get_i8_eq)
  qed simp
  have "pos_range (pos + 1 + d)" using t [OF _ i(3,4)] oc by (auto simp: DEF_def)
  then show ?thesis unfolding insn_spec_def i(1)
    by (intro js_spec_return insn_post_simple [OF insn_preD(1) [OF pre] ok jumps i(2) insn_preD(4) [OF pre] insn_preD(9) [OF pre]]) auto
qed

lemma insn_spec_branch:
  assumes pre: "insn_pre bc s V pos len cs"
    and oc: "bc_op bc pos \<in> {OP_if_true8, OP_if_false8, OP_if_true, OP_if_false, OP_gosub}"
  shows "insn_spec bc s V pos len cs"
proof -
  have ok: "bc_ok bc (pos, len, cs)" by (rule insn_preD(10) [OF pre]) (use oc in \<open>auto simp: opcode_defs\<close>)
  let ?p2 = "pos + int (op_size (short_opcode_info (bc_op bc pos)))"
  have nx: "bc_next bc pos len l cs = Some (?p2, l, cs)" for l using oc by (auto simp: bc_next_def opcode_defs)
  note b = insn_operand [OF pre, of 1] and t = insn_target [OF pre, of 1]
  from oc obtain d k where i: "ss_insn bc s pos (bc_op bc pos) p2 l c =
      js_bind (ss_check bc s (pos + 1 + d) (l + k) c) (\<lambda>s. js_return (s, Some (p2, l, c)))"
    "bc_jumps bc pos l = [(pos + 1 + d, l + k)]" "- (2 ^ 31) \<le> d" "d < 2 ^ 31" "0 \<le> k" for p2 l c
  proof (cases "bc_op bc pos \<in> {OP_if_true8, OP_if_false8}")
    case True
    then have "nat (pos + 1) < length bc" using b [of 1] by (auto simp: DEF_def)
    with True that [of "sint (bc ! nat (pos + 1))" 0] show thesis
      using sint8_range [of "bc ! nat (pos + 1)"] by (auto simp: ss_insn_def bc_jumps_def opcode_defs get_i8_eq)
  next
    case False
    then have "nat (pos + 1) + 4 \<le> length bc" using b [of 4] oc by (auto simp: DEF_def)
    with False oc that [of "sint (bc_u32 bc (nat (pos + 1)))" "if bc_op bc pos = OP_gosub then 1 else 0"] show thesis
      using sint32_range [of "bc_u32 bc (nat (pos + 1))"] by (auto simp: ss_insn_def bc_jumps_def opcode_defs get_u32_eq)
  qed
  have "pos_range (pos + 1 + d)" using t [OF _ i(3,4)] oc by (auto simp: DEF_def)
  then show ?thesis unfolding insn_spec_def i(1)
    using insn_branch [OF insn_preD(1-2) [OF pre] ok insn_preD(3) [OF pre] i(2) _ _ nx insn_preD(4) [OF pre]
        insn_preD(9) [OF pre] insn_preD(7) [OF pre] refl] insn_preD(9) [OF pre] i(5) by simp
qed

lemma insn_spec_with:
  assumes pre: "insn_pre bc s V pos len cs"
    and oc: "bc_op bc pos \<in> {OP_with_get_var, OP_with_delete_var, OP_with_make_ref, OP_with_get_ref, OP_with_put_var}"
  shows "insn_spec bc s V pos len cs"
proof -
  have ok: "bc_ok bc (pos, len, cs)" by (rule insn_preD(10) [OF pre]) (use oc in \<open>auto simp: opcode_defs\<close>)
  let ?p2 = "pos + int (op_size (short_opcode_info (bc_op bc pos)))" and ?d = "sint (bc_u32 bc (nat (pos + 5)))"
  have nx: "bc_next bc pos len l cs = Some (?p2, l, cs)" for l using oc by (auto simp: bc_next_def opcode_defs)
  have b: "nat (pos + 5) + 4 \<le> length bc" using insn_operand [OF pre, of 5 4] oc by (auto simp: DEF_def)
  define k :: int where "k = (if bc_op bc pos \<in> {OP_with_get_var, OP_with_delete_var} then 1
    else if bc_op bc pos = OP_with_put_var then -1 else 2)"
  have i: "ss_insn bc s pos (bc_op bc pos) p2 l c =
      js_bind (ss_check bc s (pos + 5 + ?d) (l + k) c) (\<lambda>s. js_return (s, Some (p2, l, c)))"
    "bc_jumps bc pos l = [(pos + 5 + ?d, l + k)]" for p2 l c
    using oc by (auto simp: k_def ss_insn_def bc_jumps_def opcode_defs get_u32_eq [OF b])
  have "pos_range (pos + 5 + ?d)"
    using insn_target [OF pre, of 5 ?d] sint32_range [of "bc_u32 bc (nat (pos + 5))"] oc by (auto simp: DEF_def)
  moreover have "0 \<le> bc_after bc pos len + k"
  proof (cases "bc_op bc pos = OP_with_put_var")
    case True
    then show ?thesis using insn_preD(8) [OF pre] by (auto simp: k_def DEF_def)
  qed (use insn_preD(9) [OF pre] in \<open>auto simp: k_def\<close>)
  ultimately show ?thesis unfolding insn_spec_def i(1)
    by (intro insn_branch [OF insn_preD(1-2) [OF pre] ok insn_preD(3) [OF pre] i(2) _ _ nx insn_preD(4) [OF pre]
        insn_preD(9) [OF pre] insn_preD(7) [OF pre] refl])
qed

lemma insn_spec_catch:
  assumes pre: "insn_pre bc s V pos len cs" and oc: "bc_op bc pos = OP_catch"
  shows "insn_spec bc s V pos len cs"
proof -
  have ok: "bc_ok bc (pos, len, cs)" by (rule insn_preD(10) [OF pre]) (use oc in \<open>auto simp: opcode_defs\<close>)
  let ?p2 = "pos + int (op_size (short_opcode_info (bc_op bc pos)))" and ?d = "sint (bc_u32 bc (nat (pos + 1)))"
  have nx: "bc_next bc pos len l cs = Some (?p2, l, (pos, len) # cs)" for l using oc by (auto simp: bc_next_def opcode_defs)
  have b: "nat (pos + 1) + 4 \<le> length bc" using insn_operand [OF pre, of 1 4] oc by (auto simp: DEF_def)
  have i: "ss_insn bc s pos (bc_op bc pos) p2 l c =
      js_bind (ss_check bc s (pos + 1 + ?d) l c) (\<lambda>s. js_return (s, Some (p2, l, pos)))"
    "bc_jumps bc pos l = [(pos + 1 + ?d, l)]" for p2 l c
    using oc by (auto simp: ss_insn_def bc_jumps_def opcode_defs get_u32_eq [OF b])
  have "pos_range (pos + 1 + ?d)"
    using insn_target [OF pre, of 1 ?d] sint32_range [of "bc_u32 bc (nat (pos + 1))"] oc by (auto simp: DEF_def)
  moreover have "catch_ok bc V ((pos, len) # cs)" using insn_preD(2,5) [OF pre] oc by (simp add: catch_ok_def)
  ultimately show ?thesis unfolding insn_spec_def i(1)
    by (intro insn_branch [OF insn_preD(1-2) [OF pre] ok insn_preD(3) [OF pre] i(2) insn_preD(9) [OF pre] _ nx _
        insn_preD(9) [OF pre] insn_preD(7) [OF pre]]) (simp_all add: catch_head_def)
qed

lemma insn_spec_pop:
  assumes pre: "insn_pre bc s V pos len cs"
    and oc: "bc_op bc pos \<in> {OP_for_of_start, OP_for_await_of_start, OP_drop, OP_nip, OP_nip1, OP_iterator_close}"
  shows "insn_spec bc s V pos len cs"
proof -
  have ok: "bc_ok bc (pos, len, cs)" by (rule insn_preD(10) [OF pre]) (use oc in \<open>auto simp: opcode_defs\<close>)
  have jumps: "bc_jumps bc pos l = []" for l using oc by (auto simp: bc_jumps_def opcode_defs)
  let ?p2 = "pos + int (op_size (short_opcode_info (bc_op bc pos)))"
  note e = ss_check_catch_eq [OF insn_preD(1) [OF pre] insn_preD(4) [OF pre]] and d = catch_ok_drop [OF insn_preD(1) [OF pre] insn_preD(4) [OF pre]]
  have c1: "catch_ok bc V ((pos, len + 1) # cs)" if "bc_op bc pos \<noteq> OP_catch"
    using insn_preD(2,5) [OF pre] that by (simp add: catch_ok_def)
  from oc obtain cs2 where i: "ss_insn bc s pos (bc_op bc pos) p2 (bc_after bc pos len) (catch_head cs) =
      js_return (s, Some (p2, bc_after bc pos len, catch_head cs2))"
    "bc_next bc pos len (bc_after bc pos len) cs = Some (?p2, bc_after bc pos len, cs2)" "catch_ok bc V cs2" for p2
  proof (cases "bc_op bc pos \<in> {OP_for_of_start, OP_for_await_of_start}")
    case True
    then have "catch_ok bc V ((pos, len + 1) # cs)" using c1 by (auto simp: opcode_defs)
    then show thesis using that [of "(pos, len + 1) # cs"] True
      by (auto simp: ss_insn_def bc_next_def opcode_defs catch_head_def)
  next
    case False
    let ?lev = "if bc_op bc pos = OP_drop then bc_after bc pos len
      else if bc_op bc pos = OP_iterator_close then bc_after bc pos len + 2 else bc_after bc pos len - 1"
    show thesis using that [of "drop_catch ?lev cs"] False oc d
      by (auto simp: ss_insn_def bc_next_def opcode_defs e)
  qed
  then show ?thesis unfolding insn_spec_def i(1)
    by (intro js_spec_return insn_post_simple [OF insn_preD(1) [OF pre] ok jumps i(2,3) insn_preD(9) [OF pre]
        insn_preD(7) [OF pre] refl])
qed

lemma insn_spec_nip_catch:
  assumes pre: "insn_pre bc s V pos len cs" and oc: "bc_op bc pos = OP_nip_catch"
  shows "insn_spec bc s V pos len cs"
proof (cases cs)
  case Nil
  have "bc_reach bc (pos, len, cs)" using ss_inv_entry [OF insn_preD(1) [OF pre] insn_preD(2) [OF pre]] by (simp add: ss_entry_def)
  moreover have "\<not> bc_ok bc (pos, len, cs)" using oc Nil by (simp add: bc_ok.simps)
  ultimately have "ss_rejects bc (InternalError m)" for m by (rule ss_rejectsI)
  then show ?thesis using oc Nil by (simp add: insn_spec_def ss_insn_def opcode_defs catch_head_def js_spec_throw)
next
  case (Cons c cs2)
  obtain p slot where c: "c = (p, slot)" by (cases c)
  have ok: "bc_ok bc (pos, len, cs)" by (rule insn_preD(10) [OF pre]) (use Cons in simp)
  have jumps: "bc_jumps bc pos l = []" for l using oc by (auto simp: bc_jumps_def opcode_defs)
  let ?p2 = "pos + int (op_size (short_opcode_info (bc_op bc pos)))"
  note e = ss_catch_slot_eq [OF insn_preD(1) [OF pre] insn_preD(4) [OF pre, unfolded Cons c]]
  have nx: "bc_next bc pos len l cs = Some (?p2, slot + 1, cs2)" for l using oc by (simp add: bc_next_def opcode_defs Cons c)
  have i: "ss_insn bc s pos (bc_op bc pos) p2 l (catch_head cs) = js_return (s, Some (p2, slot + 1, catch_head cs2))" for p2 l
    using oc e by (simp add: ss_insn_def opcode_defs Cons c catch_head_def [of "(p, slot) # cs2"])
  show ?thesis unfolding insn_spec_def i
    by (intro js_spec_return insn_post_simple [OF insn_preD(1) [OF pre] ok jumps nx e(3) _ insn_preD(7) [OF pre] refl])
      (use e(5) in simp)
qed

lemma insn_spec_other:
  assumes pre: "insn_pre bc s V pos len cs"
    and oc: "bc_op bc pos \<notin> {OP_tail_call, OP_tail_call_method, OP_return, OP_return_undef, OP_return_async, OP_throw,
      OP_throw_error, OP_ret, OP_goto, OP_goto16, OP_goto8, OP_if_true8, OP_if_false8, OP_if_true, OP_if_false, OP_gosub,
      OP_with_get_var, OP_with_delete_var, OP_with_make_ref, OP_with_get_ref, OP_with_put_var, OP_catch,
      OP_for_of_start, OP_for_await_of_start, OP_drop, OP_nip, OP_nip1, OP_iterator_close, OP_nip_catch}"
  shows "insn_spec bc s V pos len cs"
proof -
  have ok: "bc_ok bc (pos, len, cs)" by (rule insn_preD(10) [OF pre]) (use oc in simp)
  let ?p2 = "pos + int (op_size (short_opcode_info (bc_op bc pos)))"
  have "bc_jumps bc pos l = []" "bc_next bc pos len l cs = Some (?p2, l, cs)"
    "ss_insn bc s pos (bc_op bc pos) p2 l c = js_return (s, Some (p2, l, c))" for p2 l c
    using oc by (auto simp: bc_jumps_def bc_next_def ss_insn_def)
  note i = this
  show ?thesis unfolding insn_spec_def i(3)
    by (intro js_spec_return insn_post_simple [OF insn_preD(1) [OF pre] ok i(1,2) insn_preD(4) [OF pre] insn_preD(9) [OF pre]
        insn_preD(7) [OF pre] refl])
qed

lemma ss_insn_spec:
  assumes pre: "insn_pre bc s V pos len cs"
  shows "insn_spec bc s V pos len cs"
  using insn_spec_ret [OF pre] insn_spec_goto [OF pre] insn_spec_branch [OF pre] insn_spec_with [OF pre]
    insn_spec_catch [OF pre] insn_spec_pop [OF pre] insn_spec_nip_catch [OF pre] insn_spec_other [OF pre]
  by blast

section \<open>The exploration\<close>

lemma ss_n_pop_spec:
  assumes "bc_op bc pos < OP_COUNT" "0 \<le> pos" "pos + int (op_size (short_opcode_info (bc_op bc pos))) \<le> int (length bc)"
  shows "ss_n_pop bc pos (bc_op bc pos) = js_return (bc_pops bc pos)"
proof -
  have "nat (pos + 1) + 2 \<le> length bc"
    if "op_fmt (short_opcode_info (bc_op bc pos)) = OP_FMT_npop \<or> op_fmt (short_opcode_info (bc_op bc pos)) = OP_FMT_npop_u16"
    using short_opcode_size(3) [OF assms(1) that] assms(2,3) by simp
  then show ?thesis by (auto simp: ss_n_pop_def bc_pops_def get_u16_eq Let_def)
qed

lemma ss_inv_close:
  assumes "ss_inv bc s V {pos}" "bc_done bc V (stack_len_max s) pos"
  shows "ss_inv bc s V {}"
  using assms unfolding ss_inv_def by blast

lemma bc_done_intro:
  assumes V: "V' pos = Some (len, cs)" and ok: "bc_ok bc (pos, len, cs)" and m: "bc_after bc pos len \<le> m"
    and jumps: "\<forall>t l. (t, l) \<in> set (bc_jumps bc pos (bc_after bc pos len)) \<longrightarrow> V' t = Some (l, cs)"
    and nx: "\<forall>p l ds. bc_next bc pos len (bc_after bc pos len) cs = Some (p, l, ds) \<longrightarrow> V' p = Some (l, ds)"
  shows "bc_done bc V' m pos"
  unfolding bc_done_def
proof (intro allI impI conjI)
  fix l ds assume "V' pos = Some (l, ds)"
  then have eq: "l = len" "ds = cs" using V by auto
  then show "bc_ok bc (pos, l, ds)" "bc_after bc pos l \<le> m" using ok m by auto
  fix p' l' cs' assume "bc_step bc (pos, l, ds) (p', l', cs')"
  then show "V' p' = Some (l', cs')"
    unfolding eq by (rule bc_step_elim) (use jumps nx in auto)
qed

lemma insn_post_explore:
  assumes post: "insn_post bc s V pos len cs (s2, r)" and pt: "V pos = Some (len, cs)" and reach: "bc_reach bc (pos, len, cs)"
    and m: "bc_after bc pos len \<le> stack_len_max s" and bl: "int (length bc) < 2 ^ 31"
  shows "js_spec (case r of None \<Rightarrow> js_return s2 | Some (p2, l2, c2) \<Rightarrow> ss_check bc s2 p2 l2 c2)
    (\<lambda>s'. \<exists>V'. ss_inv bc s' V' {} \<and> V \<subseteq>\<^sub>m V' \<and> ss_todo bc s' V' = ss_todo bc s V) (ss_rejects bc)"
proof -
  from post obtain V1 where ok: "bc_ok bc (pos, len, cs)" and p1: "ss_post bc s V {pos}
        {(t, l, cs) |t l. (t, l) \<in> set (bc_jumps bc pos (bc_after bc pos len))} s2 V1"
    and nx: "case bc_next bc pos len (bc_after bc pos len) cs of None \<Rightarrow> r = None
         | Some (p2, l2, cs2) \<Rightarrow> r = Some (p2, l2, catch_head cs2) \<and> catch_ok bc V1 cs2 \<and> 0 \<le> l2 \<and> pos_range p2"
    by (auto simp: insn_post_def)
  from p1 have inv1: "ss_inv bc s2 V1 {pos}" and le: "V \<subseteq>\<^sub>m V1" and m1: "stack_len_max s \<le> stack_len_max s2"
    and todo: "ss_todo bc s2 V1 = ss_todo bc s V"
    and jumps: "\<forall>t l. (t, l) \<in> set (bc_jumps bc pos (bc_after bc pos len)) \<longrightarrow> V1 t = Some (l, cs)"
    by (auto simp: ss_post_def)
  have pt1: "V1 pos = Some (len, cs)" using le pt by (force simp: map_le_def dom_def)
  show ?thesis
  proof (cases "bc_next bc pos len (bc_after bc pos len) cs")
    case None
    then have "bc_done bc V1 (stack_len_max s2) pos"
      using m m1 by (intro bc_done_intro [OF pt1 ok _ jumps]) auto
    then show ?thesis using None nx ss_inv_close [OF inv1] le todo by (auto intro!: js_spec_return)
  next
    case (Some q)
    obtain p2 l2 cs2 where q: "q = (p2, l2, cs2)" by (cases q)
    with Some nx have r: "r = Some (p2, l2, catch_head cs2)" "catch_ok bc V1 cs2" "0 \<le> l2" "pos_range p2" by auto
    have "bc_reach bc (p2, l2, cs2)" by (rule bc_reach.step [OF reach ok]) (rule bc_step.onwards, simp add: Some q)
    note c = ss_check_spec [OF inv1 this r(2-4) bl]
    show ?thesis unfolding r(1) option.case prod.case
    proof (rule js_spec_conseq [OF c])
      fix s' assume "\<exists>V'. ss_post bc s2 V1 {pos} {(p2, l2, cs2)} s' V'"
      then obtain V' where V': "ss_inv bc s' V' {pos}" "V1 \<subseteq>\<^sub>m V'" "stack_len_max s2 \<le> stack_len_max s'"
        "ss_todo bc s' V' = ss_todo bc s2 V1" "V' p2 = Some (l2, cs2)" by (auto simp: ss_post_def)
      have up: "V' t = Some x" if "V1 t = Some x" for t x using that V'(2) by (force simp: map_le_def dom_def)
      have "bc_done bc V' (stack_len_max s') pos"
        using m m1 V'(3,5) jumps up by (intro bc_done_intro [where V' = V', OF up [OF pt1] ok]) (auto simp: Some q)
      then have "ss_inv bc s' V' {}" by (rule ss_inv_close [OF V'(1)])
      then show "\<exists>V'. ss_inv bc s' V' {} \<and> V \<subseteq>\<^sub>m V' \<and> ss_todo bc s' V' = ss_todo bc s V"
        using map_le_trans [OF le V'(2)] V'(4) todo by auto
    qed
  qed
qed

lemma ss_explore_spec:
  assumes inv0: "ss_inv bc s0 V {}" and st: "pc_stack s0 = pos # ps" and bl: "int (length bc) < 2 ^ 31"
  shows "js_spec (ss_explore bc (s0\<lparr>pc_stack := ps\<rparr>) pos)
    (\<lambda>s'. \<exists>V'. ss_inv bc s' V' {} \<and> V \<subseteq>\<^sub>m V' \<and> ss_todo bc s' V' + 1 = ss_todo bc s0 V) (ss_rejects bc)"
proof -
  let ?s = "s0\<lparr>pc_stack := ps\<rparr>"
  from inv0 have inv: "ss_inv bc ?s V {pos}" by (auto simp: ss_inv_def st ss_entry_def)
  from inv0 st obtain len cs where pt: "V pos = Some (len, cs)" by (auto simp: ss_inv_def)
  note e = ss_inv_entry [OF inv pt]
  then have reach: "bc_reach bc (pos, len, cs)" and pos: "0 \<le> pos" "pos < int (length bc)"
    and tabs: "uint (stack_level_tab s0 ! nat pos) = len" "catch_pos_tab s0 ! nat pos = catch_head cs"
    using ss_inv_simple [OF inv] by (auto simp: ss_entry_def level_word)
  let ?oc = "bc_op bc pos" and ?a = "bc_after bc pos len"
  let ?p2 = "pos + int (op_size (short_opcode_info ?oc))"
  note reject = ss_rejectsI [OF reach]
  show ?thesis
  proof (cases "?oc = 0 \<or> ?oc \<ge> OP_COUNT \<or> ?p2 > int (length bc)")
    case True
    then have "\<not> bc_ok bc (pos, len, cs)" by (auto simp: bc_ok.simps)
    with True reject show ?thesis by (auto simp: ss_explore_def bc_op_def [symmetric] Let_def intro!: js_spec_throw)
  next
    case False
    then have oc: "?oc \<noteq> 0" "?oc < OP_COUNT" "?p2 \<le> int (length bc)" by auto
    note n = ss_n_pop_spec [OF oc(2) pos(1) oc(3)]
    have i: "ss_explore bc ?s pos =
        (if len < bc_pops bc pos then js_throw (InternalError ''stack underflow'')
         else js_bind (ss_max ?s ?a) (\<lambda>s. js_bind (ss_insn bc s pos ?oc ?p2 ?a (catch_head cs)) (\<lambda>(s, r).
                case r of None \<Rightarrow> js_return s | Some (p2, l2, c2) \<Rightarrow> ss_check bc s p2 l2 c2)))"
      using oc by (simp add: ss_explore_def bc_op_def [symmetric] tabs n bc_after_def Let_def del: opcode_counts)
    show ?thesis
    proof (cases "len < bc_pops bc pos")
      case True
      then have "\<not> bc_ok bc (pos, len, cs)" by (auto simp: bc_ok.simps)
      with True reject show ?thesis by (simp add: i js_spec_throw)
    next
      case False
      have bad: "?a > JS_STACK_SIZE_MAX \<Longrightarrow> \<not> bc_ok bc (pos, len, cs)" by (auto simp: bc_ok.simps)
      show ?thesis unfolding i if_not_P [OF False]
      proof (rule js_spec_bind [OF ss_max_spec [OF inv reach _ bad]])
        fix s assume s: "ss_inv bc s V {pos} \<and> s = ?s\<lparr>stack_len_max := max (stack_len_max ?s) ?a\<rparr>"
        then have m: "?a \<le> stack_len_max s" and todo: "ss_todo bc s V + 1 = ss_todo bc s0 V" by (auto simp: ss_todo_def st)
        then have "insn_pre bc s V pos len cs"
          using s pt bl oc False ss_inv_simple [of bc s V "{pos}"] by (auto simp: insn_pre_def)
        note insn = ss_insn_spec [OF this, unfolded insn_spec_def]
        show "js_spec (js_bind (ss_insn bc s pos ?oc ?p2 ?a (catch_head cs)) (\<lambda>(s, r).
                case r of None \<Rightarrow> js_return s | Some (p2, l2, c2) \<Rightarrow> ss_check bc s p2 l2 c2))
            (\<lambda>s'. \<exists>V'. ss_inv bc s' V' {} \<and> V \<subseteq>\<^sub>m V' \<and> ss_todo bc s' V' + 1 = ss_todo bc s0 V) (ss_rejects bc)"
        proof (rule js_spec_bind [OF insn])
          fix x assume x: "insn_post bc s V pos len cs x"
          obtain s2 r where sr: "x = (s2, r)" by (cases x)
          show "js_spec ((\<lambda>(s, r). case r of None \<Rightarrow> js_return s | Some (p2, l2, c2) \<Rightarrow> ss_check bc s p2 l2 c2) x)
            (\<lambda>s'. \<exists>V'. ss_inv bc s' V' {} \<and> V \<subseteq>\<^sub>m V' \<and> ss_todo bc s' V' + 1 = ss_todo bc s0 V) (ss_rejects bc)"
            unfolding sr prod.case
            by (rule js_spec_conseq [OF insn_post_explore [where V = V, OF x [unfolded sr] pt reach m bl]]) (use todo in auto)
        qed
      qed simp
    qed
  qed
qed

lemma compute_stack_loop_spec:
  assumes "ss_inv bc s V {}" "ss_todo bc s V \<le> int fuel" "int (length bc) < 2 ^ 31"
  shows "js_spec (compute_stack_loop bc s fuel) (\<lambda>s'. \<exists>V'. ss_inv bc s' V' {} \<and> V \<subseteq>\<^sub>m V' \<and> pc_stack s' = []) (ss_rejects bc)"
  using assms
proof (induction fuel arbitrary: s V)
  case 0
  have "card (dom V) \<le> length bc" using card_mono [OF _ ss_inv_dom [OF 0(1)]] by simp
  then have "int (length (pc_stack s)) \<le> 0" using 0(2) unfolding ss_todo_def by linarith
  then have "pc_stack s = []" by simp
  then show ?case using 0(1) by (auto simp: compute_stack_loop.simps [of bc s 0] intro!: js_spec_return)
next
  case (Suc fuel)
  show ?case
  proof (cases "pc_stack s")
    case Nil
    then show ?thesis using Suc.prems(1) by (auto simp: compute_stack_loop.simps [of bc s "Suc fuel"] intro!: js_spec_return)
  next
    case (Cons pos ps)
    have i: "compute_stack_loop bc s (Suc fuel) =
        js_bind (ss_explore bc (s\<lparr>pc_stack := ps\<rparr>) pos) (\<lambda>s. compute_stack_loop bc s fuel)"
      by (simp add: compute_stack_loop.simps [of bc s "Suc fuel"] Cons)
    show ?thesis unfolding i
    proof (rule js_spec_bind [OF ss_explore_spec [OF Suc.prems(1) Cons Suc.prems(3)]])
      fix s' assume "\<exists>V'. ss_inv bc s' V' {} \<and> V \<subseteq>\<^sub>m V' \<and> ss_todo bc s' V' + 1 = ss_todo bc s V"
      then obtain V' where V': "ss_inv bc s' V' {}" "V \<subseteq>\<^sub>m V'" "ss_todo bc s' V' + 1 = ss_todo bc s V" by blast
      then have "ss_todo bc s' V' \<le> int fuel" using Suc.prems(2) by simp
      from Suc.IH [OF V'(1) this Suc.prems(3)]
      show "js_spec (compute_stack_loop bc s' fuel) (\<lambda>s'. \<exists>V'. ss_inv bc s' V' {} \<and> V \<subseteq>\<^sub>m V' \<and> pc_stack s' = []) (ss_rejects bc)"
        by (rule js_spec_conseq) (use V'(2) map_le_trans in blast)
    qed
  qed
qed

lemma explored_reach:
  assumes inv: "ss_inv bc s V {}" and fin: "pc_stack s = []" and V0: "V 0 = Some (0, [])"
  shows "bc_reach bc q \<Longrightarrow> case q of (p, l, cs) \<Rightarrow> V p = Some (l, cs)"
proof (induction rule: bc_reach.induct)
  case (step p q)
  obtain pos len cs where p: "p = (pos, len, cs)" by (cases p)
  obtain pos' len' cs' where q: "q = (pos', len', cs')" by (cases q)
  have V: "V pos = Some (len, cs)" using step.IH by (simp add: p)
  then have "bc_done bc V (stack_len_max s) pos" by (intro ss_inv_done [OF inv]) (auto simp: fin)
  then show ?case using V step.hyps(3) unfolding bc_done_def p q by simp
qed (simp add: V0)

lemma explored_verifiable:
  assumes inv: "ss_inv bc s V {}" and fin: "pc_stack s = []" and V0: "V 0 = Some (0, [])"
  shows "bc_verifiable bc" "bc_depth bc (stack_len_max s)"
proof -
  note r = explored_reach [OF assms]
  have d: "bc_done bc V (stack_len_max s) p" if "V p = Some x" for p x
    using that by (intro ss_inv_done [OF inv]) (auto simp: fin)
  have V: "V pos = Some (len, cs)" if "bc_reach bc (pos, len, cs)" for pos len cs using r [OF that] by simp
  have ok: "bc_ok bc (pos, len, cs) \<and> bc_after bc pos len \<le> stack_len_max s" if "bc_reach bc (pos, len, cs)" for pos len cs
    using V [OF that] d [OF V [OF that]] unfolding bc_done_def by blast
  have uniq: "x = y" if "bc_reach bc (pos, x)" "bc_reach bc (pos, y)" for pos x y
    using V [of pos "fst x" "snd x"] V [of pos "fst y" "snd y"] that by (simp add: prod_eq_iff)
  show "bc_verifiable bc" unfolding bc_verifiable_def using ok uniq by force
  have "len \<le> stack_len_max s" if "bc_reach bc (pos, len, cs)" for pos len cs
    using ss_inv_entry [OF inv V [OF that]] by (simp add: ss_entry_def)
  then show "bc_depth bc (stack_len_max s)"
    using ok ss_inv_simple [OF inv] unfolding bc_depth_def bc_attained_def by blast
qed

text \<open>C3: the verifier always ends, reads nothing outside of the bytecode, and accepts exactly the code in which
  every instruction that can be reached is valid and complete, finds its operands on the stack, stays within the
  limit of the stack, and is reached with a single depth and nesting of catch offsets; its result is then the
  largest depth that occurs.\<close>

theorem compute_stack_size_correct:
  assumes "int (length bc) < 2 ^ 31"
  shows "case fst (compute_stack_size bc mem) of
      Inr n \<Rightarrow> bc_verifiable bc \<and> bc_depth bc n \<and> n \<le> JS_STACK_SIZE_MAX
    | Inl e \<Rightarrow> (e = OutOfMemory \<and> None \<in> set mem) \<or> ((\<exists>m. e = InternalError m) \<and> \<not> bc_verifiable bc)"
proof -
  let ?s = "\<lparr>stack_len_max = 0, stack_level_tab = replicate (length bc) 0xffff,
    catch_pos_tab = replicate (length bc) 0, pc_stack = [], pc_stack_size = 0\<rparr>"
  have "bc_attained bc 0" using bc_reach.start by (auto simp: bc_attained_def)
  then have inv: "ss_inv bc ?s Map.empty {}" by (auto simp: ss_inv_def JS_STACK_SIZE_MAX_def nat_less_iff)
  have "catch_ok bc Map.empty []" "pos_range 0" by (simp_all add: catch_ok_def pos_range_def)
  note c = ss_check_spec [OF inv bc_reach.start this(1) _ this(2) assms]
  have "js_spec (compute_stack_size bc) (\<lambda>n. bc_verifiable bc \<and> bc_depth bc n \<and> n \<le> JS_STACK_SIZE_MAX) (ss_rejects bc)"
    unfolding compute_stack_size_def Let_def
  proof (intro js_spec_bind [OF js_spec_malloc_block])
    show "js_spec (js_bind (ss_check bc ?s 0 0 (-1)) (\<lambda>s. js_bind (compute_stack_loop bc s (length bc)) (\<lambda>s. js_return (stack_len_max s))))
        (\<lambda>n. bc_verifiable bc \<and> bc_depth bc n \<and> n \<le> JS_STACK_SIZE_MAX) (ss_rejects bc)"
    proof (rule js_spec_bind [OF c [unfolded catch_head_def list.case]])
      fix s assume "\<exists>V. ss_post bc ?s Map.empty {} {(0, 0, [])} s V"
      then obtain V where V: "ss_inv bc s V {}" "ss_todo bc s V = int (length bc)" "V 0 = Some (0, [])"
        by (auto simp: ss_post_def ss_todo_def)
      then show "js_spec (js_bind (compute_stack_loop bc s (length bc)) (\<lambda>s. js_return (stack_len_max s)))
          (\<lambda>n. bc_verifiable bc \<and> bc_depth bc n \<and> n \<le> JS_STACK_SIZE_MAX) (ss_rejects bc)"
      proof (intro js_spec_bind [OF compute_stack_loop_spec [OF V(1) _ assms]] js_spec_return)
        fix s' assume "\<exists>V'. ss_inv bc s' V' {} \<and> V \<subseteq>\<^sub>m V' \<and> pc_stack s' = []"
        then obtain V' where V': "ss_inv bc s' V' {}" "V \<subseteq>\<^sub>m V'" "pc_stack s' = []" by blast
        then have "V' 0 = Some (0, [])" using V(3) by (force simp: map_le_def dom_def)
        then show "bc_verifiable bc \<and> bc_depth bc (stack_len_max s') \<and> stack_len_max s' \<le> JS_STACK_SIZE_MAX"
          using explored_verifiable [OF V'(1,3)] ss_inv_simple [OF V'(1)] by blast
      qed simp
    qed simp
  qed
  then show ?thesis unfolding js_spec_def ss_rejects_def by (fastforce split: sum.splits)
qed

definition demo_bytecode :: "u8 list" where
  "demo_bytecode = [107, 10, 0, 0, 0, 6, 14, 14, 234, 3, 0, 14, 6, 232, 254, 41]"

theorem compute_stack_size_witness:
  "fst (compute_stack_size demo_bytecode []) = Inr 2 \<and> bc_verifiable demo_bytecode \<and> bc_depth demo_bytecode 2"
proof -
  have "fst (compute_stack_size demo_bytecode []) = Inr 2" by code_simp
  with compute_stack_size_correct [of demo_bytecode "[]"] show ?thesis by (simp add: demo_bytecode_def)
qed

end
