(* ===== verification/RuntimeMonad.thy ===== *)
theory RuntimeMonad
  imports Prelude
begin

text \<open>
  Computations on a state that request memory and may fail, with rules for their results: the language of the theories on
  atoms, shapes and objects.
\<close>

section \<open>Computations\<close>

text \<open>An error leaves the state as it was changed until then.\<close>

type_synonym ('s, 'a) st = "'s \<times> answers \<Rightarrow> (js_error + 'a) \<times> 's \<times> answers"

definition sr_return :: "'a \<Rightarrow> ('s, 'a) st" where
  "sr_return x = (\<lambda>s. (Inr x, s))"

definition sr_throw :: "js_error \<Rightarrow> ('s, 'a) st" where
  "sr_throw e = (\<lambda>s. (Inl e, s))"

definition sr_bind :: "('s, 'a) st \<Rightarrow> ('a \<Rightarrow> ('s, 'b) st) \<Rightarrow> ('s, 'b) st" where
  "sr_bind m f = (\<lambda>s. case m s of (Inl e, s') \<Rightarrow> (Inl e, s') | (Inr x, s') \<Rightarrow> f x s')"

text \<open>A handler for the errors of a call.\<close>

definition sr_catch :: "('s, 'a) st \<Rightarrow> (js_error \<Rightarrow> ('s, 'a) st) \<Rightarrow> ('s, 'a) st" where
  "sr_catch m f = (\<lambda>s. case m s of (Inl e, s') \<Rightarrow> f e s' | (Inr x, s') \<Rightarrow> (Inr x, s'))"

definition sr_get :: "('s \<Rightarrow> 'a) \<Rightarrow> ('s, 'a) st" where
  "sr_get f = (\<lambda>(s, mem). (Inr (f s), s, mem))"

definition sr_update :: "('s \<Rightarrow> 's) \<Rightarrow> ('s, unit) st" where
  "sr_update f = (\<lambda>(s, mem). (Inr (), f s, mem))"

definition sr_lift :: "('s \<Rightarrow> js_error + 'a) \<Rightarrow> ('s, 'a) st" where
  "sr_lift f = (\<lambda>(s, mem). (f s, s, mem))"

text \<open>A request for memory, and one whose failure is ignored.\<close>

definition sr_malloc :: "('s, unit) st" where
  "sr_malloc = (\<lambda>(s, mem). case mem of
     [] \<Rightarrow> (Inr (), s, [])
   | None # mem' \<Rightarrow> (Inl OutOfMemory, s, mem')
   | Some junk # mem' \<Rightarrow> (Inr (), s, mem'))"

definition sr_ignore :: "js_error \<Rightarrow> ('s, unit) st" where
  "sr_ignore e = (if e = OutOfMemory then sr_return () else sr_throw e)"

section \<open>Reasoning about computations\<close>

text \<open>
  From the state \<open>s\<close>, the computation returns a result and a state with \<open>Q\<close>, or fails for lack of memory in
  a state with \<open>E\<close>. With \<open>F\<close> a request has already failed.
\<close>

definition sr_at :: "bool \<Rightarrow> 's \<Rightarrow> ('s, 'a) st \<Rightarrow> ('a \<Rightarrow> 's \<Rightarrow> bool) \<Rightarrow> ('s \<Rightarrow> bool) \<Rightarrow> bool" where
  "sr_at F s m Q E \<longleftrightarrow> (\<forall>mem. case m (s, mem) of (r, s', mem') \<Rightarrow> set mem' \<subseteq> set mem \<and>
     (case r of Inr x \<Rightarrow> Q x s' | Inl e \<Rightarrow> e = OutOfMemory \<and> (F \<or> None \<in> set mem) \<and> E s'))"

lemma sr_at_return: "Q x s \<Longrightarrow> sr_at F s (sr_return x) Q E"
  by (simp add: sr_at_def sr_return_def)

lemma sr_at_throw: "F \<Longrightarrow> E s \<Longrightarrow> sr_at F s (sr_throw OutOfMemory) Q E"
  by (simp add: sr_at_def sr_throw_def)

lemma sr_at_bind:
  assumes m: "sr_at F s m R E" and f: "\<And>x s'. R x s' \<Longrightarrow> sr_at F s' (f x) Q E"
  shows "sr_at F s (sr_bind m f) Q E"
  unfolding sr_at_def
proof
  fix mem
  obtain r s' mem' where ms: "m (s, mem) = (r, s', mem')" by (metis prod_cases3)
  with m have sub: "set mem' \<subseteq> set mem" and r: "case r of Inr x \<Rightarrow> R x s' | Inl e \<Rightarrow> e = OutOfMemory \<and> (F \<or> None \<in> set mem) \<and> E s'"
    unfolding sr_at_def by (auto dest!: spec [of _ mem])
  show "case sr_bind m f (s, mem) of (r, s', mem') \<Rightarrow> set mem' \<subseteq> set mem \<and>
     (case r of Inr x \<Rightarrow> Q x s' | Inl e \<Rightarrow> e = OutOfMemory \<and> (F \<or> None \<in> set mem) \<and> E s')"
  proof (cases r)
    case (Inl e)
    then show ?thesis using ms sub r by (simp add: sr_bind_def)
  next
    case (Inr x)
    then have "sr_at F s' (f x) Q E" using r by (intro f) simp
    then have fx: "case f x (s', mem') of (r, s2, mem2) \<Rightarrow> set mem2 \<subseteq> set mem' \<and>
       (case r of Inr x \<Rightarrow> Q x s2 | Inl e \<Rightarrow> e = OutOfMemory \<and> (F \<or> None \<in> set mem') \<and> E s2)"
      unfolding sr_at_def by (rule spec)
    obtain r2 s2 mem2 where f2: "f x (s', mem') = (r2, s2, mem2)" by (metis prod_cases3)
    have "set mem2 \<subseteq> set mem'" using fx f2 by simp
    then have "set mem2 \<subseteq> set mem" using sub by (rule subset_trans)
    then show ?thesis using ms sub Inr fx f2 by (cases r2) (auto simp: sr_bind_def)
  qed
qed

lemma sr_at_catch:
  assumes m: "sr_at F s m Q E'" and f: "\<And>s'. E' s' \<Longrightarrow> sr_at True s' (f OutOfMemory) Q E"
  shows "sr_at F s (sr_catch m f) Q E"
  unfolding sr_at_def
proof
  fix mem
  obtain r s' mem' where ms: "m (s, mem) = (r, s', mem')" by (metis prod_cases3)
  with m have sub: "set mem' \<subseteq> set mem" and r: "case r of Inr x \<Rightarrow> Q x s' | Inl e \<Rightarrow> e = OutOfMemory \<and> (F \<or> None \<in> set mem) \<and> E' s'"
    unfolding sr_at_def by (auto dest!: spec [of _ mem])
  show "case sr_catch m f (s, mem) of (r, s', mem') \<Rightarrow> set mem' \<subseteq> set mem \<and>
     (case r of Inr x \<Rightarrow> Q x s' | Inl e \<Rightarrow> e = OutOfMemory \<and> (F \<or> None \<in> set mem) \<and> E s')"
  proof (cases r)
    case (Inr x)
    then show ?thesis using ms sub r by (simp add: sr_catch_def)
  next
    case (Inl e)
    then have "sr_at True s' (f OutOfMemory) Q E" "e = OutOfMemory" "F \<or> None \<in> set mem" using r f by auto
    then have fx: "case f OutOfMemory (s', mem') of (r, s2, mem2) \<Rightarrow> set mem2 \<subseteq> set mem' \<and>
       (case r of Inr x \<Rightarrow> Q x s2 | Inl e \<Rightarrow> e = OutOfMemory \<and> (True \<or> None \<in> set mem') \<and> E s2)"
      unfolding sr_at_def by (elim spec)
    obtain r2 s2 mem2 where f2: "f OutOfMemory (s', mem') = (r2, s2, mem2)" by (metis prod_cases3)
    have "set mem2 \<subseteq> set mem'" using fx f2 by simp
    then have "set mem2 \<subseteq> set mem" using sub by (rule subset_trans)
    then show ?thesis using ms Inl fx f2 \<open>e = OutOfMemory\<close> \<open>F \<or> None \<in> set mem\<close> by (cases r2) (auto simp: sr_catch_def)
  qed
qed

lemma sr_at_conseq:
  assumes "sr_at F s m R E'" "\<And>x s'. R x s' \<Longrightarrow> Q x s'" "\<And>s'. E' s' \<Longrightarrow> E s'"
  shows "sr_at F s m Q E"
  unfolding sr_at_def
proof
  fix mem
  from assms(1) have "case m (s, mem) of (r, s', mem') \<Rightarrow> set mem' \<subseteq> set mem \<and>
     (case r of Inr x \<Rightarrow> R x s' | Inl e \<Rightarrow> e = OutOfMemory \<and> (F \<or> None \<in> set mem) \<and> E' s')"
    unfolding sr_at_def by (rule spec)
  then show "case m (s, mem) of (r, s', mem') \<Rightarrow> set mem' \<subseteq> set mem \<and>
     (case r of Inr x \<Rightarrow> Q x s' | Inl e \<Rightarrow> e = OutOfMemory \<and> (F \<or> None \<in> set mem) \<and> E s')"
    using assms(2,3) by (auto split: sum.splits prod.splits)
qed

lemma sr_at_malloc: "Q () s \<Longrightarrow> E s \<Longrightarrow> sr_at F s sr_malloc Q E"
  by (auto simp: sr_at_def sr_malloc_def split: list.split option.split)

lemma sr_at_update: "Q () (g s) \<Longrightarrow> sr_at F s (sr_update g) Q E"
  by (simp add: sr_at_def sr_update_def)

lemma sr_bind_get [simp]: "sr_at F s (sr_bind (sr_get g) f) Q E = sr_at F s (f (g s)) Q E"
  by (simp add: sr_at_def sr_bind_def sr_get_def)

lemma sr_bind_return [simp]: "sr_bind (sr_return x) f = f x"
  by (simp add: sr_bind_def sr_return_def)

lemma sr_bind_update [simp]: "sr_at F s (sr_bind (sr_update g) f) Q E = sr_at F (g s) (f ()) Q E"
  by (simp add: sr_at_def sr_bind_def sr_update_def)

lemma sr_bind_lift: "g s = Inr x \<Longrightarrow> sr_at F s (sr_bind (sr_lift g) f) Q E = sr_at F s (f x) Q E"
  by (simp add: sr_at_def sr_bind_def sr_lift_def)

lemma sr_bind_malloc: "E s \<Longrightarrow> sr_at F s (f ()) Q E \<Longrightarrow> sr_at F s (sr_bind sr_malloc f) Q E"
  by (rule sr_at_bind [OF sr_at_malloc [where Q = "\<lambda>_ s'. s' = s"]]) auto

lemma sr_bind_at: "(\<And>mem. m (s, mem) = (Inr x, s, mem)) \<Longrightarrow> sr_at F s (sr_bind m f) Q E = sr_at F s (f x) Q E"
  by (simp add: sr_at_def sr_bind_def)

lemma sr_at_return_iff: "sr_at F s (sr_return x) Q E \<longleftrightarrow> Q x s"
  by (auto simp: sr_at_def sr_return_def)

lemma sr_bind_assoc [simp]: "sr_bind (sr_bind m f) g = sr_bind m (\<lambda>x. sr_bind (f x) g)"
  by (auto simp: sr_bind_def fun_eq_iff split: prod.split sum.split)

end
