(* ===== verification/Shape.thy ===== *)
theory Shape
  imports JSValue RuntimeMonad
begin

text \<open>
  Objects and their properties: a shape describes the properties of the objects that share it, with a hash table over
  the names; the runtime finds shapes to share in a hash table of its own.
\<close>

section \<open>Shapes and objects\<close>

definition JS_PROP_CONFIGURABLE :: nat where "JS_PROP_CONFIGURABLE = 1"
definition JS_PROP_INITIAL_SIZE :: nat where "JS_PROP_INITIAL_SIZE = 2"
definition JS_PROP_INITIAL_HASH_SIZE :: nat where "JS_PROP_INITIAL_HASH_SIZE = 4"

text \<open>
  The fields \<open>hash_next\<close> and \<open>flags\<close> of a property have 26 and 6 bits. Links count properties from 1, and 0 ends a
  chain. The atom 0 marks a deleted property.
\<close>

record JSShapeProperty =
  hash_next :: nat
  pr_flags :: nat
  pr_atom :: u32

text \<open>Of the array \<open>prop\<close> of a shape, the list \<open>sh_prop\<close> has the entries below \<open>prop_count\<close>.\<close>

record JSShape =
  sh_ref_count :: int
  is_hashed :: bool
  sh_hash :: u32
  prop_hash_mask :: u32
  prop_size :: nat
  deleted_prop_count :: nat
  shape_hash_next :: nat
  sh_proto :: nat
  hash_table :: "nat list"
  sh_prop :: "JSShapeProperty list"

datatype JSProperty =
    Property_Value jsval
  | Property_GetSet (getter: nat) (setter: nat)
  | Property_VarRef nat
  | Property_AutoInit nat nat

text \<open>An object is its shape and its array of properties, in which \<open>None\<close> is uninitialized memory.\<close>

record JSObject =
  ob_shape :: nat
  ob_prop :: "JSProperty option list"

text \<open>Shapes and objects live at addresses, of which those below \<open>sr_brk\<close> have been handed out; 0 is \<open>NULL\<close>.\<close>

record ShapeRuntime =
  rt_shapes :: "nat \<Rightarrow> JSShape option"
  rt_objects :: "nat \<Rightarrow> JSObject option"
  shape_hash_bits :: nat
  shape_hash_size :: nat
  shape_hash_count :: nat
  shape_table :: "nat list"
  sr_brk :: nat

section \<open>Computations on the runtime\<close>

type_synonym 'a srt = "(ShapeRuntime, 'a) st"

definition sr_shape :: "nat \<Rightarrow> JSShape srt" where
  "sr_shape a = sr_lift (\<lambda>s. case rt_shapes s a of None \<Rightarrow> Inl OutOfBounds | Some sh \<Rightarrow> Inr sh)"

definition sr_object :: "nat \<Rightarrow> JSObject srt" where
  "sr_object p = sr_lift (\<lambda>s. case rt_objects s p of None \<Rightarrow> Inl OutOfBounds | Some ob \<Rightarrow> Inr ob)"

definition put_shape :: "nat \<Rightarrow> JSShape \<Rightarrow> ShapeRuntime \<Rightarrow> ShapeRuntime" where
  "put_shape a sh s = s\<lparr>rt_shapes := (rt_shapes s)(a \<mapsto> sh)\<rparr>"

definition put_object :: "nat \<Rightarrow> JSObject \<Rightarrow> ShapeRuntime \<Rightarrow> ShapeRuntime" where
  "put_object p ob s = s\<lparr>rt_objects := (rt_objects s)(p \<mapsto> ob)\<rparr>"

definition free_shape_mem :: "nat \<Rightarrow> ShapeRuntime \<Rightarrow> ShapeRuntime" where
  "free_shape_mem a s = s\<lparr>rt_shapes := (rt_shapes s)(a := None)\<rparr>"

text \<open>Memory for a shape.\<close>

definition sr_new_shape :: "JSShape \<Rightarrow> nat srt" where
  "sr_new_shape sh =
     sr_bind (sr_get sr_brk) (\<lambda>a.
     sr_bind (sr_update (\<lambda>s. put_shape a sh (s\<lparr>sr_brk := a + 1\<rparr>))) (\<lambda>_. sr_return a))"

section \<open>The hash table of the runtime\<close>

definition shape_hash :: "u32 \<Rightarrow> u32 \<Rightarrow> u32" where
  "shape_hash h val = (h + val) * 0x9e370001"

definition get_shape_hash :: "u32 \<Rightarrow> nat \<Rightarrow> nat" where
  "get_shape_hash h hash_bits = unat (drop_bit (32 - hash_bits) h)"

definition shape_initial_hash :: "nat \<Rightarrow> u32" where
  "shape_initial_hash proto = shape_hash (shape_hash 1 (of_nat proto)) (of_nat (proto div 2 ^ 32))"

definition init_shape_hash :: "ShapeRuntime" where
  "init_shape_hash = \<lparr>rt_shapes = \<lambda>_. None, rt_objects = \<lambda>_. None, shape_hash_bits = 4, shape_hash_size = 16,
     shape_hash_count = 0, shape_table = replicate 16 0, sr_brk = 1\<rparr>"

text \<open>Moving the shapes of a chain into a new table.\<close>

fun resize_chain_loop ::
  "(nat \<Rightarrow> JSShape option) \<Rightarrow> nat list \<Rightarrow> nat \<Rightarrow> nat \<Rightarrow> nat \<Rightarrow> js_error + (nat \<Rightarrow> JSShape option) \<times> nat list" where
  "resize_chain_loop shapes new bits a fuel =
     (if a = 0 then Inr (shapes, new)
      else
        (case (shapes a, fuel) of
           (None, _) \<Rightarrow> Inl OutOfBounds
         | (Some sh, 0) \<Rightarrow> Inl Nontermination
         | (Some sh, Suc fuel) \<Rightarrow>
             (let h = get_shape_hash (sh_hash sh) bits
              in if h < length new
                 then resize_chain_loop (shapes(a \<mapsto> sh\<lparr>shape_hash_next := new ! h\<rparr>)) (new[h := a]) bits (shape_hash_next sh) fuel
                 else Inl OutOfBounds)))"

fun resize_table_loop ::
  "(nat \<Rightarrow> JSShape option) \<Rightarrow> nat list \<Rightarrow> nat \<Rightarrow> nat list \<Rightarrow> nat \<Rightarrow> js_error + (nat \<Rightarrow> JSShape option) \<times> nat list" where
  "resize_table_loop shapes new bits [] fuel = Inr (shapes, new)"
| "resize_table_loop shapes new bits (a # as) fuel =
     (case resize_chain_loop shapes new bits a fuel of
        Inl e \<Rightarrow> Inl e
      | Inr (shapes, new) \<Rightarrow> resize_table_loop shapes new bits as fuel)"

definition resize_shape_hash :: "nat \<Rightarrow> unit srt" where
  "resize_shape_hash bits =
     sr_bind sr_malloc (\<lambda>_.
     sr_bind (sr_lift (\<lambda>s. resize_table_loop (rt_shapes s) (replicate (2 ^ bits) 0) bits (shape_table s) (sr_brk s))) (\<lambda>(shapes, new).
     sr_update (\<lambda>s. s\<lparr>rt_shapes := shapes, shape_hash_bits := bits, shape_hash_size := 2 ^ bits, shape_table := new\<rparr>)))"

definition js_shape_hash_link :: "nat \<Rightarrow> unit srt" where
  "js_shape_hash_link a =
     sr_bind (sr_shape a) (\<lambda>sh.
     sr_bind (sr_lift (\<lambda>s.
       (let h = get_shape_hash (sh_hash sh) (shape_hash_bits s)
        in if h < length (shape_table s)
           then Inr (put_shape a (sh\<lparr>shape_hash_next := shape_table s ! h\<rparr>)
                  (s\<lparr>shape_table := (shape_table s)[h := a], shape_hash_count := shape_hash_count s + 1\<rparr>))
           else Inl OutOfBounds))) (\<lambda>s.
     sr_update (\<lambda>_. s)))"

text \<open>The walk has the shape before the current one, \<open>None\<close> at the head of the chain, whose link is changed in the end.\<close>

fun unlink_loop :: "ShapeRuntime \<Rightarrow> nat \<Rightarrow> nat \<Rightarrow> nat option \<Rightarrow> nat \<Rightarrow> nat \<Rightarrow> js_error + ShapeRuntime" where
  "unlink_loop s h a prev cur fuel =
     (case (rt_shapes s cur, fuel) of
        (None, _) \<Rightarrow> Inl OutOfBounds
      | (Some sh, 0) \<Rightarrow> Inl Nontermination
      | (Some sh, Suc fuel) \<Rightarrow>
          if cur = a
          then
            (case prev of
               None \<Rightarrow> Inr (s\<lparr>shape_table := (shape_table s)[h := shape_hash_next sh]\<rparr>)
             | Some b \<Rightarrow>
                 (case rt_shapes s b of
                    None \<Rightarrow> Inl OutOfBounds
                  | Some sh1 \<Rightarrow> Inr (put_shape b (sh1\<lparr>shape_hash_next := shape_hash_next sh\<rparr>) s)))
          else unlink_loop s h a (Some cur) (shape_hash_next sh) fuel)"

definition js_shape_hash_unlink :: "nat \<Rightarrow> unit srt" where
  "js_shape_hash_unlink a =
     sr_bind (sr_shape a) (\<lambda>sh.
     sr_bind (sr_lift (\<lambda>s.
       (let h = get_shape_hash (sh_hash sh) (shape_hash_bits s)
        in if h < length (shape_table s)
           then unlink_loop s h a None (shape_table s ! h) (sr_brk s)
           else Inl OutOfBounds))) (\<lambda>s.
     sr_update (\<lambda>_. s\<lparr>shape_hash_count := shape_hash_count s - 1\<rparr>)))"

section \<open>Creating and freeing shapes\<close>

definition js_new_shape_nohash :: "nat \<Rightarrow> nat \<Rightarrow> nat \<Rightarrow> nat srt" where
  "js_new_shape_nohash proto hash_size psize =
     sr_bind sr_malloc (\<lambda>_.
     sr_new_shape \<lparr>sh_ref_count = 1, is_hashed = False, sh_hash = 0, prop_hash_mask = of_nat (hash_size - 1), prop_size = psize,
       deleted_prop_count = 0, shape_hash_next = 0, sh_proto = proto, hash_table = replicate hash_size 0, sh_prop = []\<rparr>)"

definition js_new_shape2 :: "nat \<Rightarrow> nat \<Rightarrow> nat \<Rightarrow> nat srt" where
  "js_new_shape2 proto hash_size psize =
     sr_bind (sr_get (\<lambda>s. 2 * (shape_hash_count s + 1) > shape_hash_size s)) (\<lambda>full.
     sr_bind (if full then sr_bind (sr_get shape_hash_bits) (\<lambda>bits. sr_catch (resize_shape_hash (bits + 1)) sr_ignore)
              else sr_return ()) (\<lambda>_.
     sr_bind (js_new_shape_nohash proto hash_size psize) (\<lambda>a.
     sr_bind (sr_shape a) (\<lambda>sh.
     sr_bind (sr_update (put_shape a (sh\<lparr>sh_hash := shape_initial_hash proto, is_hashed := True\<rparr>))) (\<lambda>_.
     sr_bind (js_shape_hash_link a) (\<lambda>_.
     sr_return a))))))"

definition js_new_shape :: "nat \<Rightarrow> nat srt" where
  "js_new_shape proto = js_new_shape2 proto JS_PROP_INITIAL_HASH_SIZE JS_PROP_INITIAL_SIZE"

definition js_clone_shape :: "nat \<Rightarrow> nat srt" where
  "js_clone_shape a =
     sr_bind (sr_shape a) (\<lambda>sh.
     sr_bind sr_malloc (\<lambda>_.
     sr_new_shape (sh\<lparr>sh_ref_count := 1, is_hashed := False\<rparr>)))"

definition js_dup_shape :: "nat \<Rightarrow> nat srt" where
  "js_dup_shape a =
     sr_bind (sr_shape a) (\<lambda>sh.
     sr_bind (sr_update (put_shape a (sh\<lparr>sh_ref_count := sh_ref_count sh + 1\<rparr>))) (\<lambda>_. sr_return a))"

definition js_free_shape0 :: "nat \<Rightarrow> unit srt" where
  "js_free_shape0 a =
     sr_bind (sr_shape a) (\<lambda>sh.
     if sh_ref_count sh \<noteq> 0 then sr_throw OutOfBounds
     else
       sr_bind (if is_hashed sh then js_shape_hash_unlink a else sr_return ()) (\<lambda>_.
       sr_update (free_shape_mem a)))"

definition js_free_shape :: "nat \<Rightarrow> unit srt" where
  "js_free_shape a =
     sr_bind (sr_shape a) (\<lambda>sh.
     sr_bind (sr_update (put_shape a (sh\<lparr>sh_ref_count := sh_ref_count sh - 1\<rparr>))) (\<lambda>_.
     if sh_ref_count sh - 1 \<le> 0 then js_free_shape0 a else sr_return ()))"

section \<open>Looking up a property\<close>

text \<open>A walk along a chain from the link \<open>h\<close>; the result is the index of the property.\<close>

fun find_prop_loop :: "JSShapeProperty list \<Rightarrow> u32 \<Rightarrow> nat \<Rightarrow> nat \<Rightarrow> js_error + nat option" where
  "find_prop_loop prop atom h fuel =
     (if h = 0 then Inr None
      else
        (case fuel of
           0 \<Rightarrow> Inl Nontermination
         | Suc fuel \<Rightarrow>
             if h \<le> length prop
             then
               if pr_atom (prop ! (h - 1)) = atom then Inr (Some (h - 1))
               else find_prop_loop prop atom (hash_next (prop ! (h - 1))) fuel
             else Inl OutOfBounds))"

definition shape_find :: "JSShape \<Rightarrow> u32 \<Rightarrow> js_error + nat option" where
  "shape_find sh atom =
     (let h = unat (atom AND prop_hash_mask sh)
      in if h < length (hash_table sh) then find_prop_loop (sh_prop sh) atom (hash_table sh ! h) (length (sh_prop sh))
         else Inl OutOfBounds)"

definition find_own_property :: "nat \<Rightarrow> u32 \<Rightarrow> nat option srt" where
  "find_own_property p atom =
     sr_bind (sr_object p) (\<lambda>ob.
     sr_bind (sr_shape (ob_shape ob)) (\<lambda>sh.
     sr_lift (\<lambda>_. shape_find sh atom)))"

section \<open>Resizing\<close>

fun grow_hash_size :: "nat \<Rightarrow> nat \<Rightarrow> nat \<Rightarrow> js_error + nat" where
  "grow_hash_size hash_size new_size fuel =
     (if hash_size < new_size
      then (case fuel of 0 \<Rightarrow> Inl Nontermination | Suc fuel \<Rightarrow> grow_hash_size (2 * hash_size) new_size fuel)
      else Inr hash_size)"

text \<open>Linking the properties from index \<open>i\<close> on into the hash table; \<open>link_prop\<close> cuts the link to its 26 bits.\<close>

definition link_prop :: "nat \<Rightarrow> JSShapeProperty \<Rightarrow> JSShapeProperty" where
  "link_prop h pr = pr\<lparr>hash_next := h mod 2 ^ 26\<rparr>"

fun rehash_loop :: "u32 \<Rightarrow> JSShapeProperty list \<Rightarrow> nat \<Rightarrow> nat list \<Rightarrow> JSShapeProperty list \<times> nat list" where
  "rehash_loop hmask [] i tab = ([], tab)"
| "rehash_loop hmask (pr # prs) i tab =
     (if pr_atom pr \<noteq> 0
      then
        (let h = unat (pr_atom pr AND hmask);
             (prs', tab') = rehash_loop hmask prs (i + 1) (tab[h := i + 1])
         in (link_prop (tab ! h) pr # prs', tab'))
      else
        (let (prs', tab') = rehash_loop hmask prs (i + 1) tab
         in (pr # prs', tab')))"

text \<open>\<open>js_realloc\<close> of the array of properties.\<close>

definition realloc_props :: "JSProperty option list \<Rightarrow> nat \<Rightarrow> JSProperty option list" where
  "realloc_props ps n = take n ps @ replicate (n - length ps) None"

definition resize_properties :: "nat \<Rightarrow> nat \<Rightarrow> unit srt" where
  "resize_properties p count =
     sr_bind (sr_object p) (\<lambda>ob.
     sr_bind (sr_shape (ob_shape ob)) (\<lambda>sh.
       (let new_size = max count (prop_size sh * 3 div 2)
        in sr_bind sr_malloc (\<lambda>_.
           sr_bind (sr_update (put_object p (ob\<lparr>ob_prop := realloc_props (ob_prop ob) new_size\<rparr>))) (\<lambda>_.
           sr_bind (sr_lift (\<lambda>_. grow_hash_size (unat (prop_hash_mask sh) + 1) new_size 32)) (\<lambda>new_hash_size.
           sr_bind sr_malloc (\<lambda>_.
             (let sh1 = sh\<lparr>sh_ref_count := 1, prop_size := new_size\<rparr>;
                  sh1 = (if new_hash_size \<noteq> unat (prop_hash_mask sh) + 1
                         then
                           (let hmask = of_nat (new_hash_size - 1);
                                (prs, tab) = rehash_loop hmask (sh_prop sh) 0 (replicate new_hash_size 0)
                            in sh1\<lparr>prop_hash_mask := hmask, hash_table := tab, sh_prop := prs\<rparr>)
                         else sh1)
              in sr_bind (sr_new_shape sh1) (\<lambda>a.
                 sr_update (\<lambda>s. put_object p (ob\<lparr>ob_shape := a, ob_prop := realloc_props (ob_prop ob) new_size\<rparr>)
                   (free_shape_mem (ob_shape ob) s)))))))))))"

fun shrink_hash_size :: "nat \<Rightarrow> nat \<Rightarrow> nat \<Rightarrow> js_error + nat" where
  "shrink_hash_size hash_size new_size fuel =
     (if hash_size div 2 \<ge> new_size
      then (case fuel of 0 \<Rightarrow> Inl Nontermination | Suc fuel \<Rightarrow> shrink_hash_size (hash_size div 2) new_size fuel)
      else Inr hash_size)"

text \<open>Copying what is not deleted; the values move to the front of their array.\<close>

fun compact_loop ::
  "u32 \<Rightarrow> JSShapeProperty list \<Rightarrow> nat \<Rightarrow> nat \<Rightarrow> nat list \<Rightarrow> JSProperty option list \<Rightarrow>
     JSShapeProperty list \<times> nat list \<times> JSProperty option list" where
  "compact_loop hmask [] i j tab vs = ([], tab, vs)"
| "compact_loop hmask (pr # prs) i j tab vs =
     (if pr_atom pr \<noteq> 0
      then
        (let h = unat (pr_atom pr AND hmask);
             (prs', tab', vs') = compact_loop hmask prs (i + 1) (j + 1) (tab[h := j + 1]) (vs[j := vs ! i])
         in (link_prop (tab ! h) pr # prs', tab', vs'))
      else compact_loop hmask prs (i + 1) j tab vs)"

text \<open>A failed assertion is \<open>OutOfBounds\<close>.\<close>

definition compact_properties :: "nat \<Rightarrow> unit srt" where
  "compact_properties p =
     sr_bind (sr_object p) (\<lambda>ob.
     sr_bind (sr_shape (ob_shape ob)) (\<lambda>sh.
       (let new_size = max JS_PROP_INITIAL_SIZE (length (sh_prop sh) - deleted_prop_count sh)
        in if is_hashed sh \<or> \<not> new_size \<le> prop_size sh then sr_throw OutOfBounds
           else
             sr_bind (sr_lift (\<lambda>_. shrink_hash_size (unat (prop_hash_mask sh) + 1) new_size 32)) (\<lambda>new_hash_size.
             sr_bind sr_malloc (\<lambda>_.
               (let hmask = of_nat (new_hash_size - 1);
                    (prs, tab, vs) = compact_loop hmask (sh_prop sh) 0 0 (replicate new_hash_size 0) (ob_prop ob)
                in if length prs \<noteq> length (sh_prop sh) - deleted_prop_count sh then sr_throw OutOfBounds
                   else
                     sr_bind (sr_new_shape (sh\<lparr>sh_ref_count := 1, prop_hash_mask := hmask, hash_table := tab, sh_prop := prs,
                       prop_size := new_size, deleted_prop_count := 0\<rparr>)) (\<lambda>a.
                     sr_bind (sr_update (\<lambda>s. put_object p (ob\<lparr>ob_shape := a, ob_prop := vs\<rparr>)
                       (free_shape_mem (ob_shape ob) s))) (\<lambda>_.
                     sr_catch (sr_bind sr_malloc (\<lambda>_.
                         sr_update (put_object p (ob\<lparr>ob_shape := a, ob_prop := realloc_props vs new_size\<rparr>)))) sr_ignore))))))))"

section \<open>Adding a property\<close>

text \<open>The array of the object is not initialized at the new index.\<close>

definition push_prop :: "u32 \<Rightarrow> nat \<Rightarrow> JSShape \<Rightarrow> JSShape" where
  "push_prop atom flags sh =
     (let h = unat (atom AND prop_hash_mask sh)
      in sh\<lparr>sh_prop := sh_prop sh @ [link_prop (hash_table sh ! h) \<lparr>hash_next = 0, pr_flags = flags mod 2 ^ 6, pr_atom = atom\<rparr>],
            hash_table := (hash_table sh)[h := length (sh_prop sh) + 1]\<rparr>)"

definition add_shape_property :: "nat \<Rightarrow> u32 \<Rightarrow> nat \<Rightarrow> unit srt" where
  "add_shape_property p atom flags =
     sr_bind (sr_object p) (\<lambda>ob.
     sr_bind (sr_shape (ob_shape ob)) (\<lambda>sh.
     sr_bind (if is_hashed sh then js_shape_hash_unlink (ob_shape ob) else sr_return ()) (\<lambda>_.
     sr_bind (if length (sh_prop sh) \<ge> prop_size sh
              then
                sr_catch (resize_properties p (length (sh_prop sh) + 1)) (\<lambda>e.
                  sr_bind (if is_hashed sh then js_shape_hash_link (ob_shape ob) else sr_return ()) (\<lambda>_. sr_throw e))
              else sr_return ()) (\<lambda>_.
     sr_bind (sr_object p) (\<lambda>ob.
     sr_bind (if is_hashed sh
              then
                sr_bind (sr_shape (ob_shape ob)) (\<lambda>sh1.
                sr_bind (sr_update (put_shape (ob_shape ob)
                   (sh1\<lparr>sh_hash := shape_hash (shape_hash (sh_hash sh) atom) (of_nat flags)\<rparr>))) (\<lambda>_.
                js_shape_hash_link (ob_shape ob)))
              else sr_return ()) (\<lambda>_.
     sr_bind (sr_shape (ob_shape ob)) (\<lambda>sh.
     if unat (atom AND prop_hash_mask sh) < length (hash_table sh)
     then sr_update (put_shape (ob_shape ob) (push_prop atom flags sh))
     else sr_throw OutOfBounds)))))))"

text \<open>The search for a shape to share.\<close>

fun find_hashed_loop :: "(JSShape \<Rightarrow> bool) \<Rightarrow> ShapeRuntime \<Rightarrow> nat \<Rightarrow> nat \<Rightarrow> js_error + nat" where
  "find_hashed_loop ok s a fuel =
     (if a = 0 then Inr 0
      else
        (case (rt_shapes s a, fuel) of
           (None, _) \<Rightarrow> Inl OutOfBounds
         | (Some sh, 0) \<Rightarrow> Inl Nontermination
         | (Some sh, Suc fuel) \<Rightarrow> if ok sh then Inr a else find_hashed_loop ok s (shape_hash_next sh) fuel))"

definition find_hashed :: "(JSShape \<Rightarrow> bool) \<Rightarrow> u32 \<Rightarrow> nat srt" where
  "find_hashed ok h = sr_lift (\<lambda>s.
     (let h1 = get_shape_hash h (shape_hash_bits s)
      in if h1 < length (shape_table s) then find_hashed_loop ok s (shape_table s ! h1) (sr_brk s) else Inl OutOfBounds))"

definition find_hashed_shape_proto :: "nat \<Rightarrow> nat srt" where
  "find_hashed_shape_proto proto =
     (let h = shape_initial_hash proto
      in find_hashed (\<lambda>sh1. sh_hash sh1 = h \<and> sh_proto sh1 = proto \<and> sh_prop sh1 = []) h)"

definition same_prop :: "JSShapeProperty \<Rightarrow> u32 \<Rightarrow> nat \<Rightarrow> bool" where
  "same_prop pr atom flags \<longleftrightarrow> pr_atom pr = atom \<and> pr_flags pr = flags"

definition find_hashed_shape_prop :: "JSShape \<Rightarrow> u32 \<Rightarrow> nat \<Rightarrow> nat srt" where
  "find_hashed_shape_prop sh atom flags =
     (let h = shape_hash (shape_hash (sh_hash sh) atom) (of_nat flags); n = length (sh_prop sh)
      in find_hashed (\<lambda>sh1. sh_hash sh1 = h \<and> sh_proto sh1 = sh_proto sh \<and> length (sh_prop sh1) = n + 1 \<and>
           list_all2 (\<lambda>pr1 pr. same_prop pr1 (pr_atom pr) (pr_flags pr)) (take n (sh_prop sh1)) (sh_prop sh) \<and>
           same_prop (sh_prop sh1 ! n) atom flags) h)"

text \<open>The result is the index of the new property, whose value the caller stores.\<close>

definition add_property :: "nat \<Rightarrow> u32 \<Rightarrow> nat \<Rightarrow> nat srt" where
  "add_property p atom flags =
     sr_bind (sr_object p) (\<lambda>ob.
     sr_bind (sr_shape (ob_shape ob)) (\<lambda>sh.
     sr_bind (if is_hashed sh then find_hashed_shape_prop sh atom flags else sr_return 0) (\<lambda>new_sh.
     if new_sh \<noteq> 0
     then
       sr_bind (sr_shape new_sh) (\<lambda>sh1.
       sr_bind (if prop_size sh1 \<noteq> prop_size sh
                then
                  sr_bind sr_malloc (\<lambda>_.
                  sr_update (put_object p (ob\<lparr>ob_prop := realloc_props (ob_prop ob) (prop_size sh1)\<rparr>)))
                else sr_return ()) (\<lambda>_.
       sr_bind (js_dup_shape new_sh) (\<lambda>_.
       sr_bind (sr_object p) (\<lambda>ob1.
       sr_bind (sr_update (put_object p (ob1\<lparr>ob_shape := new_sh\<rparr>))) (\<lambda>_.
       sr_bind (js_free_shape (ob_shape ob)) (\<lambda>_.
       sr_return (length (sh_prop sh1) - 1)))))))
     else
       sr_bind (if is_hashed sh \<and> sh_ref_count sh \<noteq> 1
                then
                  sr_bind (js_clone_shape (ob_shape ob)) (\<lambda>a.
                  sr_bind (sr_shape a) (\<lambda>sh1.
                  sr_bind (sr_update (put_shape a (sh1\<lparr>is_hashed := True\<rparr>))) (\<lambda>_.
                  sr_bind (js_shape_hash_link a) (\<lambda>_.
                  sr_bind (js_free_shape (ob_shape ob)) (\<lambda>_.
                  sr_update (put_object p (ob\<lparr>ob_shape := a\<rparr>)))))))
                else sr_return ()) (\<lambda>_.
       sr_bind (sr_object p) (\<lambda>ob.
       sr_bind (sr_shape (ob_shape ob)) (\<lambda>sh.
       if sh_ref_count sh \<noteq> 1 then sr_throw OutOfBounds
       else
         sr_bind (add_shape_property p atom flags) (\<lambda>_.
         sr_bind (sr_object p) (\<lambda>ob.
         sr_bind (sr_shape (ob_shape ob)) (\<lambda>sh.
         sr_return (length (sh_prop sh) - 1))))))))))"

definition set_property_value :: "nat \<Rightarrow> nat \<Rightarrow> JSProperty \<Rightarrow> unit srt" where
  "set_property_value p i v =
     sr_bind (sr_object p) (\<lambda>ob.
     if i < length (ob_prop ob) then sr_update (put_object p (ob\<lparr>ob_prop := (ob_prop ob)[i := Some v]\<rparr>))
     else sr_throw OutOfBounds)"

text \<open>How the callers add a property, with their flags and their value.\<close>

definition define_property :: "nat \<Rightarrow> u32 \<Rightarrow> nat \<Rightarrow> JSProperty \<Rightarrow> unit srt" where
  "define_property p atom flags v = sr_bind (add_property p atom flags) (\<lambda>i. set_property_value p i v)"

section \<open>Deleting a property and changing its flags\<close>

text \<open>The index of the property is given and returned as the pointer of the code is.\<close>

definition js_shape_prepare_update :: "nat \<Rightarrow> unit srt" where
  "js_shape_prepare_update p =
     sr_bind (sr_object p) (\<lambda>ob.
     sr_bind (sr_shape (ob_shape ob)) (\<lambda>sh.
     if is_hashed sh
     then
       if sh_ref_count sh \<noteq> 1
       then
         sr_bind (js_clone_shape (ob_shape ob)) (\<lambda>a.
         sr_bind (js_free_shape (ob_shape ob)) (\<lambda>_.
         sr_update (put_object p (ob\<lparr>ob_shape := a\<rparr>))))
       else
         sr_bind (js_shape_hash_unlink (ob_shape ob)) (\<lambda>_.
         sr_bind (sr_shape (ob_shape ob)) (\<lambda>sh.
         sr_update (put_shape (ob_shape ob) (sh\<lparr>is_hashed := False\<rparr>))))
     else sr_return ()))"

definition js_update_property_flags :: "nat \<Rightarrow> nat \<Rightarrow> nat \<Rightarrow> unit srt" where
  "js_update_property_flags p i flags =
     sr_bind (sr_object p) (\<lambda>ob.
     sr_bind (sr_shape (ob_shape ob)) (\<lambda>sh.
     if \<not> i < length (sh_prop sh) then sr_throw OutOfBounds
     else if flags \<noteq> pr_flags (sh_prop sh ! i)
     then
       sr_bind (js_shape_prepare_update p) (\<lambda>_.
       sr_bind (sr_object p) (\<lambda>ob.
       sr_bind (sr_shape (ob_shape ob)) (\<lambda>sh.
       sr_update (put_shape (ob_shape ob)
         (sh\<lparr>sh_prop := (sh_prop sh)[i := (sh_prop sh ! i)\<lparr>pr_flags := flags mod 2 ^ 6\<rparr>]\<rparr>)))))
     else sr_return ()))"

text \<open>The walk of the deletion remembers the property before the current one.\<close>

fun delete_find_loop :: "JSShapeProperty list \<Rightarrow> u32 \<Rightarrow> nat option \<Rightarrow> nat \<Rightarrow> nat \<Rightarrow> js_error + (nat option \<times> nat) option" where
  "delete_find_loop prop atom lpr h fuel =
     (if h = 0 then Inr None
      else
        (case fuel of
           0 \<Rightarrow> Inl Nontermination
         | Suc fuel \<Rightarrow>
             if h \<le> length prop
             then
               if pr_atom (prop ! (h - 1)) = atom then Inr (Some (lpr, h - 1))
               else delete_find_loop prop atom (Some (h - 1)) (hash_next (prop ! (h - 1))) fuel
             else Inl OutOfBounds))"

text \<open>Taking the property at \<open>i\<close> out of its chain and marking it as deleted.\<close>

definition remove_prop :: "u32 \<Rightarrow> nat option \<Rightarrow> nat \<Rightarrow> JSShape \<Rightarrow> JSShape" where
  "remove_prop atom lpr i sh =
     (let h1 = unat (atom AND prop_hash_mask sh);
          pr = sh_prop sh ! i;
          sh = (case lpr of
                  None \<Rightarrow> sh\<lparr>hash_table := (hash_table sh)[h1 := hash_next pr]\<rparr>
                | Some j \<Rightarrow> sh\<lparr>sh_prop := (sh_prop sh)[j := (sh_prop sh ! j)\<lparr>hash_next := hash_next pr\<rparr>]\<rparr>)
      in sh\<lparr>sh_prop := (sh_prop sh)[i := (sh_prop sh ! i)\<lparr>pr_flags := 0, pr_atom := 0\<rparr>],
            deleted_prop_count := deleted_prop_count sh + 1\<rparr>)"

text \<open>
  Deleting a property of an ordinary object. The result is false for a property that is not configurable.
\<close>

definition delete_property :: "nat \<Rightarrow> u32 \<Rightarrow> bool srt" where
  "delete_property p atom =
     sr_bind (sr_object p) (\<lambda>ob.
     sr_bind (sr_shape (ob_shape ob)) (\<lambda>sh.
     sr_bind (sr_lift (\<lambda>_.
       (let h1 = unat (atom AND prop_hash_mask sh)
        in if h1 < length (hash_table sh)
           then delete_find_loop (sh_prop sh) atom None (hash_table sh ! h1) (length (sh_prop sh))
           else Inl OutOfBounds))) (\<lambda>r.
     case r of
       None \<Rightarrow> sr_return True
     | Some (lpr, i) \<Rightarrow>
         if pr_flags (sh_prop sh ! i) AND JS_PROP_CONFIGURABLE = 0 then sr_return False
         else
           sr_bind (js_shape_prepare_update p) (\<lambda>_.
           sr_bind (sr_object p) (\<lambda>ob.
           sr_bind (sr_shape (ob_shape ob)) (\<lambda>sh.
             (let sh = remove_prop atom lpr i sh
              in sr_bind (sr_update (put_shape (ob_shape ob) sh)) (\<lambda>_.
                 sr_bind (set_property_value p i (Property_Value JS_Undefined)) (\<lambda>_.
                 sr_bind (if deleted_prop_count sh \<ge> 8 \<and> deleted_prop_count sh \<ge> length (sh_prop sh) div 2
                          then sr_catch (compact_properties p) sr_ignore
                          else sr_return ()) (\<lambda>_.
                 sr_return True))))))))))"

section \<open>Creating and freeing objects\<close>

definition JS_NewObjectFromShape :: "nat \<Rightarrow> nat srt" where
  "JS_NewObjectFromShape a =
     sr_bind (sr_shape a) (\<lambda>sh.
     sr_catch
       (sr_bind sr_malloc (\<lambda>_.
        sr_bind sr_malloc (\<lambda>_.
        sr_bind (sr_get sr_brk) (\<lambda>p.
        sr_bind (sr_update (\<lambda>s. put_object p \<lparr>ob_shape = a, ob_prop = replicate (prop_size sh) None\<rparr> (s\<lparr>sr_brk := p + 1\<rparr>))) (\<lambda>_.
        sr_return p)))))
       (\<lambda>e. sr_bind (js_free_shape a) (\<lambda>_. sr_throw e)))"

definition JS_NewObjectProtoClass :: "nat \<Rightarrow> nat srt" where
  "JS_NewObjectProtoClass proto =
     sr_bind (find_hashed_shape_proto proto) (\<lambda>a.
     sr_bind (if a \<noteq> 0 then js_dup_shape a else js_new_shape proto) JS_NewObjectFromShape)"

definition clz32 :: "u32 \<Rightarrow> nat" where
  "clz32 a = 32 - bit_len (unat a)"

text \<open>\<open>1 << (32 - clz32 (n - 1))\<close> is the least power of two that is at least \<open>n\<close>.\<close>

definition JS_NewObjectProtoClassAlloc :: "nat \<Rightarrow> nat \<Rightarrow> nat srt" where
  "JS_NewObjectProtoClassAlloc proto n =
     sr_bind
       (if n \<le> JS_PROP_INITIAL_SIZE
        then js_new_shape_nohash proto JS_PROP_INITIAL_HASH_SIZE JS_PROP_INITIAL_SIZE
        else js_new_shape_nohash proto (2 ^ (32 - clz32 (of_nat (n - 1)))) n) JS_NewObjectFromShape"

text \<open>The part of \<open>free_object\<close> that concerns the shape.\<close>

definition free_object_shape :: "nat \<Rightarrow> unit srt" where
  "free_object_shape p =
     sr_bind (sr_object p) (\<lambda>ob.
     sr_bind (js_free_shape (ob_shape ob)) (\<lambda>_.
     sr_update (\<lambda>s. s\<lparr>rt_objects := (rt_objects s)(p := None)\<rparr>)))"

declare resize_chain_loop.simps [simp del] unlink_loop.simps [simp del] find_prop_loop.simps [simp del]
  grow_hash_size.simps [simp del] shrink_hash_size.simps [simp del] find_hashed_loop.simps [simp del]
  delete_find_loop.simps [simp del]

end
