(* ===== verification/ShapeInv.thy ===== *)
theory ShapeInv
  imports Shape
begin

text \<open>
  The invariant of a single shape and its preservation: the links of the hash table follow from the names of the
  properties, so that a lookup finds exactly the property of a name.
\<close>

section \<open>Links\<close>

text \<open>The link to the last property below index \<open>n\<close> that is not deleted and whose name belongs to the bucket \<open>h\<close>.\<close>

primrec bucket_prev :: "u32 \<Rightarrow> u32 list \<Rightarrow> nat \<Rightarrow> nat \<Rightarrow> nat" where
  "bucket_prev m as h 0 = 0"
| "bucket_prev m as h (Suc n) = (if as ! n \<noteq> 0 \<and> unat (as ! n AND m) = h then Suc n else bucket_prev m as h n)"

definition links_ok :: "u32 \<Rightarrow> JSShapeProperty list \<Rightarrow> nat list \<Rightarrow> bool" where
  "links_ok m prs tab \<longleftrightarrow>
     (\<forall>h<length tab. tab ! h = bucket_prev m (map pr_atom prs) h (length prs)) \<and>
     (\<forall>i<length prs. pr_atom (prs ! i) \<noteq> 0 \<longrightarrow>
        hash_next (prs ! i) = bucket_prev m (map pr_atom prs) (unat (pr_atom (prs ! i) AND m)) i)"

definition live_atoms :: "JSShapeProperty list \<Rightarrow> u32 list" where
  "live_atoms prs = filter (\<lambda>a. a \<noteq> 0) (map pr_atom prs)"

definition shape_wf :: "JSShape \<Rightarrow> bool" where
  "shape_wf sh \<longleftrightarrow> length (hash_table sh) = unat (prop_hash_mask sh) + 1 \<and>
     links_ok (prop_hash_mask sh) (sh_prop sh) (hash_table sh) \<and> length (sh_prop sh) \<le> prop_size sh \<and>
     length (sh_prop sh) < 2 ^ 26 \<and> distinct (live_atoms (sh_prop sh)) \<and>
     deleted_prop_count sh + length (live_atoms (sh_prop sh)) = length (sh_prop sh)"

lemma bucket_less: "unat (a AND m) < unat (m :: u32) + 1"
  using word_and_le1 [of m a] word_and_le1 [of a m] word_and_le2 [of m a]
  by (simp add: word_le_nat_alt less_Suc_eq_le and.commute)

lemma bucket_prev_cases:
  obtains (none) "bucket_prev m as h n = 0" "\<And>i. i < n \<Longrightarrow> \<not> (as ! i \<noteq> 0 \<and> unat (as ! i AND m) = h)"
  | (some) j where "bucket_prev m as h n = Suc j" "j < n" "as ! j \<noteq> 0" "unat (as ! j AND m) = h"
      "\<And>i. j < i \<Longrightarrow> i < n \<Longrightarrow> \<not> (as ! i \<noteq> 0 \<and> unat (as ! i AND m) = h)"
proof (induction n arbitrary: thesis)
  case (Suc n)
  show ?case
  proof (cases "as ! n \<noteq> 0 \<and> unat (as ! n AND m) = h")
    case True
    then show ?thesis by (intro Suc.prems(2) [of n]) auto
  next
    case False
    then have eq: "bucket_prev m as h (Suc n) = bucket_prev m as h n" by auto
    show ?thesis
    proof (rule Suc.IH)
      assume "bucket_prev m as h n = 0" "\<And>i. i < n \<Longrightarrow> \<not> (as ! i \<noteq> 0 \<and> unat (as ! i AND m) = h)"
      then show thesis using Suc.prems(1) False eq less_Suc_eq by metis
    next
      fix j assume "bucket_prev m as h n = Suc j" "j < n" "as ! j \<noteq> 0" "unat (as ! j AND m) = h"
        "\<And>i. j < i \<Longrightarrow> i < n \<Longrightarrow> \<not> (as ! i \<noteq> 0 \<and> unat (as ! i AND m) = h)"
      then show thesis using Suc.prems(2) [of j] False eq less_Suc_eq by metis
    qed
  qed
qed simp

lemma bucket_prev_le: "bucket_prev m as h n \<le> n"
  by (induction n) auto

lemma bucket_prev_cong:
  assumes "\<And>i. i < n \<Longrightarrow> as ! i = bs ! i"
  shows "bucket_prev m as h n = bucket_prev m bs h n"
  using assms by (induction n) auto

lemma bucket_prev_append: "n \<le> length as \<Longrightarrow> bucket_prev m (as @ bs) h n = bucket_prev m as h n"
  by (rule bucket_prev_cong) (simp add: nth_append)

section \<open>Lookup\<close>

lemma find_prop_loop_spec:
  assumes links: "links_ok m prs tab" and atom: "atom \<noteq> 0" and n: "n \<le> length prs" "n \<le> fuel"
  shows "(\<exists>i<n. pr_atom (prs ! i) = atom \<and>
      find_prop_loop prs atom (bucket_prev m (map pr_atom prs) (unat (atom AND m)) n) fuel = Inr (Some i)) \<or>
    ((\<forall>i<n. pr_atom (prs ! i) \<noteq> atom) \<and>
      find_prop_loop prs atom (bucket_prev m (map pr_atom prs) (unat (atom AND m)) n) fuel = Inr None)"
  using n
proof (induction n arbitrary: fuel rule: less_induct)
  case (less n)
  let ?h = "unat (atom AND m)" and ?as = "map pr_atom prs"
  show ?case
  proof (cases rule: bucket_prev_cases [where m = m and as = ?as and h = ?h and n = n])
    case none
    have "pr_atom (prs ! i) \<noteq> atom" if "i < n" for i using none(2) [OF that] that less.prems(1) atom by auto
    then show ?thesis using none(1) by (simp add: find_prop_loop.simps)
  next
    case (some j)
    obtain fuel' where fuel: "fuel = Suc fuel'" "n - 1 \<le> fuel'" using less.prems(2) some(2) by (cases fuel) auto
    have j: "j < length prs" using some(2) less.prems(1) by simp
    show ?thesis
    proof (cases "pr_atom (prs ! j) = atom")
      case True
      then show ?thesis using some(1,2) j fuel by (auto simp: find_prop_loop.simps)
    next
      case False
      have "hash_next (prs ! j) = bucket_prev m ?as ?h j"
        using links some(3,4) j unfolding links_ok_def by auto
      then have step: "find_prop_loop prs atom (bucket_prev m ?as ?h n) fuel = find_prop_loop prs atom (bucket_prev m ?as ?h j) fuel'"
        using False some(1) j fuel by (simp add: find_prop_loop.simps [of _ _ "Suc j"])
      have "pr_atom (prs ! i) \<noteq> atom" if "j < i" "i < n" for i
        using some(5) [OF that] that less.prems(1) atom by auto
      then have above: "pr_atom (prs ! i) = atom \<Longrightarrow> i < n \<Longrightarrow> i < j" for i using False by (metis linorder_neqE_nat)
      from less.IH [OF some(2), of fuel'] j some(2) fuel(2) show ?thesis unfolding step using above by fastforce
    qed
  qed
qed

lemma shape_find_spec:
  assumes wf: "shape_wf sh" and atom: "atom \<noteq> 0"
  shows "(\<exists>i<length (sh_prop sh). pr_atom (sh_prop sh ! i) = atom \<and> shape_find sh atom = Inr (Some i)) \<or>
    ((\<forall>i<length (sh_prop sh). pr_atom (sh_prop sh ! i) \<noteq> atom) \<and> shape_find sh atom = Inr None)"
proof -
  let ?h = "unat (atom AND prop_hash_mask sh)"
  have h: "?h < length (hash_table sh)" using wf bucket_less unfolding shape_wf_def by simp
  then have "hash_table sh ! ?h = bucket_prev (prop_hash_mask sh) (map pr_atom (sh_prop sh)) ?h (length (sh_prop sh))"
    using wf unfolding shape_wf_def links_ok_def by blast
  then have "shape_find sh atom = find_prop_loop (sh_prop sh) atom
      (bucket_prev (prop_hash_mask sh) (map pr_atom (sh_prop sh)) ?h (length (sh_prop sh))) (length (sh_prop sh))"
    using h by (simp add: shape_find_def)
  with find_prop_loop_spec [OF _ atom, of "prop_hash_mask sh" "sh_prop sh" "hash_table sh"] wf show ?thesis
    unfolding shape_wf_def by simp
qed

text \<open>The deletion also finds what links to the property: the table or a property above it.\<close>

definition link_source :: "u32 \<Rightarrow> JSShapeProperty list \<Rightarrow> u32 \<Rightarrow> nat option \<Rightarrow> nat \<Rightarrow> bool" where
  "link_source m prs atom lpr n \<longleftrightarrow> (case lpr of None \<Rightarrow> n = length prs | Some l \<Rightarrow> n = l \<and> l < length prs \<and>
     pr_atom (prs ! l) \<noteq> 0 \<and> unat (pr_atom (prs ! l) AND m) = unat (atom AND m))"

lemma delete_find_loop_spec:
  assumes links: "links_ok m prs tab" and atom: "atom \<noteq> 0" and n: "n \<le> fuel" and src: "link_source m prs atom lpr n"
  shows "(\<exists>i<n. \<exists>l n'. pr_atom (prs ! i) = atom \<and> link_source m prs atom l n' \<and>
      bucket_prev m (map pr_atom prs) (unat (atom AND m)) n' = Suc i \<and>
      delete_find_loop prs atom lpr (bucket_prev m (map pr_atom prs) (unat (atom AND m)) n) fuel = Inr (Some (l, i))) \<or>
    ((\<forall>i<n. pr_atom (prs ! i) \<noteq> atom) \<and>
      delete_find_loop prs atom lpr (bucket_prev m (map pr_atom prs) (unat (atom AND m)) n) fuel = Inr None)"
  using n src
proof (induction n arbitrary: fuel lpr rule: less_induct)
  case (less n)
  let ?h = "unat (atom AND m)" and ?as = "map pr_atom prs"
  have n: "n \<le> length prs" using less.prems(2) by (auto simp: link_source_def split: option.splits)
  show ?case
  proof (cases rule: bucket_prev_cases [where m = m and as = ?as and h = ?h and n = n])
    case none
    have "pr_atom (prs ! i) \<noteq> atom" if "i < n" for i using none(2) [OF that] that n atom by auto
    then show ?thesis using none(1) by (simp add: delete_find_loop.simps)
  next
    case (some j)
    obtain fuel' where fuel: "fuel = Suc fuel'" "n - 1 \<le> fuel'" using less.prems(1) some(2) by (cases fuel) auto
    have j: "j < length prs" using some(2) n by simp
    show ?thesis
    proof (cases "pr_atom (prs ! j) = atom")
      case True
      then have "delete_find_loop prs atom lpr (bucket_prev m ?as ?h n) fuel = Inr (Some (lpr, j))"
        using some(1) j fuel by (simp add: delete_find_loop.simps)
      with True some(1,2) less.prems(2) show ?thesis by blast
    next
      case False
      have "hash_next (prs ! j) = bucket_prev m ?as ?h j"
        using links some(3,4) j unfolding links_ok_def by auto
      then have step: "delete_find_loop prs atom lpr (bucket_prev m ?as ?h n) fuel =
          delete_find_loop prs atom (Some j) (bucket_prev m ?as ?h j) fuel'"
        using False some(1) j fuel by (simp add: delete_find_loop.simps [of _ _ _ "Suc j"])
      have "pr_atom (prs ! i) \<noteq> atom" if "j < i" "i < n" for i
        using some(5) [OF that] that n atom by auto
      then have above: "pr_atom (prs ! i) = atom \<Longrightarrow> i < n \<Longrightarrow> i < j" for i using False by (metis linorder_neqE_nat)
      have "link_source m prs atom (Some j) j" using some(3,4) j by (simp add: link_source_def)
      moreover have "j \<le> fuel'" using some(2) fuel(2) by simp
      ultimately consider (found) i l n' where "i < j" "pr_atom (prs ! i) = atom" "link_source m prs atom l n'"
          "bucket_prev m ?as ?h n' = Suc i" "delete_find_loop prs atom (Some j) (bucket_prev m ?as ?h j) fuel' = Inr (Some (l, i))"
        | (absent) "\<forall>i<j. pr_atom (prs ! i) \<noteq> atom"
          "delete_find_loop prs atom (Some j) (bucket_prev m ?as ?h j) fuel' = Inr None"
        using less.IH [OF some(2), of fuel' "Some j"] by blast
      then show ?thesis
      proof cases
        case found
        then have "i < n" using some(2) by simp
        with found show ?thesis unfolding step by blast
      next
        case absent
        then have "\<forall>i<n. pr_atom (prs ! i) \<noteq> atom" using above by blast
        with absent(2) show ?thesis unfolding step by blast
      qed
    qed
  qed
qed

section \<open>Rebuilding the links\<close>

lemma rehash_loop_spec:
  assumes "rehash_loop m prs i tab = (prs', tab')" "length pre = i" "i + length prs < 2 ^ 26"
    "\<forall>h<length tab. tab ! h = bucket_prev m (pre @ map pr_atom prs) h i" "length tab = unat m + 1"
  shows "map pr_atom prs' = map pr_atom prs \<and> map pr_flags prs' = map pr_flags prs \<and> length tab' = length tab \<and>
    (\<forall>h<length tab. tab' ! h = bucket_prev m (pre @ map pr_atom prs) h (i + length prs)) \<and>
    (\<forall>k<length prs. pr_atom (prs ! k) \<noteq> 0 \<longrightarrow>
       hash_next (prs' ! k) = bucket_prev m (pre @ map pr_atom prs) (unat (pr_atom (prs ! k) AND m)) (i + k))"
  using assms
proof (induction prs arbitrary: i tab prs' tab' pre)
  case (Cons pr prs)
  let ?as = "pre @ map pr_atom (pr # prs)" and ?h = "unat (pr_atom pr AND m)"
  have at: "?as ! i = pr_atom pr" using Cons.prems(2) by (simp add: nth_append)
  have h: "?h < length tab" using Cons.prems(5) bucket_less [of "pr_atom pr" m] by simp
  let ?tab = "if pr_atom pr \<noteq> 0 then tab[?h := i + 1] else tab"
  have tab: "\<forall>h<length ?tab. ?tab ! h = bucket_prev m ?as h (i + 1)"
    using Cons.prems(4) at h by (auto simp: nth_list_update)
  obtain prs1 tab1 where r: "rehash_loop m prs (i + 1) ?tab = (prs1, tab1)" by fastforce
  have "length ?tab = unat m + 1" using Cons.prems(5) by simp
  with Cons.IH [OF r, of "pre @ [pr_atom pr]"] Cons.prems(2,3) tab
  have ih: "map pr_atom prs1 = map pr_atom prs" "map pr_flags prs1 = map pr_flags prs" "length tab1 = length tab"
      "\<forall>h<length tab. tab1 ! h = bucket_prev m ?as h (i + 1 + length prs)"
      "\<forall>k<length prs. pr_atom (prs ! k) \<noteq> 0 \<longrightarrow> hash_next (prs1 ! k) = bucket_prev m ?as (unat (pr_atom (prs ! k) AND m)) (i + 1 + k)"
    by (auto split: if_splits)
  have "bucket_prev m ?as ?h i < 2 ^ 26" using bucket_prev_le [of m ?as ?h i] Cons.prems(3) by simp
  then have lk: "tab ! ?h mod 2 ^ 26 = bucket_prev m ?as ?h i" using Cons.prems(4) h by simp
  have res: "prs' = (if pr_atom pr \<noteq> 0 then link_prop (tab ! ?h) pr else pr) # prs1" "tab' = tab1"
    using Cons.prems(1) r by (auto simp: Let_def split: if_splits)
  have "hash_next (prs' ! k) = bucket_prev m ?as (unat (pr_atom ((pr # prs) ! k) AND m)) (i + k)"
    if "k < length (pr # prs)" "pr_atom ((pr # prs) ! k) \<noteq> 0" for k
    using that ih(5) lk by (cases k) (auto simp: res link_prop_def)
  then show ?case using ih by (auto simp: res link_prop_def)
qed simp

lemma rehash_links:
  assumes "rehash_loop m prs 0 (replicate n 0) = (prs', tab')" "length prs < 2 ^ 26" "n = unat m + 1"
  shows "links_ok m prs' tab'" "map pr_atom prs' = map pr_atom prs" "map pr_flags prs' = map pr_flags prs" "length tab' = n"
proof -
  have a: "\<forall>h<length (replicate n (0::nat)). replicate n 0 ! h = bucket_prev m ([] @ map pr_atom prs) h 0" by simp
  have b: "length (replicate n (0::nat)) = unat m + 1" by (simp only: length_replicate assms(3))
  have c: "0 + length prs < 2 ^ 26" using assms(2) by simp
  have r: "map pr_atom prs' = map pr_atom prs \<and> map pr_flags prs' = map pr_flags prs \<and> length tab' = n \<and>
    (\<forall>h<n. tab' ! h = bucket_prev m (map pr_atom prs) h (length prs)) \<and>
    (\<forall>k<length prs. pr_atom (prs ! k) \<noteq> 0 \<longrightarrow> hash_next (prs' ! k) = bucket_prev m (map pr_atom prs) (unat (pr_atom (prs ! k) AND m)) k)"
    by (rule rehash_loop_spec [OF assms(1) list.size(3) c a b, unfolded append_Nil add_0 length_replicate])
  then show m: "map pr_atom prs' = map pr_atom prs" "map pr_flags prs' = map pr_flags prs" "length tab' = n" by auto
  have len: "length prs' = length prs" using m(1) by (metis length_map)
  have at: "pr_atom (prs' ! i) = pr_atom (prs ! i)" if "i < length prs" for i
    using m(1) len that by (metis nth_map)
  show "links_ok m prs' tab'" unfolding links_ok_def using r m len at by auto
qed

lemma compact_rehash:
  assumes "compact_loop m prs i j tab vs = (prs', tab', vs')"
  shows "rehash_loop m (filter (\<lambda>pr. pr_atom pr \<noteq> 0) prs) j tab = (prs', tab')"
  using assms by (induction m prs i j tab vs arbitrary: prs' tab' vs' rule: compact_loop.induct)
    (auto simp: Let_def split: if_splits prod.splits)

lemma compact_values:
  assumes "compact_loop m prs i j tab vs = (prs', tab', vs')" "j \<le> i" "i + length prs \<le> length vs"
  shows "length vs' = length vs \<and> take j vs' = take j vs \<and>
    take (length prs') (drop j vs') = map snd (filter (\<lambda>(pr, v). pr_atom pr \<noteq> 0) (zip prs (drop i vs)))"
  using assms
proof (induction m prs i j tab vs arbitrary: prs' tab' vs' rule: compact_loop.induct)
  case (2 m pr prs i j tab vs)
  have d: "drop i vs = vs ! i # drop (i + 1) vs" using "2.prems"(3) by (simp add: Cons_nth_drop_Suc)
  show ?case
  proof (cases "pr_atom pr \<noteq> 0")
    case True
    let ?h = "unat (pr_atom pr AND m)" and ?vs = "vs[j := vs ! i]"
    obtain prs1 tab1 vs1 where r: "compact_loop m prs (i + 1) (j + 1) (tab[?h := j + 1]) ?vs = (prs1, tab1, vs1)"
      by (metis prod_cases3)
    have res: "prs' = link_prop (tab ! ?h) pr # prs1" "vs' = vs1" using "2.prems"(1) True r by (auto simp: Let_def)
    from "2.IH"(1) [OF True refl r] "2.prems"(2,3)
    have ih: "length vs1 = length vs" "take (j + 1) vs1 = take (j + 1) ?vs"
      "take (length prs1) (drop (j + 1) vs1) = map snd (filter (\<lambda>(pr, v). pr_atom pr \<noteq> 0) (zip prs (drop (i + 1) ?vs)))" by auto
    have j: "j < length vs" using "2.prems"(2,3) by simp
    have "vs1 ! j = vs ! i" using arg_cong [OF ih(2), of "\<lambda>l. l ! j"] j by simp
    moreover have "drop j vs1 = vs1 ! j # drop (j + 1) vs1" using j ih(1) by (simp add: Cons_nth_drop_Suc)
    moreover have "take j vs1 = take j vs" using arg_cong [OF ih(2), of "take j"] by simp
    ultimately show ?thesis using True ih(1,3) "2.prems"(2) d by (simp add: res)
  next
    case False
    then show ?thesis using "2.IH"(2) [of prs' tab' vs'] "2.prems" d by simp
  qed
qed simp

section \<open>Adding and removing\<close>

lemma links_push:
  assumes links: "links_ok m prs tab" and len: "length tab = unat m + 1" "length prs < 2 ^ 26" and atom: "pr_atom pr \<noteq> 0"
    and h: "h = unat (pr_atom pr AND m)"
  shows "links_ok m (prs @ [link_prop (tab ! h) pr]) (tab[h := length prs + 1])"
proof -
  let ?as = "map pr_atom prs"
  have less: "h < length tab" using bucket_less [of "pr_atom pr" m] len(1) h by simp
  have tab: "tab ! k = bucket_prev m ?as k (length prs)" if "k < length tab" for k
    using links that unfolding links_ok_def by blast
  have app: "bucket_prev m (?as @ [pr_atom pr]) k n = bucket_prev m ?as k n" if "n \<le> length prs" for k n
    using that by (intro bucket_prev_append) simp
  have "tab ! h mod 2 ^ 26 = bucket_prev m ?as h (length prs)"
    using tab [OF less] bucket_prev_le [of m ?as h "length prs"] len(2) by simp
  then have new: "hash_next ((prs @ [link_prop (tab ! h) pr]) ! i) = bucket_prev m (?as @ [pr_atom pr]) (unat (pr_atom pr AND m)) i"
    if "i = length prs" for i
    using that h app by (simp add: link_prop_def)
  show ?thesis
    unfolding links_ok_def
  proof (intro conjI allI impI)
    fix k assume "k < length (tab[h := length prs + 1])"
    then show "tab[h := length prs + 1] ! k =
        bucket_prev m (map pr_atom (prs @ [link_prop (tab ! h) pr])) k (length (prs @ [link_prop (tab ! h) pr]))"
      using less tab app atom h by (auto simp: nth_list_update nth_append link_prop_def)
  next
    fix i assume "i < length (prs @ [link_prop (tab ! h) pr])" "pr_atom ((prs @ [link_prop (tab ! h) pr]) ! i) \<noteq> 0"
    then show "hash_next ((prs @ [link_prop (tab ! h) pr]) ! i) =
        bucket_prev m (map pr_atom (prs @ [link_prop (tab ! h) pr])) (unat (pr_atom ((prs @ [link_prop (tab ! h) pr]) ! i) AND m)) i"
      using new links app unfolding links_ok_def
      by (cases "i < length prs") (auto simp: nth_append link_prop_def less_Suc_eq)
  qed
qed

lemma shape_wf_push:
  assumes wf: "shape_wf sh" and atom: "atom \<noteq> 0" "atom \<notin> set (live_atoms (sh_prop sh))"
    and room: "length (sh_prop sh) < prop_size sh" "length (sh_prop sh) + 1 < 2 ^ 26"
  shows "shape_wf (push_prop atom flags sh)"
proof -
  let ?pr = "\<lparr>hash_next = 0, pr_flags = flags mod 2 ^ 6, pr_atom = atom\<rparr>" and ?h = "unat (atom AND prop_hash_mask sh)"
  have "links_ok (prop_hash_mask sh) (sh_prop sh @ [link_prop (hash_table sh ! ?h) ?pr]) ((hash_table sh)[?h := length (sh_prop sh) + 1])"
    using wf atom unfolding shape_wf_def by (intro links_push) auto
  then show ?thesis using wf atom room unfolding shape_wf_def
    by (simp add: push_prop_def Let_def live_atoms_def link_prop_def)
qed

text \<open>Marking a property as deleted redirects the only link to it.\<close>

lemma bucket_prev_delete:
  assumes "i < length as" "n \<le> length as"
  shows "bucket_prev m (as[i := 0]) h n = (if bucket_prev m as h n = Suc i then bucket_prev m as h i else bucket_prev m as h n)"
  using assms(2)
proof (induction n)
  case (Suc n)
  show ?case
  proof (cases "n = i")
    case True
    have "bucket_prev m (as[i := 0]) h i = bucket_prev m as h i" by (rule bucket_prev_cong) simp
    moreover have "bucket_prev m as h i \<noteq> Suc i" using bucket_prev_le [of m as h i] by simp
    ultimately show ?thesis using True assms(1) by simp
  next
    case False
    then show ?thesis using Suc by simp
  qed
qed simp

lemma link_source_unique:
  assumes src: "link_source m prs atom lpr n" and prev: "bucket_prev m (map pr_atom prs) (unat (atom AND m)) n = Suc i"
    and j: "j \<le> length prs" "j = length prs \<or> (pr_atom (prs ! j) \<noteq> 0 \<and> unat (pr_atom (prs ! j) AND m) = unat (atom AND m))"
    and other: "bucket_prev m (map pr_atom prs) (unat (atom AND m)) j = Suc i"
  shows "j = n"
proof -
  let ?as = "map pr_atom prs" and ?h = "unat (atom AND m)"
  have n: "n \<le> length prs" "n = length prs \<or> (pr_atom (prs ! n) \<noteq> 0 \<and> unat (pr_atom (prs ! n) AND m) = ?h)"
    using src by (auto simp: link_source_def split: option.splits)
  have up: "a = b" if ab: "a < b" "b \<le> length prs" "a = length prs \<or> (pr_atom (prs ! a) \<noteq> 0 \<and> unat (pr_atom (prs ! a) AND m) = ?h)"
    "bucket_prev m ?as ?h a = Suc i" "bucket_prev m ?as ?h b = Suc i" for a b
  proof (cases rule: bucket_prev_cases [where m = m and as = ?as and h = ?h and n = b])
    case (some k)
    then have "k = i" using ab(5) by simp
    moreover have "i < a" using ab(4) bucket_prev_le [of m ?as ?h a] by simp
    ultimately show ?thesis using some(5) [of a] ab by simp
  qed (use ab in simp)
  show ?thesis using up [of j n] up [of n j] assms n by (metis linorder_neqE_nat)
qed

lemma bucket_prev_bucket: "bucket_prev m as h n = Suc i \<Longrightarrow> i < n \<and> as ! i \<noteq> 0 \<and> unat (as ! i AND m) = h"
  by (cases rule: bucket_prev_cases [where m = m and as = as and h = h and n = n]) auto

lemma links_remove:
  assumes links: "links_ok m prs tab" and i: "i < length prs" "pr_atom (prs ! i) = atom" "atom \<noteq> 0"
    and src: "link_source m prs atom lpr n" "bucket_prev m (map pr_atom prs) (unat (atom AND m)) n = Suc i"
    and tab': "tab' = (if lpr = None then tab[unat (atom AND m) := hash_next (prs ! i)] else tab)"
    and prs': "map pr_atom prs' = (map pr_atom prs)[i := 0]"
      "\<And>j. j < length prs \<Longrightarrow> j \<noteq> i \<Longrightarrow> hash_next (prs' ! j) = (if lpr = Some j then hash_next (prs ! i) else hash_next (prs ! j))"
  shows "links_ok m prs' tab'"
proof -
  let ?as = "map pr_atom prs" and ?h = "unat (atom AND m)"
  have len: "length prs' = length prs" using arg_cong [OF prs'(1), of length] by simp
  have del: "bucket_prev m (map pr_atom prs') k j = (if bucket_prev m ?as k j = Suc i then bucket_prev m ?as k i else bucket_prev m ?as k j)"
    if "j \<le> length prs" for k j
    unfolding prs'(1) by (rule bucket_prev_delete) (use that i in auto)
  have hi: "hash_next (prs ! i) = bucket_prev m ?as ?h i" using links i unfolding links_ok_def by auto
  have k: "k = ?h" if "bucket_prev m ?as k j = Suc i" for k j
    using bucket_prev_bucket [OF that] i by simp
  have n: "n = (case lpr of None \<Rightarrow> length prs | Some l \<Rightarrow> l)" "lpr = Some l \<Longrightarrow> l < length prs" for l
    using src(1) by (auto simp: link_source_def split: option.splits)
  show ?thesis
    unfolding links_ok_def
  proof (intro conjI allI impI)
    fix b assume b: "b < length tab'"
    then have t: "tab ! b = bucket_prev m ?as b (length prs)" using links unfolding links_ok_def tab' by (auto split: if_splits)
    show "tab' ! b = bucket_prev m (map pr_atom prs') b (length prs')"
    proof (cases "bucket_prev m ?as b (length prs) = Suc i")
      case True
      then have "b = ?h" by (rule k)
      then have "length prs = n" using link_source_unique [OF src] True by simp
      then have "lpr = None" using n by (cases lpr) auto
      then show ?thesis using True \<open>b = ?h\<close> b hi del len by (simp add: tab')
    next
      case False
      have "lpr = None \<Longrightarrow> b \<noteq> ?h" using False src(2) n(1) by auto
      then show ?thesis using False t del len by (cases lpr) (simp_all add: tab')
    qed
  next
    fix j assume j: "j < length prs'" "pr_atom (prs' ! j) \<noteq> 0"
    then have at: "(map pr_atom prs) [i := 0] ! j \<noteq> 0" using arg_cong [OF prs'(1), of "\<lambda>l. l ! j"] by simp
    then have ji: "j \<noteq> i" using i(1) by auto
    then have live: "pr_atom (prs' ! j) = pr_atom (prs ! j)" "pr_atom (prs ! j) \<noteq> 0"
      using arg_cong [OF prs'(1), of "\<lambda>l. l ! j"] j len by auto
    let ?b = "unat (pr_atom (prs ! j) AND m)"
    have hj: "hash_next (prs ! j) = bucket_prev m ?as ?b j" using links j len live unfolding links_ok_def by auto
    have eq: "bucket_prev m ?as ?b j = Suc i \<longleftrightarrow> lpr = Some j"
    proof
      assume p: "bucket_prev m ?as ?b j = Suc i"
      then have b: "?b = ?h" by (rule k)
      then have "j = n" using link_source_unique [OF src, of j] p j len live by auto
      then show "lpr = Some j" using n(1) j len by (cases lpr) auto
    next
      assume l: "lpr = Some j"
      then have "?b = ?h" using src(1) by (auto simp: link_source_def)
      then show "bucket_prev m ?as ?b j = Suc i" using src(2) n(1) l by simp
    qed
    then have "lpr = Some j \<Longrightarrow> ?b = ?h" using k by blast
    then show "hash_next (prs' ! j) = bucket_prev m (map pr_atom prs') (unat (pr_atom (prs' ! j) AND m)) j"
      using prs'(2) [of j] ji j len live hj hi eq del [of j ?b] by auto
  qed
qed

lemma link_source_neq:
  assumes "link_source m prs atom (Some l) n" "bucket_prev m (map pr_atom prs) (unat (atom AND m)) n = Suc i"
  shows "l < length prs" "l \<noteq> i"
  using assms bucket_prev_bucket [OF assms(2)] by (auto simp: link_source_def)

lemma remove_prop_fields:
  assumes "i < length (sh_prop sh)" "\<And>l. lpr = Some l \<Longrightarrow> l < length (sh_prop sh) \<and> l \<noteq> i"
  shows "map pr_atom (sh_prop (remove_prop atom lpr i sh)) = (map pr_atom (sh_prop sh))[i := 0]"
    "map pr_flags (sh_prop (remove_prop atom lpr i sh)) = (map pr_flags (sh_prop sh))[i := 0]"
    "j < length (sh_prop sh) \<Longrightarrow> j \<noteq> i \<Longrightarrow> hash_next (sh_prop (remove_prop atom lpr i sh) ! j) =
       (if lpr = Some j then hash_next (sh_prop sh ! i) else hash_next (sh_prop sh ! j))"
    "length (sh_prop (remove_prop atom lpr i sh)) = length (sh_prop sh)"
    "hash_table (remove_prop atom lpr i sh) = (if lpr = None
       then (hash_table sh)[unat (atom AND prop_hash_mask sh) := hash_next (sh_prop sh ! i)] else hash_table sh)"
    "deleted_prop_count (remove_prop atom lpr i sh) = deleted_prop_count sh + 1"
    "prop_hash_mask (remove_prop atom lpr i sh) = prop_hash_mask sh" "prop_size (remove_prop atom lpr i sh) = prop_size sh"
    "sh_proto (remove_prop atom lpr i sh) = sh_proto sh" "is_hashed (remove_prop atom lpr i sh) = is_hashed sh"
    "sh_ref_count (remove_prop atom lpr i sh) = sh_ref_count sh" "sh_hash (remove_prop atom lpr i sh) = sh_hash sh"
    "shape_hash_next (remove_prop atom lpr i sh) = shape_hash_next sh"
  using assms by (auto simp: remove_prop_def Let_def map_update [symmetric] nth_list_update list_update_same_conv
      intro!: nth_equalityI split: option.split)

lemma live_atoms_remove:
  assumes "map pr_atom prs' = (map pr_atom prs)[i := 0]" "i < length prs" "pr_atom (prs ! i) = atom" "atom \<noteq> 0"
    "distinct (live_atoms prs)"
  shows "live_atoms prs' = filter (\<lambda>a. a \<noteq> atom) (live_atoms prs)" "atom \<in> set (live_atoms prs)"
    "length (live_atoms prs') + 1 = length (live_atoms prs)"
proof -
  let ?as = "map pr_atom prs"
  have as: "?as = take i ?as @ atom # drop (Suc i) ?as" using assms(2,3) id_take_nth_drop [of i ?as] by simp
  have as': "?as[i := 0] = take i ?as @ 0 # drop (Suc i) ?as" using assms(2) by (simp add: upd_conv_take_nth_drop)
  define xs ys where "xs = filter (\<lambda>a. a \<noteq> 0) (take i ?as)" and "ys = filter (\<lambda>a. a \<noteq> 0) (drop (Suc i) ?as)"
  have l: "live_atoms prs = xs @ atom # ys"
    using arg_cong [OF as, of "filter (\<lambda>a. a \<noteq> 0)"] assms(4) by (simp add: live_atoms_def xs_def ys_def)
  then show "atom \<in> set (live_atoms prs)" by simp
  have l': "live_atoms prs' = xs @ ys" by (simp add: live_atoms_def assms(1) as' xs_def ys_def)
  then show "length (live_atoms prs') + 1 = length (live_atoms prs)" by (simp add: l)
  have "atom \<notin> set xs" "atom \<notin> set ys" using assms(5) l by auto
  then have "filter (\<lambda>a. a \<noteq> atom) xs = xs" "filter (\<lambda>a. a \<noteq> atom) ys = ys" by (auto intro!: filter_True)
  then show "live_atoms prs' = filter (\<lambda>a. a \<noteq> atom) (live_atoms prs)" by (simp add: l l')
qed

lemma shape_wf_remove:
  assumes wf: "shape_wf sh" and i: "i < length (sh_prop sh)" "pr_atom (sh_prop sh ! i) = atom" "atom \<noteq> 0"
    and src: "link_source (prop_hash_mask sh) (sh_prop sh) atom lpr n"
      "bucket_prev (prop_hash_mask sh) (map pr_atom (sh_prop sh)) (unat (atom AND prop_hash_mask sh)) n = Suc i"
  shows "shape_wf (remove_prop atom lpr i sh)"
proof -
  have "l < length (sh_prop sh) \<and> l \<noteq> i" if "lpr = Some l" for l using link_source_neq src unfolding that by blast
  note f = remove_prop_fields [OF i(1) this, of lpr]
  have dist: "distinct (live_atoms (sh_prop sh))" using wf by (simp add: shape_wf_def)
  note la = live_atoms_remove [OF f(1) i dist]
  have "links_ok (prop_hash_mask sh) (sh_prop (remove_prop atom lpr i sh)) (hash_table (remove_prop atom lpr i sh))"
    using wf unfolding shape_wf_def by (intro links_remove [OF _ i src f(5) f(1,3)]) auto
  then show ?thesis using wf f la dist unfolding shape_wf_def by simp
qed

section \<open>The properties of an object\<close>

text \<open>Names, flags and values in the order in which the properties were added.\<close>

type_synonym entries = "(u32 \<times> nat \<times> JSProperty option) list"

definition prop_entries :: "JSShapeProperty list \<Rightarrow> JSProperty option list \<Rightarrow> entries" where
  "prop_entries prs vs = map (\<lambda>(pr, v). (pr_atom pr, pr_flags pr, v)) (filter (\<lambda>(pr, v). pr_atom pr \<noteq> 0) (zip prs vs))"

lemma prop_entries_Cons:
  "prop_entries (pr # prs) (v # vs) =
     (if pr_atom pr \<noteq> 0 then (pr_atom pr, pr_flags pr, v) # prop_entries prs vs else prop_entries prs vs)"
  by (simp add: prop_entries_def)

lemma prop_entries_cong:
  assumes "map pr_atom prs = map pr_atom prs'" "map pr_flags prs = map pr_flags prs'"
  shows "prop_entries prs vs = prop_entries prs' vs"
  using assms
proof (induction prs arbitrary: prs' vs)
  case (Cons pr prs)
  obtain pr' prs1 where p: "prs' = pr' # prs1" using Cons.prems(1) by (cases prs') auto
  show ?case
  proof (cases vs)
    case (Cons v vs1)
    then show ?thesis using Cons.IH [of prs1 vs1] Cons.prems by (simp add: p prop_entries_Cons)
  qed (simp add: prop_entries_def)
qed (simp add: prop_entries_def)

lemma prop_entries_take:
  assumes "length prs \<le> n"
  shows "prop_entries prs (take n vs) = prop_entries prs vs"
proof -
  have "zip prs (take n vs) = take n (zip prs vs)" using assms by (simp add: take_zip)
  also have "\<dots> = zip prs vs" using assms by simp
  finally show ?thesis by (simp add: prop_entries_def)
qed

lemma fst_prop_entries: "length prs \<le> length vs \<Longrightarrow> map fst (prop_entries prs vs) = live_atoms prs"
proof (induction prs arbitrary: vs)
  case (Cons pr prs)
  then obtain v vs1 where "vs = v # vs1" by (cases vs) auto
  with Cons show ?case by (simp add: prop_entries_Cons live_atoms_def)
qed (simp add: prop_entries_def live_atoms_def)

lemma prop_entries_snoc:
  assumes "length prs < length vs"
  shows "prop_entries (prs @ [pr]) vs =
    prop_entries prs vs @ (if pr_atom pr \<noteq> 0 then [(pr_atom pr, pr_flags pr, vs ! length prs)] else [])"
  using assms
proof (induction prs arbitrary: vs)
  case Nil
  then show ?case by (cases vs) (auto simp: prop_entries_def)
next
  case (Cons p prs)
  then obtain w vs1 where "vs = w # vs1" by (cases vs) auto
  with Cons show ?case by (simp add: prop_entries_Cons)
qed

lemma prop_entries_nth:
  assumes "i < length prs" "length prs \<le> length vs" "pr_atom (prs ! i) \<noteq> 0"
  shows "(pr_atom (prs ! i), pr_flags (prs ! i), vs ! i) \<in> set (prop_entries prs vs)"
  using assms by (force simp: prop_entries_def in_set_zip intro!: image_eqI [where x = "(prs ! i, vs ! i)"])

text \<open>Marking a property as deleted removes its entry, and a change at an index changes its entry only.\<close>

lemma prop_entries_split:
  assumes "i < length prs" "length prs \<le> length vs" "map pr_atom prs' = (map pr_atom prs)[i := a]"
    "map pr_flags prs' = (map pr_flags prs)[i := f]"
  shows "prop_entries prs' (vs[i := v]) = prop_entries (take i prs) (take i vs) @
    (if a \<noteq> 0 then [(a, f, v)] else []) @ prop_entries (drop (Suc i) prs) (drop (Suc i) vs)"
  using assms
proof (induction prs arbitrary: i vs prs')
  case (Cons pr prs)
  obtain w vs1 where vs: "vs = w # vs1" using Cons.prems(2) by (cases vs) auto
  obtain pr' prs1 where p: "prs' = pr' # prs1" using Cons.prems(3) by (cases prs'; cases i) auto
  show ?case
  proof (cases i)
    case 0
    then have "prop_entries prs1 vs1 = prop_entries prs vs1" using Cons.prems(3,4) p by (intro prop_entries_cong) auto
    then show ?thesis using Cons.prems(3,4) p 0 by (auto simp: vs prop_entries_Cons prop_entries_def [of "[]"])
  next
    case (Suc k)
    then show ?thesis using Cons.IH [of k vs1 prs1] Cons.prems p by (auto simp: vs prop_entries_Cons)
  qed
qed simp

lemma prop_entries_at:
  assumes "i < length prs" "length prs \<le> length vs"
  shows "prop_entries prs vs = prop_entries (take i prs) (take i vs) @
    (if pr_atom (prs ! i) \<noteq> 0 then [(pr_atom (prs ! i), pr_flags (prs ! i), vs ! i)] else []) @
    prop_entries (drop (Suc i) prs) (drop (Suc i) vs)"
proof -
  have "(map f prs)[i := f (prs ! i)] = map f prs" for f :: "JSShapeProperty \<Rightarrow> nat" by (simp add: map_update [symmetric])
  moreover have "(map f prs)[i := f (prs ! i)] = map f prs" for f :: "JSShapeProperty \<Rightarrow> u32" by (simp add: map_update [symmetric])
  ultimately show ?thesis
    using prop_entries_split [OF assms, of prs "pr_atom (prs ! i)" "pr_flags (prs ! i)" "vs ! i"] by simp
qed

text \<open>Changing one entry of a list with distinct names.\<close>

definition entry_remove :: "'a \<Rightarrow> ('a \<times> 'b) list \<Rightarrow> ('a \<times> 'b) list" where
  "entry_remove a es = filter (\<lambda>e. fst e \<noteq> a) es"

definition entry_put :: "'a \<Rightarrow> 'b \<Rightarrow> ('a \<times> 'b) list \<Rightarrow> ('a \<times> 'b) list" where
  "entry_put a y es = map (\<lambda>e. if fst e = a then (a, y) else e) es"

lemma entries_middle:
  assumes "distinct (map fst (xs @ (a, y) # zs))"
  shows "entry_remove a (xs @ (a, y) # zs) = xs @ zs" "entry_put a y' (xs @ (a, y) # zs) = xs @ (a, y') # zs"
proof -
  have "fst e \<noteq> a" if "e \<in> set xs \<union> set zs" for e using assms that by force
  moreover from this have "(a, b) \<notin> set xs" "(a, b) \<notin> set zs" for b by force+
  ultimately show "entry_remove a (xs @ (a, y) # zs) = xs @ zs" "entry_put a y' (xs @ (a, y) # zs) = xs @ (a, y') # zs"
    by (auto simp: entry_remove_def entry_put_def intro!: filter_True map_idI)
qed

lemma prop_entries_change:
  assumes wf: "distinct (live_atoms prs)" and i: "i < length prs" "length prs \<le> length vs" "pr_atom (prs ! i) = atom" "atom \<noteq> 0"
    and prs': "map pr_atom prs' = (map pr_atom prs)[i := a]" "map pr_flags prs' = (map pr_flags prs)[i := f]"
  shows "a = 0 \<Longrightarrow> prop_entries prs' (vs[i := v]) = entry_remove atom (prop_entries prs vs)"
    "a = atom \<Longrightarrow> prop_entries prs' (vs[i := v]) = entry_put atom (f, v) (prop_entries prs vs)"
proof -
  let ?x = "prop_entries (take i prs) (take i vs)" and ?z = "prop_entries (drop (Suc i) prs) (drop (Suc i) vs)"
  have at: "prop_entries prs vs = ?x @ (atom, pr_flags (prs ! i), vs ! i) # ?z"
    using prop_entries_at [OF i(1,2)] i(3,4) by simp
  then have "distinct (map fst (?x @ (atom, pr_flags (prs ! i), vs ! i) # ?z))"
    using wf fst_prop_entries [OF i(2)] by simp
  note m = entries_middle [OF this]
  note s = prop_entries_split [OF i(1,2) prs', of v]
  show "a = 0 \<Longrightarrow> prop_entries prs' (vs[i := v]) = entry_remove atom (prop_entries prs vs)"
    using s m(1) by (simp add: at)
  show "a = atom \<Longrightarrow> prop_entries prs' (vs[i := v]) = entry_put atom (f, v) (prop_entries prs vs)"
    using s m(2) [of "(f, v)"] i(4) by (simp add: at)
qed

section \<open>Resized and compacted shapes\<close>

lemma grow_hash_size_spec:
  assumes "n \<le> h * 2 ^ fuel"
  shows "\<exists>r. grow_hash_size h n fuel = Inr r \<and> h \<le> r \<and> (r = h \<or> r < 2 * n)"
  using assms
proof (induction fuel arbitrary: h)
  case (Suc fuel)
  show ?case
  proof (cases "h < n")
    case True
    from Suc.IH [of "2 * h"] Suc.prems obtain r where
      "grow_hash_size (2 * h) n fuel = Inr r" "2 * h \<le> r" "r = 2 * h \<or> r < 2 * n" by (auto simp: mult_ac)
    then show ?thesis using True by (auto simp: grow_hash_size.simps [of h n])
  qed (simp add: grow_hash_size.simps [of h n])
qed (simp add: grow_hash_size.simps)

lemma shrink_hash_size_spec:
  assumes "h < n * 2 ^ (fuel + 1)" "0 < n" "0 < h"
  shows "\<exists>r. shrink_hash_size h n fuel = Inr r \<and> 0 < r \<and> r \<le> h"
  using assms
proof (induction fuel arbitrary: h)
  case 0
  then have "h div 2 < n" by (simp add: less_mult_imp_div_less)
  then have "\<not> n \<le> h div 2" by simp
  then show ?case using 0 by (simp add: shrink_hash_size.simps)
next
  case (Suc fuel)
  show ?case
  proof (cases "n \<le> h div 2")
    case True
    have "h div 2 < n * 2 ^ (fuel + 1)" using Suc.prems(1) by (simp add: less_mult_imp_div_less mult_ac)
    moreover have "0 < h div 2" using True Suc.prems(2) by simp
    ultimately obtain r where "shrink_hash_size (h div 2) n fuel = Inr r" "0 < r" "r \<le> h div 2"
      using Suc.IH [of "h div 2"] Suc.prems(2) by auto
    then show ?thesis using True by (auto simp: shrink_hash_size.simps [of h n])
  qed (use Suc.prems in \<open>simp add: shrink_hash_size.simps [of h n]\<close>)
qed

lemma unat_hmask: "0 < n \<Longrightarrow> n \<le> 2 ^ 32 \<Longrightarrow> unat (of_nat (n - 1) :: u32) + 1 = n"
  by (simp only: unat_of_nat) (simp add: take_bit_nat_eq_self)

lemma unat_u32_less: "unat (m :: u32) + 1 \<le> 2 ^ 32"
  using unsigned_less [of m, where ?'a = nat] by simp

text \<open>A shape with the same properties, of which the links have been rebuilt.\<close>

lemma shape_wf_rehash:
  assumes wf: "shape_wf sh" and r: "rehash_loop m prs 0 (replicate n 0) = (prs', tab)" and m: "unat m + 1 = n" and atoms: "live_atoms prs = live_atoms (sh_prop sh)" "length prs \<le> length (sh_prop sh)" "length prs \<le> sz"
    and d: "d + length (live_atoms (sh_prop sh)) = length prs"
    and sh1: "prop_hash_mask sh1 = m" "hash_table sh1 = tab" "sh_prop sh1 = prs'" "prop_size sh1 = sz"
      "deleted_prop_count sh1 = d"
  shows "shape_wf sh1"
proof -
  have len: "length prs < 2 ^ 26" using wf atoms(2) by (simp add: shape_wf_def)
  note l = rehash_links [OF r len m [symmetric]]
  have "length prs' = length prs" using l(2) by (metis length_map)
  moreover have "live_atoms prs' = live_atoms (sh_prop sh)" using l(2) atoms(1) by (simp add: live_atoms_def)
  ultimately show ?thesis using wf l(1,4) m len atoms(3) d unfolding shape_wf_def sh1 by simp
qed

lemma live_atoms_filter: "live_atoms (filter (\<lambda>pr. pr_atom pr \<noteq> 0) prs) = live_atoms prs"
  "length (filter (\<lambda>pr. pr_atom pr \<noteq> 0) prs) = length (live_atoms prs)"
  by (simp_all add: live_atoms_def filter_map o_def)

lemma compact_entries:
  assumes c: "compact_loop m prs 0 0 tab vs = (prs', tab', vs')" and len: "length prs < 2 ^ 26" and n: "tab = replicate n 0" "n = unat m + 1"
    and vlen: "length prs \<le> length vs"
  shows "prop_entries prs' vs' = prop_entries prs vs" "length prs' = length (live_atoms prs)" "length vs' = length vs"
proof -
  let ?f = "filter (\<lambda>pr. pr_atom pr \<noteq> 0) prs" and ?z = "filter (\<lambda>(pr, v). pr_atom pr \<noteq> 0) (zip prs vs)"
  have lf: "length ?f < 2 ^ 26" using len length_filter_le [of _ prs] le_less_trans by blast
  note l = rehash_links [OF compact_rehash [OF c, unfolded n(1)] lf n(2)]
  have cv: "length vs' = length vs" "take (length prs') vs' = map snd ?z"
    using compact_values [OF c] vlen by auto
  show "length vs' = length vs" by (rule cv(1))
  have fz: "map fst ?z = ?f" using vlen
  proof (induction prs arbitrary: vs)
    case (Cons pr prs)
    then obtain w ws where "vs = w # ws" by (cases vs) auto
    with Cons show ?case by simp
  qed simp
  show pl: "length prs' = length (live_atoms prs)" using l(2) live_atoms_filter(2) by (metis length_map)
  have zip: "zip ?f (map snd ?z) = ?z" unfolding fz [symmetric] by (rule zip_map_fst_snd)
  have "prop_entries prs' vs' = prop_entries ?f vs'" by (rule prop_entries_cong [OF l(2,3)])
  also have "\<dots> = prop_entries ?f (take (length prs') vs')"
    by (rule prop_entries_take [symmetric]) (use l(2) in \<open>metis length_map order_refl\<close>)
  also have "\<dots> = prop_entries prs vs" unfolding cv(2) prop_entries_def zip by simp
  finally show "prop_entries prs' vs' = prop_entries prs vs" .
qed

end
