(* ===== verification/ShapeTable.thy ===== *)
theory ShapeTable
  imports ShapeInv
begin

text \<open>
  The hash table of the runtime: linking, unlinking and resizing keep each hashed shape in the chain of its hash, and the
  search for a shape to share returns one that matches.
\<close>

section \<open>Steps\<close>

lemma sr_bind_shape: "rt_shapes s a = Some sh \<Longrightarrow> sr_at F s (sr_bind (sr_shape a) f) Q E = sr_at F s (f sh) Q E"
  by (simp add: sr_at_def sr_bind_def sr_lift_def sr_shape_def)

lemma sr_bind_object: "rt_objects s p = Some ob \<Longrightarrow> sr_at F s (sr_bind (sr_object p) f) Q E = sr_at F s (f ob) Q E"
  by (simp add: sr_at_def sr_bind_def sr_lift_def sr_object_def)

lemma sr_bind_new_shape:
  "sr_at F s (sr_bind (sr_new_shape sh) f) Q E = sr_at F (put_shape (sr_brk s) sh (s\<lparr>sr_brk := sr_brk s + 1\<rparr>)) (f (sr_brk s)) Q E"
  by (simp add: sr_at_def sr_bind_def sr_new_shape_def sr_get_def sr_update_def sr_return_def)

lemma put_simps [simp]:
  "rt_shapes (put_shape a sh s) = (rt_shapes s)(a \<mapsto> sh)" "rt_objects (put_shape a sh s) = rt_objects s"
  "shape_table (put_shape a sh s) = shape_table s" "shape_hash_bits (put_shape a sh s) = shape_hash_bits s"
  "sr_brk (put_shape a sh s) = sr_brk s" "shape_hash_size (put_shape a sh s) = shape_hash_size s"
  "rt_objects (put_object p ob s) = (rt_objects s)(p \<mapsto> ob)" "rt_shapes (put_object p ob s) = rt_shapes s"
  "shape_table (put_object p ob s) = shape_table s" "shape_hash_bits (put_object p ob s) = shape_hash_bits s"
  "sr_brk (put_object p ob s) = sr_brk s" "shape_hash_size (put_object p ob s) = shape_hash_size s"
  "rt_shapes (free_shape_mem a s) = (rt_shapes s)(a := None)" "rt_objects (free_shape_mem a s) = rt_objects s"
  "shape_table (free_shape_mem a s) = shape_table s" "shape_hash_bits (free_shape_mem a s) = shape_hash_bits s"
  "sr_brk (free_shape_mem a s) = sr_brk s" "shape_hash_size (free_shape_mem a s) = shape_hash_size s"
  by (simp_all add: put_shape_def put_object_def free_shape_mem_def)

section \<open>Chains\<close>

fun shape_chain :: "(nat \<Rightarrow> JSShape option) \<Rightarrow> nat \<Rightarrow> nat list \<Rightarrow> bool" where
  "shape_chain m a [] \<longleftrightarrow> a = 0"
| "shape_chain m a (c # cs) \<longleftrightarrow> a = c \<and> c \<noteq> 0 \<and> (\<exists>sh. m c = Some sh \<and> shape_chain m (shape_hash_next sh) cs)"

lemma shape_chain_cong:
  assumes "\<And>c. c \<in> set cs \<Longrightarrow> map_option shape_hash_next (m' c) = map_option shape_hash_next (m c)"
  shows "shape_chain m' a cs = shape_chain m a cs"
  using assms
proof (induction cs arbitrary: a)
  case (Cons c cs)
  have "map_option shape_hash_next (m' c) = map_option shape_hash_next (m c)" by (rule Cons.prems) simp
  then show ?case using Cons by (auto simp: map_option_eq_Some) (metis map_option_eq_Some)+
qed simp

lemma shape_chain_mem: "shape_chain m a cs \<Longrightarrow> c \<in> set cs \<Longrightarrow> c \<noteq> 0 \<and> m c \<noteq> None"
  by (induction m a cs rule: shape_chain.induct) auto

text \<open>The shapes in the table: all that are hashed except for those of \<open>X\<close>.\<close>

definition hashed_at :: "(nat \<Rightarrow> JSShape option) \<Rightarrow> nat \<Rightarrow> nat set \<Rightarrow> nat \<Rightarrow> nat set" where
  "hashed_at m bits X b = {a. a \<notin> X \<and> (\<exists>sh. m a = Some sh \<and> is_hashed sh \<and> get_shape_hash (sh_hash sh) bits = b)}"

definition table_ok :: "nat set \<Rightarrow> ShapeRuntime \<Rightarrow> bool" where
  "table_ok X s \<longleftrightarrow> length (shape_table s) = 2 ^ shape_hash_bits s \<and> 0 < sr_brk s \<and>
     (\<forall>a. rt_shapes s a \<noteq> None \<longrightarrow> 0 < a \<and> a < sr_brk s) \<and>
     (\<forall>b<length (shape_table s). \<exists>cs. shape_chain (rt_shapes s) (shape_table s ! b) cs \<and> distinct cs \<and>
        set cs = hashed_at (rt_shapes s) (shape_hash_bits s) X b)"

text \<open>States that differ in the table only.\<close>

definition sh_core :: "JSShape \<Rightarrow> JSShape" where
  "sh_core sh = sh\<lparr>shape_hash_next := 0\<rparr>"

lemma sh_core_fields:
  "sh_core a = sh_core b \<Longrightarrow> is_hashed a = is_hashed b \<and> sh_hash a = sh_hash b \<and> sh_ref_count a = sh_ref_count b \<and>
     sh_prop a = sh_prop b \<and> prop_size a = prop_size b \<and> sh_proto a = sh_proto b \<and> hash_table a = hash_table b \<and>
     prop_hash_mask a = prop_hash_mask b \<and> deleted_prop_count a = deleted_prop_count b"
  by (cases a; cases b) (simp add: sh_core_def)

definition sr_same :: "ShapeRuntime \<Rightarrow> ShapeRuntime \<Rightarrow> bool" where
  "sr_same s s' \<longleftrightarrow> rt_objects s' = rt_objects s \<and> sr_brk s' = sr_brk s \<and>
     (\<forall>a. map_option sh_core (rt_shapes s' a) = map_option sh_core (rt_shapes s a))"

lemma get_shape_hash_less: "get_shape_hash h bits < 2 ^ bits"
proof (cases "bits \<le> 32")
  case True
  have "unat h < 2 ^ 32" using unsigned_less [of h, where ?'a = nat] by simp
  also have "\<dots> = 2 ^ bits * 2 ^ (32 - bits)" using True by (simp flip: power_add)
  finally have "drop_bit (32 - bits) (unat h) < 2 ^ bits" by (simp add: drop_bit_eq_div less_mult_imp_div_less)
  then show ?thesis unfolding get_shape_hash_def unat_drop_bit_eq .
next
  case False
  then have "(2::nat) ^ 32 \<le> 2 ^ bits" by (intro power_increasing) auto
  then show ?thesis using unsigned_less [of h, where ?'a = nat] False by (simp add: get_shape_hash_def)
qed

lemma shape_chain_length:
  assumes "table_ok X s" "shape_chain (rt_shapes s) a cs" "distinct cs"
  shows "length cs \<le> sr_brk s"
proof -
  have "set cs \<subseteq> {..<sr_brk s}" using assms(1) shape_chain_mem [OF assms(2)] by (auto simp: table_ok_def)
  then have "card (set cs) \<le> sr_brk s" using card_mono [of "{..<sr_brk s}"] by simp
  then show ?thesis using assms(3) by (simp add: distinct_card)
qed

lemma shape_table_okD:
  assumes "table_ok X s" "b < 2 ^ shape_hash_bits s"
  obtains cs where "shape_chain (rt_shapes s) (shape_table s ! b) cs" "distinct cs"
    "set cs = hashed_at (rt_shapes s) (shape_hash_bits s) X b" "length cs \<le> sr_brk s"
  using assms shape_chain_length unfolding table_ok_def by metis

lemma table_ok_bounds: "table_ok X s \<Longrightarrow> rt_shapes s c \<noteq> None \<Longrightarrow> 0 < c \<and> c < sr_brk s"
  unfolding table_ok_def by blast

text \<open>What keeps the table: the shapes in it, their hashes and their links.\<close>

lemma table_frame:
  assumes "table_ok X s" "shape_table s' = shape_table s" "shape_hash_bits s' = shape_hash_bits s"
    and "0 < sr_brk s'" "\<And>a. rt_shapes s' a \<noteq> None \<Longrightarrow> 0 < a \<and> a < sr_brk s'"
    and h: "\<And>b. hashed_at (rt_shapes s') (shape_hash_bits s) X' b = hashed_at (rt_shapes s) (shape_hash_bits s) X b"
    and nx: "\<And>a sh. rt_shapes s a = Some sh \<Longrightarrow> is_hashed sh \<Longrightarrow> a \<notin> X \<Longrightarrow>
      map_option shape_hash_next (rt_shapes s' a) = Some (shape_hash_next sh)"
  shows "table_ok X' s'"
  unfolding table_ok_def
proof (intro conjI allI impI)
  fix b assume "b < length (shape_table s')"
  then have "b < 2 ^ shape_hash_bits s" using assms(1,2) by (simp add: table_ok_def)
  from shape_table_okD [OF assms(1) this] obtain cs where cs: "shape_chain (rt_shapes s) (shape_table s ! b) cs" "distinct cs"
    "set cs = hashed_at (rt_shapes s) (shape_hash_bits s) X b" by metis
  have "shape_chain (rt_shapes s') (shape_table s ! b) cs = shape_chain (rt_shapes s) (shape_table s ! b) cs"
  proof (rule shape_chain_cong)
    fix c assume "c \<in> set cs"
    then show "map_option shape_hash_next (rt_shapes s' c) = map_option shape_hash_next (rt_shapes s c)"
      using nx unfolding cs(3) hashed_at_def by auto
  qed
  then show "\<exists>cs. shape_chain (rt_shapes s') (shape_table s' ! b) cs \<and> distinct cs \<and>
      set cs = hashed_at (rt_shapes s') (shape_hash_bits s') X' b"
    using cs assms(2,3) h by (intro exI [of _ cs]) simp
qed (use assms in \<open>auto simp: table_ok_def\<close>)

lemma hashed_at_core:
  assumes "\<forall>a. map_option sh_core (m' a) = map_option sh_core (m a)"
  shows "hashed_at m' bits X b = hashed_at m bits X b"
proof -
  have imp: "\<exists>sh'. m2 a = Some sh' \<and> is_hashed sh' = is_hashed sh \<and> sh_hash sh' = sh_hash sh"
    if "m1 a = Some sh" "map_option sh_core (m1 a) = map_option sh_core (m2 a)" for m1 m2 a sh
  proof -
    from that obtain sh' where "m2 a = Some sh'" "sh_core sh' = sh_core sh" by (cases "m2 a") auto
    then show ?thesis by (cases sh; cases sh') (auto simp: sh_core_def)
  qed
  show ?thesis using assms imp [of m _ _ m'] imp [of m' _ _ m] unfolding hashed_at_def by fastforce
qed

lemma sr_same_put:
  "rt_shapes s a = Some sh \<Longrightarrow> sh_core sh' = sh_core sh \<Longrightarrow> sr_same s (put_shape a sh' s)"
  by (simp add: sr_same_def)

lemma hashed_at_insert:
  assumes "m a = Some sh" "is_hashed sh" "a \<in> X"
  shows "hashed_at m bits (X - {a}) b = (if get_shape_hash (sh_hash sh) bits = b then insert a (hashed_at m bits X b) else hashed_at m bits X b)"
  using assms by (auto simp: hashed_at_def)

lemma link_spec:
  assumes t: "table_ok X s" and a: "rt_shapes s a = Some sh" "is_hashed sh" "a \<in> X"
  shows "sr_at F s (js_shape_hash_link a) (\<lambda>_ s'. table_ok (X - {a}) s' \<and> sr_same s s') E"
proof -
  let ?m = "rt_shapes s" and ?bits = "shape_hash_bits s"
  let ?h = "get_shape_hash (sh_hash sh) ?bits"
  let ?m' = "?m(a \<mapsto> sh\<lparr>shape_hash_next := shape_table s ! ?h\<rparr>)"
  let ?s' = "put_shape a (sh\<lparr>shape_hash_next := shape_table s ! ?h\<rparr>)
    (s\<lparr>shape_table := (shape_table s)[?h := a], shape_hash_count := shape_hash_count s + 1\<rparr>)"
  have len: "length (shape_table s) = 2 ^ ?bits" using t by (simp add: table_ok_def)
  have h: "?h < length (shape_table s)" unfolding len by (rule get_shape_hash_less)
  have core: "\<forall>c. map_option sh_core (?m' c) = map_option sh_core (?m c)" using a(1) by (simp add: sh_core_def)
  have ha: "hashed_at ?m' ?bits (X - {a}) b = (if ?h = b then insert a (hashed_at ?m ?bits X b) else hashed_at ?m ?bits X b)" for b
    unfolding hashed_at_core [OF core] by (rule hashed_at_insert [where m = "rt_shapes s", OF a])
  have nin: "a \<notin> hashed_at ?m ?bits X b" for b using a(3) by (simp add: hashed_at_def)
  have bounds: "0 < c \<and> c < sr_brk s" if "?m' c \<noteq> None" for c
    by (rule table_ok_bounds [OF t]) (use that a(1) in \<open>cases "c = a"; simp\<close>)
  have "table_ok (X - {a}) ?s'"
    unfolding table_ok_def
  proof (intro conjI allI impI)
    fix b assume "b < length (shape_table ?s')"
    then have b: "b < 2 ^ ?bits" by (simp add: len)
    from shape_table_okD [OF t b] obtain cs where cs: "shape_chain ?m (shape_table s ! b) cs" "distinct cs" "set cs = hashed_at ?m ?bits X b"
      by metis
    have "a \<notin> set cs" using nin cs(3) by simp
    then have "shape_chain ?m' x cs = shape_chain ?m x cs" for x by (intro shape_chain_cong) auto
    then have same: "shape_chain ?m' (shape_table s ! b) cs" using cs(1) by simp
    have a0: "a \<noteq> 0" using t a(1) unfolding table_ok_def by blast
    show "\<exists>cs. shape_chain (rt_shapes ?s') (shape_table ?s' ! b) cs \<and> distinct cs \<and> set cs = hashed_at (rt_shapes ?s') (shape_hash_bits ?s') (X - {a}) b"
    proof (cases "?h = b")
      case True
      then show ?thesis using same cs a0 nin ha [of b] h by (intro exI [of _ "a # cs"]) simp
    next
      case False
      then show ?thesis using same cs ha [of b] by (intro exI [of _ cs]) simp
    qed
  next
    fix c assume "rt_shapes ?s' c \<noteq> None"
    then have "?m' c \<noteq> None" by simp
    from bounds [OF this] show "0 < c" "c < sr_brk ?s'" by simp_all
  qed (use t len in \<open>auto simp: table_ok_def\<close>)
  moreover have "sr_same s ?s'" using core by (simp add: sr_same_def)
  ultimately show ?thesis using h
    by (simp add: js_shape_hash_link_def sr_bind_shape [OF a(1)] sr_bind_lift Let_def sr_at_update)
qed

text \<open>The walk of the unlinking ends at the shape.\<close>

lemma unlink_loop_eq:
  assumes "shape_chain (rt_shapes s) cur (ys @ a # zs)" "a \<notin> set ys" "length ys < fuel"
    "rt_shapes s a = Some sh"
  shows "unlink_loop s h a prev cur fuel =
    (case (if ys = [] then prev else Some (last ys)) of
       None \<Rightarrow> Inr (s\<lparr>shape_table := (shape_table s)[h := shape_hash_next sh]\<rparr>)
     | Some b \<Rightarrow> (case rt_shapes s b of None \<Rightarrow> Inl OutOfBounds
                  | Some sh1 \<Rightarrow> Inr (put_shape b (sh1\<lparr>shape_hash_next := shape_hash_next sh\<rparr>) s)))"
  using assms
proof (induction ys arbitrary: cur prev fuel)
  case Nil
  then obtain n where "fuel = Suc n" by (cases fuel) auto
  with Nil show ?case by (simp add: unlink_loop.simps)
next
  case (Cons y ys)
  then obtain n where n: "fuel = Suc n" "length ys < n" by (cases fuel) auto
  from Cons.prems(1) obtain sh1 where y: "cur = y" "rt_shapes s y = Some sh1"
    "shape_chain (rt_shapes s) (shape_hash_next sh1) (ys @ a # zs)" by auto
  from Cons.IH [OF y(3) _ n(2) Cons.prems(4), of "Some y"] Cons.prems(2)
  show ?case using y n Cons.prems(2) by (simp add: unlink_loop.simps [of _ _ _ _ _ "Suc n"])
qed

lemma shape_chain_suffix:
  "shape_chain m cur (ys @ a # zs) \<Longrightarrow> m a = Some sh \<Longrightarrow> shape_chain m (shape_hash_next sh) zs"
  by (induction ys arbitrary: cur) auto

lemma shape_chain_unlink:
  assumes "shape_chain m cur (ys @ a # zs)" "distinct (ys @ a # zs)" "m a = Some sh" "ys \<noteq> []" "m (last ys) = Some sh1"
  shows "shape_chain (m(last ys \<mapsto> sh1\<lparr>shape_hash_next := shape_hash_next sh\<rparr>)) cur (ys @ zs)"
  using assms
proof (induction ys arbitrary: cur)
  case (Cons y ys)
  show ?case
  proof (cases "ys = []")
    case True
    let ?m = "m(y \<mapsto> sh1\<lparr>shape_hash_next := shape_hash_next sh\<rparr>)"
    have "shape_chain m (shape_hash_next sh) zs" using shape_chain_suffix [OF Cons.prems(1,3)] .
    moreover have "shape_chain ?m (shape_hash_next sh) zs = shape_chain m (shape_hash_next sh) zs"
      by (rule shape_chain_cong) (use Cons.prems(2) in auto)
    moreover have "cur = y" "y \<noteq> 0" using Cons.prems(1) by auto
    ultimately have "shape_chain ?m cur (y # zs)" by simp
    then show ?thesis unfolding True append_Cons append_Nil last_ConsL [OF refl] .
  next
    case False
    from Cons.prems(1) obtain sh0 where y: "cur = y" "y \<noteq> 0" "m y = Some sh0" "shape_chain m (shape_hash_next sh0) (ys @ a # zs)" by auto
    have "last ys \<noteq> y" using Cons.prems(2) False last_in_set [of ys] by auto
    with y Cons.IH [OF y(4)] Cons.prems(2,3,5) False show ?thesis by simp
  qed
qed simp

lemma unlink_spec:
  assumes t: "table_ok X s" and a: "rt_shapes s a = Some sh" "is_hashed sh" "a \<notin> X"
  shows "sr_at F s (js_shape_hash_unlink a) (\<lambda>_ s'. table_ok (insert a X) s' \<and> sr_same s s') E"
proof -
  let ?m = "rt_shapes s" and ?bits = "shape_hash_bits s"
  let ?h = "get_shape_hash (sh_hash sh) ?bits"
  have len: "length (shape_table s) = 2 ^ ?bits" using t by (simp add: table_ok_def)
  have h: "?h < length (shape_table s)" "?h < 2 ^ ?bits" unfolding len by (rule get_shape_hash_less)+
  from shape_table_okD [OF t h(2)] obtain cs where cs: "shape_chain ?m (shape_table s ! ?h) cs" "distinct cs"
    "set cs = hashed_at ?m ?bits X ?h" "length cs \<le> sr_brk s" by metis
  have "a \<in> set cs" using a by (auto simp: cs(3) hashed_at_def)
  then obtain ys zs where yz: "cs = ys @ a # zs" by (auto simp: in_set_conv_decomp)
  have nin: "a \<notin> set ys" "a \<notin> set zs" using cs(2) yz by auto
  have fuel: "length ys < sr_brk s" using cs(4) yz by simp
  note u = unlink_loop_eq [OF cs(1) [unfolded yz] nin(1) fuel a(1), of ?h None]
  have ha: "hashed_at ?m ?bits (insert a X) b = hashed_at ?m ?bits X b - {a}" for b by (auto simp: hashed_at_def)
  have other: "a \<notin> hashed_at ?m ?bits X b" if "b \<noteq> ?h" for b using a(1) that by (auto simp: hashed_at_def)
  have rest: "\<exists>s'. unlink_loop s ?h a None (shape_table s ! ?h) (sr_brk s) = Inr s' \<and> sr_same s s' \<and>
      length (shape_table s') = length (shape_table s) \<and> shape_hash_bits s' = ?bits \<and>
      shape_chain (rt_shapes s') (shape_table s' ! ?h) (ys @ zs) \<and>
      (\<forall>b. b \<noteq> ?h \<longrightarrow> shape_table s' ! b = shape_table s ! b) \<and>
      (\<forall>c. c \<notin> set cs \<longrightarrow> rt_shapes s' c = ?m c)"
  proof (cases "ys = []")
    case True
    then show ?thesis using u h shape_chain_suffix [OF cs(1) [unfolded yz] a(1)] by (simp add: sr_same_def)
  next
    case False
    then have "last ys \<in> set cs" using yz by simp
    then obtain sh1 where sh1: "?m (last ys) = Some sh1" using shape_chain_mem [OF cs(1)] by auto
    have "sr_same s (put_shape (last ys) (sh1\<lparr>shape_hash_next := shape_hash_next sh\<rparr>) s)"
      by (rule sr_same_put [OF sh1]) (simp add: sh_core_def)
    moreover have "distinct (ys @ a # zs)" using cs(2) yz by simp
    moreover have "shape_chain (?m(last ys \<mapsto> sh1\<lparr>shape_hash_next := shape_hash_next sh\<rparr>)) (shape_table s ! ?h) (ys @ zs)"
      by (rule shape_chain_unlink [OF cs(1) [unfolded yz] calculation(2) a(1) False sh1])
    ultimately show ?thesis using u False sh1 \<open>last ys \<in> set cs\<close> by auto
  qed
  then obtain s' where s': "unlink_loop s ?h a None (shape_table s ! ?h) (sr_brk s) = Inr s'" "sr_same s s'"
      "length (shape_table s') = length (shape_table s)" "shape_hash_bits s' = ?bits"
      "shape_chain (rt_shapes s') (shape_table s' ! ?h) (ys @ zs)" "\<And>b. b \<noteq> ?h \<Longrightarrow> shape_table s' ! b = shape_table s ! b"
      "\<And>c. c \<notin> set cs \<Longrightarrow> rt_shapes s' c = ?m c" by auto
  have core: "\<forall>c. map_option sh_core (rt_shapes s' c) = map_option sh_core (?m c)" using s'(2) by (simp add: sr_same_def)
  have bounds: "0 < c \<and> c < sr_brk s" if "rt_shapes s' c \<noteq> None" for c
  proof -
    have "?m c \<noteq> None" using that spec [OF core, of c] by (cases "?m c") auto
    then show ?thesis using t unfolding table_ok_def by blast
  qed
  have "table_ok (insert a X) (s'\<lparr>shape_hash_count := shape_hash_count s' - 1\<rparr>)"
    unfolding table_ok_def
  proof (intro conjI allI impI)
    fix b assume "b < length (shape_table (s'\<lparr>shape_hash_count := shape_hash_count s' - 1\<rparr>))"
    then have b: "b < 2 ^ ?bits" using s'(3) len by simp
    show "\<exists>cs. shape_chain (rt_shapes (s'\<lparr>shape_hash_count := shape_hash_count s' - 1\<rparr>))
        (shape_table (s'\<lparr>shape_hash_count := shape_hash_count s' - 1\<rparr>) ! b) cs \<and> distinct cs \<and>
        set cs = hashed_at (rt_shapes (s'\<lparr>shape_hash_count := shape_hash_count s' - 1\<rparr>))
          (shape_hash_bits (s'\<lparr>shape_hash_count := shape_hash_count s' - 1\<rparr>)) (insert a X) b"
    proof (cases "b = ?h")
      case True
      have "set (ys @ zs) = set cs - {a}" using nin yz by auto
      then have "set (ys @ zs) = hashed_at (rt_shapes s') ?bits (insert a X) ?h"
        unfolding cs(3) ha [symmetric] hashed_at_core [OF core] .
      moreover have "distinct (ys @ zs)" using cs(2) yz by simp
      ultimately show ?thesis using True s'(4,5) by (intro exI [of _ "ys @ zs"]) simp
    next
      case False
      from shape_table_okD [OF t b] obtain ds where ds: "shape_chain ?m (shape_table s ! b) ds" "distinct ds" "set ds = hashed_at ?m ?bits X b"
        by metis
      have "shape_chain (rt_shapes s') (shape_table s ! b) ds = shape_chain ?m (shape_table s ! b) ds"
      proof (rule shape_chain_cong)
        fix c assume "c \<in> set ds"
        then have "c \<notin> set cs" using False unfolding ds(3) cs(3) hashed_at_def by auto
        then show "map_option shape_hash_next (rt_shapes s' c) = map_option shape_hash_next (?m c)" using s'(7) by simp
      qed
      then show ?thesis using False s'(4,6) ds ha [of b] other [OF False] hashed_at_core [OF core] by (intro exI [of _ ds]) simp
    qed
  qed (use t s'(2-4) bounds in \<open>auto simp: table_ok_def sr_same_def\<close>)
  moreover have "sr_same s (s'\<lparr>shape_hash_count := shape_hash_count s' - 1\<rparr>)" using s'(2) by (simp add: sr_same_def)
  ultimately show ?thesis using h s'(1)
    by (simp add: js_shape_hash_unlink_def sr_bind_shape [OF a(1)] sr_bind_lift Let_def sr_at_update)
qed

section \<open>Resizing the table\<close>

text \<open>The shapes \<open>P\<close> have been moved into the new table.\<close>

definition moved_ok :: "(nat \<Rightarrow> JSShape option) \<Rightarrow> nat list \<Rightarrow> nat \<Rightarrow> nat set \<Rightarrow> bool" where
  "moved_ok m new bits P \<longleftrightarrow> length new = 2 ^ bits \<and> (\<forall>a\<in>P. a \<noteq> 0 \<and> m a \<noteq> None) \<and>
     (\<forall>b<2 ^ bits. \<exists>cs. shape_chain m (new ! b) cs \<and> distinct cs \<and>
        set cs = {a\<in>P. \<exists>sh. m a = Some sh \<and> get_shape_hash (sh_hash sh) bits = b})"

definition same_cores :: "(nat \<Rightarrow> JSShape option) \<Rightarrow> (nat \<Rightarrow> JSShape option) \<Rightarrow> nat set \<Rightarrow> bool" where
  "same_cores m m' A \<longleftrightarrow> (\<forall>a. map_option sh_core (m' a) = map_option sh_core (m a)) \<and> (\<forall>a. a \<notin> A \<longrightarrow> m' a = m a)"

lemma moved_ok_step:
  assumes ok: "moved_ok m new bits P" and a: "a \<notin> P" "a \<noteq> 0" "m a = Some sh" and h: "h = get_shape_hash (sh_hash sh) bits"
  shows "moved_ok (m(a \<mapsto> sh\<lparr>shape_hash_next := new ! h\<rparr>)) (new[h := a]) bits (insert a P)"
proof -
  let ?m' = "m(a \<mapsto> sh\<lparr>shape_hash_next := new ! h\<rparr>)"
  have hl: "h < length new" using ok get_shape_hash_less [of "sh_hash sh" bits] h by (simp add: moved_ok_def)
  have "\<exists>cs. shape_chain ?m' (new[h := a] ! b) cs \<and> distinct cs \<and>
      set cs = {c\<in>insert a P. \<exists>sh. ?m' c = Some sh \<and> get_shape_hash (sh_hash sh) bits = b}" if b: "b < 2 ^ bits" for b
  proof -
    from ok b obtain cs where cs: "shape_chain m (new ! b) cs" "distinct cs"
      "set cs = {c\<in>P. \<exists>sh. m c = Some sh \<and> get_shape_hash (sh_hash sh) bits = b}" unfolding moved_ok_def by blast
    have nin: "a \<notin> set cs" using cs(3) a(1) by simp
    then have "shape_chain ?m' x cs = shape_chain m x cs" for x by (intro shape_chain_cong) auto
    then have same: "shape_chain ?m' (new ! b) cs" using cs(1) by simp
    have set': "{c\<in>insert a P. \<exists>sh. ?m' c = Some sh \<and> get_shape_hash (sh_hash sh) bits = b} =
        (if h = b then insert a (set cs) else set cs)"
      unfolding cs(3) using a(1) h by auto
    show ?thesis
    proof (cases "h = b")
      case True
      then show ?thesis using same cs(2) nin a(2) hl set' by (intro exI [of _ "a # cs"]) simp
    next
      case False
      then show ?thesis using same cs(2) set' by (intro exI [of _ cs]) simp
    qed
  qed
  moreover have "\<forall>c\<in>insert a P. c \<noteq> 0 \<and> ?m' c \<noteq> None" using ok a(2) unfolding moved_ok_def by auto
  ultimately show ?thesis using ok unfolding moved_ok_def by simp
qed

lemma resize_chain_loop_spec:
  assumes "moved_ok m new bits P" "shape_chain m a cs" "distinct cs" "set cs \<inter> P = {}" "length cs \<le> fuel"
  shows "\<exists>m' new'. resize_chain_loop m new bits a fuel = Inr (m', new') \<and> moved_ok m' new' bits (P \<union> set cs) \<and>
    same_cores m m' (set cs)"
  using assms
proof (induction cs arbitrary: m new P a fuel)
  case Nil
  then show ?case by (simp add: resize_chain_loop.simps same_cores_def)
next
  case (Cons c cs)
  then obtain n where n: "fuel = Suc n" "length cs \<le> n" by (cases fuel) auto
  from Cons.prems(2) obtain sh where c: "a = c" "c \<noteq> 0" "m c = Some sh" "shape_chain m (shape_hash_next sh) cs" by auto
  let ?h = "get_shape_hash (sh_hash sh) bits"
  let ?m = "m(c \<mapsto> sh\<lparr>shape_hash_next := new ! ?h\<rparr>)" and ?new = "new[?h := c]"
  have hl: "?h < length new" using Cons.prems(1) get_shape_hash_less [of "sh_hash sh" bits] by (simp add: moved_ok_def)
  have ok: "moved_ok ?m ?new bits (insert c P)" using Cons.prems(1,4) c by (intro moved_ok_step) auto
  have "shape_chain ?m x cs = shape_chain m x cs" for x
    by (rule shape_chain_cong) (use Cons.prems(3) in auto)
  then have ch: "shape_chain ?m (shape_hash_next sh) cs" using c(4) by simp
  have "distinct cs" "set cs \<inter> insert c P = {}" using Cons.prems(3,4) by auto
  from Cons.IH [OF ok ch this n(2)] obtain m' new' where r: "resize_chain_loop ?m ?new bits (shape_hash_next sh) n = Inr (m', new')"
    "moved_ok m' new' bits (insert c P \<union> set cs)" "same_cores ?m m' (set cs)" by blast
  have "same_cores m m' (set (c # cs))" using r(3) c(3) by (auto simp: same_cores_def sh_core_def)
  then show ?case using r(1,2) c n hl by (simp add: resize_chain_loop.simps [of m new bits c])
qed

lemma resize_table_loop_spec:
  assumes "moved_ok m new bits P" "list_all2 (\<lambda>a cs. shape_chain m a cs \<and> length cs \<le> fuel) as css"
    "distinct (concat css)" "set (concat css) \<inter> P = {}"
  shows "\<exists>m' new'. resize_table_loop m new bits as fuel = Inr (m', new') \<and> moved_ok m' new' bits (P \<union> set (concat css)) \<and>
    same_cores m m' (set (concat css))"
  using assms
proof (induction as arbitrary: m new P css)
  case Nil
  then show ?case by (simp add: same_cores_def)
next
  case (Cons a as)
  then obtain cs css1 where css: "css = cs # css1" "shape_chain m a cs" "length cs \<le> fuel"
    "list_all2 (\<lambda>a cs. shape_chain m a cs \<and> length cs \<le> fuel) as css1" by (auto simp: list_all2_Cons1)
  have d: "distinct cs" "set cs \<inter> P = {}" "distinct (concat css1)" "set (concat css1) \<inter> (P \<union> set cs) = {}"
    using Cons.prems(3,4) css(1) by auto
  from resize_chain_loop_spec [OF Cons.prems(1) css(2) d(1,2) css(3)] obtain m1 new1 where
    r1: "resize_chain_loop m new bits a fuel = Inr (m1, new1)" "moved_ok m1 new1 bits (P \<union> set cs)" "same_cores m m1 (set cs)" by blast
  have "shape_chain m1 x ds = shape_chain m x ds" if "ds \<in> set css1" for x ds
  proof (rule shape_chain_cong)
    fix c assume "c \<in> set ds"
    then have "c \<notin> set cs" using d(4) that by auto
    then show "map_option shape_hash_next (m1 c) = map_option shape_hash_next (m c)" using r1(3) by (simp add: same_cores_def)
  qed
  then have "list_all2 (\<lambda>a cs. shape_chain m1 a cs \<and> length cs \<le> fuel) as css1"
    using css(4) by (auto simp: list_all2_conv_all_nth)
  from Cons.IH [OF r1(2) this d(3,4)] obtain m' new' where r2: "resize_table_loop m1 new1 bits as fuel = Inr (m', new')"
    "moved_ok m' new' bits (P \<union> set cs \<union> set (concat css1))" "same_cores m1 m' (set (concat css1))" by blast
  have "same_cores m m' (set (concat css))" using r1(3) r2(3) css(1) by (auto simp: same_cores_def)
  then show ?case using r1(1) r2(1,2) css(1) by (simp add: Un_assoc)
qed

lemma resize_spec:
  assumes t: "table_ok X s" and E: "E s"
  shows "sr_at F s (resize_shape_hash bits) (\<lambda>_ s'. table_ok X s' \<and> sr_same s s') E"
proof -
  let ?m = "rt_shapes s" and ?tab = "shape_table s"
  have len: "length ?tab = 2 ^ shape_hash_bits s" using t by (simp add: table_ok_def)
  have "\<forall>b<length ?tab. \<exists>cs. shape_chain ?m (?tab ! b) cs \<and> distinct cs \<and> set cs = hashed_at ?m (shape_hash_bits s) X b \<and> length cs \<le> sr_brk s"
    using shape_table_okD [OF t] len by metis
  then obtain f where f: "\<And>b. b < length ?tab \<Longrightarrow> shape_chain ?m (?tab ! b) (f b) \<and> distinct (f b) \<and>
      set (f b) = hashed_at ?m (shape_hash_bits s) X b \<and> length (f b) \<le> sr_brk s" by metis
  let ?css = "map f [0..<length ?tab]"
  have all: "list_all2 (\<lambda>a cs. shape_chain ?m a cs \<and> length cs \<le> sr_brk s) ?tab ?css"
    using f by (simp add: list_all2_conv_all_nth)
  have inj: "hashed_at ?m n X b \<inter> hashed_at ?m n X c = {}" if "b \<noteq> c" for n b c using that by (auto simp: hashed_at_def)
  have "distinct (concat (map f [0..<n]))" if "n \<le> length ?tab" for n
    using that
  proof (induction n)
    case (Suc n)
    have "set (f b) \<inter> set (f n) = {}" if "b < n" for b
      using f [of b] f [of n] Suc.prems that inj [of b n "shape_hash_bits s"] by simp
    then show ?case using Suc f [of n] by (auto simp: disjoint_iff)
  qed simp
  then have dist: "distinct (concat ?css)" by simp
  have "shape_chain ?m (replicate (2 ^ bits) 0 ! b) []" if "b < 2 ^ bits" for b using that by simp
  then have ok0: "moved_ok ?m (replicate (2 ^ bits) 0) bits {}" unfolding moved_ok_def by force
  from resize_table_loop_spec [OF ok0 all dist] obtain m' new' where
    r: "resize_table_loop ?m (replicate (2 ^ bits) 0) bits ?tab (sr_brk s) = Inr (m', new')"
      "moved_ok m' new' bits (set (concat ?css))" "same_cores ?m m' (set (concat ?css))" by auto
  let ?s' = "s\<lparr>rt_shapes := m', shape_hash_bits := bits, shape_hash_size := 2 ^ bits, shape_table := new'\<rparr>"
  have core: "\<forall>a. map_option sh_core (m' a) = map_option sh_core (?m a)" using r(3) by (simp add: same_cores_def)
  have union: "set (concat ?css) = {a. a \<notin> X \<and> (\<exists>sh. ?m a = Some sh \<and> is_hashed sh)}"
  proof -
    have "set (concat ?css) = (\<Union>b<length ?tab. hashed_at ?m (shape_hash_bits s) X b)" using f by auto
    also have "\<dots> = {a. a \<notin> X \<and> (\<exists>sh. ?m a = Some sh \<and> is_hashed sh)}"
      unfolding len hashed_at_def using get_shape_hash_less by blast
    finally show ?thesis .
  qed
  have "table_ok X ?s'"
    unfolding table_ok_def
  proof (intro conjI allI impI)
    fix b assume "b < length (shape_table ?s')"
    then have b: "b < 2 ^ bits" using r(2) by (simp add: moved_ok_def)
    then obtain cs where cs: "shape_chain m' (new' ! b) cs" "distinct cs"
      "set cs = {a\<in>set (concat ?css). \<exists>sh. m' a = Some sh \<and> get_shape_hash (sh_hash sh) bits = b}"
      using r(2) unfolding moved_ok_def by blast
    have eq: "\<exists>sh'. ?m a = Some sh' \<and> is_hashed sh' = is_hashed sh" if "m' a = Some sh" for a sh
    proof -
      from spec [OF core, of a] that obtain sh' where "?m a = Some sh'" "sh_core sh = sh_core sh'" by (cases "?m a") auto
      then show ?thesis using sh_core_fields [of sh sh'] by blast
    qed
    have "{a\<in>set (concat ?css). \<exists>sh. m' a = Some sh \<and> get_shape_hash (sh_hash sh) bits = b} = hashed_at m' bits X b"
      unfolding union hashed_at_def using eq by fastforce
    then show "\<exists>cs. shape_chain (rt_shapes ?s') (shape_table ?s' ! b) cs \<and> distinct cs \<and>
        set cs = hashed_at (rt_shapes ?s') (shape_hash_bits ?s') X b"
      using cs by (intro exI [of _ cs]) simp
  next
    fix c assume "rt_shapes ?s' c \<noteq> None"
    then have "?m c \<noteq> None" using spec [OF core, of c] by (cases "?m c") auto
    from table_ok_bounds [OF t this] show "0 < c" "c < sr_brk ?s'" by simp_all
  qed (use t r(2) in \<open>auto simp: table_ok_def moved_ok_def\<close>)
  moreover have "sr_same s ?s'" using core by (simp add: sr_same_def)
  ultimately show ?thesis unfolding resize_shape_hash_def
    by (intro sr_bind_malloc [of E, OF E]) (simp add: sr_bind_lift r(1) sr_at_update)
qed

section \<open>Searching the table\<close>

lemma find_hashed_loop_spec:
  assumes "shape_chain (rt_shapes s) a cs" "length cs \<le> fuel"
  shows "\<exists>r. find_hashed_loop ok s a fuel = Inr r \<and> (r = 0 \<or> (r \<in> set cs \<and> (\<exists>sh. rt_shapes s r = Some sh \<and> ok sh)))"
  using assms
proof (induction cs arbitrary: a fuel)
  case Nil
  then show ?case by (simp add: find_hashed_loop.simps)
next
  case (Cons c cs)
  then obtain n where n: "fuel = Suc n" "length cs \<le> n" by (cases fuel) auto
  from Cons.prems(1) obtain sh where c: "a = c" "c \<noteq> 0" "rt_shapes s c = Some sh" "shape_chain (rt_shapes s) (shape_hash_next sh) cs" by auto
  from Cons.IH [OF c(4) n(2)] show ?case using c n(1) by (auto simp: find_hashed_loop.simps [of ok s c])
qed

lemma find_hashed_spec:
  assumes t: "table_ok {} s"
  obtains r where "\<And>mem. find_hashed ok h (s, mem) = (Inr r, s, mem)"
    "r = 0 \<or> (r \<noteq> 0 \<and> (\<exists>sh. rt_shapes s r = Some sh \<and> is_hashed sh \<and> ok sh))"
proof -
  let ?b = "get_shape_hash h (shape_hash_bits s)"
  have b: "?b < 2 ^ shape_hash_bits s" by (rule get_shape_hash_less)
  from shape_table_okD [OF t b] obtain cs where cs: "shape_chain (rt_shapes s) (shape_table s ! ?b) cs"
    "set cs = hashed_at (rt_shapes s) (shape_hash_bits s) {} ?b" "length cs \<le> sr_brk s" by metis
  from find_hashed_loop_spec [OF cs(1,3), of ok] obtain r where r: "find_hashed_loop ok s (shape_table s ! ?b) (sr_brk s) = Inr r"
    "r = 0 \<or> (r \<in> set cs \<and> (\<exists>sh. rt_shapes s r = Some sh \<and> ok sh))" by blast
  have "?b < length (shape_table s)" using t b by (simp add: table_ok_def)
  then have "find_hashed ok h (s, mem) = (Inr r, s, mem)" for mem
    by (simp add: find_hashed_def sr_lift_def Let_def r(1))
  moreover have "r = 0 \<or> (r \<noteq> 0 \<and> (\<exists>sh. rt_shapes s r = Some sh \<and> is_hashed sh \<and> ok sh))"
    using r(2) by (auto simp: cs(2) hashed_at_def)
  ultimately show thesis using that by blast
qed

end
