(* ===== verification/ObjectHeap.thy ===== *)
theory ObjectHeap
  imports ShapeTable
begin

text \<open>
  The heap of objects and shapes: the invariant, the view of an object as a list of properties, and the changes of the
  heap from which the operations are made.
\<close>

section \<open>The invariant\<close>

definition users :: "ShapeRuntime \<Rightarrow> nat \<Rightarrow> nat set" where
  "users s a = {p. \<exists>ob. rt_objects s p = Some ob \<and> ob_shape ob = a}"

definition object_ok :: "ShapeRuntime \<Rightarrow> nat \<Rightarrow> JSObject \<Rightarrow> bool" where
  "object_ok s p ob \<longleftrightarrow> 0 < p \<and> p < sr_brk s \<and> (\<exists>sh. rt_shapes s (ob_shape ob) = Some sh \<and>
     prop_size sh \<le> length (ob_prop ob))"

text \<open>A shape has one reference for each of its objects and \<open>ext\<close> others. A shape that is not hashed is not shared.\<close>

definition shape_ok :: "(nat \<Rightarrow> int) \<Rightarrow> nat \<Rightarrow> ShapeRuntime \<Rightarrow> nat \<Rightarrow> JSShape \<Rightarrow> bool" where
  "shape_ok ext N s a sh \<longleftrightarrow> shape_wf sh \<and> length (sh_prop sh) \<le> N \<and> sh_ref_count sh = ext a + int (card (users s a)) \<and>
     0 < sh_ref_count sh \<and> (is_hashed sh \<or> sh_ref_count sh = 1)"

definition heap_ok :: "(nat \<Rightarrow> int) \<Rightarrow> nat \<Rightarrow> ShapeRuntime \<Rightarrow> bool" where
  "heap_ok ext N s \<longleftrightarrow> (\<forall>p ob. rt_objects s p = Some ob \<longrightarrow> object_ok s p ob) \<and>
     (\<forall>a sh. rt_shapes s a = Some sh \<longrightarrow> shape_ok ext N s a sh) \<and> (\<forall>a. rt_shapes s a = None \<longrightarrow> ext a = 0)"

definition sr_inv :: "(nat \<Rightarrow> int) \<Rightarrow> nat \<Rightarrow> nat set \<Rightarrow> ShapeRuntime \<Rightarrow> bool" where
  "sr_inv ext N X s \<longleftrightarrow> heap_ok ext N s \<and> table_ok X s"

text \<open>An object as its prototype and its properties.\<close>

type_synonym obj_view = "nat \<times> entries"

definition view :: "ShapeRuntime \<Rightarrow> nat \<Rightarrow> obj_view option" where
  "view s p = (case rt_objects s p of None \<Rightarrow> None | Some ob \<Rightarrow>
     (case rt_shapes s (ob_shape ob) of None \<Rightarrow> None | Some sh \<Rightarrow> Some (sh_proto sh, prop_entries (sh_prop sh) (ob_prop ob))))"

lemma sr_inv_object: "sr_inv ext N X s \<Longrightarrow> rt_objects s p = Some ob \<Longrightarrow> object_ok s p ob"
  unfolding sr_inv_def heap_ok_def by blast

lemma sr_inv_shape: "sr_inv ext N X s \<Longrightarrow> rt_shapes s a = Some sh \<Longrightarrow> shape_ok ext N s a sh"
  unfolding sr_inv_def heap_ok_def by blast

lemma sr_inv_free: "sr_inv ext N X s \<Longrightarrow> rt_shapes s a = None \<Longrightarrow> ext a = 0"
  unfolding sr_inv_def heap_ok_def by blast

lemma sr_inv_table: "sr_inv ext N X s \<Longrightarrow> table_ok X s"
  by (simp add: sr_inv_def)

lemma sr_inv_bounds: "sr_inv ext N X s \<Longrightarrow> rt_shapes s a \<noteq> None \<Longrightarrow> 0 < a \<and> a < sr_brk s"
  using table_ok_bounds sr_inv_table by blast

lemma finite_users:
  assumes "sr_inv ext N X s"
  shows "finite (users s a)"
proof (rule finite_subset)
  show "users s a \<subseteq> {..<sr_brk s}" using sr_inv_object [OF assms] by (auto simp: users_def object_ok_def)
qed simp

lemma sr_inv_mono: "sr_inv ext N X s \<Longrightarrow> N \<le> M \<Longrightarrow> sr_inv ext M X s"
  unfolding sr_inv_def heap_ok_def shape_ok_def by fastforce

lemma fresh_shape: "sr_inv ext N X s \<Longrightarrow> rt_shapes s (sr_brk s) = None"
  using sr_inv_bounds by (metis less_irrefl)

lemma fresh_object: "sr_inv ext N X s \<Longrightarrow> rt_objects s (sr_brk s) = None"
  using sr_inv_object [of ext N X s "sr_brk s"] by (cases "rt_objects s (sr_brk s)") (auto simp: object_ok_def)

lemma users_fresh:
  assumes "sr_inv ext N X s" "rt_shapes s a = None"
  shows "users s a = {}"
  using sr_inv_object [OF assms(1)] assms(2) by (force simp: users_def object_ok_def)

text \<open>A shape with a single reference and an object has no other.\<close>

lemma sole_user:
  assumes inv: "sr_inv ext N X s" and p: "rt_objects s p = Some ob" and a: "rt_shapes s (ob_shape ob) = Some sh"
    and one: "sh_ref_count sh = 1" and ext: "0 \<le> ext (ob_shape ob)"
  shows "users s (ob_shape ob) = {p}" "ext (ob_shape ob) = 0"
proof -
  have p: "p \<in> users s (ob_shape ob)" using p by (auto simp: users_def)
  then have "0 < card (users s (ob_shape ob))" using finite_users [OF inv] card_gt_0_iff by blast
  with sr_inv_shape [OF inv a] one ext have "card (users s (ob_shape ob)) = 1" "ext (ob_shape ob) = 0"
    by (auto simp: shape_ok_def)
  then show "users s (ob_shape ob) = {p}" "ext (ob_shape ob) = 0" using p by (auto simp: card_1_singleton_iff)
qed

lemma sr_same_inv:
  assumes "sr_inv ext N X s" "sr_same s s'" "table_ok Y s'"
  shows "sr_inv ext N Y s'" "view s' = view s"
proof -
  have m: "map_option sh_core (rt_shapes s' a) = map_option sh_core (rt_shapes s a)" and ob: "rt_objects s' = rt_objects s"
    and brk: "sr_brk s' = sr_brk s" for a using assms(2) by (auto simp: sr_same_def)
  have u: "users s' = users s" by (simp add: users_def ob fun_eq_iff)
  have fwd: "\<exists>sh'. rt_shapes s' a = Some sh' \<and> sh_core sh' = sh_core sh" if "rt_shapes s a = Some sh" for a sh
    using m [of a] that by (cases "rt_shapes s' a") auto
  have bwd: "\<exists>sh. rt_shapes s a = Some sh \<and> sh_core sh' = sh_core sh" if "rt_shapes s' a = Some sh'" for a sh'
    using m [of a] that by (cases "rt_shapes s a") auto
  have "object_ok s' p x" if "rt_objects s' p = Some x" for p x
  proof -
    have "object_ok s p x" using sr_inv_object [OF assms(1)] that ob by simp
    then obtain sh where sh: "0 < p" "p < sr_brk s" "rt_shapes s (ob_shape x) = Some sh"
      "prop_size sh \<le> length (ob_prop x)" by (auto simp: object_ok_def)
    from fwd [OF sh(3)] obtain sh' where "rt_shapes s' (ob_shape x) = Some sh'" "sh_core sh' = sh_core sh" by blast
    then show ?thesis using sh sh_core_fields [of sh' sh] brk by (simp add: object_ok_def)
  qed
  moreover have "shape_ok ext N s' a sh'" if "rt_shapes s' a = Some sh'" for a sh'
  proof -
    from bwd [OF that] obtain sh where sh: "rt_shapes s a = Some sh" "sh_core sh' = sh_core sh" by blast
    have "shape_ok ext N s' a sh' = shape_ok ext N s a sh"
      by (simp only: shape_ok_def shape_wf_def u sh_core_fields [OF sh(2)])
    then show ?thesis using sr_inv_shape [OF assms(1) sh(1)] by simp
  qed
  moreover have "ext a = 0" if "rt_shapes s' a = None" for a
    using sr_inv_free [OF assms(1), of a] m [of a] that by simp
  ultimately show "sr_inv ext N Y s'" using assms(3) unfolding sr_inv_def heap_ok_def by blast
  show "view s' = view s"
  proof
    fix p
    show "view s' p = view s p"
    proof (cases "rt_objects s p")
      case (Some x)
      then show ?thesis
      proof (cases "rt_shapes s (ob_shape x)")
        case (Some sh)
        from fwd [OF Some] obtain sh' where "rt_shapes s' (ob_shape x) = Some sh'" "sh_core sh' = sh_core sh" by blast
        then show ?thesis using Some \<open>rt_objects s p = Some x\<close> ob sh_core_fields [of sh' sh] by (simp add: view_def)
      next
        case None
        then have "rt_shapes s' (ob_shape x) = None" using m [of "ob_shape x"] by simp
        then show ?thesis using None \<open>rt_objects s p = Some x\<close> ob by (simp add: view_def)
      qed
    qed (simp add: view_def ob)
  qed
qed

section \<open>Changes of the heap\<close>

lemma users_put_shape [simp]: "users (put_shape a sh s) = users s" "users (free_shape_mem a s) = users s"
  "users (s\<lparr>sr_brk := n\<rparr>) = users s"
  by (simp_all add: users_def fun_eq_iff)

lemma users_put_object:
  assumes "rt_objects s p = Some ob"
  shows "users (put_object p ob' s) a = (if ob_shape ob' = a then insert p (users s a) else users s a - {p})"
  using assms by (auto simp: users_def)

lemma users_new_object:
  assumes "rt_objects s p = None"
  shows "users (put_object p ob' s) a = (if ob_shape ob' = a then insert p (users s a) else users s a)"
  using assms by (auto simp: users_def)

text \<open>The reference count of a shape changes with the references from outside.\<close>

lemma put_ref_count:
  assumes inv: "sr_inv ext N X s" and a: "rt_shapes s a = Some sh" and n: "0 < sh_ref_count sh + d" "is_hashed sh \<or> sh_ref_count sh + d = 1"
  shows "sr_inv (ext(a := ext a + d)) N X (put_shape a (sh\<lparr>sh_ref_count := sh_ref_count sh + d\<rparr>) s)"
    "view (put_shape a (sh\<lparr>sh_ref_count := sh_ref_count sh + d\<rparr>) s) = view s"
proof -
  let ?s = "put_shape a (sh\<lparr>sh_ref_count := sh_ref_count sh + d\<rparr>) s"
  have "object_ok ?s p x" if "rt_objects s p = Some x" for p x
    using sr_inv_object [OF inv that] a by (auto simp: object_ok_def)
  moreover have "shape_ok (ext(a := ext a + d)) N ?s c sh'" if "rt_shapes ?s c = Some sh'" for c sh'
    using sr_inv_shape [OF inv, of c] a n that by (auto simp: shape_ok_def shape_wf_def split: if_splits)
  moreover have "(ext(a := ext a + d)) c = 0" if "rt_shapes ?s c = None" for c
    using sr_inv_free [OF inv, of c] that by (auto split: if_splits)
  moreover have "table_ok X ?s"
    by (rule table_frame [OF sr_inv_table [OF inv]])
      (use inv a sr_inv_bounds [OF inv] in \<open>auto simp: hashed_at_def sr_inv_def table_ok_def split: if_splits\<close>)
  ultimately show "sr_inv (ext(a := ext a + d)) N X ?s" unfolding sr_inv_def heap_ok_def by simp
  show "view ?s = view s" using a by (auto simp: view_def fun_eq_iff split: option.split)
qed

text \<open>A new shape has one reference from outside.\<close>

lemma new_shape_inv:
  assumes inv: "sr_inv ext N X s" and wf: "shape_wf sh" "length (sh_prop sh) \<le> N" "sh_ref_count sh = 1" and b: "b = sr_brk s"
    and Y: "Y = (if is_hashed sh then insert b X else X)"
  shows "sr_inv (ext(b := 1)) N Y (put_shape b sh (s\<lparr>sr_brk := b + 1\<rparr>))" "view (put_shape b sh (s\<lparr>sr_brk := b + 1\<rparr>)) = view s"
proof -
  let ?s = "put_shape b sh (s\<lparr>sr_brk := b + 1\<rparr>)"
  have fresh: "rt_shapes s b = None" using fresh_shape [OF inv] b by simp
  have ob: "object_ok ?s p x \<and> ob_shape x \<noteq> b" if "rt_objects s p = Some x" for p x
    using sr_inv_object [OF inv that] fresh b by (auto simp: object_ok_def)
  have "shape_ok (ext(b := 1)) N ?s c sh'" if "rt_shapes ?s c = Some sh'" for c sh'
    using sr_inv_shape [OF inv, of c] users_fresh [OF inv fresh] wf that by (auto simp: shape_ok_def split: if_splits)
  moreover have "(ext(b := 1)) c = 0" if "rt_shapes ?s c = None" for c
    using sr_inv_free [OF inv, of c] that by (auto split: if_splits)
  moreover have "table_ok Y ?s"
  proof (rule table_frame [OF sr_inv_table [OF inv]])
    fix a assume "rt_shapes ?s a \<noteq> None"
    then show "0 < a \<and> a < sr_brk ?s" using sr_inv_bounds [OF inv, of a] sr_inv_table [OF inv] b
      by (auto simp: table_ok_def split: if_splits)
  next
    fix c show "hashed_at (rt_shapes ?s) (shape_hash_bits s) Y c = hashed_at (rt_shapes s) (shape_hash_bits s) X c"
      using fresh by (auto simp: hashed_at_def Y)
  qed (use fresh in auto)
  ultimately show "sr_inv (ext(b := 1)) N Y ?s" using ob unfolding sr_inv_def heap_ok_def by simp
  show "view ?s = view s"
  proof
    fix p show "view ?s p = view s p" using ob by (auto simp: view_def split: option.split)
  qed
qed

text \<open>An object takes another shape, or other values.\<close>

lemma table_put_object [simp]: "table_ok X (put_object p ob s) = table_ok X s"
  by (simp add: table_ok_def)

lemma move_object:
  assumes inv: "sr_inv ext N X s" and p: "rt_objects s p = Some ob" and b: "rt_shapes s b = Some sh"
    and vals: "prop_size sh \<le> length vs" and ab: "b \<noteq> ob_shape ob"
  shows "sr_inv (ext(ob_shape ob := ext (ob_shape ob) + 1, b := ext b - 1)) N X (put_object p \<lparr>ob_shape = b, ob_prop = vs\<rparr> s)"
    "view (put_object p \<lparr>ob_shape = b, ob_prop = vs\<rparr> s) = (view s)(p \<mapsto> (sh_proto sh, prop_entries (sh_prop sh) vs))"
proof -
  let ?s = "put_object p \<lparr>ob_shape = b, ob_prop = vs\<rparr> s" and ?a = "ob_shape ob"
  let ?ext = "ext(?a := ext ?a + 1, b := ext b - 1)"
  have "object_ok ?s q x" if "rt_objects ?s q = Some x" for q x
    using sr_inv_object [OF inv, of q] sr_inv_object [OF inv p] b vals that by (auto simp: object_ok_def split: if_splits)
  moreover have "shape_ok ?ext N ?s c sh'" if c: "rt_shapes s c = Some sh'" for c sh'
  proof -
    have fin: "finite (users s c)" by (rule finite_users [OF inv])
    have "p \<in> users s ?a" "p \<notin> users s b" using p ab by (auto simp: users_def)
    then have "int (card (users ?s c)) = int (card (users s c)) + (if c = b then 1 else if c = ?a then -1 else 0)"
    proof (cases "c = ?a")
      case True
      have "0 < card (users s ?a)" using \<open>p \<in> users s ?a\<close> fin True card_gt_0_iff by blast
      with True show ?thesis using users_put_object [OF p, of "\<lparr>ob_shape = b, ob_prop = vs\<rparr>" c] ab \<open>p \<in> users s ?a\<close> fin by (simp add: of_nat_diff)
    next
      case False
      have "p \<notin> users s c" using p False by (auto simp: users_def)
      then show ?thesis using users_put_object [OF p, of "\<lparr>ob_shape = b, ob_prop = vs\<rparr>" c] fin False by (simp split: if_splits)
    qed
    then show ?thesis using sr_inv_shape [OF inv c] ab by (auto simp: shape_ok_def)
  qed
  moreover have "?ext c = 0" if "rt_shapes s c = None" for c
    using sr_inv_free [OF inv that] sr_inv_object [OF inv p] that b by (auto simp: object_ok_def)
  moreover have "table_ok X ?s" using inv by (simp add: sr_inv_def)
  ultimately show "sr_inv ?ext N X ?s" unfolding sr_inv_def heap_ok_def by simp
  show "view ?s = (view s)(p \<mapsto> (sh_proto sh, prop_entries (sh_prop sh) vs))" using b by (simp add: view_def fun_eq_iff split: option.split)
qed

lemma put_values:
  assumes inv: "sr_inv ext N X s" and p: "rt_objects s p = Some ob" and a: "rt_shapes s (ob_shape ob) = Some sh"
    and vals: "prop_size sh \<le> length vs"
  shows "sr_inv ext N X (put_object p (ob\<lparr>ob_prop := vs\<rparr>) s)"
    "view (put_object p (ob\<lparr>ob_prop := vs\<rparr>) s) = (view s)(p \<mapsto> (sh_proto sh, prop_entries (sh_prop sh) vs))"
proof -
  let ?s = "put_object p (ob\<lparr>ob_prop := vs\<rparr>) s"
  have u: "users ?s = users s" using users_put_object [OF p] p by (auto simp: fun_eq_iff users_def)
  have "object_ok ?s q x" if "rt_objects ?s q = Some x" for q x
    using sr_inv_object [OF inv, of q] sr_inv_object [OF inv p] a vals that by (auto simp: object_ok_def split: if_splits)
  moreover have "shape_ok ext N ?s c sh'" if "rt_shapes s c = Some sh'" for c sh'
    using sr_inv_shape [OF inv that] unfolding shape_ok_def u .
  moreover have "ext c = 0" if "rt_shapes s c = None" for c using sr_inv_free [OF inv that] .
  moreover have "table_ok X ?s" using inv by (simp add: sr_inv_def)
  ultimately show "sr_inv ext N X ?s" unfolding sr_inv_def heap_ok_def by simp
  show "view ?s = (view s)(p \<mapsto> (sh_proto sh, prop_entries (sh_prop sh) vs))" using a by (simp add: view_def fun_eq_iff split: option.split)
qed

section \<open>Further changes\<close>

text \<open>Freeing a shape without objects.\<close>

lemma free_mem_inv:
  assumes inv: "sr_inv ext N X s" and a: "rt_shapes s a = Some sh" "users s a = {}" and X: "is_hashed sh \<Longrightarrow> a \<in> X"
  shows "sr_inv (ext(a := 0)) N (X - {a}) (free_shape_mem a s)" "view (free_shape_mem a s) = view s"
proof -
  let ?s = "free_shape_mem a s"
  have ob: "object_ok ?s p x \<and> ob_shape x \<noteq> a" if "rt_objects s p = Some x" for p x
    using sr_inv_object [OF inv that] a(2) that by (auto simp: object_ok_def users_def)
  have "shape_ok (ext(a := 0)) N ?s c sh'" if "rt_shapes ?s c = Some sh'" for c sh'
    using sr_inv_shape [OF inv, of c] that by (auto simp: shape_ok_def split: if_splits)
  moreover have "(ext(a := 0)) c = 0" if "rt_shapes ?s c = None" for c
    using sr_inv_free [OF inv, of c] that by (auto split: if_splits)
  moreover have "table_ok (X - {a}) ?s"
  proof (rule table_frame [OF sr_inv_table [OF inv]])
    fix c assume "rt_shapes ?s c \<noteq> None"
    then show "0 < c \<and> c < sr_brk ?s" using sr_inv_bounds [OF inv, of c] by (simp split: if_splits)
  next
    fix c show "hashed_at (rt_shapes ?s) (shape_hash_bits s) (X - {a}) c = hashed_at (rt_shapes s) (shape_hash_bits s) X c"
      using a X by (auto simp: hashed_at_def)
  next
    fix c sh' assume "rt_shapes s c = Some sh'" "is_hashed sh'" "c \<notin> X"
    then show "map_option shape_hash_next (rt_shapes ?s c) = Some (shape_hash_next sh')" using a X by auto
  qed (use sr_inv_table [OF inv] in \<open>simp_all add: table_ok_def\<close>)
  ultimately show "sr_inv (ext(a := 0)) N (X - {a}) ?s" using ob unfolding sr_inv_def heap_ok_def by simp
  show "view ?s = view s"
  proof
    fix p show "view ?s p = view s p" using ob by (auto simp: view_def split: option.split)
  qed
qed

text \<open>A shape used by one object only may change.\<close>

lemma put_sole_shape:
  assumes inv: "sr_inv ext N X s" and p: "rt_objects s p = Some ob" and a: "rt_shapes s (ob_shape ob) = Some sh" "users s (ob_shape ob) = {p}"
    and wf: "shape_wf sh'" "length (sh_prop sh') \<le> M" "sh_ref_count sh' = 1" "prop_size sh' \<le> length (ob_prop ob)" and one: "sh_ref_count sh = 1"
    and M: "N \<le> M" and t: "table_ok Y (put_shape (ob_shape ob) sh' s)"
  shows "sr_inv ext M Y (put_shape (ob_shape ob) sh' s)"
    "view (put_shape (ob_shape ob) sh' s) = (view s)(p \<mapsto> (sh_proto sh', prop_entries (sh_prop sh') (ob_prop ob)))"
proof -
  let ?a = "ob_shape ob"
  let ?s = "put_shape ?a sh' s"
  have ob: "ob_shape x \<noteq> ?a" if "rt_objects s q = Some x" "q \<noteq> p" for q x using a(2) that by (auto simp: users_def)
  have "object_ok ?s q x" if q: "rt_objects s q = Some x" for q x
  proof (cases "q = p")
    case True
    then show ?thesis using sr_inv_object [OF inv q] q p wf(4) by (simp add: object_ok_def)
  next
    case False
    then show ?thesis using sr_inv_object [OF inv q] ob [OF q False] by (simp add: object_ok_def)
  qed
  moreover have "shape_ok ext M ?s c sh1" if "rt_shapes ?s c = Some sh1" for c sh1
  proof (cases "c = ?a")
    case True
    then show ?thesis using sr_inv_shape [OF inv a(1)] that wf one by (simp add: shape_ok_def)
  next
    case False
    then have "shape_ok ext N s c sh1" using sr_inv_shape [OF inv] that by simp
    then show ?thesis using M by (auto simp: shape_ok_def)
  qed
  moreover have "ext c = 0" if "rt_shapes ?s c = None" for c
    using sr_inv_free [OF inv, of c] that by (simp split: if_splits)
  ultimately show "sr_inv ext M Y ?s" using t unfolding sr_inv_def heap_ok_def by simp
  show "view ?s = (view s)(p \<mapsto> (sh_proto sh', prop_entries (sh_prop sh') (ob_prop ob)))"
  proof
    fix q show "view ?s q = ((view s)(p \<mapsto> (sh_proto sh', prop_entries (sh_prop sh') (ob_prop ob)))) q"
      using ob p by (auto simp: view_def split: option.split)
  qed
qed

lemma table_put_same:
  assumes "table_ok X s" "rt_shapes s a = Some sh" "is_hashed sh' = is_hashed sh" "sh_hash sh' = sh_hash sh"
    "shape_hash_next sh' = shape_hash_next sh"
  shows "table_ok X (put_shape a sh' s)"
  by (rule table_frame [OF assms(1)])
    (use assms table_ok_bounds [OF assms(1)] in \<open>auto simp: hashed_at_def table_ok_def split: if_splits\<close>)

lemma table_put_out:
  assumes "table_ok X s" "rt_shapes s a = Some sh" "a \<in> X \<or> \<not> is_hashed sh" "Y = (if is_hashed sh' then insert a X else X - {a})"
  shows "table_ok Y (put_shape a sh' s)"
  by (rule table_frame [OF assms(1)])
    (use assms table_ok_bounds [OF assms(1)] in \<open>auto simp: hashed_at_def table_ok_def split: if_splits\<close>)

text \<open>An object with a new shape in place of its own.\<close>

lemma put_object_free: "put_object p ob (free_shape_mem a s) = free_shape_mem a (put_object p ob s)"
  by (simp add: put_object_def free_shape_mem_def)

lemma replace_shape:
  assumes inv: "sr_inv ext N X s" and p: "rt_objects s p = Some ob" and a: "rt_shapes s (ob_shape ob) = Some sh" "users s (ob_shape ob) = {p}"
    and X: "is_hashed sh \<Longrightarrow> ob_shape ob \<in> X" and ext: "ext (ob_shape ob) = 0"
    and wf: "shape_wf sh'" "length (sh_prop sh') \<le> N" "sh_ref_count sh' = 1" "prop_size sh' \<le> length vs" and b: "b = sr_brk s"
    and s': "s' = put_object p \<lparr>ob_shape = b, ob_prop = vs\<rparr> (free_shape_mem (ob_shape ob) (put_shape b sh' (s\<lparr>sr_brk := b + 1\<rparr>)))"
  shows "sr_inv ext N ((if is_hashed sh' then insert b X else X) - {ob_shape ob}) s'"
    "view s' = (view s)(p \<mapsto> (sh_proto sh', prop_entries (sh_prop sh') vs))"
    "rt_objects s' p = Some \<lparr>ob_shape = b, ob_prop = vs\<rparr>" "rt_shapes s' b = Some sh'" "users s' b = {p}" "ext b = 0"
proof -
  let ?a = "ob_shape ob" and ?X = "if is_hashed sh' then insert b X else X"
  let ?s1 = "put_shape b sh' (s\<lparr>sr_brk := b + 1\<rparr>)"
  let ?s2 = "put_object p \<lparr>ob_shape = b, ob_prop = vs\<rparr> ?s1"
  have fresh: "rt_shapes s b = None" using fresh_shape [OF inv] b by simp
  then have ab: "?a \<noteq> b" using a(1) by auto
  show eb: "ext b = 0" by (rule sr_inv_free [OF inv fresh])
  note n = new_shape_inv [OF inv wf(1-3) b refl]
  have p1: "rt_objects ?s1 p = Some ob" and b1: "rt_shapes ?s1 b = Some sh'" using p by simp_all
  note m = move_object [OF n(1) p1 b1 wf(4) ab [symmetric]]
  have "users ?s2 ?a = {}" using users_put_object [OF p1, of "\<lparr>ob_shape = b, ob_prop = vs\<rparr>" ?a] ab a(2) by simp
  moreover have "rt_shapes ?s2 ?a = Some sh" using a(1) ab by simp
  moreover have "is_hashed sh \<Longrightarrow> ?a \<in> ?X" using X by simp
  ultimately have f: "sr_inv (((ext(b := 1))(?a := (ext(b := 1)) ?a + 1, b := (ext(b := 1)) b - 1))(?a := 0)) N (?X - {?a}) (free_shape_mem ?a ?s2)"
      "view (free_shape_mem ?a ?s2) = view ?s2"
    using free_mem_inv [OF m(1), of ?a sh] by blast+
  have "((ext(b := 1))(?a := (ext(b := 1)) ?a + 1, b := (ext(b := 1)) b - 1))(?a := 0) = ext" using eb ext by auto
  with f(1) show "sr_inv ext N (?X - {?a}) s'" by (simp add: s' put_object_free)
  show "view s' = (view s)(p \<mapsto> (sh_proto sh', prop_entries (sh_prop sh') vs))" using f(2) m(2) n(2) by (simp add: s' put_object_free)
  show "rt_objects s' p = Some \<lparr>ob_shape = b, ob_prop = vs\<rparr>" "rt_shapes s' b = Some sh'" using ab by (simp_all add: s')
  have "users s b = {}" by (rule users_fresh [OF inv fresh])
  moreover have "users s' = users ?s2" by (simp add: s' put_object_free)
  ultimately show "users s' b = {p}" using users_put_object [OF p1, of "\<lparr>ob_shape = b, ob_prop = vs\<rparr>" b] by simp
qed

text \<open>A new object takes over a reference from outside, and an object is dropped for one.\<close>

lemma new_object_inv:
  assumes inv: "sr_inv ext N X s" and a: "rt_shapes s a = Some sh" and vs: "prop_size sh \<le> length vs" and p: "p = sr_brk s"
  shows "sr_inv (ext(a := ext a - 1)) N X (put_object p \<lparr>ob_shape = a, ob_prop = vs\<rparr> (s\<lparr>sr_brk := p + 1\<rparr>))"
    "view (put_object p \<lparr>ob_shape = a, ob_prop = vs\<rparr> (s\<lparr>sr_brk := p + 1\<rparr>)) = (view s)(p \<mapsto> (sh_proto sh, prop_entries (sh_prop sh) vs))"
proof -
  let ?s = "put_object p \<lparr>ob_shape = a, ob_prop = vs\<rparr> (s\<lparr>sr_brk := p + 1\<rparr>)"
  have fresh: "rt_objects s p = None" using fresh_object [OF inv] p by simp
  have brk: "0 < sr_brk s" using sr_inv_table [OF inv] by (simp add: table_ok_def)
  have "object_ok ?s q x" if q: "rt_objects ?s q = Some x" for q x
  proof (cases "q = p")
    case True
    then show ?thesis using q a vs p brk by (auto simp: object_ok_def)
  next
    case False
    then show ?thesis using sr_inv_object [OF inv, of q x] q p by (auto simp: object_ok_def)
  qed
  moreover have "shape_ok (ext(a := ext a - 1)) N ?s c sh'" if c: "rt_shapes s c = Some sh'" for c sh'
  proof -
    have "p \<notin> users s c" using fresh by (auto simp: users_def)
    moreover have "finite (users s c)" by (rule finite_users [OF inv])
    moreover have "users ?s c = (if a = c then insert p (users s c) else users s c)"
      using users_new_object [of "s\<lparr>sr_brk := p + 1\<rparr>" p "\<lparr>ob_shape = a, ob_prop = vs\<rparr>" c] fresh by simp
    ultimately have "int (card (users ?s c)) = int (card (users s c)) + (if c = a then 1 else 0)" by (cases "c = a") auto
    then show ?thesis using sr_inv_shape [OF inv c] by (auto simp: shape_ok_def)
  qed
  moreover have "(ext(a := ext a - 1)) c = 0" if "rt_shapes s c = None" for c
    using sr_inv_free [OF inv that] a that by auto
  moreover have "table_ok X ?s"
  proof -
    have "table_ok X (s\<lparr>sr_brk := p + 1\<rparr>)"
      by (rule table_frame [OF sr_inv_table [OF inv]]) (use sr_inv_bounds [OF inv] p in \<open>auto simp: less_Suc_eq\<close>)
    then show ?thesis by simp
  qed
  ultimately show "sr_inv (ext(a := ext a - 1)) N X ?s" unfolding sr_inv_def heap_ok_def by simp
  show "view ?s = (view s)(p \<mapsto> (sh_proto sh, prop_entries (sh_prop sh) vs))"
    using a by (simp add: view_def fun_eq_iff split: option.split)
qed

lemma drop_object_inv:
  assumes inv: "sr_inv ext N X s" and p: "rt_objects s p = Some ob"
  shows "sr_inv (ext(ob_shape ob := ext (ob_shape ob) + 1)) N X (s\<lparr>rt_objects := (rt_objects s)(p := None)\<rparr>)"
    "view (s\<lparr>rt_objects := (rt_objects s)(p := None)\<rparr>) = (view s)(p := None)"
proof -
  let ?s = "s\<lparr>rt_objects := (rt_objects s)(p := None)\<rparr>" and ?a = "ob_shape ob"
  have "object_ok ?s q x" if q: "rt_objects ?s q = Some x" for q x
    using sr_inv_object [OF inv, of q x] q by (auto simp: object_ok_def split: if_splits)
  moreover have "shape_ok (ext(?a := ext ?a + 1)) N ?s c sh'" if c: "rt_shapes s c = Some sh'" for c sh'
  proof -
    have u: "users ?s c = users s c - {p}" by (auto simp: users_def)
    have fin: "finite (users s c)" by (rule finite_users [OF inv])
    have "p \<in> users s c \<longleftrightarrow> c = ?a" using p by (auto simp: users_def)
    then have "int (card (users ?s c)) = int (card (users s c)) - (if c = ?a then 1 else 0)"
      using fin card_gt_0_iff [of "users s c"] by (auto simp: u of_nat_diff)
    then show ?thesis using sr_inv_shape [OF inv c] by (auto simp: shape_ok_def)
  qed
  moreover have "(ext(?a := ext ?a + 1)) c = 0" if "rt_shapes s c = None" for c
    using sr_inv_free [OF inv that] sr_inv_object [OF inv p] that by (auto simp: object_ok_def)
  moreover have "table_ok X ?s" using sr_inv_table [OF inv] by (simp add: table_ok_def)
  ultimately show "sr_inv (ext(?a := ext ?a + 1)) N X ?s" unfolding sr_inv_def heap_ok_def by simp
  show "view ?s = (view s)(p := None)" by (simp add: view_def fun_eq_iff split: option.split)
qed

end
