(* ===== verification/ObjectOps.thy ===== *)
theory ObjectOps
  imports ObjectHeap
begin

text \<open>
  The operations on shapes and objects: what each does to the invariant and to the view of the heap.
\<close>

section \<open>Steps\<close>

lemma sr_step [simp]:
  "sr_at F s (sr_bind (sr_shape a) f) Q E = (case rt_shapes s a of None \<Rightarrow> False | Some sh \<Rightarrow> sr_at F s (f sh) Q E)"
  "sr_at F s (sr_bind (sr_object p) g) Q E = (case rt_objects s p of None \<Rightarrow> False | Some ob \<Rightarrow> sr_at F s (g ob) Q E)"
  by (simp_all add: sr_at_def sr_bind_def sr_shape_def sr_object_def sr_lift_def split: option.split)

lemma sr_bind_fresh_shape [simp]:
  "sr_at F s (sr_bind (sr_new_shape sh) f) Q E = sr_at F (put_shape (sr_brk s) sh (s\<lparr>sr_brk := sr_brk s + 1\<rparr>)) (f (sr_brk s)) Q E"
  by (rule sr_bind_new_shape)

lemma sr_at_new_shape:
  "Q (sr_brk s) (put_shape (sr_brk s) sh (s\<lparr>sr_brk := sr_brk s + 1\<rparr>)) \<Longrightarrow> sr_at F s (sr_new_shape sh) Q E"
  by (simp add: sr_at_def sr_new_shape_def sr_bind_def sr_get_def sr_update_def sr_return_def)

lemma put_shape_twice [simp]: "put_shape a sh (put_shape a sh' s) = put_shape a sh s"
  by (simp add: put_shape_def)

section \<open>Reference counts\<close>

definition heap_is :: "(nat \<Rightarrow> int) \<Rightarrow> nat \<Rightarrow> (nat \<Rightarrow> obj_view option) \<Rightarrow> ShapeRuntime \<Rightarrow> bool" where
  "heap_is ext N V s \<longleftrightarrow> sr_inv ext N {} s \<and> view s = V"

lemma heap_isD: "heap_is ext N V s \<Longrightarrow> sr_inv ext N {} s" "heap_is ext N V s \<Longrightarrow> view s = V"
  "heap_is ext N V s \<Longrightarrow> table_ok {} s"
  by (simp_all add: heap_is_def sr_inv_def)

lemma dup_shape_spec:
  assumes inv: "heap_is ext N V s" and a: "rt_shapes s a = Some sh" "is_hashed sh"
  shows "sr_at F s (js_dup_shape a) (\<lambda>b s'. b = a \<and> s' = put_shape a (sh\<lparr>sh_ref_count := sh_ref_count sh + 1\<rparr>) s \<and>
    heap_is (ext(a := ext a + 1)) N V s') E"
proof -
  have "shape_ok ext N s a sh" by (rule sr_inv_shape [OF heap_isD(1) [OF inv] a(1)])
  then have "0 < sh_ref_count sh + 1" by (simp add: shape_ok_def)
  from put_ref_count [OF heap_isD(1) [OF inv] a(1) this] a(2)
  show ?thesis using heap_isD(2) [OF inv] by (simp add: js_dup_shape_def a(1) sr_at_return heap_is_def)
qed

lemma free_shared:
  assumes a: "rt_shapes s a = Some sh" "2 \<le> sh_ref_count sh"
  shows "sr_at F s (js_free_shape a) (\<lambda>_ s'. s' = put_shape a (sh\<lparr>sh_ref_count := sh_ref_count sh - 1\<rparr>) s) E"
  using a(2) by (simp add: js_free_shape_def a(1) sr_at_return)

lemma free_shape_spec:
  assumes inv: "heap_is ext N V s" and a: "rt_shapes s a = Some sh" and ext: "1 \<le> ext a"
  shows "sr_at F s (js_free_shape a) (\<lambda>_ s'. heap_is (ext(a := ext a - 1)) N V s' \<and> rt_objects s' = rt_objects s \<and>
    (\<forall>c. c \<noteq> a \<longrightarrow> map_option sh_core (rt_shapes s' c) = map_option sh_core (rt_shapes s c))) E"
proof (cases "2 \<le> sh_ref_count sh")
  case True
  have ok: "shape_ok ext N s a sh" by (rule sr_inv_shape [OF heap_isD(1) [OF inv] a])
  have "0 < sh_ref_count sh + - 1" using True by simp
  moreover have "is_hashed sh \<or> sh_ref_count sh + - 1 = 1" using True ok by (auto simp: shape_ok_def)
  ultimately have "heap_is (ext(a := ext a + - 1)) N V (put_shape a (sh\<lparr>sh_ref_count := sh_ref_count sh + - 1\<rparr>) s)"
    using put_ref_count [OF heap_isD(1) [OF inv] a] heap_isD(2) [OF inv] unfolding heap_is_def by metis
  then show ?thesis by (intro sr_at_conseq [OF free_shared [OF a True]]) auto
next
  case False
  let ?s = "put_shape a (sh\<lparr>sh_ref_count := sh_ref_count sh - 1\<rparr>) s"
  have ok: "shape_ok ext N s a sh" by (rule sr_inv_shape [OF heap_isD(1) [OF inv] a])
  then have one: "sh_ref_count sh = 1" "card (users s a) = 0" "ext a = 1" using False ext by (auto simp: shape_ok_def)
  then have u: "users s a = {}" using finite_users [OF heap_isD(1) [OF inv]] by simp
  have a': "rt_shapes ?s a = Some (sh\<lparr>sh_ref_count := sh_ref_count sh - 1\<rparr>)" by simp
  have t: "table_ok {} ?s" by (rule table_put_same [OF heap_isD(3) [OF inv] a]) simp_all
  have post: "heap_is (ext(a := ext a - 1)) N V (free_shape_mem a s') \<and> rt_objects (free_shape_mem a s') = rt_objects s \<and>
      (\<forall>c. c \<noteq> a \<longrightarrow> map_option sh_core (rt_shapes (free_shape_mem a s') c) = map_option sh_core (rt_shapes s c))"
    if s': "table_ok Y s'" "sr_same ?s s'" and Y: "Y = (if is_hashed sh then {a} else {})" for s' Y
  proof -
    from s'(2) obtain sh2 where sh2: "rt_shapes s' a = Some sh2" "sh_core sh2 = sh_core (sh\<lparr>sh_ref_count := sh_ref_count sh - 1\<rparr>)"
      by (cases "rt_shapes s' a") (auto simp: sr_same_def dest!: spec [of _ a])
    note f = sh_core_fields [OF sh2(2)]
    let ?s2 = "put_shape a sh s'"
    have same: "sr_same s ?s2" using s'(2) a by (auto simp: sr_same_def)
    have "table_ok Y ?s2" by (rule table_put_out [OF s'(1) sh2(1)]) (use f Y in auto)
    note i = sr_same_inv [OF heap_isD(1) [OF inv] same this]
    have "users ?s2 a = {}" using u same by (simp add: users_def sr_same_def)
    from free_mem_inv [OF i(1) _ this, of sh] Y
    have "sr_inv (ext(a := 0)) N (Y - {a}) (free_shape_mem a ?s2)" "view (free_shape_mem a ?s2) = view ?s2" by (auto split: if_splits)
    moreover have "free_shape_mem a ?s2 = free_shape_mem a s'" by (simp add: free_shape_mem_def put_shape_def)
    moreover have "Y - {a} = {}" using Y by simp
    moreover have "map_option sh_core (rt_shapes s' c) = map_option sh_core (rt_shapes s c)" if "c \<noteq> a" for c
      using s'(2) that by (simp add: sr_same_def)
    ultimately show ?thesis using i(2) heap_isD(2) [OF inv] one(3) same by (simp add: heap_is_def sr_same_def)
  qed
  show ?thesis
  proof (cases "is_hashed sh")
    case True
    have "sr_at F ?s (js_shape_hash_unlink a) (\<lambda>_ s'. table_ok {a} s' \<and> sr_same ?s s') E"
      by (rule unlink_spec [OF t a']) (use True in auto)
    from sr_at_bind [OF this, of "\<lambda>_. sr_update (free_shape_mem a)"] post True
    show ?thesis using one(1) by (simp add: js_free_shape_def js_free_shape0_def a sr_at_update)
  next
    case False
    then show ?thesis using post [of "{}" ?s] t one(1)
      by (simp add: js_free_shape_def js_free_shape0_def a sr_at_update sr_same_def)
  qed
qed

section \<open>New shapes\<close>

lemma shape_wf_empty:
  assumes "0 < h" "h \<le> 2 ^ 32" "hash_table sh = replicate h 0" "prop_hash_mask sh = of_nat (h - 1)" "sh_prop sh = []" "deleted_prop_count sh = 0"
  shows "shape_wf sh"
proof -
  have "length (hash_table sh) = unat (prop_hash_mask sh) + 1"
    unfolding assms(3,4) length_replicate by (rule unat_hmask [OF assms(1,2), symmetric])
  moreover have "\<forall>i<length (hash_table sh). hash_table sh ! i = 0" by (simp add: assms(3))
  ultimately show ?thesis using assms(5,6) by (simp add: shape_wf_def links_ok_def live_atoms_def)
qed

definition empty_shape :: "nat \<Rightarrow> JSShape \<Rightarrow> bool" where
  "empty_shape proto sh \<longleftrightarrow> shape_wf sh \<and> sh_prop sh = [] \<and> sh_proto sh = proto \<and> sh_ref_count sh = 1"

lemma new_shape_nohash_spec:
  assumes h: "0 < h" "h \<le> 2 ^ 32"
  shows "sr_at F s (js_new_shape_nohash proto h n) (\<lambda>b s'. b = sr_brk s \<and>
    (\<exists>sh. s' = put_shape b sh (s\<lparr>sr_brk := b + 1\<rparr>) \<and> empty_shape proto sh \<and> \<not> is_hashed sh)) (\<lambda>s'. s' = s)"
proof -
  define sh where "sh = \<lparr>sh_ref_count = 1, is_hashed = False, sh_hash = 0, prop_hash_mask = of_nat (h - 1), prop_size = n,
       deleted_prop_count = 0, shape_hash_next = 0, sh_proto = proto, hash_table = replicate h 0, sh_prop = []\<rparr>"
  have "shape_wf sh" by (rule shape_wf_empty [OF h]) (simp_all add: sh_def)
  then have "empty_shape proto sh" "\<not> is_hashed sh" by (simp_all add: empty_shape_def sh_def)
  then show ?thesis unfolding js_new_shape_nohash_def sh_def [symmetric] by (blast intro: sr_bind_malloc sr_at_new_shape)
qed

lemma empty_shape_inv:
  assumes inv: "heap_is ext N V s" and sh: "empty_shape proto sh"
  shows "ext (sr_brk s) = 0" "sr_inv (ext(sr_brk s := 1)) N (if is_hashed sh then {sr_brk s} else {}) (put_shape (sr_brk s) sh (s\<lparr>sr_brk := sr_brk s + 1\<rparr>))"
    "view (put_shape (sr_brk s) sh (s\<lparr>sr_brk := sr_brk s + 1\<rparr>)) = V"
proof -
  show "ext (sr_brk s) = 0" by (rule sr_inv_free [OF heap_isD(1) [OF inv] fresh_shape [OF heap_isD(1) [OF inv]]])
  have sh: "shape_wf sh" "length (sh_prop sh) \<le> N" "sh_ref_count sh = 1" using sh by (simp_all add: empty_shape_def)
  show "sr_inv (ext(sr_brk s := 1)) N (if is_hashed sh then {sr_brk s} else {}) (put_shape (sr_brk s) sh (s\<lparr>sr_brk := sr_brk s + 1\<rparr>))"
    by (rule new_shape_inv(1) [OF heap_isD(1) [OF inv] sh refl refl])
  show "view (put_shape (sr_brk s) sh (s\<lparr>sr_brk := sr_brk s + 1\<rparr>)) = V"
    using new_shape_inv(2) [OF heap_isD(1) [OF inv] sh refl refl] heap_isD(2) [OF inv] by simp
qed

lemma link_inv:
  assumes inv: "sr_inv ext N {a} s" "view s = V" and a: "rt_shapes s a = Some sh" "is_hashed sh"
  shows "sr_at F s (js_shape_hash_link a) (\<lambda>_ s'. heap_is ext N V s' \<and> sr_same s s') E"
proof (rule sr_at_conseq [OF link_spec [OF sr_inv_table [OF inv(1)] a]])
  fix x s' assume "table_ok ({a} - {a}) s' \<and> sr_same s s'"
  then show "heap_is ext N V s' \<and> sr_same s s'" using sr_same_inv [OF inv(1), of s' "{}"] inv(2) by (simp add: heap_is_def)
qed auto

lemma sr_same_shape:
  assumes "sr_same s s'" "rt_shapes s a = Some sh"
  obtains sh' where "rt_shapes s' a = Some sh'" "sh_core sh' = sh_core sh"
  using assms by (cases "rt_shapes s' a") (auto simp: sr_same_def dest!: spec [of _ a])

lemma new_shape_spec:
  assumes inv: "heap_is ext N V s"
  shows "sr_at F s (js_new_shape proto) (\<lambda>b s'. ext b = 0 \<and> heap_is (ext(b := 1)) N V s' \<and>
    (\<exists>sh. rt_shapes s' b = Some sh \<and> sh_prop sh = [] \<and> sh_proto sh = proto)) (heap_is ext N V)"
  unfolding js_new_shape_def js_new_shape2_def sr_bind_get
proof (rule sr_at_bind)
  let ?full = "shape_hash_size s < 2 * (shape_hash_count s + 1)"
  show "sr_at F s (if ?full then sr_bind (sr_get shape_hash_bits) (\<lambda>bits. sr_catch (resize_shape_hash (bits + 1)) sr_ignore) else sr_return ())
      (\<lambda>_. heap_is ext N V) (heap_is ext N V)"
  proof (cases ?full)
    case True
    have "sr_at F s (resize_shape_hash (shape_hash_bits s + 1)) (\<lambda>_ s'. heap_is ext N V s') (heap_is ext N V)"
      by (rule sr_at_conseq [OF resize_spec [OF heap_isD(3) [OF inv], of "\<lambda>s'. s' = s"]])
        (use sr_same_inv [OF heap_isD(1) [OF inv]] inv in \<open>auto simp: heap_is_def\<close>)
    then show ?thesis using True by (simp, elim sr_at_catch) (simp add: sr_ignore_def sr_at_return)
  qed (use inv in \<open>simp add: sr_at_return\<close>)
next
  fix x s1 assume inv: "heap_is ext N V s1"
  let ?h = JS_PROP_INITIAL_HASH_SIZE
  have h: "0 < ?h" "?h \<le> 2 ^ 32" by (simp_all add: JS_PROP_INITIAL_HASH_SIZE_def)
  show "sr_at F s1 (sr_bind (js_new_shape_nohash proto ?h JS_PROP_INITIAL_SIZE) (\<lambda>a. sr_bind (sr_shape a) (\<lambda>sh.
     sr_bind (sr_update (put_shape a (sh\<lparr>sh_hash := shape_initial_hash proto, is_hashed := True\<rparr>))) (\<lambda>_.
     sr_bind (js_shape_hash_link a) (\<lambda>_. sr_return a)))))
    (\<lambda>b s'. ext b = 0 \<and> heap_is (ext(b := 1)) N V s' \<and> (\<exists>sh. rt_shapes s' b = Some sh \<and> sh_prop sh = [] \<and> sh_proto sh = proto)) (heap_is ext N V)"
  proof (rule sr_at_bind [OF sr_at_conseq [OF new_shape_nohash_spec [OF h]]])
    fix b s2 assume "b = sr_brk s1 \<and> (\<exists>sh. s2 = put_shape b sh (s1\<lparr>sr_brk := b + 1\<rparr>) \<and> empty_shape proto sh \<and> \<not> is_hashed sh)"
    then obtain sh where b: "b = sr_brk s1" "s2 = put_shape b sh (s1\<lparr>sr_brk := b + 1\<rparr>)" "empty_shape proto sh" by blast
    let ?sh = "sh\<lparr>sh_hash := shape_initial_hash proto, is_hashed := True\<rparr>"
    let ?s3 = "put_shape b ?sh (s1\<lparr>sr_brk := b + 1\<rparr>)"
    have e: "empty_shape proto ?sh" using b(3) by (auto simp: empty_shape_def shape_wf_def)
    note i = empty_shape_inv [OF inv e, folded b(1)]
    have "sr_inv (ext(b := 1)) N {b} ?s3" using i(2) by simp
    then have "sr_at F ?s3 (js_shape_hash_link b) (\<lambda>_ s'. heap_is (ext(b := 1)) N V s' \<and> sr_same ?s3 s') (heap_is ext N V)"
      by (rule link_inv [OF _ i(3), where sh = ?sh]) simp_all
    then have "sr_at F ?s3 (sr_bind (js_shape_hash_link b) (\<lambda>_. sr_return b))
      (\<lambda>b s'. ext b = 0 \<and> heap_is (ext(b := 1)) N V s' \<and> (\<exists>sh. rt_shapes s' b = Some sh \<and> sh_prop sh = [] \<and> sh_proto sh = proto)) (heap_is ext N V)"
    proof (rule sr_at_bind)
      fix x s' assume s': "heap_is (ext(b := 1)) N V s' \<and> sr_same ?s3 s'"
      from sr_same_shape [OF conjunct2 [OF s'], of b ?sh] obtain sh' where "rt_shapes s' b = Some sh'" "sh_core sh' = sh_core ?sh" by auto
      then have "\<exists>sh. rt_shapes s' b = Some sh \<and> sh_prop sh = [] \<and> sh_proto sh = proto"
        using sh_core_fields [of sh' ?sh] e by (simp add: empty_shape_def)
      then show "sr_at F s' (sr_return b) (\<lambda>b s'. ext b = 0 \<and> heap_is (ext(b := 1)) N V s' \<and>
          (\<exists>sh. rt_shapes s' b = Some sh \<and> sh_prop sh = [] \<and> sh_proto sh = proto)) (heap_is ext N V)"
        using s' i(1) by (intro sr_at_return) blast
    qed
    then show "sr_at F s2 (sr_bind (sr_shape b) (\<lambda>sh.
     sr_bind (sr_update (put_shape b (sh\<lparr>sh_hash := shape_initial_hash proto, is_hashed := True\<rparr>))) (\<lambda>_.
     sr_bind (js_shape_hash_link b) (\<lambda>_. sr_return b))))
    (\<lambda>b s'. ext b = 0 \<and> heap_is (ext(b := 1)) N V s' \<and> (\<exists>sh. rt_shapes s' b = Some sh \<and> sh_prop sh = [] \<and> sh_proto sh = proto)) (heap_is ext N V)"
      by (simp add: b(2))
  qed (use inv in auto)
qed


section \<open>Creating and freeing objects\<close>

lemma NewObjectFromShape_spec:
  assumes inv: "heap_is ext N V s" and a: "rt_shapes s a = Some sh" "sh_prop sh = []" and ext: "1 \<le> ext a"
  shows "sr_at F s (JS_NewObjectFromShape a)
    (\<lambda>p s'. V p = None \<and> heap_is (ext(a := ext a - 1)) N (V(p \<mapsto> (sh_proto sh, []))) s') (heap_is (ext(a := ext a - 1)) N V)"
proof -
  let ?p = "sr_brk s" and ?vs = "replicate (prop_size sh) None"
  let ?s = "put_object ?p \<lparr>ob_shape = a, ob_prop = ?vs\<rparr> (s\<lparr>sr_brk := ?p + 1\<rparr>)"
  have "prop_size sh \<le> length ?vs" by simp
  note n = new_object_inv [OF heap_isD(1) [OF inv] a(1) this refl]
  have fresh: "V ?p = None" using fresh_object [OF heap_isD(1) [OF inv]] by (simp add: heap_isD(2) [OF inv, symmetric] view_def)
  have post: "V ?p = None \<and> heap_is (ext(a := ext a - 1)) N (V(?p \<mapsto> (sh_proto sh, []))) ?s"
    using n fresh heap_isD(2) [OF inv] by (simp add: heap_is_def a(2) prop_entries_def)
  show ?thesis
    unfolding JS_NewObjectFromShape_def sr_step a(1) option.case
  proof (rule sr_at_catch [where E' = "\<lambda>s'. s' = s"])
    show "sr_at F s (sr_bind sr_malloc (\<lambda>_. sr_bind sr_malloc (\<lambda>_. sr_bind (sr_get sr_brk) (\<lambda>p. sr_bind (sr_update (\<lambda>s.
        put_object p \<lparr>ob_shape = a, ob_prop = ?vs\<rparr> (s\<lparr>sr_brk := p + 1\<rparr>))) (\<lambda>_. sr_return p)))))
      (\<lambda>p s'. V p = None \<and> heap_is (ext(a := ext a - 1)) N (V(p \<mapsto> (sh_proto sh, []))) s') (\<lambda>s'. s' = s)"
      by (intro sr_bind_malloc refl, unfold sr_bind_get sr_bind_update) (rule sr_at_return, rule post)
  next
    fix s' assume "s' = s"
    show "sr_at True s' (sr_bind (js_free_shape a) (\<lambda>_. sr_throw OutOfMemory))
      (\<lambda>p s'. V p = None \<and> heap_is (ext(a := ext a - 1)) N (V(p \<mapsto> (sh_proto sh, []))) s') (heap_is (ext(a := ext a - 1)) N V)"
      unfolding \<open>s' = s\<close> by (rule sr_at_bind [OF free_shape_spec [OF inv a(1) ext]]) (simp add: sr_at_throw)
  qed
qed

lemma new_object_spec:
  assumes "sr_at F s m (\<lambda>a s'. 1 \<le> ext' a a \<and> heap_is (ext' a) N V s' \<and> (\<exists>sh. rt_shapes s' a = Some sh \<and> sh_prop sh = [] \<and> sh_proto sh = proto) \<and>
      (ext' a)(a := ext' a a - 1) = ext) (heap_is ext N V)"
  shows "sr_at F s (sr_bind m JS_NewObjectFromShape)
    (\<lambda>p s'. V p = None \<and> heap_is ext N (V(p \<mapsto> (proto, []))) s') (heap_is ext N V)"
proof (rule sr_at_bind [OF assms])
  fix a s'
  assume "1 \<le> ext' a a \<and> heap_is (ext' a) N V s' \<and> (\<exists>sh. rt_shapes s' a = Some sh \<and> sh_prop sh = [] \<and> sh_proto sh = proto) \<and>
    (ext' a)(a := ext' a a - 1) = ext"
  then obtain sh where *: "heap_is (ext' a) N V s'" "rt_shapes s' a = Some sh" "sh_prop sh = []" "1 \<le> ext' a a" "sh_proto sh = proto"
    "(ext' a)(a := ext' a a - 1) = ext" by blast
  show "sr_at F s' (JS_NewObjectFromShape a) (\<lambda>p s'. V p = None \<and> heap_is ext N (V(p \<mapsto> (proto, []))) s') (heap_is ext N V)"
    using NewObjectFromShape_spec [OF *(1-4)] unfolding *(5,6) .
qed

lemma NewObjectProtoClass_spec:
  assumes inv: "heap_is (\<lambda>_. 0) N V s"
  shows "sr_at F s (JS_NewObjectProtoClass proto) (\<lambda>p s'. V p = None \<and> heap_is (\<lambda>_. 0) N (V(p \<mapsto> (proto, []))) s') (heap_is (\<lambda>_. 0) N V)"
proof -
  let ?ext = "\<lambda>a. (\<lambda>_. 0::int)(a := 1)"
  let ?ok = "\<lambda>sh1. sh_hash sh1 = shape_initial_hash proto \<and> sh_proto sh1 = proto \<and> sh_prop sh1 = []"
  obtain r where r: "\<And>mem. find_hashed ?ok (shape_initial_hash proto) (s, mem) = (Inr r, s, mem)"
      "r = 0 \<or> (r \<noteq> 0 \<and> (\<exists>sh. rt_shapes s r = Some sh \<and> is_hashed sh \<and> ?ok sh))"
    by (rule find_hashed_spec [OF heap_isD(3) [OF inv], where ok = ?ok and h = "shape_initial_hash proto"]) (rule that)
  have "sr_at F s (if r \<noteq> 0 then js_dup_shape r else js_new_shape proto)
    (\<lambda>a s'. 1 \<le> ?ext a a \<and> heap_is (?ext a) N V s' \<and> (\<exists>sh. rt_shapes s' a = Some sh \<and> sh_prop sh = [] \<and> sh_proto sh = proto) \<and>
      (?ext a)(a := ?ext a a - 1) = (\<lambda>_. 0)) (heap_is (\<lambda>_. 0) N V)"
  proof (cases "r = 0")
    case True
    then show ?thesis using new_shape_spec [OF inv, of F proto] by (simp add: fun_upd_idem)
  next
    case False
    with r(2) obtain sh where sh: "rt_shapes s r = Some sh" "is_hashed sh" "?ok sh" by blast
    show ?thesis using False sh(3) by (simp, intro sr_at_conseq [OF dup_shape_spec [OF inv sh(1,2)]]) (auto simp: fun_upd_idem)
  qed
  from new_object_spec [OF this]
  show ?thesis unfolding JS_NewObjectProtoClass_def find_hashed_shape_proto_def Let_def sr_bind_at [OF r(1)] .
qed

lemma hash_size_bound: "(2::nat) ^ (32 - clz32 n) \<le> 2 ^ 32"
  by (rule power_increasing) (simp_all add: clz32_def)

lemma NewObjectProtoClassAlloc_spec:
  assumes inv: "heap_is (\<lambda>_. 0) N V s"
  shows "sr_at F s (JS_NewObjectProtoClassAlloc proto n) (\<lambda>p s'. V p = None \<and> heap_is (\<lambda>_. 0) N (V(p \<mapsto> (proto, []))) s') (heap_is (\<lambda>_. 0) N V)"
proof -
  let ?ext = "\<lambda>a. (\<lambda>_. 0::int)(a := 1)"
  have new: "sr_at F s (js_new_shape_nohash proto h k)
    (\<lambda>a s'. 1 \<le> ?ext a a \<and> heap_is (?ext a) N V s' \<and> (\<exists>sh. rt_shapes s' a = Some sh \<and> sh_prop sh = [] \<and> sh_proto sh = proto) \<and>
      (?ext a)(a := ?ext a a - 1) = (\<lambda>_. 0)) (heap_is (\<lambda>_. 0) N V)" if h: "0 < h" "h \<le> 2 ^ 32" for h k
  proof (rule sr_at_conseq [OF new_shape_nohash_spec [OF h]])
    fix b s' assume "b = sr_brk s \<and> (\<exists>sh. s' = put_shape b sh (s\<lparr>sr_brk := b + 1\<rparr>) \<and> empty_shape proto sh \<and> \<not> is_hashed sh)"
    then obtain sh where b: "b = sr_brk s" "s' = put_shape b sh (s\<lparr>sr_brk := b + 1\<rparr>)" "empty_shape proto sh" "\<not> is_hashed sh" by blast
    note i = empty_shape_inv [OF inv b(3), folded b(1)]
    have "heap_is (?ext b) N V s'" using i(2,3) b(4) by (simp add: heap_is_def b(2))
    then show "1 \<le> ?ext b b \<and> heap_is (?ext b) N V s' \<and> (\<exists>sh. rt_shapes s' b = Some sh \<and> sh_prop sh = [] \<and> sh_proto sh = proto) \<and>
      (?ext b)(b := ?ext b b - 1) = (\<lambda>_. 0)" using b(3) by (simp add: b(2) empty_shape_def fun_upd_idem)
  qed (use inv in simp)
  show ?thesis
    unfolding JS_NewObjectProtoClassAlloc_def
    by (rule new_object_spec [where ext' = ?ext]) (use new hash_size_bound in \<open>simp add: JS_PROP_INITIAL_HASH_SIZE_def\<close>)
qed

lemma unlink_loop_objects:
  "unlink_loop (s\<lparr>rt_objects := g\<rparr>) h a prev cur fuel = map_sum id (\<lambda>s. s\<lparr>rt_objects := g\<rparr>) (unlink_loop s h a prev cur fuel)"
proof (induction fuel arbitrary: prev cur)
  case (Suc fuel)
  then show ?case by (simp add: unlink_loop.simps [of _ _ _ _ _ "Suc fuel"] put_shape_def split: option.split)
qed (simp add: unlink_loop.simps [of _ _ _ _ _ 0] split: option.split)

lemma objects_update:
  "put_shape a sh (s\<lparr>rt_objects := g\<rparr>) = (put_shape a sh s)\<lparr>rt_objects := g\<rparr>"
  "free_shape_mem a (s\<lparr>rt_objects := g\<rparr>) = (free_shape_mem a s)\<lparr>rt_objects := g\<rparr>"
  "(s\<lparr>rt_objects := g\<rparr>)\<lparr>shape_hash_count := n\<rparr> = (s\<lparr>shape_hash_count := n\<rparr>)\<lparr>rt_objects := g\<rparr>"
  by (simp_all add: put_shape_def free_shape_mem_def)

lemma free_shape_objects:
  "js_free_shape a (s\<lparr>rt_objects := g\<rparr>, mem) = (case js_free_shape a (s, mem) of (r, s', mem') \<Rightarrow> (r, s'\<lparr>rt_objects := g\<rparr>, mem'))"
  by (simp add: js_free_shape_def js_free_shape0_def js_shape_hash_unlink_def sr_bind_def sr_shape_def sr_lift_def sr_update_def
      sr_throw_def sr_return_def objects_update unlink_loop_objects Let_def split: option.split prod.split sum.split)

lemma free_object_spec:
  assumes inv: "heap_is (\<lambda>_. 0) N V s" and p: "rt_objects s p = Some ob"
  shows "sr_at F s (free_object_shape p) (\<lambda>_. heap_is (\<lambda>_. 0) N (V(p := None))) E"
proof -
  let ?g = "(rt_objects s)(p := None)" and ?a = "ob_shape ob"
  let ?s = "s\<lparr>rt_objects := ?g\<rparr>"
  note d = drop_object_inv [OF heap_isD(1) [OF inv] p]
  have h: "heap_is ((\<lambda>_. 0)(?a := 0 + 1)) N (V(p := None)) ?s" using d heap_isD(2) [OF inv] by (simp add: heap_is_def)
  obtain sh where "rt_shapes s ?a = Some sh" using sr_inv_object [OF heap_isD(1) [OF inv] p] by (auto simp: object_ok_def)
  then have a: "rt_shapes ?s ?a = Some sh" by simp
  have "((\<lambda>_. 0::int)(?a := 0 + 1))(?a := ((\<lambda>_. 0)(?a := 0 + 1)) ?a - 1) = (\<lambda>_. 0)" by (simp add: fun_upd_idem)
  then have f: "sr_at F ?s (js_free_shape ?a) (\<lambda>_ s'. heap_is (\<lambda>_. 0) N (V(p := None)) s' \<and> rt_objects s' = ?g) (\<lambda>_. False)"
    by (intro sr_at_conseq [OF free_shape_spec [OF h a, of F "\<lambda>_. False"]]) simp_all
  have "sr_at F s (js_free_shape ?a) (\<lambda>_ s'. heap_is (\<lambda>_. 0) N (V(p := None)) (s'\<lparr>rt_objects := ?g\<rparr>) \<and> rt_objects s' = rt_objects s) E"
    unfolding sr_at_def
  proof
    fix mem
    obtain r s' mem' where m: "js_free_shape ?a (s, mem) = (r, s', mem')" by (metis prod_cases3)
    have "s\<lparr>rt_objects := rt_objects s\<rparr> = s" by simp
    then have "s' = s'\<lparr>rt_objects := rt_objects s\<rparr>" using free_shape_objects [where a = ?a and s = s and g = "rt_objects s" and mem = mem] m by simp
    then have "rt_objects s' = rt_objects s" by (metis ShapeRuntime.select_convs(2) ShapeRuntime.surjective ShapeRuntime.update_convs(2))
    moreover have "js_free_shape ?a (?s, mem) = (r, s'\<lparr>rt_objects := ?g\<rparr>, mem')" using free_shape_objects m by simp
    with spec [OF f [unfolded sr_at_def], of mem] have "set mem' \<subseteq> set mem \<and> (\<exists>x. r = Inr x \<and> heap_is (\<lambda>_. 0) N (V(p := None)) (s'\<lparr>rt_objects := ?g\<rparr>))"
      by (auto split: sum.splits)
    ultimately show "case js_free_shape ?a (s, mem) of (r, s', mem') \<Rightarrow> set mem' \<subseteq> set mem \<and> (case r of
        Inl e \<Rightarrow> e = OutOfMemory \<and> (F \<or> None \<in> set mem) \<and> E s' |
        Inr x \<Rightarrow> heap_is (\<lambda>_. 0) N (V(p := None)) (s'\<lparr>rt_objects := ?g\<rparr>) \<and> rt_objects s' = rt_objects s)"
      using m by auto
  qed
  from sr_at_bind [OF this, of "\<lambda>_. sr_update (\<lambda>s. s\<lparr>rt_objects := (rt_objects s)(p := None)\<rparr>)"]
  show ?thesis by (simp add: free_object_shape_def p sr_at_update)
qed

end
