(* ===== verification/ObjectAdd.thy ===== *)
theory ObjectAdd
  imports ObjectOps
begin

text \<open>
  The operations on properties: each changes the list of properties of its object only.
\<close>

section \<open>Objects with a shape of their own\<close>

definition sole :: "nat \<Rightarrow> nat set \<Rightarrow> (nat \<Rightarrow> obj_view option) \<Rightarrow> nat \<Rightarrow> JSObject \<Rightarrow> JSShape \<Rightarrow> ShapeRuntime \<Rightarrow> bool" where
  "sole N X V p ob sh s \<longleftrightarrow> sr_inv (\<lambda>_. 0) N X s \<and> view s = V \<and> rt_objects s p = Some ob \<and> rt_shapes s (ob_shape ob) = Some sh \<and>
     users s (ob_shape ob) = {p}"

lemma soleD:
  assumes "sole N X V p ob sh s"
  shows "sr_inv (\<lambda>_. 0) N X s" "view s = V" "rt_objects s p = Some ob" "rt_shapes s (ob_shape ob) = Some sh" "users s (ob_shape ob) = {p}"
    "sh_ref_count sh = 1" "shape_wf sh" "length (sh_prop sh) \<le> N" "prop_size sh \<le> length (ob_prop ob)"
    "V p = Some (sh_proto sh, prop_entries (sh_prop sh) (ob_prop ob))"
proof -
  note d = assms [unfolded sole_def]
  show "sr_inv (\<lambda>_. 0) N X s" "view s = V" "rt_objects s p = Some ob" "rt_shapes s (ob_shape ob) = Some sh" "users s (ob_shape ob) = {p}"
    using d by simp_all
  have "shape_ok (\<lambda>_. 0) N s (ob_shape ob) sh" "object_ok s p ob" using d sr_inv_shape sr_inv_object by blast+
  then show "sh_ref_count sh = 1" "shape_wf sh" "length (sh_prop sh) \<le> N" "prop_size sh \<le> length (ob_prop ob)"
    using d by (simp_all add: shape_ok_def object_ok_def)
  show "V p = Some (sh_proto sh, prop_entries (sh_prop sh) (ob_prop ob))" using d by (auto simp: view_def)
qed

lemma heap_object:
  assumes "heap_is (\<lambda>_. 0) N V s" "V p = Some (proto, es)"
  obtains ob sh where "rt_objects s p = Some ob" "rt_shapes s (ob_shape ob) = Some sh" "proto = sh_proto sh"
    "es = prop_entries (sh_prop sh) (ob_prop ob)" "shape_wf sh" "length (sh_prop sh) \<le> N" "prop_size sh \<le> length (ob_prop ob)"
    "map fst es = live_atoms (sh_prop sh)" "is_hashed sh \<or> sh_ref_count sh = 1" "0 < sh_ref_count sh"
    "sh_ref_count sh = 1 \<Longrightarrow> sole N {} V p ob sh s"
proof -
  note inv = heap_isD(1) [OF assms(1)]
  from assms obtain ob sh where ob: "rt_objects s p = Some ob" "rt_shapes s (ob_shape ob) = Some sh" "proto = sh_proto sh"
    "es = prop_entries (sh_prop sh) (ob_prop ob)"
    by (auto simp: heap_is_def view_def split: option.splits)
  have ok: "shape_ok (\<lambda>_. 0) N s (ob_shape ob) sh" "object_ok s p ob" using sr_inv_shape [OF inv ob(2)] sr_inv_object [OF inv ob(1)] by blast+
  then have f: "shape_wf sh" "length (sh_prop sh) \<le> N" "prop_size sh \<le> length (ob_prop ob)" "is_hashed sh \<or> sh_ref_count sh = 1"
    "0 < sh_ref_count sh" using ob(2) unfolding shape_ok_def object_ok_def by auto
  have "map fst es = live_atoms (sh_prop sh)" unfolding ob(4) by (rule fst_prop_entries) (use f in \<open>simp add: shape_wf_def\<close>)
  moreover have "sole N {} V p ob sh s" if "sh_ref_count sh = 1"
    using sole_user(1) [OF inv ob(1,2) that] inv ob(1,2) heap_isD(2) [OF assms(1)] by (simp add: sole_def)
  ultimately show thesis using that ob f by blast
qed

lemma sole_heap: "sole N {} V p ob sh s \<Longrightarrow> heap_is (\<lambda>_. 0) N V s"
  by (simp add: sole_def heap_is_def)

lemma sole_same:
  assumes s: "sole N X V p ob sh s" and same: "sr_same s s'" "table_ok Y s'"
  obtains sh' where "sole N Y V p ob sh' s'" "sh_core sh' = sh_core sh"
proof -
  note d = s [unfolded sole_def]
  from d obtain sh' where sh': "rt_shapes s' (ob_shape ob) = Some sh'" "sh_core sh' = sh_core sh" by (auto elim: sr_same_shape [OF same(1)])
  have "rt_objects s' = rt_objects s" using same(1) by (simp add: sr_same_def)
  then have "sole N Y V p ob sh' s'" using d sr_same_inv [OF soleD(1) [OF s] same] sh' by (simp add: sole_def users_def)
  with sh'(2) that show thesis by blast
qed

lemma sole_unlink:
  assumes "sole N {} V p ob sh s"
  shows "sr_at F s (if is_hashed sh then js_shape_hash_unlink (ob_shape ob) else sr_return ())
    (\<lambda>_ s'. \<exists>sh'. sole N (if is_hashed sh then {ob_shape ob} else {}) V p ob sh' s' \<and> sh_core sh' = sh_core sh) E"
proof (cases "is_hashed sh")
  case True
  have "sr_at F s (js_shape_hash_unlink (ob_shape ob)) (\<lambda>_ s'. table_ok {ob_shape ob} s' \<and> sr_same s s') E"
    using unlink_spec [OF sr_inv_table [OF soleD(1) [OF assms]] soleD(4) [OF assms] True] by simp
  then show ?thesis using True by simp (rule sr_at_conseq, assumption, auto elim: sole_same [OF assms])
qed (use assms in \<open>auto intro: sr_at_return\<close>)

lemma sole_link:
  assumes s: "sole N {ob_shape ob} V p ob sh s" and h: "is_hashed sh"
  shows "sr_at F s (js_shape_hash_link (ob_shape ob)) (\<lambda>_ s'. \<exists>sh'. sole N {} V p ob sh' s' \<and> sh_core sh' = sh_core sh) E"
proof -
  have "sr_at F s (js_shape_hash_link (ob_shape ob)) (\<lambda>_ s'. table_ok {} s' \<and> sr_same s s') E"
    using link_spec [OF sr_inv_table [OF soleD(1) [OF s]] soleD(4) [OF s] h] by simp
  then show ?thesis by (rule sr_at_conseq) (auto elim: sole_same [OF s])
qed

lemma sole_put:
  assumes s: "sole N X V p ob sh s"
    and wf: "shape_wf sh'" "length (sh_prop sh') \<le> M" "sh_ref_count sh' = 1" "prop_size sh' \<le> length (ob_prop ob)" "N \<le> M"
    and t: "table_ok Y (put_shape (ob_shape ob) sh' s)"
  shows "sole M Y (V(p \<mapsto> (sh_proto sh', prop_entries (sh_prop sh') (ob_prop ob)))) p ob sh' (put_shape (ob_shape ob) sh' s)"
  using put_sole_shape [OF soleD(1,3,4,5) [OF s] wf(1-4) soleD(6) [OF s] wf(5) t] soleD [OF s] by (simp add: sole_def)

section \<open>Resizing\<close>

lemma prop_entries_realloc:
  assumes "length prs \<le> n" "length prs \<le> length vs"
  shows "prop_entries prs (realloc_props vs n) = prop_entries prs vs"
proof -
  have "take (length prs) (realloc_props vs n) = take (length prs) vs" using assms by (simp add: realloc_props_def min_def)
  then show ?thesis using prop_entries_take [of prs "length prs" vs] prop_entries_take [of prs "length prs" "realloc_props vs n"] by simp
qed

lemma length_realloc [simp]: "length (realloc_props vs n) = n"
  by (simp add: realloc_props_def)

definition resized :: "JSShape \<Rightarrow> JSShape \<Rightarrow> bool" where
  "resized sh sh' \<longleftrightarrow> is_hashed sh' = is_hashed sh \<and> sh_proto sh' = sh_proto sh \<and>
     map pr_atom (sh_prop sh') = map pr_atom (sh_prop sh) \<and> map pr_flags (sh_prop sh') = map pr_flags (sh_prop sh) \<and>
     length (sh_prop sh') < prop_size sh'"

lemma sole_replace:
  assumes s: "sole N X V p ob sh s" and X: "X = (if is_hashed sh then {ob_shape ob} else {})" and h: "is_hashed sh' = is_hashed sh"
    and wf: "shape_wf sh'" "length (sh_prop sh') \<le> N" "sh_ref_count sh' = 1" "prop_size sh' \<le> length vs"
    and same: "sh_proto sh' = sh_proto sh" "prop_entries (sh_prop sh') vs = prop_entries (sh_prop sh) (ob_prop ob)"
    and s': "s' = put_object p \<lparr>ob_shape = sr_brk s, ob_prop = vs\<rparr> (free_shape_mem (ob_shape ob) (put_shape (sr_brk s) sh' (s\<lparr>sr_brk := sr_brk s + 1\<rparr>)))"
  shows "sole N (if is_hashed sh then {sr_brk s} else {}) V p \<lparr>ob_shape = sr_brk s, ob_prop = vs\<rparr> sh' s'"
proof -
  have X': "is_hashed sh \<Longrightarrow> ob_shape ob \<in> X" using X by simp
  note r = replace_shape [OF soleD(1,3,4,5) [OF s] X' refl wf refl s']
  have "rt_shapes s (sr_brk s) = None" by (rule fresh_shape [OF soleD(1) [OF s]])
  then have "(if is_hashed sh' then insert (sr_brk s) X else X) - {ob_shape ob} = (if is_hashed sh then {sr_brk s} else {})"
    using X h soleD(4) [OF s] by auto
  moreover have "view s' = V" using r(2) soleD(10) [OF s] same soleD(2) [OF s] by (simp add: fun_upd_idem)
  ultimately show ?thesis using r by (simp add: sole_def)
qed

lemma sole_values:
  assumes s: "sole N X V p ob sh s" and vs: "prop_size sh \<le> length vs"
  shows "sole N X (V(p \<mapsto> (sh_proto sh, prop_entries (sh_prop sh) vs))) p (ob\<lparr>ob_prop := vs\<rparr>) sh (put_object p (ob\<lparr>ob_prop := vs\<rparr>) s)"
proof -
  have "users (put_object p (ob\<lparr>ob_prop := vs\<rparr>) s) (ob_shape ob) = {p}"
    using users_put_object [OF soleD(3) [OF s], of "ob\<lparr>ob_prop := vs\<rparr>" "ob_shape ob"] soleD(5) [OF s] by simp
  then show ?thesis using put_values [OF soleD(1,3,4) [OF s] vs] soleD [OF s] by (simp add: sole_def)
qed

lemma sole_resize:
  assumes s: "sole N X V p ob sh s" and X: "X = (if is_hashed sh then {ob_shape ob} else {})" and full: "prop_size sh \<le> length (sh_prop sh)"
  shows "sr_at F s (resize_properties p (length (sh_prop sh) + 1))
    (\<lambda>_ s'. \<exists>ob' sh'. sole N (if is_hashed sh then {ob_shape ob'} else {}) V p ob' sh' s' \<and> resized sh sh')
    (\<lambda>s'. \<exists>ob'. ob_shape ob' = ob_shape ob \<and> sole N X V p ob' sh s')"
proof -
  let ?n = "length (sh_prop sh)"
  let ?size = "max (?n + 1) (prop_size sh * 3 div 2)" and ?h = "unat (prop_hash_mask sh) + 1"
  let ?vs = "realloc_props (ob_prop ob) ?size"
  let ?ob = "ob\<lparr>ob_prop := ?vs\<rparr>"
  let ?s1 = "put_object p ?ob s"
  note wf = soleD(7) [OF s, unfolded shape_wf_def]
  have n: "?n < ?size" "?n < 2 ^ 26" "prop_size sh = ?n" using wf full by auto
  have "?size \<le> 2 ^ 27" using n(2,3) by simp
  then have size: "?size \<le> 2 ^ 27" "prop_size sh \<le> ?size" using n(3) by auto
  have pe: "prop_entries (sh_prop sh) ?vs = prop_entries (sh_prop sh) (ob_prop ob)"
    by (rule prop_entries_realloc) (use n soleD(9) [OF s] in auto)
  have "prop_size sh \<le> length ?vs" unfolding length_realloc by (rule size)
  note s1 = sole_values [OF s this]
  have "V(p \<mapsto> (sh_proto sh, prop_entries (sh_prop sh) ?vs)) = V" using soleD(10) [OF s] pe by (simp add: fun_upd_idem)
  with s1 have s1: "sole N X V p ?ob sh ?s1" by simp
  have "?size \<le> 2 ^ 32" using size(1) by simp
  also have "\<dots> \<le> ?h * 2 ^ 32" by simp
  finally obtain r where r: "grow_hash_size ?h ?size 32 = Inr r" "?h \<le> r" "r = ?h \<or> r < 2 * ?size"
    using grow_hash_size_spec by blast
  have "0 < r" using r(2) by simp
  moreover have "r \<le> 2 ^ 32"
  proof (cases "r = ?h")
    case False
    then have "r < 2 * ?size" using r(3) by blast
    also have "\<dots> \<le> 2 * 2 ^ 27" using size(1) by (rule mult_le_mono2)
    finally show ?thesis by simp
  qed (use unat_u32_less in simp)
  ultimately have hm: "unat (of_nat (r - 1) :: u32) + 1 = r" by (rule unat_hmask)
  define sh1 where "sh1 = (let sh1 = sh\<lparr>sh_ref_count := 1, prop_size := ?size\<rparr>
    in if r \<noteq> ?h then (let hmask = of_nat (r - 1); (prs, tab) = rehash_loop hmask (sh_prop sh) 0 (replicate r 0)
         in sh1\<lparr>prop_hash_mask := hmask, hash_table := tab, sh_prop := prs\<rparr>) else sh1)"
  have sh1: "shape_wf sh1 \<and> resized sh sh1 \<and> sh_ref_count sh1 = 1 \<and> prop_size sh1 = ?size"
  proof (cases "r = ?h")
    case True
    then show ?thesis using soleD(7) [OF s] n(1) by (simp add: sh1_def shape_wf_def resized_def)
  next
    case False
    obtain prs tab where rl: "rehash_loop (of_nat (r - 1)) (sh_prop sh) 0 (replicate r 0) = (prs, tab)" by fastforce
    have sh1: "sh1 = sh\<lparr>sh_ref_count := 1, prop_size := ?size, prop_hash_mask := of_nat (r - 1), hash_table := tab, sh_prop := prs\<rparr>"
      using False rl by (simp add: sh1_def Let_def)
    note l = rehash_links [OF rl n(2) hm [symmetric]]
    have "length prs = ?n" using l(2) by (metis length_map)
    moreover have "shape_wf sh1"
      by (rule shape_wf_rehash [OF soleD(7) [OF s] rl hm refl order_refl less_imp_le [OF n(1)], where d = "deleted_prop_count sh"])
        (use wf in \<open>simp_all add: sh1\<close>)
    ultimately show ?thesis using l(2,3) n(1) by (simp add: sh1 resized_def)
  qed
  have len: "length (sh_prop sh1) = ?n" using sh1 unfolding resized_def by (metis length_map)
  have "prop_entries (sh_prop sh1) ?vs = prop_entries (sh_prop sh) ?vs" using sh1 unfolding resized_def by (intro prop_entries_cong) auto
  then have pe1: "prop_entries (sh_prop sh1) ?vs = prop_entries (sh_prop sh) (ob_prop ?ob)" by simp
  have X1: "X = (if is_hashed sh then {ob_shape ?ob} else {})" using X by simp
  have N: "length (sh_prop sh1) \<le> N" using len soleD(8) [OF s] by simp
  have vl: "prop_size sh1 \<le> length ?vs" using sh1 by simp
  have h1: "is_hashed sh1 = is_hashed sh" "sh_proto sh1 = sh_proto sh" using sh1 by (simp_all add: resized_def)
  note rep = sole_replace [OF s1 X1 h1(1) _ N _ vl h1(2) pe1 refl]
  let ?s3 = "put_object p \<lparr>ob_shape = sr_brk s, ob_prop = ?vs\<rparr> (free_shape_mem (ob_shape ob) (put_shape (sr_brk s) sh1 (?s1\<lparr>sr_brk := sr_brk s + 1\<rparr>)))"
  have fin: "sole N (if is_hashed sh then {sr_brk s} else {}) V p \<lparr>ob_shape = sr_brk s, ob_prop = ?vs\<rparr> sh1 ?s3"
    using rep sh1 unfolding put_simps(11) by (simp split del: if_split)
  have ob: "ob\<lparr>ob_shape := b, ob_prop := ?vs\<rparr> = \<lparr>ob_shape = b, ob_prop = ?vs\<rparr>" for b by simp
  show ?thesis
    unfolding resize_properties_def sr_step soleD(3,4) [OF s] option.case Let_def [of "max _ _"] sr_bind_update
  proof (rule sr_bind_malloc)
    show "\<exists>ob'. ob_shape ob' = ob_shape ob \<and> sole N X V p ob' sh s" using s by blast
  next
    show "sr_at F s (sr_bind (sr_update (put_object p ?ob)) (\<lambda>_. sr_bind (sr_lift (\<lambda>_. grow_hash_size ?h ?size 32)) (\<lambda>new_hash_size.
        sr_bind sr_malloc (\<lambda>_. let sh1 = sh\<lparr>sh_ref_count := 1, prop_size := ?size\<rparr>;
           sh1 = (if new_hash_size \<noteq> ?h then (let hmask = of_nat (new_hash_size - 1); (prs, tab) = rehash_loop hmask (sh_prop sh) 0 (replicate new_hash_size 0)
              in sh1\<lparr>prop_hash_mask := hmask, hash_table := tab, sh_prop := prs\<rparr>) else sh1)
         in sr_bind (sr_new_shape sh1) (\<lambda>a. sr_update (\<lambda>s. put_object p (ob\<lparr>ob_shape := a, ob_prop := ?vs\<rparr>) (free_shape_mem (ob_shape ob) s)))))))
     (\<lambda>_ s'. \<exists>ob' sh'. sole N (if is_hashed sh then {ob_shape ob'} else {}) V p ob' sh' s' \<and> resized sh sh')
     (\<lambda>s'. \<exists>ob'. ob_shape ob' = ob_shape ob \<and> sole N X V p ob' sh s')"
      unfolding sr_bind_update sr_bind_lift [of "\<lambda>_. grow_hash_size ?h ?size 32", OF r(1)]
    proof (rule sr_bind_malloc)
      show "\<exists>ob'. ob_shape ob' = ob_shape ob \<and> sole N X V p ob' sh ?s1" using s1 by (intro exI [of _ ?ob]) simp
    next
      have "sr_at F ?s1 (sr_bind (sr_new_shape sh1) (\<lambda>a. sr_update (\<lambda>s. put_object p (ob\<lparr>ob_shape := a, ob_prop := ?vs\<rparr>) (free_shape_mem (ob_shape ob) s))))
       (\<lambda>_ s'. \<exists>ob' sh'. sole N (if is_hashed sh then {ob_shape ob'} else {}) V p ob' sh' s' \<and> resized sh sh')
       (\<lambda>s'. \<exists>ob'. ob_shape ob' = ob_shape ob \<and> sole N X V p ob' sh s')"
        unfolding sr_bind_fresh_shape ob
        by (rule sr_at_update, intro exI [of _ "\<lparr>ob_shape = sr_brk s, ob_prop = ?vs\<rparr>"] exI [of _ sh1]) (use fin sh1 in \<open>simp cong: if_cong split del: if_split\<close>)
      then show "sr_at F ?s1 (let sh1 = sh\<lparr>sh_ref_count := 1, prop_size := ?size\<rparr>;
           sh1 = (if r \<noteq> ?h then (let hmask = of_nat (r - 1); (prs, tab) = rehash_loop hmask (sh_prop sh) 0 (replicate r 0)
              in sh1\<lparr>prop_hash_mask := hmask, hash_table := tab, sh_prop := prs\<rparr>) else sh1)
         in sr_bind (sr_new_shape sh1) (\<lambda>a. sr_update (\<lambda>s. put_object p (ob\<lparr>ob_shape := a, ob_prop := ?vs\<rparr>) (free_shape_mem (ob_shape ob) s))))
       (\<lambda>_ s'. \<exists>ob' sh'. sole N (if is_hashed sh then {ob_shape ob'} else {}) V p ob' sh' s' \<and> resized sh sh')
       (\<lambda>s'. \<exists>ob'. ob_shape ob' = ob_shape ob \<and> sole N X V p ob' sh s')"
        unfolding sh1_def Let_def .
    qed
  qed
qed


section \<open>Adding a property\<close>

text \<open>The new property is the last; its value is not set yet.\<close>

definition added :: "nat \<Rightarrow> (nat \<Rightarrow> obj_view option) \<Rightarrow> nat \<Rightarrow> u32 \<Rightarrow> nat \<Rightarrow> nat \<Rightarrow> ShapeRuntime \<Rightarrow> bool" where
  "added N V p atom flags i s \<longleftrightarrow> (\<exists>proto es v. V p = Some (proto, es) \<and> heap_is (\<lambda>_. 0) N (V(p \<mapsto> (proto, es @ [(atom, flags, v)]))) s) \<and>
     (\<exists>ob sh. rt_objects s p = Some ob \<and> rt_shapes s (ob_shape ob) = Some sh \<and> i + 1 = length (sh_prop sh) \<and> pr_atom (sh_prop sh ! i) = atom)"

lemma push_prop_simps [simp]:
  "sh_proto (push_prop atom flags sh) = sh_proto sh" "sh_ref_count (push_prop atom flags sh) = sh_ref_count sh"
  "is_hashed (push_prop atom flags sh) = is_hashed sh" "sh_hash (push_prop atom flags sh) = sh_hash sh"
  "shape_hash_next (push_prop atom flags sh) = shape_hash_next sh" "prop_size (push_prop atom flags sh) = prop_size sh"
  "length (sh_prop (push_prop atom flags sh)) = length (sh_prop sh) + 1"
  by (simp_all add: push_prop_def Let_def)

lemma push_entries:
  assumes "atom \<noteq> 0" "length (sh_prop sh) < length vs"
  shows "prop_entries (sh_prop (push_prop atom flags sh)) vs = prop_entries (sh_prop sh) vs @ [(atom, flags mod 64, vs ! length (sh_prop sh))]"
  using assms by (simp add: push_prop_def Let_def prop_entries_snoc link_prop_def)

lemma sole_push:
  assumes s: "sole N {} V p ob sh s" and room: "length (sh_prop sh) < prop_size sh" "N + 1 < 2 ^ 26"
    and atom: "atom \<noteq> 0" "atom \<notin> set (live_atoms (sh_prop sh))"
  shows "sole (N + 1) {} (V(p \<mapsto> (sh_proto sh, prop_entries (sh_prop sh) (ob_prop ob) @ [(atom, flags mod 64, ob_prop ob ! length (sh_prop sh))]))) p
      ob (push_prop atom flags sh) (put_shape (ob_shape ob) (push_prop atom flags sh) s)"
proof -
  have "shape_wf (push_prop atom flags sh)"
    by (rule shape_wf_push [OF soleD(7) [OF s] atom room(1)]) (use room(2) soleD(8) [OF s] in simp)
  from sole_put [OF s this, of "N + 1" "{}"] soleD [OF s] atom(1) room(1) show ?thesis
    by (simp add: push_entries table_put_same [OF sr_inv_table])
qed

lemma add_shape_property_spec:
  assumes s: "sole N {} V p ob sh s" and N: "N + 1 < 2 ^ 26" and atom: "atom \<noteq> 0" "atom \<notin> set (live_atoms (sh_prop sh))"
  shows "sr_at F s (add_shape_property p atom flags)
    (\<lambda>_ s'. added (N + 1) V p atom (flags mod 64) (length (sh_prop sh)) s') (heap_is (\<lambda>_. 0) N V)"
  unfolding add_shape_property_def sr_step soleD(3,4) [OF s] option.case
proof (rule sr_at_bind [OF sole_unlink [OF s]])
  let ?X = "\<lambda>ob. if is_hashed sh then {ob_shape ob} else {}"
  let ?Q = "\<lambda>(_::unit) s'. added (N + 1) V p atom (flags mod 64) (length (sh_prop sh)) s'"
  fix x s1 assume "\<exists>sh1. sole N (?X ob) V p ob sh1 s1 \<and> sh_core sh1 = sh_core sh"
  then obtain sh1 where s1: "sole N (?X ob) V p ob sh1 s1" "sh_core sh1 = sh_core sh" by blast
  note c = sh_core_fields [OF s1(2)]
  have X1: "?X ob = (if is_hashed sh1 then {ob_shape ob} else {})" using c by simp
  have res: "sr_at F s1 (if prop_size sh \<le> length (sh_prop sh) then sr_catch (resize_properties p (length (sh_prop sh) + 1)) (\<lambda>e.
        sr_bind (if is_hashed sh then js_shape_hash_link (ob_shape ob) else sr_return ()) (\<lambda>_. sr_throw e)) else sr_return ())
      (\<lambda>_ s'. \<exists>ob' sh'. sole N (?X ob') V p ob' sh' s' \<and> resized sh sh') (heap_is (\<lambda>_. 0) N V)"
  proof (cases "prop_size sh \<le> length (sh_prop sh)")
    case True
    then have "prop_size sh1 \<le> length (sh_prop sh1)" using c by simp
    note r = sole_resize [OF s1(1) X1 this, of F]
    have "sr_at F s1 (sr_catch (resize_properties p (length (sh_prop sh) + 1)) (\<lambda>e.
        sr_bind (if is_hashed sh then js_shape_hash_link (ob_shape ob) else sr_return ()) (\<lambda>_. sr_throw e)))
      (\<lambda>_ s'. \<exists>ob' sh'. sole N (?X ob') V p ob' sh' s' \<and> resized sh sh') (heap_is (\<lambda>_. 0) N V)"
    proof (rule sr_at_catch)
      show "sr_at F s1 (resize_properties p (length (sh_prop sh) + 1)) (\<lambda>_ s'. \<exists>ob' sh'. sole N (?X ob') V p ob' sh' s' \<and> resized sh sh')
          (\<lambda>s'. \<exists>ob'. ob_shape ob' = ob_shape ob \<and> sole N (?X ob) V p ob' sh1 s')"
        using r c by (simp add: resized_def)
    next
      fix s' assume "\<exists>ob'. ob_shape ob' = ob_shape ob \<and> sole N (?X ob) V p ob' sh1 s'"
      then obtain ob' where ob': "ob_shape ob' = ob_shape ob" "sole N (?X ob) V p ob' sh1 s'" by blast
      show "sr_at True s' (sr_bind (if is_hashed sh then js_shape_hash_link (ob_shape ob) else sr_return ()) (\<lambda>_. sr_throw OutOfMemory))
          (\<lambda>_ s'. \<exists>ob' sh'. sole N (?X ob') V p ob' sh' s' \<and> resized sh sh') (heap_is (\<lambda>_. 0) N V)"
      proof (cases "is_hashed sh")
        case True
        then have "sole N {ob_shape ob'} V p ob' sh1 s'" "is_hashed sh1" using ob' c by simp_all
        note l = sole_link [OF this, unfolded ob'(1)]
        show ?thesis using True by simp (rule sr_at_bind [OF l], auto intro: sr_at_throw sole_heap)
      next
        case False
        then show ?thesis using ob'(2) by (simp add: sr_at_throw sole_heap)
      qed
    qed
    then show ?thesis using True by simp
  next
    case False
    then show ?thesis using s1(1) c by (auto intro!: sr_at_return exI simp: resized_def)
  qed
  show "sr_at F s1 (sr_bind (if prop_size sh \<le> length (sh_prop sh) then sr_catch (resize_properties p (length (sh_prop sh) + 1)) (\<lambda>e.
        sr_bind (if is_hashed sh then js_shape_hash_link (ob_shape ob) else sr_return ()) (\<lambda>_. sr_throw e)) else sr_return ()) (\<lambda>_.
     sr_bind (sr_object p) (\<lambda>ob. sr_bind (if is_hashed sh then sr_bind (sr_shape (ob_shape ob)) (\<lambda>sh1.
                sr_bind (sr_update (put_shape (ob_shape ob) (sh1\<lparr>sh_hash := shape_hash (shape_hash (sh_hash sh) atom) (of_nat flags)\<rparr>))) (\<lambda>_.
                js_shape_hash_link (ob_shape ob))) else sr_return ()) (\<lambda>_.
     sr_bind (sr_shape (ob_shape ob)) (\<lambda>sh. if unat (atom AND prop_hash_mask sh) < length (hash_table sh)
     then sr_update (put_shape (ob_shape ob) (push_prop atom flags sh)) else sr_throw OutOfBounds))))) ?Q (heap_is (\<lambda>_. 0) N V)"
  proof (rule sr_at_bind [OF res])
    fix y s2 assume "\<exists>ob' sh'. sole N (?X ob') V p ob' sh' s2 \<and> resized sh sh'"
    then obtain ob2 sh2 where s2: "sole N (?X ob2) V p ob2 sh2 s2" "resized sh sh2" by blast
    let ?push = "\<lambda>s. sr_at F s (sr_bind (sr_shape (ob_shape ob2)) (\<lambda>sh. if unat (atom AND prop_hash_mask sh) < length (hash_table sh)
        then sr_update (put_shape (ob_shape ob2) (push_prop atom flags sh)) else sr_throw OutOfBounds)) ?Q (heap_is (\<lambda>_. 0) N V)"
    have push: "?push s3" if s3: "sole N {} V p ob2 sh3 s3" and r3: "resized sh sh3" for s3 sh3
    proof -
      have len: "length (sh_prop sh3) = length (sh_prop sh)" using r3 unfolding resized_def by (metis length_map)
      have la: "live_atoms (sh_prop sh3) = live_atoms (sh_prop sh)" using r3 by (simp add: resized_def live_atoms_def)
      have h: "unat (atom AND prop_hash_mask sh3) < length (hash_table sh3)"
        using bucket_less soleD(7) [OF s3] by (simp add: shape_wf_def)
      have room: "length (sh_prop sh3) < prop_size sh3" using r3 by (simp add: resized_def)
      let ?s = "put_shape (ob_shape ob2) (push_prop atom flags sh3) s3"
      have so: "sole (N + 1) {} (V(p \<mapsto> (sh_proto sh3, prop_entries (sh_prop sh3) (ob_prop ob2) @ [(atom, flags mod 64, ob_prop ob2 ! length (sh_prop sh3))]))) p
          ob2 (push_prop atom flags sh3) ?s"
        using sole_push [OF s3 room N atom(1)] atom(2) la by simp
      have "added (N + 1) V p atom (flags mod 64) (length (sh_prop sh)) ?s"
        unfolding added_def using sole_heap [OF so] soleD(10) [OF s3] soleD(3,4) [OF so] len
        by (auto simp: push_prop_def Let_def link_prop_def nth_append)
      then show ?thesis using h soleD(4) [OF s3] by (auto intro!: sr_at_update)
    qed
    have "sr_at F s2 (sr_bind (if is_hashed sh then sr_bind (sr_shape (ob_shape ob2)) (\<lambda>sh1.
                sr_bind (sr_update (put_shape (ob_shape ob2) (sh1\<lparr>sh_hash := shape_hash (shape_hash (sh_hash sh) atom) (of_nat flags)\<rparr>))) (\<lambda>_.
                js_shape_hash_link (ob_shape ob2))) else sr_return ()) (\<lambda>_.
     sr_bind (sr_shape (ob_shape ob2)) (\<lambda>sh. if unat (atom AND prop_hash_mask sh) < length (hash_table sh)
     then sr_update (put_shape (ob_shape ob2) (push_prop atom flags sh)) else sr_throw OutOfBounds))) ?Q (heap_is (\<lambda>_. 0) N V)"
    proof (cases "is_hashed sh")
      case True
      let ?sh3 = "sh2\<lparr>sh_hash := shape_hash (shape_hash (sh_hash sh) atom) (of_nat flags)\<rparr>"
      let ?s3 = "put_shape (ob_shape ob2) ?sh3 s2"
      have s2': "sole N {ob_shape ob2} V p ob2 sh2 s2" using s2(1) True by simp
      have h2: "is_hashed sh2" using s2(2) True by (simp add: resized_def)
      have "table_ok {ob_shape ob2} ?s3" by (rule table_put_out [OF sr_inv_table [OF soleD(1) [OF s2']] soleD(4) [OF s2']]) (simp_all add: h2)
      from sole_put [OF s2' _ _ _ _ order_refl this] soleD [OF s2']
      have "sole N {ob_shape ob2} V p ob2 ?sh3 ?s3" by (simp add: shape_wf_def fun_upd_idem)
      from sole_link [OF this] h2
      have l: "sr_at F ?s3 (js_shape_hash_link (ob_shape ob2)) (\<lambda>_ s'. \<exists>sh'. sole N {} V p ob2 sh' s' \<and> sh_core sh' = sh_core ?sh3) (heap_is (\<lambda>_. 0) N V)" by simp
      have "?push s'" if "\<exists>sh'. sole N {} V p ob2 sh' s' \<and> sh_core sh' = sh_core ?sh3" for s'
      proof -
        from that obtain sh' where sh': "sole N {} V p ob2 sh' s'" "sh_core sh' = sh_core ?sh3" by blast
        have "resized sh sh'" using sh_core_fields [OF sh'(2)] s2(2) by (simp add: resized_def)
        then show ?thesis by (rule push [OF sh'(1)])
      qed
      from sr_at_bind [OF l this] show ?thesis using True soleD(4) [OF s2(1)] by simp
    next
      case False
      then show ?thesis using push s2 by simp
    qed
    then show "sr_at F s2 (sr_bind (sr_object p) (\<lambda>ob. sr_bind (if is_hashed sh then sr_bind (sr_shape (ob_shape ob)) (\<lambda>sh1.
                sr_bind (sr_update (put_shape (ob_shape ob) (sh1\<lparr>sh_hash := shape_hash (shape_hash (sh_hash sh) atom) (of_nat flags)\<rparr>))) (\<lambda>_.
                js_shape_hash_link (ob_shape ob))) else sr_return ()) (\<lambda>_.
     sr_bind (sr_shape (ob_shape ob)) (\<lambda>sh. if unat (atom AND prop_hash_mask sh) < length (hash_table sh)
     then sr_update (put_shape (ob_shape ob) (push_prop atom flags sh)) else sr_throw OutOfBounds)))) ?Q (heap_is (\<lambda>_. 0) N V)"
      using soleD(3) [OF s2(1)] by simp
  qed
qed

end
