(* ===== verification/ObjectDefine.thy ===== *)
theory ObjectDefine
  imports ObjectAdd
begin

text \<open>
  Adding a property to an object: with a shape that is found, with a clone, or in place.
\<close>

section \<open>Taking over a shape\<close>

text \<open>An object takes a shape to which it has a new reference, and gives up its own.\<close>

lemma take_shape:
  assumes inv: "heap_is ((\<lambda>_. 0)(b := 1)) N V s" and p: "rt_objects s p = Some ob" and a: "rt_shapes s (ob_shape ob) = Some sh"
    and b: "rt_shapes s b = Some sh'" "b \<noteq> ob_shape ob" and vs: "prop_size sh' \<le> length vs"
  shows "heap_is ((\<lambda>_. 0)(ob_shape ob := 1)) N (V(p \<mapsto> (sh_proto sh', prop_entries (sh_prop sh') vs))) (put_object p \<lparr>ob_shape = b, ob_prop = vs\<rparr> s)"
proof -
  have e: "(((\<lambda>_. 0::int)(b := 1))(ob_shape ob := ((\<lambda>_. 0)(b := 1)) (ob_shape ob) + 1, b := ((\<lambda>_. 0)(b := 1)) b - 1)) = (\<lambda>_. 0)(ob_shape ob := 1)"
    using b(2) by auto
  show ?thesis using move_object [OF heap_isD(1) [OF inv] p b(1) vs b(2)] heap_isD(2) [OF inv] unfolding e by (simp add: heap_is_def)
qed

lemma take_free:
  assumes inv: "heap_is ((\<lambda>_. 0)(b := 1)) N V s" and p: "rt_objects s p = Some ob" and a: "rt_shapes s (ob_shape ob) = Some sh"
    and b: "rt_shapes s b = Some sh'" "b \<noteq> ob_shape ob" and vs: "prop_size sh' \<le> length vs"
  shows "sr_at F (put_object p \<lparr>ob_shape = b, ob_prop = vs\<rparr> s) (js_free_shape (ob_shape ob))
    (\<lambda>_ s'. heap_is (\<lambda>_. 0) N (V(p \<mapsto> (sh_proto sh', prop_entries (sh_prop sh') vs))) s' \<and> rt_objects s' p = Some \<lparr>ob_shape = b, ob_prop = vs\<rparr> \<and>
       map_option sh_core (rt_shapes s' b) = Some (sh_core sh')) E"
proof -
  let ?s = "put_object p \<lparr>ob_shape = b, ob_prop = vs\<rparr> s"
  have a': "rt_shapes ?s (ob_shape ob) = Some sh" using a by simp
  have e: "((\<lambda>_. 0::int)(ob_shape ob := 1))(ob_shape ob := ((\<lambda>_. 0)(ob_shape ob := 1)) (ob_shape ob) - 1) = (\<lambda>_. 0)" by auto
  show ?thesis
    by (rule sr_at_conseq [OF free_shape_spec [OF take_shape [OF assms] a']]) (use b e in auto)
qed

text \<open>The order of the code for a clone: first the reference is given up.\<close>

lemma take_clone:
  assumes inv: "heap_is ((\<lambda>_. 0)(b := 1)) N V s" and p: "rt_objects s p = Some ob" and a: "rt_shapes s (ob_shape ob) = Some sh" "2 \<le> sh_ref_count sh" "is_hashed sh"
    and b: "rt_shapes s b = Some sh'" "b \<noteq> ob_shape ob" "sh_ref_count sh' = 1"
    and same: "sh_proto sh' = sh_proto sh" "sh_prop sh' = sh_prop sh" "prop_size sh' = prop_size sh"
  shows "sr_at F s (sr_bind (js_free_shape (ob_shape ob)) (\<lambda>_. sr_update (put_object p (ob\<lparr>ob_shape := b\<rparr>))))
    (\<lambda>_ s'. sole N {} V p (ob\<lparr>ob_shape := b\<rparr>) sh' s') E"
proof (rule sr_at_bind [OF free_shared [OF a(1,2)]])
  let ?a = "ob_shape ob"
  let ?s1 = "put_shape ?a (sh\<lparr>sh_ref_count := sh_ref_count sh - 1\<rparr>) s" and ?ob = "ob\<lparr>ob_shape := b\<rparr>"
  fix x s' assume s': "s' = ?s1"
  have inv0: "sr_inv ((\<lambda>_. 0)(b := 1)) N {} s" "view s = V" by (rule heap_isD [OF inv])+
  have pos: "0 < sh_ref_count sh + - 1" using a(2) by simp
  have h: "is_hashed sh \<or> sh_ref_count sh + - 1 = 1" using a(3) by simp
  note f = put_ref_count [OF inv0(1) a(1) pos h]
  have p1: "rt_objects ?s1 p = Some ob" "rt_shapes ?s1 b = Some sh'" using p b by simp_all
  have sz: "prop_size sh' \<le> length (ob_prop ob)" using sr_inv_object [OF inv0(1) p] a(1) same(3) by (auto simp: object_ok_def)
  have f1: "sr_inv (((\<lambda>_. 0)(b := 1))(?a := ((\<lambda>_. 0)(b := 1)) ?a + - 1)) N {} ?s1" "view ?s1 = V" using f inv0(2) by simp_all
  note m = move_object [OF f1(1) p1 sz b(2)]
  let ?s2 = "put_object p ?ob ?s1"
  have ob: "?ob = \<lparr>ob_shape = b, ob_prop = ob_prop ob\<rparr>" by simp
  have "(((\<lambda>_. 0::int)(b := 1))(?a := ((\<lambda>_. 0)(b := 1)) ?a + - 1))(?a := (((\<lambda>_. 0)(b := 1))(?a := ((\<lambda>_. 0)(b := 1)) ?a + - 1)) ?a + 1,
      b := (((\<lambda>_. 0)(b := 1))(?a := ((\<lambda>_. 0)(b := 1)) ?a + - 1)) b - 1) = (\<lambda>_. 0)" using b(2) by auto
  then have inv2: "sr_inv (\<lambda>_. 0) N {} ?s2" using m(1) by (simp add: ob)
  have "V p = Some (sh_proto sh', prop_entries (sh_prop sh') (ob_prop ob))" using p a(1) same inv0(2) by (auto simp: view_def)
  then have v2: "view ?s2 = V" using m(2) f1(2) by (simp add: ob fun_upd_idem)
  have p2: "rt_objects ?s2 p = Some ?ob" "rt_shapes ?s2 (ob_shape ?ob) = Some sh'" using p1 by simp_all
  have "users ?s2 (ob_shape ?ob) = {p}" using sole_user(1) [OF inv2 p2 b(3)] by simp
  then have "sole N {} V p ?ob sh' ?s2" using inv2 v2 p2 by (simp add: sole_def)
  then show "sr_at F s' (sr_update (put_object p ?ob)) (\<lambda>_ s'. sole N {} V p ?ob sh' s') E" unfolding s' by (rule sr_at_update)
qed

text \<open>A clone is a new shape with a reference for its caller.\<close>

lemma clone_shape_spec:
  assumes inv: "heap_is (\<lambda>_. 0) N V s" and a: "rt_shapes s a = Some sh" and h: "h = is_hashed sh'" "sh' = sh\<lparr>sh_ref_count := 1, is_hashed := h\<rparr>"
  shows "sr_inv ((\<lambda>_. 0)(sr_brk s := 1)) N (if h then {sr_brk s} else {}) (put_shape (sr_brk s) sh' (s\<lparr>sr_brk := sr_brk s + 1\<rparr>))"
    "view (put_shape (sr_brk s) sh' (s\<lparr>sr_brk := sr_brk s + 1\<rparr>)) = V" "sr_brk s \<noteq> a"
proof -
  have ok: "shape_ok (\<lambda>_. 0) N s a sh" by (rule sr_inv_shape [OF heap_isD(1) [OF inv] a])
  have wf: "shape_wf sh'" "length (sh_prop sh') \<le> N" "sh_ref_count sh' = 1" using ok unfolding h(2) by (auto simp: shape_ok_def shape_wf_def)
  note n = new_shape_inv [OF heap_isD(1) [OF inv] wf refl refl]
  show "sr_inv ((\<lambda>_. 0)(sr_brk s := 1)) N (if h then {sr_brk s} else {}) (put_shape (sr_brk s) sh' (s\<lparr>sr_brk := sr_brk s + 1\<rparr>))"
    "view (put_shape (sr_brk s) sh' (s\<lparr>sr_brk := sr_brk s + 1\<rparr>)) = V" using n heap_isD(2) [OF inv] h(1) by simp_all
  show "sr_brk s \<noteq> a" using fresh_shape [OF heap_isD(1) [OF inv]] a by auto
qed

section \<open>Adding a property to an object\<close>

lemma share_shape_spec:
  assumes inv: "heap_is (\<lambda>_. 0) N V s" and p: "rt_objects s p = Some ob" and a: "rt_shapes s (ob_shape ob) = Some sh"
    and b: "b \<noteq> ob_shape ob" "rt_shapes s b = Some sh1" "is_hashed sh1" and proto: "sh_proto sh1 = sh_proto sh"
    and atoms: "map pr_atom (sh_prop sh1) = map pr_atom (sh_prop sh) @ [atom]" "map pr_flags (sh_prop sh1) = map pr_flags (sh_prop sh) @ [flags]"
    and atom: "atom \<noteq> 0"
  shows "sr_at F s (sr_bind (if prop_size sh1 \<noteq> prop_size sh
                then sr_bind sr_malloc (\<lambda>_. sr_update (put_object p (ob\<lparr>ob_prop := realloc_props (ob_prop ob) (prop_size sh1)\<rparr>)))
                else sr_return ()) (\<lambda>_.
       sr_bind (js_dup_shape b) (\<lambda>_.
       sr_bind (sr_object p) (\<lambda>ob1.
       sr_bind (sr_update (put_object p (ob1\<lparr>ob_shape := b\<rparr>))) (\<lambda>_.
       sr_bind (js_free_shape (ob_shape ob)) (\<lambda>_.
       sr_return (length (sh_prop sh1) - 1))))))) (\<lambda>i s'. added N V p atom flags i s') (heap_is (\<lambda>_. 0) N V)"
proof -
  let ?n = "length (sh_prop sh)"
  note inv0 = heap_isD [OF inv]
  have len: "length (sh_prop sh1) = ?n + 1" using arg_cong [OF atoms(1), of length] by simp
  have ok: "shape_wf sh" "prop_size sh \<le> length (ob_prop ob)" "shape_wf sh1"
    using sr_inv_shape [OF inv0(1) a] sr_inv_object [OF inv0(1) p] sr_inv_shape [OF inv0(1) b(2)] a by (auto simp: shape_ok_def object_ok_def)
  have rest: "sr_at F (put_object p \<lparr>ob_shape = ob_shape ob, ob_prop = vs\<rparr> s) (sr_bind (js_dup_shape b) (\<lambda>_. sr_bind (sr_object p) (\<lambda>ob1.
       sr_bind (sr_update (put_object p (ob1\<lparr>ob_shape := b\<rparr>))) (\<lambda>_. sr_bind (js_free_shape (ob_shape ob)) (\<lambda>_.
       sr_return (length (sh_prop sh1) - 1)))))) (\<lambda>i s'. added N V p atom flags i s') (heap_is (\<lambda>_. 0) N V)"
    if vs: "vs = (if prop_size sh1 \<noteq> prop_size sh then realloc_props (ob_prop ob) (prop_size sh1) else ob_prop ob)" for vs
  proof -
    let ?s1 = "put_shape b (sh1\<lparr>sh_ref_count := sh_ref_count sh1 + 1\<rparr>) s" and ?sh1 = "sh1\<lparr>sh_ref_count := sh_ref_count sh1 + 1\<rparr>"
    have "sr_at True s (js_dup_shape b) (\<lambda>c s'. c = b \<and> s' = ?s1 \<and> heap_is ((\<lambda>_. 0)(b := (\<lambda>_. 0) b + 1)) N V s') (\<lambda>_. False)"
      by (rule dup_shape_spec [OF inv b(2,3)])
    then have inv1: "heap_is ((\<lambda>_. 0)(b := 1)) N V ?s1" by (simp add: js_dup_shape_def b(2) sr_at_return_iff)
    have p1: "rt_objects ?s1 p = Some ob" "rt_shapes ?s1 (ob_shape ob) = Some sh" "rt_shapes ?s1 b = Some ?sh1"
      using p a b(1) by simp_all
    have sz: "prop_size ?sh1 \<le> length vs" using vs ok(2) by auto
    note t = take_free [OF inv1 p1(1,2,3) b(1) sz, of F "heap_is (\<lambda>_. 0) N V"]
    have "prop_entries (sh_prop sh1) vs = prop_entries (sh_prop sh) vs @ [(atom, flags, vs ! ?n)]"
    proof -
      let ?prs = "sh_prop sh @ [\<lparr>hash_next = 0, pr_flags = flags, pr_atom = atom\<rparr>]"
      have "prop_entries (sh_prop sh1) vs = prop_entries ?prs vs" by (rule prop_entries_cong) (simp_all add: atoms)
      also have "\<dots> = prop_entries (sh_prop sh) vs @ [(atom, flags, vs ! ?n)]"
        using sz ok(3) len atom by (subst prop_entries_snoc) (auto simp: shape_wf_def)
      finally show ?thesis .
    qed
    also have "prop_entries (sh_prop sh) vs = prop_entries (sh_prop sh) (ob_prop ob)"
      unfolding vs using ok len by (auto intro!: prop_entries_realloc simp: shape_wf_def)
    finally have pe: "prop_entries (sh_prop sh1) vs = prop_entries (sh_prop sh) (ob_prop ob) @ [(atom, flags, vs ! ?n)]" .
    have vp: "V p = Some (sh_proto sh, prop_entries (sh_prop sh) (ob_prop ob))" using p a inv0(2) by (auto simp: view_def)
    have "sr_at F (put_object p \<lparr>ob_shape = b, ob_prop = vs\<rparr> ?s1) (sr_bind (js_free_shape (ob_shape ob)) (\<lambda>_. sr_return (length (sh_prop sh1) - 1)))
      (\<lambda>i s'. added N V p atom flags i s') (heap_is (\<lambda>_. 0) N V)"
    proof (rule sr_at_bind [OF t])
      fix x s' assume *: "heap_is (\<lambda>_. 0) N (V(p \<mapsto> (sh_proto ?sh1, prop_entries (sh_prop ?sh1) vs))) s' \<and>
        rt_objects s' p = Some \<lparr>ob_shape = b, ob_prop = vs\<rparr> \<and> map_option sh_core (rt_shapes s' b) = Some (sh_core ?sh1)"
      then obtain sh2 where sh2: "rt_shapes s' b = Some sh2" "sh_core sh2 = sh_core ?sh1" by auto
      have "sh_prop sh2 = sh_prop sh1" using sh_core_fields [OF sh2(2)] by simp
      moreover have "pr_atom (sh_prop sh1 ! ?n) = atom" using arg_cong [OF atoms(1), of "\<lambda>l. l ! ?n"] len by (simp add: nth_append)
      ultimately have "added N V p atom flags (length (sh_prop sh1) - 1) s'"
        unfolding added_def using * sh2(1) vp pe proto len by auto
      then show "sr_at F s' (sr_return (length (sh_prop sh1) - 1)) (\<lambda>i s'. added N V p atom flags i s') (heap_is (\<lambda>_. 0) N V)"
        by (rule sr_at_return)
    qed
    moreover have "put_object p \<lparr>ob_shape = b, ob_prop = vs\<rparr> (put_shape b ?sh1 (put_object p \<lparr>ob_shape = ob_shape ob, ob_prop = vs\<rparr> s))
        = put_object p \<lparr>ob_shape = b, ob_prop = vs\<rparr> ?s1" by (simp add: put_object_def put_shape_def)
    ultimately show ?thesis by (simp add: js_dup_shape_def b(2))
  qed
  show ?thesis
  proof (cases "prop_size sh1 = prop_size sh")
    case True
    have "ob = \<lparr>ob_shape = ob_shape ob, ob_prop = ob_prop ob\<rparr>" by simp
    then have "put_object p \<lparr>ob_shape = ob_shape ob, ob_prop = ob_prop ob\<rparr> s = s" using p by (simp add: put_object_def fun_upd_idem)
    then show ?thesis using rest [of "ob_prop ob"] True by simp
  next
    case False
    have e: "ob\<lparr>ob_prop := vs\<rparr> = \<lparr>ob_shape = ob_shape ob, ob_prop = vs\<rparr>" for vs by simp
    show ?thesis using rest [of "realloc_props (ob_prop ob) (prop_size sh1)"] False inv by (simp add: sr_bind_malloc e)
  qed
qed


lemma own_shape_spec:
  assumes inv: "heap_is (\<lambda>_. 0) N V s" and V: "V p = Some (proto, es)" and p: "rt_objects s p = Some ob" and a: "rt_shapes s (ob_shape ob) = Some sh"
  shows "sr_at F s (if is_hashed sh \<and> sh_ref_count sh \<noteq> 1
                then
                  sr_bind (js_clone_shape (ob_shape ob)) (\<lambda>a.
                  sr_bind (sr_shape a) (\<lambda>sh1.
                  sr_bind (sr_update (put_shape a (sh1\<lparr>is_hashed := True\<rparr>))) (\<lambda>_.
                  sr_bind (js_shape_hash_link a) (\<lambda>_.
                  sr_bind (js_free_shape (ob_shape ob)) (\<lambda>_.
                  sr_update (put_object p (ob\<lparr>ob_shape := a\<rparr>)))))))
                else sr_return ())
    (\<lambda>_ s'. \<exists>ob' sh'. sole N {} V p ob' sh' s' \<and> sh_prop sh' = sh_prop sh) (heap_is (\<lambda>_. 0) N V)"
proof (cases "is_hashed sh \<and> sh_ref_count sh \<noteq> 1")
  case False
  obtain ob1 sh1 where "rt_objects s p = Some ob1" "rt_shapes s (ob_shape ob1) = Some sh1" "is_hashed sh1 \<or> sh_ref_count sh1 = 1"
    "sh_ref_count sh1 = 1 \<Longrightarrow> sole N {} V p ob1 sh1 s" by (rule heap_object [OF inv V]) (rule that)
  then have "sole N {} V p ob sh s" using False p a by auto
  then show ?thesis using False by (auto intro!: sr_at_return)
next
  case True
  let ?b = "sr_brk s" and ?sh = "sh\<lparr>sh_ref_count := 1, is_hashed := True\<rparr>"
  let ?s1 = "put_shape ?b ?sh (s\<lparr>sr_brk := ?b + 1\<rparr>)"
  have "shape_ok (\<lambda>_. 0) N s (ob_shape ob) sh" by (rule sr_inv_shape [OF heap_isD(1) [OF inv] a])
  then have ref: "2 \<le> sh_ref_count sh" using True unfolding shape_ok_def by auto
  note c = clone_shape_spec [OF inv a, of True ?sh]
  have ba: "?b \<noteq> ob_shape ob" using c(3) by simp
  have c1: "sr_inv ((\<lambda>_. 0)(?b := 1)) N {?b} ?s1" "view ?s1 = V" using c(1,2) by simp_all
  have b1: "rt_shapes ?s1 ?b = Some ?sh" "is_hashed ?sh" by simp_all
  note l = link_inv [OF c1 b1, of F "heap_is (\<lambda>_. 0) N V"]
  have "sr_at F ?s1 (sr_bind (js_shape_hash_link ?b) (\<lambda>_. sr_bind (js_free_shape (ob_shape ob)) (\<lambda>_. sr_update (put_object p (ob\<lparr>ob_shape := ?b\<rparr>)))))
    (\<lambda>_ s'. \<exists>ob' sh'. sole N {} V p ob' sh' s' \<and> sh_prop sh' = sh_prop sh) (heap_is (\<lambda>_. 0) N V)"
  proof (rule sr_at_bind [OF l])
    fix x s2 assume *: "heap_is ((\<lambda>_. 0)(?b := 1)) N V s2 \<and> sr_same ?s1 s2"
    obtain sh2 where sh2: "rt_shapes s2 ?b = Some sh2" "sh_core sh2 = sh_core ?sh" by (rule sr_same_shape [OF conjunct2 [OF *] b1(1)])
    have "rt_shapes ?s1 (ob_shape ob) = Some sh" using a ba by simp
    then obtain sh3 where sh3: "rt_shapes s2 (ob_shape ob) = Some sh3" "sh_core sh3 = sh_core sh" by (rule sr_same_shape [OF conjunct2 [OF *]])
    have p2: "rt_objects s2 p = Some ob" using * p by (simp add: sr_same_def)
    note f2 = sh_core_fields [OF sh2(2)] and f3 = sh_core_fields [OF sh3(2)]
    have "sr_at F s2 (sr_bind (js_free_shape (ob_shape ob)) (\<lambda>_. sr_update (put_object p (ob\<lparr>ob_shape := ?b\<rparr>))))
      (\<lambda>_ s'. sole N {} V p (ob\<lparr>ob_shape := ?b\<rparr>) sh2 s') (heap_is (\<lambda>_. 0) N V)"
      by (rule take_clone [OF conjunct1 [OF *] p2 sh3(1) _ _ sh2(1) ba]) (use f2 f3 ref True in auto)
    then show "sr_at F s2 (sr_bind (js_free_shape (ob_shape ob)) (\<lambda>_. sr_update (put_object p (ob\<lparr>ob_shape := ?b\<rparr>))))
      (\<lambda>_ s'. \<exists>ob' sh'. sole N {} V p ob' sh' s' \<and> sh_prop sh' = sh_prop sh) (heap_is (\<lambda>_. 0) N V)"
      by (rule sr_at_conseq) (use f2 in auto)
  qed
  then show ?thesis using True a inv by (simp add: js_clone_shape_def sr_bind_malloc)
qed

lemma add_property_spec:
  assumes inv: "heap_is (\<lambda>_. 0) N V s" and V: "V p = Some (proto, es)" and N: "N + 1 < 2 ^ 26"
    and atom: "atom \<noteq> 0" "atom \<notin> fst ` set es" and flags: "flags < 64"
  shows "sr_at F s (add_property p atom flags) (\<lambda>i. added (N + 1) V p atom flags i) (heap_is (\<lambda>_. 0) N V)"
proof -
  obtain ob sh where o: "rt_objects s p = Some ob" "rt_shapes s (ob_shape ob) = Some sh" "map fst es = live_atoms (sh_prop sh)"
    by (rule heap_object [OF inv V]) (rule that)
  have new: "atom \<notin> set (live_atoms (sh_prop sh))" using atom(2) o(3) by (metis list.set_map)
  let ?n = "length (sh_prop sh)" and ?h = "shape_hash (shape_hash (sh_hash sh) atom) (of_nat flags)"
  let ?ok = "\<lambda>sh1. sh_hash sh1 = ?h \<and> sh_proto sh1 = sh_proto sh \<and> length (sh_prop sh1) = ?n + 1 \<and>
           list_all2 (\<lambda>pr1 pr. same_prop pr1 (pr_atom pr) (pr_flags pr)) (take ?n (sh_prop sh1)) (sh_prop sh) \<and>
           same_prop (sh_prop sh1 ! ?n) atom flags"
  obtain r where r: "\<And>mem. find_hashed ?ok ?h (s, mem) = (Inr r, s, mem)"
      "r = 0 \<or> (r \<noteq> 0 \<and> (\<exists>sh. rt_shapes s r = Some sh \<and> is_hashed sh \<and> ?ok sh))"
    by (rule find_hashed_spec [OF heap_isD(3) [OF inv], where ok = ?ok and h = ?h]) (rule that)
  define r' where "r' = (if is_hashed sh then r else 0)"
  have find: "(if is_hashed sh then find_hashed_shape_prop sh atom flags else sr_return 0) (s, mem) = (Inr r', s, mem)" for mem
    using r(1) by (simp add: r'_def find_hashed_shape_prop_def Let_def sr_return_def)
  have mono: "added (N + 1) V p atom flags i s'" if "added N V p atom flags i s'" for i s'
  proof -
    have "heap_is (\<lambda>_. 0) N W s' \<Longrightarrow> heap_is (\<lambda>_. 0) (N + 1) W s'" for W unfolding heap_is_def using sr_inv_mono le_add1 by blast
    then show ?thesis using that unfolding added_def by blast
  qed
  show ?thesis
    unfolding add_property_def sr_step o(1,2) option.case sr_bind_at [OF find]
  proof (cases "r' = 0")
    case False
    then obtain sh1 where sh1: "rt_shapes s r' = Some sh1" "is_hashed sh1" "?ok sh1" using r(2) by (auto simp: r'_def split: if_splits)
    have len: "length (sh_prop sh1) = ?n + 1" using sh1(3) by simp
    have split: "sh_prop sh1 = take ?n (sh_prop sh1) @ [sh_prop sh1 ! ?n]" using len by (metis Suc_eq_plus1 lessI take_Suc_conv_app_nth take_all order_refl)
    have all: "\<forall>i<?n. same_prop (take ?n (sh_prop sh1) ! i) (pr_atom (sh_prop sh ! i)) (pr_flags (sh_prop sh ! i))"
      using sh1(3) by (simp add: list_all2_conv_all_nth)
    have pre: "map pr_atom (take ?n (sh_prop sh1)) = map pr_atom (sh_prop sh)" "map pr_flags (take ?n (sh_prop sh1)) = map pr_flags (sh_prop sh)"
      using all len by (auto intro!: nth_equalityI simp: same_prop_def)
    have atoms: "map pr_atom (sh_prop sh1) = map pr_atom (sh_prop sh) @ [atom]" "map pr_flags (sh_prop sh1) = map pr_flags (sh_prop sh) @ [flags]"
      using arg_cong [OF split, of "map pr_atom"] arg_cong [OF split, of "map pr_flags"] pre sh1(3) by (simp_all add: same_prop_def)
    have "r' \<noteq> ob_shape ob" using sh1(1) o(2) len by auto
    note sp = share_shape_spec [OF inv o(1,2) this sh1(1,2) conjunct1 [OF conjunct2 [OF sh1(3)]] atoms atom(1), of F]
    from sr_at_conseq [OF sp mono] show "sr_at F s (if r' \<noteq> 0 then sr_bind (sr_shape r') (\<lambda>sh1.
       sr_bind (if prop_size sh1 \<noteq> prop_size sh
                then
                  sr_bind sr_malloc (\<lambda>_.
                  sr_update (put_object p (ob\<lparr>ob_prop := realloc_props (ob_prop ob) (prop_size sh1)\<rparr>)))
                else sr_return ()) (\<lambda>_.
       sr_bind (js_dup_shape r') (\<lambda>_.
       sr_bind (sr_object p) (\<lambda>ob1.
       sr_bind (sr_update (put_object p (ob1\<lparr>ob_shape := r'\<rparr>))) (\<lambda>_.
       sr_bind (js_free_shape (ob_shape ob)) (\<lambda>_.
       sr_return (length (sh_prop sh1) - 1)))))))
     else
       sr_bind (if is_hashed sh \<and> sh_ref_count sh \<noteq> 1
                then
                  sr_bind (js_clone_shape (ob_shape ob)) (\<lambda>a.
                  sr_bind (sr_shape a) (\<lambda>sh1.
                  sr_bind (sr_update (put_shape a (sh1\<lparr>is_hashed := True\<rparr>))) (\<lambda>_.
                  sr_bind (js_shape_hash_link a) (\<lambda>_.
                  sr_bind (js_free_shape (ob_shape ob)) (\<lambda>_.
                  sr_update (put_object p (ob\<lparr>ob_shape := a\<rparr>)))))))
                else sr_return ()) (\<lambda>_.
       sr_bind (sr_object p) (\<lambda>ob.
       sr_bind (sr_shape (ob_shape ob)) (\<lambda>sh.
       if sh_ref_count sh \<noteq> 1 then sr_throw OutOfBounds
       else
         sr_bind (add_shape_property p atom flags) (\<lambda>_.
         sr_bind (sr_object p) (\<lambda>ob.
         sr_bind (sr_shape (ob_shape ob)) (\<lambda>sh.
         sr_return (length (sh_prop sh) - 1)))))))) (\<lambda>i. added (N + 1) V p atom flags i) (heap_is (\<lambda>_. 0) N V)"
      using False sh1(1) by simp
  next
    case True
    have step: "sr_at F s' (sr_bind (sr_object p) (\<lambda>ob.
       sr_bind (sr_shape (ob_shape ob)) (\<lambda>sh.
       if sh_ref_count sh \<noteq> 1 then sr_throw OutOfBounds
       else
         sr_bind (add_shape_property p atom flags) (\<lambda>_.
         sr_bind (sr_object p) (\<lambda>ob.
         sr_bind (sr_shape (ob_shape ob)) (\<lambda>sh.
         sr_return (length (sh_prop sh) - 1))))))) (\<lambda>i. added (N + 1) V p atom flags i) (heap_is (\<lambda>_. 0) N V)"
      if "\<exists>ob' sh'. sole N {} V p ob' sh' s' \<and> sh_prop sh' = sh_prop sh" for s'
    proof -
      from that obtain ob' sh' where s': "sole N {} V p ob' sh' s'" "sh_prop sh' = sh_prop sh" by blast
      have new': "atom \<notin> set (live_atoms (sh_prop sh'))" using new s'(2) by simp
      have "sr_at F s' (sr_bind (add_shape_property p atom flags) (\<lambda>_. sr_bind (sr_object p) (\<lambda>ob. sr_bind (sr_shape (ob_shape ob)) (\<lambda>sh.
         sr_return (length (sh_prop sh) - 1))))) (\<lambda>i. added (N + 1) V p atom flags i) (heap_is (\<lambda>_. 0) N V)"
      proof (rule sr_at_bind [OF add_shape_property_spec [OF s'(1) N atom(1) new']])
        fix x s2 assume a2: "added (N + 1) V p atom (flags mod 64) (length (sh_prop sh')) s2"
        then obtain ob2 sh2 where "rt_objects s2 p = Some ob2" "rt_shapes s2 (ob_shape ob2) = Some sh2" "length (sh_prop sh') + 1 = length (sh_prop sh2)"
          unfolding added_def by blast
        moreover from this(3) have "length (sh_prop sh2) - 1 = length (sh_prop sh')" by simp
        ultimately show "sr_at F s2 (sr_bind (sr_object p) (\<lambda>ob. sr_bind (sr_shape (ob_shape ob)) (\<lambda>sh. sr_return (length (sh_prop sh) - 1))))
          (\<lambda>i. added (N + 1) V p atom flags i) (heap_is (\<lambda>_. 0) N V)" using a2 flags by (simp add: sr_at_return_iff)
      qed
      then show ?thesis using soleD(3,4,6) [OF s'(1)] by simp
    qed
    from sr_at_bind [OF own_shape_spec [OF inv V o(1,2)] step] True
    show "sr_at F s (if r' \<noteq> 0 then sr_bind (sr_shape r') (\<lambda>sh1.
       sr_bind (if prop_size sh1 \<noteq> prop_size sh
                then
                  sr_bind sr_malloc (\<lambda>_.
                  sr_update (put_object p (ob\<lparr>ob_prop := realloc_props (ob_prop ob) (prop_size sh1)\<rparr>)))
                else sr_return ()) (\<lambda>_.
       sr_bind (js_dup_shape r') (\<lambda>_.
       sr_bind (sr_object p) (\<lambda>ob1.
       sr_bind (sr_update (put_object p (ob1\<lparr>ob_shape := r'\<rparr>))) (\<lambda>_.
       sr_bind (js_free_shape (ob_shape ob)) (\<lambda>_.
       sr_return (length (sh_prop sh1) - 1)))))))
     else
       sr_bind (if is_hashed sh \<and> sh_ref_count sh \<noteq> 1
                then
                  sr_bind (js_clone_shape (ob_shape ob)) (\<lambda>a.
                  sr_bind (sr_shape a) (\<lambda>sh1.
                  sr_bind (sr_update (put_shape a (sh1\<lparr>is_hashed := True\<rparr>))) (\<lambda>_.
                  sr_bind (js_shape_hash_link a) (\<lambda>_.
                  sr_bind (js_free_shape (ob_shape ob)) (\<lambda>_.
                  sr_update (put_object p (ob\<lparr>ob_shape := a\<rparr>)))))))
                else sr_return ()) (\<lambda>_.
       sr_bind (sr_object p) (\<lambda>ob.
       sr_bind (sr_shape (ob_shape ob)) (\<lambda>sh.
       if sh_ref_count sh \<noteq> 1 then sr_throw OutOfBounds
       else
         sr_bind (add_shape_property p atom flags) (\<lambda>_.
         sr_bind (sr_object p) (\<lambda>ob.
         sr_bind (sr_shape (ob_shape ob)) (\<lambda>sh.
         sr_return (length (sh_prop sh) - 1)))))))) (\<lambda>i. added (N + 1) V p atom flags i) (heap_is (\<lambda>_. 0) N V)"
      by (simp only: not_True_eq_False if_False simp_thms)
  qed
qed

end
