(* ===== verification/ObjectDelete.thy ===== *)
theory ObjectDelete
  imports ObjectDefine
begin

text \<open>
  Reading, changing and deleting properties, and the compaction of a shape.
\<close>

section \<open>Entries\<close>

lemma entries_unique:
  assumes "distinct (map fst es)" "(a, x) \<in> set es"
  shows "map_of es a = Some x" "entry_put a x es = es"
proof -
  show "map_of es a = Some x" using assms by (simp add: map_of_eq_Some_iff)
  have "(if fst e = a then (a, x) else e) = e" if "e \<in> set es" for e
  proof (cases "fst e = a")
    case True
    then have "e = (a, x)" using assms that eq_key_imp_eq_value [OF assms(1)] by (metis prod.collapse)
    then show ?thesis by simp
  qed simp
  then show "entry_put a x es = es" unfolding entry_put_def by (intro map_idI) blast
qed

lemma entry_put_last: "a \<notin> fst ` set es \<Longrightarrow> entry_put a x (es @ [(a, y)]) = es @ [(a, x)]"
proof -
  assume new: "a \<notin> fst ` set es"
  have "(if fst e = a then (a, x) else e) = e" if "e \<in> set es" for e using new that by force
  then have "entry_put a x es = es" unfolding entry_put_def by (intro map_idI) blast
  then show ?thesis by (simp add: entry_put_def)
qed

section \<open>Finding a property\<close>

text \<open>The property \<open>atom\<close> of an object is at the index \<open>i\<close>.\<close>

definition prop_at :: "ShapeRuntime \<Rightarrow> nat \<Rightarrow> u32 \<Rightarrow> nat \<Rightarrow> bool" where
  "prop_at s p atom i \<longleftrightarrow> (\<exists>ob sh. rt_objects s p = Some ob \<and> rt_shapes s (ob_shape ob) = Some sh \<and> i < length (sh_prop sh) \<and>
     pr_atom (sh_prop sh ! i) = atom)"

lemma prop_at_obtain:
  assumes inv: "heap_is (\<lambda>_. 0) N V s" and V: "V p = Some (proto, es)" and i: "prop_at s p atom i" and atom: "atom \<noteq> 0"
  obtains ob sh where "rt_objects s p = Some ob" "rt_shapes s (ob_shape ob) = Some sh" "i < length (sh_prop sh)" "pr_atom (sh_prop sh ! i) = atom"
    "proto = sh_proto sh" "es = prop_entries (sh_prop sh) (ob_prop ob)" "shape_wf sh" "prop_size sh \<le> length (ob_prop ob)" "distinct (map fst es)"
    "map_of es atom = Some (pr_flags (sh_prop sh ! i), ob_prop ob ! i)"
    "\<And>x. entry_put atom (pr_flags (sh_prop sh ! i), ob_prop ob ! i) es = es"
proof -
  from i obtain ob sh where o: "rt_objects s p = Some ob" "rt_shapes s (ob_shape ob) = Some sh" "i < length (sh_prop sh)" "pr_atom (sh_prop sh ! i) = atom"
    unfolding prop_at_def by blast
  obtain ob' sh' where h: "rt_objects s p = Some ob'" "rt_shapes s (ob_shape ob') = Some sh'" "proto = sh_proto sh'"
    "es = prop_entries (sh_prop sh') (ob_prop ob')" "shape_wf sh'" "prop_size sh' \<le> length (ob_prop ob')" "map fst es = live_atoms (sh_prop sh')"
    by (rule heap_object [OF inv V]) (rule that)
  have eq: "ob' = ob" "sh' = sh" using o h by auto
  have d: "distinct (map fst es)" using h(5,7) by (simp add: shape_wf_def)
  have len: "length (sh_prop sh) \<le> length (ob_prop ob)" using h(5,6) eq by (simp add: shape_wf_def)
  have "(atom, pr_flags (sh_prop sh ! i), ob_prop ob ! i) \<in> set es"
    using prop_entries_nth [OF o(3) len] o(4) atom h(4) eq by simp
  note u = entries_unique [OF d this]
  show thesis by (rule that [OF o h(3,4) [unfolded eq] h(5,6) [unfolded eq] d u])
qed

lemma find_own_property_spec:
  assumes inv: "heap_is (\<lambda>_. 0) N V s" and V: "V p = Some (proto, es)" and atom: "atom \<noteq> 0"
  shows "\<exists>r. (\<forall>mem. find_own_property p atom (s, mem) = (Inr r, s, mem)) \<and>
    (case r of None \<Rightarrow> map_of es atom = None | Some i \<Rightarrow> prop_at s p atom i \<and> map_of es atom \<noteq> None)"
proof -
  obtain ob sh where h: "rt_objects s p = Some ob" "rt_shapes s (ob_shape ob) = Some sh" "shape_wf sh" "map fst es = live_atoms (sh_prop sh)"
    by (rule heap_object [OF inv V]) (rule that)
  have run: "find_own_property p atom (s, mem) = (shape_find sh atom, s, mem)" for mem
    using h by (simp add: find_own_property_def sr_bind_def sr_object_def sr_shape_def sr_lift_def)
  from shape_find_spec [OF h(3) atom] show ?thesis
  proof
    assume "\<exists>i<length (sh_prop sh). pr_atom (sh_prop sh ! i) = atom \<and> shape_find sh atom = Inr (Some i)"
    then obtain i where i: "i < length (sh_prop sh)" "pr_atom (sh_prop sh ! i) = atom" "shape_find sh atom = Inr (Some i)" by blast
    have at: "prop_at s p atom i" using i h by (auto simp: prop_at_def)
    then have "map_of es atom \<noteq> None" by (rule prop_at_obtain [OF inv V _ atom]) simp
    then show ?thesis using at i(3) run by (intro exI [of _ "Some i"]) simp
  next
    assume none: "(\<forall>i<length (sh_prop sh). pr_atom (sh_prop sh ! i) \<noteq> atom) \<and> shape_find sh atom = Inr None"
    then have "atom \<notin> set (live_atoms (sh_prop sh))" by (auto simp: live_atoms_def in_set_conv_nth)
    then have "map_of es atom = None" unfolding map_of_eq_None_iff using h(4) by (metis list.set_map)
    then show ?thesis using none run by (intro exI [of _ None]) simp
  qed
qed

section \<open>Values\<close>

lemma set_property_value_spec:
  assumes inv: "heap_is (\<lambda>_. 0) N V s" and V: "V p = Some (proto, es)" and i: "prop_at s p atom i" and atom: "atom \<noteq> 0"
    and f: "map_of es atom = Some (f, w)"
  shows "sr_at F s (set_property_value p i v) (\<lambda>_. heap_is (\<lambda>_. 0) N (V(p \<mapsto> (proto, entry_put atom (f, Some v) es)))) E"
proof -
  obtain ob sh where o: "rt_objects s p = Some ob" "rt_shapes s (ob_shape ob) = Some sh" "i < length (sh_prop sh)" "pr_atom (sh_prop sh ! i) = atom"
    "proto = sh_proto sh" "es = prop_entries (sh_prop sh) (ob_prop ob)" "shape_wf sh" "prop_size sh \<le> length (ob_prop ob)"
    "map_of es atom = Some (pr_flags (sh_prop sh ! i), ob_prop ob ! i)"
    by (rule prop_at_obtain [OF inv V i atom]) (rule that)
  have len: "length (sh_prop sh) \<le> length (ob_prop ob)" using o(7,8) by (simp add: shape_wf_def)
  let ?vs = "(ob_prop ob)[i := Some v]"
  have sz: "prop_size sh \<le> length ?vs" using o(8) by simp
  have fi: "pr_flags (sh_prop sh ! i) = f" using o(9) f by simp
  have upd: "map pr_atom (sh_prop sh) = (map pr_atom (sh_prop sh))[i := atom]" "map pr_flags (sh_prop sh) = (map pr_flags (sh_prop sh))[i := f]"
    unfolding o(4) [symmetric] fi [symmetric] by (simp_all add: map_update [symmetric])
  have "distinct (live_atoms (sh_prop sh))" using o(7) by (simp add: shape_wf_def)
  from prop_entries_change(2) [OF this o(3) len o(4) atom upd refl]
  have "prop_entries (sh_prop sh) ?vs = entry_put atom (f, Some v) es" using o(6) by simp
  then have "heap_is (\<lambda>_. 0) N (V(p \<mapsto> (proto, entry_put atom (f, Some v) es))) (put_object p (ob\<lparr>ob_prop := ?vs\<rparr>) s)"
    using put_values [OF heap_isD(1) [OF inv] o(1,2) sz] heap_isD(2) [OF inv] o(5) by (simp add: heap_is_def)
  then show ?thesis using o(1,3) len by (simp add: set_property_value_def sr_at_update)
qed

lemma define_property_spec:
  assumes inv: "heap_is (\<lambda>_. 0) N V s" and V: "V p = Some (proto, es)" and N: "N + 1 < 2 ^ 26"
    and atom: "atom \<noteq> 0" "map_of es atom = None" and flags: "flags < 64"
  shows "sr_at F s (define_property p atom flags v) (\<lambda>_. heap_is (\<lambda>_. 0) (N + 1) (V(p \<mapsto> (proto, es @ [(atom, flags, Some v)])))) (heap_is (\<lambda>_. 0) N V)"
proof -
  have new: "atom \<notin> fst ` set es" using atom(2) by (simp add: map_of_eq_None_iff)
  show ?thesis
    unfolding define_property_def
  proof (rule sr_at_bind [OF add_property_spec [OF inv V N atom(1) new flags]])
    fix i s' assume "added (N + 1) V p atom flags i s'"
    then obtain w where w: "heap_is (\<lambda>_. 0) (N + 1) (V(p \<mapsto> (proto, es @ [(atom, flags, w)]))) s'" "prop_at s' p atom i"
      using V unfolding added_def prop_at_def by fastforce
    have "map_of (es @ [(atom, flags, w)]) atom = Some (flags, w)" using atom(2) by (simp add: map_add_def)
    from set_property_value_spec [OF w(1) _ w(2) atom(1) this, of proto F v "heap_is (\<lambda>_. 0) N V"]
    show "sr_at F s' (set_property_value p i v) (\<lambda>_. heap_is (\<lambda>_. 0) (N + 1) (V(p \<mapsto> (proto, es @ [(atom, flags, Some v)])))) (heap_is (\<lambda>_. 0) N V)"
      using entry_put_last [OF new] by simp
  qed
qed

section \<open>Preparing a change of the shape\<close>

lemma prepare_update_spec:
  assumes inv: "heap_is (\<lambda>_. 0) N V s" and V: "V p = Some (proto, es)" and p: "rt_objects s p = Some ob" and a: "rt_shapes s (ob_shape ob) = Some sh"
  shows "sr_at F s (js_shape_prepare_update p)
    (\<lambda>_ s'. \<exists>ob' sh'. sole N {} V p ob' sh' s' \<and> ob_prop ob' = ob_prop ob \<and> sh_core sh' = sh_core (sh\<lparr>sh_ref_count := 1, is_hashed := False\<rparr>)) (heap_is (\<lambda>_. 0) N V)"
proof -
  obtain ob1 sh1 where "rt_objects s p = Some ob1" "rt_shapes s (ob_shape ob1) = Some sh1" "is_hashed sh1 \<or> sh_ref_count sh1 = 1" "0 < sh_ref_count sh1"
    "sh_ref_count sh1 = 1 \<Longrightarrow> sole N {} V p ob1 sh1 s" by (rule heap_object [OF inv V]) (rule that)
  then have sh: "is_hashed sh \<or> sh_ref_count sh = 1" "0 < sh_ref_count sh" "sh_ref_count sh = 1 \<Longrightarrow> sole N {} V p ob sh s" using p a by auto
  let ?Q = "\<lambda>s'. \<exists>ob' sh'. sole N {} V p ob' sh' s' \<and> ob_prop ob' = ob_prop ob \<and> sh_core sh' = sh_core (sh\<lparr>sh_ref_count := 1, is_hashed := False\<rparr>)"
  consider (none) "\<not> is_hashed sh" | (own) "is_hashed sh" "sh_ref_count sh = 1" | (shared) "is_hashed sh" "2 \<le> sh_ref_count sh" using sh(2) by fastforce
  then have "sr_at F s (js_shape_prepare_update p) (\<lambda>_ s'. ?Q s') (heap_is (\<lambda>_. 0) N V)"
  proof cases
    case none
    then have s: "sole N {} V p ob sh s" "sh_ref_count sh = 1" using sh by auto
    have "?Q s" using s none by (intro exI [of _ ob] exI [of _ sh]) (simp add: sh_core_def)
    then show ?thesis using none by (simp add: js_shape_prepare_update_def p a sr_at_return_iff)
  next
    case own
    have s: "sole N {} V p ob sh s" using sh own by auto
    have "sr_at F s (js_shape_hash_unlink (ob_shape ob)) (\<lambda>_ s'. \<exists>sh'. sole N {ob_shape ob} V p ob sh' s' \<and> sh_core sh' = sh_core sh) (heap_is (\<lambda>_. 0) N V)"
      using sole_unlink [OF s, of F] own by simp
    then have "sr_at F s (sr_bind (js_shape_hash_unlink (ob_shape ob)) (\<lambda>_. sr_bind (sr_shape (ob_shape ob)) (\<lambda>sh.
         sr_update (put_shape (ob_shape ob) (sh\<lparr>is_hashed := False\<rparr>))))) (\<lambda>_ s'. ?Q s') (heap_is (\<lambda>_. 0) N V)"
    proof (rule sr_at_bind)
      fix x s' assume "\<exists>sh'. sole N {ob_shape ob} V p ob sh' s' \<and> sh_core sh' = sh_core sh"
      then obtain sh' where s': "sole N {ob_shape ob} V p ob sh' s'" "sh_core sh' = sh_core sh" by blast
      let ?sh = "sh'\<lparr>is_hashed := False\<rparr>"
      have t: "table_ok {} (put_shape (ob_shape ob) ?sh s')"
        by (rule table_put_out [OF sr_inv_table [OF soleD(1) [OF s'(1)]] soleD(4) [OF s'(1)]]) simp_all
      have "shape_wf ?sh" using soleD(7) [OF s'(1)] by (simp add: shape_wf_def)
      from sole_put [OF s'(1) this _ _ _ order_refl t] soleD [OF s'(1)]
      have "sole N {} V p ob ?sh (put_shape (ob_shape ob) ?sh s')" by (simp add: fun_upd_idem)
      moreover have "sh_core ?sh = sh_core (sh\<lparr>sh_ref_count := 1, is_hashed := False\<rparr>)"
        using s'(2) own(2) by (cases sh; cases sh') (simp add: sh_core_def)
      ultimately have "?Q (put_shape (ob_shape ob) ?sh s')" by blast
      then show "sr_at F s' (sr_bind (sr_shape (ob_shape ob)) (\<lambda>sh. sr_update (put_shape (ob_shape ob) (sh\<lparr>is_hashed := False\<rparr>)))) (\<lambda>_ s'. ?Q s') (heap_is (\<lambda>_. 0) N V)"
        using soleD(4) [OF s'(1)] by (simp add: sr_at_update)
    qed
    then show ?thesis using own by (simp add: js_shape_prepare_update_def p a)
  next
    case shared
    let ?b = "sr_brk s" and ?sh = "sh\<lparr>sh_ref_count := 1, is_hashed := False\<rparr>"
    let ?s1 = "put_shape ?b ?sh (s\<lparr>sr_brk := ?b + 1\<rparr>)"
    note c = clone_shape_spec [OF inv a, of False ?sh]
    have ba: "?b \<noteq> ob_shape ob" using c(3) by simp
    have i1: "heap_is ((\<lambda>_. 0)(?b := 1)) N V ?s1" using c(1,2) by (simp add: heap_is_def)
    have p1: "rt_objects ?s1 p = Some ob" "rt_shapes ?s1 (ob_shape ob) = Some sh" "rt_shapes ?s1 ?b = Some ?sh" using p a ba by simp_all
    have "sr_at F ?s1 (sr_bind (js_free_shape (ob_shape ob)) (\<lambda>_. sr_update (put_object p (ob\<lparr>ob_shape := ?b\<rparr>))))
      (\<lambda>_ s'. sole N {} V p (ob\<lparr>ob_shape := ?b\<rparr>) ?sh s') (heap_is (\<lambda>_. 0) N V)"
      by (rule take_clone [OF i1 p1(1,2) shared(2,1) p1(3) ba]) simp_all
    then have "sr_at F ?s1 (sr_bind (js_free_shape (ob_shape ob)) (\<lambda>_. sr_update (put_object p (ob\<lparr>ob_shape := ?b\<rparr>)))) (\<lambda>_ s'. ?Q s') (heap_is (\<lambda>_. 0) N V)"
      by (rule sr_at_conseq) force+
    then show ?thesis using shared inv by (simp add: js_shape_prepare_update_def p a js_clone_shape_def sr_bind_malloc)
  qed
  then show ?thesis .
qed


section \<open>Flags\<close>

lemma shape_wf_flags:
  assumes wf: "shape_wf sh" and prs: "map pr_atom prs = map pr_atom (sh_prop sh)" "map hash_next prs = map hash_next (sh_prop sh)"
  shows "shape_wf (sh\<lparr>sh_prop := prs\<rparr>)"
proof -
  have len: "length prs = length (sh_prop sh)" using prs(1) by (metis length_map)
  have at: "pr_atom (prs ! i) = pr_atom (sh_prop sh ! i)" "hash_next (prs ! i) = hash_next (sh_prop sh ! i)" if "i < length (sh_prop sh)" for i
    using prs len that by (metis nth_map)+
  have "links_ok (prop_hash_mask sh) prs (hash_table sh) = links_ok (prop_hash_mask sh) (sh_prop sh) (hash_table sh)"
    unfolding links_ok_def using at len prs(1) by auto
  moreover have "live_atoms prs = live_atoms (sh_prop sh)" using prs(1) by (simp add: live_atoms_def)
  ultimately show ?thesis using wf len unfolding shape_wf_def by simp
qed

lemma update_flags_spec:
  assumes inv: "heap_is (\<lambda>_. 0) N V s" and V: "V p = Some (proto, es)" and i: "prop_at s p atom i" and atom: "atom \<noteq> 0"
    and f: "map_of es atom = Some (f, w)" and flags: "flags < 64"
  shows "sr_at F s (js_update_property_flags p i flags) (\<lambda>_. heap_is (\<lambda>_. 0) N (V(p \<mapsto> (proto, entry_put atom (flags, w) es)))) (heap_is (\<lambda>_. 0) N V)"
proof -
  obtain ob sh where o: "rt_objects s p = Some ob" "rt_shapes s (ob_shape ob) = Some sh" "i < length (sh_prop sh)" "pr_atom (sh_prop sh ! i) = atom"
    "proto = sh_proto sh" "es = prop_entries (sh_prop sh) (ob_prop ob)" "shape_wf sh" "prop_size sh \<le> length (ob_prop ob)"
    "map_of es atom = Some (pr_flags (sh_prop sh ! i), ob_prop ob ! i)" "entry_put atom (pr_flags (sh_prop sh ! i), ob_prop ob ! i) es = es"
    by (rule prop_at_obtain [OF inv V i atom]) (rule that)
  have fw: "f = pr_flags (sh_prop sh ! i)" "w = ob_prop ob ! i" using f o(9) by simp_all
  show ?thesis
  proof (cases "flags = pr_flags (sh_prop sh ! i)")
    case True
    then have "V(p \<mapsto> (proto, entry_put atom (flags, w) es)) = V" using o(10) fw V by (simp add: fun_upd_idem)
    then show ?thesis using True o(1-3) inv by (simp add: js_update_property_flags_def sr_at_return_iff)
  next
    case False
    have "sr_at F s (sr_bind (js_shape_prepare_update p) (\<lambda>_. sr_bind (sr_object p) (\<lambda>ob. sr_bind (sr_shape (ob_shape ob)) (\<lambda>sh.
       sr_update (put_shape (ob_shape ob) (sh\<lparr>sh_prop := (sh_prop sh)[i := (sh_prop sh ! i)\<lparr>pr_flags := flags mod 2 ^ 6\<rparr>]\<rparr>))))))
      (\<lambda>_. heap_is (\<lambda>_. 0) N (V(p \<mapsto> (proto, entry_put atom (flags, w) es)))) (heap_is (\<lambda>_. 0) N V)"
    proof (rule sr_at_bind [OF prepare_update_spec [OF inv V o(1,2)]])
      fix x s' assume "\<exists>ob' sh'. sole N {} V p ob' sh' s' \<and> ob_prop ob' = ob_prop ob \<and> sh_core sh' = sh_core (sh\<lparr>sh_ref_count := 1, is_hashed := False\<rparr>)"
      then obtain ob' sh' where s': "sole N {} V p ob' sh' s'" "ob_prop ob' = ob_prop ob"
        "sh_core sh' = sh_core (sh\<lparr>sh_ref_count := 1, is_hashed := False\<rparr>)" by blast
      have c: "sh_prop sh' = sh_prop sh" "sh_proto sh' = sh_proto sh" using sh_core_fields [OF s'(3)] by simp_all
      let ?prs = "(sh_prop sh')[i := (sh_prop sh' ! i)\<lparr>pr_flags := flags mod 2 ^ 6\<rparr>]"
      let ?sh = "sh'\<lparr>sh_prop := ?prs\<rparr>"
      have m: "map pr_atom ?prs = map pr_atom (sh_prop sh')" "map hash_next ?prs = map hash_next (sh_prop sh')"
        "map pr_flags ?prs = (map pr_flags (sh_prop sh'))[i := flags]"
        using o(3) flags by (auto simp: c map_update list_update_same_conv)
      have up: "map pr_atom ?prs = (map pr_atom (sh_prop sh'))[i := atom]" using o(3,4) by (auto simp: c map_update list_update_same_conv)
      have wf: "shape_wf ?sh" by (rule shape_wf_flags [OF soleD(7) [OF s'(1)] m(1,2)])
      have t: "table_ok {} (put_shape (ob_shape ob') ?sh s')"
        by (rule table_put_same [OF sr_inv_table [OF soleD(1) [OF s'(1)]] soleD(4) [OF s'(1)]]) simp_all
      have len: "length (sh_prop sh') \<le> length (ob_prop ob)" using o(7,8) c by (simp add: shape_wf_def)
      have d: "distinct (live_atoms (sh_prop sh'))" using soleD(7) [OF s'(1)] by (simp add: shape_wf_def)
      have i': "i < length (sh_prop sh')" "pr_atom (sh_prop sh' ! i) = atom" using o(3,4) c by simp_all
      from prop_entries_change(2) [OF d i'(1) len i'(2) atom up m(3) refl, of w]
      have pe: "prop_entries ?prs (ob_prop ob) = entry_put atom (flags, w) es" using fw(2) o(6) c by simp
      from sole_put [OF s'(1) wf _ _ _ order_refl t] soleD [OF s'(1)]
      have "sole N {} (V(p \<mapsto> (proto, entry_put atom (flags, w) es))) p ob' ?sh (put_shape (ob_shape ob') ?sh s')"
        using pe c o(5) s'(2) by simp
      then show "sr_at F s' (sr_bind (sr_object p) (\<lambda>ob. sr_bind (sr_shape (ob_shape ob)) (\<lambda>sh.
         sr_update (put_shape (ob_shape ob) (sh\<lparr>sh_prop := (sh_prop sh)[i := (sh_prop sh ! i)\<lparr>pr_flags := flags mod 2 ^ 6\<rparr>]\<rparr>)))))
        (\<lambda>_. heap_is (\<lambda>_. 0) N (V(p \<mapsto> (proto, entry_put atom (flags, w) es)))) (heap_is (\<lambda>_. 0) N V)"
        using soleD(3,4) [OF s'(1)] sole_heap by (simp add: sr_at_update)
    qed
    then show ?thesis using False o(1-3) by (simp add: js_update_property_flags_def)
  qed
qed

section \<open>Compaction\<close>

lemma sole_compact:
  assumes s: "sole N {} V p ob sh s" and h: "\<not> is_hashed sh" and d: "8 \<le> deleted_prop_count sh"
  shows "sr_at F s (compact_properties p) (\<lambda>_. heap_is (\<lambda>_. 0) N V) (heap_is (\<lambda>_. 0) N V)"
proof -
  let ?n = "length (sh_prop sh)" and ?h = "unat (prop_hash_mask sh) + 1"
  let ?size = "max JS_PROP_INITIAL_SIZE (?n - deleted_prop_count sh)"
  note wf = soleD(7) [OF s, unfolded shape_wf_def]
  have live: "?n - deleted_prop_count sh = length (live_atoms (sh_prop sh))" using wf by linarith
  have size: "?size \<le> prop_size sh" using wf d unfolding JS_PROP_INITIAL_SIZE_def by linarith
  have "?h \<le> 2 ^ 32" by (rule unat_u32_less)
  also have "\<dots> < 2 * 2 ^ (32 + 1)" by simp
  also have "\<dots> \<le> ?size * 2 ^ (32 + 1)" by (simp add: JS_PROP_INITIAL_SIZE_def)
  finally have sh1: "?h < ?size * 2 ^ (32 + 1)" .
  have sh2: "0 < ?size" "0 < ?h" by (simp_all add: JS_PROP_INITIAL_SIZE_def less_max_iff_disj)
  from shrink_hash_size_spec [OF sh1 sh2] obtain r where r: "shrink_hash_size ?h ?size 32 = Inr r" "0 < r" "r \<le> ?h" by blast
  have "r \<le> 2 ^ 32" using r(3) unat_u32_less [of "prop_hash_mask sh"] by linarith
  then have hm: "unat (of_nat (r - 1) :: u32) + 1 = r" by (rule unat_hmask [OF r(2)])
  obtain prs tab vs where c: "compact_loop (of_nat (r - 1)) (sh_prop sh) 0 0 (replicate r 0) (ob_prop ob) = (prs, tab, vs)" by (metis prod_cases3)
  have vlen: "?n \<le> length (ob_prop ob)" using soleD(9) [OF s] wf by linarith
  have len26: "?n < 2 ^ 26" using wf by simp
  note e = compact_entries [OF c len26 refl hm [symmetric] vlen]
  let ?sh = "sh\<lparr>sh_ref_count := 1, prop_hash_mask := of_nat (r - 1), hash_table := tab, sh_prop := prs, prop_size := ?size, deleted_prop_count := 0\<rparr>"
  let ?f = "filter (\<lambda>pr. pr_atom pr \<noteq> 0) (sh_prop sh)"
  have wf': "shape_wf ?sh"
    by (rule shape_wf_rehash [OF soleD(7) [OF s] compact_rehash [OF c] hm, where d = 0])
      (use wf in \<open>simp_all add: live_atoms_filter live\<close>)
  have N: "length (sh_prop ?sh) \<le> N" using e(2) live soleD(8) [OF s] by simp
  have vl: "prop_size ?sh \<le> length vs" using size e(3) soleD(9) [OF s] by simp
  have pe: "prop_entries (sh_prop ?sh) vs = prop_entries (sh_prop sh) (ob_prop ob)" using e(1) by simp
  let ?s1 = "put_object p \<lparr>ob_shape = sr_brk s, ob_prop = vs\<rparr> (free_shape_mem (ob_shape ob) (put_shape (sr_brk s) ?sh (s\<lparr>sr_brk := sr_brk s + 1\<rparr>)))"
  have X: "{} = (if is_hashed sh then {ob_shape ob} else {})" using h by simp
  have s1: "sole N {} V p \<lparr>ob_shape = sr_brk s, ob_prop = vs\<rparr> ?sh ?s1"
    using sole_replace [OF s X _ wf' N _ vl _ pe refl] h by simp
  have "prop_size ?sh \<le> length (realloc_props vs ?size)" by simp
  note s2 = sole_values [OF s1 this]
  have "prop_entries prs (realloc_props vs ?size) = prop_entries prs vs"
    by (rule prop_entries_realloc) (use e(2,3) live vlen in linarith)+
  then have "V(p \<mapsto> (sh_proto ?sh, prop_entries (sh_prop ?sh) (realloc_props vs ?size))) = V"
    using soleD(10) [OF s1] by (simp add: fun_upd_idem)
  with sole_heap [OF s2 [unfolded this]]
  have h2: "heap_is (\<lambda>_. 0) N V (put_object p \<lparr>ob_shape = sr_brk s, ob_prop = realloc_props vs ?size\<rparr> ?s1)" by simp
  have ob: "ob\<lparr>ob_shape := b, ob_prop := v\<rparr> = \<lparr>ob_shape = b, ob_prop = v\<rparr>" for b v by simp
  have last: "sr_at F ?s1 (sr_catch (sr_bind sr_malloc (\<lambda>_. sr_update (put_object p (ob\<lparr>ob_shape := sr_brk s, ob_prop := realloc_props vs ?size\<rparr>)))) sr_ignore)
    (\<lambda>_. heap_is (\<lambda>_. 0) N V) (heap_is (\<lambda>_. 0) N V)"
  proof (rule sr_at_catch)
    show "sr_at F ?s1 (sr_bind sr_malloc (\<lambda>_. sr_update (put_object p (ob\<lparr>ob_shape := sr_brk s, ob_prop := realloc_props vs ?size\<rparr>))))
        (\<lambda>_. heap_is (\<lambda>_. 0) N V) (heap_is (\<lambda>_. 0) N V)"
      using sole_heap [OF s1] h2 unfolding ob by (intro sr_bind_malloc sr_at_update)
  qed (simp add: sr_ignore_def sr_at_return_iff)
  have "length prs = ?n - deleted_prop_count sh" using e(2) live by simp
  moreover have "\<not> (is_hashed sh \<or> \<not> ?size \<le> prop_size sh)" using h size by simp
  ultimately show ?thesis
    unfolding compact_properties_def sr_step soleD(3,4) [OF s] option.case Let_def if_not_P [OF \<open>\<not> (is_hashed sh \<or> \<not> ?size \<le> prop_size sh)\<close>]
      sr_bind_lift [of "\<lambda>_. shrink_hash_size ?h ?size 32", OF r(1)]
    using h size last sole_heap [OF s] c by (simp add: sr_bind_malloc ob)
qed


section \<open>Deleting a property\<close>

text \<open>What a deletion returns and leaves.\<close>

definition entries_delete :: "u32 \<Rightarrow> entries \<Rightarrow> bool \<times> entries" where
  "entries_delete atom es = (case map_of es atom of
     None \<Rightarrow> (True, es)
   | Some (f, _) \<Rightarrow> if f AND JS_PROP_CONFIGURABLE = 0 then (False, es) else (True, entry_remove atom es))"

lemma delete_find_spec:
  assumes wf: "shape_wf sh" and atom: "atom \<noteq> 0"
  shows "unat (atom AND prop_hash_mask sh) < length (hash_table sh)"
    "(\<exists>i l n. i < length (sh_prop sh) \<and> pr_atom (sh_prop sh ! i) = atom \<and> link_source (prop_hash_mask sh) (sh_prop sh) atom l n \<and>
        bucket_prev (prop_hash_mask sh) (map pr_atom (sh_prop sh)) (unat (atom AND prop_hash_mask sh)) n = Suc i \<and>
        delete_find_loop (sh_prop sh) atom None (hash_table sh ! unat (atom AND prop_hash_mask sh)) (length (sh_prop sh)) = Inr (Some (l, i))) \<or>
     ((\<forall>i<length (sh_prop sh). pr_atom (sh_prop sh ! i) \<noteq> atom) \<and>
        delete_find_loop (sh_prop sh) atom None (hash_table sh ! unat (atom AND prop_hash_mask sh)) (length (sh_prop sh)) = Inr None)"
proof -
  let ?h = "unat (atom AND prop_hash_mask sh)"
  show h: "?h < length (hash_table sh)" using wf bucket_less unfolding shape_wf_def by simp
  have links: "links_ok (prop_hash_mask sh) (sh_prop sh) (hash_table sh)" using wf unfolding shape_wf_def by blast
  have src: "link_source (prop_hash_mask sh) (sh_prop sh) atom None (length (sh_prop sh))" by (simp add: link_source_def)
  have t: "hash_table sh ! ?h = bucket_prev (prop_hash_mask sh) (map pr_atom (sh_prop sh)) ?h (length (sh_prop sh))"
    using links h unfolding links_ok_def by blast
  show "(\<exists>i l n. i < length (sh_prop sh) \<and> pr_atom (sh_prop sh ! i) = atom \<and> link_source (prop_hash_mask sh) (sh_prop sh) atom l n \<and>
        bucket_prev (prop_hash_mask sh) (map pr_atom (sh_prop sh)) ?h n = Suc i \<and>
        delete_find_loop (sh_prop sh) atom None (hash_table sh ! ?h) (length (sh_prop sh)) = Inr (Some (l, i))) \<or>
     ((\<forall>i<length (sh_prop sh). pr_atom (sh_prop sh ! i) \<noteq> atom) \<and>
        delete_find_loop (sh_prop sh) atom None (hash_table sh ! ?h) (length (sh_prop sh)) = Inr None)"
    using delete_find_loop_spec [OF links atom order_refl src] unfolding t by blast
qed

text \<open>The deletion proper, when the shape is the object's own.\<close>

lemma sole_remove:
  assumes s: "sole N {} V p ob sh s" and h: "\<not> is_hashed sh" and i: "i < length (sh_prop sh)" "pr_atom (sh_prop sh ! i) = atom" "atom \<noteq> 0"
    and src: "link_source (prop_hash_mask sh) (sh_prop sh) atom lpr n"
      "bucket_prev (prop_hash_mask sh) (map pr_atom (sh_prop sh)) (unat (atom AND prop_hash_mask sh)) n = Suc i"
    and V: "V p = Some (proto, es)"
  shows "sr_at F s (let sh = remove_prop atom lpr i sh
       in sr_bind (sr_update (put_shape (ob_shape ob) sh)) (\<lambda>_.
          sr_bind (set_property_value p i v) (\<lambda>_.
          sr_bind (if deleted_prop_count sh \<ge> 8 \<and> deleted_prop_count sh \<ge> length (sh_prop sh) div 2
                   then sr_catch (compact_properties p) sr_ignore
                   else sr_return ()) (\<lambda>_.
          sr_return True))))
    (\<lambda>b s'. b \<and> heap_is (\<lambda>_. 0) N (V(p \<mapsto> (proto, entry_remove atom es))) s') (heap_is (\<lambda>_. 0) N V)"
proof -
  let ?sh = "remove_prop atom lpr i sh" and ?vs = "(ob_prop ob)[i := Some v]"
  let ?V = "V(p \<mapsto> (proto, entry_remove atom es))"
  let ?s1 = "put_shape (ob_shape ob) ?sh s" and ?ob = "ob\<lparr>ob_prop := ?vs\<rparr>"
  have "l < length (sh_prop sh) \<and> l \<noteq> i" if "lpr = Some l" for l using link_source_neq src unfolding that by blast
  note f = remove_prop_fields [OF i(1) this, of lpr]
  have wf: "shape_wf ?sh" by (rule shape_wf_remove [OF soleD(7) [OF s] i src])
  have V': "proto = sh_proto sh" "es = prop_entries (sh_prop sh) (ob_prop ob)" using V soleD(10) [OF s] by simp_all
  have len: "length (sh_prop sh) \<le> length (ob_prop ob)" using soleD(7,9) [OF s] by (simp add: shape_wf_def)
  have d: "distinct (live_atoms (sh_prop sh))" using soleD(7) [OF s] by (simp add: shape_wf_def)
  have pe: "prop_entries (sh_prop ?sh) ((ob_prop ob)[i := w]) = entry_remove atom es" for w
    unfolding V'(2) by (rule prop_entries_change(1) [OF d i(1) len i(2,3) f(1,2) refl])
  have t: "table_ok {} ?s1" by (rule table_put_same [OF sr_inv_table [OF soleD(1) [OF s]] soleD(4) [OF s]]) (simp_all add: f)
  have N: "length (sh_prop ?sh) \<le> N" "sh_ref_count ?sh = 1" "prop_size ?sh \<le> length (ob_prop ob)"
    using soleD(6,8,9) [OF s] by (simp_all add: f)
  have "(ob_prop ob)[i := ob_prop ob ! i] = ob_prop ob" by simp
  with pe [of "ob_prop ob ! i"] sole_put [OF s wf N order_refl t]
  have s1: "sole N {} ?V p ob ?sh ?s1" using V'(1) by (simp add: f)
  have "prop_size ?sh \<le> length ?vs" using N(3) by simp
  note s2 = sole_values [OF s1 this]
  have "?V(p \<mapsto> (sh_proto ?sh, prop_entries (sh_prop ?sh) ?vs)) = ?V" using pe V'(1) by (simp add: f)
  with s2 have s2: "sole N {} ?V p ?ob ?sh (put_object p ?ob ?s1)" by simp
  let ?s2 = "put_object p ?ob ?s1"
  have il: "i < length (ob_prop ob)" using i(1) len by simp
  have "sr_at F ?s2 (if deleted_prop_count ?sh \<ge> 8 \<and> deleted_prop_count ?sh \<ge> length (sh_prop ?sh) div 2
      then sr_catch (compact_properties p) sr_ignore else sr_return ()) (\<lambda>_. heap_is (\<lambda>_. 0) N ?V) (heap_is (\<lambda>_. 0) N V)"
  proof (cases "deleted_prop_count ?sh \<ge> 8 \<and> deleted_prop_count ?sh \<ge> length (sh_prop ?sh) div 2")
    case True
    then have d8: "8 \<le> deleted_prop_count ?sh" by simp
    have h': "\<not> is_hashed ?sh" using h by (simp add: f)
    have "sr_at F ?s2 (sr_catch (compact_properties p) sr_ignore) (\<lambda>_. heap_is (\<lambda>_. 0) N ?V) (heap_is (\<lambda>_. 0) N V)"
      by (rule sr_at_catch [OF sole_compact [OF s2 h' d8]]) (simp add: sr_ignore_def sr_at_return_iff)
    then show ?thesis using True by (simp del: One_nat_def)
  next
    case False
    then show ?thesis using sole_heap [OF s2] by (simp only: if_False sr_at_return_iff)
  qed
  then have "sr_at F ?s2 (sr_bind (if deleted_prop_count ?sh \<ge> 8 \<and> deleted_prop_count ?sh \<ge> length (sh_prop ?sh) div 2
      then sr_catch (compact_properties p) sr_ignore else sr_return ()) (\<lambda>_. sr_return True))
    (\<lambda>b s'. b \<and> heap_is (\<lambda>_. 0) N ?V s') (heap_is (\<lambda>_. 0) N V)"
    by (rule sr_at_bind) (simp add: sr_at_return_iff)
  then show ?thesis
    unfolding Let_def sr_bind_update set_property_value_def sr_bind_assoc sr_step put_simps soleD(3) [OF s1, unfolded put_simps] option.case
    using il by simp
qed

lemma delete_property_spec:
  assumes inv: "heap_is (\<lambda>_. 0) N V s" and V: "V p = Some (proto, es)" and atom: "atom \<noteq> 0"
  shows "sr_at F s (delete_property p atom)
    (\<lambda>b s'. b = fst (entries_delete atom es) \<and> heap_is (\<lambda>_. 0) N (V(p \<mapsto> (proto, snd (entries_delete atom es)))) s') (heap_is (\<lambda>_. 0) N V)"
proof -
  have V0: "V(p \<mapsto> (proto, es)) = V" using V by (simp add: fun_upd_idem)
  obtain ob sh where o: "rt_objects s p = Some ob" "rt_shapes s (ob_shape ob) = Some sh" "shape_wf sh" "map fst es = live_atoms (sh_prop sh)"
    by (rule heap_object [OF inv V]) (rule that)
  note df = delete_find_spec [OF o(3) atom]
  from df(2) show ?thesis
  proof
    assume none: "(\<forall>i<length (sh_prop sh). pr_atom (sh_prop sh ! i) \<noteq> atom) \<and>
      delete_find_loop (sh_prop sh) atom None (hash_table sh ! unat (atom AND prop_hash_mask sh)) (length (sh_prop sh)) = Inr None"
    then have "atom \<notin> set (live_atoms (sh_prop sh))" by (auto simp: live_atoms_def in_set_conv_nth)
    then have "map_of es atom = None" unfolding map_of_eq_None_iff using o(4) by (metis list.set_map)
    then show ?thesis
      unfolding delete_property_def sr_step o(1,2) option.case using none df(1) inv V0
      by (simp add: sr_bind_lift Let_def entries_delete_def sr_at_return_iff)
  next
    assume "\<exists>i l n. i < length (sh_prop sh) \<and> pr_atom (sh_prop sh ! i) = atom \<and> link_source (prop_hash_mask sh) (sh_prop sh) atom l n \<and>
        bucket_prev (prop_hash_mask sh) (map pr_atom (sh_prop sh)) (unat (atom AND prop_hash_mask sh)) n = Suc i \<and>
        delete_find_loop (sh_prop sh) atom None (hash_table sh ! unat (atom AND prop_hash_mask sh)) (length (sh_prop sh)) = Inr (Some (l, i))"
    then obtain i l n where i: "i < length (sh_prop sh)" "pr_atom (sh_prop sh ! i) = atom" "link_source (prop_hash_mask sh) (sh_prop sh) atom l n"
        "bucket_prev (prop_hash_mask sh) (map pr_atom (sh_prop sh)) (unat (atom AND prop_hash_mask sh)) n = Suc i"
        "delete_find_loop (sh_prop sh) atom None (hash_table sh ! unat (atom AND prop_hash_mask sh)) (length (sh_prop sh)) = Inr (Some (l, i))" by blast
    have at: "prop_at s p atom i" using i(1,2) o(1,2) by (auto simp: prop_at_def)
    obtain w where mo: "map_of es atom = Some (pr_flags (sh_prop sh ! i), w)"
      by (rule prop_at_obtain [OF inv V at atom]) (use o(1,2) that in auto)
    show ?thesis
    proof (cases "pr_flags (sh_prop sh ! i) AND JS_PROP_CONFIGURABLE = 0")
      case True
      then show ?thesis
        unfolding delete_property_def sr_step o(1,2) option.case using i(5) df(1) inv V0 mo
        by (simp add: sr_bind_lift Let_def entries_delete_def sr_at_return_iff)
    next
      case False
      have del: "entries_delete atom es = (True, entry_remove atom es)" using mo False by (simp add: entries_delete_def)
      let ?rest = "\<lambda>ob sh. (let sh = remove_prop atom l i sh
              in sr_bind (sr_update (put_shape (ob_shape ob) sh)) (\<lambda>_.
                 sr_bind (set_property_value p i (Property_Value JS_Undefined)) (\<lambda>_.
                 sr_bind (if deleted_prop_count sh \<ge> 8 \<and> deleted_prop_count sh \<ge> length (sh_prop sh) div 2
                          then sr_catch (compact_properties p) sr_ignore
                          else sr_return ()) (\<lambda>_.
                 sr_return True))))"
      have "sr_at F s (sr_bind (js_shape_prepare_update p) (\<lambda>_. sr_bind (sr_object p) (\<lambda>ob. sr_bind (sr_shape (ob_shape ob)) (\<lambda>sh. ?rest ob sh))))
        (\<lambda>b s'. b = fst (entries_delete atom es) \<and> heap_is (\<lambda>_. 0) N (V(p \<mapsto> (proto, snd (entries_delete atom es)))) s') (heap_is (\<lambda>_. 0) N V)"
      proof (rule sr_at_bind [OF prepare_update_spec [OF inv V o(1,2)]])
        fix x s' assume "\<exists>ob' sh'. sole N {} V p ob' sh' s' \<and> ob_prop ob' = ob_prop ob \<and> sh_core sh' = sh_core (sh\<lparr>sh_ref_count := 1, is_hashed := False\<rparr>)"
        then obtain ob' sh' where s': "sole N {} V p ob' sh' s'" "sh_core sh' = sh_core (sh\<lparr>sh_ref_count := 1, is_hashed := False\<rparr>)" by blast
        have c: "sh_prop sh' = sh_prop sh" "prop_hash_mask sh' = prop_hash_mask sh" "\<not> is_hashed sh'" using sh_core_fields [OF s'(2)] by simp_all
        have "sr_at F s' (?rest ob' sh') (\<lambda>b s'. b \<and> heap_is (\<lambda>_. 0) N (V(p \<mapsto> (proto, entry_remove atom es))) s') (heap_is (\<lambda>_. 0) N V)"
          by (rule sole_remove [OF s'(1) c(3) _ _ atom _ _ V]) (use i c in simp_all)
        then show "sr_at F s' (sr_bind (sr_object p) (\<lambda>ob. sr_bind (sr_shape (ob_shape ob)) (\<lambda>sh. ?rest ob sh)))
          (\<lambda>b s'. b = fst (entries_delete atom es) \<and> heap_is (\<lambda>_. 0) N (V(p \<mapsto> (proto, snd (entries_delete atom es)))) s') (heap_is (\<lambda>_. 0) N V)"
          unfolding sr_step soleD(3,4) [OF s'(1)] option.case del by simp
      qed
      then show ?thesis
        unfolding delete_property_def sr_step o(1,2) option.case using i(5) df(1) False
        by (simp add: sr_bind_lift Let_def)
    qed
  qed
qed

end
