(* ===== verification/ObjectSystem.thy ===== *)
theory ObjectSystem
  imports ObjectDelete
begin

text \<open>
  Programs on objects: sequences of operations, each on one object, and the abstract objects they implement.
\<close>

section \<open>Programs\<close>

datatype obj_op =
    New_Object nat
  | New_Object_Alloc nat nat
  | Define_Property nat u32 nat JSProperty
  | Get_Property nat u32
  | Set_Value nat u32 JSProperty
  | Set_Flags nat u32 nat
  | Delete_Property nat u32
  | Free_Object nat

datatype obj_result =
    Created nat
  | Found "(nat \<times> JSProperty option) option"
  | Done bool

definition get_property :: "nat \<Rightarrow> nat \<Rightarrow> (nat \<times> JSProperty option) srt" where
  "get_property p i = sr_bind (sr_object p) (\<lambda>ob. sr_bind (sr_shape (ob_shape ob)) (\<lambda>sh.
     if i < length (sh_prop sh) \<and> i < length (ob_prop ob) then sr_return (pr_flags (sh_prop sh ! i), ob_prop ob ! i) else sr_throw OutOfBounds))"

text \<open>The operations look the property up first; on an address without an object they do nothing.\<close>

definition on_object :: "nat \<Rightarrow> obj_result srt \<Rightarrow> obj_result srt" where
  "on_object p m = sr_bind (sr_get (\<lambda>s. rt_objects s p = None)) (\<lambda>b. if b then sr_return (Done False) else m)"

fun obj_step :: "obj_op \<Rightarrow> obj_result srt" where
  "obj_step (New_Object proto) = sr_bind (JS_NewObjectProtoClass proto) (\<lambda>p. sr_return (Created p))"
| "obj_step (New_Object_Alloc proto n) = sr_bind (JS_NewObjectProtoClassAlloc proto n) (\<lambda>p. sr_return (Created p))"
| "obj_step (Define_Property p atom flags v) = on_object p (sr_bind (find_own_property p atom) (\<lambda>r. case r of
     None \<Rightarrow> sr_bind (define_property p atom flags v) (\<lambda>_. sr_return (Done True))
   | Some i \<Rightarrow> sr_return (Done False)))"
| "obj_step (Get_Property p atom) = on_object p (sr_bind (find_own_property p atom) (\<lambda>r. case r of
     None \<Rightarrow> sr_return (Found None)
   | Some i \<Rightarrow> sr_bind (get_property p i) (\<lambda>x. sr_return (Found (Some x)))))"
| "obj_step (Set_Value p atom v) = on_object p (sr_bind (find_own_property p atom) (\<lambda>r. case r of
     None \<Rightarrow> sr_return (Done False)
   | Some i \<Rightarrow> sr_bind (set_property_value p i v) (\<lambda>_. sr_return (Done True))))"
| "obj_step (Set_Flags p atom flags) = on_object p (sr_bind (find_own_property p atom) (\<lambda>r. case r of
     None \<Rightarrow> sr_return (Done False)
   | Some i \<Rightarrow> sr_bind (js_update_property_flags p i flags) (\<lambda>_. sr_return (Done True))))"
| "obj_step (Delete_Property p atom) = on_object p (sr_bind (delete_property p atom) (\<lambda>b. sr_return (Done b)))"
| "obj_step (Free_Object p) = on_object p (sr_bind (free_object_shape p) (\<lambda>_. sr_return (Done True)))"

text \<open>A program goes on after an error.\<close>

fun obj_run :: "obj_op list \<Rightarrow> ShapeRuntime \<times> answers \<Rightarrow> (js_error + obj_result) list \<times> ShapeRuntime \<times> answers" where
  "obj_run [] s = ([], s)"
| "obj_run (c # cs) s = (case obj_step c s of (r, s') \<Rightarrow> (case obj_run cs s' of (rs, s'') \<Rightarrow> (r # rs, s'')))"

definition op_valid :: "obj_op \<Rightarrow> bool" where
  "op_valid c \<longleftrightarrow> (case c of
     Define_Property p atom flags v \<Rightarrow> atom \<noteq> 0 \<and> flags < 64
   | Get_Property p atom \<Rightarrow> atom \<noteq> 0
   | Set_Value p atom v \<Rightarrow> atom \<noteq> 0
   | Set_Flags p atom flags \<Rightarrow> atom \<noteq> 0 \<and> flags < 64
   | Delete_Property p atom \<Rightarrow> atom \<noteq> 0
   | _ \<Rightarrow> True)"

section \<open>Abstract objects\<close>

text \<open>
  An abstract heap has a prototype and a list of properties for each object, and no shapes. An operation changes the list
  of its object only.
\<close>

type_synonym obj_heap = "nat \<Rightarrow> obj_view option"

fun entries_step :: "obj_op \<Rightarrow> entries \<Rightarrow> obj_result \<times> entries" where
  "entries_step (Define_Property p atom flags v) es = (case map_of es atom of None \<Rightarrow> (Done True, es @ [(atom, flags, Some v)]) | Some x \<Rightarrow> (Done False, es))"
| "entries_step (Get_Property p atom) es = (Found (map_of es atom), es)"
| "entries_step (Set_Value p atom v) es = (case map_of es atom of None \<Rightarrow> (Done False, es) | Some (f, w) \<Rightarrow> (Done True, entry_put atom (f, Some v) es))"
| "entries_step (Set_Flags p atom flags) es = (case map_of es atom of None \<Rightarrow> (Done False, es) | Some (f, w) \<Rightarrow> (Done True, entry_put atom (flags, w) es))"
| "entries_step (Delete_Property p atom) es = (case entries_delete atom es of (b, es') \<Rightarrow> (Done b, es'))"
| "entries_step c es = (Done False, es)"

fun op_object :: "obj_op \<Rightarrow> nat" where
  "op_object (Define_Property p atom flags v) = p"
| "op_object (Get_Property p atom) = p"
| "op_object (Set_Value p atom v) = p"
| "op_object (Set_Flags p atom flags) = p"
| "op_object (Delete_Property p atom) = p"
| "op_object (Free_Object p) = p"
| "op_object c = 0"

definition spec_step :: "obj_op \<Rightarrow> obj_heap \<Rightarrow> obj_result \<Rightarrow> obj_heap \<Rightarrow> bool" where
  "spec_step c V r V' \<longleftrightarrow> (case c of
     New_Object proto \<Rightarrow> (\<exists>p. r = Created p \<and> V p = None \<and> V' = V(p \<mapsto> (proto, [])))
   | New_Object_Alloc proto n \<Rightarrow> (\<exists>p. r = Created p \<and> V p = None \<and> V' = V(p \<mapsto> (proto, [])))
   | Free_Object p \<Rightarrow> r = Done (V p \<noteq> None) \<and> V' = V(p := None)
   | _ \<Rightarrow> (case V (op_object c) of
        None \<Rightarrow> r = Done False \<and> V' = V
      | Some (proto, es) \<Rightarrow> r = fst (entries_step c es) \<and> V' = V(op_object c \<mapsto> (proto, snd (entries_step c es)))))"

text \<open>A request for memory that fails leaves the heap as it was.\<close>

fun spec_run :: "bool \<Rightarrow> obj_op list \<Rightarrow> obj_heap \<Rightarrow> (js_error + obj_result) list \<Rightarrow> obj_heap \<Rightarrow> bool" where
  "spec_run fails [] V rs V' \<longleftrightarrow> rs = [] \<and> V' = V"
| "spec_run fails (c # cs) V rs V' \<longleftrightarrow> (\<exists>r rs'. rs = r # rs' \<and>
     (case r of
        Inl e \<Rightarrow> fails \<and> e = OutOfMemory \<and> spec_run fails cs V rs' V'
      | Inr x \<Rightarrow> (\<exists>V1. spec_step c V x V1 \<and> spec_run fails cs V1 rs' V')))"

section \<open>The simulation\<close>

lemma init_heap: "heap_is (\<lambda>_. 0) 0 (\<lambda>_. None) init_shape_hash"
proof -
  have "table_ok {} init_shape_hash"
    unfolding table_ok_def
  proof (intro conjI allI impI)
    fix b assume b: "b < length (shape_table init_shape_hash)"
    then have "shape_table init_shape_hash ! b = 0" by (simp add: init_shape_hash_def)
    then show "\<exists>cs. shape_chain (rt_shapes init_shape_hash) (shape_table init_shape_hash ! b) cs \<and> distinct cs \<and>
        set cs = hashed_at (rt_shapes init_shape_hash) (shape_hash_bits init_shape_hash) {} b"
      by (intro exI [of _ "[]"]) (simp add: hashed_at_def init_shape_hash_def)
  qed (simp_all add: init_shape_hash_def)
  then show ?thesis by (simp add: heap_is_def sr_inv_def heap_ok_def view_def init_shape_hash_def fun_eq_iff)
qed

lemma heap_is_mono: "heap_is ext N V s \<Longrightarrow> N \<le> M \<Longrightarrow> heap_is ext M V s"
  unfolding heap_is_def using sr_inv_mono by blast

text \<open>A step from a heap with the view \<open>V\<close>.\<close>

definition step_ok :: "nat \<Rightarrow> obj_heap \<Rightarrow> obj_op \<Rightarrow> ShapeRuntime \<Rightarrow> obj_result srt \<Rightarrow> bool" where
  "step_ok N V c s m \<longleftrightarrow> sr_at False s m (\<lambda>r s'. \<exists>V'. spec_step c V r V' \<and> heap_is (\<lambda>_. 0) (N + 1) V' s') (heap_is (\<lambda>_. 0) (N + 1) V)"

lemma view_None: "heap_is (\<lambda>_. 0) N V s \<Longrightarrow> rt_objects s p = None \<longleftrightarrow> V p = None"
proof
  assume inv: "heap_is (\<lambda>_. 0) N V s" and "rt_objects s p = None"
  then show "V p = None" using heap_isD(2) [OF inv] by (auto simp: view_def)
next
  assume inv: "heap_is (\<lambda>_. 0) N V s" and V: "V p = None"
  show "rt_objects s p = None"
  proof (rule ccontr)
    assume "rt_objects s p \<noteq> None"
    then obtain ob where ob: "rt_objects s p = Some ob" by blast
    then have "view s p \<noteq> None" using sr_inv_object [OF heap_isD(1) [OF inv] ob] by (auto simp: view_def object_ok_def)
    then show False using V heap_isD(2) [OF inv] by simp
  qed
qed

lemma on_object_ok:
  assumes inv: "heap_is (\<lambda>_. 0) N V s" and none: "V p = None \<Longrightarrow> spec_step c V (Done False) V"
    and some: "\<And>proto es. V p = Some (proto, es) \<Longrightarrow> step_ok N V c s m"
  shows "step_ok N V c s (on_object p m)"
proof (cases "V p")
  case None
  then have "rt_objects s p = None" using view_None [OF inv] by blast
  then show ?thesis using none [OF None] heap_is_mono [OF inv, of "N + 1"] by (auto simp: step_ok_def on_object_def sr_at_return_iff)
next
  case (Some x)
  obtain proto es where "V p = Some (proto, es)" using Some by (cases x) auto
  moreover from this obtain ob where "rt_objects s p = Some ob" using view_None [OF inv, of p] by auto
  ultimately show ?thesis using some by (simp add: step_ok_def on_object_def)
qed

lemma found_ok:
  assumes inv: "heap_is (\<lambda>_. 0) N V s" and V: "V p = Some (proto, es)" and atom: "atom \<noteq> 0"
    and none: "map_of es atom = None \<Longrightarrow> step_ok N V c s (f None)"
    and some: "\<And>i x w. prop_at s p atom i \<Longrightarrow> map_of es atom = Some (x, w) \<Longrightarrow> step_ok N V c s (f (Some i))"
  shows "step_ok N V c s (sr_bind (find_own_property p atom) f)"
proof -
  obtain r where r: "\<And>mem. find_own_property p atom (s, mem) = (Inr r, s, mem)"
      "case r of None \<Rightarrow> map_of es atom = None | Some i \<Rightarrow> prop_at s p atom i \<and> map_of es atom \<noteq> None"
    using find_own_property_spec [OF inv V atom] by blast
  have "step_ok N V c s (f r)" using r(2) none some by (cases r) auto
  then show ?thesis unfolding step_ok_def sr_bind_at [OF r(1)] .
qed

lemma step_return:
  assumes inv: "heap_is (\<lambda>_. 0) N V s" and "spec_step c V r V"
  shows "step_ok N V c s (sr_return r)"
  using assms heap_is_mono [OF inv, of "N + 1"] by (auto simp: step_ok_def sr_at_return_iff)

lemma step_then:
  assumes m: "sr_at False s m (\<lambda>x. heap_is (\<lambda>_. 0) M V') (heap_is (\<lambda>_. 0) N V)" and M: "M \<le> N + 1" and c: "spec_step c V r V'"
  shows "step_ok N V c s (sr_bind m (\<lambda>_. sr_return r))"
  unfolding step_ok_def
proof (rule sr_at_bind)
  show "sr_at False s m (\<lambda>x. heap_is (\<lambda>_. 0) (N + 1) V') (heap_is (\<lambda>_. 0) (N + 1) V)"
    by (rule sr_at_conseq [OF m]) (use heap_is_mono M in auto)
next
  fix x s' assume "heap_is (\<lambda>_. 0) (N + 1) V' s'"
  then show "sr_at False s' (sr_return r) (\<lambda>r s'. \<exists>V'. spec_step c V r V' \<and> heap_is (\<lambda>_. 0) (N + 1) V' s') (heap_is (\<lambda>_. 0) (N + 1) V)"
    using c by (auto simp: sr_at_return_iff)
qed

lemma same_view: "V p = Some x \<Longrightarrow> V(p \<mapsto> x) = V"
  by (simp add: fun_upd_idem)

lemma obj_step_ok:
  assumes inv: "heap_is (\<lambda>_. 0) N V s" and N: "N + 1 < 2 ^ 26" and valid: "op_valid c"
  shows "step_ok N V c s (obj_step c)"
proof -
  have new: "step_ok N V c s (sr_bind m (\<lambda>p. sr_return (Created p)))"
    if m: "sr_at False s m (\<lambda>p s'. V p = None \<and> heap_is (\<lambda>_. 0) N (V(p \<mapsto> (proto, []))) s') (heap_is (\<lambda>_. 0) N V)"
      and c: "c = New_Object proto \<or> (\<exists>n. c = New_Object_Alloc proto n)" for m proto
    unfolding step_ok_def
  proof (rule sr_at_bind)
    show "sr_at False s m (\<lambda>p s'. V p = None \<and> heap_is (\<lambda>_. 0) (N + 1) (V(p \<mapsto> (proto, []))) s') (heap_is (\<lambda>_. 0) (N + 1) V)"
      by (rule sr_at_conseq [OF m]) (use heap_is_mono in auto)
  next
    fix p s' assume "V p = None \<and> heap_is (\<lambda>_. 0) (N + 1) (V(p \<mapsto> (proto, []))) s'"
    then show "sr_at False s' (sr_return (Created p)) (\<lambda>r s'. \<exists>V'. spec_step c V r V' \<and> heap_is (\<lambda>_. 0) (N + 1) V' s') (heap_is (\<lambda>_. 0) (N + 1) V)"
      using c by (auto simp: sr_at_return_iff spec_step_def)
  qed
  show ?thesis
  proof (cases c)
    case (New_Object proto)
    then show ?thesis using new [OF NewObjectProtoClass_spec [OF inv]] by simp
  next
    case (New_Object_Alloc proto n)
    then show ?thesis using new [OF NewObjectProtoClassAlloc_spec [OF inv]] by simp
  next
    case (Define_Property p atom flags v)
    have a: "atom \<noteq> 0" "flags < 64" using valid Define_Property by (simp_all add: op_valid_def)
    show ?thesis
      unfolding Define_Property obj_step.simps
    proof (rule on_object_ok [OF inv])
      fix proto es assume V: "V p = Some (proto, es)"
      show "step_ok N V (Define_Property p atom flags v) s (sr_bind (find_own_property p atom) (\<lambda>r. case r of
          None \<Rightarrow> sr_bind (define_property p atom flags v) (\<lambda>_. sr_return (Done True)) | Some i \<Rightarrow> sr_return (Done False)))"
      proof (rule found_ok [OF inv V a(1)])
        assume none: "map_of es atom = None"
        show "step_ok N V (Define_Property p atom flags v) s (case None of
            None \<Rightarrow> sr_bind (define_property p atom flags v) (\<lambda>_. sr_return (Done True)) | Some i \<Rightarrow> sr_return (Done False))"
          unfolding option.case by (rule step_then [OF define_property_spec [OF inv V N a(1) none a(2)]]) (simp_all add: spec_step_def V none)
      next
        fix i x w assume "map_of es atom = Some (x, w)"
        then show "step_ok N V (Define_Property p atom flags v) s (case Some i of
            None \<Rightarrow> sr_bind (define_property p atom flags v) (\<lambda>_. sr_return (Done True)) | Some i \<Rightarrow> sr_return (Done False))"
          by (simp, intro step_return [OF inv]) (simp add: spec_step_def V same_view)
      qed
    qed (simp add: spec_step_def)
  next
    case (Get_Property p atom)
    have a: "atom \<noteq> 0" using valid Get_Property by (simp add: op_valid_def)
    show ?thesis
      unfolding Get_Property obj_step.simps
    proof (rule on_object_ok [OF inv])
      fix proto es assume V: "V p = Some (proto, es)"
      show "step_ok N V (Get_Property p atom) s (sr_bind (find_own_property p atom) (\<lambda>r. case r of
          None \<Rightarrow> sr_return (Found None) | Some i \<Rightarrow> sr_bind (get_property p i) (\<lambda>x. sr_return (Found (Some x)))))"
      proof (rule found_ok [OF inv V a])
        assume "map_of es atom = None"
        then show "step_ok N V (Get_Property p atom) s (case None of
            None \<Rightarrow> sr_return (Found None) | Some i \<Rightarrow> sr_bind (get_property p i) (\<lambda>x. sr_return (Found (Some x))))"
          by (simp, intro step_return [OF inv]) (simp add: spec_step_def V same_view)
      next
        fix i x w assume i: "prop_at s p atom i"
        obtain ob sh where o: "rt_objects s p = Some ob" "rt_shapes s (ob_shape ob) = Some sh" "i < length (sh_prop sh)"
          "shape_wf sh" "prop_size sh \<le> length (ob_prop ob)" "map_of es atom = Some (pr_flags (sh_prop sh ! i), ob_prop ob ! i)"
          by (rule prop_at_obtain [OF inv V i a]) (rule that)
        then have len: "i < length (ob_prop ob)" by (simp add: shape_wf_def)
        have "step_ok N V (Get_Property p atom) s (sr_return (Found (Some (pr_flags (sh_prop sh ! i), ob_prop ob ! i))))"
          by (rule step_return [OF inv]) (simp add: spec_step_def V same_view o(6))
        then show "step_ok N V (Get_Property p atom) s (case Some i of
            None \<Rightarrow> sr_return (Found None) | Some i \<Rightarrow> sr_bind (get_property p i) (\<lambda>x. sr_return (Found (Some x))))"
          using o(1-3) len by (simp add: step_ok_def get_property_def)
      qed
    qed (simp add: spec_step_def)
  next
    case (Set_Value p atom v)
    have a: "atom \<noteq> 0" using valid Set_Value by (simp add: op_valid_def)
    show ?thesis
      unfolding Set_Value obj_step.simps
    proof (rule on_object_ok [OF inv])
      fix proto es assume V: "V p = Some (proto, es)"
      show "step_ok N V (Set_Value p atom v) s (sr_bind (find_own_property p atom) (\<lambda>r. case r of
          None \<Rightarrow> sr_return (Done False) | Some i \<Rightarrow> sr_bind (set_property_value p i v) (\<lambda>_. sr_return (Done True))))"
      proof (rule found_ok [OF inv V a])
        assume "map_of es atom = None"
        then show "step_ok N V (Set_Value p atom v) s (case None of
            None \<Rightarrow> sr_return (Done False) | Some i \<Rightarrow> sr_bind (set_property_value p i v) (\<lambda>_. sr_return (Done True)))"
          by (simp, intro step_return [OF inv]) (simp add: spec_step_def V same_view)
      next
        fix i x w assume i: "prop_at s p atom i" and m: "map_of es atom = Some (x, w)"
        show "step_ok N V (Set_Value p atom v) s (case Some i of
            None \<Rightarrow> sr_return (Done False) | Some i \<Rightarrow> sr_bind (set_property_value p i v) (\<lambda>_. sr_return (Done True)))"
          unfolding option.case by (rule step_then [OF set_property_value_spec [OF inv V i a m]]) (simp_all add: spec_step_def V m)
      qed
    qed (simp add: spec_step_def)
  next
    case (Set_Flags p atom flags)
    have a: "atom \<noteq> 0" "flags < 64" using valid Set_Flags by (simp_all add: op_valid_def)
    show ?thesis
      unfolding Set_Flags obj_step.simps
    proof (rule on_object_ok [OF inv])
      fix proto es assume V: "V p = Some (proto, es)"
      show "step_ok N V (Set_Flags p atom flags) s (sr_bind (find_own_property p atom) (\<lambda>r. case r of
          None \<Rightarrow> sr_return (Done False) | Some i \<Rightarrow> sr_bind (js_update_property_flags p i flags) (\<lambda>_. sr_return (Done True))))"
      proof (rule found_ok [OF inv V a(1)])
        assume "map_of es atom = None"
        then show "step_ok N V (Set_Flags p atom flags) s (case None of
            None \<Rightarrow> sr_return (Done False) | Some i \<Rightarrow> sr_bind (js_update_property_flags p i flags) (\<lambda>_. sr_return (Done True)))"
          by (simp, intro step_return [OF inv]) (simp add: spec_step_def V same_view)
      next
        fix i x w assume i: "prop_at s p atom i" and m: "map_of es atom = Some (x, w)"
        show "step_ok N V (Set_Flags p atom flags) s (case Some i of
            None \<Rightarrow> sr_return (Done False) | Some i \<Rightarrow> sr_bind (js_update_property_flags p i flags) (\<lambda>_. sr_return (Done True)))"
          unfolding option.case by (rule step_then [OF update_flags_spec [OF inv V i a(1) m a(2)]]) (simp_all add: spec_step_def V m)
      qed
    qed (simp add: spec_step_def)
  next
    case (Delete_Property p atom)
    have a: "atom \<noteq> 0" using valid Delete_Property by (simp add: op_valid_def)
    show ?thesis
      unfolding Delete_Property obj_step.simps
    proof (rule on_object_ok [OF inv])
      fix proto es assume V: "V p = Some (proto, es)"
      show "step_ok N V (Delete_Property p atom) s (sr_bind (delete_property p atom) (\<lambda>b. sr_return (Done b)))"
        unfolding step_ok_def
      proof (rule sr_at_bind [OF sr_at_conseq [OF delete_property_spec [OF inv V a]]])
        fix b s' assume "b = fst (entries_delete atom es) \<and> heap_is (\<lambda>_. 0) N (V(p \<mapsto> (proto, snd (entries_delete atom es)))) s'"
        then show "sr_at False s' (sr_return (Done b)) (\<lambda>r s'. \<exists>V'. spec_step (Delete_Property p atom) V r V' \<and> heap_is (\<lambda>_. 0) (N + 1) V' s') (heap_is (\<lambda>_. 0) (N + 1) V)"
          using heap_is_mono [of _ N _ s' "N + 1"] by (cases "entries_delete atom es") (simp add: sr_at_return_iff spec_step_def V)
      qed (use heap_is_mono in auto)
    qed (simp add: spec_step_def)
  next
    case (Free_Object p)
    show ?thesis
      unfolding Free_Object obj_step.simps
    proof (rule on_object_ok [OF inv])
      fix proto es assume V: "V p = Some (proto, es)"
      then obtain ob where "rt_objects s p = Some ob" using view_None [OF inv, of p] by auto
      then show "step_ok N V (Free_Object p) s (sr_bind (free_object_shape p) (\<lambda>_. sr_return (Done True)))"
        by (intro step_then [OF free_object_spec [OF inv]]) (simp_all add: spec_step_def V)
    qed (simp add: spec_step_def fun_upd_idem)
  qed
qed

lemma obj_run_ok:
  assumes "heap_is (\<lambda>_. 0) N V s" "N + length cs < 2 ^ 26" "\<forall>c\<in>set cs. op_valid c" "obj_run cs (s, mem) = (rs, s', mem')"
    and f: "None \<in> set mem \<Longrightarrow> fails"
  shows "spec_run fails cs V rs (view s') \<and> (\<exists>M. heap_is (\<lambda>_. 0) M (view s') s')"
  using assms
proof (induction cs arbitrary: N V s mem rs)
  case Nil
  then show ?case using heap_isD(2) [OF Nil.prems(1)] by auto
next
  case (Cons c cs)
  obtain r s1 mem1 where c: "obj_step c (s, mem) = (r, s1, mem1)" by (metis prod_cases3)
  obtain rs' where rs: "obj_run cs (s1, mem1) = (rs', s', mem')" "rs = r # rs'"
    using Cons.prems(4) c by (auto split: prod.splits)
  have "step_ok N V c s (obj_step c)" by (rule obj_step_ok [OF Cons.prems(1)]) (use Cons.prems in auto)
  then have st: "set mem1 \<subseteq> set mem" "case r of Inr x \<Rightarrow> (\<exists>V'. spec_step c V x V' \<and> heap_is (\<lambda>_. 0) (N + 1) V' s1)
      | Inl e \<Rightarrow> e = OutOfMemory \<and> None \<in> set mem \<and> heap_is (\<lambda>_. 0) (N + 1) V s1"
    using c unfolding step_ok_def sr_at_def by (auto dest!: spec [of _ mem] split: sum.splits)
  have f1: "None \<in> set mem1 \<Longrightarrow> fails" using st(1) Cons.prems(5) by blast
  have n: "N + 1 + length cs < 2 ^ 26" "\<forall>c\<in>set cs. op_valid c" using Cons.prems(2,3) by simp_all
  show ?case
  proof (cases r)
    case (Inl e)
    then show ?thesis using st(2) Cons.IH [OF _ n rs(1) f1] Cons.prems(5) rs(2) by auto
  next
    case (Inr x)
    then obtain V' where V': "spec_step c V x V'" "heap_is (\<lambda>_. 0) (N + 1) V' s1" using st(2) by auto
    from Cons.IH [OF V'(2) n rs(1) f1] V'(1) show ?thesis using rs(2) Inr by auto
  qed
qed

section \<open>Properties\<close>

text \<open>C1: A program of fewer than 2^26 operations on objects, from an empty runtime, gives the results of the same operations on
  independent lists of properties, although the objects share shapes: the shapes that are found, cloned, extended in place,
  resized, compacted and freed are not seen, and an operation that runs out of memory changes nothing.\<close>

theorem objects_refine_lists:
  assumes "length cs < 2 ^ 26" "\<forall>c\<in>set cs. op_valid c" "obj_run cs (init_shape_hash, mem) = (rs, s, mem')"
  shows "spec_run (None \<in> set mem) cs (\<lambda>_. None) rs (view s)"
  by (rule conjunct1 [OF obj_run_ok [OF init_heap _ assms(2,3)]]) (use assms(1) in simp_all)

definition sample_program :: "obj_op list" where
  "sample_program = [New_Object 7, New_Object 7, Define_Property 2 5 7 (Property_Value JS_Null), Define_Property 3 5 7 (Property_Value JS_Undefined),
     Delete_Property 2 5, Get_Property 3 5, Free_Object 2]"

lemma sample_program_valid: "length sample_program < 2 ^ 26" "\<forall>c\<in>set sample_program. op_valid c"
  by (simp_all add: sample_program_def op_valid_def)

theorem objects_refine_lists_witness:
  "\<exists>rs s mem. obj_run sample_program (init_shape_hash, []) = (rs, s, mem) \<and> spec_run False sample_program (\<lambda>_. None) rs (view s)"
proof -
  obtain rs s mem where r: "obj_run sample_program (init_shape_hash, []) = (rs, s, mem)" by (metis prod_cases3)
  from objects_refine_lists [OF sample_program_valid r] show ?thesis using r by auto
qed

text \<open>C5: After such a program no shape is leaked and none is freed while it is in use: the reference count of a shape is the number of
  its objects, which is not zero, and the shape of an object exists. The links of its hash table are those of its properties,
  whose names are distinct, and a shape that is not hashed has one object.\<close>

theorem shapes_counted:
  assumes "length cs < 2 ^ 26" "\<forall>c\<in>set cs. op_valid c" "obj_run cs (init_shape_hash, mem) = (rs, s, mem')"
  shows "(\<forall>a sh. rt_shapes s a = Some sh \<longrightarrow> sh_ref_count sh = int (card (users s a)) \<and> users s a \<noteq> {} \<and> shape_wf sh \<and> (is_hashed sh \<or> sh_ref_count sh = 1)) \<and>
    (\<forall>p ob. rt_objects s p = Some ob \<longrightarrow> (\<exists>sh. rt_shapes s (ob_shape ob) = Some sh \<and> length (sh_prop sh) \<le> length (ob_prop ob)))"
proof -
  have n: "0 + length cs < 2 ^ 26" using assms(1) by simp
  from conjunct2 [OF obj_run_ok [OF init_heap n assms(2,3) TrueI]] obtain M where h: "sr_inv (\<lambda>_. 0) M {} s" by (auto simp: heap_is_def)
  have "sh_ref_count sh = int (card (users s a)) \<and> users s a \<noteq> {} \<and> shape_wf sh \<and> (is_hashed sh \<or> sh_ref_count sh = 1)"
    if "rt_shapes s a = Some sh" for a sh
    using sr_inv_shape [OF h that] by (cases "users s a = {}") (auto simp: shape_ok_def)
  moreover have "\<exists>sh. rt_shapes s (ob_shape ob) = Some sh \<and> length (sh_prop sh) \<le> length (ob_prop ob)" if p: "rt_objects s p = Some ob" for p ob
  proof -
    from sr_inv_object [OF h p] obtain sh where sh: "rt_shapes s (ob_shape ob) = Some sh" "prop_size sh \<le> length (ob_prop ob)"
      by (auto simp: object_ok_def)
    moreover have "length (sh_prop sh) \<le> prop_size sh" using sr_inv_shape [OF h sh(1)] by (simp add: shape_ok_def shape_wf_def)
    ultimately show ?thesis by auto
  qed
  ultimately show ?thesis by blast
qed

theorem shapes_counted_witness:
  "\<exists>rs s mem. obj_run sample_program (init_shape_hash, []) = (rs, s, mem) \<and>
    (\<forall>a sh. rt_shapes s a = Some sh \<longrightarrow> sh_ref_count sh = int (card (users s a)) \<and> users s a \<noteq> {})"
proof -
  obtain rs s mem where r: "obj_run sample_program (init_shape_hash, []) = (rs, s, mem)" by (metis prod_cases3)
  from shapes_counted [OF sample_program_valid r] show ?thesis using r by blast
qed

text \<open>A link of 26 bits: behind a chain whose head has a greater index, the new property does not link to it.\<close>

lemma push_prop_cuts_link:
  assumes "2 ^ 26 \<le> hash_table sh ! unat (atom AND prop_hash_mask sh)"
  shows "hash_next (last (sh_prop (push_prop atom flags sh))) \<noteq> hash_table sh ! unat (atom AND prop_hash_mask sh)"
proof -
  have "hash_next (last (sh_prop (push_prop atom flags sh))) < 2 ^ 26" by (simp add: push_prop_def Let_def link_prop_def)
  then show ?thesis using assms by simp
qed

end
