(* ===== verification/Spec2Isabelle.thy ===== *)
theory Spec2Isabelle
  imports BigIntTheorems BigIntDouble CharRangeSets Pc2Line CStrings ListHead RopeTheorems
    MapSystem MapWeak MapCopy GCFree StackSizeSound ObjectSystem
begin

text \<open>
  A verification development for QuickJSKit, a Swift wrapper around the QuickJS JavaScript engine.
  The program's own logic is the C code of the engine under \<open>src/Sources/CQuickJS\<close>; the development
  models parts of \<open>quickjs.c\<close>, \<open>cutils.c\<close>, \<open>cutils.h\<close>, \<open>libunicode.c\<close>, \<open>libunicode.h\<close> and \<open>list.h\<close>, in the
  64-bit configuration. Definitions carry the names of the C functions; an auxiliary definition that
  stands for a loop or a part of a function is named after it.

  \<^bold>\<open>Conventions.\<close> A C integer is a word of its width where the code relies on the width, and a number
  where its range is established. A double is its bit pattern. An array is a list, and an access outside of it is
  the outcome \<open>OutOfBounds\<close> wherever the code does not test for it. Memory requests are answered by a list of
  answers, of which each request consumes one and which every theorem quantifies over, so that each failure of each
  request is covered (\<open>Prelude\<close>: \<open>js\<close>, \<open>js_malloc_limbs\<close>, \<open>js_malloc_block\<close>, \<open>mem_realloc\<close>). A thrown exception is
  a value of \<open>js_error\<close>. A loop that ends by its structure is a recursive function; one whose end has to be
  proved takes fuel and has the outcome \<open>Nontermination\<close>, and the theorems show that the fuel suffices.
  Releasing memory and the reference counts of values are left out except where the code tests them.

  \<^bold>\<open>Big integers\<close> (\<open>Limbs\<close>, \<open>LimbDiv\<close>: the \<open>mp_\<close> routines on arrays of 64-bit limbs; \<open>BigInt\<close>: \<open>JSBigInt\<close> and
  every arithmetic, logical, shift and comparison operation on it; \<open>BigIntArith\<close>, \<open>BigIntDiv\<close>, \<open>BigIntBits\<close>,
  \<open>BigIntShift\<close>, \<open>BigIntPow\<close>, \<open>BigIntTheorems\<close>: their correctness with respect to the integers;
  \<open>BigIntFloat\<close>, \<open>BigIntDouble\<close>: conversion to and from doubles with correct rounding, and the mixed comparison).
  A BigInt is a list of limbs in two's complement, and \<open>big_wf\<close> says that it is normalised. The division by
  digits is proved against \<open>div\<close> and \<open>mod\<close> with the estimate of each quotient digit off by at most two.

  \<^bold>\<open>Sorting\<close> (\<open>Sort\<close>, \<open>SortDriver\<close>: \<open>rqsort\<close> and \<open>heapsortx\<close> of \<open>cutils.c\<close>). The explicit stack of the
  quicksort has 50 frames; the invariant bounds the depth by the halving of the larger part, so that it never
  overflows even if the comparison function is inconsistent.

  \<^bold>\<open>Character sets\<close> (\<open>CharRange\<close>, \<open>CharRangeSets\<close>: the \<open>cr_\<close> operations of \<open>libunicode.c\<close>). A sorted list of interval
  bounds denotes a set of codes, and the sweep over two lists is proved to implement the set operations. The value
  \<open>UINT32_MAX\<close> is the sentinel of the code and outside of the sets.

  \<^bold>\<open>Buffers and line tables\<close> (\<open>DynBuf\<close>: growable byte buffers; \<open>Leb128\<close>: variable-length numbers and the cached
  computation of lines and columns; \<open>Pc2Line\<close>: the compressed table from program counters to source positions and the
  search in it). The writer and the reader of the table are inverse to each other on sorted slots.

  \<^bold>\<open>Text\<close> (\<open>Utf8\<close>: UTF-8 and surrogates; \<open>CStrings\<close>: bounded copies of C strings; \<open>JSString\<close>: flat strings of 8-bit or
  16-bit units; \<open>StringBuffer\<close>: the growing buffer at the level of bytes, with the widening in place;
  \<open>JSValue\<close>: the values of the engine as one datatype; \<open>Rope\<close>: trees of concatenations with their iterators, the
  linearization and the rebalancing; \<open>RopeUnits\<close>, \<open>RopeBalance\<close>, \<open>RopeTheorems\<close>: their correctness). \<open>rope_ok\<close> is the
  invariant of ropes, \<open>rope_units\<close> their contents. The recursion of the rebalancing through the constructor of ropes ends
  below a stated length, and the development exhibits operands on which it does not end.

  \<^bold>\<open>Maps and sets\<close> (\<open>ListHead\<close>: intrusive doubly linked lists; \<open>JSEquality\<close>: equality of values and hashing of keys;
  \<open>MapState\<close>: the hash table, its records and iterators with every method; \<open>MapInv\<close>, \<open>MapAdd\<close>, \<open>MapDelete\<close>, \<open>MapIter\<close>: the
  invariant \<open>map_inv\<close> and its preservation; \<open>MapSystem\<close>: a map with its iterators as a transition system and its
  simulation by association lists; \<open>MapWeak\<close>: dying keys and \<open>forEach\<close>; \<open>MapCopy\<close>: copies, marking and the finalizer).
  Records live in a store of addresses, in which a freed address is not mapped. \<open>map_inv heap locks s rs\<close> says that the
  links form the list \<open>rs\<close> of exactly the allocated records, that each record that can match is in the chain of
  its hash, that keys are distinct, and that a record has one reference for its entry and one for each of its \<open>locks\<close>.
  Walks along chains and lists are bounded by the number of addresses handed out (\<open>ms_brk\<close>).
  The locale \<open>map_keys\<close> states what the table needs of equality and hashing, and is interpreted on
  \<open>js_same_value_zero\<close> and \<open>map_hash_key\<close>.

  \<^bold>\<open>Garbage collection\<close> (\<open>GCState\<close>: the heap of counted objects, the release of references and the removal of
  cycles; \<open>GCScan\<close>: trial deletion; \<open>GCFree\<close>: freeing). An object is what the collector reads of it, the list of its
  references by type; those of an object's class are a field. \<open>gc_inv ext obj os rt\<close> says that the list of objects is
  \<open>os\<close> and that the count of each is \<open>ext\<close>, its references from outside of the heap, plus those from the objects of the
  list. Walks are bounded by the addresses handed out (\<open>rt_brk\<close>); types of objects bound the recursion of the
  release at 3. Finalizers other than the release of references, and the sweep of weak references that precedes a
  collection in \<open>JS_RunGC\<close>, are not part of it (the sweep of maps is in \<open>MapWeak\<close>).

  \<^bold>\<open>Bytecode\<close> (\<open>Opcodes\<close>: the table of instructions; \<open>StackSize\<close>: \<open>compute_stack_size\<close>, which explores the code of a function
  before it is run; \<open>StackSizeSound\<close>: its correctness). The specification is a step relation \<open>bc_step\<close> between points, a
  position with a depth of the stack and the catch offsets on it, and \<open>bc_verifiable\<close> says that every
  reachable point can execute and that positions have one depth each. The invariant of the exploration, \<open>ss_inv\<close>,
  relates the two tables of the code to a map from positions to points; each position is queued once, so that the
  length of the code bounds the exploration.

  \<^bold>\<open>Objects\<close> (\<open>Shape\<close>: shapes and objects with every operation on their own properties; \<open>ShapeInv\<close>: the invariant
  \<open>shape_wf\<close> of a shape, whose links are determined by the names of its properties; \<open>ShapeTable\<close>: the hash table of the runtime
  and the triples \<open>sr_at\<close> in which the operations are specified; \<open>ObjectHeap\<close>: the invariant \<open>sr_inv\<close> of the
  heap, which counts references, and the elementary changes of the heap; \<open>ObjectOps\<close>, \<open>ObjectAdd\<close>, \<open>ObjectDefine\<close>,
  \<open>ObjectDelete\<close>: the operations; \<open>ObjectSystem\<close>: programs). The view of an object is its prototype and the list of
  its properties, in which no shape occurs, and a program is proved to act on views as on independent lists. \<open>ext\<close> in
  \<open>sr_inv\<close> counts the references to a shape that no object holds in the course of an operation, and \<open>N\<close> bounds the properties of
  a shape, as the code's links have 26 bits. Walks along chains are bounded by the addresses handed out (\<open>sr_brk\<close>) or the
  number of properties, and doubling a table 32 times suffices. Shapes are freed by their count only: the lists of the
  collector, the counts of names and values, fast arrays, exotic objects and the global object are not part of it.

  \<^bold>\<open>Interaction.\<close> The BigInt routines rest on the limb routines; the equality of values on
  strings, ropes, BigInts and doubles; maps on equality, hashing and intrusive lists, and the collector
  on intrusive lists; the line table on the byte
  buffer and the variable-length numbers; ropes on string buffers and flat strings.

  \<^bold>\<open>Not modelled.\<close> The Swift wrapper and the examples only call the engine. The tables of \<open>libunicode-table.h\<close> are
  generated data. The parser, the bytecode compiler and the interpreter, atoms and the access
  to properties along prototypes, modules, promises, generators, regular expressions, the conversion of doubles
  to and from text, dates, JSON, typed arrays and the other built-in objects are future work: they rest on the interpreter, into
  which they call back, or on their own automata and number systems. \<open>dbuf_printf\<close> formats through the C library.
\<close>

end
